(* ===== verification/Prelude.thy ===== *)
theory Prelude
  imports Main "HOL-Library.Word" "HOL-Library.Multiset" "HOL-Library.Monad_Syntax"
begin

unbundle bit_operations_syntax

text \<open>
  Shared vocabulary of the development: the machine types of Go, its run-time panics as values,
  checked access to slices, and the generic facts on words and lists that the components use.

  Go's \<open>uint8\<close> .. \<open>uint64\<close> are \<^typ>\<open>8 word\<close> .. \<^typ>\<open>64 word\<close>: \<open>+\<close>, \<open>-\<close>, \<open>*\<close> wrap, \<open>x << s\<close> is
  \<open>push_bit s x\<close>, \<open>x >> s\<close> is \<open>drop_bit s x\<close> (both give 0 for a shift of the width or more, as in
  Go), \<open>&\<close>, \<open>|\<close>, \<open>^\<close> are \<open>AND\<close>, \<open>OR\<close>, \<open>XOR\<close>, and a conversion between integer types is \<open>ucast\<close>.
  An index or a length is a \<^typ>\<open>nat\<close> where the code keeps it non-negative and an \<^typ>\<open>int\<close> where
  it does not.
\<close>

type_synonym u8 = "8 word"
type_synonym u16 = "16 word"
type_synonym u32 = "32 word"
type_synonym u64 = "64 word"

section \<open>Panics as values\<close>

datatype go_panic = IndexOutOfRange | NilDereference | DivideError | OverflowError | PanicMsg string

type_synonym 'a go = "go_panic + 'a"

text \<open>Sequencing: the first panic ends the computation.\<close>

definition go_bind :: "'a go \<Rightarrow> ('a \<Rightarrow> 'b go) \<Rightarrow> 'b go" where
  "go_bind m f = (case m of Inl e \<Rightarrow> Inl e | Inr a \<Rightarrow> f a)"

named_theorems go_simps \<open>evaluation of computations that may panic\<close>

lemma go_bind_Inr [go_simps, simp]: "go_bind (Inr a) f = f a"
  by (simp add: go_bind_def)

lemma go_bind_Inl [go_simps, simp]: "go_bind (Inl e) f = Inl e"
  by (simp add: go_bind_def)

lemma go_bind_eq_Inr: "go_bind m f = Inr b \<longleftrightarrow> (\<exists>a. m = Inr a \<and> f a = Inr b)"
  by (cases m) auto

lemma go_bind_assoc: "go_bind (go_bind m f) g = go_bind m (\<lambda>x. go_bind (f x) g)"
  by (cases m) simp_all

lemma go_bind_cong [fundef_cong]:
  "m = m' \<Longrightarrow> (\<And>a. m' = Inr a \<Longrightarrow> f a = f' a) \<Longrightarrow> go_bind m f = go_bind m' f'"
  by (cases m') auto

text \<open>A fold whose step may panic.\<close>

primrec go_fold :: "('a \<Rightarrow> 's \<Rightarrow> 's go) \<Rightarrow> 'a list \<Rightarrow> 's \<Rightarrow> 's go" where
  "go_fold f [] s = Inr s"
| "go_fold f (x # xs) s = go_bind (f x s) (go_fold f xs)"

lemma go_fold_cong [fundef_cong]:
  "xs = xs' \<Longrightarrow> s = s' \<Longrightarrow> (\<And>x s. x \<in> set xs' \<Longrightarrow> f x s = g x s) \<Longrightarrow> go_fold f xs s = go_fold g xs' s'"
  by (induction xs arbitrary: xs' s s') (auto intro!: go_bind_cong)

text \<open>An operation on nodes whose \<^const>\<open>None\<close> is a nil dereference, as a computation that panics.\<close>

definition nil_checked :: "'a option \<Rightarrow> 'a go" where
  "nil_checked r = (case r of None \<Rightarrow> Inl NilDereference | Some x \<Rightarrow> Inr x)"

lemma nil_checked_simps [simp]:
  "nil_checked None = Inl NilDereference" "nil_checked (Some x) = Inr x"
  by (simp_all add: nil_checked_def)

section \<open>Checked slice access\<close>

text \<open>
  \<open>s[i]\<close> and \<open>s[i], s[j] = s[j], s[i]\<close>: \<^const>\<open>None\<close> is the run-time panic of an index out of range.
\<close>

definition slice_get :: "'a list \<Rightarrow> nat \<Rightarrow> 'a option" where
  "slice_get xs i = (if i < length xs then Some (xs ! i) else None)"

definition slice_set :: "'a list \<Rightarrow> nat \<Rightarrow> 'a \<Rightarrow> 'a list option" where
  "slice_set xs i v = (if i < length xs then Some (xs[i := v]) else None)"

definition swap :: "'a list \<Rightarrow> nat \<Rightarrow> nat \<Rightarrow> 'a list" where
  "swap xs i j = xs[i := xs ! j, j := xs ! i]"

definition slice_swap :: "'a list \<Rightarrow> nat \<Rightarrow> nat \<Rightarrow> 'a list option" where
  "slice_swap xs i j = (if i < length xs \<and> j < length xs then Some (swap xs i j) else None)"

lemma slice_get_ok [simp]: "i < length xs \<Longrightarrow> slice_get xs i = Some (xs ! i)"
  by (simp add: slice_get_def)

lemma slice_set_ok [simp]: "i < length xs \<Longrightarrow> slice_set xs i v = Some (xs[i := v])"
  by (simp add: slice_set_def)

lemma slice_swap_ok [simp]:
  "i < length xs \<Longrightarrow> j < length xs \<Longrightarrow> slice_swap xs i j = Some (swap xs i j)"
  by (simp add: slice_swap_def)

lemma length_swap [simp]: "length (swap xs i j) = length xs"
  by (simp add: swap_def)

lemma nth_swap:
  "i < length xs \<Longrightarrow> j < length xs \<Longrightarrow> k < length xs \<Longrightarrow>
   swap xs i j ! k = (if k = i then xs ! j else if k = j then xs ! i else xs ! k)"
  by (auto simp: swap_def nth_list_update)

lemma swap_mset [simp]:
  "i < length xs \<Longrightarrow> j < length xs \<Longrightarrow> mset (swap xs i j) = mset xs"
  by (simp add: swap_def mset_swap)

lemma swap_set [simp]: "i < length xs \<Longrightarrow> j < length xs \<Longrightarrow> set (swap xs i j) = set xs"
  by (metis swap_mset set_mset_mset)

text \<open>Reading a table that was checked as a whole.\<close>

lemma map_nth_eq: "map f xs = map g [0..<n] \<Longrightarrow> i < n \<Longrightarrow> f (xs ! i) = g i"
  by (metis add_0 diff_zero length_map length_upt nth_map nth_upt)

lemma map_upt_id: "map f [0..<n] = [0..<n] \<Longrightarrow> k < n \<Longrightarrow> f k = k"
  by (metis add_0 diff_zero length_upt nth_map nth_upt)

section \<open>Words read as natural numbers\<close>

named_theorems unat_simps \<open>reading word operations as arithmetic on natural numbers\<close>

lemma unat_and_mask [unat_simps]: "unat (x AND mask n) = unat x mod 2 ^ n"
  for x :: "'a::len word"
  by (simp only: flip: take_bit_eq_mask take_bit_eq_mod) (simp add: unsigned_take_bit_eq)

lemma unat_shr [unat_simps]: "unat (drop_bit n x) = unat x div 2 ^ n" for x :: "'a::len word"
  by (subst unat_drop_bit_eq) (rule drop_bit_eq_div)

lemma unat_shl [unat_simps]: "unat (push_bit n x) = unat x * 2 ^ n mod 2 ^ LENGTH('a)"
  for x :: "'a::len word"
  by (subst unsigned_push_bit_eq) (simp only: take_bit_eq_mod push_bit_eq_mult)

lemma unat_ucast_mod [unat_simps]: "unat (ucast x :: 'b::len word) = unat x mod 2 ^ LENGTH('b)"
  for x :: "'a::len word"
  by (simp add: unsigned_ucast_eq take_bit_eq_mod)

lemma unat_or_disjoint: "x AND y = 0 \<Longrightarrow> unat (x OR y) = unat x + unat y"
  for x y :: "'a::len word"
proof -
  assume "x AND y = 0"
  then have "unat x AND unat y = 0"
    by (metis unsigned_and_eq unsigned_0)
  then show ?thesis
    by (simp add: unsigned_or_eq disjunctive_add_eq_or)
qed

lemma unat_pow2: "k < LENGTH('a) \<Longrightarrow> unat (2 ^ k :: 'a::len word) = 2 ^ k"
proof -
  assume k: "k < LENGTH('a)"
  have "unat (push_bit k (1 :: 'a word)) = 1 * 2 ^ k mod 2 ^ LENGTH('a)"
    by (subst unat_shl) simp
  with k show ?thesis by (simp add: push_bit_eq_mult)
qed

lemma unat_div_word [unat_simps]: "unat (x div y) = unat x div unat y" for x y :: "'a::len word"
  by (rule unat_div_distrib)

lemma unat_mod_word [unat_simps]: "unat (x mod y) = unat x mod unat y" for x y :: "'a::len word"
  by (rule unat_mod_distrib)

lemma unat_lt64 [simp]: "unat (x :: u64) < 18446744073709551616"
  using unsigned_less [of x, where ?'a = nat] by simp

lemma unat_lt32 [simp]: "unat (x :: u32) < 4294967296"
  using unsigned_less [of x, where ?'a = nat] by simp

lemma unat_lt16 [simp]: "unat (x :: u16) < 65536"
  using unsigned_less [of x, where ?'a = nat] by simp

lemma unat_lt8 [simp]: "unat (x :: u8) < 256"
  using unsigned_less [of x, where ?'a = nat] by simp

lemma bit_top_iff: "bit w (LENGTH('a) - 1) \<longleftrightarrow> 2 ^ (LENGTH('a) - 1) \<le> unat w"
  for w :: "'a::len word"
proof -
  have "unat w < 2 * 2 ^ (LENGTH('a) - 1)"
    by (metis len_gt_0 power_minus_mult unsigned_less mult.commute)
  then have lt: "unat w div 2 ^ (LENGTH('a) - 1) < 2"
    by (simp add: less_mult_imp_div_less)
  have "bit w (LENGTH('a) - 1) \<longleftrightarrow> bit (unat w) (LENGTH('a) - 1)"
    by (simp add: bit_unsigned_iff)
  also have "\<dots> \<longleftrightarrow> odd (unat w div 2 ^ (LENGTH('a) - 1))"
    by (simp add: bit_iff_odd)
  also have "\<dots> \<longleftrightarrow> unat w div 2 ^ (LENGTH('a) - 1) \<noteq> 0"
    using lt by (cases "unat w div 2 ^ (LENGTH('a) - 1)") auto
  also have "\<dots> \<longleftrightarrow> 2 ^ (LENGTH('a) - 1) \<le> unat w"
    by (simp add: div_eq_0_iff not_less)
  finally show ?thesis .
qed

text \<open>Digits put together by shifts, the signed reading, and comparisons with numerals.\<close>

lemma or_digits:
  fixes x y :: "'a::len word"
  assumes "unat y < 2 ^ n" and "unat x * 2 ^ n < 2 ^ LENGTH('a)"
  shows "unat (push_bit n x OR y) = unat x * 2 ^ n + unat y"
proof -
  have "y = take_bit n y"
    using assms(1) by (metis take_bit_nat_eq_self_iff unsigned_take_bit_eq word_unat_eq_iff)
  then have "push_bit n x AND y = 0"
    by (intro bit_word_eqI) (metis bit_and_iff bit_push_bit_iff bit_take_bit_iff linorder_not_le zero_and_eq)
  then show ?thesis using assms(2) by (simp add: unat_or_disjoint unat_shl)
qed

lemma word_of_nat_eqI: "unat x = n \<Longrightarrow> x = of_nat n" for x :: "'a::len word"
  by auto

lemma map_unat_eqD: "map unat xs = ns \<Longrightarrow> xs = map of_nat ns" for xs :: "'a::len word list"
  by (induction xs arbitrary: ns) auto

lemma sint_uint_if:
  fixes w :: "'a::len word"
  shows "sint w = (if unat w < 2 ^ (LENGTH('a) - 1) then uint w else uint w - 2 ^ LENGTH('a))"
proof -
  have "sint w = signed_take_bit (LENGTH('a) - 1) (uint w)" by (simp add: sint_uint)
  then have "sint w = take_bit (Suc (LENGTH('a) - 1)) (uint w) - 2 ^ Suc (LENGTH('a) - 1) * of_bool (bit (uint w) (LENGTH('a) - 1))"
    by (simp only: signed_take_bit_eq_take_bit_minus)
  moreover have "bit (uint w) (LENGTH('a) - 1) \<longleftrightarrow> 2 ^ (LENGTH('a) - 1) \<le> unat w"
    unfolding bit_top_iff [symmetric] by (simp add: bit_uint_iff)
  moreover have "take_bit LENGTH('a) (uint w) = uint w" by (simp add: take_bit_int_eq_self)
  ultimately show ?thesis by (simp add: not_le)
qed

lemma uint_unat_numeral:
  "uint w < numeral k \<longleftrightarrow> unat w < numeral k" "uint w \<le> numeral k \<longleftrightarrow> unat w \<le> numeral k"
  "numeral k < uint w \<longleftrightarrow> numeral k < unat w" "numeral k \<le> uint w \<longleftrightarrow> numeral k \<le> unat w"
proof -
  have u: "uint w = int (unat w)" by simp
  show "uint w < numeral k \<longleftrightarrow> unat w < numeral k" "uint w \<le> numeral k \<longleftrightarrow> unat w \<le> numeral k"
    "numeral k < uint w \<longleftrightarrow> numeral k < unat w" "numeral k \<le> uint w \<longleftrightarrow> numeral k \<le> unat w"
    unfolding u by (metis of_nat_less_iff of_nat_le_iff of_nat_numeral)+
qed

text \<open>A word as a signed number.\<close>

lemma int_unat_i64: "int (unat i) = (if sint i < 0 then sint i + 2 ^ 64 else sint i)" for i :: u64
  using unat_lt64 [of i] sint_uint_if [of i] by (auto simp: uint_unat_numeral split: if_splits)

lemma unat_neg_i64: "sint i < 0 \<Longrightarrow> int (unat (- i)) = - sint i" for i :: u64
proof -
  assume neg: "sint i < 0"
  then have "i \<noteq> 0" by auto
  then have nz: "uint i \<noteq> 0" by (simp add: uint_0_iff)
  have "int (unat (- i)) = (- uint i) mod 2 ^ 64" by (simp add: uint_word_ariths)
  also have "\<dots> = 2 ^ 64 - int (unat i)"
    using nz uint_lt2p [of i] by (simp add: zmod_zminus1_eq_if)
  finally have "int (unat (- i)) = 2 ^ 64 - int (unat i)" .
  then show ?thesis using int_unat_i64 [of i] neg by simp
qed

section \<open>Numeric specifications\<close>

text \<open>The length of a number in bits, its number of one bits, its lowest one bit.\<close>

fun bitlen :: "nat \<Rightarrow> nat" where
  "bitlen n = (if n = 0 then 0 else Suc (bitlen (n div 2)))"

fun popcount :: "nat \<Rightarrow> nat" where
  "popcount n = (if n = 0 then 0 else n mod 2 + popcount (n div 2))"

declare bitlen.simps [simp del] popcount.simps [simp del]

lemma bitlen_0 [simp]: "bitlen 0 = 0"
  by (simp add: bitlen.simps)

lemma popcount_0 [simp]: "popcount 0 = 0"
  by (simp add: popcount.simps)

lemma bitlen_bounds: "n \<noteq> 0 \<Longrightarrow> 2 ^ (bitlen n - 1) \<le> n \<and> n < 2 ^ bitlen n"
proof (induction n rule: bitlen.induct)
  case (1 n)
  show ?case
  proof (cases "n div 2 = 0")
    case True
    with 1 have "n = 1" by simp
    then show ?thesis by (simp add: bitlen.simps)
  next
    case False
    with 1 have IH: "2 ^ (bitlen (n div 2) - 1) \<le> n div 2" "n div 2 < 2 ^ bitlen (n div 2)"
      by auto
    have len: "bitlen n = Suc (bitlen (n div 2))"
      using 1 by (subst bitlen.simps) simp
    have pos: "bitlen (n div 2) \<noteq> 0"
      using False by (subst bitlen.simps) simp
    from pos obtain k where k: "bitlen (n div 2) = Suc k" by (cases "bitlen (n div 2)") auto
    from IH have "2 ^ k \<le> n div 2" "n div 2 < 2 * 2 ^ k"
      by (simp_all add: k)
    then have "2 * 2 ^ k \<le> n" "n < 4 * 2 ^ k" by linarith+
    then show ?thesis by (simp add: len k)
  qed
qed

lemma bitlen_unique: "2 ^ k \<le> n \<Longrightarrow> n < 2 ^ Suc k \<Longrightarrow> bitlen n = Suc k"
proof -
  assume a: "2 ^ k \<le> n" "n < 2 ^ Suc k"
  then have "n \<noteq> 0" by (metis not_one_le_zero one_le_numeral one_le_power order_trans)
  note b = bitlen_bounds [OF this]
  have "bitlen n - 1 < Suc k" and "k < bitlen n"
    using a b by (meson le_less_trans power_less_imp_less_exp one_less_numeral_iff semiring_norm(76))+
  then show ?thesis by simp
qed

lemma bitlen_le_iff: "bitlen n \<le> k \<longleftrightarrow> n < 2 ^ k"
proof (cases "n = 0")
  case False
  note b = bitlen_bounds [OF this]
  show ?thesis
  proof
    assume "bitlen n \<le> k"
    then have "(2::nat) ^ bitlen n \<le> 2 ^ k" by simp
    with b show "n < 2 ^ k" by linarith
  next
    assume "n < 2 ^ k"
    with b have "(2::nat) ^ (bitlen n - 1) < 2 ^ k" by linarith
    then have "bitlen n - 1 < k" by simp
    then show "bitlen n \<le> k" by simp
  qed
qed simp

lemma bitlen_shift: "2 ^ k \<le> n \<Longrightarrow> bitlen n = k + bitlen (n div 2 ^ k)"
proof (induction k arbitrary: n)
  case (Suc k)
  have "2 ^ k \<le> n div 2" using Suc.prems by auto
  then have "bitlen (n div 2) = k + bitlen (n div 2 div 2 ^ k)" by (rule Suc.IH)
  moreover have "n \<noteq> 0" using Suc.prems by (metis not_one_le_zero one_le_numeral one_le_power order_trans)
  then have "bitlen n = Suc (bitlen (n div 2))" by (subst bitlen.simps) simp
  ultimately show ?case by (simp add: div_mult2_eq)
qed simp

lemma popcount_step: "popcount n = n mod 2 + popcount (n div 2)"
  by (subst popcount.simps) simp

lemma popcount_split: "popcount n = popcount (n mod 2 ^ k) + popcount (n div 2 ^ k)"
proof (induction k arbitrary: n)
  case 0
  then show ?case by simp
next
  case (Suc k)
  have "popcount n = n mod 2 + popcount (n div 2)" by (rule popcount_step)
  also have "popcount (n div 2) = popcount (n div 2 mod 2 ^ k) + popcount (n div 2 div 2 ^ k)"
    by (rule Suc.IH)
  also have "n mod 2 + (popcount (n div 2 mod 2 ^ k) + popcount (n div 2 div 2 ^ k)) =
      popcount (n mod 2 ^ Suc k) + popcount (n div 2 div 2 ^ k)"
  proof -
    have "n mod 2 ^ Suc k mod 2 = n mod 2"
      by (simp add: mod_mod_cancel)
    moreover have "n mod 2 ^ Suc k div 2 = n div 2 mod 2 ^ k"
      by (simp add: mod_mult2_eq)
    ultimately show ?thesis using popcount_step [of "n mod 2 ^ Suc k"] by simp
  qed
  finally show ?case by (simp add: div_mult2_eq)
qed

lemma bitlen_numerals [simp]:
  "bitlen (Suc 0) = 1" "bitlen 1 = 1"
  "bitlen (numeral (num.Bit0 n)) = Suc (bitlen (numeral n))"
  "bitlen (numeral (num.Bit1 n)) = Suc (bitlen (numeral n))"
  by (subst bitlen.simps; simp)+

lemma popcount_numerals [simp]:
  "popcount (Suc 0) = 1" "popcount 1 = 1"
  "popcount (numeral (num.Bit0 n)) = popcount (numeral n)"
  "popcount (numeral (num.Bit1 n)) = Suc (popcount (numeral n))"
  by (subst popcount.simps; simp)+
text \<open>The position of the lowest one bit.\<close>

fun ntz :: "nat \<Rightarrow> nat" where
  "ntz n = (if n = 0 \<or> odd n then 0 else Suc (ntz (n div 2)))"

declare ntz.simps [simp del]

lemma ntz_numerals [simp]:
  "ntz (Suc 0) = 0" "ntz 1 = 0"
  "ntz (numeral (num.Bit0 n)) = Suc (ntz (numeral n))"
  "ntz (numeral (num.Bit1 n)) = 0"
  by (subst ntz.simps; simp)+

lemma ntz_odd: "n \<noteq> 0 \<Longrightarrow> \<exists>m. n = 2 ^ ntz n * m \<and> odd m"
proof (induction n rule: ntz.induct)
  case (1 n)
  show ?case
  proof (cases "odd n")
    case True
    then show ?thesis by (subst ntz.simps) simp
  next
    case False
    with 1 have "0 < n div 2" by (auto elim: evenE)
    with 1 False obtain m where "n div 2 = 2 ^ ntz (n div 2) * m" "odd m" by auto
    moreover have "ntz n = Suc (ntz (n div 2))" using False 1 by (subst ntz.simps) simp
    ultimately show ?thesis using False by (intro exI [of _ m]) (auto elim!: evenE)
  qed
qed
text \<open>The \<open>w\<close> low bits in reverse order.\<close>

fun revbits :: "nat \<Rightarrow> nat \<Rightarrow> nat" where
  "revbits 0 n = 0"
| "revbits (Suc w) n = n mod 2 * 2 ^ w + revbits w (n div 2)"

lemma ntz_lt: "n \<noteq> 0 \<Longrightarrow> n < 2 ^ k \<Longrightarrow> ntz n < k"
proof -
  assume n: "n \<noteq> 0" "n < 2 ^ k"
  from ntz_odd [OF n(1)] obtain m where "n = 2 ^ ntz n * m" "odd m" by blast
  then have "2 ^ ntz n \<le> n" by (metis dvd_imp_le dvd_triv_left n(1) not_gr_zero)
  with n(2) have "(2::nat) ^ ntz n < 2 ^ k" by linarith
  then show ?thesis by simp
qed

end
