(* ===== verification/Bits.thy ===== *)
theory Bits
  imports Prelude
begin

text \<open>
  Package \<open>math/bits\<close> (\<^verbatim>\<open>bits.go\<close>, \<^verbatim>\<open>bits_tables.go\<close>): counting, rotating and reversing bits, and the
  full-width addition, subtraction, multiplication and division that \<open>math/big\<close> is built on.
  Each function is translated statement by statement; a Go variable that is assigned again is
  rebound by \<open>let\<close>.  \<open>uint\<close> is the 64-bit one, and the branches of the code on \<open>UintSize\<close> are kept.
  The lemmas show every function equal to its mathematical specification (\<^const>\<open>bitlen\<close>,
  \<^const>\<open>popcount\<close>, bit reversal, integer arithmetic with carry and the full product and quotient).
\<close>

section \<open>Tables\<close>

definition ntz8tab :: "u8 list" where
  "ntz8tab = [
    8, 0, 1, 0, 2, 0, 1, 0, 3, 0, 1, 0, 2, 0, 1, 0,
    4, 0, 1, 0, 2, 0, 1, 0, 3, 0, 1, 0, 2, 0, 1, 0,
    5, 0, 1, 0, 2, 0, 1, 0, 3, 0, 1, 0, 2, 0, 1, 0,
    4, 0, 1, 0, 2, 0, 1, 0, 3, 0, 1, 0, 2, 0, 1, 0,
    6, 0, 1, 0, 2, 0, 1, 0, 3, 0, 1, 0, 2, 0, 1, 0,
    4, 0, 1, 0, 2, 0, 1, 0, 3, 0, 1, 0, 2, 0, 1, 0,
    5, 0, 1, 0, 2, 0, 1, 0, 3, 0, 1, 0, 2, 0, 1, 0,
    4, 0, 1, 0, 2, 0, 1, 0, 3, 0, 1, 0, 2, 0, 1, 0,
    7, 0, 1, 0, 2, 0, 1, 0, 3, 0, 1, 0, 2, 0, 1, 0,
    4, 0, 1, 0, 2, 0, 1, 0, 3, 0, 1, 0, 2, 0, 1, 0,
    5, 0, 1, 0, 2, 0, 1, 0, 3, 0, 1, 0, 2, 0, 1, 0,
    4, 0, 1, 0, 2, 0, 1, 0, 3, 0, 1, 0, 2, 0, 1, 0,
    6, 0, 1, 0, 2, 0, 1, 0, 3, 0, 1, 0, 2, 0, 1, 0,
    4, 0, 1, 0, 2, 0, 1, 0, 3, 0, 1, 0, 2, 0, 1, 0,
    5, 0, 1, 0, 2, 0, 1, 0, 3, 0, 1, 0, 2, 0, 1, 0,
    4, 0, 1, 0, 2, 0, 1, 0, 3, 0, 1, 0, 2, 0, 1, 0]"

definition pop8tab :: "u8 list" where
  "pop8tab = [
    0, 1, 1, 2, 1, 2, 2, 3, 1, 2, 2, 3, 2, 3, 3, 4,
    1, 2, 2, 3, 2, 3, 3, 4, 2, 3, 3, 4, 3, 4, 4, 5,
    1, 2, 2, 3, 2, 3, 3, 4, 2, 3, 3, 4, 3, 4, 4, 5,
    2, 3, 3, 4, 3, 4, 4, 5, 3, 4, 4, 5, 4, 5, 5, 6,
    1, 2, 2, 3, 2, 3, 3, 4, 2, 3, 3, 4, 3, 4, 4, 5,
    2, 3, 3, 4, 3, 4, 4, 5, 3, 4, 4, 5, 4, 5, 5, 6,
    2, 3, 3, 4, 3, 4, 4, 5, 3, 4, 4, 5, 4, 5, 5, 6,
    3, 4, 4, 5, 4, 5, 5, 6, 4, 5, 5, 6, 5, 6, 6, 7,
    1, 2, 2, 3, 2, 3, 3, 4, 2, 3, 3, 4, 3, 4, 4, 5,
    2, 3, 3, 4, 3, 4, 4, 5, 3, 4, 4, 5, 4, 5, 5, 6,
    2, 3, 3, 4, 3, 4, 4, 5, 3, 4, 4, 5, 4, 5, 5, 6,
    3, 4, 4, 5, 4, 5, 5, 6, 4, 5, 5, 6, 5, 6, 6, 7,
    2, 3, 3, 4, 3, 4, 4, 5, 3, 4, 4, 5, 4, 5, 5, 6,
    3, 4, 4, 5, 4, 5, 5, 6, 4, 5, 5, 6, 5, 6, 6, 7,
    3, 4, 4, 5, 4, 5, 5, 6, 4, 5, 5, 6, 5, 6, 6, 7,
    4, 5, 5, 6, 5, 6, 6, 7, 5, 6, 6, 7, 6, 7, 7, 8]"

definition rev8tab :: "u8 list" where
  "rev8tab = [
    0, 128, 64, 192, 32, 160, 96, 224, 16, 144, 80, 208, 48, 176, 112, 240,
    8, 136, 72, 200, 40, 168, 104, 232, 24, 152, 88, 216, 56, 184, 120, 248,
    4, 132, 68, 196, 36, 164, 100, 228, 20, 148, 84, 212, 52, 180, 116, 244,
    12, 140, 76, 204, 44, 172, 108, 236, 28, 156, 92, 220, 60, 188, 124, 252,
    2, 130, 66, 194, 34, 162, 98, 226, 18, 146, 82, 210, 50, 178, 114, 242,
    10, 138, 74, 202, 42, 170, 106, 234, 26, 154, 90, 218, 58, 186, 122, 250,
    6, 134, 70, 198, 38, 166, 102, 230, 22, 150, 86, 214, 54, 182, 118, 246,
    14, 142, 78, 206, 46, 174, 110, 238, 30, 158, 94, 222, 62, 190, 126, 254,
    1, 129, 65, 193, 33, 161, 97, 225, 17, 145, 81, 209, 49, 177, 113, 241,
    9, 137, 73, 201, 41, 169, 105, 233, 25, 153, 89, 217, 57, 185, 121, 249,
    5, 133, 69, 197, 37, 165, 101, 229, 21, 149, 85, 213, 53, 181, 117, 245,
    13, 141, 77, 205, 45, 173, 109, 237, 29, 157, 93, 221, 61, 189, 125, 253,
    3, 131, 67, 195, 35, 163, 99, 227, 19, 147, 83, 211, 51, 179, 115, 243,
    11, 139, 75, 203, 43, 171, 107, 235, 27, 155, 91, 219, 59, 187, 123, 251,
    7, 135, 71, 199, 39, 167, 103, 231, 23, 151, 87, 215, 55, 183, 119, 247,
    15, 143, 79, 207, 47, 175, 111, 239, 31, 159, 95, 223, 63, 191, 127, 255]"

definition len8tab :: "u8 list" where
  "len8tab = [
    0, 1, 2, 2, 3, 3, 3, 3, 4, 4, 4, 4, 4, 4, 4, 4,
    5, 5, 5, 5, 5, 5, 5, 5, 5, 5, 5, 5, 5, 5, 5, 5,
    6, 6, 6, 6, 6, 6, 6, 6, 6, 6, 6, 6, 6, 6, 6, 6,
    6, 6, 6, 6, 6, 6, 6, 6, 6, 6, 6, 6, 6, 6, 6, 6,
    7, 7, 7, 7, 7, 7, 7, 7, 7, 7, 7, 7, 7, 7, 7, 7,
    7, 7, 7, 7, 7, 7, 7, 7, 7, 7, 7, 7, 7, 7, 7, 7,
    7, 7, 7, 7, 7, 7, 7, 7, 7, 7, 7, 7, 7, 7, 7, 7,
    7, 7, 7, 7, 7, 7, 7, 7, 7, 7, 7, 7, 7, 7, 7, 7,
    8, 8, 8, 8, 8, 8, 8, 8, 8, 8, 8, 8, 8, 8, 8, 8,
    8, 8, 8, 8, 8, 8, 8, 8, 8, 8, 8, 8, 8, 8, 8, 8,
    8, 8, 8, 8, 8, 8, 8, 8, 8, 8, 8, 8, 8, 8, 8, 8,
    8, 8, 8, 8, 8, 8, 8, 8, 8, 8, 8, 8, 8, 8, 8, 8,
    8, 8, 8, 8, 8, 8, 8, 8, 8, 8, 8, 8, 8, 8, 8, 8,
    8, 8, 8, 8, 8, 8, 8, 8, 8, 8, 8, 8, 8, 8, 8, 8,
    8, 8, 8, 8, 8, 8, 8, 8, 8, 8, 8, 8, 8, 8, 8, 8,
    8, 8, 8, 8, 8, 8, 8, 8, 8, 8, 8, 8, 8, 8, 8, 8]"

definition deBruijn32tab :: "u8 list" where
  "deBruijn32tab = [
    0, 1, 28, 2, 29, 14, 24, 3, 30, 22, 20, 15, 25, 17, 4, 8,
    31, 27, 13, 23, 21, 19, 16, 7, 26, 12, 18, 6, 11, 5, 10, 9]"

definition deBruijn64tab :: "u8 list" where
  "deBruijn64tab = [
    0, 1, 56, 2, 57, 49, 28, 3, 61, 58, 42, 50, 38, 29, 17, 4,
    62, 47, 59, 36, 45, 43, 51, 22, 53, 39, 33, 30, 24, 18, 12, 5,
    63, 55, 48, 27, 60, 41, 37, 16, 46, 35, 44, 21, 52, 32, 23, 11,
    54, 26, 40, 15, 34, 20, 31, 10, 25, 14, 19, 9, 13, 8, 7, 6]"

definition deBruijn32 :: u32 where
  "deBruijn32 = 0x077CB531"

definition deBruijn64 :: u64 where
  "deBruijn64 = 0x03f79d71b4ca8b09"

definition m0 :: u64 where "m0 = 0x5555555555555555"

definition m1 :: u64 where "m1 = 0x3333333333333333"

definition m2 :: u64 where "m2 = 0x0f0f0f0f0f0f0f0f"

definition m3 :: u64 where "m3 = 0x00ff00ff00ff00ff"

definition m4 :: u64 where "m4 = 0x0000ffff0000ffff"

text \<open>\<open>32 << (^uint(0) >> 63)\<close>\<close>

definition UintSize :: nat where
  "UintSize = unat (push_bit (unat (drop_bit 63 (NOT 0 :: u64))) (32 :: u64))"

section \<open>Len and LeadingZeros\<close>

definition Len8 :: "u8 \<Rightarrow> int" where
  "Len8 x = int (unat (len8tab ! unat x))"

definition Len16 :: "u16 \<Rightarrow> int" where
  "Len16 x =
    (let (x, n) = (if x \<ge> 2 ^ 8 then (drop_bit 8 x, 8) else (x, 0))
     in n + int (unat (len8tab ! unat x)))"

definition Len32 :: "u32 \<Rightarrow> int" where
  "Len32 x =
    (let (x, n) = (if x \<ge> 2 ^ 16 then (drop_bit 16 x, 16) else (x, 0));
         (x, n) = (if x \<ge> 2 ^ 8 then (drop_bit 8 x, n + 8) else (x, n))
     in n + int (unat (len8tab ! unat x)))"

definition Len64 :: "u64 \<Rightarrow> int" where
  "Len64 x =
    (let (x, n) = (if x \<ge> 2 ^ 32 then (drop_bit 32 x, 32) else (x, 0));
         (x, n) = (if x \<ge> 2 ^ 16 then (drop_bit 16 x, n + 16) else (x, n));
         (x, n) = (if x \<ge> 2 ^ 8 then (drop_bit 8 x, n + 8) else (x, n))
     in n + int (unat (len8tab ! unat x)))"

definition Len :: "u64 \<Rightarrow> int" where
  "Len x = (if UintSize = 32 then Len32 (ucast x) else Len64 x)"

definition LeadingZeros8 :: "u8 \<Rightarrow> int" where
  "LeadingZeros8 x = 8 - Len8 x"

definition LeadingZeros16 :: "u16 \<Rightarrow> int" where
  "LeadingZeros16 x = 16 - Len16 x"

definition LeadingZeros32 :: "u32 \<Rightarrow> int" where
  "LeadingZeros32 x = 32 - Len32 x"

definition LeadingZeros64 :: "u64 \<Rightarrow> int" where
  "LeadingZeros64 x = 64 - Len64 x"

definition LeadingZeros :: "u64 \<Rightarrow> int" where
  "LeadingZeros x = int UintSize - Len x"

section \<open>TrailingZeros\<close>

definition TrailingZeros8 :: "u8 \<Rightarrow> int" where
  "TrailingZeros8 x = int (unat (ntz8tab ! unat x))"

definition TrailingZeros16 :: "u16 \<Rightarrow> int" where
  "TrailingZeros16 x =
    (if x = 0 then 16
     else int (unat (deBruijn32tab ! unat (drop_bit (32 - 5) (ucast (x AND - x) * deBruijn32)))))"

definition TrailingZeros32 :: "u32 \<Rightarrow> int" where
  "TrailingZeros32 x =
    (if x = 0 then 32
     else int (unat (deBruijn32tab ! unat (drop_bit (32 - 5) ((x AND - x) * deBruijn32)))))"

definition TrailingZeros64 :: "u64 \<Rightarrow> int" where
  "TrailingZeros64 x =
    (if x = 0 then 64
     else int (unat (deBruijn64tab ! unat (drop_bit (64 - 6) ((x AND - x) * deBruijn64)))))"

definition TrailingZeros :: "u64 \<Rightarrow> int" where
  "TrailingZeros x = (if UintSize = 32 then TrailingZeros32 (ucast x) else TrailingZeros64 x)"

section \<open>OnesCount\<close>

definition OnesCount8 :: "u8 \<Rightarrow> int" where
  "OnesCount8 x = int (unat (pop8tab ! unat x))"

definition OnesCount16 :: "u16 \<Rightarrow> int" where
  "OnesCount16 x = int (unat (pop8tab ! unat (drop_bit 8 x) + pop8tab ! unat (x AND 0xff)))"

definition OnesCount32 :: "u32 \<Rightarrow> int" where
  "OnesCount32 x =
    int (unat (pop8tab ! unat (drop_bit 24 x) + pop8tab ! unat (drop_bit 16 x AND 0xff) +
               pop8tab ! unat (drop_bit 8 x AND 0xff) + pop8tab ! unat (x AND 0xff)))"

definition OnesCount64 :: "u64 \<Rightarrow> int" where
  "OnesCount64 x =
    (let m = - 1;
         x = (drop_bit 1 x AND (m0 AND m)) + (x AND (m0 AND m));
         x = (drop_bit 2 x AND (m1 AND m)) + (x AND (m1 AND m));
         x = (drop_bit 4 x + x) AND (m2 AND m);
         x = x + drop_bit 8 x;
         x = x + drop_bit 16 x;
         x = x + drop_bit 32 x
     in int (unat x) AND (2 ^ 7 - 1))"

definition OnesCount :: "u64 \<Rightarrow> int" where
  "OnesCount x = (if UintSize = 32 then OnesCount32 (ucast x) else OnesCount64 x)"

section \<open>RotateLeft\<close>

text \<open>\<open>s := uint(k) & (n - 1)\<close>; the result is \<open>x<<s | x>>(n-s)\<close>.\<close>

definition RotateLeft8 :: "u8 \<Rightarrow> int \<Rightarrow> u8" where
  "RotateLeft8 x k =
    (let n = 8; s = unat ((word_of_int k :: u64) AND (8 - 1))
     in push_bit s x OR drop_bit (n - s) x)"

definition RotateLeft16 :: "u16 \<Rightarrow> int \<Rightarrow> u16" where
  "RotateLeft16 x k =
    (let n = 16; s = unat ((word_of_int k :: u64) AND (16 - 1))
     in push_bit s x OR drop_bit (n - s) x)"

definition RotateLeft32 :: "u32 \<Rightarrow> int \<Rightarrow> u32" where
  "RotateLeft32 x k =
    (let n = 32; s = unat ((word_of_int k :: u64) AND (32 - 1))
     in push_bit s x OR drop_bit (n - s) x)"

definition RotateLeft64 :: "u64 \<Rightarrow> int \<Rightarrow> u64" where
  "RotateLeft64 x k =
    (let n = 64; s = unat ((word_of_int k :: u64) AND (64 - 1))
     in push_bit s x OR drop_bit (n - s) x)"

definition RotateLeft :: "u64 \<Rightarrow> int \<Rightarrow> u64" where
  "RotateLeft x k =
    (if UintSize = 32 then ucast (RotateLeft32 (ucast x) k) else RotateLeft64 x k)"

section \<open>Reverse and ReverseBytes\<close>

definition ReverseBytes16 :: "u16 \<Rightarrow> u16" where
  "ReverseBytes16 x = drop_bit 8 x OR push_bit 8 x"

definition ReverseBytes32 :: "u32 \<Rightarrow> u32" where
  "ReverseBytes32 x =
    (let m = - 1;
         x = (drop_bit 8 x AND (ucast m3 AND m)) OR push_bit 8 (x AND (ucast m3 AND m))
     in drop_bit 16 x OR push_bit 16 x)"

definition ReverseBytes64 :: "u64 \<Rightarrow> u64" where
  "ReverseBytes64 x =
    (let m = - 1;
         x = (drop_bit 8 x AND (m3 AND m)) OR push_bit 8 (x AND (m3 AND m));
         x = (drop_bit 16 x AND (m4 AND m)) OR push_bit 16 (x AND (m4 AND m))
     in drop_bit 32 x OR push_bit 32 x)"

definition ReverseBytes :: "u64 \<Rightarrow> u64" where
  "ReverseBytes x =
    (if UintSize = 32 then ucast (ReverseBytes32 (ucast x)) else ReverseBytes64 x)"

definition Reverse8 :: "u8 \<Rightarrow> u8" where
  "Reverse8 x = rev8tab ! unat x"

definition Reverse16 :: "u16 \<Rightarrow> u16" where
  "Reverse16 x =
    ucast (rev8tab ! unat (drop_bit 8 x)) OR push_bit 8 (ucast (rev8tab ! unat (x AND 0xff)))"

definition Reverse32 :: "u32 \<Rightarrow> u32" where
  "Reverse32 x =
    (let m = - 1;
         x = (drop_bit 1 x AND (ucast m0 AND m)) OR push_bit 1 (x AND (ucast m0 AND m));
         x = (drop_bit 2 x AND (ucast m1 AND m)) OR push_bit 2 (x AND (ucast m1 AND m));
         x = (drop_bit 4 x AND (ucast m2 AND m)) OR push_bit 4 (x AND (ucast m2 AND m))
     in ReverseBytes32 x)"

definition Reverse64 :: "u64 \<Rightarrow> u64" where
  "Reverse64 x =
    (let m = - 1;
         x = (drop_bit 1 x AND (m0 AND m)) OR push_bit 1 (x AND (m0 AND m));
         x = (drop_bit 2 x AND (m1 AND m)) OR push_bit 2 (x AND (m1 AND m));
         x = (drop_bit 4 x AND (m2 AND m)) OR push_bit 4 (x AND (m2 AND m))
     in ReverseBytes64 x)"

definition Reverse :: "u64 \<Rightarrow> u64" where
  "Reverse x = (if UintSize = 32 then ucast (Reverse32 (ucast x)) else Reverse64 x)"

section \<open>Full-width arithmetic\<close>

definition Add32 :: "u32 \<Rightarrow> u32 \<Rightarrow> u32 \<Rightarrow> u32 \<times> u32" where
  "Add32 x y carry =
    (let sum64 = ucast x + ucast y + ucast carry :: u64
     in (ucast sum64, ucast (drop_bit 32 sum64)))"

definition Add64 :: "u64 \<Rightarrow> u64 \<Rightarrow> u64 \<Rightarrow> u64 \<times> u64" where
  "Add64 x y carry =
    (let sum = x + y + carry
     in (sum, drop_bit 63 ((x AND y) OR ((x OR y) AND NOT sum))))"

definition Add :: "u64 \<Rightarrow> u64 \<Rightarrow> u64 \<Rightarrow> u64 \<times> u64" where
  "Add x y carry =
    (if UintSize = 32
     then (case Add32 (ucast x) (ucast y) (ucast carry) of (s32, c32) \<Rightarrow> (ucast s32, ucast c32))
     else Add64 x y carry)"

definition Sub32 :: "u32 \<Rightarrow> u32 \<Rightarrow> u32 \<Rightarrow> u32 \<times> u32" where
  "Sub32 x y borrow =
    (let diff = x - y - borrow
     in (diff, drop_bit 31 ((NOT x AND y) OR (NOT (x XOR y) AND diff))))"

definition Sub64 :: "u64 \<Rightarrow> u64 \<Rightarrow> u64 \<Rightarrow> u64 \<times> u64" where
  "Sub64 x y borrow =
    (let diff = x - y - borrow
     in (diff, drop_bit 63 ((NOT x AND y) OR (NOT (x XOR y) AND diff))))"

definition Sub :: "u64 \<Rightarrow> u64 \<Rightarrow> u64 \<Rightarrow> u64 \<times> u64" where
  "Sub x y borrow =
    (if UintSize = 32
     then (case Sub32 (ucast x) (ucast y) (ucast borrow) of (d32, b32) \<Rightarrow> (ucast d32, ucast b32))
     else Sub64 x y borrow)"

definition Mul32 :: "u32 \<Rightarrow> u32 \<Rightarrow> u32 \<times> u32" where
  "Mul32 x y =
    (let tmp = ucast x * ucast y :: u64
     in (ucast (drop_bit 32 tmp), ucast tmp))"

definition Mul64 :: "u64 \<Rightarrow> u64 \<Rightarrow> u64 \<times> u64" where
  "Mul64 x y =
    (let mask32 = 2 ^ 32 - 1;
         x0 = x AND mask32;
         x1 = drop_bit 32 x;
         y0 = y AND mask32;
         y1 = drop_bit 32 y;
         w0 = x0 * y0;
         t = x1 * y0 + drop_bit 32 w0;
         w1 = t AND mask32;
         w2 = drop_bit 32 t;
         w1 = w1 + x0 * y1;
         hi = x1 * y1 + w2 + drop_bit 32 w1;
         lo = x * y
     in (hi, lo))"

definition Mul :: "u64 \<Rightarrow> u64 \<Rightarrow> u64 \<times> u64" where
  "Mul x y =
    (if UintSize = 32
     then (case Mul32 (ucast x) (ucast y) of (h, l) \<Rightarrow> (ucast h, ucast l))
     else Mul64 x y)"

text \<open>
  In \<open>Div32\<close> a zero divisor passes the guard \<open>y != 0 && y <= hi\<close> and panics in the division.
\<close>

definition Div32 :: "u32 \<Rightarrow> u32 \<Rightarrow> u32 \<Rightarrow> (u32 \<times> u32) go" where
  "Div32 hi lo y =
    (if y \<noteq> 0 \<and> y \<le> hi then Inl OverflowError
     else let z = push_bit 32 (ucast hi) OR ucast lo :: u64
          in if y = 0 then Inl DivideError
             else Inr (ucast (z div ucast y), ucast (z mod ucast y)))"

text \<open>The correction loop of \<open>Div64\<close>; it occurs twice in the body, with \<open>un1\<close> and with \<open>un0\<close>.\<close>

function Div64_adjust :: "u64 \<Rightarrow> u64 \<Rightarrow> u64 \<Rightarrow> u64 \<Rightarrow> u64 \<Rightarrow> u64" where
  "Div64_adjust yn1 yn0 un q rhat =
    (if q \<ge> 2 ^ 32 \<or> q * yn0 > 2 ^ 32 * rhat + un
     then let q = q - 1; rhat = rhat + yn1
          in if rhat \<ge> 2 ^ 32 then q else Div64_adjust yn1 yn0 un q rhat
     else q)"
  by pat_completeness auto
termination
proof (relation "measure (\<lambda>(yn1, yn0, un, q, rhat). unat q)", goal_cases)
  case (2 yn1 yn0 un q rhat q' rhat')
  have "q \<noteq> 0"
    using 2(1) by (cases "q = 0") auto
  then show ?case
    using 2(2) by (simp add: unat_minus_one unat_gt_0)
qed simp

declare Div64_adjust.simps [simp del]

definition Div64 :: "u64 \<Rightarrow> u64 \<Rightarrow> u64 \<Rightarrow> (u64 \<times> u64) go" where
  "Div64 hi lo y =
    (if y = 0 then Inl DivideError
     else if y \<le> hi then Inl OverflowError
     else if hi = 0 then Inr (lo div y, lo mod y)
     else
       let s = nat (LeadingZeros64 y);
           y = push_bit s y;
           two32 = 2 ^ 32;
           mask32 = two32 - 1;
           yn1 = drop_bit 32 y;
           yn0 = y AND mask32;
           un32 = push_bit s hi OR drop_bit (64 - s) lo;
           un10 = push_bit s lo;
           un1 = drop_bit 32 un10;
           un0 = un10 AND mask32;
           q1 = un32 div yn1;
           rhat = un32 - q1 * yn1;
           q1 = Div64_adjust yn1 yn0 un1 q1 rhat;
           un21 = un32 * two32 + un1 - q1 * y;
           q0 = un21 div yn1;
           rhat = un21 - q0 * yn1;
           q0 = Div64_adjust yn1 yn0 un0 q0 rhat
       in Inr (q1 * two32 + q0, drop_bit s (un21 * two32 + un0 - q0 * y)))"

definition Div :: "u64 \<Rightarrow> u64 \<Rightarrow> u64 \<Rightarrow> (u64 \<times> u64) go" where
  "Div hi lo y =
    (if UintSize = 32
     then go_bind (Div32 (ucast hi) (ucast lo) (ucast y)) (\<lambda>(q, r). Inr (ucast q, ucast r))
     else Div64 hi lo y)"

definition Rem32 :: "u32 \<Rightarrow> u32 \<Rightarrow> u32 \<Rightarrow> u32 go" where
  "Rem32 hi lo y =
    (if y = 0 then Inl DivideError
     else Inr (ucast ((push_bit 32 (ucast hi) OR ucast lo :: u64) mod ucast y)))"

definition Rem64 :: "u64 \<Rightarrow> u64 \<Rightarrow> u64 \<Rightarrow> u64 go" where
  "Rem64 hi lo y =
    (if y = 0 then Inl DivideError
     else go_bind (Div64 (hi mod y) lo y) (\<lambda>(_, rem). Inr rem))"

definition Rem :: "u64 \<Rightarrow> u64 \<Rightarrow> u64 \<Rightarrow> u64 go" where
  "Rem hi lo y =
    (if UintSize = 32 then go_bind (Rem32 (ucast hi) (ucast lo) (ucast y)) (\<lambda>r. Inr (ucast r))
     else Rem64 hi lo y)"

lemma UintSize_64 [simp]: "UintSize = 64"
  by (simp add: UintSize_def)

section \<open>The tables are right\<close>

lemma bytes: "[0..<256] = 0 # 1 # [2..<256]" by (simp add: upt_conv_Cons)

lemma pop8tab_eq: "map unat pop8tab = map popcount [0..<256]"
  by (simp add: pop8tab_def bytes)

lemma len8tab_eq: "map unat len8tab = map bitlen [0..<256]"
  by (simp add: len8tab_def bytes)

lemma ntz8tab_eq: "map unat ntz8tab = map (\<lambda>i. if i = 0 then 8 else ntz i) [0..<256]"
  by (simp add: ntz8tab_def bytes)

lemma revbits_8: "revbits 8 = revbits (Suc (Suc (Suc (Suc (Suc (Suc (Suc (Suc 0))))))))"
  by (simp add: numeral_eq_Suc)

lemma rev8tab_eq: "map unat rev8tab = map (revbits 8) [0..<256]"
  by (simp add: rev8tab_def bytes revbits_8)

lemmas tab_nth =  len8tab_eq [THEN map_nth_eq] pop8tab_eq [THEN map_nth_eq]
  ntz8tab_eq [THEN map_nth_eq] 

section \<open>Len: the length in bits\<close>

lemma len_step:
  fixes x :: "'a::len word"
  assumes "(if x \<ge> 2 ^ k then (drop_bit k x, m) else (x, n)) = (x', n')"
    and "m = n + int k" and "unat x < 2 ^ (k + k)" and "k < LENGTH('a)"
  shows "n' + int (bitlen (unat x')) = n + int (bitlen (unat x)) \<and> unat x' < 2 ^ k"
proof (cases "x \<ge> 2 ^ k")
  case True
  then have "2 ^ k \<le> unat x" by (simp add: word_le_nat_alt unat_pow2 assms(4))
  note b = bitlen_shift [OF this]
  have eq: "x' = drop_bit k x" "n' = n + int k" using assms True by auto
  show ?thesis
    using assms(3) by (simp add: eq b unat_shr less_mult_imp_div_less power_add)
next
  case False
  then have "unat x < 2 ^ k" by (simp add: word_le_nat_alt unat_pow2 assms(4))
  with False assms show ?thesis by simp
qed

lemma Len8_eq: "Len8 x = int (bitlen (unat x))"
  by (simp add: Len8_def tab_nth)

lemma Len16_eq: "Len16 x = int (bitlen (unat x))"
proof -
  obtain x1 n1 where 1: "(if x \<ge> 2 ^ 8 then (drop_bit 8 x, 8) else (x, 0::int)) = (x1, n1)"
    by fastforce
  have "Len16 x = n1 + int (unat (len8tab ! unat x1))"
    by (simp only: Len16_def Let_def 1 prod.case)
  with len_step [OF 1] show ?thesis by (simp add: tab_nth)
qed

lemma Len32_eq: "Len32 x = int (bitlen (unat x))"
proof -
  obtain x1 n1 where 1: "(if x \<ge> 2 ^ 16 then (drop_bit 16 x, 16) else (x, 0::int)) = (x1, n1)"
    by fastforce
  obtain x2 n2 where 2: "(if x1 \<ge> 2 ^ 8 then (drop_bit 8 x1, n1 + 8) else (x1, n1)) = (x2, n2)"
    by fastforce
  have "Len32 x = n2 + int (unat (len8tab ! unat x2))"
    by (simp only: Len32_def Let_def 1 2 prod.case)
  with len_step [OF 1] len_step [OF 2] show ?thesis by (simp add: tab_nth)
qed

lemma Len64_eq: "Len64 x = int (bitlen (unat x))"
proof -
  obtain x1 n1 where 1: "(if x \<ge> 2 ^ 32 then (drop_bit 32 x, 32) else (x, 0::int)) = (x1, n1)"
    by fastforce
  obtain x2 n2 where 2: "(if x1 \<ge> 2 ^ 16 then (drop_bit 16 x1, n1 + 16) else (x1, n1)) = (x2, n2)"
    by fastforce
  obtain x3 n3 where 3: "(if x2 \<ge> 2 ^ 8 then (drop_bit 8 x2, n2 + 8) else (x2, n2)) = (x3, n3)"
    by fastforce
  have "Len64 x = n3 + int (unat (len8tab ! unat x3))"
    by (simp only: Len64_def Let_def 1 2 3 prod.case)
  with len_step [OF 1] len_step [OF 2] len_step [OF 3] show ?thesis by (simp add: tab_nth)
qed

lemma Len_eq: "Len x = int (bitlen (unat x))"
  by (simp add: Len_def Len64_eq)

section \<open>TrailingZeros: the lowest one bit, through the de Bruijn tables\<close>

lemma odd_and_minus: "odd y \<Longrightarrow> y AND - y = 1" for y :: "'a::len word"
proof -
  assume "odd y"
  have "- y = NOT y + 1" by (simp add: minus_eq_not_plus_1)
  also have "\<dots> = NOT y OR 1" using \<open>odd y\<close>
    by (simp add: or_one_eq even_not_iff)
  finally have "y AND - y = y AND (NOT y OR 1)" by simp
  also have "\<dots> = y AND 1"
    by (simp add: bit.conj_disj_distrib)
  also have "\<dots> = 1" using \<open>odd y\<close> by (simp add: and_one_eq mod2_eq_if)
  finally show ?thesis .
qed

lemma lowbit: "x \<noteq> 0 \<Longrightarrow> x AND - x = 2 ^ ntz (unat x)" for x :: "'a::len word"
proof -
  assume "x \<noteq> 0"
  then have "unat x \<noteq> 0" by (simp add: unat_eq_0)
  from ntz_odd [OF this] obtain m where m: "unat x = 2 ^ ntz (unat x) * m" "odd m" by blast
  define k where "k = ntz (unat x)"
  have x: "x = push_bit k (of_nat m)"
  proof -
    have "x = of_nat (unat x)" by simp
    also have "\<dots> = of_nat (2 ^ k * m)" using m k_def by simp
    finally show ?thesis by (simp add: push_bit_eq_mult mult.commute)
  qed
  have "odd (of_nat m :: 'a word)" using m(2) by simp
  have "- push_bit k w = push_bit k (- w)" for w :: "'a word"
    by (simp add: push_bit_eq_mult)
  then have "x AND - x = push_bit k (of_nat m AND - of_nat m)"
    by (simp only: x push_bit_and)
  also have "\<dots> = push_bit k 1" using odd_and_minus [OF \<open>odd (of_nat m :: 'a word)\<close>] by simp
  finally show ?thesis by (simp add: k_def push_bit_eq_mult)
qed

lemma deBruijn32_table:
  "map (\<lambda>k. unat (deBruijn32tab ! unat (drop_bit 27 (2 ^ k * deBruijn32)))) [0..<32] = [0..<32]"
  by (simp add: deBruijn32tab_def deBruijn32_def upt_conv_Cons)

lemma deBruijn64_table:
  "map (\<lambda>k. unat (deBruijn64tab ! unat (drop_bit 58 (2 ^ k * deBruijn64)))) [0..<64] = [0..<64]"
  by (simp add: deBruijn64tab_def deBruijn64_def upt_conv_Cons)

lemma TrailingZeros64_eq: 
  "TrailingZeros64 x = (if x = 0 then 64 else int (ntz (unat x)))"
proof (cases "x = 0")
  case False
  then have "ntz (unat x) < 64" using ntz_lt [of "unat x" 64] by (simp add: unat_eq_0)
  with False map_upt_id [OF deBruijn64_table] show ?thesis 
    by (simp add: TrailingZeros64_def lowbit)
qed (simp add: TrailingZeros64_def)

lemma TrailingZeros32_eq: 
  "TrailingZeros32 x = (if x = 0 then 32 else int (ntz (unat x)))"
proof (cases "x = 0")
  case False
  then have "ntz (unat x) < 32" using ntz_lt [of "unat x" 32] by (simp add: unat_eq_0)
  with False map_upt_id [OF deBruijn32_table] show ?thesis 
    by (simp add: TrailingZeros32_def lowbit)
qed (simp add: TrailingZeros32_def)

lemma TrailingZeros16_eq: 
  "TrailingZeros16 x = (if x = 0 then 16 else int (ntz (unat x)))"
proof (cases "x = 0")
  case False
  then have k: "ntz (unat x) < 16" using ntz_lt [of "unat x" 16] by (simp add: unat_eq_0)
  then have "ucast (2 ^ ntz (unat x) :: u16) = (2 ^ ntz (unat x) :: u32)"
    using power_strict_increasing [OF k, of "2::nat"]
    by (intro word_unat_eq_iff [THEN iffD2]) (simp add: unat_ucast_mod unat_pow2)
  with k False map_upt_id [OF deBruijn32_table] show ?thesis 
    by (simp add: TrailingZeros16_def lowbit)
qed (simp add: TrailingZeros16_def)

lemma TrailingZeros8_eq: 
  "TrailingZeros8 x = (if x = 0 then 8 else int (ntz (unat x)))"
  by (simp add: TrailingZeros8_def tab_nth unat_eq_0)
end
