(* ===== verification/Bits_Count.thy ===== *)
theory Bits_Count
  imports Bits
begin

text \<open>
  \<open>OnesCount\<close> of package \<open>math/bits\<close>: the table-driven widths, and the parallel summation of
  \<open>OnesCount64\<close>.  The summation is followed on natural numbers written in base 16 and then in base
  256: after two rounds every nibble holds its own population count, after the third every byte
  does, and the three shifted additions leave the total in the lowest byte.
\<close>

fun rep :: "nat \<Rightarrow> nat \<Rightarrow> nat" where
  "rep 0 d = 0" | "rep (Suc k) d = d + 16 * rep k d"

lemma div_horner: "a < d \<Longrightarrow> (a + d * m) div d = m" for a :: nat
  by simp

lemma mod_horner: "a < d \<Longrightarrow> (a + d * m) mod d = a" for a :: nat
  by simp

lemma and_horner: "a < 16 \<Longrightarrow> c < 16 \<Longrightarrow> (a + 16 * m) AND (c + 16 * d) = (a AND c) + 16 * (m AND d)" for a c m d :: nat
proof -
  assume h: "a < 16" "c < 16"
  have t: "take_bit 4 (a + 16 * m) = a" "take_bit 4 (c + 16 * d) = c"
    using h by (simp_all add: take_bit_eq_mod)
  have dr: "drop_bit 4 (a + 16 * m) = m" "drop_bit 4 (c + 16 * d) = d"
    using h by (simp_all add: drop_bit_eq_div)
  have "(a + 16 * m) AND (c + 16 * d) = push_bit 4 (drop_bit 4 ((a + 16 * m) AND (c + 16 * d))) + take_bit 4 ((a + 16 * m) AND (c + 16 * d))"
    by (rule bits_ident [symmetric])
  also have "\<dots> = (a AND c) + 16 * (m AND d)"
    by (simp only: take_bit_and drop_bit_and t dr) (simp add: push_bit_eq_mult)
  finally show ?thesis .
qed

lemma s1_horner: "b < 16 \<Longrightarrow> ((b + 16 * n) div 2 AND rep (Suc k) 5) + ((b + 16 * n) AND rep (Suc k) 5) =
  ((b div 2 AND 5) + (b AND 5)) + 16 * ((n div 2 AND rep k 5) + (n AND rep k 5))"
proof -
  assume b: "b < 16"
  have "(b + 16 * n) div 2 = b div 2 + 8 * n"
    using div_mult_self1 [of 2 b "8 * n"] by simp
  also have "\<dots> = (b div 2 + 8 * (n mod 2)) + 16 * (n div 2)"
    using mult_div_mod_eq [of 2 n] by linarith
  finally have e: "(b + 16 * n) div 2 = \<dots>" .
  have "b div 2 + 8 * (n mod 2) < 16" using b by linarith
  moreover have "\<forall>b \<in> set [0..<16]. \<forall>r \<in> set [0..<2]. (b div 2 + 8 * r) AND 5 = b div 2 AND (5::nat)"
    by code_simp
  then have "(b div 2 + 8 * (n mod 2)) AND 5 = b div 2 AND 5"
    using b by simp
  ultimately show ?thesis using b by (simp add: e and_horner)
qed

lemma s2_horner: "b < 16 \<Longrightarrow> ((b + 16 * n) div 4 AND rep (Suc k) 3) + ((b + 16 * n) AND rep (Suc k) 3) =
  ((b div 4 AND 3) + (b AND 3)) + 16 * ((n div 4 AND rep k 3) + (n AND rep k 3))"
proof -
  assume b: "b < 16"
  have "(b + 16 * n) div 4 = b div 4 + 4 * n"
    using div_mult_self1 [of 4 b "4 * n"] by simp
  also have "\<dots> = (b div 4 + 4 * (n mod 4)) + 16 * (n div 4)"
    using mult_div_mod_eq [of 4 n] by linarith
  finally have e: "(b + 16 * n) div 4 = \<dots>" .
  have "b div 4 + 4 * (n mod 4) < 16" using b by linarith
  moreover have "\<forall>b \<in> set [0..<16]. \<forall>r \<in> set [0..<4]. (b div 4 + 4 * r) AND 3 = b div 4 AND (3::nat)"
    by code_simp
  then have "(b div 4 + 4 * (n mod 4)) AND 3 = b div 4 AND 3"
    using b by simp
  ultimately show ?thesis using b by (simp add: e and_horner)
qed

text \<open>The first two rounds leave in each nibble the number of its one bits.\<close>

definition round1 :: "nat \<Rightarrow> nat \<Rightarrow> nat" where
  "round1 k n = (n div 2 AND rep k 5) + (n AND rep k 5)"

definition round2 :: "nat \<Rightarrow> nat \<Rightarrow> nat" where
  "round2 k n = (n div 4 AND rep k 3) + (n AND rep k 3)"

fun nibble_pops :: "nat \<Rightarrow> nat \<Rightarrow> nat" where
  "nibble_pops 0 n = 0"
| "nibble_pops (Suc k) n = popcount (n mod 16) + 16 * nibble_pops k (n div 16)"

lemma rounds: "n < 16 ^ k \<Longrightarrow> round2 k (round1 k n) = nibble_pops k n"
proof (induction k arbitrary: n)
  case (Suc k)
  let ?b = "n mod 16" and ?m = "n div 16"
  have n: "n = ?b + 16 * ?m" by simp
  have c: "\<forall>b \<in> set [0..<16]. (b div 2 AND 5) + (b AND 5) < (16::nat) \<and> 
     (((b div 2 AND 5) + (b AND 5)) div 4 AND 3) + (((b div 2 AND 5) + (b AND 5)) AND 3) = popcount b"
    by code_simp
  let ?c = "(?b div 2 AND 5) + (?b AND 5)"
  have "?b \<in> set [0..<16]" by simp
  with c have c1: "?c < 16" and c2: "(?c div 4 AND 3) + (?c AND 3) = popcount ?b" by blast+
  have r1: "round1 (Suc k) n = ?c + 16 * round1 k ?m"
    unfolding round1_def by (subst (1 2) n) (rule s1_horner, simp)
  have "round2 (Suc k) (?c + 16 * round1 k ?m) = popcount ?b + 16 * round2 k (round1 k ?m)"
    unfolding round2_def using s2_horner [OF c1] c2 by simp
  moreover have "?m < 16 ^ k" using Suc.prems by (simp add: less_mult_imp_div_less mult.commute)
  ultimately show ?case using Suc.IH r1 by simp
qed (simp add: round1_def round2_def)

lemma rep_numeral: "rep (numeral n) d = d + 16 * rep (pred_numeral n) d"
  by (simp add: numeral_eq_Suc)

lemma rep16: "rep 16 5 = 0x5555555555555555" "rep 16 3 = 0x3333333333333333"
  by (simp_all add: rep_numeral)

text \<open>The third round adds neighbouring nibbles.\<close>

fun repf :: "nat \<Rightarrow> nat" where
  "repf 0 = 0"
| "repf (Suc k) = 15 + 256 * repf k"

lemma repf8: "repf 8 = 0x0f0f0f0f0f0f0f0f"
proof -
  have "repf (numeral n) = 15 + 256 * repf (pred_numeral n)" for n
    by (simp add: numeral_eq_Suc)
  then show ?thesis by simp
qed

fun byte_pops :: "nat \<Rightarrow> nat \<Rightarrow> nat" where
  "byte_pops 0 n = 0"
| "byte_pops (Suc k) n = popcount (n mod 256) + 256 * byte_pops k (n div 256)"

lemma popcount_nibble: "popcount (n mod 16) \<le> 4"
proof -
  have "\<forall>b \<in> set [0..<16]. popcount b \<le> 4" by code_simp
  then show ?thesis by simp
qed

lemma nibble_pops_mod: "nibble_pops k n mod 16 \<le> 4"
  using popcount_nibble [of n] by (cases k) (simp_all add: le_less_trans)

lemma nibble_sum:
  "m = 16 * u + v \<Longrightarrow>
   b + 16 * m + (a + 16 * (b + 16 * m)) = (a + b) + 16 * ((b + v) + 16 * (u + m))" for m :: nat
  by simp

lemma round3: "(nibble_pops (2 * k) n div 16 + nibble_pops (2 * k) n) AND repf k = byte_pops k n"
proof (induction k arbitrary: n)
  case (Suc k)
  let ?a = "popcount (n mod 16)" and ?b = "popcount (n div 16 mod 16)"
  let ?m = "nibble_pops (2 * k) (n div 256)"
  have v: "nibble_pops (2 * Suc k) n = ?a + 16 * (?b + 16 * ?m)"
    by (simp add: div_mult2_eq [symmetric])
  have le: "?a \<le> 4" "?b \<le> 4" "?m mod 16 \<le> 4"
    by (rule popcount_nibble popcount_nibble nibble_pops_mod)+
  have d: "(?a + 16 * (?b + 16 * ?m)) div 16 = ?b + 16 * ?m"
    by (rule div_horner) (use le in linarith)
  have e: "(?a + 16 * (?b + 16 * ?m)) div 16 + (?a + 16 * (?b + 16 * ?m)) =
      (?a + ?b) + 16 * ((?b + ?m mod 16) + 16 * (?m div 16 + ?m))"
  proof -
    define u v where "u = ?m div 16" and "v = ?m mod 16"
    then have "?m = 16 * u + v" by simp
    then show ?thesis unfolding d u_def [symmetric] v_def [symmetric] by (rule nibble_sum)
  qed
  have f: "repf (Suc k) = 15 + 16 * (0 + 16 * repf k)" by simp
  have g: "((?b + ?m mod 16) + 16 * (?m div 16 + ?m)) AND (0 + 16 * repf k) =
     0 + 16 * ((?m div 16 + ?m) AND repf k)"
    using le by (subst and_horner) auto
  have h: "(?a + ?b) AND 15 = ?a + ?b"
  proof -
    have "(15::nat) = mask 4" by (simp add: mask_eq_exp_minus_1)
    then have "(?a + ?b) AND 15 = take_bit 4 (?a + ?b)" by (simp only: take_bit_eq_mask)
    then show ?thesis using le by (simp add: take_bit_eq_mod)
  qed
  have ab: "?a + ?b < 16" "(15::nat) < 16" using le by linarith simp
  have r: "((?a + 16 * (?b + 16 * ?m)) div 16 + (?a + 16 * (?b + 16 * ?m))) AND repf (Suc k) =
     (?a + ?b) + 16 * (0 + 16 * ((?m div 16 + ?m) AND repf k))"
    by (simp only: e f g h and_horner [OF ab])
  have q: "popcount (n mod 256) = ?a + ?b"
  proof -
    have "n mod 256 mod 16 = n mod 16" by (simp add: mod_mod_cancel)
    moreover have "n mod 256 div 16 = n div 16 mod 16"
      using mod_mult2_eq [of n 16 16] by simp
    ultimately show ?thesis using popcount_split [of "n mod 256" 4] by simp
  qed
  show ?case
    unfolding v r by (simp add: q Suc.IH [of "n div 256"])
qed simp

lemma popcount_byte: "popcount (n mod 256) \<le> 8"
proof -
  have "popcount (n mod 256) = popcount (n mod 256 mod 16) + popcount (n mod 256 div 16)"
    using popcount_split [of "n mod 256" 4] by simp
  moreover have "n mod 256 div 16 = n mod 256 div 16 mod 16"
    by (simp add: less_mult_imp_div_less)
  ultimately show ?thesis
    using popcount_nibble [of "n mod 256"] popcount_nibble [of "n mod 256 div 16"] by simp
qed

text \<open>The last rounds add the eight bytes into the lowest one.\<close>

lemma fold_bytes:
  fixes q0 q1 q2 q3 q4 q5 q6 q7 :: nat
  assumes q: "q0 \<le> 8" "q1 \<le> 8" "q2 \<le> 8" "q3 \<le> 8" "q4 \<le> 8" "q5 \<le> 8" "q6 \<le> 8" "q7 \<le> 8"
    and x: "x = q0 + 256 * (q1 + 256 * (q2 + 256 * (q3 + 256 * (q4 + 256 * (q5 + 256 * (q6 + 256 * q7))))))"
    and x1: "x1 = x + x div 256" and x2: "x2 = x1 + x1 div 65536" and x3: "x3 = x2 + x2 div 4294967296"
  shows "x3 < 2 ^ 62" "x3 mod 128 = q0 + q1 + q2 + q3 + q4 + q5 + q6 + q7"
proof -
  have d1: "x div 256 = q1 + 256 * (q2 + 256 * (q3 + 256 * (q4 + 256 * (q5 + 256 * (q6 + 256 * q7)))))"
    unfolding x by (rule div_horner) (use q in simp)
  have e1: "x1 = (q0 + q1 + 256 * (q1 + q2)) + 65536 * ((q2 + q3) + 256 * ((q3 + q4) + 256 * ((q4 + q5) + 256 * ((q5 + q6) + 256 * ((q6 + q7) + 256 * q7)))))"
    by (simp only: x1 d1) (simp add: x)
  have d2: "x1 div 65536 = (q2 + q3) + 256 * ((q3 + q4) + 256 * ((q4 + q5) + 256 * ((q5 + q6) + 256 * ((q6 + q7) + 256 * q7))))"
    unfolding e1 by (rule div_horner) (use q in simp)
  have e2: "x2 = ((q0 + q1 + q2 + q3) + 256 * (q1 + q2 + q3 + q4 + 256 * (q2 + q3 + q4 + q5 + 256 * (q3 + q4 + q5 + q6)))) +
    4294967296 * (q4 + q5 + q6 + q7 + 256 * (q5 + q6 + q7 + 256 * (q6 + q7 + 256 * q7)))"
    by (simp only: x2 d2) (simp add: e1)
  have d3: "x2 div 4294967296 = q4 + q5 + q6 + q7 + 256 * (q5 + q6 + q7 + 256 * (q6 + q7 + 256 * q7))"
    unfolding e2 by (rule div_horner) (use q in simp)
  have e3: "x3 = (q0 + q1 + q2 + q3 + q4 + q5 + q6 + q7) +
     128 * (2 * (q1 + q2 + q3 + q4 + 256 * (q2 + q3 + q4 + q5 + 256 * (q3 + q4 + q5 + q6))) +
       2 * (q5 + q6 + q7 + 256 * (q6 + q7 + 256 * q7)) +
       33554432 * (q4 + q5 + q6 + q7 + 256 * (q5 + q6 + q7 + 256 * (q6 + q7 + 256 * q7))))"
    by (simp only: x3 d3) (simp add: e2)
  show "x3 < 2 ^ 62" unfolding e3 using q by simp
  show "x3 mod 128 = q0 + q1 + q2 + q3 + q4 + q5 + q6 + q7"
    unfolding e3 by (rule mod_horner) (use q in simp)
qed

lemma byte_pops_step:
  "byte_pops (Suc k) n = popcount (n mod 256) + 256 * byte_pops k (n div 256)"
  "popcount n = popcount (n mod 256) + popcount (n div 256)"
  using popcount_split [of n 8] by simp_all

lemma last_rounds:
  assumes "n < 2 ^ 64" and x: "x = byte_pops 8 n"
    and "x1 = x + x div 256" and "x2 = x1 + x1 div 65536" and "x3 = x2 + x2 div 4294967296"
  shows "x3 < 2 ^ 62" "x3 mod 128 = popcount n"
proof -
  define n1 where "n1 = n div 256"
  define n2 where "n2 = n1 div 256"
  define n3 where "n3 = n2 div 256"
  define n4 where "n4 = n3 div 256"
  define n5 where "n5 = n4 div 256"
  define n6 where "n6 = n5 div 256"
  define n7 where "n7 = n6 div 256"
  note ns = n1_def n2_def n3_def n4_def n5_def n6_def n7_def
  have "n7 div 256 = n div 2 ^ 64" unfolding ns by (simp add: div_mult2_eq [symmetric])
  then have z: "popcount (n7 div 256) = 0" using assms(1) by simp
  have xe: "x = popcount (n mod 256) + 256 * (popcount (n1 mod 256) + 256 * (popcount (n2 mod 256) +
      256 * (popcount (n3 mod 256) + 256 * (popcount (n4 mod 256) + 256 * (popcount (n5 mod 256) +
      256 * (popcount (n6 mod 256) + 256 * popcount (n7 mod 256)))))))"
  proof -
    have e8: "(8::nat) = Suc (Suc (Suc (Suc (Suc (Suc (Suc (Suc 0)))))))" by simp
    show ?thesis unfolding x ns
      by (simp only: e8 byte_pops.simps mult_0_right add_0_right)
  qed
  have pe: "popcount n = popcount (n mod 256) + popcount (n1 mod 256) + popcount (n2 mod 256) +
     popcount (n3 mod 256) + popcount (n4 mod 256) + popcount (n5 mod 256) + popcount (n6 mod 256) +
     popcount (n7 mod 256)"
    using byte_pops_step(2) [of n, folded n1_def] byte_pops_step(2) [of n1, folded n2_def]
      byte_pops_step(2) [of n2, folded n3_def] byte_pops_step(2) [of n3, folded n4_def]
      byte_pops_step(2) [of n4, folded n5_def] byte_pops_step(2) [of n5, folded n6_def]
      byte_pops_step(2) [of n6, folded n7_def] byte_pops_step(2) [of n7] z
    by linarith
  note f = fold_bytes [OF popcount_byte popcount_byte popcount_byte popcount_byte popcount_byte
      popcount_byte popcount_byte popcount_byte xe assms(3-5)]
  show "x3 < 2 ^ 62" by (rule f(1))
  show "x3 mod 128 = popcount n" using f(2) pe by simp
qed

lemma and_le_right: "(a AND b :: nat) \<le> b"
  by (metis and.commute and_nat_def nat_int nat_mono of_nat_0_le_iff AND_upper1)

lemma nibble_pops_le: "nibble_pops k n \<le> rep k 4"
  by (induction k arbitrary: n) (use popcount_nibble in \<open>auto intro: add_mono\<close>)

lemma OnesCount64_popcount: "OnesCount64 x = int (popcount (unat x))"
proof -
  define X where "X = unat x"
  have X: "X < 2 ^ 64" by (simp add: X_def)
  define w1 where "w1 = (drop_bit 1 x AND m0) + (x AND m0)"
  define w2 where "w2 = (drop_bit 2 w1 AND m1) + (w1 AND m1)"
  define w3 where "w3 = (drop_bit 4 w2 + w2) AND m2"
  define w4 where "w4 = w3 + drop_bit 8 w3"
  define w5 where "w5 = w4 + drop_bit 16 w4"
  define w6 where "w6 = w5 + drop_bit 32 w5"
  have u1: "unat w1 = round1 16 X"
  proof -
    have "(X div 2 AND 0x5555555555555555) + (X AND 0x5555555555555555) < 2 ^ 64"
      using and_le_right [of "X div 2" "0x5555555555555555"] and_le_right [of X "0x5555555555555555"]
      by simp
    then show ?thesis
      by (simp add: w1_def m0_def unat_word_ariths unsigned_and_eq unat_shr round1_def rep16 flip: X_def)
  qed
  have u2: "unat w2 = nibble_pops 16 X"
  proof -
    have "round2 16 (unat w1) < 2 ^ 64"
      unfolding round2_def rep16
      using and_le_right [of "unat w1 div 4" "0x3333333333333333"] and_le_right [of "unat w1" "0x3333333333333333"]
      by simp
    then have "unat w2 = round2 16 (unat w1)"
      by (simp add: w2_def m1_def unat_word_ariths unsigned_and_eq unat_shr round2_def rep16)
    then show ?thesis using rounds [of X 16] X by (simp add: u1)
  qed
  have u3: "unat w3 = byte_pops 8 X"
  proof -
    have "nibble_pops 16 X \<le> 0x4444444444444444"
      using nibble_pops_le [of 16 X] by (simp add: rep_numeral)
    then show ?thesis
      using round3 [of 8 X]
      by (simp add: w3_def m2_def unat_word_ariths unsigned_and_eq unat_shr u2 repf8)
  qed
  note last = last_rounds [OF X u3 refl refl refl]
  have "unat w3 + unat w3 div 256 < 2 ^ 64" using last(1) by simp
  then have u4: "unat w4 = unat w3 + unat w3 div 256"
    by (simp add: w4_def unat_word_ariths unat_shr)
  have "unat w4 + unat w4 div 65536 < 2 ^ 64" using last(1) by (simp add: u4)
  then have u5: "unat w5 = unat w4 + unat w4 div 65536"
    by (simp add: w5_def unat_word_ariths unat_shr)
  have "unat w5 + unat w5 div 4294967296 < 2 ^ 64" using last(1) by (simp add: u4 u5)
  then have u6: "unat w6 = unat w5 + unat w5 div 4294967296"
    by (simp add: w6_def unat_word_ariths unat_shr)
  have "OnesCount64 x = int (unat w6) AND (2 ^ 7 - 1)"
    by (simp only: OnesCount64_def Let_def w6_def w5_def w4_def w3_def w2_def w1_def and.right_neutral)
  also have "\<dots> = int (unat w6 mod 128)"
  proof -
    have "(2::int) ^ 7 - 1 = mask 7" by (simp add: mask_eq_exp_minus_1)
    then show ?thesis
      by (simp only: take_bit_eq_mask [symmetric] take_bit_eq_mod) (simp add: zmod_int)
  qed
  also have "unat w6 mod 128 = popcount X"
    using last(2) by (simp add: u6 u5 u4)
  finally show ?thesis by (simp add: X_def)
qed

section \<open>The table-driven widths\<close>

lemma OnesCount8_popcount: "OnesCount8 x = int (popcount (unat x))"
  by (simp add: OnesCount8_def tab_nth)

lemma unat_low_byte: "unat (x AND 0xff) = unat x mod 256" for x :: "'a::len word"
proof -
  have "x AND 0xff = x AND mask 8" by (simp add: mask_eq_exp_minus_1)
  then show ?thesis by (simp only: unat_and_mask) simp
qed

lemma OnesCount16_popcount: "OnesCount16 x = int (popcount (unat x))"
proof -
  have "unat x div 256 = unat x div 256 mod 256" by (simp add: less_mult_imp_div_less)
  then have "popcount (unat x div 256) \<le> 8" by (metis popcount_byte)
  moreover have "popcount (unat x mod 256) \<le> 8" by (rule popcount_byte)
  ultimately show ?thesis
    using popcount_split [of "unat x" 8]
    by (simp add: OnesCount16_def unat_word_ariths unat_shr unat_low_byte tab_nth less_mult_imp_div_less)
qed

lemma OnesCount32_popcount: "OnesCount32 x = int (popcount (unat x))"
proof -
  let ?n = "unat x"
  have "?n div 2 ^ 24 < 256" by (simp add: less_mult_imp_div_less)
  then have top: "?n div 2 ^ 24 = ?n div 2 ^ 24 mod 256" by simp
  have "popcount ?n = popcount (?n mod 256) + popcount (?n div 2 ^ 8)"
    using popcount_split [of ?n 8] by simp
  also have "popcount (?n div 2 ^ 8) = popcount (?n div 2 ^ 8 mod 256) + popcount (?n div 2 ^ 16)"
    using popcount_split [of "?n div 2 ^ 8" 8] by (simp add: div_mult2_eq [symmetric])
  also have "popcount (?n div 2 ^ 16) = popcount (?n div 2 ^ 16 mod 256) + popcount (?n div 2 ^ 24)"
    using popcount_split [of "?n div 2 ^ 16" 8] by (simp add: div_mult2_eq [symmetric])
  finally have sum: "popcount ?n = popcount (?n mod 256) + (popcount (?n div 2 ^ 8 mod 256) +
      (popcount (?n div 2 ^ 16 mod 256) + popcount (?n div 2 ^ 24 mod 256)))"
    using top by simp
  have "unat (pop8tab ! unat (drop_bit 24 x)) = popcount (?n div 2 ^ 24 mod 256)"
    using top by (simp add: unat_shr tab_nth)
  moreover have "unat (pop8tab ! unat (drop_bit 16 x AND 0xff)) = popcount (?n div 2 ^ 16 mod 256)"
    by (simp add: unat_shr unat_low_byte tab_nth)
  moreover have "unat (pop8tab ! unat (drop_bit 8 x AND 0xff)) = popcount (?n div 2 ^ 8 mod 256)"
    by (simp add: unat_shr unat_low_byte tab_nth)
  moreover have "unat (pop8tab ! unat (x AND 0xff)) = popcount (?n mod 256)"
    by (simp add: unat_low_byte tab_nth)
  moreover note popcount_byte [of "?n div 2 ^ 24"] popcount_byte [of "?n div 2 ^ 16"]
    popcount_byte [of "?n div 2 ^ 8"] popcount_byte [of ?n]
  ultimately show ?thesis
    unfolding OnesCount32_def sum by (simp add: unat_word_ariths)
qed

lemma OnesCount_popcount: "OnesCount x = int (popcount (unat x))"
  by (simp add: OnesCount_def OnesCount64_popcount)

end
