(* ===== verification/Bits_Reverse.thy ===== *)
theory Bits_Reverse
  imports Bits
begin

text \<open>
  \<open>RotateLeft\<close>, \<open>Reverse\<close> and \<open>ReverseBytes\<close> of package \<open>math/bits\<close>.  A round of the reversal
  exchanges neighbouring fields of \<open>k\<close> bits, so it moves the bit at \<open>flip k i\<close> to \<open>i\<close>; the rounds
  together move the bit at \<open>63 - i\<close>.
\<close>

section \<open>RotateLeft\<close>

lemma rotate_bits:
  fixes x :: "'a::len word"
  assumes "s < LENGTH('a)"
  shows "push_bit s x OR drop_bit (LENGTH('a) - s) x = word_rotl s x"
proof (rule bit_word_eqI)
  fix i assume "i < LENGTH('a)"
  moreover have "(i + (LENGTH('a) - s mod LENGTH('a))) mod LENGTH('a) =
      (if s \<le> i then i - s else i + LENGTH('a) - s)"
    using assms \<open>i < LENGTH('a)\<close> by (auto simp: mod_if)
  ultimately show "bit (push_bit s x OR drop_bit (LENGTH('a) - s) x) i = bit (word_rotl s x) i"
    using assms by (auto simp: bit_push_bit_iff bit_drop_bit_eq bit_or_iff bit_word_rotl_iff add.commute
        dest: bit_imp_le_length)
qed

lemma unat_and_mask_int: "unat ((word_of_int k :: u64) AND mask n) = nat (k mod 2 ^ n)" if "n \<le> 64"
proof -
  have "unat (word_of_int (take_bit n k) :: u64) = nat (take_bit 64 (take_bit n k))"
    by (simp add: unsigned_of_int)
  also have "\<dots> = nat (take_bit n k)"
    using that by (simp add: min_def del: take_bit_numeral_numeral)
  finally show ?thesis by (simp add: and_mask_wi take_bit_eq_mod)
qed

lemma RotateLeft64_rotl: "RotateLeft64 x k = word_rotl (nat (k mod 64)) x"
proof -
  have "unat ((word_of_int k :: u64) AND (64 - 1)) = nat (k mod 64)"
    using unat_and_mask_int [of 6 k] by (simp add: mask_eq_exp_minus_1)
  then show ?thesis
    using rotate_bits [of "nat (k mod 64)" x] by (simp add: RotateLeft64_def)
qed

lemma word_rotl_roti: "word_rotl (nat (k mod int LENGTH('a))) x = word_roti (- k) x"
  for x :: "'a::len word"
proof -
  have "word_roti (- k) x = word_roti (- (k mod int LENGTH('a))) x"
    using word_roti_conv_mod [of "- k" x] word_roti_conv_mod [of "- (k mod int LENGTH('a))" x]
    by (simp add: mod_minus_eq)
  moreover have "word_rotl 0 x = word_rotr 0 x"
    by (rule bit_word_eqI) (simp add: bit_simps)
  moreover have "0 \<le> k mod int LENGTH('a)" by simp
  ultimately show ?thesis
    by (cases "k mod int LENGTH('a) = 0") (simp_all add: word_roti_eq_word_rotr_word_rotl)
qed

section \<open>Reverse\<close>

definition flip :: "nat \<Rightarrow> nat \<Rightarrow> nat" where
  "flip k i = (if even (i div k) then i + k else i - k)"

lemma swap_fields:
  fixes x :: "'a::len word"
  assumes "\<And>i. i < LENGTH('a) \<Longrightarrow> bit m i \<longleftrightarrow> even (i div k)"
    and "i < LENGTH('a)"
  shows "bit ((drop_bit k x AND m) OR push_bit k (x AND m)) i = bit x (flip k i)"
proof (cases "k = 0")
  case False
  show ?thesis
  proof (cases "even (i div k)")
    case True
    moreover have "k \<le> i \<Longrightarrow> odd ((i - k) div k)"
      using True False by (simp add: le_div_geq)
    ultimately show ?thesis
      using assms by (auto simp: bit_simps flip_def add.commute)
  next
    case odd: False
    then have "k \<le> i" using False by (metis div_less even_zero not_le)
    moreover have "even ((i - k) div k)"
      using odd False calculation by (simp add: le_div_geq)
    ultimately show ?thesis
      using assms odd by (auto simp: bit_simps flip_def add.commute)
  qed
qed (use assms in \<open>auto simp: bit_simps flip_def\<close>)

lemma upt64: "[0..<64] = 0 # 1 # [2..<64]" by (simp add: upt_conv_Cons)

lemma mask_table:
  "map (\<lambda>i. odd (unat m div 2 ^ i)) [0..<n] = map (\<lambda>i. even (i div k)) [0..<n] \<Longrightarrow> i < n \<Longrightarrow>
   bit m i \<longleftrightarrow> even (i div k)" for m :: "'a::len word"
proof -
  assume t: "map (\<lambda>i. odd (unat m div 2 ^ i)) [0..<n] = map (\<lambda>i. even (i div k)) [0..<n]" "i < n"
  from map_nth_eq [OF t] t(2) have "odd (unat m div 2 ^ i) = even (i div k)" by simp
  moreover have "bit m i \<longleftrightarrow> bit (unat m) i"
    by (simp add: bit_unsigned_iff)
  ultimately show ?thesis by (simp add: bit_iff_odd)
qed

lemma m0_table: "map (\<lambda>i. odd (unat m0 div 2 ^ i)) [0..<64] = map (\<lambda>i. even (i div 1)) [0..<64]"
  by (simp add: m0_def upt64)

lemma m1_table: "map (\<lambda>i. odd (unat m1 div 2 ^ i)) [0..<64] = map (\<lambda>i. even (i div 2)) [0..<64]"
  by (simp add: m1_def upt64)

lemma flips: "map (\<lambda>i. flip 1 (flip 2 (flip 4 (flip 8 (flip 16 (flip 32 i)))))) [0..<64] = map (\<lambda>i. 63 - i) [0..<64]"
  by (simp add: flip_def upt64)

lemma m2_table: "map (\<lambda>i. odd (unat m2 div 2 ^ i)) [0..<64] = map (\<lambda>i. even (i div 4)) [0..<64]"
  by (simp add: m2_def upt64)

lemma m3_table: "map (\<lambda>i. odd (unat m3 div 2 ^ i)) [0..<64] = map (\<lambda>i. even (i div 8)) [0..<64]"
  by (simp add: m3_def upt64)

lemma m4_table: "map (\<lambda>i. odd (unat m4 div 2 ^ i)) [0..<64] = map (\<lambda>i. even (i div 16)) [0..<64]"
  by (simp add: m4_def upt64)

lemma flip_lt: "i < 64 \<Longrightarrow> k \<in> {1,2,4,8,16,32} \<Longrightarrow> flip k i < 64"
proof -
  have "\<forall>k \<in> set [1,2,4,8,16,32]. \<forall>i \<in> set [0..<64]. flip k i < 64" by (simp add: flip_def upt64)
  then show "i < 64 \<Longrightarrow> k \<in> {1,2,4,8,16,32} \<Longrightarrow> flip k i < 64" by auto
qed

lemma swap_halves: "i < 64 \<Longrightarrow> bit (drop_bit 32 x OR push_bit 32 x) i = bit x (flip 32 i)" for x :: u64
proof (cases "i < 32")
  case False
  moreover assume "i < 64"
  ultimately have "i div 32 = 1" by (simp add: div_nat_eqI)
  with False \<open>i < 64\<close> show ?thesis
    by (auto simp: bit_simps flip_def add.commute dest: bit_imp_le_length)
qed (auto simp: bit_simps flip_def add.commute dest: bit_imp_le_length)

lemma ReverseBytes64_bit: "i < 64 \<Longrightarrow> bit (ReverseBytes64 x) i = bit x (flip 8 (flip 16 (flip 32 i)))"
proof -
  assume i: "i < 64"
  define y where "y = (drop_bit 8 x AND m3) OR push_bit 8 (x AND m3)"
  define z where "z = (drop_bit 16 y AND m4) OR push_bit 16 (y AND m4)"
  have y: "bit y i = bit x (flip 8 i)" if "i < 64" for i
    unfolding y_def using that by (intro swap_fields) (simp_all add: mask_table [OF m3_table])
  have z: "bit z i = bit y (flip 16 i)" if "i < 64" for i
    unfolding z_def using that by (intro swap_fields) (simp_all add: mask_table [OF m4_table])
  have "ReverseBytes64 x = drop_bit 32 z OR push_bit 32 z"
    by (simp only: ReverseBytes64_def Let_def y_def z_def and.right_neutral)
  with i show ?thesis by (simp add: swap_halves y z flip_lt)
qed

lemma Reverse64_bit: "i < 64 \<Longrightarrow> bit (Reverse64 x) i = bit x (63 - i)"
proof -
  assume i: "i < 64"
  define y where "y = (drop_bit 1 x AND m0) OR push_bit 1 (x AND m0)"
  define z where "z = (drop_bit 2 y AND m1) OR push_bit 2 (y AND m1)"
  define w where "w = (drop_bit 4 z AND m2) OR push_bit 4 (z AND m2)"
  have y: "bit y i = bit x (flip 1 i)" if "i < 64" for i
    unfolding y_def using that by (intro swap_fields) (simp_all add: mask_table [OF m0_table])
  have z: "bit z i = bit y (flip 2 i)" if "i < 64" for i
    unfolding z_def using that by (intro swap_fields) (simp_all add: mask_table [OF m1_table])
  have w: "bit w i = bit z (flip 4 i)" if "i < 64" for i
    unfolding w_def using that by (intro swap_fields) (simp_all add: mask_table [OF m2_table])
  have "Reverse64 x = ReverseBytes64 w"
    by (simp only: Reverse64_def Let_def y_def z_def w_def and.right_neutral)
  with i have "bit (Reverse64 x) i = bit x (flip 1 (flip 2 (flip 4 (flip 8 (flip 16 (flip 32 i))))))"
    by (simp add: ReverseBytes64_bit y z w flip_lt)
  also have "flip 1 (flip 2 (flip 4 (flip 8 (flip 16 (flip 32 i))))) = 63 - i"
    using map_nth_eq [OF flips i] i by simp
  finally show ?thesis .
qed

lemma Reverse64_word_reverse: "Reverse64 x = word_reverse x"
  by (rule bit_word_eqI) (simp add: Reverse64_bit bit_word_reverse_iff)

lemma byte_flips: "map (\<lambda>i. flip 8 (flip 16 (flip 32 i))) [0..<64] = map (\<lambda>i. 8 * (7 - i div 8) + i mod 8) [0..<64]"
  by (simp add: flip_def upt64)

lemma ReverseBytes64_byte: "i < 64 \<Longrightarrow> bit (ReverseBytes64 x) i = bit x (8 * (7 - i div 8) + i mod 8)"
  using map_nth_eq [OF byte_flips, of i] by (simp add: ReverseBytes64_bit)

section \<open>The other widths\<close>

lemma unat_and_mask_width: "unat ((word_of_int k :: u64) AND mask n) < 2 ^ n" if "n \<le> 64"
  using unat_and_mask_int [OF that, of k] by (simp add: nat_less_iff)

lemma RotateLeft32_rotl: "RotateLeft32 x k = word_rotl (nat (k mod 32)) x"
  using unat_and_mask_int [of 5 k] rotate_bits [of "nat (k mod 32)" x]
  by (simp add: mask_eq_exp_minus_1 RotateLeft32_def)

lemma RotateLeft16_rotl: "RotateLeft16 x k = word_rotl (nat (k mod 16)) x"
  using unat_and_mask_int [of 4 k] rotate_bits [of "nat (k mod 16)" x]
  by (simp add: mask_eq_exp_minus_1 RotateLeft16_def)

lemma RotateLeft8_rotl: "RotateLeft8 x k = word_rotl (nat (k mod 8)) x"
  using unat_and_mask_int [of 3 k] rotate_bits [of "nat (k mod 8)" x]
  by (simp add: mask_eq_exp_minus_1 RotateLeft8_def)

lemma RotateLeft64_roti: "RotateLeft64 x k = word_roti (- k) x"
  using word_rotl_roti [of k x] by (simp add: RotateLeft64_rotl)

lemma RotateLeft_roti: "RotateLeft x k = word_roti (- k) x"
  by (simp add: RotateLeft_def RotateLeft64_roti)

lemma bit_ucast32: "i < 32 \<Longrightarrow> bit (ucast (w :: u64) :: u32) i = bit w i"
  by (simp add: bit_simps)

lemma swap_halves32: "i < 32 \<Longrightarrow> bit (drop_bit 16 x OR push_bit 16 x) i = bit x (flip 16 i)" for x :: u32
proof (cases "i < 16")
  case False
  moreover assume "i < 32"
  ultimately have "i div 16 = 1" by (simp add: div_nat_eqI)
  with False \<open>i < 32\<close> show ?thesis
    by (auto simp: bit_simps flip_def add.commute dest: bit_imp_le_length)
qed (auto simp: bit_simps flip_def add.commute dest: bit_imp_le_length)

lemma upt32: "[0..<32] = 0 # 1 # [2..<32]"
  by (simp add: upt_conv_Cons)

lemma flip_lt32: "i < 32 \<Longrightarrow> k \<in> {1,2,4,8,16} \<Longrightarrow> flip k i < 32"
proof -
  have "\<forall>k \<in> set [1,2,4,8,16]. \<forall>i \<in> set [0..<32]. flip k i < 32"
    by (simp add: flip_def upt32)
  then show "i < 32 \<Longrightarrow> k \<in> {1,2,4,8,16} \<Longrightarrow> flip k i < 32" by auto
qed

lemma ReverseBytes32_bit: "i < 32 \<Longrightarrow> bit (ReverseBytes32 x) i = bit x (flip 8 (flip 16 i))"
proof -
  assume i: "i < 32"
  define y where "y = (drop_bit 8 x AND ucast m3) OR push_bit 8 (x AND ucast m3)"
  have y: "bit y i = bit x (flip 8 i)" if "i < 32" for i
    unfolding y_def using that
    by (intro swap_fields) (simp_all add: bit_ucast32 mask_table [OF m3_table])
  have "ReverseBytes32 x = drop_bit 16 y OR push_bit 16 y"
    by (simp only: ReverseBytes32_def Let_def y_def and.right_neutral)
  with i show ?thesis by (simp add: swap_halves32 y flip_lt32)
qed

lemma Reverse32_bit: "i < 32 \<Longrightarrow> bit (Reverse32 x) i = bit x (31 - i)"
proof -
  assume i: "i < 32"
  define y where "y = (drop_bit 1 x AND ucast m0) OR push_bit 1 (x AND ucast m0)"
  define z where "z = (drop_bit 2 y AND ucast m1) OR push_bit 2 (y AND ucast m1)"
  define w where "w = (drop_bit 4 z AND ucast m2) OR push_bit 4 (z AND ucast m2)"
  have y: "bit y i = bit x (flip 1 i)" if "i < 32" for i
    unfolding y_def using that
    by (intro swap_fields) (simp_all add: bit_ucast32 mask_table [OF m0_table])
  have z: "bit z i = bit y (flip 2 i)" if "i < 32" for i
    unfolding z_def using that
    by (intro swap_fields) (simp_all add: bit_ucast32 mask_table [OF m1_table])
  have w: "bit w i = bit z (flip 4 i)" if "i < 32" for i
    unfolding w_def using that
    by (intro swap_fields) (simp_all add: bit_ucast32 mask_table [OF m2_table])
  have "Reverse32 x = ReverseBytes32 w"
    by (simp only: Reverse32_def Let_def y_def z_def w_def and.right_neutral)
  with i have "bit (Reverse32 x) i = bit x (flip 1 (flip 2 (flip 4 (flip 8 (flip 16 i)))))"
    by (simp add: ReverseBytes32_bit y z w flip_lt32)
  also have "flip 1 (flip 2 (flip 4 (flip 8 (flip 16 i)))) = 31 - i"
  proof -
    have "map (\<lambda>i. flip 1 (flip 2 (flip 4 (flip 8 (flip 16 i))))) [0..<32] = map (\<lambda>i. 31 - i) [0..<32]"
      by (simp add: flip_def upt32)
    from map_nth_eq [OF this i] i show ?thesis by simp
  qed
  finally show ?thesis .
qed

lemma Reverse32_word_reverse: "Reverse32 x = word_reverse x"
  by (rule bit_word_eqI) (simp add: Reverse32_bit bit_word_reverse_iff)

lemma bit_revbits: "bit (revbits w n) i \<longleftrightarrow> i < w \<and> bit n (w - Suc i)"
proof (induction w n arbitrary: i rule: revbits.induct)
  case (2 w n)
  have lt: "revbits w m < 2 ^ w" for m
  proof (induction w m rule: revbits.induct)
    case (2 w n)
    have "n mod 2 * 2 ^ w \<le> 1 * 2 ^ w" by (intro mult_le_mono1) linarith
    with 2 show ?case unfolding revbits.simps power_Suc by linarith
  qed simp
  have "bit (n mod 2 * 2 ^ w + revbits w (n div 2)) i \<longleftrightarrow> i = w \<and> odd n \<or> bit (revbits w (n div 2)) i"
  proof -
    have "n mod 2 * 2 ^ w = push_bit w (n mod 2)"
      by (simp add: push_bit_eq_mult)
    moreover have b1: "bit (push_bit w (n mod 2)) j \<longleftrightarrow> j = w \<and> odd n" for j
      by (cases "odd n") (auto simp: bit_push_bit_iff odd_iff_mod_2_eq_one bit_1_iff bit_exp_iff)
    moreover have "take_bit w (revbits w (n div 2)) = revbits w (n div 2)"
      using lt by (simp add: take_bit_nat_eq_self)
    then have b2: "bit (revbits w (n div 2)) j \<Longrightarrow> j < w" for j
      by (metis bit_take_bit_iff)
    ultimately show ?thesis
      using bit_disjunctive_add_iff [of "push_bit w (n mod 2)" "revbits w (n div 2)" i]
      by (metis less_irrefl)
  qed
  moreover have "bit n (w - i) \<longleftrightarrow> bit (n div 2) (w - Suc i)" if "i < w"
    using that by (simp add: bit_Suc [symmetric] Suc_diff_Suc)
  ultimately show ?case using 2 [of i]
    by (cases i w rule: linorder_cases) (simp_all add: bit_0)
qed simp

lemma Reverse8_bit: "i < 8 \<Longrightarrow> bit (Reverse8 x) i = bit x (7 - i)"
proof -
  assume i: "i < 8"
  have "unat (Reverse8 x) = revbits 8 (unat x)"
    using map_nth_eq [OF rev8tab_eq, of "unat x"] by (simp add: Reverse8_def)
  then have "bit (unat (Reverse8 x)) i \<longleftrightarrow> bit (unat x) (7 - i)"
    using i by (simp add: bit_revbits)
  with i show ?thesis by (simp add: bit_unsigned_iff)
qed

lemma Reverse8_word_reverse: "Reverse8 x = word_reverse x"
  by (rule bit_word_eqI) (simp add: Reverse8_bit bit_word_reverse_iff)

lemma Reverse16_word_reverse: "Reverse16 x = word_reverse x"
proof (rule bit_word_eqI)
  fix i assume "i < LENGTH(16)"
  then have i: "i < 16" by simp
  have h: "rev8tab ! unat (drop_bit 8 x) = Reverse8 (ucast (drop_bit 8 x))"
    by (simp add: Reverse8_def unat_ucast_mod unat_shr less_mult_imp_div_less)
  have "unat (x AND 0xff) = unat (ucast x :: u8)"
    using unat_and_mask [of x 8] by (simp add: unat_ucast_mod mask_eq_exp_minus_1)
  then have l: "rev8tab ! unat (x AND 0xff) = Reverse8 (ucast x)"
    by (simp add: Reverse8_def)
  have "bit (Reverse16 x) i = bit x (15 - i)"
  proof (cases "i < 8")
    case True
    moreover have "7 - i < 8" "8 + (7 - i) = 15 - i" using True by simp_all
    ultimately show ?thesis
      by (simp add: Reverse16_def h l bit_or_iff bit_push_bit_iff bit_ucast_iff Reverse8_bit bit_drop_bit_eq)
  next
    case False
    then have "\<not> bit (Reverse8 (ucast (drop_bit 8 x))) i" by (auto dest: bit_imp_le_length)
    moreover have "i - 8 < 8" "15 - i < 8" "7 - (i - 8) = 15 - i" using i False by simp_all
    ultimately show ?thesis using i False
      by (simp add: Reverse16_def h l bit_or_iff bit_push_bit_iff bit_ucast_iff Reverse8_bit)
  qed
  with i show "bit (Reverse16 x) i = bit (word_reverse x) i"
    by (simp add: bit_word_reverse_iff)
qed

lemma Reverse_word_reverse: "Reverse x = word_reverse x"
  by (simp add: Reverse_def Reverse64_word_reverse)

lemma ReverseBytes16_byte: "i < 16 \<Longrightarrow> bit (ReverseBytes16 x) i = bit x (8 * (1 - i div 8) + i mod 8)"
proof (cases "i < 8")
  case False
  moreover assume "i < 16"
  ultimately have "i div 8 = 1" "i mod 8 = i - 8" by (simp_all add: div_nat_eqI le_mod_geq)
  with False \<open>i < 16\<close> show ?thesis
    by (auto simp: ReverseBytes16_def bit_simps dest: bit_imp_le_length)
qed (auto simp: ReverseBytes16_def bit_simps add.commute dest: bit_imp_le_length)

end
