(* ===== verification/Bits_Arith.thy ===== *)
theory Bits_Arith
  imports Bits
begin

text \<open>
  The full-width arithmetic of package \<open>math/bits\<close>: what \<open>Add\<close>, \<open>Sub\<close>, \<open>Mul\<close>, \<open>Div\<close> and \<open>Rem\<close> compute,
  stated on natural numbers.  \<open>Div64\<close> is Knuth's division of a two-word by a one-word number: the
  divisor is shifted until its top bit is set, and each of the two half-word digits of the
  quotient is estimated and then corrected at most twice.
\<close>

section \<open>Addition with carry, subtraction with borrow\<close>

lemma top_bit: "bit (w :: u64) 63 \<longleftrightarrow> 2 ^ 63 \<le> unat w"
  using bit_top_iff [of w] by simp

lemma drop_top: "unat (drop_bit 63 (w :: u64)) = of_bool (bit w 63)"
  using unat_lt64 [of w] by (simp add: unat_shr top_bit div_nat_eqI)

lemma mod_once: "a < 2 * m \<Longrightarrow> a mod m = (if a < m then a else a - m)" for a m :: nat
  by (simp add: le_mod_geq)

lemma carry_arith:
  fixes X Y C S :: nat
  assumes "X < 2 ^ 64" "Y < 2 ^ 64" "C \<le> 1"
    and "S = (if X + Y + C < 2 ^ 64 then X + Y + C else X + Y + C - 2 ^ 64)"
  shows "S + 2 ^ 64 * of_bool ((2 ^ 63 \<le> X \<and> 2 ^ 63 \<le> Y) \<or>
      ((2 ^ 63 \<le> X \<or> 2 ^ 63 \<le> Y) \<and> \<not> 2 ^ 63 \<le> S)) = X + Y + C"
proof (cases "X + Y + C < 2 ^ 64")
  case True
  then have "\<not> (2 ^ 63 \<le> X \<and> 2 ^ 63 \<le> Y)" "2 ^ 63 \<le> X \<or> 2 ^ 63 \<le> Y \<Longrightarrow> 2 ^ 63 \<le> S"
    using assms by auto
  with True assms(4) show ?thesis by auto
next
  case False
  then have "2 ^ 63 \<le> X \<or> 2 ^ 63 \<le> Y" using assms(3) by auto
  moreover have "\<not> (2 ^ 63 \<le> X \<and> 2 ^ 63 \<le> Y) \<Longrightarrow> \<not> 2 ^ 63 \<le> S"
    using assms False by auto
  ultimately have "(2 ^ 63 \<le> X \<and> 2 ^ 63 \<le> Y) \<or> ((2 ^ 63 \<le> X \<or> 2 ^ 63 \<le> Y) \<and> \<not> 2 ^ 63 \<le> S)"
    by blast
  with False assms(4) show ?thesis by auto
qed

lemma borrow_arith:
  fixes X Y B D :: nat
  assumes "D < 2 ^ Suc n" "Y < 2 ^ Suc n" "X < 2 ^ Suc n" "B \<le> 1"
    and "X = (if D + Y + B < 2 ^ Suc n then D + Y + B else D + Y + B - 2 ^ Suc n)"
  shows "X + 2 ^ Suc n * of_bool ((\<not> 2 ^ n \<le> X \<and> 2 ^ n \<le> Y) \<or>
      ((2 ^ n \<le> X \<longleftrightarrow> 2 ^ n \<le> Y) \<and> 2 ^ n \<le> D)) = D + Y + B"
proof (cases "D + Y + B < 2 ^ Suc n")
  case True
  then have x: "X = D + Y + B" using assms by simp
  with True have "2 ^ n \<le> Y \<Longrightarrow> 2 ^ n \<le> X \<and> \<not> 2 ^ n \<le> D" "2 ^ n \<le> D \<Longrightarrow> 2 ^ n \<le> X \<and> \<not> 2 ^ n \<le> Y"
    by auto
  with x show ?thesis by auto
next
  case False
  then have x: "X + 2 ^ Suc n = D + Y + B" using assms by simp
  then have "2 ^ n \<le> X \<Longrightarrow> 2 ^ n \<le> Y \<and> 2 ^ n \<le> D" "\<not> 2 ^ n \<le> Y \<Longrightarrow> 2 ^ n \<le> D \<and> \<not> 2 ^ n \<le> X"
    using assms by auto
  with x show ?thesis by auto
qed

lemma Suc_63: "Suc 63 = 64" and Suc_31: "Suc 31 = 32"
  by simp_all

lemmas borrow64 = borrow_arith [where n = 63, unfolded Suc_63]

lemmas borrow32 = borrow_arith [where n = 31, unfolded Suc_31]

lemma Add64_carry:
  assumes "unat c \<le> 1" and "Add64 x y c = (s, k)"
  shows "unat s + 2 ^ 64 * unat k = unat x + unat y + unat c" and "unat k \<le> 1"
proof -
  have s: "unat s = (unat x + unat y + unat c) mod 2 ^ 64"
    using assms(2) by (auto simp: Add64_def Let_def unat_word_ariths mod_simps)
  have k: "unat k = of_bool ((2 ^ 63 \<le> unat x \<and> 2 ^ 63 \<le> unat y) \<or>
      ((2 ^ 63 \<le> unat x \<or> 2 ^ 63 \<le> unat y) \<and> \<not> 2 ^ 63 \<le> unat s))"
  proof -
    have "k = drop_bit 63 ((x AND y) OR ((x OR y) AND NOT s))"
      using assms(2) unfolding Add64_def Let_def prod.inject by blast
    then show ?thesis
      by (simp only: drop_top bit_or_iff bit_and_iff bit_not_iff) (auto simp: top_bit)
  qed
  show "unat k \<le> 1" by (simp add: k)
  have mods: "unat s = (if unat x + unat y + unat c < 2 ^ 64 then unat x + unat y + unat c
      else unat x + unat y + unat c - 2 ^ 64)"
    unfolding s by (rule mod_once) (use assms(1) unat_lt64 [of x] unat_lt64 [of y] in \<open>simp del: unat_lt64\<close>)
  show "unat s + 2 ^ 64 * unat k = unat x + unat y + unat c"
    unfolding k by (rule carry_arith [OF _ _ assms(1) mods]) simp_all
qed

lemma Sub64_borrow:
  assumes "unat b \<le> 1" and "Sub64 x y b = (d, k)"
  shows "unat x + 2 ^ 64 * unat k = unat d + unat y + unat b" and "unat k \<le> 1"
proof -
  have "d = x - y - b" using assms(2) by (simp add: Sub64_def Let_def)
  then have "d + y + b = x" by simp
  then have s: "unat x = (unat d + unat y + unat b) mod 2 ^ 64"
    by (auto simp: unat_word_ariths mod_simps)
  have k: "unat k = of_bool ((\<not> 2 ^ 63 \<le> unat x \<and> 2 ^ 63 \<le> unat y) \<or>
      ((2 ^ 63 \<le> unat x \<longleftrightarrow> 2 ^ 63 \<le> unat y) \<and> 2 ^ 63 \<le> unat d))"
  proof -
    have "k = drop_bit 63 ((NOT x AND y) OR (NOT (x XOR y) AND d))"
      using assms(2) unfolding Sub64_def Let_def prod.inject by blast
    then show ?thesis
      by (simp only: drop_top bit_or_iff bit_and_iff bit_not_iff bit_xor_iff) (auto simp: top_bit)
  qed
  show "unat k \<le> 1" by (simp add: k)
  have "(unat d + unat y + unat b) mod 2 ^ 64 =
      (if unat d + unat y + unat b < 2 ^ 64 then unat d + unat y + unat b
       else unat d + unat y + unat b - 2 ^ 64)"
    by (rule mod_once) (use assms(1) unat_lt64 [of d] unat_lt64 [of y] in \<open>simp del: unat_lt64\<close>)
  note mods = s [unfolded this]
  show "unat x + 2 ^ 64 * unat k = unat d + unat y + unat b"
    unfolding k by (rule borrow64 [OF _ _ _ assms(1) mods]) simp_all
qed

section \<open>The full product\<close>

lemma len64: "LENGTH(64) = 64" by simp

lemma mul_columns:
  fixes B :: nat
  assumes "w0 = a * B + b" "t = p + a" "t = c * B + d" "w1 = d + q" "w1 = e * B + f"
  shows "h * (B * B) + (p + q) * B + w0 = (h + c + e) * (B * B) + (f * B + b)"
proof -
  have "(p + a) * B = (c * B + d) * B" "(d + q) * B = (e * B + f) * B"
    using assms by simp_all
  then show ?thesis using assms(1) by (simp add: algebra_simps)
qed

lemma Mul64_product:
  assumes "Mul64 x y = (hi, lo)"
  shows "unat hi * 2 ^ 64 + unat lo = unat x * unat y"
proof -
  define B :: nat where "B = 2 ^ 32"
  define x0 x1 y0 y1 where "x0 = unat x mod B" and "x1 = unat x div B"
    and "y0 = unat y mod B" and "y1 = unat y div B"
  note ds = x0_def x1_def y0_def y1_def
  have BB: "2 ^ 64 = B * B" "0 < B" by (simp_all add: B_def)
  have xy: "unat x = x1 * B + x0" "unat y = y1 * B + y0" by (simp_all add: ds)
  have b: "x0 \<le> B - 1" "x1 \<le> B - 1" "y0 \<le> B - 1" "y1 \<le> B - 1"
    using unat_lt64 [of x] unat_lt64 [of y]
    by (simp_all add: ds B_def less_mult_imp_div_less less_Suc_eq_le [symmetric])
  have p: "a * c \<le> (B - 1) * (B - 1)" if "a \<le> B - 1" "c \<le> B - 1" for a c
    using that by (rule mult_le_mono)
  note pp = p [OF b(1) b(3)] p [OF b(2) b(3)] p [OF b(1) b(4)] p [OF b(2) b(4)]
  have sq: "(B - 1) * (B - 1) = 18446744065119617025" by (simp add: B_def)
  note pp = pp [unfolded sq]
  define w0 t w1 where "w0 = x0 * y0" and "t = x1 * y0 + w0 div B" and "w1 = t mod B + x0 * y1"
  have ux: "unat (x AND (2 ^ 32 - 1)) = x0" "unat (drop_bit 32 x) = x1"
    "unat (y AND (2 ^ 32 - 1)) = y0" "unat (drop_bit 32 y) = y1"
    using unat_and_mask [of x 32] unat_and_mask [of y 32]
    by (simp_all add: ds B_def unat_shr mask_eq_exp_minus_1)
  note ux = ux [simplified]
  define t' where "t' = drop_bit 32 x * (y AND (2 ^ 32 - 1)) +
     drop_bit 32 ((x AND (2 ^ 32 - 1)) * (y AND (2 ^ 32 - 1)))"
  define w1' where "w1' = (t' AND (2 ^ 32 - 1)) + (x AND (2 ^ 32 - 1)) * drop_bit 32 y"
  have w0u: "unat ((x AND (2 ^ 32 - 1)) * (y AND (2 ^ 32 - 1))) = w0"
    using pp(1) by (simp add: unat_word_ariths ux w0_def sq)
  have "w0 div B < B" using pp(1) by (simp add: w0_def sq less_mult_imp_div_less B_def)
  then have tb: "t < 2 ^ 64" using pp(2) by (simp add: t_def sq B_def)
  have w0d: "unat (drop_bit 32 ((x AND (2 ^ 32 - 1)) * (y AND (2 ^ 32 - 1)))) = w0 div B"
    by (simp only: unat_shr w0u B_def)
  have "unat (drop_bit 32 x * (y AND (2 ^ 32 - 1))) = x1 * y0"
    using pp(2) by (simp add: unat_word_ariths ux)
  then have tu: "unat t' = t"
    unfolding t'_def using tb by (subst unat_word_ariths(1)) (simp only: w0d t_def mod_less len64)
  have w1b: "w1 < 2 ^ 64" using pp(3) mod_less_divisor [of B t] by (simp add: w1_def sq B_def)
  have "unat ((x AND (2 ^ 32 - 1)) * drop_bit 32 y) = x0 * y1"
    using pp(3) by (simp add: unat_word_ariths ux)
  moreover have "unat (t' AND (2 ^ 32 - 1)) = t mod B"
    using unat_and_mask [of t' 32] by (simp add: tu B_def mask_eq_exp_minus_1)
  ultimately have w1u: "unat w1' = w1"
    unfolding w1'_def using w1b by (subst unat_word_ariths(1)) (simp only: w1_def mod_less len64)
  have hiw: "hi = drop_bit 32 x * drop_bit 32 y + drop_bit 32 t' + drop_bit 32 w1'"
    and low: "lo = x * y"
    using assms unfolding Mul64_def Let_def prod.inject t'_def w1'_def by blast+
  have key: "unat x * unat y = (x1 * y1 + t div B + w1 div B) * (B * B) + ((w1 mod B) * B + w0 mod B)"
  proof -
    have "unat x * unat y = x1 * y1 * (B * B) + (x1 * y0 + x0 * y1) * B + w0"
      by (simp add: xy w0_def algebra_simps)
    also have "\<dots> = (x1 * y1 + t div B + w1 div B) * (B * B) + ((w1 mod B) * B + w0 mod B)"
      by (rule mul_columns [OF _ t_def _ w1_def]) simp_all
    finally show ?thesis .
  qed
  have r: "(w1 mod B) * B + w0 mod B < B * B"
  proof -
    have "Suc (w1 mod B) * B \<le> B * B"
      by (intro mult_le_mono1) (simp add: Suc_le_eq BB(2))
    then show ?thesis using mod_less_divisor [OF BB(2), of w0] unfolding mult_Suc by linarith
  qed
  have prod: "unat x * unat y < B * B * (B * B)"
    using mult_strict_mono [OF unat_lt64 [of x] unat_lt64 [of y]] by (simp add: B_def)
  have hib: "x1 * y1 + t div B + w1 div B < 2 ^ 64"
  proof -
    have "(x1 * y1 + t div B + w1 div B) * (B * B) < B * B * (B * B)" using key prod by linarith
    then have "x1 * y1 + t div B + w1 div B < B * B" by simp
    then show ?thesis by (simp add: B_def)
  qed
  then have hiu: "unat hi = x1 * y1 + t div B + w1 div B"
  proof -
    have "unat (drop_bit 32 x * drop_bit 32 y) = x1 * y1"
      using pp(4) by (simp add: unat_word_ariths ux)
    moreover have "unat (drop_bit 32 t') = t div B" "unat (drop_bit 32 w1') = w1 div B"
      by (simp_all only: unat_shr tu w1u B_def)
    ultimately show ?thesis
      unfolding hiw using hib by (simp add: unat_word_ariths(1))
  qed
  have "unat lo = unat x * unat y mod (B * B)"
    by (simp add: low unat_word_ariths B_def)
  also have "\<dots> = (w1 mod B) * B + w0 mod B"
    unfolding key using r by (subst mod_mult_self3) simp
  finally have "unat lo = (w1 mod B) * B + w0 mod B" .
  then show ?thesis unfolding key hiu BB(1) by simp
qed

section \<open>Division of two words by one\<close>

lemma adjust_exit:
  fixes B :: nat
  assumes "q * v1 + r = u" "Y = v1 * B + v0" "q * v0 \<le> B * r + u'"
  shows "q * Y \<le> u * B + u'"
proof -
  have "q * Y + r * B = (q * v1 + r) * B + q * v0" by (simp add: assms(2) algebra_simps)
  also have "\<dots> \<le> u * B + (B * r + u')" using assms(1,3) by simp
  finally show ?thesis by (simp add: mult.commute)
qed

lemma adjust_again:
  fixes B :: nat
  assumes "q * v1 + r = u" "Y = v1 * B + v0" "B * r + u' < q * v0"
  shows "u * B + u' < q * Y"
proof -
  have "u * B + (B * r + u') < (q * v1 + r) * B + q * v0" using assms(1,3) by simp
  also have "\<dots> = q * Y + r * B" by (simp add: assms(2) algebra_simps)
  finally show ?thesis by (simp add: mult.commute)
qed

lemma Div64_adjust_quotient:
  fixes u Y :: nat
  assumes "2 ^ 31 \<le> unat yn1" "unat yn1 < 2 ^ 32" "unat yn0 < 2 ^ 32"
    and "Y = unat yn1 * 2 ^ 32 + unat yn0" and "u < Y" and "unat un < 2 ^ 32"
    and "unat q * unat yn1 + unat rhat = u" and "unat rhat < 2 ^ 32"
    and "unat q \<le> 2 ^ 32 + 1" and "(u * 2 ^ 32 + unat un) div Y \<le> unat q"
  shows "unat (Div64_adjust yn1 yn0 un q rhat) = (u * 2 ^ 32 + unat un) div Y"
  using assms
proof (induction yn1 yn0 un q rhat rule: Div64_adjust.induct)
  case (1 yn1 yn0 un q rhat)
  note prems = "1.prems"
  let ?N = "u * 2 ^ 32 + unat un"
  have Y: "0 < Y" using prems(1,4) by simp
  have c: "q \<ge> 2 ^ 32 \<longleftrightarrow> 2 ^ 32 \<le> unat q" by (simp add: word_le_nat_alt)
  have rb: "unat (2 ^ 32 * rhat + un) = 2 ^ 32 * unat rhat + unat un"
    using prems(6,8) by (simp add: unat_word_ariths)
  show ?case
  proof (cases "q \<ge> 2 ^ 32 \<or> q * yn0 > 2 ^ 32 * rhat + un")
    case True
    have gt: "?N div Y < unat q"
    proof (cases "2 ^ 32 \<le> unat q")
      case True
      have "?N < Y * 2 ^ 32" using prems(5,6) by simp
      then have "?N div Y < 2 ^ 32" by (simp add: less_mult_imp_div_less mult.commute)
      with True show ?thesis by simp
    next
      case False
      then have "unat q * unat yn0 < 2 ^ 32 * 2 ^ 32"
        using prems(3) by (intro mult_strict_mono) simp_all
      then have "unat (q * yn0) = unat q * unat yn0" by (simp add: unat_word_ariths)
      with \<open>q \<ge> 2 ^ 32 \<or> q * yn0 > 2 ^ 32 * rhat + un\<close> False c rb
      have "2 ^ 32 * unat rhat + unat un < unat q * unat yn0" by (simp add: word_less_nat_alt)
      then have "?N < unat q * Y" by (rule adjust_again [OF prems(7,4)])
      then show ?thesis by (simp add: less_mult_imp_div_less)
    qed
    then have q0: "q \<noteq> 0" by auto
    have q': "unat (q - 1) = unat q - 1" using q0 by (simp add: unat_minus_one)
    have r': "unat (rhat + yn1) = unat rhat + unat yn1"
      using prems(2,8) by (simp add: unat_word_ariths)
    have "unat q = Suc (unat q - 1)" using gt by simp
    then have inv: "unat (q - 1) * unat yn1 + unat (rhat + yn1) = u"
      using prems(7) unfolding q' r' by (metis add.assoc add.commute mult_Suc)
    show ?thesis
    proof (cases "rhat + yn1 \<ge> 2 ^ 32")
      case stop: True
      then have "2 ^ 32 \<le> unat (rhat + yn1)" by (simp add: word_le_nat_alt)
      moreover have "unat (q - 1) \<le> 2 ^ 32" using prems(9) q' by simp
      then have "unat (q - 1) * unat yn0 \<le> 2 ^ 32 * 2 ^ 32"
        using prems(3) by (intro mult_le_mono) simp_all
      ultimately have "unat (q - 1) * unat yn0 \<le> 2 ^ 32 * unat (rhat + yn1) + unat un" by simp
      then have "unat (q - 1) * Y \<le> ?N" by (rule adjust_exit [OF inv prems(4)])
      then have "unat (q - 1) \<le> ?N div Y" using Y by (simp add: less_eq_div_iff_mult_less_eq)
      then have "unat (q - 1) = ?N div Y" using gt q' by simp
      then show ?thesis using True stop by (subst Div64_adjust.simps) (simp add: Let_def)
    next
      case False
      then have "unat (rhat + yn1) < 2 ^ 32" by (simp add: word_le_nat_alt)
      then have "unat (Div64_adjust yn1 yn0 un (q - 1) (rhat + yn1)) = ?N div Y"
        using True False prems inv gt q' by (intro "1.IH") simp_all
      then show ?thesis using True False by (subst Div64_adjust.simps) (simp add: Let_def)
    qed
  next
    case False
    then have "unat q < 2 ^ 32" using c by simp
    then have "unat q * unat yn0 < 2 ^ 32 * 2 ^ 32"
      using prems(3) by (intro mult_strict_mono) simp_all
    then have "unat (q * yn0) = unat q * unat yn0" by (simp add: unat_word_ariths)
    with False rb have "unat q * unat yn0 \<le> 2 ^ 32 * unat rhat + unat un"
      by (simp add: word_less_nat_alt not_less)
    then have "unat q * Y \<le> ?N" by (rule adjust_exit [OF prems(7,4)])
    then have "unat q \<le> ?N div Y" using Y by (simp add: less_eq_div_iff_mult_less_eq)
    then have "unat q = ?N div Y" using prems(10) by simp
    then show ?thesis using False by (subst Div64_adjust.simps) simp
  qed
qed

text \<open>One digit of the quotient: the trial quotient, its correction and the partial remainder.\<close>

lemma Div64_digit:
  fixes u un y :: u64
  assumes y: "2 ^ 63 \<le> unat y" and "u < y" and un: "unat un < 2 ^ 32"
    and yn1: "yn1 = drop_bit 32 y" and yn0: "yn0 = y AND (2 ^ 32 - 1)"
    and q: "q = Div64_adjust yn1 yn0 un (u div yn1) (u - u div yn1 * yn1)"
  shows "unat q = (unat u * 2 ^ 32 + unat un) div unat y"
    and "unat (u * 2 ^ 32 + un - q * y) = (unat u * 2 ^ 32 + unat un) mod unat y"
proof -
  let ?U = "unat u" and ?Y = "unat y" and ?B = "2 ^ 32 :: nat"
  let ?N = "?U * ?B + unat un"
  have U: "?U < ?Y" using assms(2) by (simp add: word_less_nat_alt)
  have v1: "unat yn1 = ?Y div ?B" by (simp add: yn1 unat_shr)
  have v0: "unat yn0 = ?Y mod ?B"
    using unat_and_mask [of y 32] by (simp add: yn0 mask_eq_exp_minus_1)
  have Y: "?Y = unat yn1 * ?B + unat yn0" by (simp add: v1 v0)
  have v1b: "2 ^ 31 \<le> unat yn1" "unat yn1 < ?B" "unat yn0 < ?B"
    using y unat_lt64 [of y] by (simp_all add: v1 v0 less_mult_imp_div_less less_eq_div_iff_mult_less_eq)
  have qh: "unat (u div yn1) = ?U div unat yn1" by (rule unat_div_word)
  have rh: "u - u div yn1 * yn1 = u mod yn1" by (simp add: minus_div_mult_eq_mod)
  have ru: "unat (u mod yn1) = ?U mod unat yn1" by (rule unat_mod_word)
  have pos: "0 < unat yn1" using v1b(1) by simp
  show qe: "unat q = ?N div ?Y"
    unfolding q rh
  proof (rule Div64_adjust_quotient [OF v1b Y U un])
    show "unat (u div yn1) * unat yn1 + unat (u mod yn1) = ?U"
      by (simp add: qh ru)
    show "unat (u mod yn1) < 2 ^ 32"
      using v1b(2) mod_less_divisor [OF pos, of ?U] unfolding ru by linarith
    have "?U < unat yn1 * (?B + 2)" using U Y v1b by simp
    then have "?U div unat yn1 < ?B + 2" by (simp add: less_mult_imp_div_less mult.commute)
    then show "unat (u div yn1) \<le> 2 ^ 32 + 1" unfolding qh by simp
    have "?N div ?Y \<le> ?N div (unat yn1 * ?B)"
      using Y pos by (intro div_le_mono2) simp_all
    also have "\<dots> = ?N div ?B div unat yn1" by (simp only: div_mult2_eq mult.commute [of "unat yn1"])
    also have "?N div ?B = ?U" using un by simp
    finally show "?N div ?Y \<le> unat (u div yn1)" unfolding qh .
  qed
  have "of_nat (unat q) = q" by simp
  then have "u * 2 ^ 32 + un - q * y = of_nat ?N - of_nat (?N div ?Y * ?Y)"
    unfolding qe by simp
  also have "\<dots> = of_nat (?N mod ?Y)"
    by (simp add: modulo_nat_def of_nat_diff)
  finally have w: "u * 2 ^ 32 + un - q * y = of_nat (?N mod ?Y)" .
  have "?N mod ?Y < ?Y" by (intro mod_less_divisor less_le_trans [OF _ y]) simp
  then have "?N mod ?Y < 2 ^ 64" by (rule less_trans) simp
  then show "unat (u * 2 ^ 32 + un - q * y) = ?N mod ?Y"
    unfolding w by (simp add: unat_of_nat)
qed

lemma shift_or:
  fixes hi lo :: u64
  assumes "unat hi * 2 ^ s < 2 ^ 64" and "s < 64"
  shows "unat (push_bit s hi OR drop_bit (64 - s) lo) = unat hi * 2 ^ s + unat lo div 2 ^ (64 - s)"
proof -
  have "push_bit s hi AND drop_bit (64 - s) lo = 0"
    by (rule bit_word_eqI) (auto simp: bit_simps dest!: bit_imp_le_length)
  from unat_or_disjoint [OF this] show ?thesis
    using assms by (simp add: unat_shl unat_shr)
qed

lemma normalised:
  fixes y :: u64
  assumes "y \<noteq> 0" and "s = nat (LeadingZeros64 y)"
  shows "s < 64" "unat (push_bit s y) = unat y * 2 ^ s" "2 ^ 63 \<le> unat y * 2 ^ s"
    "unat y * 2 ^ s < 2 ^ 64"
proof -
  let ?l = "bitlen (unat y)"
  have Y: "unat y \<noteq> 0" using assms(1) by (simp add: unat_eq_0)
  note b = bitlen_bounds [OF Y]
  have "?l \<le> 64" by (simp add: bitlen_le_iff)
  moreover have "?l \<noteq> 0" using b by (cases ?l) auto
  moreover have s: "s = 64 - ?l" using assms(2) \<open>?l \<le> 64\<close> by (simp add: LeadingZeros64_def Len64_eq)
  ultimately show "s < 64" by simp
  have "unat y * 2 ^ s < 2 ^ ?l * 2 ^ s" using b by simp
  also have "\<dots> = 2 ^ 64" using \<open>?l \<le> 64\<close> s by (simp flip: power_add)
  finally show lt: "unat y * 2 ^ s < 2 ^ 64" .
  then show "unat (push_bit s y) = unat y * 2 ^ s" by (simp add: unat_shl)
  have "(2::nat) ^ 63 = 2 ^ (?l - 1) * 2 ^ s"
    using \<open>?l \<le> 64\<close> \<open>?l \<noteq> 0\<close> s by (simp flip: power_add)
  also have "\<dots> \<le> unat y * 2 ^ s" using b by simp
  finally show "2 ^ 63 \<le> unat y * 2 ^ s" .
qed

lemma Div64_quotient:
  assumes "hi < y"
  shows "Div64 hi lo y = Inr (of_nat ((unat hi * 2 ^ 64 + unat lo) div unat y),
           of_nat ((unat hi * 2 ^ 64 + unat lo) mod unat y))"
proof -
  let ?N = "unat hi * 2 ^ 64 + unat lo"
  have y0: "y \<noteq> 0" and ny: "\<not> y \<le> hi" using assms by auto
  show ?thesis
  proof (cases "hi = 0")
    case True
    have "of_nat (unat lo div unat y) = lo div y" "of_nat (unat lo mod unat y) = lo mod y"
      by (simp_all add: unat_div_word [symmetric] unat_mod_word [symmetric])
    then show ?thesis using y0 ny True by (simp add: Div64_def)
  next
    case False
    define s where "s = nat (LeadingZeros64 y)"
    note n = normalised [OF y0 s_def]
    define z where "z = push_bit s y"
    define yn1 where "yn1 = drop_bit 32 z"
    define yn0 where "yn0 = z AND (2 ^ 32 - 1)"
    define un32 where "un32 = push_bit s hi OR drop_bit (64 - s) lo"
    define un10 where "un10 = push_bit s lo"
    define un1 where "un1 = drop_bit 32 un10"
    define un0 where "un0 = un10 AND (2 ^ 32 - 1)"
    define q1 where "q1 = Div64_adjust yn1 yn0 un1 (un32 div yn1) (un32 - un32 div yn1 * yn1)"
    define un21 where "un21 = un32 * 2 ^ 32 + un1 - q1 * z"
    define q0 where "q0 = Div64_adjust yn1 yn0 un0 (un21 div yn1) (un21 - un21 div yn1 * yn1)"
    have D: "Div64 hi lo y = Inr (q1 * 2 ^ 32 + q0, drop_bit s (un21 * 2 ^ 32 + un0 - q0 * z))"
      using y0 ny False
      by (simp only: Div64_def Let_def if_False s_def z_def yn1_def yn0_def un32_def un10_def
          un1_def un0_def q1_def un21_def q0_def)
    have H: "unat hi < unat y" using assms by (simp add: word_less_nat_alt)
    have zu: "unat z = unat y * 2 ^ s" using n(2) by (simp add: z_def)
    have z63: "2 ^ 63 \<le> unat z" using n(3) by (simp add: zu)
    have Hs: "unat hi * 2 ^ s + 2 ^ s \<le> unat y * 2 ^ s"
      using H mult_le_mono1 [of "Suc (unat hi)" "unat y" "2 ^ s"] by simp
    have U: "unat un32 = unat hi * 2 ^ s + unat lo div 2 ^ (64 - s)"
      unfolding un32_def by (rule shift_or) (use Hs n in linarith, rule n(1))
    have lo: "unat lo div 2 ^ (64 - s) < 2 ^ s"
      using n(1) by (simp add: less_mult_imp_div_less flip: power_add)
    have "unat un32 < unat z" using U Hs lo zu by linarith
    then have Uz: "un32 < z" by (simp add: word_less_nat_alt)
    have u10: "unat un10 = unat lo * 2 ^ s mod 2 ^ 64" by (simp add: un10_def unat_shl)
    have u1: "unat un1 = unat un10 div 2 ^ 32" by (simp add: un1_def unat_shr)
    have u0: "unat un0 = unat un10 mod 2 ^ 32"
      using unat_and_mask [of un10 32] by (simp add: un0_def mask_eq_exp_minus_1)
    have u1b: "unat un1 < 2 ^ 32" and u0b: "unat un0 < 2 ^ 32"
      by (simp_all add: u1 u0 less_mult_imp_div_less)
    note d1 = Div64_digit [OF z63 Uz u1b yn1_def yn0_def q1_def]
    have "unat un21 < unat z"
      unfolding un21_def d1(2) by (intro mod_less_divisor less_le_trans [OF _ z63]) simp
    then have uz: "un21 < z" by (simp add: word_less_nat_alt)
    note d0 = Div64_digit [OF z63 uz u0b yn1_def yn0_def q0_def]
    have shifted: "unat un32 * 2 ^ 64 + unat un10 = ?N * 2 ^ s"
    proof -
      have e: "(2::nat) ^ 64 = 2 ^ (64 - s) * 2 ^ s" using n(1) by (simp flip: power_add)
      have "unat lo * 2 ^ s div 2 ^ 64 = unat lo div 2 ^ (64 - s)"
        unfolding e by (rule div_mult_mult2) simp
      then have "unat lo * 2 ^ s = unat lo div 2 ^ (64 - s) * 2 ^ 64 + unat un10"
        unfolding u10 by (metis div_mult_mod_eq)
      then show ?thesis unfolding U by (simp only: distrib_right) (simp add: algebra_simps)
    qed
    let ?Z = "unat z" and ?B = "2 ^ 32 :: nat"
    define r where "r = unat (un21 * 2 ^ 32 + un0 - q0 * z)"
    have step1: "unat un32 * ?B + unat un1 = unat q1 * ?Z + unat un21"
      unfolding un21_def d1 by simp
    have step0: "unat un21 * ?B + unat un0 = unat q0 * ?Z + r"
      unfolding r_def d0 by simp
    have "?N * 2 ^ s = (unat un32 * ?B + unat un1) * ?B + unat un0"
      unfolding shifted [symmetric] u1 u0 by simp
    also have "\<dots> = unat q1 * ?B * ?Z + (unat un21 * ?B + unat un0)"
      unfolding step1 by (simp add: algebra_simps)
    also have "\<dots> = (unat q1 * ?B + unat q0) * ?Z + r"
      unfolding step0 by (simp add: algebra_simps)
    finally have total: "?N * 2 ^ s = (unat q1 * ?B + unat q0) * ?Z + r" .
    have r: "r < ?Z"
      unfolding r_def d0(2) by (intro mod_less_divisor less_le_trans [OF _ z63]) simp
    have quo: "unat q1 * ?B + unat q0 = ?N div unat y"
    proof -
      have "?N * 2 ^ s div ?Z = unat q1 * ?B + unat q0"
        unfolding total using r by (subst div_mult_self3) simp_all
      then show ?thesis by (simp add: zu)
    qed
    have rem: "r = ?N mod unat y * 2 ^ s"
    proof -
      have "?N * 2 ^ s mod ?Z = r" unfolding total using r by (subst mod_mult_self3) simp
      then show ?thesis by (simp add: zu mod_mult_mult2)
    qed
    have "q1 * 2 ^ 32 + q0 = of_nat (unat q1 * ?B + unat q0)" by simp
    moreover have "drop_bit s (un21 * 2 ^ 32 + un0 - q0 * z) = of_nat (?N mod unat y)"
    proof -
      have "?N mod unat y < unat y" using H by (intro mod_less_divisor) linarith
      then have "?N mod unat y < 2 ^ 64" by (rule less_trans) simp
      moreover have "unat (drop_bit s (un21 * 2 ^ 32 + un0 - q0 * z)) = ?N mod unat y"
        unfolding unat_shr r_def [symmetric] rem by simp
      ultimately show ?thesis
        by (intro word_unat_eq_iff [THEN iffD2]) (simp add: unat_of_nat)
    qed
    ultimately show ?thesis unfolding D quo by simp
  qed
qed

section \<open>The \<open>uint\<close> versions\<close>

lemma Add_carry:
  assumes "unat c \<le> 1" and "Add x y c = (s, k)"
  shows "unat s + 2 ^ 64 * unat k = unat x + unat y + unat c" and "unat k \<le> 1"
  using Add64_carry assms by (simp_all add: Add_def)

lemma Sub_borrow:
  assumes "unat b \<le> 1" and "Sub x y b = (d, k)"
  shows "unat x + 2 ^ 64 * unat k = unat d + unat y + unat b" and "unat k \<le> 1"
  using Sub64_borrow assms by (simp_all add: Sub_def)

lemma Mul_product: "Mul x y = (hi, lo) \<Longrightarrow> unat hi * 2 ^ 64 + unat lo = unat x * unat y"
  by (rule Mul64_product) (simp add: Mul_def)

lemma Div_quotient:
  assumes "hi < y"
  shows "Div hi lo y = Inr (of_nat ((unat hi * 2 ^ 64 + unat lo) div unat y),
           of_nat ((unat hi * 2 ^ 64 + unat lo) mod unat y))"
  using Div64_quotient [OF assms] by (simp add: Div_def)

lemma Div_panics: "y \<le> hi \<Longrightarrow> Div hi lo y = Inl (if y = 0 then DivideError else OverflowError)"
  by (simp add: Div_def Div64_def)

lemma mod_mult_add_cong: "(a mod n * b + c) mod n = (a * b + c) mod n" for a :: nat
  by (metis mod_add_left_eq mod_mult_left_eq)

lemma Rem64_remainder:
  assumes "y \<noteq> 0"
  shows "Rem64 hi lo y = Inr (of_nat ((unat hi * 2 ^ 64 + unat lo) mod unat y))"
proof -
  have "hi mod y < y"
    using assms by (simp add: word_less_nat_alt unat_mod_word unat_gt_0)
  note d = Div64_quotient [OF this, of lo]
  have "(unat (hi mod y) * 2 ^ 64 + unat lo) mod unat y = (unat hi * 2 ^ 64 + unat lo) mod unat y"
    unfolding unat_mod_word by (rule mod_mult_add_cong)
  then show ?thesis
    using assms by (simp add: Rem64_def d del: power_numeral)
qed

lemma Rem_remainder:
  "y \<noteq> 0 \<Longrightarrow> Rem hi lo y = Inr (of_nat ((unat hi * 2 ^ 64 + unat lo) mod unat y))"
  using Rem64_remainder by (simp add: Rem_def)

section \<open>The 32-bit versions\<close>

lemma unat_ucast64 [simp]: "unat (ucast (x :: u32) :: u64) = unat x"
  using less_trans [OF unat_lt32 [of x], of "2 ^ 64"] by (simp add: unat_ucast_mod)

lemma Add32_carry:
  assumes "unat c \<le> 1" and "Add32 x y c = (s, k)"
  shows "unat s + 2 ^ 32 * unat k = unat x + unat y + unat c" and "unat k \<le> 1"
proof -
  let ?n = "unat x + unat y + unat c"
  have n: "?n < 8589934592" using assms(1) unat_lt32 [of x] unat_lt32 [of y] by linarith
  then have "unat (ucast x + ucast y + ucast c :: u64) = ?n"
    by (simp add: unat_word_ariths)
  then have sk: "unat s = ?n mod 2 ^ 32" "unat k = ?n div 2 ^ 32 mod 2 ^ 32"
    using assms(2) by (auto simp: Add32_def Let_def unat_ucast_mod unat_shr)
  have "?n div 2 ^ 32 < 2" using n by (intro less_mult_imp_div_less) simp
  then have "?n div 2 ^ 32 \<le> 1" by simp
  then have "unat k = ?n div 2 ^ 32" using sk(2) by simp
  then show "unat k \<le> 1" "unat s + 2 ^ 32 * unat k = ?n"
    using sk(1) \<open>?n div 2 ^ 32 \<le> 1\<close> by simp_all
qed

lemma Mul32_product:
  assumes "Mul32 x y = (hi, lo)"
  shows "unat hi * 2 ^ 32 + unat lo = unat x * unat y"
proof -
  let ?n = "unat x * unat y"
  have n: "?n < 2 ^ 32 * 2 ^ 32"
    by (rule mult_strict_mono) simp_all
  then have "unat (ucast x * ucast y :: u64) = ?n"
    by (simp add: unat_word_ariths)
  then have "unat hi = ?n div 2 ^ 32 mod 2 ^ 32" "unat lo = ?n mod 2 ^ 32"
    using assms by (auto simp: Mul32_def Let_def unat_ucast_mod unat_shr)
  moreover have "?n div 2 ^ 32 < 2 ^ 32" using n by (simp add: less_mult_imp_div_less)
  ultimately show ?thesis by simp
qed

lemma join32:
  "unat (push_bit 32 (ucast hi) OR ucast lo :: u64) = unat (hi :: u32) * 2 ^ 32 + unat (lo :: u32)"
proof -
  have "push_bit 32 (ucast hi :: u64) AND ucast lo = 0"
    by (rule bit_word_eqI) (auto simp: bit_simps dest!: bit_imp_le_length)
  moreover have "unat hi * 2 ^ 32 < 2 ^ 64" using unat_lt32 [of hi] by simp
  ultimately show ?thesis by (simp add: unat_or_disjoint unat_shl)
qed

lemma ucast32_unat: "(ucast (w :: u64) :: u32) = of_nat (unat w)"
  by (intro word_unat_eq_iff [THEN iffD2]) (simp add: unat_ucast_mod unat_of_nat)

lemma Div32_quotient:
  assumes "hi < y"
  shows "Div32 hi lo y = Inr (of_nat ((unat hi * 2 ^ 32 + unat lo) div unat y),
           of_nat ((unat hi * 2 ^ 32 + unat lo) mod unat y))"
proof -
  have "y \<noteq> 0" "\<not> y \<le> hi" using assms by auto
  then show ?thesis
    by (simp only: Div32_def Let_def if_False ucast32_unat unat_div_word unat_mod_word join32
        unat_ucast64 simp_thms)
qed

lemma Rem32_remainder:
  assumes "y \<noteq> 0"
  shows "Rem32 hi lo y = Inr (of_nat ((unat hi * 2 ^ 32 + unat lo) mod unat y))"
  using assms
  by (simp only: Rem32_def if_False ucast32_unat unat_mod_word join32 unat_ucast64 simp_thms)

lemma Sub32_borrow:
  assumes "unat b \<le> 1" and "Sub32 x y b = (d, k)"
  shows "unat x + 2 ^ 32 * unat k = unat d + unat y + unat b" and "unat k \<le> 1"
proof -
  have "d = x - y - b" using assms(2) by (simp add: Sub32_def Let_def)
  then have "d + y + b = x" by simp
  then have s: "unat x = (unat d + unat y + unat b) mod 2 ^ 32"
    by (auto simp: unat_word_ariths mod_simps)
  have top: "bit (w :: u32) 31 \<longleftrightarrow> 2 ^ 31 \<le> unat w" for w
    using bit_top_iff [of w] by simp
  have drop: "unat (drop_bit 31 (w :: u32)) = of_bool (bit w 31)" for w
    using unat_lt32 [of w] by (simp add: unat_shr top div_nat_eqI)
  have k: "unat k = of_bool ((\<not> 2 ^ 31 \<le> unat x \<and> 2 ^ 31 \<le> unat y) \<or>
      ((2 ^ 31 \<le> unat x \<longleftrightarrow> 2 ^ 31 \<le> unat y) \<and> 2 ^ 31 \<le> unat d))"
  proof -
    have "k = drop_bit 31 ((NOT x AND y) OR (NOT (x XOR y) AND d))"
      using assms(2) unfolding Sub32_def Let_def prod.inject by blast
    then show ?thesis
      by (simp only: drop bit_or_iff bit_and_iff bit_not_iff bit_xor_iff) (auto simp: top)
  qed
  show "unat k \<le> 1" by (simp add: k)
  have "(unat d + unat y + unat b) mod 2 ^ 32 =
      (if unat d + unat y + unat b < 2 ^ 32 then unat d + unat y + unat b
       else unat d + unat y + unat b - 2 ^ 32)"
    by (rule mod_once) (use assms(1) unat_lt32 [of d] unat_lt32 [of y] in \<open>simp del: unat_lt32\<close>)
  note mods = s [unfolded this]
  show "unat x + 2 ^ 32 * unat k = unat d + unat y + unat b"
    unfolding k by (rule borrow32 [OF _ _ _ assms(1) mods]) simp_all
qed

end
