(* ===== verification/Bits_Spec.thy ===== *)
theory Bits_Spec
  imports Bits_Count Bits_Reverse Bits_Arith
begin

text \<open>
  What \<^verbatim>\<open>math/bits\<close> promises, stated over the bits and the values of the words and not over the
  specification functions of the prelude: the properties of the package.
\<close>

lemma popcount_card: "popcount n = card {i. bit n i}" for n :: nat
proof (induction n rule: popcount.induct)
  case (1 n)
  show ?case
  proof (cases "n = 0")
    case False
    have fin: "finite {i. bit m i}" for m :: nat
    proof (rule finite_subset [of _ "{..<bitlen m}"])
      show "{i. bit m i} \<subseteq> {..<bitlen m}"
      proof (intro subsetI, simp, rule ccontr)
        fix i assume "bit m i" and "\<not> i < bitlen m"
        then have "m < 2 ^ i" using bitlen_le_iff [of m i] by simp
        with \<open>bit m i\<close> show False by (simp add: bit_iff_odd)
      qed
    qed simp
    have "{i. bit n i} = {i. i = 0 \<and> odd n} \<union> Suc ` {i. bit (n div 2) i}"
    proof (intro set_eqI iffI)
      fix i assume "i \<in> {i. bit n i}"
      then show "i \<in> {i. i = 0 \<and> odd n} \<union> Suc ` {i. bit (n div 2) i}"
        by (cases i) (auto simp: bit_0 bit_Suc)
    qed (auto simp: bit_0 bit_Suc)
    moreover have "card ({i. i = 0 \<and> odd n} \<union> Suc ` {i. bit (n div 2) i}) =
        card {i. i = (0::nat) \<and> odd n} + card (Suc ` {i. bit (n div 2) i})"
      by (rule card_Un_disjoint) (auto simp: fin)
    moreover have "card {i. i = (0::nat) \<and> odd n} = n mod 2"
    proof (cases "odd n")
      case True
      then have "{i. i = (0::nat) \<and> odd n} = {0}" by auto
      then show ?thesis using True by (simp add: odd_iff_mod_2_eq_one)
    qed auto
    ultimately show ?thesis
      using 1 False by (simp add: popcount_step [of n] card_image)
  qed simp
qed

lemma bit_unat: "bit (unat x) i = bit x i" for x :: "'a::len word"
  by (simp add: bit_unsigned_iff)

lemma lowbit_dvd: "n \<noteq> 0 \<Longrightarrow> 2 ^ k dvd n \<longleftrightarrow> k \<le> ntz n" for n :: nat
proof -
  assume "n \<noteq> 0"
  from ntz_odd [OF this] obtain m where n: "n = 2 ^ ntz n * m" and m: "odd m" by blast
  show ?thesis
  proof
    assume "k \<le> ntz n"
    then have "(2::nat) ^ k dvd 2 ^ ntz n" by (rule le_imp_power_dvd)
    then show "2 ^ k dvd n" by (subst n) simp
  next
    assume d: "2 ^ k dvd n"
    show "k \<le> ntz n"
    proof (rule ccontr)
      assume "\<not> k \<le> ntz n"
      then have "(2::nat) ^ Suc (ntz n) dvd 2 ^ k" by (intro le_imp_power_dvd) simp
      with d have "2 ^ Suc (ntz n) dvd n" by (rule dvd_trans [rotated])
      then have "2 ^ ntz n * 2 dvd 2 ^ ntz n * m" using n by (metis power_Suc2)
      then have "even m" by simp
      with m show False by simp
    qed
  qed
qed

lemma unat_0_iff_dvd: "(\<forall>k. 2 ^ k dvd unat x) \<longleftrightarrow> x = 0" for x :: u64
proof
  assume "\<forall>k. 2 ^ k dvd unat x"
  then have "2 ^ 64 dvd unat x" by blast
  moreover have "unat x < 2 ^ 64" using unat_lt64 [of x] by simp
  ultimately have "unat x = 0" using nat_dvd_not_less by blast
  then show "x = 0" by (simp add: unat_eq_zero)
qed simp

section \<open>The properties\<close>

text \<open>\<open>Len64\<close> is the number of bits needed to represent its argument, for every 64-bit
  word: it is the least \<open>n\<close> with \<open>x < 2 ^ n\<close> (so 0 for 0), and \<open>LeadingZeros64\<close> is its complement.\<close>

lemma Len64_least:
  "Len64 x = int (LEAST n. unat x < 2 ^ n) \<and> LeadingZeros64 x = 64 - int (LEAST n. unat x < 2 ^ n)"
proof -
  have "(LEAST n. unat x < 2 ^ n) = bitlen (unat x)"
    by (rule Least_equality) (simp_all add: bitlen_le_iff [symmetric])
  then show ?thesis by (simp add: Len64_eq LeadingZeros64_def)
qed

text \<open>C2. The de Bruijn multiplication of \<open>TrailingZeros64\<close> finds the lowest one bit of every
  word: the result is the largest \<open>k \<le> 64\<close> such that \<open>2 ^ k\<close> divides the word.\<close>

theorem TrailingZeros64_dvd:
  "int k \<le> TrailingZeros64 x \<longleftrightarrow> k \<le> 64 \<and> 2 ^ k dvd unat x"
proof (cases "x = 0")
  case True
  then show ?thesis by (simp add: TrailingZeros64_eq)
next
  case False
  then have nz: "unat x \<noteq> 0" by (simp add: unat_eq_zero)
  have "ntz (unat x) < 64" by (rule ntz_lt [OF nz]) (use unat_lt64 [of x] in simp)
  then show ?thesis using False lowbit_dvd [OF nz, of k] by (auto simp: TrailingZeros64_eq)
qed

text \<open>C3. The parallel summation of \<open>OnesCount64\<close> and the table look-ups of the narrower
  versions count the one bits of the word.\<close>

theorem OnesCount_card:
  "OnesCount64 x = int (card {i. bit x i}) \<and> OnesCount32 y = int (card {i. bit y i}) \<and>
   OnesCount16 z = int (card {i. bit z i}) \<and> OnesCount8 w = int (card {i. bit w i})"
  by (simp add: OnesCount64_popcount OnesCount32_popcount OnesCount16_popcount
      OnesCount8_popcount popcount_card bit_unat)

text \<open>C4. \<open>Reverse64\<close> reverses the bits and \<open>ReverseBytes64\<close> the bytes of a word; both are
  involutions.\<close>

theorem Reverse64_bits:
  "(\<forall>i. bit (Reverse64 x) i \<longleftrightarrow> i < 64 \<and> bit x (63 - i)) \<and>
   (\<forall>i. bit (ReverseBytes64 x) i \<longleftrightarrow> i < 64 \<and> bit x (8 * (7 - i div 8) + i mod 8)) \<and>
   Reverse64 (Reverse64 x) = x \<and> ReverseBytes64 (ReverseBytes64 x) = x"
proof (intro conjI allI)
  show r: "bit (Reverse64 x) i \<longleftrightarrow> i < 64 \<and> bit x (63 - i)" for i and x :: u64
    using Reverse64_bit [of i x] bit_imp_le_length [of "Reverse64 x" i] by auto
  show b: "bit (ReverseBytes64 x) i \<longleftrightarrow> i < 64 \<and> bit x (8 * (7 - i div 8) + i mod 8)"
    for i and x :: u64
    using ReverseBytes64_byte [of i x] bit_imp_le_length [of "ReverseBytes64 x" i] by auto
  show "Reverse64 (Reverse64 x) = x"
    by (rule bit_word_eqI) (auto simp: r)
  have "8 * (7 - j div 8) + j mod 8 < 64" "8 * (7 - (8 * (7 - j div 8) + j mod 8) div 8) + j mod 8 = j"
    if "j < 64" for j :: nat
    using that div_mult_mod_eq [of j 8] less_mult_imp_div_less [of j 8 8] by auto
  then show "ReverseBytes64 (ReverseBytes64 x) = x"
    by (intro bit_word_eqI) (auto simp: b)
qed

text \<open>C5. \<open>Add64\<close> and \<open>Sub64\<close> chain: with a carry-in of at most 1 the digit and the carry-out
  represent the exact sum (difference), and subtracting what was added gives the digit back, with
  the borrow-out equal to the carry-out.\<close>

theorem Add64_Sub64_roundtrip:
  assumes "unat c \<le> 1" and "Add64 x y c = (s, k)"
  shows "unat s + 2 ^ 64 * unat k = unat x + unat y + unat c \<and> unat k \<le> 1 \<and> Sub64 s y c = (x, k)"
proof -
  note a = Add64_carry [OF assms]
  obtain d b where sb: "Sub64 s y c = (d, b)" by (cases "Sub64 s y c")
  note d = Sub64_borrow [OF assms(1) this]
  have "unat k = 0 \<or> unat k = 1" "unat b = 0 \<or> unat b = 1" using a(2) d(2) by linarith+
  then have "unat d = unat x \<and> unat b = unat k"
    using a(1) d(1) unat_lt64 [of d] unat_lt64 [of x] by (simp del: unat_lt64) linarith
  then show ?thesis using a sb by (simp add: word_unat_eq_iff)
qed

theorem Add64_Sub64_roundtrip_witness:
  "unat (0 :: u64) + 2 ^ 64 * unat (1 :: u64) = unat (2 ^ 64 - 1 :: u64) + unat (0 :: u64) + unat (1 :: u64) \<and>
   unat (1 :: u64) \<le> 1 \<and> Sub64 0 0 1 = (2 ^ 64 - 1, 1)"
  by (rule Add64_Sub64_roundtrip) (simp_all add: Add64_def Let_def)

text \<open>C6. \<open>Mul64\<close> returns the exact 128-bit product of two words, from four 32-bit products.\<close>

theorem Mul64_exact:
  "unat (fst (Mul64 x y)) * 2 ^ 64 + unat (snd (Mul64 x y)) = unat x * unat y"
  by (rule Mul64_product) simp

text \<open>C7. \<open>Div64\<close> (Knuth's algorithm D with two 32-bit quotient digits) panics exactly when the
  divisor is 0 (divide error) or not greater than the high word (overflow), and otherwise returns
  the quotient and the remainder of the 128-bit dividend; \<open>Rem64\<close> gives the remainder also when the
  quotient overflows.\<close>

theorem Div64_exact:
  "(case Div64 hi lo y of
      Inr (q, r) \<Rightarrow> hi < y \<and> unat q * unat y + unat r = unat hi * 2 ^ 64 + unat lo \<and> r < y
    | Inl e \<Rightarrow> y \<le> hi \<and> e = (if y = 0 then DivideError else OverflowError)) \<and>
   (case Rem64 hi lo y of
      Inr r \<Rightarrow> r < y \<and> (\<exists>k. unat hi * 2 ^ 64 + unat lo = k * unat y + unat r)
    | Inl e \<Rightarrow> y = 0 \<and> e = DivideError)"
proof
  let ?N = "unat hi * 2 ^ 64 + unat lo"
  show "case Div64 hi lo y of
      Inr (q, r) \<Rightarrow> hi < y \<and> unat q * unat y + unat r = ?N \<and> r < y
    | Inl e \<Rightarrow> y \<le> hi \<and> e = (if y = 0 then DivideError else OverflowError)"
  proof (cases "hi < y")
    case True
    then have lt: "unat hi < unat y" by (simp add: word_less_nat_alt)
    have "?N < (unat hi + 1) * 2 ^ 64" using unat_lt64 [of lo] by (simp del: unat_lt64)
    also have "\<dots> \<le> unat y * 2 ^ 64" using lt by (intro mult_le_mono1) simp
    finally have "?N div unat y < 2 ^ 64"
      by (simp add: less_mult_imp_div_less mult.commute)
    moreover have "?N mod unat y < unat y" using lt by simp
    moreover from this have "?N mod unat y < 2 ^ 64"
      using less_trans [of "?N mod unat y" "unat y" "2 ^ 64"] by simp
    ultimately show ?thesis
      using True by (simp add: Div64_quotient word_less_nat_alt unat_of_nat take_bit_nat_eq_self)
  next
    case False
    then show ?thesis by (auto simp: Div_panics [of y hi lo, unfolded Div_def, simplified])
  qed
  show "case Rem64 hi lo y of
      Inr r \<Rightarrow> r < y \<and> (\<exists>k. ?N = k * unat y + unat r)
    | Inl e \<Rightarrow> y = 0 \<and> e = DivideError"
  proof (cases "y = 0")
    case False
    then have "?N mod unat y < unat y" by (simp add: unat_gt_0)
    moreover from this have "?N mod unat y < 2 ^ 64"
      using less_trans [of "?N mod unat y" "unat y" "2 ^ 64"] by simp
    moreover have "\<exists>k. ?N = k * unat y + ?N mod unat y"
      by (intro exI [of _ "?N div unat y"]) simp
    ultimately show ?thesis
      using False by (simp add: Rem64_remainder word_less_nat_alt unat_of_nat take_bit_nat_eq_self)
  qed (simp add: Rem64_def)
qed

end
