(* ===== verification/Order.thy ===== *)
theory Order
  imports Prelude
begin

text \<open>
  Package \<open>cmp\<close> and what a comparison function promises.  \<open>cmp.Compare\<close> and \<open>cmp.Less\<close> are defined
  over the operators \<open><\<close> and \<open>==\<close> of an ordered type, which are parameters; the locale
  \<open>go_ordered\<close> states what the language says of these operators (a NaN is not equal to itself and
  not comparable to anything), the locale \<open>strict_weak_order\<close> the contract that
  \<open>slices.SortFunc\<close> asks of its comparison function.
\<close>

section \<open>The operations\<close>

definition isNaN :: "('a \<Rightarrow> 'a \<Rightarrow> bool) \<Rightarrow> 'a \<Rightarrow> bool" where
  "isNaN eq x \<longleftrightarrow> \<not> eq x x"

definition Less :: "('a \<Rightarrow> 'a \<Rightarrow> bool) \<Rightarrow> ('a \<Rightarrow> 'a \<Rightarrow> bool) \<Rightarrow> 'a \<Rightarrow> 'a \<Rightarrow> bool" where
  "Less lt eq x y \<longleftrightarrow> (isNaN eq x \<and> \<not> isNaN eq y) \<or> lt x y"

definition Compare :: "('a \<Rightarrow> 'a \<Rightarrow> bool) \<Rightarrow> ('a \<Rightarrow> 'a \<Rightarrow> bool) \<Rightarrow> 'a \<Rightarrow> 'a \<Rightarrow> int" where
  "Compare lt eq x y =
    (let xNaN = isNaN eq x; yNaN = isNaN eq y
     in if xNaN \<and> yNaN then 0
        else if xNaN \<or> lt x y then - 1
        else if yNaN \<or> lt y x then 1
        else 0)"

text \<open>\<open>Or\<close> returns the first of its arguments that is not the zero value of the type.\<close>

fun Or :: "'a \<Rightarrow> 'a list \<Rightarrow> 'a" where
  "Or zero [] = zero"
| "Or zero (val # vals) = (if val \<noteq> zero then val else Or zero vals)"

section \<open>The contracts\<close>

definition cmp_less :: "('a \<Rightarrow> 'a \<Rightarrow> int) \<Rightarrow> 'a \<Rightarrow> 'a \<Rightarrow> bool" where
  "cmp_less cmp x y \<longleftrightarrow> cmp x y < 0"

definition cmp_le :: "('a \<Rightarrow> 'a \<Rightarrow> int) \<Rightarrow> 'a \<Rightarrow> 'a \<Rightarrow> bool" where
  "cmp_le cmp x y \<longleftrightarrow> \<not> cmp_less cmp y x"

locale strict_weak_order =
  fixes cmp :: "'a \<Rightarrow> 'a \<Rightarrow> int"
  assumes less_asym: "cmp_less cmp x y \<Longrightarrow> \<not> cmp_less cmp y x"
    and le_trans: "cmp_le cmp x y \<Longrightarrow> cmp_le cmp y z \<Longrightarrow> cmp_le cmp x z"
begin

lemma le_refl [simp]: "cmp_le cmp x x"
  using less_asym by (auto simp: cmp_le_def)

lemma less_irrefl [simp]: "\<not> cmp_less cmp x x"
  using less_asym by auto

lemma less_le: "cmp_less cmp x y \<Longrightarrow> cmp_le cmp x y"
  using less_asym by (auto simp: cmp_le_def)

lemma le_total: "cmp_le cmp x y \<or> cmp_le cmp y x"
  using less_asym by (auto simp: cmp_le_def)

lemma less_le_trans: "cmp_less cmp x y \<Longrightarrow> cmp_le cmp y z \<Longrightarrow> cmp_less cmp x z"
  using le_trans [of y z x] by (auto simp: cmp_le_def)

lemma le_less_trans: "cmp_le cmp x y \<Longrightarrow> cmp_less cmp y z \<Longrightarrow> cmp_less cmp x z"
  using le_trans [of z x y] by (auto simp: cmp_le_def)

lemma not_less: "\<not> cmp_less cmp x y \<longleftrightarrow> cmp_le cmp y x"
  by (simp add: cmp_le_def)

lemma not_le: "\<not> cmp_le cmp x y \<longleftrightarrow> cmp_less cmp y x"
  unfolding cmp_le_def by (rule not_not)

end

locale go_ordered =
  fixes lt eq :: "'a \<Rightarrow> 'a \<Rightarrow> bool"
  assumes nan: "\<not> eq x x \<Longrightarrow> \<not> lt x y \<and> \<not> lt y x"
    and lt_asym: "lt x y \<Longrightarrow> \<not> lt y x"
    and lt_weak: "eq x x \<Longrightarrow> eq y y \<Longrightarrow> eq z z \<Longrightarrow> \<not> lt x y \<Longrightarrow> \<not> lt y z \<Longrightarrow> \<not> lt x z"
begin

lemma Compare_less: "cmp_less (Compare lt eq) x y \<longleftrightarrow> Less lt eq x y"
  using nan [of x y] by (auto simp: cmp_less_def Compare_def Less_def isNaN_def Let_def)

lemma Less_asym: "Less lt eq x y \<Longrightarrow> \<not> Less lt eq y x"
  using lt_asym [of x y] lt_asym [of y x] nan [of x y] nan [of y x]
  by (auto simp: Less_def isNaN_def)

lemma Less_weak: "\<not> Less lt eq y x \<Longrightarrow> \<not> Less lt eq z y \<Longrightarrow> \<not> Less lt eq z x"
  using lt_weak [of z y x] nan [of x z] nan [of z x] by (auto simp: Less_def isNaN_def)

end

text \<open>\<open>cmp.Compare\<close> is a strict weak order on every ordered type, floating-point types with
  their NaNs included.\<close>

sublocale go_ordered \<subseteq> compare: strict_weak_order "Compare lt eq"
proof (standard, goal_cases)
  case (1 x y)
  then show ?case by (auto simp: Compare_less dest: Less_asym)
next
  case (2 x y z)
  then show ?case by (auto simp: cmp_le_def Compare_less dest: Less_weak)
qed

text \<open>The integer and string types: the operators are a linear order.\<close>

interpretation linear: go_ordered "(<) :: 'a::linorder \<Rightarrow> 'a \<Rightarrow> bool" "(=)"
  by standard auto

text \<open>A floating-point value is a NaN or a number; the numbers are ordered.\<close>

definition float_lt :: "'a::linorder option \<Rightarrow> 'a option \<Rightarrow> bool" where
  "float_lt x y = (case (x, y) of (Some a, Some b) \<Rightarrow> a < b | _ \<Rightarrow> False)"

definition float_eq :: "'a::linorder option \<Rightarrow> 'a option \<Rightarrow> bool" where
  "float_eq x y = (case (x, y) of (Some a, Some b) \<Rightarrow> a = b | _ \<Rightarrow> False)"

interpretation floating: go_ordered "float_lt :: 'a::linorder option \<Rightarrow> 'a option \<Rightarrow> bool" float_eq
  by standard (auto simp: float_lt_def float_eq_def split: option.splits)

section \<open>Permutations of a range\<close>

text \<open>\<open>ys\<close> is \<open>xs\<close> with the elements at \<open>a, \<dots>, b - 1\<close> permuted.\<close>

definition perm_on :: "nat \<Rightarrow> nat \<Rightarrow> 'a list \<Rightarrow> 'a list \<Rightarrow> bool" where
  "perm_on a b xs ys \<longleftrightarrow>
    mset ys = mset xs \<and> (\<forall>k < length xs. k < a \<or> b \<le> k \<longrightarrow> ys ! k = xs ! k)"

definition all_on :: "nat \<Rightarrow> nat \<Rightarrow> ('a \<Rightarrow> bool) \<Rightarrow> 'a list \<Rightarrow> bool" where
  "all_on a b P xs \<longleftrightarrow> (\<forall>k. a \<le> k \<longrightarrow> k < b \<longrightarrow> P (xs ! k))"

lemma perm_on_refl [simp]: "perm_on a b xs xs"
  by (simp add: perm_on_def)

lemma perm_on_length: "perm_on a b xs ys \<Longrightarrow> length ys = length xs"
  unfolding perm_on_def by (metis size_mset)

lemma perm_on_mset: "perm_on a b xs ys \<Longrightarrow> mset ys = mset xs"
  by (simp add: perm_on_def)

lemma perm_on_nth: "perm_on a b xs ys \<Longrightarrow> k < length xs \<Longrightarrow> k < a \<or> b \<le> k \<Longrightarrow> ys ! k = xs ! k"
  by (auto simp: perm_on_def)

lemma perm_on_trans: "perm_on a b xs ys \<Longrightarrow> perm_on a b ys zs \<Longrightarrow> perm_on a b xs zs"
  using perm_on_length [of a b xs ys] by (auto simp: perm_on_def)

lemma perm_on_widen: "perm_on a b xs ys \<Longrightarrow> a' \<le> a \<Longrightarrow> b \<le> b' \<Longrightarrow> perm_on a' b' xs ys"
  by (auto simp: perm_on_def)

lemma perm_on_swap:
  "i < length xs \<Longrightarrow> j < length xs \<Longrightarrow> a \<le> i \<Longrightarrow> i < b \<Longrightarrow> a \<le> j \<Longrightarrow> j < b \<Longrightarrow>
    perm_on a b xs (swap xs i j)"
  by (auto simp: perm_on_def nth_swap)

lemma perm_on_swap_trans:
  assumes "perm_on a b (swap xs i j) ys" and "i < length xs" and "j < length xs"
    and "a \<le> i" and "i < b" and "a \<le> j" and "j < b"
  shows "perm_on a b xs ys"
  using perm_on_trans [OF perm_on_swap assms(1)] assms by blast

lemma perm_on_seg:
  assumes "perm_on a b xs ys" and "a \<le> b" and "b \<le> length xs"
  shows "mset (take (b - a) (drop a ys)) = mset (take (b - a) (drop a xs))"
proof -
  note len = perm_on_length [OF assms(1)]
  have t: "take a ys = take a xs" and d: "drop b ys = drop b xs"
    using perm_on_nth [OF assms(1)] len assms(2,3) by (auto intro!: nth_equalityI)
  have split: "mset zs = mset (take a zs) + mset (take (b - a) (drop a zs)) + mset (drop b zs)"
    if "length zs = length xs" for zs :: "'a list"
  proof -
    have "zs = take a zs @ take (b - a) (drop a zs) @ drop b zs"
      using assms(2) by (metis append_take_drop_id drop_drop le_add_diff_inverse2)
    then show ?thesis by (metis mset_append add.assoc)
  qed
  from split [of ys] split [of xs] len t d perm_on_mset [OF assms(1)] show ?thesis by simp
qed

lemma all_on_seg: "b \<le> length xs \<Longrightarrow> all_on a b P xs \<longleftrightarrow> (\<forall>x \<in> set (take (b - a) (drop a xs)). P x)"
  (is "?le \<Longrightarrow> ?l = ?r")
proof -
  assume le: ?le
  show "?l = ?r"
  proof
    assume ?l
    with le show ?r by (auto simp: all_on_def in_set_conv_nth)
  next
    assume r: ?r
    show ?l
      unfolding all_on_def
    proof (intro allI impI)
      fix k assume "a \<le> k" "k < b"
      with le have "xs ! k = take (b - a) (drop a xs) ! (k - a)" "k - a < length (take (b - a) (drop a xs))"
        by auto
      then have "xs ! k \<in> set (take (b - a) (drop a xs))" by (metis nth_mem)
      with r show "P (xs ! k)" by blast
    qed
  qed
qed

lemma perm_on_all:
  assumes "perm_on a b xs ys" and "a \<le> b" and "b \<le> length xs"
  shows "all_on a b P ys \<longleftrightarrow> all_on a b P xs"
proof -
  have "set (take (b - a) (drop a ys)) = set (take (b - a) (drop a xs))"
    using perm_on_seg [OF assms] by (metis set_mset_mset)
  then show ?thesis using assms(3) perm_on_length [OF assms(1)] by (simp add: all_on_seg)
qed

lemma perm_on_all_inside:
  assumes "perm_on a b xs ys" and "a \<le> b" and "b \<le> length xs"
    and "a' \<le> a" and "b \<le> b'" and "b' \<le> length xs" and "all_on a' b' P xs"
  shows "all_on a' b' P ys"
proof -
  have "all_on a b P xs" using assms by (auto simp: all_on_def)
  then have "all_on a b P ys" by (simp add: perm_on_all [OF assms(1-3)])
  then show ?thesis
    using assms perm_on_nth [OF assms(1)] unfolding all_on_def
    by (metis linorder_not_less order_less_le_trans)
qed

lemma all_on_outside:
  "perm_on a b xs ys \<Longrightarrow> b' \<le> length xs \<Longrightarrow> b' \<le> a \<or> b \<le> a' \<Longrightarrow> all_on a' b' P ys \<longleftrightarrow> all_on a' b' P xs"
  by (auto simp: all_on_def perm_on_nth)

section \<open>Sorted ranges\<close>

definition sorted_range :: "('a \<Rightarrow> 'a \<Rightarrow> int) \<Rightarrow> nat \<Rightarrow> nat \<Rightarrow> 'a list \<Rightarrow> bool" where
  "sorted_range cmp a b xs \<longleftrightarrow>
    (\<forall>i j. a \<le> i \<longrightarrow> i < j \<longrightarrow> j < b \<longrightarrow> cmp_le cmp (xs ! i) (xs ! j))"

lemma sorted_range_outside:
  "perm_on a b xs ys \<Longrightarrow> b' \<le> length xs \<Longrightarrow> b' \<le> a \<or> b \<le> a' \<Longrightarrow>
    sorted_range cmp a' b' ys \<longleftrightarrow> sorted_range cmp a' b' xs"
  by (auto simp: sorted_range_def perm_on_nth)

lemma sorted_range_wp: "sorted_range cmp 0 (length xs) xs \<longleftrightarrow> sorted_wrt (cmp_le cmp) xs"
  by (auto simp: sorted_range_def sorted_wrt_iff_nth_less)

context strict_weak_order
begin

lemma sorted_adjacent:
  assumes "\<And>k. a < k \<Longrightarrow> k < b \<Longrightarrow> cmp_le cmp (xs ! (k - 1)) (xs ! k)"
  shows "sorted_range cmp a b xs"
proof -
  have "cmp_le cmp (xs ! i) (xs ! j)" if "i < j" "a \<le> i" "j < b" for i j
    using that
  proof (induction j)
    case (Suc j)
    have "cmp_le cmp (xs ! j) (xs ! Suc j)" using assms [of "Suc j"] Suc.prems by simp
    moreover have "i < j \<Longrightarrow> cmp_le cmp (xs ! i) (xs ! j)" using Suc by auto
    ultimately show ?case using le_trans Suc.prems(1) by (metis less_antisym)
  qed simp
  then show ?thesis by (simp add: sorted_range_def)
qed

text \<open>Two sorted ranges around an element that separates them.\<close>

lemma sorted_join:
  assumes "sorted_range cmp a m xs" and "sorted_range cmp (Suc m) b xs"
    and "all_on a m (\<lambda>x. cmp_le cmp x (xs ! m)) xs" and "all_on (Suc m) b (cmp_le cmp (xs ! m)) xs"
  shows "sorted_range cmp a b xs"
  unfolding sorted_range_def
proof (intro allI impI)
  fix i j assume ij: "a \<le> i" "i < j" "j < b"
  consider "j < m" | "j = m" | "i < m" "m < j" | "i = m" | "m < i" using ij by linarith
  then show "cmp_le cmp (xs ! i) (xs ! j)"
  proof cases
    case 3
    with assms(3,4) ij have "cmp_le cmp (xs ! i) (xs ! m)" "cmp_le cmp (xs ! m) (xs ! j)"
      by (auto simp: all_on_def)
    then show ?thesis by (rule le_trans)
  qed (use assms ij in \<open>auto simp: sorted_range_def all_on_def\<close>)
qed

end

end
