(* ===== verification/Pdqsort.thy ===== *)
theory Pdqsort
  imports Bits_Arith Order
begin

text \<open>
  Package \<open>slices\<close>, \<^verbatim>\<open>zsortanyfunc.go\<close> and \<^verbatim>\<open>sort.go\<close>: the pattern-defeating quicksort behind
  \<open>slices.SortFunc\<close>.  A slice is a list, and every access is checked: \<^const>\<open>None\<close> is the run-time
  panic of an index out of range, so a result \<open>Some ys\<close> also says that no access was out of range.
  The loops are recursive functions over the loop variables; the swap counter that the code passes
  by pointer is threaded through.  Indices are natural numbers: the code never lets one become
  negative, and \<open>int(uint(i+j) >> 1)\<close> is \<open>(i + j) div 2\<close> because a slice is shorter than \<open>2 ^ 63\<close>.
\<close>

section \<open>Comparison and insertion sort\<close>

text \<open>\<open>cmp(data[i], data[j]) < 0\<close>\<close>

definition lessAt :: "('a \<Rightarrow> 'a \<Rightarrow> int) \<Rightarrow> 'a list \<Rightarrow> nat \<Rightarrow> nat \<Rightarrow> bool option" where
  "lessAt cmp xs i j =
    do { x \<leftarrow> slice_get xs i; y \<leftarrow> slice_get xs j; Some (cmp x y < 0) }"

fun insertionSort_inner :: "('a \<Rightarrow> 'a \<Rightarrow> int) \<Rightarrow> nat \<Rightarrow> nat \<Rightarrow> 'a list \<Rightarrow> 'a list option" where
  "insertionSort_inner cmp a j xs =
    (if j > a
     then do {
       b \<leftarrow> lessAt cmp xs j (j - 1);
       if b
       then do { xs \<leftarrow> slice_swap xs j (j - 1); insertionSort_inner cmp a (j - 1) xs }
       else Some xs }
     else Some xs)"

function insertionSort_outer :: "('a \<Rightarrow> 'a \<Rightarrow> int) \<Rightarrow> nat \<Rightarrow> nat \<Rightarrow> nat \<Rightarrow> 'a list \<Rightarrow> 'a list option" where
  "insertionSort_outer cmp a b i xs =
    (if i < b
     then do {
       xs \<leftarrow> insertionSort_inner cmp a i xs;
       insertionSort_outer cmp a b (i + 1) xs }
     else Some xs)"
  by pat_completeness auto
termination
  by (relation "measure (\<lambda>(cmp, a, b, i, xs). b - i)") auto

definition insertionSortCmpFunc ::
    "('a \<Rightarrow> 'a \<Rightarrow> int) \<Rightarrow> 'a list \<Rightarrow> nat \<Rightarrow> nat \<Rightarrow> 'a list option" where
  "insertionSortCmpFunc cmp xs a b = insertionSort_outer cmp a b (a + 1) xs"

section \<open>Heap sort\<close>

function siftDownCmpFunc ::
    "('a \<Rightarrow> 'a \<Rightarrow> int) \<Rightarrow> 'a list \<Rightarrow> nat \<Rightarrow> nat \<Rightarrow> nat \<Rightarrow> 'a list option" where
  "siftDownCmpFunc cmp xs root hi first =
    (if 2 * root + 1 \<ge> hi then Some xs
     else do {
       right \<leftarrow> (if 2 * root + 1 + 1 < hi
                 then lessAt cmp xs (first + (2 * root + 1)) (first + (2 * root + 1) + 1)
                 else Some False);
       let child = (if right then 2 * root + 1 + 1 else 2 * root + 1);
       b \<leftarrow> lessAt cmp xs (first + root) (first + child);
       if \<not> b then Some xs
       else do {
         xs \<leftarrow> slice_swap xs (first + root) (first + child);
         siftDownCmpFunc cmp xs child hi first } })"
  by pat_completeness auto
termination
  by (relation "measure (\<lambda>(cmp, xs, root, hi, first). hi - root)") auto

fun heapSort_build :: "('a \<Rightarrow> 'a \<Rightarrow> int) \<Rightarrow> nat \<Rightarrow> nat \<Rightarrow> nat \<Rightarrow> 'a list \<Rightarrow> 'a list option" where
  "heapSort_build cmp hi first 0 xs = Some xs"
| "heapSort_build cmp hi first (Suc i) xs =
    do { xs \<leftarrow> siftDownCmpFunc cmp xs i hi first; heapSort_build cmp hi first i xs }"

fun heapSort_pop :: "('a \<Rightarrow> 'a \<Rightarrow> int) \<Rightarrow> nat \<Rightarrow> nat \<Rightarrow> 'a list \<Rightarrow> 'a list option" where
  "heapSort_pop cmp first 0 xs = Some xs"
| "heapSort_pop cmp first (Suc i) xs =
    do {
      xs \<leftarrow> slice_swap xs first (first + i);
      xs \<leftarrow> siftDownCmpFunc cmp xs 0 i first;
      heapSort_pop cmp first i xs }"

text \<open>The first loop starts at \<open>(hi - 1) / 2\<close> and runs down to 0; for \<open>hi = 0\<close> it starts at 0.\<close>

definition heapSortCmpFunc ::
    "('a \<Rightarrow> 'a \<Rightarrow> int) \<Rightarrow> 'a list \<Rightarrow> nat \<Rightarrow> nat \<Rightarrow> 'a list option" where
  "heapSortCmpFunc cmp xs a b =
    (let first = a; hi = b - a
     in do {
       xs \<leftarrow> heapSort_build cmp hi first (Suc ((hi - 1) div 2)) xs;
       heapSort_pop cmp first hi xs })"

section \<open>Partition\<close>

text \<open>
  The scans \<open>for i <= j && cmp(data[i], data[a]) < 0 { i++ }\<close> and
  \<open>for i <= j && !(cmp(data[j], data[a]) < 0) { j-- }\<close>.  In every call \<open>i\<close> is at least 1, so that
  \<open>i <= j\<close> implies \<open>j > 0\<close>.
\<close>

function partition_up :: "('a \<Rightarrow> 'a \<Rightarrow> int) \<Rightarrow> 'a list \<Rightarrow> nat \<Rightarrow> nat \<Rightarrow> nat \<Rightarrow> nat option" where
  "partition_up cmp xs a i j =
    (if i \<le> j
     then do {
       b \<leftarrow> lessAt cmp xs i a;
       if b then partition_up cmp xs a (i + 1) j else Some i }
     else Some i)"
  by pat_completeness auto
termination
  by (relation "measure (\<lambda>(cmp, xs, a, i, j). Suc j - i)") auto

fun partition_down :: "('a \<Rightarrow> 'a \<Rightarrow> int) \<Rightarrow> 'a list \<Rightarrow> nat \<Rightarrow> nat \<Rightarrow> nat \<Rightarrow> nat option" where
  "partition_down cmp xs a i j =
    (if i \<le> j \<and> j > 0
     then do {
       b \<leftarrow> lessAt cmp xs j a;
       if \<not> b then partition_down cmp xs a i (j - 1) else Some j }
     else Some j)"

declare partition_up.simps [simp del] partition_down.simps [simp del]

lemma partition_exit [simp]:
  "j < i \<Longrightarrow> partition_up cmp xs a i j = Some i"
  "j < i \<Longrightarrow> partition_down cmp xs a i j = Some j"
  by (simp_all add: partition_up.simps partition_down.simps)

lemma partition_up_range:
  "partition_up cmp xs a i j = Some i' \<Longrightarrow> i \<le> i' \<and> i' \<le> max i (Suc j)"
proof (induction cmp xs a i j rule: partition_up.induct)
  case (1 cmp xs a i j)
  show ?case
  proof (cases "i \<le> j")
    case True
    with "1.prems" obtain b where b: "lessAt cmp xs i a = Some b"
      and r: "(if b then partition_up cmp xs a (i + 1) j else Some i) = Some i'"
      by (subst (asm) partition_up.simps) (auto simp: bind_eq_Some_conv)
    show ?thesis
      using 1(1) [OF True b] r True by (cases b) auto
  qed (use "1.prems" in \<open>simp add: partition_up.simps\<close>)
qed

lemma partition_down_range:
  "partition_down cmp xs a i j = Some j' \<Longrightarrow> j' \<le> j \<and> (i \<le> j \<longrightarrow> i \<le> Suc j')"
proof (induction cmp xs a i j rule: partition_down.induct)
  case (1 cmp xs a i j)
  show ?case
  proof (cases "i \<le> j \<and> j > 0")
    case True
    with "1.prems" obtain b where b: "lessAt cmp xs j a = Some b"
      and r: "(if \<not> b then partition_down cmp xs a i (j - 1) else Some j) = Some j'"
      by (subst (asm) partition_down.simps) (auto simp: bind_eq_Some_conv)
    show ?thesis
      using 1(1) [OF True b] r True
      by (cases b; cases "i \<le> j - 1") (auto simp: not_le)
  qed (use "1.prems" in \<open>auto simp: partition_down.simps\<close>)
qed

function partition_loop ::
    "('a \<Rightarrow> 'a \<Rightarrow> int) \<Rightarrow> 'a list \<Rightarrow> nat \<Rightarrow> nat \<Rightarrow> nat \<Rightarrow> ('a list \<times> nat) option" where
  "partition_loop cmp xs a i j =
    do {
      i \<leftarrow> partition_up cmp xs a i j;
      j \<leftarrow> partition_down cmp xs a i j;
      if i > j then Some (xs, j)
      else do {
        xs \<leftarrow> slice_swap xs i j;
        partition_loop cmp xs a (i + 1) (j - 1) } }"
  by pat_completeness auto
termination
proof (relation "measure (\<lambda>(cmp, xs, a, i, j). Suc j - i)", goal_cases)
  case (2 cmp xs a i j i' j' xs')
  then show ?case
    using partition_up_range [of cmp xs a i j i'] partition_down_range [of cmp xs a i' j j']
    by auto
qed simp

definition partitionCmpFunc ::
    "('a \<Rightarrow> 'a \<Rightarrow> int) \<Rightarrow> 'a list \<Rightarrow> nat \<Rightarrow> nat \<Rightarrow> nat \<Rightarrow> ('a list \<times> nat \<times> bool) option" where
  "partitionCmpFunc cmp xs a b pivot =
    do {
      xs \<leftarrow> slice_swap xs a pivot;
      i \<leftarrow> partition_up cmp xs a (a + 1) (b - 1);
      j \<leftarrow> partition_down cmp xs a i (b - 1);
      if i > j
      then do { xs \<leftarrow> slice_swap xs j a; Some (xs, j, True) }
      else do {
        xs \<leftarrow> slice_swap xs i j;
        (xs, j) \<leftarrow> partition_loop cmp xs a (i + 1) (j - 1);
        xs \<leftarrow> slice_swap xs j a;
        Some (xs, j, False) } }"

text \<open>
  The scans of \<open>partitionEqualCmpFunc\<close>: \<open>for i <= j && !(cmp(data[a], data[i]) < 0) { i++ }\<close> and
  \<open>for i <= j && cmp(data[a], data[j]) < 0 { j-- }\<close>.
\<close>

function partitionEqual_up :: "('a \<Rightarrow> 'a \<Rightarrow> int) \<Rightarrow> 'a list \<Rightarrow> nat \<Rightarrow> nat \<Rightarrow> nat \<Rightarrow> nat option" where
  "partitionEqual_up cmp xs a i j =
    (if i \<le> j
     then do {
       b \<leftarrow> lessAt cmp xs a i;
       if \<not> b then partitionEqual_up cmp xs a (i + 1) j else Some i }
     else Some i)"
  by pat_completeness auto
termination
  by (relation "measure (\<lambda>(cmp, xs, a, i, j). Suc j - i)") auto

fun partitionEqual_down :: "('a \<Rightarrow> 'a \<Rightarrow> int) \<Rightarrow> 'a list \<Rightarrow> nat \<Rightarrow> nat \<Rightarrow> nat \<Rightarrow> nat option" where
  "partitionEqual_down cmp xs a i j =
    (if i \<le> j \<and> j > 0
     then do {
       b \<leftarrow> lessAt cmp xs a j;
       if b then partitionEqual_down cmp xs a i (j - 1) else Some j }
     else Some j)"

declare partitionEqual_up.simps [simp del] partitionEqual_down.simps [simp del]

lemma partitionEqual_exit [simp]:
  "j < i \<Longrightarrow> partitionEqual_up cmp xs a i j = Some i"
  "j < i \<Longrightarrow> partitionEqual_down cmp xs a i j = Some j"
  by (simp_all add: partitionEqual_up.simps partitionEqual_down.simps)

lemma partitionEqual_up_range:
  "partitionEqual_up cmp xs a i j = Some i' \<Longrightarrow> i \<le> i' \<and> i' \<le> max i (Suc j)"
proof (induction cmp xs a i j rule: partitionEqual_up.induct)
  case (1 cmp xs a i j)
  show ?case
  proof (cases "i \<le> j")
    case True
    with "1.prems" obtain b where b: "lessAt cmp xs a i = Some b"
      and r: "(if \<not> b then partitionEqual_up cmp xs a (i + 1) j else Some i) = Some i'"
      by (subst (asm) partitionEqual_up.simps) (auto simp: bind_eq_Some_conv)
    show ?thesis
      using 1(1) [OF True b] r True by (cases b) auto
  qed (use "1.prems" in \<open>simp add: partitionEqual_up.simps\<close>)
qed

lemma partitionEqual_down_range:
  "partitionEqual_down cmp xs a i j = Some j' \<Longrightarrow> j' \<le> j \<and> (i \<le> j \<longrightarrow> i \<le> Suc j')"
proof (induction cmp xs a i j rule: partitionEqual_down.induct)
  case (1 cmp xs a i j)
  show ?case
  proof (cases "i \<le> j \<and> j > 0")
    case True
    with "1.prems" obtain b where b: "lessAt cmp xs a j = Some b"
      and r: "(if b then partitionEqual_down cmp xs a i (j - 1) else Some j) = Some j'"
      by (subst (asm) partitionEqual_down.simps) (auto simp: bind_eq_Some_conv)
    show ?thesis
      using 1(1) [OF True b] r True
      by (cases b; cases "i \<le> j - 1") (auto simp: not_le)
  qed (use "1.prems" in \<open>auto simp: partitionEqual_down.simps\<close>)
qed

function partitionEqual_loop ::
    "('a \<Rightarrow> 'a \<Rightarrow> int) \<Rightarrow> 'a list \<Rightarrow> nat \<Rightarrow> nat \<Rightarrow> nat \<Rightarrow> ('a list \<times> nat) option" where
  "partitionEqual_loop cmp xs a i j =
    do {
      i \<leftarrow> partitionEqual_up cmp xs a i j;
      j \<leftarrow> partitionEqual_down cmp xs a i j;
      if i > j then Some (xs, i)
      else do {
        xs \<leftarrow> slice_swap xs i j;
        partitionEqual_loop cmp xs a (i + 1) (j - 1) } }"
  by pat_completeness auto
termination
proof (relation "measure (\<lambda>(cmp, xs, a, i, j). Suc j - i)", goal_cases)
  case (2 cmp xs a i j i' j' xs')
  then show ?case
    using partitionEqual_up_range [of cmp xs a i j i'] partitionEqual_down_range [of cmp xs a i' j j']
    by auto
qed simp

definition partitionEqualCmpFunc ::
    "('a \<Rightarrow> 'a \<Rightarrow> int) \<Rightarrow> 'a list \<Rightarrow> nat \<Rightarrow> nat \<Rightarrow> nat \<Rightarrow> ('a list \<times> nat) option" where
  "partitionEqualCmpFunc cmp xs a b pivot =
    do {
      xs \<leftarrow> slice_swap xs a pivot;
      partitionEqual_loop cmp xs a (a + 1) (b - 1) }"

declare partition_loop.simps [simp del] partitionEqual_loop.simps [simp del]

lemma partition_loop_range:
  "partition_loop cmp xs a i j = Some (ys, j') \<Longrightarrow> a < i \<Longrightarrow> a \<le> j \<Longrightarrow> a \<le> j' \<and> j' \<le> j"
proof (induction cmp xs a i j rule: partition_loop.induct)
  case (1 cmp xs a i j)
  from "1.prems"(1) obtain i1 j1 where
    i1: "partition_up cmp xs a i j = Some i1" and j1: "partition_down cmp xs a i1 j = Some j1"
    and r: "(if i1 > j1 then Some (xs, j1) else do { xs \<leftarrow> slice_swap xs i1 j1;
        partition_loop cmp xs a (i1 + 1) (j1 - 1) }) = Some (ys, j')"
    by (subst (asm) partition_loop.simps) (auto simp: bind_eq_Some_conv)
  note i1r = partition_up_range [OF i1] and j1r = partition_down_range [OF j1]
  show ?case
  proof (cases "i1 > j1")
    case True
    then show ?thesis
      using r i1r j1r "1.prems"(2,3) j1
      by (cases "i1 \<le> j") (auto simp: not_le)
  next
    case False
    with r obtain zs where "slice_swap xs i1 j1 = Some zs"
      "partition_loop cmp zs a (i1 + 1) (j1 - 1) = Some (ys, j')"
      by (auto simp: bind_eq_Some_conv)
    moreover have "a \<le> j1 - 1" using False i1r "1.prems"(2) by linarith
    ultimately show ?thesis
      using "1.IH" [OF i1 j1 False] False i1r j1r "1.prems"(2) by fastforce
  qed
qed

lemma partition_range:
  assumes "partitionCmpFunc cmp xs a b pivot = Some (ys, mid, p)" and "a < b"
  shows "a \<le> mid \<and> mid < b"
proof -
  from assms(1) obtain zs i j where
    i: "partition_up cmp zs a (a + 1) (b - 1) = Some i" and j: "partition_down cmp zs a i (b - 1) = Some j"
    and r: "(if i > j then do { xs \<leftarrow> slice_swap zs j a; Some (xs, j, True) }
      else do {
        xs \<leftarrow> slice_swap zs i j;
        (xs, j) \<leftarrow> partition_loop cmp xs a (i + 1) (j - 1);
        xs \<leftarrow> slice_swap xs j a;
        Some (xs, j, False) }) = Some (ys, mid, p)"
    unfolding partitionCmpFunc_def by (auto simp: bind_eq_Some_conv)
  note ir = partition_up_range [OF i] and jr = partition_down_range [OF j]
  show ?thesis
  proof (cases "i > j")
    case True
    then show ?thesis
      using r ir jr assms(2) j
      by (cases "i \<le> b - 1") (auto simp: bind_eq_Some_conv not_le)
  next
    case False
    with r obtain us vs where "partition_loop cmp us a (i + 1) (j - 1) = Some (vs, mid)"
      by (auto simp: bind_eq_Some_conv)
    moreover have "a \<le> j - 1" using False ir by linarith
    ultimately have "a \<le> mid \<and> mid \<le> j - 1"
      using partition_loop_range [of cmp us a "i + 1" "j - 1" vs mid] ir by linarith
    then show ?thesis using False ir jr assms(2) by linarith
  qed
qed

lemma partitionEqual_loop_range:
  "partitionEqual_loop cmp xs a i j = Some (ys, i') \<Longrightarrow> i \<le> i'"
proof (induction cmp xs a i j rule: partitionEqual_loop.induct)
  case (1 cmp xs a i j)
  from "1.prems"(1) obtain i1 j1 where
    i1: "partitionEqual_up cmp xs a i j = Some i1" and j1: "partitionEqual_down cmp xs a i1 j = Some j1"
    and r: "(if i1 > j1 then Some (xs, i1) else do { xs \<leftarrow> slice_swap xs i1 j1;
        partitionEqual_loop cmp xs a (i1 + 1) (j1 - 1) }) = Some (ys, i')"
    by (subst (asm) partitionEqual_loop.simps) (auto simp: bind_eq_Some_conv)
  note i1r = partitionEqual_up_range [OF i1]
  show ?case
  proof (cases "i1 > j1")
    case True
    then show ?thesis using r i1r by auto
  next
    case False
    with r obtain zs where "slice_swap xs i1 j1 = Some zs"
      "partitionEqual_loop cmp zs a (i1 + 1) (j1 - 1) = Some (ys, i')"
      by (auto simp: bind_eq_Some_conv)
    from "1.IH" [OF i1 j1 False this] i1r show ?thesis by auto
  qed
qed

lemma partitionEqual_range:
  "partitionEqualCmpFunc cmp xs a b pivot = Some (ys, mid) \<Longrightarrow> a < mid"
  unfolding partitionEqualCmpFunc_def
  by (auto simp: bind_eq_Some_conv dest: partitionEqual_loop_range)

section \<open>Partial insertion sort\<close>

function partialInsertionSort_scan ::
    "('a \<Rightarrow> 'a \<Rightarrow> int) \<Rightarrow> nat \<Rightarrow> 'a list \<Rightarrow> nat \<Rightarrow> nat option" where
  "partialInsertionSort_scan cmp b xs i =
    (if i < b
     then do {
       c \<leftarrow> lessAt cmp xs i (i - 1);
       if \<not> c then partialInsertionSort_scan cmp b xs (i + 1) else Some i }
     else Some i)"
  by pat_completeness auto
termination
  by (relation "measure (\<lambda>(cmp, b, xs, i). b - i)") auto

text \<open>Shift the smaller one to the left; note that the loop of the code stops at 1 and not at \<open>a + 1\<close>.\<close>

fun partialInsertionSort_left :: "('a \<Rightarrow> 'a \<Rightarrow> int) \<Rightarrow> nat \<Rightarrow> 'a list \<Rightarrow> 'a list option" where
  "partialInsertionSort_left cmp j xs =
    (if j \<ge> 1
     then do {
       c \<leftarrow> lessAt cmp xs j (j - 1);
       if \<not> c then Some xs
       else do { xs \<leftarrow> slice_swap xs j (j - 1); partialInsertionSort_left cmp (j - 1) xs } }
     else Some xs)"

function partialInsertionSort_right ::
    "('a \<Rightarrow> 'a \<Rightarrow> int) \<Rightarrow> nat \<Rightarrow> nat \<Rightarrow> 'a list \<Rightarrow> 'a list option" where
  "partialInsertionSort_right cmp b j xs =
    (if j < b
     then do {
       c \<leftarrow> lessAt cmp xs j (j - 1);
       if \<not> c then Some xs
       else do { xs \<leftarrow> slice_swap xs j (j - 1); partialInsertionSort_right cmp b (j + 1) xs } }
     else Some xs)"
  by pat_completeness auto
termination
  by (relation "measure (\<lambda>(cmp, b, j, xs). b - j)") auto

definition maxSteps :: nat where "maxSteps = 5"

definition shortestShifting :: nat where "shortestShifting = 50"

fun partialInsertionSort_steps ::
    "('a \<Rightarrow> 'a \<Rightarrow> int) \<Rightarrow> nat \<Rightarrow> nat \<Rightarrow> nat \<Rightarrow> nat \<Rightarrow> 'a list \<Rightarrow> ('a list \<times> bool) option" where
  "partialInsertionSort_steps cmp a b 0 i xs = Some (xs, False)"
| "partialInsertionSort_steps cmp a b (Suc n) i xs =
    do {
      i \<leftarrow> partialInsertionSort_scan cmp b xs i;
      if i = b then Some (xs, True)
      else if b - a < shortestShifting then Some (xs, False)
      else do {
        xs \<leftarrow> slice_swap xs i (i - 1);
        xs \<leftarrow> (if i - a \<ge> 2 then partialInsertionSort_left cmp (i - 1) xs else Some xs);
        xs \<leftarrow> (if b - i \<ge> 2 then partialInsertionSort_right cmp b (i + 1) xs else Some xs);
        partialInsertionSort_steps cmp a b n i xs } }"

definition partialInsertionSortCmpFunc ::
    "('a \<Rightarrow> 'a \<Rightarrow> int) \<Rightarrow> 'a list \<Rightarrow> nat \<Rightarrow> nat \<Rightarrow> ('a list \<times> bool) option" where
  "partialInsertionSortCmpFunc cmp xs a b =
    partialInsertionSort_steps cmp a b maxSteps (a + 1) xs"

section \<open>Breaking patterns\<close>

text \<open>\<open>xorshift.Next\<close> updates the state and returns it.\<close>

definition xorshift_Next :: "u64 \<Rightarrow> u64" where
  "xorshift_Next r =
    (let r = r XOR push_bit 13 r;
         r = r XOR drop_bit 17 r
     in r XOR push_bit 5 r)"

definition nextPowerOfTwo :: "nat \<Rightarrow> u64" where
  "nextPowerOfTwo n = push_bit (nat (Len (of_nat n))) 1"

function breakPatterns_loop ::
    "nat \<Rightarrow> nat \<Rightarrow> u64 \<Rightarrow> nat \<Rightarrow> nat \<Rightarrow> u64 \<Rightarrow> 'a list \<Rightarrow> 'a list option" where
  "breakPatterns_loop a n modulus stop idx random xs =
    (if idx \<le> stop
     then let random = xorshift_Next random;
              other = unat (random AND (modulus - 1));
              other = (if other \<ge> n then other - n else other)
          in do {
            xs \<leftarrow> slice_swap xs idx (a + other);
            breakPatterns_loop a n modulus stop (idx + 1) random xs }
     else Some xs)"
  by pat_completeness auto
termination
  by (relation "measure (\<lambda>(a, n, modulus, stop, idx, random, xs). Suc stop - idx)") auto

definition breakPatternsCmpFunc :: "'a list \<Rightarrow> nat \<Rightarrow> nat \<Rightarrow> 'a list option" where
  "breakPatternsCmpFunc xs a b =
    (let n = b - a
     in if n \<ge> 8
        then breakPatterns_loop a n (nextPowerOfTwo n) (a + n div 4 * 2 + 1) (a + n div 4 * 2 - 1)
               (of_nat n) xs
        else Some xs)"

section \<open>Choosing the pivot\<close>

datatype sortedHint = unknownHint | increasingHint | decreasingHint

text \<open>The counter \<open>*swaps\<close> is threaded through.\<close>

definition order2CmpFunc ::
    "('a \<Rightarrow> 'a \<Rightarrow> int) \<Rightarrow> 'a list \<Rightarrow> nat \<Rightarrow> nat \<Rightarrow> nat \<Rightarrow> (nat \<times> nat \<times> nat) option" where
  "order2CmpFunc cmp xs a b swaps =
    do {
      c \<leftarrow> lessAt cmp xs b a;
      if c then Some (b, a, swaps + 1) else Some (a, b, swaps) }"

definition medianCmpFunc ::
    "('a \<Rightarrow> 'a \<Rightarrow> int) \<Rightarrow> 'a list \<Rightarrow> nat \<Rightarrow> nat \<Rightarrow> nat \<Rightarrow> nat \<Rightarrow> (nat \<times> nat) option" where
  "medianCmpFunc cmp xs a b c swaps =
    do {
      (a, b, swaps) \<leftarrow> order2CmpFunc cmp xs a b swaps;
      (b, c, swaps) \<leftarrow> order2CmpFunc cmp xs b c swaps;
      (a, b, swaps) \<leftarrow> order2CmpFunc cmp xs a b swaps;
      Some (b, swaps) }"

definition medianAdjacentCmpFunc ::
    "('a \<Rightarrow> 'a \<Rightarrow> int) \<Rightarrow> 'a list \<Rightarrow> nat \<Rightarrow> nat \<Rightarrow> (nat \<times> nat) option" where
  "medianAdjacentCmpFunc cmp xs a swaps = medianCmpFunc cmp xs (a - 1) a (a + 1) swaps"

definition shortestNinther :: nat where "shortestNinther = 50"

definition maxSwaps :: nat where "maxSwaps = 4 * 3"

definition choosePivotCmpFunc ::
    "('a \<Rightarrow> 'a \<Rightarrow> int) \<Rightarrow> 'a list \<Rightarrow> nat \<Rightarrow> nat \<Rightarrow> (nat \<times> sortedHint) option" where
  "choosePivotCmpFunc cmp xs a b =
    (let l = b - a;
         i = a + l div 4 * 1; j = a + l div 4 * 2; k = a + l div 4 * 3
     in do {
       (j, swaps) \<leftarrow>
         (if l \<ge> 8
          then do {
            (i, j, k, swaps) \<leftarrow>
              (if l \<ge> shortestNinther
               then do {
                 (i, swaps) \<leftarrow> medianAdjacentCmpFunc cmp xs i 0;
                 (j, swaps) \<leftarrow> medianAdjacentCmpFunc cmp xs j swaps;
                 (k, swaps) \<leftarrow> medianAdjacentCmpFunc cmp xs k swaps;
                 Some (i, j, k, swaps) }
               else Some (i, j, k, 0));
            medianCmpFunc cmp xs i j k swaps }
          else Some (j, 0));
       Some (j, if swaps = 0 then increasingHint
                else if swaps = maxSwaps then decreasingHint else unknownHint) })"

function reverseRange_loop :: "nat \<Rightarrow> nat \<Rightarrow> 'a list \<Rightarrow> 'a list option" where
  "reverseRange_loop i j xs =
    (if i < j
     then do { xs \<leftarrow> slice_swap xs i j; reverseRange_loop (i + 1) (j - 1) xs }
     else Some xs)"
  by pat_completeness auto
termination
  by (relation "measure (\<lambda>(i, j, xs). j - i)") auto

definition reverseRangeCmpFunc :: "'a list \<Rightarrow> nat \<Rightarrow> nat \<Rightarrow> 'a list option" where
  "reverseRangeCmpFunc xs a b = reverseRange_loop a (b - 1) xs"

section \<open>Pattern-defeating quicksort\<close>

definition maxInsertion :: nat where "maxInsertion = 12"

text \<open>
  The body of the loop up to the choice of the partitioning: break patterns, choose the pivot,
  reverse a decreasing range, try the partial insertion sort.  The result is the slice, whether
  it is already sorted, the limit and the pivot.
\<close>

definition pdqsort_prepare ::
    "('a \<Rightarrow> 'a \<Rightarrow> int) \<Rightarrow> 'a list \<Rightarrow> nat \<Rightarrow> nat \<Rightarrow> nat \<Rightarrow> bool \<Rightarrow> bool \<Rightarrow>
      ('a list \<times> bool \<times> nat \<times> nat) option" where
  "pdqsort_prepare cmp xs a b limit wasBalanced wasPartitioned =
    do {
      (xs, limit) \<leftarrow>
        (if \<not> wasBalanced
         then do { xs \<leftarrow> breakPatternsCmpFunc xs a b; Some (xs, limit - 1) }
         else Some (xs, limit));
      (pivot, hint) \<leftarrow> choosePivotCmpFunc cmp xs a b;
      (xs, pivot, hint) \<leftarrow>
        (if hint = decreasingHint
         then do {
           xs \<leftarrow> reverseRangeCmpFunc xs a b;
           Some (xs, (b - 1) - (pivot - a), increasingHint) }
         else Some (xs, pivot, hint));
      (xs, sorted) \<leftarrow>
        (if wasBalanced \<and> wasPartitioned \<and> hint = increasingHint
         then partialInsertionSortCmpFunc cmp xs a b
         else Some (xs, False));
      Some (xs, sorted, limit, pivot) }"

text \<open>One round of the loop of \<open>pdqsortCmpFunc\<close> and the rounds that follow it.\<close>

function pdqsort_loop ::
    "('a \<Rightarrow> 'a \<Rightarrow> int) \<Rightarrow> 'a list \<Rightarrow> nat \<Rightarrow> nat \<Rightarrow> nat \<Rightarrow> bool \<Rightarrow> bool \<Rightarrow> 'a list option" where
  "pdqsort_loop cmp xs a b limit wasBalanced wasPartitioned =
    (if b - a \<le> maxInsertion then insertionSortCmpFunc cmp xs a b
     else if limit = 0 then heapSortCmpFunc cmp xs a b
     else do {
       (xs, sorted, limit, pivot) \<leftarrow> pdqsort_prepare cmp xs a b limit wasBalanced wasPartitioned;
       if sorted then Some xs
       else do {
         equal \<leftarrow> (if a > 0 then map_option Not (lessAt cmp xs (a - 1) pivot) else Some False);
         if equal
         then do {
           (xs, mid) \<leftarrow> partitionEqualCmpFunc cmp xs a b pivot;
           pdqsort_loop cmp xs mid b limit wasBalanced wasPartitioned }
         else do {
           (xs, mid, wasPartitioned) \<leftarrow> partitionCmpFunc cmp xs a b pivot;
           if mid - a < b - mid
           then do {
             xs \<leftarrow> pdqsort_loop cmp xs a mid limit True True;
             pdqsort_loop cmp xs (mid + 1) b limit (mid - a \<ge> (b - a) div 8) wasPartitioned }
           else do {
             xs \<leftarrow> pdqsort_loop cmp xs (mid + 1) b limit True True;
             pdqsort_loop cmp xs a mid limit (b - mid \<ge> (b - a) div 8) wasPartitioned } } } })"
  by pat_completeness auto
termination
  by (relation "measure (\<lambda>(cmp, xs, a, b, limit, wb, wp). b - a)")
    (auto simp: maxInsertion_def dest: partition_range partitionEqual_range)

definition pdqsortCmpFunc ::
    "('a \<Rightarrow> 'a \<Rightarrow> int) \<Rightarrow> 'a list \<Rightarrow> nat \<Rightarrow> nat \<Rightarrow> nat \<Rightarrow> 'a list option" where
  "pdqsortCmpFunc cmp xs a b limit = pdqsort_loop cmp xs a b limit True True"

definition SortFunc :: "('a \<Rightarrow> 'a \<Rightarrow> int) \<Rightarrow> 'a list \<Rightarrow> 'a list option" where
  "SortFunc cmp xs = pdqsortCmpFunc cmp xs 0 (length xs) (nat (Len (of_nat (length xs))))"

end
