(* ===== verification/Slices_Stable.thy ===== *)
theory Slices_Stable
  imports Pdqsort
begin

text \<open>
  The stable sort of package \<open>slices\<close> (\<^verbatim>\<open>zsortanyfunc.go\<close>): insertion sort of blocks of twenty elements, and
  merging of neighbouring blocks in place by symmetric comparisons and rotations.  As in the pattern-defeating
  quicksort, \<^const>\<open>None\<close> is an index out of range.
\<close>

section \<open>Rotation\<close>

function swapRange_loop :: "'a list \<Rightarrow> nat \<Rightarrow> nat \<Rightarrow> nat \<Rightarrow> nat \<Rightarrow> 'a list option" where
  "swapRange_loop xs a b i n =
    (if i < n
     then do { xs \<leftarrow> slice_swap xs (a + i) (b + i); swapRange_loop xs a b (i + 1) n }
     else Some xs)"
  by pat_completeness auto
termination by (relation "measure (\<lambda>(xs, a, b, i, n). n - i)") auto

declare swapRange_loop.simps [simp del]

definition swapRangeCmpFunc :: "'a list \<Rightarrow> nat \<Rightarrow> nat \<Rightarrow> nat \<Rightarrow> 'a list option" where
  "swapRangeCmpFunc xs a b n = swapRange_loop xs a b 0 n"

text \<open>
  The loop of \<open>rotateCmpFunc\<close>, with \<open>i\<close> and \<open>j\<close> the lengths of the two blocks that meet at \<open>m\<close>.  It would not end if
  one of them were empty, which \<^const>\<open>None\<close> stands for; callers check that neither is.
\<close>

function rotate_loop :: "nat \<Rightarrow> nat \<Rightarrow> nat \<Rightarrow> 'a list \<Rightarrow> 'a list option" where
  "rotate_loop m i j xs =
    (if i \<noteq> j
     then if i = 0 \<or> j = 0 then None
       else if i > j
       then do { xs \<leftarrow> swapRangeCmpFunc xs (m - i) m j; rotate_loop m (i - j) j xs }
       else do { xs \<leftarrow> swapRangeCmpFunc xs (m - i) (m + j - i) i; rotate_loop m i (j - i) xs }
     else swapRangeCmpFunc xs (m - i) m i)"
  by pat_completeness auto
termination by (relation "measure (\<lambda>(m, i, j, xs). i + j)") auto

declare rotate_loop.simps [simp del]

definition rotateCmpFunc :: "'a list \<Rightarrow> nat \<Rightarrow> nat \<Rightarrow> nat \<Rightarrow> 'a list option" where
  "rotateCmpFunc xs a m b = rotate_loop m (m - a) (b - m) xs"

section \<open>Merging\<close>

text \<open>The lowest \<open>i\<close> with \<open>data[i] >= data[a]\<close>, and the lowest one with \<open>data[i] > data[m]\<close>.\<close>

function symMerge_first :: "('a \<Rightarrow> 'a \<Rightarrow> int) \<Rightarrow> 'a list \<Rightarrow> nat \<Rightarrow> nat \<Rightarrow> nat \<Rightarrow> nat option" where
  "symMerge_first cmp xs a i j =
    (if i < j
     then let h = (i + j) div 2
          in do { b \<leftarrow> lessAt cmp xs h a; if b then symMerge_first cmp xs a (h + 1) j else symMerge_first cmp xs a i h }
     else Some i)"
  by pat_completeness auto
termination by (relation "measure (\<lambda>(cmp, xs, a, i, j). j - i)") auto

function symMerge_second :: "('a \<Rightarrow> 'a \<Rightarrow> int) \<Rightarrow> 'a list \<Rightarrow> nat \<Rightarrow> nat \<Rightarrow> nat \<Rightarrow> nat option" where
  "symMerge_second cmp xs m i j =
    (if i < j
     then let h = (i + j) div 2
          in do { b \<leftarrow> lessAt cmp xs m h; if \<not> b then symMerge_second cmp xs m (h + 1) j else symMerge_second cmp xs m i h }
     else Some i)"
  by pat_completeness auto
termination by (relation "measure (\<lambda>(cmp, xs, m, i, j). j - i)") auto

text \<open>The element at \<open>k\<close> moves up to the position before \<open>i\<close>, or down to the position \<open>i\<close>.\<close>

function symMerge_up :: "nat \<Rightarrow> nat \<Rightarrow> 'a list \<Rightarrow> 'a list option" where
  "symMerge_up k i xs =
    (if k < i - 1 then do { xs \<leftarrow> slice_swap xs k (k + 1); symMerge_up (k + 1) i xs } else Some xs)"
  by pat_completeness auto
termination by (relation "measure (\<lambda>(k, i, xs). i - k)") auto

fun symMerge_down :: "nat \<Rightarrow> nat \<Rightarrow> 'a list \<Rightarrow> 'a list option" where
  "symMerge_down k i xs =
    (if k > i then do { xs \<leftarrow> slice_swap xs k (k - 1); symMerge_down (k - 1) i xs } else Some xs)"

text \<open>The symmetric search: the first \<open>c\<close> with \<open>data[p - c] < data[c]\<close>.\<close>

function symMerge_search :: "('a \<Rightarrow> 'a \<Rightarrow> int) \<Rightarrow> 'a list \<Rightarrow> nat \<Rightarrow> nat \<Rightarrow> nat \<Rightarrow> nat option" where
  "symMerge_search cmp xs p start r =
    (if start < r
     then let c = (start + r) div 2
          in do {
            b \<leftarrow> lessAt cmp xs (p - c) c;
            if \<not> b then symMerge_search cmp xs p (c + 1) r else symMerge_search cmp xs p start c }
     else Some start)"
  by pat_completeness auto
termination by (relation "measure (\<lambda>(cmp, xs, p, start, r). r - start)") auto

declare symMerge_first.simps [simp del] symMerge_second.simps [simp del] symMerge_up.simps [simp del]
  symMerge_down.simps [simp del] symMerge_search.simps [simp del]

lemma mid_inside: "(a + b) div 2 + 1 < b \<Longrightarrow> a < (a + b) div 2" for a b :: nat
  by presburger

function symMergeCmpFunc :: "('a \<Rightarrow> 'a \<Rightarrow> int) \<Rightarrow> 'a list \<Rightarrow> nat \<Rightarrow> nat \<Rightarrow> nat \<Rightarrow> 'a list option" where
  "symMergeCmpFunc cmp xs a m b =
    (if m - a = 1 then do { i \<leftarrow> symMerge_first cmp xs a m b; symMerge_up a i xs }
     else if b - m = 1 then do { i \<leftarrow> symMerge_second cmp xs m a m; symMerge_down m i xs }
     else
       let mid = (a + b) div 2; n = mid + m; (start, r) = (if m > mid then (n - b, mid) else (a, m)); p = n - 1
       in do {
         start \<leftarrow> symMerge_search cmp xs p start r;
         let fin = n - start;
         xs \<leftarrow> (if start < m \<and> m < fin then rotateCmpFunc xs start m fin else Some xs);
         xs \<leftarrow> (if a < start \<and> start < mid then symMergeCmpFunc cmp xs a start mid else Some xs);
         if mid < fin \<and> fin < b then symMergeCmpFunc cmp xs mid fin b else Some xs })"
  by pat_completeness auto
termination
  by (relation "measure (\<lambda>(cmp, xs, a, m, b). b - a)") (use mid_inside in \<open>auto intro: diff_less_mono2\<close>)

declare symMergeCmpFunc.simps [simp del]

section \<open>The sort\<close>

definition blockSize :: nat where "blockSize = 20"

text \<open>The blocks that are sorted by insertion; the result has the start of the last, incomplete block.\<close>

function stable_blocks :: "('a \<Rightarrow> 'a \<Rightarrow> int) \<Rightarrow> nat \<Rightarrow> nat \<Rightarrow> nat \<Rightarrow> 'a list \<Rightarrow> (nat \<times> 'a list) option" where
  "stable_blocks cmp n a b xs =
    (if b \<le> n
     then do { xs \<leftarrow> insertionSortCmpFunc cmp xs a b; stable_blocks cmp n b (b + blockSize) xs }
     else Some (a, xs))"
  by pat_completeness auto
termination by (relation "measure (\<lambda>(cmp, n, a, b, xs). Suc n - b)") (auto simp: blockSize_def)

text \<open>One pass that merges pairs of blocks of \<open>s\<close> elements, where \<open>s > 0\<close>.\<close>

function stable_pass :: "('a \<Rightarrow> 'a \<Rightarrow> int) \<Rightarrow> nat \<Rightarrow> nat \<Rightarrow> nat \<Rightarrow> nat \<Rightarrow> 'a list \<Rightarrow> (nat \<times> 'a list) option" where
  "stable_pass cmp n s a b xs =
    (if b \<le> n \<and> 0 < s
     then do { xs \<leftarrow> symMergeCmpFunc cmp xs a (a + s) b; stable_pass cmp n s b (b + 2 * s) xs }
     else Some (a, xs))"
  by pat_completeness auto
termination by (relation "measure (\<lambda>(cmp, n, s, a, b, xs). Suc n - b)") auto

text \<open>The passes with doubled blocks.  A block size is a natural number: an \<open>int\<close> would wrap only beyond \<open>2 ^ 62\<close> elements.\<close>

function stable_passes :: "('a \<Rightarrow> 'a \<Rightarrow> int) \<Rightarrow> nat \<Rightarrow> nat \<Rightarrow> 'a list \<Rightarrow> 'a list option" where
  "stable_passes cmp n s xs =
    (if s < n \<and> 0 < s
     then do {
       (a, xs) \<leftarrow> stable_pass cmp n s 0 (2 * s) xs;
       xs \<leftarrow> (let m = a + s in if m < n then symMergeCmpFunc cmp xs a m n else Some xs);
       stable_passes cmp n (s * 2) xs }
     else Some xs)"
  by pat_completeness auto
termination by (relation "measure (\<lambda>(cmp, n, s, xs). n - s)") auto

declare stable_blocks.simps [simp del] stable_pass.simps [simp del] stable_passes.simps [simp del]

definition stableCmpFunc :: "('a \<Rightarrow> 'a \<Rightarrow> int) \<Rightarrow> 'a list \<Rightarrow> nat \<Rightarrow> 'a list option" where
  "stableCmpFunc cmp xs n =
    do {
      (a, xs) \<leftarrow> stable_blocks cmp n 0 blockSize xs;
      xs \<leftarrow> insertionSortCmpFunc cmp xs a n;
      stable_passes cmp n blockSize xs }"

definition SortStableFunc :: "('a \<Rightarrow> 'a \<Rightarrow> int) \<Rightarrow> 'a list \<Rightarrow> 'a list option" where
  "SortStableFunc cmp xs = stableCmpFunc cmp xs (length xs)"

end
