(* ===== verification/Pdqsort_Parts.thy ===== *)
theory Pdqsort_Parts
  imports Pdqsort
begin

text \<open>
  The routines that \<^verbatim>\<open>pdqsortCmpFunc\<close> is built from, one by one: each returns, permutes its range
  only, and sorts it (insertion sort, heap sort, partial insertion sort when it says so) or splits it
  (the two partitions).  The comparison function is any strict weak order.
\<close>

lemma lessAt_ok [simp]:
  "i < length xs \<Longrightarrow> j < length xs \<Longrightarrow> lessAt cmp xs i j = Some (cmp_less cmp (xs ! i) (xs ! j))"
  by (simp add: lessAt_def cmp_less_def)

declare insertionSort_inner.simps [simp del] insertionSort_outer.simps [simp del]
  siftDownCmpFunc.simps [simp del] partialInsertionSort_scan.simps [simp del]
  partialInsertionSort_left.simps [simp del] partialInsertionSort_right.simps [simp del]
  breakPatterns_loop.simps [simp del] reverseRange_loop.simps [simp del] pdqsort_loop.simps [simp del]

text \<open>All of \<open>[a, e)\<close> is sorted but the element at \<open>j\<close>, which may be smaller than those before it.\<close>

definition sinking :: "('a \<Rightarrow> 'a \<Rightarrow> int) \<Rightarrow> nat \<Rightarrow> nat \<Rightarrow> nat \<Rightarrow> 'a list \<Rightarrow> bool" where
  "sinking cmp a e j xs \<longleftrightarrow>
    (\<forall>p q. a \<le> p \<longrightarrow> p < q \<longrightarrow> q < e \<longrightarrow> q \<noteq> j \<longrightarrow> cmp_le cmp (xs ! p) (xs ! q))"

lemma insertionSort_exit [simp]:
  "j \<le> a \<Longrightarrow> insertionSort_inner cmp a j xs = Some xs"
  "b \<le> i \<Longrightarrow> insertionSort_outer cmp a b i xs = Some xs"
  by (simp_all add: insertionSort_inner.simps insertionSort_outer.simps)

context strict_weak_order
begin

section \<open>Insertion sort\<close>

lemma sinking_swap:
  assumes "sinking cmp a e j xs" and "a < j" and "j < e" and "e \<le> length xs"
    and "cmp_less cmp (xs ! j) (xs ! (j - 1))"
  shows "sinking cmp a e (j - 1) (swap xs j (j - 1))"
  unfolding sinking_def
proof (intro allI impI)
  fix p q assume pq: "a \<le> p" "p < q" "q < e" "q \<noteq> j - 1"
  have le: "cmp_le cmp (xs ! p) (xs ! q)" if "a \<le> p" "p < q" "q < e" "q \<noteq> j" for p q
    using assms(1) that by (auto simp: sinking_def)
  consider "q = j" "p = j - 1" | "q = j" "p < j - 1" | "q \<noteq> j" using pq by linarith
  then show "cmp_le cmp (swap xs j (j - 1) ! p) (swap xs j (j - 1) ! q)"
  proof cases
    case 1
    then show ?thesis using assms less_le by (simp add: nth_swap)
  next
    case 2
    then show ?thesis using assms le [of p "j - 1"] pq by (auto simp: nth_swap)
  next
    case 3
    then show ?thesis using assms le [of p q] le [of "j - 1" q] le [of j q] pq by (auto simp: nth_swap)
  qed
qed

lemma sinking_done:
  assumes "sinking cmp a e j xs" and "j = a \<or> cmp_le cmp (xs ! (j - 1)) (xs ! j)"
  shows "sorted_range cmp a e xs"
  unfolding sorted_range_def
proof (intro allI impI)
  fix p q assume pq: "a \<le> p" "p < q" "q < e"
  show "cmp_le cmp (xs ! p) (xs ! q)"
  proof (cases "q = j")
    case True
    with assms(2) pq have "cmp_le cmp (xs ! (j - 1)) (xs ! j)" by auto
    moreover have "cmp_le cmp (xs ! p) (xs ! (j - 1))"
      using assms(1) pq True by (cases "p = j - 1") (auto simp: sinking_def)
    ultimately show ?thesis using True le_trans by auto
  qed (use assms(1) pq in \<open>auto simp: sinking_def\<close>)
qed

lemma insertionSort_inner_sorts:
  "sinking cmp a e j xs \<Longrightarrow> a \<le> j \<Longrightarrow> j < e \<Longrightarrow> e \<le> length xs \<Longrightarrow>
    \<exists>ys. insertionSort_inner cmp a j xs = Some ys \<and> perm_on a e xs ys \<and> sorted_range cmp a e ys"
proof (induction j arbitrary: xs)
  case 0
  then show ?case
    using sinking_done [of a e 0 xs] by (auto intro!: exI [of _ xs])
next
  case (Suc j)
  show ?case
  proof (cases "a < Suc j \<and> cmp_less cmp (xs ! Suc j) (xs ! j)")
    case True
    let ?xs = "swap xs (Suc j) j"
    have "sinking cmp a e j ?xs" using sinking_swap [of a e "Suc j" xs] Suc.prems True by simp
    then obtain ys where "insertionSort_inner cmp a j ?xs = Some ys" and p: "perm_on a e ?xs ys"
      and "sorted_range cmp a e ys"
      using Suc.IH [of ?xs] Suc.prems True by auto
    moreover have "perm_on a e xs ys"
      using perm_on_trans [OF perm_on_swap p] Suc.prems True by simp
    ultimately show ?thesis
      using Suc.prems True by (simp add: insertionSort_inner.simps [of cmp a "Suc j"])
  next
    case False
    then show ?thesis
      using sinking_done [of a e "Suc j" xs] Suc.prems
      by (auto simp: insertionSort_inner.simps [of cmp a "Suc j"] cmp_le_def)
  qed
qed

lemma insertionSort_outer_sorts:
  "sorted_range cmp a i xs \<Longrightarrow> a < i \<Longrightarrow> i \<le> b \<Longrightarrow> b \<le> length xs \<Longrightarrow>
    \<exists>ys. insertionSort_outer cmp a b i xs = Some ys \<and> perm_on a b xs ys \<and> sorted_range cmp a b ys"
proof (induction "b - i" arbitrary: i xs)
  case 0
  then show ?case by (auto intro!: exI [of _ xs])
next
  case (Suc n)
  then have "Suc i \<le> length xs" by auto
  moreover have "sinking cmp a (Suc i) i xs" using Suc.prems by (auto simp: sinking_def sorted_range_def)
  ultimately obtain us where us: "insertionSort_inner cmp a i xs = Some us" "perm_on a (Suc i) xs us"
    "sorted_range cmp a (Suc i) us"
    using insertionSort_inner_sorts [of a "Suc i" i xs] Suc.prems Suc.hyps(2) by auto
  have more: "n = b - Suc i" "Suc i \<le> b" "a < Suc i" using Suc.hyps(2) Suc.prems by auto
  with us obtain ys where "insertionSort_outer cmp a b (Suc i) us = Some ys" "perm_on a b us ys"
    "sorted_range cmp a b ys"
    using Suc.hyps(1) [of "Suc i" us] more Suc.prems perm_on_length [OF us(2)] by auto
  moreover have "perm_on a b xs ys"
    using perm_on_trans [OF perm_on_widen [OF us(2)] \<open>perm_on a b us ys\<close>] Suc.hyps(2) by simp
  ultimately show ?case
    using us Suc.hyps(2) by (auto simp: insertionSort_outer.simps [of cmp a b i])
qed

lemma insertionSort_sorts:
  assumes "a \<le> b" and "b \<le> length xs"
  shows "\<exists>ys. insertionSortCmpFunc cmp xs a b = Some ys \<and> perm_on a b xs ys \<and> sorted_range cmp a b ys"
proof (cases "a = b")
  case True
  then show ?thesis
    by (auto simp: insertionSortCmpFunc_def sorted_range_def)
next
  case False
  then show ?thesis
    using insertionSort_outer_sorts [of a "a + 1" xs b] assms
    by (auto simp: insertionSortCmpFunc_def sorted_range_def)
qed

end

section \<open>Heap sort\<close>

text \<open>
  The heap lives at \<open>first, \<dots>, first + hi - 1\<close>; only parents from \<open>lo\<close> on are constrained.  In
  \<open>heap_but\<close> the element at \<open>r\<close> may be smaller than its children, which are not greater than the
  parent of \<open>r\<close>.
\<close>

definition heap :: "('a \<Rightarrow> 'a \<Rightarrow> int) \<Rightarrow> nat \<Rightarrow> nat \<Rightarrow> nat \<Rightarrow> 'a list \<Rightarrow> bool" where
  "heap cmp lo hi first xs \<longleftrightarrow>
    (\<forall>c. 0 < c \<longrightarrow> c < hi \<longrightarrow> lo \<le> (c - 1) div 2 \<longrightarrow>
      cmp_le cmp (xs ! (first + c)) (xs ! (first + (c - 1) div 2)))"

definition heap_but :: "('a \<Rightarrow> 'a \<Rightarrow> int) \<Rightarrow> nat \<Rightarrow> nat \<Rightarrow> nat \<Rightarrow> nat \<Rightarrow> 'a list \<Rightarrow> bool" where
  "heap_but cmp r lo hi first xs \<longleftrightarrow>
    (\<forall>c. 0 < c \<longrightarrow> c < hi \<longrightarrow> lo \<le> (c - 1) div 2 \<longrightarrow> (c - 1) div 2 \<noteq> r \<longrightarrow>
      cmp_le cmp (xs ! (first + c)) (xs ! (first + (c - 1) div 2))) \<and>
    (\<forall>c. 0 < c \<longrightarrow> c < hi \<longrightarrow> (c - 1) div 2 = r \<longrightarrow> 0 < r \<longrightarrow> lo \<le> (r - 1) div 2 \<longrightarrow>
      cmp_le cmp (xs ! (first + c)) (xs ! (first + (r - 1) div 2)))"

lemma parent_eq: "0 < c \<Longrightarrow> (c - 1) div 2 = r \<longleftrightarrow> c = 2 * r + 1 \<or> c = 2 * r + 2" for c r :: nat
  by (cases c) auto

context strict_weak_order
begin

lemma heap_but_done:
  assumes "heap_but cmp r lo hi first xs"
    and "\<And>c. c = 2 * r + 1 \<or> c = 2 * r + 2 \<Longrightarrow> c < hi \<Longrightarrow>
      cmp_le cmp (xs ! (first + c)) (xs ! (first + r))"
  shows "heap cmp lo hi first xs"
  unfolding heap_def
proof (intro allI impI)
  fix c assume c: "0 < c" "c < hi" "lo \<le> (c - 1) div 2"
  show "cmp_le cmp (xs ! (first + c)) (xs ! (first + (c - 1) div 2))"
  proof (cases "(c - 1) div 2 = r")
    case True
    then show ?thesis using assms(2) [of c] c parent_eq [of c r] by simp
  qed (use assms(1) c in \<open>simp add: heap_but_def\<close>)
qed

lemma heap_but_swap:
  assumes h: "heap_but cmp r lo hi first xs" and len: "first + hi \<le> length xs" and "lo \<le> r"
    and c0: "c0 = 2 * r + 1 \<or> c0 = 2 * r + 2" "c0 < hi"
    and less: "cmp_less cmp (xs ! (first + r)) (xs ! (first + c0))"
    and max: "\<And>c. c = 2 * r + 1 \<or> c = 2 * r + 2 \<Longrightarrow> c < hi \<Longrightarrow>
      cmp_le cmp (xs ! (first + c)) (xs ! (first + c0))"
  shows "heap_but cmp c0 lo hi first (swap xs (first + r) (first + c0))"
proof -
  let ?ys = "swap xs (first + r) (first + c0)"
  have rc: "r < c0" "r < hi" using c0 by auto
  have nth: "?ys ! (first + k) = (if k = r then xs ! (first + c0) else if k = c0 then xs ! (first + r)
      else xs ! (first + k))" if "k < hi" for k
    using that c0 rc len by (simp add: nth_swap)
  have par: "(c0 - 1) div 2 = r" using c0 by auto
  show ?thesis
    unfolding heap_but_def
  proof (intro conjI allI impI)
    fix c assume c: "0 < c" "c < hi" "lo \<le> (c - 1) div 2" "(c - 1) div 2 \<noteq> c0"
    have p: "(c - 1) div 2 < hi" using c by auto
    show "cmp_le cmp (?ys ! (first + c)) (?ys ! (first + (c - 1) div 2))"
    proof (cases "(c - 1) div 2 = r")
      case True
      then have "c \<noteq> r" using c by auto
      moreover have "cmp_le cmp (xs ! (first + c)) (xs ! (first + c0))"
        using max [of c] c True parent_eq [of c r] by simp
      ultimately show ?thesis using True c rc less less_le by (simp add: nth)
    next
      case False
      then have "c \<noteq> c0" using par by auto
      show ?thesis
      proof (cases "c = r")
        case True
        then have "cmp_le cmp (xs ! (first + c0)) (xs ! (first + (r - 1) div 2))"
          using h c c0(2) par rc unfolding heap_but_def by auto
        then show ?thesis using True c p False by (simp add: nth)
      next
        case False
        then show ?thesis
          using h c p \<open>c \<noteq> c0\<close> \<open>(c - 1) div 2 \<noteq> r\<close> by (simp add: nth heap_but_def)
      qed
    qed
  next
    fix c assume c: "0 < c" "c < hi" "(c - 1) div 2 = c0"
    then have "c \<noteq> r" "c \<noteq> c0" using rc by auto
    moreover have "cmp_le cmp (xs ! (first + c)) (xs ! (first + c0))"
      using h c rc assms(3) unfolding heap_but_def by auto
    ultimately show "cmp_le cmp (?ys ! (first + c)) (?ys ! (first + (c0 - 1) div 2))"
      unfolding par using c rc by (simp add: nth)
  qed
qed

lemma siftDown_heap:
  "heap_but cmp r lo hi first xs \<Longrightarrow> lo \<le> r \<Longrightarrow> first + hi \<le> length xs \<Longrightarrow>
    \<exists>ys. siftDownCmpFunc cmp xs r hi first = Some ys \<and> perm_on first (first + hi) xs ys \<and>
      heap cmp lo hi first ys"
proof (induction "hi - r" arbitrary: r xs rule: less_induct)
  case less
  note h = less.prems(1) and len = less.prems(3)
  show ?case
  proof (cases "2 * r + 1 \<ge> hi")
    case True
    then have "heap cmp lo hi first xs" using heap_but_done [OF h] by fastforce
    then show ?thesis using True by (simp add: siftDownCmpFunc.simps [of cmp xs r])
  next
    case False
    define right where "right \<longleftrightarrow> 2 * r + 1 + 1 < hi \<and>
      cmp_less cmp (xs ! (first + (2 * r + 1))) (xs ! (first + (2 * r + 1) + 1))"
    define c0 where "c0 = (if right then 2 * r + 1 + 1 else 2 * r + 1)"
    have c0: "c0 = 2 * r + 1 \<or> c0 = 2 * r + 2" "c0 < hi"
      using False by (auto simp: c0_def right_def)
    have max: "cmp_le cmp (xs ! (first + c)) (xs ! (first + c0))"
      if "c = 2 * r + 1 \<or> c = 2 * r + 2" "c < hi" for c
      using that less_le by (auto simp: c0_def right_def cmp_le_def split: if_splits)
    let ?b = "cmp_less cmp (xs ! (first + r)) (xs ! (first + c0))"
    have sd: "siftDownCmpFunc cmp xs r hi first =
        (if \<not> ?b then Some xs else siftDownCmpFunc cmp (swap xs (first + r) (first + c0)) c0 hi first)"
      using False len c0 unfolding c0_def right_def
      by (subst siftDownCmpFunc.simps) (auto simp: Let_def split: if_splits)
    show ?thesis
    proof (cases ?b)
      case True
      have rc: "r < c0" and closer: "hi - c0 < hi - r" using c0 by auto
      have hb: "heap_but cmp c0 lo hi first (swap xs (first + r) (first + c0))"
        by (rule heap_but_swap [OF h len less.prems(2) c0 True]) (rule max)
      have "lo \<le> c0" "first + hi \<le> length (swap xs (first + r) (first + c0))"
        using rc less.prems(2) len by simp_all
      from less.hyps [OF closer hb this] obtain ys where
        "siftDownCmpFunc cmp (swap xs (first + r) (first + c0)) c0 hi first = Some ys"
        "perm_on first (first + hi) (swap xs (first + r) (first + c0)) ys" "heap cmp lo hi first ys"
        by blast
      moreover from this(2) have "perm_on first (first + hi) xs ys"
        by (rule perm_on_swap_trans) (use rc c0(2) len in simp_all)
      ultimately show ?thesis using sd True by auto
    next
      case False
      have "heap cmp lo hi first xs"
        using heap_but_done [OF h] max False le_trans unfolding cmp_le_def by blast
      then show ?thesis using sd False by simp
    qed
  qed
qed

lemma heapSort_build_heap:
  "heap cmp n hi first xs \<Longrightarrow> first + hi \<le> length xs \<Longrightarrow>
    \<exists>ys. heapSort_build cmp hi first n xs = Some ys \<and> perm_on first (first + hi) xs ys \<and>
      heap cmp 0 hi first ys"
proof (induction n arbitrary: xs)
  case (Suc n)
  have "heap_but cmp n n hi first xs"
    using Suc.prems(1) unfolding heap_def heap_but_def by auto
  then obtain us where us: "siftDownCmpFunc cmp xs n hi first = Some us"
    "perm_on first (first + hi) xs us" "heap cmp n hi first us"
    using siftDown_heap [of n n hi first xs] Suc.prems(2) by auto
  with Suc.IH [of us] Suc.prems(2) perm_on_length [OF us(2)] perm_on_trans [OF us(2)]
  show ?case by auto
qed auto

lemma heap_root_max: "heap cmp 0 hi first xs \<Longrightarrow> c < hi \<Longrightarrow> cmp_le cmp (xs ! (first + c)) (xs ! first)"
proof (induction c rule: less_induct)
  case (less c)
  show ?case
  proof (cases "c = 0")
    case False
    then have "cmp_le cmp (xs ! (first + (c - 1) div 2)) (xs ! first)"
      using less.prems by (intro less.IH) auto
    moreover have "cmp_le cmp (xs ! (first + c)) (xs ! (first + (c - 1) div 2))"
      using less.prems False by (auto simp: heap_def)
    ultimately show ?thesis using le_trans by blast
  qed simp
qed

lemma heapSort_pop_sorts:
  "heap cmp 0 n first xs \<Longrightarrow> first + n \<le> e \<Longrightarrow> e \<le> length xs \<Longrightarrow> sorted_range cmp (first + n) e xs \<Longrightarrow>
    all_on first (first + n) (\<lambda>x. all_on (first + n) e (cmp_le cmp x) xs) xs \<Longrightarrow>
    \<exists>ys. heapSort_pop cmp first n xs = Some ys \<and> perm_on first e xs ys \<and> sorted_range cmp first e ys"
proof (induction n arbitrary: xs)
  case (Suc n)
  let ?xs = "swap xs first (first + n)"
  have len: "first + n < length xs" "first < length xs" using Suc.prems(2,3) by auto
  have nth: "?xs ! k = (if k = first then xs ! (first + n) else if k = first + n then xs ! first
      else xs ! k)" if "k < length xs" for k
    using that len by (simp add: nth_swap)
  have hb: "heap_but cmp 0 0 n first ?xs"
    using Suc.prems(1) len unfolding heap_def heap_but_def by (auto simp: nth)
  obtain us where us: "siftDownCmpFunc cmp ?xs 0 n first = Some us"
    "perm_on first (first + n) ?xs us" "heap cmp 0 n first us"
    using siftDown_heap [OF hb] len by auto
  have lenu: "length us = length xs" using perm_on_length [OF us(2)] by simp
  have tail: "us ! k = ?xs ! k" if "first + n \<le> k" "k < length xs" for k
    using perm_on_nth [OF us(2), of k] that by simp
  have max: "cmp_le cmp (xs ! (first + c)) (xs ! first)" if "c < Suc n" for c
    by (rule heap_root_max [OF Suc.prems(1) that])
  have sep: "cmp_le cmp (xs ! k) (xs ! l)" if "first \<le> k" "k < first + Suc n" "first + Suc n \<le> l" "l < e" for k l
    using Suc.prems(5) that by (simp add: all_on_def)
  have sorted: "sorted_range cmp (first + n) e us"
    unfolding sorted_range_def
  proof (intro allI impI)
    fix i j assume ij: "first + n \<le> i" "i < j" "j < e"
    then have "us ! j = xs ! j" using tail [of j] nth [of j] Suc.prems(3) by simp
    moreover have "us ! i = (if i = first + n then xs ! first else xs ! i)"
      using tail [of i] nth [of i] ij Suc.prems(3) by auto
    ultimately show "cmp_le cmp (us ! i) (us ! j)"
      using ij sep [of first j] Suc.prems(4) by (auto simp: sorted_range_def)
  qed
  have "all_on first (first + n) (\<lambda>x. all_on (first + n) e (cmp_le cmp x) us) ?xs"
    unfolding all_on_def
  proof (intro allI impI)
    fix k l assume k: "first \<le> k" "k < first + n" and l: "first + n \<le> l" "l < e"
    have "us ! l = (if l = first + n then xs ! first else xs ! l)"
      using tail [of l] nth [of l] l k Suc.prems(3) by auto
    moreover have "?xs ! k = (if k = first then xs ! (first + n) else xs ! k)"
      using nth [of k] k len by simp
    ultimately show "cmp_le cmp (?xs ! k) (us ! l)"
      using l k max [of n] max [of "k - first"] sep [of k l] sep [of "first + n" l] by auto
  qed
  then have "all_on first (first + n) (\<lambda>x. all_on (first + n) e (cmp_le cmp x) us) us"
    using perm_on_all [OF us(2)] len by simp
  then obtain ys where ys: "heapSort_pop cmp first n us = Some ys" "perm_on first e us ys"
    "sorted_range cmp first e ys"
    using Suc.IH [OF us(3) _ _ sorted] Suc.prems(2,3) lenu by auto
  have "perm_on first e ?xs ys"
    using perm_on_trans [OF perm_on_widen [OF us(2)] ys(2)] Suc.prems(2) by simp
  then have "perm_on first e xs ys"
    by (rule perm_on_swap_trans) (use len Suc.prems(2) in simp_all)
  then show ?case using us ys len by auto
qed auto

lemma heapSort_sorts:
  assumes "a \<le> b" and "b \<le> length xs"
  shows "\<exists>ys. heapSortCmpFunc cmp xs a b = Some ys \<and> perm_on a b xs ys \<and> sorted_range cmp a b ys"
proof -
  have "heap cmp (Suc ((b - a - 1) div 2)) (b - a) a xs"
    unfolding heap_def using div_le_mono by (auto simp: Suc_le_eq not_less)
  then obtain us where us: "heapSort_build cmp (b - a) a (Suc ((b - a - 1) div 2)) xs = Some us"
    "perm_on a b xs us" "heap cmp 0 (b - a) a us"
    using heapSort_build_heap [of "Suc ((b - a - 1) div 2)" "b - a" a xs] assms by auto
  then obtain ys where "heapSort_pop cmp a (b - a) us = Some ys" "perm_on a b us ys"
    "sorted_range cmp a b ys"
    using heapSort_pop_sorts [of "b - a" a us b] assms perm_on_length [OF us(2)]
    by (auto simp: sorted_range_def all_on_def)
  then show ?thesis
    using us perm_on_trans [OF us(2)]
    by (auto simp: heapSortCmpFunc_def Let_def simp del: heapSort_build.simps)
qed

end

end
