(* ===== verification/Pdqsort_Partition.thy ===== *)
theory Pdqsort_Partition
  imports Pdqsort_Parts
begin

text \<open>
  The two partitionings of \<^verbatim>\<open>pdqsortCmpFunc\<close>.  They are the same double scan with two predicates: the
  locale \<open>two_scans\<close> states the recursion equations that the code's loops have, derives what they do,
  and is interpreted on both.
\<close>

locale two_scans =
  fixes low :: "'a \<Rightarrow> 'a \<Rightarrow> bool"
    and up down :: "'a list \<Rightarrow> nat \<Rightarrow> nat \<Rightarrow> nat \<Rightarrow> nat option"
    and loop :: "'a list \<Rightarrow> nat \<Rightarrow> nat \<Rightarrow> nat \<Rightarrow> ('a list \<times> nat) option"
    and result :: "nat \<Rightarrow> nat \<Rightarrow> nat"
  assumes up_rec: "a < length xs \<Longrightarrow> j < length xs \<Longrightarrow> up xs a i j =
      (if i \<le> j \<and> low (xs ! i) (xs ! a) then up xs a (i + 1) j else Some i)"
    and down_rec: "a < length xs \<Longrightarrow> j < length xs \<Longrightarrow> 0 < i \<Longrightarrow> down xs a i j =
      (if i \<le> j \<and> \<not> low (xs ! j) (xs ! a) then down xs a i (j - 1) else Some j)"
    and loop_rec: "loop xs a i j =
      do {
        i \<leftarrow> up xs a i j;
        j \<leftarrow> down xs a i j;
        if i > j then Some (xs, result i j)
        else do { xs \<leftarrow> slice_swap xs i j; loop xs a (i + 1) (j - 1) } }"
begin

lemma up_spec:
  assumes "a < length xs" and "j < length xs" and "i \<le> Suc j"
  shows "\<exists>i'. up xs a i j = Some i' \<and> i \<le> i' \<and> i' \<le> Suc j \<and>
    (\<forall>k. i \<le> k \<longrightarrow> k < i' \<longrightarrow> low (xs ! k) (xs ! a)) \<and> (i' \<le> j \<longrightarrow> \<not> low (xs ! i') (xs ! a))"
  using assms(3)
proof (induction "Suc j - i" arbitrary: i)
  case 0
  then show ?case using up_rec [OF assms(1,2), of i] by auto
next
  case (Suc n)
  show ?case
  proof (cases "low (xs ! i) (xs ! a)")
    case True
    have "n = Suc j - Suc i" "Suc i \<le> Suc j" using Suc.hyps(2) by auto
    from Suc.hyps(1) [OF this] obtain i' where i': "up xs a (Suc i) j = Some i'" "Suc i \<le> i'" "i' \<le> Suc j"
      "\<forall>k. Suc i \<le> k \<longrightarrow> k < i' \<longrightarrow> low (xs ! k) (xs ! a)" "i' \<le> j \<longrightarrow> \<not> low (xs ! i') (xs ! a)"
      by blast
    moreover have "\<forall>k. i \<le> k \<longrightarrow> k < i' \<longrightarrow> low (xs ! k) (xs ! a)"
      using i'(4) True by (metis Suc_leI le_neq_implies_less)
    ultimately show ?thesis using True up_rec [OF assms(1,2), of i] Suc.hyps(2) by auto
  next
    case False
    then show ?thesis using up_rec [OF assms(1,2), of i] Suc.prems Suc.hyps(2) by auto
  qed
qed

lemma down_spec:
  assumes "a < length xs" and "0 < i"
  shows "j < length xs \<Longrightarrow> i \<le> Suc j \<Longrightarrow>
    \<exists>j'. down xs a i j = Some j' \<and> j' \<le> j \<and> i \<le> Suc j' \<and>
      (\<forall>k. j' < k \<longrightarrow> k \<le> j \<longrightarrow> \<not> low (xs ! k) (xs ! a)) \<and> (i \<le> j' \<longrightarrow> low (xs ! j') (xs ! a))"
proof (induction j)
  case 0
  then show ?case using down_rec [OF assms(1) _ assms(2), of 0] assms(2) by auto
next
  case (Suc j)
  note rec = down_rec [OF assms(1) Suc.prems(1) assms(2)]
  show ?case
  proof (cases "i \<le> Suc j \<and> \<not> low (xs ! Suc j) (xs ! a)")
    case True
    then obtain j' where j': "down xs a i j = Some j'" "j' \<le> j" "i \<le> Suc j'"
      "\<forall>k. j' < k \<longrightarrow> k \<le> j \<longrightarrow> \<not> low (xs ! k) (xs ! a)" "i \<le> j' \<longrightarrow> low (xs ! j') (xs ! a)"
      using Suc by auto
    moreover have "\<forall>k. j' < k \<longrightarrow> k \<le> Suc j \<longrightarrow> \<not> low (xs ! k) (xs ! a)"
      using j'(4) True by (metis le_Suc_eq)
    ultimately show ?thesis using True rec by auto
  next
    case False
    then show ?thesis using rec Suc.prems by auto
  qed
qed

text \<open>The elements from \<open>i\<close> to \<open>j\<close> end up split at \<open>j'\<close>: low ones first.\<close>

lemma loop_spec:
  "a < i \<Longrightarrow> i \<le> Suc j \<Longrightarrow> j < length xs \<Longrightarrow>
    \<exists>ys j'. loop xs a i j = Some (ys, result (Suc j') j') \<and> i \<le> Suc j' \<and> j' \<le> j \<and>
      perm_on i (Suc j) xs ys \<and> all_on i (Suc j') (\<lambda>x. low x (xs ! a)) ys \<and>
      all_on (Suc j') (Suc j) (\<lambda>x. \<not> low x (xs ! a)) ys"
proof (induction "Suc j - i" arbitrary: i j xs rule: less_induct)
  case less
  have len: "a < length xs" and pos: "0 < i" using less.prems by auto
  from up_spec [OF len less.prems(3,2)] obtain i1 where
    i1: "up xs a i j = Some i1" "i \<le> i1" "i1 \<le> Suc j"
      "\<forall>k. i \<le> k \<longrightarrow> k < i1 \<longrightarrow> low (xs ! k) (xs ! a)" "i1 \<le> j \<longrightarrow> \<not> low (xs ! i1) (xs ! a)" by blast
  have pos1: "0 < i1" using pos i1 by simp
  from down_spec [OF len pos1 less.prems(3) i1(3)] obtain j1 where
    j1: "down xs a i1 j = Some j1" "j1 \<le> j" "i1 \<le> Suc j1"
      "\<forall>k. j1 < k \<longrightarrow> k \<le> j \<longrightarrow> \<not> low (xs ! k) (xs ! a)" "i1 \<le> j1 \<longrightarrow> low (xs ! j1) (xs ! a)" by blast
  show ?case
  proof (cases "i1 > j1")
    case True
    then have "i1 = Suc j1" using j1 by simp
    then show ?thesis
      using i1 j1 by (intro exI [of _ xs] exI [of _ j1]) (auto simp: loop_rec [of xs a i j] all_on_def)
  next
    case False
    then have lt: "i1 < j1" using i1(5) j1(2,5) by (metis le_trans linorder_not_less nat_less_le)
    let ?xs = "swap xs i1 j1"
    have l: "j1 - 1 < length ?xs" "i1 + 1 \<le> Suc (j1 - 1)" "a < i1 + 1" "Suc (j1 - 1) - (i1 + 1) < Suc j - i"
      using lt j1 less.prems i1 by auto
    have a: "?xs ! a = xs ! a" using i1 lt j1(2) less.prems by (simp add: nth_swap len)
    obtain ys j' where ys: "loop ?xs a (i1 + 1) (j1 - 1) = Some (ys, result (Suc j') j')"
      "i1 + 1 \<le> Suc j'" "j' \<le> j1 - 1" "perm_on (i1 + 1) (Suc (j1 - 1)) ?xs ys"
      "all_on (i1 + 1) (Suc j') (\<lambda>x. low x (xs ! a)) ys"
      "all_on (Suc j') (Suc (j1 - 1)) (\<lambda>x. \<not> low x (xs ! a)) ys"
      using less.hyps [OF l(4,3,2,1), unfolded a] by blast
    have out: "ys ! k = ?xs ! k" if "k < i1 + 1 \<or> j1 \<le> k" "k \<le> j" for k
      using perm_on_nth [OF ys(4), of k] that lt less.prems(3) by auto
    have low1: "low (ys ! k) (xs ! a)" if "i \<le> k" "k < Suc j'" for k
    proof (cases "k < i1 + 1")
      case True
      then show ?thesis
        using out [of k] i1(4) j1(2,5) that lt less.prems(3) by (cases "k = i1") (auto simp: nth_swap)
    qed (use ys(5) that in \<open>auto simp: all_on_def\<close>)
    have high1: "\<not> low (ys ! k) (xs ! a)" if "Suc j' \<le> k" "k < Suc j" for k
    proof (cases "j1 \<le> k")
      case True
      then show ?thesis
        using out [of k] i1(5) j1(2,4) that lt less.prems(3) by (cases "k = j1") (auto simp: nth_swap)
    qed (use ys(6) that in \<open>auto simp: all_on_def\<close>)
    have "perm_on i (Suc j) ?xs ys"
      by (rule perm_on_widen [OF ys(4)]) (use i1 j1 lt in auto)
    then have "perm_on i (Suc j) xs ys"
      by (rule perm_on_swap_trans) (use i1 j1 lt less.prems in auto)
    moreover have "loop xs a i j = Some (ys, result (Suc j') j')"
      using i1 j1 ys lt less.prems(3) by (simp add: loop_rec [of xs a i j])
    ultimately show ?thesis
      using ys i1 j1 lt low1 high1 by (intro exI [of _ ys] exI [of _ j']) (auto simp: all_on_def)
  qed
qed

end

interpretation partition: two_scans "cmp_less cmp" "partition_up cmp" "partition_down cmp"
    "partition_loop cmp" "\<lambda>i j. j" for cmp :: "'a \<Rightarrow> 'a \<Rightarrow> int"
proof (standard, goal_cases)
  case (1 a xs j i)
  then show ?case by (subst partition_up.simps) auto
next
  case (2 a xs j i)
  then show ?case by (subst partition_down.simps) auto
next
  case (3 xs a i j)
  show ?case by (subst partition_loop.simps) (rule refl)
qed

interpretation partitionEqual: two_scans "\<lambda>x p. \<not> cmp_less cmp p x" "partitionEqual_up cmp"
    "partitionEqual_down cmp" "partitionEqual_loop cmp" "\<lambda>i j. i" for cmp :: "'a \<Rightarrow> 'a \<Rightarrow> int"
proof (standard, goal_cases)
  case (1 a xs j i)
  then show ?case by (subst partitionEqual_up.simps) auto
next
  case (2 a xs j i)
  then show ?case by (subst partitionEqual_down.simps) auto
next
  case (3 xs a i j)
  show ?case by (subst partitionEqual_loop.simps) (rule refl)
qed

text \<open>
  \<^verbatim>\<open>partitionCmpFunc\<close> puts the elements less than the pivot before \<open>mid\<close>, the pivot at \<open>mid\<close> and the
  others after it.
\<close>

lemma partition_splits:
  fixes cmp :: "'a \<Rightarrow> 'a \<Rightarrow> int"
  assumes "a \<le> pivot" and "pivot < b" and "b \<le> length xs"
  shows "\<exists>ys mid p. partitionCmpFunc cmp xs a b pivot = Some (ys, mid, p) \<and> a \<le> mid \<and> mid < b \<and>
    perm_on a b xs ys \<and> all_on a mid (\<lambda>x. cmp_less cmp x (ys ! mid)) ys \<and>
    all_on (Suc mid) b (\<lambda>x. \<not> cmp_less cmp x (ys ! mid)) ys"
proof -
  let ?xs = "swap xs a pivot"
  let ?low = "\<lambda>x. cmp_less cmp x (?xs ! a)"
  have len: "a < length ?xs" "b - 1 < length ?xs" "a + 1 \<le> Suc (b - 1)" "0 < a + 1"
    using assms by auto
  have sw: "slice_swap xs a pivot = Some ?xs" using assms by simp
  text \<open>Swapping the pivot into place after the scans.\<close>
  have finish: "perm_on a b xs (swap zs j a) \<and> all_on a j (\<lambda>x. cmp_less cmp x (swap zs j a ! j)) (swap zs j a) \<and>
      all_on (Suc j) b (\<lambda>x. \<not> cmp_less cmp x (swap zs j a ! j)) (swap zs j a)"
    if z: "perm_on (a + 1) b ?xs zs" and j: "a \<le> j" "j < b"
      and lo: "all_on (a + 1) (Suc j) ?low zs" and hi: "all_on (Suc j) b (\<lambda>x. \<not> ?low x) zs" for zs j
  proof -
    have lz: "length zs = length xs" "zs ! a = ?xs ! a"
      using perm_on_length [OF z] perm_on_nth [OF z, of a] len by auto
    then have nth: "swap zs j a ! k = (if k = j then ?xs ! a else if k = a then zs ! j else zs ! k)"
      if "k < b" for k
      using that j assms(3) by (simp add: nth_swap)
    have "perm_on a b ?xs zs" by (rule perm_on_widen [OF z]) simp_all
    moreover have "perm_on a b zs (swap zs j a)"
      by (rule perm_on_swap) (use j assms lz in simp_all)
    ultimately have "perm_on a b ?xs (swap zs j a)" by (rule perm_on_trans)
    then have "perm_on a b xs (swap zs j a)"
      by (rule perm_on_swap_trans) (use assms in simp_all)
    then show ?thesis
      using lo hi j by (auto simp: all_on_def nth)
  qed
  from partition.up_spec [OF len(1-3), of cmp] obtain i where
    i: "partition_up cmp ?xs a (a + 1) (b - 1) = Some i" "a + 1 \<le> i" "i \<le> Suc (b - 1)"
      "\<forall>k. a + 1 \<le> k \<longrightarrow> k < i \<longrightarrow> ?low (?xs ! k)" "i \<le> b - 1 \<longrightarrow> \<not> ?low (?xs ! i)" by blast
  have pos: "0 < i" using i by simp
  from partition.down_spec [OF len(1) pos len(2) i(3), of cmp] obtain j where
    j: "partition_down cmp ?xs a i (b - 1) = Some j" "j \<le> b - 1" "i \<le> Suc j"
      "\<forall>k. j < k \<longrightarrow> k \<le> b - 1 \<longrightarrow> \<not> ?low (?xs ! k)" "i \<le> j \<longrightarrow> ?low (?xs ! j)" by blast
  show ?thesis
  proof (cases "i > j")
    case True
    then have ij: "i = Suc j" using j by simp
    have "all_on (a + 1) (Suc j) ?low ?xs" "all_on (Suc j) b (\<lambda>x. \<not> ?low x) ?xs"
      using i(4) j(4) ij by (auto simp: all_on_def)
    from finish [OF perm_on_refl _ _ this] i j ij assms len True
    show ?thesis unfolding partitionCmpFunc_def sw by (simp add: exI [of "\<lambda>p. p" True])
  next
    case False
    then have lt: "i < j" using i(5) j(2,5) by (metis le_trans linorder_not_less nat_less_le)
    let ?us = "swap ?xs i j"
    have l: "a < i + 1" "i + 1 \<le> Suc (j - 1)" "j - 1 < length ?us"
      using i j lt assms by auto
    have nth: "?us ! k = (if k = i then ?xs ! j else if k = j then ?xs ! i else ?xs ! k)"
      if "k < b" for k
      using that i j lt assms by (simp add: nth_swap)
    have a: "?us ! a = ?xs ! a" using nth [of a] i lt assms by auto
    from partition.loop_spec [OF l, of cmp, unfolded a] obtain zs j' where
      z: "partition_loop cmp ?us a (i + 1) (j - 1) = Some (zs, j')" "i + 1 \<le> Suc j'" "j' \<le> j - 1"
        "perm_on (i + 1) (Suc (j - 1)) ?us zs" "all_on (i + 1) (Suc j') ?low zs"
        "all_on (Suc j') (Suc (j - 1)) (\<lambda>x. \<not> ?low x) zs" by blast
    have out: "zs ! k = ?us ! k" if "k < i + 1 \<or> j \<le> k" "k < b" for k
      using perm_on_nth [OF z(4), of k] that lt assms by auto
    have lo: "all_on (a + 1) (Suc j') ?low zs"
      unfolding all_on_def
    proof (intro allI impI)
      fix k assume k: "a + 1 \<le> k" "k < Suc j'"
      show "?low (zs ! k)"
      proof (cases "k < i + 1")
        case True
        then show ?thesis using out [of k] nth [of k] i(4) j(2,5) k lt by (cases "k = i") auto
      qed (use z(5) k in \<open>auto simp: all_on_def\<close>)
    qed
    have hi: "all_on (Suc j') b (\<lambda>x. \<not> ?low x) zs"
      unfolding all_on_def
    proof (intro allI impI)
      fix k assume k: "Suc j' \<le> k" "k < b"
      show "\<not> ?low (zs ! k)"
      proof (cases "j \<le> k")
        case True
        then show ?thesis using out [of k] nth [of k] i(5) j(2,4) k lt by (cases "k = j") auto
      qed (use z(6) k in \<open>auto simp: all_on_def\<close>)
    qed
    have "perm_on (a + 1) b ?us zs"
      by (rule perm_on_widen [OF z(4)]) (use i j lt in auto)
    then have "perm_on (a + 1) b ?xs zs"
      by (rule perm_on_swap_trans) (use i j lt assms in auto)
    moreover have "a \<le> j'" "j' < b" using z(2,3) i j lt assms by auto
    ultimately show ?thesis
      using finish [OF _ _ _ lo hi] z i j lt assms len perm_on_length [of "a + 1" b ?xs zs]
      unfolding partitionCmpFunc_def sw by (simp add: exI [of Not False])
  qed
qed

text \<open>
  \<^verbatim>\<open>partitionEqualCmpFunc\<close>, on a range without elements less than the pivot: those equal to the pivot
  come first.
\<close>

lemma partitionEqual_splits:
  fixes cmp :: "'a \<Rightarrow> 'a \<Rightarrow> int"
  assumes "a \<le> pivot" and "pivot < b" and "b \<le> length xs"
  shows "\<exists>ys mid. partitionEqualCmpFunc cmp xs a b pivot = Some (ys, mid) \<and> a < mid \<and> mid \<le> b \<and>
    perm_on a b xs ys \<and> all_on (Suc a) mid (\<lambda>x. \<not> cmp_less cmp (xs ! pivot) x) ys \<and>
    ys ! a = xs ! pivot \<and> all_on mid b (\<lambda>x. cmp_less cmp (xs ! pivot) x) ys"
proof -
  let ?xs = "swap xs a pivot"
  have l: "a < a + 1" "a + 1 \<le> Suc (b - 1)" "b - 1 < length ?xs"
    using assms by auto
  have p: "?xs ! a = xs ! pivot" using assms by (simp add: nth_swap)
  from partitionEqual.loop_spec [OF l, of cmp, unfolded p] obtain ys j where
    y: "partitionEqual_loop cmp ?xs a (a + 1) (b - 1) = Some (ys, Suc j)" "a + 1 \<le> Suc j" "j \<le> b - 1"
      "perm_on (a + 1) (Suc (b - 1)) ?xs ys" "all_on (a + 1) (Suc j) (\<lambda>x. \<not> cmp_less cmp (xs ! pivot) x) ys"
      "all_on (Suc j) (Suc (b - 1)) (\<lambda>x. \<not> \<not> cmp_less cmp (xs ! pivot) x) ys" by blast
  have "perm_on a b ?xs ys" by (rule perm_on_widen [OF y(4)]) (use assms in auto)
  then have "perm_on a b xs ys" by (rule perm_on_swap_trans) (use assms in simp_all)
  moreover have "ys ! a = xs ! pivot" using perm_on_nth [OF y(4), of a] p assms by auto
  ultimately show ?thesis
    using y assms by (auto simp: partitionEqualCmpFunc_def)
qed

end
