(* ===== verification/Pdqsort_Correct.thy ===== *)
theory Pdqsort_Correct
  imports Pdqsort_Partition
begin

text \<open>
  The remaining routines of \<^verbatim>\<open>pdqsortCmpFunc\<close> and the sort itself: for every strict weak order and
  every slice shorter than \<open>2 ^ 63\<close>, \<open>SortFunc\<close> returns, without an index out of range, a sorted
  permutation of its argument.
\<close>

section \<open>Breaking patterns and choosing a pivot\<close>

lemma nextPowerOfTwo_bounds:
  assumes "0 < n" and "n < 2 ^ 63"
  shows "unat (x AND (nextPowerOfTwo n - 1)) < 2 * n"
proof -
  have u: "unat (of_nat n :: u64) = n" using assms by (simp add: unat_of_nat take_bit_nat_eq_self)
  have "bitlen n \<le> 63" using assms bitlen_le_iff by blast
  have "nextPowerOfTwo n - 1 = mask (bitlen n)"
    by (simp add: nextPowerOfTwo_def Len_eq u mask_eq_decr_exp push_bit_eq_mult)
  then have "unat (x AND (nextPowerOfTwo n - 1)) = unat x mod 2 ^ bitlen n"
    by (simp add: unat_and_mask)
  also have "\<dots> < 2 ^ bitlen n" by simp
  also have "2 ^ bitlen n \<le> 2 * n"
  proof -
    have "2 ^ (bitlen n - 1) \<le> n" using bitlen_bounds [of n] assms by simp
    moreover have "bitlen n = Suc (bitlen n - 1)" using assms bitlen_le_iff [of n 0] by simp
    then have "(2::nat) ^ bitlen n = 2 * 2 ^ (bitlen n - 1)" by (metis power_Suc)
    ultimately show ?thesis by linarith
  qed
  finally show ?thesis .
qed

lemma breakPatterns_loop_perm:
  assumes n: "0 < n" "n < 2 ^ 63" and b: "b = a + n"
  shows "a \<le> idx \<Longrightarrow> stop < b \<Longrightarrow> b \<le> length xs \<Longrightarrow>
    \<exists>ys. breakPatterns_loop a n (nextPowerOfTwo n) stop idx random xs = Some ys \<and> perm_on a b xs ys"
proof (induction "Suc stop - idx" arbitrary: idx random xs)
  case 0
  then show ?case by (simp add: breakPatterns_loop.simps [of a n _ stop idx])
next
  case (Suc k)
  define other where "other = (let o' = unat (xorshift_Next random AND (nextPowerOfTwo n - 1))
    in if o' \<ge> n then o' - n else o')"
  have o: "a + other < b"
    using nextPowerOfTwo_bounds [OF n, of "xorshift_Next random"] b by (auto simp: other_def Let_def)
  have k: "k = Suc stop - (idx + 1)" "a \<le> idx + 1" "idx \<le> stop" using Suc.hyps(2) Suc.prems by auto
  let ?xs = "swap xs idx (a + other)"
  obtain ys where "breakPatterns_loop a n (nextPowerOfTwo n) stop (idx + 1) (xorshift_Next random) ?xs = Some ys"
    and p: "perm_on a b ?xs ys"
    using Suc.hyps(1) [OF k(1,2) Suc.prems(2), of ?xs] Suc.prems by auto
  moreover have "perm_on a b xs ys"
    by (rule perm_on_swap_trans [OF p]) (use o k Suc.prems in auto)
  ultimately show ?case
    using o k Suc.prems
    by (simp add: breakPatterns_loop.simps [of a n _ stop idx] Let_def other_def)
qed

lemma breakPatterns_perm:
  assumes "a \<le> b" and "b \<le> length xs" and "length xs < 2 ^ 63"
  shows "\<exists>ys. breakPatternsCmpFunc xs a b = Some ys \<and> perm_on a b xs ys"
proof (cases "b - a \<ge> 8")
  case True
  define n where "n = b - a"
  have n: "0 < n" "n < 2 ^ 63" "b = a + n" using True assms by (auto simp: n_def)
  have "a \<le> a + n div 4 * 2 - 1" "a + n div 4 * 2 + 1 < b"
    using True n(3) by (simp_all only: n_def [symmetric])
  from breakPatterns_loop_perm [OF n this assms(2), of "of_nat n"] obtain ys where
    "breakPatterns_loop a n (nextPowerOfTwo n) (a + n div 4 * 2 + 1) (a + n div 4 * 2 - 1) (of_nat n) xs = Some ys"
    "perm_on a b xs ys" by blast
  then show ?thesis
    unfolding breakPatternsCmpFunc_def Let_def n_def [symmetric]
    using True [folded n_def] by (simp only: if_True) blast
qed (simp add: breakPatternsCmpFunc_def)

lemma order2_choice:
  assumes "i \<in> S" and "j \<in> S" and "S \<subseteq> {..<length xs}"
  shows "\<exists>x y s'. order2CmpFunc cmp xs i j s = Some (x, y, s') \<and> x \<in> S \<and> y \<in> S"
  using assms by (auto simp: order2CmpFunc_def subset_iff)

lemma median_choice:
  assumes "i \<in> S" and "j \<in> S" and "k \<in> S" and S: "S \<subseteq> {..<length xs}"
  shows "\<exists>m s'. medianCmpFunc cmp xs i j k s = Some (m, s') \<and> m \<in> S"
proof -
  from order2_choice [OF assms(1,2) S] obtain a b s1 where
    1: "order2CmpFunc cmp xs i j s = Some (a, b, s1)" "a \<in> S" "b \<in> S" by blast
  from order2_choice [OF 1(3) assms(3) S] obtain b' c s2 where
    2: "order2CmpFunc cmp xs b k s1 = Some (b', c, s2)" "b' \<in> S" by blast
  from order2_choice [OF 1(2) 2(2) S] obtain a' b'' s3 where
    3: "order2CmpFunc cmp xs a b' s2 = Some (a', b'', s3)" "b'' \<in> S" by blast
  from 1 2 3 show ?thesis by (simp add: medianCmpFunc_def)
qed

lemma medianAdjacent_choice:
  assumes "a < i" and "i + 1 < b" and "b \<le> length xs"
  shows "\<exists>m s'. medianAdjacentCmpFunc cmp xs i s = Some (m, s') \<and> m \<in> {a..<b}"
  unfolding medianAdjacentCmpFunc_def by (rule median_choice) (use assms in auto)

lemma choosePivot_range:
  assumes "8 \<le> b - a" and "b \<le> length xs"
  shows "\<exists>pivot hint. choosePivotCmpFunc cmp xs a b = Some (pivot, hint) \<and> a \<le> pivot \<and> pivot < b"
proof -
  define q where "q = (b - a) div 4"
  have q: "2 \<le> q" "a + 4 * q \<le> b" using assms by (auto simp: q_def)
  define mids where "mids = (if b - a \<ge> shortestNinther
    then do {
      (i, swaps) \<leftarrow> medianAdjacentCmpFunc cmp xs (a + q) 0;
      (j, swaps) \<leftarrow> medianAdjacentCmpFunc cmp xs (a + q * 2) swaps;
      (k, swaps) \<leftarrow> medianAdjacentCmpFunc cmp xs (a + q * 3) swaps;
      Some (i, j, k, swaps) }
    else Some (a + q, a + q * 2, a + q * 3, 0))"
  have "\<exists>i j k s. mids = Some (i, j, k, s) \<and> {i, j, k} \<subseteq> {a..<b}"
  proof (cases "b - a \<ge> shortestNinther")
    case True
    have r: "a < a + q" "a + q + 1 < b" "a < a + q * 2" "a + q * 2 + 1 < b" "a < a + q * 3" "a + q * 3 + 1 < b"
      using q by auto
    from medianAdjacent_choice [OF r(1,2) assms(2)] obtain i s1 where
      1: "medianAdjacentCmpFunc cmp xs (a + q) 0 = Some (i, s1)" "i \<in> {a..<b}" by blast
    from medianAdjacent_choice [OF r(3,4) assms(2)] obtain j s2 where
      2: "medianAdjacentCmpFunc cmp xs (a + q * 2) s1 = Some (j, s2)" "j \<in> {a..<b}" by blast
    from medianAdjacent_choice [OF r(5,6) assms(2)] obtain k s3 where
      3: "medianAdjacentCmpFunc cmp xs (a + q * 3) s2 = Some (k, s3)" "k \<in> {a..<b}" by blast
    show ?thesis using 1 2 3 True q by (simp add: mids_def)
  next
    case False
    then show ?thesis using q by (simp add: mids_def)
  qed
  then obtain i j k s where m: "mids = Some (i, j, k, s)" "{i, j, k} \<subseteq> {a..<b}" by blast
  moreover have "{a..<b} \<subseteq> {..<length xs}" using assms by auto
  ultimately obtain p s' where "medianCmpFunc cmp xs i j k s = Some (p, s')" "p \<in> {a..<b}"
    using median_choice [of i "{a..<b}" j k xs cmp s] by auto
  moreover have "choosePivotCmpFunc cmp xs a b =
      do {
        (j, swaps) \<leftarrow> do { (i, j, k, swaps) \<leftarrow> mids; medianCmpFunc cmp xs i j k swaps };
        Some (j, if swaps = 0 then increasingHint
                 else if swaps = maxSwaps then decreasingHint else unknownHint) }"
    using assms(1) by (simp add: choosePivotCmpFunc_def Let_def mids_def q_def)
  ultimately show ?thesis using m by simp
qed

lemma reverseRange_loop_perm:
  "a \<le> i \<Longrightarrow> j < b \<Longrightarrow> b \<le> length xs \<Longrightarrow>
    \<exists>ys. reverseRange_loop i j xs = Some ys \<and> perm_on a b xs ys"
proof (induction "j - i" arbitrary: i j xs rule: less_induct)
  case less
  show ?case
  proof (cases "i < j")
    case True
    let ?xs = "swap xs i j"
    have "j - 1 - (i + 1) < j - i" "a \<le> i + 1" "j - 1 < b" "b \<le> length ?xs" using less.prems True by auto
    from less.hyps [OF this] obtain ys where
      ys: "reverseRange_loop (i + 1) (j - 1) ?xs = Some ys" "perm_on a b ?xs ys" by blast
    have "perm_on a b xs ys" by (rule perm_on_swap_trans [OF ys(2)]) (use less.prems True in auto)
    then show ?thesis using ys True less.prems by (simp add: reverseRange_loop.simps [of i j])
  qed (simp add: reverseRange_loop.simps [of i j])
qed

lemma reverseRange_perm:
  "a < b \<Longrightarrow> b \<le> length xs \<Longrightarrow> \<exists>ys. reverseRangeCmpFunc xs a b = Some ys \<and> perm_on a b xs ys"
  using reverseRange_loop_perm [of a a "b - 1" b xs] by (simp add: reverseRangeCmpFunc_def)

section \<open>Partial insertion sort\<close>

text \<open>What precedes the range is not greater than its elements.\<close>

definition bounded_below :: "('a \<Rightarrow> 'a \<Rightarrow> int) \<Rightarrow> nat \<Rightarrow> nat \<Rightarrow> 'a list \<Rightarrow> bool" where
  "bounded_below cmp a b xs \<longleftrightarrow> a = 0 \<or> all_on a b (cmp_le cmp (xs ! (a - 1))) xs"

lemma bounded_below_perm:
  assumes "bounded_below cmp a b xs" and "perm_on a b xs ys" and "a \<le> b" and "b \<le> length xs"
  shows "bounded_below cmp a b ys"
proof (cases "a = 0")
  case False
  then have "ys ! (a - 1) = xs ! (a - 1)" using perm_on_nth [OF assms(2), of "a - 1"] assms by simp
  then show ?thesis using assms False perm_on_all [OF assms(2-4)] by (simp add: bounded_below_def)
qed (simp add: bounded_below_def)

lemma bounded_below_narrow:
  "bounded_below cmp a b xs \<Longrightarrow> b' \<le> b \<Longrightarrow> bounded_below cmp a b' xs"
  by (auto simp: bounded_below_def all_on_def)

lemma partialInsertionSort_right_perm:
  "i < j \<Longrightarrow> j \<le> b \<Longrightarrow> b \<le> length xs \<Longrightarrow>
    \<exists>ys. partialInsertionSort_right cmp b j xs = Some ys \<and> perm_on i b xs ys"
proof (induction "b - j" arbitrary: j xs rule: less_induct)
  case less
  show ?case
  proof (cases "j < b \<and> cmp_less cmp (xs ! j) (xs ! (j - 1))")
    case True
    let ?xs = "swap xs j (j - 1)"
    have "b - (j + 1) < b - j" "i < j + 1" "j + 1 \<le> b" "b \<le> length ?xs" using less.prems True by auto
    from less.hyps [OF this] obtain ys where
      ys: "partialInsertionSort_right cmp b (j + 1) ?xs = Some ys" "perm_on i b ?xs ys" by blast
    have "perm_on i b xs ys" by (rule perm_on_swap_trans [OF ys(2)]) (use less.prems True in auto)
    moreover have "j < length xs" "j - 1 < length xs" using less.prems True by auto
    ultimately show ?thesis using ys True by (simp add: partialInsertionSort_right.simps [of cmp b j])
  next
    case False
    then show ?thesis using less.prems by (auto simp: partialInsertionSort_right.simps [of cmp b j])
  qed
qed

definition split_at :: "('a \<Rightarrow> 'a \<Rightarrow> int) \<Rightarrow> nat \<Rightarrow> nat \<Rightarrow> nat \<Rightarrow> 'a list \<Rightarrow> bool" where
  "split_at cmp a mid b xs \<longleftrightarrow> all_on a mid (\<lambda>x. cmp_le cmp x (xs ! mid)) xs \<and>
    all_on (Suc mid) b (cmp_le cmp (xs ! mid)) xs"

context strict_weak_order
begin

text \<open>
  The loop that shifts the smaller element to the left runs down to 1, but the element before the
  range stops it: it does what the inner loop of the insertion sort does.
\<close>

lemma partialInsertionSort_left_eq:
  "a \<le> j \<Longrightarrow> j < length xs \<Longrightarrow> bounded_below cmp a (Suc j) xs \<Longrightarrow>
    partialInsertionSort_left cmp j xs = insertionSort_inner cmp a j xs"
proof (induction j arbitrary: xs)
  case 0
  then show ?case by (simp add: partialInsertionSort_left.simps [of cmp 0])
next
  case (Suc j)
  show ?case
  proof (cases "a = Suc j")
    case True
    then have "\<not> cmp_less cmp (xs ! Suc j) (xs ! j)"
      using Suc.prems by (auto simp: bounded_below_def all_on_def cmp_le_def)
    then show ?thesis using True Suc.prems by (simp add: partialInsertionSort_left.simps [of cmp "Suc j"])
  next
    case False
    let ?xs = "swap xs (Suc j) j"
    have "perm_on a (Suc (Suc j)) xs ?xs" using Suc.prems False by (intro perm_on_swap) auto
    then have "bounded_below cmp a (Suc (Suc j)) ?xs"
      by (rule bounded_below_perm [OF Suc.prems(3)]) (use Suc.prems False in auto)
    then have "bounded_below cmp a (Suc j) ?xs" by (rule bounded_below_narrow) simp
    then have "partialInsertionSort_left cmp j ?xs = insertionSort_inner cmp a j ?xs"
      using Suc.prems False by (intro Suc.IH) auto
    then show ?thesis
      using Suc.prems False
      by (simp add: partialInsertionSort_left.simps [of cmp "Suc j"] insertionSort_inner.simps [of cmp a "Suc j"])
  qed
qed

lemma partialInsertionSort_scan_spec:
  "a < i \<Longrightarrow> i \<le> b \<Longrightarrow> b \<le> length xs \<Longrightarrow> sorted_range cmp a i xs \<Longrightarrow>
    \<exists>i'. partialInsertionSort_scan cmp b xs i = Some i' \<and> i \<le> i' \<and> i' \<le> b \<and> sorted_range cmp a i' xs \<and>
      (i' < b \<longrightarrow> cmp_less cmp (xs ! i') (xs ! (i' - 1)))"
proof (induction "b - i" arbitrary: i rule: less_induct)
  case less
  show ?case
  proof (cases "i < b \<and> \<not> cmp_less cmp (xs ! i) (xs ! (i - 1))")
    case True
    have "sinking cmp a (Suc i) i xs"
      using less.prems(4) by (auto simp: sinking_def sorted_range_def)
    then have "sorted_range cmp a (i + 1) xs"
      using sinking_done [of a "Suc i" i xs] True by (simp add: cmp_le_def)
    moreover have "b - (i + 1) < b - i" "a < i + 1" "i + 1 \<le> b" using less.prems True by auto
    ultimately obtain i' where "partialInsertionSort_scan cmp b xs (i + 1) = Some i'" "i + 1 \<le> i'" "i' \<le> b"
      "sorted_range cmp a i' xs" "i' < b \<longrightarrow> cmp_less cmp (xs ! i') (xs ! (i' - 1))"
      using less.hyps [of "i + 1"] less.prems(3) by blast
    then show ?thesis
      using True less.prems by (auto simp: partialInsertionSort_scan.simps [of cmp b xs i])
  next
    case False
    then show ?thesis using less.prems by (auto simp: partialInsertionSort_scan.simps [of cmp b xs i])
  qed
qed

text \<open>One shift: the range before \<open>i\<close> is sorted again.\<close>

lemma partialInsertionSort_shift:
  assumes "a < i" and "i < b" and "b \<le> length xs" and "sorted_range cmp a i xs"
    and "bounded_below cmp a b xs" and "cmp_less cmp (xs ! i) (xs ! (i - 1))"
  shows "\<exists>us vs. (if i - a \<ge> 2 then partialInsertionSort_left cmp (i - 1) (swap xs i (i - 1))
      else Some (swap xs i (i - 1))) = Some us \<and>
    (if b - i \<ge> 2 then partialInsertionSort_right cmp b (i + 1) us else Some us) = Some vs \<and>
    perm_on a b xs vs \<and> sorted_range cmp a i vs"
proof -
  let ?ys = "swap xs i (i - 1)"
  have p: "perm_on a b xs ?ys" using assms by (intro perm_on_swap) auto
  have sink: "sinking cmp a i (i - 1) ?ys"
    unfolding sinking_def
  proof (intro allI impI)
    fix k q assume q: "a \<le> k" "k < q" "q < i" "q \<noteq> i - 1"
    have "?ys ! k = xs ! k" "?ys ! q = xs ! q" using q assms by (auto simp: nth_swap)
    then show "cmp_le cmp (?ys ! k) (?ys ! q)"
      using assms(4) q by (auto simp: sorted_range_def)
  qed
  have bb: "bounded_below cmp a i ?ys"
    using bounded_below_perm [OF assms(5) p] assms bounded_below_narrow [of cmp a b ?ys i] by simp
  have "\<exists>us. (if i - a \<ge> 2 then partialInsertionSort_left cmp (i - 1) ?ys else Some ?ys) = Some us \<and>
      perm_on a i ?ys us \<and> sorted_range cmp a i us"
  proof (cases "i - a \<ge> 2")
    case True
    have "partialInsertionSort_left cmp (i - 1) ?ys = insertionSort_inner cmp a (i - 1) ?ys"
      using assms bb by (intro partialInsertionSort_left_eq) auto
    then show ?thesis using insertionSort_inner_sorts [OF sink] True assms by auto
  next
    case False
    then have "i = Suc a" using assms by auto
    then show ?thesis by (auto simp: sorted_range_def)
  qed
  then obtain us where us: "(if i - a \<ge> 2 then partialInsertionSort_left cmp (i - 1) ?ys else Some ?ys) = Some us"
    "perm_on a i ?ys us" "sorted_range cmp a i us" by blast
  have lu: "length us = length xs" using perm_on_length [OF us(2)] by simp
  have "\<exists>vs. (if b - i \<ge> 2 then partialInsertionSort_right cmp b (i + 1) us else Some us) = Some vs \<and>
      perm_on i b us vs"
    using partialInsertionSort_right_perm [of i "i + 1" b us cmp] assms lu by auto
  then obtain vs where vs: "(if b - i \<ge> 2 then partialInsertionSort_right cmp b (i + 1) us else Some us) = Some vs"
    "perm_on i b us vs" by blast
  have "perm_on a b ?ys us" by (rule perm_on_widen [OF us(2)]) (use assms in auto)
  moreover have "perm_on a b us vs" by (rule perm_on_widen [OF vs(2)]) (use assms in auto)
  ultimately have "perm_on a b xs vs" using p perm_on_trans by blast
  moreover have "sorted_range cmp a i vs"
    using sorted_range_outside [OF vs(2), of i a] us(3) assms lu by simp
  ultimately show ?thesis using us vs by blast
qed

lemma partialInsertionSort_steps_spec:
  "a < i \<Longrightarrow> i \<le> b \<Longrightarrow> b \<le> length xs \<Longrightarrow> sorted_range cmp a i xs \<Longrightarrow> bounded_below cmp a b xs \<Longrightarrow>
    \<exists>ys d. partialInsertionSort_steps cmp a b n i xs = Some (ys, d) \<and> perm_on a b xs ys \<and>
      (d \<longrightarrow> sorted_range cmp a b ys)"
proof (induction n arbitrary: i xs)
  case (Suc n)
  from partialInsertionSort_scan_spec [OF Suc.prems(1-4)] obtain k where
    k: "partialInsertionSort_scan cmp b xs i = Some k" "i \<le> k" "k \<le> b" "sorted_range cmp a k xs"
      "k < b \<longrightarrow> cmp_less cmp (xs ! k) (xs ! (k - 1))" by blast
  show ?case
  proof (cases "k = b \<or> b - a < shortestShifting")
    case True
    then show ?thesis using k by auto
  next
    case False
    then have kb: "a < k" "k < b" "cmp_less cmp (xs ! k) (xs ! (k - 1))" using k Suc.prems(1) by auto
    from partialInsertionSort_shift [OF kb(1,2) Suc.prems(3) k(4) Suc.prems(5) kb(3)]
    obtain us vs where
      us: "(if k - a \<ge> 2 then partialInsertionSort_left cmp (k - 1) (swap xs k (k - 1))
        else Some (swap xs k (k - 1))) = Some us"
      and vs: "(if b - k \<ge> 2 then partialInsertionSort_right cmp b (k + 1) us else Some us) = Some vs"
      and p: "perm_on a b xs vs" and s: "sorted_range cmp a k vs" by blast
    have "bounded_below cmp a b vs" using bounded_below_perm [OF Suc.prems(5) p] Suc.prems by simp
    with Suc.IH [OF kb(1) _ _ s] kb Suc.prems perm_on_length [OF p] obtain ys d where
      ys: "partialInsertionSort_steps cmp a b n k vs = Some (ys, d)" "perm_on a b vs ys"
        "d \<longrightarrow> sorted_range cmp a b ys" by auto
    have "slice_swap xs k (k - 1) = Some (swap xs k (k - 1))" using kb Suc.prems by simp
    moreover have "k \<noteq> b" "\<not> b - a < shortestShifting" using False by auto
    ultimately have "partialInsertionSort_steps cmp a b (Suc n) i xs = Some (ys, d)"
      by (simp only: partialInsertionSort_steps.simps k(1) bind.bind_lunit us vs ys(1) if_False)
    then show ?thesis using perm_on_trans [OF p ys(2)] ys(3) by blast
  qed
qed auto

lemma partialInsertionSort_spec:
  assumes "a < b" and "b \<le> length xs" and "bounded_below cmp a b xs"
  shows "\<exists>ys d. partialInsertionSortCmpFunc cmp xs a b = Some (ys, d) \<and> perm_on a b xs ys \<and>
      (d \<longrightarrow> sorted_range cmp a b ys)"
  using partialInsertionSort_steps_spec [of a "a + 1" b xs maxSteps] assms
  by (simp add: partialInsertionSortCmpFunc_def sorted_range_def)

section \<open>The sort\<close>

lemma pdqsort_prepare_spec:
  assumes "a + 8 \<le> b" and "b \<le> length xs" and "bounded_below cmp a b xs" and "length xs < 2 ^ 63"
  shows "\<exists>ys d l p. pdqsort_prepare cmp xs a b limit wb wp = Some (ys, d, l, p) \<and> perm_on a b xs ys \<and>
    (d \<longrightarrow> sorted_range cmp a b ys) \<and> a \<le> p \<and> p < b"
proof -
  obtain us l where us: "(if \<not> wb then do { xs \<leftarrow> breakPatternsCmpFunc xs a b; Some (xs, limit - 1) }
      else Some (xs, limit)) = Some (us, l)" "perm_on a b xs us"
    using breakPatterns_perm [of a b xs] assms by (cases wb) auto
  have lu: "b \<le> length us" "length us < 2 ^ 63" using perm_on_length [OF us(2)] assms by simp_all
  obtain p hint where p: "choosePivotCmpFunc cmp us a b = Some (p, hint)" "a \<le> p" "p < b"
    using choosePivot_range [OF _ lu(1), of a cmp] assms(1) by (metis add.commute le_diff_conv2 add_leD2)
  obtain vs p' hint' where vs: "(if hint = decreasingHint
      then do { xs \<leftarrow> reverseRangeCmpFunc us a b; Some (xs, (b - 1) - (p - a), increasingHint) }
      else Some (us, p, hint)) = Some (vs, p', hint')" "perm_on a b us vs" "a \<le> p'" "p' < b"
  proof (cases "hint = decreasingHint")
    case True
    obtain vs where "reverseRangeCmpFunc us a b = Some vs" "perm_on a b us vs"
      using reverseRange_perm [of a b us] assms lu by auto
    then show thesis using that [of vs "(b - 1) - (p - a)" increasingHint] True p assms by auto
  next
    case False
    then show thesis using that [of us p hint] p by simp
  qed
  have pv: "perm_on a b xs vs" using perm_on_trans [OF us(2) vs(2)] .
  have bb: "bounded_below cmp a b vs" "b \<le> length vs"
    using bounded_below_perm [OF assms(3) pv] perm_on_length [OF pv] assms by simp_all
  obtain ys d where ys: "(if wb \<and> wp \<and> hint' = increasingHint
      then partialInsertionSortCmpFunc cmp vs a b else Some (vs, False)) = Some (ys, d)"
    "perm_on a b vs ys" "d \<longrightarrow> sorted_range cmp a b ys"
  proof (cases "wb \<and> wp \<and> hint' = increasingHint")
    case True
    with partialInsertionSort_spec [of a b vs] bb assms that show thesis by auto
  next
    case False
    then have "(if wb \<and> wp \<and> hint' = increasingHint
      then partialInsertionSortCmpFunc cmp vs a b else Some (vs, False)) = Some (vs, False)" by auto
    then show thesis by (rule that) simp_all
  qed
  have "pdqsort_prepare cmp xs a b limit wb wp = Some (ys, d, l, p')"
    unfolding pdqsort_prepare_def us(1) using p(1) vs(1) ys(1) by simp
  then show ?thesis using ys vs perm_on_trans [OF pv ys(2)] by blast
qed

lemma sorted_range_const_prefix:
  assumes "all_on a m (\<lambda>x. cmp_le cmp x p) xs" and "all_on a m (cmp_le cmp p) xs"
    and "sorted_range cmp m b xs" and "all_on m b (cmp_le cmp p) xs"
  shows "sorted_range cmp a b xs"
  unfolding sorted_range_def
proof (intro allI impI)
  fix i j assume ij: "a \<le> i" "i < j" "j < b"
  show "cmp_le cmp (xs ! i) (xs ! j)"
  proof (cases "i < m")
    case True
    then have "cmp_le cmp (xs ! i) p" using assms(1) ij by (simp add: all_on_def)
    moreover have "cmp_le cmp p (xs ! j)"
      using assms(2,4) ij by (cases "j < m") (simp_all add: all_on_def)
    ultimately show ?thesis by (rule le_trans)
  qed (use assms(3) ij in \<open>simp add: sorted_range_def\<close>)
qed

lemma pdqsort_equal_step:
  assumes "a \<le> p" and "p < b" and "b \<le> length xs" and "0 < a" and "bounded_below cmp a b xs"
    and "\<not> cmp_less cmp (xs ! (a - 1)) (xs ! p)"
  shows "\<exists>ys mid. partitionEqualCmpFunc cmp xs a b p = Some (ys, mid) \<and> a < mid \<and> mid \<le> b \<and>
    perm_on a b xs ys \<and> bounded_below cmp mid b ys \<and>
    all_on a mid (\<lambda>x. cmp_le cmp x (xs ! p)) ys \<and> all_on a b (cmp_le cmp (xs ! p)) ys"
proof -
  let ?p = "xs ! p"
  from partitionEqual_splits [OF assms(1-3), of cmp] obtain ys mid where
    y: "partitionEqualCmpFunc cmp xs a b p = Some (ys, mid)" "a < mid" "mid \<le> b" "perm_on a b xs ys"
      "all_on (Suc a) mid (\<lambda>x. \<not> cmp_less cmp ?p x) ys" "ys ! a = ?p"
      "all_on mid b (\<lambda>x. cmp_less cmp ?p x) ys" by blast
  have "all_on a b (cmp_le cmp ?p) xs"
    using assms(4-6) le_trans unfolding bounded_below_def all_on_def cmp_le_def by blast
  then have low: "all_on a b (cmp_le cmp ?p) ys"
    using perm_on_all [OF y(4)] assms(1-3) by simp
  have high: "all_on a mid (\<lambda>x. cmp_le cmp x ?p) ys"
    unfolding all_on_def
  proof (intro allI impI)
    fix k assume "a \<le> k" "k < mid"
    then show "cmp_le cmp (ys ! k) ?p"
      using y(5,6) by (cases "k = a") (auto simp: all_on_def cmp_le_def)
  qed
  have "bounded_below cmp mid b ys"
    unfolding bounded_below_def
  proof (rule disjI2, unfold all_on_def, intro allI impI)
    fix k assume k: "mid \<le> k" "k < b"
    have "cmp_le cmp (ys ! (mid - 1)) ?p" using high y(2) by (auto simp: all_on_def)
    moreover have "cmp_less cmp ?p (ys ! k)" using y(7) k by (simp add: all_on_def)
    ultimately show "cmp_le cmp (ys ! (mid - 1)) (ys ! k)" using less_le le_trans by blast
  qed
  then show ?thesis using y low high by blast
qed

text \<open>The two halves around the pivot are sorted one after the other.\<close>

lemma split_left:
  assumes "split_at cmp a mid b xs" and "perm_on a mid xs ys" and "a \<le> mid" "mid < b" "b \<le> length xs"
  shows "split_at cmp a mid b ys"
proof -
  have "ys ! mid = xs ! mid" using perm_on_nth [OF assms(2), of mid] assms by simp
  then show ?thesis
    using assms perm_on_all [OF assms(2)] all_on_outside [OF assms(2), of b "Suc mid"]
    by (simp add: split_at_def)
qed

lemma split_right:
  assumes "split_at cmp a mid b xs" and "perm_on (Suc mid) b xs ys" and "a \<le> mid" "mid < b" "b \<le> length xs"
  shows "split_at cmp a mid b ys"
proof -
  have "ys ! mid = xs ! mid" using perm_on_nth [OF assms(2), of mid] assms by simp
  then show ?thesis
    using assms perm_on_all [OF assms(2)] all_on_outside [OF assms(2), of mid a]
    by (simp add: split_at_def)
qed

lemma split_sorted:
  "split_at cmp a mid b xs \<Longrightarrow> sorted_range cmp a mid xs \<Longrightarrow> sorted_range cmp (Suc mid) b xs \<Longrightarrow>
    sorted_range cmp a b xs"
  using sorted_join by (auto simp: split_at_def)

lemma split_bounded: "split_at cmp a mid b xs \<Longrightarrow> bounded_below cmp (Suc mid) b xs"
  by (simp add: split_at_def bounded_below_def)

lemma pdqsort_loop_sorts:
  "a \<le> b \<Longrightarrow> b \<le> length xs \<Longrightarrow> length xs < 2 ^ 63 \<Longrightarrow> bounded_below cmp a b xs \<Longrightarrow>
    \<exists>ys. pdqsort_loop cmp xs a b limit wb wp = Some ys \<and> perm_on a b xs ys \<and> sorted_range cmp a b ys"
proof (induction "b - a" arbitrary: a b xs limit wb wp rule: less_induct)
  case less
  note len = less.prems(2)
  consider "b - a \<le> maxInsertion" | "\<not> b - a \<le> maxInsertion" "limit = 0"
    | "\<not> b - a \<le> maxInsertion" "limit \<noteq> 0" by blast
  then show ?case
  proof cases
    case 1
    then show ?thesis
      using insertionSort_sorts [OF less.prems(1,2)] by (simp add: pdqsort_loop.simps [of cmp xs a b])
  next
    case 2
    then show ?thesis
      using heapSort_sorts [OF less.prems(1,2)] by (simp add: pdqsort_loop.simps [of cmp xs a b])
  next
    case 3
    have "a + 8 \<le> b" using 3(1) by (simp add: maxInsertion_def)
    from pdqsort_prepare_spec [OF this len less.prems(4,3)] obtain us d l p where
      us: "pdqsort_prepare cmp xs a b limit wb wp = Some (us, d, l, p)" "perm_on a b xs us"
        "d \<longrightarrow> sorted_range cmp a b us" "a \<le> p" "p < b" by blast
    have lu: "b \<le> length us" "length us < 2 ^ 63" "length us = length xs"
      using perm_on_length [OF us(2)] len less.prems(3) by simp_all
    have bb: "bounded_below cmp a b us" using bounded_below_perm [OF less.prems(4) us(2)] less.prems by simp
    have rest: "\<exists>ys. pdqsort_loop cmp xs a b limit wb wp = Some ys \<and> perm_on a b us ys \<and>
        sorted_range cmp a b ys"
    proof (cases d)
      case True
      then show ?thesis
        using us(1,3) 3 by (auto simp: pdqsort_loop.simps [of cmp xs a b])
    next
      case False
      show ?thesis
      proof (cases "0 < a \<and> \<not> cmp_less cmp (us ! (a - 1)) (us ! p)")
        case True
        then have a: "0 < a" "\<not> cmp_less cmp (us ! (a - 1)) (us ! p)" by auto
        from pdqsort_equal_step [OF us(4,5) lu(1) a(1) bb a(2)] obtain vs mid where
          v: "partitionEqualCmpFunc cmp us a b p = Some (vs, mid)" "a < mid" "mid \<le> b"
            "perm_on a b us vs" "bounded_below cmp mid b vs"
            "all_on a mid (\<lambda>x. cmp_le cmp x (us ! p)) vs" "all_on a b (cmp_le cmp (us ! p)) vs" by blast
        have lv: "length vs = length us" using perm_on_length [OF v(4)] .
        have "b - mid < b - a" using v by simp
        from less.hyps [OF this v(3) _ _ v(5)] lu lv obtain ys where
          y: "pdqsort_loop cmp vs mid b l wb wp = Some ys" "perm_on mid b vs ys" "sorted_range cmp mid b ys"
          by metis
        have "all_on a mid (cmp_le cmp (us ! p)) vs" using v(3,7) by (simp add: all_on_def)
        then have pre: "all_on a mid (\<lambda>x. cmp_le cmp x (us ! p)) ys" "all_on a mid (cmp_le cmp (us ! p)) ys"
          using v(3,6) all_on_outside [OF y(2), of mid a] lu(1) lv by simp_all
        have "all_on mid b (cmp_le cmp (us ! p)) vs" using v(2,7) by (simp add: all_on_def)
        then have "all_on mid b (cmp_le cmp (us ! p)) ys"
          using perm_on_all [OF y(2) v(3)] lu(1) lv by simp
        with pre y(3) have "sorted_range cmp a b ys" using sorted_range_const_prefix by blast
        moreover have "perm_on a b us ys"
          using perm_on_trans [OF v(4) perm_on_widen [OF y(2)]] v(2) by simp
        moreover have "pdqsort_loop cmp xs a b limit wb wp = Some ys"
          using 3 us(1,4,5) a v(1) y(1) lu False by (simp add: pdqsort_loop.simps [of cmp xs a b])
        ultimately show ?thesis by blast
      next
        case eq: False
        from partition_splits [OF us(4,5) lu(1), of cmp] obtain vs mid wp' where
          v: "partitionCmpFunc cmp us a b p = Some (vs, mid, wp')" "a \<le> mid" "mid < b"
            "perm_on a b us vs" "all_on a mid (\<lambda>x. cmp_less cmp x (vs ! mid)) vs"
            "all_on (Suc mid) b (\<lambda>x. \<not> cmp_less cmp x (vs ! mid)) vs" by blast
        have not_equal: "(if 0 < a then map_option Not (lessAt cmp us (a - 1) p) else Some False) = Some False"
          using eq us(5) lu(1) less.prems(1) by auto
        have lv: "length vs = length us" using perm_on_length [OF v(4)] .
        have sp: "split_at cmp a mid b vs"
          using v(5,6) less_le unfolding split_at_def all_on_def cmp_le_def by blast
        have bv: "bounded_below cmp a b vs"
          using bounded_below_perm [OF bb v(4)] less.prems(1) lu(1) by simp
        have left: "\<exists>ys. pdqsort_loop cmp zs a mid l wb' wp'' = Some ys \<and> perm_on a mid zs ys \<and>
            sorted_range cmp a mid ys"
          if "length zs = length vs" "bounded_below cmp a mid zs" for zs wb' wp''
          using less.hyps [of mid a zs] that v(2,3) lu lv by auto
        have right: "\<exists>ys. pdqsort_loop cmp zs (Suc mid) b l wb' wp'' = Some ys \<and>
            perm_on (Suc mid) b zs ys \<and> sorted_range cmp (Suc mid) b ys"
          if "length zs = length vs" "split_at cmp a mid b zs" for zs wb' wp''
          using less.hyps [of b "Suc mid" zs] split_bounded that v(2,3) lu lv by auto
        have bd: "b \<le> length vs" using lu lv by simp
        show ?thesis
        proof (cases "mid - a < b - mid")
          case True
          from left [of vs True True] bounded_below_narrow [OF bv] v(3) obtain ws where
            w: "pdqsort_loop cmp vs a mid l True True = Some ws" "perm_on a mid vs ws" "sorted_range cmp a mid ws"
            by auto
          have spw: "split_at cmp a mid b ws" by (rule split_left [OF sp w(2) v(2,3) bd])
          from right [OF perm_on_length [OF w(2)] spw] obtain ys where
            y: "pdqsort_loop cmp ws (Suc mid) b l (mid - a \<ge> (b - a) div 8) wp' = Some ys"
              "perm_on (Suc mid) b ws ys" "sorted_range cmp (Suc mid) b ys" by blast
          have lw: "b \<le> length ws" using perm_on_length [OF w(2)] bd by simp
          have "sorted_range cmp a mid ys"
            using sorted_range_outside [OF y(2), of mid a] w(3) v(3) lw by simp
          then have "sorted_range cmp a b ys"
            using split_sorted [OF split_right [OF spw y(2) v(2,3) lw]] y(3) by simp
          moreover have "perm_on a b us ys"
            using v(2,3) perm_on_trans [OF v(4) perm_on_trans [OF perm_on_widen [OF w(2)] perm_on_widen [OF y(2)]]]
            by simp
          moreover have "pdqsort_loop cmp xs a b limit wb wp = Some ys"
            unfolding pdqsort_loop.simps [of cmp xs a b limit]
            by (simp only: 3 us(1) bind.bind_lunit prod.case if_False if_True not_equal v(1)
                w(1) y(1) False True Suc_eq_plus1 [symmetric])
          ultimately show ?thesis by blast
        next
          case ge: False
          from right [OF refl sp, of True True] obtain ws where
            w: "pdqsort_loop cmp vs (Suc mid) b l True True = Some ws" "perm_on (Suc mid) b vs ws"
              "sorted_range cmp (Suc mid) b ws" by blast
          have spw: "split_at cmp a mid b ws" by (rule split_right [OF sp w(2) v(2,3) bd])
          have lw: "length ws = length vs" using perm_on_length [OF w(2)] .
          have "bounded_below cmp a b ws"
            using bounded_below_perm [OF bv perm_on_widen [OF w(2)]] v(2,3) bd by simp
          then have "bounded_below cmp a mid ws" by (rule bounded_below_narrow) (use v(3) in simp)
          from left [OF lw this] obtain ys where
            y: "pdqsort_loop cmp ws a mid l (b - mid \<ge> (b - a) div 8) wp' = Some ys"
              "perm_on a mid ws ys" "sorted_range cmp a mid ys" by blast
          have "sorted_range cmp (Suc mid) b ys"
            using sorted_range_outside [OF y(2), of b "Suc mid"] w(3) v(3) lw bd by simp
          then have "sorted_range cmp a b ys"
            using split_sorted [OF split_left [OF spw y(2) v(2,3)]] y(3) lw bd by simp
          moreover have "perm_on a b us ys"
            using v(2,3) perm_on_trans [OF v(4) perm_on_trans [OF perm_on_widen [OF w(2)] perm_on_widen [OF y(2)]]]
            by simp
          moreover have "pdqsort_loop cmp xs a b limit wb wp = Some ys"
            unfolding pdqsort_loop.simps [of cmp xs a b limit]
            by (simp only: 3 us(1) bind.bind_lunit prod.case if_False if_True not_equal v(1)
                w(1) y(1) False ge Suc_eq_plus1 [symmetric])
          ultimately show ?thesis by blast
        qed
      qed
    qed
    then show ?thesis using perm_on_trans [OF us(2)] by blast
  qed
qed

lemma pdqsort_sorts:
  assumes "length xs < 2 ^ 63"
  shows "\<exists>ys. SortFunc cmp xs = Some ys \<and> mset ys = mset xs \<and> sorted_wrt (cmp_le cmp) ys"
proof -
  have "bounded_below cmp 0 (length xs) xs" by (simp add: bounded_below_def)
  from pdqsort_loop_sorts [OF _ order_refl assms this] obtain ys where
    "SortFunc cmp xs = Some ys" "perm_on 0 (length xs) xs ys" "sorted_range cmp 0 (length xs) ys"
    unfolding SortFunc_def pdqsortCmpFunc_def by blast
  then show ?thesis
    using perm_on_length perm_on_mset sorted_range_wp [of cmp ys] by metis
qed

end

end
