(* ===== verification/Slices_Sort.thy ===== *)
theory Slices_Sort
  imports Pdqsort_Correct
begin

text \<open>
  The rest of \<^verbatim>\<open>slices/sort.go\<close>: \<open>IsSortedFunc\<close>, \<open>MinFunc\<close>, \<open>MaxFunc\<close>, \<open>BinarySearchFunc\<close>, and the
  properties of the sorting functions.
\<close>

section \<open>IsSortedFunc\<close>

fun IsSortedFunc_loop :: "('a \<Rightarrow> 'a \<Rightarrow> int) \<Rightarrow> 'a list \<Rightarrow> nat \<Rightarrow> bool option" where
  "IsSortedFunc_loop cmp xs i =
    (if i > 0
     then do {
       b \<leftarrow> lessAt cmp xs i (i - 1);
       if b then Some False else IsSortedFunc_loop cmp xs (i - 1) }
     else Some True)"

declare IsSortedFunc_loop.simps [simp del]

definition IsSortedFunc :: "('a \<Rightarrow> 'a \<Rightarrow> int) \<Rightarrow> 'a list \<Rightarrow> bool option" where
  "IsSortedFunc cmp xs = IsSortedFunc_loop cmp xs (length xs - 1)"

lemma IsSortedFunc_loop_adjacent:
  "xs = [] \<and> i = 0 \<or> i < length xs \<Longrightarrow> IsSortedFunc_loop cmp xs i =
    Some (\<forall>k. 0 < k \<longrightarrow> k \<le> i \<longrightarrow> cmp_le cmp (xs ! (k - 1)) (xs ! k))"
proof (induction i)
  case 0
  then show ?case by (simp add: IsSortedFunc_loop.simps)
next
  case (Suc i)
  then show ?case
    by (auto simp: IsSortedFunc_loop.simps [of cmp xs "Suc i"] cmp_le_def le_Suc_eq)
qed

section \<open>MinFunc and MaxFunc\<close>

fun MinFunc_loop :: "('a \<Rightarrow> 'a \<Rightarrow> int) \<Rightarrow> 'a \<Rightarrow> 'a list \<Rightarrow> 'a" where
  "MinFunc_loop cmp m [] = m"
| "MinFunc_loop cmp m (y # ys) = (if cmp y m < 0 then MinFunc_loop cmp y ys else MinFunc_loop cmp m ys)"

definition MinFunc :: "('a \<Rightarrow> 'a \<Rightarrow> int) \<Rightarrow> 'a list \<Rightarrow> 'a go" where
  "MinFunc cmp xs =
    (case xs of
       [] \<Rightarrow> Inl (PanicMsg ''slices.MinFunc: empty list'')
     | m # ys \<Rightarrow> Inr (MinFunc_loop cmp m ys))"

fun MaxFunc_loop :: "('a \<Rightarrow> 'a \<Rightarrow> int) \<Rightarrow> 'a \<Rightarrow> 'a list \<Rightarrow> 'a" where
  "MaxFunc_loop cmp m [] = m"
| "MaxFunc_loop cmp m (y # ys) = (if cmp y m > 0 then MaxFunc_loop cmp y ys else MaxFunc_loop cmp m ys)"

definition MaxFunc :: "('a \<Rightarrow> 'a \<Rightarrow> int) \<Rightarrow> 'a list \<Rightarrow> 'a go" where
  "MaxFunc cmp xs =
    (case xs of
       [] \<Rightarrow> Inl (PanicMsg ''slices.MaxFunc: empty list'')
     | m # ys \<Rightarrow> Inr (MaxFunc_loop cmp m ys))"

section \<open>BinarySearchFunc\<close>

text \<open>\<open>int(uint(i+j) >> 1)\<close> is \<open>(i + j) div 2\<close>: both are at most the length of the slice.\<close>

function BinarySearchFunc_loop :: "('a \<Rightarrow> 't \<Rightarrow> int) \<Rightarrow> 'a list \<Rightarrow> 't \<Rightarrow> nat \<Rightarrow> nat \<Rightarrow> nat option" where
  "BinarySearchFunc_loop cmp xs t i j =
    (if i < j
     then let h = (i + j) div 2
          in do {
            x \<leftarrow> slice_get xs h;
            if cmp x t < 0 then BinarySearchFunc_loop cmp xs t (h + 1) j
            else BinarySearchFunc_loop cmp xs t i h }
     else Some i)"
  by pat_completeness auto
termination
  by (relation "measure (\<lambda>(cmp, xs, t, i, j). j - i)") auto

declare BinarySearchFunc_loop.simps [simp del]

definition BinarySearchFunc :: "('a \<Rightarrow> 't \<Rightarrow> int) \<Rightarrow> 'a list \<Rightarrow> 't \<Rightarrow> (nat \<times> bool) option" where
  "BinarySearchFunc cmp xs t =
    do {
      i \<leftarrow> BinarySearchFunc_loop cmp xs t 0 (length xs);
      if i < length xs
      then do { x \<leftarrow> slice_get xs i; Some (i, cmp x t = 0) }
      else Some (i, False) }"

lemma BinarySearchFunc_loop_spec:
  assumes part: "\<And>k l. k < l \<Longrightarrow> l < length xs \<Longrightarrow> cmp (xs ! l) t < 0 \<Longrightarrow> cmp (xs ! k) t < 0"
  shows "i \<le> j \<Longrightarrow> j \<le> length xs \<Longrightarrow> (\<And>k. k < i \<Longrightarrow> cmp (xs ! k) t < 0) \<Longrightarrow>
    (\<And>k. j \<le> k \<Longrightarrow> k < length xs \<Longrightarrow> \<not> cmp (xs ! k) t < 0) \<Longrightarrow>
    \<exists>m. BinarySearchFunc_loop cmp xs t i j = Some m \<and> m \<le> length xs \<and>
      (\<forall>k < length xs. cmp (xs ! k) t < 0 \<longleftrightarrow> k < m)"
proof (induction "j - i" arbitrary: i j rule: less_induct)
  case less
  show ?case
  proof (cases "i < j")
    case True
    define h where "h = (i + j) div 2"
    have h: "i \<le> h" "h < j" "h < length xs" using True less.prems(2) by (auto simp: h_def)
    have rec: "BinarySearchFunc_loop cmp xs t i j =
        (if cmp (xs ! h) t < 0 then BinarySearchFunc_loop cmp xs t (h + 1) j
         else BinarySearchFunc_loop cmp xs t i h)"
      using True h by (simp add: BinarySearchFunc_loop.simps [of cmp xs t i j] Let_def flip: h_def)
    show ?thesis
    proof (cases "cmp (xs ! h) t < 0")
      case low: True
      have "cmp (xs ! k) t < 0" if "k < h + 1" for k
        using part [of k h] low h that by (cases "k = h") auto
      then show ?thesis using less.hyps [of j "h + 1"] h less.prems low by (simp add: rec)
    next
      case high: False
      have "\<not> cmp (xs ! k) t < 0" if "h \<le> k" "k < length xs" for k
        using part [of h k] high that by (cases "k = h") auto
      then show ?thesis using less.hyps [of h i] h less.prems high by (simp add: rec)
    qed
  next
    case False
    then have "i = j" using less.prems by simp
    then show ?thesis
      using less.prems BinarySearchFunc_loop.simps [of cmp xs t j j]
      by (intro exI [of _ j]) (auto simp: not_less [symmetric])
  qed
qed

section \<open>What they compute for a strict weak order\<close>

context strict_weak_order
begin

lemma IsSortedFunc_sorted: "IsSortedFunc cmp xs = Some (sorted_wrt (cmp_le cmp) xs)"
proof -
  have "IsSortedFunc cmp xs =
      Some (\<forall>k. 0 < k \<longrightarrow> k \<le> length xs - 1 \<longrightarrow> cmp_le cmp (xs ! (k - 1)) (xs ! k))"
    unfolding IsSortedFunc_def by (rule IsSortedFunc_loop_adjacent) (cases xs; simp)
  also have "(\<forall>k. 0 < k \<longrightarrow> k \<le> length xs - 1 \<longrightarrow> cmp_le cmp (xs ! (k - 1)) (xs ! k)) \<longleftrightarrow>
      sorted_range cmp 0 (length xs) xs"
  proof
    assume adj: "\<forall>k. 0 < k \<longrightarrow> k \<le> length xs - 1 \<longrightarrow> cmp_le cmp (xs ! (k - 1)) (xs ! k)"
    show "sorted_range cmp 0 (length xs) xs" by (rule sorted_adjacent) (use adj in auto)
  qed (auto simp: sorted_range_def)
  finally show ?thesis by (simp add: sorted_range_wp)
qed

lemma MinFunc_loop_first:
  "\<exists>i < length (m # ys). (m # ys) ! i = MinFunc_loop cmp m ys \<and>
    (\<forall>x \<in> set (m # ys). cmp_le cmp (MinFunc_loop cmp m ys) x) \<and>
    (\<forall>k < i. cmp_less cmp (MinFunc_loop cmp m ys) ((m # ys) ! k))"
proof (induction ys arbitrary: m)
  case (Cons y ys)
  show ?case
  proof (cases "cmp_less cmp y m")
    case True
    from Cons.IH [of y] obtain i where i: "i < length (y # ys)" "(y # ys) ! i = MinFunc_loop cmp y ys"
      "\<forall>x \<in> set (y # ys). cmp_le cmp (MinFunc_loop cmp y ys) x"
      "\<forall>k < i. cmp_less cmp (MinFunc_loop cmp y ys) ((y # ys) ! k)" by blast
    have m: "cmp_less cmp (MinFunc_loop cmp y ys) m"
      using i(3) True by (auto intro: le_less_trans)
    have "\<forall>k < Suc i. cmp_less cmp (MinFunc_loop cmp y ys) ((m # y # ys) ! k)"
      using i(4) m by (auto simp: less_Suc_eq_0_disj)
    then show ?thesis
      using i True m less_le by (intro exI [of _ "Suc i"]) (auto simp: cmp_less_def)
  next
    case False
    then have my: "cmp_le cmp m y" by (simp add: cmp_le_def)
    from Cons.IH [of m] obtain i where i: "i < length (m # ys)" "(m # ys) ! i = MinFunc_loop cmp m ys"
      "\<forall>x \<in> set (m # ys). cmp_le cmp (MinFunc_loop cmp m ys) x"
      "\<forall>k < i. cmp_less cmp (MinFunc_loop cmp m ys) ((m # ys) ! k)" by blast
    have y: "cmp_le cmp (MinFunc_loop cmp m ys) y" using i(3) my le_trans by auto
    have same: "MinFunc_loop cmp m (y # ys) = MinFunc_loop cmp m ys"
      using False by (simp add: cmp_less_def)
    show ?thesis
    proof (cases i)
      case 0
      then show ?thesis using i y same by (intro exI [of _ 0]) auto
    next
      case (Suc j)
      then have "cmp_less cmp (MinFunc_loop cmp m ys) m" using i(4) by auto
      moreover from this have "cmp_less cmp (MinFunc_loop cmp m ys) y" using my less_le_trans by blast
      moreover have "cmp_less cmp (MinFunc_loop cmp m ys) (ys ! k)" if "k < j" for k
        using i(4) Suc that by auto
      ultimately have "\<forall>k < Suc i. cmp_less cmp (MinFunc_loop cmp m ys) ((m # y # ys) ! k)"
        using Suc by (auto simp: less_Suc_eq_0_disj)
      then show ?thesis using i y same Suc by (intro exI [of _ "Suc i"]) auto
    qed
  qed
qed simp

end

section \<open>The properties\<close>

text \<open>C8. \<open>slices.SortFunc\<close> (pattern-defeating quicksort with its insertion-sort, heap-sort and
  partial-insertion-sort paths): for every comparison function that is a strict weak order and every
  slice, the call returns, no index is out of range on any path, and the result is a sorted
  permutation of the argument.\<close>

theorem SortFunc_sorts:
  assumes "strict_weak_order cmp" and "length xs < 2 ^ 63"
  shows "\<exists>ys. SortFunc cmp xs = Some ys \<and> mset ys = mset xs \<and> sorted_wrt (cmp_le cmp) ys"
  by (rule strict_weak_order.pdqsort_sorts [OF assms])

theorem SortFunc_sorts_witness:
  "\<exists>ys. SortFunc (Compare (<) (=)) [3, 1, 2 :: int] = Some ys \<and> mset ys = mset [3, 1, 2] \<and>
    sorted_wrt (cmp_le (Compare (<) (=))) ys"
  by (rule SortFunc_sorts [OF linear.compare.strict_weak_order_axioms]) simp

text \<open>\<open>slices.IsSortedFunc\<close> decides whether the slice is sorted (comparing neighbours is enough
  for a strict weak order), and \<open>slices.MinFunc\<close> panics on the empty slice only and otherwise
  returns the first of the minimal elements.\<close>

lemma IsSortedFunc_MinFunc_correct:
  assumes "strict_weak_order cmp"
  shows "IsSortedFunc cmp xs = Some (sorted_wrt (cmp_le cmp) xs) \<and>
    (case MinFunc cmp xs of
       Inl e \<Rightarrow> xs = [] \<and> e = PanicMsg ''slices.MinFunc: empty list''
     | Inr m \<Rightarrow> \<exists>i < length xs. xs ! i = m \<and> list_all (cmp_le cmp m) xs \<and>
                 list_all (cmp_less cmp m) (take i xs))"
proof
  show "IsSortedFunc cmp xs = Some (sorted_wrt (cmp_le cmp) xs)"
    by (rule strict_weak_order.IsSortedFunc_sorted [OF assms])
  show "case MinFunc cmp xs of
       Inl e \<Rightarrow> xs = [] \<and> e = PanicMsg ''slices.MinFunc: empty list''
     | Inr m \<Rightarrow> \<exists>i < length xs. xs ! i = m \<and> list_all (cmp_le cmp m) xs \<and>
                 list_all (cmp_less cmp m) (take i xs)"
  proof (cases xs)
    case (Cons m ys)
    from strict_weak_order.MinFunc_loop_first [OF assms, of m ys] obtain i where
      "i < length xs" "xs ! i = MinFunc_loop cmp m ys"
      "\<forall>x \<in> set xs. cmp_le cmp (MinFunc_loop cmp m ys) x"
      "\<forall>k < i. cmp_less cmp (MinFunc_loop cmp m ys) (xs ! k)"
      unfolding Cons by blast
    then show ?thesis
      by (auto simp: MinFunc_def Cons list_all_iff in_set_conv_nth intro!: exI [of _ i])
  qed (simp add: MinFunc_def)
qed

text \<open>C10. \<open>slices.BinarySearchFunc\<close> on a slice that the comparison with the target splits (elements
  that precede the target first): no index is out of range, the position returned is the number of
  elements that precede the target, and the flag tells whether the element there matches it.\<close>

theorem BinarySearchFunc_position:
  assumes "sorted_wrt (\<lambda>x y. cmp y t < 0 \<longrightarrow> cmp x t < 0) xs"
  shows "BinarySearchFunc cmp xs t =
    (let i = length (filter (\<lambda>x. cmp x t < 0) xs)
     in Some (i, i < length xs \<and> cmp (xs ! i) t = 0))"
proof -
  have part: "cmp (xs ! k) t < 0" if "k < l" "l < length xs" "cmp (xs ! l) t < 0" for k l
    using assms that by (auto simp: sorted_wrt_iff_nth_less)
  obtain m where m: "BinarySearchFunc_loop cmp xs t 0 (length xs) = Some m" "m \<le> length xs"
    "\<forall>k < length xs. cmp (xs ! k) t < 0 \<longleftrightarrow> k < m"
    using BinarySearchFunc_loop_spec [of xs cmp t 0 "length xs"] part by auto
  have "filter (\<lambda>x. cmp x t < 0) (take m xs) = take m xs"
    by (rule filter_True) (use m in \<open>auto simp: in_set_conv_nth\<close>)
  moreover have "filter (\<lambda>x. cmp x t < 0) (drop m xs) = []"
    by (rule filter_False) (use m in \<open>auto simp: in_set_conv_nth\<close>)
  ultimately have "filter (\<lambda>x. cmp x t < 0) xs = take m xs"
    by (metis append_Nil2 append_take_drop_id filter_append)
  then show ?thesis using m by (simp add: BinarySearchFunc_def Let_def)
qed

theorem BinarySearchFunc_position_witness:
  "BinarySearchFunc (\<lambda>x t. x - t) [1, 3, 5 :: int] 4 =
    (let i = length (filter (\<lambda>x. x - 4 < 0) [1, 3, 5 :: int])
     in Some (i, i < length [1, 3, 5 :: int] \<and> [1, 3, 5] ! i - 4 = (0 :: int)))"
  by (rule BinarySearchFunc_position) simp

end
