(* ===== verification/Slices_Stable_Correct.thy ===== *)
theory Slices_Stable_Correct
  imports Slices_Stable Slices_Sort
begin

text \<open>
  The stable sort.  Slices are split into lists that are named: a routine that works on a range \<open>X\<close> is described on
  \<open>P @ X @ S\<close> for any \<open>P\<close> and \<open>S\<close>.  A rearrangement is stable if it keeps the order within every class of equal elements;
  only rotations of ranges whose elements are in strictly wrong order are used, and these are stable.
\<close>

declare insertionSort_inner.simps [simp del] insertionSort_outer.simps [simp del]

section \<open>Stable rearrangements\<close>

definition cmp_equal :: "('a \<Rightarrow> 'a \<Rightarrow> int) \<Rightarrow> 'a \<Rightarrow> 'a \<Rightarrow> bool" where
  "cmp_equal cmp x y \<longleftrightarrow> cmp_le cmp x y \<and> cmp_le cmp y x"

definition stable_to :: "('a \<Rightarrow> 'a \<Rightarrow> int) \<Rightarrow> 'a list \<Rightarrow> 'a list \<Rightarrow> bool" where
  "stable_to cmp xs ys \<longleftrightarrow> (\<forall>x. filter (cmp_equal cmp x) ys = filter (cmp_equal cmp x) xs)"

lemma stable_refl [simp]: "stable_to cmp xs xs"
  by (simp add: stable_to_def)

lemma stable_trans [trans]: "stable_to cmp xs ys \<Longrightarrow> stable_to cmp ys zs \<Longrightarrow> stable_to cmp xs zs"
  by (simp add: stable_to_def)

lemma stable_append: "stable_to cmp xs xs' \<Longrightarrow> stable_to cmp ys ys' \<Longrightarrow> stable_to cmp (xs @ ys) (xs' @ ys')"
  by (simp add: stable_to_def)

lemma stable_cancel: "stable_to cmp (P @ X @ S) (P @ Z @ S) \<Longrightarrow> stable_to cmp X Z"
  by (simp add: stable_to_def)

context strict_weak_order
begin

lemma stable_mset:
  assumes "stable_to cmp xs ys"
  shows "mset ys = mset xs"
proof (rule multiset_eqI)
  fix x
  have e: "filter (\<lambda>y. y = x) zs = filter (\<lambda>y. y = x) (filter (cmp_equal cmp x) zs)" for zs :: "'a list"
    by (induction zs) (auto simp: cmp_equal_def)
  have "filter (\<lambda>y. y = x) ys = filter (\<lambda>y. y = x) xs"
    using assms by (subst (1 2) e) (simp add: stable_to_def)
  moreover have "count (mset zs) x = length (filter (\<lambda>y. y = x) zs)" for zs :: "'a list"
    by (induction zs) auto
  ultimately show "count (mset ys) x = count (mset xs) x" by simp
qed

lemma stable_set: "stable_to cmp xs ys \<Longrightarrow> set ys = set xs"
  using stable_mset by (metis set_mset_mset)

lemma stable_length: "stable_to cmp xs ys \<Longrightarrow> length ys = length xs"
  using stable_mset by (metis size_mset)

lemma stable_exchange:
  assumes "\<And>y x. y \<in> set v \<Longrightarrow> x \<in> set u \<Longrightarrow> cmp_less cmp y x"
  shows "stable_to cmp (P @ u @ v @ S) (P @ v @ u @ S)"
proof -
  have d: "filter (cmp_equal cmp x) u = [] \<or> filter (cmp_equal cmp x) v = []" for x
  proof (rule ccontr)
    assume "\<not> (filter (cmp_equal cmp x) u = [] \<or> filter (cmp_equal cmp x) v = [])"
    then obtain a b where ab: "a \<in> set u" "cmp_equal cmp x a" "b \<in> set v" "cmp_equal cmp x b" by (auto simp: filter_empty_conv)
    then have "cmp_le cmp a b" using le_trans [of a x b] by (simp add: cmp_equal_def)
    then show False using assms [OF ab(3,1)] by (simp add: cmp_le_def)
  qed
  have "filter (cmp_equal cmp x) (P @ v @ u @ S) = filter (cmp_equal cmp x) (P @ u @ v @ S)" for x
    using d [of x] by auto
  then show ?thesis by (simp add: stable_to_def)
qed

end

section \<open>Rotation\<close>

lemma swap_parts: "swap (P @ [u] @ N @ [v] @ S) (length P) (length P + 1 + length N) = P @ [v] @ N @ [u] @ S"
  by (simp add: swap_def nth_append list_update_append)

lemma swapRange_loop_parts:
  assumes "length U = length V" and "a + i = length P" and "b + i = length P + length U + length M" and "n = i + length U"
  shows "swapRange_loop (P @ U @ M @ V @ S) a b i n = Some (P @ V @ M @ U @ S)"
  using assms
proof (induction U V arbitrary: P M i rule: list_induct2)
  case Nil
  then show ?case by (simp add: swapRange_loop.simps)
next
  case (Cons u U v V)
  let ?xs = "P @ (u # U) @ M @ (v # V) @ S"
  have i: "a + i = length P" "b + i = length P + 1 + length (U @ M)" using Cons.prems by simp_all
  have s: "swap ?xs (a + i) (b + i) = (P @ [v]) @ U @ (M @ [u]) @ V @ S"
    unfolding i using swap_parts [of P u "U @ M" v "V @ S"] by simp
  have "a + i < length ?xs" "b + i < length ?xs" using i by simp_all
  then have "slice_swap ?xs (a + i) (b + i) = Some ((P @ [v]) @ U @ (M @ [u]) @ V @ S)" by (simp only: slice_swap_ok s)
  moreover have "swapRange_loop ((P @ [v]) @ U @ (M @ [u]) @ V @ S) a b (Suc i) n = Some ((P @ [v]) @ V @ (M @ [u]) @ U @ S)"
    by (rule Cons.IH) (use Cons.prems in simp_all)
  ultimately show ?case using Cons.prems by (subst swapRange_loop.simps) simp
qed

lemma swapRange_parts:
  assumes "length U = length V" and "a = length P" and "b = length P + length U + length M" and "n = length U"
  shows "swapRangeCmpFunc (P @ U @ M @ V @ S) a b n = Some (P @ V @ M @ U @ S)"
  using swapRange_loop_parts [of U V a 0 P b M n S] assms by (simp add: swapRangeCmpFunc_def)

lemma rotate_loop_parts:
  assumes "U \<noteq> []" and "V \<noteq> []" and "m = length P + length U" and "i = length U" and "j = length V"
  shows "rotate_loop m i j (P @ U @ V @ S) = Some (P @ V @ U @ S)"
  using assms
proof (induction "length U + length V" arbitrary: P U V S i j rule: less_induct)
  case less
  consider "i = j" | "i > j" | "i < j" by linarith
  then show ?case
  proof cases
    case 1
    then show ?thesis using swapRange_parts [of U V "length P" P m "[]" i S] less.prems by (subst rotate_loop.simps) simp
  next
    case 2
    let ?U1 = "take j U" and ?U2 = "drop j U"
    have l: "length ?U1 = j" "length ?U2 = i - j" using 2 less.prems by simp_all
    have "swapRangeCmpFunc (P @ ?U1 @ ?U2 @ V @ S) (m - i) m j = Some (P @ V @ ?U2 @ ?U1 @ S)"
      by (rule swapRange_parts) (use less.prems 2 l in simp_all)
    moreover have "rotate_loop m (i - j) j ((P @ V) @ ?U2 @ ?U1 @ S) = Some ((P @ V) @ ?U1 @ ?U2 @ S)"
      by (rule less.hyps) (use less.prems 2 l in \<open>auto simp flip: length_greater_0_conv\<close>)
    ultimately show ?thesis using 2 less.prems by (subst rotate_loop.simps) (simp flip: append_assoc)
  next
    case 3
    let ?V1 = "take (j - i) V" and ?V2 = "drop (j - i) V"
    have l: "length ?V1 = j - i" "length ?V2 = i" using 3 less.prems by simp_all
    have "swapRangeCmpFunc (P @ U @ ?V1 @ ?V2 @ S) (m - i) (m + j - i) i = Some (P @ ?V2 @ ?V1 @ U @ S)"
      by (rule swapRange_parts) (use less.prems 3 l in simp_all)
    moreover have "rotate_loop m i (j - i) (P @ ?V2 @ ?V1 @ (U @ S)) = Some (P @ ?V1 @ ?V2 @ (U @ S))"
      by (rule less.hyps) (use less.prems 3 l in \<open>auto simp flip: length_greater_0_conv\<close>)
    ultimately show ?thesis using 3 less.prems by (subst rotate_loop.simps) (simp flip: append_assoc)
  qed
qed

lemma rotate_parts:
  assumes "U \<noteq> []" and "V \<noteq> []" and "a = length P" and "m = a + length U" and "b = m + length V"
  shows "rotateCmpFunc (P @ U @ V @ S) a m b = Some (P @ V @ U @ S)"
  using rotate_loop_parts [OF assms(1,2), of m P "m - a" "b - m" S] assms(3-5) by (simp add: rotateCmpFunc_def)

section \<open>Insertion\<close>

context strict_weak_order
begin

lemma stable_swap_adjacent:
  assumes "Suc j < length xs" and "cmp_less cmp (xs ! Suc j) (xs ! j)"
  shows "stable_to cmp xs (swap xs (Suc j) j)"
proof -
  let ?P = "take j xs" and ?S = "drop (Suc (Suc j)) xs"
  have l: "length ?P = j" using assms(1) by simp
  have x: "xs = ?P @ [xs ! j] @ [xs ! Suc j] @ ?S"
    using assms(1) by (simp add: Cons_nth_drop_Suc)
  have "swap xs j (Suc j) = ?P @ [xs ! Suc j] @ [xs ! j] @ ?S"
    using swap_parts [of ?P "xs ! j" "[]" "xs ! Suc j" ?S] l x by simp
  moreover have "swap xs (Suc j) j = swap xs j (Suc j)" by (simp add: swap_def list_update_swap)
  moreover have "stable_to cmp (?P @ [xs ! j] @ [xs ! Suc j] @ ?S) (?P @ [xs ! Suc j] @ [xs ! j] @ ?S)"
    by (rule stable_exchange) (use assms(2) in simp)
  ultimately show ?thesis using x by simp
qed

lemma insertionSort_inner_stable: "insertionSort_inner cmp a j xs = Some ys \<Longrightarrow> stable_to cmp xs ys"
proof (induction j arbitrary: xs)
  case (Suc j)
  show ?case
  proof (cases "a < Suc j")
    case True
    then obtain l where l: "lessAt cmp xs (Suc j) j = Some l"
      "(if l then do { xs \<leftarrow> slice_swap xs (Suc j) j; insertionSort_inner cmp a j xs } else Some xs) = Some ys"
      using Suc.prems unfolding insertionSort_inner.simps [of cmp a "Suc j" xs] diff_Suc_1 by (cases "lessAt cmp xs (Suc j) j") simp_all
    show ?thesis
    proof (cases l)
      case True
      then have "Suc j < length xs" "cmp_less cmp (xs ! Suc j) (xs ! j)"
        using l by (auto simp: lessAt_def slice_get_def cmp_less_def bind_eq_Some_conv split: if_splits)
      then show ?thesis using stable_trans [OF stable_swap_adjacent Suc.IH] l True by simp
    qed (use l in simp)
  qed (use Suc.prems in simp)
qed simp

lemma insertionSort_outer_stable: "insertionSort_outer cmp a b i xs = Some ys \<Longrightarrow> stable_to cmp xs ys"
proof (induction "b - i" arbitrary: i xs)
  case (Suc n)
  then have "i < b" by simp
  then obtain us where "insertionSort_inner cmp a i xs = Some us" "insertionSort_outer cmp a b (i + 1) us = Some ys"
    using Suc.prems unfolding insertionSort_outer.simps [of cmp a b i xs] by (cases "insertionSort_inner cmp a i xs") simp_all
  moreover from this have "stable_to cmp us ys" using Suc.hyps by (intro Suc.hyps(1) [of "i + 1" us]) auto
  ultimately show ?case using stable_trans insertionSort_inner_stable by blast
qed simp

lemma sorted_part: "sorted_range cmp (length P) (length P + length Z) (P @ Z @ S) \<Longrightarrow> sorted_wrt (cmp_le cmp) Z"
  unfolding sorted_range_def sorted_wrt_iff_nth_less
proof (intro allI impI)
  fix i j
  assume s: "\<forall>i j. length P \<le> i \<longrightarrow> i < j \<longrightarrow> j < length P + length Z \<longrightarrow> cmp_le cmp ((P @ Z @ S) ! i) ((P @ Z @ S) ! j)"
    and ij: "i < j" "j < length Z"
  show "cmp_le cmp (Z ! i) (Z ! j)" using s [rule_format, of "length P + i" "length P + j"] ij by (simp add: nth_append)
qed

lemma insertionSort_parts:
  assumes "a = length P" and "b = a + length X"
  shows "\<exists>Z. insertionSortCmpFunc cmp (P @ X @ S) a b = Some (P @ Z @ S) \<and> stable_to cmp X Z \<and> sorted_wrt (cmp_le cmp) Z"
proof -
  let ?xs = "P @ X @ S"
  obtain ys where ys: "insertionSortCmpFunc cmp ?xs a b = Some ys" "perm_on a b ?xs ys" "sorted_range cmp a b ys"
    using insertionSort_sorts [of a b ?xs] assms by auto
  note n = perm_on_nth [OF ys(2)] and l = perm_on_length [OF ys(2)]
  let ?Z = "take (length X) (drop a ys)"
  have "take a ys = P" by (rule nth_equalityI) (use n l assms in \<open>auto simp: nth_append\<close>)
  moreover have "drop b ys = S" by (rule nth_equalityI) (use n l assms in \<open>auto simp: nth_append\<close>)
  moreover have "ys = take a ys @ take (length X) (drop a ys) @ drop (length X) (drop a ys)" by (simp only: append_take_drop_id)
  moreover have "drop (length X) (drop a ys) = drop b ys" using assms(2) by (simp add: add.commute)
  ultimately have e: "ys = P @ ?Z @ S" by metis
  have lz: "length ?Z = length X" using assms l by simp
  have "stable_to cmp ?xs (P @ ?Z @ S)"
    using insertionSort_outer_stable ys(1) unfolding e [symmetric] insertionSortCmpFunc_def by blast
  moreover have "sorted_wrt (cmp_le cmp) ?Z" using sorted_part [of P ?Z S] ys(3) assms unfolding lz e [symmetric] by simp
  ultimately show ?thesis using ys(1) e stable_cancel by metis
qed

end

section \<open>Searching and moving\<close>

text \<open>The three binary searches have the same shape.\<close>

function bsearch :: "(nat \<Rightarrow> bool option) \<Rightarrow> nat \<Rightarrow> nat \<Rightarrow> nat option" where
  "bsearch q i j =
    (if i < j then let h = (i + j) div 2 in do { b \<leftarrow> q h; if b then bsearch q (h + 1) j else bsearch q i h } else Some i)"
  by pat_completeness auto
termination by (relation "measure (\<lambda>(q, i, j). j - i)") auto

declare bsearch.simps [simp del]

lemma searches:
  "symMerge_first cmp xs a i j = bsearch (\<lambda>h. lessAt cmp xs h a) i j"
  "symMerge_second cmp xs a i j = bsearch (\<lambda>h. map_option Not (lessAt cmp xs a h)) i j"
  "symMerge_search cmp xs p i j = bsearch (\<lambda>c. map_option Not (lessAt cmp xs (p - c) c)) i j"
proof -
  show "symMerge_first cmp xs a i j = bsearch (\<lambda>h. lessAt cmp xs h a) i j"
  proof (induction cmp xs a i j rule: symMerge_first.induct)
    case (1 cmp xs a i j)
    then show ?case
      by (subst symMerge_first.simps, subst bsearch.simps) (auto simp: Let_def intro!: Option.bind_cong)
  qed
  show "symMerge_second cmp xs a i j = bsearch (\<lambda>h. map_option Not (lessAt cmp xs a h)) i j"
  proof (induction cmp xs a i j rule: symMerge_second.induct)
    case (1 cmp xs a i j)
    then show ?case
      by (subst symMerge_second.simps, subst bsearch.simps) (cases "lessAt cmp xs a ((i + j) div 2)"; auto simp: Let_def)
  qed
  show "symMerge_search cmp xs p i j = bsearch (\<lambda>c. map_option Not (lessAt cmp xs (p - c) c)) i j"
  proof (induction cmp xs p i j rule: symMerge_search.induct)
    case (1 cmp xs p i j)
    then show ?case
      by (subst symMerge_search.simps, subst bsearch.simps)
        (cases "lessAt cmp xs (p - (i + j) div 2) ((i + j) div 2)"; auto simp: Let_def)
  qed
qed

lemma bsearch_spec:
  assumes "i \<le> j" and "\<And>h. i \<le> h \<Longrightarrow> h < j \<Longrightarrow> q h = Some (r h)"
  shows "\<exists>k. bsearch q i j = Some k \<and> i \<le> k \<and> k \<le> j \<and> (i < k \<longrightarrow> r (k - 1)) \<and> (k < j \<longrightarrow> \<not> r k)"
  using assms
proof (induction q i j rule: bsearch.induct)
  case (1 q i j)
  let ?h = "(i + j) div 2"
  show ?case
  proof (cases "i < j")
    case True
    then have h: "i \<le> ?h" "?h < j" "q ?h = Some (r ?h)" using "1.prems"(2) by auto
    show ?thesis
    proof (cases "r ?h")
      case r: True
      then obtain k where k: "bsearch q (?h + 1) j = Some k" "?h + 1 \<le> k" "k \<le> j" "?h + 1 < k \<longrightarrow> r (k - 1)" "k < j \<longrightarrow> \<not> r k"
        using "1.IH"(1) [OF True refl h(3)] "1.prems"(2) h by auto
      have "r (k - 1)" using k(2,4) r by (cases "k = ?h + 1") auto
      then show ?thesis using k h r True by (subst bsearch.simps) (auto intro!: exI [of _ k])
    next
      case r: False
      then obtain k where k: "bsearch q i ?h = Some k" "i \<le> k" "k \<le> ?h" "i < k \<longrightarrow> r (k - 1)" "k < ?h \<longrightarrow> \<not> r k"
        using "1.IH"(2) [OF True refl h(3)] "1.prems"(2) h by auto
      have "\<not> r k" using k(3,5) r by (cases "k = ?h") auto
      then show ?thesis using k h r True by (subst bsearch.simps) (auto intro!: exI [of _ k])
    qed
  qed (use "1.prems"(1) in \<open>subst bsearch.simps, auto\<close>)
qed

lemma symMerge_up_parts:
  assumes "k = length P" and "i = length P + 1 + length V"
  shows "symMerge_up k i (P @ [x] @ V @ S) = Some (P @ V @ [x] @ S)"
  using assms
proof (induction V arbitrary: P k)
  case Nil
  then show ?case by (subst symMerge_up.simps) simp
next
  case (Cons v V)
  have "swap (P @ [x] @ (v # V) @ S) k (k + 1) = (P @ [v]) @ [x] @ V @ S"
    using swap_parts [of P x "[]" v "V @ S"] Cons.prems(1) by simp
  then have s: "slice_swap (P @ [x] @ (v # V) @ S) k (k + 1) = Some ((P @ [v]) @ [x] @ V @ S)"
    using Cons.prems(1) by (simp only: slice_swap_def) simp
  have "symMerge_up (k + 1) i ((P @ [v]) @ [x] @ V @ S) = Some ((P @ [v]) @ V @ [x] @ S)"
    by (rule Cons.IH) (use Cons.prems in simp_all)
  then show ?case using s Cons.prems by (subst symMerge_up.simps) simp
qed

lemma symMerge_down_parts:
  assumes "i = length P" and "k = length P + length U"
  shows "symMerge_down k i (P @ U @ [x] @ S) = Some (P @ [x] @ U @ S)"
  using assms
proof (induction U arbitrary: S k rule: rev_induct)
  case Nil
  then show ?case by (subst symMerge_down.simps) simp
next
  case (snoc u U)
  let ?xs = "P @ (U @ [u]) @ [x] @ S"
  have k: "k - 1 = length (P @ U)" "k = length (P @ U) + 1 + length []" using snoc.prems by simp_all
  have "swap ?xs k (k - 1) = swap ?xs (k - 1) k" using k by (simp add: swap_def list_update_swap)
  also have "\<dots> = (P @ U) @ [x] @ [] @ [u] @ S" using swap_parts [of "P @ U" u "[]" x S] by (subst k(1), subst k(2)) simp
  finally have s: "slice_swap ?xs k (k - 1) = Some (P @ U @ [x] @ [u] @ S)" using k by (simp only: slice_swap_def) simp
  have "symMerge_down (k - 1) i (P @ U @ [x] @ [u] @ S) = Some (P @ [x] @ U @ [u] @ S)"
    by (rule snoc.IH) (use snoc.prems in simp_all)
  then show ?case using s snoc.prems by (subst symMerge_down.simps) simp
qed

section \<open>Merging\<close>

text \<open>What a merge of two sorted lists \<open>X\<close> and \<open>Y\<close> is.\<close>

definition merges :: "('a \<Rightarrow> 'a \<Rightarrow> int) \<Rightarrow> 'a list \<Rightarrow> 'a list \<Rightarrow> 'a list \<Rightarrow> bool" where
  "merges cmp X Y Z \<longleftrightarrow> stable_to cmp (X @ Y) Z \<and> sorted_wrt (cmp_le cmp) Z"

context strict_weak_order
begin

lemma below_last: "sorted_wrt (cmp_le cmp) V \<Longrightarrow> (V \<noteq> [] \<Longrightarrow> cmp_le cmp (last V) x) \<Longrightarrow> v \<in> set V \<Longrightarrow> cmp_le cmp v x"
proof (cases V rule: rev_cases)
  case (snoc V' u)
  assume "sorted_wrt (cmp_le cmp) V" "V \<noteq> [] \<Longrightarrow> cmp_le cmp (last V) x" "v \<in> set V"
  then show ?thesis using snoc le_trans by (auto simp: sorted_wrt_append)
qed simp

lemma above_hd: "sorted_wrt (cmp_le cmp) V \<Longrightarrow> (V \<noteq> [] \<Longrightarrow> cmp_le cmp x (hd V)) \<Longrightarrow> v \<in> set V \<Longrightarrow> cmp_le cmp x v"
  by (cases V) (auto intro: le_trans)

lemma all_below: "sorted_wrt (cmp_le cmp) V \<Longrightarrow> (V \<noteq> [] \<Longrightarrow> cmp_less cmp (last V) x) \<Longrightarrow> v \<in> set V \<Longrightarrow> cmp_less cmp v x"
  using below_last [of V "last V" v] le_less_trans by (cases "V = []") auto

lemma all_above: "sorted_wrt (cmp_le cmp) V \<Longrightarrow> (V \<noteq> [] \<Longrightarrow> cmp_less cmp x (hd V)) \<Longrightarrow> v \<in> set V \<Longrightarrow> cmp_less cmp x v"
  using above_hd [of V "hd V" v] less_le_trans by (cases "V = []") auto

text \<open>One element on the left, or on the right.\<close>

lemma merge_left_one:
  assumes "sorted_wrt (cmp_le cmp) (V @ W)" and "V \<noteq> [] \<Longrightarrow> cmp_less cmp (last V) x" and "W \<noteq> [] \<Longrightarrow> cmp_le cmp x (hd W)"
  shows "merges cmp [x] (V @ W) (V @ [x] @ W)"
proof -
  have s: "sorted_wrt (cmp_le cmp) V" "sorted_wrt (cmp_le cmp) W" "\<And>v w. v \<in> set V \<Longrightarrow> w \<in> set W \<Longrightarrow> cmp_le cmp v w"
    using assms(1) by (simp_all add: sorted_wrt_append)
  note b = all_below [OF s(1) assms(2)] and a = above_hd [OF s(2) assms(3)]
  have "stable_to cmp ([] @ [x] @ V @ W) ([] @ V @ [x] @ W)" by (rule stable_exchange) (use b in simp)
  moreover have "sorted_wrt (cmp_le cmp) (V @ [x] @ W)"
    using s a less_le [OF b] by (simp add: sorted_wrt_append)
  ultimately show ?thesis by (simp add: merges_def)
qed

lemma merge_right_one:
  assumes "sorted_wrt (cmp_le cmp) (W @ U)" and "W \<noteq> [] \<Longrightarrow> cmp_le cmp (last W) y" and "U \<noteq> [] \<Longrightarrow> cmp_less cmp y (hd U)"
  shows "merges cmp (W @ U) [y] (W @ [y] @ U)"
proof -
  have s: "sorted_wrt (cmp_le cmp) W" "sorted_wrt (cmp_le cmp) U" "\<And>v w. v \<in> set W \<Longrightarrow> w \<in> set U \<Longrightarrow> cmp_le cmp v w"
    using assms(1) by (simp_all add: sorted_wrt_append)
  note b = below_last [OF s(1) assms(2)] and a = all_above [OF s(2) assms(3)]
  have "stable_to cmp (W @ U @ [y] @ []) (W @ [y] @ U @ [])" by (rule stable_exchange) (use a in simp)
  moreover have "sorted_wrt (cmp_le cmp) (W @ [y] @ U)"
    using s b less_le [OF a] by (simp add: sorted_wrt_append)
  ultimately show ?thesis by (simp add: merges_def)
qed

text \<open>The symmetric split: the end of the left list and the start of the right one change places.\<close>

lemma merge_split:
  assumes "sorted_wrt (cmp_le cmp) (X1 @ X2)" and "sorted_wrt (cmp_le cmp) (Y1 @ Y2)"
    and "Y1 \<noteq> [] \<Longrightarrow> X2 \<noteq> [] \<Longrightarrow> cmp_less cmp (last Y1) (hd X2)"
    and "X1 \<noteq> [] \<Longrightarrow> Y2 \<noteq> [] \<Longrightarrow> cmp_le cmp (last X1) (hd Y2)"
    and "merges cmp X1 Y1 Z1" and "merges cmp X2 Y2 Z2"
  shows "merges cmp (X1 @ X2) (Y1 @ Y2) (Z1 @ Z2)"
proof -
  have X: "sorted_wrt (cmp_le cmp) X1" "sorted_wrt (cmp_le cmp) X2" "\<And>v w. v \<in> set X1 \<Longrightarrow> w \<in> set X2 \<Longrightarrow> cmp_le cmp v w"
    using assms(1) by (simp_all add: sorted_wrt_append)
  have Y: "sorted_wrt (cmp_le cmp) Y1" "sorted_wrt (cmp_le cmp) Y2" "\<And>v w. v \<in> set Y1 \<Longrightarrow> w \<in> set Y2 \<Longrightarrow> cmp_le cmp v w"
    using assms(2) by (simp_all add: sorted_wrt_append)
  have less: "cmp_less cmp y x" if "y \<in> set Y1" "x \<in> set X2" for y x
  proof -
    have "X2 \<noteq> []" using that by auto
    then show ?thesis using all_below [OF Y(1) assms(3) that(1)] above_hd [OF X(2) _ that(2)] less_le_trans by (metis le_refl)
  qed
  have le: "cmp_le cmp x y" if "x \<in> set X1" "y \<in> set Y2" for x y
  proof -
    have "Y2 \<noteq> []" using that by auto
    then show ?thesis using below_last [OF X(1) assms(4) that(1)] above_hd [OF Y(2) _ that(2)] le_trans by (metis le_refl)
  qed
  have Z: "set Z1 = set (X1 @ Y1)" "set Z2 = set (X2 @ Y2)" "sorted_wrt (cmp_le cmp) Z1" "sorted_wrt (cmp_le cmp) Z2"
    using stable_set assms(5,6) by (simp_all only: merges_def)
  have "stable_to cmp (X1 @ X2 @ Y1 @ Y2) (X1 @ Y1 @ X2 @ Y2)" by (rule stable_exchange) (rule less)
  moreover have "stable_to cmp ((X1 @ Y1) @ X2 @ Y2) (Z1 @ Z2)"
    by (rule stable_append) (use assms(5,6) in \<open>simp_all add: merges_def\<close>)
  ultimately have "stable_to cmp ((X1 @ X2) @ Y1 @ Y2) (Z1 @ Z2)" using stable_trans by simp
  moreover have "sorted_wrt (cmp_le cmp) (Z1 @ Z2)"
    using Z X(3) Y(3) less_le [OF less] le by (auto simp: sorted_wrt_append)
  ultimately show ?thesis by (simp add: merges_def)
qed

lemma merge_nil: "sorted_wrt (cmp_le cmp) X \<Longrightarrow> merges cmp X [] X" "sorted_wrt (cmp_le cmp) X \<Longrightarrow> merges cmp [] X X"
  by (simp_all add: merges_def)

lemma nth_parts:
  "i < length X \<Longrightarrow> (P @ X @ Y @ S) ! (length P + i) = X ! i"
  "i < length Y \<Longrightarrow> (P @ X @ Y @ S) ! (length P + length X + i) = Y ! i"
  by (simp_all add: nth_append)

lemma ends:
  "0 < k \<Longrightarrow> k \<le> length V \<Longrightarrow> last (take k V) = V ! (k - 1)" "k < length V \<Longrightarrow> hd (drop k V) = V ! k"
proof -
  assume k: "0 < k" "k \<le> length V"
  then have "take k V \<noteq> []" "length (take k V) = k" by auto
  then show "last (take k V) = V ! (k - 1)" using k by (simp add: last_conv_nth)
qed (rule hd_drop_conv_nth)

lemma symMerge_left:
  assumes "a = length P" and "m = a + 1" and "b = m + length Y" and "sorted_wrt (cmp_le cmp) Y"
  shows "\<exists>Z. symMergeCmpFunc cmp (P @ [x] @ Y @ S) a m b = Some (P @ Z @ S) \<and> merges cmp [x] Y Z"
proof -
  let ?xs = "P @ [x] @ Y @ S"
  have y: "?xs ! (m + i) = Y ! i" if "i < length Y" for i using nth_parts(2) [OF that, of P "[x]" S] assms(1,2) by simp
  have x: "?xs ! a = x" using assms(1) by simp
  obtain k where k: "symMerge_first cmp ?xs a m b = Some k" "m \<le> k" "k \<le> b"
    "m < k \<longrightarrow> cmp_less cmp (?xs ! (k - 1)) x" "k < b \<longrightarrow> \<not> cmp_less cmp (?xs ! k) x"
    using bsearch_spec [of m b "\<lambda>h. lessAt cmp ?xs h a" "\<lambda>h. cmp_less cmp (?xs ! h) x"] assms(1-3) x by (auto simp: searches)
  let ?V = "take (k - m) Y" and ?W = "drop (k - m) Y"
  have l: "length ?V = k - m" using k(2,3) assms(3) by simp
  have "cmp_less cmp (last ?V) x" if "?V \<noteq> []"
  proof -
    have p: "0 < k - m" "k - m \<le> length Y" "k - m - 1 < length Y" using that k(2,3) assms(3) by auto
    have "?xs ! (k - 1) = Y ! (k - m - 1)" using y [OF p(3)] p(1) by simp
    then show ?thesis using k(4) p ends(1) [OF p(1,2)] by simp
  qed
  moreover have "cmp_le cmp x (hd ?W)" if "?W \<noteq> []"
  proof -
    have p: "k - m < length Y" using that by simp
    then show ?thesis using y [OF p] k(2,5) assms(3) ends(2) [OF p] by (simp add: cmp_le_def)
  qed
  ultimately have "merges cmp [x] (?V @ ?W) (?V @ [x] @ ?W)" using assms(4) by (intro merge_left_one) simp_all
  moreover have "symMerge_up a k (P @ [x] @ ?V @ (?W @ S)) = Some (P @ ?V @ [x] @ (?W @ S))"
    by (rule symMerge_up_parts) (use assms(1,2) k(2) l in simp_all)
  then have "symMerge_up a k ?xs = Some (P @ (?V @ [x] @ ?W) @ S)" by (simp flip: append_assoc)
  ultimately show ?thesis using k(1) assms(2) by (subst symMergeCmpFunc.simps) auto
qed

lemma symMerge_right:
  assumes "a = length P" and "m = a + length X" and "b = m + 1" and "sorted_wrt (cmp_le cmp) X" and "length X \<noteq> 1"
  shows "\<exists>Z. symMergeCmpFunc cmp (P @ X @ [y] @ S) a m b = Some (P @ Z @ S) \<and> merges cmp X [y] Z"
proof -
  let ?xs = "P @ X @ [y] @ S"
  have x: "?xs ! (a + i) = X ! i" if "i < length X" for i using nth_parts(1) [OF that, of P "[y]" S] assms(1) by simp
  have y: "?xs ! m = y" using assms(1,2) by (simp add: nth_append)
  obtain k where k: "symMerge_second cmp ?xs m a m = Some k" "a \<le> k" "k \<le> m"
    "a < k \<longrightarrow> \<not> cmp_less cmp y (?xs ! (k - 1))" "k < m \<longrightarrow> cmp_less cmp y (?xs ! k)"
    using bsearch_spec [of a m "\<lambda>h. map_option Not (lessAt cmp ?xs m h)" "\<lambda>h. \<not> cmp_less cmp y (?xs ! h)"] assms(1-3) y
    by (auto simp: searches)
  let ?W = "take (k - a) X" and ?U = "drop (k - a) X"
  have l: "length ?W = k - a" "length ?U = m - k" using k(2,3) assms(2) by simp_all
  have "cmp_le cmp (last ?W) y" if "?W \<noteq> []"
  proof -
    have p: "0 < k - a" "k - a \<le> length X" "k - a - 1 < length X" using that k(2,3) assms(2) by auto
    have "?xs ! (k - 1) = X ! (k - a - 1)" using x [OF p(3)] p(1) by simp
    then show ?thesis using k(4) p ends(1) [OF p(1,2)] by (simp add: cmp_le_def)
  qed
  moreover have "cmp_less cmp y (hd ?U)" if "?U \<noteq> []"
  proof -
    have p: "k - a < length X" using that by simp
    then show ?thesis using x [OF p] k(2,5) assms(2) ends(2) [OF p] by simp
  qed
  ultimately have "merges cmp (?W @ ?U) [y] (?W @ [y] @ ?U)" using assms(4) by (intro merge_right_one) simp_all
  moreover have "symMerge_down m k ((P @ ?W) @ ?U @ [y] @ S) = Some ((P @ ?W) @ [y] @ ?U @ S)"
    by (rule symMerge_down_parts) (use assms(1,2) k(2,3) l in simp_all)
  then have "symMerge_down m k ?xs = Some (P @ (?W @ [y] @ ?U) @ S)" by (simp flip: append_assoc) (simp add: append_assoc)
  ultimately show ?thesis using k(1) assms(2,3,5) by (subst symMergeCmpFunc.simps) auto
qed

text \<open>
  The symmetric search finds where to cut: as much of \<open>X\<close> is moved behind \<open>mid\<close> as of \<open>Y\<close> is moved before it.
\<close>

lemma symMerge_cut:
  assumes "a = length P" and "m = a + length X" and "b = m + length Y" and "2 \<le> length X" and "2 \<le> length Y"
    and "mid = (a + b) div 2" and "n = mid + m" and "(s0, r0) = (if m > mid then (n - b, mid) else (a, m))"
  shows "\<exists>start. symMerge_search cmp (P @ X @ Y @ S) (n - 1) s0 r0 = Some start \<and>
    a \<le> start \<and> start \<le> m \<and> start \<le> mid \<and> m \<le> n - start \<and> n - start \<le> b \<and>
    (start < m \<longrightarrow> m < n - start \<longrightarrow> cmp_less cmp (Y ! (n - start - 1 - m)) (X ! (start - a))) \<and>
    (a < start \<longrightarrow> n - start < b \<longrightarrow> cmp_le cmp (X ! (start - 1 - a)) (Y ! (n - start - m)))"
proof -
  let ?xs = "P @ X @ Y @ S" and ?p = "n - 1"
  have x: "?xs ! i = X ! (i - a)" if "a \<le> i" "i < m" for i
    using nth_parts(1) [of "i - a" X P Y S] that assms(1,2) by simp
  have y: "?xs ! i = Y ! (i - m)" if "m \<le> i" "i < b" for i
    using nth_parts(2) [of "i - m" Y P X S] that assms(1-3) by (simp add: add.assoc)
  have mid: "a < mid" "mid < b" "2 * mid \<le> a + b" "a + b \<le> 2 * mid + 1" using assms(2-6) by auto
  have s: "a \<le> s0" "s0 \<le> r0" "r0 \<le> m" "r0 \<le> mid" "n \<le> b + s0" "r0 = mid \<or> r0 = m" "n = b + s0 \<or> s0 = a"
    using assms(2-5,7,8) mid by (auto split: if_splits)
  have c: "\<exists>k. a \<le> c \<and> c < m \<and> m \<le> ?p - c \<and> ?p - c < b" if "s0 \<le> c" "c < r0" for c
    using that s mid assms(7) by auto
  have q: "map_option Not (lessAt cmp ?xs (?p - c) c) = Some (\<not> cmp_less cmp (?xs ! (?p - c)) (?xs ! c))" if "s0 \<le> c" "c < r0" for c
  proof -
    have "c < length ?xs" "?p - c < length ?xs" using c [OF that] assms(1-3) by auto
    then show ?thesis by simp
  qed
  obtain k where k: "symMerge_search cmp ?xs ?p s0 r0 = Some k" "s0 \<le> k" "k \<le> r0"
    "s0 < k \<longrightarrow> \<not> cmp_less cmp (?xs ! (?p - (k - 1))) (?xs ! (k - 1))" "k < r0 \<longrightarrow> cmp_less cmp (?xs ! (?p - k)) (?xs ! k)"
    using bsearch_spec [where i = s0 and j = r0 and q = "\<lambda>c. map_option Not (lessAt cmp ?xs (?p - c) c)" and
      r = "\<lambda>c. \<not> cmp_less cmp (?xs ! (?p - c)) (?xs ! c)", OF s(2) q] by (auto simp: searches)
  have r: "a \<le> k" "k \<le> m" "k \<le> mid" "m \<le> n - k" "n - k \<le> b" using k(2,3) s assms(7) by auto
  have less: "cmp_less cmp (Y ! (n - k - 1 - m)) (X ! (k - a))" if "k < m" "m < n - k"
  proof -
    have "k < r0" using that k(3) s(6) assms(7) by auto
    then have "cmp_less cmp (?xs ! (?p - k)) (?xs ! k)" "?p - k = n - k - 1" "m \<le> n - k - 1" "n - k - 1 < b"
      using k(5) r that by auto
    then show ?thesis using x [of k] y [of "n - k - 1"] r that by simp
  qed
  have le: "cmp_le cmp (X ! (k - 1 - a)) (Y ! (n - k - m))" if "a < k" "n - k < b"
  proof -
    have "s0 < k" using that k(2) s(7) r assms(7) by auto
    then have "\<not> cmp_less cmp (?xs ! (?p - (k - 1))) (?xs ! (k - 1))" "?p - (k - 1) = n - k" "a \<le> k - 1" "k - 1 < m"
      using k(4) r that by auto
    then show ?thesis using x [of "k - 1"] y [of "n - k"] r that by (simp add: cmp_le_def)
  qed
  show ?thesis using k(1) r less le by blast
qed

lemma symMerge_split:
  assumes "a = length P" and "m = a + length X" and "b = m + length Y" and "2 \<le> length X" and "2 \<le> length Y"
    and "mid = (a + b) div 2" and "n = mid + m" and "(s0, r0) = (if m > mid then (n - b, mid) else (a, m))"
  obtains start X1 X2 Y1 Y2 where "symMerge_search cmp (P @ X @ Y @ S) (n - 1) s0 r0 = Some start" "X = X1 @ X2" "Y = Y1 @ Y2"
    "a + length X1 = start" "start + length X2 = m" "m + length Y1 = n - start" "n - start + length Y2 = b" "start \<le> mid" "start \<le> n"
    "Y1 \<noteq> [] \<longrightarrow> X2 \<noteq> [] \<longrightarrow> cmp_less cmp (last Y1) (hd X2)" "X1 \<noteq> [] \<longrightarrow> Y2 \<noteq> [] \<longrightarrow> cmp_le cmp (last X1) (hd Y2)"
proof -
  obtain k where k: "symMerge_search cmp (P @ X @ Y @ S) (n - 1) s0 r0 = Some k" "a \<le> k" "k \<le> m" "k \<le> mid" "m \<le> n - k" "n - k \<le> b"
    "k < m \<longrightarrow> m < n - k \<longrightarrow> cmp_less cmp (Y ! (n - k - 1 - m)) (X ! (k - a))"
    "a < k \<longrightarrow> n - k < b \<longrightarrow> cmp_le cmp (X ! (k - 1 - a)) (Y ! (n - k - m))"
    using symMerge_cut [OF assms, of S] by blast
  let ?i = "k - a" and ?j = "n - k - m"
  let ?X1 = "take ?i X" and ?X2 = "drop ?i X" and ?Y1 = "take ?j Y" and ?Y2 = "drop ?j Y"
  have l: "a + length ?X1 = k" "k + length ?X2 = m" "m + length ?Y1 = n - k" "n - k + length ?Y2 = b" "k \<le> n"
    using k(2-6) assms(2,3,7) by simp_all
  have less: "cmp_less cmp (last ?Y1) (hd ?X2)" if "?Y1 \<noteq> []" "?X2 \<noteq> []"
  proof -
    have p: "0 < ?j" "?j \<le> length Y" "?i < length X" "k < m" "m < n - k"
      using that k(2,5,6) assms(2,3) by (simp_all add: not_le) linarith+
    have "n - k - 1 - m = ?j - 1" by simp
    then show ?thesis using k(7) p(4,5) unfolding ends(1) [OF p(1,2)] ends(2) [OF p(3)] by simp
  qed
  have le: "cmp_le cmp (last ?X1) (hd ?Y2)" if "?X1 \<noteq> []" "?Y2 \<noteq> []"
  proof -
    have p: "0 < ?i" "?i \<le> length X" "?j < length Y" "a < k" "n - k < b" using that k(2,3) l(4) assms(2) by auto
    have "k - 1 - a = ?i - 1" by simp
    then show ?thesis using k(8) p(4,5) unfolding ends(1) [OF p(1,2)] ends(2) [OF p(3)] by simp
  qed
  show thesis
    by (rule that [of k ?X1 ?X2 ?Y1 ?Y2]) (use k(1,4) l less le in simp_all)
qed

text \<open>A rotation, and a recursive call, that are skipped when there is nothing to do.\<close>

lemma rotate_or_skip:
  assumes "c \<longleftrightarrow> U \<noteq> [] \<and> V \<noteq> []" and "a = length P" and "m = a + length U" and "b = m + length V"
  shows "(if c then rotateCmpFunc (P @ U @ V @ S) a m b else Some (P @ U @ V @ S)) = Some (P @ V @ U @ S)"
  using rotate_parts [of U V a P m b S] assms by auto

lemma merge_or_skip:
  assumes "c \<longleftrightarrow> X \<noteq> [] \<and> Y \<noteq> []" and "sorted_wrt (cmp_le cmp) X" and "sorted_wrt (cmp_le cmp) Y"
    and "X \<noteq> [] \<Longrightarrow> Y \<noteq> [] \<Longrightarrow> \<exists>Z. f = Some (P @ Z @ S) \<and> merges cmp X Y Z"
  shows "\<exists>Z. (if c then f else Some (P @ X @ Y @ S)) = Some (P @ Z @ S) \<and> merges cmp X Y Z"
proof (cases c)
  case False
  then have "merges cmp X Y (X @ Y)" using assms(1-3) merge_nil by auto
  then show ?thesis using False by auto
qed (use assms in auto)

lemma symMerge_parts:
  assumes "X \<noteq> []" and "Y \<noteq> []" and "a = length P" and "m = a + length X" and "b = m + length Y"
    and "sorted_wrt (cmp_le cmp) X" and "sorted_wrt (cmp_le cmp) Y"
  shows "\<exists>Z. symMergeCmpFunc cmp (P @ X @ Y @ S) a m b = Some (P @ Z @ S) \<and> merges cmp X Y Z"
  using assms
proof (induction "length X + length Y" arbitrary: P X Y S a m b rule: less_induct)
  case less
  consider "length X = 1" | "length X \<noteq> 1" "length Y = 1" | "2 \<le> length X" "2 \<le> length Y"
    using less.prems(1,2) by (cases X; cases "tl X"; cases Y; cases "tl Y") auto
  then show ?case
  proof cases
    case 1
    then obtain x where "X = [x]" by (auto simp: length_Suc_conv)
    then show ?thesis using symMerge_left [of a P m b Y x S] less.prems by simp
  next
    case 2
    then obtain y where "Y = [y]" by (auto simp: length_Suc_conv)
    then show ?thesis using symMerge_right [of a P m X b y S] less.prems 2 by simp
  next
    case 3
    define mid n where "mid = (a + b) div 2" and "n = mid + m"
    obtain s0 r0 where sr: "(s0, r0) = (if m > mid then (n - b, mid) else (a, m))" by (metis surj_pair)
    obtain start X1 X2 Y1 Y2 where st: "symMerge_search cmp (P @ X @ Y @ S) (n - 1) s0 r0 = Some start" and XY: "X = X1 @ X2" "Y = Y1 @ Y2"
      and l: "a + length X1 = start" "start + length X2 = m" "m + length Y1 = n - start" "n - start + length Y2 = b" "start \<le> mid" "start \<le> n"
      and ends: "Y1 \<noteq> [] \<longrightarrow> X2 \<noteq> [] \<longrightarrow> cmp_less cmp (last Y1) (hd X2)" "X1 \<noteq> [] \<longrightarrow> Y2 \<noteq> [] \<longrightarrow> cmp_le cmp (last X1) (hd Y2)"
      by (rule symMerge_split [where S = S, OF less.prems(3-5) 3 mid_def n_def sr])
    have mid: "a < mid" "mid < b" "start + length Y1 = mid" "mid + length X2 = n - start"
      using 3 less.prems(4,5) l by (auto simp: mid_def n_def)
    have sorted: "sorted_wrt (cmp_le cmp) X1" "sorted_wrt (cmp_le cmp) X2" "sorted_wrt (cmp_le cmp) Y1" "sorted_wrt (cmp_le cmp) Y2"
      using less.prems(6,7) by (simp_all add: XY sorted_wrt_append)
    have sm: "length X1 + length Y1 < length X + length Y" "length X2 + length Y2 < length X + length Y"
      using mid l less.prems(4,5) by linarith+
    have rot: "(if start < m \<and> m < n - start then rotateCmpFunc (P @ X @ Y @ S) start m (n - start) else Some (P @ X @ Y @ S)) =
        Some (P @ X1 @ Y1 @ X2 @ Y2 @ S)"
      using rotate_or_skip [of "start < m \<and> m < n - start" X2 Y1 start "P @ X1" m "n - start" "Y2 @ S"] l less.prems(3)
      unfolding XY by (auto simp flip: length_greater_0_conv)
    have c1: "a < start \<and> start < mid \<longleftrightarrow> X1 \<noteq> [] \<and> Y1 \<noteq> []" using l(1) mid(3) by (auto simp flip: length_greater_0_conv)
    have "\<exists>Z. symMergeCmpFunc cmp (P @ X1 @ Y1 @ X2 @ Y2 @ S) a start mid = Some (P @ Z @ X2 @ Y2 @ S) \<and> merges cmp X1 Y1 Z"
      if "X1 \<noteq> []" "Y1 \<noteq> []"
      by (rule less.hyps [OF sm(1) that less.prems(3) _ _ sorted(1,3)]) (use l mid in simp_all)
    from merge_or_skip [OF c1 sorted(1,3) this] obtain Z1 where Z1: "(if a < start \<and> start < mid then symMergeCmpFunc cmp (P @ X1 @ Y1 @ X2 @ Y2 @ S) a start mid
        else Some (P @ X1 @ Y1 @ X2 @ Y2 @ S)) = Some (P @ Z1 @ X2 @ Y2 @ S)" "merges cmp X1 Y1 Z1" by blast
    have "length Z1 = length (X1 @ Y1)" using Z1(2) by (intro stable_length) (simp add: merges_def)
    then have lz: "mid = length (P @ Z1)" using l mid less.prems(3) by simp
    have c2: "mid < n - start \<and> n - start < b \<longleftrightarrow> X2 \<noteq> [] \<and> Y2 \<noteq> []" using l(4) mid(4) by (auto simp flip: length_greater_0_conv)
    have "\<exists>Z. symMergeCmpFunc cmp ((P @ Z1) @ X2 @ Y2 @ S) mid (n - start) b = Some ((P @ Z1) @ Z @ S) \<and> merges cmp X2 Y2 Z"
      if "X2 \<noteq> []" "Y2 \<noteq> []"
      by (rule less.hyps [OF sm(2) that lz _ _ sorted(2,4)]) (use l mid in simp_all)
    from merge_or_skip [OF c2 sorted(2,4) this] obtain Z2 where Z2: "(if mid < n - start \<and> n - start < b then symMergeCmpFunc cmp ((P @ Z1) @ X2 @ Y2 @ S) mid (n - start) b
        else Some ((P @ Z1) @ X2 @ Y2 @ S)) = Some ((P @ Z1) @ Z2 @ S)" "merges cmp X2 Y2 Z2" by blast
    have "merges cmp (X1 @ X2) (Y1 @ Y2) (Z1 @ Z2)"
      by (rule merge_split [OF _ _ _ _ Z1(2) Z2(2)]) (use less.prems(6,7) XY ends in simp_all)
    moreover have c: "(m - a = 1) = False" "(b - m = 1) = False" using 3 less.prems(4,5) by simp_all
    have "symMergeCmpFunc cmp (P @ X @ Y @ S) a m b = Some (P @ (Z1 @ Z2) @ S)"
      by (subst symMergeCmpFunc.simps) (simp only: c if_False Let_def mid_def [symmetric] n_def [symmetric] sr [symmetric] prod.case st(1)
        Option.bind.simps rot Z1(1) Z2(1) [unfolded append_assoc] append_assoc)
    ultimately show ?thesis using XY by auto
  qed
qed

end

section \<open>Blocks and passes\<close>

text \<open>A list whose blocks of \<open>s\<close> elements are sorted.\<close>

function sorted_blocks :: "('a \<Rightarrow> 'a \<Rightarrow> int) \<Rightarrow> nat \<Rightarrow> 'a list \<Rightarrow> bool" where
  "sorted_blocks cmp s xs \<longleftrightarrow> (if xs = [] \<or> s = 0 then True else sorted_wrt (cmp_le cmp) (take s xs) \<and> sorted_blocks cmp s (drop s xs))"
  by pat_completeness auto
termination by (relation "measure (\<lambda>(cmp, s, xs). length xs)") auto

declare sorted_blocks.simps [simp del]

lemma sorted_blocks_Nil [simp]: "sorted_blocks cmp s []"
  by (simp add: sorted_blocks.simps)

lemma sorted_blocks_block: "length X = s \<Longrightarrow> 0 < s \<Longrightarrow> sorted_blocks cmp s (X @ xs) \<longleftrightarrow> sorted_wrt (cmp_le cmp) X \<and> sorted_blocks cmp s xs"
  by (subst sorted_blocks.simps) auto

lemma sorted_blocks_short: "length X \<le> s \<Longrightarrow> 0 < s \<Longrightarrow> sorted_blocks cmp s X \<longleftrightarrow> sorted_wrt (cmp_le cmp) X"
  by (subst sorted_blocks.simps) auto

text \<open>The blocks \<open>Z\<close> are sorted, whatever sorted blocks follow; the rest \<open>T\<close> is shorter than a block.\<close>

definition tail_blocks :: "('a \<Rightarrow> 'a \<Rightarrow> int) \<Rightarrow> nat \<Rightarrow> 'a list \<Rightarrow> 'a list \<Rightarrow> bool" where
  "tail_blocks cmp s Z T \<longleftrightarrow> (\<forall>T'. sorted_blocks cmp s T' \<longrightarrow> sorted_blocks cmp s (Z @ T')) \<and> length T < s"

lemma tail_blocks_Cons: "length X = s \<Longrightarrow> sorted_wrt (cmp_le cmp) X \<Longrightarrow> tail_blocks cmp s Z T \<Longrightarrow> tail_blocks cmp s (X @ Z) T"
  by (auto simp: tail_blocks_def sorted_blocks_block)

lemma tail_blocks_Nil: "length T < s \<Longrightarrow> tail_blocks cmp s [] T"
  by (simp add: tail_blocks_def)

context strict_weak_order
begin

lemma stable_blocks_parts:
  assumes "a = length P" and "b = a + blockSize" and "n = a + length X"
  shows "\<exists>Z T. stable_blocks cmp n a b (P @ X) = Some (length (P @ Z), P @ Z @ T) \<and> stable_to cmp X (Z @ T) \<and> tail_blocks cmp blockSize Z T"
  using assms
proof (induction "length X" arbitrary: P X a b rule: less_induct)
  case less
  show ?case
  proof (cases "b \<le> n")
    case True
    let ?X1 = "take blockSize X" and ?X2 = "drop blockSize X"
    have l: "length ?X1 = blockSize" using True less.prems by simp
    obtain Z1 where Z1: "insertionSortCmpFunc cmp (P @ ?X1 @ ?X2) a b = Some (P @ Z1 @ ?X2)" "stable_to cmp ?X1 Z1"
      "sorted_wrt (cmp_le cmp) Z1"
      using insertionSort_parts [of a P b ?X1 ?X2] less.prems l by auto
    have lz: "length Z1 = blockSize" using stable_length [OF Z1(2)] l by simp
    have sm: "length ?X2 < length X" using l by (simp add: blockSize_def)
    obtain Z T where Z: "stable_blocks cmp n b (b + blockSize) ((P @ Z1) @ ?X2) = Some (length ((P @ Z1) @ Z), (P @ Z1) @ Z @ T)"
      "stable_to cmp ?X2 (Z @ T)" "tail_blocks cmp blockSize Z T"
      using less.hyps [OF sm, of b "P @ Z1" "b + blockSize"] less.prems lz True by auto
    have "stable_to cmp (?X1 @ ?X2) (Z1 @ Z @ T)" by (rule stable_append [OF Z1(2) Z(2)])
    moreover have "stable_blocks cmp n a b (P @ X) = Some (length (P @ Z1 @ Z), P @ (Z1 @ Z) @ T)"
      using True Z1(1) Z(1) by (subst stable_blocks.simps) simp
    ultimately show ?thesis using tail_blocks_Cons [OF lz Z1(3) Z(3)] by (intro exI [of _ "Z1 @ Z"] exI [of _ T]) simp
  next
    case False
    then show ?thesis using less.prems by (subst stable_blocks.simps) (auto intro!: exI [of _ "[]"] tail_blocks_Nil)
  qed
qed

lemma stable_pass_parts:
  assumes "0 < s" and "a = length P" and "b = a + 2 * s" and "n = a + length X" and "sorted_blocks cmp s X"
  shows "\<exists>Z T. stable_pass cmp n s a b (P @ X) = Some (length (P @ Z), P @ Z @ T) \<and> stable_to cmp X (Z @ T) \<and>
    tail_blocks cmp (2 * s) Z T \<and> sorted_blocks cmp s T"
  using assms
proof (induction "length X" arbitrary: P X a b rule: less_induct)
  case less
  show ?case
  proof (cases "b \<le> n")
    case True
    let ?X1 = "take s X" and ?Y1 = "take s (drop s X)" and ?X2 = "drop (2 * s) X"
    have X: "X = ?X1 @ ?Y1 @ ?X2" by (simp add: mult_2 flip: drop_drop)
    have l: "length ?X1 = s" "length ?Y1 = s" using True less.prems by simp_all
    have r: "sorted_wrt (cmp_le cmp) ?X1" "sorted_wrt (cmp_le cmp) ?Y1" "sorted_blocks cmp s ?X2"
      using less.prems(5) sorted_blocks_block [OF l(1) less.prems(1), of cmp "?Y1 @ ?X2"] sorted_blocks_block [OF l(2) less.prems(1), of cmp ?X2] X by simp_all
    have ne: "?X1 \<noteq> []" "?Y1 \<noteq> []" using l less.prems(1) by (simp_all flip: length_greater_0_conv)
    obtain Z1 where Z1: "symMergeCmpFunc cmp (P @ ?X1 @ ?Y1 @ ?X2) a (a + s) b = Some (P @ Z1 @ ?X2)" "merges cmp ?X1 ?Y1 Z1"
      using symMerge_parts [where m = "a + s" and b = b and S = "?X2", OF ne less.prems(2) _ _ r(1,2)] less.prems(3) l by auto
    have z: "stable_to cmp (?X1 @ ?Y1) Z1" "sorted_wrt (cmp_le cmp) Z1" using Z1(2) by (simp_all add: merges_def)
    have lz: "length Z1 = 2 * s" using stable_length [OF z(1)] l by simp
    have sm: "length ?X2 < length X" using l less.prems(1) by simp
    obtain Z T where Z: "stable_pass cmp n s b (b + 2 * s) ((P @ Z1) @ ?X2) = Some (length ((P @ Z1) @ Z), (P @ Z1) @ Z @ T)"
      "stable_to cmp ?X2 (Z @ T)" "tail_blocks cmp (2 * s) Z T" "sorted_blocks cmp s T"
      using less.hyps [OF sm less.prems(1), of b "P @ Z1" "b + 2 * s"] less.prems lz True r(3) by auto
    have "stable_to cmp ((?X1 @ ?Y1) @ ?X2) (Z1 @ Z @ T)" by (rule stable_append [OF z(1) Z(2)])
    then have "stable_to cmp X ((Z1 @ Z) @ T)" using X by simp
    moreover have "stable_pass cmp n s a b (P @ X) = Some (length (P @ Z1 @ Z), P @ (Z1 @ Z) @ T)"
      using True Z1(1) Z(1) less.prems(1) X by (subst stable_pass.simps) simp
    ultimately show ?thesis using tail_blocks_Cons [OF lz z(2) Z(3)] Z(4) by blast
  next
    case False
    then show ?thesis using less.prems by (subst stable_pass.simps) (auto intro!: exI [of _ "[]"] tail_blocks_Nil)
  qed
qed

lemma stable_passes_sorts:
  assumes "0 < s" and "n = length X" and "sorted_blocks cmp s X"
  shows "\<exists>Z. stable_passes cmp n s X = Some Z \<and> stable_to cmp X Z \<and> sorted_wrt (cmp_le cmp) Z"
  using assms
proof (induction "n - s" arbitrary: s X rule: less_induct)
  case less
  show ?case
  proof (cases "s < n")
    case True
    obtain Z T where Z: "stable_pass cmp n s 0 (2 * s) X = Some (length Z, Z @ T)" "stable_to cmp X (Z @ T)"
      "tail_blocks cmp (2 * s) Z T" "sorted_blocks cmp s T"
      using stable_pass_parts [of s 0 "[]" "2 * s" n X] less.prems by auto
    have n: "n = length Z + length T" using stable_length [OF Z(2)] less.prems(2) by simp
    obtain T' where T': "(let m = length Z + s in if m < n then symMergeCmpFunc cmp (Z @ T) (length Z) m n else Some (Z @ T)) = Some (Z @ T')"
      "stable_to cmp T T'" "sorted_wrt (cmp_le cmp) T'"
    proof (cases "length Z + s < n")
      case long: True
      let ?X1 = "take s T" and ?Y1 = "drop s T"
      have "length T < 2 * s" using Z(3) by (simp add: tail_blocks_def)
      then have l: "length ?X1 = s" "length ?Y1 \<le> s" using long n by simp_all
      have r: "sorted_wrt (cmp_le cmp) ?X1" "sorted_wrt (cmp_le cmp) ?Y1"
        using Z(4) sorted_blocks_block [OF l(1) less.prems(1), of cmp ?Y1] sorted_blocks_short [OF l(2) less.prems(1), of cmp] by simp_all
      have ne: "?X1 \<noteq> []" "?Y1 \<noteq> []" using l long n less.prems(1) by (auto simp flip: length_greater_0_conv)
      from symMerge_parts [where m = "length Z + s" and b = n and S = "[]", OF ne refl _ _ r] l(1) long n show ?thesis
        using that by (auto simp: merges_def)
    next
      case short: False
      then have "sorted_wrt (cmp_le cmp) T" using Z(4) n less.prems(1) sorted_blocks_short [of T s cmp] by simp
      then show ?thesis using that [of T] short by simp
    qed
    have "length T' \<le> 2 * s" using stable_length [OF T'(2)] Z(3) by (simp add: tail_blocks_def)
    then have "sorted_blocks cmp (2 * s) T'" using T'(3) less.prems(1) by (simp add: sorted_blocks_short)
    then have r: "sorted_blocks cmp (s * 2) (Z @ T')" using Z(3) by (simp add: tail_blocks_def mult.commute)
    have st: "stable_to cmp X (Z @ T')" using stable_trans [OF Z(2) stable_append [OF stable_refl T'(2)]] .
    have "n - s * 2 < n - s" using True less.prems(1) by simp
    from less.hyps [OF this _ _ r] obtain Y where Y: "stable_passes cmp n (s * 2) (Z @ T') = Some Y" "stable_to cmp (Z @ T') Y"
      "sorted_wrt (cmp_le cmp) Y"
      using less.prems(1,2) stable_length [OF st] by auto
    have "stable_passes cmp n s X = Some Y" using True less.prems(1) Z(1) T'(1) Y(1) by (subst stable_passes.simps) simp
    then show ?thesis using stable_trans [OF st Y(2)] Y(3) by blast
  next
    case False
    then show ?thesis using less.prems sorted_blocks_short [of X s cmp] by (subst stable_passes.simps) simp
  qed
qed

lemma stable_sorts: "\<exists>ys. SortStableFunc cmp xs = Some ys \<and> stable_to cmp xs ys \<and> sorted_wrt (cmp_le cmp) ys"
proof -
  let ?n = "length xs"
  have bs: "0 < blockSize" by (simp add: blockSize_def)
  obtain Z T where Z: "stable_blocks cmp ?n 0 blockSize xs = Some (length Z, Z @ T)" "stable_to cmp xs (Z @ T)" "tail_blocks cmp blockSize Z T"
    using stable_blocks_parts [of 0 "[]" blockSize ?n xs] by auto
  have n: "?n = length Z + length T" using stable_length [OF Z(2)] by simp
  obtain T' where T': "insertionSortCmpFunc cmp (Z @ T) (length Z) ?n = Some (Z @ T')" "stable_to cmp T T'" "sorted_wrt (cmp_le cmp) T'"
    using insertionSort_parts [of "length Z" Z ?n T "[]"] n by auto
  have st: "stable_to cmp xs (Z @ T')" using stable_trans [OF Z(2) stable_append [OF stable_refl T'(2)]] .
  have "length T' \<le> blockSize" using stable_length [OF T'(2)] Z(3) by (simp add: tail_blocks_def)
  then have "sorted_blocks cmp blockSize (Z @ T')" using T'(3) Z(3) bs by (simp add: tail_blocks_def sorted_blocks_short)
  from stable_passes_sorts [OF bs _ this] obtain Y where Y: "stable_passes cmp ?n blockSize (Z @ T') = Some Y"
    "stable_to cmp (Z @ T') Y" "sorted_wrt (cmp_le cmp) Y"
    using stable_length [OF st] by auto
  then show ?thesis using Z(1) T'(1) stable_trans [OF st Y(2)] by (auto simp: SortStableFunc_def stableCmpFunc_def)
qed

end

section \<open>The property\<close>

text \<open>C9. \<open>slices.SortStableFunc\<close>: for every comparison function that is a strict weak order and every slice, the call
  returns, no index is out of range, the result is a sorted permutation of the argument (so that \<open>IsSortedFunc\<close> accepts
  it), and elements that the function takes for equal keep their order.\<close>

theorem SortStableFunc_stable:
  assumes "strict_weak_order cmp"
  shows "\<exists>ys. SortStableFunc cmp xs = Some ys \<and> mset ys = mset xs \<and> sorted_wrt (cmp_le cmp) ys \<and>
    IsSortedFunc cmp ys = Some True \<and> (\<forall>x. filter (cmp_equal cmp x) ys = filter (cmp_equal cmp x) xs)"
  using strict_weak_order.stable_sorts [OF assms, of xs] strict_weak_order.stable_mset [OF assms]
    strict_weak_order.IsSortedFunc_sorted [OF assms] by (fastforce simp: stable_to_def)

lemma SortStableFunc_stable_witness:
  "\<exists>ys. SortStableFunc (\<lambda>x y. fst x - fst y) [(2, True), (1, True), (2 :: int, False)] = Some ys \<and>
    filter (cmp_equal (\<lambda>x y. fst x - fst y) (2, True)) ys = [(2, True), (2, False)]"
proof -
  have w: "strict_weak_order (\<lambda>x y :: int \<times> bool. fst x - fst y)" by unfold_locales (auto simp: cmp_less_def cmp_le_def)
  show ?thesis using SortStableFunc_stable [OF w, of "[(2, True), (1, True), (2, False)]"] by (fastforce simp: cmp_equal_def cmp_le_def cmp_less_def)
qed

end
