(* ===== verification/Abt.thy ===== *)
theory Abt
  imports Prelude
begin

text \<open>
  Package \<^verbatim>\<open>cmd/compile/internal/abt\<close>, \<^verbatim>\<open>avlint32.go\<close>: applicative balanced trees with 32-bit keys.
  A \<open>*node32\<close> is a tree with \<open>nil\<close> for the nil pointer.  The code never writes to a node that is
  reachable from an older tree (it copies first, and \<open>Insert\<close> writes the data into the node that
  \<open>aInsert\<close> made before the new root is published), so that nodes are values here and \<open>copy\<close>
  is the identity.  The test \<open>tleft == t.left\<close> of two pointers is equality of trees: a deletion that
  removes a node gives a smaller tree.  Data are \<^typ>\<open>'v option\<close> with \<^const>\<open>None\<close> for the nil interface.
  The comparisons \<open>c != d\<close> of interface values are those of HOL: the data are taken to be of comparable types, with no
  floating-point NaN among them (for other types Go panics there).
  A result \<^const>\<open>None\<close> of an operation is the run-time panic of a nil dereference.  Keys and heights
  are integers; that the heights fit into their \<open>int8\<close> is a property.
\<close>

section \<open>Nodes\<close>

datatype 'v node32 = nil
  | Node (left: "'v node32") (right: "'v node32") (data: "'v option") (key: int) (height8: int)

definition LEAF_HEIGHT :: int where "LEAF_HEIGHT = 1"

definition ZERO_HEIGHT :: int where "ZERO_HEIGHT = 0"

definition NOT_KEY32 :: int where "NOT_KEY32 = - 0x80000000"

definition makeNode :: "int \<Rightarrow> 'v node32" where
  "makeNode k = Node nil nil None k LEAF_HEIGHT"

text \<open>The assignment \<open>n.data = data\<close>.\<close>

fun setData :: "'v option \<Rightarrow> 'v node32 \<Rightarrow> 'v node32" where
  "setData v nil = nil"
| "setData v (Node l r d k h) = Node l r v k h"

fun nilOrData :: "'v node32 \<Rightarrow> 'v option" where
  "nilOrData nil = None"
| "nilOrData (Node l r d k h) = d"

fun nilOrKeyAndData :: "'v node32 \<Rightarrow> int \<times> 'v option" where
  "nilOrKeyAndData nil = (NOT_KEY32, None)"
| "nilOrKeyAndData (Node l r d k h) = (k, d)"

fun height :: "'v node32 \<Rightarrow> int" where
  "height nil = 0"
| "height (Node l r d k h) = h"

fun isLeaf :: "'v node32 \<Rightarrow> bool" where
  "isLeaf nil = False"
| "isLeaf (Node l r d k h) \<longleftrightarrow> l = nil \<and> r = nil \<and> h = LEAF_HEIGHT"

text \<open>\<open>visitInOrder\<close> calls its argument on these pairs in this order.\<close>

fun visitInOrder :: "'v node32 \<Rightarrow> (int \<times> 'v option) list" where
  "visitInOrder nil = []"
| "visitInOrder (Node l r d k h) = visitInOrder l @ (k, d) # visitInOrder r"

section \<open>Searching\<close>

fun find :: "int \<Rightarrow> 'v node32 \<Rightarrow> 'v node32" where
  "find x nil = nil"
| "find x (Node l r d k h) =
    (if x < k then find x l else if x > k then find x r else Node l r d k h)"

fun min_node :: "'v node32 \<Rightarrow> 'v node32" where
  "min_node nil = nil"
| "min_node (Node l r d k h) = (if l = nil then Node l r d k h else min_node l)"

fun max_node :: "'v node32 \<Rightarrow> 'v node32" where
  "max_node nil = nil"
| "max_node (Node l r d k h) = (if r = nil then Node l r d k h else max_node r)"

fun glb_loop :: "int \<Rightarrow> bool \<Rightarrow> 'v node32 \<Rightarrow> 'v node32 \<Rightarrow> 'v node32" where
  "glb_loop x allow_eq best nil = best"
| "glb_loop x allow_eq best (Node l r d k h) =
    (if x \<le> k
     then if allow_eq \<and> x = k then Node l r d k h else glb_loop x allow_eq best l
     else glb_loop x allow_eq (Node l r d k h) r)"

definition glb :: "int \<Rightarrow> bool \<Rightarrow> 'v node32 \<Rightarrow> 'v node32" where
  "glb x allow_eq t = glb_loop x allow_eq nil t"

fun lub_loop :: "int \<Rightarrow> bool \<Rightarrow> 'v node32 \<Rightarrow> 'v node32 \<Rightarrow> 'v node32" where
  "lub_loop x allow_eq best nil = best"
| "lub_loop x allow_eq best (Node l r d k h) =
    (if x \<ge> k
     then if allow_eq \<and> x = k then Node l r d k h else lub_loop x allow_eq best r
     else lub_loop x allow_eq (Node l r d k h) l)"

definition lub :: "int \<Rightarrow> bool \<Rightarrow> 'v node32 \<Rightarrow> 'v node32" where
  "lub x allow_eq t = lub_loop x allow_eq nil t"

section \<open>Rotations\<close>

fun rightToRoot :: "'v node32 \<Rightarrow> 'v node32 option" where
  "rightToRoot (Node l (Node rl rr rd rk rh) d k h) =
    (let this = Node l rl d k (1 + max (height rl) (height l))
     in Some (Node this rr rd rk (1 + max (height this) (height rr))))"
| "rightToRoot _ = None"

fun leftToRoot :: "'v node32 \<Rightarrow> 'v node32 option" where
  "leftToRoot (Node (Node ll lr ld lk lh) r d k h) =
    (let this = Node lr r d k (1 + max (height lr) (height r))
     in Some (Node ll this ld lk (1 + max (height this) (height ll))))"
| "leftToRoot _ = None"

fun aRightIsHigh :: "'v node32 \<Rightarrow> 'v node32 option" where
  "aRightIsHigh (Node l (Node rl rr rd rk rh) d k h) =
    do {
      right \<leftarrow> (if height rr < height rl then leftToRoot (Node rl rr rd rk rh)
               else Some (Node rl rr rd rk rh));
      rightToRoot (Node l right d k h) }"
| "aRightIsHigh _ = None"

fun aLeftIsHigh :: "'v node32 \<Rightarrow> 'v node32 option" where
  "aLeftIsHigh (Node (Node ll lr ld lk lh) r d k h) =
    do {
      left \<leftarrow> (if height ll < height lr then rightToRoot (Node ll lr ld lk lh)
              else Some (Node ll lr ld lk lh));
      leftToRoot (Node left r d k h) }"
| "aLeftIsHigh _ = None"

section \<open>Insertion\<close>

text \<open>The new root and the old node; the data of \<open>Insert\<close> go into the new node.\<close>

fun aInsert :: "int \<Rightarrow> 'v option \<Rightarrow> 'v node32 \<Rightarrow> ('v node32 \<times> 'v node32) option" where
  "aInsert x v nil = None"
| "aInsert x v (Node l r d k h) =
    (if x = k then Some (setData v (Node l r d k h), Node l r d k h)
     else if x < k
     then if l = nil then Some (Node (setData v (makeNode x)) r d k 2, nil)
          else do {
            (new_l, oldnode) \<leftarrow> aInsert x v l;
            newroot \<leftarrow> (if height new_l > 1 + height r then aLeftIsHigh (Node new_l r d k h)
                       else Some (Node new_l r d k (1 + max (height new_l) (height r))));
            Some (newroot, oldnode) }
     else if r = nil then Some (Node l (setData v (makeNode x)) d k 2, nil)
          else do {
            (new_r, oldnode) \<leftarrow> aInsert x v r;
            newroot \<leftarrow> (if height new_r > 1 + height l then aRightIsHigh (Node l new_r d k h)
                       else Some (Node l new_r d k (1 + max (height l) (height new_r))));
            Some (newroot, oldnode) })"

section \<open>Deletion\<close>

fun aRebalanceAfterLeftDeletion :: "int \<Rightarrow> 'v node32 \<Rightarrow> 'v node32 \<Rightarrow> 'v node32 option" where
  "aRebalanceAfterLeftDeletion oldLeftHeight tleft nil = None"
| "aRebalanceAfterLeftDeletion oldLeftHeight tleft (Node l r d k h) =
    (if oldLeftHeight = height tleft \<or> oldLeftHeight = height r then Some (Node tleft r d k h)
     else if oldLeftHeight > height r then Some (Node tleft r d k (h - 1))
     else if r = nil then None
     else aRightIsHigh (Node tleft r d k h))"

fun aRebalanceAfterRightDeletion :: "int \<Rightarrow> 'v node32 \<Rightarrow> 'v node32 \<Rightarrow> 'v node32 option" where
  "aRebalanceAfterRightDeletion oldRightHeight tright nil = None"
| "aRebalanceAfterRightDeletion oldRightHeight tright (Node l r d k h) =
    (if oldRightHeight = height tright \<or> oldRightHeight = height l then Some (Node l tright d k h)
     else if oldRightHeight > height l then Some (Node l tright d k (h - 1))
     else if l = nil then None
     else aLeftIsHigh (Node l tright d k h))"

text \<open>The deleted node and the new subtree.\<close>

fun aDeleteMin :: "'v node32 \<Rightarrow> ('v node32 \<times> 'v node32) option" where
  "aDeleteMin nil = Some (nil, nil)"
| "aDeleteMin (Node l r d k h) =
    (if l = nil then Some (Node l r d k h, r)
     else do {
       (del, tleft) \<leftarrow> aDeleteMin l;
       if tleft = l then Some (del, Node l r d k h)
       else do {
         t \<leftarrow> aRebalanceAfterLeftDeletion (height l) tleft (Node l r d k h);
         Some (del, t) } })"

fun aDeleteMax :: "'v node32 \<Rightarrow> ('v node32 \<times> 'v node32) option" where
  "aDeleteMax nil = Some (nil, nil)"
| "aDeleteMax (Node l r d k h) =
    (if r = nil then Some (Node l r d k h, l)
     else do {
       (del, tright) \<leftarrow> aDeleteMax r;
       if tright = r then Some (del, Node l r d k h)
       else do {
         t \<leftarrow> aRebalanceAfterRightDeletion (height r) tright (Node l r d k h);
         Some (del, t) } })"

fun aDelete :: "int \<Rightarrow> 'v node32 \<Rightarrow> ('v node32 \<times> 'v node32) option" where
  "aDelete x nil = Some (nil, nil)"
| "aDelete x (Node l r d k h) =
    (if x < k
     then do {
       (del, tleft) \<leftarrow> aDelete x l;
       if tleft = l then Some (del, Node l r d k h)
       else do {
         t \<leftarrow> aRebalanceAfterLeftDeletion (height l) tleft (Node l r d k h);
         Some (del, t) } }
     else if x > k
     then do {
       (del, tright) \<leftarrow> aDelete x r;
       if tright = r then Some (del, Node l r d k h)
       else do {
         t \<leftarrow> aRebalanceAfterRightDeletion (height r) tright (Node l r d k h);
         Some (del, t) } }
     else if h = LEAF_HEIGHT then Some (Node l r d k h, nil)
     else if height l > height r
     then do {
       (del, tleft) \<leftarrow> aDeleteMax l;
       (case del of
          nil \<Rightarrow> None
        | Node _ _ dd dk _ \<Rightarrow>
            do {
              t \<leftarrow> aRebalanceAfterLeftDeletion (height l) tleft (Node l r dd dk h);
              Some (Node l r d k h, t) }) }
     else do {
       (del, tright) \<leftarrow> aDeleteMin r;
       (case del of
          nil \<Rightarrow> None
        | Node _ _ dd dk _ \<Rightarrow>
            do {
              t \<leftarrow> aRebalanceAfterRightDeletion (height r) tright (Node l r dd dk h);
              Some (Node l r d k h, t) }) })"

section \<open>The exported type\<close>

record 'v T =
  root :: "'v node32"
  sz :: int

definition IsEmpty :: "'v T \<Rightarrow> bool" where
  "IsEmpty t \<longleftrightarrow> root t = nil"

definition IsSingle :: "'v T \<Rightarrow> bool" where
  "IsSingle t \<longleftrightarrow> root t \<noteq> nil \<and> isLeaf (root t)"

definition VisitInOrder :: "'v T \<Rightarrow> (int \<times> 'v option) list" where
  "VisitInOrder t = (if root t = nil then [] else visitInOrder (root t))"

definition Find :: "int \<Rightarrow> 'v T \<Rightarrow> 'v option" where
  "Find x t = nilOrData (find x (root t))"

definition Insert :: "int \<Rightarrow> 'v option \<Rightarrow> 'v T \<Rightarrow> ('v T \<times> 'v option) go" where
  "Insert x v t =
    (if x = NOT_KEY32 then Inl (PanicMsg ''Cannot use sentinel value -0x80000000 as key'')
     else go_bind
       (if root t = nil then Inr (setData v (makeNode x), nil) else nil_checked (aInsert x v (root t)))
       (\<lambda>(newroot, old).
         if old \<noteq> nil then Inr (t\<lparr>root := newroot\<rparr>, data old)
         else Inr (t\<lparr>root := newroot, sz := sz t + 1\<rparr>, None)))"

definition Delete :: "int \<Rightarrow> 'v T \<Rightarrow> ('v T \<times> 'v option) go" where
  "Delete x t =
    (if root t = nil then Inr (t, None)
     else go_bind (nil_checked (aDelete x (root t)))
       (\<lambda>(d, s). if d = nil then Inr (t, None)
         else Inr (t\<lparr>root := s, sz := sz t - 1\<rparr>, data d)))"

definition DeleteMin :: "'v T \<Rightarrow> ('v T \<times> int \<times> 'v option) go" where
  "DeleteMin t =
    (if root t = nil then Inr (t, NOT_KEY32, None)
     else go_bind (nil_checked (aDeleteMin (root t)))
       (\<lambda>(d, s). if d = nil then Inr (t, NOT_KEY32, None)
         else Inr (t\<lparr>root := s, sz := sz t - 1\<rparr>, key d, data d)))"

definition DeleteMax :: "'v T \<Rightarrow> ('v T \<times> int \<times> 'v option) go" where
  "DeleteMax t =
    (if root t = nil then Inr (t, NOT_KEY32, None)
     else go_bind (nil_checked (aDeleteMax (root t)))
       (\<lambda>(d, s). if d = nil then Inr (t, NOT_KEY32, None)
         else Inr (t\<lparr>root := s, sz := sz t - 1\<rparr>, key d, data d)))"

definition Size :: "'v T \<Rightarrow> int" where
  "Size t = sz t"

definition Min :: "'v T \<Rightarrow> int \<times> 'v option" where
  "Min t = nilOrKeyAndData (min_node (root t))"

definition Max :: "'v T \<Rightarrow> int \<times> 'v option" where
  "Max t = nilOrKeyAndData (max_node (root t))"

definition Glb :: "int \<Rightarrow> 'v T \<Rightarrow> int \<times> 'v option" where
  "Glb x t = nilOrKeyAndData (glb x False (root t))"

definition GlbEq :: "int \<Rightarrow> 'v T \<Rightarrow> int \<times> 'v option" where
  "GlbEq x t = nilOrKeyAndData (glb x True (root t))"

definition Lub :: "int \<Rightarrow> 'v T \<Rightarrow> int \<times> 'v option" where
  "Lub x t = nilOrKeyAndData (lub x False (root t))"

definition LubEq :: "int \<Rightarrow> 'v T \<Rightarrow> int \<times> 'v option" where
  "LubEq x t = nilOrKeyAndData (lub x True (root t))"

section \<open>Iterators\<close>

text \<open>The stack \<open>parents\<close>, its top first.\<close>

fun leftmost :: "'v node32 list \<Rightarrow> 'v node32 \<Rightarrow> 'v node32 list" where
  "leftmost ps nil = ps"
| "leftmost ps (Node l r d k h) = leftmost (Node l r d k h # ps) l"

definition iterator :: "'v node32 \<Rightarrow> 'v node32 list" where
  "iterator t = (if t = nil then [] else leftmost [] t)"

fun discard :: "'v node32 \<Rightarrow> 'v node32 list \<Rightarrow> 'v node32 list" where
  "discard y [] = []"
| "discard y (p # ps) = (if y = right p then discard p ps else p # ps)"

fun next_node :: "'v node32 list \<Rightarrow> 'v node32 \<times> 'v node32 list" where
  "next_node [] = (nil, [])"
| "next_node (x # ps) =
    (if right x \<noteq> nil then (x, leftmost (x # ps) (right x)) else (x, discard x ps))"

definition Done :: "'v node32 list \<Rightarrow> bool" where
  "Done it \<longleftrightarrow> length it = 0"

definition Next :: "'v node32 list \<Rightarrow> (int \<times> 'v option) \<times> 'v node32 list" where
  "Next it = (let (x, it) = next_node it in (nilOrKeyAndData x, it))"

text \<open>
  \<open>for it := t.Iterator(); !it.Done(); { k, d := it.Next() ... }\<close> with the state that the body changes.
  \<^const>\<open>None\<close> is a loop that does not end.
\<close>

partial_function (option) for_iter ::
    "(int \<times> 'v option \<Rightarrow> 's \<Rightarrow> 's go) \<Rightarrow> 'v node32 list \<Rightarrow> 's \<Rightarrow> 's go option" where
  "for_iter body it s =
    (if Done it then Some (Inr s)
     else case Next it of (kd, it) \<Rightarrow>
       (case body kd s of
          Inl e \<Rightarrow> Some (Inl e)
        | Inr s \<Rightarrow> for_iter body it s))"

section \<open>Set operations\<close>

text \<open>What the three operations do with a common key: \<open>c := f(d, e); c != d\<close>.\<close>

definition combine ::
    "('v option \<Rightarrow> 'v option \<Rightarrow> 'v option) option \<Rightarrow> int \<Rightarrow> 'v option \<Rightarrow> 'v option \<Rightarrow> 'v T \<Rightarrow> 'v T go" where
  "combine f k d e v =
    (case f of
       None \<Rightarrow> Inr v
     | Some g \<Rightarrow>
         let c = g d e
         in if c \<noteq> d
            then if c = None then go_bind (Delete k v) (\<lambda>(v, _). Inr v)
                 else go_bind (Insert k c v) (\<lambda>(v, _). Inr v)
            else Inr v)"

definition Intersection ::
    "'v T \<Rightarrow> 'v T \<Rightarrow> ('v option \<Rightarrow> 'v option \<Rightarrow> 'v option) option \<Rightarrow> 'v T go option" where
  "Intersection t u f =
    (if Size t = 0 \<or> Size u = 0 then Some (Inr \<lparr>root = nil, sz = 0\<rparr>)
     else if Size t \<le> Size u
     then for_iter (\<lambda>(k, d) v.
            let e = Find k u
            in if e = None then go_bind (Delete k v) (\<lambda>(v, _). Inr v) else combine f k d e v)
          (iterator (root t)) t
     else for_iter (\<lambda>(k, e) v.
            let d = Find k t
            in if d = None then go_bind (Delete k v) (\<lambda>(v, _). Inr v) else combine f k d e v)
          (iterator (root u)) u)"

definition Union ::
    "'v T \<Rightarrow> 'v T \<Rightarrow> ('v option \<Rightarrow> 'v option \<Rightarrow> 'v option) option \<Rightarrow> 'v T go option" where
  "Union t u f =
    (if Size t = 0 then Some (Inr u)
     else if Size u = 0 then Some (Inr t)
     else if Size t \<ge> Size u
     then for_iter (\<lambda>(k, e) v.
            let d = Find k t
            in if d = None then go_bind (Insert k e v) (\<lambda>(v, _). Inr v) else combine f k d e v)
          (iterator (root u)) t
     else for_iter (\<lambda>(k, d) v.
            let e = Find k u
            in if e = None then go_bind (Insert k d v) (\<lambda>(v, _). Inr v) else combine f k d e v)
          (iterator (root t)) u)"

definition Difference ::
    "'v T \<Rightarrow> 'v T \<Rightarrow> ('v option \<Rightarrow> 'v option \<Rightarrow> 'v option) option \<Rightarrow> 'v T go option" where
  "Difference t u f =
    (if Size t = 0 then Some (Inr \<lparr>root = nil, sz = 0\<rparr>)
     else if Size u = 0 then Some (Inr t)
     else for_iter (\<lambda>(k, d) v.
            let e = Find k u
            in if e \<noteq> None
               then (case f of
                       None \<Rightarrow> go_bind (Delete k v) (\<lambda>(v, _). Inr v)
                     | Some g \<Rightarrow>
                         let c = g d e
                         in if c = None then go_bind (Delete k v) (\<lambda>(v, _). Inr v)
                            else if c \<noteq> d then go_bind (Insert k c v) (\<lambda>(v, _). Inr v)
                            else Inr v)
               else Inr v)
          (iterator (root t)) t)"

section \<open>Comparing trees\<close>

text \<open>
  \<open>equals\<close> and \<open>equiv\<close> skip nodes with the same address.  Which equal nodes share their address is not
  part of the model: it is the parameter \<open>same\<close>, of which is used that it holds of equal nodes only.
\<close>

partial_function (option) equiv_loop ::
    "('v node32 \<Rightarrow> 'v node32 \<Rightarrow> bool) \<Rightarrow> ('v option \<Rightarrow> 'v option \<Rightarrow> bool) \<Rightarrow>
      'v node32 list \<Rightarrow> 'v node32 list \<Rightarrow> bool option" where
  "equiv_loop same eqv it iu =
    (if \<not> Done it \<and> \<not> Done iu
     then let (nt, it) = next_node it; (nu, iu) = next_node iu
          in if same nt nu then equiv_loop same eqv it iu
             else if key nt \<noteq> key nu then Some False
             else if \<not> eqv (data nt) (data nu) then Some False
             else equiv_loop same eqv it iu
     else Some (Done it = Done iu))"

definition equiv ::
    "('v node32 \<Rightarrow> 'v node32 \<Rightarrow> bool) \<Rightarrow> 'v node32 \<Rightarrow> 'v node32 \<Rightarrow> ('v option \<Rightarrow> 'v option \<Rightarrow> bool) \<Rightarrow>
      bool option" where
  "equiv same t u eqv = (if same t u then Some True else equiv_loop same eqv (iterator t) (iterator u))"

definition equals :: "('v node32 \<Rightarrow> 'v node32 \<Rightarrow> bool) \<Rightarrow> 'v node32 \<Rightarrow> 'v node32 \<Rightarrow> bool option" where
  "equals same t u = (if same t u then Some True else equiv_loop same (=) (iterator t) (iterator u))"

definition Equiv ::
    "('v node32 \<Rightarrow> 'v node32 \<Rightarrow> bool) \<Rightarrow> 'v T \<Rightarrow> 'v T \<Rightarrow> ('v option \<Rightarrow> 'v option \<Rightarrow> bool) \<Rightarrow> bool option" where
  "Equiv same t u eqv = (if Size t \<noteq> Size u then Some False else equiv same (root t) (root u) eqv)"

definition Equals :: "('v node32 \<Rightarrow> 'v node32 \<Rightarrow> bool) \<Rightarrow> 'v T \<Rightarrow> 'v T \<Rightarrow> bool option" where
  "Equals same t u = (if Size t \<noteq> Size u then Some False else equals same (root t) (root u))"

end
