(* ===== verification/Abt_Avl.thy ===== *)
theory Abt_Avl
  imports Abt
begin

text \<open>
  The node operations of \<^verbatim>\<open>abt\<close>: rotations keep the in-order sequence, insertion and deletion keep the
  AVL invariant and act on the sorted sequence of key-data pairs, and no operation dereferences nil.
\<close>

section \<open>Sorted sequences of pairs\<close>

fun ins_kv :: "int \<Rightarrow> 'b \<Rightarrow> (int \<times> 'b) list \<Rightarrow> (int \<times> 'b) list" where
  "ins_kv x v [] = [(x, v)]"
| "ins_kv x v ((k, d) # ps) =
    (if x < k then (x, v) # (k, d) # ps else if x = k then (x, v) # ps else (k, d) # ins_kv x v ps)"

definition del_kv :: "int \<Rightarrow> (int \<times> 'b) list \<Rightarrow> (int \<times> 'b) list" where
  "del_kv x ps = filter (\<lambda>p. fst p \<noteq> x) ps"

abbreviation sorted_kv :: "(int \<times> 'b) list \<Rightarrow> bool" where
  "sorted_kv ps \<equiv> sorted_wrt (<) (map fst ps)"

lemma ins_kv_append:
  "sorted_kv (ps @ (k, d) # qs) \<Longrightarrow> ins_kv x v (ps @ (k, d) # qs) =
    (if x < k then ins_kv x v ps @ (k, d) # qs
     else if x = k then ps @ (x, v) # qs
     else ps @ (k, d) # ins_kv x v qs)"
  by (induction ps) (auto simp: sorted_wrt_append)

lemma ins_kv_keys: "fst ` set (ins_kv x v ps) = insert x (fst ` set ps)"
  by (induction x v ps rule: ins_kv.induct) auto

lemma ins_kv_sorted: "sorted_kv ps \<Longrightarrow> sorted_kv (ins_kv x v ps)"
proof (induction x v ps rule: ins_kv.induct)
  case (2 x v k d ps)
  have "fst ` set (ins_kv x v ps) = insert x (fst ` set ps)" by (rule ins_kv_keys)
  then have "\<forall>y \<in> fst ` set (ins_kv x v ps). k < y" if "k < x"
    using 2(2) that by auto
  then show ?case using 2 by (cases x k rule: linorder_cases) (auto simp: image_iff)
qed simp

lemma ins_kv_map: "map_of (ins_kv x v ps) = (map_of ps)(x \<mapsto> v)"
  by (induction x v ps rule: ins_kv.induct) (auto simp: fun_upd_twist)

lemma ins_kv_length:
  "sorted_kv ps \<Longrightarrow> length (ins_kv x v ps) = (if x \<in> fst ` set ps then length ps else Suc (length ps))"
  by (induction x v ps rule: ins_kv.induct) auto

lemma del_kv_simps [simp]:
  "del_kv x [] = []" "del_kv x (p # ps) = (if fst p = x then del_kv x ps else p # del_kv x ps)"
  "del_kv x (ps @ qs) = del_kv x ps @ del_kv x qs"
  by (simp_all add: del_kv_def)

lemma del_kv_id: "x \<notin> fst ` set ps \<Longrightarrow> del_kv x ps = ps"
  unfolding del_kv_def by (rule filter_True) auto

lemma del_kv_keys: "fst ` set (del_kv x ps) = fst ` set ps - {x}"
  by (auto simp: del_kv_def)

lemma del_kv_sorted: "sorted_kv ps \<Longrightarrow> sorted_kv (del_kv x ps)"
  by (induction ps) (auto simp: del_kv_def)

lemma del_kv_map: "map_of (del_kv x ps) = (map_of ps)(x := None)"
  by (induction ps) (auto simp: fun_eq_iff)

lemma del_kv_length:
  "sorted_kv ps \<Longrightarrow> length ps = (if x \<in> fst ` set ps then Suc (length (del_kv x ps)) else length (del_kv x ps))"
proof (induction ps)
  case (Cons p ps)
  show ?case
  proof (cases "fst p = x")
    case True
    then have "x \<notin> fst ` set ps" using Cons.prems by auto
    then show ?thesis using True by (simp add: del_kv_id)
  next
    case False
    then show ?thesis using Cons by auto
  qed
qed simp

section \<open>The invariant\<close>

fun avl :: "'v node32 \<Rightarrow> bool" where
  "avl nil = True"
| "avl (Node l r d k h) \<longleftrightarrow>
    h = 1 + max (height l) (height r) \<and> \<bar>height l - height r\<bar> \<le> 1 \<and> avl l \<and> avl r"

lemma avl_height: "avl t \<Longrightarrow> 0 \<le> height t \<and> (height t = 0 \<longleftrightarrow> t = nil)"
  by (induction t) (auto simp: max_def)

lemma avl_height_nonneg: "avl t \<Longrightarrow> 0 \<le> height t"
  using avl_height by blast

lemma avl_height_pos: "avl t \<Longrightarrow> 0 < height t \<longleftrightarrow> t \<noteq> nil"
  using avl_height [of t] by auto

lemma nonnil: "t \<noteq> nil \<Longrightarrow> \<exists>l r d k h. t = Node l r d k h"
  by (cases t) auto

lemma rightToRoot_inorder: "rightToRoot t = Some t' \<Longrightarrow> visitInOrder t' = visitInOrder t"
  by (cases t rule: rightToRoot.cases) (auto simp: Let_def)

lemma leftToRoot_inorder: "leftToRoot t = Some t' \<Longrightarrow> visitInOrder t' = visitInOrder t"
  by (cases t rule: leftToRoot.cases) (auto simp: Let_def)

lemma aRightIsHigh_avl:
  assumes "avl l" and "avl r" and "height r = height l + 2"
  shows "\<exists>t. aRightIsHigh (Node l r d k h) = Some t \<and> avl t \<and> t \<noteq> nil \<and>
    visitInOrder t = visitInOrder l @ (k, d) # visitInOrder r \<and>
    (height t = height r \<or> height t = height r + 1)"
proof -
  from assms avl_height_nonneg [of l] have "r \<noteq> nil" by auto
  then obtain rl rr rd rk rh where r: "r = Node rl rr rd rk rh" using nonnil by blast
  show ?thesis
  proof (cases "height rr < height rl")
    case True
    then have "rl \<noteq> nil" using assms(2) avl_height_nonneg [of rr] r by auto
    then obtain a b rld rlk rlh where "rl = Node a b rld rlk rlh" using nonnil by blast
    then show ?thesis using True assms r by (auto simp: Let_def max_def split: if_splits)
  next
    case False
    then show ?thesis using assms r by (auto simp: Let_def max_def split: if_splits)
  qed
qed

lemma aLeftIsHigh_avl:
  assumes "avl l" and "avl r" and "height l = height r + 2"
  shows "\<exists>t. aLeftIsHigh (Node l r d k h) = Some t \<and> avl t \<and> t \<noteq> nil \<and>
    visitInOrder t = visitInOrder l @ (k, d) # visitInOrder r \<and>
    (height t = height l \<or> height t = height l + 1)"
proof -
  from assms avl_height_nonneg [of r] have "l \<noteq> nil" by auto
  then obtain ll lr ld lk lh where l: "l = Node ll lr ld lk lh" using nonnil by blast
  show ?thesis
  proof (cases "height ll < height lr")
    case True
    then have "lr \<noteq> nil" using assms(1) avl_height_nonneg [of ll] l by auto
    then obtain a b lrd lrk lrh where "lr = Node a b lrd lrk lrh" using nonnil by blast
    then show ?thesis using True assms l by (auto simp: Let_def max_def split: if_splits)
  next
    case False
    then show ?thesis using assms l by (auto simp: Let_def max_def split: if_splits)
  qed
qed

section \<open>Searching\<close>

abbreviation keys :: "'v node32 \<Rightarrow> int set" where
  "keys t \<equiv> fst ` set (visitInOrder t)"

abbreviation bst :: "'v node32 \<Rightarrow> bool" where
  "bst t \<equiv> sorted_kv (visitInOrder t)"

lemma find_spec:
  "bst t \<Longrightarrow> (find x t = nil \<longleftrightarrow> x \<notin> keys t) \<and>
    (x \<in> keys t \<longrightarrow> key (find x t) = x \<and> map_of (visitInOrder t) x = Some (data (find x t)))"
proof (induction x t rule: find.induct)
  case (2 x l r d k h)
  have parts: "bst l" "bst r" "\<forall>y \<in> keys l. y < k" "\<forall>y \<in> keys r. k < y"
    using "2.prems" by (auto simp: sorted_wrt_append)
  have notin: "map_of (visitInOrder s) y = None" if "y \<notin> keys s" for y and s :: "'a node32"
    using that by (simp add: map_of_eq_None_iff)
  have lr: "\<forall>y \<in> keys l. \<forall>z \<in> keys r. y < z" using parts by fastforce
  show ?case
  proof (cases x k rule: linorder_cases)
    case less
    then have "x \<notin> keys r" using parts by force
    with less 2(1) [OF less parts(1)] notin [of x r] show ?thesis
      by (auto simp: map_add_def split: option.splits)
  next
    case equal
    then have "x \<notin> keys l" using parts by force
    with equal notin [of x l] show ?thesis by (auto simp: map_add_def split: option.splits)
  next
    case greater
    then have "x \<notin> keys l" using parts by force
    with greater 2(2) [OF _ greater parts(2)] notin [of x l] show ?thesis
      by (auto simp: map_add_def split: option.splits)
  qed
qed simp

lemma find_data: "bst t \<Longrightarrow> nilOrData (find x t) = (case map_of (visitInOrder t) x of None \<Rightarrow> None | Some d \<Rightarrow> d)"
  using find_spec [of t x] map_of_eq_None_iff [of "visitInOrder t" x]
  by (cases "find x t") (auto split: option.splits)

section \<open>Insertion\<close>

lemma makeNode_simps [simp]:
  "avl (setData v (makeNode x))" "visitInOrder (setData v (makeNode x)) = [(x, v)]"
  "height (setData v (makeNode x)) = 1" "setData v (makeNode x) \<noteq> nil"
  by (simp_all add: makeNode_def LEAF_HEIGHT_def)

lemma aInsert_avl:
  "avl t \<Longrightarrow> bst t \<Longrightarrow> t \<noteq> nil \<Longrightarrow>
    \<exists>t'. aInsert x v t = Some (t', find x t) \<and> avl t' \<and> t' \<noteq> nil \<and>
      (height t' = height t \<or> height t' = height t + 1) \<and>
      visitInOrder t' = ins_kv x v (visitInOrder t)"
proof (induction x v t rule: aInsert.induct)
  case (2 x v l r d k h)
  have parts: "bst l" "bst r" "avl l" "avl r" "h = 1 + max (height l) (height r)"
    "\<bar>height l - height r\<bar> \<le> 1"
    using "2.prems" by (auto simp: sorted_wrt_append)
  note ins = ins_kv_append [of "visitInOrder l" k d "visitInOrder r" x v]
  show ?case
  proof (cases x k rule: linorder_cases)
    case less
    show ?thesis
    proof (cases "l = nil")
      case True
      then show ?thesis using less parts 2(4) avl_height [of r] by (auto simp: max_def)
    next
      case False
      then obtain l' where l': "aInsert x v l = Some (l', find x l)" "avl l'" "l' \<noteq> nil"
        "height l' = height l \<or> height l' = height l + 1" "visitInOrder l' = ins_kv x v (visitInOrder l)"
        using 2(1) less parts by auto
      have "\<exists>t'. (if height l' > 1 + height r then aLeftIsHigh (Node l' r d k h)
            else Some (Node l' r d k (1 + max (height l') (height r)))) = Some t' \<and> avl t' \<and> t' \<noteq> nil \<and>
          (height t' = h \<or> height t' = h + 1) \<and> visitInOrder t' = visitInOrder l' @ (k, d) # visitInOrder r"
      proof (cases "height l' > 1 + height r")
        case True
        then have "height l' = height r + 2" "h = height l'" using l'(4) parts(5,6) by auto
        with aLeftIsHigh_avl [OF l'(2) parts(4), of d k h] True show ?thesis by auto
      next
        case False
        then show ?thesis using l' parts by (auto simp: max_def)
      qed
      then show ?thesis using l' less False "2.prems"(2) ins by auto
    qed
  next
    case equal
    then show ?thesis using parts 2(4) ins by auto
  next
    case greater
    show ?thesis
    proof (cases "r = nil")
      case True
      then show ?thesis using greater parts 2(4) ins avl_height [of l] by (auto simp: max_def)
    next
      case False
      then obtain r' where r': "aInsert x v r = Some (r', find x r)" "avl r'" "r' \<noteq> nil"
        "height r' = height r \<or> height r' = height r + 1" "visitInOrder r' = ins_kv x v (visitInOrder r)"
        using 2(2) greater parts by auto
      have "\<exists>t'. (if height r' > 1 + height l then aRightIsHigh (Node l r' d k h)
            else Some (Node l r' d k (1 + max (height l) (height r')))) = Some t' \<and> avl t' \<and> t' \<noteq> nil \<and>
          (height t' = h \<or> height t' = h + 1) \<and> visitInOrder t' = visitInOrder l @ (k, d) # visitInOrder r'"
      proof (cases "height r' > 1 + height l")
        case True
        then have "height r' = height l + 2" "h = height r'" using r'(4) parts(5,6) by auto
        with aRightIsHigh_avl [OF parts(3) r'(2), of d k h] True show ?thesis by auto
      next
        case False
        then show ?thesis using r' parts by (auto simp: max_def)
      qed
      then show ?thesis using r' greater False "2.prems"(2) ins by auto
    qed
  qed
qed simp

section \<open>Deletion\<close>

lemma aRebalanceAfterLeftDeletion_avl:
  assumes "avl (Node l r d0 k0 h)" and "avl tleft" and "height tleft = height l \<or> height tleft + 1 = height l"
  shows "\<exists>t. aRebalanceAfterLeftDeletion (height l) tleft (Node l r d k h) = Some t \<and> avl t \<and> t \<noteq> nil \<and>
    (height t = h \<or> height t + 1 = h) \<and> visitInOrder t = visitInOrder tleft @ (k, d) # visitInOrder r"
proof -
  have parts: "avl l" "avl r" "h = 1 + max (height l) (height r)" "\<bar>height l - height r\<bar> \<le> 1"
    using assms(1) by auto
  consider "height l = height tleft \<or> height l = height r"
    | "height l \<noteq> height tleft" "height l > height r"
    | "height tleft + 1 = height l" "height r = height tleft + 2"
    using assms(3) parts(4) by linarith
  then show ?thesis
  proof cases
    case 1
    then have "h = 1 + max (height tleft) (height r)" "\<bar>height tleft - height r\<bar> \<le> 1"
      using assms(3) parts(3,4) by linarith+
    then show ?thesis using 1 assms(2) parts(2) by simp
  next
    case 2
    then have "h - 1 = 1 + max (height tleft) (height r)" "\<bar>height tleft - height r\<bar> \<le> 1"
      using assms(3) parts(3,4) by linarith+
    then show ?thesis using 2 assms(2) parts(2) by simp
  next
    case 3
    then have "0 < height r" "h = height r + 1" using avl_height_nonneg [OF assms(2)] parts(3) by linarith+
    then have "r \<noteq> nil" "h = height r + 1" by auto
    moreover obtain t where "aRightIsHigh (Node tleft r d k h) = Some t" "avl t" "t \<noteq> nil"
      "visitInOrder t = visitInOrder tleft @ (k, d) # visitInOrder r" "height t = height r \<or> height t = height r + 1"
      using aRightIsHigh_avl [OF assms(2) parts(2) 3(2), of d k h] by blast
    ultimately show ?thesis using 3 parts(4) by fastforce
  qed
qed

lemma aRebalanceAfterRightDeletion_avl:
  assumes "avl (Node l r d0 k0 h)" and "avl tright" and "height tright = height r \<or> height tright + 1 = height r"
  shows "\<exists>t. aRebalanceAfterRightDeletion (height r) tright (Node l r d k h) = Some t \<and> avl t \<and> t \<noteq> nil \<and>
    (height t = h \<or> height t + 1 = h) \<and> visitInOrder t = visitInOrder l @ (k, d) # visitInOrder tright"
proof -
  have parts: "avl l" "avl r" "h = 1 + max (height l) (height r)" "\<bar>height l - height r\<bar> \<le> 1"
    using assms(1) by auto
  consider "height r = height tright \<or> height r = height l"
    | "height r \<noteq> height tright" "height r > height l"
    | "height tright + 1 = height r" "height l = height tright + 2"
    using assms(3) parts(4) by linarith
  then show ?thesis
  proof cases
    case 1
    then have "h = 1 + max (height l) (height tright)" "\<bar>height l - height tright\<bar> \<le> 1"
      using assms(3) parts(3,4) by linarith+
    then show ?thesis using 1 assms(2) parts(1) by simp
  next
    case 2
    then have "h - 1 = 1 + max (height l) (height tright)" "\<bar>height l - height tright\<bar> \<le> 1"
      using assms(3) parts(3,4) by linarith+
    then show ?thesis using 2 assms(2) parts(1) by simp
  next
    case 3
    then have "0 < height l" "h = height l + 1" using avl_height_nonneg [OF assms(2)] parts(3) by linarith+
    then have "l \<noteq> nil" "h = height l + 1" by auto
    moreover obtain t where "aLeftIsHigh (Node l tright d k h) = Some t" "avl t" "t \<noteq> nil"
      "visitInOrder t = visitInOrder l @ (k, d) # visitInOrder tright" "height t = height l \<or> height t = height l + 1"
      using aLeftIsHigh_avl [OF parts(1) assms(2) 3(2), of d k h] by blast
    ultimately show ?thesis using 3 parts(4) by fastforce
  qed
qed

lemma aDeleteMin_avl:
  "avl t \<Longrightarrow> t \<noteq> nil \<Longrightarrow>
    \<exists>t'. aDeleteMin t = Some (min_node t, t') \<and> avl t' \<and> (height t' = height t \<or> height t' + 1 = height t) \<and>
      min_node t \<noteq> nil \<and> visitInOrder t = (key (min_node t), data (min_node t)) # visitInOrder t'"
proof (induction t rule: aDeleteMin.induct)
  case (2 l r d k h)
  show ?case
  proof (cases "l = nil")
    case True
    then show ?thesis using 2(2) avl_height_nonneg [of r] by (auto simp: max_def)
  next
    case False
    then obtain tleft where tl: "aDeleteMin l = Some (min_node l, tleft)" "avl tleft"
      "height tleft = height l \<or> height tleft + 1 = height l" "min_node l \<noteq> nil"
      "visitInOrder l = (key (min_node l), data (min_node l)) # visitInOrder tleft"
      using 2 by auto
    have "tleft \<noteq> l" using tl(5) by (metis not_Cons_self2)
    moreover obtain t' where "aRebalanceAfterLeftDeletion (height l) tleft (Node l r d k h) = Some t'" "avl t'"
      "height t' = h \<or> height t' + 1 = h" "visitInOrder t' = visitInOrder tleft @ (k, d) # visitInOrder r"
      using aRebalanceAfterLeftDeletion_avl [OF 2(2) tl(2,3), of d k] by auto
    ultimately show ?thesis using tl False by auto
  qed
qed simp

lemma aDeleteMax_avl:
  "avl t \<Longrightarrow> t \<noteq> nil \<Longrightarrow>
    \<exists>t'. aDeleteMax t = Some (max_node t, t') \<and> avl t' \<and> (height t' = height t \<or> height t' + 1 = height t) \<and>
      max_node t \<noteq> nil \<and> visitInOrder t = visitInOrder t' @ [(key (max_node t), data (max_node t))]"
proof (induction t rule: aDeleteMax.induct)
  case (2 l r d k h)
  show ?case
  proof (cases "r = nil")
    case True
    then show ?thesis using 2(2) avl_height_nonneg [of l] by (auto simp: max_def)
  next
    case False
    then obtain tright where tr: "aDeleteMax r = Some (max_node r, tright)" "avl tright"
      "height tright = height r \<or> height tright + 1 = height r" "max_node r \<noteq> nil"
      "visitInOrder r = visitInOrder tright @ [(key (max_node r), data (max_node r))]"
      using 2 by auto
    have "tright \<noteq> r" using tr(5) by (metis append_self_conv not_Cons_self2)
    moreover obtain t' where "aRebalanceAfterRightDeletion (height r) tright (Node l r d k h) = Some t'" "avl t'"
      "height t' = h \<or> height t' + 1 = h" "visitInOrder t' = visitInOrder l @ (k, d) # visitInOrder tright"
      using aRebalanceAfterRightDeletion_avl [OF 2(2) tr(2,3), of d k] by auto
    ultimately show ?thesis using tr False by auto
  qed
qed simp

lemma aDelete_avl:
  "avl t \<Longrightarrow> bst t \<Longrightarrow>
    \<exists>t'. aDelete x t = Some (find x t, t') \<and> avl t' \<and> (height t' = height t \<or> height t' + 1 = height t) \<and>
      visitInOrder t' = del_kv x (visitInOrder t)"
proof (induction x t rule: aDelete.induct)
  case (2 x l r d k h)
  have parts: "bst l" "bst r" "\<forall>y \<in> keys l. y < k" "\<forall>y \<in> keys r. k < y" "avl l" "avl r"
    "h = 1 + max (height l) (height r)" "\<bar>height l - height r\<bar> \<le> 1"
    using "2.prems" by (auto simp: sorted_wrt_append)
  show ?case
  proof (cases x k rule: linorder_cases)
    case less
    have "x \<notin> keys r" using less parts by force
    note id = del_kv_id [OF this]
    obtain tleft where tl: "aDelete x l = Some (find x l, tleft)" "avl tleft"
      "height tleft = height l \<or> height tleft + 1 = height l" "visitInOrder tleft = del_kv x (visitInOrder l)"
      using 2(1) less parts by auto
    show ?thesis
    proof (cases "tleft = l")
      case True
      then show ?thesis using tl less "2.prems" id by auto
    next
      case False
      moreover obtain t' where "aRebalanceAfterLeftDeletion (height l) tleft (Node l r d k h) = Some t'" "avl t'"
        "height t' = h \<or> height t' + 1 = h" "visitInOrder t' = visitInOrder tleft @ (k, d) # visitInOrder r"
        using aRebalanceAfterLeftDeletion_avl [OF "2.prems"(1) tl(2,3), of d k] by blast
      ultimately show ?thesis using tl(1,4) less id by simp
    qed
  next
    case greater
    have "x \<notin> keys l" using greater parts by force
    note id = del_kv_id [OF this]
    obtain tright where tr: "aDelete x r = Some (find x r, tright)" "avl tright"
      "height tright = height r \<or> height tright + 1 = height r" "visitInOrder tright = del_kv x (visitInOrder r)"
      using 2(2) greater parts by auto
    show ?thesis
    proof (cases "tright = r")
      case True
      then show ?thesis using tr greater "2.prems" id by auto
    next
      case False
      moreover obtain t' where "aRebalanceAfterRightDeletion (height r) tright (Node l r d k h) = Some t'" "avl t'"
        "height t' = h \<or> height t' + 1 = h" "visitInOrder t' = visitInOrder l @ (k, d) # visitInOrder tright"
        using aRebalanceAfterRightDeletion_avl [OF "2.prems"(1) tr(2,3), of d k] by blast
      ultimately show ?thesis using tr(1,4) greater id by simp
    qed
  next
    case equal
    have "x \<notin> keys l" "x \<notin> keys r" using equal parts by force+
    note id = del_kv_id [OF this(1)] del_kv_id [OF this(2)]
    note nonneg = avl_height_nonneg [OF parts(5)] avl_height_nonneg [OF parts(6)]
    consider "h = 1" | "h \<noteq> 1" "height l > height r" | "h \<noteq> 1" "\<not> height l > height r" by blast
    then show ?thesis
    proof cases
      case 1
      then have "l = nil" "r = nil"
        using parts(7) nonneg avl_height [OF parts(5)] avl_height [OF parts(6)] by (auto simp: max_def split: if_splits)
      then show ?thesis using 1 equal by (simp add: LEAF_HEIGHT_def)
    next
      case 2
      then have "l \<noteq> nil" using nonneg by auto
      from aDeleteMax_avl [OF parts(5) this] obtain tleft where
        tl: "aDeleteMax l = Some (max_node l, tleft)" "avl tleft"
          "height tleft = height l \<or> height tleft + 1 = height l" "max_node l \<noteq> nil"
          "visitInOrder l = visitInOrder tleft @ [(key (max_node l), data (max_node l))]" by blast
      from aRebalanceAfterLeftDeletion_avl [OF "2.prems"(1) tl(2,3), of "data (max_node l)" "key (max_node l)"]
      obtain t' where t': "aRebalanceAfterLeftDeletion (height l) tleft
          (Node l r (data (max_node l)) (key (max_node l)) h) = Some t'" "avl t'"
          "height t' = h \<or> height t' + 1 = h"
          "visitInOrder t' = visitInOrder tleft @ (key (max_node l), data (max_node l)) # visitInOrder r" by blast
      have "aDelete x (Node l r d k h) = Some (Node l r d k h, t')"
        using tl(1) t'(1) 2 equal nonnil [OF tl(4)] by (auto simp: LEAF_HEIGHT_def)
      moreover have "visitInOrder t' = visitInOrder l @ visitInOrder r" using t'(4) tl(5) by simp
      ultimately show ?thesis using t'(2,3) equal id by simp
    next
      case 3
      then have "r \<noteq> nil" using nonneg parts(7) by auto
      from aDeleteMin_avl [OF parts(6) this] obtain tright where
        tr: "aDeleteMin r = Some (min_node r, tright)" "avl tright"
          "height tright = height r \<or> height tright + 1 = height r" "min_node r \<noteq> nil"
          "visitInOrder r = (key (min_node r), data (min_node r)) # visitInOrder tright" by blast
      from aRebalanceAfterRightDeletion_avl [OF "2.prems"(1) tr(2,3), of "data (min_node r)" "key (min_node r)"]
      obtain t' where t': "aRebalanceAfterRightDeletion (height r) tright
          (Node l r (data (min_node r)) (key (min_node r)) h) = Some t'" "avl t'"
          "height t' = h \<or> height t' + 1 = h"
          "visitInOrder t' = visitInOrder l @ (key (min_node r), data (min_node r)) # visitInOrder tright" by blast
      have "aDelete x (Node l r d k h) = Some (Node l r d k h, t')"
        using tr(1) t'(1) 3 equal nonnil [OF tr(4)] by (auto simp: LEAF_HEIGHT_def)
      moreover have "visitInOrder t' = visitInOrder l @ visitInOrder r" using t'(4) tr(5) by simp
      ultimately show ?thesis using t'(2,3) equal id by simp
    qed
  qed
qed simp

section \<open>Heights are small\<close>

text \<open>A tree of height \<open>h\<close> has at least \<open>2 ^ (h / 2) - 1\<close> nodes.\<close>

lemma avl_size: "avl t \<Longrightarrow> 2 ^ (nat (height t) div 2) \<le> length (visitInOrder t) + 1"
proof (induction t)
  case (Node l r d k h)
  note nonneg = avl_height_nonneg [of l] avl_height_nonneg [of r]
  have less: "h - 2 \<le> height l" "h - 2 \<le> height r" "h = 1 + max (height l) (height r)"
    using Node.prems by (auto simp: max_def split: if_splits)
  show ?case
  proof (cases "nat h div 2 = 0")
    case False
    then obtain m where m: "nat h div 2 = Suc m" by (cases "nat h div 2") auto
    have "m \<le> nat (height l) div 2" "m \<le> nat (height r) div 2"
      using less m nonneg Node.prems by auto
    then have "(2::nat) ^ m \<le> 2 ^ (nat (height l) div 2)" "(2::nat) ^ m \<le> 2 ^ (nat (height r) div 2)"
      by simp_all
    moreover have "2 ^ (nat (height l) div 2) \<le> length (visitInOrder l) + 1"
      "2 ^ (nat (height r) div 2) \<le> length (visitInOrder r) + 1" using Node by auto
    ultimately have "(2::nat) ^ Suc m \<le> length (visitInOrder l) + length (visitInOrder r) + 2"
      unfolding power_Suc by linarith
    then show ?thesis by (simp add: m [simplified] del: power_Suc)
  qed simp
qed simp

lemma sorted_kv_length:
  assumes "sorted_kv ps" and "\<forall>x \<in> fst ` set ps. a \<le> x \<and> x < b"
  shows "int (length ps) \<le> max 0 (b - a)"
proof -
  have "distinct (map fst ps)" using assms(1) by (simp add: strict_sorted_iff)
  then have "length ps = card (fst ` set ps)" by (metis distinct_card length_map list.set_map)
  also have "\<dots> \<le> card {a..<b}" by (rule card_mono) (use assms(2) in auto)
  finally show ?thesis by simp
qed

lemma avl_height_bound:
  assumes "avl t" and "bst t" and "\<forall>x \<in> keys t. - (2 ^ 31) \<le> x \<and> x < 2 ^ 31"
  shows "height t \<le> 65"
proof (rule ccontr)
  assume "\<not> height t \<le> 65"
  then have "33 \<le> nat (height t) div 2" by auto
  then have "(2::nat) ^ 33 \<le> 2 ^ (nat (height t) div 2)" by (intro power_increasing) auto
  also have "\<dots> \<le> length (visitInOrder t) + 1" by (rule avl_size [OF assms(1)])
  finally have "(2::int) ^ 33 \<le> int (length (visitInOrder t)) + 1" by simp
  moreover have "int (length (visitInOrder t)) \<le> 2 ^ 32"
    using sorted_kv_length [OF assms(2,3)] by simp
  ultimately show False by simp
qed

end
