(* ===== verification/Abt_Map.thy ===== *)
theory Abt_Map
  imports Abt_Avl
begin

text \<open>
  The exported operations of \<^verbatim>\<open>abt.T\<close> as operations on finite maps: the invariant of a tree, the contract
  that the set operations rely on (the locale \<open>ordered_map\<close>, interpreted on the operations of \<open>T\<close>),
  iteration, the set operations and comparison.
\<close>

section \<open>The contract of an ordered map\<close>

text \<open>The value at a key, with \<^const>\<open>None\<close> for a missing key and for a nil value.\<close>

definition value_at :: "(int \<Rightarrow> 'v option option) \<Rightarrow> int \<Rightarrow> 'v option" where
  "value_at m x = (case m x of None \<Rightarrow> None | Some d \<Rightarrow> d)"

locale ordered_map =
  fixes inv :: "'t \<Rightarrow> bool"
    and entries :: "'t \<Rightarrow> (int \<times> 'v option) list"
    and valid_key :: "int \<Rightarrow> bool"
    and lookup :: "int \<Rightarrow> 't \<Rightarrow> 'v option"
    and put :: "int \<Rightarrow> 'v option \<Rightarrow> 't \<Rightarrow> ('t \<times> 'v option) go"
    and del :: "int \<Rightarrow> 't \<Rightarrow> ('t \<times> 'v option) go"
  assumes entries_sorted: "inv t \<Longrightarrow> sorted_kv (entries t)"
    and entries_valid: "inv t \<Longrightarrow> x \<in> fst ` set (entries t) \<Longrightarrow> valid_key x"
    and lookup_entries: "inv t \<Longrightarrow> lookup x t = value_at (map_of (entries t)) x"
    and put_entries: "inv t \<Longrightarrow> valid_key x \<Longrightarrow>
      \<exists>t'. put x v t = Inr (t', lookup x t) \<and> inv t' \<and> entries t' = ins_kv x v (entries t)"
    and del_entries: "inv t \<Longrightarrow>
      \<exists>t'. del x t = Inr (t', lookup x t) \<and> inv t' \<and> entries t' = del_kv x (entries t)"
begin

definition map_abs :: "'t \<Rightarrow> int \<Rightarrow> 'v option option" where
  "map_abs t = map_of (entries t)"

lemma put_map:
  "inv t \<Longrightarrow> valid_key x \<Longrightarrow>
    \<exists>t'. put x v t = Inr (t', lookup x t) \<and> inv t' \<and> map_abs t' = (map_abs t)(x \<mapsto> v)"
  using put_entries [of t x v] by (auto simp: map_abs_def ins_kv_map)

lemma del_map:
  "inv t \<Longrightarrow> \<exists>t'. del x t = Inr (t', lookup x t) \<and> inv t' \<and> map_abs t' = (map_abs t)(x := None)"
  using del_entries [of t x] by (auto simp: map_abs_def del_kv_map)

lemma lookup_map: "inv t \<Longrightarrow> lookup x t = value_at (map_abs t) x"
  by (simp add: map_abs_def lookup_entries)

text \<open>A fold that changes the map at the key of each pair only.\<close>

lemma fold_pointwise:
  assumes step: "\<And>k d t. (k, d) \<in> set ps \<Longrightarrow> inv t \<Longrightarrow> \<exists>t'. body (k, d) t = Inr t' \<and> inv t' \<and>
      map_abs t' = (map_abs t)(k := g k d (map_abs t k))"
    and "distinct (map fst ps)" and "inv t"
  shows "\<exists>t'. go_fold body ps t = Inr t' \<and> inv t' \<and>
    map_abs t' = (\<lambda>k. case map_of ps k of None \<Rightarrow> map_abs t k | Some d \<Rightarrow> g k d (map_abs t k))"
  using assms
proof (induction ps arbitrary: t)
  case Nil
  then show ?case by simp
next
  case (Cons p ps)
  obtain k d where p: "p = (k, d)" by fastforce
  have "(k, d) \<in> set (p # ps)" using p by simp
  from Cons.prems(1) [OF this Cons.prems(3)] obtain t1 where
    t1: "body (k, d) t = Inr t1" "inv t1" "map_abs t1 = (map_abs t)(k := g k d (map_abs t k))" by blast
  obtain t2 where t2: "go_fold body ps t1 = Inr t2" "inv t2"
    "map_abs t2 = (\<lambda>k. case map_of ps k of None \<Rightarrow> map_abs t1 k | Some d \<Rightarrow> g k d (map_abs t1 k))"
    using Cons.IH [OF _ _ t1(2)] Cons.prems p by auto
  have "map_of ps k = None" using Cons.prems(2) p by (simp add: map_of_eq_None_iff)
  then show ?case
    using t1 t2 p by (auto simp: fun_eq_iff split: option.splits)
qed

end

section \<open>The invariant of a tree and the interpretation\<close>

definition key32 :: "int \<Rightarrow> bool" where
  "key32 x \<longleftrightarrow> NOT_KEY32 < x \<and> x < 0x80000000"

definition T_inv :: "'v T \<Rightarrow> bool" where
  "T_inv t \<longleftrightarrow> avl (root t) \<and> bst (root t) \<and> (\<forall>x \<in> keys (root t). key32 x) \<and>
    sz t = int (length (visitInOrder (root t)))"

abbreviation T_entries :: "'v T \<Rightarrow> (int \<times> 'v option) list" where
  "T_entries t \<equiv> visitInOrder (root t)"

lemma nil_keys: "visitInOrder t = [] \<longleftrightarrow> t = nil"
  by (cases t) auto

lemma Find_entries: "T_inv t \<Longrightarrow> Find x t = value_at (map_of (T_entries t)) x"
  by (simp add: Find_def value_at_def find_data T_inv_def)

lemma find_old:
  assumes "bst t"
  shows "(if find x t \<noteq> nil then data (find x t) else None) = value_at (map_of (visitInOrder t)) x"
  using find_data [OF assms, of x] by (cases "find x t") (auto simp: value_at_def)

lemma Insert_entries:
  assumes "T_inv t" and "key32 x"
  shows "\<exists>t'. Insert x v t = Inr (t', Find x t) \<and> T_inv t' \<and> T_entries t' = ins_kv x v (T_entries t)"
proof (cases "root t = nil")
  case True
  then show ?thesis
    using assms by (auto simp: Insert_def key32_def T_inv_def Find_def makeNode_def LEAF_HEIGHT_def)
next
  case False
  from aInsert_avl [OF _ _ False, of x v] assms(1) obtain s where
    s: "aInsert x v (root t) = Some (s, find x (root t))" "avl s" "s \<noteq> nil"
      "visitInOrder s = ins_kv x v (T_entries t)"
    by (auto simp: T_inv_def)
  have b: "bst (root t)" using assms(1) by (simp add: T_inv_def)
  define t' where "t' = t\<lparr>root := s, sz := (if find x (root t) = nil then sz t + 1 else sz t)\<rparr>"
  have "T_inv t'"
    using assms s b find_spec [OF b, of x]
    by (auto simp: T_inv_def t'_def ins_kv_sorted ins_kv_keys ins_kv_length)
  moreover have "Insert x v t = Inr (t', Find x t)"
    using s(1) False assms(2) find_old [OF b, of x] find_data [OF b, of x]
    by (auto simp: Insert_def key32_def t'_def Find_def value_at_def split: if_splits)
  ultimately show ?thesis using s by (auto simp: t'_def)
qed

lemma Delete_entries:
  assumes "T_inv t"
  shows "\<exists>t'. Delete x t = Inr (t', Find x t) \<and> T_inv t' \<and> T_entries t' = del_kv x (T_entries t)"
proof (cases "root t = nil")
  case True
  then show ?thesis using assms by (auto simp: Delete_def Find_def)
next
  case False
  have b: "bst (root t)" "avl (root t)" using assms(1) by (simp_all add: T_inv_def)
  from aDelete_avl [OF b(2,1), of x] obtain s where
    s: "aDelete x (root t) = Some (find x (root t), s)" "avl s" "visitInOrder s = del_kv x (T_entries t)"
    by auto
  note fs = find_spec [OF b(1), of x]
  show ?thesis
  proof (cases "find x (root t) = nil")
    case True
    then show ?thesis
      using assms s False fs by (auto simp: Delete_def Find_def del_kv_id)
  next
    case found: False
    define t' where "t' = t\<lparr>root := s, sz := sz t - 1\<rparr>"
    have "T_inv t'"
      using assms s b fs found del_kv_length [OF b(1), of x]
      by (auto simp: T_inv_def t'_def del_kv_sorted del_kv_keys)
    moreover have "Delete x t = Inr (t', Find x t)"
      using s(1) False found find_old [OF b(1), of x] find_data [OF b(1), of x]
      by (auto simp: Delete_def t'_def Find_def value_at_def split: if_splits)
    ultimately show ?thesis using s by (auto simp: t'_def)
  qed
qed

interpretation T: ordered_map T_inv T_entries key32 Find Insert Delete
proof (standard, goal_cases)
  case (1 t)
  then show ?case by (simp add: T_inv_def)
next
  case (2 t x)
  then show ?case by (auto simp: T_inv_def)
next
  case (3 t x)
  then show ?case by (rule Find_entries)
next
  case (4 t x v)
  then show ?case by (rule Insert_entries)
next
  case (5 t x)
  then show ?case by (rule Delete_entries)
qed

section \<open>Iteration\<close>

text \<open>What an iterator still has to return.\<close>

fun above :: "'v node32 \<Rightarrow> 'v node32 list \<Rightarrow> (int \<times> 'v option) list" where
  "above y [] = []"
| "above y (p # ps) =
    (if y = right p then above p ps else (key p, data p) # visitInOrder (right p) @ above p ps)"

fun remaining :: "'v node32 list \<Rightarrow> (int \<times> 'v option) list" where
  "remaining [] = []"
| "remaining (x # ps) = (key x, data x) # visitInOrder (right x) @ above x ps"

definition valid_stack :: "'v node32 list \<Rightarrow> bool" where
  "valid_stack it \<longleftrightarrow> (\<forall>n \<in> set it. n \<noteq> nil \<and> bst n)"

lemma bst_children: "bst (Node l r d k h) \<Longrightarrow> bst l \<and> bst r \<and> (l = r \<longrightarrow> l = nil)"
proof -
  assume b: "bst (Node l r d k h)"
  have "l = nil" if "l = r"
  proof (rule ccontr)
    assume "l \<noteq> nil"
    then have "visitInOrder l \<noteq> []" by (simp add: nil_keys)
    then obtain p where "p \<in> set (visitInOrder l)" using hd_in_set by blast
    then have "fst p < k" "k < fst p" using b that by (auto simp: sorted_wrt_append)
    then show False by simp
  qed
  with b show ?thesis by (auto simp: sorted_wrt_append)
qed

lemma leftmost_remaining:
  "bst t \<Longrightarrow> t \<noteq> nil \<Longrightarrow> valid_stack ps \<Longrightarrow>
    remaining (leftmost ps t) = visitInOrder t @ above t ps \<and> valid_stack (leftmost ps t)"
proof (induction ps t rule: leftmost.induct)
  case (2 ps l r d k h)
  note ch = bst_children [OF 2(2)]
  have vs: "valid_stack (Node l r d k h # ps)" using 2 by (simp add: valid_stack_def)
  show ?case
  proof (cases "l = nil")
    case True
    then show ?thesis using vs by simp
  next
    case False
    then have "l \<noteq> r" using ch by auto
    then show ?thesis using 2(1) [OF _ False vs] ch by simp
  qed
qed simp

lemma iterator_remaining: "bst t \<Longrightarrow> remaining (iterator t) = visitInOrder t \<and> valid_stack (iterator t)"
  using leftmost_remaining [of t "[]"] by (auto simp: iterator_def valid_stack_def)

lemma discard_remaining:
  "valid_stack ps \<Longrightarrow> remaining (discard y ps) = above y ps \<and> valid_stack (discard y ps)"
  by (induction y ps rule: discard.induct) (auto simp: valid_stack_def)

lemma next_remaining:
  assumes "valid_stack (x # ps)"
  shows "\<exists>it. next_node (x # ps) = (x, it) \<and> x \<noteq> nil \<and> valid_stack it \<and>
    remaining (x # ps) = (key x, data x) # remaining it"
proof (cases "right x = nil")
  case True
  have "valid_stack ps" and "x \<noteq> nil" using assms by (simp_all add: valid_stack_def)
  then show ?thesis
    using discard_remaining [of ps x] True by (intro exI [of _ "discard x ps"]) simp
next
  case False
  have "x \<noteq> nil" using assms by (simp add: valid_stack_def)
  from nonnil [OF this] obtain l r d k h where x: "x = Node l r d k h" by blast
  then have "bst r" using assms bst_children by (auto simp: valid_stack_def)
  with leftmost_remaining [of r "x # ps"] assms False x show ?thesis by auto
qed

lemma Done_remaining: "Done it \<longleftrightarrow> remaining it = []"
  by (cases it) (auto simp: Done_def)

lemma for_iter_fold:
  "valid_stack it \<Longrightarrow> for_iter body it s = Some (go_fold body (remaining it) s)"
proof (induction "remaining it" arbitrary: it s)
  case Nil
  then show ?case by (subst for_iter.simps) (simp add: Done_remaining)
next
  case (Cons p ps)
  then obtain x qs where it: "it = x # qs" by (cases it) auto
  from next_remaining [OF Cons.prems [unfolded it]] obtain it' where
    n: "next_node it = (x, it')" "x \<noteq> nil" "valid_stack it'" "remaining it = (key x, data x) # remaining it'"
    using it by auto
  have "Next it = ((key x, data x), it')" using n(1,2) by (cases x) (simp_all add: Next_def)
  moreover have "\<not> Done it" using it by (simp add: Done_def)
  moreover have "for_iter body it' s' = Some (go_fold body (remaining it') s')" for s'
    using Cons n by auto
  ultimately show ?case
    by (subst for_iter.simps) (simp add: n(4) go_bind_def split: sum.split)
qed

lemma for_iter_entries:
  "T_inv t \<Longrightarrow> for_iter body (iterator (root t)) s = Some (go_fold body (T_entries t) s)"
  using iterator_remaining [of "root t"] by (simp add: T_inv_def for_iter_fold)

end
