(* ===== verification/Abt_Spec.thy ===== *)
theory Abt_Spec
  imports Abt_Map
begin

text \<open>
  The set operations, the comparison and the bounds of \<^verbatim>\<open>abt.T\<close>, and the properties of the package.
\<close>

section \<open>The set operations\<close>

definition combine_at ::
    "('v option \<Rightarrow> 'v option \<Rightarrow> 'v option) option \<Rightarrow> 'v option \<Rightarrow> 'v option \<Rightarrow> 'v option option \<Rightarrow> 'v option option" where
  "combine_at f d e m =
    (case f of
       None \<Rightarrow> m
     | Some g \<Rightarrow> if g d e = d then m else if g d e = None then None else Some (g d e))"

lemma Delete_step:
  "T_inv v \<Longrightarrow> \<exists>v'. go_bind (Delete k v) (\<lambda>(v, _). Inr v) = Inr v' \<and> T_inv v' \<and>
    T.map_abs v' = (T.map_abs v)(k := None)"
  using T.del_map [of v k] by auto

lemma Insert_step:
  "T_inv v \<Longrightarrow> key32 k \<Longrightarrow> \<exists>v'. go_bind (Insert k c v) (\<lambda>(v, _). Inr v) = Inr v' \<and> T_inv v' \<and>
    T.map_abs v' = (T.map_abs v)(k := Some c)"
  using T.put_map [of v k c] by auto

lemma combine_step:
  assumes "T_inv v" and "key32 k"
  shows "\<exists>v'. combine f k d e v = Inr v' \<and> T_inv v' \<and>
    T.map_abs v' = (T.map_abs v)(k := combine_at f d e (T.map_abs v k))"
  using assms Delete_step [of v k] Insert_step [of v k]
  by (auto simp: combine_def combine_at_def Let_def split: option.split)

lemma entries_distinct: "T_inv t \<Longrightarrow> distinct (map fst (T_entries t))"
  by (simp add: T_inv_def strict_sorted_iff)

lemma entry_key: "T_inv t \<Longrightarrow> (k, d) \<in> set (T_entries t) \<Longrightarrow> key32 k"
  by (force simp: T_inv_def)

lemma Find_map: "T_inv t \<Longrightarrow> Find x t = value_at (T.map_abs t) x"
  by (rule T.lookup_map)

text \<open>Every loop over the entries of a tree that changes the map at the current key.\<close>

lemma for_iter_pointwise:
  assumes "T_inv u" and "T_inv v"
    and "\<And>k d v. key32 k \<Longrightarrow> T_inv v \<Longrightarrow> \<exists>v'. body (k, d) v = Inr v' \<and> T_inv v' \<and>
      T.map_abs v' = (T.map_abs v)(k := g k d (T.map_abs v k))"
  shows "\<exists>v'. for_iter body (iterator (root u)) v = Some (Inr v') \<and> T_inv v' \<and>
    T.map_abs v' = (\<lambda>k. case T.map_abs u k of None \<Rightarrow> T.map_abs v k | Some d \<Rightarrow> g k d (T.map_abs v k))"
proof -
  have "\<exists>v'. go_fold body (T_entries u) v = Inr v' \<and> T_inv v' \<and>
      T.map_abs v' = (\<lambda>k. case map_of (T_entries u) k of None \<Rightarrow> T.map_abs v k | Some d \<Rightarrow> g k d (T.map_abs v k))"
    by (rule T.fold_pointwise [OF _ entries_distinct [OF assms(1)] assms(2)])
      (use assms(1,3) entry_key in blast)
  then show ?thesis
    unfolding for_iter_entries [OF assms(1)] T.map_abs_def by auto
qed


lemma Union_right:
  assumes "T_inv t" and "T_inv u"
  shows "\<exists>v. for_iter (\<lambda>(k, d) v. let e = Find k u
      in if e = None then go_bind (Insert k d v) (\<lambda>(v, _). Inr v) else combine f k d e v)
      (iterator (root t)) u = Some (Inr v) \<and> T_inv v \<and>
    T.map_abs v = (\<lambda>k. case T.map_abs t k of None \<Rightarrow> T.map_abs u k
      | Some d \<Rightarrow> if Find k u = None then Some d else combine_at f d (Find k u) (T.map_abs u k))"
  by (rule for_iter_pointwise [OF assms(1,2)])
    (use Insert_step combine_step in \<open>auto simp: Let_def\<close>)




text \<open>No key has nil data: \<open>Find\<close> and membership agree.\<close>

definition no_nil :: "'v T \<Rightarrow> bool" where
  "no_nil t \<longleftrightarrow> list_all (\<lambda>(k, d). d \<noteq> None) (VisitInOrder t)"

lemma VisitInOrder_entries: "VisitInOrder t = T_entries t"
  by (simp add: VisitInOrder_def)

lemma no_nil_map:
  assumes "no_nil t" and "T_inv t"
  shows "T.map_abs t k = (case Find k t of None \<Rightarrow> None | Some d \<Rightarrow> Some (Some d))"
proof (cases "T.map_abs t k")
  case None
  then show ?thesis using assms(2) by (simp add: Find_map value_at_def)
next
  case (Some d)
  then have "(k, d) \<in> set (T_entries t)" by (auto simp: T.map_abs_def dest: map_of_SomeD)
  then have "d \<noteq> None" using assms(1) by (auto simp: no_nil_def VisitInOrder_entries list_all_iff)
  then show ?thesis using assms(2) Some by (auto simp: Find_map value_at_def)
qed


section \<open>Comparison\<close>

lemma equiv_loop_spec:
  assumes same: "\<And>a b. same a b \<Longrightarrow> a = b" and refl: "\<And>d. eqv d d"
  shows "valid_stack it \<Longrightarrow> valid_stack iu \<Longrightarrow> equiv_loop same eqv it iu =
    Some (list_all2 (\<lambda>(k, d) (k', d'). k = k' \<and> eqv d d') (remaining it) (remaining iu))"
proof (induction "remaining it" arbitrary: it iu)
  case Nil
  then show ?case by (subst equiv_loop.simps) (auto simp: Done_remaining)
next
  case (Cons p ps)
  then obtain x qs where it: "it = x # qs" by (cases it) auto
  show ?case
  proof (cases iu)
    case Nil
    then show ?thesis using Cons by (subst equiv_loop.simps) (auto simp: Done_remaining)
  next
    case (Cons y rs)
    note iu = this
    obtain it' where n: "next_node it = (x, it')" "valid_stack it'" "remaining it = (key x, data x) # remaining it'"
      using next_remaining [OF Cons.prems(1) [unfolded it]] it by auto
    obtain iu' where m: "next_node iu = (y, iu')" "valid_stack iu'" "remaining iu = (key y, data y) # remaining iu'"
      using next_remaining [OF Cons.prems(2) [unfolded iu]] iu by auto
    have IH: "equiv_loop same eqv it' iu' =
        Some (list_all2 (\<lambda>(k, d) (k', d'). k = k' \<and> eqv d d') (remaining it') (remaining iu'))"
      using Cons.hyps n m by auto
    have "\<not> Done it" "\<not> Done iu" using it iu by (simp_all add: Done_def)
    then show ?thesis
      using n m IH same [of x y] refl by (subst equiv_loop.simps) auto
  qed
qed

lemma equiv_spec:
  assumes "\<And>a b. same a b \<Longrightarrow> a = b" and "\<And>d. eqv d d" and "bst t" and "bst u"
  shows "equiv same t u eqv =
    Some (list_all2 (\<lambda>(k, d) (k', d'). k = k' \<and> eqv d d') (visitInOrder t) (visitInOrder u))"
proof (cases "same t u")
  case True
  then have "t = u" by (rule assms(1))
  then show ?thesis using True assms(2) by (simp add: equiv_def list_all2_refl split_beta)
next
  case False
  then show ?thesis
    using equiv_loop_spec [of same eqv "iterator t" "iterator u", OF assms(1,2)]
      iterator_remaining [OF assms(3)] iterator_remaining [OF assms(4)]
    by (simp add: equiv_def)
qed

section \<open>Bounds\<close>

lemma min_node_entries:
  "t \<noteq> nil \<Longrightarrow> nilOrKeyAndData (min_node t) = hd (visitInOrder t)"
  by (induction t) (auto simp: nil_keys)

lemma max_node_entries:
  "t \<noteq> nil \<Longrightarrow> nilOrKeyAndData (max_node t) = last (visitInOrder t)"
  by (induction t) (auto simp: nil_keys)

definition last_or :: "'b \<Rightarrow> 'b list \<Rightarrow> 'b" where
  "last_or z ps = (if ps = [] then z else last ps)"

definition hd_or :: "'b \<Rightarrow> 'b list \<Rightarrow> 'b" where
  "hd_or z ps = (if ps = [] then z else hd ps)"

lemma last_or_simps [simp]:
  "last_or z [] = z" "last_or z (ps @ qs) = last_or (last_or z ps) qs" "last_or z (p # ps) = last_or p ps"
  by (auto simp: last_or_def)

lemma hd_or_simps [simp]:
  "hd_or z [] = z" "hd_or z (p # ps) = p" "hd_or z (ps @ qs) = hd_or (hd_or z qs) ps"
  by (auto simp: hd_or_def)

lemma filter_none: "(\<And>p. p \<in> set ps \<Longrightarrow> \<not> P p) \<Longrightarrow> filter P ps = []"
  by (simp add: filter_empty_conv)

lemma glb_loop_spec:
  "bst t \<Longrightarrow> nilOrKeyAndData (glb_loop x eq best t) =
    last_or (nilOrKeyAndData best) (filter (\<lambda>p. fst p < x \<or> eq \<and> fst p = x) (visitInOrder t))"
proof (induction x eq best t rule: glb_loop.induct)
  case (2 x eq best l r d k h)
  have parts: "bst l" "bst r" "\<forall>p \<in> set (visitInOrder l). fst p < k" "\<forall>p \<in> set (visitInOrder r). k < fst p"
    using "2.prems" by (auto simp: sorted_wrt_append)
  show ?case
  proof (cases "x \<le> k")
    case True
    have "filter (\<lambda>p. fst p < x \<or> eq \<and> fst p = x) (visitInOrder r) = []"
      by (rule filter_none) (use parts(4) True in force)
    then show ?thesis using 2(1) [OF True _ parts(1)] True by auto
  next
    case False
    then show ?thesis using 2(2) [OF _ parts(2)] by auto
  qed
qed simp

lemma lub_loop_spec:
  "bst t \<Longrightarrow> nilOrKeyAndData (lub_loop x eq best t) =
    hd_or (nilOrKeyAndData best) (filter (\<lambda>p. x < fst p \<or> eq \<and> fst p = x) (visitInOrder t))"
proof (induction x eq best t rule: lub_loop.induct)
  case (2 x eq best l r d k h)
  have parts: "bst l" "bst r" "\<forall>p \<in> set (visitInOrder l). fst p < k" "\<forall>p \<in> set (visitInOrder r). k < fst p"
    using "2.prems" by (auto simp: sorted_wrt_append)
  show ?case
  proof (cases "k \<le> x")
    case True
    have "filter (\<lambda>p. x < fst p \<or> eq \<and> fst p = x) (visitInOrder l) = []"
      by (rule filter_none) (use parts(3) True in force)
    then show ?thesis using 2(1) [OF True _ parts(2)] True by auto
  next
    case False
    then show ?thesis using 2(2) [OF _ parts(1)] by auto
  qed
qed simp

section \<open>The properties\<close>

text \<open>A sequence of updates, each with the data that it returns discarded.\<close>

datatype 'v update = OpInsert int "'v option" | OpDelete int | OpDeleteMin | OpDeleteMax

fun apply_update :: "'v update \<Rightarrow> 'v T \<Rightarrow> 'v T go" where
  "apply_update (OpInsert x v) t = go_bind (Insert x v t) (\<lambda>(t, _). Inr t)"
| "apply_update (OpDelete x) t = go_bind (Delete x t) (\<lambda>(t, _). Inr t)"
| "apply_update OpDeleteMin t = go_bind (DeleteMin t) (\<lambda>(t, _). Inr t)"
| "apply_update OpDeleteMax t = go_bind (DeleteMax t) (\<lambda>(t, _). Inr t)"

fun update_keys_ok :: "'v update \<Rightarrow> bool" where
  "update_keys_ok (OpInsert x v) = key32 x"
| "update_keys_ok _ = True"

text \<open>The same updates on the sorted sequence of the entries.\<close>

fun update_entries :: "'v update \<Rightarrow> (int \<times> 'v option) list \<Rightarrow> (int \<times> 'v option) list" where
  "update_entries (OpInsert x v) ps = ins_kv x v ps"
| "update_entries (OpDelete x) ps = del_kv x ps"
| "update_entries OpDeleteMin ps = tl ps"
| "update_entries OpDeleteMax ps = butlast ps"

lemma DeleteMin_entries:
  assumes "T_inv t"
  shows "\<exists>t' kd. DeleteMin t = Inr (t', kd) \<and> T_inv t' \<and> T_entries t' = tl (T_entries t) \<and>
    kd = hd_or (NOT_KEY32, None) (T_entries t)"
proof (cases "root t = nil")
  case False
  from aDeleteMin_avl [OF _ False] assms obtain s where
    s: "aDeleteMin (root t) = Some (min_node (root t), s)" "avl s" "min_node (root t) \<noteq> nil"
      "T_entries t = (key (min_node (root t)), data (min_node (root t))) # visitInOrder s"
    by (auto simp: T_inv_def)
  then show ?thesis using assms False by (simp add: DeleteMin_def T_inv_def)
qed (use assms in \<open>simp add: DeleteMin_def\<close>)

lemma DeleteMax_entries:
  assumes "T_inv t"
  shows "\<exists>t' kd. DeleteMax t = Inr (t', kd) \<and> T_inv t' \<and> T_entries t' = butlast (T_entries t) \<and>
    kd = last_or (NOT_KEY32, None) (T_entries t)"
proof (cases "root t = nil")
  case False
  from aDeleteMax_avl [OF _ False] assms obtain s where
    s: "aDeleteMax (root t) = Some (max_node (root t), s)" "avl s" "max_node (root t) \<noteq> nil"
      "T_entries t = visitInOrder s @ [(key (max_node (root t)), data (max_node (root t)))]"
    by (auto simp: T_inv_def)
  then show ?thesis using assms False by (simp add: DeleteMax_def T_inv_def sorted_wrt_append)
qed (use assms in \<open>simp add: DeleteMax_def\<close>)

lemma apply_update_entries:
  assumes "T_inv t" and "update_keys_ok op"
  shows "\<exists>t'. apply_update op t = Inr t' \<and> T_inv t' \<and> T_entries t' = update_entries op (T_entries t)"
proof (cases op)
  case (OpInsert x v)
  then show ?thesis using Insert_entries [OF assms(1), of x v] assms(2) by auto
next
  case (OpDelete x)
  then show ?thesis using Delete_entries [OF assms(1), of x] by auto
next
  case OpDeleteMin
  then show ?thesis using DeleteMin_entries [OF assms(1)] by auto
next
  case OpDeleteMax
  then show ?thesis using DeleteMax_entries [OF assms(1)] by auto
qed

lemma updates_entries:
  "T_inv t \<Longrightarrow> list_all update_keys_ok ops \<Longrightarrow>
    \<exists>t'. go_fold apply_update ops t = Inr t' \<and> T_inv t' \<and> T_entries t' = fold update_entries ops (T_entries t)"
proof (induction ops arbitrary: t)
  case (Cons op ops)
  then obtain t' where "apply_update op t = Inr t'" "T_inv t'" "T_entries t' = update_entries op (T_entries t)"
    using apply_update_entries [of t op] by auto
  with Cons.IH [of t'] Cons.prems show ?case by auto
qed simp

text \<open>C11. Every sequence of \<open>Insert\<close>, \<open>Delete\<close>, \<open>DeleteMin\<close> and \<open>DeleteMax\<close> from the empty tree, with
  keys that are 32-bit and not the sentinel, runs without a panic; the tree holds what the same
  updates leave in a sorted association list, its size is the number of entries, it is balanced, and
  its height is at most 65, so that no \<open>int8\<close> height overflows.\<close>

theorem updates_balanced:
  assumes "list_all update_keys_ok ops"
  shows "\<exists>t. go_fold apply_update ops \<lparr>root = nil, sz = 0\<rparr> = Inr t \<and>
    VisitInOrder t = fold update_entries ops [] \<and> Size t = int (length (VisitInOrder t)) \<and>
    sorted_kv (VisitInOrder t) \<and> avl (root t) \<and> height (root t) \<le> 65"
proof -
  have "T_inv \<lparr>root = nil, sz = 0\<rparr>" by (simp add: T_inv_def)
  from updates_entries [OF this assms] obtain t where
    t: "go_fold apply_update ops \<lparr>root = nil, sz = 0\<rparr> = Inr t" "T_inv t"
      "T_entries t = fold update_entries ops []" by auto
  have "\<forall>x \<in> keys (root t). - (2 ^ 31) \<le> x \<and> x < 2 ^ 31"
    using t(2) by (auto simp: T_inv_def key32_def NOT_KEY32_def)
  then have "height (root t) \<le> 65" using avl_height_bound [of "root t"] t(2) by (simp add: T_inv_def)
  then show ?thesis using t by (auto simp: VisitInOrder_entries Size_def T_inv_def)
qed

theorem updates_balanced_witness:
  "\<exists>t. go_fold apply_update [OpInsert 2 (Some True), OpInsert 1 (Some False), OpDelete 2, OpDeleteMin]
      \<lparr>root = nil, sz = 0\<rparr> = Inr t \<and>
    VisitInOrder t = fold update_entries [OpInsert 2 (Some True), OpInsert 1 (Some False), OpDelete 2, OpDeleteMin] [] \<and>
    Size t = int (length (VisitInOrder t)) \<and>
    sorted_kv (VisitInOrder t) \<and> avl (root t) \<and> height (root t) \<le> 65"
  by (rule updates_balanced) (simp add: key32_def NOT_KEY32_def)

text \<open>C12. \<open>Insert\<close> and \<open>Delete\<close> return the data that the key had, change the data at that key only, and
  keep the invariant; \<open>Insert\<close> of the sentinel key panics.\<close>

theorem Insert_Delete_Find:
  assumes "T_inv t" and "key32 x"
  shows "(\<exists>t'. Insert x v t = Inr (t', Find x t) \<and> T_inv t' \<and>
      (\<forall>y. Find y t' = (if y = x then v else Find y t))) \<and>
    (\<exists>t'. Delete x t = Inr (t', Find x t) \<and> T_inv t' \<and>
      (\<forall>y. Find y t' = (if y = x then None else Find y t))) \<and>
    Insert NOT_KEY32 v t = Inl (PanicMsg ''Cannot use sentinel value -0x80000000 as key'')"
proof (intro conjI)
  obtain t' where t': "Insert x v t = Inr (t', Find x t)" "T_inv t'" "T.map_abs t' = (T.map_abs t)(x \<mapsto> v)"
    using T.put_map [OF assms, of v] by blast
  then show "\<exists>t'. Insert x v t = Inr (t', Find x t) \<and> T_inv t' \<and> (\<forall>y. Find y t' = (if y = x then v else Find y t))"
    by (intro exI [of _ t']) (simp add: Find_map [OF t'(2)] Find_map [OF assms(1)] value_at_def)
  obtain s where s: "Delete x t = Inr (s, Find x t)" "T_inv s" "T.map_abs s = (T.map_abs t)(x := None)"
    using T.del_map [OF assms(1)] by blast
  then show "\<exists>t'. Delete x t = Inr (t', Find x t) \<and> T_inv t' \<and> (\<forall>y. Find y t' = (if y = x then None else Find y t))"
    by (intro exI [of _ s]) (simp add: Find_map [OF s(2)] Find_map [OF assms(1)] value_at_def)
qed (simp add: Insert_def)

theorem Insert_Delete_Find_witness:
  "let t = \<lparr>root = Node nil nil (Some True) 5 1, sz = 1\<rparr> in
    (\<exists>t'. Insert 5 (Some False) t = Inr (t', Find 5 t) \<and> T_inv t' \<and>
      (\<forall>y. Find y t' = (if y = 5 then Some False else Find y t))) \<and>
    (\<exists>t'. Delete 5 t = Inr (t', Find 5 t) \<and> T_inv t' \<and>
      (\<forall>y. Find y t' = (if y = 5 then None else Find y t))) \<and>
    Insert NOT_KEY32 (Some False) t = Inl (PanicMsg ''Cannot use sentinel value -0x80000000 as key'')"
  unfolding Let_def
  by (rule Insert_Delete_Find) (simp_all add: T_inv_def key32_def NOT_KEY32_def)











text \<open>C14. In the other order the common keys go wrong: when \<open>u\<close> is larger, \<open>Union\<close> starts from a copy
  of \<open>u\<close> but compares \<open>c := f(d, e)\<close> with \<open>t\<close>'s data \<open>d\<close>; an \<open>f\<close> that returns its first argument
  leaves \<open>u\<close>'s data in the result (and \<open>Intersection\<close> does the same when \<open>u\<close> is smaller).\<close>

theorem Union_keeps_wrong_data:
  assumes inv: "T_inv t" "T_inv u" and data: "no_nil t" "no_nil u"
    and "0 < Size t" and "Size t < Size u" and "Find k t \<noteq> None" and "Find k u \<noteq> None"
  shows "\<exists>v. Union t u (Some (\<lambda>d e. d)) = Some (Inr v) \<and> Find k v = Find k u"
proof -
  note tm = no_nil_map [OF data(1) inv(1)] and um = no_nil_map [OF data(2) inv(2)]
  from Union_right [OF inv, of "Some (\<lambda>d e. d)"] obtain v where
    v: "Union t u (Some (\<lambda>d e. d)) = Some (Inr v)" "T_inv v"
      "T.map_abs v = (\<lambda>k. case T.map_abs t k of None \<Rightarrow> T.map_abs u k
        | Some d \<Rightarrow> if Find k u = None then Some d
          else combine_at (Some (\<lambda>d e. d)) d (Find k u) (T.map_abs u k))"
    unfolding Union_def using assms(5,6) by auto
  then show ?thesis
    using assms(7,8) by (auto simp: Find_map [OF v(2)] value_at_def tm um combine_at_def split: option.splits)
qed

theorem Union_keeps_wrong_data_witness:
  "let t = \<lparr>root = Node nil nil (Some True) 5 1, sz = 1\<rparr>;
      u = \<lparr>root = Node nil (Node nil nil (Some True) 7 1) (Some False) 5 2, sz = 2\<rparr> in
    \<exists>v. Union t u (Some (\<lambda>d e. d)) = Some (Inr v) \<and> Find 5 v = Find 5 u"
  unfolding Let_def
  by (rule Union_keeps_wrong_data)
    (auto simp: T_inv_def key32_def NOT_KEY32_def no_nil_def VisitInOrder_def Size_def Find_def)

text \<open>C15. \<open>Equiv\<close> (and \<open>Equals\<close>) compare the sequences of entries, whichever nodes the trees share: two
  trees are equivalent when they have the same keys with equivalent data.\<close>

theorem Equiv_iff:
  assumes "\<And>a b. same a b \<Longrightarrow> a = b" and "\<And>d. eqv d d" and "T_inv t" and "T_inv u"
  shows "Equiv same t u eqv =
      Some (list_all2 (\<lambda>(k, d) (k', d'). k = k' \<and> eqv d d') (VisitInOrder t) (VisitInOrder u)) \<and>
    Equals same t u = Some (VisitInOrder t = VisitInOrder u)"
proof -
  have b: "bst (root t)" "bst (root u)" and n: "Size t = int (length (VisitInOrder t))"
    "Size u = int (length (VisitInOrder u))"
    using assms(3,4) by (simp_all add: T_inv_def Size_def VisitInOrder_entries)
  have "equiv same (root t) (root u) eqv =
      Some (list_all2 (\<lambda>(k, d) (k', d'). k = k' \<and> eqv d d') (VisitInOrder t) (VisitInOrder u))"
    unfolding VisitInOrder_entries by (rule equiv_spec [OF assms(1,2) b])
  moreover have "equals same (root t) (root u) =
      Some (list_all2 (\<lambda>(k, d) (k', d'). k = k' \<and> d = d') (VisitInOrder t) (VisitInOrder u))"
    using equiv_spec [of same "(=)", OF assms(1) refl b]
    unfolding equals_def equiv_def VisitInOrder_entries .
  moreover have "list_all2 (\<lambda>(k, d) (k', d'). k = k' \<and> d = d') ps qs \<longleftrightarrow> ps = qs"
    for ps qs :: "(int \<times> 'a option) list"
    by (simp add: list_all2_conv_all_nth list_eq_iff_nth_eq split_beta prod_eq_iff)
  moreover have "length (VisitInOrder t) = length (VisitInOrder u)"
    if "list_all2 P (VisitInOrder t) (VisitInOrder u)" for P
    using that by (rule list_all2_lengthD)
  ultimately show ?thesis using n by (auto simp: Equiv_def Equals_def)
qed

theorem Equiv_iff_witness:
  "let t = \<lparr>root = Node nil nil (Some True) 5 1, sz = 1\<rparr>;
      u = \<lparr>root = Node nil nil (Some False) 5 1, sz = 1\<rparr> in
    Equiv (=) t u (\<lambda>d e. True) =
      Some (list_all2 (\<lambda>(k, d) (k', d'). k = k' \<and> True) (VisitInOrder t) (VisitInOrder u)) \<and>
    Equals (=) t u = Some (VisitInOrder t = VisitInOrder u)"
  unfolding Let_def by (rule Equiv_iff) (simp_all add: T_inv_def key32_def NOT_KEY32_def)

text \<open>C16. \<open>Min\<close>, \<open>Max\<close>, \<open>Glb\<close>, \<open>GlbEq\<close>, \<open>Lub\<close> and \<open>LubEq\<close> return the first or last entry, in key order, of
  those that qualify, and the sentinel with nil data when there is none.\<close>

theorem bounds_entries:
  assumes "T_inv t"
  shows "Min t = hd_or (NOT_KEY32, None) (VisitInOrder t) \<and>
    Max t = last_or (NOT_KEY32, None) (VisitInOrder t) \<and>
    Glb x t = last_or (NOT_KEY32, None) (filter (\<lambda>p. fst p < x) (VisitInOrder t)) \<and>
    GlbEq x t = last_or (NOT_KEY32, None) (filter (\<lambda>p. fst p \<le> x) (VisitInOrder t)) \<and>
    Lub x t = hd_or (NOT_KEY32, None) (filter (\<lambda>p. x < fst p) (VisitInOrder t)) \<and>
    LubEq x t = hd_or (NOT_KEY32, None) (filter (\<lambda>p. x \<le> fst p) (VisitInOrder t))"
proof -
  have b: "bst (root t)" using assms by (simp add: T_inv_def)
  have le: "(\<lambda>p :: int \<times> 'a option. fst p \<le> x) = (\<lambda>p. fst p < x \<or> True \<and> fst p = x)"
    "(\<lambda>p :: int \<times> 'a option. x \<le> fst p) = (\<lambda>p. x < fst p \<or> True \<and> fst p = x)" by auto
  have "Min t = hd_or (NOT_KEY32, None) (VisitInOrder t)" "Max t = last_or (NOT_KEY32, None) (VisitInOrder t)"
    using min_node_entries [of "root t"] max_node_entries [of "root t"]
    by (cases "root t = nil"; simp add: Min_def Max_def VisitInOrder_entries hd_or_def last_or_def nil_keys)+
  then show ?thesis
    unfolding le using b
    by (simp add: Glb_def GlbEq_def Lub_def LubEq_def glb_def lub_def glb_loop_spec lub_loop_spec VisitInOrder_entries)
qed

theorem bounds_entries_witness:
  "let t = \<lparr>root = Node nil (Node nil nil (Some True) 7 1) (Some False) 5 2, sz = 2\<rparr> in
    Min t = hd_or (NOT_KEY32, None) (VisitInOrder t) \<and>
    Max t = last_or (NOT_KEY32, None) (VisitInOrder t) \<and>
    Glb 7 t = last_or (NOT_KEY32, None) (filter (\<lambda>p. fst p < 7) (VisitInOrder t)) \<and>
    GlbEq 7 t = last_or (NOT_KEY32, None) (filter (\<lambda>p. fst p \<le> 7) (VisitInOrder t)) \<and>
    Lub 7 t = hd_or (NOT_KEY32, None) (filter (\<lambda>p. 7 < fst p) (VisitInOrder t)) \<and>
    LubEq 7 t = hd_or (NOT_KEY32, None) (filter (\<lambda>p. 7 \<le> fst p) (VisitInOrder t))"
  unfolding Let_def by (rule bounds_entries) (simp add: T_inv_def key32_def NOT_KEY32_def)

end
