(* ===== verification/Utf8.thy ===== *)
theory Utf8
  imports Prelude
begin

text \<open>
  Package \<^verbatim>\<open>unicode/utf8\<close>.  A byte is a \<^typ>\<open>u8\<close>, a byte slice and a string are lists of bytes, a rune
  (\<^verbatim>\<open>int32\<close>) is a 32-bit word read by \<^const>\<open>sint\<close> where the code compares runes.  Every access to a
  slice is checked: \<^const>\<open>None\<close> is the panic of an index out of range.
\<close>

type_synonym rune = "32 word"

section \<open>Constants and tables\<close>

definition RuneError :: rune where "RuneError = 0xFFFD"
definition RuneSelf :: u8 where "RuneSelf = 0x80"
definition MaxRune :: rune where "MaxRune = 0x10FFFF"
definition UTFMax :: nat where "UTFMax = 4"
definition surrogateMin :: rune where "surrogateMin = 0xD800"
definition surrogateMax :: rune where "surrogateMax = 0xDFFF"

definition tx :: u8 where "tx = 0x80"
definition t2 :: u8 where "t2 = 0xC0"
definition t3 :: u8 where "t3 = 0xE0"
definition t4 :: u8 where "t4 = 0xF0"

definition maskx :: u8 where "maskx = 0x3F"
definition mask2 :: u8 where "mask2 = 0x1F"
definition mask3 :: u8 where "mask3 = 0x0F"
definition mask4 :: u8 where "mask4 = 0x07"

definition rune1Max :: rune where "rune1Max = 0x7F"
definition rune2Max :: rune where "rune2Max = 0x7FF"
definition rune3Max :: rune where "rune3Max = 0xFFFF"

definition locb :: u8 where "locb = 0x80"
definition hicb :: u8 where "hicb = 0xBF"

definition xx :: u8 where "xx = 0xF1"
definition as :: u8 where "as = 0xF0"
definition s1 :: u8 where "s1 = 0x02"
definition s2 :: u8 where "s2 = 0x13"
definition s3 :: u8 where "s3 = 0x03"
definition s4 :: u8 where "s4 = 0x23"
definition s5 :: u8 where "s5 = 0x34"
definition s6 :: u8 where "s6 = 0x04"
definition s7 :: u8 where "s7 = 0x44"

lemmas utf8_consts = RuneError_def RuneSelf_def MaxRune_def UTFMax_def surrogateMin_def surrogateMax_def
  tx_def t2_def t3_def t4_def maskx_def mask2_def mask3_def mask4_def rune1Max_def rune2Max_def
  rune3Max_def locb_def hicb_def

lemmas utf8_classes = xx_def as_def s1_def s2_def s3_def s4_def s5_def s6_def s7_def

text \<open>Eight rows of \<open>as\<close>, four rows of \<open>xx\<close>, then the rows of the leading bytes.\<close>

definition first :: "u8 list" where
  "first =
    replicate (8 * 16) as @
    replicate (4 * 16) xx @
    [xx, xx, s1, s1, s1, s1, s1, s1, s1, s1, s1, s1, s1, s1, s1, s1,
     s1, s1, s1, s1, s1, s1, s1, s1, s1, s1, s1, s1, s1, s1, s1, s1,
     s2, s3, s3, s3, s3, s3, s3, s3, s3, s3, s3, s3, s3, s4, s3, s3,
     s5, s6, s6, s6, s7, xx, xx, xx, xx, xx, xx, xx, xx, xx, xx, xx]"

record acceptRange =
  lo :: u8
  hi :: u8

definition acceptRanges :: "acceptRange list" where
  "acceptRanges =
    [\<lparr>lo = locb, hi = hicb\<rparr>, \<lparr>lo = 0xA0, hi = hicb\<rparr>, \<lparr>lo = locb, hi = 0x9F\<rparr>,
     \<lparr>lo = 0x90, hi = hicb\<rparr>, \<lparr>lo = locb, hi = 0x8F\<rparr>] @ replicate 11 \<lparr>lo = 0, hi = 0\<rparr>"

section \<open>Decoding\<close>

definition FullRune :: "u8 list \<Rightarrow> bool option" where
  "FullRune p =
    (let n = length p
     in if n = 0 then Some False
        else do {
          p0 \<leftarrow> slice_get p 0;
          x \<leftarrow> slice_get first (unat p0);
          if n \<ge> unat (x AND 7) then Some True
          else do {
            accept \<leftarrow> slice_get acceptRanges (unat (drop_bit 4 x));
            bad1 \<leftarrow> (if n > 1 then do { p1 \<leftarrow> slice_get p 1; Some (p1 < lo accept \<or> hi accept < p1) } else Some False);
            if bad1 then Some True
            else do {
              bad2 \<leftarrow> (if n > 2 then do { p2 \<leftarrow> slice_get p 2; Some (p2 < locb \<or> hicb < p2) } else Some False);
              Some bad2 } } })"

definition DecodeRune :: "u8 list \<Rightarrow> (rune \<times> nat) option" where
  "DecodeRune p =
    (let n = length p
     in if n < 1 then Some (RuneError, 0)
        else do {
          p0 \<leftarrow> slice_get p 0;
          x \<leftarrow> slice_get first (unat p0);
          if x \<ge> as
          then let mask = signed_drop_bit 31 (push_bit 31 (ucast x :: rune))
               in Some ((ucast p0 AND NOT mask) OR (RuneError AND mask), 1)
          else let sz = unat (x AND 7)
               in do {
                 accept \<leftarrow> slice_get acceptRanges (unat (drop_bit 4 x));
                 if n < sz then Some (RuneError, 1)
                 else do {
                   b1 \<leftarrow> slice_get p 1;
                   if b1 < lo accept \<or> hi accept < b1 then Some (RuneError, 1)
                   else if sz \<le> 2
                   then Some (push_bit 6 (ucast (p0 AND mask2)) OR ucast (b1 AND maskx), 2)
                   else do {
                     b2 \<leftarrow> slice_get p 2;
                     if b2 < locb \<or> hicb < b2 then Some (RuneError, 1)
                     else if sz \<le> 3
                     then Some (push_bit 12 (ucast (p0 AND mask3)) OR push_bit 6 (ucast (b1 AND maskx)) OR
                            ucast (b2 AND maskx), 3)
                     else do {
                       b3 \<leftarrow> slice_get p 3;
                       if b3 < locb \<or> hicb < b3 then Some (RuneError, 1)
                       else Some (push_bit 18 (ucast (p0 AND mask4)) OR push_bit 12 (ucast (b1 AND maskx)) OR
                              push_bit 6 (ucast (b2 AND maskx)) OR ucast (b3 AND maskx), 4) } } } } })"

definition RuneStart :: "u8 \<Rightarrow> bool" where
  "RuneStart b \<longleftrightarrow> b AND 0xC0 \<noteq> 0x80"

text \<open>
  \<open>for start--; start >= lim; start-- { if RuneStart(p[start]) { break } }\<close>, then \<open>start\<close> is raised to 0:
  the loop over \<open>start = n - 1, \<dots>, lim\<close>, where \<open>n\<close> is one more than the index to look at next.
\<close>

fun DecodeLastRune_loop :: "u8 list \<Rightarrow> nat \<Rightarrow> nat \<Rightarrow> nat option" where
  "DecodeLastRune_loop p lim 0 = Some 0"
| "DecodeLastRune_loop p lim (Suc start) =
    (if start \<ge> lim
     then do {
       b \<leftarrow> slice_get p start;
       if RuneStart b then Some start else DecodeLastRune_loop p lim start }
     else Some start)"

definition DecodeLastRune :: "u8 list \<Rightarrow> (rune \<times> nat) option" where
  "DecodeLastRune p =
    (let end = length p
     in if end = 0 then Some (RuneError, 0)
        else do {
          let start = end - 1;
          b \<leftarrow> slice_get p start;
          if sint (ucast b :: rune) < sint (ucast RuneSelf :: rune) then Some (ucast b, 1)
          else do {
            start \<leftarrow> DecodeLastRune_loop p (end - UTFMax) start;
            (r, size) \<leftarrow> DecodeRune (take (end - start) (drop start p));
            if start + size \<noteq> end then Some (RuneError, 1) else Some (r, size) } })"

section \<open>Encoding\<close>

definition RuneLen :: "rune \<Rightarrow> int" where
  "RuneLen r =
    (if sint r < 0 then - 1
     else if sint r \<le> sint rune1Max then 1
     else if sint r \<le> sint rune2Max then 2
     else if sint surrogateMin \<le> sint r \<and> sint r \<le> sint surrogateMax then - 1
     else if sint r \<le> sint rune3Max then 3
     else if sint r \<le> sint MaxRune then 4
     else - 1)"

definition ValidRune :: "rune \<Rightarrow> bool" where
  "ValidRune r \<longleftrightarrow>
    0 \<le> sint r \<and> sint r < sint surrogateMin \<or> sint surrogateMax < sint r \<and> sint r \<le> sint MaxRune"

text \<open>\<open>byte(r >> n)\<close> is \<open>ucast (signed_drop_bit n r)\<close>: the shift of an \<open>int32\<close> is arithmetic.\<close>

definition EncodeRune :: "u8 list \<Rightarrow> rune \<Rightarrow> (u8 list \<times> nat) option" where
  "EncodeRune p r =
    (let i = r;
         three = (\<lambda>r. if length p \<le> 2 then None
           else Some (p[0 := t3 OR ucast (signed_drop_bit 12 r),
                        1 := tx OR (ucast (signed_drop_bit 6 r) AND maskx),
                        2 := tx OR (ucast r AND maskx)], 3))
     in if i \<le> rune1Max
        then if length p \<le> 0 then None else Some (p[0 := ucast r], 1)
        else if i \<le> rune2Max
        then if length p \<le> 1 then None
             else Some (p[0 := t2 OR ucast (signed_drop_bit 6 r), 1 := tx OR (ucast r AND maskx)], 2)
        else if i > MaxRune \<or> surrogateMin \<le> i \<and> i \<le> surrogateMax then three RuneError
        else if i \<le> rune3Max then three r
        else if length p \<le> 3 then None
        else Some (p[0 := t4 OR ucast (signed_drop_bit 18 r),
                     1 := tx OR (ucast (signed_drop_bit 12 r) AND maskx),
                     2 := tx OR (ucast (signed_drop_bit 6 r) AND maskx),
                     3 := tx OR (ucast r AND maskx)], 4))"

definition appendRuneNonASCII :: "u8 list \<Rightarrow> rune \<Rightarrow> u8 list" where
  "appendRuneNonASCII p r =
    (let i = r;
         three = (\<lambda>r. p @ [t3 OR ucast (signed_drop_bit 12 r),
                       tx OR (ucast (signed_drop_bit 6 r) AND maskx),
                       tx OR (ucast r AND maskx)])
     in if i \<le> rune2Max then p @ [t2 OR ucast (signed_drop_bit 6 r), tx OR (ucast r AND maskx)]
        else if i > MaxRune \<or> surrogateMin \<le> i \<and> i \<le> surrogateMax then three RuneError
        else if i \<le> rune3Max then three r
        else p @ [t4 OR ucast (signed_drop_bit 18 r),
                  tx OR (ucast (signed_drop_bit 12 r) AND maskx),
                  tx OR (ucast (signed_drop_bit 6 r) AND maskx),
                  tx OR (ucast r AND maskx)])"

definition AppendRune :: "u8 list \<Rightarrow> rune \<Rightarrow> u8 list" where
  "AppendRune p r = (if r \<le> rune1Max then p @ [ucast r] else appendRuneNonASCII p r)"

section \<open>Counting and validation\<close>

text \<open>
  The size that the loops of \<open>RuneCount\<close> add for the sequence of \<open>size\<close> bytes at \<open>i\<close>, after the
  leading byte was found to be in \<open>first\<close> with \<open>x\<close>: 1 when a continuation byte is wrong.
\<close>

definition RuneCount_size :: "u8 list \<Rightarrow> nat \<Rightarrow> u8 \<Rightarrow> nat \<Rightarrow> nat option" where
  "RuneCount_size p i x sz =
    do {
      accept \<leftarrow> slice_get acceptRanges (unat (drop_bit 4 x));
      c \<leftarrow> slice_get p (i + 1);
      if c < lo accept \<or> hi accept < c then Some 1
      else if sz = 2 then Some sz
      else do {
        c \<leftarrow> slice_get p (i + 2);
        if c < locb \<or> hicb < c then Some 1
        else if sz = 3 then Some sz
        else do {
          c \<leftarrow> slice_get p (i + 3);
          if c < locb \<or> hicb < c then Some 1 else Some sz } } }"

text \<open>One round of the loop: the new value of \<open>i\<close>.\<close>

definition RuneCount_step :: "u8 list \<Rightarrow> nat \<Rightarrow> nat option" where
  "RuneCount_step p i =
    do {
      c \<leftarrow> slice_get p i;
      if c < RuneSelf then Some (i + 1)
      else do {
        x \<leftarrow> slice_get first (unat c);
        if x = xx then Some (i + 1)
        else let size = unat (x AND 7)
             in if i + size > length p then Some (i + 1)
                else do { size \<leftarrow> RuneCount_size p i x size; Some (i + size) } } }"

partial_function (option) RuneCount_loop :: "u8 list \<Rightarrow> nat \<Rightarrow> nat \<Rightarrow> nat option" where
  "RuneCount_loop p i n =
    (if i < length p
     then do { i \<leftarrow> RuneCount_step p i; RuneCount_loop p i (n + 1) }
     else Some n)"

definition RuneCount :: "u8 list \<Rightarrow> nat option" where
  "RuneCount p = RuneCount_loop p 0 0"

definition Valid_ascii8 :: "u8 list \<Rightarrow> bool" where
  "Valid_ascii8 p \<longleftrightarrow>
    (let first32 = ucast (p ! 0) OR push_bit 8 (ucast (p ! 1)) OR push_bit 16 (ucast (p ! 2)) OR
           push_bit 24 (ucast (p ! 3)) :: u32;
         second32 = ucast (p ! 4) OR push_bit 8 (ucast (p ! 5)) OR push_bit 16 (ucast (p ! 6)) OR
           push_bit 24 (ucast (p ! 7)) :: u32
     in (first32 OR second32) AND 0x80808080 = 0)"

text \<open>The fast path drops eight ASCII bytes per round; its accesses are within \<open>len(p) >= 8\<close>.\<close>

function Valid_fast :: "u8 list \<Rightarrow> u8 list" where
  "Valid_fast p = (if length p \<ge> 8 \<and> Valid_ascii8 p then Valid_fast (drop 8 p) else p)"
  by pat_completeness auto
termination
  by (relation "measure length") auto

declare Valid_fast.simps [simp del]

definition Valid_step :: "u8 list \<Rightarrow> nat \<Rightarrow> nat option option" where
  "Valid_step p i =
    do {
      pi \<leftarrow> slice_get p i;
      if pi < RuneSelf then Some (Some (i + 1))
      else do {
        x \<leftarrow> slice_get first (unat pi);
        if x = xx then Some None
        else let size = unat (x AND 7)
             in if i + size > length p then Some None
                else do {
                  accept \<leftarrow> slice_get acceptRanges (unat (drop_bit 4 x));
                  c \<leftarrow> slice_get p (i + 1);
                  if c < lo accept \<or> hi accept < c then Some None
                  else if size = 2 then Some (Some (i + size))
                  else do {
                    c \<leftarrow> slice_get p (i + 2);
                    if c < locb \<or> hicb < c then Some None
                    else if size = 3 then Some (Some (i + size))
                    else do {
                      c \<leftarrow> slice_get p (i + 3);
                      if c < locb \<or> hicb < c then Some None else Some (Some (i + size)) } } } } }"

partial_function (option) Valid_loop :: "u8 list \<Rightarrow> nat \<Rightarrow> bool option" where
  "Valid_loop p i =
    (if i < length p
     then do {
       step \<leftarrow> Valid_step p i;
       (case step of None \<Rightarrow> Some False | Some i \<Rightarrow> Valid_loop p i) }
     else Some True)"

definition Valid :: "u8 list \<Rightarrow> bool option" where
  "Valid p = Valid_loop (Valid_fast p) 0"

section \<open>The functions on strings\<close>

text \<open>
  The code repeats each function for strings.  The loops of \<open>DecodeLastRuneInString\<close>, \<open>RuneCountInString\<close> and
  \<open>ValidString\<close> have the same bodies as those above, over the bytes of the string.
\<close>

definition FullRuneInString :: "u8 list \<Rightarrow> bool option" where
  "FullRuneInString s =
    (let n = length s
     in if n = 0 then Some False
        else do {
          s0 \<leftarrow> slice_get s 0;
          x \<leftarrow> slice_get first (unat s0);
          if n \<ge> unat (x AND 7) then Some True
          else do {
            accept \<leftarrow> slice_get acceptRanges (unat (drop_bit 4 x));
            bad1 \<leftarrow> (if n > 1 then do { c1 \<leftarrow> slice_get s 1; Some (c1 < lo accept \<or> hi accept < c1) } else Some False);
            if bad1 then Some True
            else do {
              bad2 \<leftarrow> (if n > 2 then do { c2 \<leftarrow> slice_get s 2; Some (c2 < locb \<or> hicb < c2) } else Some False);
              Some bad2 } } })"

definition DecodeRuneInString :: "u8 list \<Rightarrow> (rune \<times> nat) option" where
  "DecodeRuneInString s =
    (let n = length s
     in if n < 1 then Some (RuneError, 0)
        else do {
          s0 \<leftarrow> slice_get s 0;
          x \<leftarrow> slice_get first (unat s0);
          if x \<ge> as
          then let mask = signed_drop_bit 31 (push_bit 31 (ucast x :: rune))
               in Some ((ucast s0 AND NOT mask) OR (RuneError AND mask), 1)
          else let sz = unat (x AND 7)
               in do {
                 accept \<leftarrow> slice_get acceptRanges (unat (drop_bit 4 x));
                 if n < sz then Some (RuneError, 1)
                 else do {
                   c1 \<leftarrow> slice_get s 1;
                   if c1 < lo accept \<or> hi accept < c1 then Some (RuneError, 1)
                   else if sz \<le> 2
                   then Some (push_bit 6 (ucast (s0 AND mask2)) OR ucast (c1 AND maskx), 2)
                   else do {
                     c2 \<leftarrow> slice_get s 2;
                     if c2 < locb \<or> hicb < c2 then Some (RuneError, 1)
                     else if sz \<le> 3
                     then Some (push_bit 12 (ucast (s0 AND mask3)) OR push_bit 6 (ucast (c1 AND maskx)) OR
                            ucast (c2 AND maskx), 3)
                     else do {
                       c3 \<leftarrow> slice_get s 3;
                       if c3 < locb \<or> hicb < c3 then Some (RuneError, 1)
                       else Some (push_bit 18 (ucast (s0 AND mask4)) OR push_bit 12 (ucast (c1 AND maskx)) OR
                              push_bit 6 (ucast (c2 AND maskx)) OR ucast (c3 AND maskx), 4) } } } } })"

definition DecodeLastRuneInString :: "u8 list \<Rightarrow> (rune \<times> nat) option" where
  "DecodeLastRuneInString s =
    (let end = length s
     in if end = 0 then Some (RuneError, 0)
        else do {
          let start = end - 1;
          b \<leftarrow> slice_get s start;
          if sint (ucast b :: rune) < sint (ucast RuneSelf :: rune) then Some (ucast b, 1)
          else do {
            start \<leftarrow> DecodeLastRune_loop s (end - UTFMax) start;
            (r, size) \<leftarrow> DecodeRuneInString (take (end - start) (drop start s));
            if start + size \<noteq> end then Some (RuneError, 1) else Some (r, size) } })"

definition RuneCountInString :: "u8 list \<Rightarrow> nat option" where
  "RuneCountInString s = RuneCount_loop s 0 0"

definition ValidString :: "u8 list \<Rightarrow> bool option" where
  "ValidString s = Valid_loop (Valid_fast s) 0"

end
