(* ===== verification/Utf8_Spec.thy ===== *)
theory Utf8_Spec
  imports Utf8
begin

text \<open>
  What \<^verbatim>\<open>unicode/utf8\<close> computes, over the values of the bytes: the length of the well-formed sequence at
  the head of a list of bytes and the rune that it encodes.
\<close>

section \<open>The tables\<close>

definition classify :: "nat \<Rightarrow> u8" where
  "classify n =
    (if n < 0x80 then as else if n < 0xC2 then xx else if n < 0xE0 then s1 else if n = 0xE0 then s2
     else if n = 0xED then s4 else if n < 0xF0 then s3 else if n = 0xF0 then s5 else if n < 0xF4 then s6
     else if n = 0xF4 then s7 else xx)"

lemma map_upt_const: "(\<And>x. a \<le> x \<Longrightarrow> x < b \<Longrightarrow> f x = c) \<Longrightarrow> map f [a..<b] = replicate (b - a) c"
  by (rule nth_equalityI) simp_all

lemma first_classify: "map classify [0..<256] = first"
proof -
  have "[0..<256] = [0..<128] @ [128..<192] @ [192..<256::nat]"
    using upt_add_eq_append [of 0 192 64] upt_add_eq_append [of 0 128 64] by simp
  moreover have "map classify [0..<128] = replicate (128 - 0) as"
    by (rule map_upt_const) (simp add: classify_def)
  moreover have "map classify [128..<192] = replicate (192 - 128) xx"
    by (rule map_upt_const) (simp add: classify_def)
  moreover have "map classify [192..<256] =
     [xx, xx, s1, s1, s1, s1, s1, s1, s1, s1, s1, s1, s1, s1, s1, s1,
      s1, s1, s1, s1, s1, s1, s1, s1, s1, s1, s1, s1, s1, s1, s1, s1,
      s2, s3, s3, s3, s3, s3, s3, s3, s3, s3, s3, s3, s3, s4, s3, s3,
      s5, s6, s6, s6, s7, xx, xx, xx, xx, xx, xx, xx, xx, xx, xx, xx]"
    by (simp add: classify_def upt_rec_numeral)
  ultimately show ?thesis unfolding first_def by (simp only: map_append) simp
qed

lemma length_first [simp]: "length first = 256"
  by (simp add: first_def)

lemma slice_get_first [simp]: "slice_get first (unat (b :: u8)) = Some (classify (unat b))"
proof -
  have lt: "unat b < 256" using unat_lt8 [of b] by simp
  then have "first ! unat b = classify (unat b)"
    unfolding first_classify [symmetric] by simp
  then show ?thesis using lt by simp
qed

text \<open>The number of bytes that the leading byte announces; 0 for a byte that cannot lead.\<close>

definition lead_size :: "nat \<Rightarrow> nat" where
  "lead_size n =
    (if n < 0x80 then 1 else if n < 0xC2 then 0 else if n < 0xE0 then 2 else if n < 0xF0 then 3
     else if n < 0xF5 then 4 else 0)"

definition second_ok :: "nat \<Rightarrow> nat \<Rightarrow> bool" where
  "second_ok b0 b1 \<longleftrightarrow>
    (if b0 = 0xE0 then 0xA0 else if b0 = 0xF0 then 0x90 else 0x80) \<le> b1 \<and>
    b1 \<le> (if b0 = 0xED then 0x9F else if b0 = 0xF4 then 0x8F else 0xBF)"

definition cont :: "nat \<Rightarrow> bool" where
  "cont b \<longleftrightarrow> 0x80 \<le> b \<and> b \<le> 0xBF"

lemma class_values:
  "as AND 7 = 0" "xx AND 7 = 1" "s1 AND 7 = 2" "s2 AND 7 = 3" "s3 AND 7 = 3" "s4 AND 7 = 3"
  "s5 AND 7 = 4" "s6 AND 7 = 4" "s7 AND 7 = 4"
  "drop_bit 4 s1 = 0" "drop_bit 4 s2 = 1" "drop_bit 4 s3 = 0" "drop_bit 4 s4 = 2"
  "drop_bit 4 s5 = 3" "drop_bit 4 s6 = 0" "drop_bit 4 s7 = 4"
  by (simp_all add: utf8_classes)

lemma class_order:
  "as \<le> as" "as \<le> xx" "\<not> as \<le> s1" "\<not> as \<le> s2" "\<not> as \<le> s3" "\<not> as \<le> s4" "\<not> as \<le> s5" "\<not> as \<le> s6"
  "\<not> as \<le> s7" "as \<noteq> xx" "s1 \<noteq> xx" "s2 \<noteq> xx" "s3 \<noteq> xx" "s4 \<noteq> xx" "s5 \<noteq> xx" "s6 \<noteq> xx" "s7 \<noteq> xx"
  by (simp_all add: utf8_classes)

lemma ranges:
  "slice_get acceptRanges 0 = Some \<lparr>lo = 0x80, hi = 0xBF\<rparr>"
  "slice_get acceptRanges (Suc 0) = Some \<lparr>lo = 0xA0, hi = 0xBF\<rparr>"
  "slice_get acceptRanges 2 = Some \<lparr>lo = 0x80, hi = 0x9F\<rparr>"
  "slice_get acceptRanges 3 = Some \<lparr>lo = 0x90, hi = 0xBF\<rparr>"
  "slice_get acceptRanges 4 = Some \<lparr>lo = 0x80, hi = 0x8F\<rparr>"
  by (simp_all add: acceptRanges_def locb_def hicb_def)

lemma classify_accept:
  assumes "0xC2 \<le> n" and "n < 0xF5"
  shows "\<exists>accept. slice_get acceptRanges (unat (drop_bit 4 (classify n))) = Some accept \<and>
    (\<forall>c. (c < lo accept \<or> hi accept < c) \<longleftrightarrow> \<not> second_ok n (unat c))"
proof -
  consider "n < 0xE0" | "n = 0xE0" | "n = 0xED" | "0xE0 < n" "n \<noteq> 0xED" "n < 0xF0" | "n = 0xF0"
    | "0xF0 < n" "n < 0xF4" | "n = 0xF4" using assms by linarith
  then show ?thesis
    using assms
    by cases (auto simp: classify_def class_values ranges second_ok_def word_less_nat_alt)
qed

lemma classify_size:
  "0xC2 \<le> n \<Longrightarrow> n < 0xF5 \<Longrightarrow> unat (classify n AND 7) = lead_size n"
  "n < 0x80 \<Longrightarrow> unat (classify n AND 7) = 0"
  "0x80 \<le> n \<Longrightarrow> n < 0xC2 \<or> 0xF5 \<le> n \<Longrightarrow> unat (classify n AND 7) = 1"
  by (auto simp: classify_def lead_size_def class_values)

lemma classify_special:
  "as \<le> classify n \<longleftrightarrow> n < 0xC2 \<or> 0xF5 \<le> n"
  "classify n = xx \<longleftrightarrow> 0x80 \<le> n \<and> (n < 0xC2 \<or> 0xF5 \<le> n)"
  by (auto simp: classify_def class_order)

lemma bad_cont: "(c < locb \<or> hicb < c) \<longleftrightarrow> \<not> cont (unat c)"
  by (auto simp: locb_def hicb_def cont_def word_less_nat_alt)

section \<open>Sequences\<close>

text \<open>The length of the well-formed sequence at the head, 0 if there is none.\<close>

definition seq_len :: "nat list \<Rightarrow> nat" where
  "seq_len p =
    (if p = [] then 0
     else let n = lead_size (p ! 0)
       in if length p < n then 0
          else if 2 \<le> n \<and> \<not> second_ok (p ! 0) (p ! 1) then 0
          else if 3 \<le> n \<and> \<not> cont (p ! 2) then 0
          else if 4 \<le> n \<and> \<not> cont (p ! 3) then 0
          else n)"

definition seq_val :: "nat list \<Rightarrow> nat" where
  "seq_val p =
    (if p ! 0 < 0x80 then p ! 0
     else if p ! 0 < 0xE0 then (p ! 0 mod 32) * 64 + p ! 1 mod 64
     else if p ! 0 < 0xF0 then (p ! 0 mod 16) * 4096 + (p ! 1 mod 64) * 64 + p ! 2 mod 64
     else (p ! 0 mod 8) * 262144 + (p ! 1 mod 64) * 4096 + (p ! 2 mod 64) * 64 + p ! 3 mod 64)"

text \<open>The encoding of a code point.\<close>

definition enc :: "nat \<Rightarrow> nat list" where
  "enc n =
    (if n < 0x80 then [n]
     else if n < 0x800 then [0xC0 + n div 64, 0x80 + n mod 64]
     else if n < 0x10000 then [0xE0 + n div 4096, 0x80 + n div 64 mod 64, 0x80 + n mod 64]
     else [0xF0 + n div 262144, 0x80 + n div 4096 mod 64, 0x80 + n div 64 mod 64, 0x80 + n mod 64])"

definition scalar :: "nat \<Rightarrow> bool" where
  "scalar n \<longleftrightarrow> n < 0xD800 \<or> 0xDFFF < n \<and> n \<le> 0x10FFFF"

lemma digit_mods:
  "a < 32 \<Longrightarrow> (192 + a) mod 32 = a" "a < 16 \<Longrightarrow> (224 + a) mod 16 = a" "a < 8 \<Longrightarrow> (240 + a) mod 8 = a"
  "a < 64 \<Longrightarrow> (128 + a) mod 64 = a" for a :: nat
  using mod_mult_self3 [of 6 32 a] mod_mult_self3 [of 14 16 a] mod_mult_self3 [of 30 8 a]
    mod_mult_self3 [of 2 64 a] by simp_all

lemma digit_step:
  fixes m c :: nat
  assumes "c < 64"
  shows "(m * 64 + c) div 64 = m" "(m * 64 + c) mod 64 = c"
  using assms by simp_all

lemma digits3:
  fixes a b c :: nat
  assumes "b < 64" and "c < 64"
  shows "(a * 4096 + b * 64 + c) div 4096 = a" "(a * 4096 + b * 64 + c) div 64 mod 64 = b"
    "(a * 4096 + b * 64 + c) mod 64 = c"
proof -
  have n: "a * 4096 + b * 64 + c = (a * 64 + b) * 64 + c" by simp
  show "(a * 4096 + b * 64 + c) div 64 mod 64 = b" "(a * 4096 + b * 64 + c) mod 64 = c"
    unfolding n using assms by (simp_all only: digit_step)
  have "(a * 4096 + b * 64 + c) div (64 * 64) = a"
    unfolding n using assms by (simp only: digit_step div_mult2_eq)
  then show "(a * 4096 + b * 64 + c) div 4096 = a" by simp
qed

lemma digits4:
  fixes a b c d :: nat
  assumes "b < 64" and "c < 64" and "d < 64"
  shows "(a * 262144 + b * 4096 + c * 64 + d) div 262144 = a"
    "(a * 262144 + b * 4096 + c * 64 + d) div 4096 mod 64 = b"
    "(a * 262144 + b * 4096 + c * 64 + d) div 64 mod 64 = c"
    "(a * 262144 + b * 4096 + c * 64 + d) mod 64 = d"
proof -
  have n: "a * 262144 + b * 4096 + c * 64 + d = ((a * 64 + b) * 64 + c) * 64 + d" by simp
  show "(a * 262144 + b * 4096 + c * 64 + d) div 64 mod 64 = c" "(a * 262144 + b * 4096 + c * 64 + d) mod 64 = d"
    unfolding n using assms by (simp_all only: digit_step)
  have "(a * 262144 + b * 4096 + c * 64 + d) div (64 * 64) mod 64 = b"
    unfolding n using assms by (simp only: digit_step div_mult2_eq)
  then show "(a * 262144 + b * 4096 + c * 64 + d) div 4096 mod 64 = b" by simp
  have "(a * 262144 + b * 4096 + c * 64 + d) div (64 * (64 * 64)) = a"
    unfolding n using assms by (simp only: digit_step div_mult2_eq)
  then show "(a * 262144 + b * 4096 + c * 64 + d) div 262144 = a" by simp
qed

lemma enc_seq: "scalar n \<Longrightarrow> seq_len (enc n @ q) = length (enc n) \<and> seq_val (enc n @ q) = n"
proof -
  assume sc: "scalar n"
  consider "n < 0x80" | "0x80 \<le> n" "n < 0x800" | "0x800 \<le> n" "n < 0x10000" | "0x10000 \<le> n" by linarith
  then show ?thesis
  proof cases
    case 1
    then show ?thesis by (simp add: enc_def seq_len_def seq_val_def lead_size_def)
  next
    case 2
    define a c where "a = n div 64" and "c = n mod 64"
    have n: "n = a * 64 + c" using div_mult_mod_eq [of n 64] by (simp add: a_def c_def)
    have lt: "c < 64" by (simp add: c_def)
    have "2 \<le> a" "a < 32" using 2 lt unfolding n by presburger+
    then show ?thesis
      using 2 lt n
      by (auto simp: enc_def seq_len_def seq_val_def lead_size_def second_ok_def Let_def digit_mods
          simp flip: a_def c_def)
  next
    case 3
    define a b c where "a = n div 4096" and "b = n div 64 mod 64" and "c = n mod 64"
    have "n div 64 div 64 = a" by (simp add: a_def div_mult2_eq [symmetric])
    then have "n div 64 = a * 64 + b" using div_mult_mod_eq [of "n div 64" 64] by (simp add: b_def)
    then have n: "n = a * 4096 + b * 64 + c" using div_mult_mod_eq [of n 64] by (simp add: c_def)
    have lt: "b < 64" "c < 64" by (simp_all add: b_def c_def)
    have "a < 16" "a = 0 \<longrightarrow> 32 \<le> b" "a = 13 \<longrightarrow> b < 32"
      using 3 sc lt n unfolding scalar_def by linarith+
    moreover have "enc n = [0xE0 + a, 0x80 + b, 0x80 + c]"
      using 3 by (simp add: enc_def a_def b_def c_def)
    ultimately show ?thesis
      using lt by (auto simp: seq_len_def seq_val_def lead_size_def second_ok_def cont_def digit_mods n)
  next
    case 4
    define a b c d where "a = n div 262144" and "b = n div 4096 mod 64" and "c = n div 64 mod 64" and "d = n mod 64"
    have "n div 4096 div 64 = a" by (simp add: a_def div_mult2_eq [symmetric])
    then have "n div 4096 = a * 64 + b" using div_mult_mod_eq [of "n div 4096" 64] by (simp add: b_def)
    moreover have "n div 64 div 64 = n div 4096" by (simp add: div_mult2_eq [symmetric])
    ultimately have "n div 64 = a * 4096 + b * 64 + c" using div_mult_mod_eq [of "n div 64" 64] by (simp add: c_def)
    then have n: "n = a * 262144 + b * 4096 + c * 64 + d" using div_mult_mod_eq [of n 64] by (simp add: d_def)
    have lt: "b < 64" "c < 64" "d < 64" by (simp_all add: b_def c_def d_def)
    have "a < 5" "a = 0 \<longrightarrow> 16 \<le> b" "a = 4 \<longrightarrow> b < 16"
      using 4 sc lt n unfolding scalar_def by linarith+
    moreover have "enc n = [0xF0 + a, 0x80 + b, 0x80 + c, 0x80 + d]"
      using 4 by (simp add: enc_def a_def b_def c_def d_def)
    ultimately show ?thesis
      using lt by (auto simp: seq_len_def seq_val_def lead_size_def second_ok_def cont_def digit_mods n)
  qed
qed

text \<open>A well-formed sequence is the encoding of the scalar value that it represents.\<close>

lemma seq_enc:
  assumes "seq_len p \<noteq> 0"
  shows "scalar (seq_val p) \<and> enc (seq_val p) = take (seq_len p) p \<and> seq_len p \<le> length p"
proof -
  define b0 where "b0 = p ! 0"
  obtain ps where p: "p = b0 # ps" using assms by (cases p) (auto simp: seq_len_def b0_def)
  consider "b0 < 0x80" | "0xC2 \<le> b0" "b0 < 0xE0" | "0xE0 \<le> b0" "b0 < 0xF0" | "0xF0 \<le> b0" "b0 < 0xF5"
    using assms by (auto simp: seq_len_def lead_size_def Let_def b0_def split: if_splits)
  then show ?thesis
  proof cases
    case 1
    then show ?thesis using p by (simp add: seq_len_def lead_size_def seq_val_def enc_def scalar_def)
  next
    case 2
    then obtain b1 qs where ps: "ps = b1 # qs" and ok: "second_ok b0 b1"
      using assms p by (cases ps) (auto simp: seq_len_def lead_size_def Let_def split: if_splits)
    define a b where "a = b0 - 192" and "b = b1 - 128"
    have ab: "b0 = 192 + a" "b1 = 128 + b" "a < 32" "b < 64" "2 \<le> a"
      using 2 ok by (auto simp: a_def b_def second_ok_def)
    then have "seq_val p = a * 64 + b" "seq_len p = 2"
      using p ps ok by (auto simp: seq_val_def seq_len_def lead_size_def digit_mods)
    moreover have "(a * 64 + b) div 64 = a" "(a * 64 + b) mod 64 = b" using ab by auto
    moreover have "128 \<le> a * 64 + b" "a * 64 + b < 2048" using ab by linarith+
    ultimately show ?thesis using p ps ab by (simp add: enc_def scalar_def)
  next
    case 3
    then obtain b1 b2 qs where ps: "ps = b1 # b2 # qs" and ok: "second_ok b0 b1" "cont b2"
      using assms p by (cases ps; cases "tl ps") (auto simp: seq_len_def lead_size_def Let_def split: if_splits)
    define a b c where "a = b0 - 224" and "b = b1 - 128" and "c = b2 - 128"
    have abc: "b0 = 224 + a" "b1 = 128 + b" "b2 = 128 + c" "a < 16" "b < 64" "c < 64"
      using 3 ok by (auto simp: a_def b_def c_def second_ok_def cont_def split: if_splits)
    have r: "a = 0 \<longrightarrow> 32 \<le> b" "a = 13 \<longrightarrow> b < 32"
      using ok(1) abc by (auto simp: second_ok_def)
    have val: "seq_val p = a * 4096 + b * 64 + c" "seq_len p = 3"
      using p ps ok abc by (simp_all add: seq_val_def seq_len_def lead_size_def digit_mods)
    moreover have "2048 \<le> a * 4096 + b * 64 + c" "a * 4096 + b * 64 + c < 65536"
      using abc(4-6) r by linarith+
    moreover have "scalar (a * 4096 + b * 64 + c)"
    proof -
      consider "a \<le> 12" | "a = 13" | "14 \<le> a" by linarith
      then show ?thesis using abc(4-6) r unfolding scalar_def by cases linarith+
    qed
    ultimately show ?thesis using p ps abc(1-3) digits3 [OF abc(5,6), of a] by (simp add: enc_def)
  next
    case 4
    then obtain b1 b2 b3 qs where ps: "ps = b1 # b2 # b3 # qs" and ok: "second_ok b0 b1" "cont b2" "cont b3"
      using assms p by (cases ps; cases "tl ps"; cases "tl (tl ps)")
        (auto simp: seq_len_def lead_size_def Let_def split: if_splits)
    define a b c d where "a = b0 - 240" and "b = b1 - 128" and "c = b2 - 128" and "d = b3 - 128"
    have abc: "b0 = 240 + a" "b1 = 128 + b" "b2 = 128 + c" "b3 = 128 + d" "a < 5" "b < 64" "c < 64" "d < 64"
      using 4 ok by (auto simp: a_def b_def c_def d_def second_ok_def cont_def split: if_splits)
    have r: "a = 0 \<longrightarrow> 16 \<le> b" "a = 4 \<longrightarrow> b < 16"
      using ok(1) abc by (auto simp: second_ok_def)
    let ?n = "a * 262144 + b * 4096 + c * 64 + d"
    have val: "seq_val p = ?n" "seq_len p = 4"
      using p ps ok abc by (simp_all add: seq_val_def seq_len_def lead_size_def digit_mods)
    moreover have "65536 \<le> ?n" "scalar ?n"
      using abc(5-8) r unfolding scalar_def by linarith+
    ultimately show ?thesis using p ps abc(1-4) digits4 [OF abc(6-8), of a] by (simp add: enc_def)
  qed
qed

section \<open>DecodeRune\<close>

lemma masked_bytes:
  "unat (ucast (b AND mask2) :: rune) = unat b mod 32" "unat (ucast (b AND mask3) :: rune) = unat b mod 16"
  "unat (ucast (b AND mask4) :: rune) = unat b mod 8" "unat (ucast (b AND maskx) :: rune) = unat b mod 64"
  using unat_and_mask [of b 5] unat_and_mask [of b 4] unat_and_mask [of b 3] unat_and_mask [of b 6]
  by (simp_all add: unat_ucast_mod mask2_def mask3_def mask4_def maskx_def mask_eq_exp_minus_1)

text \<open>The groupings of six-bit digits in \<open>DecodeRune\<close>.\<close>

lemma unat_digits:
  fixes a b c d :: rune
  assumes "unat b < 64" and "unat c < 64" and "unat d < 64"
  shows "unat a < 32 \<Longrightarrow> unat (push_bit 6 a OR b) = unat a * 64 + unat b"
    "unat a < 16 \<Longrightarrow> unat (push_bit 12 a OR push_bit 6 b OR c) = unat a * 4096 + unat b * 64 + unat c"
    "unat a < 8 \<Longrightarrow> unat (push_bit 18 a OR push_bit 12 b OR push_bit 6 c OR d) =
      unat a * 262144 + unat b * 4096 + unat c * 64 + unat d"
proof -
  have 1: "unat (push_bit 6 c OR d) = unat c * 64 + unat d" "unat (push_bit 6 b OR c) = unat b * 64 + unat c"
    using assms by (simp_all add: or_digits)
  show "unat a < 32 \<Longrightarrow> unat (push_bit 6 a OR b) = unat a * 64 + unat b"
    using assms by (simp add: or_digits)
  show "unat a < 16 \<Longrightarrow> unat (push_bit 12 a OR push_bit 6 b OR c) = unat a * 4096 + unat b * 64 + unat c"
    unfolding or.assoc using assms by (subst or_digits) (simp_all add: 1)
  have 2: "unat (push_bit 12 b OR (push_bit 6 c OR d)) = unat b * 4096 + unat c * 64 + unat d"
    using assms by (subst or_digits) (simp_all add: 1)
  show "unat a < 8 \<Longrightarrow> unat (push_bit 18 a OR push_bit 12 b OR push_bit 6 c OR d) =
      unat a * 262144 + unat b * 4096 + unat c * 64 + unat d"
    unfolding or.assoc using assms by (subst or_digits) (simp_all add: 2)
qed

text \<open>The rune and the width that \<open>DecodeRune\<close> promises, from the values of the bytes.\<close>

definition decode :: "nat list \<Rightarrow> nat \<times> nat" where
  "decode p = (if p = [] then (0xFFFD, 0) else if seq_len p = 0 then (0xFFFD, 1) else (seq_val p, seq_len p))"

lemma lead_cases:
  obtains "n < 0x80" | "0x80 \<le> n" "n < 0xC2 \<or> 0xF5 \<le> n" | "0xC2 \<le> n" "n < 0xF5" "lead_size n \<in> {2, 3, 4}"
  by (cases "n < 0x80"; cases "n < 0xC2 \<or> 0xF5 \<le> n") (auto simp: lead_size_def)

lemma rune_digits:
  "push_bit 6 (ucast (b0 AND mask2)) OR ucast (b1 AND maskx) =
    (of_nat (unat b0 mod 32 * 64 + unat b1 mod 64) :: rune)"
  "push_bit 12 (ucast (b0 AND mask3)) OR push_bit 6 (ucast (b1 AND maskx)) OR ucast (b2 AND maskx) =
    (of_nat (unat b0 mod 16 * 4096 + unat b1 mod 64 * 64 + unat b2 mod 64) :: rune)"
  "push_bit 18 (ucast (b0 AND mask4)) OR push_bit 12 (ucast (b1 AND maskx)) OR
    push_bit 6 (ucast (b2 AND maskx)) OR ucast (b3 AND maskx) =
    (of_nat (unat b0 mod 8 * 262144 + unat b1 mod 64 * 4096 + unat b2 mod 64 * 64 + unat b3 mod 64) :: rune)"
  using unat_digits(1) [of "ucast (b1 AND maskx)" 0 0 "ucast (b0 AND mask2)"]
    unat_digits(2) [of "ucast (b1 AND maskx)" "ucast (b2 AND maskx)" 0 "ucast (b0 AND mask3)"]
    unat_digits(3) [of "ucast (b1 AND maskx)" "ucast (b2 AND maskx)" "ucast (b3 AND maskx)" "ucast (b0 AND mask4)"]
  by (simp_all add: masked_bytes word_of_nat_eqI del: of_nat_add of_nat_mult)

lemma DecodeRune_decode:
  "DecodeRune p = (let (r, n) = decode (map unat p) in Some (of_nat r, n))"
proof (cases p)
  case Nil
  then show ?thesis by (simp add: DecodeRune_def decode_def RuneError_def)
next
  case (Cons b0 ps)
  show ?thesis
  proof (cases "unat b0" rule: lead_cases)
    case 1
    then have "classify (unat b0) = as" by (simp add: classify_def)
    then have "DecodeRune p = Some (ucast b0, 1)"
      by (simp add: Cons DecodeRune_def as_def)
    then show ?thesis using 1 by (simp add: Cons decode_def seq_len_def seq_val_def lead_size_def)
  next
    case 2
    then have "classify (unat b0) = xx" by (auto simp: classify_def)
    then have "DecodeRune p = Some (RuneError, 1)"
      by (simp add: Cons DecodeRune_def as_def xx_def)
    moreover have "seq_len (map unat p) = 0" using 2 by (auto simp: Cons seq_len_def lead_size_def)
    ultimately show ?thesis by (simp add: Cons decode_def RuneError_def)
  next
    case 3
    from classify_accept [OF 3(1,2)] obtain accept where
      acc: "slice_get acceptRanges (unat (drop_bit 4 (classify (unat b0)))) = Some accept"
      "\<And>c. (c < lo accept \<or> hi accept < c) \<longleftrightarrow> \<not> second_ok (unat b0) (unat c)" by blast
    have sz: "unat (classify (unat b0) AND 7) = lead_size (unat b0)" using 3 by (simp add: classify_size)
    have ns: "\<not> as \<le> classify (unat b0)" using 3 by (simp add: classify_special)
    have ranges: "lead_size (unat b0) = 2 \<Longrightarrow> unat b0 < 0xE0" "lead_size (unat b0) = 3 \<Longrightarrow> 0xE0 \<le> unat b0 \<and> unat b0 < 0xF0"
      "lead_size (unat b0) = 4 \<Longrightarrow> 0xF0 \<le> unat b0" by (auto simp: lead_size_def split: if_splits)
    have ge: "\<not> unat b0 < 0x80" using 3 by simp
    have bad: "length p < lead_size (unat b0) \<Longrightarrow> ?thesis"
      using 3(3) ns by (auto simp: Cons DecodeRune_def decode_def acc sz seq_len_def RuneError_def)
    note R = Cons DecodeRune_def decode_def acc sz ns ge seq_len_def seq_val_def Let_def bad_cont RuneError_def
      rune_digits
    consider "lead_size (unat b0) = 2" | "lead_size (unat b0) = 3" | "lead_size (unat b0) = 4"
      using 3(3) by auto
    then show ?thesis
    proof cases
      case 1
      then show ?thesis
      proof (cases ps)
        case (Cons b1 qs)
        then show ?thesis using 1 ranges(1) by (simp add: R del: of_nat_add of_nat_mult)
      qed (use bad \<open>p = b0 # ps\<close> in simp)
    next
      case 2
      show ?thesis
      proof (cases "length p < 3")
        case False
        then obtain b1 b2 qs where "ps = b1 # b2 # qs"
          using Cons by (cases ps; cases "tl ps") auto
        then show ?thesis using 2 ranges(2) by (simp add: R del: of_nat_add of_nat_mult)
      qed (use bad 2 in simp)
    next
      case 3
      show ?thesis
      proof (cases "length p < 4")
        case False
        then obtain b1 b2 b3 qs where "ps = b1 # b2 # b3 # qs"
          using Cons by (cases ps; cases "tl ps"; cases "tl (tl ps)") auto
        then show ?thesis using 3 ranges(3) by (simp add: R del: of_nat_add of_nat_mult)
      qed (use bad 3 in simp)
    qed
  qed
qed

section \<open>EncodeRune and AppendRune\<close>

text \<open>The bytes that the encoders write: a value that is not a scalar becomes \<^const>\<open>RuneError\<close>.\<close>

definition rune_bytes :: "rune \<Rightarrow> u8 list" where
  "rune_bytes r = map of_nat (enc (if scalar (unat r) then unat r else 0xFFFD))"

lemma lead_or:
  fixes w :: u8
  shows "unat w < 32 \<Longrightarrow> unat (t2 OR w) = 192 + unat w" "unat w < 32 \<Longrightarrow> unat (t3 OR w) = 224 + unat w"
    "unat w < 16 \<Longrightarrow> unat (t4 OR w) = 240 + unat w" "unat (tx OR (w AND maskx)) = 128 + unat w mod 64"
proof -
  have masked: "unat (w AND maskx) = unat w mod 64"
    using unat_and_mask [of w 6] by (simp add: maskx_def mask_eq_exp_minus_1)
  show "unat (tx OR (w AND maskx)) = 128 + unat w mod 64"
    using or_digits [of "w AND maskx" 7 1] mod_less_divisor [of 64 "unat w"] by (simp add: masked tx_def push_bit_eq_mult)
  show "unat w < 32 \<Longrightarrow> unat (t2 OR w) = 192 + unat w"
    using or_digits [of w 5 6] by (simp add: t2_def push_bit_eq_mult)
  show "unat w < 32 \<Longrightarrow> unat (t3 OR w) = 224 + unat w"
    using or_digits [of w 5 7] by (simp add: t3_def push_bit_eq_mult)
  show "unat w < 16 \<Longrightarrow> unat (t4 OR w) = 240 + unat w"
    using or_digits [of w 4 15] by (simp add: t4_def push_bit_eq_mult)
qed

lemma signed_shift:
  fixes r :: rune
  assumes "unat r < 2 ^ 31"
  shows "signed_drop_bit k r = drop_bit k r"
proof -
  have top: "\<not> bit r 31"
    using bit_top_iff [of r] assms by simp
  show ?thesis
  proof (rule bit_word_eqI)
    fix n assume "n < LENGTH(32)"
    have "\<not> bit r (k + n)" if "32 - k \<le> n"
      using that bit_imp_le_length [of r "k + n"] by auto
    then show "bit (signed_drop_bit k r) n = bit (drop_bit k r) n"
      using top by (auto simp: bit_signed_drop_bit_iff bit_drop_bit_eq)
  qed
qed

lemma div_mod_byte:
  fixes n :: nat
  shows "n div d mod 256 mod 64 = n div d mod 64" "n mod 256 mod 64 = n mod 64"
    "n < 2048 \<Longrightarrow> n div 64 < 32" "n < 65536 \<Longrightarrow> n div 4096 < 16" "n \<le> 1114111 \<Longrightarrow> n div 262144 < 5"
  by (simp_all add: mod_mod_cancel)

lemmas byte_simps = enc_def lead_or signed_shift div_mod_byte unat_ucast_mod unat_shr

text \<open>The bytes written on each branch of the encoders.\<close>

lemma written_bytes:
  "unat r < 0x80 \<Longrightarrow> map unat [ucast r :: u8] = enc (unat r)"
  "0x80 \<le> unat r \<Longrightarrow> unat r < 0x800 \<Longrightarrow>
    map unat [t2 OR ucast (signed_drop_bit 6 r), tx OR (ucast r AND maskx)] = enc (unat r)"
  "0x800 \<le> unat r \<Longrightarrow> unat r < 0x10000 \<Longrightarrow>
    map unat [t3 OR ucast (signed_drop_bit 12 r), tx OR (ucast (signed_drop_bit 6 r) AND maskx),
     tx OR (ucast r AND maskx)] = enc (unat r)"
  "0x10000 \<le> unat r \<Longrightarrow> unat r \<le> 0x10FFFF \<Longrightarrow>
    map unat [t4 OR ucast (signed_drop_bit 18 r), tx OR (ucast (signed_drop_bit 12 r) AND maskx),
     tx OR (ucast (signed_drop_bit 6 r) AND maskx), tx OR (ucast r AND maskx)] = enc (unat r)"
  for r :: rune
  by (simp_all add: byte_simps)

lemmas written = written_bytes [THEN map_unat_eqD]

lemma written_RuneError:
  "[t3 OR ucast (signed_drop_bit 12 RuneError), tx OR (ucast (signed_drop_bit 6 RuneError) AND maskx),
    tx OR (ucast RuneError AND maskx)] = map of_nat (enc 0xFFFD)"
  using written(3) [of RuneError] by (simp add: RuneError_def)

lemma rune_cases:
  fixes r :: rune
  obtains "unat r < 0x80" | "0x80 \<le> unat r" "unat r < 0x800"
  | "0x800 \<le> unat r" "unat r < 0x10000" "\<not> (0xD800 \<le> unat r \<and> unat r \<le> 0xDFFF)"
  | "0x800 \<le> unat r" "0xD800 \<le> unat r" "unat r \<le> 0xDFFF" | "0x10000 \<le> unat r" "unat r \<le> 0x10FFFF"
  | "0x10FFFF < unat r"
  by linarith

lemmas rune_order = rune1Max_def rune2Max_def rune3Max_def MaxRune_def surrogateMin_def surrogateMax_def
  word_le_nat_alt word_less_nat_alt

lemma AppendRune_bytes: "AppendRune p r = p @ rune_bytes r"
  unfolding AppendRune_def appendRuneNonASCII_def rune_bytes_def Let_def
  by (cases r rule: rune_cases) (auto simp: rune_order scalar_def written written_RuneError)

lemma length_enc: "length (enc n) = (if n < 0x80 then 1 else if n < 0x800 then 2 else if n < 0x10000 then 3 else 4)"
  by (simp add: enc_def)

text \<open>Writing by index into a slice that is long enough.\<close>

lemma update_prefix:
  "(a # b # q)[1 := v] = a # v # q" "(a # b # c # q)[2 := v] = a # b # v # q"
  "(a # b # c # d # q)[3 := v] = a # b # c # v # q"
  "drop 2 (a # b # q) = q" "drop 3 (a # b # c # q) = q" "drop 4 (a # b # c # d # q) = q"
  by (simp_all add: numeral_eq_Suc)

lemma slice_shapes:
  obtains "p = []" | a where "p = [a]" | a b where "p = [a, b]" | a b c where "p = [a, b, c]"
  | a b c d q where "p = a # b # c # d # q"
  by (metis list.exhaust)

lemma EncodeRune_bytes:
  "EncodeRune p r =
   (let e = rune_bytes r
    in if length p < length e then None else Some (e @ drop (length e) p, length e))"
  unfolding EncodeRune_def rune_bytes_def Let_def
  by (cases r rule: rune_cases; cases p rule: slice_shapes)
    (auto simp: rune_order scalar_def length_enc update_prefix simp flip: written written_RuneError)

section \<open>RuneCount and Valid\<close>

lemma slice_get_tail:
  assumes "drop i p = b # ps"
  shows "slice_get p i = Some b" "slice_get p (Suc i) = slice_get ps 0" "slice_get p (Suc (Suc i)) = slice_get ps 1"
    "slice_get p (i + 3) = slice_get ps 2" "length p = i + Suc (length ps)"
proof -
  have len: "length p - i = Suc (length ps)" using assms by (metis length_drop length_Cons)
  then have i: "i < length p" by linarith
  have nth: "p ! (i + k) = (b # ps) ! k" if "i + k < length p" for k
    using assms that by (metis nth_drop less_imp_le i)
  show "length p = i + Suc (length ps)" using len i by linarith
  then show "slice_get p i = Some b" "slice_get p (Suc i) = slice_get ps 0"
    "slice_get p (Suc (Suc i)) = slice_get ps 1" "slice_get p (i + 3) = slice_get ps 2"
    using nth [of 0] nth [of 1] nth [of 2] nth [of 3] by (simp_all add: slice_get_def)
qed

text \<open>
  The checks of the continuation bytes in \<open>RuneCount\<close> and \<open>Valid\<close>, for a leading byte of a longer
  sequence whose bytes are all there.
\<close>

lemma RuneCount_size_seq:
  assumes p: "drop i p = b0 # ps" and lead: "0xC2 \<le> unat b0" "unat b0 < 0xF5"
    and len: "lead_size (unat b0) \<le> length (b0 # ps)"
  shows "RuneCount_size p i (classify (unat b0)) (lead_size (unat b0)) =
    Some (max 1 (seq_len (map unat (b0 # ps))))"
proof -
  from classify_accept [OF lead] obtain accept where
    acc: "slice_get acceptRanges (unat (drop_bit 4 (classify (unat b0)))) = Some accept"
    "\<And>c. (c < lo accept \<or> hi accept < c) \<longleftrightarrow> \<not> second_ok (unat b0) (unat c)" by blast
  note g = slice_get_tail [OF p]
  consider "lead_size (unat b0) = 2" | "lead_size (unat b0) = 3" | "lead_size (unat b0) = 4"
    using lead lead_cases [of "unat b0"] by fastforce
  then show ?thesis
    using len by cases (cases ps rule: slice_shapes; simp add: RuneCount_size_def acc g bad_cont seq_len_def; fail)+
qed

lemma RuneCount_step_decode:
  assumes "i < length p"
  shows "RuneCount_step p i = Some (i + snd (decode (map unat (drop i p))))"
proof -
  obtain b0 ps where p: "drop i p = b0 # ps" using assms by (metis Cons_nth_drop_Suc)
  note g = slice_get_tail [OF p]
  show ?thesis
  proof (cases "unat b0" rule: lead_cases)
    case 1
    then have "b0 < RuneSelf" by (simp add: RuneSelf_def word_less_nat_alt)
    then show ?thesis using 1 by (simp add: RuneCount_step_def g p decode_def seq_len_def lead_size_def)
  next
    case 2
    then have "\<not> b0 < RuneSelf" "classify (unat b0) = xx"
      by (auto simp: RuneSelf_def word_less_nat_alt classify_def)
    moreover have "seq_len (map unat (b0 # ps)) = 0" using 2 by (auto simp: seq_len_def lead_size_def)
    ultimately show ?thesis by (simp add: RuneCount_step_def g p decode_def)
  next
    case 3
    then have "\<not> b0 < RuneSelf" "classify (unat b0) \<noteq> xx" "unat (classify (unat b0) AND 7) = lead_size (unat b0)"
      by (auto simp: RuneSelf_def word_less_nat_alt classify_special classify_size)
    then show ?thesis
      using RuneCount_size_seq [OF p 3(1,2)]
      by (auto simp: RuneCount_step_def g p decode_def seq_len_def Let_def)
  qed
qed

lemma Valid_step_seq:
  assumes "i < length p"
  shows "Valid_step p i =
    Some (let n = seq_len (map unat (drop i p)) in if n = 0 then None else Some (i + n))"
proof -
  obtain b0 ps where p: "drop i p = b0 # ps" using assms by (metis Cons_nth_drop_Suc)
  note g = slice_get_tail [OF p]
  show ?thesis
  proof (cases "unat b0" rule: lead_cases)
    case 1
    then have "b0 < RuneSelf" by (simp add: RuneSelf_def word_less_nat_alt)
    then show ?thesis using 1 by (simp add: Valid_step_def g p seq_len_def lead_size_def)
  next
    case 2
    then have "\<not> b0 < RuneSelf" "classify (unat b0) = xx"
      by (auto simp: RuneSelf_def word_less_nat_alt classify_def)
    moreover have "seq_len (map unat (b0 # ps)) = 0" using 2 by (auto simp: seq_len_def lead_size_def)
    ultimately show ?thesis by (simp add: Valid_step_def g p)
  next
    case 3
    then have *: "\<not> b0 < RuneSelf" "classify (unat b0) \<noteq> xx" "unat (classify (unat b0) AND 7) = lead_size (unat b0)"
      by (auto simp: RuneSelf_def word_less_nat_alt classify_special classify_size)
    from classify_accept [OF 3(1,2)] obtain accept where
      acc: "slice_get acceptRanges (unat (drop_bit 4 (classify (unat b0)))) = Some accept"
      "\<And>c. (c < lo accept \<or> hi accept < c) \<longleftrightarrow> \<not> second_ok (unat b0) (unat c)" by blast
    consider "lead_size (unat b0) = 2" | "lead_size (unat b0) = 3" | "lead_size (unat b0) = 4"
      using 3(3) by auto
    then show ?thesis
      by cases (cases ps rule: slice_shapes;
        simp add: Valid_step_def g p acc * bad_cont seq_len_def; fail)+
  qed
qed

text \<open>The runes that a loop over the string sees, and the well-formed lists of bytes.\<close>

function runes :: "nat list \<Rightarrow> nat list" where
  "runes p = (if p = [] then [] else fst (decode p) # runes (drop (snd (decode p)) p))"
  by pat_completeness auto
termination
  by (relation "measure length") (auto simp: decode_def)

function well_formed :: "nat list \<Rightarrow> bool" where
  "well_formed p =
    (if p = [] then True else if seq_len p = 0 then False else well_formed (drop (seq_len p) p))"
  by pat_completeness auto
termination
  by (relation "measure length") auto

declare runes.simps [simp del] well_formed.simps [simp del]

lemma runes_Nil [simp]: "runes [] = []"
  by (simp add: runes.simps)

lemma well_formed_Nil [simp]: "well_formed []"
  by (simp add: well_formed.simps)

lemma decode_width: "p \<noteq> [] \<Longrightarrow> 0 < snd (decode p) \<and> snd (decode p) \<le> length p"
  using seq_enc [of p] by (cases p) (auto simp: decode_def)

lemma RuneCount_loop_runes:
  "i \<le> length p \<Longrightarrow> RuneCount_loop p i n = Some (n + length (runes (map unat (drop i p))))"
proof (induction "length p - i" arbitrary: i n rule: less_induct)
  case less
  show ?case
  proof (cases "i < length p")
    case True
    define w where "w = snd (decode (map unat (drop i p)))"
    have w: "0 < w" "w \<le> length p - i"
      using decode_width [of "map unat (drop i p)"] True by (simp_all add: w_def)
    have step: "RuneCount_step p i = Some (i + w)"
      unfolding w_def by (rule RuneCount_step_decode [OF True])
    have "RuneCount_loop p (i + w) (n + 1) = Some (n + 1 + length (runes (map unat (drop (i + w) p))))"
      using w True by (intro less) linarith+
    moreover have "runes (map unat (drop i p)) =
        fst (decode (map unat (drop i p))) # runes (map unat (drop (i + w) p))"
      using True by (subst runes.simps) (simp add: w_def drop_map add.commute)
    ultimately show ?thesis
      using True step by (subst RuneCount_loop.simps) simp
  next
    case False
    with less.prems show ?thesis by (subst RuneCount_loop.simps) simp
  qed
qed

lemma RuneCount_runes: "RuneCount p = Some (length (runes (map unat p)))"
  using RuneCount_loop_runes [of 0 p 0] by (simp add: RuneCount_def)

lemma Valid_loop_well_formed:
  "i \<le> length p \<Longrightarrow> Valid_loop p i = Some (well_formed (map unat (drop i p)))"
proof (induction "length p - i" arbitrary: i rule: less_induct)
  case less
  show ?case
  proof (cases "i < length p")
    case True
    let ?q = "map unat (drop i p)"
    define w where "w = seq_len ?q"
    have step: "Valid_step p i = Some (if w = 0 then None else Some (i + w))"
      unfolding w_def by (simp add: Valid_step_seq [OF True] Let_def)
    have wf: "well_formed ?q \<longleftrightarrow> w \<noteq> 0 \<and> well_formed (map unat (drop (i + w) p))"
      using True by (subst well_formed.simps) (simp add: w_def drop_map add.commute)
    show ?thesis
    proof (cases "w = 0")
      case False
      then have "w \<le> length p - i"
        using seq_enc [of ?q] by (simp add: w_def)
      then have "Valid_loop p (i + w) = Some (well_formed (map unat (drop (i + w) p)))"
        using False True by (intro less) linarith+
      then show ?thesis using True False step wf by (simp add: Valid_loop.simps [of p i])
    qed (use True step wf in \<open>simp add: Valid_loop.simps [of p i]\<close>)
  next
    case False
    with less.prems show ?thesis by (subst Valid_loop.simps) simp
  qed
qed

text \<open>The fast path only skips ASCII.\<close>

lemma well_formed_ascii: "(\<And>b. b \<in> set bs \<Longrightarrow> b < 0x80) \<Longrightarrow> well_formed (bs @ p) \<longleftrightarrow> well_formed p"
proof (induction bs)
  case (Cons a bs)
  then have "seq_len (a # bs @ p) = 1" by (simp add: seq_len_def lead_size_def)
  then show ?case using Cons by (simp add: well_formed.simps [of "a # bs @ p"])
qed simp

lemma low_byte: "unat b < 0x80 \<longleftrightarrow> \<not> bit b 7" for b :: u8
  using bit_top_iff [of b] by auto

lemma Valid_ascii8_bytes:
  assumes "Valid_ascii8 p" and "k < 8"
  shows "unat (p ! k) < 0x80"
proof -
  have "\<not> bit (p ! k) 7"
  proof -
    define w :: u32 where "w = (ucast (p ! 0) OR push_bit 8 (ucast (p ! 1)) OR push_bit 16 (ucast (p ! 2)) OR
           push_bit 24 (ucast (p ! 3))) OR (ucast (p ! 4) OR push_bit 8 (ucast (p ! 5)) OR push_bit 16 (ucast (p ! 6)) OR
           push_bit 24 (ucast (p ! 7)))"
    have "w AND 0x80808080 = 0" using assms(1) by (simp add: Valid_ascii8_def w_def)
    then have "\<not> bit (w AND 0x80808080) j" for j by simp
    from this [of 7] this [of 15] this [of 23] this [of 31]
    moreover have "k = 0 \<or> k = 1 \<or> k = 2 \<or> k = 3 \<or> k = 4 \<or> k = 5 \<or> k = 6 \<or> k = 7"
      using assms(2) by linarith
    ultimately show ?thesis
      by (auto simp: w_def bit_simps)
  qed
  then show ?thesis by (simp add: low_byte)
qed
end
