(* ===== verification/Utf8_Correct.thy ===== *)
theory Utf8_Correct
  imports Utf8_Spec
begin

text \<open>
  What the functions of \<^verbatim>\<open>unicode/utf8\<close> compute together: decoding undoes encoding, only encodings decode,
  validity and counting, decoding from the end, and incomplete encodings.
\<close>

section \<open>Runes as scalar values\<close>

lemma ValidRune_scalar: "ValidRune r \<longleftrightarrow> scalar (unat r)"
  using unat_lt32 [of r]
  by (auto simp: ValidRune_def scalar_def sint_uint_if surrogateMin_def surrogateMax_def MaxRune_def uint_unat_numeral
    simp del: unat_lt32)

section \<open>The bytes of a rune\<close>

lemma enc_bytes: "n \<le> 0x10FFFF \<Longrightarrow> b \<in> set (enc n) \<Longrightarrow> b < 256"
  by (auto simp: enc_def split: if_splits)

lemma unat_rune_bytes: "map unat (rune_bytes r) = enc (if scalar (unat r) then unat r else 0xFFFD)"
proof -
  have "map unat (map of_nat ns :: u8 list) = ns" if "\<And>b. b \<in> set ns \<Longrightarrow> b < 256" for ns
    using that by (induction ns) (simp_all add: unat_of_nat)
  moreover have "b < 256" if "b \<in> set (enc (if scalar (unat r) then unat r else 0xFFFD))" for b
    using enc_bytes [OF _ that] by (auto simp: scalar_def split: if_splits)
  ultimately show ?thesis by (simp only: rune_bytes_def)
qed

lemma RuneLen_length: "RuneLen r = (if ValidRune r then int (length (rune_bytes r)) else - 1)"
  using unat_lt32 [of r]
  by (auto simp: RuneLen_def rune_bytes_def ValidRune_scalar scalar_def length_enc sint_uint_if uint_unat_numeral rune1Max_def rune2Max_def
      rune3Max_def surrogateMin_def surrogateMax_def MaxRune_def simp del: unat_lt32)

lemma RuneStart_cont: "RuneStart b \<longleftrightarrow> \<not> cont (unat b)"
proof -
  have "b AND 0xC0 = push_bit 6 (drop_bit 6 b)"
  proof -
    have "b AND NOT (mask 6) = push_bit 6 (drop_bit 6 b)" by (auto intro!: bit_word_eqI simp: bit_simps)
    moreover have "NOT (mask 6) = (0xC0 :: u8)" by (simp add: mask_eq_exp_minus_1)
    ultimately show ?thesis by metis
  qed
  then have "unat (b AND 0xC0) = unat b div 64 * 64 mod 256"
    by (simp add: unat_shl unat_shr)
  also have "\<dots> = unat b div 64 * 64"
    using unat_lt8 [of b] div_times_less_eq_dividend [of "unat b" 64] by (intro mod_less) linarith
  finally have "b AND 0xC0 = 0x80 \<longleftrightarrow> unat b div 64 = 2"
    by (simp add: word_unat_eq_iff)
  also have "\<dots> \<longleftrightarrow> cont (unat b)"
    unfolding cont_def by linarith
  finally show ?thesis by (simp add: RuneStart_def)
qed

section \<open>Decoding and encoding\<close>

definition encoded :: "rune \<Rightarrow> rune" where
  "encoded r = (if ValidRune r then r else RuneError)"

lemma rune_bytes_seq:
  "seq_len (map unat (rune_bytes r) @ q) = length (rune_bytes r) \<and>
   seq_val (map unat (rune_bytes r) @ q) = unat (encoded r)"
proof -
  let ?v = "if scalar (unat r) then unat r else 0xFFFD"
  have "scalar ?v" by (simp add: scalar_def)
  from enc_seq [OF this, of q]
  have "seq_len (map unat (rune_bytes r) @ q) = length (map unat (rune_bytes r)) \<and>
    seq_val (map unat (rune_bytes r) @ q) = ?v"
    unfolding unat_rune_bytes .
  moreover have "unat (encoded r) = ?v" by (simp add: encoded_def ValidRune_scalar RuneError_def)
  ultimately show ?thesis by simp
qed

lemma rune_bytes_nonempty: "rune_bytes r \<noteq> []" "length (rune_bytes r) \<le> 4"
  by (simp_all add: rune_bytes_def enc_def)

lemma decode_rune_bytes: "decode (map unat (rune_bytes r @ q)) = (unat (encoded r), length (rune_bytes r))"
  using rune_bytes_seq [of r "map unat q"] rune_bytes_nonempty by (simp add: decode_def)

lemma DecodeRune_rune_bytes: "DecodeRune (rune_bytes r @ q) = Some (encoded r, length (rune_bytes r))"
  unfolding DecodeRune_decode decode_rune_bytes by simp

text \<open>A well-formed head is the encoding of a valid rune.\<close>

lemma seq_rune:
  assumes "seq_len (map unat p) \<noteq> 0"
  shows "\<exists>r. ValidRune r \<and> unat r = seq_val (map unat p) \<and> rune_bytes r = take (seq_len (map unat p)) p"
proof -
  let ?n = "seq_val (map unat p)"
  from seq_enc [OF assms] have sc: "scalar ?n" and e: "enc ?n = map unat (take (seq_len (map unat p)) p)"
    by (simp_all add: take_map)
  have "unat (of_nat ?n :: rune) = ?n" using sc by (auto simp: scalar_def unat_of_nat)
  then have r: "scalar (unat (of_nat ?n :: rune))" "unat (of_nat ?n :: rune) = ?n" using sc by simp_all
  then have "map unat (rune_bytes (of_nat ?n)) = map unat (take (seq_len (map unat p)) p)"
    unfolding unat_rune_bytes by (simp add: e)
  moreover have "inj (unat :: u8 \<Rightarrow> nat)" by (simp add: inj_def word_unat_eq_iff)
  ultimately have "rune_bytes (of_nat ?n) = take (seq_len (map unat p)) p"
    by (metis inj_map_eq_map)
  with r show ?thesis by (intro exI [of _ "of_nat ?n"]) (simp add: ValidRune_scalar)
qed

text \<open>Distinct runes have encodings of which none is a prefix of another.\<close>

lemma rune_bytes_prefix_free:
  "rune_bytes r @ q = rune_bytes r' @ q' \<Longrightarrow> encoded r = encoded r' \<and> q = q'"
  using DecodeRune_rune_bytes [of r q] DecodeRune_rune_bytes [of r' q'] by simp

lemma well_formed_rune_bytes: "well_formed (map unat (rune_bytes r) @ q) \<longleftrightarrow> well_formed q"
  using rune_bytes_seq [of r q] rune_bytes_nonempty [of r]
  by (subst well_formed.simps) simp

lemma well_formed_concat: "well_formed (map unat (concat (map rune_bytes rs)))"
  by (induction rs) (simp_all add: well_formed_rune_bytes)

lemma well_formed_runes:
  "well_formed ns \<Longrightarrow> ns = map unat p \<Longrightarrow> \<exists>rs. list_all ValidRune rs \<and> p = concat (map rune_bytes rs)"
proof (induction ns arbitrary: p rule: well_formed.induct)
  case (1 ns)
  show ?case
  proof (cases "p = []")
    case True
    then show ?thesis by (intro exI [of _ "[]"]) simp
  next
    case False
    let ?n = "seq_len ns"
    have n: "?n \<noteq> 0" "well_formed (drop ?n ns)"
      using 1(2,3) False by (auto simp: well_formed.simps [of "map unat p"] split: if_splits)
    from seq_rune [of p] n obtain r where r: "ValidRune r" "rune_bytes r = take ?n p"
      unfolding 1(3) by blast
    have "\<exists>rs. list_all ValidRune rs \<and> drop ?n p = concat (map rune_bytes rs)"
      using 1(3) False n by (intro 1(1)) (simp_all add: drop_map)
    then obtain rs where rs: "list_all ValidRune rs" "drop ?n p = concat (map rune_bytes rs)" by blast
    have "p = concat (map rune_bytes (r # rs))" unfolding list.map concat.simps r(2) rs(2) [symmetric] by simp
    with r rs show ?thesis by (intro exI [of _ "r # rs"]) simp
  qed
qed

lemma runes_concat: "runes (map unat (concat (map rune_bytes rs))) = map (\<lambda>r. unat (encoded r)) rs"
proof (induction rs)
  case (Cons r rs)
  let ?q = "concat (map rune_bytes rs)"
  have d: "decode (map unat (rune_bytes r @ ?q)) = (unat (encoded r), length (rune_bytes r))"
    by (rule decode_rune_bytes)
  have "map unat (rune_bytes r @ ?q) \<noteq> []" using rune_bytes_nonempty [of r] by simp
  then have "runes (map unat (rune_bytes r @ ?q)) = unat (encoded r) # runes (map unat ?q)"
    using d by (subst runes.simps) simp
  then show ?case using Cons by simp
qed simp

lemma Valid_fast_ascii: "\<exists>bs. p = bs @ Valid_fast p \<and> (\<forall>b\<in>set bs. unat b < 0x80)"
proof (induction p rule: Valid_fast.induct)
  case (1 p)
  show ?case
  proof (cases "8 \<le> length p \<and> Valid_ascii8 p")
    case True
    with 1 obtain bs where bs: "drop 8 p = bs @ Valid_fast (drop 8 p)" "\<forall>b\<in>set bs. unat b < 0x80" by blast
    have "\<forall>b\<in>set (take 8 p). unat b < 0x80"
      using True Valid_ascii8_bytes [of p] by (auto simp: in_set_conv_nth)
    moreover have "p = (take 8 p @ bs) @ Valid_fast (drop 8 p)"
      using bs(1) append_take_drop_id [of 8 p] by simp
    moreover have "Valid_fast p = Valid_fast (drop 8 p)" using True by (subst Valid_fast.simps) simp
    ultimately show ?thesis using bs(2) by (intro exI [of _ "take 8 p @ bs"]) auto
  next
    case False
    then have "Valid_fast p = p" by (subst Valid_fast.simps) auto
    then show ?thesis by (intro exI [of _ "[]"]) simp
  qed
qed

lemma Valid_well_formed: "Valid p = Some (well_formed (map unat p))"
proof -
  from Valid_fast_ascii [of p] obtain bs where bs: "p = bs @ Valid_fast p" "\<forall>b\<in>set bs. unat b < 0x80" by blast
  have "well_formed (map unat (bs @ Valid_fast p)) \<longleftrightarrow> well_formed (map unat (Valid_fast p))"
    using bs(2) well_formed_ascii [of "map unat bs" "map unat (Valid_fast p)"] by auto
  then show ?thesis
    using bs(1) Valid_loop_well_formed [of 0 "Valid_fast p"] by (simp add: Valid_def)
qed

section \<open>Decoding from the end\<close>

lemma rune_bytes_starts:
  "RuneStart (rune_bytes r ! 0)"
  "0 < k \<Longrightarrow> k < length (rune_bytes r) \<Longrightarrow> \<not> RuneStart (rune_bytes r ! k)"
  "length (rune_bytes r) = 1 \<longleftrightarrow> unat (rune_bytes r ! 0) < 0x80"
  "0 < k \<Longrightarrow> k < length (rune_bytes r) \<Longrightarrow> 0x80 \<le> unat (rune_bytes r ! k)"
proof -
  let ?v = "if scalar (unat r) then unat r else 0xFFFD"
  let ?e = "map unat (rune_bytes r)"
  have e: "?e = enc ?v" by (rule unat_rune_bytes)
  have v: "?v \<le> 0x10FFFF" by (simp add: scalar_def)
  have len: "length (rune_bytes r) = length (enc ?v)" using arg_cong [OF e, of length] by simp
  have nth: "k < length (enc ?v) \<Longrightarrow> unat (rune_bytes r ! k) = enc ?v ! k" for k
    unfolding len [symmetric] e [symmetric] by simp
  have 0: "0 < length (enc ?v)" by (simp add: enc_def)
  have "\<not> cont (enc ?v ! 0)" using v by (simp add: enc_def cont_def) 
  then show "RuneStart (rune_bytes r ! 0)" by (simp add: RuneStart_cont nth [OF 0])
  have c: "cont (enc ?v ! k)" if "0 < k" "k < length (enc ?v)" for k
  proof -
    have "k = 1 \<or> k = 2 \<or> k = 3" using that by (auto simp: enc_def split: if_splits)
    then show ?thesis using that by (auto simp: enc_def cont_def split: if_splits)
  qed
  show "0 < k \<Longrightarrow> k < length (rune_bytes r) \<Longrightarrow> \<not> RuneStart (rune_bytes r ! k)"
    using c [of k] by (simp add: RuneStart_cont nth len)
  show "0 < k \<Longrightarrow> k < length (rune_bytes r) \<Longrightarrow> 0x80 \<le> unat (rune_bytes r ! k)"
    using c [of k] by (simp add: nth len cont_def)
  show "length (rune_bytes r) = 1 \<longleftrightarrow> unat (rune_bytes r ! 0) < 0x80"
    unfolding nth [OF 0] len by (simp add: enc_def)
qed

lemma DecodeLastRune_loop_stop:
  assumes "lim \<le> a" and "a + k < length p" and "RuneStart (p ! a)"
    and "\<And>j. a < j \<Longrightarrow> j \<le> a + k \<Longrightarrow> \<not> RuneStart (p ! j)"
  shows "DecodeLastRune_loop p lim (Suc (a + k)) = Some a"
  using assms by (induction k) simp_all

lemma below_RuneSelf: "sint (ucast b :: rune) < sint (ucast RuneSelf :: rune) \<longleftrightarrow> unat b < 0x80" for b :: u8
proof -
  have "unat (ucast b :: rune) = unat b" using unat_lt8 [of b] by (simp add: unat_ucast_mod del: unat_lt8)
  then have "uint (ucast b :: rune) < 128 \<longleftrightarrow> unat b < 128" "unat (ucast b :: rune) < 256"
    using unat_lt8 [of b] by (simp_all only: uint_unat_numeral)
  then show ?thesis by (simp add: sint_uint_if RuneSelf_def)
qed

lemma DecodeLastRune_rune_bytes:
  "DecodeLastRune (q @ rune_bytes r) = Some (encoded r, length (rune_bytes r))"
proof -
  let ?e = "rune_bytes r" and ?p = "q @ rune_bytes r"
  have ne: "?e \<noteq> []" "length ?e \<le> 4" by (rule rune_bytes_nonempty)+
  have dec: "DecodeRune ?e = Some (encoded r, length ?e)" using DecodeRune_rune_bytes [of r "[]"] by simp
  show ?thesis
  proof (cases "length ?e = 1")
    case True
    then obtain b where b: "?e = [b]" by (cases ?e) auto
    with rune_bytes_starts(3) [of r] have "unat b < 0x80" by simp
    moreover from dec b this have "encoded r = ucast b"
      by (simp add: DecodeRune_def classify_def as_def)
    ultimately show ?thesis
      using b by (simp add: DecodeLastRune_def below_RuneSelf nth_append)
  next
    case False
    then obtain k where k: "length ?e = Suc (Suc k)" using ne by (cases ?e; cases "tl ?e") auto
    have nth: "?p ! (length q + j) = ?e ! j" for j by (simp add: nth_append)
    have last: "slice_get ?p (length q + Suc k) = Some (?e ! Suc k)" using nth [of "Suc k"] k by simp
    have "0x80 \<le> unat (?e ! Suc k)" using rune_bytes_starts(4) [of "Suc k" r] k by simp
    then have high: "\<not> sint (ucast (?e ! Suc k) :: rune) < sint (ucast RuneSelf :: rune)"
      by (simp only: below_RuneSelf not_less)
    have "DecodeLastRune_loop ?p (length ?p - UTFMax) (Suc (length q + k)) = Some (length q)"
    proof (rule DecodeLastRune_loop_stop)
      show "RuneStart (?p ! length q)" using nth [of 0] rune_bytes_starts(1) [of r] by simp
      show "\<not> RuneStart (?p ! j)" if "length q < j" "j \<le> length q + k" for j
        using nth [of "j - length q"] rune_bytes_starts(2) [of "j - length q" r] that k by simp
    qed (use k ne in \<open>simp_all add: UTFMax_def\<close>)
    then show ?thesis
      using last high k dec by (simp add: DecodeLastRune_def)
  qed
qed

section \<open>Incomplete encodings\<close>

definition incomplete :: "nat list \<Rightarrow> bool" where
  "incomplete ns \<longleftrightarrow> ns = [] \<or> 0xC2 \<le> ns ! 0 \<and> ns ! 0 < 0xF5 \<and> length ns < lead_size (ns ! 0) \<and>
    (1 < length ns \<longrightarrow> second_ok (ns ! 0) (ns ! 1)) \<and> (2 < length ns \<longrightarrow> cont (ns ! 2))"

lemma FullRune_incomplete: "FullRune p = Some (\<not> incomplete (map unat p))"
proof (cases p)
  case Nil
  then show ?thesis by (simp add: FullRune_def incomplete_def)
next
  case (Cons b0 ps)
  show ?thesis
  proof (cases "unat b0" rule: lead_cases)
    case 3
    from classify_accept [OF 3(1,2)] obtain accept where
      acc: "slice_get acceptRanges (unat (drop_bit 4 (classify (unat b0)))) = Some accept"
      "\<And>c. (c < lo accept \<or> hi accept < c) \<longleftrightarrow> \<not> second_ok (unat b0) (unat c)" by blast
    have "unat (classify (unat b0) AND 7) = lead_size (unat b0)" using 3 by (simp add: classify_size)
    then show ?thesis
      using 3 Cons by (cases ps rule: slice_shapes) (auto simp: FullRune_def incomplete_def acc bad_cont)
  qed (auto simp: Cons FullRune_def incomplete_def classify_size lead_size_def)
qed

text \<open>Incomplete are the proper prefixes of the well-formed sequences.\<close>

lemma incomplete_extends:
  assumes "incomplete ns"
  shows "\<exists>qs. qs \<noteq> [] \<and> seq_len (ns @ qs) = length (ns @ qs)"
proof (cases ns)
  case Nil
  then show ?thesis by (intro exI [of _ "[0]"]) (simp add: seq_len_def lead_size_def)
next
  case (Cons b0 bs)
  define m where "m = (if b0 = 0xE0 then 0xA0 else if b0 = 0xF0 then 0x90 else 0x80 :: nat)"
  have m: "second_ok b0 m" by (simp add: second_ok_def m_def)
  have c: "cont 0x80" by (simp add: cont_def)
  define qs where "qs = take (lead_size b0 - length ns) (drop (length bs) [m, 0x80, 0x80])"
  have "length bs < lead_size b0 - 1" "lead_size b0 = 2 \<or> lead_size b0 = 3 \<or> lead_size b0 = 4"
    using assms by (cases b0 rule: lead_cases; auto simp: incomplete_def Cons)+
  then have "qs \<noteq> [] \<and> seq_len (ns @ qs) = length (ns @ qs)"
    using assms m c
    by (cases bs rule: slice_shapes) (auto simp: qs_def seq_len_def incomplete_def Cons numeral_3_eq_3 numeral_2_eq_2)
  then show ?thesis by blast
qed

lemma extends_incomplete:
  assumes "seq_len (ns @ qs) = length (ns @ qs)" and "qs \<noteq> []"
  shows "incomplete ns"
proof (cases ns)
  case (Cons b0 bs)
  have n: "seq_len (ns @ qs) \<noteq> 0" using assms by simp
  moreover have len: "Suc 0 \<le> length bs + length qs" using assms(2) by (cases qs) simp_all
  ultimately have "lead_size b0 = length (ns @ qs)" and "2 \<le> lead_size b0"
    using assms(1) by (auto simp: seq_len_def Cons Let_def split: if_splits)
  moreover have "0xC2 \<le> b0" "b0 < 0xF5" using \<open>2 \<le> lead_size b0\<close> by (auto simp: lead_size_def split: if_splits)
  ultimately show ?thesis
    using n len assms(2) by (auto simp: incomplete_def seq_len_def Cons Let_def nth_append split: if_splits)
qed (simp add: incomplete_def)

section \<open>Properties\<close>

lemma AppendRune_Nil: "AppendRune [] r = rune_bytes r"
  by (simp add: AppendRune_bytes)

lemma InString_eq:
  "FullRuneInString s = FullRune s" "DecodeRuneInString s = DecodeRune s"
  "DecodeLastRuneInString s = DecodeLastRune s" "RuneCountInString s = RuneCount s" "ValidString s = Valid s"
proof -
  show d: "DecodeRuneInString s = DecodeRune s" for s unfolding DecodeRuneInString_def DecodeRune_def ..
  show "FullRuneInString s = FullRune s" unfolding FullRuneInString_def FullRune_def ..
  show "DecodeLastRuneInString s = DecodeLastRune s" unfolding DecodeLastRuneInString_def DecodeLastRune_def d ..
  show "RuneCountInString s = RuneCount s" unfolding RuneCountInString_def RuneCount_def ..
  show "ValidString s = Valid s" unfolding ValidString_def Valid_def ..
qed

lemma length_runes: "length (runes p) \<le> length p"
proof (induction p rule: runes.induct)
  case (1 p)
  show ?case
  proof (cases "p = []")
    case False
    with 1 decode_width [of p] show ?thesis by (subst runes.simps) (simp, linarith)
  qed simp
qed

text \<open>C17. The encoding of a rune, an invalid one replaced by \<^const>\<open>RuneError\<close>, decodes to that rune and its
  width whatever bytes follow, and from the end of a string whatever bytes precede; \<open>EncodeRune\<close> writes the
  bytes that \<open>AppendRune\<close> appends and panics exactly when the slice is too short; \<open>RuneLen\<close> is their number.\<close>

theorem encode_decode:
  "DecodeRune (AppendRune [] r @ q) = Some (if ValidRune r then r else RuneError, length (AppendRune [] r)) \<and>
   DecodeLastRune (q @ AppendRune [] r) =
     Some (if ValidRune r then r else RuneError, length (AppendRune [] r)) \<and>
   AppendRune p r = p @ AppendRune [] r \<and>
   EncodeRune p r =
     (if length p < length (AppendRune [] r) then None
      else Some (AppendRune [] r @ drop (length (AppendRune [] r)) p, length (AppendRune [] r))) \<and>
   RuneLen r = (if ValidRune r then int (length (AppendRune [] r)) else - 1)"
  unfolding AppendRune_Nil
  using DecodeRune_rune_bytes DecodeLastRune_rune_bytes
  by (simp add: encoded_def AppendRune_bytes EncodeRune_bytes RuneLen_length Let_def)

text \<open>C18. \<open>DecodeRune\<close> never panics.  It accepts only canonical encodings: its result is a valid rune with the
  width of its encoding exactly when the bytes start with the encoding of a valid rune, and otherwise
  \<open>(RuneError, 1)\<close>, or \<open>(RuneError, 0)\<close> for no bytes at all.\<close>

theorem DecodeRune_canonical:
  "\<exists>r n. DecodeRune p = Some (r, n) \<and> n \<le> length p \<and>
    (if p = [] then (r, n) = (RuneError, 0)
     else if \<exists>v q. ValidRune v \<and> p = AppendRune [] v @ q then ValidRune r \<and> AppendRune [] r = take n p
     else (r, n) = (RuneError, 1))"
proof (cases "p = [] \<or> seq_len (map unat p) = 0")
  case True
  have "\<not> (ValidRune v \<and> p = AppendRune [] v @ q)" if "p \<noteq> []" for v q
    using True that rune_bytes_seq [of v "map unat q"] rune_bytes_nonempty [of v] by (auto simp: AppendRune_Nil)
  then show ?thesis
    using True by (auto simp: DecodeRune_decode decode_def RuneError_def Suc_le_eq)
next
  case False
  then obtain r where r: "ValidRune r" "rune_bytes r = take (seq_len (map unat p)) p"
    using seq_rune [of p] by blast
  then have p: "p = rune_bytes r @ drop (seq_len (map unat p)) p" by simp
  then have "DecodeRune p = Some (r, length (rune_bytes r))"
    using DecodeRune_rune_bytes [of r "drop (seq_len (map unat p)) p"] r(1) by (simp add: encoded_def)
  moreover have "length (rune_bytes r) \<le> length p" "rune_bytes r = take (length (rune_bytes r)) p"
    by (subst p, simp)+
  ultimately show ?thesis
    using False r(1) p by (intro exI [of _ r] exI [of _ "length (rune_bytes r)"]) (auto simp: AppendRune_Nil)
qed

text \<open>C19. \<open>Valid\<close> holds exactly for the concatenations of encodings of valid runes, its eight-byte fast path
  included, and \<open>RuneCount\<close> of such a concatenation is the number of its runes.  Both loops return for every
  slice without an access out of range, and no count exceeds the number of bytes.\<close>

theorem Valid_RuneCount:
  "Valid p = Some (\<exists>rs. list_all ValidRune rs \<and> p = concat (map (AppendRune []) rs)) \<and>
   RuneCount (concat (map (AppendRune []) rs)) = Some (length rs) \<and>
   (\<exists>n. RuneCount p = Some n \<and> n \<le> length p)"
proof (intro conjI)
  have "AppendRune [] = rune_bytes" by (rule ext) (rule AppendRune_Nil)
  then show "Valid p = Some (\<exists>rs. list_all ValidRune rs \<and> p = concat (map (AppendRune []) rs))"
    and "RuneCount (concat (map (AppendRune []) rs)) = Some (length rs)"
    using well_formed_runes [of "map unat p" p] well_formed_concat
    by (auto simp: Valid_well_formed RuneCount_runes runes_concat)
  show "\<exists>n. RuneCount p = Some n \<and> n \<le> length p"
    using length_runes [of "map unat p"] by (simp add: RuneCount_runes)
qed

text \<open>C20. \<open>FullRune\<close> is false exactly for the proper prefixes of encodings, so that waiting for more bytes can
  help only then.\<close>

theorem FullRune_prefix:
  "FullRune p = Some (\<nexists>r q. ValidRune r \<and> q \<noteq> [] \<and> p @ q = AppendRune [] r)"
proof -
  have "incomplete (map unat p)" if "q \<noteq> []" "p @ q = rune_bytes r" for q r
    using that rune_bytes_seq [of r "[]"] by (intro extends_incomplete [of _ "map unat q"]) (simp_all flip: that(2) map_append)
  moreover have "\<exists>r q. ValidRune r \<and> q \<noteq> [] \<and> p @ q = rune_bytes r" if inc: "incomplete (map unat p)"
  proof -
    from incomplete_extends [OF inc] obtain qs where
      qs: "qs \<noteq> []" "seq_len (map unat p @ qs) = length (map unat p @ qs)" by blast
    then have n: "seq_len (map unat p @ qs) \<noteq> 0" by simp
    from seq_enc [OF n] have sc: "scalar (seq_val (map unat p @ qs))"
      and e: "enc (seq_val (map unat p @ qs)) = map unat p @ qs" by (simp_all add: qs(2))
    have "b < 256" if "b \<in> set qs" for b
      using enc_bytes [of "seq_val (map unat p @ qs)" b] sc that unfolding e by (auto simp: scalar_def)
    then have q: "map unat (map of_nat qs :: u8 list) = qs"
      by (induction qs) (simp_all add: unat_of_nat)
    have l: "seq_len (map unat (p @ map of_nat qs)) = length (p @ map of_nat qs)"
      unfolding map_append q using qs(2) by simp
    then have "seq_len (map unat (p @ map of_nat qs)) \<noteq> 0" using qs(1) by simp
    from seq_rune [OF this] obtain r where "ValidRune r" "rune_bytes r = p @ map of_nat qs"
      unfolding l by auto
    with qs(1) show ?thesis by (intro exI [of _ r] exI [of _ "map of_nat qs"]) simp
  qed
  ultimately show ?thesis by (auto simp: FullRune_incomplete AppendRune_Nil)
qed

end
