(* ===== verification/Buffer.thy ===== *)
theory Buffer
  imports Utf8
begin

text \<open>
  Package \<^verbatim>\<open>bytes\<close>, \<^verbatim>\<open>Buffer\<close>.  A slice is its backing array from the slice's first element (whose length
  is the capacity), its length, and whether it is nil.  The runtime's allocator is a parameter of the
  operations that allocate: \<open>alloc c\<close> is the capacity of a fresh slice of \<open>c\<close> bytes, or \<^const>\<open>None\<close>
  when the allocation panics.  The slices that \<open>Bytes\<close>, \<open>Next\<close> and \<open>readSlice\<close> return alias the buffer; here
  they are the bytes seen until the next modification.
\<close>

section \<open>Slices of bytes\<close>

record bslice =
  mem :: "u8 list"
  blen :: nat
  isnil :: bool

definition capacity :: "bslice \<Rightarrow> nat" where
  "capacity s = length (mem s)"

definition nil_slice :: bslice where
  "nil_slice = \<lparr>mem = [], blen = 0, isnil = True\<rparr>"

definition bytes_of :: "bslice \<Rightarrow> u8 list" where
  "bytes_of s = take (blen s) (mem s)"

text \<open>\<open>s[i:j]\<close> as bytes, \<open>s[:j]\<close> as a slice, \<open>s[i:]\<close> as a slice; \<open>copy(dst, src)\<close> as the new \<open>dst\<close>.\<close>

definition sub_bytes :: "bslice \<Rightarrow> int \<Rightarrow> int \<Rightarrow> u8 list go" where
  "sub_bytes s i j =
    (if 0 \<le> i \<and> i \<le> j \<and> j \<le> int (capacity s) then Inr (take (nat (j - i)) (drop (nat i) (mem s)))
     else Inl IndexOutOfRange)"

definition reslice :: "bslice \<Rightarrow> int \<Rightarrow> bslice go" where
  "reslice s j =
    (if 0 \<le> j \<and> j \<le> int (capacity s) then Inr (s\<lparr>blen := nat j\<rparr>) else Inl IndexOutOfRange)"

definition slice_from :: "bslice \<Rightarrow> nat \<Rightarrow> bslice go" where
  "slice_from s i =
    (if i \<le> blen s then Inr (s\<lparr>mem := drop i (mem s), blen := blen s - i\<rparr>) else Inl IndexOutOfRange)"

definition go_copy :: "u8 list \<Rightarrow> u8 list \<Rightarrow> u8 list" where
  "go_copy dst src = take (length dst) src @ drop (length src) dst"

text \<open>\<open>copy(s[i:], p)\<close>, a write into the backing array up to the length of \<open>s\<close>; its result is the count.\<close>

definition copy_into :: "bslice \<Rightarrow> nat \<Rightarrow> u8 list \<Rightarrow> (bslice \<times> nat) go" where
  "copy_into s i p =
    (if i \<le> blen s
     then Inr (s\<lparr>mem := take i (mem s) @ go_copy (take (blen s - i) (drop i (mem s))) p @ drop (blen s) (mem s)\<rparr>,
               min (blen s - i) (length p))
     else Inl IndexOutOfRange)"

text \<open>\<open>append(s, p...)\<close>: in place when the capacity suffices.\<close>

definition append_bytes :: "(nat \<Rightarrow> nat option) \<Rightarrow> bslice \<Rightarrow> u8 list \<Rightarrow> bslice go" where
  "append_bytes alloc s p =
    (let n = blen s + length p
     in if n \<le> capacity s
        then Inr (s\<lparr>mem := take (blen s) (mem s) @ p @ drop n (mem s), blen := n\<rparr>)
        else case alloc n of
          None \<Rightarrow> Inl (PanicMsg ''growslice: len out of range'')
        | Some c \<Rightarrow> Inr \<lparr>mem = bytes_of s @ p @ replicate (c - n) 0, blen = n, isnil = False\<rparr>)"

section \<open>The buffer\<close>

definition smallBufferSize :: nat where "smallBufferSize = 64"
definition MinRead :: nat where "MinRead = 512"
definition maxInt :: int where "maxInt = 2 ^ 63 - 1"

type_synonym readOp = int

definition opRead :: readOp where "opRead = - 1"
definition opInvalid :: readOp where "opInvalid = 0"
definition opReadRune1 :: readOp where "opReadRune1 = 1"
definition opReadRune2 :: readOp where "opReadRune2 = 2"
definition opReadRune3 :: readOp where "opReadRune3 = 3"
definition opReadRune4 :: readOp where "opReadRune4 = 4"

lemmas readOps = opRead_def opInvalid_def opReadRune1_def opReadRune2_def opReadRune3_def opReadRune4_def

record Buffer =
  buf :: bslice
  off :: nat
  lastRead :: readOp

datatype io_error = EOF | ErrShortWrite | errUnreadByte | errUnreadRune | OtherError string

definition ErrTooLarge :: go_panic where
  "ErrTooLarge = PanicMsg ''bytes.Buffer: too large''"

definition errNegativeRead :: go_panic where
  "errNegativeRead = PanicMsg ''bytes.Buffer: reader returned negative count from Read''"

definition NewBuffer :: "bslice \<Rightarrow> Buffer" where
  "NewBuffer b = \<lparr>buf = b, off = 0, lastRead = opInvalid\<rparr>"

text \<open>\<open>[]byte(s)\<close> is never nil, and the runtime may round its capacity up by \<open>spare\<close> bytes.\<close>

definition NewBufferString :: "nat \<Rightarrow> u8 list \<Rightarrow> Buffer" where
  "NewBufferString spare s = NewBuffer \<lparr>mem = s @ replicate spare 0, blen = length s, isnil = False\<rparr>"

definition Len :: "Buffer \<Rightarrow> int" where
  "Len b = int (blen (buf b)) - int (off b)"

definition Bytes :: "Buffer \<Rightarrow> u8 list go" where
  "Bytes b = sub_bytes (buf b) (int (off b)) (int (blen (buf b)))"

definition AvailableBuffer :: "Buffer \<Rightarrow> bslice go" where
  "AvailableBuffer b = slice_from (buf b) (blen (buf b))"

definition String :: "Buffer option \<Rightarrow> u8 list go" where
  "String b = (case b of
      None \<Rightarrow> Inr [60, 110, 105, 108, 62]
    | Some b \<Rightarrow> sub_bytes (buf b) (int (off b)) (int (blen (buf b))))"

definition empty :: "Buffer \<Rightarrow> bool" where
  "empty b \<longleftrightarrow> blen (buf b) \<le> off b"

definition Cap :: "Buffer \<Rightarrow> nat" where
  "Cap b = capacity (buf b)"

definition Available :: "Buffer \<Rightarrow> int" where
  "Available b = int (capacity (buf b)) - int (blen (buf b))"

text \<open>\<open>b.buf[:0]\<close> never panics.\<close>

definition Reset :: "Buffer \<Rightarrow> Buffer" where
  "Reset b = \<lparr>buf = (buf b)\<lparr>blen := 0\<rparr>, off = 0, lastRead = opInvalid\<rparr>"

definition Truncate :: "int \<Rightarrow> Buffer \<Rightarrow> Buffer go" where
  "Truncate n b =
    (if n = 0 then Inr (Reset b)
     else let b = b\<lparr>lastRead := opInvalid\<rparr>
       in if n < 0 \<or> n > Len b then Inl (PanicMsg ''bytes.Buffer: truncation out of range'')
          else go_bind (reslice (buf b) (int (off b) + n)) (\<lambda>s. Inr (b\<lparr>buf := s\<rparr>)))"

section \<open>Growing\<close>

definition tryGrowByReslice :: "nat \<Rightarrow> Buffer \<Rightarrow> (nat \<times> bool) \<times> Buffer" where
  "tryGrowByReslice n b =
    (let l = blen (buf b)
     in if int n \<le> int (capacity (buf b)) - int l
        then ((l, True), b\<lparr>buf := (buf b)\<lparr>blen := l + n\<rparr>\<rparr>)
        else ((0, False), b))"

text \<open>A panic of the allocation is recovered and becomes \<open>ErrTooLarge\<close>.\<close>

definition growSlice :: "(nat \<Rightarrow> nat option) \<Rightarrow> bslice \<Rightarrow> nat \<Rightarrow> bslice go" where
  "growSlice alloc b n =
    (let c = blen b + n;
         c = (if c < 2 * capacity b then 2 * capacity b else c)
     in case alloc c of
          None \<Rightarrow> Inl ErrTooLarge
        | Some k \<Rightarrow> Inr \<lparr>mem = go_copy (replicate k 0) (bytes_of b), blen = blen b, isnil = False\<rparr>)"

definition grow :: "(nat \<Rightarrow> nat option) \<Rightarrow> nat \<Rightarrow> Buffer \<Rightarrow> (nat \<times> Buffer) go" where
  "grow alloc n b =
    (let m = Len b;
         b = (if m = 0 \<and> off b \<noteq> 0 then Reset b else b);
         ((i, ok), b) = tryGrowByReslice n b
     in if ok then Inr (i, b)
        else if isnil (buf b) \<and> n \<le> smallBufferSize
        then Inr (0, b\<lparr>buf := \<lparr>mem = replicate smallBufferSize 0, blen = n, isnil = False\<rparr>\<rparr>)
        else let c = capacity (buf b)
          in go_bind
               (if int n \<le> int (c div 2) - m
                then go_bind (slice_from (buf b) (off b)) (\<lambda>src.
                     go_bind (copy_into (buf b) 0 (bytes_of src)) (\<lambda>(s, _). Inr s))
                else if int c > maxInt - int c - int n then Inl ErrTooLarge
                else go_bind (slice_from (buf b) (off b)) (\<lambda>s. growSlice alloc s (off b + n)))
               (\<lambda>s. go_bind (reslice s (m + int n)) (\<lambda>s. Inr (nat m, b\<lparr>buf := s, off := 0\<rparr>))))"

definition Grow :: "(nat \<Rightarrow> nat option) \<Rightarrow> int \<Rightarrow> Buffer \<Rightarrow> Buffer go" where
  "Grow alloc n b =
    (if n < 0 then Inl (PanicMsg ''bytes.Buffer.Grow: negative count'')
     else go_bind (grow alloc (nat n) b) (\<lambda>(m, b).
          go_bind (reslice (buf b) (int m)) (\<lambda>s. Inr (b\<lparr>buf := s\<rparr>))))"

text \<open>\<open>m, ok := b.tryGrowByReslice(n); if !ok { m = b.grow(n) }\<close>, as the writers begin.\<close>

definition make_room :: "(nat \<Rightarrow> nat option) \<Rightarrow> nat \<Rightarrow> Buffer \<Rightarrow> (nat \<times> Buffer) go" where
  "make_room alloc n b =
    (let ((m, ok), b) = tryGrowByReslice n b in if ok then Inr (m, b) else grow alloc n b)"

section \<open>Writing\<close>

definition Write :: "(nat \<Rightarrow> nat option) \<Rightarrow> u8 list \<Rightarrow> Buffer \<Rightarrow> (nat \<times> Buffer) go" where
  "Write alloc p b =
    go_bind (make_room alloc (length p) (b\<lparr>lastRead := opInvalid\<rparr>)) (\<lambda>(m, b).
    go_bind (copy_into (buf b) m p) (\<lambda>(s, n). Inr (n, b\<lparr>buf := s\<rparr>)))"

definition WriteString :: "(nat \<Rightarrow> nat option) \<Rightarrow> u8 list \<Rightarrow> Buffer \<Rightarrow> (nat \<times> Buffer) go" where
  "WriteString alloc s b =
    go_bind (make_room alloc (length s) (b\<lparr>lastRead := opInvalid\<rparr>)) (\<lambda>(m, b).
    go_bind (copy_into (buf b) m s) (\<lambda>(s, n). Inr (n, b\<lparr>buf := s\<rparr>)))"

definition WriteByte :: "(nat \<Rightarrow> nat option) \<Rightarrow> u8 \<Rightarrow> Buffer \<Rightarrow> Buffer go" where
  "WriteByte alloc c b =
    go_bind (make_room alloc 1 (b\<lparr>lastRead := opInvalid\<rparr>)) (\<lambda>(m, b).
      if m < blen (buf b) then Inr (b\<lparr>buf := (buf b)\<lparr>mem := (mem (buf b))[m := c]\<rparr>\<rparr>)
      else Inl IndexOutOfRange)"

text \<open>\<open>utf8.AppendRune(b.buf[:m], r)\<close> appends to a slice of the same array.\<close>

definition WriteRune :: "(nat \<Rightarrow> nat option) \<Rightarrow> rune \<Rightarrow> Buffer \<Rightarrow> (nat \<times> Buffer) go" where
  "WriteRune alloc r b =
    (if r < ucast RuneSelf then go_bind (WriteByte alloc (ucast r) b) (\<lambda>b. Inr (1, b))
     else go_bind (make_room alloc UTFMax (b\<lparr>lastRead := opInvalid\<rparr>)) (\<lambda>(m, b).
          go_bind (reslice (buf b) (int m)) (\<lambda>s.
          go_bind (append_bytes alloc s (AppendRune [] r)) (\<lambda>s. Inr (blen s - m, b\<lparr>buf := s\<rparr>)))))"

section \<open>Reading\<close>

text \<open>\<open>Read(p)\<close> returns the new contents of \<open>p\<close>, the count and the error.\<close>

definition Read :: "u8 list \<Rightarrow> Buffer \<Rightarrow> ((u8 list \<times> nat \<times> io_error option) \<times> Buffer) go" where
  "Read p b =
    (let b = b\<lparr>lastRead := opInvalid\<rparr>
     in if empty b
        then let b = Reset b in if length p = 0 then Inr ((p, 0, None), b) else Inr ((p, 0, Some EOF), b)
        else go_bind (sub_bytes (buf b) (int (off b)) (int (blen (buf b)))) (\<lambda>src.
          let n = min (length p) (length src);
              b = b\<lparr>off := off b + n\<rparr>;
              b = (if n > 0 then b\<lparr>lastRead := opRead\<rparr> else b)
          in Inr ((go_copy p src, n, None), b)))"

definition Next :: "int \<Rightarrow> Buffer \<Rightarrow> (u8 list \<times> Buffer) go" where
  "Next n b =
    (let b = b\<lparr>lastRead := opInvalid\<rparr>;
         m = Len b;
         n = (if n > m then m else n)
     in go_bind (sub_bytes (buf b) (int (off b)) (int (off b) + n)) (\<lambda>data.
        let b = b\<lparr>off := nat (int (off b) + n)\<rparr>;
            b = (if n > 0 then b\<lparr>lastRead := opRead\<rparr> else b)
        in Inr (data, b)))"

text \<open>\<open>b.buf[i]\<close>\<close>

definition buf_at :: "Buffer \<Rightarrow> nat \<Rightarrow> u8 go" where
  "buf_at b i = (if i < blen (buf b) then Inr (mem (buf b) ! i) else Inl IndexOutOfRange)"

definition ReadByte :: "Buffer \<Rightarrow> ((u8 \<times> io_error option) \<times> Buffer) go" where
  "ReadByte b =
    (if empty b then Inr ((0, Some EOF), Reset b)
     else go_bind (buf_at b (off b)) (\<lambda>c.
          Inr ((c, None), b\<lparr>off := off b + 1, lastRead := opRead\<rparr>)))"

definition ReadRune :: "Buffer \<Rightarrow> ((rune \<times> nat \<times> io_error option) \<times> Buffer) go" where
  "ReadRune b =
    (if empty b then Inr ((0, 0, Some EOF), Reset b)
     else go_bind (buf_at b (off b)) (\<lambda>c.
       if c < RuneSelf
       then Inr ((ucast c, 1, None), b\<lparr>off := off b + 1, lastRead := opReadRune1\<rparr>)
       else go_bind (sub_bytes (buf b) (int (off b)) (int (blen (buf b)))) (\<lambda>p.
         case DecodeRune p of
           None \<Rightarrow> Inl IndexOutOfRange
         | Some (r, n) \<Rightarrow> Inr ((r, n, None), b\<lparr>off := off b + n, lastRead := int n\<rparr>))))"

definition UnreadRune :: "Buffer \<Rightarrow> io_error option \<times> Buffer" where
  "UnreadRune b =
    (if lastRead b \<le> opInvalid then (Some errUnreadRune, b)
     else let b = (if int (off b) \<ge> lastRead b then b\<lparr>off := nat (int (off b) - lastRead b)\<rparr> else b)
       in (None, b\<lparr>lastRead := opInvalid\<rparr>))"

definition UnreadByte :: "Buffer \<Rightarrow> io_error option \<times> Buffer" where
  "UnreadByte b =
    (if lastRead b = opInvalid then (Some errUnreadByte, b)
     else let b = b\<lparr>lastRead := opInvalid\<rparr>
       in (None, if off b > 0 then b\<lparr>off := off b - 1\<rparr> else b))"

text \<open>\<open>IndexByte\<close>: the first position of the byte, or -1.\<close>

fun IndexByte :: "u8 list \<Rightarrow> u8 \<Rightarrow> int" where
  "IndexByte [] c = - 1"
| "IndexByte (b # bs) c = (if b = c then 0 else let i = IndexByte bs c in if i < 0 then - 1 else i + 1)"

definition readSlice :: "u8 \<Rightarrow> Buffer \<Rightarrow> ((u8 list \<times> io_error option) \<times> Buffer) go" where
  "readSlice delim b =
    go_bind (sub_bytes (buf b) (int (off b)) (int (blen (buf b)))) (\<lambda>p.
      let i = IndexByte p delim;
          end = int (off b) + i + 1;
          (end, err) = (if i < 0 then (int (blen (buf b)), Some EOF) else (end, None))
      in go_bind (sub_bytes (buf b) (int (off b)) end) (\<lambda>line.
           Inr ((line, err), b\<lparr>off := nat end, lastRead := opRead\<rparr>)))"

definition ReadBytes :: "u8 \<Rightarrow> Buffer \<Rightarrow> ((u8 list \<times> io_error option) \<times> Buffer) go" where
  "ReadBytes delim b = go_bind (readSlice delim b) (\<lambda>((slice, err), b). Inr (([] @ slice, err), b))"

definition ReadString :: "u8 \<Rightarrow> Buffer \<Rightarrow> ((u8 list \<times> io_error option) \<times> Buffer) go" where
  "ReadString delim b = go_bind (readSlice delim b) (\<lambda>((slice, err), b). Inr ((slice, err), b))"

section \<open>Transfers\<close>

text \<open>
  An \<open>io.Reader\<close> is a parameter: from its state and the slice that it may fill, the new contents of the
  slice, the count, the error, and its new state.  The loop may not end, so that its result is
  optional: \<^const>\<open>None\<close> is a loop that runs forever.
\<close>

partial_function (option) ReadFrom_loop ::
    "(nat \<Rightarrow> nat option) \<Rightarrow> ('r \<Rightarrow> u8 list \<Rightarrow> (u8 list \<times> int \<times> io_error option) \<times> 'r) \<Rightarrow> 'r \<Rightarrow> int \<Rightarrow> Buffer \<Rightarrow>
     ((int \<times> io_error option) \<times> 'r \<times> Buffer) go option" where
  "ReadFrom_loop alloc rd r n b =
    (case go_bind (grow alloc MinRead b) (\<lambda>(i, b).
          go_bind (reslice (buf b) (int i)) (\<lambda>s.
            let ((p, m, e), r) = rd r (drop i (mem s));
                s = s\<lparr>mem := take i (mem s) @ p\<rparr>
            in if m < 0 then Inl errNegativeRead
               else go_bind (reslice s (int i + m)) (\<lambda>s. Inr (m, e, r, b\<lparr>buf := s\<rparr>)))) of
       Inl pan \<Rightarrow> Some (Inl pan)
     | Inr (m, e, r, b) \<Rightarrow>
         if e = Some EOF then Some (Inr ((n + m, None), r, b))
         else if e \<noteq> None then Some (Inr ((n + m, e), r, b))
         else ReadFrom_loop alloc rd r (n + m) b)"

definition ReadFrom ::
    "(nat \<Rightarrow> nat option) \<Rightarrow> ('r \<Rightarrow> u8 list \<Rightarrow> (u8 list \<times> int \<times> io_error option) \<times> 'r) \<Rightarrow> 'r \<Rightarrow> Buffer \<Rightarrow>
     ((int \<times> io_error option) \<times> 'r \<times> Buffer) go option" where
  "ReadFrom alloc rd r b = ReadFrom_loop alloc rd r 0 (b\<lparr>lastRead := opInvalid\<rparr>)"

text \<open>
  An \<open>io.Writer\<close> is a parameter: from the bytes, the count, which its interface documents as
  non-negative, and the error.
\<close>

definition WriteTo :: "(u8 list \<Rightarrow> nat \<times> io_error option) \<Rightarrow> Buffer \<Rightarrow> ((nat \<times> io_error option) \<times> Buffer) go" where
  "WriteTo wr b =
    (let b = b\<lparr>lastRead := opInvalid\<rparr>; nBytes = Len b
     in if nBytes > 0
        then go_bind (sub_bytes (buf b) (int (off b)) (int (blen (buf b)))) (\<lambda>p.
          let (m, e) = wr p
          in if int m > nBytes then Inl (PanicMsg ''bytes.Buffer.WriteTo: invalid Write count'')
             else let b = b\<lparr>off := off b + m\<rparr>
               in if e \<noteq> None then Inr ((m, e), b)
                  else if int m \<noteq> nBytes then Inr ((m, Some ErrShortWrite), b)
                  else Inr ((m, None), Reset b))
        else Inr ((0, None), Reset b))"

end
