(* ===== verification/Buffer_Spec.thy ===== *)
theory Buffer_Spec
  imports Buffer Utf8_Correct
begin

text \<open>
  The buffer as a queue of bytes: the invariant of its state, the bytes that it holds, and what each
  operation does to them.
\<close>

section \<open>Invariant and abstraction\<close>

definition buffer_ok :: "Buffer \<Rightarrow> bool" where
  "buffer_ok b \<longleftrightarrow> off b \<le> blen (buf b) \<and> blen (buf b) \<le> capacity (buf b) \<and>
    (isnil (buf b) \<longrightarrow> capacity (buf b) = 0) \<and> - 1 \<le> lastRead b \<and> lastRead b \<le> 4"

definition content :: "Buffer \<Rightarrow> u8 list" where
  "content b = drop (off b) (bytes_of (buf b))"

text \<open>The bytes before the read position that the slice still has.\<close>

definition past :: "Buffer \<Rightarrow> u8 list" where
  "past b = take (off b) (mem (buf b))"

lemma length_past: "buffer_ok b \<Longrightarrow> length (past b) = off b"
  by (simp add: past_def buffer_ok_def capacity_def)

lemma past_lastRead [simp]: "past (b\<lparr>lastRead := k\<rparr>) = past b"
  by (simp add: past_def)

lemma past_Reset [simp]: "past (Reset b) = []"
  by (simp add: past_def Reset_def)

text \<open>The runtime's contract for \<open>make\<close> and \<open>append\<close>: the capacity is at least what was asked for.\<close>

definition allocator :: "(nat \<Rightarrow> nat option) \<Rightarrow> bool" where
  "allocator alloc \<longleftrightarrow> (\<forall>c k. alloc c = Some k \<longrightarrow> c \<le> k)"

lemma buffer_okD:
  assumes "buffer_ok b"
  shows "off b \<le> blen (buf b)" "blen (buf b) \<le> length (mem (buf b))" "isnil (buf b) \<Longrightarrow> mem (buf b) = []"
    "- 1 \<le> lastRead b" "lastRead b \<le> 4"
  using assms by (auto simp: buffer_ok_def capacity_def)

lemma length_content: "buffer_ok b \<Longrightarrow> length (content b) = blen (buf b) - off b"
  by (simp add: content_def bytes_of_def buffer_ok_def capacity_def)

lemma Len_content: "buffer_ok b \<Longrightarrow> Len b = int (length (content b))"
  by (simp add: Len_def length_content buffer_ok_def)

lemma sub_content: "buffer_ok b \<Longrightarrow> sub_bytes (buf b) (int (off b)) (int (blen (buf b))) = Inr (content b)"
  by (simp add: sub_bytes_def content_def bytes_of_def buffer_ok_def drop_take nat_diff_distrib)

lemma empty_content: "buffer_ok b \<Longrightarrow> empty b \<longleftrightarrow> content b = []"
  using length_content [of b] by (simp add: empty_def flip: length_0_conv)

lemma Reset_ok: "buffer_ok b \<Longrightarrow> buffer_ok (Reset b) \<and> content (Reset b) = [] \<and> lastRead (Reset b) = 0"
  by (simp add: Reset_def buffer_ok_def content_def bytes_of_def opInvalid_def capacity_def)

lemma set_lastRead [simp]:
  "content (b\<lparr>lastRead := k\<rparr>) = content b" "- 1 \<le> k \<Longrightarrow> k \<le> 4 \<Longrightarrow> buffer_ok b \<Longrightarrow> buffer_ok (b\<lparr>lastRead := k\<rparr>)"
  by (simp_all add: content_def buffer_ok_def)

section \<open>Growing\<close>

text \<open>Room for \<open>n\<close> bytes was made at index \<open>m\<close>, behind the contents.\<close>

definition room :: "Buffer \<Rightarrow> nat \<Rightarrow> nat \<Rightarrow> Buffer \<Rightarrow> bool" where
  "room b n m b' \<longleftrightarrow> m = off b' + length (content b) \<and> blen (buf b') = m + n \<and>
    m + n \<le> length (mem (buf b')) \<and> take (length (content b)) (drop (off b') (mem (buf b'))) = content b \<and>
    (isnil (buf b') \<longrightarrow> mem (buf b') = []) \<and> lastRead b' \<in> {lastRead b, 0} \<and>
    past b' \<in> {past b, []}"

text \<open>
  When there is no room for \<open>n\<close> more bytes, and the only panic of a growth, \<open>ErrTooLarge\<close>.  The read
  position that counts is 0 in an empty buffer, which \<open>grow\<close> resets.  The contents neither fit behind
  where they are, nor in the first 64 bytes of a nil slice, nor, moved to the front, in half of the
  capacity; and either the doubled capacity and the bytes wanted exceed the range of \<open>int\<close>, or the
  allocation of the new slice panics.
\<close>

definition read_pos :: "Buffer \<Rightarrow> nat" where
  "read_pos b = (if content b = [] then 0 else off b)"

definition too_large :: "(nat \<Rightarrow> nat option) \<Rightarrow> nat \<Rightarrow> Buffer \<Rightarrow> bool" where
  "too_large alloc n b \<longleftrightarrow>
    (let L = length (content b); c = capacity (buf b); e = read_pos b
     in c < e + L + n \<and> \<not> (isnil (buf b) \<and> n \<le> smallBufferSize) \<and> c div 2 < L + n \<and>
        (maxInt < 2 * int c + int n \<or> alloc (max (L + (e + n)) (2 * (c - e))) = None))"

lemma too_large_lastRead [simp]: "too_large alloc n (b\<lparr>lastRead := k\<rparr>) = too_large alloc n b"
  by (simp add: too_large_def read_pos_def)

text \<open>The allocator has slices of up to \<open>m\<close> bytes, and so many bytes can be counted by an \<open>int\<close>.\<close>

definition memory_for :: "(nat \<Rightarrow> nat option) \<Rightarrow> nat \<Rightarrow> bool" where
  "memory_for alloc m \<longleftrightarrow> int m \<le> maxInt \<and> (\<forall>k \<le> m. alloc k \<noteq> None)"

lemma memory_for_le: "memory_for alloc m \<Longrightarrow> k \<le> m \<Longrightarrow> memory_for alloc k"
  by (simp add: memory_for_def)

text \<open>A growth that is not served from the slice asks for less than five times the bytes to be held.\<close>

lemma too_large_memory:
  assumes "buffer_ok b" and "too_large alloc n b"
  shows "\<not> memory_for alloc (4 * length (content b) + 5 * n)"
proof
  assume m: "memory_for alloc (4 * length (content b) + 5 * n)"
  define L c e where d: "L = length (content b)" "c = capacity (buf b)" "e = read_pos b"
  have t: "c div 2 < L + n" "maxInt < 2 * int c + int n \<or> alloc (max (L + (e + n)) (2 * (c - e))) = None"
    using assms(2) by (simp_all add: too_large_def Let_def d)
  have "e + L \<le> c"
    using length_content [OF assms(1)] buffer_okD(1,2) [OF assms(1)]
    by (cases "content b = []") (simp_all add: d read_pos_def capacity_def)
  then have "2 * c + n \<le> 4 * L + 5 * n" "max (L + (e + n)) (2 * (c - e)) \<le> 4 * L + 5 * n"
    using t(1) by linarith+
  then show False using m t(2) unfolding memory_for_def d(1) [symmetric] by force
qed

lemma tryGrow_room:
  "buffer_ok b \<Longrightarrow> tryGrowByReslice n b = ((m, True), b') \<Longrightarrow> room b n m b'"
  unfolding tryGrowByReslice_def room_def using length_content [of b] buffer_okD [of b]
  by (auto simp: Let_def capacity_def content_def bytes_of_def past_def drop_take split: if_splits)

lemma tryGrow_False:
  "tryGrowByReslice n b = ((m, False), b') \<Longrightarrow> b' = b"
  by (simp add: tryGrowByReslice_def Let_def split: if_splits)

lemma go_copy_take: "length src \<le> length dst \<Longrightarrow> go_copy dst src = src @ drop (length src) dst"
  by (simp add: go_copy_def)

text \<open>The end of \<open>grow\<close>: the contents are at the start of a slice with room behind them.\<close>

lemma room_at_start:
  assumes "reslice s (int L + int n) = Inr s'" and "take L (mem s) = content b" and "length (content b) = L"
    and "isnil s \<longrightarrow> mem s = []" and "lastRead b' \<in> {lastRead b, 0}"
  shows "room b n L (b'\<lparr>buf := s', off := 0\<rparr>)"
  using assms by (auto simp: room_def reslice_def capacity_def past_def split: if_splits)

lemma slice_from_content:
  assumes "buffer_ok b"
  shows "\<exists>s. slice_from (buf b) (off b) = Inr s \<and> bytes_of s = content b \<and> blen s = length (content b)"
  using buffer_okD [OF assms] length_content [OF assms]
  by (simp add: slice_from_def bytes_of_def content_def drop_take)

lemma grow_slide:
  assumes b: "buffer_ok b" and L: "length (content b) = L" and fits: "L + n \<le> capacity (buf b)"
  shows "\<exists>s s'. copy_into (buf b) 0 (content b) = Inr (s, L) \<and>
    reslice s (int L + int n) = Inr s' \<and> take L (mem s) = content b \<and> (isnil s \<longrightarrow> mem s = [])"
proof -
  note ok = buffer_okD [OF b]
  have l: "L = blen (buf b) - off b" using length_content [OF b] L by simp
  let ?mem = "go_copy (take (blen (buf b)) (mem (buf b))) (content b) @ drop (blen (buf b)) (mem (buf b))"
  have "copy_into (buf b) 0 (content b) = Inr ((buf b)\<lparr>mem := ?mem\<rparr>, L)"
    using ok L l by (simp add: copy_into_def)
  moreover have mem: "take L ?mem = content b" "length ?mem = length (mem (buf b))"
    using ok L l by (simp_all add: go_copy_def)
  moreover have "?mem = []" if "isnil (buf b)"
    using mem(2) ok(3) [OF that] by (metis length_0_conv)
  ultimately show ?thesis
    using fits by (simp add: reslice_def capacity_def del: append_is_Nil_conv)
qed

lemma growSlice_max:
  "growSlice alloc s n = (case alloc (max (blen s + n) (2 * capacity s)) of
      None \<Rightarrow> Inl ErrTooLarge
    | Some k \<Rightarrow> Inr \<lparr>mem = go_copy (replicate k 0) (bytes_of s), blen = blen s, isnil = False\<rparr>)"
  by (simp add: growSlice_def Let_def max_def)

lemma grow_alloc:
  assumes alloc: "allocator alloc" and s: "bytes_of s = content b" "blen s = L" "length (content b) = L"
    and n: "n \<le> n'"
  shows "alloc (max (L + n') (2 * capacity s)) = None \<and> growSlice alloc s n' = Inl ErrTooLarge \<or>
     alloc (max (L + n') (2 * capacity s)) \<noteq> None \<and>
     (\<exists>s' s''. growSlice alloc s n' = Inr s' \<and> reslice s' (int L + int n) = Inr s'' \<and>
        take L (mem s') = content b \<and> (isnil s' \<longrightarrow> mem s' = []))"
proof (cases "alloc (max (L + n') (2 * capacity s))")
  case None
  then show ?thesis using s by (simp add: growSlice_max)
next
  case (Some k)
  then have "max (L + n') (2 * capacity s) \<le> k" using alloc unfolding allocator_def by blast
  then have "L + n \<le> k" using n by simp
  then show ?thesis using s Some
    by (simp add: growSlice_max reslice_def capacity_def go_copy_def)
qed

text \<open>A growth panics exactly when there is no room, and otherwise makes room.\<close>

lemma grow_room:
  assumes "allocator alloc" and "buffer_ok b"
  shows "too_large alloc n b \<and> grow alloc n b = Inl ErrTooLarge \<or>
    \<not> too_large alloc n b \<and> (\<exists>m b'. grow alloc n b = Inr (m, b') \<and> room b n m b')"
proof -
  define L where "L = length (content b)"
  define b1 where "b1 = (if Len b = 0 \<and> off b \<noteq> 0 then Reset b else b)"
  have m: "Len b = int L" using assms(2) by (simp add: Len_content L_def)
  have b1: "buffer_ok b1" "content b1 = content b" "lastRead b1 \<in> {lastRead b, 0}" "past b1 \<in> {past b, []}"
    using assms(2) Reset_ok [of b] m by (auto simp: b1_def L_def)
  have b1': "off b1 = read_pos b" "capacity (buf b1) = capacity (buf b)" "isnil (buf b1) = isnil (buf b)"
    using m by (auto simp: b1_def L_def read_pos_def Reset_def capacity_def)
  have L1: "length (content b1) = L" by (simp add: b1(2) L_def)
  then have blen: "blen (buf b1) = read_pos b + L"
    using length_content [OF b1(1)] buffer_okD(1) [OF b1(1)] b1'(1) by simp
  have big: "too_large alloc n b \<longleftrightarrow> capacity (buf b1) < read_pos b + L + n \<and> \<not> (isnil (buf b1) \<and> n \<le> smallBufferSize) \<and>
      capacity (buf b1) div 2 < L + n \<and> (maxInt < 2 * int (capacity (buf b1)) + int n \<or>
        alloc (max (L + (off b1 + n)) (2 * (capacity (buf b1) - off b1))) = None)"
    unfolding too_large_def Let_def b1' L_def ..
  obtain i ok b2 where tg: "tryGrowByReslice n b1 = ((i, ok), b2)" by (metis surj_pair)
  have ok: "ok \<longleftrightarrow> read_pos b + L + n \<le> capacity (buf b1)"
    using tg by (auto simp: tryGrowByReslice_def Let_def blen split: if_splits)
  have room1: "room b1 n m b' \<Longrightarrow> room b n m b'" for m b'
    using b1 by (auto simp: room_def)
  have G: "grow alloc n b =
      (if ok then Inr (i, b2)
       else if isnil (buf b2) \<and> n \<le> smallBufferSize
       then Inr (0, b2\<lparr>buf := \<lparr>mem = replicate smallBufferSize 0, blen = n, isnil = False\<rparr>\<rparr>)
       else go_bind
              (if int n \<le> int (capacity (buf b2) div 2) - int L
               then go_bind (slice_from (buf b2) (off b2)) (\<lambda>src.
                    go_bind (copy_into (buf b2) 0 (bytes_of src)) (\<lambda>(s, _). Inr s))
               else if int (capacity (buf b2)) > maxInt - int (capacity (buf b2)) - int n then Inl ErrTooLarge
               else go_bind (slice_from (buf b2) (off b2)) (\<lambda>s. growSlice alloc s (off b2 + n)))
              (\<lambda>s. go_bind (reslice s (int L + int n)) (\<lambda>s. Inr (L, b2\<lparr>buf := s, off := 0\<rparr>))))"
    unfolding grow_def Let_def unfolding b1_def [symmetric] unfolding tg m prod.case nat_int ..
  show ?thesis
  proof (cases ok)
    case True
    then have "\<not> too_large alloc n b" using ok big by simp
    then show ?thesis using True tryGrow_room [OF b1(1)] room1 tg by (simp add: G)
  next
    case False
    then have b2: "b2 = b1" using tryGrow_False [of n b1 i b2] tg by simp
    show ?thesis
    proof (cases "isnil (buf b1) \<and> n \<le> smallBufferSize")
      case True
      then have "content b1 = []" "off b1 = 0" using buffer_okD [OF b1(1)] by (simp_all add: content_def bytes_of_def)
      then have "room b1 n 0 (b1\<lparr>buf := \<lparr>mem = replicate smallBufferSize 0, blen = n, isnil = False\<rparr>\<rparr>)"
        using True by (simp add: room_def past_def)
      moreover have "\<not> too_large alloc n b" using True big by simp
      ultimately show ?thesis using False True b2 room1 by (simp add: G)
    next
      case nil: False
      from slice_from_content [OF b1(1)] obtain src where
        src: "slice_from (buf b1) (off b1) = Inr src" "bytes_of src = content b1" "blen src = length (content b1)" by blast
      then have cap: "capacity src = capacity (buf b1) - off b1"
        by (auto simp: slice_from_def capacity_def split: if_splits)
      show ?thesis
      proof (cases "int n \<le> int (capacity (buf b1) div 2) - int L")
        case True
        then have "L + n \<le> capacity (buf b1)" "\<not> capacity (buf b1) div 2 < L + n" by linarith+
        then have small: "\<not> too_large alloc n b" using big by blast
        from grow_slide [OF b1(1) L1 \<open>L + n \<le> capacity (buf b1)\<close>] obtain s s' where
          g: "copy_into (buf b1) 0 (content b1) = Inr (s, L)"
            "reslice s (int L + int n) = Inr s'" "take L (mem s) = content b1" "isnil s \<longrightarrow> mem s = []" by blast
        from room_at_start [OF g(2,3) L1 g(4)] have "room b1 n L (b1\<lparr>buf := s', off := 0\<rparr>)" by simp
        then show ?thesis using g src False True b2 room1 small by (simp add: G nil)
      next
        case no_slide: False
        then have half: "capacity (buf b1) div 2 < L + n" by linarith
        show ?thesis
        proof (cases "int (capacity (buf b1)) > maxInt - int (capacity (buf b1)) - int n")
          case True
          then have "maxInt < 2 * int (capacity (buf b1)) + int n" by linarith
          then have "too_large alloc n b" using big half False ok nil by simp
          then show ?thesis using True False no_slide b2 by (simp add: G nil)
        next
          case fits: False
          then have "\<not> maxInt < 2 * int (capacity (buf b1)) + int n" by linarith
          then have large: "too_large alloc n b \<longleftrightarrow> alloc (max (L + (off b1 + n)) (2 * capacity src)) = None"
            using big half False ok nil cap by simp
          have "blen src = L" using src(3) L1 by simp
          from grow_alloc [OF assms(1) src(2) this L1 le_add2 [of n "off b1"]] show ?thesis
          proof (elim disjE exE conjE)
            assume "alloc (max (L + (off b1 + n)) (2 * capacity src)) = None"
              "growSlice alloc src (off b1 + n) = Inl ErrTooLarge"
            then show ?thesis using src False no_slide fits b2 large by (simp add: G nil)
          next
            fix s' s''
            assume "alloc (max (L + (off b1 + n)) (2 * capacity src)) \<noteq> None"
            then have small: "\<not> too_large alloc n b" using large by simp
            assume g: "growSlice alloc src (off b1 + n) = Inr s'" "reslice s' (int L + int n) = Inr s''"
              "take L (mem s') = content b1" "isnil s' \<longrightarrow> mem s' = []"
            from room_at_start [OF g(2,3) L1 g(4)] have "room b1 n L (b1\<lparr>buf := s'', off := 0\<rparr>)" by simp
            then show ?thesis using src g False no_slide fits b2 room1 small by (simp add: G nil)
          qed
        qed
      qed
    qed
  qed
qed

text \<open>The writers' reslice succeeds only where a growth would not panic.\<close>

lemma tryGrow_small:
  assumes "buffer_ok b" and "tryGrowByReslice n b = ((m, True), b')"
  shows "\<not> too_large alloc n b"
proof -
  have "blen (buf b) + n \<le> capacity (buf b)"
    using assms(2) by (auto simp: tryGrowByReslice_def Let_def split: if_splits)
  moreover have "read_pos b + length (content b) \<le> blen (buf b)"
    using length_content [OF assms(1)] buffer_okD(1) [OF assms(1)] by (simp add: read_pos_def)
  ultimately show ?thesis by (simp add: too_large_def Let_def)
qed

lemma make_room_room:
  assumes "allocator alloc" and "buffer_ok b"
  shows "too_large alloc n b \<and> make_room alloc n b = Inl ErrTooLarge \<or>
    \<not> too_large alloc n b \<and> (\<exists>m b'. make_room alloc n b = Inr (m, b') \<and> room b n m b')"
proof -
  obtain m ok b' where tg: "tryGrowByReslice n b = ((m, ok), b')" by (metis surj_pair)
  show ?thesis
  proof (cases ok)
    case True
    then have "\<not> too_large alloc n b" using tryGrow_small [OF assms(2)] tg by simp
    then show ?thesis using True tryGrow_room [OF assms(2)] tg by (simp add: make_room_def)
  next
    case False
    then have "b' = b" using tryGrow_False [of n b m b'] tg by simp
    then show ?thesis using False tg grow_room [OF assms, of n] by (simp add: make_room_def)
  qed
qed

section \<open>Writing\<close>

text \<open>Filling the room, or a part of it, extends the contents.\<close>

lemma room_fill:
  assumes r: "room b n m b'" and b: "buffer_ok b" and p: "length p \<le> n"
    and s: "take m (mem s) = take m (mem (buf b'))" "take (length p) (drop m (mem s)) = p"
      "blen s = m + length p" "length (mem s) = length (mem (buf b'))" "isnil s = isnil (buf b')"
  shows "buffer_ok (b'\<lparr>buf := s\<rparr>) \<and> content (b'\<lparr>buf := s\<rparr>) = content b @ p \<and>
    past (b'\<lparr>buf := s\<rparr>) \<in> {past b, []}"
proof -
  let ?L = "length (content b)"
  have m: "m = off b' + ?L" using r by (simp add: room_def)
  have "drop (off b') (take (m + length p) (mem s)) = drop (off b') (take m (mem s)) @ p"
    using s(2) m p r s(4) by (simp add: take_add room_def)
  also have "drop (off b') (take m (mem s)) = content b"
  proof -
    have "drop (off b') (take m (mem s)) = drop (off b') (take m (mem (buf b')))" by (simp only: s(1))
    also have "\<dots> = content b" using r by (simp add: m room_def drop_take)
    finally show ?thesis .
  qed
  finally have "content (b'\<lparr>buf := s\<rparr>) = content b @ p" by (simp add: content_def bytes_of_def s(3))
  moreover have "buffer_ok (b'\<lparr>buf := s\<rparr>)"
    using r p s(3-5) b by (auto simp: buffer_ok_def room_def capacity_def)
  moreover have "past (b'\<lparr>buf := s\<rparr>) \<in> {past b, []}"
  proof -
    have "take (off b') (mem s) = take (off b') (take m (mem s))" using m by simp
    also have "\<dots> = past b'" unfolding s(1) using m by (simp add: past_def)
    finally show ?thesis using r by (simp add: room_def past_def)
  qed
  ultimately show ?thesis by simp
qed

lemma copy_into_room:
  assumes "room b n m b'" and "length p = n"
  shows "\<exists>s. copy_into (buf b') m p = Inr (s, n) \<and> take m (mem s) = take m (mem (buf b')) \<and>
    take (length p) (drop m (mem s)) = p \<and> blen s = m + length p \<and>
    length (mem s) = length (mem (buf b')) \<and> isnil s = isnil (buf b')"
  using assms by (auto simp: copy_into_def room_def go_copy_def)

text \<open>A result of a write that is \<open>ErrTooLarge\<close> or has written \<open>p\<close>.\<close>

definition wrote :: "Buffer \<Rightarrow> u8 list \<Rightarrow> Buffer \<Rightarrow> bool" where
  "wrote b p b' \<longleftrightarrow> buffer_ok b' \<and> content b' = content b @ p \<and> past b' \<in> {past b, []} \<and> lastRead b' = 0"

lemma Write_ok:
  assumes "allocator alloc" and "buffer_ok b"
  shows "too_large alloc (length p) b \<and> Write alloc p b = Inl ErrTooLarge \<or>
    \<not> too_large alloc (length p) b \<and> (\<exists>b'. Write alloc p b = Inr (length p, b') \<and> wrote b p b')"
proof -
  let ?b = "b\<lparr>lastRead := opInvalid\<rparr>"
  have b: "buffer_ok ?b" "content ?b = content b" using assms(2) by (simp_all add: opInvalid_def)
  from make_room_room [OF assms(1) b(1), of "length p"] show ?thesis
  proof (elim disjE exE conjE)
    assume "too_large alloc (length p) ?b" "make_room alloc (length p) ?b = Inl ErrTooLarge"
    then show ?thesis by (simp add: Write_def)
  next
    assume small: "\<not> too_large alloc (length p) ?b"
    fix m b' assume mk: "make_room alloc (length p) ?b = Inr (m, b')" and r: "room ?b (length p) m b'"
    from copy_into_room [OF r refl] obtain s where s: "copy_into (buf b') m p = Inr (s, length p)"
      "take m (mem s) = take m (mem (buf b'))" "take (length p) (drop m (mem s)) = p" "blen s = m + length p"
      "length (mem s) = length (mem (buf b'))" "isnil s = isnil (buf b')" by blast
    from room_fill [OF r b(1) _ s(2-6)] have "wrote b p (b'\<lparr>buf := s\<rparr>)"
      using r b(2) by (simp add: wrote_def room_def opInvalid_def)
    then show ?thesis using mk s(1) small by (simp add: Write_def)
  qed
qed

lemma WriteString_Write: "WriteString alloc s b = Write alloc s b"
  by (simp add: WriteString_def Write_def)

lemma WriteByte_ok:
  assumes "allocator alloc" and "buffer_ok b"
  shows "too_large alloc 1 b \<and> WriteByte alloc c b = Inl ErrTooLarge \<or>
    \<not> too_large alloc 1 b \<and> (\<exists>b'. WriteByte alloc c b = Inr b' \<and> wrote b [c] b')"
proof -
  let ?b = "b\<lparr>lastRead := opInvalid\<rparr>"
  have b: "buffer_ok ?b" "content ?b = content b" using assms(2) by (simp_all add: opInvalid_def)
  from make_room_room [OF assms(1) b(1), of "1"] show ?thesis
  proof (elim disjE exE conjE)
    assume "too_large alloc 1 ?b" "make_room alloc 1 ?b = Inl ErrTooLarge"
    then show ?thesis by (simp add: WriteByte_def)
  next
    assume small: "\<not> too_large alloc 1 ?b"
    fix m b' assume mk: "make_room alloc 1 ?b = Inr (m, b')" and r: "room ?b 1 m b'"
    let ?s = "(buf b')\<lparr>mem := (mem (buf b'))[m := c]\<rparr>"
    have m: "m < length (mem (buf b'))" "blen (buf b') = m + 1" using r by (auto simp: room_def)
    then have "drop m ((mem (buf b'))[m := c]) = c # drop (Suc m) (mem (buf b'))"
      by (simp add: drop_update_swap flip: Cons_nth_drop_Suc)
    then have "wrote b [c] (b'\<lparr>buf := ?s\<rparr>)"
      using room_fill [OF r b(1), of "[c]" ?s] m r b(2) by (simp add: wrote_def room_def opInvalid_def)
    then show ?thesis using mk m small by (simp add: WriteByte_def)
  qed
qed

text \<open>The room that \<open>WriteRune\<close> asks for.\<close>

definition rune_room :: "rune \<Rightarrow> nat" where
  "rune_room r = (if r < ucast RuneSelf then 1 else UTFMax)"

lemma WriteRune_ok:
  assumes "allocator alloc" and "buffer_ok b"
  shows "too_large alloc (rune_room r) b \<and> WriteRune alloc r b = Inl ErrTooLarge \<or>
    \<not> too_large alloc (rune_room r) b \<and> (\<exists>b'. WriteRune alloc r b = Inr (length (AppendRune [] r), b') \<and> wrote b (AppendRune [] r) b')"
proof (cases "r < ucast RuneSelf")
  case True
  then have "AppendRune [] r = [ucast r]"
    by (simp add: AppendRune_def rune1Max_def RuneSelf_def word_less_nat_alt word_le_nat_alt)
  then show ?thesis using WriteByte_ok [OF assms, of "ucast r"] True by (auto simp: WriteRune_def rune_room_def)
next
  case False
  let ?b = "b\<lparr>lastRead := opInvalid\<rparr>" and ?e = "AppendRune [] r"
  have b: "buffer_ok ?b" "content ?b = content b" using assms(2) by (simp_all add: opInvalid_def)
  have e: "length ?e \<le> UTFMax" by (simp add: AppendRune_Nil rune_bytes_nonempty UTFMax_def)
  from make_room_room [OF assms(1) b(1), of "UTFMax"] show ?thesis
  proof (elim disjE exE conjE)
    assume "too_large alloc UTFMax ?b" "make_room alloc UTFMax ?b = Inl ErrTooLarge"
    then show ?thesis using False by (simp add: WriteRune_def rune_room_def)
  next
    assume "\<not> too_large alloc UTFMax ?b"
    then have small: "\<not> too_large alloc (rune_room r) b" using False by (simp add: rune_room_def)
    fix m b' assume mk: "make_room alloc UTFMax ?b = Inr (m, b')" and r: "room ?b UTFMax m b'"
    let ?s = "(buf b')\<lparr>mem := take m (mem (buf b')) @ ?e @ drop (m + length ?e) (mem (buf b')), blen := m + length ?e\<rparr>"
    have m: "m + UTFMax \<le> length (mem (buf b'))" "blen (buf b') = m + UTFMax" using r by (auto simp: room_def)
    then have "wrote b ?e (b'\<lparr>buf := ?s\<rparr>)"
      using room_fill [OF r b(1) e, of ?s] e r b(2) by (simp add: wrote_def room_def opInvalid_def)
    moreover have "WriteRune alloc r b = Inr (length ?e, b'\<lparr>buf := ?s\<rparr>)"
      using mk m e False by (simp add: WriteRune_def reslice_def append_bytes_def capacity_def Let_def)
    ultimately show ?thesis using small by blast
  qed
qed

lemma Grow_ok:
  assumes "allocator alloc" and "buffer_ok b" and "0 \<le> n"
  shows "too_large alloc (nat n) b \<and> Grow alloc n b = Inl ErrTooLarge \<or>
    \<not> too_large alloc (nat n) b \<and> (\<exists>b'. Grow alloc n b = Inr b' \<and> buffer_ok b' \<and> content b' = content b \<and> n \<le> Available b' \<and>
      past b' \<in> {past b, []} \<and> lastRead b' \<in> {lastRead b, 0})"
  using grow_room [OF assms(1,2), of "nat n"]
proof (elim disjE exE conjE)
  assume "too_large alloc (nat n) b" "grow alloc (nat n) b = Inl ErrTooLarge"
  then show ?thesis using assms(3) by (simp add: Grow_def)
next
  assume small: "\<not> too_large alloc (nat n) b"
  fix m b' assume g: "grow alloc (nat n) b = Inr (m, b')" and r: "room b (nat n) m b'"
  let ?b = "b'\<lparr>buf := (buf b')\<lparr>blen := m\<rparr>\<rparr>"
  have m: "m + nat n \<le> length (mem (buf b'))" using r by (simp add: room_def)
  have "buffer_ok ?b \<and> content ?b = content b @ [] \<and> past ?b \<in> {past b, []}"
    using r m by (intro room_fill [OF r assms(2)]) simp_all
  moreover have "Grow alloc n b = Inr ?b"
    using g m assms(3) by (simp add: Grow_def reslice_def capacity_def)
  moreover have "n \<le> Available ?b" using m assms(3) by (simp add: Available_def capacity_def)
  moreover have "lastRead ?b \<in> {lastRead b, 0}" using r by (simp add: room_def)
  ultimately show ?thesis using small by simp
qed

end
