(* ===== verification/Buffer_Queue.thy ===== *)
theory Buffer_Queue
  imports Buffer_Spec
begin

text \<open>
  The contract of \<^verbatim>\<open>bytes.Buffer\<close> as a transition system over queues of bytes, the refinement of it by the
  operations of the buffer, and what clients may rely on: first in, first out.
\<close>

section \<open>Abstract states\<close>

text \<open>
  An abstract state: the bytes consumed that can still be unread, the bytes to read, and the last read.
  A write, a growth or an empty read may forget the consumed bytes.
\<close>

type_synonym queue = "u8 list \<times> u8 list \<times> readOp"

definition abs_queue :: "Buffer \<Rightarrow> queue" where
  "abs_queue b = (past b, content b, lastRead b)"

section \<open>Reading\<close>

lemma advance:
  assumes "buffer_ok b" and "w \<le> length (content b)"
  shows "buffer_ok (b\<lparr>off := off b + w\<rparr>)" "content (b\<lparr>off := off b + w\<rparr>) = drop w (content b)"
    "past (b\<lparr>off := off b + w\<rparr>) = past b @ take w (content b)"
proof -
  have w: "w \<le> blen (buf b) - off b" using assms length_content [of b] by simp
  show "buffer_ok (b\<lparr>off := off b + w\<rparr>)" "content (b\<lparr>off := off b + w\<rparr>) = drop w (content b)"
    "past (b\<lparr>off := off b + w\<rparr>) = past b @ take w (content b)"
    using w buffer_okD [OF assms(1)] assms(1)
    by (simp_all add: buffer_ok_def content_def past_def bytes_of_def take_add drop_take min_def add.commute [of w] flip: take_add)
qed

lemma advance_read:
  assumes "buffer_ok b" and "w \<le> length (content b)" and "- 1 \<le> k" and "k \<le> 4"
  shows "buffer_ok (b\<lparr>off := off b + w, lastRead := k\<rparr>)"
    "abs_queue (b\<lparr>off := off b + w, lastRead := k\<rparr>) = (past b @ take w (content b), drop w (content b), k)"
  using advance [OF assms(1,2)] assms(3,4)
  by (simp_all add: abs_queue_def)

lemma retreat:
  assumes "buffer_ok b" and "w \<le> off b"
  shows "buffer_ok (b\<lparr>off := off b - w\<rparr>)"
    "content (b\<lparr>off := off b - w\<rparr>) = drop (length (past b) - w) (past b) @ content b"
    "past (b\<lparr>off := off b - w\<rparr>) = take (length (past b) - w) (past b)"
proof -
  note ok = buffer_okD [OF assms(1)]
  have p: "length (past b) = off b" by (rule length_past [OF assms(1)])
  have "past b @ content b = bytes_of (buf b)"
    using ok by (simp add: past_def content_def bytes_of_def drop_take flip: take_add)
  then have "drop (off b - w) (bytes_of (buf b)) = drop (off b - w) (past b) @ content b"
    using p by (metis diff_is_0_eq' diff_le_self drop0 drop_append)
  then show "content (b\<lparr>off := off b - w\<rparr>) = drop (length (past b) - w) (past b) @ content b"
    by (simp add: content_def p)
  show "buffer_ok (b\<lparr>off := off b - w\<rparr>)" using assms(1) by (auto simp: buffer_ok_def)
  show "past (b\<lparr>off := off b - w\<rparr>) = take (length (past b) - w) (past b)" unfolding p by (simp add: past_def min_def)
qed

section \<open>The contract\<close>

datatype buf_op = OpWrite "u8 list" | OpWriteString "u8 list" | OpWriteByte u8 | OpWriteRune rune | OpGrow int
  | OpReset | OpTruncate int | OpRead "u8 list" | OpNext int | OpReadByte | OpReadRune
  | OpReadBytes u8 | OpReadString u8 | OpUnreadByte | OpUnreadRune

datatype buf_out = Done | Count nat | Data "u8 list" "io_error option" | Filled "u8 list" nat "io_error option"
  | Rune rune nat "io_error option" | Failed io_error

fun exec :: "(nat \<Rightarrow> nat option) \<Rightarrow> buf_op \<Rightarrow> Buffer \<Rightarrow> (buf_out \<times> Buffer) go" where
  "exec alloc (OpWrite p) b = go_bind (Write alloc p b) (\<lambda>(n, b). Inr (Count n, b))"
| "exec alloc (OpWriteString p) b = go_bind (WriteString alloc p b) (\<lambda>(n, b). Inr (Count n, b))"
| "exec alloc (OpWriteByte c) b = go_bind (WriteByte alloc c b) (\<lambda>b. Inr (Done, b))"
| "exec alloc (OpWriteRune r) b = go_bind (WriteRune alloc r b) (\<lambda>(n, b). Inr (Count n, b))"
| "exec alloc (OpGrow n) b = go_bind (Grow alloc n b) (\<lambda>b. Inr (Done, b))"
| "exec alloc OpReset b = Inr (Done, Reset b)"
| "exec alloc (OpTruncate n) b = go_bind (Truncate n b) (\<lambda>b. Inr (Done, b))"
| "exec alloc (OpRead p) b = go_bind (Read p b) (\<lambda>((p, n, e), b). Inr (Filled p n e, b))"
| "exec alloc (OpNext n) b = go_bind (Next n b) (\<lambda>(d, b). Inr (Data d None, b))"
| "exec alloc OpReadByte b = go_bind (ReadByte b) (\<lambda>((c, e), b). Inr (Data [c] e, b))"
| "exec alloc OpReadRune b = go_bind (ReadRune b) (\<lambda>((r, n, e), b). Inr (Rune r n e, b))"
| "exec alloc (OpReadBytes d) b = go_bind (ReadBytes d b) (\<lambda>((l, e), b). Inr (Data l e, b))"
| "exec alloc (OpReadString d) b = go_bind (ReadString d b) (\<lambda>((l, e), b). Inr (Data l e, b))"
| "exec alloc OpUnreadByte b = Inr (case UnreadByte b of (None, b) \<Rightarrow> (Done, b) | (Some e, b) \<Rightarrow> (Failed e, b))"
| "exec alloc OpUnreadRune b = Inr (case UnreadRune b of (None, b) \<Rightarrow> (Done, b) | (Some e, b) \<Rightarrow> (Failed e, b))"

text \<open>The bytes up to and including the first delimiter, and whether there is one.\<close>

definition line_of :: "u8 \<Rightarrow> u8 list \<Rightarrow> u8 list" where
  "line_of d q = takeWhile (\<lambda>c. c \<noteq> d) q @ (if d \<in> set q then [d] else [])"

inductive contract :: "buf_op \<Rightarrow> queue \<Rightarrow> buf_out \<Rightarrow> queue \<Rightarrow> bool" where
  q_write: "c' \<in> {c, []} \<Longrightarrow> contract (OpWrite p) (c, q, k) (Count (length p)) (c', q @ p, 0)"
| q_write_string: "c' \<in> {c, []} \<Longrightarrow> contract (OpWriteString p) (c, q, k) (Count (length p)) (c', q @ p, 0)"
| q_write_byte: "c' \<in> {c, []} \<Longrightarrow> contract (OpWriteByte x) (c, q, k) Done (c', q @ [x], 0)"
| q_write_rune: "c' \<in> {c, []} \<Longrightarrow> contract (OpWriteRune r) (c, q, k) (Count (length (AppendRune [] r))) (c', q @ AppendRune [] r, 0)"
| q_grow: "c' \<in> {c, []} \<Longrightarrow> k' \<in> {k, 0} \<Longrightarrow> contract (OpGrow n) (c, q, k) Done (c', q, k')"
| q_reset: "contract OpReset (c, q, k) Done ([], [], 0)"
| q_truncate: "c' \<in> {c, []} \<Longrightarrow> 0 \<le> n \<Longrightarrow> n \<le> int (length q) \<Longrightarrow> contract (OpTruncate n) (c, q, k) Done (c', take (nat n) q, 0)"
| q_read_eof: "contract (OpRead p) (c, [], k) (Filled p 0 (if p = [] then None else Some EOF)) ([], [], 0)"
| q_read: "q \<noteq> [] \<Longrightarrow> n = min (length p) (length q) \<Longrightarrow>
    contract (OpRead p) (c, q, k) (Filled (take n q @ drop n p) n None)
      (c @ take n q, drop n q, if p = [] then 0 else opRead)"
| q_nxt: "0 \<le> n \<Longrightarrow> contract (OpNext n) (c, q, k) (Data (take (nat n) q) None)
    (c @ take (nat n) q, drop (nat n) q, if n = 0 \<or> q = [] then 0 else opRead)"
| q_byte_eof: "contract OpReadByte (c, [], k) (Data [0] (Some EOF)) ([], [], 0)"
| q_byte: "contract OpReadByte (c, x # q, k) (Data [x] None) (c @ [x], q, opRead)"
| q_rune_eof: "contract OpReadRune (c, [], k) (Rune 0 0 (Some EOF)) ([], [], 0)"
| q_rune: "q \<noteq> [] \<Longrightarrow> DecodeRune q = Some (r, n) \<Longrightarrow>
    contract OpReadRune (c, q, k) (Rune r n None) (c @ take n q, drop n q, int n)"
| q_line: "contract (OpReadBytes d) (c, q, k) (Data (line_of d q) (if d \<in> set q then None else Some EOF))
    (c @ line_of d q, drop (length (line_of d q)) q, opRead)"
| q_line_string: "contract (OpReadString d) (c, q, k) (Data (line_of d q) (if d \<in> set q then None else Some EOF))
    (c @ line_of d q, drop (length (line_of d q)) q, opRead)"
| q_unread_byte_no: "contract OpUnreadByte (c, q, 0) (Failed errUnreadByte) (c, q, 0)"
| q_unread_byte_lost: "k \<noteq> 0 \<Longrightarrow> contract OpUnreadByte ([], q, k) Done ([], q, 0)"
| q_unread_byte: "k \<noteq> 0 \<Longrightarrow> contract OpUnreadByte (c @ [x], q, k) Done (c, x # q, 0)"
| q_unread_rune_no: "k \<le> 0 \<Longrightarrow> contract OpUnreadRune (c, q, k) (Failed errUnreadRune) (c, q, k)"
| q_unread_rune_lost: "0 < k \<Longrightarrow> int (length c) < k \<Longrightarrow> contract OpUnreadRune (c, q, k) Done (c, q, 0)"
| q_unread_rune: "0 < k \<Longrightarrow> k = int (length x) \<Longrightarrow> contract OpUnreadRune (c @ x, q, k) Done (c, x @ q, 0)"

text \<open>
  The panic of an operation in a state, if there is one: \<open>ErrTooLarge\<close> exactly when there is no room for the
  bytes that a write or a growth asks for, and the panics of arguments out of range.
\<close>

definition panic_if :: "bool \<Rightarrow> go_panic \<Rightarrow> go_panic option" where
  "panic_if p e = (if p then Some e else None)"

fun panic_of :: "(nat \<Rightarrow> nat option) \<Rightarrow> buf_op \<Rightarrow> Buffer \<Rightarrow> go_panic option" where
  "panic_of alloc (OpWrite p) b = panic_if (too_large alloc (length p) b) ErrTooLarge"
| "panic_of alloc (OpWriteString p) b = panic_if (too_large alloc (length p) b) ErrTooLarge"
| "panic_of alloc (OpWriteByte c) b = panic_if (too_large alloc 1 b) ErrTooLarge"
| "panic_of alloc (OpWriteRune r) b = panic_if (too_large alloc (rune_room r) b) ErrTooLarge"
| "panic_of alloc (OpGrow n) b =
    (if n < 0 then Some (PanicMsg ''bytes.Buffer.Grow: negative count'')
     else panic_if (too_large alloc (nat n) b) ErrTooLarge)"
| "panic_of alloc (OpTruncate n) b =
    panic_if (n < 0 \<or> int (length (content b)) < n) (PanicMsg ''bytes.Buffer: truncation out of range'')"
| "panic_of alloc (OpNext n) b = panic_if (n < 0) IndexOutOfRange"
| "panic_of alloc _ b = None"

section \<open>Refinement\<close>

definition implements :: "(nat \<Rightarrow> nat option) \<Rightarrow> buf_op \<Rightarrow> Buffer \<Rightarrow> bool" where
  "implements alloc op b \<longleftrightarrow>
    (case exec alloc op b of
       Inl e \<Rightarrow> panic_of alloc op b = Some e
     | Inr (out, b') \<Rightarrow> panic_of alloc op b = None \<and> buffer_ok b' \<and> contract op (abs_queue b) out (abs_queue b'))"

lemma implements_writes:
  assumes "allocator alloc" and "buffer_ok b"
  shows "implements alloc (OpWrite p) b" "implements alloc (OpWriteString p) b"
    "implements alloc (OpWriteByte x) b" "implements alloc (OpWriteRune r) b"
  using Write_ok [OF assms, of p] WriteByte_ok [OF assms, of x] WriteRune_ok [OF assms, of r]
  by (auto simp: implements_def panic_if_def abs_queue_def WriteString_Write wrote_def
      intro!: q_write q_write_string q_write_byte q_write_rune)

lemma implements_Grow:
  assumes "allocator alloc" and "buffer_ok b"
  shows "implements alloc (OpGrow n) b"
proof (cases "n < 0")
  case True
  then show ?thesis by (simp add: implements_def Grow_def)
next
  case False
  then show ?thesis using Grow_ok [OF assms, of n]
    by (auto simp: implements_def panic_if_def abs_queue_def intro!: q_grow)
qed

lemma implements_Reset: "buffer_ok b \<Longrightarrow> implements alloc OpReset b"
  using Reset_ok [of b] by (simp add: implements_def abs_queue_def q_reset)

lemma implements_Truncate:
  assumes b: "buffer_ok b"
  shows "implements alloc (OpTruncate n) b"
proof (cases "n = 0")
  case True
  then show ?thesis using Reset_ok [OF b] q_truncate [of "[]" "past b" n "content b" "lastRead b"]
    by (simp add: implements_def panic_if_def abs_queue_def Truncate_def)
next
  case False
  have len: "Len (b\<lparr>lastRead := opInvalid\<rparr>) = int (length (content b))" using Len_content [OF b] by (simp add: Len_def)
  show ?thesis
  proof (cases "n < 0 \<or> int (length (content b)) < n")
    case True
    then show ?thesis using False len by (auto simp: implements_def panic_if_def abs_queue_def Truncate_def Let_def)
  next
    case in_range: False
    let ?b = "b\<lparr>buf := (buf b)\<lparr>blen := off b + nat n\<rparr>, lastRead := opInvalid\<rparr>"
    have n: "off b + nat n \<le> blen (buf b)" 
    proof -
      have "nat n \<le> length (content b)" using in_range by linarith
      then show ?thesis using length_content [OF b] buffer_okD(1) [OF b] by linarith
    qed
    then have "off b + nat n \<le> capacity (buf b)" using b by (simp add: buffer_ok_def)
    then have "Truncate n b = Inr ?b"
      using False in_range len by (simp add: Truncate_def Let_def reslice_def nat_add_distrib)
    moreover have "buffer_ok ?b" using b n by (auto simp: buffer_ok_def capacity_def opInvalid_def)
    moreover have "content ?b = take (nat n) (content b)" using n by (simp add: content_def bytes_of_def take_drop min_def add.commute)
    ultimately show ?thesis
      using in_range by (auto simp: implements_def panic_if_def abs_queue_def past_def opInvalid_def intro!: q_truncate)
  qed
qed

lemma implements_Read:
  assumes b: "buffer_ok b"
  shows "implements alloc (OpRead p) b"
proof -
  let ?b = "b\<lparr>lastRead := opInvalid\<rparr>"
  have ok: "buffer_ok ?b" "content ?b = content b" using b by (simp_all add: opInvalid_def)
  show ?thesis
  proof (cases "content b = []")
    case True
    then have "exec alloc (OpRead p) b = Inr (Filled p 0 (if p = [] then None else Some EOF), Reset ?b)"
      using empty_content [OF ok(1)] ok(2) by (simp add: Read_def Let_def)
    then show ?thesis using Reset_ok [OF ok(1)] q_read_eof [of p "past b" "lastRead b"] True
      by (simp add: implements_def abs_queue_def)
  next
    case False
    define n where "n = min (length p) (length (content b))"
    let ?b' = "b\<lparr>off := off b + n, lastRead := if p = [] then 0 else opRead\<rparr>"
    have n: "n > 0 \<longleftrightarrow> p \<noteq> []" "n \<le> length (content b)" "p = [] \<Longrightarrow> n = 0"
      using False by (simp_all add: n_def)
    have same: "b\<lparr>off := off b, lastRead := k\<rparr> = b\<lparr>lastRead := k\<rparr>" for k by simp
    have "go_copy p (content b) = take n (content b) @ drop n p" by (simp add: go_copy_def n_def min_def)
    then have "exec alloc (OpRead p) b = Inr (Filled (take n (content b) @ drop n p) n None, ?b')"
      using empty_content [OF ok(1)] sub_content [OF ok(1)] ok(2) False n
      by (simp add: Read_def Let_def n_def [symmetric] opInvalid_def same)
    then show ?thesis
      using advance_read [OF b n(2), of "if p = [] then 0 else opRead"]
        q_read [OF False n_def, of "past b" "lastRead b"]
      by (simp add: implements_def abs_queue_def [of b] opRead_def)
  qed
qed

lemma implements_Next:
  assumes b: "buffer_ok b"
  shows "implements alloc (OpNext n) b"
proof (cases "n < 0")
  case True
  have "Len (b\<lparr>lastRead := opInvalid\<rparr>) = int (length (content b))" using Len_content [OF b] by (simp add: Len_def)
  then show ?thesis using True by (simp add: implements_def panic_if_def Next_def Let_def sub_bytes_def)
next
  case False
  let ?b = "b\<lparr>lastRead := opInvalid\<rparr>"
  have len: "Len ?b = int (length (content b))" using Len_content [OF b] by (simp add: Len_def)
  define w where "w = min (nat n) (length (content b))"
  have w: "(if n > Len ?b then Len ?b else n) = int w" "w \<le> length (content b)"
    using False by (auto simp: len w_def)
  have k: "0 < w \<longleftrightarrow> \<not> (n = 0 \<or> content b = [])" using False by (auto simp: w_def)
  have tk: "take w (content b) = take (nat n) (content b)" "drop w (content b) = drop (nat n) (content b)"
    by (simp_all add: w_def min_def)
  have le: "off b + w \<le> length (mem (buf b))"
    using w(2) length_content [OF b] buffer_okD(1,2) [OF b] by linarith
  then have "sub_bytes (buf b) (int (off b)) (int (off b) + int w) = Inr (take w (drop (off b) (mem (buf b))))"
    by (simp add: sub_bytes_def capacity_def)
  moreover have "take w (drop (off b) (mem (buf b))) = take w (content b)"
    using w(2) length_content [OF b] by (simp add: content_def bytes_of_def drop_take min_def)
  ultimately have "exec alloc (OpNext n) b = Inr (Data (take w (content b)) None,
      b\<lparr>off := off b + w, lastRead := if n = 0 \<or> content b = [] then 0 else opRead\<rparr>)"
    unfolding exec.simps Next_def Let_def w(1) using k by (simp add: opInvalid_def nat_add_distrib)
  then show ?thesis
    using advance_read [OF b w(2), of "if n = 0 \<or> content b = [] then 0 else opRead"] False
      q_nxt [of n "past b" "content b" "lastRead b"] tk
    by (simp add: implements_def panic_if_def abs_queue_def [of b] opRead_def)
qed

lemma buf_at_content: "buffer_ok b \<Longrightarrow> content b = x # q \<Longrightarrow> buf_at b (off b) = Inr x"
proof -
  assume b: "buffer_ok b" "content b = x # q"
  then have "off b < blen (buf b)" using length_content [OF b(1)] by simp
  moreover have "mem (buf b) ! off b = x"
  proof -
    have "hd (content b) = bytes_of (buf b) ! off b"
      using \<open>off b < _\<close> buffer_okD(2) [OF b(1)] by (simp add: content_def bytes_of_def hd_drop_conv_nth)
    then show ?thesis using b(2) \<open>off b < _\<close> by (simp add: bytes_of_def)
  qed
  ultimately show ?thesis by (simp add: buf_at_def)
qed

lemma implements_ReadByte:
  assumes b: "buffer_ok b"
  shows "implements alloc OpReadByte b"
proof (cases "content b")
  case Nil
  then show ?thesis using Reset_ok [OF b] q_byte_eof [of "past b" "lastRead b"] empty_content [OF b]
    by (simp add: implements_def abs_queue_def ReadByte_def)
next
  case (Cons x q)
  then show ?thesis using buf_at_content [OF b Cons] empty_content [OF b] advance_read [OF b, of 1 opRead]
      q_byte [of "past b" x q "lastRead b"]
    by (simp add: implements_def abs_queue_def [of b] ReadByte_def opRead_def)
qed

lemma decode_width4: "DecodeRune p = Some (r, n) \<Longrightarrow> n \<le> length p \<and> n \<le> 4 \<and> (p \<noteq> [] \<longrightarrow> 0 < n)"
  using decode_width [of "map unat p"]
  by (cases "p = []") (auto simp: DecodeRune_decode decode_def seq_len_def lead_size_def Let_def split: if_splits)

lemma DecodeRune_ascii: "x < RuneSelf \<Longrightarrow> DecodeRune (x # q) = Some (ucast x, 1)"
  by (simp add: DecodeRune_decode decode_def seq_len_def seq_val_def lead_size_def RuneSelf_def word_less_nat_alt)

lemma implements_ReadRune:
  assumes b: "buffer_ok b"
  shows "implements alloc OpReadRune b"
proof (cases "content b")
  case Nil
  then show ?thesis using Reset_ok [OF b] q_rune_eof [of "past b" "lastRead b"] empty_content [OF b]
    by (simp add: implements_def abs_queue_def ReadRune_def)
next
  case (Cons x q)
  from DecodeRune_canonical [of "content b"] obtain r n where d: "DecodeRune (content b) = Some (r, n)" by blast
  note n = decode_width4 [OF d]
  have "exec alloc OpReadRune b = Inr (Rune r n None, b\<lparr>off := off b + n, lastRead := int n\<rparr>)"
    using buf_at_content [OF b Cons] empty_content [OF b] Cons d sub_content [OF b] DecodeRune_ascii [of x q]
    by (auto simp: ReadRune_def opReadRune1_def)
  then show ?thesis using advance_read [OF b, of n "int n"] n q_rune [OF _ d, of "past b" "lastRead b"] Cons
    by (simp add: implements_def abs_queue_def [of b])
qed

lemma IndexByte_takeWhile:
  "IndexByte q d = (if d \<in> set q then int (length (takeWhile (\<lambda>c. c \<noteq> d) q)) else - 1)"
  by (induction q d rule: IndexByte.induct) auto

lemma line_of_prefix:
  "line_of d q = take (length (line_of d q)) q" "length (line_of d q) \<le> length q"
  "int (length (line_of d q)) = (if d \<in> set q then IndexByte q d + 1 else int (length q))"
proof -
  have "line_of d q = take (length (line_of d q)) q \<and> length (line_of d q) \<le> length q"
    unfolding line_of_def by (induction q) auto
  then show "line_of d q = take (length (line_of d q)) q" "length (line_of d q) \<le> length q" by blast+
  have tw: "length (takeWhile (\<lambda>c. c \<noteq> d) q) = length q" if "d \<notin> set q"
    using that takeWhile_eq_all_conv [of "\<lambda>c. c \<noteq> d" q] by metis
  show "int (length (line_of d q)) = (if d \<in> set q then IndexByte q d + 1 else int (length q))"
    by (cases "d \<in> set q") (simp_all add: line_of_def IndexByte_takeWhile tw)
qed

lemma readSlice_line:
  assumes b: "buffer_ok b"
  shows "readSlice d b = Inr ((line_of d (content b), if d \<in> set (content b) then None else Some EOF),
    b\<lparr>off := off b + length (line_of d (content b)), lastRead := opRead\<rparr>)"
proof -
  define q where "q = content b"
  define w where "w = length (line_of d q)"
  have w: "w \<le> length q" "line_of d q = take w q" using line_of_prefix(1,2) by (simp_all add: w_def)
  have len: "blen (buf b) = off b + length q"
    using length_content [OF b] buffer_okD(1) [OF b] by (simp add: q_def)
  have idx: "(if IndexByte q d < 0 then (int (blen (buf b)), Some EOF) else (int (off b) + IndexByte q d + 1, None)) =
      (int (off b) + int w, if d \<in> set q then None else Some EOF)"
    using line_of_prefix(3) [of d q] by (auto simp: w_def len IndexByte_takeWhile)
  have "off b + w \<le> length (mem (buf b))" using w(1) len buffer_okD(2) [OF b] by simp
  then have "sub_bytes (buf b) (int (off b)) (int (off b) + int w) = Inr (take w (drop (off b) (mem (buf b))))"
    by (simp add: sub_bytes_def capacity_def)
  moreover have "w \<le> blen (buf b) - off b" using w(1) len by simp
  then have "take w (drop (off b) (mem (buf b))) = take w q"
    unfolding q_def content_def bytes_of_def by (simp add: drop_take min_def)
  ultimately have "sub_bytes (buf b) (int (off b)) (int (off b) + int w) = Inr (line_of d q)" by (simp add: w(2))
  then show ?thesis
    unfolding readSlice_def sub_content [OF b] go_bind_Inr Let_def q_def [symmetric] idx prod.case w_def [symmetric]
    by (simp add: nat_add_distrib)
qed

lemma implements_lines:
  assumes b: "buffer_ok b"
  shows "implements alloc (OpReadBytes d) b" "implements alloc (OpReadString d) b"
proof -
  define q where "q = content b"
  let ?b = "b\<lparr>off := off b + length (line_of d q), lastRead := opRead\<rparr>"
  have a: "buffer_ok ?b" "abs_queue ?b = (past b @ line_of d q, drop (length (line_of d q)) q, opRead)"
    using advance_read [OF b, of "length (line_of d q)" opRead] line_of_prefix(1,2) [of d q]
    by (simp_all add: q_def opRead_def)
  show "implements alloc (OpReadBytes d) b"
    using a q_line [of d "past b" q "lastRead b"]
    by (simp add: implements_def ReadBytes_def readSlice_line [OF b] q_def [symmetric] abs_queue_def [of b])
  show "implements alloc (OpReadString d) b"
    using a q_line_string [of d "past b" q "lastRead b"]
    by (simp add: implements_def ReadString_def readSlice_line [OF b] q_def [symmetric] abs_queue_def [of b])
qed

section \<open>Unreading\<close>

lemma implements_UnreadByte:
  assumes b: "buffer_ok b"
  shows "implements alloc OpUnreadByte b"
proof (cases "lastRead b = 0")
  case True
  then show ?thesis using b q_unread_byte_no [of "past b" "content b"]
    by (simp add: implements_def UnreadByte_def opInvalid_def abs_queue_def)
next
  case k: False
  have len: "length (past b) = off b" by (rule length_past [OF b])
  show ?thesis
  proof (cases "past b" rule: rev_cases)
    case Nil
    then show ?thesis using b k len q_unread_byte_lost [OF k, of "content b"]
      by (simp add: implements_def UnreadByte_def opInvalid_def abs_queue_def)
  next
    case (snoc c x)
    then have o1: "1 \<le> off b" "off b = length c + 1" using len by auto
    note r = retreat [OF b o1(1)]
    have "content (b\<lparr>off := off b - 1\<rparr>) = x # content b" "past (b\<lparr>off := off b - 1\<rparr>) = c"
      using r(2,3) snoc by simp_all
    moreover have "UnreadByte b = (None, b\<lparr>off := off b - 1, lastRead := 0\<rparr>)"
      using k o1 by (simp add: UnreadByte_def opInvalid_def)
    ultimately show ?thesis
      using k r(1) q_unread_byte [OF k, of c x "content b"] snoc
      by (simp add: implements_def abs_queue_def)
  qed
qed

lemma implements_UnreadRune:
  assumes b: "buffer_ok b"
  shows "implements alloc OpUnreadRune b"
proof (cases "lastRead b \<le> 0")
  case True
  then show ?thesis using b q_unread_rune_no [OF True, of "past b" "content b"]
    by (simp add: implements_def UnreadRune_def opInvalid_def abs_queue_def)
next
  case k: False
  then have k0: "0 < lastRead b" by simp
  have len: "length (past b) = off b" by (rule length_past [OF b])
  show ?thesis
  proof (cases "int (off b) < lastRead b")
    case True
    then show ?thesis using b k len q_unread_rune_lost [OF k0, of "past b" "content b"]
      by (simp add: implements_def UnreadRune_def opInvalid_def abs_queue_def)
  next
    case False
    define w where "w = nat (lastRead b)"
    have w: "lastRead b = int w" "w \<le> off b" using False k by (simp_all add: w_def)
    note r = retreat [OF b w(2)]
    let ?c = "take (off b - w) (past b)" and ?x = "drop (off b - w) (past b)"
    have "contract OpUnreadRune (?c @ ?x, content b, int w) Done (?c, ?x @ content b, 0)"
      using k0 w len by (intro q_unread_rune) simp_all
    moreover have "UnreadRune b = (None, b\<lparr>off := off b - w, lastRead := 0\<rparr>)"
      using k w by (simp add: UnreadRune_def opInvalid_def nat_diff_distrib flip: of_nat_diff)
    ultimately show ?thesis
      using r w len by (simp add: implements_def abs_queue_def)
  qed
qed

text \<open>Every operation, from a state that satisfies the invariant.\<close>

lemma implements_all:
  assumes "allocator alloc" and "buffer_ok b"
  shows "implements alloc op b"
  using implements_writes [OF assms] implements_Grow [OF assms] implements_Reset [OF assms(2)]
    implements_Truncate [OF assms(2)] implements_Read [OF assms(2)] implements_Next [OF assms(2)]
    implements_ReadByte [OF assms(2)] implements_ReadRune [OF assms(2)] implements_lines [OF assms(2)]
    implements_UnreadByte [OF assms(2)] implements_UnreadRune [OF assms(2)]
  by (cases op) simp_all

text \<open>The same as an equivalence: an operation panics exactly when, and as, \<^const>\<open>panic_of\<close> says.\<close>

lemma exec_panics:
  assumes "allocator alloc" and "buffer_ok b"
  shows "exec alloc op b = Inl e \<longleftrightarrow> panic_of alloc op b = Some e"
  using implements_all [OF assms, of op] by (auto simp: implements_def split: sum.splits)

section \<open>What unreading unreads\<close>

text \<open>The bytes that an operation has consumed, from its result.\<close>

fun bytes_read :: "buf_op \<Rightarrow> buf_out \<Rightarrow> nat" where
  "bytes_read (OpRead p) (Filled p' n e) = n"
| "bytes_read (OpNext n) (Data d e) = length d"
| "bytes_read OpReadByte (Data d e) = (if e = None then 1 else 0)"
| "bytes_read OpReadRune (Rune r n e) = n"
| "bytes_read (OpReadBytes d) (Data l e) = length l"
| "bytes_read (OpReadString d) (Data l e) = length l"
| "bytes_read _ _ = 0"

text \<open>
  After these a byte cannot be unread when they consumed none.  The others are \<open>Grow\<close>, the two unreading
  operations, and \<open>ReadBytes\<close> and \<open>ReadString\<close>, whose empty reads are not told from successful ones.
\<close>

fun forgets_read :: "buf_op \<Rightarrow> bool" where
  "forgets_read (OpGrow n) \<longleftrightarrow> False"
| "forgets_read OpUnreadByte \<longleftrightarrow> False"
| "forgets_read OpUnreadRune \<longleftrightarrow> False"
| "forgets_read (OpReadBytes d) \<longleftrightarrow> False"
| "forgets_read (OpReadString d) \<longleftrightarrow> False"
| "forgets_read _ \<longleftrightarrow> True"

definition unreads :: "buf_op \<Rightarrow> buf_out \<Rightarrow> Buffer \<Rightarrow> Buffer \<Rightarrow> bool" where
  "unreads op out b b' \<longleftrightarrow>
    (let n = bytes_read op out
     in (0 < n \<longrightarrow> fst (UnreadByte b') = None \<and> content (snd (UnreadByte b')) = drop (n - 1) (content b)) \<and>
        (n = 0 \<and> forgets_read op \<longrightarrow> UnreadByte b' = (Some errUnreadByte, b')) \<and>
        (0 < n \<and> op = OpReadRune \<longrightarrow> fst (UnreadRune b') = None \<and> content (snd (UnreadRune b')) = content b) \<and>
        ((n = 0 \<or> op \<noteq> OpReadRune) \<and> (\<nexists>m. op = OpGrow m) \<longrightarrow> UnreadRune b' = (Some errUnreadRune, b')))"

lemma contract_read:
  assumes "contract op (c, q, k) out (c', q', k')" and "bytes_read op out = n" and "0 < n"
  shows "k' \<noteq> 0 \<and> n \<le> length q \<and> c' = c @ take n q \<and> q' = drop n q \<and> (if op = OpReadRune then k' = int n else k' \<le> 0)"
  using assms line_of_prefix(1,2) [of _ q]
  by cases (auto simp: opRead_def min_def dest!: decode_width4 split: if_splits)

lemma contract_no_read:
  assumes "contract op (c, q, k) out (c', q', k')" and "bytes_read op out = 0"
  shows "(forgets_read op \<longrightarrow> k' = 0) \<and> ((\<nexists>m. op = OpGrow m) \<longrightarrow> k' \<le> 0)"
  using assms by cases (auto simp: opRead_def min_def dest: decode_width4 split: if_splits)

lemma UnreadByte_back:
  assumes "lastRead b \<noteq> 0" and "0 < off b"
  shows "fst (UnreadByte b) = None" "content (snd (UnreadByte b)) = content (b\<lparr>off := off b - 1\<rparr>)"
  using assms by (simp_all add: UnreadByte_def readOps Let_def content_def)

lemma UnreadRune_back:
  assumes "lastRead b = int n" and "0 < n" and "n \<le> off b"
  shows "fst (UnreadRune b) = None" "content (snd (UnreadRune b)) = content (b\<lparr>off := off b - n\<rparr>)"
  using assms by (simp_all add: UnreadRune_def readOps Let_def content_def nat_diff_distrib flip: of_nat_diff)

lemma unreads_all:
  assumes "buffer_ok b'" and c: "contract op (abs_queue b) out (abs_queue b')"
  shows "unreads op out b b'"
proof -
  define n where "n = bytes_read op out"
  show ?thesis
  proof (cases "0 < n")
    case True
    note r = contract_read [OF c [unfolded abs_queue_def] n_def [symmetric] True]
    then have p: "length (past b') = off b'" "past b' = past b @ take n (content b)" "n \<le> length (content b)"
      "content b' = drop n (content b)" using length_past [OF assms(1)] by blast+
    then have off: "n \<le> off b'" "off b' - n = length (past b)" by auto
    have "1 \<le> off b'" using off True by simp
    note one_back = retreat(2) [OF assms(1) this] and rune_back = retreat(2) [OF assms(1) off(1)]
    have "length (past b') - 1 = length (past b) + (n - 1)" using p True by simp
    then have "drop (length (past b') - 1) (past b') = drop (n - 1) (take n (content b))" by (simp add: p(2))
    then have "content (b'\<lparr>off := off b' - 1\<rparr>) = drop (n - 1) (content b)"
      using one_back p(3,4) by (metis append_take_drop_id diff_le_self drop_append diff_is_0_eq drop0 length_take min.absorb2)
    moreover have "content (b'\<lparr>off := off b' - n\<rparr>) = content b"
      using rune_back p off by simp
    ultimately show ?thesis
      using r True off UnreadByte_back [of b'] UnreadRune_back [of b' n]
      by (auto simp: unreads_def n_def [symmetric] UnreadRune_def readOps split: if_splits)
  next
    case False
    then show ?thesis
      using contract_no_read [OF c [unfolded abs_queue_def]]
      by (auto simp: unreads_def n_def UnreadByte_def UnreadRune_def readOps)
  qed
qed

end
