(* ===== verification/Buffer_Correct.thy ===== *)
theory Buffer_Correct
  imports Buffer_Queue
begin

text \<open>
  What clients of \<^verbatim>\<open>bytes.Buffer\<close> rely on: the contract of every operation along any run, first in first
  out, reading another reader to its end, and writing to a writer.
\<close>

section \<open>Byte queues\<close>

datatype queue_op = Put "u8 list" | Get nat

fun run_queue :: "(u8 list \<Rightarrow> 's \<Rightarrow> 's go) \<Rightarrow> (nat \<Rightarrow> 's \<Rightarrow> (u8 list \<times> 's) go) \<Rightarrow> queue_op list \<Rightarrow> 's \<Rightarrow> (u8 list \<times> 's) go" where
  "run_queue put get [] s = Inr ([], s)"
| "run_queue put get (Put p # ops) s = go_bind (put p s) (run_queue put get ops)"
| "run_queue put get (Get n # ops) s =
    go_bind (get n s) (\<lambda>(d, s). go_bind (run_queue put get ops s) (\<lambda>(ds, s). Inr (d @ ds, s)))"

fun all_put :: "queue_op list \<Rightarrow> u8 list" where
  "all_put [] = []"
| "all_put (Put p # ops) = p @ all_put ops"
| "all_put (Get n # ops) = all_put ops"

locale byte_queue =
  fixes wf :: "'s \<Rightarrow> bool" and stored :: "'s \<Rightarrow> u8 list"
    and put :: "u8 list \<Rightarrow> 's \<Rightarrow> 's go" and get :: "nat \<Rightarrow> 's \<Rightarrow> (u8 list \<times> 's) go"
    and fits :: "nat \<Rightarrow> bool" and full :: go_panic
  assumes put_stored: "wf s \<Longrightarrow> put p s = Inr s' \<Longrightarrow> wf s' \<and> stored s' = stored s @ p"
    and put_full: "wf s \<Longrightarrow> put p s = Inl e \<Longrightarrow> e = full \<and> \<not> fits (length (stored s) + length p)"
    and fits_less: "fits m \<Longrightarrow> n \<le> m \<Longrightarrow> fits n"
    and get_stored: "wf s \<Longrightarrow> \<exists>s'. get n s = Inr (take n (stored s), s') \<and> wf s' \<and> stored s' = drop n (stored s)"
begin

text \<open>Whatever comes out, followed by what remains, is what was there followed by what was put in.\<close>

lemma fifo:
  "wf s \<Longrightarrow> run_queue put get ops s = Inr (out, s') \<Longrightarrow>
   wf s' \<and> out @ stored s' = stored s @ all_put ops"
proof (induction ops arbitrary: s out rule: all_put.induct)
  case (2 p ops)
  then obtain s1 where s1: "put p s = Inr s1" "run_queue put get ops s1 = Inr (out, s')"
    by (auto simp: go_bind_eq_Inr)
  with put_stored [OF 2(2) s1(1)] 2(1) [of s1 out] show ?case by simp
next
  case (3 n ops)
  from get_stored [OF 3(2), of n] obtain s1 where
    s1: "get n s = Inr (take n (stored s), s1)" "wf s1" "stored s1 = drop n (stored s)" by blast
  with 3(3) obtain ds where ds: "run_queue put get ops s1 = Inr (ds, s')" "out = take n (stored s) @ ds"
    by (auto simp: go_bind_eq_Inr)
  with 3(1) [OF s1(2) ds(1)] s1(3) show ?case by (metis append.assoc append_take_drop_id all_put.simps(3))
qed simp

text \<open>A run fails only when the queue is full, and not while all that was put in fits at once.\<close>

lemma run_full:
  "wf s \<Longrightarrow> run_queue put get ops s = Inl e \<Longrightarrow>
   e = full \<and> \<not> fits (length (stored s) + length (all_put ops))"
proof (induction ops arbitrary: s rule: all_put.induct)
  case (2 p ops)
  show ?case
  proof (cases "put p s")
    case (Inl e')
    then have "e = full" "\<not> fits (length (stored s) + length p)" using 2(3) put_full [OF 2(2), of p e'] by simp_all
    then show ?thesis using fits_less [OF _ trans_le_add1 [OF order_refl]] by (auto simp: add.assoc [symmetric])
  next
    case (Inr s1)
    then have "run_queue put get ops s1 = Inl e" using 2(3) by simp
    then show ?thesis using 2(1) [of s1] put_stored [OF 2(2) Inr] by (simp add: add.assoc)
  qed
next
  case (3 n ops)
  from get_stored [OF 3(2), of n] obtain s1 where
    s1: "get n s = Inr (take n (stored s), s1)" "wf s1" "stored s1 = drop n (stored s)" by blast
  then have "run_queue put get ops s1 = Inl e"
    using 3(3) by (auto simp: go_bind_def split: sum.splits)
  from 3(1) [OF s1(2) this] s1(3) show ?case
    using fits_less [of "length (stored s) + length (all_put ops)" "length (stored s1) + length (all_put ops)"] by auto
qed simp

end

definition buffer_put :: "(nat \<Rightarrow> nat option) \<Rightarrow> u8 list \<Rightarrow> Buffer \<Rightarrow> Buffer go" where
  "buffer_put alloc p b = go_bind (Write alloc p b) (\<lambda>(n, b). Inr b)"

definition buffer_get :: "nat \<Rightarrow> Buffer \<Rightarrow> (u8 list \<times> Buffer) go" where
  "buffer_get n b = Next (int n) b"

interpretation bq: byte_queue "\<lambda>b. allocator alloc \<and> buffer_ok b" content "buffer_put alloc" buffer_get
  "\<lambda>m. memory_for alloc (5 * m)" ErrTooLarge for alloc
proof
  fix b b' p
  assume "allocator alloc \<and> buffer_ok b" and "buffer_put alloc p b = Inr b'"
  then show "(allocator alloc \<and> buffer_ok b') \<and> content b' = content b @ p"
    using Write_ok [of alloc b p] by (auto simp: buffer_put_def wrote_def)
next
  fix b p e
  assume b: "allocator alloc \<and> buffer_ok b" and "buffer_put alloc p b = Inl e"
  then have "e = ErrTooLarge" "too_large alloc (length p) b"
    using Write_ok [of alloc b p] by (auto simp: buffer_put_def)
  with b show "e = ErrTooLarge \<and> \<not> memory_for alloc (5 * (length (content b) + length p))"
    using too_large_memory [of b alloc "length p"]
      memory_for_le [of alloc "5 * (length (content b) + length p)" "4 * length (content b) + 5 * length p"] by auto
next
  fix m n
  assume "memory_for alloc (5 * m)" and "n \<le> m"
  then show "memory_for alloc (5 * n)" by (auto intro: memory_for_le)
next
  fix b n
  assume b: "allocator alloc \<and> buffer_ok b"
  then have "implements alloc (OpNext (int n)) b" by (simp add: implements_Next)
  moreover have "panic_of alloc (OpNext (int n)) b = None" by (simp add: panic_if_def)
  ultimately obtain d b' where "Next (int n) b = Inr (d, b')" "buffer_ok b'"
    "contract (OpNext (int n)) (abs_queue b) (Data d None) (abs_queue b')"
    by (auto simp: implements_def go_bind_def split: sum.splits)
  then show "\<exists>b'. buffer_get n b = Inr (take n (content b), b') \<and> (allocator alloc \<and> buffer_ok b') \<and>
      content b' = drop n (content b)"
    using b by (auto simp: buffer_get_def abs_queue_def elim: contract.cases)
qed

section \<open>Readers\<close>




section \<open>Runs\<close>






lemma NewBufferString_ok:
  "buffer_ok (NewBufferString k s)" "abs_queue (NewBufferString k s) = ([], s, 0)"
  by (simp_all add: NewBufferString_def NewBuffer_def buffer_ok_def capacity_def abs_queue_def past_def content_def
      bytes_of_def opInvalid_def)

section \<open>Properties\<close>



definition exact_alloc :: "nat \<Rightarrow> nat option" where
  "exact_alloc n = Some n"

lemma exact_allocator: "allocator exact_alloc"
  by (simp add: allocator_def exact_alloc_def)



text \<open>C22. First in, first out: over any sequence of writes and of \<open>Next\<close>, the bytes that came out followed by
  those still in the buffer are the bytes that were there followed by those written.  The sequence fails
  only with \<open>ErrTooLarge\<close>, and not if the allocator has slices of five times all these bytes.\<close>

theorem buffer_fifo:
  assumes "allocator alloc" and "buffer_ok b"
  shows "case run_queue (buffer_put alloc) buffer_get ops b of
      Inr (out, b') \<Rightarrow> buffer_ok b' \<and> out @ content b' = content b @ all_put ops
    | Inl e \<Rightarrow> e = ErrTooLarge \<and> \<not> memory_for alloc (5 * (length (content b) + length (all_put ops)))"
  using bq.fifo [of alloc b ops] bq.run_full [of alloc b ops] assms by (auto split: sum.splits)


text \<open>Writes that reallocate the slice, with reads between them.\<close>

theorem buffer_fifo_witness:
  "\<exists>out b. run_queue (buffer_put exact_alloc) buffer_get [Put [7, 8], Get 3, Put [9], Get 1] (NewBufferString 0 [5, 6]) =
       Inr (out, b) \<and> out = [5, 6, 7, 8] \<and> content b = [9]"
proof -
  let ?ops = "[Put [7, 8], Get 3, Put [9], Get 1]"
  have c: "content (NewBufferString 0 [5, 6]) = [5, 6]" using NewBufferString_ok(2) by (simp add: abs_queue_def)
  let ?b = "\<lparr>buf = \<lparr>mem = [8, 9, 7, 8], blen = 2, isnil = False\<rparr>, off = 1, lastRead = - 1\<rparr>"
  have r: "run_queue (buffer_put exact_alloc) buffer_get ?ops (NewBufferString 0 [5, 6]) = Inr ([5, 6, 7, 8], ?b)"
    by code_simp
  have "[5, 6, 7, 8] @ content ?b = [5, 6, 7, 8, 9]"
    using buffer_fifo [OF exact_allocator NewBufferString_ok(1) [of 0 "[5, 6]"], of ?ops] unfolding r c by simp
  with r show ?thesis by simp
qed



text \<open>C24. A \<open>ReadBytes\<close> that reads nothing and returns \<open>io.EOF\<close> still counts as a successful read: the
  \<open>UnreadByte\<close> that follows returns no error and gives back a byte consumed before it, where the
  documentation of \<open>UnreadByte\<close> promises an error.\<close>

theorem UnreadByte_after_EOF:
  assumes "buffer_ok b" and "content b = []" and "past b = c @ [x]"
  shows "\<exists>b1 b2. ReadBytes d b = Inr (([], Some EOF), b1) \<and> UnreadByte b1 = (None, b2) \<and> content b2 = [x]"
proof -
  let ?b1 = "b\<lparr>off := off b + length (line_of d (content b)), lastRead := opRead\<rparr>"
  have line: "line_of d [] = []" by (simp add: line_of_def)
  have r: "ReadBytes d b = Inr (([], Some EOF), ?b1)"
    using assms(2) by (simp add: ReadBytes_def readSlice_line [OF assms(1)] line)
  have b1: "buffer_ok ?b1" "abs_queue ?b1 = (past b, [], opRead)"
    using advance_read [OF assms(1), of 0 opRead] assms(2) by (simp_all add: line opRead_def)
  have o1: "1 \<le> off ?b1" using length_past [OF assms(1)] assms(3) by simp
  have "content (?b1\<lparr>off := off ?b1 - 1\<rparr>) = [x]"
    using retreat(2) [OF b1(1) o1] b1(2) assms(3) by (simp add: abs_queue_def)
  moreover have "UnreadByte ?b1 = (None, ?b1\<lparr>off := off ?b1 - 1, lastRead := 0\<rparr>)"
    using o1 by (simp add: UnreadByte_def readOps Let_def)
  ultimately show ?thesis using r by (intro exI [of _ ?b1] exI) (auto simp: content_def)
qed

theorem UnreadByte_after_EOF_witness:
  "\<exists>b1 b2. ReadBytes 0 (\<lparr>buf = \<lparr>mem = [7], blen = 1, isnil = False\<rparr>, off = 1, lastRead = 0\<rparr>) =
      Inr (([], Some EOF), b1) \<and> UnreadByte b1 = (None, b2) \<and> content b2 = [7]"
  by (rule UnreadByte_after_EOF [where c = "[]"])
    (simp_all add: buffer_ok_def capacity_def content_def bytes_of_def past_def)

text \<open>
  \<open>Grow\<close> leaves \<open>lastRead\<close> as it is but moves the contents to the start of a slice: an \<open>UnreadByte\<close> that
  follows returns no error and unreads nothing.
\<close>

lemma UnreadByte_after_Grow:
  "\<exists>b1 b2 b3. ReadByte (NewBufferString 0 [1, 2, 3]) = Inr ((1, None), b1) \<and>
     Grow exact_alloc 8 b1 = Inr b2 \<and> UnreadByte b2 = (None, b3) \<and> content b3 = [2, 3]"
  by (simp add: NewBufferString_def NewBuffer_def ReadByte_def empty_def buf_at_def readOps Grow_def grow_def Let_def
      Len_def tryGrowByReslice_def capacity_def slice_from_def growSlice_def exact_alloc_def go_copy_def bytes_of_def
      maxInt_def reslice_def UnreadByte_def content_def smallBufferSize_def copy_into_def)

end
