(* ===== verification/Strconv.thy ===== *)
theory Strconv
  imports Bits "HOL-Library.Char_ord"
begin

text \<open>
  Package \<^verbatim>\<open>strconv\<close>, integers: \<^verbatim>\<open>itoa.go\<close> and \<^verbatim>\<open>atoi.go\<close>.  A string is a list of bytes; an \<open>int64\<close> is a
  64-bit word read by \<^const>\<open>sint\<close>, \<open>uint\<close> is the 64-bit one; a base and a bit size are integers.
\<close>

type_synonym i64 = "64 word"

abbreviation chr :: "char \<Rightarrow> u8" where
  "chr c \<equiv> of_char c"

section \<open>Formatting\<close>

definition fastSmalls :: bool where "fastSmalls = True"
definition nSmalls :: u64 where "nSmalls = 100"

definition smallsString :: "u8 list" where
  "smallsString = map of_char (''00010203040506070809'' @ ''10111213141516171819'' @ ''20212223242526272829'' @
    ''30313233343536373839'' @ ''40414243444546474849'' @ ''50515253545556575859'' @ ''60616263646566676869'' @
    ''70717273747576777879'' @ ''80818283848586878889'' @ ''90919293949596979899'')"

definition host32bit :: bool where
  "host32bit \<longleftrightarrow> drop_bit 32 (NOT 0 :: u64) = 0"

definition digits :: "u8 list" where
  "digits = map of_char ''0123456789abcdefghijklmnopqrstuvwxyz''"

text \<open>\<open>s[i:j]\<close> of a string.\<close>

definition substr :: "u8 list \<Rightarrow> nat \<Rightarrow> nat \<Rightarrow> u8 list go" where
  "substr s i j = (if i \<le> j \<and> j \<le> length s then Inr (take (j - i) (drop i s)) else Inl IndexOutOfRange)"

definition small :: "nat \<Rightarrow> u8 list go" where
  "small i = (if i < 10 then substr digits i (i + 1) else substr smallsString (i * 2) (i * 2 + 2))"

definition isPowerOfTwo :: "u64 \<Rightarrow> bool" where
  "isPowerOfTwo x \<longleftrightarrow> x AND (x - 1) = 0"

text \<open>
  The loops of \<open>formatBits\<close> fill the array \<open>a\<close> from its end; \<open>i -= n\<close> below 0 would panic at the access
  that follows.  A round may only end the function by such a panic, which is \<^const>\<open>None\<close>.
\<close>

definition step_back :: "nat \<Rightarrow> nat \<Rightarrow> nat option" where
  "step_back i n = (if n \<le> i then Some (i - n) else None)"

text \<open>\<open>i -= 2; a[i+1] = smallsString[is+1]; a[i+0] = smallsString[is+0]\<close>\<close>

definition put_two :: "u8 list \<Rightarrow> nat \<Rightarrow> u64 \<Rightarrow> (u8 list \<times> nat) option" where
  "put_two a i ix =
    do {
      i \<leftarrow> step_back i 2;
      c1 \<leftarrow> slice_get smallsString (unat (ix + 1));
      a \<leftarrow> slice_set a (i + 1) c1;
      c0 \<leftarrow> slice_get smallsString (unat ix);
      a \<leftarrow> slice_set a i c0;
      Some (a, i) }"

text \<open>\<open>i--; a[i] = s[k]\<close>\<close>

definition put_one :: "u8 list \<Rightarrow> nat \<Rightarrow> u8 list \<Rightarrow> u64 \<Rightarrow> (u8 list \<times> nat) option" where
  "put_one a i s k =
    do {
      i \<leftarrow> step_back i 1;
      c \<leftarrow> slice_get s (unat k);
      a \<leftarrow> slice_set a i c;
      Some (a, i) }"

fun formatBits_four :: "nat \<Rightarrow> u8 list \<Rightarrow> nat \<Rightarrow> u64 \<Rightarrow> (u8 list \<times> nat \<times> u64) option" where
  "formatBits_four 0 a i us = Some (a, i, us)"
| "formatBits_four (Suc j) a i us =
    do {
      let ix = us mod 100 * 2;
      let us = us div 100;
      (a, i) \<leftarrow> put_two a i ix;
      formatBits_four j a i us }"

partial_function (option) formatBits_host32 :: "u8 list \<Rightarrow> nat \<Rightarrow> u64 \<Rightarrow> (u8 list \<times> nat \<times> u64) option" where
  "formatBits_host32 a i u =
    (if u \<ge> 1000000000
     then do {
       let q = u div 1000000000;
       let us = u - q * 1000000000;
       (a, i, us) \<leftarrow> formatBits_four 4 a i us;
       (a, i) \<leftarrow> put_one a i smallsString (us * 2 + 1);
       formatBits_host32 a i q }
     else Some (a, i, u))"

partial_function (option) formatBits_smalls :: "u8 list \<Rightarrow> nat \<Rightarrow> u64 \<Rightarrow> (u8 list \<times> nat \<times> u64) option" where
  "formatBits_smalls a i us =
    (if us \<ge> 100
     then do {
       let ix = us mod 100 * 2;
       let us = us div 100;
       (a, i) \<leftarrow> put_two a i ix;
       formatBits_smalls a i us }
     else Some (a, i, us))"

partial_function (option) formatBits_shift ::
    "u64 \<Rightarrow> u64 \<Rightarrow> nat \<Rightarrow> u8 list \<Rightarrow> nat \<Rightarrow> u64 \<Rightarrow> (u8 list \<times> nat \<times> u64) option" where
  "formatBits_shift b m shift a i u =
    (if u \<ge> b
     then do {
       (a, i) \<leftarrow> put_one a i digits (u AND m);
       formatBits_shift b m shift a i (drop_bit shift u) }
     else Some (a, i, u))"

partial_function (option) formatBits_div ::
    "u64 \<Rightarrow> u8 list \<Rightarrow> nat \<Rightarrow> u64 \<Rightarrow> (u8 list \<times> nat \<times> u64) option" where
  "formatBits_div b a i u =
    (if u \<ge> b
     then do {
       let q = u div b;
       (a, i) \<leftarrow> put_one a i digits (u - q * b);
       formatBits_div b a i q }
     else Some (a, i, u))"

text \<open>The digits of \<open>u\<close> at the end of the array.\<close>

definition formatBits_digits :: "u8 list \<Rightarrow> nat \<Rightarrow> u64 \<Rightarrow> int \<Rightarrow> (u8 list \<times> nat) option" where
  "formatBits_digits a i u base =
    (if base = 10
     then do {
       (a, i, u) \<leftarrow> (if host32bit then formatBits_host32 a i u else Some (a, i, u));
       (a, i, us) \<leftarrow> formatBits_smalls a i u;
       let ix = us * 2;
       (a, i) \<leftarrow> put_one a i smallsString (ix + 1);
       if us \<ge> 10 then put_one a i smallsString ix else Some (a, i) }
     else if isPowerOfTwo (of_int base)
     then do {
       let shift = unat (of_int (TrailingZeros (of_int base)) AND (7 :: u64));
       let b = of_int base;
       let m = of_int base - 1;
       (a, i, u) \<leftarrow> formatBits_shift b m shift a i u;
       put_one a i digits u }
     else do {
       let b = of_int base;
       (a, i, u) \<leftarrow> formatBits_div b a i u;
       put_one a i digits u })"

definition formatBits :: "u8 list \<Rightarrow> u64 \<Rightarrow> int \<Rightarrow> bool \<Rightarrow> bool \<Rightarrow> (u8 list \<times> u8 list) go" where
  "formatBits dst u base neg append' =
    (if base < 2 \<or> base > int (length digits) then Inl (PanicMsg ''strconv: illegal AppendInt/FormatInt base'')
     else
       let a = replicate (64 + 1) 0;
           i = length a;
           u = (if neg then - u else u)
       in case do {
            (a, i) \<leftarrow> formatBits_digits a i u base;
            (a, i) \<leftarrow> (if neg then do { i \<leftarrow> step_back i 1; a \<leftarrow> slice_set a i (chr CHR ''-''); Some (a, i) } else Some (a, i));
            Some (drop i a) } of
          None \<Rightarrow> Inl IndexOutOfRange
        | Some s \<Rightarrow> if append' then Inr (dst @ s, []) else Inr ([], s))"

definition FormatUint :: "u64 \<Rightarrow> int \<Rightarrow> u8 list go" where
  "FormatUint i base =
    (if fastSmalls \<and> i < nSmalls \<and> base = 10 then small (unat i)
     else go_bind (formatBits [] i base False False) (\<lambda>(_, s). Inr s))"

definition FormatInt :: "i64 \<Rightarrow> int \<Rightarrow> u8 list go" where
  "FormatInt i base =
    (if fastSmalls \<and> 0 \<le> sint i \<and> sint i < sint nSmalls \<and> base = 10 then small (nat (sint i))
     else go_bind (formatBits [] i base (sint i < 0) False) (\<lambda>(_, s). Inr s))"

definition Itoa :: "i64 \<Rightarrow> u8 list go" where
  "Itoa i = FormatInt i 10"

definition AppendInt :: "u8 list \<Rightarrow> i64 \<Rightarrow> int \<Rightarrow> u8 list go" where
  "AppendInt dst i base =
    (if fastSmalls \<and> 0 \<le> sint i \<and> sint i < sint nSmalls \<and> base = 10
     then go_bind (small (nat (sint i))) (\<lambda>s. Inr (dst @ s))
     else go_bind (formatBits dst i base (sint i < 0) True) (\<lambda>(dst, _). Inr dst))"

definition AppendUint :: "u8 list \<Rightarrow> u64 \<Rightarrow> int \<Rightarrow> u8 list go" where
  "AppendUint dst i base =
    (if fastSmalls \<and> i < nSmalls \<and> base = 10 then go_bind (small (unat i)) (\<lambda>s. Inr (dst @ s))
     else go_bind (formatBits dst i base False True) (\<lambda>(dst, _). Inr dst))"

section \<open>Parsing\<close>

definition lower :: "u8 \<Rightarrow> u8" where
  "lower c = c OR (chr CHR ''x'' - chr CHR ''X'')"

datatype num_err = ErrRange | ErrSyntax | InvalidBase int | InvalidBitSize int

record NumError =
  Func :: string
  Num :: "u8 list"
  Err :: num_err

definition syntaxError :: "string \<Rightarrow> u8 list \<Rightarrow> NumError" where
  "syntaxError fn str = \<lparr>Func = fn, Num = str, Err = ErrSyntax\<rparr>"

definition rangeError :: "string \<Rightarrow> u8 list \<Rightarrow> NumError" where
  "rangeError fn str = \<lparr>Func = fn, Num = str, Err = ErrRange\<rparr>"

definition baseError :: "string \<Rightarrow> u8 list \<Rightarrow> int \<Rightarrow> NumError" where
  "baseError fn str base = \<lparr>Func = fn, Num = str, Err = InvalidBase base\<rparr>"

definition bitSizeError :: "string \<Rightarrow> u8 list \<Rightarrow> int \<Rightarrow> NumError" where
  "bitSizeError fn str bitSize = \<lparr>Func = fn, Num = str, Err = InvalidBitSize bitSize\<rparr>"

definition intSize :: int where
  "intSize = int UintSize"

definition maxUint64 :: u64 where
  "maxUint64 = 2 ^ 64 - 1"

text \<open>The character class that \<open>saw\<close> remembers: \<open>^\<close>, \<open>0\<close>, \<open>_\<close> or \<open>!\<close>.\<close>

fun underscoreOK_loop :: "bool \<Rightarrow> u8 list \<Rightarrow> u8 \<Rightarrow> bool" where
  "underscoreOK_loop hex [] saw \<longleftrightarrow> saw \<noteq> chr CHR ''_''"
| "underscoreOK_loop hex (c # s) saw \<longleftrightarrow>
    (if chr CHR ''0'' \<le> c \<and> c \<le> chr CHR ''9'' \<or> hex \<and> chr CHR ''a'' \<le> lower c \<and> lower c \<le> chr CHR ''f''
     then underscoreOK_loop hex s (chr CHR ''0'')
     else if c = chr CHR ''_''
     then if saw \<noteq> chr CHR ''0'' then False else underscoreOK_loop hex s (chr CHR ''_'')
     else if saw = chr CHR ''_'' then False
     else underscoreOK_loop hex s (chr CHR ''!''))"

definition underscoreOK :: "u8 list \<Rightarrow> bool" where
  "underscoreOK s =
    (let s = (if length s \<ge> 1 \<and> (s ! 0 = chr CHR ''-'' \<or> s ! 0 = chr CHR ''+'') then drop 1 s else s)
     in if length s \<ge> 2 \<and> s ! 0 = chr CHR ''0'' \<and>
          (lower (s ! 1) = chr CHR ''b'' \<or> lower (s ! 1) = chr CHR ''o'' \<or> lower (s ! 1) = chr CHR ''x'')
        then underscoreOK_loop (lower (s ! 1) = chr CHR ''x'') (drop 2 s) (chr CHR ''0'')
        else underscoreOK_loop False s (chr CHR ''^''))"

text \<open>The digit of a character, \<^const>\<open>None\<close> for the \<open>default\<close> case.\<close>

definition ParseUint_digit :: "u8 \<Rightarrow> u8 option" where
  "ParseUint_digit c =
    (if chr CHR ''0'' \<le> c \<and> c \<le> chr CHR ''9'' then Some (c - chr CHR ''0'')
     else if chr CHR ''a'' \<le> lower c \<and> lower c \<le> chr CHR ''z'' then Some (lower c - chr CHR ''a'' + 10)
     else None)"

text \<open>The loop over the digits: an error with the value returned beside it, or \<open>n\<close> and \<open>underscores\<close>.\<close>

fun ParseUint_loop ::
    "bool \<Rightarrow> int \<Rightarrow> u64 \<Rightarrow> u64 \<Rightarrow> u8 list \<Rightarrow> u64 \<Rightarrow> bool \<Rightarrow> (u64 \<times> num_err) + (u64 \<times> bool)" where
  "ParseUint_loop base0 base cutoff maxVal [] n underscores = Inr (n, underscores)"
| "ParseUint_loop base0 base cutoff maxVal (c # s) n underscores =
    (if c = chr CHR ''_'' \<and> base0 then ParseUint_loop base0 base cutoff maxVal s n True
     else case ParseUint_digit c of
       None \<Rightarrow> Inl (0, ErrSyntax)
     | Some d \<Rightarrow>
         if d \<ge> of_int base then Inl (0, ErrSyntax)
         else if n \<ge> cutoff then Inl (maxVal, ErrRange)
         else let n = n * of_int base; n1 = n + ucast d
           in if n1 < n \<or> n1 > maxVal then Inl (maxVal, ErrRange)
              else ParseUint_loop base0 base cutoff maxVal s n1 underscores)"

text \<open>The base and the string after the prefix; \<^const>\<open>None\<close> for an invalid base.\<close>

definition ParseUint_prefix :: "u8 list \<Rightarrow> int \<Rightarrow> (int \<times> u8 list) option" where
  "ParseUint_prefix s base =
    (if 2 \<le> base \<and> base \<le> 36 then Some (base, s)
     else if base = 0
     then if s ! 0 = chr CHR ''0''
          then if length s \<ge> 3 \<and> lower (s ! 1) = chr CHR ''b'' then Some (2, drop 2 s)
               else if length s \<ge> 3 \<and> lower (s ! 1) = chr CHR ''o'' then Some (8, drop 2 s)
               else if length s \<ge> 3 \<and> lower (s ! 1) = chr CHR ''x'' then Some (16, drop 2 s)
               else Some (8, drop 1 s)
          else Some (10, s)
     else None)"

definition ParseUint :: "u8 list \<Rightarrow> int \<Rightarrow> int \<Rightarrow> u64 \<times> NumError option" where
  "ParseUint s base bitSize =
    (let fnParseUint = ''ParseUint''
     in if s = [] then (0, Some (syntaxError fnParseUint s))
        else let base0 = (base = 0); s0 = s
          in case ParseUint_prefix s base of
               None \<Rightarrow> (0, Some (baseError fnParseUint s0 base))
             | Some (base, s) \<Rightarrow>
                 if bitSize \<noteq> 0 \<and> (bitSize < 0 \<or> bitSize > 64) then (0, Some (bitSizeError fnParseUint s0 bitSize))
                 else let bitSize = (if bitSize = 0 then intSize else bitSize);
                          cutoff = (if base = 10 then maxUint64 div 10 + 1
                            else if base = 16 then maxUint64 div 16 + 1
                            else maxUint64 div of_int base + 1);
                          maxVal = push_bit (nat bitSize) 1 - 1
                   in (case ParseUint_loop base0 base cutoff maxVal s 0 False of
                        Inl (v, ErrRange) \<Rightarrow> (v, Some (rangeError fnParseUint s0))
                      | Inl (v, _) \<Rightarrow> (v, Some (syntaxError fnParseUint s0))
                      | Inr (n, underscores) \<Rightarrow>
                          if underscores \<and> \<not> underscoreOK s0 then (0, Some (syntaxError fnParseUint s0))
                          else (n, None)))"

text \<open>The range check that ends \<open>ParseInt\<close>.\<close>

definition ParseInt_check :: "string \<Rightarrow> u8 list \<Rightarrow> bool \<Rightarrow> u64 \<Rightarrow> int \<Rightarrow> i64 \<times> NumError option" where
  "ParseInt_check fnParseInt s0 neg un bitSize =
    (let bitSize = (if bitSize = 0 then intSize else bitSize);
         cutoff = push_bit (nat (bitSize - 1)) 1
     in if \<not> neg \<and> un \<ge> cutoff then (cutoff - 1, Some (rangeError fnParseInt s0))
        else if neg \<and> un > cutoff then (- cutoff, Some (rangeError fnParseInt s0))
        else let n = un; n = (if neg then - n else n) in (n, None))"

definition ParseInt :: "u8 list \<Rightarrow> int \<Rightarrow> int \<Rightarrow> i64 \<times> NumError option" where
  "ParseInt s base bitSize =
    (let fnParseInt = ''ParseInt''
     in if s = [] then (0, Some (syntaxError fnParseInt s))
        else
          let s0 = s;
              (neg, s) = (if s ! 0 = chr CHR ''+'' then (False, drop 1 s)
                          else if s ! 0 = chr CHR ''-'' then (True, drop 1 s) else (False, s));
              (un, err) = ParseUint s base bitSize
          in case err of
               Some e \<Rightarrow>
                 if Err e \<noteq> ErrRange then (0, Some (e\<lparr>Func := fnParseInt, Num := s0\<rparr>))
                 else ParseInt_check fnParseInt s0 neg un bitSize
             | None \<Rightarrow> ParseInt_check fnParseInt s0 neg un bitSize)"

text \<open>The fast path of \<open>Atoi\<close>; \<open>ch -= '0'\<close> wraps around in a byte.\<close>

fun Atoi_loop :: "u8 list \<Rightarrow> i64 \<Rightarrow> i64 option" where
  "Atoi_loop [] n = Some n"
| "Atoi_loop (ch # s) n =
    (let ch = ch - chr CHR ''0'' in if ch > 9 then None else Atoi_loop s (n * 10 + ucast ch))"

definition Atoi :: "u8 list \<Rightarrow> i64 \<times> NumError option" where
  "Atoi s =
    (let fnAtoi = ''Atoi''; sLen = length s
     in if intSize = 32 \<and> (0 < sLen \<and> sLen < 10) \<or> intSize = 64 \<and> (0 < sLen \<and> sLen < 19)
        then let s0 = s;
                 signed = (s ! 0 = chr CHR ''-'' \<or> s ! 0 = chr CHR ''+'');
                 s = (if signed then drop 1 s else s)
          in if signed \<and> length s < 1 then (0, Some (syntaxError fnAtoi s0))
             else case Atoi_loop s 0 of
                    None \<Rightarrow> (0, Some (syntaxError fnAtoi s0))
                  | Some n \<Rightarrow> (if s0 ! 0 = chr CHR ''-'' then - n else n, None)
        else case ParseInt s 10 0 of
               (i64, None) \<Rightarrow> (i64, None)
             | (i64, Some nerr) \<Rightarrow> (i64, Some (nerr\<lparr>Func := fnAtoi\<rparr>)))"

end
