(* ===== verification/Strconv_Format.thy ===== *)
theory Strconv_Format
  imports Strconv
begin

text \<open>
  What \<^verbatim>\<open>strconv/itoa.go\<close> writes: the digits of the number in the base, behind a sign.  The fast paths for
  powers of two, for base 10 and for small numbers all write the digits of the specification, and none
  leaves the array of 65 bytes.
\<close>

section \<open>Digits\<close>

fun digs :: "nat \<Rightarrow> nat \<Rightarrow> nat list" where
  "digs b n = (if n < b \<or> b < 2 then [n] else digs b (n div b) @ [n mod b])"

declare digs.simps [simp del]

definition digit_char :: "nat \<Rightarrow> u8" where
  "digit_char d = (if d < 10 then 48 + of_nat d else 87 + of_nat d)"

lemma digs_small: "n < b \<Longrightarrow> digs b n = [n]"
  by (simp add: digs.simps)

lemma digs_step: "2 \<le> b \<Longrightarrow> b \<le> n \<Longrightarrow> digs b n = digs b (n div b) @ [n mod b]"
  by (subst digs.simps) simp

lemma digs_lt: "2 \<le> b \<Longrightarrow> d \<in> set (digs b n) \<Longrightarrow> d < b"
proof (induction b n rule: digs.induct)
  case (1 b n)
  then show ?case by (cases "n < b") (auto simp: digs_small digs_step)
qed

lemma digs_nonempty [simp]: "digs b n \<noteq> []"
  by (subst digs.simps) simp

lemma digs_two: "100 \<le> n \<Longrightarrow> digs 10 n = digs 10 (n div 100) @ [n mod 100 div 10, n mod 100 mod 10]"
proof -
  assume n: "100 \<le> n"
  have "digs 10 n = digs 10 (n div 10) @ [n mod 10]" using n by (intro digs_step) simp_all
  also have "digs 10 (n div 10) = digs 10 (n div 10 div 10) @ [n div 10 mod 10]"
    using n by (intro digs_step) simp_all
  also have "n div 10 div 10 = n div 100" by (simp flip: div_mult2_eq)
  also have "n div 10 mod 10 = n mod 100 div 10" using mod_mult2_eq [of n 10 10] by simp
  also have "n mod 10 = n mod 100 mod 10" by (simp add: mod_mod_cancel)
  finally show ?thesis by simp
qed

section \<open>The tables\<close>

lemma upt_from_0: "[0..<n] = (if n = 0 then [] else 0 # (if n = 1 then [] else 1 # [2..<n]))"
  by (cases n) (auto simp: upt_rec [of 0] upt_rec [of "Suc 0"] numeral_2_eq_2)

lemma digits_table: "digits = map digit_char [0..<36]"
  by (simp add: digits_def upt_from_0 digit_char_def)

lemma smallsString_table:
  "smallsString = concat (map (\<lambda>k. [48 + of_nat (k div 10), 48 + of_nat (k mod 10)]) [0..<100])"
  by (simp add: smallsString_def upt_from_0)

lemma length_digits [simp]: "length digits = 36"
  by (simp add: digits_table)

lemma digits_nth: "k < 36 \<Longrightarrow> digits ! k = digit_char k"
  by (simp add: digits_table)

lemma concat_pairs_nth:
  "k < length ks \<Longrightarrow> concat (map (\<lambda>k. [f k, g k]) ks) ! (2 * k) = f (ks ! k) \<and>
   concat (map (\<lambda>k. [f k, g k]) ks) ! (2 * k + 1) = g (ks ! k)"
proof (induction ks arbitrary: k)
  case (Cons x ks)
  then show ?case by (cases k) auto
qed simp

lemma smalls_nth:
  assumes "k < 100"
  shows "smallsString ! (2 * k) = digit_char (k div 10)" "smallsString ! (2 * k + 1) = digit_char (k mod 10)"
  using concat_pairs_nth [of k "[0..<100]" "\<lambda>k. 48 + of_nat (k div 10) :: u8" "\<lambda>k. 48 + of_nat (k mod 10)"] assms
  by (simp_all add: smallsString_table digit_char_def)

lemma length_smalls [simp]: "length smallsString = 200"
  by (simp add: smallsString_def)

section \<open>The array\<close>

text \<open>The part of the array behind \<open>i\<close> holds the characters of \<open>ds\<close>.\<close>

definition filled :: "u8 list \<Rightarrow> nat \<Rightarrow> nat list \<Rightarrow> bool" where
  "filled a i ds \<longleftrightarrow> length a = 65 \<and> i \<le> 65 \<and> drop i a = map digit_char ds"

lemma filled_set:
  assumes "filled a (Suc i) ds" and "c = digit_char d"
  shows "filled (a[i := c]) i (d # ds)"
proof -
  have "drop i (a[i := c]) = c # drop (Suc i) a"
    using assms by (simp add: filled_def drop_update_swap flip: Cons_nth_drop_Suc)
  then show ?thesis using assms by (simp add: filled_def)
qed

lemma put_one_filled:
  assumes "filled a i ds" and "1 \<le> i" and "unat k < length s" and "s ! unat k = digit_char d"
  shows "\<exists>a'. put_one a i s k = Some (a', i - 1) \<and> filled a' (i - 1) (d # ds)"
proof -
  obtain j where j: "i = Suc j" using assms(2) by (cases i) auto
  then have "j < length a" using assms(1) by (simp add: filled_def)
  then have "put_one a i s k = Some (a[j := s ! unat k], j)"
    using assms(3) j by (simp add: put_one_def step_back_def)
  then show ?thesis using filled_set [of a j ds "s ! unat k" d] assms(1,4) j by simp
qed

lemma put_two_filled:
  assumes "filled a i ds" and "2 \<le> i" and "unat ix = 2 * k" and "k < 100"
  shows "\<exists>a'. put_two a i ix = Some (a', i - 2) \<and> filled a' (i - 2) (k div 10 # k mod 10 # ds)"
proof -
  obtain j where j: "i = Suc (Suc j)" using assms(2) by (cases i; cases "i - 1") auto
  have len: "Suc j < length a" using assms(1) j by (simp add: filled_def)
  have "unat (ix + 1) = 2 * k + 1"
    using assms(3,4) by (subst unat_add_lem [THEN iffD1]) simp_all
  then have "put_two a i ix = Some (a[Suc j := digit_char (k mod 10), j := digit_char (k div 10)], j)"
    using len j assms(3,4) smalls_nth [OF assms(4)] by (simp add: put_two_def step_back_def)
  moreover have "filled (a[Suc j := digit_char (k mod 10)]) (Suc j) (k mod 10 # ds)"
    using assms(1) j by (intro filled_set) simp_all
  then have "filled (a[Suc j := digit_char (k mod 10), j := digit_char (k div 10)]) j (k div 10 # k mod 10 # ds)"
    by (rule filled_set) simp
  ultimately show ?thesis using j by simp
qed

section \<open>The loops\<close>

text \<open>
  A loop has written the digits of \<open>u\<close> but those of \<open>u'\<close>; there is room left for these and for a sign,
  since each digit written at least halves the number.
\<close>

definition written :: "nat \<Rightarrow> u64 \<Rightarrow> nat list \<Rightarrow> u8 list \<Rightarrow> nat \<Rightarrow> u64 \<Rightarrow> nat list \<Rightarrow> bool" where
  "written b u ds a i u' ds' \<longleftrightarrow> filled a i ds' \<and> digs b (unat u') @ ds' = digs b (unat u) @ ds \<and>
    1 \<le> i \<and> unat u' < 2 ^ (i - 1)"

lemma written_refl: "filled a i ds \<Longrightarrow> 1 \<le> i \<Longrightarrow> unat u < 2 ^ (i - 1) \<Longrightarrow> written b u ds a i u ds"
  by (simp add: written_def)

lemma written_trans: "written b u1 ds1 a i u ds \<Longrightarrow> written b u ds a' i' u' ds' \<Longrightarrow> written b u1 ds1 a' i' u' ds'"
  by (simp add: written_def)

lemma div_room: "n < 2 ^ k \<Longrightarrow> 2 ^ j \<le> (b::nat) \<Longrightarrow> b \<le> n \<Longrightarrow> j < k \<and> n div b < 2 ^ (k - j)"
proof -
  assume n: "n < 2 ^ k" "2 ^ j \<le> b" "b \<le> n"
  then have "(2::nat) ^ j < 2 ^ k" by linarith
  then have jk: "j < k" by simp
  have "n div b \<le> n div 2 ^ j" using n by (intro div_le_mono2) simp_all
  also have "n div 2 ^ j < 2 ^ (k - j)"
    using n(1) jk by (simp add: less_mult_imp_div_less flip: power_add)
  finally show ?thesis using jk by simp
qed

text \<open>One digit, by division or by shift and mask, and two digits at once.\<close>

lemma written_one:
  assumes f: "filled a i ds" and u: "unat u < 2 ^ (i - 1)" and b: "2 \<le> b" "b \<le> 36" "b \<le> unat u"
    and k: "unat k = unat u mod b" and u': "unat u' = unat u div b"
  shows "\<exists>a'. put_one a i digits k = Some (a', i - 1) \<and> written b u ds a' (i - 1) u' (unat u mod b # ds)"
proof -
  have r: "1 < i - 1 \<and> unat u div b < 2 ^ (i - 1 - 1)"
    using div_room [of "unat u" "i - 1" 1 b] u b by simp
  have "unat u mod b < 36" using b mod_less_divisor [of b "unat u"] by linarith
  moreover have "1 \<le> i" using r by linarith
  ultimately obtain a' where "put_one a i digits k = Some (a', i - 1)" "filled a' (i - 1) (unat u mod b # ds)"
    using put_one_filled [OF f, of k digits "unat u mod b"] k by (auto simp: digits_nth)
  then show ?thesis using r b u' by (auto simp: written_def digs_step)
qed

lemma written_two:
  assumes f: "filled a i ds" and u: "unat u < 2 ^ (i - 1)" "100 \<le> unat u"
  shows "\<exists>a'. put_two a i (u mod 100 * 2) = Some (a', i - 2) \<and>
    written 10 u ds a' (i - 2) (u div 100) (unat u mod 100 div 10 # unat u mod 100 mod 10 # ds)"
proof -
  have r: "6 < i - 1 \<and> unat u div 100 < 2 ^ (i - 1 - 6)"
    using div_room [of "unat u" "i - 1" 6 100] u by simp
  then have "unat u div 100 < 2 ^ (i - 2 - 1)"
    by (elim conjE less_le_trans) (simp add: power_increasing)
  moreover have "unat (u mod 100 * 2) = 2 * (unat u mod 100)"
  proof -
    have "unat (u mod 100 * 2) = unat u mod 100 * 2 mod 18446744073709551616"
      by (simp add: unat_word_ariths(2) unat_mod_word)
    also have "\<dots> = unat u mod 100 * 2" by (rule mod_less) (use mod_less_divisor [of 100 "unat u"] in linarith)
    finally show ?thesis by simp
  qed
  moreover have "2 \<le> i" using r by linarith
  ultimately obtain a' where "put_two a i (u mod 100 * 2) = Some (a', i - 2)"
    "filled a' (i - 2) (unat u mod 100 div 10 # unat u mod 100 mod 10 # ds)" "unat (u div 100) < 2 ^ (i - 2 - 1)"
    using put_two_filled [OF f, of "u mod 100 * 2" "unat u mod 100"] by (auto simp: unat_div_word)
  moreover have "1 \<le> i - 2" using r by linarith
  ultimately show ?thesis using u(2) by (auto simp: written_def digs_two unat_div_word)
qed

lemma formatBits_smalls_written:
  "filled a i ds \<Longrightarrow> 1 \<le> i \<Longrightarrow> unat u < 2 ^ (i - 1) \<Longrightarrow>
   \<exists>a' i' u' ds'. formatBits_smalls a i u = Some (a', i', u') \<and> written 10 u ds a' i' u' ds' \<and> unat u' < 100"
proof (induction "unat u" arbitrary: a i u ds rule: less_induct)
  case less
  note S = formatBits_smalls.simps [of a i u]
  show ?case
  proof (cases "u \<ge> 100")
    case True
    then have u: "100 \<le> unat u" by (simp add: word_le_nat_alt)
    from written_two [OF less(2,4) u] obtain a1 ds1 where
      p: "put_two a i (u mod 100 * 2) = Some (a1, i - 2)" and w: "written 10 u ds a1 (i - 2) (u div 100) ds1" by blast
    have "unat (u div 100) < unat u" using u by (simp add: unat_div_word)
    then obtain a' i' u' ds' where f: "formatBits_smalls a1 (i - 2) (u div 100) = Some (a', i', u')"
      "written 10 (u div 100) ds1 a' i' u' ds'" "unat u' < 100"
      using less(1) [of "u div 100" a1 "i - 2" ds1] w by (auto simp: written_def)
    moreover have "formatBits_smalls a i u = Some (a', i', u')" using S p True f(1) by simp
    ultimately show ?thesis using written_trans [OF w f(2)] by blast
  next
    case False
    then have "unat u < 100" by (simp add: word_le_nat_alt)
    then show ?thesis using S False written_refl [OF less(2-4)] by auto
  qed
qed

lemma formatBits_div_written:
  "2 \<le> b \<Longrightarrow> b \<le> 36 \<Longrightarrow> filled a i ds \<Longrightarrow> 1 \<le> i \<Longrightarrow> unat u < 2 ^ (i - 1) \<Longrightarrow>
   \<exists>a' i' u' ds'. formatBits_div (of_nat b) a i u = Some (a', i', u') \<and> written b u ds a' i' u' ds' \<and> unat u' < b"
proof (induction "unat u" arbitrary: a i u ds rule: less_induct)
  case less
  note S = formatBits_div.simps [of "of_nat b" a i u]
  have ub: "unat (of_nat b :: u64) = b" using less(3) by (simp add: unat_of_nat)
  show ?case
  proof (cases "u \<ge> of_nat b")
    case True
    then have u: "b \<le> unat u" by (simp add: word_le_nat_alt ub)
    have q: "unat (u div of_nat b) = unat u div b" by (simp add: unat_div_word ub)
    have k: "unat (u - u div of_nat b * of_nat b) = unat u mod b"
      by (simp add: minus_div_mult_eq_mod unat_mod_word ub)
    from written_one [OF less(4,6) less(2,3) u k q] obtain a1 ds1 where
      p: "put_one a i digits (u - u div of_nat b * of_nat b) = Some (a1, i - 1)"
      and w: "written b u ds a1 (i - 1) (u div of_nat b) ds1" by blast
    have "unat (u div of_nat b) < unat u" using u less(2) by (simp add: q)
    then obtain a' i' u' ds' where f: "formatBits_div (of_nat b) a1 (i - 1) (u div of_nat b) = Some (a', i', u')"
      "written b (u div of_nat b) ds1 a' i' u' ds'" "unat u' < b"
      using less(1) [of "u div of_nat b" a1 "i - 1" ds1] w less(2,3) by (auto simp: written_def)
    moreover have "formatBits_div (of_nat b) a i u = Some (a', i', u')" using S p True f(1) by (simp add: Let_def)
    ultimately show ?thesis using written_trans [OF w f(2)] by blast
  next
    case False
    then have "unat u < b" by (simp add: word_le_nat_alt ub)
    then show ?thesis using S False written_refl [OF less(4-6)] by auto
  qed
qed

text \<open>For a power of two, masking and shifting are the division.\<close>

lemma formatBits_shift_div:
  assumes "1 \<le> k" and "k \<le> 5"
  shows "formatBits_shift (2 ^ k) (2 ^ k - 1) k a i u = formatBits_div (2 ^ k) a i u"
proof (induction "unat u" arbitrary: a i u rule: less_induct)
  case less
  have b: "unat (2 ^ k :: u64) = 2 ^ k" using assms by (intro unat_pow2) simp
  have m: "u AND (2 ^ k - 1) = u - u div 2 ^ k * 2 ^ k"
    by (metis take_bit_eq_mask mask_eq_exp_minus_1 take_bit_eq_mod minus_div_mult_eq_mod)
  have d: "drop_bit k u = u div 2 ^ k" by (rule drop_bit_eq_div)
  have "unat (u div 2 ^ k) < unat u" if "u \<ge> 2 ^ k"
  proof -
    have "2 ^ 1 \<le> (2 :: nat) ^ k" using assms(1) by (rule power_increasing) simp
    moreover have "2 ^ k \<le> unat u" using that by (simp add: word_le_nat_alt b)
    ultimately show ?thesis by (simp add: unat_div_word b)
  qed
  with less have "formatBits_shift (2 ^ k) (2 ^ k - 1) k a' i' (u div 2 ^ k) = formatBits_div (2 ^ k) a' i' (u div 2 ^ k)"
    if "u \<ge> 2 ^ k" for a' i' using that by blast
  then show ?case
    by (subst formatBits_shift.simps, subst formatBits_div.simps) (simp add: m d Let_def)
qed

section \<open>The digits of a number\<close>

lemma host64: "\<not> host32bit"
  by (simp add: host32bit_def)

lemma isPowerOfTwo_base:
  assumes "2 \<le> b" and "b \<le> 36" and "isPowerOfTwo (of_nat b)"
  shows "\<exists>k. 1 \<le> k \<and> k \<le> 5 \<and> b = 2 ^ k"
proof -
  have "b \<in> set [2..<37]" using assms(1,2) by (simp only: set_upt atLeastLessThan_iff) simp
  then have "b = 2 \<or> b = 4 \<or> b = 8 \<or> b = 16 \<or> b = 32"
    using assms(3) by (auto simp: isPowerOfTwo_def simp del: set_upt)
  then have "b = 2 ^ 1 \<or> b = 2 ^ 2 \<or> b = 2 ^ 3 \<or> b = 2 ^ 4 \<or> b = 2 ^ 5" by simp
  then obtain k where "b = 2 ^ k" "k \<in> {1, 2, 3, 4, 5}" by blast
  then show ?thesis by auto
qed

text \<open>The end of each branch: the number that is left is a single digit, or two.\<close>

lemma hd_digs: "2 \<le> b \<Longrightarrow> n \<noteq> 0 \<Longrightarrow> hd (digs b n) \<noteq> 0"
proof (induction b n rule: digs.induct)
  case (1 b n)
  then show ?case by (cases "n < b") (simp_all add: digs_small digs_step div_eq_0_iff)
qed

lemma written_index:
  assumes w: "written b u [] a i u' ds" and u': "unat u' < b" and b: "2 \<le> b"
  shows "2 \<le> i"
proof (cases "unat u' = 0")
  case False
  then have "(2::nat) ^ 0 < 2 ^ (i - 1)" using w by (simp add: written_def)
  then have "0 < i - 1" by (simp only: power_strict_increasing_iff)
  then show ?thesis by simp
next
  case True
  then have d: "digs b (unat u) = 0 # ds" using w u' by (simp add: written_def digs_small)
  then have "unat u = 0" using hd_digs [OF b, of "unat u"] by (metis list.sel(1))
  then have "ds = []" using d b by (simp add: digs_small)
  then show ?thesis using w by (simp add: written_def filled_def)
qed

lemma last_digit:
  assumes w: "written b u [] a i u' ds" and u': "unat u' < b" and b: "2 \<le> b" "b \<le> 36"
  shows "\<exists>a'. put_one a i digits u' = Some (a', i - 1) \<and> filled a' (i - 1) (digs b (unat u)) \<and> 1 \<le> i - 1"
proof -
  have "2 \<le> i" by (rule written_index [OF w u' b(1)])
  moreover have "digs b (unat u) = unat u' # ds" using w u' by (simp add: written_def digs_small)
  ultimately show ?thesis
    using put_one_filled [of a i ds u' digits "unat u'"] w u' b by (auto simp: written_def digits_nth)
qed

lemma div_digits:
  assumes f: "filled a 65 []" and b: "2 \<le> b" "b \<le> 36"
  shows "\<exists>a1 i1 u' a' i'. formatBits_div (of_nat b) a 65 u = Some (a1, i1, u') \<and> put_one a1 i1 digits u' = Some (a', i') \<and>
    filled a' i' (digs b (unat u)) \<and> 1 \<le> i'"
proof -
  have "unat u < 2 ^ (65 - 1)" using unat_lt64 [of u] by simp
  from formatBits_div_written [OF b f _ this] obtain a1 i1 u' ds where
    l: "formatBits_div (of_nat b) a 65 u = Some (a1, i1, u')" "written b u [] a1 i1 u' ds" "unat u' < b" by auto
  then show ?thesis using last_digit [OF l(2,3) b] l(1) by blast
qed

lemma decimal_digits:
  assumes f: "filled a 65 []"
  shows "\<exists>a' i'. formatBits_digits a 65 u 10 = Some (a', i') \<and> filled a' i' (digs 10 (unat u)) \<and> 1 \<le> i'"
proof -
  have "unat u < 2 ^ (65 - 1)" using unat_lt64 [of u] by simp
  from formatBits_smalls_written [OF f _ this] obtain a1 i1 us ds where
    l: "formatBits_smalls a 65 u = Some (a1, i1, us)" "written 10 u [] a1 i1 us ds" "unat us < 100" by auto
  have ix: "unat (us * 2) = 2 * unat us" "unat (us * 2 + 1) = 2 * unat us + 1"
    using l(3) by (simp_all add: unat_word_ariths)
  have f1: "filled a1 i1 ds" and room: "unat us < 2 ^ (i1 - 1)" "1 \<le> i1" using l(2) by (simp_all add: written_def)
  have "1 \<le> i1" using room by simp
  from put_one_filled [OF f1 this, of "us * 2 + 1" smallsString "unat us mod 10"] obtain a2 where
    p: "put_one a1 i1 smallsString (us * 2 + 1) = Some (a2, i1 - 1)" "filled a2 (i1 - 1) (unat us mod 10 # ds)"
    using ix l(3) smalls_nth(2) [OF l(3)] by auto
  show ?thesis
  proof (cases "us \<ge> 10")
    case False
    then have u10: "unat us < 10" by (simp add: word_le_nat_alt)
    have "2 \<le> i1" by (rule written_index [OF l(2) u10]) simp
    moreover have "digs 10 (unat u) = unat us mod 10 # ds" using l(2) u10 by (simp add: written_def digs_small)
    ultimately show ?thesis using l(1) p False by (auto simp: formatBits_digits_def host64 Let_def)
  next
    case True
    then have u10: "10 \<le> unat us" by (simp add: word_le_nat_alt)
    have "(2::nat) ^ 3 < 2 ^ (i1 - 1)" using u10 room(1) by simp
    then have i1: "3 < i1 - 1" by (simp only: power_strict_increasing_iff)
    then have "1 \<le> i1 - 1" by simp
    from put_one_filled [OF p(2) this, of "us * 2" smallsString "unat us div 10"] obtain a3 where
      q: "put_one a2 (i1 - 1) smallsString (us * 2) = Some (a3, i1 - 1 - 1)"
        "filled a3 (i1 - 1 - 1) (unat us div 10 # unat us mod 10 # ds)"
      using ix l(3) smalls_nth(1) [OF l(3)] by auto
    have "digs 10 (unat us) = [unat us div 10, unat us mod 10]"
      using u10 l(3) by (simp add: digs_step digs_small less_mult_imp_div_less)
    then have "digs 10 (unat u) = unat us div 10 # unat us mod 10 # ds" using l(2) by (simp add: written_def)
    then show ?thesis using l(1) p q True i1 by (auto simp: formatBits_digits_def host64 Let_def)
  qed
qed

lemma formatBits_digits_filled:
  assumes f: "filled a 65 []" and b: "2 \<le> b" "b \<le> 36"
  shows "\<exists>a' i'. formatBits_digits a 65 u (int b) = Some (a', i') \<and> filled a' i' (digs b (unat u)) \<and> 1 \<le> i'"
proof (cases "b = 10")
  case True
  then show ?thesis using decimal_digits [OF f] by simp
next
  case b10: False
  from div_digits [OF f b] obtain a1 i1 u' a' i' where
    d: "formatBits_div (of_nat b) a 65 u = Some (a1, i1, u')" "put_one a1 i1 digits u' = Some (a', i')"
      "filled a' i' (digs b (unat u))" "1 \<le> i'" by blast
  show ?thesis
  proof (cases "isPowerOfTwo (of_nat b)")
    case True
    then obtain k where k: "1 \<le> k" "k \<le> 5" "b = 2 ^ k" using isPowerOfTwo_base [OF b] by blast
    have "k \<in> {1, 2, 3, 4, 5}" using k by auto
    then have sh: "unat (of_int (TrailingZeros (of_nat b)) AND (7 :: u64)) = k"
      using k(3) by (auto simp: TrailingZeros_def TrailingZeros64_eq)
    have "formatBits_shift (of_nat b) (of_nat b - 1) k a 65 u = formatBits_div (of_nat b) a 65 u"
      using formatBits_shift_div [OF k(1,2), of a 65 u] by (simp add: k(3))
    then show ?thesis
      using d True b10 sh by (simp add: formatBits_digits_def Let_def)
  next
    case False
    then show ?thesis using d b10 by (auto simp: formatBits_digits_def Let_def)
  qed
qed

text \<open>The string of a number: its digits behind a sign.\<close>

definition number :: "int \<Rightarrow> int \<Rightarrow> u8 list" where
  "number base i = (if i < 0 then [chr CHR ''-''] else []) @ map digit_char (digs (nat base) (nat \<bar>i\<bar>))"

lemma formatBits_number:
  assumes b: "2 \<le> base" "base \<le> 36" and neg: "neg \<longrightarrow> u \<noteq> 0"
  shows "formatBits dst u base neg ap =
    (let s = number base (if neg then - int (unat (- u)) else int (unat u))
     in Inr (if ap then (dst @ s, []) else ([], s)))"
proof -
  define v where "v = (if neg then - u else u)"
  have nb: "2 \<le> nat base" "nat base \<le> 36" "int (nat base) = base" using b by simp_all
  have "filled (replicate 65 0) 65 []" by (simp add: filled_def)
  from formatBits_digits_filled [OF this nb(1,2), of v] obtain a i where
    d: "formatBits_digits (replicate 65 0) 65 v base = Some (a, i)" "filled a i (digs (nat base) (unat v))" "1 \<le> i"
    unfolding nb(3) by blast
  show ?thesis
  proof (cases neg)
    case True
    then have "unat v \<noteq> 0" using neg by (simp add: v_def unat_eq_0)
    then have s: "number base (- int (unat v)) = chr CHR ''-'' # map digit_char (digs (nat base) (unat v))"
      by (simp add: number_def del: of_nat_unat)
    have i: "i - 1 < length a" "Suc (i - 1) = i" using d(2,3) by (auto simp: filled_def)
    then have "drop (i - 1) (a[i - 1 := 45]) = 45 # drop i a"
      by (simp add: drop_update_swap flip: Cons_nth_drop_Suc)
    then have "drop (i - Suc 0) (a[i - Suc 0 := 45]) = 45 # map digit_char (digs (nat base) (unat v))"
      using d(2) by (simp add: filled_def)
    moreover have "v = - u" using True by (simp add: v_def)
    ultimately show ?thesis using d(1,3) i(1) s True b
      by (simp add: formatBits_def Let_def step_back_def)
  next
    case False
    then have "v = u" by (simp add: v_def)
    then show ?thesis using d(1,2) False b
      by (simp add: formatBits_def Let_def number_def filled_def)
  qed
qed

lemma small_number:
  assumes "n < 100"
  shows "small n = Inr (number 10 (int n))"
proof (cases "n < 10")
  case True
  have "take 1 (drop n digits) = [digit_char n]"
    using True by (simp add: take_Suc_conv_app_nth flip: digits_nth)
  then show ?thesis using True by (simp add: small_def substr_def number_def digs_small)
next
  case False
  have "take 2 (drop (2 * n) smallsString) = [smallsString ! (2 * n), smallsString ! (2 * n + 1)]"
    using assms by (simp add: numeral_2_eq_2 take_Suc_conv_app_nth)
  moreover have "digs 10 n = [n div 10, n mod 10]"
    using False assms by (simp add: digs_step digs_small less_mult_imp_div_less)
  ultimately show ?thesis
    using False assms smalls_nth [OF assms]
    by (simp add: small_def substr_def number_def mult.commute)
qed

lemma FormatUint_number:
  assumes "2 \<le> base" and "base \<le> 36"
  shows "FormatUint u base = Inr (number base (int (unat u)))"
  using formatBits_number [OF assms, of False u] small_number [of "unat u"]
  by (auto simp: FormatUint_def nSmalls_def word_less_nat_alt Let_def)

lemma small_signed: "(fastSmalls \<and> 0 \<le> sint i \<and> sint i < sint nSmalls \<and> base = 10) \<longleftrightarrow> 0 \<le> sint i \<and> sint i < 100 \<and> base = 10"
  by (simp add: fastSmalls_def nSmalls_def)

lemma signed_number:
  assumes "2 \<le> base" and "base \<le> 36"
  shows "formatBits dst i base (sint i < 0) ap =
    (let s = number base (sint i) in Inr (if ap then (dst @ s, []) else ([], s)))"
proof -
  have "sint i < 0 \<longrightarrow> i \<noteq> 0" by auto
  then show ?thesis
    using formatBits_number [OF assms, of "sint i < 0" i dst ap] unat_neg_i64 [of i] int_unat_i64 [of i]
    by (auto simp: Let_def split: if_splits)
qed

lemma FormatInt_number:
  assumes "2 \<le> base" and "base \<le> 36"
  shows "FormatInt i base = Inr (number base (sint i))"
  using signed_number [OF assms, of "[]" i False] small_number [of "nat (sint i)"]
  unfolding FormatInt_def small_signed by (auto simp: Let_def)

lemma AppendInt_number:
  assumes "2 \<le> base" and "base \<le> 36"
  shows "AppendInt dst i base = Inr (dst @ number base (sint i))"
    "AppendUint dst i base = Inr (dst @ number base (int (unat i)))"
  using signed_number [OF assms, of dst i True] small_number [of "nat (sint i)"]
    formatBits_number [OF assms, of False i dst True] small_number [of "unat i"]
  unfolding AppendInt_def small_signed AppendUint_def
  by (auto simp: Let_def nSmalls_def fastSmalls_def word_less_nat_alt)

end
