(* ===== verification/Strconv_Parse.thy ===== *)
theory Strconv_Parse
  imports Strconv_Format
begin

text \<open>
  What \<^verbatim>\<open>strconv/atoi.go\<close> computes: the value of a string of digits, or the first error.  The overflow
  tests on 64-bit words are the exact comparison with the largest value of the bit size.
\<close>

section \<open>Digits of a string\<close>

definition digit_of :: "u8 \<Rightarrow> nat option" where
  "digit_of c = map_option unat (ParseUint_digit c)"

text \<open>The value of a string whose characters are digits, from the value \<open>n\<close> of those before.\<close>

fun numval :: "nat \<Rightarrow> nat \<Rightarrow> u8 list \<Rightarrow> nat" where
  "numval b n [] = n"
| "numval b n (c # s) = numval b (n * b + the (digit_of c)) s"

definition digit_string :: "nat \<Rightarrow> u8 list \<Rightarrow> bool" where
  "digit_string b s \<longleftrightarrow> (\<forall>c\<in>set s. \<exists>d. digit_of c = Some d \<and> d < b)"

lemma numval_mono: "0 < b \<Longrightarrow> n \<le> numval b n s"
proof (induction s arbitrary: n)
  case (Cons c s)
  have "n \<le> n * b + the (digit_of c)" using Cons(2) by (cases b) auto
  also have "\<dots> \<le> numval b (n * b + the (digit_of c)) s" using Cons by blast
  finally show ?case by simp
qed simp

lemma lower_digit_char: "d < 36 \<Longrightarrow> digit_of (digit_char d) = Some d"
proof -
  assume "d < 36"
  then have "d \<in> set [0..<36]" by simp
  moreover have "\<forall>d\<in>set [0..<36]. digit_of (digit_char d) = Some d"
    by (simp add: upt_from_0 digit_of_def ParseUint_digit_def digit_char_def lower_def del: set_upt)
  ultimately show ?thesis by blast
qed

lemma numval_append: "numval b n (s @ t) = numval b (numval b n s) t"
  by (induction s arbitrary: n) simp_all

lemma numval_digs: "2 \<le> b \<Longrightarrow> b \<le> 36 \<Longrightarrow> numval b 0 (map digit_char (digs b n)) = n"
proof (induction b n rule: digs.induct)
  case (1 b n)
  show ?case
  proof (cases "n < b")
    case True
    then show ?thesis using 1 by (simp add: digs_small lower_digit_char)
  next
    case False
    have "n mod b < 36" using 1(2,3) mod_less_divisor [of b n] by linarith
    with False 1 show ?thesis by (simp add: digs_step numval_append lower_digit_char)
  qed
qed

lemma digit_string_digs: "2 \<le> b \<Longrightarrow> b \<le> 36 \<Longrightarrow> digit_string b (map digit_char (digs b n))"
  using digs_lt [of b _ n] lower_digit_char unfolding digit_string_def by fastforce

section \<open>The loop of ParseUint\<close>

text \<open>The loop on natural numbers: no overflow but a comparison with the largest value \<open>M\<close>.\<close>

fun exact_loop :: "bool \<Rightarrow> nat \<Rightarrow> nat \<Rightarrow> u8 list \<Rightarrow> nat \<Rightarrow> bool \<Rightarrow> (nat \<times> num_err) + (nat \<times> bool)" where
  "exact_loop base0 b M [] n und = Inr (n, und)"
| "exact_loop base0 b M (c # s) n und =
    (if c = chr CHR ''_'' \<and> base0 then exact_loop base0 b M s n True
     else case digit_of c of
       None \<Rightarrow> Inl (0, ErrSyntax)
     | Some d \<Rightarrow>
         if b \<le> d then Inl (0, ErrSyntax)
         else if M < n * b + d then Inl (M, ErrRange)
         else exact_loop base0 b M s (n * b + d) und)"

definition loop_result :: "(nat \<times> num_err) + (nat \<times> bool) \<Rightarrow> (u64 \<times> num_err) + (u64 \<times> bool)" where
  "loop_result r = (case r of Inl (v, e) \<Rightarrow> Inl (of_nat v, e) | Inr (n, und) \<Rightarrow> Inr (of_nat n, und))"

lemma step_exact:
  fixes n :: u64 and d :: u8
  assumes b: "2 \<le> b" "b \<le> 36" and M: "M < 2 ^ 64" and d: "unat d < b"
    and cutoff: "cutoff = maxUint64 div of_nat b + 1"
  shows "(n \<ge> cutoff \<or> (let n' = n * of_nat b; n1 = n' + ucast d in n1 < n' \<or> n1 > of_nat M)) \<longleftrightarrow>
      M < unat n * b + unat d"
    and "\<not> M < unat n * b + unat d \<Longrightarrow> n * of_nat b + ucast d = of_nat (unat n * b + unat d)"
proof -
  let ?W = "2 ^ 64 :: nat"
  have ub: "unat (of_nat b :: u64) = b" and uM: "unat (of_nat M :: u64) = M"
    using b M by (simp_all add: unat_of_nat)
  have max: "unat maxUint64 = ?W - 1" by (simp add: maxUint64_def)
  have q: "(?W - 1) div b < ?W - 1" using b by (intro div_less_dividend) simp_all
  have c: "unat cutoff = (?W - 1) div b + 1"
    unfolding cutoff using q by (subst unat_add_lem [THEN iffD1]) (simp_all add: unat_div_word max ub)
  have ge: "n \<ge> cutoff \<longleftrightarrow> ?W \<le> unat n * b"
  proof -
    have "n \<ge> cutoff \<longleftrightarrow> (?W - 1) div b < unat n" by (simp add: word_le_nat_alt c Suc_le_eq)
    also have "\<dots> \<longleftrightarrow> ?W - 1 < unat n * b" using b by (simp add: div_less_iff_less_mult)
    finally show ?thesis by auto
  qed
  have ud: "unat (ucast d :: u64) = unat d" using unat_lt8 [of d] by (simp add: unat_ucast_mod del: unat_lt8)
  show "(n \<ge> cutoff \<or> (let n' = n * of_nat b; n1 = n' + ucast d in n1 < n' \<or> n1 > of_nat M)) \<longleftrightarrow>
      M < unat n * b + unat d"
  proof (cases "n \<ge> cutoff")
    case True
    then show ?thesis using ge M by auto
  next
    case False
    then have lt: "unat n * b < ?W" using ge by simp
    then have mul: "unat (n * of_nat b) = unat n * b" by (simp add: unat_word_ariths ub)
    show ?thesis
    proof (cases "unat n * b + unat d < ?W")
      case True
      then have "unat (n * of_nat b + ucast d) = unat n * b + unat d"
        by (subst unat_word_ariths(1)) (simp add: mul ud)
      then show ?thesis using False by (simp add: Let_def word_less_nat_alt mul uM)
    next
      case over: False
      have "unat (n * of_nat b + ucast d) = unat n * b + unat d - ?W"
        using over lt d b by (subst unat_word_ariths(1)) (simp add: mul ud mod_if)
      moreover have "unat n * b + unat d - ?W < unat n * b"
        using lt d b over by (simp only: not_less less_diff_conv2) simp
      ultimately show ?thesis using False over M by (simp add: Let_def word_less_nat_alt mul)
    qed
  qed
  show "\<not> M < unat n * b + unat d \<Longrightarrow> n * of_nat b + ucast d = of_nat (unat n * b + unat d)"
    by (simp flip: ud)
qed

lemma ParseUint_loop_exact:
  assumes b: "2 \<le> b" "b \<le> 36" and M: "M < 2 ^ 64" and cutoff: "cutoff = maxUint64 div of_nat b + 1"
  shows "ParseUint_loop base0 (int b) cutoff (of_nat M) s n und =
    loop_result (exact_loop base0 b M s (unat n) und)"
proof (induction s arbitrary: n und)
  case (Cons c s)
  show ?case
  proof (cases "c = chr CHR ''_'' \<and> base0")
    case True
    then show ?thesis using Cons by simp
  next
    case und: False
    show ?thesis
    proof (cases "ParseUint_digit c")
      case None
      then have "digit_of c = None" by (simp add: digit_of_def)
      then show ?thesis using und None by (auto simp: loop_result_def)
    next
      case (Some d)
      then have d: "digit_of c = Some (unat d)" by (simp add: digit_of_def)
      have bd: "d \<ge> of_int (int b) \<longleftrightarrow> b \<le> unat d"
        using b by (simp add: word_le_nat_alt unat_of_nat)
      show ?thesis
      proof (cases "b \<le> unat d")
        case True
        then show ?thesis using und Some d bd by (auto simp: loop_result_def)
      next
        case False
        then have ud: "unat d < b" by simp
        note st = step_exact [OF b M ud cutoff, of n]
        have small: "unat n * b + unat d < 2 ^ 64" if "\<not> M < unat n * b + unat d" using that M by linarith
        show ?thesis
        proof (cases "M < unat n * b + unat d")
          case True
          then show ?thesis using und Some d bd False st(1) by (auto simp: loop_result_def Let_def)
        next
          case le: False
          then have "unat (n * of_nat b + ucast d) = unat n * b + unat d"
            using small [OF le]
            by (simp add: st(2) [OF le] unat_of_nat take_bit_nat_eq_self del: of_nat_add of_nat_mult)
          then show ?thesis
            using und Some d bd False st(1) le Cons [of "n * of_nat b + ucast d" und] by (auto simp: Let_def)
        qed
      qed
    qed
  qed
qed (simp add: loop_result_def)

text \<open>Without underscores and with digits only, the loop computes the value or finds it too large.\<close>

lemma exact_loop_digits:
  assumes b: "2 \<le> b"
  shows "digit_string b s \<Longrightarrow> n \<le> M \<Longrightarrow> (base0 \<longrightarrow> chr CHR ''_'' \<notin> set s) \<Longrightarrow>
    exact_loop base0 b M s n und = (if numval b n s \<le> M then Inr (numval b n s, und) else Inl (M, ErrRange))"
proof (induction s arbitrary: n)
  case (Cons c s)
  then obtain d where d: "digit_of c = Some d" "d < b" by (auto simp: digit_string_def)
  have "digit_string b s" using Cons.prems(1) by (simp add: digit_string_def)
  moreover have "n * b + d \<le> numval b (n * b + d) s" using b by (intro numval_mono) simp
  ultimately show ?case using Cons d by auto
qed simp

text \<open>A string with another character ends in an error.\<close>

lemma exact_loop_error:
  "\<not> digit_string b s \<Longrightarrow> exact_loop False b M s n und \<in> {Inl (0, ErrSyntax), Inl (M, ErrRange)}"
proof (induction s arbitrary: n)
  case (Cons c s)
  show ?case
  proof (cases "\<exists>d. digit_of c = Some d \<and> d < b")
    case True
    then obtain d where d: "digit_of c = Some d" "d < b" by blast
    with Cons.prems have "\<not> digit_string b s" by (auto simp: digit_string_def)
    from Cons.IH [OF this, of "n * b + d"] show ?thesis using d by auto
  next
    case False
    then show ?thesis by (auto split: option.splits)
  qed
qed (simp add: digit_string_def)

section \<open>ParseUint\<close>

text \<open>The number of bits that a bit size stands for, and the largest value.\<close>

definition bits_of :: "int \<Rightarrow> nat" where
  "bits_of bitSize = (if bitSize = 0 then 64 else nat bitSize)"

definition max_of :: "int \<Rightarrow> nat" where
  "max_of bitSize = 2 ^ bits_of bitSize - 1"

lemma max_of_word:
  assumes "0 \<le> bitSize" and "bitSize \<le> 64"
  shows "max_of bitSize < 2 ^ 64" "push_bit (bits_of bitSize) 1 - 1 = (of_nat (max_of bitSize) :: u64)"
proof -
  have "bits_of bitSize \<le> 64" using assms by (simp add: bits_of_def nat_le_iff)
  then have "(2::nat) ^ bits_of bitSize \<le> 2 ^ 64" by (intro power_increasing) simp_all
  moreover have "(1::nat) \<le> 2 ^ bits_of bitSize" by simp
  ultimately show "max_of bitSize < 2 ^ 64" unfolding max_of_def by linarith
  show "push_bit (bits_of bitSize) 1 - 1 = (of_nat (max_of bitSize) :: u64)"
    by (simp add: max_of_def push_bit_eq_mult)
qed

text \<open>\<open>ParseUint\<close> after the checks of its arguments.\<close>

lemma ParseUint_exact_loop:
  assumes s: "s \<noteq> []" and size: "0 \<le> bitSize" "bitSize \<le> 64"
    and prefix: "ParseUint_prefix s base = Some (int b, t)" and b: "2 \<le> b" "b \<le> 36"
  shows "ParseUint s base bitSize =
    (case exact_loop (base = 0) b (max_of bitSize) t 0 False of
       Inl (v, ErrRange) \<Rightarrow> (of_nat v, Some (rangeError ''ParseUint'' s))
     | Inl (v, _) \<Rightarrow> (of_nat v, Some (syntaxError ''ParseUint'' s))
     | Inr (n, und) \<Rightarrow> if und \<and> \<not> underscoreOK s then (0, Some (syntaxError ''ParseUint'' s)) else (of_nat n, None))"
proof -
  have size': "nat (if bitSize = 0 then intSize else bitSize) = bits_of bitSize"
    by (simp add: bits_of_def intSize_def)
  have cut: "(if int b = 10 then maxUint64 div 10 + 1 else if int b = 16 then maxUint64 div 16 + 1
      else maxUint64 div of_int (int b) + 1) = maxUint64 div of_nat b + 1" by auto
  have "ParseUint_loop (base = 0) (int b) (maxUint64 div of_nat b + 1) (push_bit (bits_of bitSize) 1 - 1) t 0 False =
      loop_result (exact_loop (base = 0) b (max_of bitSize) t 0 False)"
    using ParseUint_loop_exact [OF b max_of_word(1) [OF size] refl] max_of_word(2) [OF size] by simp
  then show ?thesis
    using s size prefix
    by (cases "exact_loop (base = 0) b (max_of bitSize) t 0 False")
      (auto simp: ParseUint_def Let_def size' cut loop_result_def split: num_err.splits)
qed

end
