(* ===== verification/Strconv_Correct.thy ===== *)
theory Strconv_Correct
  imports Strconv_Parse
begin

text \<open>
  What the conversions between integers and strings promise together: exact range checks, the fast path of
  \<open>Atoi\<close>, and formatting undone by parsing.
\<close>

section \<open>ParseUint on digits\<close>

lemma digit_string_not: "digit_string b s \<Longrightarrow> digit_of c = None \<Longrightarrow> c \<notin> set s"
  by (auto simp: digit_string_def)

lemma no_digits: "digit_of (chr CHR ''_'') = None" "digit_of (chr CHR ''+'') = None" "digit_of (chr CHR ''-'') = None"
  by (simp_all add: digit_of_def ParseUint_digit_def lower_def)

lemma prefix_base: "2 \<le> b \<Longrightarrow> b \<le> 36 \<Longrightarrow> ParseUint_prefix s (int b) = Some (int b, s)"
  by (simp add: ParseUint_prefix_def)

lemma ParseUint_digits:
  assumes b: "2 \<le> b" "b \<le> 36" and size: "0 \<le> bitSize" "bitSize \<le> 64" and s: "s \<noteq> []" "digit_string b s"
  shows "ParseUint s (int b) bitSize =
    (if numval b 0 s \<le> max_of bitSize then (of_nat (numval b 0 s), None)
     else (of_nat (max_of bitSize), Some (rangeError ''ParseUint'' s)))"
  using ParseUint_exact_loop [OF s(1) size prefix_base [OF b] b] exact_loop_digits [OF b(1) s(2), of 0 "max_of bitSize" False False] b
  by simp

section \<open>ParseInt on digits\<close>

lemma cutoff_word:
  assumes "0 \<le> bitSize" and "bitSize \<le> 64"
  shows "push_bit (nat ((if bitSize = 0 then intSize else bitSize) - 1)) 1 = (of_nat (2 ^ (bits_of bitSize - 1)) :: u64)"
    "(2::nat) ^ (bits_of bitSize - 1) \<le> 2 ^ 63" "max_of bitSize = 2 * 2 ^ (bits_of bitSize - 1) - 1"
proof -
  have n: "nat ((if bitSize = 0 then intSize else bitSize) - 1) = bits_of bitSize - 1"
    using assms by (simp add: bits_of_def intSize_def) arith
  show "push_bit (nat ((if bitSize = 0 then intSize else bitSize) - 1)) 1 = (of_nat (2 ^ (bits_of bitSize - 1)) :: u64)"
    unfolding n by (simp add: push_bit_eq_mult)
  have "bits_of bitSize - 1 \<le> 63" using assms by (auto simp: bits_of_def nat_le_iff)
  then show "(2::nat) ^ (bits_of bitSize - 1) \<le> 2 ^ 63" by (intro power_increasing) simp_all
  have "bits_of bitSize = Suc (bits_of bitSize - 1)" using assms by (auto simp: bits_of_def)
  then show "max_of bitSize = 2 * 2 ^ (bits_of bitSize - 1) - 1" unfolding max_of_def by (metis power_Suc)
qed

text \<open>The range check on the value \<open>min v (max_of bitSize)\<close> that \<open>ParseUint\<close> returns.\<close>

lemma ParseInt_check_exact:
  assumes size: "0 \<le> bitSize" "bitSize \<le> 64" and k: "k = bits_of bitSize - 1"
  shows "ParseInt_check fn s False (of_nat (min v (max_of bitSize))) bitSize =
      (if v < 2 ^ k then (of_nat v, None) else (of_nat (2 ^ k - 1), Some (rangeError fn s)))"
    "bits_of bitSize \<noteq> 1 \<Longrightarrow> ParseInt_check fn s True (of_nat (min v (max_of bitSize))) bitSize =
      (if v \<le> 2 ^ k then (- of_nat v, None) else (- of_nat (2 ^ k), Some (rangeError fn s)))"
    "bits_of bitSize = 1 \<Longrightarrow> ParseInt_check fn s True (of_nat (min v (max_of bitSize))) bitSize = (- of_nat (min v 1), None)"
proof -
  note c = cutoff_word [OF size, folded k]
  let ?u = "of_nat (min v (max_of bitSize)) :: u64" and ?c = "of_nat (2 ^ k) :: u64"
  have uc: "unat ?c = 2 ^ k" using c(2) by (simp add: unat_of_nat take_bit_nat_eq_self del: of_nat_power)
  have uu: "unat ?u = min v (max_of bitSize)"
    using max_of_word(1) [OF size] by (simp add: unat_of_nat take_bit_nat_eq_self min_less_iff_disj)
  have pos: "(1::nat) \<le> 2 ^ k" by simp
  have ge: "?u \<ge> ?c \<longleftrightarrow> 2 ^ k \<le> v" unfolding word_le_nat_alt uu uc using c(3) pos by auto
  have small: "v \<le> 2 ^ k \<Longrightarrow> min v (max_of bitSize) = v" using c(3) pos by (auto simp: min_def)
  show "ParseInt_check fn s False ?u bitSize =
      (if v < 2 ^ k then (of_nat v, None) else (of_nat (2 ^ k - 1), Some (rangeError fn s)))"
    unfolding ParseInt_check_def c(1) Let_def using ge small by auto
  have gt: "?u > ?c \<longleftrightarrow> 2 ^ k < v" if "bits_of bitSize \<noteq> 1"
  proof -
    have "1 \<le> k" using that k size by (auto simp: bits_of_def)
    then have "(2::nat) ^ 1 \<le> 2 ^ k" by (intro power_increasing) simp_all
    then show ?thesis unfolding word_less_nat_alt uu uc using c(3) by auto
  qed
  show "bits_of bitSize \<noteq> 1 \<Longrightarrow> ParseInt_check fn s True ?u bitSize =
      (if v \<le> 2 ^ k then (- of_nat v, None) else (- of_nat (2 ^ k), Some (rangeError fn s)))"
    unfolding ParseInt_check_def c(1) Let_def using gt small by auto
  show "ParseInt_check fn s True ?u bitSize = (- of_nat (min v 1), None)" if "bits_of bitSize = 1"
  proof -
    have k1: "k = 0" "max_of bitSize = 1" using that k c(3) by simp_all
    have "\<not> ?c < ?u" unfolding word_less_nat_alt uu uc by (simp add: k1)
    then show ?thesis unfolding ParseInt_check_def c(1) Let_def by (simp add: k1)
  qed
qed

text \<open>A signed string of digits.\<close>

definition signed :: "bool \<Rightarrow> u8 list \<Rightarrow> u8 list" where
  "signed neg t = (if neg then chr CHR ''-'' # t else t)"

lemma ParseInt_digits:
  assumes b: "2 \<le> b" "b \<le> 36" and size: "0 \<le> bitSize" "bitSize \<le> 64" and t: "t \<noteq> []" "digit_string b t"
  shows "ParseInt (signed neg t) (int b) bitSize =
    ParseInt_check ''ParseInt'' (signed neg t) neg (of_nat (min (numval b 0 t) (max_of bitSize))) bitSize"
proof -
  have hd: "t ! 0 \<noteq> chr CHR ''+''" "t ! 0 \<noteq> chr CHR ''-''"
    using digit_string_not [OF t(2) no_digits(2)] digit_string_not [OF t(2) no_digits(3)] nth_mem [of 0 t] t(1) by force+
  note u = ParseUint_digits [OF b size t]
  show ?thesis
  proof (cases "numval b 0 t \<le> max_of bitSize")
    case True
    then show ?thesis using u hd t(1) by (simp add: ParseInt_def signed_def Let_def)
  next
    case False
    then show ?thesis using u hd t(1) by (simp add: ParseInt_def signed_def Let_def rangeError_def)
  qed
qed

section \<open>Atoi\<close>

text \<open>\<open>ch -= '0'; ch > 9\<close> is the test for a decimal digit.\<close>

lemma byte_sub48: "unat (c - 48) = (if 48 \<le> unat c then unat c - 48 else unat c + 208)" for c :: u8
  using unat_lt8 [of c] by (simp add: unat_sub_if' word_less_nat_alt word_le_nat_alt)

lemma letter_value: "97 \<le> l \<Longrightarrow> l \<le> 122 \<Longrightarrow> 10 \<le> unat (l - 97 + 10)" for l :: u8
proof -
  assume l: "97 \<le> l" "l \<le> 122"
  then have "unat (l - 97) = unat l - 97" by (simp add: unat_sub)
  moreover have "unat l \<le> 122" using l by (simp add: word_le_nat_alt)
  ultimately have "unat (l - 97 + 10) = unat l - 97 + 10" by (subst unat_word_ariths(1)) simp
  then show ?thesis by simp
qed

lemma digit10:
  "c - 48 > 9 \<longleftrightarrow> \<not> (\<exists>d. digit_of c = Some d \<and> d < 10)" "digit_of c = Some d \<Longrightarrow> d < 10 \<Longrightarrow> unat (c - 48) = d"
proof -
  consider "48 \<le> c" "c \<le> 57" | "\<not> (48 \<le> c \<and> c \<le> 57)" by blast
  then have "(c - 48 > 9 \<longleftrightarrow> \<not> (\<exists>d. digit_of c = Some d \<and> d < 10)) \<and>
      (digit_of c = Some d \<longrightarrow> d < 10 \<longrightarrow> unat (c - 48) = d)"
  proof cases
    case 1
    then have "digit_of c = Some (unat (c - 48))" "unat (c - 48) \<le> 9"
      by (simp_all add: digit_of_def ParseUint_digit_def byte_sub48 word_le_nat_alt)
    then show ?thesis by (auto simp: word_less_nat_alt)
  next
    case 2
    then have "c - 48 > 9" using unat_lt8 [of c] by (auto simp: word_less_nat_alt word_le_nat_alt byte_sub48)
    moreover have "digit_of c = None \<or> (\<exists>d. digit_of c = Some d \<and> 10 \<le> d)"
      using 2 letter_value [of "lower c"] by (auto simp: digit_of_def ParseUint_digit_def)
    ultimately show ?thesis by auto
  qed
  then show "c - 48 > 9 \<longleftrightarrow> \<not> (\<exists>d. digit_of c = Some d \<and> d < 10)"
    "digit_of c = Some d \<Longrightarrow> d < 10 \<Longrightarrow> unat (c - 48) = d" by blast+
qed

lemma ucast_of_nat: "ucast c = (of_nat (unat c) :: u64)" for c :: u8
proof (rule word_of_nat_eqI)
  show "unat (ucast c :: u64) = unat c" using unat_lt8 [of c] by (simp add: unat_ucast_mod del: unat_lt8)
qed

lemma Atoi_loop_digits:
  "Atoi_loop s (of_nat n) = (if digit_string 10 s then Some (of_nat (numval 10 n s)) else None)"
proof (induction s arbitrary: n)
  case (Cons c s)
  show ?case
  proof (cases "\<exists>d. digit_of c = Some d \<and> d < 10")
    case True
    then obtain d where d: "digit_of c = Some d" "d < 10" by blast
    have "ucast (c - 48) = (of_nat d :: i64)" using digit10(2) [OF d] by (simp add: ucast_of_nat)
    then have "of_nat n * 10 + ucast (c - 48) = (of_nat (n * 10 + d) :: i64)" by simp
    moreover have "\<not> c - 48 > 9" using digit10(1) [of c] True by blast
    ultimately show ?thesis using Cons [of "n * 10 + d"] d by (simp add: digit_string_def del: of_nat_add of_nat_mult)
  next
    case False
    then have "c - 48 > 9" using digit10(1) by blast
    then show ?thesis using False by (simp add: digit_string_def)
  qed
qed (simp add: digit_string_def)

text \<open>A short string of digits stays below the largest value, so that no range error hides a wrong character.\<close>

lemma numval_bound: "2 \<le> b \<Longrightarrow> digit_string b s \<Longrightarrow> numval b n s < (n + 1) * b ^ length s"
proof (induction s arbitrary: n)
  case (Cons c s)
  then obtain d where d: "digit_of c = Some d" "d < b" by (auto simp: digit_string_def)
  have "digit_string b s" using Cons.prems(2) by (simp add: digit_string_def)
  with Cons have "numval b (n * b + d) s < (n * b + d + 1) * b ^ length s" by blast
  also have "\<dots> \<le> ((n + 1) * b) * b ^ length s" using d(2) by (intro mult_le_mono1) simp
  finally show ?case using d by (simp add: algebra_simps)
qed simp

lemma short_syntax_error:
  assumes "n < 10 ^ k"
  shows "k + length s \<le> 18 \<Longrightarrow> \<not> digit_string 10 s \<Longrightarrow> 10 ^ 18 \<le> M \<Longrightarrow>
    exact_loop False 10 M s n und = Inl (0, ErrSyntax)"
  using assms
proof (induction s arbitrary: n k)
  case (Cons c s)
  show ?case
  proof (cases "\<exists>d. digit_of c = Some d \<and> d < 10")
    case True
    then obtain d where d: "digit_of c = Some d" "d < 10" by blast
    have lt: "n * 10 + d < 10 ^ Suc k" using Cons.prems(4) d(2) by simp
    also have "(10::nat) ^ Suc k \<le> 10 ^ 18" using Cons.prems(1) by (intro power_increasing) simp_all
    finally have "n * 10 + d \<le> M" using Cons.prems(3) by linarith
    moreover have "\<not> digit_string 10 s" using Cons.prems(2) d by (auto simp: digit_string_def)
    ultimately show ?thesis using Cons.IH [of "Suc k" "n * 10 + d"] Cons.prems(1,3) lt d by simp
  next
    case False
    then show ?thesis by (auto split: option.splits)
  qed
qed (simp add: digit_string_def)

definition unsigned_part :: "u8 list \<Rightarrow> u8 list" where
  "unsigned_part s = (if s ! 0 = chr CHR ''-'' \<or> s ! 0 = chr CHR ''+'' then drop 1 s else s)"

lemma ParseInt_short:
  assumes s: "s \<noteq> []" and short: "length (unsigned_part s) \<le> 18"
  shows "ParseInt s 10 0 =
    (if unsigned_part s \<noteq> [] \<and> digit_string 10 (unsigned_part s)
     then (let v = of_nat (numval 10 0 (unsigned_part s)) in (if s ! 0 = chr CHR ''-'' then - v else v, None))
     else (0, Some (syntaxError ''ParseInt'' s)))"
proof -
  define t where "t = unsigned_part s"
  define neg where "neg \<longleftrightarrow> s ! 0 = chr CHR ''-''"
  have max: "max_of 0 = 2 ^ 64 - 1" "bits_of 0 = 64" by (simp_all add: max_of_def bits_of_def)
  have P: "ParseInt s 10 0 = (case ParseUint t 10 0 of
      (un, Some e) \<Rightarrow> if Err e \<noteq> ErrRange then (0, Some (e\<lparr>Func := ''ParseInt'', Num := s\<rparr>))
                       else ParseInt_check ''ParseInt'' s neg un 0
    | (un, None) \<Rightarrow> ParseInt_check ''ParseInt'' s neg un 0)"
    using s by (auto simp: ParseInt_def Let_def t_def neg_def unsigned_part_def split: option.splits prod.splits)
  show ?thesis
  proof (cases "t = []")
    case True
    then have "ParseUint t 10 0 = (0, Some (syntaxError ''ParseUint'' t))" by (simp add: ParseUint_def)
    then show ?thesis using True P by (simp add: t_def [symmetric] syntaxError_def)
  next
    case t: False
    show ?thesis
    proof (cases "digit_string 10 t")
      case True
      have "numval 10 0 t < (0 + 1) * 10 ^ length t" by (rule numval_bound [OF _ True]) simp
      also have "\<dots> \<le> 1 * 10 ^ 18" using short by (intro mult_mono power_increasing) (simp_all add: t_def)
      finally have v: "numval 10 0 t < 10 ^ 18" by simp
      then have m: "numval 10 0 t \<le> max_of 0" "min (numval 10 0 t) (max_of 0) = numval 10 0 t"
        by (simp_all add: max)
      have "ParseUint t 10 0 = (of_nat (numval 10 0 t), None)"
        using ParseUint_digits [of 10 0 t] t True m(1) by simp
      moreover have "ParseInt_check ''ParseInt'' s neg (of_nat (numval 10 0 t)) 0 =
          (if neg then - of_nat (numval 10 0 t) else of_nat (numval 10 0 t), None)"
        using ParseInt_check_exact(1,2) [where bitSize = 0 and k = 63 and fn = "''ParseInt''" and s = s and v = "numval 10 0 t"] v m(2) by (simp add: max(2))
      ultimately show ?thesis using P t True by (simp add: t_def [symmetric] neg_def Let_def)
    next
      case False
      have "exact_loop False 10 (max_of 0) t 0 False = Inl (0, ErrSyntax)"
        using False short by (intro short_syntax_error [where k = 0]) (simp_all add: t_def max)
      then have "ParseUint t 10 0 = (0, Some (syntaxError ''ParseUint'' t))"
        using ParseUint_exact_loop [of t 0 10 10 t] t prefix_base [of 10 t] by simp
      then show ?thesis using P False by (simp add: t_def [symmetric] syntaxError_def)
    qed
  qed
qed

section \<open>What ParseUint returns\<close>

text \<open>
  The base that the prefix of a literal gives, and what follows the prefix; a leading zero without a letter makes it
  octal.
\<close>

definition literal_base :: "u8 list \<Rightarrow> nat \<times> u8 list" where
  "literal_base s =
    (case s of
       z # p # d # r \<Rightarrow>
         if z \<noteq> chr CHR ''0'' then (10, s)
         else if p \<in> {chr CHR ''b'', chr CHR ''B''} then (2, d # r)
         else if p \<in> {chr CHR ''o'', chr CHR ''O''} then (8, d # r)
         else if p \<in> {chr CHR ''x'', chr CHR ''X''} then (16, d # r)
         else (8, p # d # r)
     | z # r \<Rightarrow> if z = chr CHR ''0'' then (8, r) else (10, s)
     | [] \<Rightarrow> (10, []))"

text \<open>Every underscore stands between two other characters that are none.\<close>

definition underscores_separate :: "u8 list \<Rightarrow> bool" where
  "underscores_separate s \<longleftrightarrow>
    (\<forall>i < length s. s ! i = chr CHR ''_'' \<longrightarrow> 0 < i \<and> i + 1 < length s \<and> s ! (i + 1) \<noteq> chr CHR ''_'')"

definition digit_below :: "nat \<Rightarrow> u8 \<Rightarrow> bool" where
  "digit_below b c \<longleftrightarrow> (case digit_of c of None \<Rightarrow> False | Some d \<Rightarrow> d < b)"

text \<open>
  The result, by the value of the digits at the start, a natural number of any size: too large a value comes first, then
  a character that is no digit of the base or a misplaced underscore.
\<close>

definition parse_uint :: "u8 list \<Rightarrow> int \<Rightarrow> int \<Rightarrow> u64 \<times> NumError option" where
  "parse_uint s base bitSize =
    (if s = [] then (0, Some (syntaxError ''ParseUint'' s))
     else if base \<noteq> 0 \<and> (base < 2 \<or> 36 < base) then (0, Some (baseError ''ParseUint'' s base))
     else if bitSize < 0 \<or> 64 < bitSize then (0, Some (bitSizeError ''ParseUint'' s bitSize))
     else
       let (b, t) = (if base = 0 then literal_base s else (nat base, s));
           ds = (if base = 0 then filter (\<lambda>c. c \<noteq> chr CHR ''_'') t else t);
           v = numval b 0 (takeWhile (digit_below b) ds)
       in if max_of bitSize < v then (of_nat (max_of bitSize), Some (rangeError ''ParseUint'' s))
          else if \<not> list_all (digit_below b) ds \<or> base = 0 \<and> \<not> underscores_separate s then (0, Some (syntaxError ''ParseUint'' s))
          else (of_nat v, None))"

lemma digit_string_below: "digit_string b s \<longleftrightarrow> list_all (digit_below b) s"
  by (auto simp: digit_string_def digit_below_def list_all_iff split: option.splits)

lemma takeWhile_all: "list_all P s \<Longrightarrow> takeWhile P s = s"
  by (induction s) simp_all

lemma exact_loop_result:
  assumes b: "2 \<le> b"
  shows "n \<le> M \<Longrightarrow> exact_loop base0 b M t n und =
    (let ds = (if base0 then filter (\<lambda>c. c \<noteq> chr CHR ''_'') t else t); v = numval b n (takeWhile (digit_below b) ds) in
     if M < v then Inl (M, ErrRange)
     else if \<not> digit_string b ds then Inl (0, ErrSyntax)
     else Inr (v, und \<or> base0 \<and> chr CHR ''_'' \<in> set t))"
proof (induction t arbitrary: n und)
  case (Cons c t)
  show ?case
  proof (cases "c = chr CHR ''_'' \<and> base0")
    case True
    then show ?thesis using Cons.IH [OF Cons.prems, of True] by (simp add: Let_def)
  next
    case und: False
    show ?thesis
    proof (cases "digit_below b c")
      case True
      then obtain d where d: "digit_of c = Some d" "d < b" by (auto simp: digit_below_def split: option.splits)
      then have c: "c \<noteq> chr CHR ''_''" using no_digits(1) by auto
      show ?thesis
      proof (cases "M < n * b + d")
        case over: True
        have "n * b + d \<le> numval b (n * b + d) ds" for ds using b by (intro numval_mono) simp
        then have "M < numval b (n * b + d) ds" for ds using over by (rule order.strict_trans2 [rotated])
        then show ?thesis using und d c over True by (simp add: Let_def)
      next
        case False
        then show ?thesis using Cons.IH [of "n * b + d" und] und d c True by (auto simp: Let_def digit_string_below)
      qed
    next
      case False
      then have "case digit_of c of None \<Rightarrow> True | Some d \<Rightarrow> b \<le> d" by (auto simp: digit_below_def split: option.split)
      then show ?thesis using und False Cons.prems by (auto simp: Let_def digit_string_below split: option.splits)
    qed
  qed
qed (simp add: Let_def digit_string_def)

section \<open>Underscores\<close>

text \<open>The loop of \<open>underscoreOK\<close> on digits and underscores.\<close>

definition separator_digit :: "bool \<Rightarrow> u8 \<Rightarrow> bool" where
  "separator_digit hex c \<longleftrightarrow>
    chr CHR ''0'' \<le> c \<and> c \<le> chr CHR ''9'' \<or> hex \<and> chr CHR ''a'' \<le> lower c \<and> lower c \<le> chr CHR ''f''"

lemma underscoreOK_loop_digits:
  assumes "list_all (\<lambda>c. c = chr CHR ''_'' \<or> separator_digit hex c) t"
  shows "underscoreOK_loop hex t saw \<longleftrightarrow>
    (saw = chr CHR ''_'' \<longrightarrow> t \<noteq> [] \<and> t ! 0 \<noteq> chr CHR ''_'') \<and> (t \<noteq> [] \<and> t ! 0 = chr CHR ''_'' \<longrightarrow> saw = chr CHR ''0'') \<and>
    (\<forall>i < length t. t ! i = chr CHR ''_'' \<longrightarrow> i + 1 < length t \<and> t ! (i + 1) \<noteq> chr CHR ''_'')"
  using assms
proof (induction t arbitrary: saw)
  case (Cons c t)
  have u: "\<not> separator_digit hex (chr CHR ''_'')" by (simp add: separator_digit_def lower_def)
  have c0: "chr CHR ''0'' \<noteq> chr CHR ''_''" by simp
  show ?case
  proof (cases "c = chr CHR ''_''")
    case True
    then show ?thesis using Cons.IH [of "chr CHR ''_''"] Cons.prems u
      by (cases t) (auto simp: separator_digit_def All_less_Suc2)
  next
    case False
    then have "separator_digit hex c" using Cons.prems by simp
    then show ?thesis using Cons.IH [of "chr CHR ''0''"] Cons.prems False c0
      by (simp add: separator_digit_def All_less_Suc2)
  qed
qed simp

lemma lower_letter:
  "lower c = chr CHR ''b'' \<longleftrightarrow> c \<in> {chr CHR ''b'', chr CHR ''B''}"
  "lower c = chr CHR ''o'' \<longleftrightarrow> c \<in> {chr CHR ''o'', chr CHR ''O''}"
  "lower c = chr CHR ''x'' \<longleftrightarrow> c \<in> {chr CHR ''x'', chr CHR ''X''}"
proof -
  have "\<forall>n \<in> set [0..<256]. let c = of_nat n :: u8 in
      (lower c = chr CHR ''b'') = (c \<in> {chr CHR ''b'', chr CHR ''B''}) \<and> (lower c = chr CHR ''o'') = (c \<in> {chr CHR ''o'', chr CHR ''O''}) \<and>
      (lower c = chr CHR ''x'') = (c \<in> {chr CHR ''x'', chr CHR ''X''})"
    by (simp add: lower_def upt_from_0 del: set_upt)
  moreover have "unat c \<in> set [0..<256]" using unat_lt8 [of c] by simp
  ultimately have "let c = of_nat (unat c) :: u8 in
      (lower c = chr CHR ''b'') = (c \<in> {chr CHR ''b'', chr CHR ''B''}) \<and> (lower c = chr CHR ''o'') = (c \<in> {chr CHR ''o'', chr CHR ''O''}) \<and>
      (lower c = chr CHR ''x'') = (c \<in> {chr CHR ''x'', chr CHR ''X''})" by (rule bspec)
  then show "lower c = chr CHR ''b'' \<longleftrightarrow> c \<in> {chr CHR ''b'', chr CHR ''B''}" "lower c = chr CHR ''o'' \<longleftrightarrow> c \<in> {chr CHR ''o'', chr CHR ''O''}"
    "lower c = chr CHR ''x'' \<longleftrightarrow> c \<in> {chr CHR ''x'', chr CHR ''X''}" by (simp_all add: Let_def)
qed

text \<open>A literal is its prefix and what follows it; the digits of its base are digits between underscores.\<close>

lemmas lower_letter_codes = lower_letter [simplified]

lemma lower_letters: "lower 98 = 98" "lower 66 = 98" "lower 111 = 111" "lower 79 = 111" "lower 120 = 120" "lower 88 = 120"
  by (simp_all add: lower_def)

lemma prefix_literal: "s \<noteq> [] \<Longrightarrow> ParseUint_prefix s 0 = Some (int (fst (literal_base s)), snd (literal_base s))"
  by (cases s; cases "tl s"; cases "tl (tl s)") (auto simp: ParseUint_prefix_def literal_base_def lower_letter_codes)

lemma literal_digit:
  assumes "digit_below (fst (literal_base s)) c"
  shows "separator_digit (fst (literal_base s) = 16) c"
proof -
  have sub: "unat (lower c - 87) = unat (lower c) - 87" if "97 \<le> unat (lower c)" using that unat_sub [of 87 "lower c"] by (simp add: word_le_nat_alt)
  have ten: "digit_below 10 c \<Longrightarrow> separator_digit False c" and sixteen: "digit_below 16 c \<Longrightarrow> separator_digit True c"
    by (auto simp: digit_below_def digit_of_def ParseUint_digit_def separator_digit_def word_le_nat_alt sub split: if_splits option.splits)
  have "fst (literal_base s) \<in> {2, 8, 10, 16}" by (auto simp: literal_base_def split: list.splits)
  moreover have "digit_below b c \<Longrightarrow> b \<le> 10 \<Longrightarrow> digit_below 10 c" for b by (auto simp: digit_below_def split: option.splits)
  ultimately show ?thesis using assms ten sixteen by auto
qed

lemma separate_Cons:
  assumes "c \<noteq> chr CHR ''_''"
  shows "underscores_separate (c # t) \<longleftrightarrow> (\<forall>i < length t. t ! i = chr CHR ''_'' \<longrightarrow> i + 1 < length t \<and> t ! (i + 1) \<noteq> chr CHR ''_'')"
    "(\<forall>i < length (c # t). (c # t) ! i = chr CHR ''_'' \<longrightarrow> i + 1 < length (c # t) \<and> (c # t) ! (i + 1) \<noteq> chr CHR ''_'') \<longleftrightarrow>
      (\<forall>i < length t. t ! i = chr CHR ''_'' \<longrightarrow> i + 1 < length t \<and> t ! (i + 1) \<noteq> chr CHR ''_'')"
  using assms unfolding underscores_separate_def length_Cons All_less_Suc2 by simp_all

lemma literal_cases:
  assumes "literal_base s = (b, t)" and "s \<noteq> []"
  obtains p where "s = chr CHR ''0'' # p # t" "p \<in> {chr CHR ''b'', chr CHR ''B'', chr CHR ''o'', chr CHR ''O'', chr CHR ''x'', chr CHR ''X''}"
      "lower p = chr CHR ''x'' \<longleftrightarrow> b = 16"
    | "s = chr CHR ''0'' # t" "b = 8" | "s = t" "b = 10" "s ! 0 \<noteq> chr CHR ''0''"
  using assms that by (cases s; cases "tl s"; cases "tl (tl s)") (auto simp: literal_base_def lower_letters split: if_splits)

lemma digit_no_letter: "c = chr CHR ''_'' \<or> separator_digit False c \<Longrightarrow> lower c \<notin> {chr CHR ''b'', chr CHR ''o'', chr CHR ''x''}"
  by (auto simp: separator_digit_def lower_letter_codes)

lemma digit_no_sign: "c = chr CHR ''_'' \<or> separator_digit False c \<Longrightarrow> c \<notin> {chr CHR ''-'', chr CHR ''+''}"
  by (auto simp: separator_digit_def)

lemma literal_underscores:
  assumes s: "s \<noteq> []" and lb: "literal_base s = (b, t)" and ds: "digit_string b (filter (\<lambda>c. c \<noteq> chr CHR ''_'') t)"
  shows "underscores_separate s \<longleftrightarrow> (chr CHR ''_'' \<in> set t \<longrightarrow> underscoreOK s)"
proof -
  let ?u = "chr CHR ''_''"
  let ?tail = "\<lambda>t. \<forall>i < length t. t ! i = ?u \<longrightarrow> i + 1 < length t \<and> t ! (i + 1) \<noteq> ?u"
  have t: "list_all (\<lambda>c. c = ?u \<or> separator_digit (b = 16) c) t"
    using ds literal_digit [of s] lb by (auto simp: digit_string_below list_all_iff)
  have zero: "chr CHR ''0'' \<noteq> ?u" by simp
  have none: "underscores_separate s" if "?u \<notin> set s" using that by (auto simp: underscores_separate_def in_set_conv_nth)
  from lb s show ?thesis
  proof (cases rule: literal_cases)
    case (1 p)
    have p: "p \<noteq> ?u" "lower p \<in> {chr CHR ''b'', chr CHR ''o'', chr CHR ''x''}" using 1(2) by (auto simp: lower_letters)
    have "underscores_separate s \<longleftrightarrow> ?tail t" unfolding 1(1) by (simp only: separate_Cons(1) [OF zero] separate_Cons(2) [OF p(1)])
    moreover have "underscoreOK s \<longleftrightarrow> underscoreOK_loop (b = 16) t (chr CHR ''0'')" using p 1(1,3) by (auto simp: underscoreOK_def)
    moreover have "\<dots> \<longleftrightarrow> ?tail t" using underscoreOK_loop_digits [OF t] by simp
    ultimately show ?thesis using none p(1) 1(1) by auto
  next
    case 2
    then have z: "list_all (\<lambda>c. c = ?u \<or> separator_digit False c) s" using t by (simp add: separator_digit_def)
    have "underscoreOK s \<longleftrightarrow> underscoreOK_loop False s (chr CHR ''^'')"
      using 2(1) z digit_no_letter by (cases t) (auto simp: underscoreOK_def)
    moreover have "\<dots> \<longleftrightarrow> ?tail s" using underscoreOK_loop_digits [OF z] 2(1) by simp
    moreover have "underscores_separate s \<longleftrightarrow> ?tail s" unfolding 2(1) by (simp only: separate_Cons [OF zero])
    ultimately show ?thesis using none 2(1) by auto
  next
    case 3
    then have z: "list_all (\<lambda>c. c = ?u \<or> separator_digit False c) s" using t by simp
    have "underscoreOK s \<longleftrightarrow> underscoreOK_loop False s (chr CHR ''^'')"
      using 3(3) s z digit_no_sign [of "s ! 0"] by (cases s) (auto simp: underscoreOK_def)
    moreover have "\<dots> \<longleftrightarrow> s ! 0 \<noteq> ?u \<and> ?tail s" using underscoreOK_loop_digits [OF z] s by simp
    moreover have "underscores_separate s \<longleftrightarrow> s ! 0 \<noteq> ?u \<and> ?tail s"
      unfolding underscores_separate_def using s by (metis length_greater_0_conv neq0_conv)
    ultimately show ?thesis using none 3(1) by auto
  qed
qed

lemma ParseUint_literal:
  assumes s: "s \<noteq> []" and size: "0 \<le> bitSize" "bitSize \<le> 64"
  shows "ParseUint s 0 bitSize = parse_uint s 0 bitSize"
proof -
  let ?b = "fst (literal_base s)" and ?t = "snd (literal_base s)"
  have b: "2 \<le> ?b" "?b \<le> 36" by (auto simp: literal_base_def split: list.splits)
  have lb: "literal_base s = (?b, ?t)" by simp
  note P = ParseUint_exact_loop [OF s size prefix_literal [OF s] b]
  have m: "0 \<le> max_of bitSize" by simp
  have e: "\<not> digit_string ?b (filter (\<lambda>c. c \<noteq> chr CHR ''_'') ?t) \<or>
      underscores_separate s = (chr CHR ''_'' \<in> set ?t \<longrightarrow> underscoreOK s)"
    using literal_underscores [OF s lb] by blast
  from P [unfolded exact_loop_result [OF b(1) m]] e show ?thesis using s size
    by (auto simp: parse_uint_def Let_def split_beta digit_string_below)
qed

section \<open>Properties\<close>

text \<open>C25. \<open>ParseUint\<close> returns, for every string, base and bit size, what \<open>parse_uint\<close> says with natural numbers of any size:
  the exact value of the digits when it fits the bit size, for a base from 2 to 36, and for base 0 with the prefix of
  the literal and with underscores between digits; the largest value with \<open>ErrRange\<close> when the value of the digits at the
  start does not fit, so that the tests on 64-bit words never miss an overflow and never report one that is none; and
  the errors for an empty string, a bad base, a bad bit size, a character that is no digit and a misplaced underscore.
  Against its documentation, which gives 0 and \<open>ErrSyntax\<close> for a string with an invalid digit, the range error comes
  first when the digits before it are too large.\<close>

theorem ParseUint_exact: "ParseUint s base bitSize = parse_uint s base bitSize"
proof -
  consider "s = []" | "s \<noteq> []" "\<not> (base = 0 \<or> 2 \<le> base \<and> base \<le> 36)" | "s \<noteq> []" "base = 0 \<or> 2 \<le> base \<and> base \<le> 36" "\<not> (0 \<le> bitSize \<and> bitSize \<le> 64)"
    | "s \<noteq> []" "base = 0 \<or> 2 \<le> base \<and> base \<le> 36" "0 \<le> bitSize" "bitSize \<le> 64" by blast
  then show ?thesis
  proof cases
    case 3
    have "\<exists>b t. ParseUint_prefix s base = Some (b, t)"
      using prefix_literal [OF 3(1)] 3(2) by (cases "base = 0") (simp_all add: ParseUint_prefix_def)
    then show ?thesis using 3 by (auto simp: ParseUint_def parse_uint_def Let_def)
  next
    case 4
    then show ?thesis
    proof (cases "base = 0")
      case True
      then show ?thesis using ParseUint_literal [OF 4(1,3,4)] by simp
    next
      case False
      then have b: "2 \<le> nat base" "nat base \<le> 36" "int (nat base) = base" using 4(2) by auto
      note P = ParseUint_exact_loop [OF 4(1,3,4) prefix_base [OF b(1,2)] b(1,2)]
      have "0 \<le> max_of bitSize" by simp
      from P [unfolded exact_loop_result [OF b(1) this]] show ?thesis using False 4(1-4) unfolding b(3)
        by (simp add: parse_uint_def Let_def digit_string_below)
    qed
  qed (auto simp: ParseUint_def parse_uint_def ParseUint_prefix_def Let_def)
qed

theorem ParseUint_exact_witness:
  "ParseUint (map of_char ''0x_fF'') 0 8 = (255, None) \<and> ParseUint (map of_char ''25_5'') 0 7 = (127, Some (rangeError ''ParseUint'' (map of_char ''25_5''))) \<and>
   ParseUint [50, 53, 53, 120] 10 7 = (127, Some (rangeError ''ParseUint'' [50, 53, 53, 120]))"
  unfolding ParseUint_exact by code_simp

lemma decimal_255: "digit_string 10 [50, 53, 53]" "digit_of 50 = Some 2" "digit_of 53 = Some 5"
  by (simp_all add: digit_string_def digit_of_def ParseUint_digit_def)

text \<open>C26. \<open>ParseInt\<close> of a signed string of digits, for a bit size other than 1, is the value clamped to the
  signed range of the bit size, with \<open>ErrRange\<close> exactly when it was clamped.\<close>

theorem ParseInt_exact:
  assumes "2 \<le> b" and "b \<le> 36" and "0 \<le> bitSize" and "bitSize \<le> 64" and "bitSize \<noteq> 1" and "t \<noteq> []" and "digit_string b t"
  shows "ParseInt (signed neg t) (int b) bitSize =
    (let v = numval b 0 t; k = bits_of bitSize - 1
     in if neg then if v \<le> 2 ^ k then (- of_nat v, None) else (- of_nat (2 ^ k), Some (rangeError ''ParseInt'' (signed neg t)))
        else if v < 2 ^ k then (of_nat v, None)
             else (of_nat (2 ^ k - 1), Some (rangeError ''ParseInt'' (signed neg t))))"
proof -
  have "bits_of bitSize \<noteq> 1" using assms(3,5) by (auto simp: bits_of_def nat_eq_iff)
  then show ?thesis
    using ParseInt_digits [OF assms(1-4,6,7), of neg]
      ParseInt_check_exact [OF assms(3,4) refl, where fn = "''ParseInt''" and s = "signed neg t" and v = "numval b 0 t"]
    by (cases neg) (simp_all add: Let_def)
qed

theorem ParseInt_exact_witness:
  "ParseInt (signed True [50, 53, 53]) 10 8 = (- 128, Some (rangeError ''ParseInt'' (signed True [50, 53, 53]))) \<and>
   ParseInt (signed True [50, 53, 53]) 10 9 = (- 255, None)"
  using ParseInt_exact [of 10 8 "[50, 53, 53]" True] ParseInt_exact [of 10 9 "[50, 53, 53]" True]
  by (simp add: decimal_255 bits_of_def)

text \<open>For bit size 1 the range check of \<open>ParseInt\<close> misses every negative number out of range: the value
  that \<open>ParseUint\<close> returned with its range error is the cutoff itself, and \<open>ParseInt\<close> returns -1 without an
  error.\<close>

lemma ParseInt_one_bit:
  assumes "2 \<le> b" and "b \<le> 36" and "t \<noteq> []" and "digit_string b t" and "1 \<le> numval b 0 t"
  shows "ParseInt (signed True t) (int b) 1 = (- 1, None)"
  using ParseInt_digits [of b 1 t True] ParseInt_check_exact(3) [where bitSize = 1 and k = 0 and fn = "''ParseInt''" and s = "signed True t" and v = "numval b 0 t"] assms
  by (simp add: bits_of_def min_def)

lemma ParseInt_one_bit_255:
  "ParseInt (signed True [50, 53, 53]) 10 1 = (- 1, None)"
  using ParseInt_one_bit [of 10 "[50, 53, 53]"] by (simp add: decimal_255)

text \<open>C28. \<open>Atoi\<close> is \<open>ParseInt(s, 10, 0)\<close> with its own name in the error, its fast path for short strings
  included.\<close>

theorem Atoi_ParseInt:
  "Atoi s = (let (i, err) = ParseInt s 10 0 in (i, map_option (\<lambda>e. e\<lparr>Func := ''Atoi''\<rparr>) err))"
proof (cases "s \<noteq> [] \<and> length s < 19")
  case True
  then have len: "length (unsigned_part s) \<le> 18" by (auto simp: unsigned_part_def)
  have "Atoi s =
      (if unsigned_part s \<noteq> [] \<and> digit_string 10 (unsigned_part s)
       then (let v = of_nat (numval 10 0 (unsigned_part s)) in (if s ! 0 = chr CHR ''-'' then - v else v, None))
       else (0, Some (syntaxError ''Atoi'' s)))"
    using True Atoi_loop_digits [of "unsigned_part s" 0]
    by (auto simp: Atoi_def intSize_def Let_def unsigned_part_def split: if_splits)
  then show ?thesis using ParseInt_short [OF _ len] True by (simp add: syntaxError_def Let_def)
next
  case False
  then show ?thesis by (auto simp: Atoi_def intSize_def Let_def split: option.splits prod.splits)
qed

text \<open>C29. Formatting and parsing are inverse for every base from 2 to 36: the number that \<open>FormatInt\<close> and
  \<open>FormatUint\<close> write is read back without an error, the fast paths and the extreme values included;
  \<open>AppendInt\<close> appends the same digits.\<close>

theorem Format_Parse:
  assumes "2 \<le> base" and "base \<le> 36"
  shows "\<exists>s t. FormatInt i base = Inr s \<and> ParseInt s base 64 = (i, None) \<and> AppendInt dst i base = Inr (dst @ s) \<and>
    FormatUint u base = Inr t \<and> ParseUint t base 64 = (u, None) \<and> AppendUint dst u base = Inr (dst @ t)"
proof -
  define b where "b = nat base"
  have b: "2 \<le> b" "b \<le> 36" "int b = base" using assms by (simp_all add: b_def)
  have bits: "bits_of 64 = 64" "max_of 64 = 2 ^ 64 - 1" by (simp_all add: bits_of_def max_of_def)
  let ?ds = "\<lambda>n. map digit_char (digs b n)"
  have ds: "?ds n \<noteq> []" "digit_string b (?ds n)" "numval b 0 (?ds n) = n" for n
    using digit_string_digs [OF b(1,2)] numval_digs [OF b(1,2)] by simp_all
  have U: "ParseUint (?ds (unat u)) base 64 = (u, None)"
    using ParseUint_digits [OF b(1,2) _ _ ds(1,2), of 64 "unat u"] unat_lt64 [of u] by (simp add: bits ds(3) b(3))
  have I: "ParseInt (number base (sint i)) base 64 = (i, None)"
  proof -
    let ?n = "nat \<bar>sint i\<bar>"
    have num: "number base (sint i) = signed (sint i < 0) (?ds ?n)" by (simp add: number_def signed_def b_def)
    have "- (2 ^ 63) \<le> sint i" "sint i < 2 ^ 63" using sint_ge [of i] sint_lt [of i] by simp_all
    then have r: "sint i < 0 \<Longrightarrow> ?n \<le> 2 ^ 63" "\<not> sint i < 0 \<Longrightarrow> ?n < 2 ^ 63" by (simp_all add: nat_le_iff nat_less_iff)
    have w: "(if sint i < 0 then - of_nat ?n else of_nat ?n) = i" by auto
    show ?thesis
      using ParseInt_digits [OF b(1,2) _ _ ds(1,2), of 64 "sint i < 0" ?n] r w
        ParseInt_check_exact(1,2) [where bitSize = 64 and k = 63 and fn = "''ParseInt''" and s = "number base (sint i)" and v = ?n]
      unfolding num b(3) ds(3) by (auto simp: bits split: if_splits)
  qed
  have "number base (int (unat u)) = ?ds (unat u)" by (simp add: number_def b_def)
  then show ?thesis using FormatInt_number [OF assms] FormatUint_number [OF assms] AppendInt_number [OF assms] U I by simp
qed

theorem Format_Parse_witness:
  "\<exists>s. FormatInt (- 9223372036854775808) 36 = Inr s \<and> ParseInt s 36 64 = (- 9223372036854775808, None)"
  using Format_Parse [of 36 "- 9223372036854775808"] by auto

end
