(* ===== verification/Chan.thy ===== *)
theory Chan
  imports Prelude
begin

text \<open>
  Channels, \<^verbatim>\<open>runtime/chan.go\<close>.  Sudogs and goroutines are named by natural numbers and live in stores; a
  pointer that may be nil is an option.  The cells are the memory that the operands \<open>ep\<close> of sends and receives
  point to.  What the code does between \<open>lock\<close> and \<open>unlock\<close> is one transition of the state; \<open>gopark\<close> ends
  it with the goroutine waiting, and what follows the wake-up is a function of its own.  The race detector, the
  block profile and the notices to the stack copier (\<open>parkingOnChan\<close>, \<open>activeStackChans\<close>, \<open>KeepAlive\<close>) are
  left out.
\<close>

section \<open>State\<close>

record sudog =
  sg_g :: nat
  sg_elem :: "nat option"
  sg_next :: "nat option"
  sg_prev :: "nat option"
  sg_isSelect :: bool
  sg_success :: bool

datatype gstatus = Grunning | Gwaiting | Grunnable

record gobj =
  selectDone :: nat
  waiting :: "nat option"
  param :: "nat option"
  status :: gstatus

record waitq =
  wfirst :: "nat option"
  wlast :: "nat option"

record 'v hchan =
  qcount :: nat
  dataqsiz :: nat
  chbuf :: "'v list"
  closed :: nat
  sendx :: nat
  recvx :: nat
  recvq :: waitq
  sendq :: waitq

record 'v world =
  cells :: "nat \<Rightarrow> 'v"
  sgs :: "nat \<Rightarrow> sudog"
  gs :: "nat \<Rightarrow> gobj"
  ch :: "'v hchan"

text \<open>The results of an operation: it returned, it parked (for ever on a nil channel), or it died.\<close>

datatype 'a chan_res = Ret 'a | Parked | ParkedForever | Panics string | Throws string

text \<open>A store updated at one address.\<close>

definition upd_sg :: "nat \<Rightarrow> (sudog \<Rightarrow> sudog) \<Rightarrow> (nat \<Rightarrow> sudog) \<Rightarrow> nat \<Rightarrow> sudog" where
  "upd_sg a f s = s(a := f (s a))"

definition upd_g :: "nat \<Rightarrow> (gobj \<Rightarrow> gobj) \<Rightarrow> 'v world \<Rightarrow> 'v world" where
  "upd_g a f w = w\<lparr>gs := (gs w)(a := f (gs w a))\<rparr>"

section \<open>Wait queues\<close>

definition enqueue :: "nat \<Rightarrow> waitq \<Rightarrow> (nat \<Rightarrow> sudog) \<Rightarrow> waitq \<times> (nat \<Rightarrow> sudog)" where
  "enqueue sgp q s =
    (let s = upd_sg sgp (sg_next_update (\<lambda>_. None)) s;
         x = wlast q
     in case x of
          None \<Rightarrow> (q\<lparr>wfirst := Some sgp, wlast := Some sgp\<rparr>, upd_sg sgp (sg_prev_update (\<lambda>_. None)) s)
        | Some x \<Rightarrow>
            let s = upd_sg sgp (sg_prev_update (\<lambda>_. Some x)) s;
                s = upd_sg x (sg_next_update (\<lambda>_. Some sgp)) s
            in (q\<lparr>wlast := Some sgp\<rparr>, s))"

text \<open>\<open>CompareAndSwap(0, 1)\<close> on \<open>selectDone\<close>.\<close>

definition cas_selectDone :: "gobj \<Rightarrow> bool \<times> gobj" where
  "cas_selectDone gp = (if selectDone gp = 0 then (True, gp\<lparr>selectDone := 1\<rparr>) else (False, gp))"

partial_function (option) dequeue ::
    "waitq \<Rightarrow> (nat \<Rightarrow> sudog) \<Rightarrow> (nat \<Rightarrow> gobj) \<Rightarrow> (nat option \<times> waitq \<times> (nat \<Rightarrow> sudog) \<times> (nat \<Rightarrow> gobj)) option" where
  "dequeue q s gg =
    (case wfirst q of
       None \<Rightarrow> Some (None, q, s, gg)
     | Some sgp \<Rightarrow>
         let y = sg_next (s sgp);
             (q, s) = (case y of
                 None \<Rightarrow> (q\<lparr>wfirst := None, wlast := None\<rparr>, s)
               | Some y' \<Rightarrow>
                   (q\<lparr>wfirst := y\<rparr>,
                    upd_sg sgp (sg_next_update (\<lambda>_. None)) (upd_sg y' (sg_prev_update (\<lambda>_. None)) s)))
         in if sg_isSelect (s sgp)
            then let gp = sg_g (s sgp); (won, g') = cas_selectDone (gg gp); gg = gg(gp := g')
              in if \<not> won then dequeue q s gg else Some (Some sgp, q, s, gg)
            else Some (Some sgp, q, s, gg))"

definition recvq_dequeue :: "'v world \<Rightarrow> (nat option \<times> 'v world) option" where
  "recvq_dequeue w =
    do {
      (sg, q, s, gg) \<leftarrow> dequeue (recvq (ch w)) (sgs w) (gs w);
      Some (sg, w\<lparr>ch := (ch w)\<lparr>recvq := q\<rparr>, sgs := s, gs := gg\<rparr>) }"

definition sendq_dequeue :: "'v world \<Rightarrow> (nat option \<times> 'v world) option" where
  "sendq_dequeue w =
    do {
      (sg, q, s, gg) \<leftarrow> dequeue (sendq (ch w)) (sgs w) (gs w);
      Some (sg, w\<lparr>ch := (ch w)\<lparr>sendq := q\<rparr>, sgs := s, gs := gg\<rparr>) }"

section \<open>Parking and waking\<close>

definition goready :: "nat \<Rightarrow> 'v world \<Rightarrow> 'v world" where
  "goready gp w = upd_g gp (status_update (\<lambda>_. Grunnable)) w"

text \<open>\<open>gp.param = sg; sg.success = b; goready(gp)\<close>\<close>

definition wake :: "nat \<Rightarrow> bool \<Rightarrow> 'v world \<Rightarrow> 'v world" where
  "wake sg b w =
    (let gp = sg_g (sgs w sg);
         w = upd_g gp (param_update (\<lambda>_. Some sg)) w;
         w = w\<lparr>sgs := upd_sg sg (sg_success_update (\<lambda>_. b)) (sgs w)\<rparr>
     in goready gp w)"

text \<open>The fields of a sudog that a goroutine sets before it parks; \<open>gopark\<close> makes it wait.\<close>

definition init_sudog :: "nat \<Rightarrow> nat option \<Rightarrow> sudog \<Rightarrow> sudog" where
  "init_sudog gp ep sg = sg\<lparr>sg_elem := ep, sg_g := gp, sg_isSelect := False\<rparr>"

definition park :: "nat \<Rightarrow> nat \<Rightarrow> 'v world \<Rightarrow> 'v world" where
  "park gp mysg w = upd_g gp (\<lambda>g. g\<lparr>waiting := Some mysg, param := None, status := Gwaiting\<rparr>) w"

text \<open>
  The checks of \<open>acquireSudog\<close> and of \<open>releaseSudog\<close> on the sudog taken from, or put back into, the cache,
  with the message of the \<open>throw\<close>.  The field \<open>waitlink\<close> is nil in every sudog of this file, and \<open>c\<close> is
  cleared just before the release.
\<close>

definition acquireSudog :: "nat \<Rightarrow> 'v world \<Rightarrow> string option" where
  "acquireSudog s w =
    (if sg_elem (sgs w s) \<noteq> None then Some ''acquireSudog: found s.elem != nil in cache'' else None)"

definition releaseSudog :: "nat \<Rightarrow> nat \<Rightarrow> 'v world \<Rightarrow> string option" where
  "releaseSudog gp s w =
    (if sg_elem (sgs w s) \<noteq> None then Some ''runtime: sudog with non-nil elem''
     else if sg_isSelect (sgs w s) then Some ''runtime: sudog with non-false isSelect''
     else if sg_next (sgs w s) \<noteq> None then Some ''runtime: sudog with non-nil next''
     else if sg_prev (sgs w s) \<noteq> None then Some ''runtime: sudog with non-nil prev''
     else if param (gs w gp) \<noteq> None then Some ''runtime: releaseSudog with non-nil gp.param''
     else None)"

section \<open>Creation\<close>

text \<open>
  The fields of a type descriptor that \<open>makechan\<close> reads.  Sizes are those of a 64-bit platform with 48-bit
  addresses: \<open>unsafe.Sizeof(hchan{})\<close> is 96.
\<close>

record elemtype =
  Size_' :: u64
  Align_' :: u8

definition maxAlign :: u64 where "maxAlign = 8"

definition hchanSize :: u64 where "hchanSize = 96 + (- 96 AND (maxAlign - 1))"

definition maxAlloc :: u64 where "maxAlloc = push_bit 48 1"

definition MulUintptr :: "u64 \<Rightarrow> u64 \<Rightarrow> u64 \<times> bool" where
  "MulUintptr a b = (if a OR b < push_bit (4 * 8) 1 \<or> a = 0 then (a * b, False) else (a * b, b > - 1 div a))"

text \<open>
  The buffer is a list of slots, all zero at first: slot \<open>i\<close> is what \<open>chanbuf(c, i)\<close> points to.  Where it is
  allocated is left out.
\<close>

definition makechan :: "elemtype \<Rightarrow> 'v \<Rightarrow> u64 \<Rightarrow> 'v hchan chan_res" where
  "makechan elem zero n =
    (if Size_' elem \<ge> push_bit 16 1 then Throws ''makechan: invalid channel element type''
     else if hchanSize mod maxAlign \<noteq> 0 \<or> ucast (Align_' elem) > maxAlign then Throws ''makechan: bad alignment''
     else let (mem, overflow) = MulUintptr (Size_' elem) n
       in if overflow \<or> mem > maxAlloc - hchanSize \<or> n <s 0 then Panics ''makechan: size out of range''
          else Ret \<lparr>qcount = 0, dataqsiz = unat n, chbuf = replicate (unat n) zero, closed = 0, sendx = 0,
            recvx = 0, recvq = \<lparr>wfirst = None, wlast = None\<rparr>, sendq = \<lparr>wfirst = None, wlast = None\<rparr>\<rparr>)"

definition makechan64 :: "elemtype \<Rightarrow> 'v \<Rightarrow> 64 word \<Rightarrow> 'v hchan chan_res" where
  "makechan64 elem zero n =
    (if (scast (scast n :: 64 word) :: 64 word) \<noteq> n then Panics ''makechan: size out of range''
     else makechan elem zero (scast n))"

definition reflect_makechan :: "elemtype \<Rightarrow> 'v \<Rightarrow> u64 \<Rightarrow> 'v hchan chan_res" where
  "reflect_makechan elem zero n = makechan elem zero n"

section \<open>Sending\<close>

definition full :: "'v hchan \<Rightarrow> bool" where
  "full c \<longleftrightarrow> (if dataqsiz c = 0 then wfirst (recvq c) = None else qcount c = dataqsiz c)"

text \<open>\<open>memmove\<close> between the cells that \<open>ep\<close> and the waiting goroutine's \<open>elem\<close> point to.\<close>

definition sendDirect :: "nat \<Rightarrow> nat \<Rightarrow> 'v world \<Rightarrow> 'v world" where
  "sendDirect dst src w = w\<lparr>cells := (cells w)(dst := cells w src)\<rparr>"

definition recvDirect :: "nat \<Rightarrow> nat \<Rightarrow> 'v world \<Rightarrow> 'v world" where
  "recvDirect src dst w = w\<lparr>cells := (cells w)(dst := cells w src)\<rparr>"

definition send :: "nat \<Rightarrow> nat \<Rightarrow> 'v world \<Rightarrow> 'v world" where
  "send sg ep w =
    (let w = (case sg_elem (sgs w sg) of
           None \<Rightarrow> w
         | Some dst \<Rightarrow>
             let w = sendDirect dst ep w
             in w\<lparr>sgs := upd_sg sg (sg_elem_update (\<lambda>_. None)) (sgs w)\<rparr>)
     in wake sg True w)"

text \<open>\<open>c.sendx++; if c.sendx == c.dataqsiz { c.sendx = 0 }\<close> and the same for \<open>recvx\<close>.\<close>

definition next_index :: "'v hchan \<Rightarrow> nat \<Rightarrow> nat" where
  "next_index c i = (if i + 1 = dataqsiz c then 0 else i + 1)"

text \<open>
  \<open>chansend\<close> by goroutine \<open>gp\<close> with the sudog \<open>mysg\<close> that \<open>acquireSudog\<close> would give it; \<^const>\<open>None\<close> is a
  loop of \<open>dequeue\<close> that never ends.
\<close>

definition chansend :: "bool \<Rightarrow> nat \<Rightarrow> nat \<Rightarrow> nat \<Rightarrow> bool \<Rightarrow> 'v world \<Rightarrow> (bool chan_res \<times> 'v world) option" where
  "chansend isnil gp mysg ep block w =
    (if isnil then Some (if \<not> block then Ret False else ParkedForever, w)
     else if \<not> block \<and> closed (ch w) = 0 \<and> full (ch w) then Some (Ret False, w)
     else if closed (ch w) \<noteq> 0 then Some (Panics ''send on closed channel'', w)
     else do {
       (sg, w) \<leftarrow> recvq_dequeue w;
       case sg of
         Some sg \<Rightarrow> Some (Ret True, send sg ep w)
       | None \<Rightarrow>
           if qcount (ch w) < dataqsiz (ch w)
           then let c = ch w in do {
             b \<leftarrow> slice_set (chbuf c) (sendx c) (cells w ep);
             Some (Ret True, w\<lparr>ch := c\<lparr>chbuf := b, sendx := next_index c (sendx c), qcount := qcount c + 1\<rparr>\<rparr>) }
           else if \<not> block then Some (Ret False, w)
           else (case acquireSudog mysg w of Some e \<Rightarrow> Some (Throws e, w) | None \<Rightarrow>
             let w = w\<lparr>sgs := upd_sg mysg (init_sudog gp (Some ep)) (sgs w)\<rparr>;
                 (q, s) = enqueue mysg (sendq (ch w)) (sgs w);
                 w = w\<lparr>ch := (ch w)\<lparr>sendq := q\<rparr>, sgs := s\<rparr>
             in Some (Parked, park gp mysg w)) })"

text \<open>After the wake-up.\<close>

definition chansend_woken :: "nat \<Rightarrow> nat \<Rightarrow> 'v world \<Rightarrow> bool chan_res \<times> 'v world" where
  "chansend_woken gp mysg w =
    (if Some mysg \<noteq> waiting (gs w gp) then (Throws ''G waiting list is corrupted'', w)
     else
       let cl = \<not> sg_success (sgs w mysg);
           w = upd_g gp (\<lambda>g. g\<lparr>waiting := None, param := None, status := Grunning\<rparr>) w
       in case releaseSudog gp mysg w of
            Some e \<Rightarrow> (Throws e, w)
          | None \<Rightarrow>
              if cl
              then if closed (ch w) = 0 then (Throws ''chansend: spurious wakeup'', w)
                   else (Panics ''send on closed channel'', w)
              else (Ret True, w))"

text \<open>The entry points; \<open>chansend1\<close> drops the result.\<close>

definition chansend1 :: "bool \<Rightarrow> nat \<Rightarrow> nat \<Rightarrow> nat \<Rightarrow> 'v world \<Rightarrow> (unit chan_res \<times> 'v world) option" where
  "chansend1 isnil gp mysg elem w =
    do { (r, w) \<leftarrow> chansend isnil gp mysg elem True w; Some (map_chan_res (\<lambda>_. ()) r, w) }"

definition selectnbsend :: "bool \<Rightarrow> nat \<Rightarrow> nat \<Rightarrow> nat \<Rightarrow> 'v world \<Rightarrow> (bool chan_res \<times> 'v world) option" where
  "selectnbsend isnil gp mysg ep w = chansend isnil gp mysg ep False w"

definition reflect_chansend :: "bool \<Rightarrow> nat \<Rightarrow> nat \<Rightarrow> nat \<Rightarrow> bool \<Rightarrow> 'v world \<Rightarrow> (bool chan_res \<times> 'v world) option" where
  "reflect_chansend isnil gp mysg ep nb w = chansend isnil gp mysg ep (\<not> nb) w"

section \<open>Receiving\<close>

definition chan_empty :: "'v hchan \<Rightarrow> bool" where
  "chan_empty c \<longleftrightarrow> (if dataqsiz c = 0 then wfirst (sendq c) = None else qcount c = 0)"

definition store_cell :: "nat option \<Rightarrow> 'v \<Rightarrow> 'v world \<Rightarrow> 'v world" where
  "store_cell ep v w = (case ep of None \<Rightarrow> w | Some a \<Rightarrow> w\<lparr>cells := (cells w)(a := v)\<rparr>)"

text \<open>A sender's \<open>elem\<close> is never nil; a nil one would be a fault.\<close>

definition recv :: "nat \<Rightarrow> nat option \<Rightarrow> 'v world \<Rightarrow> 'v world option" where
  "recv sg ep w =
    do {
      src \<leftarrow> sg_elem (sgs w sg);
      w \<leftarrow> (if dataqsiz (ch w) = 0
            then Some (case ep of None \<Rightarrow> w | Some dst \<Rightarrow> recvDirect src dst w)
            else let c = ch w in do {
              v \<leftarrow> slice_get (chbuf c) (recvx c);
              let w = store_cell ep v w;
              b \<leftarrow> slice_set (chbuf c) (recvx c) (cells w src);
              let r = next_index c (recvx c);
              Some (w\<lparr>ch := c\<lparr>chbuf := b, recvx := r, sendx := r\<rparr>\<rparr>) });
      let w = w\<lparr>sgs := upd_sg sg (sg_elem_update (\<lambda>_. None)) (sgs w)\<rparr>;
      Some (wake sg True w) }"

text \<open>\<open>zero\<close> is the value that \<open>typedmemclr\<close> leaves; the result is \<open>(selected, received)\<close>.\<close>

definition chanrecv ::
    "'v \<Rightarrow> bool \<Rightarrow> nat \<Rightarrow> nat \<Rightarrow> nat option \<Rightarrow> bool \<Rightarrow> 'v world \<Rightarrow> ((bool \<times> bool) chan_res \<times> 'v world) option" where
  "chanrecv zero isnil gp mysg ep block w =
    (if isnil then Some (if \<not> block then Ret (False, False) else ParkedForever, w)
     else if \<not> block \<and> chan_empty (ch w) \<and> closed (ch w) = 0 then Some (Ret (False, False), w)
     else if \<not> block \<and> chan_empty (ch w) then Some (Ret (True, False), store_cell ep zero w)
     else if closed (ch w) \<noteq> 0 \<and> qcount (ch w) = 0 then Some (Ret (True, False), store_cell ep zero w)
     else do {
       (sg, w) \<leftarrow> (if closed (ch w) \<noteq> 0 then Some (None, w) else sendq_dequeue w);
       case sg of
         Some sg \<Rightarrow> do { w \<leftarrow> recv sg ep w; Some (Ret (True, True), w) }
       | None \<Rightarrow>
           if qcount (ch w) > 0
           then let c = ch w in do {
             v \<leftarrow> slice_get (chbuf c) (recvx c);
             let w = store_cell ep v w;
             b \<leftarrow> slice_set (chbuf c) (recvx c) zero;
             Some (Ret (True, True),
                   w\<lparr>ch := c\<lparr>chbuf := b, recvx := next_index c (recvx c), qcount := qcount c - 1\<rparr>\<rparr>) }
           else if \<not> block then Some (Ret (False, False), w)
           else (case acquireSudog mysg w of Some e \<Rightarrow> Some (Throws e, w) | None \<Rightarrow>
             let w = w\<lparr>sgs := upd_sg mysg (init_sudog gp ep) (sgs w)\<rparr>;
                 (q, s) = enqueue mysg (recvq (ch w)) (sgs w);
                 w = w\<lparr>ch := (ch w)\<lparr>recvq := q\<rparr>, sgs := s\<rparr>
             in Some (Parked, park gp mysg w)) })"

definition chanrecv_woken :: "nat \<Rightarrow> nat \<Rightarrow> 'v world \<Rightarrow> (bool \<times> bool) chan_res \<times> 'v world" where
  "chanrecv_woken gp mysg w =
    (if Some mysg \<noteq> waiting (gs w gp) then (Throws ''G waiting list is corrupted'', w)
     else
       let success = sg_success (sgs w mysg);
           w = upd_g gp (\<lambda>g. g\<lparr>waiting := None, param := None, status := Grunning\<rparr>) w
       in case releaseSudog gp mysg w of Some e \<Rightarrow> (Throws e, w) | None \<Rightarrow> (Ret (True, success), w))"

definition chanrecv1 :: "'v \<Rightarrow> bool \<Rightarrow> nat \<Rightarrow> nat \<Rightarrow> nat option \<Rightarrow> 'v world \<Rightarrow> (unit chan_res \<times> 'v world) option" where
  "chanrecv1 zero isnil gp mysg elem w =
    do { (r, w) \<leftarrow> chanrecv zero isnil gp mysg elem True w; Some (map_chan_res (\<lambda>_. ()) r, w) }"

definition chanrecv2 :: "'v \<Rightarrow> bool \<Rightarrow> nat \<Rightarrow> nat \<Rightarrow> nat option \<Rightarrow> 'v world \<Rightarrow> (bool chan_res \<times> 'v world) option" where
  "chanrecv2 zero isnil gp mysg elem w =
    do { (r, w) \<leftarrow> chanrecv zero isnil gp mysg elem True w; Some (map_chan_res snd r, w) }"

definition selectnbrecv ::
    "'v \<Rightarrow> bool \<Rightarrow> nat \<Rightarrow> nat \<Rightarrow> nat option \<Rightarrow> 'v world \<Rightarrow> ((bool \<times> bool) chan_res \<times> 'v world) option" where
  "selectnbrecv zero isnil gp mysg ep w = chanrecv zero isnil gp mysg ep False w"

definition reflect_chanrecv ::
    "'v \<Rightarrow> bool \<Rightarrow> nat \<Rightarrow> nat \<Rightarrow> bool \<Rightarrow> nat option \<Rightarrow> 'v world \<Rightarrow> ((bool \<times> bool) chan_res \<times> 'v world) option" where
  "reflect_chanrecv zero isnil gp mysg nb ep w = chanrecv zero isnil gp mysg ep (\<not> nb) w"

section \<open>Closing\<close>

text \<open>
  The two loops of \<open>closechan\<close>: each waiter of the queue loses its \<open>elem\<close> (a receiver's cell is cleared) and
  is pushed on the list of goroutines to ready.
\<close>

definition release_waiter :: "nat \<Rightarrow> 'v world \<Rightarrow> 'v world" where
  "release_waiter sg w =
    (let w = w\<lparr>sgs := upd_sg sg (sg_elem_update (\<lambda>_. None)) (sgs w)\<rparr>;
         gp = sg_g (sgs w sg);
         w = upd_g gp (param_update (\<lambda>_. Some sg)) w
     in w\<lparr>sgs := upd_sg sg (sg_success_update (\<lambda>_. False)) (sgs w)\<rparr>)"

partial_function (option) closechan_readers :: "'v \<Rightarrow> nat list \<Rightarrow> 'v world \<Rightarrow> (nat list \<times> 'v world) option" where
  "closechan_readers zero glist w =
    do {
      (sg, w) \<leftarrow> recvq_dequeue w;
      case sg of
        None \<Rightarrow> Some (glist, w)
      | Some sg \<Rightarrow>
          let w = store_cell (sg_elem (sgs w sg)) zero w
          in closechan_readers zero (sg_g (sgs w sg) # glist) (release_waiter sg w) }"

partial_function (option) closechan_writers :: "nat list \<Rightarrow> 'v world \<Rightarrow> (nat list \<times> 'v world) option" where
  "closechan_writers glist w =
    do {
      (sg, w) \<leftarrow> sendq_dequeue w;
      case sg of
        None \<Rightarrow> Some (glist, w)
      | Some sg \<Rightarrow> closechan_writers (sg_g (sgs w sg) # glist) (release_waiter sg w) }"

definition closechan :: "'v \<Rightarrow> bool \<Rightarrow> 'v world \<Rightarrow> (unit chan_res \<times> 'v world) option" where
  "closechan zero isnil w =
    (if isnil then Some (Panics ''close of nil channel'', w)
     else if closed (ch w) \<noteq> 0 then Some (Panics ''close of closed channel'', w)
     else do {
       (glist, w) \<leftarrow> closechan_readers zero [] (w\<lparr>ch := (ch w)\<lparr>closed := 1\<rparr>\<rparr>);
       (glist, w) \<leftarrow> closechan_writers glist w;
       Some (Ret (), fold goready glist w) })"

definition reflect_chanclose :: "'v \<Rightarrow> bool \<Rightarrow> 'v world \<Rightarrow> (unit chan_res \<times> 'v world) option" where
  "reflect_chanclose zero isnil w = closechan zero isnil w"

section \<open>Length and capacity\<close>

definition reflect_chanlen :: "'v hchan option \<Rightarrow> nat" where
  "reflect_chanlen c = (case c of None \<Rightarrow> 0 | Some c \<Rightarrow> qcount c)"

definition reflectlite_chanlen :: "'v hchan option \<Rightarrow> nat" where
  "reflectlite_chanlen c = (case c of None \<Rightarrow> 0 | Some c \<Rightarrow> qcount c)"

definition reflect_chancap :: "'v hchan option \<Rightarrow> nat" where
  "reflect_chancap c = (case c of None \<Rightarrow> 0 | Some c \<Rightarrow> dataqsiz c)"

end
