(* ===== verification/Chan_Queue.thy ===== *)
theory Chan_Queue
  imports Chan
begin

text \<open>
  The wait queues of a channel are doubly linked lists: \<open>enqueue\<close> appends, \<open>dequeue\<close> takes the first waiter,
  skipping the selects that another case has already won, and neither touches the other fields of a sudog or
  the sudogs outside the queue.
\<close>

section \<open>Linked lists\<close>

definition head_opt :: "'a list \<Rightarrow> 'a option" where
  "head_opt xs = (case xs of [] \<Rightarrow> None | x # _ \<Rightarrow> Some x)"

lemma head_opt_simps [simp]: "head_opt [] = None" "head_opt (x # xs) = Some x"
  by (simp_all add: head_opt_def)

lemma head_opt_append [simp]: "head_opt (xs @ ys) = (if xs = [] then head_opt ys else head_opt xs)"
  by (cases xs) simp_all

lemma head_opt_eq_None [simp]: "head_opt xs = None \<longleftrightarrow> xs = []"
  by (cases xs) simp_all

fun links :: "(nat \<Rightarrow> sudog) \<Rightarrow> nat option \<Rightarrow> nat list \<Rightarrow> bool" where
  "links s p [] = True"
| "links s p (x # xs) = (sg_prev (s x) = p \<and> sg_next (s x) = head_opt xs \<and> links s (Some x) xs)"

definition wq :: "(nat \<Rightarrow> sudog) \<Rightarrow> waitq \<Rightarrow> nat list \<Rightarrow> bool" where
  "wq s q xs \<longleftrightarrow> distinct xs \<and> wfirst q = head_opt xs \<and> wlast q = head_opt (rev xs) \<and> links s None xs"

text \<open>Two stores that differ in links only, and only on the sudogs of \<open>A\<close>.\<close>

definition relinked :: "nat set \<Rightarrow> (nat \<Rightarrow> sudog) \<Rightarrow> (nat \<Rightarrow> sudog) \<Rightarrow> bool" where
  "relinked A s s' \<longleftrightarrow>
    (\<forall>x. s' x = (s x)\<lparr>sg_next := sg_next (s' x), sg_prev := sg_prev (s' x)\<rparr>) \<and> (\<forall>x. x \<notin> A \<longrightarrow> s' x = s x)"

lemma links_cong:
  "(\<And>x. x \<in> set xs \<Longrightarrow> sg_next (s' x) = sg_next (s x) \<and> sg_prev (s' x) = sg_prev (s x)) \<Longrightarrow>
    links s' p xs = links s p xs"
  by (induction xs arbitrary: p) auto

lemma wq_cong:
  "(\<And>x. x \<in> set xs \<Longrightarrow> sg_next (s' x) = sg_next (s x) \<and> sg_prev (s' x) = sg_prev (s x)) \<Longrightarrow>
    wq s' q xs = wq s q xs"
  unfolding wq_def by (simp cong: links_cong)

lemma wq_frame: "relinked A s s' \<Longrightarrow> A \<inter> set xs = {} \<Longrightarrow> wq s' q xs = wq s q xs"
  by (rule wq_cong) (auto simp: relinked_def)

lemma relinked_data:
  assumes "relinked A s s'"
  shows "sg_g (s' x) = sg_g (s x)" "sg_elem (s' x) = sg_elem (s x)" "sg_isSelect (s' x) = sg_isSelect (s x)"
    "sg_success (s' x) = sg_success (s x)"
proof -
  have "s' x = (s x)\<lparr>sg_next := sg_next (s' x), sg_prev := sg_prev (s' x)\<rparr>" using assms by (simp add: relinked_def)
  then have "sg_g (s' x) = sg_g ((s x)\<lparr>sg_next := sg_next (s' x), sg_prev := sg_prev (s' x)\<rparr>)"
    "sg_elem (s' x) = sg_elem ((s x)\<lparr>sg_next := sg_next (s' x), sg_prev := sg_prev (s' x)\<rparr>)"
    "sg_isSelect (s' x) = sg_isSelect ((s x)\<lparr>sg_next := sg_next (s' x), sg_prev := sg_prev (s' x)\<rparr>)"
    "sg_success (s' x) = sg_success ((s x)\<lparr>sg_next := sg_next (s' x), sg_prev := sg_prev (s' x)\<rparr>)" by metis+
  then show "sg_g (s' x) = sg_g (s x)" "sg_elem (s' x) = sg_elem (s x)" "sg_isSelect (s' x) = sg_isSelect (s x)"
    "sg_success (s' x) = sg_success (s x)" by simp_all
qed

lemma relinked_out: "relinked A s s' \<Longrightarrow> x \<notin> A \<Longrightarrow> s' x = s x"
  by (simp add: relinked_def)

lemma relinked_refl [simp]: "relinked A s s"
  by (simp add: relinked_def)

lemma relinked_trans: "relinked A s s' \<Longrightarrow> relinked B s' s'' \<Longrightarrow> A \<subseteq> C \<Longrightarrow> B \<subseteq> C \<Longrightarrow> relinked C s s''"
proof -
  assume ab: "relinked A s s'" "relinked B s' s''" and c: "A \<subseteq> C" "B \<subseteq> C"
  have "s'' x = (s x)\<lparr>sg_next := sg_next (s'' x), sg_prev := sg_prev (s'' x)\<rparr>" for x
    using relinked_data [OF ab(1), of x] relinked_data [OF ab(2), of x] by (cases "s x"; cases "s' x"; cases "s'' x") simp
  moreover have "s'' x = s x" if "x \<notin> C" for x
    using relinked_out [OF ab(1), of x] relinked_out [OF ab(2), of x] that c by (metis subsetD)
  ultimately show ?thesis by (simp add: relinked_def)
qed

section \<open>Appending\<close>

lemma links_snoc:
  assumes "distinct (xs @ [x])" and "links s p xs"
    and "sg_prev (s' x) = (if xs = [] then p else Some (last xs))" and "sg_next (s' x) = None"
    and "xs \<noteq> [] \<Longrightarrow> sg_next (s' (last xs)) = Some x \<and> sg_prev (s' (last xs)) = sg_prev (s (last xs))"
    and "\<And>y. y \<in> set xs \<Longrightarrow> y \<noteq> last xs \<Longrightarrow> s' y = s y"
  shows "links s' p (xs @ [x])"
  using assms
proof (induction xs arbitrary: p)
  case (Cons y ys)
  show ?case
  proof (cases ys)
    case Nil
    then show ?thesis using Cons.prems by simp
  next
    case (Cons z zs)
    have y: "y \<noteq> last ys" using Cons.prems(1) Cons by (metis distinct.simps(2) distinct_append last_in_set list.distinct(1) append_Cons)
    have "links s' (Some y) (ys @ [x])"
      using Cons.prems Cons by (intro Cons.IH) (auto split: if_splits)
    moreover have "s' y = s y" using Cons.prems(6) y Cons by simp
    ultimately show ?thesis using Cons.prems(2) Cons by simp
  qed
qed simp

lemma enqueue_wq:
  assumes "wq s q xs" and "x \<notin> set xs"
  shows "\<exists>q' s'. enqueue x q s = (q', s') \<and> wq s' q' (xs @ [x]) \<and> relinked (insert x (set xs)) s s'"
proof (cases "xs = []")
  case True
  then show ?thesis using assms by (auto simp: enqueue_def wq_def upd_sg_def relinked_def Let_def)
next
  case False
  let ?l = "last xs"
  let ?s = "upd_sg ?l (sg_next_update (\<lambda>_. Some x)) (upd_sg x (sg_prev_update (\<lambda>_. Some ?l)) (upd_sg x (sg_next_update (\<lambda>_. None)) s))"
  have l: "wlast q = Some ?l" using assms(1) False by (simp add: wq_def head_opt_def last_rev hd_rev split: list.split)
  have xl: "x \<noteq> ?l" using assms(2) False by auto
  have "links ?s None (xs @ [x])"
    using assms False xl by (intro links_snoc [where s = s]) (auto simp: wq_def upd_sg_def)
  moreover have "relinked (insert x (set xs)) s ?s" using False by (auto simp: relinked_def upd_sg_def)
  moreover have "wfirst q = head_opt (xs @ [x])" using assms(1) False by (cases xs) (simp_all add: wq_def)
  moreover have "enqueue x q s = (q\<lparr>wlast := Some x\<rparr>, ?s)" using l by (simp add: enqueue_def)
  moreover have "distinct (xs @ [x])" using assms by (simp add: wq_def)
  ultimately show ?thesis by (simp add: wq_def)
qed

section \<open>Taking\<close>

definition lost :: "(nat \<Rightarrow> sudog) \<Rightarrow> (nat \<Rightarrow> gobj) \<Rightarrow> nat \<Rightarrow> bool" where
  "lost s gg x \<longleftrightarrow> sg_isSelect (s x) \<and> selectDone (gg (sg_g (s x))) \<noteq> 0"

definition unlinked :: "(nat \<Rightarrow> sudog) \<Rightarrow> nat \<Rightarrow> bool" where
  "unlinked s x \<longleftrightarrow> sg_next (s x) = None \<and> sg_prev (s x) = None"

text \<open>The goroutines after a waiter \<open>x\<close> is taken: a select marks its goroutine as done.\<close>

definition won :: "(nat \<Rightarrow> sudog) \<Rightarrow> nat \<Rightarrow> (nat \<Rightarrow> gobj) \<Rightarrow> nat \<Rightarrow> gobj" where
  "won s x gg = (if sg_isSelect (s x) then gg(sg_g (s x) := (gg (sg_g (s x)))\<lparr>selectDone := 1\<rparr>) else gg)"

text \<open>The removal of the first waiter.\<close>

definition unlink_first :: "nat \<Rightarrow> waitq \<Rightarrow> (nat \<Rightarrow> sudog) \<Rightarrow> waitq \<times> (nat \<Rightarrow> sudog)" where
  "unlink_first x q s =
    (case sg_next (s x) of
       None \<Rightarrow> (q\<lparr>wfirst := None, wlast := None\<rparr>, s)
     | Some y \<Rightarrow>
         (q\<lparr>wfirst := Some y\<rparr>,
          upd_sg x (sg_next_update (\<lambda>_. None)) (upd_sg y (sg_prev_update (\<lambda>_. None)) s)))"

lemma unlink_first:
  assumes "wq s q (x # xs)" and "unlink_first x q s = (q', s')"
  shows "wq s' q' xs" "unlinked s' x" "relinked (set (x # xs)) s s'"
proof -
  have "wq s' q' xs \<and> unlinked s' x \<and> relinked (set (x # xs)) s s'"
  proof (cases xs)
    case Nil
    then show ?thesis using assms by (auto simp: unlink_first_def wq_def unlinked_def)
  next
    case (Cons y ys)
    have s': "s' = upd_sg x (sg_next_update (\<lambda>_. None)) (upd_sg y (sg_prev_update (\<lambda>_. None)) s)" "q' = q\<lparr>wfirst := Some y\<rparr>"
      using assms Cons by (auto simp: unlink_first_def wq_def)
    have d: "x \<noteq> y" "x \<notin> set ys" "y \<notin> set ys" using assms(1) Cons by (auto simp: wq_def)
    have "links s' (Some y) ys = links s (Some y) ys"
      using d by (intro links_cong) (auto simp: s' upd_sg_def)
    then show ?thesis
      using assms(1) Cons d
      by (auto simp: s' wq_def unlinked_def relinked_def upd_sg_def)
  qed
  then show "wq s' q' xs" "unlinked s' x" "relinked (set (x # xs)) s s'" by blast+
qed

lemma dequeue_step:
  "dequeue q s gg =
    (case wfirst q of
       None \<Rightarrow> Some (None, q, s, gg)
     | Some x \<Rightarrow>
         (let (q', s') = unlink_first x q s
          in if lost s gg x then dequeue q' s' gg else Some (Some x, q', s', won s x gg)))"
proof (cases "wfirst q")
  case None
  then show ?thesis by (subst dequeue.simps) simp
next
  case (Some x)
  have d: "sg_isSelect (upd_sg x (sg_next_update (\<lambda>_. None)) (upd_sg y (sg_prev_update (\<lambda>_. None)) s) x) = sg_isSelect (s x)"
    "sg_g (upd_sg x (sg_next_update (\<lambda>_. None)) (upd_sg y (sg_prev_update (\<lambda>_. None)) s) x) = sg_g (s x)" for y
    by (simp_all add: upd_sg_def)
  show ?thesis
    using Some by (subst dequeue.simps)
      (auto simp: unlink_first_def lost_def won_def cas_selectDone_def d Let_def split: option.split)
qed

text \<open>Taking from a queue: the waiters before the first that is not lost are removed with it.\<close>

lemma dequeue_wq:
  assumes "wq s q xs"
  shows "\<exists>q' s'. relinked (set xs) s s' \<and> (\<forall>x \<in> set (takeWhile (lost s gg) xs). unlinked s' x) \<and>
    (case dropWhile (lost s gg) xs of
       [] \<Rightarrow> dequeue q s gg = Some (None, q', s', gg) \<and> wq s' q' []
     | x # ys \<Rightarrow> dequeue q s gg = Some (Some x, q', s', won s x gg) \<and> wq s' q' ys \<and> unlinked s' x)"
  using assms
proof (induction xs arbitrary: q s)
  case Nil
  then have "dequeue q s gg = Some (None, q, s, gg)" by (subst dequeue_step) (simp add: wq_def)
  then show ?case using Nil by (intro exI [of _ q] exI [of _ s]) simp
next
  case (Cons x xs)
  obtain q1 s1 where u: "unlink_first x q s = (q1, s1)" by fastforce
  note l = unlink_first [OF Cons.prems u]
  have f: "wfirst q = Some x" using Cons.prems by (simp add: wq_def)
  have d: "dequeue q s gg = (if lost s gg x then dequeue q1 s1 gg else Some (Some x, q1, s1, won s x gg))"
    using f u by (subst dequeue_step) simp
  have same: "lost s1 gg = lost s gg" "won s1 = won s"
    by (intro ext; simp add: lost_def won_def relinked_data [OF l(3)])+
  have x: "x \<notin> set xs" using Cons.prems by (simp add: wq_def)
  show ?case
  proof (cases "lost s gg x")
    case False
    then show ?thesis using d l by auto
  next
    case True
    obtain q' s' where i: "relinked (set xs) s1 s'" "\<forall>y \<in> set (takeWhile (lost s gg) xs). unlinked s' y"
      "case dropWhile (lost s gg) xs of
         [] \<Rightarrow> dequeue q1 s1 gg = Some (None, q', s', gg) \<and> wq s' q' []
       | x # ys \<Rightarrow> dequeue q1 s1 gg = Some (Some x, q', s', won s x gg) \<and> wq s' q' ys \<and> unlinked s' x"
      using Cons.IH [OF l(1)] unfolding same by blast
    have "relinked (set (x # xs)) s s'" by (rule relinked_trans [OF l(3) i(1)]) auto
    moreover have "unlinked s' x" using l(2) relinked_out [OF i(1) x] by (simp add: unlinked_def)
    ultimately show ?thesis
      using i d True
      by (intro exI [of _ q'] exI [of _ s']) (cases "dropWhile (lost s gg) xs"; simp del: dropWhile_eq_Nil_conv)
  qed
qed

text \<open>Without selects the first waiter is taken.\<close>

lemma dequeue_Nil: "wq s q [] \<Longrightarrow> dequeue q s gg = Some (None, q, s, gg)"
  by (subst dequeue_step) (simp add: wq_def)

lemma dequeue_Cons:
  assumes "wq s q (x # xs)" and "\<not> sg_isSelect (s x)"
  shows "\<exists>q' s'. dequeue q s gg = Some (Some x, q', s', gg) \<and> wq s' q' xs \<and> unlinked s' x \<and> relinked (set (x # xs)) s s'"
  using dequeue_wq [OF assms(1), of gg] assms(2) by (auto simp: lost_def won_def)

end
