(* ===== verification/Chan_Spec.thy ===== *)
theory Chan_Spec
  imports Chan_Queue "HOL-Library.Sublist"
begin

text \<open>
  The contract of a channel: a bounded queue with two lists of blocked goroutines, as the language describes
  it, and the transition systems of goroutines that use one channel, concrete and abstract.  A goroutine that
  does not wait may start any operation; one that was woken finishes its own.  The sudog and the operand cell
  of goroutine \<open>g\<close> have the address \<open>g\<close>.
\<close>

section \<open>Events\<close>

text \<open>
  What a goroutine observes of an operation: the arguments, the result, and for a receive the value found in
  its cell, if it has one.  The operations that blocked have a second event when they return.
\<close>

datatype 'v event =
    ESend nat 'v bool "bool chan_res"
  | ERecv nat bool bool "(bool \<times> bool) chan_res" "'v option"
  | EClose nat "unit chan_res"
  | EWokenSend nat "bool chan_res"
  | EWokenRecv nat "(bool \<times> bool) chan_res" "'v option"

fun selected :: "(bool \<times> bool) chan_res \<Rightarrow> bool" where
  "selected (Ret (b, _)) = b"
| "selected _ = False"

section \<open>The code as a transition system\<close>

datatype pc = PIdle | PSend | PRecv bool

type_synonym 'v sys = "'v world \<times> (nat \<Rightarrow> pc)"

definition dest :: "nat \<Rightarrow> bool \<Rightarrow> nat option" where
  "dest g want = (if want then Some g else None)"

definition observed :: "nat \<Rightarrow> bool \<Rightarrow> (bool \<times> bool) chan_res \<Rightarrow> 'v world \<Rightarrow> 'v option" where
  "observed g want r w = (if want \<and> selected r then Some (cells w g) else None)"

inductive cstep :: "'v \<Rightarrow> 'v sys \<Rightarrow> 'v event \<Rightarrow> 'v sys \<Rightarrow> bool" for zero :: 'v where
  "pc g = PIdle \<Longrightarrow> chansend False g g g block (w\<lparr>cells := (cells w)(g := v)\<rparr>) = Some (r, w') \<Longrightarrow>
    cstep zero (w, pc) (ESend g v block r) (w', if r = Parked then pc(g := PSend) else pc)"
| "pc g = PIdle \<Longrightarrow> chanrecv zero False g g (dest g want) block w = Some (r, w') \<Longrightarrow>
    cstep zero (w, pc) (ERecv g want block r (observed g want r w'))
      (w', if r = Parked then pc(g := PRecv want) else pc)"
| "pc g = PIdle \<Longrightarrow> closechan zero False w = Some (r, w') \<Longrightarrow> cstep zero (w, pc) (EClose g r) (w', pc)"
| "pc g = PSend \<Longrightarrow> status (gs w g) = Grunnable \<Longrightarrow> chansend_woken g g w = (r, w') \<Longrightarrow>
    cstep zero (w, pc) (EWokenSend g r) (w', pc(g := PIdle))"
| "pc g = PRecv want \<Longrightarrow> status (gs w g) = Grunnable \<Longrightarrow> chanrecv_woken g g w = (r, w') \<Longrightarrow>
    cstep zero (w, pc) (EWokenRecv g r (observed g want r w')) (w', pc(g := PIdle))"

section \<open>Abstract channels\<close>

text \<open>
  The state of a goroutine: at work, blocked with the value it sends, blocked with whether it wants the value,
  or woken with the outcome.
\<close>

datatype 'v gst = Idle | Sending 'v | Receiving bool | Sent bool | Got bool "'v option"

record 'v achan =
  acap :: nat
  aclosed :: bool
  abuf :: "'v list"
  asend :: "(nat \<times> 'v) list"
  arecv :: "(nat \<times> bool) list"
  ast :: "nat \<Rightarrow> 'v gst"

definition contents :: "'v achan \<Rightarrow> 'v list" where
  "contents a = abuf a @ map snd (asend a)"

definition spec_send :: "nat \<Rightarrow> 'v \<Rightarrow> bool \<Rightarrow> 'v achan \<Rightarrow> bool chan_res \<times> 'v achan" where
  "spec_send g v block a =
    (if aclosed a then (Panics ''send on closed channel'', a)
     else case arecv a of
         (x, want) # rs \<Rightarrow> (Ret True, a\<lparr>arecv := rs, ast := (ast a)(x := Got want (Some v))\<rparr>)
       | [] \<Rightarrow>
           if length (abuf a) < acap a then (Ret True, a\<lparr>abuf := abuf a @ [v]\<rparr>)
           else if block then (Parked, a\<lparr>asend := asend a @ [(g, v)], ast := (ast a)(g := Sending v)\<rparr>)
           else (Ret False, a))"

text \<open>Taking the first value moves the value of the first blocked sender into the buffer.\<close>

definition take_first :: "'v achan \<Rightarrow> 'v achan" where
  "take_first a =
    (case asend a of
       [] \<Rightarrow> a\<lparr>abuf := tl (abuf a)\<rparr>
     | (x, u) # ss \<Rightarrow> a\<lparr>abuf := tl (abuf a @ [u]), asend := ss, ast := (ast a)(x := Sent True)\<rparr>)"

definition spec_recv ::
    "'v \<Rightarrow> nat \<Rightarrow> bool \<Rightarrow> bool \<Rightarrow> 'v achan \<Rightarrow> ((bool \<times> bool) chan_res \<times> 'v option) \<times> 'v achan" where
  "spec_recv zero g want block a =
    (case contents a of
       v # _ \<Rightarrow> ((Ret (True, True), if want then Some v else None), take_first a)
     | [] \<Rightarrow>
         if aclosed a then ((Ret (True, False), if want then Some zero else None), a)
         else if block
         then ((Parked, None), a\<lparr>arecv := arecv a @ [(g, want)], ast := (ast a)(g := Receiving want)\<rparr>)
         else ((Ret (False, False), None), a))"

text \<open>Closing drops the values of the blocked senders, who will panic; the blocked receivers get the zero value.\<close>

definition spec_close :: "'v achan \<Rightarrow> unit chan_res \<times> 'v achan" where
  "spec_close a =
    (if aclosed a then (Panics ''close of closed channel'', a)
     else (Ret (), a\<lparr>aclosed := True, asend := [], arecv := [],
       ast := (\<lambda>g. case map_of (arecv a) g of
                     Some want \<Rightarrow> Got want None
                   | None \<Rightarrow> if g \<in> fst ` set (asend a) then Sent False else ast a g)\<rparr>))"

definition send_result :: "bool \<Rightarrow> bool chan_res" where
  "send_result ok = (if ok then Ret True else Panics ''send on closed channel'')"

definition recv_value :: "'v \<Rightarrow> bool \<Rightarrow> 'v option \<Rightarrow> 'v option" where
  "recv_value zero want v = (if want then Some (case v of None \<Rightarrow> zero | Some v \<Rightarrow> v) else None)"

inductive astep :: "'v \<Rightarrow> 'v achan \<Rightarrow> 'v event \<Rightarrow> 'v achan \<Rightarrow> bool" for zero :: 'v where
  "ast a g = Idle \<Longrightarrow> spec_send g v block a = (r, a') \<Longrightarrow> astep zero a (ESend g v block r) a'"
| "ast a g = Idle \<Longrightarrow> spec_recv zero g want block a = ((r, v), a') \<Longrightarrow> astep zero a (ERecv g want block r v) a'"
| "ast a g = Idle \<Longrightarrow> spec_close a = (r, a') \<Longrightarrow> astep zero a (EClose g r) a'"
| "ast a g = Sent ok \<Longrightarrow> astep zero a (EWokenSend g (send_result ok)) (a\<lparr>ast := (ast a)(g := Idle)\<rparr>)"
| "ast a g = Got want v \<Longrightarrow>
    astep zero a (EWokenRecv g (Ret (True, v \<noteq> None)) (recv_value zero want v)) (a\<lparr>ast := (ast a)(g := Idle)\<rparr>)"

inductive_cases cstepE [consumes 1]: "cstep zero (w, pc) e s'"
inductive_cases astepE [consumes 1]: "astep zero a e a'"

text \<open>The invariant of the abstract channel: the three sentences at the head of the file, and the bookkeeping.\<close>

definition ainv :: "'v achan \<Rightarrow> bool" where
  "ainv a \<longleftrightarrow>
    distinct (map fst (asend a)) \<and> distinct (map fst (arecv a)) \<and>
    (\<forall>g v. ast a g = Sending v \<longleftrightarrow> (g, v) \<in> set (asend a)) \<and>
    (\<forall>g want. ast a g = Receiving want \<longleftrightarrow> (g, want) \<in> set (arecv a)) \<and>
    length (abuf a) \<le> acap a \<and>
    (asend a \<noteq> [] \<longrightarrow> length (abuf a) = acap a \<and> arecv a = []) \<and>
    (arecv a \<noteq> [] \<longrightarrow> abuf a = []) \<and>
    (aclosed a \<longrightarrow> asend a = [] \<and> arecv a = []) \<and>
    (\<forall>g. ast a g = Sent False \<longrightarrow> aclosed a)"

section \<open>The abstraction\<close>

text \<open>The ring buffer: the values from \<open>recvx\<close> on; the other slots are cleared.\<close>

definition ring :: "'v \<Rightarrow> 'v hchan \<Rightarrow> 'v list \<Rightarrow> bool" where
  "ring zero c xs \<longleftrightarrow>
    length (chbuf c) = dataqsiz c \<and> qcount c = length xs \<and> length xs \<le> dataqsiz c \<and>
    (dataqsiz c > 0 \<longrightarrow> recvx c < dataqsiz c \<and> sendx c = (recvx c + length xs) mod dataqsiz c) \<and>
    rotate (recvx c) (chbuf c) = xs @ replicate (dataqsiz c - length xs) zero"

text \<open>A sudog that is in no queue.\<close>

definition clean :: "sudog \<Rightarrow> bool" where
  "clean s \<longleftrightarrow> sg_next s = None \<and> sg_prev s = None \<and> sg_elem s = None \<and> \<not> sg_isSelect s"

text \<open>What the abstract state of goroutine \<open>x\<close> says of its sudog, its descriptor, its cell and its control.\<close>

fun gor :: "'v \<Rightarrow> nat \<Rightarrow> sudog \<Rightarrow> gobj \<Rightarrow> 'v \<Rightarrow> pc \<Rightarrow> 'v gst \<Rightarrow> bool" where
  "gor zero x s g v p Idle = (p = PIdle \<and> status g = Grunning \<and> clean s)"
| "gor zero x s g v p (Sending u) =
    (p = PSend \<and> status g = Gwaiting \<and> waiting g = Some x \<and> sg_g s = x \<and> sg_elem s = Some x \<and>
     \<not> sg_isSelect s \<and> v = u)"
| "gor zero x s g v p (Receiving want) =
    (p = PRecv want \<and> status g = Gwaiting \<and> waiting g = Some x \<and> sg_g s = x \<and> sg_elem s = dest x want \<and>
     \<not> sg_isSelect s)"
| "gor zero x s g v p (Sent ok) =
    (p = PSend \<and> status g = Grunnable \<and> waiting g = Some x \<and> clean s \<and> sg_success s = ok)"
| "gor zero x s g v p (Got want u) =
    (p = PRecv want \<and> status g = Grunnable \<and> waiting g = Some x \<and> clean s \<and> sg_success s = (u \<noteq> None) \<and>
     (want \<longrightarrow> v = (case u of None \<Rightarrow> zero | Some u \<Rightarrow> u)))"

definition rel :: "'v \<Rightarrow> 'v sys \<Rightarrow> 'v achan \<Rightarrow> bool" where
  "rel zero wp a \<longleftrightarrow> (case wp of (w, pc) \<Rightarrow>
    ainv a \<and> dataqsiz (ch w) = acap a \<and> (closed (ch w) \<noteq> 0 \<longleftrightarrow> aclosed a) \<and>
    ring zero (ch w) (abuf a) \<and>
    wq (sgs w) (sendq (ch w)) (map fst (asend a)) \<and> wq (sgs w) (recvq (ch w)) (map fst (arecv a)) \<and>
    (\<forall>x. gor zero x (sgs w x) (gs w x) (cells w x) (pc x) (ast a x)))"

end
