(* ===== verification/Chan_Sim.thy ===== *)
theory Chan_Sim
  imports Chan_Spec
begin

text \<open>
  The operations of a channel implement the contract: whatever an operation does to the ring buffer, the linked
  lists, the sudogs and the cells is what \<open>Chan_Spec\<close> says of the abstract channel, and it neither faults nor
  throws.
\<close>

section \<open>The ring buffer\<close>

lemma mod_add_inj:
  fixes i k n r :: nat
  assumes "i < n" and "k < n" and "(r + i) mod n = (r + k) mod n"
  shows "i = k"
proof (rule ccontr)
  assume "i \<noteq> k"
  then consider "i < k" | "k < i" by linarith
  then show False
  proof cases
    case 1
    have "n dvd k - i" using mod_eq_dvd_iff_nat [of "r + i" "r + k" n] 1 assms(3) by simp
    then show False using 1 assms(2) by (auto dest: dvd_imp_le)
  next
    case 2
    have "n dvd i - k" using mod_eq_dvd_iff_nat [of "r + k" "r + i" n] 2 assms(3) by simp
    then show False using 2 assms(1) by (auto dest: dvd_imp_le)
  qed
qed

lemma rotate_update:
  assumes "k < length xs"
  shows "rotate r (xs[(r + k) mod length xs := v]) = (rotate r xs)[k := v]"
proof -
  have "0 < length xs" using assms by linarith
  then have "(r + k) mod length xs < length xs" by (rule mod_less_divisor)
  then show ?thesis
    using assms by (intro nth_equalityI) (auto simp: nth_rotate nth_list_update dest: mod_add_inj)
qed

lemma rotate_next: "rotate (Suc r mod length xs) xs = rotate1 (rotate r xs)"
  by (metis rotate_conv_mod rotate_Suc)

lemma next_index_mod: "i < dataqsiz c \<Longrightarrow> next_index c i = Suc i mod dataqsiz c"
  by (simp add: next_index_def mod_Suc)

lemma ring_push:
  assumes "ring zero c xs" and "length xs < dataqsiz c"
  shows "sendx c < length (chbuf c)"
    "ring zero (c\<lparr>chbuf := (chbuf c)[sendx c := v], sendx := next_index c (sendx c), qcount := Suc (qcount c)\<rparr>) (xs @ [v])"
proof -
  have n: "length (chbuf c) = dataqsiz c" and s: "sendx c = (recvx c + length xs) mod dataqsiz c"
    and r: "rotate (recvx c) (chbuf c) = xs @ replicate (dataqsiz c - length xs) zero" and p: "0 < dataqsiz c"
    using assms by (auto simp: ring_def)
  show sx: "sendx c < length (chbuf c)" using n s p by simp
  have "rotate (recvx c) ((chbuf c)[sendx c := v]) = (rotate (recvx c) (chbuf c))[length xs := v]"
    using rotate_update [of "length xs" "chbuf c"] assms(2) n s by simp
  also have "\<dots> = xs @ [v] @ replicate (dataqsiz c - Suc (length xs)) zero"
    using assms(2) by (simp add: r Suc_diff_Suc [symmetric] list_update_append)
  finally have "rotate (recvx c) ((chbuf c)[sendx c := v]) = (xs @ [v]) @ replicate (dataqsiz c - Suc (length xs)) zero" by simp
  moreover have "next_index c (sendx c) = (recvx c + Suc (length xs)) mod dataqsiz c"
    using next_index_mod [of "sendx c" c] sx n s by (simp add: mod_Suc_eq)
  ultimately show "ring zero (c\<lparr>chbuf := (chbuf c)[sendx c := v], sendx := next_index c (sendx c), qcount := Suc (qcount c)\<rparr>) (xs @ [v])"
    using assms by (simp add: ring_def)
qed

text \<open>Overwriting the first slot and stepping on.\<close>

lemma ring_first:
  assumes "ring zero c (x # xs)"
  shows "recvx c < length (chbuf c)" "chbuf c ! recvx c = x"
    "rotate (next_index c (recvx c)) ((chbuf c)[recvx c := u]) = xs @ replicate (dataqsiz c - Suc (length xs)) zero @ [u]"
proof -
  have n: "length (chbuf c) = dataqsiz c" and p: "recvx c < dataqsiz c"
    and r: "rotate (recvx c) (chbuf c) = x # xs @ replicate (dataqsiz c - Suc (length xs)) zero"
    using assms by (auto simp: ring_def)
  then show "recvx c < length (chbuf c)" by simp
  have "rotate (recvx c) (chbuf c) ! 0 = chbuf c ! recvx c" using n p by (subst nth_rotate) auto
  then show "chbuf c ! recvx c = x" by (simp add: r)
  have "rotate (next_index c (recvx c)) ((chbuf c)[recvx c := u]) = rotate1 (rotate (recvx c) ((chbuf c)[recvx c := u]))"
    using rotate_next [of "recvx c" "(chbuf c)[recvx c := u]"] n p by (simp add: next_index_mod)
  also have "rotate (recvx c) ((chbuf c)[recvx c := u]) = (rotate (recvx c) (chbuf c))[0 := u]"
    using rotate_update [of 0 "chbuf c" "recvx c" u] n p by simp
  finally show "rotate (next_index c (recvx c)) ((chbuf c)[recvx c := u]) = xs @ replicate (dataqsiz c - Suc (length xs)) zero @ [u]"
    by (simp add: r)
qed

lemma next_index_lt: "i < dataqsiz c \<Longrightarrow> next_index c i < dataqsiz c"
  by (simp add: next_index_def)

lemma ring_pop:
  assumes "ring zero c (x # xs)"
  shows "ring zero (c\<lparr>chbuf := (chbuf c)[recvx c := zero], recvx := next_index c (recvx c), qcount := qcount c - 1\<rparr>) xs"
proof -
  have p: "recvx c < dataqsiz c" "length xs < dataqsiz c" "sendx c = (recvx c + Suc (length xs)) mod dataqsiz c"
    using assms by (auto simp: ring_def)
  have "dataqsiz c - length xs = Suc (dataqsiz c - Suc (length xs))" using p(2) by simp
  then have "rotate (next_index c (recvx c)) ((chbuf c)[recvx c := zero]) = xs @ replicate (dataqsiz c - length xs) zero"
    using ring_first(3) [OF assms, of zero] by (simp add: replicate_append_same)
  moreover have "(next_index c (recvx c) + length xs) mod dataqsiz c = sendx c"
    using p by (simp add: next_index_mod mod_add_left_eq)
  ultimately show ?thesis using assms next_index_lt [OF p(1)] by (simp add: ring_def)
qed

lemma ring_shift:
  assumes "ring zero c (x # xs)" and "Suc (length xs) = dataqsiz c"
  shows "ring zero (c\<lparr>chbuf := (chbuf c)[recvx c := u], recvx := next_index c (recvx c), sendx := next_index c (recvx c)\<rparr>) (xs @ [u])"
proof -
  have p: "recvx c < dataqsiz c" using assms by (auto simp: ring_def)
  show ?thesis using assms next_index_lt [OF p] ring_first(3) [OF assms(1), of u] by (simp add: ring_def)
qed

lemma ring_unchanged: "ring zero (recvq_update f c) xs = ring zero c xs" "ring zero (sendq_update f c) xs = ring zero c xs"
  "ring zero (closed_update h c) xs = ring zero c xs"
  by (simp_all add: ring_def)

section \<open>Parts of the relation\<close>

lemma relI:
  assumes "ainv a" "dataqsiz (ch w) = acap a" "closed (ch w) \<noteq> 0 \<longleftrightarrow> aclosed a" "ring zero (ch w) (abuf a)"
    "wq (sgs w) (sendq (ch w)) (map fst (asend a))" "wq (sgs w) (recvq (ch w)) (map fst (arecv a))"
    "\<And>x. gor zero x (sgs w x) (gs w x) (cells w x) (pc x) (ast a x)"
  shows "rel zero (w, pc) a"
  using assms by (simp add: rel_def)

lemma relD:
  assumes "rel zero (w, pc) a"
  shows "ainv a" "dataqsiz (ch w) = acap a" "closed (ch w) \<noteq> 0 \<longleftrightarrow> aclosed a" "ring zero (ch w) (abuf a)"
    "wq (sgs w) (sendq (ch w)) (map fst (asend a))" "wq (sgs w) (recvq (ch w)) (map fst (arecv a))"
    "\<And>x. gor zero x (sgs w x) (gs w x) (cells w x) (pc x) (ast a x)"
  using assms by (simp_all add: rel_def)

lemma ainvD:
  assumes "ainv a"
  shows "distinct (map fst (asend a))" "distinct (map fst (arecv a))"
    "ast a g = Sending v \<longleftrightarrow> (g, v) \<in> set (asend a)" "ast a g = Receiving want \<longleftrightarrow> (g, want) \<in> set (arecv a)"
    "length (abuf a) \<le> acap a" "asend a \<noteq> [] \<Longrightarrow> length (abuf a) = acap a \<and> arecv a = []"
    "arecv a \<noteq> [] \<Longrightarrow> abuf a = [] \<and> asend a = []" "aclosed a \<Longrightarrow> asend a = [] \<and> arecv a = []"
    "ast a g = Sent False \<Longrightarrow> aclosed a"
  using assms by (auto simp: ainv_def)

text \<open>The links of a blocked goroutine's sudog are no part of its own state.\<close>

definition blocked :: "'v gst \<Rightarrow> bool" where
  "blocked st \<longleftrightarrow> (case st of Sending _ \<Rightarrow> True | Receiving _ \<Rightarrow> True | _ \<Rightarrow> False)"

lemma gor_relinked:
  assumes "relinked A s s'" and "x \<in> A \<Longrightarrow> blocked st"
  shows "gor zero x (s' x) g v p st = gor zero x (s x) g v p st"
proof (cases "x \<in> A")
  case False
  then show ?thesis using relinked_out [OF assms(1)] by simp
next
  case True
  then show ?thesis using assms(2) relinked_data [OF assms(1), of x] by (cases st) (auto simp: blocked_def)
qed

lemma blocked_waiters:
  assumes "ainv a" and "x \<in> set (map fst (asend a)) \<or> x \<in> set (map fst (arecv a))"
  shows "blocked (ast a x)"
  using assms ainvD(3,4) [OF assms(1)] by (force simp: blocked_def)

lemma idle_not_waiting:
  assumes "ainv a" and "\<not> blocked (ast a x)"
  shows "x \<notin> set (map fst (asend a))" "x \<notin> set (map fst (arecv a))"
  using assms blocked_waiters by blast+

text \<open>An operand cell of a goroutine at work may change.\<close>

lemma rel_cell:
  assumes "rel zero (w, pc) a" and "ast a g = Idle"
  shows "rel zero (w\<lparr>cells := (cells w)(g := v)\<rparr>, pc) a"
  using relD(7) [OF assms(1), of g] assms by (auto simp: rel_def)

section \<open>Waking\<close>

lemma wake_eq:
  assumes "sg_g (sgs w x) = x"
  shows "wake x b w = w\<lparr>sgs := (sgs w)(x := (sgs w x)\<lparr>sg_success := b\<rparr>),
    gs := (gs w)(x := (gs w x)\<lparr>param := Some x, status := Grunnable\<rparr>)\<rparr>"
  using assms by (simp add: wake_def upd_g_def upd_sg_def goready_def Let_def)

lemma take_waiter:
  assumes "wq (sgs w) q (x # xs)" and "\<not> sg_isSelect (sgs w x)"
  obtains q' s' where "dequeue q (sgs w) (gs w) = Some (Some x, q', s', gs w)" "wq s' q' xs" "unlinked s' x"
    "relinked (set (x # xs)) (sgs w) s'"
  using dequeue_Cons [OF assms] by blast

section \<open>Sending\<close>

lemma ainv_send:
  assumes "ainv a" and "ast a g = Idle"
  shows "ainv (snd (spec_send g v block a))"
proof -
  note A = ainvD [OF assms(1)]
  have n: "g \<notin> fst ` set (asend a)" "g \<notin> fst ` set (arecv a)"
    using idle_not_waiting [OF assms(1), of g] assms(2) by (simp_all add: blocked_def)
  consider "aclosed a" | y rs where "\<not> aclosed a" "arecv a = y # rs"
    | "\<not> aclosed a" "arecv a = []" "length (abuf a) < acap a" | "\<not> aclosed a" "arecv a = []" "length (abuf a) = acap a"
    using A(5) by (cases "arecv a"; cases "aclosed a"; fastforce)
  then show ?thesis
  proof cases
    case 1
    then show ?thesis using assms by (simp add: spec_send_def)
  next
    case 2
    then show ?thesis using assms A(7) by (cases y) (force simp: spec_send_def ainv_def)
  next
    case 3
    then have "asend a = []" using A(6) by auto
    then show ?thesis using assms 3 by (simp add: spec_send_def ainv_def)
  next
    case 4
    then show ?thesis using assms n by (force simp: spec_send_def ainv_def)
  qed
qed

text \<open>The value goes to the first waiting receiver.\<close>

lemma send_receiver:
  assumes R: "rel zero (w, pc) a" and g: "cells w g = v" "ast a g = Idle" and c: "\<not> aclosed a" and q: "arecv a = (x, want) # rs"
  obtains w1 where "recvq_dequeue w = Some (Some x, w1)"
    "rel zero (send x g w1, pc) (a\<lparr>arecv := rs, ast := (ast a)(x := Got want (Some v))\<rparr>)"
proof -
  note D = relD [OF R] and A = ainvD [OF relD(1) [OF R]]
  have st: "ast a x = Receiving want" using A(4) q by simp
  have x: "gor zero x (sgs w x) (gs w x) (cells w x) (pc x) (Receiving want)" using D(7) [of x] st by simp
  have gx: "g \<noteq> x" using st g by auto
  have W: "wq (sgs w) (recvq (ch w)) (x # map fst rs)" using D(6) q by simp
  obtain q' s' where d: "dequeue (recvq (ch w)) (sgs w) (gs w) = Some (Some x, q', s', gs w)" and q': "wq s' q' (map fst rs)"
    and u: "unlinked s' x" and rl: "relinked (set (x # map fst rs)) (sgs w) s'"
    using take_waiter [OF W] x by auto
  let ?w1 = "w\<lparr>ch := (ch w)\<lparr>recvq := q'\<rparr>, sgs := s', gs := gs w\<rparr>"
  let ?s = "s'(x := (s' x)\<lparr>sg_elem := None, sg_success := True\<rparr>)"
  let ?a = "a\<lparr>arecv := rs, ast := (ast a)(x := Got want (Some v))\<rparr>"
  let ?w2 = "?w1\<lparr>cells := (if want then (cells w)(x := v) else cells w), sgs := ?s,
    gs := (gs w)(x := (gs w x)\<lparr>param := Some x, status := Grunnable\<rparr>)\<rparr>"
  have x': "sg_g (s' x) = x" "sg_elem (s' x) = dest x want" "\<not> sg_isSelect (s' x)"
    using x relinked_data [OF rl, of x] by simp_all
  have send: "send x g ?w1 = ?w2"
    using x' g gx by (auto simp: send_def wake_eq dest_def sendDirect_def upd_sg_def Let_def fun_eq_iff)
  have ai: "ainv ?a" using ainv_send [OF D(1) g(2), of v True] q c by (simp add: spec_send_def)
  have rest: "asend a = []" using A(7) q by simp
  have "rel zero (?w2, pc) ?a"
  proof (rule relI [OF ai])
    show "ring zero (ch ?w2) (abuf ?a)" using D(4) by (simp add: ring_unchanged)
    show "wq (sgs ?w2) (sendq (ch ?w2)) (map fst (asend ?a))" using D(5) rest by (simp add: wq_def)
    show "wq (sgs ?w2) (recvq (ch ?w2)) (map fst (arecv ?a))"
      using q' wq_cong [of "map fst rs" ?s s' q'] by simp
    fix y
    show "gor zero y (sgs ?w2 y) (gs ?w2 y) (cells ?w2 y) (pc y) (ast ?a y)"
    proof (cases "y = x")
      case True
      then show ?thesis using x x' u by (simp add: clean_def unlinked_def)
    next
      case False
      have "gor zero y (s' y) (gs w y) (cells w y) (pc y) (ast a y)"
        using gor_relinked [OF rl, of y "ast a y"] blocked_waiters [OF D(1), of y] q D(7) [of y] by auto
      then show ?thesis using False by simp
    qed
  qed (use D in simp_all)
  moreover have "recvq_dequeue w = Some (Some x, ?w1)" using d by (simp add: recvq_dequeue_def)
  ultimately show ?thesis using that send by simp
qed

text \<open>The value goes to the buffer.\<close>

lemma send_buffer:
  assumes R: "rel zero (w, pc) a" and g: "ast a g = Idle" and c: "\<not> aclosed a" and q: "arecv a = []"
    and room: "length (abuf a) < acap a"
  shows "slice_set (chbuf (ch w)) (sendx (ch w)) v = Some ((chbuf (ch w))[sendx (ch w) := v])"
    "rel zero (w\<lparr>ch := (ch w)\<lparr>chbuf := (chbuf (ch w))[sendx (ch w) := v], sendx := next_index (ch w) (sendx (ch w)),
      qcount := qcount (ch w) + 1\<rparr>\<rparr>, pc) (a\<lparr>abuf := abuf a @ [v]\<rparr>)"
proof -
  note D = relD [OF R]
  have r: "length (abuf a) < dataqsiz (ch w)" using room D(2) by simp
  note P = ring_push(1) [OF D(4) r] ring_push(2) [OF D(4) r, of v]
  show "slice_set (chbuf (ch w)) (sendx (ch w)) v = Some ((chbuf (ch w))[sendx (ch w) := v])" using P(1) by simp
  have ai: "ainv (a\<lparr>abuf := abuf a @ [v]\<rparr>)" using ainv_send [OF D(1) g, of v True] q c room by (simp add: spec_send_def)
  show "rel zero (w\<lparr>ch := (ch w)\<lparr>chbuf := (chbuf (ch w))[sendx (ch w) := v], sendx := next_index (ch w) (sendx (ch w)),
      qcount := qcount (ch w) + 1\<rparr>\<rparr>, pc) (a\<lparr>abuf := abuf a @ [v]\<rparr>)"
    by (rule relI [OF ai]) (use D P(2) in simp_all)
qed

text \<open>A goroutine joins one of the queues and parks.\<close>

lemma join_queue:
  assumes R: "rel zero (w, pc) a" and g: "ast a g = Idle" and q: "wq (sgs w) q xs" and x: "\<And>x. x \<in> set xs \<Longrightarrow> blocked (ast a x)"
  obtains q' s' where "enqueue g q ((sgs w)(g := init_sudog g ep (sgs w g))) = (q', s')"
    "wq s' q' (xs @ [g])" "relinked (insert g (set xs)) ((sgs w)(g := init_sudog g ep (sgs w g))) s'"
proof -
  have n: "g \<notin> set xs" using x [of g] g by (auto simp: blocked_def)
  have "wq ((sgs w)(g := init_sudog g ep (sgs w g))) q xs" using q n by (subst wq_cong [where s = "sgs w"]) auto
  from enqueue_wq [OF this n] show ?thesis using that by blast
qed

lemma send_park:
  assumes R: "rel zero (w, pc) a" and g: "cells w g = v" "ast a g = Idle" and c: "\<not> aclosed a" and q: "arecv a = []"
    and full: "length (abuf a) = acap a"
    and e: "enqueue g (sendq (ch w)) ((sgs w)(g := init_sudog g (Some g) (sgs w g))) = (q', s')"
  shows "rel zero (park g g (w\<lparr>ch := (ch w)\<lparr>sendq := q'\<rparr>, sgs := s'\<rparr>), pc(g := PSend))
    (a\<lparr>asend := asend a @ [(g, v)], ast := (ast a)(g := Sending v)\<rparr>)" (is "rel zero (?w, ?pc) ?a")
proof -
  note D = relD [OF R] and A = ainvD [OF relD(1) [OF R]]
  have W: "wq s' q' (map fst (asend a) @ [g])"
    and rl: "relinked (insert g (set (map fst (asend a)))) ((sgs w)(g := init_sudog g (Some g) (sgs w g))) s'"
    using join_queue [OF R g(2) D(5), of "Some g"] blocked_waiters [OF D(1)] e by auto
  have ai: "ainv ?a" using ainv_send [OF D(1) g(2), of v True] q c full by (simp add: spec_send_def)
  have gg: "gor zero g (sgs w g) (gs w g) (cells w g) (pc g) Idle" using D(7) [of g] g by simp
  show ?thesis
  proof (rule relI [OF ai])
    show "ring zero (ch ?w) (abuf ?a)" using D(4) by (simp add: park_def upd_g_def ring_unchanged)
    show "wq (sgs ?w) (sendq (ch ?w)) (map fst (asend ?a))" using W by (simp add: park_def upd_g_def)
    show "wq (sgs ?w) (recvq (ch ?w)) (map fst (arecv ?a))" using D(6) q by (simp add: park_def upd_g_def wq_def)
    fix y
    show "gor zero y (sgs ?w y) (gs ?w y) (cells ?w y) (?pc y) (ast ?a y)"
    proof (cases "y = g")
      case True
      then show ?thesis
        using gg relinked_data [OF rl, of g] g by (simp add: park_def upd_g_def init_sudog_def)
    next
      case False
      have "gor zero y (s' y) (gs w y) (cells w y) (pc y) (ast a y) = gor zero y (sgs w y) (gs w y) (cells w y) (pc y) (ast a y)"
        using gor_relinked [OF rl, of y "ast a y"] blocked_waiters [OF D(1), of y] False by auto
      then show ?thesis using False D(7) [of y] by (simp add: park_def upd_g_def)
    qed
  qed (use D in \<open>simp_all add: park_def upd_g_def\<close>)
qed

lemma full_iff:
  assumes "rel zero (w, pc) a"
  shows "full (ch w) \<longleftrightarrow> (if acap a = 0 then arecv a = [] else length (abuf a) = acap a)"
  using relD [OF assms] by (auto simp: full_def wq_def ring_def)

lemma recvq_dequeue_empty: "wq (sgs w) (recvq (ch w)) [] \<Longrightarrow> recvq_dequeue w = Some (None, w)"
  by (simp add: recvq_dequeue_def dequeue_Nil)

lemma sendq_dequeue_empty: "wq (sgs w) (sendq (ch w)) [] \<Longrightarrow> sendq_dequeue w = Some (None, w)"
  by (simp add: sendq_dequeue_def dequeue_Nil)

lemma idle_acquires: "rel zero (w, pc) a \<Longrightarrow> ast a g = Idle \<Longrightarrow> acquireSudog g w = None"
  using relD(7) [of zero w pc a g] by (simp add: acquireSudog_def clean_def)

lemma send_refines_cell:
  assumes R: "rel zero (w, pc) a" and g: "cells w g = v" "ast a g = Idle"
  shows "\<exists>w'. chansend False g g g block w = Some (fst (spec_send g v block a), w') \<and>
    rel zero (w', if fst (spec_send g v block a) = Parked then pc(g := PSend) else pc) (snd (spec_send g v block a))"
proof -
  note D = relD [OF R] and A = ainvD [OF relD(1) [OF R]]
  have fast: "arecv a = [] \<and> \<not> length (abuf a) < acap a" if "full (ch w)"
    using that A(5,7) by (cases "arecv a"; cases "abuf a") (auto simp: full_iff [OF R] split: if_splits)
  have qc: "qcount (ch w) = length (abuf a)" using D(4) by (simp add: ring_def)
  consider "aclosed a" | "\<not> aclosed a" "\<not> block" "full (ch w)"
    | x want rs where "\<not> aclosed a" "block \<or> \<not> full (ch w)" "arecv a = (x, want) # rs"
    | "\<not> aclosed a" "block \<or> \<not> full (ch w)" "arecv a = []" "length (abuf a) < acap a"
    | "\<not> aclosed a" "block \<or> \<not> full (ch w)" "arecv a = []" "length (abuf a) = acap a"
    using A(5) by (cases "arecv a") fastforce+
  then show ?thesis
  proof cases
    case 1
    then show ?thesis using R D(3) by (auto simp: chansend_def spec_send_def)
  next
    case 2
    then show ?thesis using R D(3) fast by (auto simp: chansend_def spec_send_def)
  next
    case 3
    obtain w1 where "recvq_dequeue w = Some (Some x, w1)"
      "rel zero (send x g w1, pc) (a\<lparr>arecv := rs, ast := (ast a)(x := Got want (Some v))\<rparr>)"
      using send_receiver [OF R g 3(1) 3(3)] by blast
    then show ?thesis using 3 D(3) by (auto simp: chansend_def spec_send_def)
  next
    case 4
    have "recvq_dequeue w = Some (None, w)" using D(6) 4 by (intro recvq_dequeue_empty) simp
    then show ?thesis
      using 4 D(2,3) qc send_buffer [OF R g(2) 4(1,3,4), of v] g(1) by (auto simp: chansend_def spec_send_def Let_def)
  next
    case 5
    have dq: "recvq_dequeue w = Some (None, w)" using D(6) 5 by (intro recvq_dequeue_empty) simp
    obtain q' s' where e: "enqueue g (sendq (ch w)) ((sgs w)(g := init_sudog g (Some g) (sgs w g))) = (q', s')" by fastforce
    have "chansend False g g g block w =
        (if block then Some (Parked, park g g (w\<lparr>ch := (ch w)\<lparr>sendq := q'\<rparr>, sgs := s'\<rparr>)) else Some (Ret False, w))"
      using 5 D(2,3) qc dq e idle_acquires [OF R g(2)] by (auto simp: chansend_def upd_sg_def)
    then show ?thesis
      using 5 R send_park [OF R g 5(1,3,4) e] by (auto simp: spec_send_def)
  qed
qed

lemma send_refines:
  assumes R: "rel zero (w, pc) a" and g: "ast a g = Idle" and s: "spec_send g v block a = (r, a')"
  shows "\<exists>w'. chansend False g g g block (w\<lparr>cells := (cells w)(g := v)\<rparr>) = Some (r, w') \<and>
    rel zero (w', if r = Parked then pc(g := PSend) else pc) a'"
  using send_refines_cell [OF rel_cell [OF R g, of v], of g v block] g s by simp

section \<open>Receiving\<close>

lemma chan_empty_iff:
  assumes "rel zero (w, pc) a"
  shows "chan_empty (ch w) \<longleftrightarrow> contents a = []"
proof -
  have "asend a = []" if "acap a \<noteq> 0" "abuf a = []" using ainvD(6) [OF relD(1) [OF assms]] that by auto
  then show ?thesis
    using relD [OF assms] ainvD(5) [OF relD(1) [OF assms]] by (auto simp: chan_empty_def wq_def ring_def contents_def)
qed

lemma ainv_recv:
  assumes "ainv a" and "ast a g = Idle"
  shows "ainv (snd (spec_recv zero g want block a))"
proof -
  note A = ainvD [OF assms(1)]
  have n: "g \<notin> fst ` set (asend a)" "g \<notin> fst ` set (arecv a)"
    using idle_not_waiting [OF assms(1), of g] assms(2) by (simp_all add: blocked_def)
  consider v vs where "contents a = v # vs" "asend a = []" | v vs y ss where "contents a = v # vs" "asend a = y # ss"
    | "contents a = []" "aclosed a \<or> \<not> block" | "contents a = []" "\<not> aclosed a" "block"
    by (cases "contents a"; cases "asend a"; fastforce)
  then show ?thesis
  proof cases
    case 1
    then show ?thesis using assms by (cases "abuf a") (auto simp: spec_recv_def take_first_def contents_def ainv_def)
  next
    case 2
    obtain x u where y: "y = (x, u)" by fastforce
    have d: "(x, u') \<notin> set ss" for u' using A(1) 2 y by force
    have x: "\<And>u'. ast a x = Sending u' \<longleftrightarrow> u' = u" "\<And>want. (x, want) \<notin> set (arecv a)"
      using A(6) 2 y d assms(1) by (auto simp: ainv_def)
    have l: "length (tl (abuf a @ [u])) = length (abuf a)" by simp
    show ?thesis
      using assms(1) 2 y d x A(6) l by (simp add: spec_recv_def take_first_def ainv_def) metis
  next
    case 3
    then show ?thesis using assms by (auto simp: spec_recv_def)
  next
    case 4
    then have e: "abuf a = []" "asend a = []" by (simp_all add: contents_def)
    have s: "ast a x \<noteq> Sending u" for x u using A(3) e by simp
    have n': "(g, b) \<notin> set (arecv a)" for b using n(2) by force
    show ?thesis using assms 4 e n n' s A(2,4,9) by (auto simp: spec_recv_def contents_def ainv_def)
  qed
qed

text \<open>The first blocked sender is released, whatever the buffer becomes.\<close>

lemma ainv_release:
  assumes "ainv a" and q: "asend a = (x, u) # ss" and b: "length b = length (abuf a)"
  shows "ainv (a\<lparr>abuf := b, asend := ss, ast := (ast a)(x := Sent True)\<rparr>)"
proof -
  note A = ainvD [OF assms(1)]
  have d: "(x, u') \<notin> set ss" for u' using A(1) q by force
  have x: "\<And>u'. ast a x = Sending u' \<longleftrightarrow> u' = u" "\<And>want. (x, want) \<notin> set (arecv a)"
    using A(6) q d assms(1) by (auto simp: ainv_def)
  show ?thesis using assms(1) q d x A(6) b by (simp add: ainv_def) metis
qed

lemma release_sender:
  assumes R: "rel zero (w, pc) a" and q: "asend a = (x, u) # ss"
  obtains w1 where "sendq_dequeue w = Some (Some x, w1)" "sg_elem (sgs w1 x) = Some x" "cells w1 = cells w" "cells w x = u"
    "\<exists>q'. ch w1 = (ch w)\<lparr>sendq := q'\<rparr>"
    "\<forall>c b cs. ring zero c b \<and> length b = length (abuf a) \<and> recvq c = recvq (ch w1) \<and> sendq c = sendq (ch w1) \<and>
        dataqsiz c = dataqsiz (ch w1) \<and> closed c = closed (ch w1) \<and> (\<forall>y. ast a y \<noteq> Idle \<longrightarrow> cs y = cells w y) \<longrightarrow>
      rel zero (wake x True (w1\<lparr>ch := c, cells := cs, sgs := upd_sg x (sg_elem_update (\<lambda>_. None)) (sgs w1)\<rparr>), pc)
        (a\<lparr>abuf := b, asend := ss, ast := (ast a)(x := Sent True)\<rparr>)"
proof -
  note D = relD [OF R] and A = ainvD [OF relD(1) [OF R]]
  have st: "ast a x = Sending u" using A(3) q by simp
  have x: "gor zero x (sgs w x) (gs w x) (cells w x) (pc x) (Sending u)" using D(7) [of x] st by simp
  have W: "wq (sgs w) (sendq (ch w)) (x # map fst ss)" using D(5) q by simp
  obtain q' s' where d: "dequeue (sendq (ch w)) (sgs w) (gs w) = Some (Some x, q', s', gs w)" and q': "wq s' q' (map fst ss)"
    and un: "unlinked s' x" and rl: "relinked (set (x # map fst ss)) (sgs w) s'"
    using take_waiter [OF W] x by auto
  let ?w1 = "w\<lparr>ch := (ch w)\<lparr>sendq := q'\<rparr>, sgs := s', gs := gs w\<rparr>"
  have x': "sg_g (s' x) = x" "sg_elem (s' x) = Some x" "\<not> sg_isSelect (s' x)"
    using x relinked_data [OF rl, of x] by simp_all
  have rest: "arecv a = []" using A(6) q by simp
  have xs: "x \<notin> set (map fst ss)" using W by (simp add: wq_def)
  have "rel zero (wake x True (?w1\<lparr>ch := c, cells := cs, sgs := upd_sg x (sg_elem_update (\<lambda>_. None)) s'\<rparr>), pc)
        (a\<lparr>abuf := b, asend := ss, ast := (ast a)(x := Sent True)\<rparr>)" (is "rel zero (?w, pc) ?a")
    if c: "ring zero c b" "length b = length (abuf a)" "recvq c = recvq (ch w)" "sendq c = q'"
      "dataqsiz c = dataqsiz (ch w)" "closed c = closed (ch w)" and cs: "\<And>y. ast a y \<noteq> Idle \<Longrightarrow> cs y = cells w y" for c b cs
  proof -
    let ?s = "s'(x := (s' x)\<lparr>sg_elem := None, sg_success := True\<rparr>)"
    let ?w2 = "w\<lparr>ch := c, cells := cs, sgs := ?s, gs := (gs w)(x := (gs w x)\<lparr>param := Some x, status := Grunnable\<rparr>)\<rparr>"
    have w: "?w = ?w2" using x' by (simp add: wake_eq upd_sg_def)
    show ?thesis unfolding w
    proof (rule relI)
      show "ainv ?a" by (rule ainv_release [OF D(1) q c(2)])
      show "wq (sgs ?w2) (sendq (ch ?w2)) (map fst (asend ?a))"
        using q' c wq_cong [of "map fst ss" ?s s' q'] by simp
      fix y
      show "gor zero y (sgs ?w2 y) (gs ?w2 y) (cells ?w2 y) (pc y) (ast ?a y)"
      proof (cases "y = x")
        case True
        then show ?thesis using x x' un by (simp add: clean_def unlinked_def)
      next
        case False
        have "gor zero y (s' y) (gs w y) (cells w y) (pc y) (ast a y)"
          using gor_relinked [OF rl, of y "ast a y"] blocked_waiters [OF D(1), of y] q D(7) [of y] by auto
        then show ?thesis using False cs [of y] by (cases "ast a y") auto
      qed
    qed (use D c rest in \<open>simp_all add: wq_def\<close>)
  qed
  note key = this
  show ?thesis
  proof (rule that [of ?w1])
    show "sendq_dequeue w = Some (Some x, ?w1)" using d by (simp add: sendq_dequeue_def)
    show "\<exists>q'. ch ?w1 = (ch w)\<lparr>sendq := q'\<rparr>" by auto
  next
    show "\<forall>c b cs. ring zero c b \<and> length b = length (abuf a) \<and> recvq c = recvq (ch ?w1) \<and> sendq c = sendq (ch ?w1) \<and>
        dataqsiz c = dataqsiz (ch ?w1) \<and> closed c = closed (ch ?w1) \<and> (\<forall>y. ast a y \<noteq> Idle \<longrightarrow> cs y = cells w y) \<longrightarrow>
      rel zero (wake x True (?w1\<lparr>ch := c, cells := cs, sgs := upd_sg x (sg_elem_update (\<lambda>_. None)) (sgs ?w1)\<rparr>), pc)
        (a\<lparr>abuf := b, asend := ss, ast := (ast a)(x := Sent True)\<rparr>)"
      using key by simp
  qed (use x x' in simp_all)
qed

end
