(* ===== verification/Chan_Refine.thy ===== *)
theory Chan_Refine
  imports Chan_Sim
begin

text \<open>
  Receiving, closing and waking implement the contract, and with sending they make every step of the code a
  step of the abstract channel and conversely.
\<close>

section \<open>Receiving\<close>

lemma recv_sender:
  assumes R: "rel zero (w, pc) a" and g: "ast a g = Idle" and q: "asend a = (x, u) # ss" and c: "contents a = v # vs"
  shows "\<exists>w1 w2. sendq_dequeue w = Some (Some x, w1) \<and> recv x (dest g want) w1 = Some w2 \<and>
    rel zero (w2, pc) (take_first a) \<and> (want \<longrightarrow> cells w2 g = v)"
proof -
  note D = relD [OF R] and A = ainvD [OF relD(1) [OF R]]
  obtain w1 where w1: "sendq_dequeue w = Some (Some x, w1)" "sg_elem (sgs w1 x) = Some x" "cells w1 = cells w" "cells w x = u"
    "\<exists>q'. ch w1 = (ch w)\<lparr>sendq := q'\<rparr>"
    and key: "\<forall>c b cs. ring zero c b \<and> length b = length (abuf a) \<and> recvq c = recvq (ch w1) \<and> sendq c = sendq (ch w1) \<and>
        dataqsiz c = dataqsiz (ch w1) \<and> closed c = closed (ch w1) \<and> (\<forall>y. ast a y \<noteq> Idle \<longrightarrow> cs y = cells w y) \<longrightarrow>
      rel zero (wake x True (w1\<lparr>ch := c, cells := cs, sgs := upd_sg x (sg_elem_update (\<lambda>_. None)) (sgs w1)\<rparr>), pc)
        (a\<lparr>abuf := b, asend := ss, ast := (ast a)(x := Sent True)\<rparr>)"
    by (rule release_sender [OF R q])
  have dq: "dataqsiz (ch w1) = acap a" and rw: "ring zero (ch w1) (abuf a)" using w1(5) D(2,4) by (auto simp: ring_unchanged)
  have cellw: "cells (wake y b w') = cells w'" for y b and w' :: "'a world" by (simp add: wake_def goready_def upd_g_def Let_def)
  have id: "w1\<lparr>cells := cells w\<rparr> = w1" using w1(3) by (cases w1) simp
  have xg: "x \<noteq> g" using A(3) [of x u] q g by auto
  have len: "length (abuf a) = acap a" using A(6) q by simp
  let ?cs = "if want then (cells w)(g := v) else cells w"
  let ?sg = "upd_sg x (sg_elem_update (\<lambda>_. None)) (sgs w1)"
  show ?thesis
  proof (cases "abuf a")
    case Nil
    then have v: "v = u" "acap a = 0" using c q len by (auto simp: contents_def)
    have "recv x (dest g want) w1 = Some (wake x True (w1\<lparr>ch := ch w1, cells := ?cs, sgs := ?sg\<rparr>))"
      using w1(2-4) dq v by (simp add: id recv_def dest_def recvDirect_def Let_def)
    moreover have "rel zero (wake x True (w1\<lparr>ch := ch w1, cells := ?cs, sgs := ?sg\<rparr>), pc)
        (a\<lparr>abuf := abuf a, asend := ss, ast := (ast a)(x := Sent True)\<rparr>)"
      using rw g by (intro key [rule_format]) auto
    ultimately show ?thesis using w1(1) Nil q by (auto simp: take_first_def cellw)
  next
    case (Cons y bs)
    then have v: "y = v" using c by (simp add: contents_def)
    have ring: "ring zero (ch w1) (v # bs)" using rw Cons v by simp
    have pos: "0 < acap a" "Suc (length bs) = dataqsiz (ch w1)" using len Cons dq by simp_all
    let ?c = "(ch w1)\<lparr>chbuf := (chbuf (ch w1))[recvx (ch w1) := u], recvx := next_index (ch w1) (recvx (ch w1)),
      sendx := next_index (ch w1) (recvx (ch w1))\<rparr>"
    have get: "slice_get (chbuf (ch w1)) (recvx (ch w1)) = Some v"
      and set: "slice_set (chbuf (ch w1)) (recvx (ch w1)) u = Some ((chbuf (ch w1))[recvx (ch w1) := u])"
      using ring_first(1,2) [OF ring] by simp_all
    have "recv x (dest g want) w1 = Some (wake x True (w1\<lparr>ch := ?c, cells := ?cs, sgs := ?sg\<rparr>))"
      using w1(2-4) dq pos xg get set
      by (cases want; simp add: recv_def dest_def store_cell_def Let_def)
        (auto intro!: arg_cong [where f = "wake x True"] world.equality)
    moreover have "rel zero (wake x True (w1\<lparr>ch := ?c, cells := ?cs, sgs := ?sg\<rparr>), pc)
        (a\<lparr>abuf := bs @ [u], asend := ss, ast := (ast a)(x := Sent True)\<rparr>)"
      using ring_shift [OF ring pos(2), of u] Cons g by (intro key [rule_format]) auto
    ultimately show ?thesis using w1(1) Cons q by (auto simp: take_first_def cellw)
  qed
qed

lemma recv_buffer:
  assumes R: "rel zero (w, pc) a" and g: "ast a g = Idle" and q: "asend a = []" and b: "abuf a = v # bs"
  shows "slice_get (chbuf (ch w)) (recvx (ch w)) = Some v"
    "slice_set (chbuf (ch w)) (recvx (ch w)) zero = Some ((chbuf (ch w))[recvx (ch w) := zero])"
    "rel zero ((store_cell (dest g want) v w)\<lparr>ch := (ch w)\<lparr>chbuf := (chbuf (ch w))[recvx (ch w) := zero],
      recvx := next_index (ch w) (recvx (ch w)), qcount := qcount (ch w) - 1\<rparr>\<rparr>, pc) (take_first a)"
proof -
  note D = relD [OF R]
  have ring: "ring zero (ch w) (v # bs)" using D(4) b by simp
  show "slice_get (chbuf (ch w)) (recvx (ch w)) = Some v"
    "slice_set (chbuf (ch w)) (recvx (ch w)) zero = Some ((chbuf (ch w))[recvx (ch w) := zero])"
    using ring_first(1,2) [OF ring] by simp_all
  have gg: "gor zero g (sgs w g) (gs w g) (cells w g) (pc g) Idle" using D(7) [of g] g by simp
  let ?w = "(store_cell (dest g want) v w)\<lparr>ch := (ch w)\<lparr>chbuf := (chbuf (ch w))[recvx (ch w) := zero],
      recvx := next_index (ch w) (recvx (ch w)), qcount := qcount (ch w) - 1\<rparr>\<rparr>"
  have same: "sgs ?w = sgs w" "gs ?w = gs w" "\<And>y. y \<noteq> g \<Longrightarrow> cells ?w y = cells w y"
    by (auto simp: store_cell_def dest_def)
  have t: "take_first a = a\<lparr>abuf := bs\<rparr>" using q b by (simp add: take_first_def)
  show "rel zero (?w, pc) (take_first a)" unfolding t
  proof (rule relI)
    show "ainv (a\<lparr>abuf := bs\<rparr>)" using D(1) q b by (auto simp: ainv_def)
    show "ring zero (ch ?w) (abuf (a\<lparr>abuf := bs\<rparr>))" using ring_pop [OF ring] by simp
    fix y
    show "gor zero y (sgs ?w y) (gs ?w y) (cells ?w y) (pc y) (ast (a\<lparr>abuf := bs\<rparr>) y)"
      using D(7) [of y] gg g same by (cases "y = g") simp_all
  qed (use D same in simp_all)
qed

lemma recv_park:
  assumes R: "rel zero (w, pc) a" and g: "ast a g = Idle" and c: "\<not> aclosed a" and q: "contents a = []"
    and e: "enqueue g (recvq (ch w)) ((sgs w)(g := init_sudog g (dest g want) (sgs w g))) = (q', s')"
  shows "rel zero (park g g (w\<lparr>ch := (ch w)\<lparr>recvq := q'\<rparr>, sgs := s'\<rparr>), pc(g := PRecv want))
    (a\<lparr>arecv := arecv a @ [(g, want)], ast := (ast a)(g := Receiving want)\<rparr>)" (is "rel zero (?w, ?pc) ?a")
proof -
  note D = relD [OF R] and A = ainvD [OF relD(1) [OF R]]
  have W: "wq s' q' (map fst (arecv a) @ [g])"
    and rl: "relinked (insert g (set (map fst (arecv a)))) ((sgs w)(g := init_sudog g (dest g want) (sgs w g))) s'"
    using join_queue [OF R g D(6), of "dest g want"] blocked_waiters [OF D(1)] e by auto
  have ai: "ainv ?a" using ainv_recv [OF D(1) g, of zero want True] q c by (simp add: spec_recv_def)
  have gg: "gor zero g (sgs w g) (gs w g) (cells w g) (pc g) Idle" using D(7) [of g] g by simp
  have emp: "asend a = []" using q by (simp add: contents_def)
  show ?thesis
  proof (rule relI [OF ai])
    show "ring zero (ch ?w) (abuf ?a)" using D(4) by (simp add: park_def upd_g_def ring_unchanged)
    show "wq (sgs ?w) (recvq (ch ?w)) (map fst (arecv ?a))" using W by (simp add: park_def upd_g_def)
    show "wq (sgs ?w) (sendq (ch ?w)) (map fst (asend ?a))" using D(5) emp by (simp add: park_def upd_g_def wq_def)
    fix y
    show "gor zero y (sgs ?w y) (gs ?w y) (cells ?w y) (?pc y) (ast ?a y)"
    proof (cases "y = g")
      case True
      then show ?thesis
        using gg relinked_data [OF rl, of g] by (simp add: park_def upd_g_def init_sudog_def)
    next
      case False
      have "gor zero y (s' y) (gs w y) (cells w y) (pc y) (ast a y) = gor zero y (sgs w y) (gs w y) (cells w y) (pc y) (ast a y)"
        using gor_relinked [OF rl, of y "ast a y"] blocked_waiters [OF D(1), of y] False by auto
      then show ?thesis using False D(7) [of y] by (simp add: park_def upd_g_def)
    qed
  qed (use D in \<open>simp_all add: park_def upd_g_def\<close>)
qed

lemma store_idle:
  assumes "rel zero (w, pc) a" and "ast a g = Idle"
  shows "rel zero (store_cell (dest g want) v w, pc) a"
  using assms rel_cell [OF assms, of v] by (simp add: store_cell_def dest_def)

lemma cell_stored: "cells (store_cell (dest g want) v w) g = (if want then v else cells w g)"
  by (simp add: store_cell_def dest_def)

lemma recv_refines:
  assumes R: "rel zero (w, pc) a" and g: "ast a g = Idle" and s: "spec_recv zero g want block a = ((r, v), a')"
  shows "\<exists>w'. chanrecv zero False g g (dest g want) block w = Some (r, w') \<and> v = observed g want r w' \<and>
    rel zero (w', if r = Parked then pc(g := PRecv want) else pc) a'"
proof -
  note D = relD [OF R] and A = ainvD [OF relD(1) [OF R]]
  have qc: "qcount (ch w) = length (abuf a)" using D(4) by (simp add: ring_def)
  note emp = chan_empty_iff [OF R]
  consider y vs x u ss where "contents a = y # vs" "asend a = (x, u) # ss" "\<not> aclosed a"
    | y vs where "contents a = y # vs" "asend a = []" "abuf a = y # vs"
    | "contents a = []" "aclosed a" | "contents a = []" "\<not> aclosed a" "\<not> block" | "contents a = []" "\<not> aclosed a" "block"
    using A(8) by (cases "contents a"; cases "asend a") (fastforce simp: contents_def)+
  then show ?thesis
  proof cases
    case 1
    obtain w1 w2 where w: "sendq_dequeue w = Some (Some x, w1)" "recv x (dest g want) w1 = Some w2"
      "rel zero (w2, pc) (take_first a)" "want \<longrightarrow> cells w2 g = y"
      using recv_sender [OF R g 1(2,1), of want] by blast
    have "chanrecv zero False g g (dest g want) block w = Some (Ret (True, True), w2)"
      using 1 D(3) emp w by (simp add: chanrecv_def)
    then show ?thesis using w s 1 by (auto simp: spec_recv_def observed_def)
  next
    case 2
    have n: "sendq_dequeue w = Some (None, w)" using D(5) 2 by (intro sendq_dequeue_empty) simp
    note B = recv_buffer [OF R g 2(2,3)]
    let ?w = "(store_cell (dest g want) y w)\<lparr>ch := (ch w)\<lparr>chbuf := (chbuf (ch w))[recvx (ch w) := zero],
      recvx := next_index (ch w) (recvx (ch w)), qcount := qcount (ch w) - 1\<rparr>\<rparr>"
    have "chanrecv zero False g g (dest g want) block w = Some (Ret (True, True), ?w)"
      using 2 emp qc n B(1,2) by (cases "closed (ch w) = 0") (simp_all add: chanrecv_def Let_def)
    then show ?thesis using s 2(1) B(3) [of want] cell_stored [of g want y w] by (auto simp: spec_recv_def observed_def)
  next
    case 3
    have "chanrecv zero False g g (dest g want) block w = Some (Ret (True, False), store_cell (dest g want) zero w)"
      using 3 emp D(3) qc by (auto simp: chanrecv_def contents_def)
    then show ?thesis using s 3 store_idle [OF R g, of want zero] cell_stored [of g want zero w] by (auto simp: spec_recv_def observed_def)
  next
    case 4
    have "chanrecv zero False g g (dest g want) block w = Some (Ret (False, False), w)"
      using 4 emp D(3) by (simp add: chanrecv_def)
    then show ?thesis using s 4 R by (auto simp: spec_recv_def observed_def)
  next
    case 5
    have e0: "asend a = []" "abuf a = []" using 5 by (simp_all add: contents_def)
    have n: "sendq_dequeue w = Some (None, w)" using D(5) e0 by (intro sendq_dequeue_empty) simp
    obtain q' s' where e: "enqueue g (recvq (ch w)) ((sgs w)(g := init_sudog g (dest g want) (sgs w g))) = (q', s')" by fastforce
    have "chanrecv zero False g g (dest g want) block w = Some (Parked, park g g (w\<lparr>ch := (ch w)\<lparr>recvq := q'\<rparr>, sgs := s'\<rparr>))"
      using 5 e0 D(3) qc n e idle_acquires [OF R g] by (simp add: chanrecv_def upd_sg_def)
    then show ?thesis using s 5 recv_park [OF R g 5(2,1) e] by (auto simp: spec_recv_def observed_def)
  qed
qed

section \<open>Closing\<close>

text \<open>What a loop of \<open>closechan\<close> does to the waiters \<open>xs\<close> of its queue and to nothing else.\<close>

definition released :: "'v option \<Rightarrow> nat list \<Rightarrow> 'v world \<Rightarrow> 'v world \<Rightarrow> bool" where
  "released zero xs w w' \<longleftrightarrow>
    (\<forall>y. cells w' y = (case zero of Some z \<Rightarrow> if y \<in> set xs \<and> sg_elem (sgs w y) \<noteq> None then z else cells w y
                                   | None \<Rightarrow> cells w y)) \<and>
    (\<forall>y. if y \<in> set xs then clean (sgs w' y) \<and> \<not> sg_success (sgs w' y) else sgs w' y = sgs w y) \<and>
    (\<forall>y. gs w' y = (if y \<in> set xs then (gs w y)\<lparr>param := Some y\<rparr> else gs w y))"

definition waiter :: "sudog \<Rightarrow> nat \<Rightarrow> bool" where
  "waiter s x \<longleftrightarrow> sg_g s = x \<and> \<not> sg_isSelect s \<and> (sg_elem s = None \<or> sg_elem s = Some x)"

lemma released_Nil: "released zero [] w w' \<longleftrightarrow> cells w' = cells w \<and> sgs w' = sgs w \<and> gs w' = gs w"
  by (auto simp: released_def fun_eq_iff split: option.splits)

lemma release_waiter_eq:
  assumes "sg_g (sgs w x) = x"
  shows "release_waiter x w = w\<lparr>sgs := (sgs w)(x := (sgs w x)\<lparr>sg_elem := None, sg_success := False\<rparr>),
    gs := (gs w)(x := (gs w x)\<lparr>param := Some x\<rparr>)\<rparr>"
  using assms by (simp add: release_waiter_def upd_g_def upd_sg_def Let_def)

text \<open>One round: the waiter \<open>x\<close> is taken off, then released.\<close>

lemma released_Cons:
  assumes r: "released zero xs w2 w'" and x: "waiter (sgs w x) x" "x \<notin> set xs" and u: "unlinked s' x"
    and rl: "relinked (set (x # xs)) (sgs w) s'"
    and w2: "w2 = release_waiter x w1" and w1: "sgs w1 = s'" "gs w1 = gs w"
      "cells w1 = (case zero of None \<Rightarrow> cells w | Some z \<Rightarrow> if sg_elem (sgs w x) = None then cells w else (cells w)(x := z))"
  shows "released zero (x # xs) w w'"
proof -
  have x': "sg_g (s' x) = x" "\<not> sg_isSelect (s' x)" using x relinked_data [OF rl, of x] by (simp_all add: waiter_def)
  have e: "w2 = w1\<lparr>sgs := s'(x := (s' x)\<lparr>sg_elem := None, sg_success := False\<rparr>),
    gs := (gs w)(x := (gs w x)\<lparr>param := Some x\<rparr>)\<rparr>"
    using release_waiter_eq [of w1 x] w2 w1 x' by simp
  have el: "sg_elem (s' y) = sg_elem (sgs w y)" for y using relinked_data [OF rl, of y] by simp
  have out: "y \<noteq> x \<Longrightarrow> y \<notin> set xs \<Longrightarrow> s' y = sgs w y" for y using relinked_out [OF rl, of y] by simp
  have "cells w' y = (case zero of Some z \<Rightarrow> if y \<in> set (x # xs) \<and> sg_elem (sgs w y) \<noteq> None then z else cells w y
      | None \<Rightarrow> cells w y)" for y
    using r x(2) el [of y] e w1(3) by (cases "y = x"; cases zero) (auto simp: released_def)
  moreover have "if y \<in> set (x # xs) then clean (sgs w' y) \<and> \<not> sg_success (sgs w' y) else sgs w' y = sgs w y" for y
  proof (cases "y = x")
    case True
    have "sgs w' x = sgs w2 x" using r x(2) by (auto simp: released_def)
    then show ?thesis using True e x' u by (simp add: clean_def unlinked_def)
  next
    case False
    have "sgs w2 y = s' y" using False e by simp
    then show ?thesis using r out [of y] False by (cases "y \<in> set xs") (auto simp: released_def)
  qed
  moreover have "gs w' y = (if y \<in> set (x # xs) then (gs w y)\<lparr>param := Some y\<rparr> else gs w y)" for y
    using r x(2) e by (cases "y = x") (auto simp: released_def)
  ultimately show ?thesis by (simp add: released_def)
qed

lemma waiters_kept:
  assumes "relinked A s s'" and "\<forall>y \<in> set xs. waiter (s y) y" and "x \<notin> set xs"
  shows "\<forall>y \<in> set xs. waiter ((s'(x := z)) y) y"
  using assms relinked_data [OF assms(1)] by (auto simp: waiter_def)

lemma closechan_readers_all:
  assumes "wq (sgs w) (recvq (ch w)) xs" and "\<forall>x \<in> set xs. waiter (sgs w x) x"
  shows "\<exists>w' q'. closechan_readers zero gl w = Some (rev xs @ gl, w') \<and> released (Some zero) xs w w' \<and>
    ch w' = (ch w)\<lparr>recvq := q'\<rparr> \<and> wq (sgs w') q' []"
  using assms
proof (induction xs arbitrary: w gl)
  case Nil
  then have "recvq_dequeue w = Some (None, w)" by (intro recvq_dequeue_empty) simp
  then have "closechan_readers zero gl w = Some (gl, w)" by (subst closechan_readers.simps) simp
  then show ?case using Nil(1) by (intro exI [of _ w] exI [of _ "recvq (ch w)"]) (simp add: released_Nil)
next
  case (Cons x xs)
  have x: "waiter (sgs w x) x" "x \<notin> set xs" using Cons.prems by (simp_all add: wq_def)
  obtain q' s' where d: "dequeue (recvq (ch w)) (sgs w) (gs w) = Some (Some x, q', s', gs w)" and q': "wq s' q' xs"
    and u: "unlinked s' x" and rl: "relinked (set (x # xs)) (sgs w) s'"
    using take_waiter [OF Cons.prems(1)] x(1) by (auto simp: waiter_def)
  let ?w0 = "w\<lparr>ch := (ch w)\<lparr>recvq := q'\<rparr>, sgs := s'\<rparr>"
  let ?w1 = "store_cell (sg_elem (s' x)) zero ?w0"
  let ?w2 = "release_waiter x ?w1"
  have x': "sg_g (s' x) = x" "sg_elem (s' x) = sg_elem (sgs w x)" using x relinked_data [OF rl, of x] by (simp_all add: waiter_def)
  have w1: "sgs ?w1 = s'" "gs ?w1 = gs w" "ch ?w1 = (ch w)\<lparr>recvq := q'\<rparr>"
    "cells ?w1 = (if sg_elem (sgs w x) = None then cells w else (cells w)(x := zero))"
    using x x' by (auto simp: store_cell_def waiter_def split: option.splits)
  have w2: "ch ?w2 = (ch w)\<lparr>recvq := q'\<rparr>" "sgs ?w2 = s'(x := (s' x)\<lparr>sg_elem := None, sg_success := False\<rparr>)"
    using release_waiter_eq [of ?w1 x] w1 x' by simp_all
  have "wq (sgs ?w2) (recvq (ch ?w2)) xs" using q' x(2) unfolding w2 by (subst wq_cong [where s = s']) auto
  moreover have "\<forall>y \<in> set xs. waiter (sgs ?w2 y) y" using waiters_kept [OF rl, of xs x "(s' x)\<lparr>sg_elem := None, sg_success := False\<rparr>"] Cons.prems(2) x(2) unfolding w2 by simp
  ultimately obtain w' q'' where ih: "closechan_readers zero (x # gl) ?w2 = Some (rev xs @ x # gl, w')"
    "released (Some zero) xs ?w2 w'" "ch w' = (ch ?w2)\<lparr>recvq := q''\<rparr>" "wq (sgs w') q'' []"
    using Cons.IH by blast
  have "closechan_readers zero gl w = Some (rev (x # xs) @ gl, w')"
    using d ih(1) x' w1(1) by (subst closechan_readers.simps) (simp add: recvq_dequeue_def)
  moreover have "released (Some zero) (x # xs) w w'"
    by (rule released_Cons [OF ih(2) x u rl refl]) (simp_all add: w1)
  ultimately show ?case using ih(3,4) w2(1) by auto
qed

lemma closechan_writers_all:
  assumes "wq (sgs w) (sendq (ch w)) xs" and "\<forall>x \<in> set xs. waiter (sgs w x) x"
  shows "\<exists>w' q'. closechan_writers gl w = Some (rev xs @ gl, w') \<and> released None xs w w' \<and>
    ch w' = (ch w)\<lparr>sendq := q'\<rparr> \<and> wq (sgs w') q' []"
  using assms
proof (induction xs arbitrary: w gl)
  case Nil
  then have "sendq_dequeue w = Some (None, w)" by (intro sendq_dequeue_empty) simp
  then have "closechan_writers gl w = Some (gl, w)" by (subst closechan_writers.simps) simp
  then show ?case using Nil(1) by (intro exI [of _ w] exI [of _ "sendq (ch w)"]) (simp add: released_Nil)
next
  case (Cons x xs)
  have x: "waiter (sgs w x) x" "x \<notin> set xs" using Cons.prems by (simp_all add: wq_def)
  obtain q' s' where d: "dequeue (sendq (ch w)) (sgs w) (gs w) = Some (Some x, q', s', gs w)" and q': "wq s' q' xs"
    and u: "unlinked s' x" and rl: "relinked (set (x # xs)) (sgs w) s'"
    using take_waiter [OF Cons.prems(1)] x(1) by (auto simp: waiter_def)
  let ?w1 = "w\<lparr>ch := (ch w)\<lparr>sendq := q'\<rparr>, sgs := s'\<rparr>"
  let ?w2 = "release_waiter x ?w1"
  have x': "sg_g (s' x) = x" using x relinked_data [OF rl, of x] by (simp_all add: waiter_def)
  have w2: "ch ?w2 = (ch w)\<lparr>sendq := q'\<rparr>" "sgs ?w2 = s'(x := (s' x)\<lparr>sg_elem := None, sg_success := False\<rparr>)"
    using release_waiter_eq [of ?w1 x] x' by simp_all
  have "wq (sgs ?w2) (sendq (ch ?w2)) xs" using q' x(2) unfolding w2 by (subst wq_cong [where s = s']) auto
  moreover have "\<forall>y \<in> set xs. waiter (sgs ?w2 y) y" using waiters_kept [OF rl, of xs x "(s' x)\<lparr>sg_elem := None, sg_success := False\<rparr>"] Cons.prems(2) x(2) unfolding w2 by simp
  ultimately obtain w' q'' where ih: "closechan_writers (x # gl) ?w2 = Some (rev xs @ x # gl, w')"
    "released None xs ?w2 w'" "ch w' = (ch ?w2)\<lparr>sendq := q''\<rparr>" "wq (sgs w') q'' []"
    using Cons.IH by blast
  have "closechan_writers gl w = Some (rev (x # xs) @ gl, w')"
    using d ih(1) x' by (subst closechan_writers.simps) (simp add: sendq_dequeue_def)
  moreover have "released None (x # xs) w w'"
    by (rule released_Cons [OF ih(2) x u rl refl]) simp_all
  ultimately show ?case using ih(3,4) w2(1) by auto
qed

lemma fold_goready:
  "fold goready gl w = w\<lparr>gs := (\<lambda>y. if y \<in> set gl then (gs w y)\<lparr>status := Grunnable\<rparr> else gs w y)\<rparr>"
proof (induction gl arbitrary: w)
  case (Cons x gl)
  have e: "(if y \<in> set gl then (gs (goready x w) y)\<lparr>status := Grunnable\<rparr> else gs (goready x w) y) =
      (if y \<in> set (x # gl) then (gs w y)\<lparr>status := Grunnable\<rparr> else gs w y)" for y
    by (auto simp: goready_def upd_g_def)
  have "fold goready (x # gl) w = (goready x w)\<lparr>gs := (\<lambda>y. if y \<in> set (x # gl) then (gs w y)\<lparr>status := Grunnable\<rparr> else gs w y)\<rparr>"
    by (simp only: fold_simps o_apply Cons e)
  moreover have "goready x w = w\<lparr>gs := (gs w)(x := (gs w x)\<lparr>status := Grunnable\<rparr>)\<rparr>" by (simp add: goready_def upd_g_def)
  ultimately show ?case by simp
qed simp

lemma ainv_close:
  assumes "ainv a"
  shows "ainv (snd (spec_close a))"
proof (cases "aclosed a")
  case True
  then show ?thesis using assms by (simp add: spec_close_def)
next
  case False
  note A = ainvD [OF assms]
  let ?st = "\<lambda>g. case map_of (arecv a) g of Some want \<Rightarrow> Got want None
    | None \<Rightarrow> if g \<in> fst ` set (asend a) then Sent False else ast a g"
  have "?st g \<noteq> Sending v \<and> ?st g \<noteq> Receiving want" for g v want
  proof (cases "map_of (arecv a) g")
    case None
    then have "(g, want) \<notin> set (arecv a)" by (force simp: map_of_eq_None_iff)
    moreover have "(g, v) \<notin> set (asend a)" if "g \<notin> fst ` set (asend a)" using that by force
    ultimately show ?thesis using None A(3) [of g v] A(4) [of g want] by simp
  qed simp
  then show ?thesis using False A(5) by (auto simp: spec_close_def ainv_def)
qed

lemma gor_waiter: "gor zero x s g v p st \<Longrightarrow> blocked st \<Longrightarrow> waiter s x"
  by (cases st) (auto simp: blocked_def waiter_def dest_def)

lemma close_refines:
  assumes R: "rel zero (w, pc) a" and s: "spec_close a = (r, a')"
  shows "\<exists>w'. closechan zero False w = Some (r, w') \<and> rel zero (w', pc) a'"
proof (cases "aclosed a")
  case True
  then show ?thesis using R s relD(3) [OF R] by (simp add: closechan_def spec_close_def)
next
  case False
  note D = relD [OF R] and A = ainvD [OF relD(1) [OF R]]
  let ?rs = "map fst (arecv a)" and ?ss = "map fst (asend a)"
  let ?w0 = "w\<lparr>ch := (ch w)\<lparr>closed := 1\<rparr>\<rparr>"
  have wt: "waiter (sgs w x) x" if "x \<in> set ?rs \<or> x \<in> set ?ss" for x
    using gor_waiter [OF D(7) [of x]] blocked_waiters [OF D(1), of x] that by auto
  have disj: "x \<notin> set ?ss" if "x \<in> set ?rs" for x using A(6) that by (cases "asend a") auto
  obtain w1 q1 where 1: "closechan_readers zero [] ?w0 = Some (rev ?rs, w1)" "released (Some zero) ?rs ?w0 w1"
    "ch w1 = (ch w)\<lparr>closed := 1, recvq := q1\<rparr>" "wq (sgs w1) q1 []"
    using closechan_readers_all [of ?w0 ?rs zero "[]"] D(6) wt by auto
  have s1: "x \<notin> set ?rs \<Longrightarrow> sgs w1 x = sgs w x" for x using 1(2) by (auto simp: released_def)
  have s1': "x \<in> set ?ss \<Longrightarrow> sgs w1 x = sgs w x" for x using s1 disj by metis
  have "wq (sgs w1) (sendq (ch w1)) ?ss" using D(5) 1(3) s1' by (subst wq_cong [where s = "sgs w"]) auto
  moreover have "\<forall>x \<in> set ?ss. waiter (sgs w1 x) x" using wt s1 disj by metis
  ultimately obtain w2 q2 where 2: "closechan_writers (rev ?rs) w1 = Some (rev ?ss @ rev ?rs, w2)" "released None ?ss w1 w2"
    "ch w2 = (ch w1)\<lparr>sendq := q2\<rparr>" "wq (sgs w2) q2 []"
    using closechan_writers_all by blast
  let ?gs = "\<lambda>y. if y \<in> set (rev ?ss @ rev ?rs) then (gs w2 y)\<lparr>status := Grunnable\<rparr> else gs w2 y"
  let ?a = "snd (spec_close a)"
  have c: "closechan zero False w = Some (Ret (), w2\<lparr>gs := ?gs\<rparr>)"
    using False D(3) 1(1) 2(1) by (simp add: closechan_def fold_goready)
  have "rel zero (w2\<lparr>gs := ?gs\<rparr>, pc) ?a"
  proof (rule relI [OF ainv_close [OF D(1)]])
    show "ring zero (ch (w2\<lparr>gs := ?gs\<rparr>)) (abuf ?a)"
      using D(4) 1(3) 2(3) False by (simp add: spec_close_def ring_unchanged)
    show "wq (sgs (w2\<lparr>gs := ?gs\<rparr>)) (recvq (ch (w2\<lparr>gs := ?gs\<rparr>))) (map fst (arecv ?a))"
      using 1(3,4) 2(3) False by (simp add: spec_close_def wq_def)
    show "wq (sgs (w2\<lparr>gs := ?gs\<rparr>)) (sendq (ch (w2\<lparr>gs := ?gs\<rparr>))) (map fst (asend ?a))"
      using 2(3,4) False by (simp add: spec_close_def wq_def)
    fix y
    have g: "gor zero y (sgs w y) (gs w y) (cells w y) (pc y) (ast a y)" by (rule D(7))
    show "gor zero y (sgs (w2\<lparr>gs := ?gs\<rparr>) y) (gs (w2\<lparr>gs := ?gs\<rparr>) y) (cells (w2\<lparr>gs := ?gs\<rparr>) y) (pc y) (ast ?a y)"
    proof (cases "map_of (arecv a) y")
      case (Some want)
      then have m: "(y, want) \<in> set (arecv a)" by (rule map_of_SomeD)
      then have y: "y \<in> set ?rs" "y \<notin> set ?ss" "ast a y = Receiving want" using disj A(4) by force+
      have x1: "cells w1 y = (if sg_elem (sgs w y) \<noteq> None then zero else cells w y)" "clean (sgs w1 y)" "\<not> sg_success (sgs w1 y)"
        "gs w1 y = (gs w y)\<lparr>param := Some y\<rparr>"
        using 1(2) y(1) by (auto simp: released_def)
      have x2: "cells w2 y = cells w1 y" "sgs w2 y = sgs w1 y" "gs w2 y = gs w1 y"
        using 2(2) y(2) by (auto simp: released_def)
      show ?thesis using g y x1 x2 Some False by (auto simp: spec_close_def dest_def)
    next
      case None
      then have n: "y \<notin> set ?rs" by (simp add: map_of_eq_None_iff)
      have x1: "cells w1 y = cells w y" "sgs w1 y = sgs w y" "gs w1 y = gs w y" using 1(2) n by (auto simp: released_def)
      show ?thesis
      proof (cases "y \<in> set ?ss")
        case True
        then obtain u where u: "ast a y = Sending u" using A(3) by force
        have x2: "cells w2 y = cells w1 y" "clean (sgs w2 y)" "\<not> sg_success (sgs w2 y)" "gs w2 y = (gs w1 y)\<lparr>param := Some y\<rparr>"
          using 2(2) True by (auto simp: released_def)
        show ?thesis using g u x1 x2 None True False by (simp add: spec_close_def)
      next
        case n2: False
        have x2: "cells w2 y = cells w1 y" "sgs w2 y = sgs w1 y" "gs w2 y = gs w1 y" using 2(2) n2 by (auto simp: released_def)
        show ?thesis using g x1 x2 None n n2 False by (simp add: spec_close_def)
      qed
    qed
  qed (use D 1(3) 2(3) False in \<open>simp_all add: spec_close_def\<close>)
  then show ?thesis using c s False by (auto simp: spec_close_def)
qed

section \<open>Waking\<close>

lemma woken_world:
  "upd_g g (\<lambda>g. g\<lparr>waiting := None, param := None, status := Grunning\<rparr>) w =
    w\<lparr>gs := (gs w)(g := (gs w g)\<lparr>waiting := None, param := None, status := Grunning\<rparr>)\<rparr>"
  by (simp add: upd_g_def)

lemma woken_rel:
  assumes R: "rel zero (w, pc) a" and g: "ast a g = Sent ok \<or> ast a g = Got want v"
  shows "rel zero (upd_g g (\<lambda>g. g\<lparr>waiting := None, param := None, status := Grunning\<rparr>) w, pc(g := PIdle))
    (a\<lparr>ast := (ast a)(g := Idle)\<rparr>)"
proof -
  note D = relD [OF R]
  have "(g, u) \<notin> set (asend a)" "(g, b) \<notin> set (arecv a)" for u b
    using ainvD(3,4) [OF D(1), of g] g by auto
  then have ai: "ainv (a\<lparr>ast := (ast a)(g := Idle)\<rparr>)" using D(1) by (auto simp: ainv_def)
  have gg: "clean (sgs w g)" using D(7) [of g] g by auto
  show ?thesis unfolding woken_world by (rule relI [OF ai]) (use D gg in auto)
qed

lemma woken_send_refines:
  assumes R: "rel zero (w, pc) a" and g: "ast a g = Sent ok"
  shows "\<exists>w'. chansend_woken g g w = (send_result ok, w') \<and> rel zero (w', pc(g := PIdle)) (a\<lparr>ast := (ast a)(g := Idle)\<rparr>)"
proof -
  note D = relD [OF R]
  have gg: "waiting (gs w g) = Some g" "clean (sgs w g)" "sg_success (sgs w g) = ok" using D(7) [of g] g by auto
  have "closed (ch w) \<noteq> 0" if "\<not> ok" using D(3) ainvD(9) [OF D(1), of g] g that by simp
  then have "chansend_woken g g w =
      (send_result ok, upd_g g (\<lambda>g. g\<lparr>waiting := None, param := None, status := Grunning\<rparr>) w)"
    using gg by (auto simp: chansend_woken_def woken_world releaseSudog_def clean_def send_result_def Let_def)
  then show ?thesis using woken_rel [OF R] g by blast
qed

lemma woken_recv_refines:
  assumes R: "rel zero (w, pc) a" and g: "ast a g = Got want v"
  shows "\<exists>w'. chanrecv_woken g g w = (Ret (True, v \<noteq> None), w') \<and>
    recv_value zero want v = observed g want (Ret (True, v \<noteq> None)) w' \<and>
    rel zero (w', pc(g := PIdle)) (a\<lparr>ast := (ast a)(g := Idle)\<rparr>)"
proof -
  note D = relD [OF R]
  have gg: "waiting (gs w g) = Some g" "clean (sgs w g)" "sg_success (sgs w g) = (v \<noteq> None)"
    "want \<longrightarrow> cells w g = (case v of None \<Rightarrow> zero | Some u \<Rightarrow> u)" using D(7) [of g] g by auto
  have "chanrecv_woken g g w =
      (Ret (True, v \<noteq> None), upd_g g (\<lambda>g. g\<lparr>waiting := None, param := None, status := Grunning\<rparr>) w)"
    using gg by (auto simp: chanrecv_woken_def woken_world releaseSudog_def clean_def Let_def)
  moreover have "recv_value zero want v =
      observed g want (Ret (True, v \<noteq> None)) (upd_g g (\<lambda>g. g\<lparr>waiting := None, param := None, status := Grunning\<rparr>) w)"
    using gg(4) by (auto simp: recv_value_def observed_def woken_world)
  ultimately show ?thesis using woken_rel [OF R, of g _ want v] g by blast
qed

end
