(* ===== verification/Chan_Run.thy ===== *)
theory Chan_Run
  imports Chan_Refine
begin

text \<open>
  Runs of transition systems and their simulation, and the runs of a channel: those of the code are those of
  the abstract channel.
\<close>

section \<open>Runs and simulation\<close>

inductive run :: "('s \<Rightarrow> 'e \<Rightarrow> 's \<Rightarrow> bool) \<Rightarrow> 's \<Rightarrow> 'e list \<Rightarrow> 's \<Rightarrow> bool" for step :: "'s \<Rightarrow> 'e \<Rightarrow> 's \<Rightarrow> bool" where
  run_Nil: "run step s [] s"
| run_snoc: "run step s tr s' \<Longrightarrow> step s' e s'' \<Longrightarrow> run step s (tr @ [e]) s''"

lemma run_Cons:
  assumes "step s e s'" and "run step s' tr s''"
  shows "run step s (e # tr) s''"
  using assms(2,1)
proof (induction rule: run.induct)
  case (run_Nil s')
  show ?case using run.run_snoc [where tr = "[]" and step = step, OF run.run_Nil run_Nil] by simp
next
  case (run_snoc s' tr s1 e1 s2)
  show ?case using run.run_snoc [where step = step, OF run_snoc.IH [OF run_snoc.prems] run_snoc.hyps(2)] by simp
qed

locale simulation =
  fixes cst :: "'c \<Rightarrow> 'e \<Rightarrow> 'c \<Rightarrow> bool" and abst :: "'a \<Rightarrow> 'e \<Rightarrow> 'a \<Rightarrow> bool" and R :: "'c \<Rightarrow> 'a \<Rightarrow> bool"
  assumes sim: "R s a \<Longrightarrow> cst s e s' \<Longrightarrow> \<exists>a'. abst a e a' \<and> R s' a'"
begin

lemma run_sim: "run cst s tr s' \<Longrightarrow> R s a \<Longrightarrow> \<exists>a'. run abst a tr a' \<and> R s' a'"
proof (induction rule: run.induct)
  case (run_Nil s)
  then show ?case by (intro exI [of _ a] conjI run.run_Nil)
next
  case (run_snoc s tr s' e s'')
  then obtain a' where a': "run abst a tr a'" "R s' a'" by blast
  obtain a'' where a'': "abst a' e a''" "R s'' a''" using sim [OF a'(2) run_snoc.hyps(2)] by blast
  show ?case by (intro exI [of _ a''] conjI run.run_snoc [OF a'(1) a''(1)] a''(2))
qed

text \<open>An invariant of the abstract system holds of the code, through the relation.\<close>

lemma invariant_sim:
  assumes "run cst s tr s'" and "R s a" and "\<And>a'. run abst a tr a' \<Longrightarrow> P a'"
  shows "\<exists>a'. R s' a' \<and> P a'"
  using run_sim [OF assms(1,2)] assms(3) by blast

end

locale bisimulation = simulation +
  assumes conv: "R s a \<Longrightarrow> abst a e a' \<Longrightarrow> \<exists>s'. cst s e s' \<and> R s' a'"

sublocale bisimulation < rev: simulation abst cst "\<lambda>a s. R s a"
  by unfold_locales (rule conv)

context bisimulation
begin

lemma same_runs: "R s a \<Longrightarrow> (\<exists>s'. run cst s tr s') \<longleftrightarrow> (\<exists>a'. run abst a tr a')"
  using run_sim rev.run_sim by blast

end

section \<open>The steps of a channel\<close>

lemma cstep_sim:
  assumes R: "rel zero s a" and c: "cstep zero s e s'"
  shows "\<exists>a'. astep zero a e a' \<and> rel zero s' a'"
proof -
  obtain w pc where s: "s = (w, pc)" by fastforce
  have idle: "ast a g = Idle" if "pc g = PIdle" for g
    using R that relD(7) [of zero w pc a g] by (cases "ast a g") (simp_all add: s)
  from c [unfolded s] show ?thesis
  proof (cases rule: cstepE)
    case (1 g block v r w')
    obtain r' a' where sp: "spec_send g v block a = (r', a')" by fastforce
    show ?thesis
      using send_refines [OF R [unfolded s] idle [OF 1(3)] sp] 1 sp astep.intros(1) [where zero = zero, OF idle [OF 1(3)] sp] by auto
  next
    case (2 g want block r w')
    obtain r' v' a' where sp: "spec_recv zero g want block a = ((r', v'), a')" by (metis prod.collapse)
    show ?thesis
      using recv_refines [OF R [unfolded s] idle [OF 2(3)] sp] 2 sp astep.intros(2) [where zero = zero, OF idle [OF 2(3)] sp] by auto
  next
    case (3 g r w')
    obtain r' a' where sp: "spec_close a = (r', a')" by fastforce
    show ?thesis
      using close_refines [OF R [unfolded s] sp] 3 sp astep.intros(3) [where zero = zero, OF idle [OF 3(3)] sp] by auto
  next
    case (4 g r w')
    have "\<exists>ok. ast a g = Sent ok"
      using R 4(3,4) relD(7) [of zero w pc a g] by (cases "ast a g") (simp_all add: s)
    then obtain ok where ok: "ast a g = Sent ok" by blast
    show ?thesis using woken_send_refines [OF R [unfolded s] ok] 4 astep.intros(4) [where zero = zero, OF ok] by auto
  next
    case (5 g want r w')
    have "\<exists>v. ast a g = Got want v"
      using R 5(3,4) relD(7) [of zero w pc a g] by (cases "ast a g") (simp_all add: s)
    then obtain v where v: "ast a g = Got want v" by blast
    show ?thesis using woken_recv_refines [OF R [unfolded s] v] 5 astep.intros(5) [where zero = zero, OF v] by auto
  qed
qed

lemma astep_sim:
  assumes R: "rel zero s a" and c: "astep zero a e a'"
  shows "\<exists>s'. cstep zero s e s' \<and> rel zero s' a'"
proof -
  obtain w pc where s: "s = (w, pc)" by fastforce
  note R = R [unfolded s]
  have g: "gor zero g (sgs w g) (gs w g) (cells w g) (pc g) (ast a g)" for g by (rule relD(7) [OF R])
  from c show ?thesis unfolding s
  proof (cases rule: astepE)
    case (1 g v block r)
    obtain w' where w: "chansend False g g g block (w\<lparr>cells := (cells w)(g := v)\<rparr>) = Some (r, w')"
      "rel zero (w', if r = Parked then pc(g := PSend) else pc) a'"
      using send_refines [OF R 1(2,3)] by blast
    have p: "pc g = PIdle" using g [of g] 1(2) by simp
    show "\<exists>s'. cstep zero (w, pc) e s' \<and> rel zero s' a'" using cstep.intros(1) [where zero = zero and w = w and v = v and g = g and pc = pc, OF p w(1)] w(2) 1(1) by blast
  next
    case (2 g want block r v)
    obtain w' where w: "chanrecv zero False g g (dest g want) block w = Some (r, w')" "v = observed g want r w'"
      "rel zero (w', if r = Parked then pc(g := PRecv want) else pc) a'"
      using recv_refines [OF R 2(2,3)] by blast
    have p: "pc g = PIdle" using g [of g] 2(2) by simp
    show "\<exists>s'. cstep zero (w, pc) e s' \<and> rel zero s' a'"
      using cstep.intros(2) [where zero = zero and pc = pc and w = w and g = g, OF p w(1)] w(2,3) 2(1) by blast
  next
    case (3 g r)
    obtain w' where w: "closechan zero False w = Some (r, w')" "rel zero (w', pc) a'" using close_refines [OF R 3(3)] by blast
    have p: "pc g = PIdle" using g [of g] 3(2) by simp
    show "\<exists>s'. cstep zero (w, pc) e s' \<and> rel zero s' a'" using cstep.intros(3) [where zero = zero and pc = pc and w = w and g = g, OF p w(1)] w(2) 3(1) by blast
  next
    case (4 g ok)
    obtain w' where w: "chansend_woken g g w = (send_result ok, w')" "rel zero (w', pc(g := PIdle)) a'"
      using woken_send_refines [OF R 4(3)] 4(2) by blast
    have p: "pc g = PSend" "status (gs w g) = Grunnable" using g [of g] 4(3) by simp_all
    show "\<exists>s'. cstep zero (w, pc) e s' \<and> rel zero s' a'" using cstep.intros(4) [where zero = zero and pc = pc and w = w and g = g, OF p w(1)] w(2) 4(1) by blast
  next
    case (5 g want v)
    obtain w' where w: "chanrecv_woken g g w = (Ret (True, v \<noteq> None), w')"
      "recv_value zero want v = observed g want (Ret (True, v \<noteq> None)) w'" "rel zero (w', pc(g := PIdle)) a'"
      using woken_recv_refines [OF R 5(3)] 5(2) by blast
    have p: "pc g = PRecv want" "status (gs w g) = Grunnable" using g [of g] 5(3) by simp_all
    show "\<exists>s'. cstep zero (w, pc) e s' \<and> rel zero s' a'"
      using cstep.intros(5) [where zero = zero and pc = pc and w = w and g = g, OF p w(1)] w(2,3) 5(1) by auto
  qed
qed

interpretation chan: bisimulation "cstep zero" "astep zero" "rel zero" for zero
  by unfold_locales (blast intro: cstep_sim astep_sim)+

section \<open>Creation\<close>

lemma MulUintptr_exact: "MulUintptr a b = (a * b, 2 ^ 64 \<le> unat a * unat b)"
proof (cases "a = 0")
  case True
  then show ?thesis by (simp add: MulUintptr_def)
next
  case False
  then have a: "0 < unat a" by (simp add: unat_gt_0)
  have "unat b > (2 ^ 64 - 1) div unat a \<longleftrightarrow> 2 ^ 64 - 1 < unat a * unat b"
    using a by (simp add: div_less_iff_less_mult mult.commute)
  then have big: "b > - 1 div a \<longleftrightarrow> 2 ^ 64 \<le> unat a * unat b"
    by (simp add: word_less_nat_alt unat_div_word unsigned_minus_1_eq_mask mask_eq_exp_minus_1) linarith
  have small: "unat a * unat b < 2 ^ 64" if o: "a OR b < push_bit (4 * 8) 1"
  proof -
    have "a < push_bit (4 * 8) 1" "b < push_bit (4 * 8) 1"
      using o le_word_or1 [of b a] le_word_or2 [of a b] by (meson order.strict_trans1)+
    then have "unat a < 2 ^ 32" "unat b < 2 ^ 32" by (simp_all add: word_less_nat_alt)
    then have "unat a * unat b < 2 ^ 32 * 2 ^ 32" using a by (intro mult_strict_mono') simp_all
    then show ?thesis by simp
  qed
  show ?thesis using False big small by (auto simp: MulUintptr_def not_le)
qed

lemma hchanSize_eval: "hchanSize = 96" "maxAlloc = 281474976710656" "maxAlign = 8"
  by (simp_all add: hchanSize_def maxAlloc_def maxAlign_def)

definition new_hchan :: "'v \<Rightarrow> nat \<Rightarrow> 'v hchan" where
  "new_hchan zero n = \<lparr>qcount = 0, dataqsiz = n, chbuf = replicate n zero, closed = 0, sendx = 0, recvx = 0,
    recvq = \<lparr>wfirst = None, wlast = None\<rparr>, sendq = \<lparr>wfirst = None, wlast = None\<rparr>\<rparr>"

text \<open>For an element type that the compiler accepts, a negative or too large size is the only error.\<close>

lemma makechan_eq:
  assumes "unat (Size_' elem) < 2 ^ 16" and "Align_' elem \<le> 8"
  shows "makechan elem zero n =
    (if sint n < 0 \<or> unat (Size_' elem) * unat n > 2 ^ 48 - 96 then Panics ''makechan: size out of range''
     else Ret (new_hchan zero (unat n)))"
proof -
  have s: "\<not> Size_' elem \<ge> push_bit 16 1" using assms(1) by (simp add: word_le_nat_alt)
  have al: "\<not> ucast (Align_' elem) > maxAlign" using assms(2)
    by (simp add: hchanSize_eval word_less_nat_alt word_le_nat_alt unat_ucast_mod)
  have m: "2 ^ 64 \<le> unat (Size_' elem) * unat n \<or> Size_' elem * n > maxAlloc - hchanSize \<longleftrightarrow>
      unat (Size_' elem) * unat n > 2 ^ 48 - 96"
  proof (cases "2 ^ 64 \<le> unat (Size_' elem) * unat n")
    case False
    then have "unat (Size_' elem * n) = unat (Size_' elem) * unat n" by (simp add: unat_word_ariths)
    then show ?thesis using False by (simp add: hchanSize_eval word_less_nat_alt)
  qed simp
  show ?thesis
    using s al m by (auto simp: makechan_def MulUintptr_exact new_hchan_def hchanSize_eval word_sless_alt)
qed

end
