(* ===== verification/Chan_Fifo.thy ===== *)
theory Chan_Fifo
  imports Chan_Run
begin

text \<open>
  What the runs of the abstract channel deliver, and to whom: first in, first out, nothing lost before a close,
  and a bound on how long a blocked goroutine is overtaken.
\<close>

section \<open>Values sent and received\<close>

fun accepted :: "'v event \<Rightarrow> 'v list" where
  "accepted (ESend g v block (Ret True)) = [v]"
| "accepted (ESend g v block Parked) = [v]"
| "accepted _ = []"

definition sent :: "'v event list \<Rightarrow> 'v list" where
  "sent tr = concat (map accepted tr)"

fun got :: "nat \<Rightarrow> 'v event \<Rightarrow> 'v option list" where
  "got x (ERecv g want block (Ret (True, True)) v) = (if g = x then [v] else [])"
| "got x (EWokenRecv g (Ret (True, True)) v) = (if g = x then [v] else [])"
| "got x _ = []"

definition received :: "nat \<Rightarrow> 'v event list \<Rightarrow> 'v option list" where
  "received x tr = concat (map (got x) tr)"

lemma sent_simps [simp]: "sent [] = []" "sent (tr @ [e]) = sent tr @ accepted e"
  by (simp_all add: sent_def)

lemma received_simps [simp]: "received x [] = []" "received x (tr @ [e]) = received x tr @ got x e"
  by (simp_all add: received_def)

text \<open>
  A log of deliveries: the receiver, whether it wants the value, and the value.  What receiver \<open>x\<close> sees of it,
  and what was delivered to it but not yet returned.
\<close>

type_synonym 'v log = "(nat \<times> bool \<times> 'v) list"

definition vals :: "'v log \<Rightarrow> 'v list" where
  "vals D = map (\<lambda>(x, want, v). v) D"

definition seen :: "nat \<Rightarrow> 'v log \<Rightarrow> 'v option list" where
  "seen x D = map (\<lambda>(x, want, v). if want then Some v else None) (filter (\<lambda>d. fst d = x) D)"

fun pending :: "'v gst \<Rightarrow> 'v option list" where
  "pending (Got want (Some v)) = [if want then Some v else None]"
| "pending _ = []"

lemma vals_simps [simp]: "vals [] = []" "vals (D @ [(x, want, v)]) = vals D @ [v]"
  by (simp_all add: vals_def)

lemma seen_simps [simp]:
  "seen x [] = []" "seen x (D @ [(y, want, v)]) = seen x D @ (if y = x then [if want then Some v else None] else [])"
  by (simp_all add: seen_def)

definition logged :: "'v event list \<Rightarrow> 'v achan \<Rightarrow> 'v log \<Rightarrow> bool" where
  "logged tr a D \<longleftrightarrow>
    (\<exists>rest. sent tr = vals D @ contents a @ rest \<and> (\<not> aclosed a \<longrightarrow> rest = [])) \<and>
    (\<forall>x. received x tr @ pending (ast a x) = seen x D)"

definition empty_chan :: "nat \<Rightarrow> 'v achan" where
  "empty_chan n = \<lparr>acap = n, aclosed = False, abuf = [], asend = [], arecv = [], ast = (\<lambda>_. Idle)\<rparr>"

lemma ainv_empty: "ainv (empty_chan n)"
  by (simp add: ainv_def empty_chan_def)

lemma ainv_step:
  assumes "ainv a" and "astep zero a e a'"
  shows "ainv a'"
  using assms(2)
proof (cases rule: astepE)
  case (1 g v block r)
  then show ?thesis using ainv_send [OF assms(1) 1(2), of v block] by simp
next
  case (2 g want block r v)
  then show ?thesis using ainv_recv [OF assms(1) 2(2), of zero want block] by simp
next
  case (3 g r)
  then show ?thesis using ainv_close [OF assms(1)] by simp
next
  case (4 g ok)
  have "(g, u) \<notin> set (asend a)" "(g, b) \<notin> set (arecv a)" for u b
    using ainvD(3,4) [OF assms(1), of g] 4 by auto
  then show ?thesis using assms(1) 4 by (auto simp: ainv_def)
next
  case (5 g want v)
  have "(g, u) \<notin> set (asend a)" "(g, b) \<notin> set (arecv a)" for u b
    using ainvD(3,4) [OF assms(1), of g] 5 by auto
  then show ?thesis using assms(1) 5 by (auto simp: ainv_def)
qed

lemma ainv_run: "run (astep zero) a tr a' \<Longrightarrow> ainv a \<Longrightarrow> ainv a'"
  by (induction rule: run.induct) (auto intro: ainv_step)

lemma contents_take_first:
  assumes "ainv a" and "contents a = v # vs"
  shows "contents (take_first a) = vs" "aclosed (take_first a) = aclosed a"
    "pending (ast (take_first a) x) = pending (ast a x)"
proof -
  have "contents (take_first a) = vs \<and> aclosed (take_first a) = aclosed a \<and> pending (ast (take_first a) x) = pending (ast a x)"
  proof (cases "asend a")
    case Nil
    then show ?thesis using assms by (cases "abuf a") (auto simp: take_first_def contents_def)
  next
    case (Cons y ss)
    obtain z u where y: "y = (z, u)" by fastforce
    have "ast a z = Sending u" using ainvD(3) [OF assms(1), of z u] Cons y by simp
    then show ?thesis using assms Cons y by (cases "abuf a") (auto simp: take_first_def contents_def)
  qed
  then show "contents (take_first a) = vs" "aclosed (take_first a) = aclosed a"
    "pending (ast (take_first a) x) = pending (ast a x)" by blast+
qed

lemma logged_send:
  assumes i: "ainv a" and l: "logged tr a D" and g: "ast a g = Idle" and s: "spec_send g v block a = (r, a')"
  shows "\<exists>D'. logged (tr @ [ESend g v block r]) a' D'"
proof -
  note A = ainvD [OF i]
  obtain rest where L: "sent tr = vals D @ contents a @ rest" "\<not> aclosed a \<longrightarrow> rest = []"
    "\<And>x. received x tr @ pending (ast a x) = seen x D" using l by (auto simp: logged_def)
  consider "aclosed a" | x want rs where "\<not> aclosed a" "arecv a = (x, want) # rs"
    | "\<not> aclosed a" "arecv a = []" "length (abuf a) < acap a" | "\<not> aclosed a" "arecv a = []" "\<not> length (abuf a) < acap a" "block"
    | "\<not> aclosed a" "arecv a = []" "\<not> length (abuf a) < acap a" "\<not> block"
    by (cases "arecv a"; cases "aclosed a"; fastforce)
  then show ?thesis
  proof cases
    case 1
    then have "r = Panics ''send on closed channel''" "a' = a" using s by (simp_all add: spec_send_def)
    then show ?thesis using l by (intro exI [of _ D]) (simp add: logged_def)
  next
    case 2
    have st: "ast a x = Receiving want" using A(4) 2 by simp
    have e: "contents a = []" using A(7) 2 by (simp add: contents_def)
    have r: "r = Ret True" "a' = a\<lparr>arecv := rs, ast := (ast a)(x := Got want (Some v))\<rparr>" using s 2 by (auto simp: spec_send_def)
    have "received y tr @ pending (ast a' y) = seen y (D @ [(x, want, v)])" for y
      using L(3) [of y] r st by (cases "y = x") auto
    then show ?thesis using L(1,2) 2 e r by (intro exI [of _ "D @ [(x, want, v)]"]) (auto simp: logged_def contents_def)
  next
    case 3
    have e: "asend a = []" using A(6) 3 by auto
    have r: "r = Ret True" "a' = a\<lparr>abuf := abuf a @ [v]\<rparr>" using s 3 by (auto simp: spec_send_def)
    show ?thesis using L 3 e r by (intro exI [of _ D]) (auto simp: logged_def contents_def)
  next
    case 4
    have r: "r = Parked" "a' = a\<lparr>asend := asend a @ [(g, v)], ast := (ast a)(g := Sending v)\<rparr>" using s 4 by (auto simp: spec_send_def)
    have "received y tr @ pending (ast a' y) = seen y D" for y
      using L(3) [of y] r g by (cases "y = g") auto
    then show ?thesis using L(1,2) 4 r by (intro exI [of _ D]) (auto simp: logged_def contents_def)
  next
    case 5
    then have "r = Ret False" "a' = a" using s by (auto simp: spec_send_def)
    then show ?thesis using l by (intro exI [of _ D]) (simp add: logged_def)
  qed
qed

lemma logged_recv:
  assumes i: "ainv a" and l: "logged tr a D" and g: "ast a g = Idle" and s: "spec_recv zero g want block a = ((r, v), a')"
  shows "\<exists>D'. logged (tr @ [ERecv g want block r v]) a' D'"
proof (cases "contents a")
  case (Cons u us)
  have r: "r = Ret (True, True)" "v = (if want then Some u else None)" "a' = take_first a"
    using s Cons by (auto simp: spec_recv_def)
  obtain rest where L: "sent tr = vals D @ contents a @ rest" "\<not> aclosed a \<longrightarrow> rest = []"
    "\<And>x. received x tr @ pending (ast a x) = seen x D" using l by (auto simp: logged_def)
  note T = contents_take_first [OF i Cons]
  have "received y (tr @ [ERecv g want block r v]) @ pending (ast a' y) = seen y (D @ [(g, want, u)])" for y
    using L(3) [of y] r T(3) [of y] g by (cases "y = g") auto
  then show ?thesis using L(1,2) r T(1,2) Cons by (intro exI [of _ "D @ [(g, want, u)]"]) (auto simp: logged_def)
next
  case Nil
  then have q: "asend a = []" by (simp add: contents_def)
  have "accepted (ERecv g want block r v) = []" "got x (ERecv g want block r v) = []" "contents a' = contents a"
    "aclosed a' = aclosed a" "pending (ast a' x) = pending (ast a x)" for x
    using s Nil q g by (auto simp: spec_recv_def contents_def split: if_splits)
  then show ?thesis using l by (intro exI [of _ D]) (simp add: logged_def)
qed

lemma logged_step:
  assumes i: "ainv a" and l: "logged tr a D" and s: "astep zero a e a'"
  shows "\<exists>D'. logged (tr @ [e]) a' D'"
  using s
proof (cases rule: astepE)
  case (1 g v block r)
  then show ?thesis using logged_send [OF i l 1(2,3)] by simp
next
  case (2 g want block r v)
  then show ?thesis using logged_recv [OF i l 2(2,3)] by simp
next
  case (3 g r)
  show ?thesis
  proof (cases "aclosed a")
    case True
    then show ?thesis using l 3 by (intro exI [of _ D]) (auto simp: logged_def spec_close_def)
  next
    case False
    note A = ainvD [OF i]
    have a': "aclosed a'" "contents a' = abuf a" using 3 False by (auto simp: spec_close_def contents_def)
    have "pending (ast a' x) = pending (ast a x)" for x
    proof (cases "map_of (arecv a) x")
      case (Some want)
      then have "ast a x = Receiving want" using A(4) [of x want] by (simp add: map_of_SomeD)
      then show ?thesis using 3 False Some by (auto simp: spec_close_def)
    next
      case None
      have "pending (ast a x) = []" if m: "x \<in> fst ` set (asend a)"
      proof -
        obtain u where "(x, u) \<in> set (asend a)" using m by force
        then show ?thesis using A(3) [of x u] by simp
      qed
      then show ?thesis using 3 False None by (auto simp: spec_close_def)
    qed
    then show ?thesis using l 3 a' False by (intro exI [of _ D]) (auto simp: logged_def contents_def)
  qed
next
  case (4 g ok)
  have "pending (ast a' x) = pending (ast a x)" for x using 4 by auto
  then show ?thesis using l 4 by (intro exI [of _ D]) (simp add: logged_def contents_def send_result_def)
next
  case (5 g want v)
  have "received x (tr @ [e]) @ pending (ast a' x) = received x tr @ pending (ast a x)" for x
    using 5 by (cases v) (auto simp: recv_value_def)
  then show ?thesis using l 5 by (intro exI [of _ D]) (simp add: logged_def contents_def)
qed

lemma logged_run: "run (astep zero) a tr a' \<Longrightarrow> a = empty_chan n \<Longrightarrow> \<exists>D. logged tr a' D"
proof (induction rule: run.induct)
  case (run_Nil s)
  then show ?case by (intro exI [of _ "[]"]) (simp add: logged_def empty_chan_def contents_def)
next
  case (run_snoc s tr s' e s'')
  then obtain D where D: "logged tr s' D" by blast
  have "ainv s'" using ainv_run [OF run_snoc.hyps(1)] run_snoc.prems by (simp add: ainv_empty)
  from logged_step [OF this D run_snoc.hyps(2)] show ?case .
qed

section \<open>Waiting\<close>

fun is_send :: "'v event \<Rightarrow> bool" where
  "is_send (ESend g v block (Ret True)) = True"
| "is_send _ = False"

fun is_recv :: "'v event \<Rightarrow> bool" where
  "is_recv (ERecv g want block (Ret (True, True)) v) = True"
| "is_recv _ = False"

fun parks_send :: "'v event \<Rightarrow> bool" where
  "parks_send (ESend g v block Parked) = True"
| "parks_send _ = False"

fun parks_recv :: "'v event \<Rightarrow> bool" where
  "parks_recv (ERecv g want block Parked v) = True"
| "parks_recv _ = False"

fun is_close :: "'v event \<Rightarrow> bool" where
  "is_close (EClose g (Ret ())) = True"
| "is_close _ = False"

definition count_if :: "('v event \<Rightarrow> bool) \<Rightarrow> 'v event list \<Rightarrow> nat" where
  "count_if P tr = length (filter P tr)"

lemma count_if_simps [simp]: "count_if P [] = 0" "count_if P (tr @ [e]) = count_if P tr + (if P e then 1 else 0)"
  by (simp_all add: count_if_def)

text \<open>A goroutine that was woken stays so until it returns.\<close>

lemma woken_stays_step:
  assumes i: "ainv a" and s: "astep zero a e a'" and w: "ast a x = Got want v \<or> ast a x = Sent ok"
  shows "ast a' x = ast a x \<or> (\<exists>r u. e = EWokenRecv x r u \<and> ast a x = Got want v) \<or> (\<exists>r. e = EWokenSend x r \<and> ast a x = Sent ok)"
proof -
  note A = ainvD [OF i]
  have n: "\<forall>b. (x, b) \<notin> set (arecv a)" "\<forall>u. (x, u) \<notin> set (asend a)" using w A(3,4) by force+
  have m: "map_of (arecv a) x = None" "x \<notin> fst ` set (asend a)" using n by (force simp: map_of_eq_None_iff)+
  from s show ?thesis
  proof (cases rule: astepE)
    case (1 g v block r)
    then show ?thesis using n(1) w by (auto simp: spec_send_def split: list.splits if_splits)
  next
    case (2 g want block r v)
    then show ?thesis using n(2) w by (auto simp: spec_recv_def take_first_def split: list.splits if_splits)
  next
    case (3 g r)
    then show ?thesis using m by (auto simp: spec_close_def split: if_splits)
  next
    case (4 g ok)
    then show ?thesis using w by (cases "x = g") auto
  next
    case (5 h wt u)
    then show ?thesis using w by (cases "x = h") auto
  qed
qed

lemma woken_stays:
  assumes "run (astep zero) a tr a'" and "ainv a" and "ast a x = Got want v \<or> ast a x = Sent ok"
  shows "ast a' x = ast a x \<or> (\<exists>r u. EWokenRecv x r u \<in> set tr \<and> ast a x = Got want v) \<or>
    (\<exists>r. EWokenSend x r \<in> set tr \<and> ast a x = Sent ok)"
  using assms
proof (induction rule: run.induct)
  case (run_snoc s tr s' e s'')
  have i: "ainv s'" using ainv_run [OF run_snoc.hyps(1)] run_snoc.prems by simp
  show ?case
    using run_snoc.IH [OF run_snoc.prems] run_snoc.prems(2) woken_stays_step [OF i run_snoc.hyps(2), of x want v ok] by fastforce
qed simp

text \<open>A waiting receiver is woken by a close, and after at most as many sends as there are receivers up to it.\<close>

definition waits_recv :: "nat \<Rightarrow> bool \<Rightarrow> nat \<Rightarrow> 'v achan \<Rightarrow> bool" where
  "waits_recv g want k a \<longleftrightarrow> \<not> aclosed a \<and> (\<exists>pre post. arecv a = pre @ (g, want) # post \<and> length pre \<le> k)"

definition waits_send :: "nat \<Rightarrow> nat \<Rightarrow> 'v achan \<Rightarrow> bool" where
  "waits_send g k a \<longleftrightarrow> \<not> aclosed a \<and> (\<exists>pre u post. asend a = pre @ (g, u) # post \<and> length pre \<le> k)"

lemma waits_recvI: "\<not> aclosed a \<Longrightarrow> arecv a = pre @ (g, want) # post \<Longrightarrow> length pre \<le> k \<Longrightarrow> waits_recv g want k a"
  by (auto simp: waits_recv_def)

lemma waits_sendI: "\<not> aclosed a \<Longrightarrow> asend a = pre @ (g, u) # post \<Longrightarrow> length pre \<le> k \<Longrightarrow> waits_send g k a"
  by (auto simp: waits_send_def)

lemma waits_recv_step:
  assumes i: "ainv a" and w: "waits_recv g want k a" and s: "astep zero a e a'"
  shows "(\<exists>v. ast a' g = Got want v) \<or>
    (\<not> is_close e \<and> (if is_send e then 0 < k \<and> waits_recv g want (k - 1) a' else waits_recv g want k a'))"
proof -
  note A = ainvD [OF i]
  obtain pre post where q: "arecv a = pre @ (g, want) # post" "length pre \<le> k" and c: "\<not> aclosed a"
    using w by (auto simp: waits_recv_def)
  have e: "contents a = []" "asend a = []" "abuf a = []" using A(7) q by (simp_all add: contents_def)
  have st: "ast a g = Receiving want" using A(4) q by simp
  from s show ?thesis
  proof (cases rule: astepE)
    case (1 x v block r)
    show ?thesis
    proof (cases pre)
      case Nil
      then have "a' = a\<lparr>arecv := post, ast := (ast a)(g := Got want (Some v))\<rparr>" using 1 q c by (auto simp: spec_send_def)
      then show ?thesis by simp
    next
      case (Cons y ys)
      obtain z b where y: "y = (z, b)" by fastforce
      have r: "r = Ret True" "a' = a\<lparr>arecv := ys @ (g, want) # post, ast := (ast a)(z := Got b (Some v))\<rparr>"
        using 1 q c Cons y by (auto simp: spec_send_def)
      have "waits_recv g want (k - 1) a'" using r(2) c q(2) Cons waits_recvI [of a' ys g want post "k - 1"] by simp
      then show ?thesis using r(1) q(2) Cons 1(1) by simp
    qed
  next
    case (2 x wt block r v)
    have "\<not> is_close e" "\<not> is_send e" using 2 by simp_all
    moreover have "\<not> aclosed a'" "\<exists>post'. arecv a' = pre @ (g, want) # post'"
      using 2 e c q(1) by (auto simp: spec_recv_def split: if_splits)
    then have "waits_recv g want k a'" using q(2) waits_recvI by blast
    ultimately show ?thesis by simp
  next
    case (3 x r)
    have "map_of (arecv a) g = Some want" using q A(2) by (subst map_of_eq_Some_iff) auto
    then show ?thesis using 3 c by (auto simp: spec_close_def)
  next
    case (4 x ok)
    then show ?thesis using q c by (auto simp: waits_recv_def)
  next
    case (5 x wt v)
    then show ?thesis using q c by (auto simp: waits_recv_def)
  qed
qed

lemma waits_send_step:
  assumes i: "ainv a" and w: "waits_send g k a" and s: "astep zero a e a'"
  shows "(\<exists>ok. ast a' g = Sent ok) \<or>
    (\<not> is_close e \<and> (if is_recv e then 0 < k \<and> waits_send g (k - 1) a' else waits_send g k a'))"
proof -
  note A = ainvD [OF i]
  obtain pre u post where q: "asend a = pre @ (g, u) # post" "length pre \<le> k" and c: "\<not> aclosed a"
    using w by (auto simp: waits_send_def)
  have e: "arecv a = []" "length (abuf a) = acap a" using A(6) q by simp_all
  from s show ?thesis
  proof (cases rule: astepE)
    case (1 x v block r)
    have "\<not> is_close e" "\<not> is_recv e" using 1 by simp_all
    moreover have "a' = a \<or> a' = a\<lparr>asend := asend a @ [(x, v)], ast := (ast a)(x := Sending v)\<rparr>"
      using 1(3) e c by (cases block) (simp_all add: spec_send_def)
    then have "waits_send g k a'"
    proof
      assume "a' = a"
      then show ?thesis using w by simp
    next
      assume "a' = a\<lparr>asend := asend a @ [(x, v)], ast := (ast a)(x := Sending v)\<rparr>"
      then show ?thesis using c q waits_sendI [of a' pre g u "post @ [(x, v)]" k] by simp
    qed
    ultimately show ?thesis by simp
  next
    case (2 x wt block r v)
    have n: "contents a \<noteq> []" using q by (simp add: contents_def)
    then have r: "r = Ret (True, True)" "a' = take_first a" using 2 by (auto simp: spec_recv_def split: list.splits)
    show ?thesis
    proof (cases pre)
      case Nil
      then show ?thesis using r q by (auto simp: take_first_def)
    next
      case (Cons y ys)
      obtain z b where y: "y = (z, b)" by fastforce
      have "\<not> aclosed a'" "asend a' = ys @ (g, u) # post" using r(2) c q(1) Cons y by (auto simp: take_first_def)
      then have "waits_send g (k - 1) a'" using q(2) Cons waits_sendI [of a' ys g u post "k - 1"] by simp
      then show ?thesis using r(1) q(2) Cons 2(1) by simp
    qed
  next
    case (3 x r)
    have m: "map_of (arecv a) g = None" "g \<in> fst ` set (asend a)" using q e by auto
    have "a' = snd (spec_close a)" using 3(3) by simp
    then have "ast a' g = Sent False" using m c by (simp add: spec_close_def)
    then show ?thesis by blast
  next
    case (4 x ok)
    then show ?thesis using q c by (auto simp: waits_send_def)
  next
    case (5 x wt v)
    then show ?thesis using q c by (auto simp: waits_send_def)
  qed
qed

lemma waits_recv_run:
  assumes "run (astep zero) a tr a'" and "ainv a" and "waits_recv g want k a"
  shows "(\<exists>r v. EWokenRecv g r v \<in> set tr) \<or> (\<exists>v. ast a' g = Got want v) \<or>
    (count_if is_close tr = 0 \<and> count_if is_send tr \<le> k \<and> waits_recv g want (k - count_if is_send tr) a')"
  using assms
proof (induction rule: run.induct)
  case (run_snoc s tr s' e s'')
  have i: "ainv s'" using ainv_run [OF run_snoc.hyps(1)] run_snoc.prems by simp
  show ?case
    using run_snoc.IH [OF run_snoc.prems] waits_recv_step [OF i _ run_snoc.hyps(2), of g want "k - count_if is_send tr"]
      woken_stays_step [OF i run_snoc.hyps(2), of g want]
    by (fastforce split: if_splits)
qed simp

lemma waits_send_run:
  assumes "run (astep zero) a tr a'" and "ainv a" and "waits_send g k a"
  shows "(\<exists>r. EWokenSend g r \<in> set tr) \<or> (\<exists>ok. ast a' g = Sent ok) \<or>
    (count_if is_close tr = 0 \<and> count_if is_recv tr \<le> k \<and> waits_send g (k - count_if is_recv tr) a')"
  using assms
proof (induction rule: run.induct)
  case (run_snoc s tr s' e s'')
  have i: "ainv s'" using ainv_run [OF run_snoc.hyps(1)] run_snoc.prems by simp
  show ?case
    using run_snoc.IH [OF run_snoc.prems] waits_send_step [OF i _ run_snoc.hyps(2), of g "k - count_if is_recv tr"]
      woken_stays_step [OF i run_snoc.hyps(2), of g]
    by (fastforce split: if_splits)
qed simp

text \<open>No more goroutines wait than have parked.\<close>

lemma waiting_parked:
  assumes "run (astep zero) a tr a'" and "a = empty_chan n"
  shows "length (arecv a') \<le> count_if parks_recv tr \<and> length (asend a') \<le> count_if parks_send tr"
  using assms
proof (induction rule: run.induct)
  case (run_Nil s)
  then show ?case by (simp add: empty_chan_def)
next
  case (run_snoc s tr s' e s'')
  have "length (arecv s'') \<le> length (arecv s') + (if parks_recv e then 1 else 0) \<and>
      length (asend s'') \<le> length (asend s') + (if parks_send e then 1 else 0)"
    using run_snoc.hyps(2)
    by (cases rule: astepE)
      (auto simp: spec_send_def spec_recv_def spec_close_def take_first_def split: if_splits list.splits)
  then show ?case using run_snoc.IH [OF run_snoc.prems] by auto
qed

end
