(* ===== verification/Chan_Correct.thy ===== *)
theory Chan_Correct
  imports Chan_Fifo
begin

text \<open>The properties of channels.\<close>

section \<open>New channels\<close>

text \<open>A state in which nothing has been done with the channel \<open>c\<close>.\<close>

definition fresh :: "'v hchan \<Rightarrow> 'v sys \<Rightarrow> bool" where
  "fresh c s \<longleftrightarrow> (case s of (w, pc) \<Rightarrow>
    ch w = c \<and> (\<forall>g. pc g = PIdle \<and> status (gs w g) = Grunning \<and> clean (sgs w g)))"

definition accepted_elem :: "elemtype \<Rightarrow> bool" where
  "accepted_elem elem \<longleftrightarrow> unat (Size_' elem) < 2 ^ 16 \<and> Align_' elem \<le> 8"

lemma new_hchan_rel: "fresh (new_hchan (zero :: 'v) n) s \<Longrightarrow> rel zero s (empty_chan n)"
  using ainv_empty [of n, where 'a = 'v]
  by (cases s) (simp add: fresh_def rel_def new_hchan_def empty_chan_def ring_def wq_def)

lemma channel_runs: "rel zero s a \<Longrightarrow> run (astep zero) a tr a' \<Longrightarrow> \<exists>s'. run (cstep zero) s tr s'"
  using chan.same_runs [of zero s a tr] by blast

lemma makechan_rel:
  assumes "makechan elem zero n = Ret c" and "fresh c s"
  shows "rel zero s (empty_chan (unat n))"
proof -
  obtain mem ov where m: "MulUintptr (Size_' elem) n = (mem, ov)" by fastforce
  have "c = new_hchan zero (unat n)"
    using assms(1) m by (simp add: makechan_def new_hchan_def split: if_splits)
  then show ?thesis using assms(2) new_hchan_rel [of zero "unat n" s] by simp
qed

lemma reachable_rel:
  assumes "makechan elem zero n = Ret c" and "fresh c s" and "run (cstep zero) s tr (w, pc)"
  obtains a where "run (astep zero) (empty_chan (unat n)) tr a" "rel zero (w, pc) a" "ainv a"
proof -
  obtain a where a: "run (astep zero) (empty_chan (unat n)) tr a" "rel zero (w, pc) a"
    using chan.run_sim [OF assms(3) makechan_rel [OF assms(1,2)]] by blast
  from that [OF a relD(1) [OF a(2)]] show ?thesis .
qed

text \<open>A concrete system for the witnesses: a channel of numbers with room for \<open>n\<close> values.\<close>

definition int_elem :: elemtype where
  "int_elem = \<lparr>Size_' = 8, Align_' = 8\<rparr>"

definition start :: "nat \<Rightarrow> nat sys" where
  "start n = (\<lparr>cells = (\<lambda>_. 0),
    sgs = (\<lambda>_. \<lparr>sg_g = 0, sg_elem = None, sg_next = None, sg_prev = None, sg_isSelect = False, sg_success = False\<rparr>),
    gs = (\<lambda>_. \<lparr>selectDone = 0, waiting = None, param = None, status = Grunning\<rparr>), ch = new_hchan 0 n\<rparr>, \<lambda>_. PIdle)"

lemma start_fresh: "makechan int_elem (0 :: nat) 1 = Ret (new_hchan 0 1)" "fresh (new_hchan 0 n) (start n)"
  by (simp_all add: makechan_eq int_elem_def fresh_def start_def clean_def)

text \<open>A run on a channel with room for one value, which the witnesses use.\<close>

lemma arun_send:
  assumes "ast a g = Idle" and "fst (spec_send g v block a) = r" and "run (astep zero) (snd (spec_send g v block a)) tr a'"
  shows "run (astep zero) a (ESend g v block r # tr) a'"
proof -
  have "astep zero a (ESend g v block r) (snd (spec_send g v block a))"
    using assms(1,2) by (intro astep.intros(1)) auto
  then show ?thesis using assms(3) by (rule run_Cons)
qed

lemma arun_recv:
  assumes "ast a g = Idle" and "fst (spec_recv zero g want block a) = (r, v)"
    and "run (astep zero) (snd (spec_recv zero g want block a)) tr a'"
  shows "run (astep zero) a (ERecv g want block r v # tr) a'"
proof -
  have "astep zero a (ERecv g want block r v) (snd (spec_recv zero g want block a))"
    using assms(1,2) by (intro astep.intros(2)) (auto simp: prod_eq_iff)
  then show ?thesis using assms(3) by (rule run_Cons)
qed

definition example_run :: "nat event list" where
  "example_run = [ERecv 1 True True Parked None, ESend 0 7 True (Ret True), ESend 0 8 True (Ret True), ESend 0 9 True Parked]"

lemma example_run:
  "\<exists>w pc a. run (cstep 0) (start 1) example_run (w, pc) \<and> rel 0 (w, pc) a \<and>
    a = \<lparr>acap = 1, aclosed = False, abuf = [8], asend = [(0, 9)], arecv = [],
      ast = (\<lambda>_. Idle)(1 := Got True (Some 7), 0 := Sending 9)\<rparr>"
proof -
  let ?a0 = "empty_chan 1 :: nat achan"
  let ?a1 = "snd (spec_recv 0 1 True True ?a0)"
  let ?a2 = "snd (spec_send 0 7 True ?a1)"
  let ?a3 = "snd (spec_send 0 8 True ?a2)"
  let ?a4 = "snd (spec_send 0 9 True ?a3)"
  note defs = spec_recv_def spec_send_def empty_chan_def contents_def
  have r: "run (astep 0) ?a0 example_run ?a4"
    unfolding example_run_def
    by ((rule arun_recv, simp add: defs, simp add: defs)+, (rule arun_send, simp add: defs, simp add: defs)+, rule run_Nil)
  have a4: "?a4 = \<lparr>acap = 1, aclosed = False, abuf = [8], asend = [(0, 9)], arecv = [],
      ast = (\<lambda>_. Idle)(1 := Got True (Some 7), 0 := Sending 9)\<rparr>"
    by (simp add: defs)
  have "rel 0 (start 1) ?a0" by (rule new_hchan_rel [OF start_fresh(2)])
  then show ?thesis using chan.rev.run_sim [OF r] a4 by (metis surj_pair)
qed

text \<open>C30. \<open>makechan\<close> on an element type that the compiler accepts panics exactly when the size is negative or the
  buffer would pass the largest allocation, and never throws; the product of the two sizes is computed without
  a silent overflow.  Otherwise the channel is well formed: open, empty, with room for exactly \<open>size\<close> values,
  all slots cleared and nobody waiting.
\<close>

theorem makechan_well_formed:
  assumes "accepted_elem elem"
  shows "case makechan elem zero n of
      Ret c \<Rightarrow> 0 \<le> sint n \<and> unat (Size_' elem) * unat n \<le> 2 ^ 48 - 96 \<and> reflect_chancap (Some c) = unat n \<and>
        reflect_chanlen (Some c) = 0 \<and> ring zero c [] \<and> closed c = 0 \<and> wq s (sendq c) [] \<and> wq s (recvq c) []
    | Panics m \<Rightarrow> m = ''makechan: size out of range'' \<and>
        (sint n < 0 \<or> 2 ^ 48 - 96 < unat (Size_' elem) * unat n)
    | _ \<Rightarrow> False"
  using assms
  by (auto simp: makechan_eq accepted_elem_def new_hchan_def ring_def wq_def reflect_chancap_def reflect_chanlen_def)

lemma makechan_well_formed_witness:
  "case makechan int_elem (0 :: nat) 5 of
      Ret c \<Rightarrow> 0 \<le> sint (5 :: u64) \<and> unat (Size_' int_elem) * unat (5 :: u64) \<le> 2 ^ 48 - 96 \<and>
        reflect_chancap (Some c) = unat (5 :: u64) \<and>
        reflect_chanlen (Some c) = 0 \<and> ring 0 c [] \<and> closed c = 0 \<and>
        wq (sgs (fst (start 0))) (sendq c) [] \<and> wq (sgs (fst (start 0))) (recvq c) []
    | Panics m \<Rightarrow> m = ''makechan: size out of range'' \<and>
        (sint (5 :: u64) < 0 \<or> 2 ^ 48 - 96 < unat (Size_' int_elem) * unat (5 :: u64))
    | _ \<Rightarrow> False"
  by (rule makechan_well_formed) (simp add: accepted_elem_def int_elem_def)

section \<open>Wait queues\<close>

text \<open>C31. On a well-formed queue \<open>dequeue\<close> always returns: it drops the waiters of selects that another case has
  won, takes the first other waiter (marking the goroutine of a select as done), leaves the rest of the queue
  in order, and unlinks every sudog it removes.
\<close>

theorem dequeue_first:
  assumes "wq s q xs"
  shows "\<exists>q' s'. relinked (set xs) s s' \<and> (\<forall>x \<in> set (takeWhile (lost s gg) xs). unlinked s' x) \<and>
    (case dropWhile (lost s gg) xs of
       [] \<Rightarrow> dequeue q s gg = Some (None, q', s', gg) \<and> wq s' q' []
     | x # ys \<Rightarrow> dequeue q s gg = Some (Some x, q', s', won s x gg) \<and> wq s' q' ys \<and> unlinked s' x)"
  by (rule dequeue_wq [OF assms])

text \<open>A queue of two selects, the first already won elsewhere.\<close>

definition two_selects :: "nat \<Rightarrow> sudog" where
  "two_selects x = \<lparr>sg_g = x, sg_elem = None, sg_next = (if x = 1 then Some 2 else None),
    sg_prev = (if x = 2 then Some 1 else None), sg_isSelect = True, sg_success = False\<rparr>"

definition first_done :: "nat \<Rightarrow> gobj" where
  "first_done x = \<lparr>selectDone = (if x = 1 then 1 else 0), waiting = None, param = None, status = Gwaiting\<rparr>"

lemma dequeue_first_witness:
  "\<exists>q' s'. relinked (set [1, 2]) two_selects s' \<and>
    (\<forall>x \<in> set (takeWhile (lost two_selects first_done) [1, 2]). unlinked s' x) \<and>
    (case dropWhile (lost two_selects first_done) [1, 2] of
       [] \<Rightarrow> dequeue \<lparr>wfirst = Some 1, wlast = Some 2\<rparr> two_selects first_done = Some (None, q', s', first_done) \<and> wq s' q' []
     | x # ys \<Rightarrow> dequeue \<lparr>wfirst = Some 1, wlast = Some 2\<rparr> two_selects first_done =
         Some (Some x, q', s', won two_selects x first_done) \<and> wq s' q' ys \<and> unlinked s' x)"
  by (rule dequeue_first) (simp add: wq_def two_selects_def)

section \<open>Refinement\<close>

text \<open>C32. The operations on a channel implement the bounded queue of the language: from any state of goroutines
  that use a new channel, a sequence of operations with their arguments, results, received values, blockings
  and wake-ups is possible for the code exactly when it is possible for the abstract channel.
\<close>

theorem channel_refines:
  assumes "makechan elem zero n = Ret c" and "fresh c s"
  shows "(\<exists>s'. run (cstep zero) s tr s') \<longleftrightarrow> (\<exists>a. run (astep zero) (empty_chan (unat n)) tr a)"
  by (rule chan.same_runs [OF makechan_rel [OF assms]])

lemma channel_refines_witness:
  "(\<exists>s'. run (cstep 0) (start 1) [ESend 0 (7 :: nat) True (Ret True)] s') \<longleftrightarrow>
    (\<exists>a. run (astep 0) (empty_chan (unat (1 :: u64))) [ESend 0 (7 :: nat) True (Ret True)] a)"
  by (rule channel_refines [OF start_fresh(1,2)])

section \<open>Safety\<close>

definition no_throw :: "'a chan_res \<Rightarrow> bool" where
  "no_throw r = (case r of Throws _ \<Rightarrow> False | _ \<Rightarrow> True)"

definition runs :: "('a chan_res \<times> 'v world) option \<Rightarrow> bool" where
  "runs x = (case x of None \<Rightarrow> False | Some (r, _) \<Rightarrow> no_throw r)"

lemma spec_no_throw: "no_throw (fst (spec_send g v block a))" "no_throw (fst (fst (spec_recv zero g want block a)))"
  "no_throw (fst (spec_close a))"
  by (auto simp: spec_send_def spec_recv_def spec_close_def no_throw_def split: list.splits)

lemma rel_idle: "rel zero (w, pc) a \<Longrightarrow> pc g = PIdle \<Longrightarrow> ast a g = Idle"
  using relD(7) [of zero w pc a g] by (cases "ast a g") simp_all

lemma cap_step: "astep zero a e a' \<Longrightarrow> acap a' = acap a"
  by (cases rule: astepE)
    (auto simp: spec_send_def spec_recv_def spec_close_def take_first_def split: if_splits list.splits)

lemma cap_run: "run (astep zero) (empty_chan n) tr a \<Longrightarrow> acap a = n"
proof (induction "empty_chan n :: 'a achan" tr a rule: run.induct)
  case run_Nil
  then show ?case by (simp add: empty_chan_def)
next
  case (run_snoc tr s' e s'')
  then show ?case using cap_step by metis
qed

lemma idle_operations_run:
  assumes R: "rel zero (w, pc) a" and g: "ast a g = Idle"
  shows "runs (chansend False g g g block (w\<lparr>cells := (cells w)(g := v)\<rparr>)) \<and>
    runs (chanrecv zero False g g (dest g want) block w) \<and> runs (closechan zero False w)"
proof -
  obtain r1 a1 where 1: "spec_send g v block a = (r1, a1)" by fastforce
  obtain r2 v2 a2 where 2: "spec_recv zero g want block a = ((r2, v2), a2)" by (metis prod.collapse)
  obtain r3 a3 where 3: "spec_close a = (r3, a3)" by fastforce
  have "runs (chansend False g g g block (w\<lparr>cells := (cells w)(g := v)\<rparr>))"
    using send_refines [OF R g 1] spec_no_throw(1) [of g v block a] 1 by (auto simp: runs_def)
  moreover have "runs (chanrecv zero False g g (dest g want) block w)"
    using recv_refines [OF R g 2] spec_no_throw(2) [of zero g want block a] 2 by (auto simp: runs_def)
  moreover have "runs (closechan zero False w)"
    using close_refines [OF R 3] spec_no_throw(3) [of a] 3 by (auto simp: runs_def)
  ultimately show ?thesis by blast
qed

lemma woken_operations_run:
  assumes R: "rel zero (w, pc) a" and g: "status (gs w g) = Grunnable"
  shows "(pc g = PSend \<longrightarrow> no_throw (fst (chansend_woken g g w))) \<and>
    (\<forall>want. pc g = PRecv want \<longrightarrow> no_throw (fst (chanrecv_woken g g w)))"
proof (cases "ast a g")
  case (Sent ok)
  then show ?thesis
    using woken_send_refines [OF R Sent] relD(7) [OF R, of g] by (auto simp: no_throw_def send_result_def)
next
  case (Got want v)
  then show ?thesis using woken_recv_refines [OF R Got] relD(7) [OF R, of g] by (auto simp: no_throw_def)
qed (use relD(7) [OF R, of g] g in auto)

text \<open>C33. In every reachable state of goroutines that use a new channel, the invariants written at the head of the
  file hold, the counters stay within the buffer, and whatever operation a goroutine starts or resumes ends:
  no index leaves the buffer, no queue walk runs for ever and none of the file's \<open>throw\<close>s is reached (spurious
  wake-up, corrupted waiting list, a sudog taken from or returned to the cache while in use).
\<close>

theorem channel_safe:
  assumes "makechan elem zero n = Ret c" and "fresh c s" and "run (cstep zero) s tr (w, pc)"
  shows "(wfirst (sendq (ch w)) = None \<or> wfirst (recvq (ch w)) = None) \<and>
    (0 < qcount (ch w) \<longrightarrow> wfirst (recvq (ch w)) = None) \<and>
    (qcount (ch w) < dataqsiz (ch w) \<longrightarrow> wfirst (sendq (ch w)) = None) \<and>
    qcount (ch w) \<le> dataqsiz (ch w) \<and> dataqsiz (ch w) = unat n \<and>
    (0 < dataqsiz (ch w) \<longrightarrow> sendx (ch w) < dataqsiz (ch w) \<and> recvx (ch w) < dataqsiz (ch w)) \<and>
    (\<forall>g v want block. pc g = PIdle \<longrightarrow>
      runs (chansend False g g g block (w\<lparr>cells := (cells w)(g := v)\<rparr>)) \<and>
      runs (chanrecv zero False g g (dest g want) block w) \<and> runs (closechan zero False w)) \<and>
    (\<forall>g. status (gs w g) = Grunnable \<longrightarrow>
      (pc g = PSend \<longrightarrow> no_throw (fst (chansend_woken g g w))) \<and>
      (\<forall>want. pc g = PRecv want \<longrightarrow> no_throw (fst (chanrecv_woken g g w))))"
proof -
  obtain a where R: "rel zero (w, pc) a" and run: "run (astep zero) (empty_chan (unat n)) tr a"
    using reachable_rel [OF assms] by blast
  note D = relD [OF R] and A = ainvD [OF relD(1) [OF R]]
  have cap: "acap a = unat n" by (rule cap_run [OF run])
  have q: "wfirst (sendq (ch w)) = None \<longleftrightarrow> asend a = []" "wfirst (recvq (ch w)) = None \<longleftrightarrow> arecv a = []"
    using D(5,6) by (simp_all add: wq_def)
  have r: "qcount (ch w) = length (abuf a)" "0 < dataqsiz (ch w) \<Longrightarrow> sendx (ch w) < dataqsiz (ch w) \<and> recvx (ch w) < dataqsiz (ch w)"
    using D(4) by (simp_all add: ring_def)
  have ops: "runs (chansend False g g g block (w\<lparr>cells := (cells w)(g := v)\<rparr>)) \<and>
      runs (chanrecv zero False g g (dest g want) block w) \<and> runs (closechan zero False w)"
    if "pc g = PIdle" for g v want block
    by (rule idle_operations_run [OF R rel_idle [OF R that]])
  have woken: "(pc g = PSend \<longrightarrow> no_throw (fst (chansend_woken g g w))) \<and>
      (\<forall>want. pc g = PRecv want \<longrightarrow> no_throw (fst (chanrecv_woken g g w)))" if "status (gs w g) = Grunnable" for g
    by (rule woken_operations_run [OF R that])
  show ?thesis
    using A(5,6,7) D(2) q r cap ops woken by (cases "asend a"; cases "arecv a") auto
qed

lemma channel_safe_witness:
  "\<exists>w pc. run (cstep 0) (start 1) example_run (w, pc) \<and>
    (wfirst (sendq (ch w)) = None \<or> wfirst (recvq (ch w)) = None) \<and>
    (0 < qcount (ch w) \<longrightarrow> wfirst (recvq (ch w)) = None) \<and>
    (qcount (ch w) < dataqsiz (ch w) \<longrightarrow> wfirst (sendq (ch w)) = None) \<and>
    qcount (ch w) \<le> dataqsiz (ch w) \<and> dataqsiz (ch w) = unat (1 :: u64) \<and>
    (0 < dataqsiz (ch w) \<longrightarrow> sendx (ch w) < dataqsiz (ch w) \<and> recvx (ch w) < dataqsiz (ch w)) \<and>
    (\<forall>g v want block. pc g = PIdle \<longrightarrow>
      runs (chansend False g g g block (w\<lparr>cells := (cells w)(g := v)\<rparr>)) \<and>
      runs (chanrecv 0 False g g (dest g want) block w) \<and> runs (closechan 0 False w)) \<and>
    (\<forall>g. status (gs w g) = Grunnable \<longrightarrow>
      (pc g = PSend \<longrightarrow> no_throw (fst (chansend_woken g g w))) \<and>
      (\<forall>want. pc g = PRecv want \<longrightarrow> no_throw (fst (chanrecv_woken g g w))))"
proof -
  obtain w pc where r: "run (cstep 0) (start 1) example_run (w, pc)" using example_run by blast
  show ?thesis by (rule exI [of _ w], rule exI [of _ pc], rule conjI [OF r channel_safe [OF start_fresh(1,2) r]])
qed

section \<open>First in, first out\<close>

text \<open>The values in the ring buffer, first to last.\<close>

definition buffered :: "'v hchan \<Rightarrow> 'v list" where
  "buffered c = take (qcount c) (rotate (recvx c) (chbuf c))"

lemma rel_buffered: "rel zero (w, pc) a \<Longrightarrow> buffered (ch w) = abuf a"
  using relD(4) [of zero w pc a] by (simp add: ring_def buffered_def)

text \<open>C34. Values are delivered in the order in which the sends were made, each to one receiver: there is a log of
  deliveries whose values are the values sent, in order, and each goroutine has received, in order, the values
  delivered to it, but for those it was woken with and has not returned yet.  Until the channel is closed
  nothing is lost: what was sent and not delivered is in the buffer or held by blocked senders, in order.
\<close>

theorem channel_fifo:
  assumes "makechan elem zero n = Ret c" and "fresh c s" and "run (cstep zero) s tr (w, pc)"
  shows "\<exists>D :: 'v log. prefix (vals D) (sent tr) \<and> (\<forall>x. prefix (received x tr) (seen x D)) \<and>
    (\<forall>x. pc x = PIdle \<longrightarrow> received x tr = seen x D) \<and>
    (closed (ch w) = 0 \<longrightarrow> (\<exists>held. sent tr = vals D @ buffered (ch w) @ held \<and>
      (wfirst (sendq (ch w)) = None \<longrightarrow> held = [])))"
proof -
  obtain a where run: "run (astep zero) (empty_chan (unat n)) tr a" and R: "rel zero (w, pc) a"
    using reachable_rel [OF assms] by blast
  note D = relD [OF R]
  obtain L where L: "logged tr a L" using logged_run [OF run refl] by blast
  have rs: "received x tr @ pending (ast a x) = seen x L" for x using L by (simp add: logged_def)
  then have "\<forall>x. prefix (received x tr) (seen x L)" by (metis prefixI)
  moreover have "prefix (vals L) (sent tr)" using L by (auto simp: logged_def)
  moreover have "\<forall>x. pc x = PIdle \<longrightarrow> received x tr = seen x L"
    using rs rel_idle [OF R] by (metis append_Nil2 pending.simps(2))
  moreover have "closed (ch w) = 0 \<longrightarrow> (\<exists>held. sent tr = vals L @ buffered (ch w) @ held \<and>
      (wfirst (sendq (ch w)) = None \<longrightarrow> held = []))"
  proof (intro impI exI conjI)
    show "sent tr = vals L @ buffered (ch w) @ map snd (asend a)" if "closed (ch w) = 0"
      using L D(3) rel_buffered [OF R] that by (auto simp: logged_def contents_def)
    show "map snd (asend a) = []" if "wfirst (sendq (ch w)) = None"
      using D(5) that by (cases "asend a") (simp_all add: wq_def)
  qed
  ultimately show ?thesis by (intro exI [of _ L] conjI)
qed

lemma channel_fifo_witness:
  "\<exists>w pc. run (cstep 0) (start 1) example_run (w, pc) \<and>
    (\<exists>D :: nat log. prefix (vals D) (sent example_run) \<and> (\<forall>x. prefix (received x example_run) (seen x D)) \<and>
    (\<forall>x. pc x = PIdle \<longrightarrow> received x example_run = seen x D) \<and>
    (closed (ch w) = 0 \<longrightarrow> (\<exists>held. sent example_run = vals D @ buffered (ch w) @ held \<and>
      (wfirst (sendq (ch w)) = None \<longrightarrow> held = []))))"
proof -
  obtain w pc where r: "run (cstep 0) (start 1) example_run (w, pc)" using example_run by blast
  show ?thesis by (rule exI [of _ w], rule exI [of _ pc], rule conjI [OF r channel_fifo [OF start_fresh(1,2) r]])
qed

section \<open>Waiting and waking\<close>

text \<open>C35. No wake-up is lost: a goroutine that is parked in a receive and has not been readied waits on a channel
  that is open and empty, with no sender waiting, and one parked in a send on a channel that is open and full,
  with no receiver waiting.
\<close>

theorem no_lost_wakeup:
  assumes "makechan elem zero n = Ret c" and "fresh c s" and "run (cstep zero) s tr (w, pc)" and "status (gs w g) = Gwaiting"
  shows "closed (ch w) = 0 \<and>
    (case pc g of PRecv want \<Rightarrow> qcount (ch w) = 0 \<and> wfirst (sendq (ch w)) = None
                | PSend \<Rightarrow> qcount (ch w) = dataqsiz (ch w) \<and> wfirst (recvq (ch w)) = None
                | PIdle \<Rightarrow> False)"
proof -
  obtain a where run: "run (astep zero) (empty_chan (unat n)) tr a" and R: "rel zero (w, pc) a"
    using reachable_rel [OF assms(1-3)] by blast
  note D = relD [OF R] and A = ainvD [OF relD(1) [OF R]]
  have q: "wfirst (sendq (ch w)) = None \<longleftrightarrow> asend a = []" "wfirst (recvq (ch w)) = None \<longleftrightarrow> arecv a = []"
    "qcount (ch w) = length (abuf a)"
    using D(4,5,6) by (simp_all add: wq_def ring_def)
  show ?thesis
  proof (cases "ast a g")
    case (Sending v)
    then have "asend a \<noteq> []" using A(3) [of g v] by auto
    then show ?thesis using A(6,8) D(2,3) q D(7) [of g] Sending by auto
  next
    case (Receiving want)
    then have "arecv a \<noteq> []" using A(4) [of g want] by auto
    then show ?thesis using A(7,8) D(2,3) q D(7) [of g] Receiving by auto
  qed (use D(7) [of g] assms(4) in auto)
qed

lemma no_lost_wakeup_witness:
  "\<exists>w pc. run (cstep 0) (start 1) example_run (w, pc) \<and> status (gs w 0) = Gwaiting \<and> closed (ch w) = 0 \<and>
    (case pc 0 of PRecv want \<Rightarrow> qcount (ch w) = 0 \<and> wfirst (sendq (ch w)) = None
                | PSend \<Rightarrow> qcount (ch w) = dataqsiz (ch w) \<and> wfirst (recvq (ch w)) = None
                | PIdle \<Rightarrow> False)"
proof -
  obtain w pc a where r: "run (cstep 0) (start 1) example_run (w, pc)" "rel 0 (w, pc) a"
    "a = \<lparr>acap = 1, aclosed = False, abuf = [8], asend = [(0, 9)], arecv = [],
      ast = (\<lambda>_. Idle)(1 := Got True (Some 7), 0 := Sending 9)\<rparr>"
    using example_run by blast
  have st: "status (gs w 0) = Gwaiting" using relD(7) [OF r(2), of 0] r(3) by simp
  show ?thesis
    by (rule exI [of _ w], rule exI [of _ pc], rule conjI [OF r(1) conjI [OF st no_lost_wakeup [OF start_fresh(1,2) r(1) st]]])
qed

text \<open>The two halves of C36, on the abstract runs: a goroutine that is receiving is served by the sends, and one that
  is sending by the receives, that come after it.
\<close>

lemma receiver_served:
  assumes run: "run (astep zero) (empty_chan m) tr a" and run': "run (astep zero) a tr' a'" and inv: "ainv a"
    and g: "ast a g = Receiving want \<or> (\<exists>v. ast a g = Got want v)"
    and c: "0 < count_if is_close tr' \<or> count_if parks_recv tr \<le> count_if is_send tr'"
  shows "(\<exists>r v. EWokenRecv g r v \<in> set tr') \<or> (\<exists>v. ast a' g = Got want v)"
  using g
proof
  assume "ast a g = Receiving want"
  then have "(g, want) \<in> set (arecv a)" using ainvD(4) [OF inv] by simp
  then obtain pre post where q: "arecv a = pre @ (g, want) # post" by (meson split_list)
  then have o: "\<not> aclosed a" using ainvD(8) [OF inv] by auto
  have "length pre < count_if parks_recv tr" using waiting_parked [OF run refl] q by simp
  then show ?thesis using waits_recv_run [OF run' inv waits_recvI [OF o q order.refl]] c by auto
next
  assume "\<exists>v. ast a g = Got want v"
  then obtain v where "ast a g = Got want v" by blast
  then show ?thesis using woken_stays [OF run' inv, of g want v] by auto
qed

lemma sender_served:
  assumes run: "run (astep zero) (empty_chan m) tr a" and run': "run (astep zero) a tr' a'" and inv: "ainv a"
    and g: "(\<exists>v. ast a g = Sending v) \<or> (\<exists>ok. ast a g = Sent ok)"
    and c: "0 < count_if is_close tr' \<or> count_if parks_send tr \<le> count_if is_recv tr'"
  shows "(\<exists>r. EWokenSend g r \<in> set tr') \<or> (\<exists>ok. ast a' g = Sent ok)"
  using g
proof
  assume "\<exists>v. ast a g = Sending v"
  then obtain v where "(g, v) \<in> set (asend a)" using ainvD(3) [OF inv] by auto
  then obtain pre post where q: "asend a = pre @ (g, v) # post" by (meson split_list)
  then have o: "\<not> aclosed a" using ainvD(8) [OF inv] by auto
  have "length pre < count_if parks_send tr" using waiting_parked [OF run refl] q by simp
  then show ?thesis using waits_send_run [OF run' inv waits_sendI [OF o q order.refl]] c by auto
next
  assume "\<exists>ok. ast a g = Sent ok"
  then obtain ok where "ast a g = Sent ok" by blast
  then show ?thesis using woken_stays [OF run' inv, of g _ _ ok] by auto
qed

text \<open>C36. Waiting is bounded: a goroutine blocked in a receive is readied, or has returned, once the channel is
  closed or as many later sends have succeeded as receives have ever blocked; the same of senders, with the
  receives that found a value.
\<close>

theorem bounded_waiting:
  assumes "makechan elem zero n = Ret c" and "fresh c s" and "run (cstep zero) s tr (w, pc)"
    and "run (cstep zero) (w, pc) tr' (w', pc')"
  shows "(\<forall>want. pc g = PRecv want \<and> (0 < count_if is_close tr' \<or> count_if parks_recv tr \<le> count_if is_send tr') \<longrightarrow>
      status (gs w' g) = Grunnable \<or> (\<exists>r v. EWokenRecv g r v \<in> set tr')) \<and>
    (pc g = PSend \<and> (0 < count_if is_close tr' \<or> count_if parks_send tr \<le> count_if is_recv tr') \<longrightarrow>
      status (gs w' g) = Grunnable \<or> (\<exists>r. EWokenSend g r \<in> set tr'))"
proof -
  obtain a where run: "run (astep zero) (empty_chan (unat n)) tr a" and R: "rel zero (w, pc) a"
    using reachable_rel [OF assms(1-3)] by blast
  obtain a' where run': "run (astep zero) a tr' a'" and R': "rel zero (w', pc') a'"
    using chan.run_sim [OF assms(4) R] by blast
  note D = relD(7) [OF R, of g] and G = relD(7) [OF R', of g] and inv = relD(1) [OF R]
  have "status (gs w' g) = Grunnable \<or> (\<exists>r v. EWokenRecv g r v \<in> set tr')"
    if "pc g = PRecv want" and c: "0 < count_if is_close tr' \<or> count_if parks_recv tr \<le> count_if is_send tr'" for want
  proof -
    have "ast a g = Receiving want \<or> (\<exists>v. ast a g = Got want v)" using D that(1) by (cases "ast a g") auto
    from receiver_served [OF run run' inv this c] show ?thesis using G by auto
  qed
  moreover have "status (gs w' g) = Grunnable \<or> (\<exists>r. EWokenSend g r \<in> set tr')"
    if "pc g = PSend" and c: "0 < count_if is_close tr' \<or> count_if parks_send tr \<le> count_if is_recv tr'"
  proof -
    have "(\<exists>v. ast a g = Sending v) \<or> (\<exists>ok. ast a g = Sent ok)" using D that(1) by (cases "ast a g") auto
    from sender_served [OF run run' inv this c] show ?thesis using G by auto
  qed
  ultimately show ?thesis by blast
qed

definition example_more :: "nat event list" where
  "example_more = [EWokenRecv 1 (Ret (True, True)) (Some 7), ERecv 1 True False (Ret (True, True)) (Some 8), EWokenSend 0 (Ret True)]"

lemma bounded_waiting_witness:
  "\<exists>w pc w' pc'. run (cstep 0) (start 1) example_run (w, pc) \<and> run (cstep 0) (w, pc) example_more (w', pc') \<and>
    (\<forall>want. pc 1 = PRecv want \<and> (0 < count_if is_close example_more \<or> count_if parks_recv example_run \<le> count_if is_send example_more) \<longrightarrow>
      status (gs w' 1) = Grunnable \<or> (\<exists>r v. EWokenRecv 1 r v \<in> set example_more)) \<and>
    (pc 1 = PSend \<and> (0 < count_if is_close example_more \<or> count_if parks_send example_run \<le> count_if is_recv example_more) \<longrightarrow>
      status (gs w' 1) = Grunnable \<or> (\<exists>r. EWokenSend 1 r \<in> set example_more))"
proof -
  obtain w pc a where r: "run (cstep 0) (start 1) example_run (w, pc)" "rel 0 (w, pc) a"
    "a = \<lparr>acap = 1, aclosed = False, abuf = [8], asend = [(0, 9)], arecv = [],
      ast = (\<lambda>_. Idle)(1 := Got True (Some 7), 0 := Sending 9)\<rparr>"
    using example_run by blast
  let ?b = "a\<lparr>ast := (ast a)(1 := Idle)\<rparr>"
  let ?c = "snd (spec_recv 0 1 True False ?b)"
  have 1: "astep 0 a (EWokenRecv 1 (Ret (True, True)) (Some 7)) ?b"
    using astep.intros(5) [where zero = 0 and a = a and g = 1 and want = True and v = "Some 7"] r(3) by (simp add: recv_value_def)
  have 2: "astep 0 ?b (ERecv 1 True False (Ret (True, True)) (Some 8)) ?c"
    by (rule astep.intros(2)) (use r(3) in \<open>simp_all add: spec_recv_def contents_def\<close>)
  have 3: "astep 0 ?c (EWokenSend 0 (Ret True)) (?c\<lparr>ast := (ast ?c)(0 := Idle)\<rparr>)"
    using astep.intros(4) [where zero = 0 and a = ?c and g = 0 and ok = True] r(3)
    by (simp add: spec_recv_def contents_def take_first_def send_result_def)
  have "run (astep 0) a example_more (?c\<lparr>ast := (ast ?c)(0 := Idle)\<rparr>)"
    unfolding example_more_def 
    by (rule run_Cons [where step = "astep 0", OF 1 run_Cons [where step = "astep 0", OF 2
          run_Cons [where step = "astep 0", OF 3 run_Nil [of "astep 0"]]]])
  then obtain w' pc' where r': "run (cstep 0) (w, pc) example_more (w', pc')"
    using channel_runs [OF r(2)] by (metis surj_pair)
  show ?thesis
    by (rule exI [of _ w], rule exI [of _ pc], rule exI [of _ w'], rule exI [of _ pc'],
      rule conjI [OF r(1) conjI [OF r' bounded_waiting [OF start_fresh(1,2) r(1) r']]])
qed

end
