(* ===== verification/Big_Vec.thy ===== *)
theory Big_Vec
  imports Bits
begin

text \<open>
  Package \<^verbatim>\<open>math/big\<close>: the vectors of words of \<^verbatim>\<open>arith.go\<close>, with the portable choice of \<^verbatim>\<open>arith_decl_pure.go\<close>.
  A vector is the list of its words, least significant first.  An operation that writes to a slice \<open>z\<close> takes the
  old words of \<open>z\<close> and returns the new ones.  Every loop reads the words at an index before it writes there, and
  never reads behind the index, so that a call in place (\<open>z\<close> the same slice as \<open>x\<close>) does what the call on copies
  does.
\<close>

section \<open>Slices of words\<close>

text \<open>\<open>z[i]\<close>, \<open>z[i] = v\<close>, \<open>z[i:j]\<close>, \<open>z[i:]\<close>, \<open>copy(z, x)\<close>, and what \<open>z\<close> holds after a write of \<open>r\<close> to \<open>z[i:i+len(r)]\<close>.\<close>

definition vget :: "'a list \<Rightarrow> nat \<Rightarrow> 'a go" where
  "vget z i = (if i < length z then Inr (z ! i) else Inl IndexOutOfRange)"

definition vset :: "'a list \<Rightarrow> nat \<Rightarrow> 'a \<Rightarrow> 'a list go" where
  "vset z i v = (if i < length z then Inr (z[i := v]) else Inl IndexOutOfRange)"

definition vslice :: "'a list \<Rightarrow> nat \<Rightarrow> nat \<Rightarrow> 'a list go" where
  "vslice z i j = (if i \<le> j \<and> j \<le> length z then Inr (take (j - i) (drop i z)) else Inl IndexOutOfRange)"

definition vfrom :: "'a list \<Rightarrow> nat \<Rightarrow> 'a list go" where
  "vfrom z i = (if i \<le> length z then Inr (drop i z) else Inl IndexOutOfRange)"

definition vcopy :: "'a list \<Rightarrow> 'a list \<Rightarrow> 'a list" where
  "vcopy z x = take (length z) x @ drop (length x) z"

definition patch :: "'a list \<Rightarrow> nat \<Rightarrow> 'a list \<Rightarrow> 'a list" where
  "patch z i r = take i z @ r @ drop (i + length r) z"

section \<open>Words\<close>

definition W :: nat where "W = UintSize"

definition M :: u64 where "M = - 1"

definition mulWW :: "u64 \<Rightarrow> u64 \<Rightarrow> u64 \<times> u64" where
  "mulWW x y = (let (hi, lo) = Mul x y in (hi, lo))"

definition mulAddWWW_g :: "u64 \<Rightarrow> u64 \<Rightarrow> u64 \<Rightarrow> u64 \<times> u64" where
  "mulAddWWW_g x y c = (let (hi, lo) = Mul x y; (lo, cc) = Add lo c 0 in (hi + cc, lo))"

definition nlz :: "u64 \<Rightarrow> nat" where
  "nlz x = nat (LeadingZeros x)"

section \<open>Vectors\<close>

text \<open>The loop over \<open>i\<close> is the recursion over the lists; words of \<open>z\<close> beyond the loop stay.\<close>

fun addVV_loop :: "u64 list \<Rightarrow> u64 list \<Rightarrow> u64 list \<Rightarrow> u64 \<Rightarrow> u64 list \<times> u64" where
  "addVV_loop (z # zs) (x # xs) (y # ys) c =
    (let (zi, cc) = Add x y c; (zs, c) = addVV_loop zs xs ys cc in (zi # zs, c))"
| "addVV_loop zs _ _ c = (zs, c)"

definition addVV_g :: "u64 list \<Rightarrow> u64 list \<Rightarrow> u64 list \<Rightarrow> u64 list \<times> u64" where
  "addVV_g z x y = addVV_loop z x y 0"

fun subVV_loop :: "u64 list \<Rightarrow> u64 list \<Rightarrow> u64 list \<Rightarrow> u64 \<Rightarrow> u64 list \<times> u64" where
  "subVV_loop (z # zs) (x # xs) (y # ys) c =
    (let (zi, cc) = Sub x y c; (zs, c) = subVV_loop zs xs ys cc in (zi # zs, c))"
| "subVV_loop zs _ _ c = (zs, c)"

definition subVV_g :: "u64 list \<Rightarrow> u64 list \<Rightarrow> u64 list \<Rightarrow> u64 list \<times> u64" where
  "subVV_g z x y = subVV_loop z x y 0"

fun addVW_g :: "u64 list \<Rightarrow> u64 list \<Rightarrow> u64 \<Rightarrow> u64 list \<times> u64" where
  "addVW_g (z # zs) (x # xs) c =
    (let (zi, cc) = Add x c 0; (zs, c) = addVW_g zs xs cc in (zi # zs, c))"
| "addVW_g zs _ c = (zs, c)"

fun addVWlarge :: "u64 list \<Rightarrow> u64 list \<Rightarrow> u64 \<Rightarrow> u64 list \<times> u64" where
  "addVWlarge (z # zs) (x # xs) c =
    (if c = 0 then (vcopy (z # zs) (x # xs), c)
     else let (zi, cc) = Add x c 0; (zs, c) = addVWlarge zs xs cc in (zi # zs, c))"
| "addVWlarge zs _ c = (zs, c)"

fun subVW_g :: "u64 list \<Rightarrow> u64 list \<Rightarrow> u64 \<Rightarrow> u64 list \<times> u64" where
  "subVW_g (z # zs) (x # xs) c =
    (let (zi, cc) = Sub x c 0; (zs, c) = subVW_g zs xs cc in (zi # zs, c))"
| "subVW_g zs _ c = (zs, c)"

fun subVWlarge :: "u64 list \<Rightarrow> u64 list \<Rightarrow> u64 \<Rightarrow> u64 list \<times> u64" where
  "subVWlarge (z # zs) (x # xs) c =
    (if c = 0 then (vcopy (z # zs) (x # xs), c)
     else let (zi, cc) = Sub x c 0; (zs, c) = subVWlarge zs xs cc in (zi # zs, c))"
| "subVWlarge zs _ c = (zs, c)"

fun mulAddVWW_g :: "u64 list \<Rightarrow> u64 list \<Rightarrow> u64 \<Rightarrow> u64 \<Rightarrow> u64 list \<times> u64" where
  "mulAddVWW_g (z # zs) (x # xs) y c =
    (let (c, zi) = mulAddWWW_g x y c; (zs, c) = mulAddVWW_g zs xs y c in (zi # zs, c))"
| "mulAddVWW_g zs _ y c = (zs, c)"

fun addMulVVW_loop :: "u64 list \<Rightarrow> u64 list \<Rightarrow> u64 \<Rightarrow> u64 \<Rightarrow> u64 list \<times> u64" where
  "addMulVVW_loop (z # zs) (x # xs) y c =
    (let (z1, z0) = mulAddWWW_g x y z;
         (lo, cc) = Add z0 c 0;
         c = cc + z1;
         (zs, c) = addMulVVW_loop zs xs y c
     in (lo # zs, c))"
| "addMulVVW_loop zs _ y c = (zs, c)"

definition addMulVVW_g :: "u64 list \<Rightarrow> u64 list \<Rightarrow> u64 \<Rightarrow> u64 list \<times> u64" where
  "addMulVVW_g z x y = addMulVVW_loop z x y 0"

section \<open>Shifts\<close>

text \<open>The loops of \<open>shlVU_g\<close>, from \<open>i\<close> down, and of \<open>shrVU_g\<close>, from \<open>i\<close> up; \<open>s'\<close> is \<open>W - s\<close>.\<close>

fun shlVU_loop :: "u64 list \<Rightarrow> nat \<Rightarrow> nat \<Rightarrow> nat \<Rightarrow> u64 list \<Rightarrow> u64 list go" where
  "shlVU_loop x s s' i z =
    (if i > 0
     then go_bind (vget x i) (\<lambda>a. go_bind (vget x (i - 1)) (\<lambda>b.
       go_bind (vset z i (push_bit s a OR drop_bit s' b)) (\<lambda>z. shlVU_loop x s s' (i - 1) z)))
     else Inr z)"

declare shlVU_loop.simps [simp del]

definition shlVU_g :: "u64 list \<Rightarrow> u64 list \<Rightarrow> nat \<Rightarrow> (u64 list \<times> u64) go" where
  "shlVU_g z x s =
    (if s = 0 then Inr (vcopy z x, 0)
     else if length z = 0 then Inr (z, 0)
     else
       let s = s AND (W - 1); s' = W - s; s' = s' AND (W - 1)
       in go_bind (vget x (length z - 1)) (\<lambda>a.
         let c = drop_bit s' a
         in go_bind (shlVU_loop x s s' (length z - 1) z) (\<lambda>z.
           go_bind (vget x 0) (\<lambda>b. go_bind (vset z 0 (push_bit s b)) (\<lambda>z. Inr (z, c))))))"

function shrVU_loop :: "u64 list \<Rightarrow> nat \<Rightarrow> nat \<Rightarrow> nat \<Rightarrow> u64 list \<Rightarrow> u64 list go" where
  "shrVU_loop x s s' i z =
    (if i < length z
     then go_bind (vget x (i - 1)) (\<lambda>a. go_bind (vget x i) (\<lambda>b.
       go_bind (vset z (i - 1) (drop_bit s a OR push_bit s' b)) (\<lambda>z. shrVU_loop x s s' (i + 1) z)))
     else Inr z)"
  by pat_completeness auto
termination
  by (relation "measure (\<lambda>(x, s, s', i, z). length z - i)") (auto simp: vset_def split: if_splits)

declare shrVU_loop.simps [simp del]

definition shrVU_g :: "u64 list \<Rightarrow> u64 list \<Rightarrow> nat \<Rightarrow> (u64 list \<times> u64) go" where
  "shrVU_g z x s =
    (if s = 0 then Inr (vcopy z x, 0)
     else if length z = 0 then Inr (z, 0)
     else if length x \<noteq> length z then Inl (PanicMsg ''len(x) != len(z)'')
     else
       let s = s AND (W - 1); s' = W - s; s' = s' AND (W - 1)
       in go_bind (vget x 0) (\<lambda>a.
         let c = push_bit s' a
         in go_bind (shrVU_loop x s s' 1 z) (\<lambda>z.
           go_bind (vget x (length z - 1)) (\<lambda>b.
             go_bind (vset z (length z - 1) (drop_bit s b)) (\<lambda>z. Inr (z, c))))))"

section \<open>Division by a word\<close>

definition divWW :: "u64 \<Rightarrow> u64 \<Rightarrow> u64 \<Rightarrow> u64 \<Rightarrow> u64 \<times> u64" where
  "divWW x1 x0 y m =
    (let s = nlz y;
         (x1, x0, y) = (if s \<noteq> 0 then (push_bit s x1 OR drop_bit (W - s) x0, push_bit s x0, push_bit s y)
                        else (x1, x0, y));
         d = y;
         (t1, t0) = Mul m x1;
         (_, c) = Add t0 x0 0;
         (t1, _) = Add t1 x1 c;
         qq = t1;
         (dq1, dq0) = Mul d qq;
         (r0, b) = Sub x0 dq0 0;
         (r1, _) = Sub x1 dq1 b;
         (qq, r0) = (if r1 \<noteq> 0 then (qq + 1, r0 - d) else (qq, r0));
         (qq, r0) = (if r0 \<ge> d then (qq + 1, r0 - d) else (qq, r0))
     in (qq, drop_bit s r0))"

definition reciprocalWord :: "u64 \<Rightarrow> u64 go" where
  "reciprocalWord d1 =
    (let u = push_bit (nlz d1) d1; x1 = NOT u; x0 = M
     in go_bind (Div x1 x0 u) (\<lambda>(rec, _). Inr rec))"

section \<open>The portable choice\<close>

definition addVV :: "u64 list \<Rightarrow> u64 list \<Rightarrow> u64 list \<Rightarrow> u64 list \<times> u64" where
  "addVV z x y = addVV_g z x y"

definition subVV :: "u64 list \<Rightarrow> u64 list \<Rightarrow> u64 list \<Rightarrow> u64 list \<times> u64" where
  "subVV z x y = subVV_g z x y"

definition addVW :: "u64 list \<Rightarrow> u64 list \<Rightarrow> u64 \<Rightarrow> u64 list \<times> u64" where
  "addVW z x y = (if length z > 32 then addVWlarge z x y else addVW_g z x y)"

definition subVW :: "u64 list \<Rightarrow> u64 list \<Rightarrow> u64 \<Rightarrow> u64 list \<times> u64" where
  "subVW z x y = (if length z > 32 then subVWlarge z x y else subVW_g z x y)"

definition shlVU :: "u64 list \<Rightarrow> u64 list \<Rightarrow> nat \<Rightarrow> (u64 list \<times> u64) go" where
  "shlVU z x s = shlVU_g z x s"

definition shrVU :: "u64 list \<Rightarrow> u64 list \<Rightarrow> nat \<Rightarrow> (u64 list \<times> u64) go" where
  "shrVU z x s = shrVU_g z x s"

definition mulAddVWW :: "u64 list \<Rightarrow> u64 list \<Rightarrow> u64 \<Rightarrow> u64 \<Rightarrow> u64 list \<times> u64" where
  "mulAddVWW z x y r = mulAddVWW_g z x y r"

definition addMulVVW :: "u64 list \<Rightarrow> u64 list \<Rightarrow> u64 \<Rightarrow> u64 list \<times> u64" where
  "addMulVVW z x y = addMulVVW_g z x y"

end
