(* ===== verification/Big_Nat.thy ===== *)
theory Big_Nat
  imports Big_Vec
begin

text \<open>
  Package \<^verbatim>\<open>math/big\<close>: the natural numbers of \<^verbatim>\<open>nat.go\<close>.  A \<open>nat\<close> that a method writes to is a slice: the words
  of its array up to its capacity, and its length; what \<open>make\<close> leaves in a reused array is what the array held.
  An operand that is only read is the list of its words.  \<open>getNat\<close> finds in the pool whatever earlier calls left
  there: what the calls to come will find is an argument, the list of those arrays (an array is missing when the
  pool is empty).  Slice expressions \<open>s[i:j]\<close> of a vector are checked against its length where the code checks them
  against its capacity: none of those here needs more.
\<close>

section \<open>Slices that are written\<close>

record nat_slice =
  array :: "u64 list"
  count :: nat

definition words :: "nat_slice \<Rightarrow> u64 list" where
  "words z = take (count z) (array z)"

definition nat_nil :: nat_slice where
  "nat_nil = \<lparr>array = [], count = 0\<rparr>"

text \<open>\<open>z[0:n]\<close> within the capacity, \<open>z[i] = v\<close>, the words \<open>r\<close> written from index \<open>i\<close> on, \<open>z.clear()\<close>.\<close>

definition sl_upto :: "nat_slice \<Rightarrow> nat \<Rightarrow> nat_slice go" where
  "sl_upto z n = (if n \<le> length (array z) then Inr (z\<lparr>count := n\<rparr>) else Inl IndexOutOfRange)"

definition sl_set :: "nat_slice \<Rightarrow> nat \<Rightarrow> u64 \<Rightarrow> nat_slice go" where
  "sl_set z i v = (if i < count z then Inr (z\<lparr>array := (array z)[i := v]\<rparr>) else Inl IndexOutOfRange)"

definition sl_put :: "nat_slice \<Rightarrow> nat \<Rightarrow> u64 list \<Rightarrow> nat_slice" where
  "sl_put z i r = z\<lparr>array := patch (array z) i r\<rparr>"

text \<open>
  What an operation does to \<open>z[i:j]\<close> or \<open>z[i:]\<close>, seen from \<open>z\<close>: on a vector, with a result beside the words or
  without one, and on a slice.
\<close>

definition on_part :: "'a list \<Rightarrow> nat \<Rightarrow> nat \<Rightarrow> ('a list \<Rightarrow> ('a list \<times> 'b) go) \<Rightarrow> ('a list \<times> 'b) go" where
  "on_part z i j f = go_bind (vslice z i j) (\<lambda>s. go_bind (f s) (\<lambda>(s, c). Inr (patch z i s, c)))"

definition on_from :: "'a list \<Rightarrow> nat \<Rightarrow> ('a list \<Rightarrow> 'a list go) \<Rightarrow> 'a list go" where
  "on_from z i f = go_bind (vfrom z i) (\<lambda>s. go_bind (f s) (\<lambda>s. Inr (patch z i s)))"

definition on_vec :: "nat_slice \<Rightarrow> nat \<Rightarrow> nat \<Rightarrow> (u64 list \<Rightarrow> (u64 list \<times> 'a) go) \<Rightarrow> (nat_slice \<times> 'a) go" where
  "on_vec z i j f = go_bind (vslice (words z) i j) (\<lambda>s. go_bind (f s) (\<lambda>(s, c). Inr (sl_put z i s, c)))"

lemma on_from_cong [fundef_cong]:
  "z = z' \<Longrightarrow> i = i' \<Longrightarrow> (\<And>s. vfrom z' i' = Inr s \<Longrightarrow> f s = f' s) \<Longrightarrow> on_from z i f = on_from z' i' f'"
  by (auto simp: on_from_def intro: go_bind_cong)

definition clear :: "u64 list \<Rightarrow> u64 list" where
  "clear z = replicate (length z) 0"

section \<open>Storage\<close>

primrec norm_len :: "u64 list \<Rightarrow> nat \<Rightarrow> nat" where
  "norm_len z 0 = 0"
| "norm_len z (Suc i) = (if z ! i = 0 then norm_len z i else Suc i)"

definition norm :: "u64 list \<Rightarrow> u64 list" where
  "norm z = take (norm_len z (length z)) z"

definition nat_norm :: "nat_slice \<Rightarrow> nat_slice" where
  "nat_norm z = z\<lparr>count := norm_len (array z) (count z)\<rparr>"

definition nat_make :: "nat_slice \<Rightarrow> nat \<Rightarrow> nat_slice" where
  "nat_make z n =
    (if n \<le> length (array z) then z\<lparr>count := n\<rparr>
     else if n = 1 then \<lparr>array = replicate 1 0, count = 1\<rparr>
     else let e = 4 in \<lparr>array = replicate (n + e) 0, count = n\<rparr>)"

definition nat_setWord :: "nat_slice \<Rightarrow> u64 \<Rightarrow> nat_slice go" where
  "nat_setWord z x = (if x = 0 then sl_upto z 0 else let z = nat_make z 1 in sl_set z 0 x)"

definition nat_setUint64 :: "nat_slice \<Rightarrow> u64 \<Rightarrow> nat_slice go" where
  "nat_setUint64 z x = nat_setWord z x"

definition nat_set :: "nat_slice \<Rightarrow> u64 list \<Rightarrow> nat_slice" where
  "nat_set z x = (let z = nat_make z (length x) in sl_put z 0 (vcopy (words z) x))"

type_synonym pool = "u64 list list"

definition getNat :: "pool \<Rightarrow> nat \<Rightarrow> (nat_slice \<times> pool) go" where
  "getNat p n =
    (let (a, p) = (case p of [] \<Rightarrow> ([], []) | a # p \<Rightarrow> (a, p));
         z = nat_make \<lparr>array = a, count = 0\<rparr> n
     in if n > 0 then go_bind (sl_set z 0 0xfedcb) (\<lambda>z. Inr (z, p)) else Inr (z, p))"

section \<open>Sum, difference, comparison\<close>

function nat_add :: "nat_slice \<Rightarrow> u64 list \<Rightarrow> u64 list \<Rightarrow> nat_slice go" where
  "nat_add z x y =
    (let m = length x; n = length y in
     if m < n then nat_add z y x
     else if m = 0 then sl_upto z 0
     else if n = 0 then Inr (nat_set z x)
     else
       let z = nat_make z (m + 1)
       in go_bind (on_vec z 0 n (\<lambda>s. Inr (addVV s x y))) (\<lambda>(z, c).
         go_bind (if m > n then go_bind (vfrom x n) (\<lambda>xn. on_vec z n m (\<lambda>s. Inr (addVW s xn c))) else Inr (z, c)) (\<lambda>(z, c).
           go_bind (sl_set z m c) (\<lambda>z. Inr (nat_norm z)))))"
  by pat_completeness auto
termination by (relation "measure (\<lambda>(z, x, y). if length x < length y then 1 else 0)") auto

declare nat_add.simps [simp del]

definition nat_sub :: "nat_slice \<Rightarrow> u64 list \<Rightarrow> u64 list \<Rightarrow> nat_slice go" where
  "nat_sub z x y =
    (let m = length x; n = length y in
     if m < n then Inl (PanicMsg ''underflow'')
     else if m = 0 then sl_upto z 0
     else if n = 0 then Inr (nat_set z x)
     else
       let z = nat_make z m
       in go_bind (on_vec z 0 n (\<lambda>s. Inr (subVV s x y))) (\<lambda>(z, c).
         go_bind (if m > n then go_bind (vfrom x n) (\<lambda>xn. on_vec z n m (\<lambda>s. Inr (subVW s xn c))) else Inr (z, c)) (\<lambda>(z, c).
           if c \<noteq> 0 then Inl (PanicMsg ''underflow'') else Inr (nat_norm z))))"

primrec cmp_loop :: "u64 list \<Rightarrow> u64 list \<Rightarrow> nat \<Rightarrow> nat" where
  "cmp_loop x y 0 = 0"
| "cmp_loop x y (Suc i) = (if x ! Suc i = y ! Suc i then cmp_loop x y i else Suc i)"

definition nat_cmp :: "u64 list \<Rightarrow> u64 list \<Rightarrow> int" where
  "nat_cmp x y =
    (let m = length x; n = length y in
     if m \<noteq> n \<or> m = 0 then (if m < n then -1 else if m > n then 1 else 0)
     else
       let i = cmp_loop x y (m - 1)
       in if x ! i < y ! i then -1 else if x ! i > y ! i then 1 else 0)"

section \<open>Products\<close>

definition nat_mulAddWW :: "nat_slice \<Rightarrow> u64 list \<Rightarrow> u64 \<Rightarrow> u64 \<Rightarrow> nat_slice go" where
  "nat_mulAddWW z x y r =
    (let m = length x in
     if m = 0 \<or> y = 0 then nat_setWord z r
     else
       let z = nat_make z (m + 1)
       in go_bind (on_vec z 0 m (\<lambda>s. Inr (mulAddVWW s x y r))) (\<lambda>(z, c).
         go_bind (sl_set z m c) (\<lambda>z. Inr (nat_norm z))))"

fun basicMul_loop :: "u64 list \<Rightarrow> u64 list \<Rightarrow> nat \<Rightarrow> u64 list \<Rightarrow> u64 list go" where
  "basicMul_loop z x i [] = Inr z"
| "basicMul_loop z x i (d # ds) =
    (if d \<noteq> 0
     then go_bind (vslice z i (i + length x)) (\<lambda>s.
       let (s, c) = addMulVVW s x d
       in go_bind (vset (patch z i s) (length x + i) c) (\<lambda>z. basicMul_loop z x (i + 1) ds))
     else basicMul_loop z x (i + 1) ds)"

definition basicMul :: "u64 list \<Rightarrow> u64 list \<Rightarrow> u64 list \<Rightarrow> u64 list go" where
  "basicMul z x y =
    go_bind (vslice z 0 (length x + length y)) (\<lambda>s. basicMul_loop (patch z 0 (clear s)) x 0 y)"

definition karatsubaAdd :: "u64 list \<Rightarrow> u64 list \<Rightarrow> nat \<Rightarrow> u64 list go" where
  "karatsubaAdd z x n =
    go_bind (on_part z 0 n (\<lambda>s. Inr (addVV s z x))) (\<lambda>(z, c).
      if c \<noteq> 0
      then go_bind (vfrom z n) (\<lambda>zn. go_bind (on_part z n (n + n div 2) (\<lambda>s. Inr (addVW s zn c))) (\<lambda>(z, _). Inr z))
      else Inr z)"

definition karatsubaSub :: "u64 list \<Rightarrow> u64 list \<Rightarrow> nat \<Rightarrow> u64 list go" where
  "karatsubaSub z x n =
    go_bind (on_part z 0 n (\<lambda>s. Inr (subVV s z x))) (\<lambda>(z, c).
      if c \<noteq> 0
      then go_bind (vfrom z n) (\<lambda>zn. go_bind (on_part z n (n + n div 2) (\<lambda>s. Inr (subVW s zn c))) (\<lambda>(z, _). Inr z))
      else Inr z)"

definition karatsubaThreshold :: nat where "karatsubaThreshold = 40"

text \<open>The absolute difference of \<open>a\<close> and \<open>b\<close>, left in \<open>d\<close>, and its sign times \<open>s\<close>.\<close>

definition karatsuba_diff :: "u64 list \<Rightarrow> u64 list \<Rightarrow> u64 list \<Rightarrow> int \<Rightarrow> u64 list \<times> int" where
  "karatsuba_diff d a b s =
    (let (d, c) = subVV d a b in if c \<noteq> 0 then let (d, _) = subVV d b a in (d, - s) else (d, s))"

text \<open>The sums at the end: \<open>z\<close> is written from \<open>n2\<close> on, \<open>r\<close> and \<open>p\<close> are its upper parts.\<close>

definition karatsuba_sum :: "u64 list \<Rightarrow> nat \<Rightarrow> nat \<Rightarrow> int \<Rightarrow> u64 list go" where
  "karatsuba_sum z n n2 s =
    go_bind (vslice z 0 (n * 2)) (\<lambda>s0. go_bind (on_from z (n * 4) (\<lambda>r. Inr (vcopy r s0))) (\<lambda>z.
    go_bind (vfrom z (n * 4)) (\<lambda>r. go_bind (on_from z n2 (\<lambda>zn. karatsubaAdd zn r n)) (\<lambda>z.
    go_bind (vfrom z (n * 4)) (\<lambda>r. go_bind (vfrom r n) (\<lambda>rn. go_bind (on_from z n2 (\<lambda>zn. karatsubaAdd zn rn n)) (\<lambda>z.
    go_bind (vfrom z (n * 3)) (\<lambda>p. on_from z n2 (\<lambda>zn. if s > 0 then karatsubaAdd zn p n else karatsubaSub zn p n)))))))))"

function karatsuba :: "u64 list \<Rightarrow> u64 list \<Rightarrow> u64 list \<Rightarrow> u64 list go" where
  "karatsuba z x y =
    (let n = length y in
     if n mod 2 \<noteq> 0 \<or> n < karatsubaThreshold \<or> n < 2 then basicMul z x y
     else
       let n2 = n div 2
       in go_bind (vfrom x n2) (\<lambda>x1. go_bind (vslice x 0 n2) (\<lambda>x0.
         go_bind (vfrom y n2) (\<lambda>y1. go_bind (vslice y 0 n2) (\<lambda>y0.
         go_bind (karatsuba z x0 y0) (\<lambda>z. go_bind (on_from z n (\<lambda>zn. karatsuba zn x1 y1)) (\<lambda>z.
         go_bind (on_part z (2 * n) (2 * n + n2) (\<lambda>xd. Inr (karatsuba_diff xd x1 x0 1))) (\<lambda>(z, s).
         go_bind (on_part z (2 * n + n2) (3 * n) (\<lambda>yd. Inr (karatsuba_diff yd y0 y1 s))) (\<lambda>(z, s).
         go_bind (vslice z (2 * n) (2 * n + n2)) (\<lambda>xd. go_bind (vslice z (2 * n + n2) (3 * n)) (\<lambda>yd.
         go_bind (on_from z (n * 3) (\<lambda>p. karatsuba p xd yd)) (\<lambda>z.
         karatsuba_sum z n n2 s))))))))))))"
  by pat_completeness auto
termination
  by (relation "measure (\<lambda>(z, x, y). length y)") (auto simp: vslice_def vfrom_def split: if_splits)

declare karatsuba.simps [simp del]

definition addAt :: "u64 list \<Rightarrow> u64 list \<Rightarrow> nat \<Rightarrow> u64 list go" where
  "addAt z x i =
    (let n = length x in
     if n > 0
     then go_bind (vfrom z i) (\<lambda>zi. go_bind (on_part z i (i + n) (\<lambda>s. Inr (addVV s zi x))) (\<lambda>(z, c).
       if c \<noteq> 0
       then let j = i + n in
         if j < length z
         then go_bind (vfrom z j) (\<lambda>zj. on_from z j (\<lambda>s. Inr (fst (addVW s zj c))))
         else Inr z
       else Inr z))
     else Inr z)"

fun karatsubaLen_loop :: "nat \<Rightarrow> nat \<Rightarrow> nat \<Rightarrow> nat" where
  "karatsubaLen_loop n threshold i =
    (if n > threshold then karatsubaLen_loop (n div 2) threshold (i + 1) else push_bit i n)"

declare karatsubaLen_loop.simps [simp del]

definition karatsubaLen :: "nat \<Rightarrow> nat \<Rightarrow> nat" where
  "karatsubaLen n threshold = karatsubaLen_loop n threshold 0"

text \<open>
  \<open>on_words z f\<close> is what a vector operation \<open>f\<close> leaves of the slice \<open>z\<close>.  The loop
  \<open>for i := k; i < n; i += k\<close> runs over the indices \<open>steps k k n\<close> (\<open>k\<close> is never zero there).
\<close>

definition on_words :: "nat_slice \<Rightarrow> (u64 list \<Rightarrow> u64 list go) \<Rightarrow> nat_slice go" where
  "on_words z f = go_bind (f (words z)) (\<lambda>w. Inr (sl_put z 0 w))"

function steps :: "nat \<Rightarrow> nat \<Rightarrow> nat \<Rightarrow> nat list" where
  "steps k i n = (if i < n \<and> 0 < k then i # steps k (i + k) n else [])"
  by pat_completeness auto
termination by (relation "measure (\<lambda>(k, i, n). n - i)") auto

declare steps.simps [simp del]

lemma norm_len_le: "norm_len z n \<le> n"
  by (induction n) auto

lemma length_norm_le: "length (norm z) \<le> length z"
  by (simp add: norm_def)

lemma karatsubaLen_loop_le: "karatsubaLen_loop n t i \<le> n * 2 ^ i"
proof (induction n t i rule: karatsubaLen_loop.induct)
  case (1 n t i)
  show ?case
  proof (cases "n > t")
    case True
    have "karatsubaLen_loop (n div 2) t (i + 1) \<le> n div 2 * (2 * 2 ^ i)" using 1 True by simp
    also have "\<dots> = n div 2 * 2 * 2 ^ i" by (simp only: mult.assoc)
    also have "\<dots> \<le> n * 2 ^ i" by (intro mult_le_mono1) simp
    finally show ?thesis using True by (subst karatsubaLen_loop.simps) simp
  qed (subst karatsubaLen_loop.simps, simp add: push_bit_eq_mult)
qed

lemma karatsubaLen_le: "karatsubaLen n t \<le> n"
  using karatsubaLen_loop_le [of n t 0] by (simp add: karatsubaLen_def)

text \<open>\<open>al\<close>: whether \<open>z\<close> shares its array with \<open>x\<close> or \<open>y\<close>.\<close>

function nat_mul :: "bool \<Rightarrow> pool \<Rightarrow> nat_slice \<Rightarrow> u64 list \<Rightarrow> u64 list \<Rightarrow> (nat_slice \<times> pool) go" where
  "nat_mul al p z x y =
    (let m = length x; n = length y in
     if m < n then nat_mul al p z y x
     else if m = 0 \<or> n = 0 then go_bind (sl_upto z 0) (\<lambda>z. Inr (z, p))
     else if n = 1 then go_bind (vget y 0) (\<lambda>y0. go_bind (nat_mulAddWW z x y0 0) (\<lambda>z. Inr (z, p)))
     else
       let z = (if al then nat_nil else z) in
       if n < karatsubaThreshold
       then let z = nat_make z (m + n) in go_bind (on_words z (\<lambda>w. basicMul w x y)) (\<lambda>z. Inr (nat_norm z, p))
       else
         let k = karatsubaLen n karatsubaThreshold
         in go_bind (vslice x 0 k) (\<lambda>x0. go_bind (vslice y 0 k) (\<lambda>y0.
           let z = nat_make z (max (6 * k) (m + n))
           in go_bind (on_words z (\<lambda>w. karatsuba w x0 y0)) (\<lambda>z. go_bind (sl_upto z (m + n)) (\<lambda>z.
           go_bind (on_words z (\<lambda>w. on_from w (2 * k) (\<lambda>s. Inr (clear s)))) (\<lambda>z.
           if k < n \<or> m \<noteq> n
           then go_bind (getNat p (3 * k)) (\<lambda>(t, p).
             let x0 = norm x0
             in go_bind (vfrom y k) (\<lambda>y1. go_bind (nat_mul False p t x0 y1) (\<lambda>(t, p).
             go_bind (on_words z (\<lambda>w. addAt w (words t) k)) (\<lambda>z.
             let y0 = norm y0
             in go_bind (go_fold (\<lambda>i (z, t, p).
                 go_bind (vfrom x i) (\<lambda>xi. let xi = norm (if length xi > k then take k xi else xi) in
                 go_bind (nat_mul False p t xi y0) (\<lambda>(t, p). go_bind (on_words z (\<lambda>w. addAt w (words t) i)) (\<lambda>z.
                 go_bind (nat_mul False p t xi y1) (\<lambda>(t, p). go_bind (on_words z (\<lambda>w. addAt w (words t) (i + k))) (\<lambda>z.
                 Inr (z, t, p)))))))
               (steps k k (length x)) (z, t, p)) (\<lambda>(z, t, p). Inr (nat_norm z, p))))))
           else Inr (nat_norm z, p)))))))"
  by pat_completeness auto
termination
proof -
  let ?k = "\<lambda>y. karatsubaLen (length y) karatsubaThreshold"
  have le: "?k y \<le> length y" for y :: "u64 list" by (rule karatsubaLen_le)
  have part: "length (norm (take (?k y) a)) \<le> ?k y" for a y :: "u64 list"
    using length_norm_le [of "take (?k y) a"] by simp
  have A: "length (norm (take (?k y) a)) + length y - ?k y < length x + length y" if "x \<noteq> []" for a x y :: "u64 list"
    using part [of y a] le [of y] that by (cases x) simp_all
  have A': "length (norm (drop i x)) + length y - ?k y < length x + length y"
    if "\<not> ?k y < length x - i" and "x \<noteq> []" for i and x y :: "u64 list"
    using length_norm_le [of "drop i x"] le [of y] that by (cases x) simp_all
  have C: "length (norm (take (?k y) a)) + length (norm (take (?k y) b)) < length x + length y"
    if "?k y < length y \<or> length x \<noteq> length y" and "\<not> length x < length y" for a b x y :: "u64 list"
    using part [of y a] part [of y b] le [of y] that by linarith
  have C': "length (norm (drop i x)) + length (norm (take (?k y) b)) < length x + length y"
    if "\<not> ?k y < length x - i" and "?k y < length y \<or> length x \<noteq> length y" and "\<not> length x < length y"
    for i and b x y :: "u64 list"
    using length_norm_le [of "drop i x"] part [of y b] le [of y] that unfolding length_drop by linarith
  show ?thesis
    by (relation "measures [\<lambda>(al, p, z, x, y). length x + length y, \<lambda>(al, p, z, x, y). if length x < length y then 1 else 0]")
      (auto simp: vslice_def vfrom_def le A A' C C' split: if_splits)
qed

declare nat_mul.simps [simp del]

end
