(* ===== verification/Big_Vec_Spec.thy ===== *)
theory Big_Vec_Spec
  imports Big_Vec Bits_Arith
begin

text \<open>
  The vector operations of \<^verbatim>\<open>math/big\<close> as arithmetic on the numbers that the vectors stand for, in base \<open>B = 2 ^ 64\<close>.
\<close>

section \<open>Values\<close>

definition B :: nat where "B = 2 ^ 64"

primrec val :: "u64 list \<Rightarrow> nat" where
  "val [] = 0"
| "val (x # xs) = unat x + B * val xs"

lemma B_pos [simp]: "0 < B" "B \<noteq> 0" "1 < B" "Suc 0 < B"
  by (simp_all add: B_def)

lemma unat_lt_B [simp]: "unat (x :: u64) < B"
  by (simp add: B_def)

lemma unat_le_B: "unat (x :: u64) \<le> B - 1"
  using unat_lt_B [of x] by linarith

lemma val_append: "val (xs @ ys) = val xs + B ^ length xs * val ys"
  by (induction xs) (simp_all add: algebra_simps)

lemma val_lt: "val xs < B ^ length xs"
proof (induction xs)
  case (Cons x xs)
  have "unat x + B * val xs < B + B * val xs" by simp
  also have "\<dots> = B * Suc (val xs)" by simp
  also have "\<dots> \<le> B * B ^ length xs" using Cons by (intro mult_le_mono2) simp
  finally show ?case by simp
qed simp

lemma val_zeros [simp]: "val (replicate n 0) = 0"
  by (induction n) simp_all

lemma val_split: "i \<le> length xs \<Longrightarrow> val xs = val (take i xs) + B ^ i * val (drop i xs)"
  using val_append [of "take i xs" "drop i xs"] by simp

lemma val_snoc: "val (xs @ [x]) = val xs + B ^ length xs * unat x"
  by (simp add: val_append)

lemma length_patch [simp]: "i + length r \<le> length z \<Longrightarrow> length (patch z i r) = length z"
  by (simp add: patch_def)

lemma val_patch:
  assumes "i + length r \<le> length z"
  shows "val (patch z i r) = val (take i z) + B ^ i * val r + B ^ (i + length r) * val (drop (i + length r) z)"
  using assms by (simp add: patch_def val_append power_add algebra_simps)

lemma vget_ok [simp]: "i < length z \<Longrightarrow> vget z i = Inr (z ! i)"
  by (simp add: vget_def)

lemma vset_ok [simp]: "i < length z \<Longrightarrow> vset z i v = Inr (z[i := v])"
  by (simp add: vset_def)

lemma vslice_ok [simp]: "i \<le> j \<Longrightarrow> j \<le> length z \<Longrightarrow> vslice z i j = Inr (take (j - i) (drop i z))"
  by (simp add: vslice_def)

lemma vfrom_ok [simp]: "i \<le> length z \<Longrightarrow> vfrom z i = Inr (drop i z)"
  by (simp add: vfrom_def)

lemma W_eq [simp]: "W = 64"
  by (simp add: W_def UintSize_def)

lemma unat_M: "unat M = B - 1"
  by (simp add: M_def B_def unsigned_minus_1_eq_mask mask_eq_exp_minus_1)

lemmas Add_val = Add_carry [folded B_def] and Sub_val = Sub_borrow [folded B_def] and Mul_val = Mul_product [folded B_def]

section \<open>Sums and differences\<close>

lemma addVV_loop_val:
  assumes "addVV_loop z x y c = (r, k)" and "length z \<le> length x" and "length z \<le> length y" and "unat c \<le> 1"
  shows "val r + B ^ length z * unat k = val (take (length z) x) + val (take (length z) y) + unat c \<and>
    unat k \<le> 1 \<and> length r = length z"
  using assms
proof (induction z x y c arbitrary: r k rule: addVV_loop.induct)
  case (1 z zs x xs y ys c)
  obtain zi cc where a: "Add x y c = (zi, cc)" by fastforce
  obtain r' k' where l: "addVV_loop zs xs ys cc = (r', k')" by fastforce
  note A = Add_val [OF "1.prems"(4) a]
  have rk: "r = zi # r'" "k = k'" using "1.prems"(1) a l by simp_all
  have i: "val r' + B ^ length zs * unat k' = val (take (length zs) xs) + val (take (length zs) ys) + unat cc \<and>
      unat k' \<le> 1 \<and> length r' = length zs"
    using "1.prems"(2,3) A(2) l by (intro "1.IH" [OF a [symmetric] refl]) simp_all
  then have "B * (val r' + B ^ length zs * unat k') = B * (val (take (length zs) xs) + val (take (length zs) ys) + unat cc)" by simp
  then show ?case using i A(1) rk by (simp add: algebra_simps)
qed auto

lemma addVV_val:
  assumes "addVV z x y = (r, k)" and "length z \<le> length x" and "length z \<le> length y"
  shows "val r + B ^ length z * unat k = val (take (length z) x) + val (take (length z) y)" "unat k \<le> 1" "length r = length z"
  using addVV_loop_val [of z x y 0 r k] assms by (auto simp: addVV_def addVV_g_def)

lemma subVV_loop_val:
  assumes "subVV_loop z x y c = (r, k)" and "length z \<le> length x" and "length z \<le> length y" and "unat c \<le> 1"
  shows "val (take (length z) x) + B ^ length z * unat k = val r + val (take (length z) y) + unat c \<and>
    unat k \<le> 1 \<and> length r = length z"
  using assms
proof (induction z x y c arbitrary: r k rule: subVV_loop.induct)
  case (1 z zs x xs y ys c)
  obtain zi cc where a: "Sub x y c = (zi, cc)" by fastforce
  obtain r' k' where l: "subVV_loop zs xs ys cc = (r', k')" by fastforce
  note A = Sub_val [OF "1.prems"(4) a]
  have rk: "r = zi # r'" "k = k'" using "1.prems"(1) a l by simp_all
  have i: "val (take (length zs) xs) + B ^ length zs * unat k' = val r' + val (take (length zs) ys) + unat cc \<and>
      unat k' \<le> 1 \<and> length r' = length zs"
    using "1.prems"(2,3) A(2) l by (intro "1.IH" [OF a [symmetric] refl]) simp_all
  then have "B * (val (take (length zs) xs) + B ^ length zs * unat k') = B * (val r' + val (take (length zs) ys) + unat cc)" by simp
  then show ?case using i A(1) rk by (simp add: algebra_simps)
qed auto

lemma subVV_val:
  assumes "subVV z x y = (r, k)" and "length z \<le> length x" and "length z \<le> length y"
  shows "val (take (length z) x) + B ^ length z * unat k = val r + val (take (length z) y)" "unat k \<le> 1" "length r = length z"
  using subVV_loop_val [of z x y 0 r k] assms by (auto simp: subVV_def subVV_g_def)

text \<open>With a single word: the large versions stop at the first zero carry.\<close>

lemma Add_0: "Add x 0 0 = (x, 0)"
proof -
  obtain s k where a: "Add x 0 0 = (s, k)" by fastforce
  have "unat s + B * unat k = unat x" using Add_val(1) [OF _ a] by simp
  then have "unat k = 0" using unat_lt_B [of x] by (cases "unat k") simp_all
  then show ?thesis using a \<open>unat s + B * unat k = unat x\<close> by (simp add: word_unat_eq_iff)
qed

lemma Sub_0: "Sub x 0 0 = (x, 0)"
proof -
  obtain s k where a: "Sub x 0 0 = (s, k)" by fastforce
  have "unat x + B * unat k = unat s" using Sub_val(1) [OF _ a] by simp
  then have "unat k = 0" using unat_lt_B [of s] by (cases "unat k") simp_all
  then show ?thesis using a \<open>unat x + B * unat k = unat s\<close> by (simp add: word_unat_eq_iff)
qed

lemma addVW_g_0: "length z \<le> length x \<Longrightarrow> addVW_g z x 0 = (vcopy z x, 0)"
proof (induction z x "0 :: u64" rule: addVW_g.induct)
  case (1 z zs x xs)
  have "addVW_g zs xs 0 = (vcopy zs xs, 0)" using 1 Add_0 by simp
  then show ?case by (simp add: Add_0 vcopy_def)
qed (auto simp: vcopy_def)

lemma addVWlarge_eq: "length z \<le> length x \<Longrightarrow> addVWlarge z x c = addVW_g z x c"
proof (induction z x c rule: addVWlarge.induct)
  case (1 z zs x xs c)
  then show ?case using addVW_g_0 [of "z # zs" "x # xs"] by (cases "c = 0") (auto split: prod.split)
qed auto

lemma subVW_g_0: "length z \<le> length x \<Longrightarrow> subVW_g z x 0 = (vcopy z x, 0)"
proof (induction z x "0 :: u64" rule: subVW_g.induct)
  case (1 z zs x xs)
  have "subVW_g zs xs 0 = (vcopy zs xs, 0)" using 1 Sub_0 by simp
  then show ?case by (simp add: Sub_0 vcopy_def)
qed (auto simp: vcopy_def)

lemma subVWlarge_eq: "length z \<le> length x \<Longrightarrow> subVWlarge z x c = subVW_g z x c"
proof (induction z x c rule: subVWlarge.induct)
  case (1 z zs x xs c)
  then show ?case using subVW_g_0 [of "z # zs" "x # xs"] by (cases "c = 0") (auto split: prod.split)
qed auto

lemma addVW_g_val:
  assumes "addVW_g z x c = (r, k)" and "length z \<le> length x"
  shows "val r + B ^ length z * unat k = val (take (length z) x) + unat c \<and> length r = length z"
  using assms
proof (induction z x c arbitrary: r k rule: addVW_g.induct)
  case (1 z zs x xs c)
  obtain zi cc where a: "Add x c 0 = (zi, cc)" by fastforce
  obtain r' k' where l: "addVW_g zs xs cc = (r', k')" by fastforce
  have A: "unat zi + B * unat cc = unat x + unat c" using Add_val(1) [OF _ a] by simp
  have rk: "r = zi # r'" "k = k'" using "1.prems"(1) a l by simp_all
  have i: "val r' + B ^ length zs * unat k' = val (take (length zs) xs) + unat cc \<and> length r' = length zs"
    using "1.prems"(2) l by (intro "1.IH" [OF a [symmetric] refl]) simp_all
  then have "B * (val r' + B ^ length zs * unat k') = B * (val (take (length zs) xs) + unat cc)" by simp
  then show ?case using i A rk by (simp add: algebra_simps)
qed auto

lemma subVW_g_val:
  assumes "subVW_g z x c = (r, k)" and "length z \<le> length x"
  shows "val (take (length z) x) + B ^ length z * unat k = val r + unat c \<and> length r = length z"
  using assms
proof (induction z x c arbitrary: r k rule: subVW_g.induct)
  case (1 z zs x xs c)
  obtain zi cc where a: "Sub x c 0 = (zi, cc)" by fastforce
  obtain r' k' where l: "subVW_g zs xs cc = (r', k')" by fastforce
  have A: "unat x + B * unat cc = unat zi + unat c" using Sub_val(1) [OF _ a] by simp
  have rk: "r = zi # r'" "k = k'" using "1.prems"(1) a l by simp_all
  have i: "val (take (length zs) xs) + B ^ length zs * unat k' = val r' + unat cc \<and> length r' = length zs"
    using "1.prems"(2) l by (intro "1.IH" [OF a [symmetric] refl]) simp_all
  then have "B * (val (take (length zs) xs) + B ^ length zs * unat k') = B * (val r' + unat cc)" by simp
  then show ?case using i A rk by (simp add: algebra_simps)
qed auto

lemma addVW_val:
  assumes "addVW z x c = (r, k)" and "length z \<le> length x"
  shows "val r + B ^ length z * unat k = val (take (length z) x) + unat c" "length r = length z"
  using addVW_g_val [of z x c r k] assms addVWlarge_eq [of z x c] by (auto simp: addVW_def split: if_splits)

lemma subVW_val:
  assumes "subVW z x c = (r, k)" and "length z \<le> length x"
  shows "val (take (length z) x) + B ^ length z * unat k = val r + unat c" "length r = length z"
  using subVW_g_val [of z x c r k] assms subVWlarge_eq [of z x c] by (auto simp: subVW_def split: if_splits)

section \<open>Products with a word\<close>

lemma mulAddWWW_val:
  assumes "mulAddWWW_g x y c = (hi, lo)"
  shows "unat hi * B + unat lo = unat x * unat y + unat c"
proof -
  obtain h l where m: "Mul x y = (h, l)" by fastforce
  obtain l' cc where a: "Add l c 0 = (l', cc)" by fastforce
  have e: "hi = h + cc" "lo = l'" using assms m a by (simp_all add: mulAddWWW_g_def)
  have M: "unat h * B + unat l = unat x * unat y" by (rule Mul_val [OF m])
  have A: "unat l' + B * unat cc = unat l + unat c" using Add_val(1) [OF _ a] by simp
  have "unat x * unat y + unat c \<le> (B - 1) * (B - 1) + (B - 1)" by (intro add_mono mult_le_mono unat_le_B)
  also have "\<dots> = (B - 1) * (B - 1 + 1)" by (simp only: distrib_left mult_1_right)
  also have "\<dots> = (B - 1) * B" by simp
  finally have "(unat h + unat cc) * B \<le> (B - 1) * B" using M A by (simp add: algebra_simps)
  then have "unat h + unat cc \<le> B - 1" by simp
  then have "unat h + unat cc < B" using B_pos(1) by linarith
  then have "unat hi = unat h + unat cc" unfolding e by (subst unat_plus_if') (simp add: B_def)
  then show ?thesis using M A e by (simp add: algebra_simps)
qed

lemma mulAddVWW_g_val:
  assumes "mulAddVWW_g z x y c = (r, k)" and "length z \<le> length x"
  shows "val r + B ^ length z * unat k = val (take (length z) x) * unat y + unat c \<and> length r = length z"
  using assms
proof (induction z x y c arbitrary: r k rule: mulAddVWW_g.induct)
  case (1 z zs x xs y c)
  obtain c' zi where a: "mulAddWWW_g x y c = (c', zi)" by fastforce
  obtain r' k' where l: "mulAddVWW_g zs xs y c' = (r', k')" by fastforce
  have A: "unat c' * B + unat zi = unat x * unat y + unat c" by (rule mulAddWWW_val [OF a])
  have rk: "r = zi # r'" "k = k'" using "1.prems"(1) a l by simp_all
  have i: "val r' + B ^ length zs * unat k' = val (take (length zs) xs) * unat y + unat c' \<and> length r' = length zs"
    using "1.prems"(2) l by (intro "1.IH" [OF a [symmetric] refl]) simp_all
  then have "B * (val r' + B ^ length zs * unat k') = B * (val (take (length zs) xs) * unat y + unat c')" by simp
  then show ?case using i A rk by (simp add: algebra_simps)
qed auto

lemma mulAddVWW_val:
  assumes "mulAddVWW z x y c = (r, k)" and "length z \<le> length x"
  shows "val r + B ^ length z * unat k = val (take (length z) x) * unat y + unat c" "length r = length z"
  using mulAddVWW_g_val [of z x y c r k] assms by (auto simp: mulAddVWW_def)

lemma pred_times_Suc: "0 < n \<Longrightarrow> (n - 1) * (n + 1) < n * n" for n :: nat
  by (cases n) simp_all

lemma addMulVVW_loop_val:
  assumes "addMulVVW_loop z x y c = (r, k)" and "length z \<le> length x"
  shows "val r + B ^ length z * unat k = val z + val (take (length z) x) * unat y + unat c \<and> length r = length z"
  using assms
proof (induction z x y c arbitrary: r k rule: addMulVVW_loop.induct)
  case (1 z zs x xs y c)
  obtain z1 z0 where a: "mulAddWWW_g x y z = (z1, z0)" by fastforce
  obtain lo cc where b: "Add z0 c 0 = (lo, cc)" by fastforce
  obtain r' k' where l: "addMulVVW_loop zs xs y (cc + z1) = (r', k')" by fastforce
  have A: "unat z1 * B + unat z0 = unat x * unat y + unat z" by (rule mulAddWWW_val [OF a])
  have C: "unat lo + B * unat cc = unat z0 + unat c" using Add_val(1) [OF _ b] by simp
  have sum: "(unat z1 + unat cc) * B + unat lo = unat x * unat y + unat z + unat c" using A C by (simp add: algebra_simps)
  have "unat x * unat y + unat z + unat c \<le> (B - 1) * (B - 1) + (B - 1) + (B - 1)" by (intro add_mono mult_le_mono unat_le_B)
  also have "\<dots> = (B - 1) * (B - 1 + 1 + 1)" by (simp only: distrib_left mult_1_right)
  also have "\<dots> = (B - 1) * (B + 1)" by simp
  also have "\<dots> < B * B" by (rule pred_times_Suc) simp
  finally have "(unat z1 + unat cc) * B < B * B" using sum by linarith
  then have "unat z1 + unat cc < B" by simp
  then have u: "unat (cc + z1) = unat z1 + unat cc" by (subst unat_plus_if') (simp add: B_def)
  have rk: "r = lo # r'" "k = k'" using "1.prems"(1) a b l by simp_all
  have i: "val r' + B ^ length zs * unat k' = val zs + val (take (length zs) xs) * unat y + unat (cc + z1) \<and> length r' = length zs"
    using "1.prems"(2) l by (intro "1.IH" [OF a [symmetric] refl b [symmetric] refl refl]) simp_all
  then have "B * (val r' + B ^ length zs * unat k') = B * (val zs + val (take (length zs) xs) * unat y + (unat z1 + unat cc))"
    by (simp add: u)
  then show ?case using i sum rk by (simp add: algebra_simps)
qed auto

lemma addMulVVW_val:
  assumes "addMulVVW z x y = (r, k)" and "length z \<le> length x"
  shows "val r + B ^ length z * unat k = val z + val (take (length z) x) * unat y" "length r = length z"
  using addMulVVW_loop_val [of z x y 0 r k] assms by (auto simp: addMulVVW_def addMulVVW_g_def)

section \<open>Shifts\<close>

text \<open>The words of a left shift: each takes the top bits of the word below.\<close>

lemma shift_word:
  fixes x y :: u64
  assumes "0 < s" and "s < 64"
  shows "unat (push_bit s x OR drop_bit (64 - s) y) + B * (unat x div 2 ^ (64 - s)) = unat x * 2 ^ s + unat y div 2 ^ (64 - s)"
    "unat (push_bit s x) + B * (unat x div 2 ^ (64 - s)) = unat x * 2 ^ s"
proof -
  have b: "B = 2 ^ s * 2 ^ (64 - s)" using assms by (simp add: B_def flip: power_add)
  have p: "unat (push_bit s x) = 2 ^ s * (unat x mod 2 ^ (64 - s))"
    unfolding unat_shl using b by (simp add: B_def mult.commute [of "unat x"] mult_mod_right)
  have d: "unat (drop_bit (64 - s) y) = unat y div 2 ^ (64 - s)" by (simp add: unat_shr)
  have "push_bit s x AND drop_bit (64 - s) y = 0"
  proof (rule bit_word_eqI)
    fix n assume "n < LENGTH(64)"
    then show "bit (push_bit s x AND drop_bit (64 - s) y) n = bit (0 :: u64) n"
      using assms bit_imp_le_length [of y "64 - s + n"] by (auto simp: bit_and_iff bit_push_bit_iff bit_drop_bit_eq)
  qed
  then have o: "unat (push_bit s x OR drop_bit (64 - s) y) = unat (push_bit s x) + unat y div 2 ^ (64 - s)"
    by (simp add: unat_or_disjoint d)
  show q: "unat (push_bit s x) + B * (unat x div 2 ^ (64 - s)) = unat x * 2 ^ s"
    unfolding p b using mult_div_mod_eq [of "2 ^ (64 - s)" "unat x"] by (metis (no_types) add.commute distrib_left mult.assoc mult.commute)
  show "unat (push_bit s x OR drop_bit (64 - s) y) + B * (unat x div 2 ^ (64 - s)) = unat x * 2 ^ s + unat y div 2 ^ (64 - s)"
    using q o by simp
qed

lemma mask_63: "n AND 63 = n mod 64" for n :: nat
  using take_bit_eq_mask [of 6 n] take_bit_eq_mod [of 6 n] by (simp add: mask_eq_exp_minus_1)

lemma shlVU_loop_words:
  assumes "i < length x" and "i < length z"
  shows "\<exists>z'. shlVU_loop x s s' i z = Inr z' \<and> length z' = length z \<and>
    (\<forall>k < length z. z' ! k = (if 0 < k \<and> k \<le> i then push_bit s (x ! k) OR drop_bit s' (x ! (k - 1)) else z ! k))"
  using assms
proof (induction i arbitrary: z)
  case 0
  then show ?case by (subst shlVU_loop.simps) auto
next
  case (Suc i)
  let ?z = "z[Suc i := push_bit s (x ! Suc i) OR drop_bit s' (x ! i)]"
  obtain z' where z': "shlVU_loop x s s' i ?z = Inr z'" "length z' = length ?z"
    "\<forall>k < length ?z. z' ! k = (if 0 < k \<and> k \<le> i then push_bit s (x ! k) OR drop_bit s' (x ! (k - 1)) else ?z ! k)"
    using Suc.IH [of ?z] Suc.prems by auto
  have "shlVU_loop x s s' (Suc i) z = Inr z'" using z'(1) Suc.prems by (subst shlVU_loop.simps) simp
  moreover have "\<forall>k < length z. z' ! k = (if 0 < k \<and> k \<le> Suc i then push_bit s (x ! k) OR drop_bit s' (x ! (k - 1)) else z ! k)"
    using z'(3) by (auto simp: nth_list_update le_Suc_eq)
  ultimately show ?case using z'(2) by auto
qed

definition shl_word :: "nat \<Rightarrow> u64 list \<Rightarrow> nat \<Rightarrow> u64" where
  "shl_word s x k = push_bit s (x ! k) OR (if k = 0 then 0 else drop_bit (64 - s) (x ! (k - 1)))"

lemma shl_words_val:
  assumes "0 < s" and "s < 64" and "n \<le> length x" and "0 < n"
  shows "val (map (shl_word s x) [0..<n]) + B ^ n * (unat (x ! (n - 1)) div 2 ^ (64 - s)) = val (take n x) * 2 ^ s"
  using assms(3,4)
proof (induction n)
  case (Suc n)
  note S = shift_word [OF assms(1,2)]
  show ?case
  proof (cases "n = 0")
    case True
    then show ?thesis using Suc.prems S(2) [of "x ! 0"] by (cases x) (simp_all add: shl_word_def)
  next
    case False
    have "val (map (shl_word s x) [0..<n]) + B ^ n * (unat (x ! (n - 1)) div 2 ^ (64 - s)) = val (take n x) * 2 ^ s"
      using Suc.IH Suc.prems False by simp
    moreover have "B ^ n * (unat (shl_word s x n) + B * (unat (x ! n) div 2 ^ (64 - s))) =
        B ^ n * (unat (x ! n) * 2 ^ s + unat (x ! (n - 1)) div 2 ^ (64 - s))"
      using S(1) [of "x ! n" "x ! (n - 1)"] False by (simp add: shl_word_def)
    moreover have "val (map (shl_word s x) [0..<Suc n]) = val (map (shl_word s x) [0..<n]) + B ^ n * unat (shl_word s x n)"
      by (simp add: val_append)
    moreover have "val (take (Suc n) x) = val (take n x) + B ^ n * unat (x ! n)"
      using Suc.prems by (simp add: take_Suc_conv_app_nth val_append min_def)
    ultimately show ?thesis by (simp add: algebra_simps)
  qed
qed simp

lemma shlVU_words:
  assumes "0 < s" and "s < 64" and "length x = length z" and "z \<noteq> []"
  shows "shlVU z x s = Inr (map (shl_word s x) [0..<length z], drop_bit (64 - s) (last x))"
proof -
  let ?n = "length z"
  have n: "0 < ?n" "?n - 1 < length x" "?n - 1 < length z" using assms(3,4) by auto
  obtain z' where z': "shlVU_loop x s (64 - s) (?n - 1) z = Inr z'" "length z' = ?n"
    "\<forall>k < ?n. z' ! k = (if 0 < k \<and> k \<le> ?n - 1 then push_bit s (x ! k) OR drop_bit (64 - s) (x ! (k - 1)) else z ! k)"
    using shlVU_loop_words [OF n(2,3), of s "64 - s"] by blast
  have "z'[0 := push_bit s (x ! 0)] = map (shl_word s x) [0..<?n]"
    using z'(2,3) n(1) by (intro nth_equalityI) (auto simp: shl_word_def nth_list_update)
  moreover have "s AND (W - 1) = s" "(W - s) AND (W - 1) = 64 - s" using assms(1,2) by (simp_all add: mask_63)
  moreover have "last x = x ! (?n - 1)" using n assms(3) by (metis last_conv_nth length_greater_0_conv)
  moreover have "0 < length x" using n(1) assms(3) by simp
  ultimately show ?thesis
    using assms n z'(1,2) by (simp add: shlVU_def shlVU_g_def Let_def)
qed

lemma shlVU_val:
  assumes "s < 64" and "length x = length z" and "z \<noteq> []"
  shows "\<exists>r c. shlVU z x s = Inr (r, c) \<and> length r = length z \<and> val r + B ^ length z * unat c = val x * 2 ^ s"
proof (cases "s = 0")
  case True
  then show ?thesis using assms by (simp add: shlVU_def shlVU_g_def vcopy_def)
next
  case False
  have l: "last x = x ! (length z - 1)" using assms(2,3) by (metis last_conv_nth length_0_conv)
  show ?thesis
    using shlVU_words [of s x z] shl_words_val [of s "length z" x] False assms l by (simp add: unat_shr)
qed

lemma shrVU_loop_words:
  assumes "i \<le> length z" and "0 < i" and "length x = length z"
  shows "\<exists>z'. shrVU_loop x s s' i z = Inr z' \<and> length z' = length z \<and>
    (\<forall>k < length z. z' ! k = (if i \<le> Suc k \<and> Suc k < length z then drop_bit s (x ! k) OR push_bit s' (x ! Suc k) else z ! k))"
  using assms
proof (induction "length z - i" arbitrary: i z)
  case 0
  then show ?case by (subst shrVU_loop.simps) auto
next
  case (Suc n)
  let ?z = "z[i - 1 := drop_bit s (x ! (i - 1)) OR push_bit s' (x ! i)]"
  have "n = length ?z - (i + 1)" "i + 1 \<le> length ?z" "0 < i + 1" "length x = length ?z" using Suc.hyps(2) Suc.prems by auto
  from Suc.hyps(1) [OF this] obtain z' where z': "shrVU_loop x s s' (i + 1) ?z = Inr z'" "length z' = length ?z"
    "\<forall>k < length ?z. z' ! k = (if i + 1 \<le> Suc k \<and> Suc k < length ?z then drop_bit s (x ! k) OR push_bit s' (x ! Suc k) else ?z ! k)"
    by blast
  have lt: "i < length z" "i - 1 < length z" using Suc.hyps(2) by auto
  then have "shrVU_loop x s s' i z = Inr z'" using z'(1) Suc.prems by (subst shrVU_loop.simps) simp
  moreover have "z' ! k = (if i \<le> Suc k \<and> Suc k < length z then drop_bit s (x ! k) OR push_bit s' (x ! Suc k) else z ! k)"
    if "k < length z" for k
    using z'(3) that lt Suc.prems(2) by (cases "Suc k = i") (auto simp: nth_list_update)
  ultimately show ?case using z'(2) by auto
qed

definition shr_word :: "nat \<Rightarrow> u64 list \<Rightarrow> nat \<Rightarrow> u64" where
  "shr_word s x k = drop_bit s (x ! k) OR push_bit (64 - s) (if Suc k < length x then x ! Suc k else 0)"

lemma split_arith: "a * p + r = x \<Longrightarrow> (q * y + a) * p + r = x + q * p * y" for a p r x q y :: nat
  by (simp add: algebra_simps)

lemma shr_word_val:
  fixes x y :: u64
  assumes "0 < s" and "s < 64"
  shows "unat (drop_bit s x OR push_bit (64 - s) y) * 2 ^ s + unat x mod 2 ^ s = unat x + B * (unat y mod 2 ^ s)"
proof -
  have b: "B = 2 ^ (64 - s) * 2 ^ s" using assms by (simp add: B_def flip: power_add)
  have "push_bit (64 - s) y AND drop_bit s x = 0"
  proof (rule bit_word_eqI)
    fix n assume "n < LENGTH(64)"
    then show "bit (push_bit (64 - s) y AND drop_bit s x) n = bit (0 :: u64) n"
      using assms bit_imp_le_length [of x "s + n"] by (auto simp: bit_and_iff bit_push_bit_iff bit_drop_bit_eq)
  qed
  then have o: "unat (drop_bit s x OR push_bit (64 - s) y) = unat (push_bit (64 - s) y) + unat x div 2 ^ s"
    by (simp add: unat_or_disjoint unat_shr or.commute [of "drop_bit s x"])
  have p: "unat (push_bit (64 - s) y) = 2 ^ (64 - s) * (unat y mod 2 ^ s)"
    unfolding unat_shl using b by (simp add: B_def mult.commute [of "unat y"] mult_mod_right)
  show ?thesis unfolding o p b by (rule split_arith, rule div_mult_mod_eq)
qed

lemma shr_words_val:
  assumes "0 < s" and "s < 64" and "n \<le> length x" and "0 < n"
  shows "val (map (shr_word s x) [0..<n]) * 2 ^ s + unat (x ! 0) mod 2 ^ s =
    val (take n x) + B ^ n * (if n < length x then unat (x ! n) mod 2 ^ s else 0)"
  using assms(3,4)
proof (induction n)
  case (Suc n)
  let ?m = "\<lambda>k. if k < length x then unat (x ! k) mod 2 ^ s else 0"
  have w: "unat (shr_word s x n) * 2 ^ s + unat (x ! n) mod 2 ^ s = unat (x ! n) + B * ?m (Suc n)"
    using shr_word_val [OF assms(1,2), of "x ! n" "if Suc n < length x then x ! Suc n else 0"] by (simp add: shr_word_def)
  have t: "val (take (Suc n) x) = val (take n x) + B ^ n * unat (x ! n)"
    using Suc.prems by (simp add: take_Suc_conv_app_nth val_append min_def)
  show ?case
  proof (cases "n = 0")
    case True
    then show ?thesis using w t by simp
  next
    case False
    have i: "val (map (shr_word s x) [0..<n]) * 2 ^ s + unat (x ! 0) mod 2 ^ s = val (take n x) + B ^ n * (unat (x ! n) mod 2 ^ s)"
      using Suc.IH Suc.prems False by simp
    have "B ^ n * (unat (shr_word s x n) * 2 ^ s + unat (x ! n) mod 2 ^ s) = B ^ n * (unat (x ! n) + B * ?m (Suc n))"
      using w by simp
    then show ?thesis using i t by (simp add: val_append algebra_simps)
  qed
qed simp

lemma shrVU_val:
  assumes "s < 64" and "length x = length z" and "z \<noteq> []"
  shows "\<exists>r c. shrVU z x s = Inr (r, c) \<and> length r = length z \<and> val r = val x div 2 ^ s \<and> unat c = (val x mod 2 ^ s) * 2 ^ ((64 - s) mod 64)"
proof (cases "s = 0")
  case True
  then show ?thesis using assms by (simp add: shrVU_def shrVU_g_def vcopy_def)
next
  case False
  let ?n = "length z"
  have n: "1 \<le> ?n" "?n - 1 < length x" "0 < length x" using assms(2,3) by (auto simp: Suc_le_eq)
  obtain z' where z': "shrVU_loop x s (64 - s) 1 z = Inr z'" "length z' = ?n"
    "\<forall>k < ?n. z' ! k = (if 1 \<le> Suc k \<and> Suc k < ?n then drop_bit s (x ! k) OR push_bit (64 - s) (x ! Suc k) else z ! k)"
    using shrVU_loop_words [OF n(1) _ assms(2), of s "64 - s"] by auto
  have w: "z'[?n - 1 := drop_bit s (x ! (?n - 1))] = map (shr_word s x) [0..<?n]"
    using z'(2,3) n(1) assms(2) by (intro nth_equalityI) (auto simp: shr_word_def nth_list_update)
  have m: "s AND (W - 1) = s" "(W - s) AND (W - 1) = 64 - s" using assms(1) False by (simp_all add: mask_63)
  have e: "shrVU z x s = Inr (map (shr_word s x) [0..<?n], push_bit (64 - s) (x ! 0))"
    using assms False n m z'(1,2) w by (simp add: shrVU_def shrVU_g_def Let_def)
  have v: "val (map (shr_word s x) [0..<?n]) * 2 ^ s + unat (x ! 0) mod 2 ^ s = val x"
    using shr_words_val [of s ?n x] False assms by simp
  have vx: "val x = unat (x ! 0) + B * val (tl x)" using n(3) by (cases x) simp_all
  have xm: "val x mod 2 ^ s = unat (x ! 0) mod 2 ^ s"
  proof -
    have "B = 2 ^ s * 2 ^ (64 - s)" using assms(1) by (simp add: B_def flip: power_add)
    then have "val x = unat (x ! 0) + 2 ^ s * (2 ^ (64 - s) * val (tl x))" using vx by (simp add: mult.assoc)
    then show ?thesis by (metis mod_mult_self2)
  qed
  have d: "val (map (shr_word s x) [0..<?n]) = val x div 2 ^ s"
  proof -
    have "val (map (shr_word s x) [0..<?n]) * 2 ^ s = val x div 2 ^ s * 2 ^ s"
      using v xm div_mult_mod_eq [of "val x" "2 ^ s"] by linarith
    then show ?thesis by simp
  qed
  have "unat (push_bit (64 - s) (x ! 0)) = 2 ^ (64 - s) * (unat (x ! 0) mod 2 ^ s)"
  proof -
    have "(2 :: nat) ^ 64 = 2 ^ (64 - s) * 2 ^ s" using assms(1) by (simp flip: power_add)
    then show ?thesis unfolding unat_shl by (simp add: mult.commute [of "unat (x ! 0)"] mult_mod_right)
  qed
  then show ?thesis using e d xm assms(1) False by (simp add: mult.commute)
qed

end
