(* ===== verification/Big_Nat_Spec.thy ===== *)
theory Big_Nat_Spec
  imports Big_Nat Big_Vec_Spec
begin

text \<open>
  The methods of \<^verbatim>\<open>nat.go\<close> as arithmetic: \<open>nat_is z v\<close> says that the slice \<open>z\<close> holds the normalized representation of
  the number \<open>v\<close>.
\<close>

section \<open>Normalized vectors\<close>

definition normal :: "u64 list \<Rightarrow> bool" where
  "normal xs \<longleftrightarrow> xs = [] \<or> last xs \<noteq> 0"

lemma normal_Nil [simp]: "normal []"
  by (simp add: normal_def)

lemma unat_pos: "x \<noteq> 0 \<Longrightarrow> 1 \<le> unat x" for x :: u64
  by (metis One_nat_def Suc_leI not_gr_zero unat_0_iff)

lemma val_ge: "normal xs \<Longrightarrow> xs \<noteq> [] \<Longrightarrow> B ^ (length xs - 1) \<le> val xs"
proof -
  assume a: "normal xs" "xs \<noteq> []"
  then have "xs = butlast xs @ [last xs]" by simp
  then have "val xs = val (butlast xs) + B ^ (length xs - 1) * unat (last xs)" by (metis length_butlast val_snoc)
  moreover have "1 \<le> unat (last xs)" using a by (intro unat_pos) (simp add: normal_def)
  then have "B ^ (length xs - 1) * 1 \<le> B ^ (length xs - 1) * unat (last xs)" by (rule mult_le_mono2)
  ultimately show ?thesis by linarith
qed

lemma val_less_length:
  assumes "normal y" and "length x < length y"
  shows "val x < val y"
proof -
  have "val x < B ^ length x" by (rule val_lt)
  also have "\<dots> \<le> B ^ (length y - 1)" using assms(2) by (intro power_increasing) (simp_all add: Suc_leI)
  also have "\<dots> \<le> val y" using assms by (intro val_ge) auto
  finally show ?thesis .
qed

lemma val_inject: "length x = length y \<Longrightarrow> val x = val y \<Longrightarrow> x = y"
proof (induction x y rule: list_induct2)
  case (Cons x xs y ys)
  have "(unat x + B * val xs) mod B = (unat y + B * val ys) mod B" using Cons by simp
  then have "unat x = unat y" by simp
  then show ?case using Cons by (simp add: word_unat_eq_iff)
qed simp

text \<open>A number has one normalized representation.\<close>

lemma normal_unique: "normal x \<Longrightarrow> normal y \<Longrightarrow> val x = val y \<Longrightarrow> x = y"
  by (metis nat_neq_iff val_inject val_less_length)

lemma norm_len_val: "n \<le> length z \<Longrightarrow> val (take (norm_len z n) z) = val (take n z)"
  by (induction n) (simp_all add: take_Suc_conv_app_nth val_append)

lemma norm_len_normal: "n \<le> length z \<Longrightarrow> normal (take (norm_len z n) z)"
proof (induction n)
  case (Suc n)
  then show ?case by (cases "z ! n = 0") (simp_all add: normal_def take_Suc_conv_app_nth)
qed simp

lemma val_norm [simp]: "val (norm z) = val z"
  by (simp add: norm_def norm_len_val)

lemma normal_norm [simp]: "normal (norm z)"
  by (simp add: norm_def norm_len_normal)

lemma norm_normal: "normal z \<Longrightarrow> norm z = z"
  by (rule normal_unique) simp_all

section \<open>Slices\<close>

definition wf :: "nat_slice \<Rightarrow> bool" where
  "wf z \<longleftrightarrow> count z \<le> length (array z)"

definition nat_is :: "nat_slice \<Rightarrow> nat \<Rightarrow> bool" where
  "nat_is z v \<longleftrightarrow> wf z \<and> normal (words z) \<and> val (words z) = v"

lemma length_words [simp]: "wf z \<Longrightarrow> length (words z) = count z"
  by (simp add: wf_def words_def)

lemma make_ok [simp]: "wf (nat_make z n)" "count (nat_make z n) = n"
  by (simp_all add: wf_def nat_make_def Let_def)

lemma length_make [simp]: "length (words (nat_make z n)) = n"
  by simp

lemma put_ok:
  assumes "wf z" and "i + length r \<le> count z"
  shows "wf (sl_put z i r)" "count (sl_put z i r) = count z" "words (sl_put z i r) = patch (words z) i r"
proof -
  have "i = count z \<and> r = [] \<or> i < count z" using assms(2) by (cases r) auto
  then show "wf (sl_put z i r)" "count (sl_put z i r) = count z" "words (sl_put z i r) = patch (words z) i r"
    using assms by (auto simp: wf_def sl_put_def words_def patch_def take_drop min_def)
qed

lemma put_words:
  assumes "wf z" and "length r = count z"
  shows "wf (sl_put z 0 r)" "count (sl_put z 0 r) = count z" "words (sl_put z 0 r) = r"
  using put_ok [of z 0 r] assms by (simp_all add: patch_def)

lemma set_ok:
  assumes "wf z" and "i < count z"
  shows "\<exists>z'. sl_set z i v = Inr z' \<and> wf z' \<and> count z' = count z \<and> words z' = (words z)[i := v]"
  using assms by (simp add: sl_set_def wf_def words_def take_update_swap)

lemma upto_0: "\<exists>z'. sl_upto z 0 = Inr z' \<and> nat_is z' 0"
  by (simp add: sl_upto_def nat_is_def wf_def words_def)

lemma upto_ok:
  assumes "wf z" and "n \<le> count z"
  shows "\<exists>z'. sl_upto z n = Inr z' \<and> wf z' \<and> count z' = n \<and> words z' = take n (words z)"
  using assms by (simp add: sl_upto_def wf_def words_def min_def)

lemma norm_ok: "wf z \<Longrightarrow> nat_is (nat_norm z) (val (words z))"
  using norm_len_le [of "array z" "count z"] norm_len_val [of "count z" "array z"] norm_len_normal [of "count z" "array z"]
  by (simp add: nat_is_def wf_def nat_norm_def words_def)

text \<open>
  A result before its normalization had \<open>k\<close> words at least: the words above it in the array are zero.
\<close>

definition nat_at :: "nat_slice \<Rightarrow> nat \<Rightarrow> nat \<Rightarrow> bool" where
  "nat_at z v k \<longleftrightarrow> nat_is z v \<and> (0 < v \<longrightarrow> k \<le> length (array z) \<and> val (take (max k (count z)) (array z)) = v)"

lemma val_take_mono: "i \<le> j \<Longrightarrow> val (take i xs) \<le> val (take j xs)"
  using val_append [of "take i xs" "take (j - i) (drop i xs)"] by (simp flip: take_add)

lemma norm_at: "wf z \<Longrightarrow> k \<le> count z \<Longrightarrow> nat_at (nat_norm z) (val (words z)) k"
proof -
  assume z: "wf z" "k \<le> count z"
  let ?c = "norm_len (array z) (count z)"
  have v: "val (take ?c (array z)) = val (words z)" using z by (simp add: wf_def words_def norm_len_val)
  have "val (take (max k ?c) (array z)) \<le> val (words z)"
    using z norm_len_le [of "array z" "count z"] unfolding words_def by (intro val_take_mono) simp
  moreover have "val (take ?c (array z)) \<le> val (take (max k ?c) (array z))" by (intro val_take_mono) simp
  ultimately show ?thesis using v z norm_ok [OF z(1)] by (simp add: nat_at_def nat_norm_def wf_def)
qed

lemma on_part_ok:
  assumes "i \<le> j" and "j \<le> length z" and "f (take (j - i) (drop i z)) = Inr (r, c)"
  shows "on_part z i j f = Inr (patch z i r, c)"
  using assms by (simp add: on_part_def)

lemma on_from_ok:
  assumes "i \<le> length z" and "f (drop i z) = Inr r"
  shows "on_from z i f = Inr (patch z i r)"
  using assms by (simp add: on_from_def)

lemma on_vec_ok:
  assumes "wf z" and "i \<le> j" and "j \<le> count z" and "f (take (j - i) (drop i (words z))) = Inr (r, c)" and "length r = j - i"
  shows "\<exists>z'. on_vec z i j f = Inr (z', c) \<and> wf z' \<and> count z' = count z \<and> words z' = patch (words z) i r"
  using assms put_ok [of z i r] by (simp add: on_vec_def)

lemma on_words_ok:
  assumes "wf z" and "f (words z) = Inr r" and "length r = count z"
  shows "\<exists>z'. on_words z f = Inr z' \<and> wf z' \<and> count z' = count z \<and> words z' = r"
  using assms put_words [of z r] by (simp add: on_words_def)

lemma set_nat_ok: "normal x \<Longrightarrow> nat_is (nat_set z x) (val x)"
  using put_words [of "nat_make z (length x)" x] by (simp add: nat_set_def Let_def vcopy_def nat_is_def)

lemma setWord_ok: "\<exists>z'. nat_setWord z x = Inr z' \<and> nat_is z' (unat x)"
proof (cases "x = 0")
  case True
  then show ?thesis using upto_0 by (simp add: nat_setWord_def)
next
  case False
  let ?z = "nat_make z 1"
  obtain z' where z': "sl_set ?z 0 x = Inr z'" "wf z'" "words z' = (words ?z)[0 := x]" using set_ok [of ?z 0 x] by auto
  have "length (words ?z) = 1" by simp
  then obtain w where "words ?z = [w]" by (metis One_nat_def length_0_conv length_Suc_conv)
  then have "words z' = [x]" using z' by simp
  then show ?thesis using z' False by (simp add: nat_setWord_def Let_def nat_is_def normal_def)
qed

section \<open>Sum, difference, comparison\<close>

text \<open>The first words with both operands, then the rest with the carry.\<close>

lemma add_parts:
  assumes z: "wf z" "length x \<le> count z" and n: "length y \<le> length x"
  shows "\<exists>z1 c1 z2 c2. on_vec z 0 (length y) (\<lambda>s. Inr (addVV s x y)) = Inr (z1, c1) \<and>
    (if length x > length y then go_bind (vfrom x (length y)) (\<lambda>xn. on_vec z1 (length y) (length x) (\<lambda>s. Inr (addVW s xn c1)))
     else Inr (z1, c1)) = Inr (z2, c2) \<and>
    wf z2 \<and> count z2 = count z \<and> val (take (length x) (words z2)) + B ^ length x * unat c2 = val x + val y"
proof -
  let ?m = "length x" and ?n = "length y"
  obtain r1 c1 where a1: "addVV (take (?n - 0) (drop 0 (words z))) x y = (r1, c1)" by fastforce
  have r1: "val r1 + B ^ ?n * unat c1 = val (take ?n x) + val y" "length r1 = ?n"
    using addVV_val [OF a1] z n by simp_all
  obtain z1 where z1: "on_vec z 0 ?n (\<lambda>s. Inr (addVV s x y)) = Inr (z1, c1)" "wf z1" "count z1 = count z"
    "words z1 = patch (words z) 0 r1"
    using on_vec_ok [of z 0 ?n "\<lambda>s. Inr (addVV s x y)" r1 c1] a1 r1(2) z n by auto
  show ?thesis
  proof (cases "?m > ?n")
    case True
    have l1: "length (words z1) = count z" using z1(2,3) by simp
    obtain r2 c2 where a2: "addVW (take (?m - ?n) (drop ?n (words z1))) (drop ?n x) c1 = (r2, c2)" by fastforce
    have r2: "val r2 + B ^ (?m - ?n) * unat c2 = val (drop ?n x) + unat c1" "length r2 = ?m - ?n"
      using addVW_val [OF a2] l1 z(2) True by simp_all
    obtain z2 where z2: "on_vec z1 ?n ?m (\<lambda>s. Inr (addVW s (drop ?n x) c1)) = Inr (z2, c2)" "wf z2" "count z2 = count z1"
      "words z2 = patch (words z1) ?n r2"
      using on_vec_ok [of z1 ?n ?m "\<lambda>s. Inr (addVW s (drop ?n x) c1)" r2 c2] z1 z a2 r2(2) True by auto
    have "val (take ?m (words z2)) = val r1 + B ^ ?n * val r2"
      using z1(4) z2(4) r1(2) r2(2) True by (simp add: patch_def val_append)
    moreover have "B ^ ?n * (val r2 + B ^ (?m - ?n) * unat c2) = B ^ ?n * (val (drop ?n x) + unat c1)" using r2 by simp
    moreover have "val x = val (take ?n x) + B ^ ?n * val (drop ?n x)" using n by (rule val_split)
    moreover have "B ^ ?m = B ^ ?n * B ^ (?m - ?n)" using True by (simp flip: power_add)
    ultimately have "val (take ?m (words z2)) + B ^ ?m * unat c2 = val x + val y" using r1(1) by (simp add: algebra_simps)
    then show ?thesis using z1 z2 True by simp
  next
    case False
    then have "?m = ?n" using n by simp
    moreover have "take ?n (words z1) = r1" using z1(4) r1(2) by (simp add: patch_def)
    ultimately show ?thesis using r1(1) z1 by simp
  qed
qed

lemma sub_parts:
  assumes z: "wf z" "length x \<le> count z" and n: "length y \<le> length x"
  shows "\<exists>z1 c1 z2 c2. on_vec z 0 (length y) (\<lambda>s. Inr (subVV s x y)) = Inr (z1, c1) \<and>
    (if length x > length y then go_bind (vfrom x (length y)) (\<lambda>xn. on_vec z1 (length y) (length x) (\<lambda>s. Inr (subVW s xn c1)))
     else Inr (z1, c1)) = Inr (z2, c2) \<and>
    wf z2 \<and> count z2 = count z \<and> val x + B ^ length x * unat c2 = val (take (length x) (words z2)) + val y"
proof -
  let ?m = "length x" and ?n = "length y"
  obtain r1 c1 where a1: "subVV (take (?n - 0) (drop 0 (words z))) x y = (r1, c1)" by fastforce
  have r1: "val (take ?n x) + B ^ ?n * unat c1 = val r1 + val y" "length r1 = ?n"
    using subVV_val [OF a1] z n by simp_all
  obtain z1 where z1: "on_vec z 0 ?n (\<lambda>s. Inr (subVV s x y)) = Inr (z1, c1)" "wf z1" "count z1 = count z"
    "words z1 = patch (words z) 0 r1"
    using on_vec_ok [of z 0 ?n "\<lambda>s. Inr (subVV s x y)" r1 c1] a1 r1(2) z n by auto
  show ?thesis
  proof (cases "?m > ?n")
    case True
    have l1: "length (words z1) = count z" using z1(2,3) by simp
    obtain r2 c2 where a2: "subVW (take (?m - ?n) (drop ?n (words z1))) (drop ?n x) c1 = (r2, c2)" by fastforce
    have r2: "val (drop ?n x) + B ^ (?m - ?n) * unat c2 = val r2 + unat c1" "length r2 = ?m - ?n"
      using subVW_val [OF a2] l1 z(2) True by simp_all
    obtain z2 where z2: "on_vec z1 ?n ?m (\<lambda>s. Inr (subVW s (drop ?n x) c1)) = Inr (z2, c2)" "wf z2" "count z2 = count z1"
      "words z2 = patch (words z1) ?n r2"
      using on_vec_ok [of z1 ?n ?m "\<lambda>s. Inr (subVW s (drop ?n x) c1)" r2 c2] z1 z a2 r2(2) True by auto
    have "val (take ?m (words z2)) = val r1 + B ^ ?n * val r2"
      using z1(4) z2(4) r1(2) r2(2) True by (simp add: patch_def val_append)
    moreover have "B ^ ?n * (val (drop ?n x) + B ^ (?m - ?n) * unat c2) = B ^ ?n * (val r2 + unat c1)" using r2 by simp
    moreover have "val x = val (take ?n x) + B ^ ?n * val (drop ?n x)" using n by (rule val_split)
    moreover have "B ^ ?m = B ^ ?n * B ^ (?m - ?n)" using True by (simp flip: power_add)
    ultimately have "val x + B ^ ?m * unat c2 = val (take ?m (words z2)) + val y" using r1(1) by (simp add: algebra_simps)
    then show ?thesis using z1 z2 True by simp
  next
    case False
    then have "?m = ?n" using n by simp
    moreover have "take ?n (words z1) = r1" using z1(4) r1(2) by (simp add: patch_def)
    ultimately show ?thesis using r1(1) z1 by simp
  qed
qed

lemma nat_add_ge:
  assumes "normal x" and "length y \<le> length x"
  shows "\<exists>z'. nat_add z x y = Inr z' \<and> nat_is z' (val x + val y)"
proof -
  let ?m = "length x" and ?n = "length y"
  consider "x = []" | "x \<noteq> []" "y = []" | "x \<noteq> []" "y \<noteq> []" by blast
  then show ?thesis
  proof cases
    case 1
    then show ?thesis using upto_0 assms(2) by (simp add: nat_add.simps)
  next
    case 2
    then show ?thesis using set_nat_ok [OF assms(1)] by (simp add: nat_add.simps)
  next
    case 3
    let ?z = "nat_make z (?m + 1)"
    obtain z1 c1 z2 c2 where p: "on_vec ?z 0 ?n (\<lambda>s. Inr (addVV s x y)) = Inr (z1, c1)"
      "(if ?m > ?n then go_bind (vfrom x ?n) (\<lambda>xn. on_vec z1 ?n ?m (\<lambda>s. Inr (addVW s xn c1))) else Inr (z1, c1)) = Inr (z2, c2)"
      "wf z2" "count z2 = ?m + 1" "val (take ?m (words z2)) + B ^ ?m * unat c2 = val x + val y"
      using add_parts [of ?z x y] assms(2) by auto
    obtain z3 where z3: "sl_set z2 ?m c2 = Inr z3" "wf z3" "words z3 = (words z2)[?m := c2]"
      using set_ok [OF p(3), of ?m c2] p(4) by auto
    have "length (words z2) = ?m + 1" using p(3,4) by simp
    then have "words z3 = take ?m (words z2) @ [c2]" using z3(3) by (simp add: upd_conv_take_nth_drop)
    then have "val (words z3) = val x + val y" using p(3-5) by (simp add: val_append)
    then show ?thesis
      using 3 assms(2) p(1,2) z3(1) norm_ok [OF z3(2)] by (subst nat_add.simps) (simp add: Let_def not_less)
  qed
qed

lemma nat_add_ok:
  assumes "normal x" and "normal y"
  shows "\<exists>z'. nat_add z x y = Inr z' \<and> nat_is z' (val x + val y)"
proof (cases "length y \<le> length x")
  case False
  then have "nat_add z x y = nat_add z y x" by (subst nat_add.simps) simp
  then show ?thesis using nat_add_ge [OF assms(2), of x z] False by (simp add: add.commute)
qed (rule nat_add_ge [OF assms(1)])

text \<open>A vector of \<open>n\<close> words cannot hold a negative number: the last borrow tells.\<close>

lemma nat_sub_ok:
  assumes "normal x" and "normal y"
  shows "if val y \<le> val x then \<exists>z'. nat_sub z x y = Inr z' \<and> nat_is z' (val x - val y)
    else nat_sub z x y = Inl (PanicMsg ''underflow'')"
proof -
  let ?m = "length x" and ?n = "length y"
  consider "?m < ?n" | "x = []" "y = []" | "x \<noteq> []" "y = []" | "y \<noteq> []" "?n \<le> ?m" by (cases "?m < ?n"; cases x; cases y) auto
  then show ?thesis
  proof cases
    case 1
    then show ?thesis using val_less_length [OF assms(2) 1] by (simp add: nat_sub_def)
  next
    case 2
    then show ?thesis using upto_0 by (simp add: nat_sub_def)
  next
    case 3
    then show ?thesis using set_nat_ok [OF assms(1)] by (simp add: nat_sub_def)
  next
    case 4
    let ?z = "nat_make z ?m"
    obtain z1 c1 z2 c2 where p: "on_vec ?z 0 ?n (\<lambda>s. Inr (subVV s x y)) = Inr (z1, c1)"
      "(if ?m > ?n then go_bind (vfrom x ?n) (\<lambda>xn. on_vec z1 ?n ?m (\<lambda>s. Inr (subVW s xn c1))) else Inr (z1, c1)) = Inr (z2, c2)"
      "wf z2" "count z2 = ?m" "val x + B ^ ?m * unat c2 = val (take ?m (words z2)) + val y"
      using sub_parts [of ?z x y] 4 by auto
    have e: "nat_sub z x y = (if c2 \<noteq> 0 then Inl (PanicMsg ''underflow'') else Inr (nat_norm z2))"
    proof -
      have "x \<noteq> []" "\<not> ?m < ?n" using 4 by auto
      then show ?thesis using 4 p(1,2) unfolding nat_sub_def Let_def by simp
    qed
    have v: "val x + B ^ ?m * unat c2 = val (words z2) + val y" using p(3-5) by simp
    show ?thesis
    proof (cases "c2 = 0")
      case True
      then have "val (words z2) = val x - val y" "val y \<le> val x" using v by simp_all
      then show ?thesis using e True norm_ok [OF p(3)] by simp
    next
      case False
      then have "B ^ ?m * 1 \<le> B ^ ?m * unat c2" by (intro mult_le_mono2 unat_pos)
      moreover have "val (words z2) < B ^ ?m" using val_lt [of "words z2"] p(3,4) by simp
      ultimately have "\<not> val y \<le> val x" using v by linarith
      then show ?thesis using e False by simp
    qed
  qed
qed

lemma cmp_loop_top:
  assumes "i < length x" and "i < length y"
  shows "cmp_loop x y i \<le> i" "drop (Suc (cmp_loop x y i)) (take (Suc i) x) = drop (Suc (cmp_loop x y i)) (take (Suc i) y)"
    "cmp_loop x y i = 0 \<or> x ! cmp_loop x y i \<noteq> y ! cmp_loop x y i"
  using assms
proof (induction i)
  case (Suc i)
  { case 1 then show ?case using Suc by auto }
  { case 2 then show ?case using Suc by (auto simp: take_Suc_conv_app_nth [of "Suc i"]) }
  { case 3 then show ?case using Suc by auto }
qed auto

lemma val_less_digit:
  assumes "length x = length y" and "i < length x" and "drop (Suc i) x = drop (Suc i) y" and "x ! i < y ! i"
  shows "val x < val y"
proof -
  have "val (take (Suc i) x) = val (take i x) + B ^ i * unat (x ! i)" "val (take (Suc i) y) = val (take i y) + B ^ i * unat (y ! i)"
    using assms by (simp_all add: take_Suc_conv_app_nth val_append)
  moreover have "val (take i x) < B ^ i" using val_lt [of "take i x"] assms by simp
  moreover have "B ^ i * (unat (x ! i) + 1) \<le> B ^ i * unat (y ! i)" using assms(4) by (intro mult_le_mono2) (simp add: word_less_nat_alt)
  ultimately have "val (take (Suc i) x) < val (take (Suc i) y)" by (simp add: distrib_left)
  then show ?thesis using val_split [of "Suc i" x] val_split [of "Suc i" y] assms by simp
qed

lemma nat_cmp_short:
  assumes "normal y" and "length x \<le> length y"
  shows "nat_cmp x y = (if val x < val y then -1 else if val y < val x then 1 else 0)"
proof (cases "length x = length y \<and> x \<noteq> []")
  case True
  let ?n = "length x"
  let ?i = "cmp_loop x y (?n - 1)"
  have n: "?n - 1 < length x" "?n - 1 < length y" "Suc (?n - 1) = ?n"
    using True by (simp_all flip: length_greater_0_conv)
  note L = cmp_loop_top [OF n(1,2)]
  have i: "?i < ?n" using L(1) n(1) by linarith
  have d: "drop (Suc ?i) x = drop (Suc ?i) y" using L(2) True n(3) by simp
  consider "x ! ?i < y ! ?i" | "y ! ?i < x ! ?i" | "x ! ?i = y ! ?i" by fastforce
  then show ?thesis
  proof cases
    case 1
    then show ?thesis using val_less_digit [of x y ?i] d i True by (auto simp add: nat_cmp_def Let_def)
  next
    case 2
    then show ?thesis using val_less_digit [of y x ?i] d i True by (auto simp: nat_cmp_def Let_def)
  next
    case 3
    then have "?i = 0" using L(3) by simp
    then have "x = y" using 3 d True by (cases x; cases y) auto
    then show ?thesis by (simp add: nat_cmp_def Let_def)
  qed
next
  case False
  then show ?thesis using val_less_length [OF assms(1), of x] assms(2) by (auto simp: nat_cmp_def Let_def)
qed

lemma nat_cmp_ok:
  assumes "normal x" and "normal y"
  shows "nat_cmp x y = (if val x < val y then -1 else if val y < val x then 1 else 0)"
proof (cases "length x \<le> length y")
  case False
  then show ?thesis using val_less_length [OF assms(1), of y] by (auto simp: nat_cmp_def Let_def)
qed (rule nat_cmp_short [OF assms(2)])

section \<open>Products\<close>

lemma mulAddWW_ok:
  "\<exists>z'. nat_mulAddWW z x y r = Inr z' \<and> nat_is z' (val x * unat y + unat r) \<and>
    (x \<noteq> [] \<and> y \<noteq> 0 \<longrightarrow> nat_at z' (val x * unat y + unat r) (length x))"
proof (cases "length x = 0 \<or> y = 0")
  case True
  then show ?thesis using setWord_ok [of z r] by (auto simp: nat_mulAddWW_def)
next
  case False
  let ?m = "length x"
  let ?z = "nat_make z (?m + 1)"
  obtain r1 c where a: "mulAddVWW (take (?m - 0) (drop 0 (words ?z))) x y r = (r1, c)" by fastforce
  have r1: "val r1 + B ^ ?m * unat c = val x * unat y + unat r" "length r1 = ?m" using mulAddVWW_val [OF a] by simp_all
  obtain z1 where z1: "on_vec ?z 0 ?m (\<lambda>s. Inr (mulAddVWW s x y r)) = Inr (z1, c)" "wf z1" "count z1 = ?m + 1"
    "words z1 = patch (words ?z) 0 r1"
    using on_vec_ok [of ?z 0 ?m "\<lambda>s. Inr (mulAddVWW s x y r)" r1 c] a r1(2) by auto
  obtain z2 where z2: "sl_set z1 ?m c = Inr z2" "wf z2" "words z2 = (words z1)[?m := c]"
    using set_ok [OF z1(2), of ?m c] z1(3) by auto
  have "length (words ?z) = ?m + 1" by simp
  then have "words z2 = r1 @ [c]" using z2(3) z1(4) r1(2) by (simp add: patch_def upd_conv_take_nth_drop)
  then have "val (words z2) = val x * unat y + unat r" using r1 by (simp add: val_append)
  moreover have "count z2 = ?m + 1" using \<open>words z2 = r1 @ [c]\<close> r1(2) length_words [OF z2(2)] by simp
  ultimately show ?thesis
    using False z1(1) z2(1) norm_ok [OF z2(2)] norm_at [OF z2(2), of ?m] by (simp add: nat_mulAddWW_def Let_def)
qed

text \<open>After \<open>i\<close> words of \<open>y\<close> the low words hold the product so far, and the words above are zero.\<close>

lemma basicMul_loop_val:
  assumes "length z = length x + i + length ds" and "drop (length x + i) z = replicate (length ds) 0"
  shows "\<exists>r. basicMul_loop (z @ t) x i ds = Inr (r @ t) \<and> length r = length z \<and> val r = val z + B ^ i * (val x * val ds)"
  using assms
proof (induction ds arbitrary: z i)
  case (Cons d ds)
  let ?m = "length x"
  show ?case
  proof (cases "d = 0")
    case True
    have "drop (?m + Suc i) z = replicate (length ds) 0"
    proof -
      have "drop (?m + Suc i) z = drop 1 (drop (?m + i) z)" by (simp add: add.commute)
      then show ?thesis unfolding Cons.prems(2) by simp
    qed
    then obtain r where "basicMul_loop (z @ t) x (Suc i) ds = Inr (r @ t)" "length r = length z" "val r = val z + B ^ Suc i * (val x * val ds)"
      using Cons.IH [of z "Suc i"] Cons.prems(1) by auto
    then show ?thesis using True by (simp add: algebra_simps)
  next
    case False
    obtain s c where a: "addMulVVW (take ?m (drop i z)) x d = (s, c)" by fastforce
    have s: "val s + B ^ ?m * unat c = val (take ?m (drop i z)) + val x * unat d" "length s = ?m"
      using addMulVVW_val [OF a] Cons.prems(1) by simp_all
    let ?z = "(patch z i s)[?m + i := c]"
    have z: "z = take i z @ take ?m (drop i z) @ replicate (Suc (length ds)) 0"
      using Cons.prems(2) by (metis add.commute append_take_drop_id drop_drop length_Cons)
    have l: "length (take i z) = i" "length (take ?m (drop i z)) = ?m" using Cons.prems(1) by simp_all
    have z': "?z = take i z @ s @ c # replicate (length ds) 0"
      using s(2) l Cons.prems by (simp add: patch_def list_update_append drop_drop add.commute)
    have "drop (?m + Suc i) ?z = replicate (length ds) 0" "length ?z = length z" using s(2) l Cons.prems(1) unfolding z' by simp_all
    then obtain r where r: "basicMul_loop (?z @ t) x (Suc i) ds = Inr (r @ t)" "length r = length z" "val r = val ?z + B ^ Suc i * (val x * val ds)"
      using Cons.IH [of ?z "Suc i"] Cons.prems(1) by auto
    have "val ?z = val (take i z) + B ^ i * (val s + B ^ ?m * unat c)"
      unfolding z' using l s(2) by (simp add: val_append)
    also have "\<dots> = val (take i z) + B ^ i * val (take ?m (drop i z)) + B ^ i * (val x * unat d)"
      unfolding s(1) by (simp add: algebra_simps)
    also have "val (take i z) + B ^ i * val (take ?m (drop i z)) = val z"
    proof -
      have "val z = val (take i z @ take ?m (drop i z) @ replicate (Suc (length ds)) 0)" using z by (rule arg_cong)
      then show ?thesis using l by (simp only: val_append val_zeros mult_0_right add_0_right)
    qed
    finally have "val r = val z + B ^ i * (val x * val (d # ds))" unfolding r(3) by (simp add: algebra_simps)
    moreover have "patch (z @ t) i s = patch z i s @ t" using s(2) Cons.prems(1) by (simp add: patch_def)
    ultimately show ?thesis using False a s(2) r Cons.prems(1) by (simp add: add.commute list_update_append1)
  qed
qed simp

lemma basicMul_ok:
  assumes "length x + length y \<le> length z"
  shows "\<exists>r. basicMul z x y = Inr (r @ drop (length x + length y) z) \<and> length r = length x + length y \<and> val r = val x * val y"
proof -
  let ?n = "length x + length y"
  let ?z = "replicate ?n 0 :: u64 list"
  obtain r where "basicMul_loop (?z @ drop ?n z) x 0 y = Inr (r @ drop ?n z)" "length r = ?n" "val r = val x * val y"
    using basicMul_loop_val [of ?z x 0 y "drop ?n z"] by auto
  then show ?thesis using assms by (simp add: basicMul_def clear_def patch_def)
qed

end
