(* ===== verification/Big_Karatsuba.thy ===== *)
theory Big_Karatsuba
  imports Big_Nat_Spec
begin

text \<open>
  The product of two vectors of the same length by Karatsuba's method, from \<^verbatim>\<open>nat.go\<close>: the sums are formed in place
  in the middle of the result, where they may overflow on the way; the last sum is exact.
\<close>

section \<open>Parts of a vector\<close>

lemma on_from_append: "on_from (a @ z) (length a) f = go_bind (f z) (\<lambda>r. Inr (patch (a @ z) (length a) r))"
  by (simp add: on_from_def)

lemma on_from_parts:
  assumes "n = length a" and "f z = Inr r" and "length r = length z"
  shows "on_from (a @ z) n f = Inr (a @ r)"
  using assms by (simp add: on_from_append patch_def)

lemma on_part_parts:
  assumes "i = length a" and "j = length a + length z" and "f z = Inr (r, c)" and "length r = length z"
  shows "on_part (a @ z @ b) i j f = Inr (a @ r @ b, c)"
  using assms by (simp add: on_part_def patch_def)

lemma split_at: "n \<le> length z \<Longrightarrow> \<exists>a b. z = a @ b \<and> length a = n \<and> length b = length z - n"
  by (metis append_take_drop_id length_drop length_take min.absorb2)

lemma split_as: "length z = n + m \<Longrightarrow> \<exists>a b. z = a @ b \<and> length a = n \<and> length b = m"
  using split_at [of n z] by simp

section \<open>The sums\<close>

lemma karatsubaAdd_ok:
  assumes "length S = n + n div 2" and "n \<le> length x"
  shows "\<exists>S' k. karatsubaAdd (S @ U) x n = Inr (S' @ U) \<and> length S' = length S \<and>
    val S' + B ^ length S * k = val S + val (take n x)"
proof -
  obtain a b where S: "S = a @ b" "length a = n" "length b = n div 2" using split_at [of n S] assms(1) by auto
  obtain r c where a: "addVV a (S @ U) x = (r, c)" by fastforce
  have r: "val r + B ^ n * unat c = val a + val (take n x)" "length r = n" using addVV_val [OF a] S assms by simp_all
  have 1: "on_part (S @ U) 0 n (\<lambda>s. Inr (addVV s (S @ U) x)) = Inr (r @ b @ U, c)"
    using a r S by (simp add: on_part_def patch_def)
  show ?thesis
  proof (cases "c = 0")
    case True
    then have "val (r @ b) + B ^ length S * 0 = val S + val (take n x)" using r S by (simp add: val_append)
    moreover have "karatsubaAdd (S @ U) x n = Inr ((r @ b) @ U)" using 1 True by (simp add: karatsubaAdd_def)
    moreover have "length (r @ b) = length S" using r S by simp
    ultimately show ?thesis by blast
  next
    case False
    obtain q d where b: "addVW b (b @ U) c = (q, d)" by fastforce
    have q: "val q + B ^ (n div 2) * unat d = val b + unat c" "length q = n div 2" using addVW_val [OF b] S by simp_all
    have "on_part (r @ b @ U) n (n + n div 2) (\<lambda>s. Inr (addVW s (b @ U) c)) = Inr (r @ q @ U, d)"
      by (rule on_part_parts) (simp_all add: r q S b)
    then have "karatsubaAdd (S @ U) x n = Inr ((r @ q) @ U)" using 1 False r by (simp add: karatsubaAdd_def)
    moreover have "val (r @ q) + B ^ length S * unat d = val S + val (take n x)"
    proof -
      have "B ^ n * (val q + B ^ (n div 2) * unat d) = B ^ n * (val b + unat c)" using q by simp
      then show ?thesis using r S q by (simp add: val_append power_add algebra_simps)
    qed
    moreover have "length (r @ q) = length S" using r S q by simp
    ultimately show ?thesis by blast
  qed
qed

lemma karatsubaSub_ok:
  assumes "length S = n + n div 2" and "n \<le> length x"
  shows "\<exists>S' k. karatsubaSub (S @ U) x n = Inr (S' @ U) \<and> length S' = length S \<and>
    val S + B ^ length S * k = val S' + val (take n x)"
proof -
  obtain a b where S: "S = a @ b" "length a = n" "length b = n div 2" using split_at [of n S] assms(1) by auto
  obtain r c where a: "subVV a (S @ U) x = (r, c)" by fastforce
  have r: "val a + B ^ n * unat c = val r + val (take n x)" "length r = n" using subVV_val [OF a] S assms by simp_all
  have 1: "on_part (S @ U) 0 n (\<lambda>s. Inr (subVV s (S @ U) x)) = Inr (r @ b @ U, c)"
    using a r S by (simp add: on_part_def patch_def)
  show ?thesis
  proof (cases "c = 0")
    case True
    then have "val S + B ^ length S * 0 = val (r @ b) + val (take n x)" using r S by (simp add: val_append)
    moreover have "karatsubaSub (S @ U) x n = Inr ((r @ b) @ U)" using 1 True by (simp add: karatsubaSub_def)
    moreover have "length (r @ b) = length S" using r S by simp
    ultimately show ?thesis by blast
  next
    case False
    obtain q d where b: "subVW b (b @ U) c = (q, d)" by fastforce
    have q: "val b + B ^ (n div 2) * unat d = val q + unat c" "length q = n div 2" using subVW_val [OF b] S by simp_all
    have "on_part (r @ b @ U) n (n + n div 2) (\<lambda>s. Inr (subVW s (b @ U) c)) = Inr (r @ q @ U, d)"
      by (rule on_part_parts) (simp_all add: r q S b)
    then have "karatsubaSub (S @ U) x n = Inr ((r @ q) @ U)" using 1 False r by (simp add: karatsubaSub_def)
    moreover have "val S + B ^ length S * unat d = val (r @ q) + val (take n x)"
    proof -
      have "B ^ n * (val b + B ^ (n div 2) * unat d) = B ^ n * (val q + unat c)" using q by simp
      then show ?thesis using r S q by (simp add: val_append power_add algebra_simps)
    qed
    moreover have "length (r @ q) = length S" using r S q by simp
    ultimately show ?thesis by blast
  qed
qed

lemma karatsuba_diff_ok:
  assumes "length a = length d" and "length b = length d"
  shows "\<exists>r s'. karatsuba_diff d a b s = (r, s') \<and> length r = length d \<and> (s' = s \<or> s' = - s) \<and>
    s' * int (val r) = s * (int (val a) - int (val b))"
proof -
  obtain r c where r: "subVV d a b = (r, c)" by fastforce
  have R: "val a + B ^ length d * unat c = val r + val b" "unat c \<le> 1" "length r = length d"
    using subVV_val [OF r] assms by simp_all
  show ?thesis
  proof (cases "c = 0")
    case True
    then show ?thesis using r R by (auto simp: karatsuba_diff_def algebra_simps)
  next
    case False
    then have c: "unat c = 1" using R(2) unat_pos [OF False] by simp
    obtain q k where q: "subVV r b a = (q, k)" by fastforce
    have Q: "val b + B ^ length d * unat k = val q + val a" "length q = length d" using subVV_val [OF q] assms R by simp_all
    have "val b < B ^ length d" "val r < B ^ length d" "val q < B ^ length d" using val_lt assms R(3) Q(2) by metis+
    then have "unat k = 0" using R(1) Q(1) c by (cases "unat k") auto
    then have "- s * int (val q) = s * (int (val a) - int (val b))"
      using Q(1) by (simp add: algebra_simps)
    then show ?thesis using r q False Q(2) by (simp add: karatsuba_diff_def)
  qed
qed

text \<open>The sum in the middle is exact at the end, whatever was carried out of it on the way.\<close>

lemma middle_exact:
  fixes A b c X S k :: int
  assumes "0 \<le> A" "A < b" "0 \<le> A + b * X" "A + b * X < b * c" "0 \<le> S" "S < c" "S = X + c * k"
  shows "S = X"
proof -
  have b: "0 < b" using assms(1,2) by simp
  have "0 \<le> X"
  proof (rule ccontr)
    assume "\<not> 0 \<le> X"
    then have "b * X \<le> b * (- 1)" using b by (intro mult_left_mono) auto
    then show False using assms by linarith
  qed
  moreover have "X < c"
  proof (rule ccontr)
    assume "\<not> X < c"
    then have "b * c \<le> b * X" using b by (intro mult_left_mono) auto
    then show False using assms by linarith
  qed
  ultimately have "X = S mod c" using assms(7) by simp
  then show ?thesis using assms(5,6) by simp
qed

lemma karatsuba_identity:
  fixes x0 x1 y0 y1 b s s' xd yd :: int
  assumes "s * xd = x1 - x0" and "s' * yd = s * (y0 - y1)"
  shows "x0 * y0 + b * (x0 * y0 + x1 * y1 + s' * (xd * yd)) + b * b * (x1 * y1) = (x0 + b * x1) * (y0 + b * y1)"
proof -
  have "s' * (xd * yd) = xd * (s' * yd)" by (simp only: mult.left_commute)
  also have "\<dots> = s * xd * (y0 - y1)" unfolding assms(2) by (simp only: mult.assoc mult.left_commute)
  finally have "s' * (xd * yd) = (x1 - x0) * (y0 - y1)" unfolding assms(1) .
  then show ?thesis by (simp add: algebra_simps)
qed

lemma karatsuba_sum_ok:
  fixes V :: nat
  assumes l: "length S0 = n" "length S1 = n" "length D = n" "length P = n" "length Q = 2 * n" and n: "n = 2 * n2"
    and s: "s = 1 \<or> s = - 1"
    and V: "int (val S0) + int B ^ n2 * (int (val S0) + int (val S1) + s * int (val P)) + int B ^ n * int (val S1) = int V"
      "V < B ^ (2 * n)"
  shows "\<exists>F T'. karatsuba_sum (S0 @ S1 @ D @ P @ Q @ T) n n2 s = Inr (F @ D @ P @ T') \<and> length F = 2 * n \<and>
    length T' = 2 * n + length T \<and> val F = V"
proof -
  obtain A A' where S0: "S0 = A @ A'" "length A = n2" "length A' = n2" using split_at [of n2 S0] l n by auto
  let ?S = "A' @ S1" and ?N = "n + n div 2"
  let ?U = "D @ P @ (S0 @ S1) @ T"
  have N: "length ?S = ?N" "?N = 3 * n2" using S0 l n by simp_all
  have copy: "on_from (S0 @ S1 @ D @ P @ Q @ T) (n * 4) (\<lambda>r. Inr (vcopy r (S0 @ S1))) = Inr (A @ ?S @ ?U)"
  proof -
    have "on_from ((S0 @ S1 @ D @ P) @ (Q @ T)) (n * 4) (\<lambda>r. Inr (vcopy r (S0 @ S1))) = Inr ((S0 @ S1 @ D @ P) @ (S0 @ S1) @ T)"
      by (rule on_from_parts) (simp_all add: l vcopy_def)
    then show ?thesis unfolding S0(1) append_assoc .
  qed
  have mid: "on_from (A @ S @ ?U) n2 f = Inr (A @ S' @ ?U)" if "length S' = length S" "f (S @ ?U) = Inr (S' @ ?U)" for S S' f
    using on_from_parts [of n2 A f "S @ ?U" "S' @ ?U"] S0 that by simp
  have r: "vfrom (A @ S @ ?U) (n * 4) = Inr ((S0 @ S1) @ T)" "vfrom (A @ S @ ?U) (n * 3) = Inr (P @ (S0 @ S1) @ T)"
    if "length S = ?N" for S using that S0 l n by (simp_all add: vfrom_def)
  have rn: "vfrom ((S0 @ S1) @ T) n = Inr (S1 @ T)" using l by (simp add: vfrom_def)
  obtain Sa ka where a: "karatsubaAdd (?S @ ?U) ((S0 @ S1) @ T) n = Inr (Sa @ ?U)" "length Sa = ?N"
    "val Sa + B ^ ?N * ka = val ?S + val S0"
    using karatsubaAdd_ok [of ?S n "(S0 @ S1) @ T" ?U] N l by auto
  obtain Sb kb where b: "karatsubaAdd (Sa @ ?U) (S1 @ T) n = Inr (Sb @ ?U)" "length Sb = ?N"
    "val Sb + B ^ ?N * kb = val Sa + val S1"
    using karatsubaAdd_ok [of Sa n "S1 @ T" ?U] a l by auto
  obtain Sc kc where c: "(if s > 0 then karatsubaAdd (Sb @ ?U) (P @ (S0 @ S1) @ T) n else karatsubaSub (Sb @ ?U) (P @ (S0 @ S1) @ T) n) = Inr (Sc @ ?U)"
    "length Sc = ?N" "int (val Sc) + int (B ^ ?N) * kc = int (val Sb) + s * int (val P)"
  proof (cases "s > 0")
    case True
    then obtain Sc k where "karatsubaAdd (Sb @ ?U) (P @ (S0 @ S1) @ T) n = Inr (Sc @ ?U)" "length Sc = ?N"
      "val Sc + B ^ ?N * k = val Sb + val P"
      using karatsubaAdd_ok [of Sb n "P @ (S0 @ S1) @ T" ?U] b l by auto
    then show ?thesis using that [of Sc "int k"] True s by (simp flip: of_nat_add of_nat_mult of_nat_power)
  next
    case False
    then obtain Sc k where "karatsubaSub (Sb @ ?U) (P @ (S0 @ S1) @ T) n = Inr (Sc @ ?U)" "length Sc = ?N"
      "val Sb + B ^ ?N * k = val Sc + val P"
      using karatsubaSub_ok [of Sb n "P @ (S0 @ S1) @ T" ?U] b l by auto
    moreover from this have "int (val Sb) + int (B ^ ?N) * int k = int (val Sc) + int (val P)"
      by (simp only: flip: of_nat_add of_nat_mult)
    ultimately show ?thesis using that [of Sc "- int k"] False s by auto
  qed
  have run: "karatsuba_sum (S0 @ S1 @ D @ P @ Q @ T) n n2 s = Inr (A @ Sc @ ?U)"
  proof -
    have s0: "vslice (S0 @ S1 @ D @ P @ Q @ T) 0 (n * 2) = Inr (S0 @ S1)" using l by (simp add: vslice_def)
    have m1: "on_from (A @ ?S @ ?U) n2 (\<lambda>zn. karatsubaAdd zn ((S0 @ S1) @ T) n) = Inr (A @ Sa @ ?U)"
      by (rule mid) (simp_all only: a N)
    have m2: "on_from (A @ Sa @ ?U) n2 (\<lambda>zn. karatsubaAdd zn (S1 @ T) n) = Inr (A @ Sb @ ?U)"
      by (rule mid) (simp_all only: a b)
    have m3: "on_from (A @ Sb @ ?U) n2 (\<lambda>zn. if s > 0 then karatsubaAdd zn (P @ (S0 @ S1) @ T) n else karatsubaSub zn (P @ (S0 @ S1) @ T) n) =
        Inr (A @ Sc @ ?U)"
      by (rule mid) (simp_all only: b c)
    show ?thesis
      unfolding karatsuba_sum_def s0 go_bind_Inr copy r(1) [OF N(1)] m1 r(1) [OF a(2)] rn m2 r(2) [OF b(2)] by (rule m3)
  qed
  let ?X = "int (val ?S) + int (val S0) + int (val S1) + s * int (val P)"
  have vA: "val S0 = val A + B ^ n2 * val A'" "val ?S = val A' + B ^ n2 * val S1" using S0 by (simp_all add: val_append)
  have Bn: "int B ^ n = int B ^ n2 * int B ^ n2" "int B ^ (2 * n) = int B ^ n2 * int B ^ ?N" using n by (simp_all flip: power_add)
  have e: "int (val A) + int B ^ n2 * ?X = int V"
    using V(1) unfolding Bn(1) by (simp add: vA algebra_simps)
  have k: "int (val Sc) = ?X + int B ^ ?N * (- int ka - int kb - kc)"
  proof -
    have "int (val Sa + B ^ ?N * ka) = int (val ?S + val S0)" "int (val Sb + B ^ ?N * kb) = int (val Sa + val S1)"
      using a(3) b(3) by simp_all
    then show ?thesis using c(3) by (simp add: algebra_simps)
  qed
  have "int (val Sc) = ?X"
  proof (rule middle_exact [OF _ _ _ _ _ _ k])
    show "int (val A) < int B ^ n2" using val_lt [of A] S0 by (simp flip: of_nat_power)
    show "0 \<le> int (val A) + int B ^ n2 * ?X" unfolding e by simp
    show "int (val A) + int B ^ n2 * ?X < int B ^ n2 * int B ^ ?N" unfolding e Bn(2) [symmetric] using V(2) by (simp flip: of_nat_power)
    show "int (val Sc) < int B ^ ?N" using val_lt [of Sc] c(2) by (simp flip: of_nat_power)
  qed simp_all
  then have "int (val (A @ Sc)) = int V" using e S0 by (simp add: val_append)
  then have "val (A @ Sc) = V" by simp
  moreover have "length (A @ Sc) = 2 * n" "length ((S0 @ S1) @ T) = 2 * n + length T" using S0 c(2) N l n by simp_all
  moreover have "karatsuba_sum (S0 @ S1 @ D @ P @ Q @ T) n n2 s = Inr ((A @ Sc) @ D @ P @ (S0 @ S1) @ T)" using run by simp
  ultimately show ?thesis by blast
qed

section \<open>The recursion\<close>

text \<open>One call, given the results of the three calls it makes.\<close>

lemma karatsuba_step:
  assumes big: "n = 2 * n2" "karatsubaThreshold \<le> n" "2 \<le> n"
    and x: "length x0 = n2" "length x1 = n2" and y: "length y0 = n2" "length y1 = n2"
    and 1: "karatsuba z x0 y0 = Inr (S0 @ r1)" "length S0 = n"
    and 2: "karatsuba r1 x1 y1 = Inr (S1 @ xd @ yd @ r4)" "length r1 = length (S1 @ xd @ yd @ r4)" "length S1 = n"
    and d: "length xd = n2" "length yd = n2" "length xd' = n2" "length yd' = n2"
      "karatsuba_diff xd x1 x0 1 = (xd', s)" "karatsuba_diff yd y0 y1 s = (yd', s')"
    and 3: "karatsuba r4 xd' yd' = Inr r5" "length r5 = length r4"
  shows "karatsuba z (x0 @ x1) (y0 @ y1) = karatsuba_sum (S0 @ S1 @ (xd' @ yd') @ r5) n n2 s'"
proof -
  have v: "vfrom (x0 @ x1) n2 = Inr x1" "vslice (x0 @ x1) 0 n2 = Inr x0" "vfrom (y0 @ y1) n2 = Inr y1" "vslice (y0 @ y1) 0 n2 = Inr y0"
    using x y by (simp_all add: vfrom_def vslice_def)
  have a: "on_from (S0 @ r1) n (\<lambda>zn. karatsuba zn x1 y1) = Inr (S0 @ S1 @ xd @ yd @ r4)"
    by (rule on_from_parts) (simp_all add: 1 2)
  have b: "on_part (S0 @ S1 @ xd @ yd @ r4) (2 * n) (2 * n + n2) (\<lambda>xd. Inr (karatsuba_diff xd x1 x0 1)) = Inr ((S0 @ S1) @ xd' @ yd @ r4, s)"
    using on_part_parts [of "2 * n" "S0 @ S1" "2 * n + n2" xd "\<lambda>xd. Inr (karatsuba_diff xd x1 x0 1)" xd' s "yd @ r4"] 1 2 d by simp
  have c: "on_part (S0 @ S1 @ xd' @ yd @ r4) (2 * n + n2) (3 * n) (\<lambda>yd. Inr (karatsuba_diff yd y0 y1 s)) = Inr ((S0 @ S1 @ xd') @ yd' @ r4, s')"
    using on_part_parts [of "2 * n + n2" "S0 @ S1 @ xd'" "3 * n" yd "\<lambda>yd. Inr (karatsuba_diff yd y0 y1 s)" yd' s' r4] 1 2 d big(1) by simp
  have e: "on_from (S0 @ S1 @ xd' @ yd' @ r4) (n * 3) (\<lambda>p. karatsuba p xd' yd') = Inr ((S0 @ S1 @ xd' @ yd') @ r5)"
    using on_from_parts [of "n * 3" "S0 @ S1 @ xd' @ yd'" "\<lambda>p. karatsuba p xd' yd'" r4 r5] 1 2 d 3 big(1) by simp
  have f: "vslice (S0 @ S1 @ xd' @ yd' @ r4) (2 * n) (2 * n + n2) = Inr xd'"
    "vslice (S0 @ S1 @ xd' @ yd' @ r4) (2 * n + n2) (3 * n) = Inr yd'"
    using 1 2 d big(1) by (simp_all add: vslice_def)
  have n: "length (y0 @ y1) = n" "n div 2 = n2" "\<not> (n mod 2 \<noteq> 0 \<or> n < karatsubaThreshold \<or> n < 2)" using y big by auto
  show ?thesis
    by (subst karatsuba.simps) (simp only: n Let_def if_False v go_bind_Inr 1 a b append_assoc prod.case c f e)
qed

lemma karatsuba_ok:
  assumes "length x = length y" and "6 * length y \<le> length z"
  shows "\<exists>r. karatsuba z x y = Inr r \<and> length r = length z \<and> val (take (2 * length y) r) = val x * val y"
  using assms
proof (induction "length y" arbitrary: z x y rule: less_induct)
  case less
  show ?case
  proof (cases "length y mod 2 \<noteq> 0 \<or> length y < karatsubaThreshold \<or> length y < 2")
    case True
    obtain r where "basicMul z x y = Inr (r @ drop (2 * length y) z)" "length r = 2 * length y" "val r = val x * val y"
      using basicMul_ok [of x y z] less.prems by (auto simp: mult_2)
    then show ?thesis using True less.prems by (subst karatsuba.simps) simp
  next
    case False
    then obtain n2 where n2: "length y = 2 * n2" by (metis mod_0_imp_dvd dvdE)
    define n where "n = 2 * n2"
    have big: "karatsubaThreshold \<le> n" "2 \<le> n" "n2 < n" using False n2 unfolding n_def by auto
    obtain t where t: "length z = 6 * n + t" using less.prems(2) n2 le_Suc_ex unfolding n_def by metis
    obtain x0 x1 where x: "x = x0 @ x1" "length x0 = n2" "length x1 = n2" using split_as [of x n2 n2] less.prems(1) n2 by auto
    obtain y0 y1 where y: "y = y0 @ y1" "length y0 = n2" "length y1 = n2" using split_as [of y n2 n2] n2 by auto
    have rec: "\<exists>a b c. karatsuba w u v = Inr (a @ b @ c) \<and> length a = n \<and> length b = l \<and> length c = m \<and> val a = val u * val v"
      if "length u = n2" "length v = n2" "length w = n + l + m" "2 * n \<le> l + m" for w u v l m
    proof -
      have p: "length v < length y" "length u = length v" "6 * length v \<le> length w" "2 * length v = n"
        using that n2 big(3) unfolding n_def by linarith+
      obtain r where r: "karatsuba w u v = Inr r" "length r = length w" "val (take n r) = val u * val v"
        using less.hyps [OF p(1-3)] unfolding p(4) by blast
      then show ?thesis using that
        by (intro exI [of _ "take n r"] exI [of _ "take l (drop n r)"] exI [of _ "drop l (drop n r)"]) (simp del: drop_drop)
    qed
    obtain S0 r1 where 1: "karatsuba z x0 y0 = Inr (S0 @ r1)" "length S0 = n" "length r1 = 5 * n + t" "val S0 = val x0 * val y0"
      using rec [of x0 y0 z 0 "5 * n + t"] x y t by auto
    obtain S1 d r4 where 2: "karatsuba r1 x1 y1 = Inr (S1 @ d @ r4)" "length S1 = n" "length d = n2 + n2" "length r4 = 3 * n + t" "val S1 = val x1 * val y1"
      using rec [of x1 y1 r1 "n2 + n2" "3 * n + t"] x y 1(3) unfolding n_def by auto
    obtain xd yd where d: "d = xd @ yd" "length xd = n2" "length yd = n2" using split_as [OF 2(3)] by blast
    obtain xd' s where xs: "karatsuba_diff xd x1 x0 1 = (xd', s)" "length xd' = n2" "s = 1 \<or> s = - 1"
      "s * int (val xd') = int (val x1) - int (val x0)"
      using karatsuba_diff_ok [of x1 xd x0 1] x(2,3) d(2) by (metis mult_1)
    obtain yd' s' where ys: "karatsuba_diff yd y0 y1 s = (yd', s')" "length yd' = n2" "s' = s \<or> s' = - s"
      "s' * int (val yd') = s * (int (val y0) - int (val y1))"
      using karatsuba_diff_ok [of y0 yd y1 s] y(2,3) d(3) by metis
    obtain P Q T where 3: "karatsuba r4 xd' yd' = Inr (P @ Q @ T)" "length P = n" "length Q = 2 * n" "length T = t" "val P = val xd' * val yd'"
      using rec [OF xs(2) ys(2), of r4 "2 * n" t] 2(4) by auto
    have "val x * val y < B ^ length x * B ^ length y" using val_lt [of x] val_lt [of y] by (intro mult_strict_mono) auto
    then have lt: "val x * val y < B ^ (2 * n)" using less.prems(1) n2 unfolding n_def by (simp flip: power_add)
    have V: "int (val S0) + int B ^ n2 * (int (val S0) + int (val S1) + s' * int (val P)) + int B ^ n * int (val S1) = int (val x * val y)"
    proof -
      have b: "int B ^ n = int B ^ n2 * int B ^ n2" unfolding n_def by (simp flip: power_add add: mult_2)
      have xy: "int (val x * val y) = (int (val x0) + int B ^ n2 * int (val x1)) * (int (val y0) + int B ^ n2 * int (val y1))"
        unfolding x(1) y(1) using x(2) y(2) by (simp add: val_append)
      show ?thesis unfolding xy b unfolding 1(4) 2(5) 3(5) of_nat_mult by (rule karatsuba_identity [OF xs(4) ys(4)])
    qed
    have s': "s' = 1 \<or> s' = - 1" using xs(3) ys(3) by auto
    have ld: "length (xd' @ yd') = n" using xs(2) ys(2) n_def by simp
    obtain F T' where F: "karatsuba_sum (S0 @ S1 @ (xd' @ yd') @ P @ Q @ T) n n2 s' = Inr (F @ (xd' @ yd') @ P @ T')"
      "length F = 2 * n" "length T' = 2 * n + length T" "val F = val x * val y"
      using karatsuba_sum_ok [OF 1(2) 2(2) ld 3(2,3) n_def s' V lt, of T] by blast
    have "karatsuba z x y = Inr (F @ (xd' @ yd') @ P @ T')"
      unfolding x(1) y(1)
      by (subst karatsuba_step [OF n_def big(1,2) x(2,3) y(2,3) 1(1,2) 2(1) [unfolded d(1) append_assoc] _ 2(2) d(2,3) xs(2) ys(2) xs(1) ys(1) 3(1)])
        (simp_all add: 1 2 3 d(2,3) n_def [symmetric] F(1) [simplified])
    then show ?thesis using F ld 3 t n2 unfolding n_def by simp
  qed
qed

end
