(* ===== verification/Big_Mul.thy ===== *)
theory Big_Mul
  imports Big_Karatsuba
begin

text \<open>
  The product of two numbers, \<open>mul\<close> of \<^verbatim>\<open>nat.go\<close>: by rows for short operands; otherwise by Karatsuba's method on the
  low \<open>k\<close> words of both, with the remaining products added in place.
\<close>

section \<open>Adding in place\<close>

lemma addAt_fits:
  assumes "i + length x \<le> length z" and "val z + B ^ i * val x < B ^ length z"
  shows "\<exists>r. addAt z x i = Inr r \<and> length r = length z \<and> val r = val z + B ^ i * val x"
proof (cases "x = []")
  case True
  then show ?thesis by (simp add: addAt_def)
next
  case False
  let ?n = "length x"
  have "length z = i + (?n + (length z - i - ?n))" using assms(1) by linarith
  then obtain a bc where a: "z = a @ bc" "length a = i" "length bc = ?n + (length z - i - ?n)" using split_as by blast
  then obtain b c where b: "bc = b @ c" "length b = ?n" "length c = length z - i - ?n" using split_as by blast
  obtain r k where r: "addVV b (b @ c) x = (r, k)" by fastforce
  have R: "val r + B ^ ?n * unat k = val b + val x" "length r = ?n" using addVV_val [OF r] b by simp_all
  have p: "on_part z i (i + ?n) (\<lambda>s. Inr (addVV s (b @ c) x)) = Inr (a @ r @ c, k)"
    using on_part_parts [of i a "i + ?n" b "\<lambda>s. Inr (addVV s (b @ c) x)" r k c] a(1,2) b(1,2) r R by simp
  have v: "vfrom z i = Inr (b @ c)" using a(1,2) b(1,2) by (simp add: vfrom_def)
  have Z: "val z = val a + B ^ i * (val b + B ^ ?n * val c)" "length z = i + ?n + length c"
    using a(1,2) b(1,2) by (simp_all add: val_append)
  have V: "val z + B ^ i * val x = val a + B ^ i * val r + B ^ (i + ?n) * (val c + unat k)"
  proof -
    have "B ^ i * (val r + B ^ ?n * unat k) = B ^ i * (val b + val x)" using R by simp
    then show ?thesis unfolding Z by (simp add: power_add algebra_simps)
  qed
  have S: "addAt z x i = (if k \<noteq> 0 then let j = i + ?n in
      if j < length (a @ r @ c) then go_bind (vfrom (a @ r @ c) j) (\<lambda>zj. on_from (a @ r @ c) j (\<lambda>s. Inr (fst (addVW s zj k)))) else Inr (a @ r @ c)
      else Inr (a @ r @ c))"
    using False by (simp add: addAt_def Let_def v p del: length_append vfrom_ok)
  show ?thesis
  proof (cases "k = 0")
    case True
    then show ?thesis using S V a(2) b(2) R Z by (simp add: val_append power_add algebra_simps)
  next
    case False
    obtain q l where q: "addVW c c k = (q, l)" by fastforce
    have Q: "val q + B ^ length c * unat l = val c + unat k" "length q = length c" using addVW_val [OF q] by simp_all
    have l: "unat l = 0"
    proof (rule ccontr)
      assume "unat l \<noteq> 0"
      then have "B ^ (i + ?n) * B ^ length c * 1 \<le> B ^ (i + ?n) * (B ^ length c * unat l)"
        unfolding mult.assoc by (intro mult_le_mono2) simp
      also have "\<dots> \<le> B ^ (i + ?n) * (val c + unat k)" unfolding Q(1) [symmetric] by (intro mult_le_mono2) simp
      finally have "B ^ length z \<le> val z + B ^ i * val x" unfolding V unfolding Z(2) power_add by linarith
      then show False using assms(2) by linarith
    qed
    have "c \<noteq> []" using Q l False by (cases c) (auto simp: unat_eq_zero)
    then have "i + ?n < length (a @ r @ c)" using a(2) R(2) by (cases c) auto
    moreover have "vfrom (a @ r @ c) (i + ?n) = Inr c" using a(2) R by (simp add: vfrom_def)
    moreover have "on_from (a @ r @ c) (i + ?n) (\<lambda>s. Inr (fst (addVW s c k))) = Inr (a @ r @ q)"
      using on_from_parts [of "i + ?n" "a @ r" "\<lambda>s. Inr (fst (addVW s c k))" c q] a(2) R q Q by simp
    ultimately have "addAt z x i = Inr (a @ r @ q)" using S False by (simp add: Let_def del: length_append vfrom_ok)
    moreover have "val (a @ r @ q) = val z + B ^ i * val x"
      unfolding V using Q(1) l a(2) R by (simp add: val_append power_add algebra_simps)
    ultimately show ?thesis using Z(2) Q R a(2) by simp
  qed
qed

lemma addAt_ok:
  assumes "normal x" and "val z + B ^ i * val x < B ^ length z"
  shows "\<exists>r. addAt z x i = Inr r \<and> length r = length z \<and> val r = val z + B ^ i * val x"
proof (cases "x = []")
  case True
  then show ?thesis by (simp add: addAt_def)
next
  case False
  have "B ^ (i + (length x - 1)) \<le> B ^ i * val x" using val_ge [OF assms(1) False] by (simp add: power_add)
  then have "B ^ (i + (length x - 1)) < B ^ length z" using assms(2) by linarith
  then have "i + (length x - 1) < length z" by (meson B_pos(3) power_less_imp_less_exp)
  then show ?thesis using assms(2) False by (intro addAt_fits) (cases x; simp)
qed

section \<open>Loops and lengths\<close>

lemma go_fold_steps:
  assumes "0 < k" and "P i s" and "\<And>i s. i < n \<Longrightarrow> P i s \<Longrightarrow> \<exists>s'. f i s = Inr s' \<and> P (i + k) s'"
  shows "\<exists>s' j. go_fold f (steps k i n) s = Inr s' \<and> n \<le> j \<and> P j s'"
  using assms
proof (induction k i n arbitrary: s rule: steps.induct)
  case (1 k i n)
  show ?case
  proof (cases "i < n")
    case True
    obtain s' where s': "f i s = Inr s'" "P (i + k) s'" using "1.prems"(3) [OF True "1.prems"(2)] by blast
    then obtain s'' j where "go_fold f (steps k (i + k) n) s' = Inr s''" "n \<le> j" "P j s''"
      using "1.IH" [OF _ "1.prems"(1) s'(2) "1.prems"(3)] True "1.prems"(1) by blast
    then show ?thesis using s'(1) True "1.prems"(1) by (subst steps.simps) auto
  next
    case False
    then show ?thesis using "1.prems" by (subst steps.simps) (auto intro!: exI [of _ i])
  qed
qed

lemma karatsubaLen_pos: "0 < t \<Longrightarrow> 0 < n \<Longrightarrow> 0 < karatsubaLen n t"
proof -
  have "0 < t \<Longrightarrow> 0 < n \<Longrightarrow> 0 < karatsubaLen_loop n t i" for i
  proof (induction n t i rule: karatsubaLen_loop.induct)
    case (1 n t i)
    then show ?case by (cases "n > t") (subst karatsubaLen_loop.simps, simp add: push_bit_eq_mult)+
  qed
  then show "0 < t \<Longrightarrow> 0 < n \<Longrightarrow> 0 < karatsubaLen n t" by (simp add: karatsubaLen_def)
qed

lemma getNat_ok: "\<exists>t p'. getNat p n = Inr (t, p') \<and> wf t \<and> count t = n"
proof -
  obtain a p' where a: "(case p of [] \<Rightarrow> ([], []) | a # p \<Rightarrow> (a, p)) = (a, p')" by fastforce
  let ?z = "nat_make \<lparr>array = a, count = 0\<rparr> n"
  show ?thesis
  proof (cases "n > 0")
    case True
    then obtain z' where "sl_set ?z 0 0xfedcb = Inr z'" "wf z'" "count z' = n" using set_ok [of ?z 0 "0xfedcb"] by auto
    then show ?thesis using True a by (simp add: getNat_def)
  qed (simp add: getNat_def a)
qed

section \<open>The product\<close>

definition mul_ok :: "u64 list \<Rightarrow> u64 list \<Rightarrow> bool" where
  "mul_ok x y \<longleftrightarrow> (\<forall>al p z. \<exists>z' p'. nat_mul al p z x y = Inr (z', p') \<and>
    nat_at z' (val x * val y) (max (length x) (length y)))"

text \<open>A product added to \<open>z\<close> at index \<open>i\<close>, where the sum has room.\<close>

lemma add_product:
  assumes "mul_ok a b" and "wf z" and "val (words z) + B ^ i * (val a * val b) < B ^ count z"
  shows "\<exists>t' p' z'. nat_mul False p t a b = Inr (t', p') \<and> on_words z (\<lambda>w. addAt w (words t') i) = Inr z' \<and>
    wf z' \<and> count z' = count z \<and> val (words z') = val (words z) + B ^ i * (val a * val b)"
proof -
  obtain t' p' where t: "nat_mul False p t a b = Inr (t', p')" "nat_is t' (val a * val b)"
    using assms(1) unfolding mul_ok_def nat_at_def by blast
  then have n: "normal (words t')" "val (words t') = val a * val b" by (simp_all add: nat_is_def)
  obtain r where r: "addAt (words z) (words t') i = Inr r" "length r = count z" "val r = val (words z) + B ^ i * (val a * val b)"
    using addAt_ok [OF n(1), of "words z" i] n(2) assms(2,3) by auto
  then show ?thesis using t on_words_ok [OF assms(2), of "\<lambda>w. addAt w (words t') i" r] by auto
qed

text \<open>A row of the remaining products: \<open>k\<close> words of \<open>x\<close> times \<open>y0\<close> and \<open>y1\<close>.\<close>

lemma mul_row:
  fixes k :: nat
  defines "part i x \<equiv> norm (if length (drop i x) > k then take k (drop i x) else drop i x)"
  assumes ok: "mul_ok (part i x) y0" "mul_ok (part i x) y1" and y: "val y = val y0 + B ^ k * val y1"
    and z: "wf z" "val (words z) = val (take i x) * val y" "val x * val y < B ^ count z" "i \<le> length x"
  shows "\<exists>z' t' p'. go_bind (nat_mul False p t (part i x) y0) (\<lambda>(t, p). go_bind (on_words z (\<lambda>w. addAt w (words t) i)) (\<lambda>z.
      go_bind (nat_mul False p t (part i x) y1) (\<lambda>(t, p). go_bind (on_words z (\<lambda>w. addAt w (words t) (i + k))) (\<lambda>z.
      Inr (z, t, p))))) = Inr (z', t', p') \<and>
    wf z' \<and> count z' = count z \<and> val (words z') = val (take (i + k) x) * val y"
proof -
  have part: "val (part i x) = val (take k (drop i x))" by (simp add: part_def)
  have "val (take (i + k) x) = val (take i x) + B ^ i * val (take k (drop i x))"
    using z(4) by (simp add: take_add val_append)
  then have sum: "val (words z) + B ^ i * (val (part i x) * val y0) + B ^ (i + k) * (val (part i x) * val y1) = val (take (i + k) x) * val y"
    unfolding z(2) part y by (simp add: power_add algebra_simps)
  have "val (take (i + k) x) \<le> val x"
    using val_append [of "take (i + k) x" "drop (i + k) x"] by simp
  then have "val (take (i + k) x) * val y \<le> val x * val y" by (rule mult_le_mono1)
  then have lt: "val (words z) + B ^ i * (val (part i x) * val y0) + B ^ (i + k) * (val (part i x) * val y1) < B ^ count z"
    unfolding sum using z(3) by linarith
  obtain t1 p1 z1 where 1: "nat_mul False p t (part i x) y0 = Inr (t1, p1)" "on_words z (\<lambda>w. addAt w (words t1) i) = Inr z1"
    "wf z1" "count z1 = count z" "val (words z1) = val (words z) + B ^ i * (val (part i x) * val y0)"
    using add_product [OF ok(1) z(1), of i p t] lt by auto
  obtain t2 p2 z2 where 2: "nat_mul False p1 t1 (part i x) y1 = Inr (t2, p2)" "on_words z1 (\<lambda>w. addAt w (words t2) (i + k)) = Inr z2"
    "wf z2" "count z2 = count z1" "val (words z2) = val (words z1) + B ^ (i + k) * (val (part i x) * val y1)"
    using add_product [OF ok(2) 1(3), of "i + k" p1 t1] lt 1(4,5) by auto
  show ?thesis using 1 2 sum by simp
qed

lemma mul_small:
  assumes "length y \<le> length x" and "length y < karatsubaThreshold"
  shows "mul_ok x y"
  unfolding mul_ok_def
proof (intro allI)
  fix al p z
  consider "y = []" | "length y = 1" | "1 < length y" by (cases y; cases "tl y") auto
  then show "\<exists>z' p'. nat_mul al p z x y = Inr (z', p') \<and> nat_at z' (val x * val y) (max (length x) (length y))"
  proof cases
    case 1
    then show ?thesis using upto_0 [of z] by (auto simp: nat_mul.simps nat_at_def)
  next
    case 2
    then obtain d where "y = [d]" by (metis One_nat_def length_0_conv length_Suc_conv)
    moreover from this obtain a xs where "x = a # xs" using assms(1) by (cases x) auto
    moreover obtain z' where z': "nat_mulAddWW z x d 0 = Inr z'" "nat_is z' (val x * unat d)"
      "x \<noteq> [] \<and> d \<noteq> 0 \<longrightarrow> nat_at z' (val x * unat d) (length x)"
      using mulAddWW_ok [of z x d 0] by auto
    moreover have "nat_at z' (val x * unat d) (length x)"
      using z'(2,3) calculation(2) by (cases "d = 0") (simp_all add: nat_at_def)
    ultimately show ?thesis by (subst nat_mul.simps) simp
  next
    case 3
    let ?z = "nat_make (if al then nat_nil else z) (length x + length y)"
    obtain r where r: "basicMul (words ?z) x y = Inr r" "length r = length x + length y" "val r = val x * val y"
      using basicMul_ok [of x y "words ?z"] by auto
    obtain z' where z': "on_words ?z (\<lambda>w. basicMul w x y) = Inr z'" "wf z'" "count z' = count ?z" "words z' = r"
      using on_words_ok [of ?z "\<lambda>w. basicMul w x y" r] r by auto
    then have "nat_at (nat_norm z') (val x * val y) (max (length x) (length y))"
      using norm_at [OF z'(2), of "max (length x) (length y)"] r(3) by simp
    then show ?thesis using 3 assms z'(1) by (subst nat_mul.simps) (auto simp: Let_def)
  qed
qed

text \<open>The remaining products are shorter, so that they are right by induction.\<close>

lemma mul_long:
  assumes len: "length y \<le> length x" "karatsubaThreshold \<le> length y"
    and IH: "\<And>a b. length a + length b < length x + length y \<Longrightarrow> mul_ok a b"
  shows "mul_ok x y"
  unfolding mul_ok_def
proof (intro allI)
  fix al p z
  let ?m = "length x" and ?n = "length y"
  define k where "k = karatsubaLen ?n karatsubaThreshold"
  have n: "40 \<le> ?n" using len(2) by (simp add: karatsubaThreshold_def)
  have "0 < karatsubaThreshold" "0 < ?n" using n by (simp_all only: karatsubaThreshold_def)
  then have k: "0 < k" "k \<le> ?n" unfolding k_def by (simp_all only: karatsubaLen_pos karatsubaLen_le)
  let ?x0 = "take k x" and ?y0 = "take k y" and ?y1 = "drop k y"
  let ?z = "nat_make (if al then nat_nil else z) (max (6 * k) (?m + ?n))"
  have v: "vslice x 0 k = Inr ?x0" "vslice y 0 k = Inr ?y0" "vfrom y k = Inr ?y1" using k len by (simp_all add: vslice_def vfrom_def)
  obtain r where r: "karatsuba (words ?z) ?x0 ?y0 = Inr r" "length r = max (6 * k) (?m + ?n)" "val (take (2 * k) r) = val ?x0 * val ?y0"
    using karatsuba_ok [of ?x0 ?y0 "words ?z"] k len by auto
  obtain z1 where z1: "on_words ?z (\<lambda>w. karatsuba w ?x0 ?y0) = Inr z1" "wf z1" "count z1 = count ?z" "words z1 = r"
    using on_words_ok [of ?z "\<lambda>w. karatsuba w ?x0 ?y0" r] r by auto
  obtain z2 where z2: "sl_upto z1 (?m + ?n) = Inr z2" "wf z2" "count z2 = ?m + ?n" "words z2 = take (?m + ?n) r"
    using upto_ok [OF z1(2), of "?m + ?n"] z1(3,4) by auto
  obtain z3 where z3: "on_words z2 (\<lambda>w. on_from w (2 * k) (\<lambda>s. Inr (clear s))) = Inr z3" "wf z3" "count z3 = ?m + ?n"
    "val (words z3) = val ?x0 * val ?y0"
  proof -
    let ?r = "take (2 * k) r @ replicate (?m + ?n - 2 * k) 0"
    have "on_from (words z2) (2 * k) (\<lambda>s. Inr (clear s)) = Inr ?r"
      using k len r(2) z2(3,4) by (simp add: on_from_def patch_def clear_def min_def)
    then show thesis using on_words_ok [OF z2(2), of "\<lambda>w. on_from w (2 * k) (\<lambda>s. Inr (clear s))" ?r] r k len z2(3) that
      by (auto simp: val_append)
  qed
  have run: "nat_mul al p z x y = (if k < ?n \<or> ?m \<noteq> ?n
     then go_bind (getNat p (3 * k)) (\<lambda>(t, p).
       go_bind (nat_mul False p t (norm ?x0) ?y1) (\<lambda>(t, p). go_bind (on_words z3 (\<lambda>w. addAt w (words t) k)) (\<lambda>z.
       go_bind (go_fold (\<lambda>i (z, t, p).
           go_bind (vfrom x i) (\<lambda>xi. let xi = norm (if length xi > k then take k xi else xi) in
           go_bind (nat_mul False p t xi (norm ?y0)) (\<lambda>(t, p). go_bind (on_words z (\<lambda>w. addAt w (words t) i)) (\<lambda>z.
           go_bind (nat_mul False p t xi ?y1) (\<lambda>(t, p). go_bind (on_words z (\<lambda>w. addAt w (words t) (i + k))) (\<lambda>z.
           Inr (z, t, p)))))))
         (steps k k (length x)) (z, t, p)) (\<lambda>(z, t, p). Inr (nat_norm z, p)))))
     else Inr (nat_norm z3, p))"
  proof -
    have c: "\<not> ?m < ?n" "\<not> (?m = 0 \<or> ?n = 0)" "?n \<noteq> 1" "\<not> ?n < karatsubaThreshold" using len n by auto
    show ?thesis
      by (subst nat_mul.simps) (simp only: Let_def c if_False k_def [symmetric] v go_bind_Inr z1 z2 z3)
  qed
  show "\<exists>z' p'. nat_mul al p z x y = Inr (z', p') \<and> nat_at z' (val x * val y) (max ?m ?n)"
  proof (cases "k < ?n \<or> ?m \<noteq> ?n")
    case False
    then have "k = ?n" "k = ?m" using k by auto
    then show ?thesis using run False norm_at [OF z3(2), of "max ?m ?n"] z3(3,4) by auto
  next
    case True
    have total: "val x * val y < B ^ (?m + ?n)"
      using mult_strict_mono [OF val_lt [of x] val_lt [of y]] by (simp add: power_add)
    have y: "val y = val ?y0 + B ^ k * val ?y1" using k(2) by (rule val_split)
    have start: "val (words z3) + B ^ k * (val (norm ?x0) * val ?y1) = val ?x0 * val y"
      unfolding y by (simp add: z3(4) algebra_simps)
    have "val ?x0 * val y \<le> val x * val y" using val_split [of k x] k len by (intro mult_le_mono1) simp
    then have room: "val (words z3) + B ^ k * (val (norm ?x0) * val ?y1) < B ^ count z3" unfolding start z3(3) using total by linarith
    obtain t0 p0 where t0: "getNat p (3 * k) = Inr (t0, p0)" using getNat_ok by blast
    have "length (norm ?x0) \<le> k" using length_norm_le [of ?x0] by simp
    then have "length (norm ?x0) + length ?y1 < ?m + ?n" using k len n by simp
    from add_product [OF IH [OF this] z3(2) room, of p0 t0]
    obtain t1 p1 z4 where 1: "nat_mul False p0 t0 (norm ?x0) ?y1 = Inr (t1, p1)" "on_words z3 (\<lambda>w. addAt w (words t1) k) = Inr z4"
      "wf z4" "count z4 = ?m + ?n" "val (words z4) = val ?x0 * val y"
      unfolding start z3(3) by blast
    let ?P = "\<lambda>i (z, t, p). wf z \<and> count z = ?m + ?n \<and> val (words z) = val (take i x) * val y"
    let ?f = "\<lambda>i (z, t, p). go_bind (vfrom x i) (\<lambda>xi. let xi = norm (if length xi > k then take k xi else xi) in
           go_bind (nat_mul False p t xi (norm ?y0)) (\<lambda>(t, p). go_bind (on_words z (\<lambda>w. addAt w (words t) i)) (\<lambda>z.
           go_bind (nat_mul False p t xi ?y1) (\<lambda>(t, p). go_bind (on_words z (\<lambda>w. addAt w (words t) (i + k))) (\<lambda>z.
           Inr (z, t, p))))))"
    have step: "\<exists>s'. ?f i s = Inr s' \<and> ?P (i + k) s'" if i: "i < length x" "?P i s" for i s
    proof -
      obtain z t p where s: "s = (z, t, p)" by (cases s)
      let ?xi = "norm (if length (drop i x) > k then take k (drop i x) else drop i x)"
      have "length ?xi \<le> k"
        using length_norm_le [of "take k (drop i x)"] length_norm_le [of "drop i x"] by auto
      moreover have "length (norm ?y0) \<le> k" using length_norm_le [of ?y0] by simp
      ultimately have "mul_ok ?xi (norm ?y0)" "mul_ok ?xi ?y1" using True k len by (auto intro!: IH)
      then show ?thesis
        using mul_row [where x = x and i = i and k = k and ?y0.0 = "norm ?y0" and ?y1.0 = ?y1 and y = y and z = z and p = p and t = t] y total i unfolding s by (simp add: Let_def)
    qed
    have "?P k (z4, t1, p1)" using 1 by simp
    then obtain s' j where s': "go_fold ?f (steps k k (length x)) (z4, t1, p1) = Inr s'" "length x \<le> j" "?P j s'"
      using go_fold_steps [OF k(1), of ?P k "(z4, t1, p1)" "length x" ?f] step by blast
    obtain z' t' p' where e: "s' = (z', t', p')" by (cases s')
    then have z': "nat_at (nat_norm z') (val x * val y) (max ?m ?n)" using norm_at [of z' "max ?m ?n"] s'(2,3) by simp
    have "nat_mul al p z x y = Inr (nat_norm z', p')" unfolding run using True t0 1(1,2) s'(1) unfolding e by simp
    then show ?thesis using z' by blast
  qed
qed

lemma nat_mul_swap: "length x < length y \<Longrightarrow> nat_mul al p z x y = nat_mul al p z y x"
  unfolding nat_mul.simps [of al p z x y] Let_def by (rule if_P)

lemma mul_total: "mul_ok x y"
proof (induction "length x + length y" arbitrary: x y rule: less_induct)
  case less
  have le: "mul_ok a b" if le: "length b \<le> length a" and sum: "length a + length b = length x + length y" for a b
  proof (cases "length b < karatsubaThreshold")
    case False
    then have "karatsubaThreshold \<le> length b" by simp
    moreover have "mul_ok c d" if "length c + length d < length a + length b" for c d
      using that unfolding sum by (rule less.hyps)
    ultimately show ?thesis by (rule mul_long [OF le])
  qed (rule mul_small [OF le])
  show ?case
  proof (cases "length y \<le> length x")
    case False
    then have "nat_mul al p z x y = nat_mul al p z y x" for al p z by (intro nat_mul_swap) simp
    moreover have "mul_ok y x" using False by (intro le) simp_all
    ultimately show ?thesis by (simp add: mul_ok_def mult.commute [of "val x"] max.commute [of "length x"])
  qed (rule le, simp_all)
qed

lemma nat_mul_at: "\<exists>z' p'. nat_mul al p z x y = Inr (z', p') \<and> nat_at z' (val x * val y) (max (length x) (length y))"
  using mul_total by (simp add: mul_ok_def)

lemma nat_mul_ok: "\<exists>z' p'. nat_mul al p z x y = Inr (z', p') \<and> nat_is z' (val x * val y)"
  using nat_mul_at unfolding nat_at_def by blast

end
