(* ===== verification/Big_Div.thy ===== *)
theory Big_Div
  imports Big_Nat
begin

text \<open>
  Package \<^verbatim>\<open>math/big\<close>: the long division of \<^verbatim>\<open>natdiv.go\<close>, by a word, basic and recursive.  A vector that the code
  overwrites (quotient, remainder) is returned with its new words.  The temporaries of the recursion are cleared by
  the code before each use, so that what an earlier use left in them is not kept here.
\<close>

section \<open>By a word\<close>

text \<open>The loop from \<open>i - 1\<close> down to zero.\<close>

primrec divWVW_loop :: "u64 list \<Rightarrow> u64 \<Rightarrow> u64 \<Rightarrow> nat \<Rightarrow> u64 \<Rightarrow> u64 list \<Rightarrow> (u64 list \<times> u64) go" where
  "divWVW_loop x y rec 0 r z = Inr (z, r)"
| "divWVW_loop x y rec (Suc i) r z =
    go_bind (vget x i) (\<lambda>xi. let (q, r) = divWW r xi y rec in go_bind (vset z i q) (\<lambda>z. divWVW_loop x y rec i r z))"

definition divWVW :: "u64 list \<Rightarrow> u64 \<Rightarrow> u64 list \<Rightarrow> u64 \<Rightarrow> (u64 list \<times> u64) go" where
  "divWVW z xn x y =
    (let r = xn in
     if length x = 1
     then go_bind (vget x 0) (\<lambda>x0. go_bind (Div r x0 y) (\<lambda>(qq, rr). go_bind (vset z 0 qq) (\<lambda>z. Inr (z, rr))))
     else go_bind (reciprocalWord y) (\<lambda>rec. divWVW_loop x y rec (length z) r z))"

definition nat_divW :: "nat_slice \<Rightarrow> u64 list \<Rightarrow> u64 \<Rightarrow> (nat_slice \<times> u64) go" where
  "nat_divW z x y =
    (let m = length x in
     if y = 0 then Inl (PanicMsg ''division by zero'')
     else if y = 1 then Inr (nat_set z x, 0)
     else if m = 0 then go_bind (sl_upto z 0) (\<lambda>q. Inr (q, 0))
     else
       let z = nat_make z m
       in go_bind (divWVW (words z) 0 x y) (\<lambda>(w, r). Inr (nat_norm (sl_put z 0 w), r)))"

definition nat_modW :: "u64 list \<Rightarrow> u64 \<Rightarrow> u64 go" where
  "nat_modW x d = (let q = nat_make nat_nil (length x) in go_bind (divWVW (words q) 0 x d) (\<lambda>(_, r). Inr r))"

section \<open>Basic division\<close>

definition greaterThan :: "u64 \<Rightarrow> u64 \<Rightarrow> u64 \<Rightarrow> u64 \<Rightarrow> bool" where
  "greaterThan x1 x2 y1 y2 \<longleftrightarrow> x1 > y1 \<or> x1 = y1 \<and> x2 > y2"

text \<open>\<open>x[i-k]\<close>, where \<open>i - k\<close> may be negative.\<close>

definition vget_sub :: "'a list \<Rightarrow> nat \<Rightarrow> nat \<Rightarrow> 'a go" where
  "vget_sub x i k = (if i < k then Inl IndexOutOfRange else vget x (i - k))"

lemma mulWW_0 [simp]: "mulWW 0 y = (0, 0)"
  by (simp add: mulWW_def Mul_def Mul64_def Let_def)

lemma greaterThan_0 [simp]: "\<not> greaterThan 0 0 y1 y2"
  by (simp add: greaterThan_def not_less)

text \<open>The guess is lowered until it is right for two digits of the divisor; \<open>x1 x2\<close> is \<open>qhat * vn2\<close>.\<close>

function divBasic_refine :: "u64 \<Rightarrow> u64 \<Rightarrow> u64 \<Rightarrow> u64 \<Rightarrow> u64 \<Rightarrow> u64" where
  "divBasic_refine vn1 vn2 ujn2 qhat rhat =
    (let (x1, x2) = mulWW qhat vn2 in
     if greaterThan x1 x2 rhat ujn2
     then let qhat = qhat - 1; prevRhat = rhat; rhat = rhat + vn1
       in if rhat < prevRhat then qhat else divBasic_refine vn1 vn2 ujn2 qhat rhat
     else qhat)"
  by pat_completeness auto
termination
proof (relation "measure (\<lambda>(vn1, vn2, ujn2, qhat, rhat). unat qhat)", goal_cases)
  case (2 vn1 vn2 ujn2 qhat rhat p x1 x2 q r1 r2)
  have "qhat \<noteq> 0"
  proof
    assume "qhat = 0"
    then show False using 2 by simp
  qed
  then have "unat (qhat - 1) < unat qhat" by (simp add: unat_minus_one) (simp add: word_neq_0_conv unat_gt_0)
  then show ?case using 2 by simp
qed simp

declare divBasic_refine.simps [simp del]

text \<open>One digit of the quotient: the guess, its product with the divisor, and the subtraction, repaired on a borrow.\<close>

definition divBasic_guess :: "u64 list \<Rightarrow> u64 list \<Rightarrow> u64 \<Rightarrow> u64 \<Rightarrow> nat \<Rightarrow> u64 go" where
  "divBasic_guess u v vn1 rec j =
    (let n = length v in
     go_bind (if j + n < length u then vget u (j + n) else Inr 0) (\<lambda>ujn.
       if ujn \<noteq> vn1
       then go_bind (vget_sub u (j + n) 1) (\<lambda>ujn1.
         let (qhat, rhat) = divWW ujn ujn1 vn1 rec
         in go_bind (vget_sub v n 2) (\<lambda>vn2. go_bind (vget_sub u (j + n) 2) (\<lambda>ujn2.
           Inr (divBasic_refine vn1 vn2 ujn2 qhat rhat))))
       else Inr M))"

definition divBasic_subtract :: "u64 list \<Rightarrow> u64 list \<Rightarrow> u64 list \<Rightarrow> u64 \<Rightarrow> nat \<Rightarrow> (u64 list \<times> u64) go" where
  "divBasic_subtract u v qhatv qhat j =
    (let n = length v in
     go_bind (vget qhatv n) (\<lambda>top.
       let qhl = (if j + length qhatv > length u \<and> top = 0 then length qhatv - 1 else length qhatv)
       in go_bind (vfrom u j) (\<lambda>uj. go_bind (on_part u j (j + qhl) (\<lambda>s. Inr (subVV s uj qhatv))) (\<lambda>(u, c).
         if c \<noteq> 0
         then go_bind (vfrom u j) (\<lambda>uj. go_bind (on_part u j (j + n) (\<lambda>s. Inr (addVV s uj v))) (\<lambda>(u, c).
           go_bind (if n < qhl then go_bind (vget u (j + n)) (\<lambda>w. vset u (j + n) (w + c)) else Inr u) (\<lambda>u.
             Inr (u, qhat - 1))))
         else Inr (u, qhat)))))"

definition divBasic_digit ::
  "u64 list \<Rightarrow> u64 \<Rightarrow> u64 \<Rightarrow> nat \<Rightarrow> u64 list \<times> u64 list \<times> u64 list \<Rightarrow> (u64 list \<times> u64 list \<times> u64 list) go" where
  "divBasic_digit v vn1 rec j = (\<lambda>(q, u, qhatv).
    let n = length v in
    go_bind (divBasic_guess u v vn1 rec j) (\<lambda>qhat.
    go_bind (on_part qhatv 0 n (\<lambda>s. Inr (mulAddVWW s v qhat 0))) (\<lambda>(qhatv, c). go_bind (vset qhatv n c) (\<lambda>qhatv.
    go_bind (divBasic_subtract u v qhatv qhat j) (\<lambda>(u, qhat).
      if j + n = length u \<and> j = length q \<and> qhat = 0 then Inr (q, u, qhatv)
      else go_bind (vset q j qhat) (\<lambda>q. Inr (q, u, qhatv)))))))"

primrec divBasic_loop ::
  "u64 list \<Rightarrow> u64 \<Rightarrow> u64 \<Rightarrow> nat \<Rightarrow> u64 list \<times> u64 list \<times> u64 list \<Rightarrow> (u64 list \<times> u64 list \<times> u64 list) go" where
  "divBasic_loop v vn1 rec 0 s = Inr s"
| "divBasic_loop v vn1 rec (Suc j) s = go_bind (divBasic_digit v vn1 rec j s) (divBasic_loop v vn1 rec j)"

definition divBasic :: "pool \<Rightarrow> u64 list \<Rightarrow> u64 list \<Rightarrow> u64 list \<Rightarrow> (u64 list \<times> u64 list \<times> pool) go" where
  "divBasic p q u v =
    (let n = length v in
     go_bind (getNat p (n + 1)) (\<lambda>(qhatv, p).
     go_bind (vget_sub v n 1) (\<lambda>vn1. go_bind (reciprocalWord vn1) (\<lambda>rec.
     go_bind (divBasic_loop v vn1 rec (length u + 1 - n) (q, u, words qhatv)) (\<lambda>(q, u, _). Inr (q, u, p))))))"

section \<open>Recursive division\<close>

definition divRecursiveThreshold :: nat where "divRecursiveThreshold = 100"

text \<open>\<open>for j > b\<close> from \<open>j = m\<close> in steps of \<open>b\<close> (which is never zero there).\<close>

function down_steps :: "nat \<Rightarrow> nat \<Rightarrow> nat list" where
  "down_steps b j = (if j > b \<and> 0 < b then j # down_steps b (j - b) else [])"
  by pat_completeness auto
termination by (relation "measure snd") auto

declare down_steps.simps [simp del]

text \<open>The guess is one too large: \<open>qhat\<close> and \<open>qhatv\<close> are lowered, the upper part of the divisor is added back.\<close>

definition divRecursive_back ::
  "nat \<Rightarrow> u64 list \<Rightarrow> nat_slice \<times> nat_slice \<times> u64 list \<Rightarrow> (nat_slice \<times> nat_slice \<times> u64 list) go" where
  "divRecursive_back s v = (\<lambda>(qhat, qhatv, uu).
    go_bind (on_words qhat (\<lambda>w. Inr (fst (subVW w w 1)))) (\<lambda>qhat.
    go_bind (vslice (array qhatv) 0 s) (\<lambda>w. go_bind (vslice v 0 s) (\<lambda>v0.
    let (w, c) = subVV w w v0; qhatv = sl_put qhatv 0 w in
    go_bind (if count qhatv > s then on_words qhatv (\<lambda>w. on_from w s (\<lambda>t. Inr (fst (subVW t t c)))) else Inr qhatv) (\<lambda>qhatv.
    go_bind (vfrom v s) (\<lambda>v1. go_bind (on_from uu s (\<lambda>t. addAt t v1 0)) (\<lambda>uu. Inr (qhat, qhatv, uu))))))))"

text \<open>At most \<open>i\<close> times, with the \<open>break\<close> of the loop over the wide digits and without it.\<close>

primrec divRecursive_fix ::
  "nat \<Rightarrow> nat \<Rightarrow> u64 list \<Rightarrow> nat_slice \<times> nat_slice \<times> u64 list \<Rightarrow> (nat_slice \<times> nat_slice \<times> u64 list) go" where
  "divRecursive_fix 0 s v st = Inr st"
| "divRecursive_fix (Suc i) s v st =
    (case st of (qhat, qhatv, uu) \<Rightarrow>
      let e = nat_cmp (words qhatv) (norm uu) in
      if e \<le> 0 then Inr st else go_bind (divRecursive_back s v st) (divRecursive_fix i s v))"

primrec divRecursive_fix_last ::
  "nat \<Rightarrow> nat \<Rightarrow> u64 list \<Rightarrow> nat_slice \<times> nat_slice \<times> u64 list \<Rightarrow> (nat_slice \<times> nat_slice \<times> u64 list) go" where
  "divRecursive_fix_last 0 s v st = Inr st"
| "divRecursive_fix_last (Suc i) s v st =
    (case st of (qhat, qhatv, uu) \<Rightarrow>
      go_bind (if nat_cmp (words qhatv) (norm uu) > 0 then divRecursive_back s v st else Inr st) (divRecursive_fix_last i s v))"

text \<open>\<open>qhatv\<close> is the product of the guess with the lower part of the divisor.\<close>

definition divRecursive_product :: "pool \<Rightarrow> nat_slice \<Rightarrow> nat \<Rightarrow> nat \<Rightarrow> u64 list \<Rightarrow> nat_slice \<Rightarrow> (nat_slice \<times> pool) go" where
  "divRecursive_product p tmp n s v qhat =
    (let qhatv = nat_make tmp (3 * n); qhatv = sl_put qhatv 0 (clear (words qhatv))
     in go_bind (vslice v 0 s) (\<lambda>v0. nat_mul False p qhatv (words qhat) v0))"

text \<open>
  What follows the recursive call: for a wide digit in the loop, and for the last one.  The result is the guess, put
  right, and what is left of \<open>uu\<close>.
\<close>

definition divRecursive_digit ::
  "pool \<Rightarrow> nat_slice \<Rightarrow> nat \<Rightarrow> nat \<Rightarrow> u64 list \<Rightarrow> nat_slice \<Rightarrow> u64 list \<Rightarrow> (nat_slice \<times> u64 list \<times> pool) go" where
  "divRecursive_digit p tmp n s v qhat uu =
    go_bind (divRecursive_product p tmp n s v qhat) (\<lambda>(qhatv, p).
    go_bind (divRecursive_fix 2 s v (qhat, qhatv, uu)) (\<lambda>(qhat, qhatv, uu).
    if nat_cmp (words qhatv) (norm uu) > 0 then Inl (PanicMsg ''impossible'')
    else go_bind (on_part uu 0 (count qhatv) (\<lambda>t. Inr (subVV t t (words qhatv)))) (\<lambda>(uu, c).
      go_bind (if c > 0 then on_from uu (count qhatv) (\<lambda>t. Inr (fst (subVW t t c))) else Inr uu) (\<lambda>uu.
      Inr (qhat, uu, p)))))"

definition divRecursive_last ::
  "pool \<Rightarrow> nat_slice \<Rightarrow> nat \<Rightarrow> nat \<Rightarrow> u64 list \<Rightarrow> nat_slice \<Rightarrow> u64 list \<Rightarrow> (nat_slice \<times> u64 list \<times> pool) go" where
  "divRecursive_last p tmp n s v qhat u =
    go_bind (divRecursive_product p tmp n s v qhat) (\<lambda>(qhatv, p).
    go_bind (divRecursive_fix_last 2 s v (qhat, qhatv, u)) (\<lambda>(qhat, qhatv, u).
    if nat_cmp (words qhatv) (norm u) > 0 then Inl (PanicMsg ''impossible'')
    else go_bind (on_part u 0 (count qhatv) (\<lambda>t. Inr (subVV t t (words qhatv)))) (\<lambda>(u, c).
      if c > 0
      then go_bind (vfrom u (count qhatv)) (\<lambda>t. go_bind (on_part u (count qhatv) (length u) (\<lambda>s. Inr (subVW s t c))) (\<lambda>(u, c).
        if c > 0 then Inl (PanicMsg ''impossible'') else Inr (qhat, u, p)))
      else Inr (qhat, u, p))))"

function divRecursiveStep ::
  "pool \<Rightarrow> u64 list \<Rightarrow> u64 list \<Rightarrow> u64 list \<Rightarrow> nat \<Rightarrow> nat_slice \<Rightarrow> nat_slice option list \<Rightarrow>
    (u64 list \<times> u64 list \<times> nat_slice option list \<times> pool) go" where
  "divRecursiveStep p z u0 v depth tmp temps =
    (let u = norm u0; v = norm v in
     if length u = 0 then Inr (clear z, u0, temps, p)
     else
       let n = length v in
       if n < divRecursiveThreshold
       then go_bind (divBasic p z u v) (\<lambda>(z, u, p). Inr (z, patch u0 0 u, temps, p))
       else if length u < n then Inr (z, u0, temps, p)
       else
         let m = length u - n; b = n div 2; s = b - 1 in
         go_bind (vget temps depth) (\<lambda>t.
         go_bind (case t of None \<Rightarrow> getNat p n | Some t \<Rightarrow> Inr (nat_make t (b + 1), p)) (\<lambda>(t, p).
         let temps = temps[depth := Some t]; qhat0 = sl_put t 0 (clear (words t)) in
         go_bind (vfrom v s) (\<lambda>v1.
         go_bind (go_fold (\<lambda>j (z, u, temps, p).
             go_bind (vfrom u (j - b)) (\<lambda>uu. go_bind (vslice uu s (b + n)) (\<lambda>u1.
             go_bind (divRecursiveStep p (words qhat0) u1 v1 (depth + 1) tmp temps) (\<lambda>(w, u1, temps, p).
             let qhat = nat_norm (sl_put qhat0 0 w) in
             go_bind (divRecursive_digit p tmp n s v qhat (patch uu s u1)) (\<lambda>(qhat, uu, p).
             go_bind (addAt z (words qhat) (j - b)) (\<lambda>z. Inr (z, patch u (j - b) uu, temps, p)))))))
           (down_steps b m) (z, u, temps, p)) (\<lambda>(z, u, temps, p).
         go_bind (vfrom u s) (\<lambda>u1.
         go_bind (divRecursiveStep p (words qhat0) (norm u1) v1 (depth + 1) tmp temps) (\<lambda>(w, u1, temps, p).
         let qhat = nat_norm (sl_put qhat0 0 w) in
         go_bind (divRecursive_last p tmp n s v qhat (patch u s u1)) (\<lambda>(qhat, u, p).
         go_bind (addAt z (norm (words qhat)) 0) (\<lambda>z. Inr (z, patch u0 0 u, temps, p))))))))))"
  by pat_completeness auto
termination
proof -
  have less: "length (norm (drop (n div 2 - 1) (norm v))) < n" if "n = length (norm v)" "100 \<le> n" for n and v :: "u64 list"
  proof -
    have "length (norm (drop (n div 2 - 1) (norm v))) \<le> n - (n div 2 - 1)" using that(1) length_norm_le [of "drop (n div 2 - 1) (norm v)"] by simp
    then show ?thesis using that by linarith
  qed
  show ?thesis
    by (relation "measure (\<lambda>(p, z, u, v, depth, tmp, temps). length (norm v))")
      (auto simp: vfrom_def divRecursiveThreshold_def less [unfolded One_nat_def] split: if_splits)
qed

declare divRecursiveStep.simps [simp del]

definition divRecursive :: "pool \<Rightarrow> u64 list \<Rightarrow> u64 list \<Rightarrow> u64 list \<Rightarrow> (u64 list \<times> u64 list \<times> pool) go" where
  "divRecursive p z u v =
    (let recDepth = 2 * nat (Len (of_nat (length v))) in
     go_bind (getNat p (3 * length v)) (\<lambda>(tmp, p).
     let temps = replicate recDepth None in
     go_bind (divRecursiveStep p (clear z) u v 0 tmp temps) (\<lambda>(z, u, temps, p). Inr (z, u, p))))"

section \<open>Division\<close>

text \<open>
  \<open>al\<close>: whether \<open>z\<close> shares its array with the remainder.  A caller that passes one slice for both, as \<open>QuoRem\<close> on
  one target, keeps only the remainder, which is written last; the copies here are separate.
\<close>

definition divLarge ::
  "bool \<Rightarrow> pool \<Rightarrow> nat_slice \<Rightarrow> nat_slice \<Rightarrow> u64 list \<Rightarrow> u64 list \<Rightarrow> (nat_slice \<times> nat_slice \<times> pool) go" where
  "divLarge al p z u uIn vIn =
    (let n = length vIn; m = length uIn - n in
     go_bind (vget_sub vIn n 1) (\<lambda>top.
     let shift = nlz top in
     go_bind (getNat p n) (\<lambda>(v, p).
     go_bind (shlVU (words v) vIn shift) (\<lambda>(v, _).
     let u = nat_make u (length uIn + 1) in
     go_bind (on_vec u 0 (length uIn) (\<lambda>s. shlVU s uIn shift)) (\<lambda>(u, c). go_bind (sl_set u (length uIn) c) (\<lambda>u.
     let z = (if al then nat_nil else z); q = nat_make z (m + 1) in
     go_bind (if n < divRecursiveThreshold then divBasic p (words q) (words u) v
              else divRecursive p (words q) (words u) v) (\<lambda>(qw, uw, p).
     let q = nat_norm (sl_put q 0 qw); u = sl_put u 0 uw in
     go_bind (shrVU (words u) (words u) shift) (\<lambda>(uw, _). Inr (q, nat_norm (sl_put u 0 uw), p)))))))))"

definition nat_div ::
  "bool \<Rightarrow> pool \<Rightarrow> nat_slice \<Rightarrow> nat_slice \<Rightarrow> u64 list \<Rightarrow> u64 list \<Rightarrow> (nat_slice \<times> nat_slice \<times> pool) go" where
  "nat_div al p z z2 u v =
    (if length v = 0 then Inl (PanicMsg ''division by zero'')
     else if nat_cmp u v < 0 then go_bind (sl_upto z 0) (\<lambda>q. Inr (q, nat_set z2 u, p))
     else if length v = 1
     then go_bind (vget v 0) (\<lambda>v0. go_bind (nat_divW z u v0) (\<lambda>(q, r2). go_bind (nat_setWord z2 r2) (\<lambda>r. Inr (q, r, p))))
     else divLarge al p z z2 u v)"

definition nat_rem :: "bool \<Rightarrow> bool \<Rightarrow> pool \<Rightarrow> nat_slice \<Rightarrow> u64 list \<Rightarrow> u64 list \<Rightarrow> (nat_slice \<times> pool) go" where
  "nat_rem al alq p z u v =
    (let z = (if al then nat_nil else z)
     in go_bind (getNat p 0) (\<lambda>(qp, p). go_bind (nat_div alq p qp z u v) (\<lambda>(q, r, p). Inr (r, p))))"

end
