(* ===== verification/Big_DivWW.thy ===== *)
theory Big_DivWW
  imports Big_Vec_Spec
begin

text \<open>
  Division of two words by one with a reciprocal: \<open>divWW\<close> of \<^verbatim>\<open>math/big/arith.go\<close> is exact.  The guess made
  with the reciprocal is at most two too low, and the remainder of the guess stays below \<open>B + d\<close>.
\<close>

section \<open>The guess\<close>

text \<open>Over numbers: \<open>v\<close> is the reciprocal with its leading one, \<open>t\<close> the guess for \<open>n = x1 * b + x0\<close>.\<close>

lemma reciprocal_guess:
  fixes b d v x1 x0 t :: int
  assumes d: "0 < d" "d < b" and v: "d * v \<le> b * b - 1" "b * b - 1 < d * v + d"
    and x: "0 \<le> x1" "x1 < d" "0 \<le> x0" "x0 < b"
    and t: "t = (x1 * v + x0) div b"
  shows "x1 * v + x0 < b * b" "d * t \<le> x1 * b + x0" "x1 * b + x0 - d * t < b + d"
proof -
  let ?p = "x1 * v + x0"
  have b: "0 < b" using d by simp
  have v1: "b + 1 \<le> v"
  proof (rule ccontr)
    assume "\<not> b + 1 \<le> v"
    then have "d * (v + 1) \<le> d * (b + 1)" using d by (intro mult_left_mono) auto
    also have "\<dots> \<le> (b - 1) * (b + 1)" using d b by (intro mult_right_mono) auto
    finally show False using v(2) by (simp add: algebra_simps)
  qed
  have "x1 * v \<le> (d - 1) * v" using x v1 b by (intro mult_right_mono) auto
  then have "x1 * v \<le> b * b - 1 - v" using v(1) by (simp add: algebra_simps)
  then show "?p < b * b" using v1 x by linarith
  have tp: "t * b \<le> ?p" "?p < t * b + b"
    using b unfolding t by (simp_all add: minus_mod_eq_div_mult [symmetric] pos_mod_bound)
  have xdv: "x1 * (d * v) \<le> x1 * (b * b - 1)" "x1 * (b * b - d) \<le> x1 * (d * v)"
    using x v by (intro mult_left_mono; simp)+
  have "d * x0 \<le> b * x0" using d x by (intro mult_right_mono) auto
  moreover have "d * (t * b) \<le> d * ?p" using tp d by (intro mult_left_mono) auto
  ultimately have "b * (d * t) \<le> b * (x1 * b + x0)" using xdv(1) x by (simp add: algebra_simps)
  then show "d * t \<le> x1 * b + x0" using b by simp
  have "d * (?p - b + 1) \<le> d * (t * b)" using tp d by (intro mult_left_mono) auto
  then have "b * (x1 * b + x0 - d * t) \<le> x0 * (b - d) + d * (x1 + b - 1)"
    using xdv(2) by (simp add: algebra_simps)
  also have "\<dots> \<le> (b - 1) * (b - d) + d * (x1 + b - 1)" using d x by (intro add_right_mono mult_right_mono) auto
  also have "\<dots> = b * b - b + d * x1" by (simp add: algebra_simps)
  also have "\<dots> < b * b + d * b"
  proof -
    have "d * x1 \<le> d * b" using d x by (intro mult_left_mono) auto
    then show ?thesis using b by linarith
  qed
  also have "\<dots> = b * (b + d)" by (simp add: algebra_simps)
  finally show "x1 * b + x0 - d * t < b + d" using b by simp
qed

text \<open>The carries and borrows of the code: \<open>r1\<close> and \<open>r0\<close> are the remainder of the guess \<open>t\<close>.\<close>

lemma guess_words:
  fixes b d m x1 x0 t1 t0 l c t k dq1 dq0 r0 bo r1 bb :: nat
  assumes b: "b \<le> 2 * d" "d < b" and x: "x1 < d" "x0 < b" and m: "m + b = (b * b - 1) div d"
    and M: "t1 * b + t0 = m * x1" and A: "l + b * c = t0 + x0" and T: "t + b * k = t1 + x1 + c" and l: "l < b"
    and D: "dq1 * b + dq0 = d * t" and R0: "x0 + b * bo = r0 + dq0" and R1: "x1 + b * bb = r1 + dq1 + bo"
    and r: "r1 < b" "r0 < b"
  shows "d * t + (r1 * b + r0) = x1 * b + x0" "r1 * b + r0 < b + d"
proof -
  have dpos: "0 < d" "0 < b" using b by linarith+
  have "(t + b * k) * b + l = x1 * (m + b) + x0" using M A T by (simp add: algebra_simps)
  then have P: "t + b * k = (x1 * (m + b) + x0) div b"
    using l by (metis dpos(2) add.commute div_less div_mult_self1 add.right_neutral less_not_refl2)
  have "d * (m + b) \<le> b * b - 1" "b * b - 1 < d * (m + b) + d"
    unfolding m using dpos by (simp_all add: dividend_less_times_div add.commute)
  then have "int (d * (m + b)) \<le> int (b * b - 1)" "int (b * b - 1) < int (d * (m + b) + d)"
    by (simp_all only: of_nat_le_iff of_nat_less_iff)
  then have v: "int d * int (m + b) \<le> int b * int b - 1" "int b * int b - 1 < int d * int (m + b) + int d"
    using dpos by (simp_all add: of_nat_diff Suc_le_eq)
  have t: "int (t + b * k) = (int x1 * int (m + b) + int x0) div int b"
    unfolding P by (simp add: of_nat_div)
  have p: "0 < int d" "int d < int b" "0 \<le> int x1" "int x1 < int d" "0 \<le> int x0" "int x0 < int b"
    using dpos b x by simp_all
  note G = reciprocal_guess [OF p(1,2) v p(3-6) t]
  have "x1 * (m + b) + x0 < b * b" using G(1) by (simp flip: of_nat_mult of_nat_add)
  then have "t + b * k < b" unfolding P by (simp add: less_mult_imp_div_less)
  then have k: "k = 0" by (cases k) simp_all
  have le: "d * t \<le> x1 * b + x0" using G(2) unfolding k by (simp flip: of_nat_mult of_nat_add)
  have E: "x1 * b + x0 + b * b * bb = r1 * b + r0 + d * t"
    using R0 R1 unfolding D [symmetric] by (simp add: algebra_simps) (metis add.assoc add.commute distrib_left)
  have "Suc r1 * b \<le> b * b" using r by (intro mult_le_mono1) simp
  then have lt: "r1 * b + r0 < b * b" unfolding mult_Suc using r by linarith
  have "bb = 0"
  proof (rule ccontr)
    assume "bb \<noteq> 0"
    then have "b * b * 1 \<le> b * b * bb" by (intro mult_le_mono2) simp
    then show False using E lt le by linarith
  qed
  then show e: "d * t + (r1 * b + r0) = x1 * b + x0" using E by simp
  have "int (x1 * b + x0) - int (d * t) < int (b + d)" using G(3) unfolding k by simp
  then show "r1 * b + r0 < b + d" using e by linarith
qed

section \<open>The words\<close>

lemma nlz_eq: "nlz y = nat (LeadingZeros64 y)"
  by (simp add: nlz_def LeadingZeros_def LeadingZeros64_def UintSize_def Bits.Len_def)

lemma normalized_top:
  assumes "y \<noteq> 0"
  shows "nlz y < 64" "unat (push_bit (nlz y) y) = unat y * 2 ^ nlz y" "B \<le> 2 * unat (push_bit (nlz y) y)"
  using normalised [OF assms nlz_eq] by (simp_all add: B_def)

lemma complement_digits:
  fixes b u :: nat
  assumes "u < b"
  shows "(b - 1 - u) * b + (b - 1) + u * b = b * b - 1"
proof -
  obtain k where k: "b = Suc (u + k)" using assms by (metis less_iff_Suc_add)
  have "k * b + (u + k) + u * b = (u + k) * b + (u + k)" by (simp add: distrib_right)
  then show ?thesis by (simp add: k)
qed

lemma reciprocal_val:
  assumes "y \<noteq> 0"
  shows "\<exists>m. reciprocalWord y = Inr m \<and> unat m + B = (B * B - 1) div unat (push_bit (nlz y) y)"
proof -
  let ?u = "push_bit (nlz y) y"
  have u: "B \<le> 2 * unat ?u" "unat ?u < B" using normalized_top(3) [OF assms] by simp_all
  then have pos: "0 < unat ?u" using B_pos(1) by linarith
  have "unat ?u + unat (NOT ?u) = unat M"
    using unat_or_disjoint [of ?u "NOT ?u"] by (simp add: M_def)
  then have n: "unat (NOT ?u) = B - 1 - unat ?u" by (simp add: unat_M)
  have lt: "NOT ?u < ?u" unfolding word_less_nat_alt n using u B_pos(1) by linarith
  have "unat (NOT ?u) * B + unat M + unat ?u * B = B * B - 1"
    unfolding n unat_M using u(2) by (rule complement_digits)
  then have "(B * B - 1) div unat ?u = (unat (NOT ?u) * B + unat M + unat ?u * B) div unat ?u" by simp
  also have "\<dots> = (unat (NOT ?u) * B + unat M) div unat ?u + B" using pos by simp
  finally have q: "(B * B - 1) div unat ?u = (unat (NOT ?u) * B + unat M) div unat ?u + B" .
  have "unat (NOT ?u) * B + unat M < unat ?u * B"
  proof -
    have "Suc (unat (NOT ?u)) * B \<le> unat ?u * B" using lt by (intro mult_le_mono1) (simp add: word_less_nat_alt)
    then show ?thesis unfolding mult_Suc using unat_lt_B [of M] by linarith
  qed
  then have f: "(unat (NOT ?u) * B + unat M) div unat ?u < B" by (simp add: less_mult_imp_div_less mult.commute)
  show ?thesis
    using Div_quotient [OF lt, of M] q f by (simp add: reciprocalWord_def Let_def unat_of_nat B_def)
qed

lemma divWW_core:
  fixes d x1 x0 m :: u64
  assumes d: "B \<le> 2 * unat d" and x: "x1 < d" and m: "unat m + B = (B * B - 1) div unat d"
    and 1: "Mul m x1 = (t1, t0)" and 2: "Add t0 x0 0 = (l, c)" and 3: "Add t1 x1 c = (t, k)"
    and 4: "Mul d t = (dq1, dq0)" and 5: "Sub x0 dq0 0 = (r0, b)" and 6: "Sub x1 dq1 b = (r1, bb)"
    and 7: "(q1, s1) = (if r1 \<noteq> 0 then (t + 1, r0 - d) else (t, r0))"
    and 8: "(q, s) = (if s1 \<ge> d then (q1 + 1, s1 - d) else (q1, s1))"
  shows "unat q * unat d + unat s = unat x1 * B + unat x0" "unat s < unat d"
proof -
  have A: "unat l + B * unat c = unat t0 + unat x0" "unat c \<le> 1" using Add_val [OF _ 2] by simp_all
  have R0: "unat x0 + B * unat b = unat r0 + unat dq0" "unat b \<le> 1" using Sub_val [OF _ 5] by simp_all
  have x': "unat x1 < unat d" using x by (simp add: word_less_nat_alt)
  note G = guess_words [OF d unat_lt_B x' unat_lt_B m Mul_val [OF 1] A(1) Add_val(1) [OF A(2) 3] unat_lt_B
      Mul_val [OF 4] R0(1) Sub_val(1) [OF R0(2) 6] unat_lt_B unat_lt_B]
  let ?n = "unat x1 * B + unat x0"
  have n: "?n < unat d * B"
  proof -
    have "Suc (unat x1) * B \<le> unat d * B" using x' by (intro mult_le_mono1) simp
    then show ?thesis unfolding mult_Suc using unat_lt_B [of x0] by linarith
  qed
  have fits: "q < B" if "unat d * q \<le> ?n" for q
    using le_less_trans [OF that n] by simp
  have suc: "unat (w + 1) = unat w + 1" if "unat d * (unat w + 1) \<le> ?n" for w :: u64
    using fits [OF that] by (subst unat_plus_if') (simp add: B_def)
  have s1: "unat d * unat q1 + unat s1 = ?n" "unat s1 < B"
  proof -
    have "unat d * unat q1 + unat s1 = ?n"
    proof (cases "r1 = 0")
      case True
      then show ?thesis using 7 G(1) by simp
    next
      case False
      have "unat r1 = 1"
      proof -
        have "unat r1 * B < 2 * B" using G(2) unat_lt_B [of d] by linarith
        then show ?thesis using False by (simp add: word_unat_eq_iff)
      qed
      then have g: "unat d * unat t + (B + unat r0) = ?n" "unat r0 < unat d" using G by simp_all
      have "unat d * (unat t + 1) \<le> ?n" using g(1) unat_lt_B [of d] unfolding distrib_left by linarith
      moreover have "unat (r0 - d) = B + unat r0 - unat d"
        using g(2) by (subst unat_sub_if') (simp add: B_def)
      moreover have "unat d \<le> B + unat r0" using unat_lt_B [of d] by linarith
      ultimately show ?thesis using 7 False g(1) suc [of t] by simp
    qed
    then show "unat d * unat q1 + unat s1 = ?n" "unat s1 < B" by simp_all
  qed
  show "unat q * unat d + unat s = ?n" "unat s < unat d"
  proof -
    have "unat q * unat d + unat s = ?n \<and> unat s < unat d"
    proof (cases "s1 \<ge> d")
      case False
      then have "q = q1" "s = s1" using 8 by simp_all
      moreover have "unat s1 < unat d" using False by (simp add: not_le word_less_nat_alt)
      ultimately show ?thesis using s1(1) by (simp add: mult.commute)
    next
      case True
      then have g: "unat d \<le> unat s1" by (simp add: word_le_nat_alt)
      have "unat d * (unat q1 + 1) \<le> ?n" using s1(1) g unfolding distrib_left by linarith
      then have "unat q = unat q1 + 1" using 8 True suc [of q1] by simp
      moreover have "unat s = unat s1 - unat d" using 8 True g by (simp add: unat_sub_if')
      moreover have "unat s1 - unat d < unat d" using s1(2) g d by linarith
      ultimately show ?thesis using s1(1) g by (simp add: mult.commute)
    qed
    then show "unat q * unat d + unat s = ?n" "unat s < unat d" by blast+
  qed
qed

text \<open>\<open>divWW\<close> is exact: the divisor need not be normalized.\<close>

lemma divWW_val:
  assumes y: "x1 < y" and m: "reciprocalWord y = Inr m" and e: "divWW x1 x0 y m = (q, r)"
  shows "unat q * unat y + unat r = unat x1 * B + unat x0" "unat r < unat y"
proof -
  have y0: "y \<noteq> 0" using y by auto
  let ?s = "nlz y"
  let ?d = "push_bit ?s y"
  let ?x1 = "if ?s \<noteq> 0 then push_bit ?s x1 OR drop_bit (64 - ?s) x0 else x1"
  let ?x0 = "push_bit ?s x0"
  note N = normalized_top [OF y0]
  obtain m' where m': "reciprocalWord y = Inr m'" "unat m' + B = (B * B - 1) div unat ?d" using reciprocal_val [OF y0] by blast
  have md: "unat m + B = (B * B - 1) div unat ?d" using m m' by simp
  have x1y: "unat x1 < unat y" using y by (simp add: word_less_nat_alt)
  have x: "unat ?x1 * B + unat ?x0 = (unat x1 * B + unat x0) * 2 ^ ?s"
  proof (cases "?s = 0")
    case False
    have q: "unat x1 div 2 ^ (64 - ?s) = 0"
    proof -
      have "unat x1 * 2 ^ ?s < B" using x1y N(2) unat_lt_B [of ?d] by (metis less_trans mult_less_mono1 zero_less_numeral zero_less_power)
      moreover have "B = 2 ^ (64 - ?s) * 2 ^ ?s" using N(1) by (simp add: B_def flip: power_add)
      ultimately have "unat x1 < 2 ^ (64 - ?s)" by (metis mult_less_cancel2)
      then show ?thesis by simp
    qed
    show ?thesis
      using shift_word(1) [OF _ N(1), of x1 x0] shift_word(2) [OF _ N(1), of x0] False q by (simp add: algebra_simps)
  qed simp
  have xd: "?x1 < ?d"
  proof -
    have "unat x1 * B + unat x0 < unat y * B"
    proof -
      have "Suc (unat x1) * B \<le> unat y * B" using x1y by (intro mult_le_mono1) simp
      then show ?thesis unfolding mult_Suc using unat_lt_B [of x0] by linarith
    qed
    then have "(unat x1 * B + unat x0) * 2 ^ ?s < unat y * B * 2 ^ ?s" by simp
    then have "unat ?x1 * B < unat y * B * 2 ^ ?s" using x by linarith
    also have "\<dots> = unat ?d * B" unfolding N(2) by simp
    finally show ?thesis unfolding word_less_nat_alt by (rule mult_less_cancel2 [THEN iffD1, THEN conjunct2])
  qed
  obtain t1 t0 where 1: "Mul m ?x1 = (t1, t0)" by fastforce
  obtain l c where 2: "Add t0 ?x0 0 = (l, c)" by fastforce
  obtain t k where 3: "Add t1 ?x1 c = (t, k)" by fastforce
  obtain dq1 dq0 where 4: "Mul ?d t = (dq1, dq0)" by fastforce
  obtain r0 b where 5: "Sub ?x0 dq0 0 = (r0, b)" by fastforce
  obtain r1 bb where 6: "Sub ?x1 dq1 b = (r1, bb)" by fastforce
  obtain q1 s1 where 7: "(q1, s1) = (if r1 \<noteq> 0 then (t + 1, r0 - ?d) else (t, r0))" by (metis surj_pair)
  obtain q2 s2 where 8: "(q2, s2) = (if s1 \<ge> ?d then (q1 + 1, s1 - ?d) else (q1, s1))" by (metis surj_pair)
  note C = divWW_core [OF N(3) xd md 1 2 3 4 5 6 7 8]
  have sh: "(if ?s \<noteq> 0 then (push_bit ?s x1 OR drop_bit (W - ?s) x0, push_bit ?s x0, push_bit ?s y) else (x1, x0, y)) =
      (?x1, ?x0, ?d)" by simp
  have qr: "q = q2" "r = drop_bit ?s s2"
    using e unfolding divWW_def Let_def sh prod.case 1 2 3 4 5 6 7 [symmetric] 8 [symmetric] by simp_all
  have C1: "unat q * (unat y * 2 ^ ?s) + unat s2 = (unat x1 * B + unat x0) * 2 ^ ?s" "unat s2 < unat y * 2 ^ ?s"
    using C x qr(1) N(2) by simp_all
  then have "2 ^ ?s dvd unat s2"
    by (metis dvd_add_right_iff dvd_triv_right mult.assoc)
  then obtain w where w: "unat s2 = w * 2 ^ ?s" by (metis dvdE mult.commute)
  have "unat r = w" using qr(2) w by (simp add: unat_shr)
  moreover have "(unat q * unat y + w) * 2 ^ ?s = (unat x1 * B + unat x0) * 2 ^ ?s"
    using C1(1) w by (simp add: distrib_right mult.assoc)
  ultimately show "unat q * unat y + unat r = unat x1 * B + unat x0" "unat r < unat y" using C1(2) w by simp_all
qed

end
