(* ===== verification/Big_Div_Spec.thy ===== *)
theory Big_Div_Spec
  imports Big_Div Big_DivWW Big_Mul
begin

text \<open>
  Long division in \<^verbatim>\<open>natdiv.go\<close> is exact: by a word, and by a vector with the method of the schoolbook, whose guess
  of a digit is right or one too large.
\<close>

section \<open>By a word\<close>

lemma divWVW_loop_ok:
  assumes rec: "reciprocalWord y = Inr rec" and "r < y" and "i \<le> length x" and "i \<le> length z"
  shows "\<exists>z' r'. divWVW_loop x y rec i r z = Inr (z', r') \<and> length z' = length z \<and> drop i z' = drop i z \<and>
    unat r * B ^ i + val (take i x) = val (take i z') * unat y + unat r' \<and> r' < y"
  using assms(2-)
proof (induction i arbitrary: r z)
  case (Suc i)
  obtain q s where d: "divWW r (x ! i) y rec = (q, s)" by fastforce
  have D: "unat q * unat y + unat s = unat r * B + unat (x ! i)" "unat s < unat y"
    using divWW_val [OF Suc.prems(1) rec d] by simp_all
  then have "s < y" by (simp add: word_less_nat_alt)
  then obtain z' r' where z': "divWVW_loop x y rec i s (z[i := q]) = Inr (z', r')" "length z' = length z" "drop i z' = drop i (z[i := q])"
    "unat s * B ^ i + val (take i x) = val (take i z') * unat y + unat r'" "r' < y"
    using Suc.IH [of s "z[i := q]"] Suc.prems by auto
  have zi: "take (Suc i) z' = take i z' @ [q]"
  proof -
    have "z' ! i = q" using arg_cong [OF z'(3), of hd] Suc.prems z'(2) by (simp add: hd_drop_conv_nth)
    then show ?thesis using Suc.prems z'(2) by (simp add: take_Suc_conv_app_nth)
  qed
  have "drop (Suc i) z' = drop (Suc i) z"
    using arg_cong [OF z'(3), of "drop 1"] by (simp add: drop_drop)
  moreover have "unat r * B ^ Suc i + val (take (Suc i) x) = val (take (Suc i) z') * unat y + unat r'"
  proof -
    have "(unat q * unat y + unat s) * B ^ i = (unat r * B + unat (x ! i)) * B ^ i" using D(1) by simp
    moreover have "val (take (Suc i) x) = val (take i x) + B ^ i * unat (x ! i)"
      using Suc.prems by (simp add: take_Suc_conv_app_nth val_append)
    moreover have "val (take (Suc i) z') = val (take i z') + B ^ i * unat q"
      unfolding zi using Suc.prems z'(2) by (simp add: val_append)
    ultimately show ?thesis using z'(4) by (simp add: algebra_simps)
  qed
  ultimately show ?case using Suc.prems d z' by simp
qed simp

lemma divWVW_ok:
  assumes "xn < y" and "length z = length x"
  shows "\<exists>z' r'. divWVW z xn x y = Inr (z', r') \<and> length z' = length z \<and>
    unat xn * B ^ length x + val x = val z' * unat y + unat r' \<and> r' < y"
proof (cases "length x = 1")
  case True
  then obtain d e where x: "x = [d]" "z = [e]" using assms(2) by (metis One_nat_def length_0_conv length_Suc_conv)
  let ?n = "unat xn * B + unat d"
  have lt: "unat xn < unat y" using assms(1) by (simp add: word_less_nat_alt)
  have "?n < unat y * B"
  proof -
    have "Suc (unat xn) * B \<le> unat y * B" using lt by (intro mult_le_mono1) simp
    then show ?thesis unfolding mult_Suc using unat_lt_B [of d] by linarith
  qed
  then have q: "?n div unat y < B" by (simp add: less_mult_imp_div_less mult.commute)
  have r: "?n mod unat y < unat y" using lt by simp
  have "?n mod unat y < B" using r unat_lt_B [of y] by linarith
  then have u: "unat (of_nat (?n div unat y) :: u64) = ?n div unat y" "unat (of_nat (?n mod unat y) :: u64) = ?n mod unat y"
    using q by (simp_all add: B_def unat_of_nat)
  have "Div xn d y = Inr (of_nat (?n div unat y), of_nat (?n mod unat y))"
    using Div_quotient [OF assms(1), of d] by (simp add: B_def)
  then show ?thesis using x u r by (simp add: divWVW_def word_less_nat_alt)
next
  case False
  obtain rec where rec: "reciprocalWord y = Inr rec" using reciprocal_val assms(1) by (metis word_not_simps(1))
  then show ?thesis using divWVW_loop_ok [OF rec assms(1), of "length z" x z] assms(2) False by (auto simp: divWVW_def)
qed

lemma nat_divW_ok:
  assumes "normal x" and "y \<noteq> 0"
  shows "\<exists>q r. nat_divW z x y = Inr (q, r) \<and> nat_is q (val x div unat y) \<and> unat r = val x mod unat y"
proof -
  consider "y = 1" | "y \<noteq> 1" "x = []" | "y \<noteq> 1" "x \<noteq> []" by blast
  then show ?thesis
  proof cases
    case 1
    then show ?thesis using set_nat_ok [OF assms(1)] by (simp add: nat_divW_def)
  next
    case 2
    then show ?thesis using upto_0 [of z] assms(2) by (auto simp: nat_divW_def)
  next
    case 3
    let ?z = "nat_make z (length x)"
    have "0 < y" using assms(2) by (simp add: word_gt_0)
    then obtain w r where w: "divWVW (words ?z) 0 x y = Inr (w, r)" "length w = length x" "val x = val w * unat y + unat r" "r < y"
      using divWVW_ok [of 0 y "words ?z" x] by auto
    then have "val x div unat y = val w" "val x mod unat y = unat r" by (simp_all add: word_less_nat_alt)
    then show ?thesis
      using 3 assms(2) w(1,2) put_words [of ?z w] norm_ok [of "sl_put ?z 0 w"] by (simp add: nat_divW_def Let_def)
  qed
qed

lemma nat_modW_ok: "d \<noteq> 0 \<Longrightarrow> \<exists>r. nat_modW x d = Inr r \<and> unat r = val x mod unat d"
proof -
  assume "d \<noteq> 0"
  then have "0 < d" by (simp add: word_gt_0)
  then obtain w r where w: "divWVW (words (nat_make nat_nil (length x))) 0 x d = Inr (w, r)" "val x = val w * unat d + unat r" "r < d"
    using divWVW_ok [of 0 d "words (nat_make nat_nil (length x))" x] by auto
  then have "val x mod unat d = unat r" by (simp add: word_less_nat_alt)
  then show ?thesis using w by (simp add: nat_modW_def Let_def)
qed

section \<open>The guess of a digit\<close>

text \<open>The loop stops at the largest guess whose product with the two top digits of the divisor fits.\<close>

lemma greaterThan_val: "greaterThan x1 x2 y1 y2 \<longleftrightarrow> unat y1 * B + unat y2 < unat x1 * B + unat x2"
proof -
  have lex: "a * B + c < b * B + d \<longleftrightarrow> a < b \<or> a = b \<and> c < d" if "c < B" "d < B" for a b c d
  proof -
    consider "a < b" | "a = b" | "b < a" by linarith
    then show ?thesis
    proof cases
      case 1
      then have "Suc a * B \<le> b * B" by (intro mult_le_mono1) simp
      then show ?thesis unfolding mult_Suc using 1 that by linarith
    next
      case 3
      then have "Suc b * B \<le> a * B" by (intro mult_le_mono1) simp
      then show ?thesis unfolding mult_Suc using 3 that by linarith
    qed simp
  qed
  show ?thesis unfolding greaterThan_def using lex [of "unat y2" "unat x2" "unat y1" "unat x1"]
    by (auto simp: word_less_nat_alt word_unat_eq_iff)
qed

lemma mulWW_val: "mulWW x y = (h, l) \<Longrightarrow> unat h * B + unat l = unat x * unat y"
  by (cases "Mul x y") (simp add: mulWW_def Mul_val)

lemma wrap_less:
  fixes a b m s :: nat
  assumes "a < m" and "b < m" and "s = (if a + b < m then a + b else a + b - m)"
  shows "s < a \<longleftrightarrow> m \<le> a + b" "\<not> s < a \<Longrightarrow> s = a + b"
  using assms by (simp_all split: if_splits)

lemma unat_add_carry:
  fixes x y :: u64
  shows "x + y < x \<longleftrightarrow> B \<le> unat x + unat y" "\<not> x + y < x \<Longrightarrow> unat (x + y) = unat x + unat y"
proof -
  have "unat (x + y) = (if unat x + unat y < B then unat x + unat y else unat x + unat y - B)"
    by (simp add: unat_plus_if' B_def)
  from wrap_less [OF unat_lt_B unat_lt_B this]
  show "x + y < x \<longleftrightarrow> B \<le> unat x + unat y" "\<not> x + y < x \<Longrightarrow> unat (x + y) = unat x + unat y"
    unfolding word_less_nat_alt .
qed

lemma divBasic_refine_ok:
  fixes b1 b0 a0 q r :: u64 and T :: nat
  assumes "unat q * unat b1 + unat r = T" and "b1 \<noteq> 0" and "(T * B + unat a0) div (unat b1 * B + unat b0) \<le> unat q"
  shows "unat (divBasic_refine b1 b0 a0 q r) = (T * B + unat a0) div (unat b1 * B + unat b0)"
  using assms
proof (induction b1 b0 a0 q r rule: divBasic_refine.induct)
  case (1 b1 b0 a0 q r)
  let ?D = "unat b1 * B + unat b0" and ?U = "T * B + unat a0"
  obtain x1 x2 where x: "mulWW q b0 = (x1, x2)" by fastforce
  have "1 \<le> unat b1" using "1.prems"(2) by (rule unat_pos)
  then have D: "0 < ?D" using B_pos(1) by (metis add_gr_0 less_le_trans mult_pos_pos zero_less_one)
  have g: "greaterThan x1 x2 r a0 \<longleftrightarrow> ?U < unat q * ?D"
    unfolding greaterThan_val mulWW_val [OF x] "1.prems"(1) [symmetric] by (simp add: algebra_simps)
  show ?case
  proof (cases "greaterThan x1 x2 r a0")
    case False
    then have "unat q * ?D \<le> ?U" using g by simp
    then have "unat q \<le> ?U div ?D" using D by (simp add: less_eq_div_iff_mult_less_eq)
    then show ?thesis using "1.prems"(3) x False by (subst divBasic_refine.simps) simp
  next
    case True
    then have lt: "?U div ?D < unat q" using g D by (simp add: div_less_iff_less_mult)
    then have "q \<noteq> 0" by (intro notI) simp
    then have q: "unat (q - 1) = unat q - 1" "unat (q - 1) + 1 = unat q" using unat_pos [of q] by (simp_all add: unat_minus_one)
    have e: "unat (q - 1) * unat b1 + (unat r + unat b1) = T"
      unfolding "1.prems"(1) [symmetric] q(2) [symmetric] by (simp add: distrib_right)
    have le: "?U div ?D \<le> unat (q - 1)" using lt q by linarith
    show ?thesis
    proof (cases "r + b1 < r")
      case False
      have "unat (divBasic_refine b1 b0 a0 (q - 1) (r + b1)) = ?U div ?D"
        using False e unat_add_carry(2) [OF False]
        by (intro "1.IH" [OF x [symmetric] refl True refl refl refl False _ "1.prems"(2) le]) simp
      then show ?thesis using x True False by (subst divBasic_refine.simps) (simp add: Let_def)
    next
      case over: True
      have "unat (q - 1) * unat b0 \<le> B * B" by (intro mult_le_mono less_imp_le unat_lt_B)
      also have "\<dots> \<le> (unat r + unat b1) * B" using over unat_add_carry(1) [of r b1] by (intro mult_le_mono1) simp
      finally have "unat (q - 1) * ?D \<le> ?U" unfolding e [symmetric] by (simp add: algebra_simps)
      then have "unat (q - 1) \<le> ?U div ?D" using D by (simp add: less_eq_div_iff_mult_less_eq)
      then show ?thesis using le x True over by (subst divBasic_refine.simps) (simp add: Let_def)
    qed
  qed
qed

text \<open>
  Over numbers: the guess for the top digits \<open>a2 a1 a0\<close> of \<open>U\<close> by \<open>b1 b0\<close> of the normalized divisor \<open>V\<close> is the digit or
  one more.
\<close>

lemma guess_bounds:
  fixes b c U V T D :: nat
  assumes "0 < c" "0 < D" "T * c \<le> U" "U < (T + 1) * c" "D * c \<le> V" "V < (D + 1) * c" "b * c \<le> V" "T div D \<le> b"
  shows "U div V \<le> T div D" "T div D \<le> U div V + 1"
proof -
  have V: "0 < V" using assms(1,2,5) by (metis less_le_trans mult_pos_pos)
  let ?q = "U div V"
  have "?q * D * c \<le> ?q * V" unfolding mult.assoc using assms(5) by (rule mult_le_mono2)
  also have "\<dots> \<le> U" by simp
  finally have "?q * D * c < (T + 1) * c" using assms(4) by linarith
  then have "?q * D < T + 1" by (rule mult_less_cancel2 [THEN iffD1, THEN conjunct2])
  then have "?q * D \<le> T" by simp
  then show "?q \<le> T div D" using assms(2) by (simp add: less_eq_div_iff_mult_less_eq)
  have "T div D * V \<le> T div D * ((D + 1) * c)" using assms(6) by (intro mult_le_mono2) simp
  also have "\<dots> = T div D * D * c + T div D * c" by (simp add: algebra_simps)
  also have "\<dots> \<le> T * c + b * c" using assms(8) by (intro add_mono mult_le_mono1) simp_all
  also have "\<dots> \<le> U + V" using assms(3,7) by (rule add_mono)
  finally have "T div D \<le> (U + V) div V" using less_eq_div_iff_mult_less_eq [OF V] by blast
  also have "\<dots> = ?q + 1" using V by (metis div_add_self2 not_gr_zero)
  finally show "T div D \<le> ?q + 1" .
qed

lemma max_guess_bounds:
  fixes b c U V d :: nat
  assumes "d * (b * c) \<le> U" "U < b * V" "V < (d + 1) * c" "b * c \<le> 2 * V" "2 \<le> b" 
  shows "U div V \<le> b - 1" "b - 1 \<le> U div V + 1"
proof -
  have V: "0 < V" using assms(2) by (cases V) auto
  have "U div V < b" using assms(2) V by (simp add: div_less_iff_less_mult)
  then show "U div V \<le> b - 1" by simp
  have "b * V \<le> b * (d * c) + b * c" using assms(3) by (metis add.commute add_mult_distrib less_imp_le mult_1 mult_le_mono2 distrib_left mult.commute)
  also have "\<dots> \<le> U + 2 * V" using assms(1,4) by (simp add: ac_simps)
  finally have "b * V \<le> U + 2 * V" .
  then have "b \<le> U div V + 2" using less_eq_div_iff_mult_less_eq [OF V, of b "U + 2 * V"] V by simp
  then show "b - 1 \<le> U div V + 1" by simp
qed

text \<open>The top digits of the divisor and of the part of the dividend.\<close>

lemma top_two:
  assumes "2 \<le> length v"
  shows "\<exists>w. v = w @ [v ! (length v - 2), last v] \<and> length w = length v - 2"
proof -
  obtain v' b where v: "v = v' @ [b]" using assms by (cases v rule: rev_cases) auto
  moreover obtain w a where "v' = w @ [a]" using assms v by (cases v' rule: rev_cases) auto
  ultimately show ?thesis by (intro exI [of _ w]) (simp add: nth_append)
qed

lemma top_two_val:
  assumes "2 \<le> length v" and "n = length v"
  shows "val v < ((unat (last v) * B + unat (v ! (n - 2))) + 1) * B ^ (n - 2)"
    "(unat (last v) * B + unat (v ! (n - 2))) * B ^ (n - 2) \<le> val v"
proof -
  obtain w where w: "v = w @ [v ! (n - 2), last v]" "length w = n - 2" using top_two [OF assms(1)] assms(2) by blast
  have "val v = val w + (unat (last v) * B + unat (v ! (n - 2))) * B ^ (n - 2)"
    using arg_cong [OF w(1), of val] w(2) by (simp add: val_append algebra_simps)
  then show "val v < ((unat (last v) * B + unat (v ! (n - 2))) + 1) * B ^ (n - 2)"
    "(unat (last v) * B + unat (v ! (n - 2))) * B ^ (n - 2) \<le> val v"
    using val_lt [of w] w(2) by simp_all
qed

lemma normalized_half:
  assumes "B \<le> 2 * unat (last v)" and "v \<noteq> []"
  shows "B ^ length v \<le> 2 * val v"
proof -
  have "val v = val (butlast v) + B ^ (length v - 1) * unat (last v)"
    using val_snoc [of "butlast v" "last v"] assms(2) by simp
  moreover have "B ^ (length v - 1) * B \<le> B ^ (length v - 1) * (2 * unat (last v))" using assms(1) by (rule mult_le_mono2)
  moreover have "B ^ (length v - 1) * (2 * unat (last v)) = 2 * (B ^ (length v - 1) * unat (last v))" by (rule mult.left_commute)
  ultimately have "B ^ (length v - 1) * B \<le> 2 * val v" by linarith
  moreover have "B ^ (length v - 1) * B = B ^ length v" using assms(2) by (cases v) simp_all
  ultimately show ?thesis by simp
qed

lemma part_top:
  assumes n: "2 \<le> n" "j + n \<le> length u" and lt: "val (drop j u) < B ^ (n + 1)"
  defines "a2 \<equiv> (if j + n < length u then u ! (j + n) else 0)"
  defines "T \<equiv> (unat a2 * B + unat (u ! (j + n - 1))) * B + unat (u ! (j + n - 2))"
  shows "T * B ^ (n - 2) \<le> val (drop j u)" "val (drop j u) < (T + 1) * B ^ (n - 2)" "val (drop (j + n) u) = unat a2"
proof -
  let ?w = "take n (drop j u)"
  have w: "2 \<le> length ?w" "n = length ?w" using n by simp_all
  have l: "last ?w = u ! (j + n - 1)" "?w ! (n - 2) = u ! (j + n - 2)" using w n by (auto simp: last_conv_nth)
  have U: "val (drop j u) = val ?w + B ^ n * val (drop (j + n) u)" using val_split [of n "drop j u"] n by (simp add: add.commute)
  moreover have "B ^ (n + 1) = B ^ n * B" by simp
  ultimately have "B ^ n * val (drop (j + n) u) < B ^ n * B" using lt by linarith
  then have "val (drop (j + n) u) < B" by (metis mult_less_cancel1)
  then show r: "val (drop (j + n) u) = unat a2"
  proof (cases "j + n < length u")
    case True
    then have d: "val (drop (j + n) u) = unat (u ! (j + n)) + B * val (drop (Suc (j + n)) u)" by (simp flip: Cons_nth_drop_Suc)
    then have "val (drop (Suc (j + n)) u) = 0" using \<open>val (drop (j + n) u) < B\<close> by (cases "val (drop (Suc (j + n)) u)") auto
    then show ?thesis using d True by (simp add: a2_def)
  qed (simp add: a2_def)
  have b: "B ^ n = B ^ (n - 2) * (B * B)" using n(1) by (metis add_diff_cancel_left' le_Suc_ex power_add power2_eq_square mult.commute)
  have "T * B ^ (n - 2) = (unat (u ! (j + n - 1)) * B + unat (u ! (j + n - 2))) * B ^ (n - 2) + B ^ n * unat a2"
    unfolding T_def b by (simp add: algebra_simps)
  then show "T * B ^ (n - 2) \<le> val (drop j u)" "val (drop j u) < (T + 1) * B ^ (n - 2)"
    using top_two_val [OF w] unfolding U r l by (simp_all add: algebra_simps)
qed

text \<open>The three cases of the guess: the top word is not above the divisor's, the refined guess, and the first digit.\<close>

lemma top_word_le:
  fixes a2 a1 a0 b1 b0 :: nat
  assumes "(a2 * B + a1) * B + a0 < B * (b1 * B + b0 + 1)" and "b0 < B"
  shows "a2 \<le> b1"
proof (rule ccontr)
  assume "\<not> a2 \<le> b1"
  then have "Suc b1 * B * B \<le> a2 * B * B" by (intro mult_le_mono1) simp
  moreover have "b0 * B + B \<le> B * B" using mult_le_mono1 [of "Suc b0" B B] assms(2) by (simp add: Suc_leI)
  ultimately show False using assms(1) by (simp add: algebra_simps)
qed

lemma refined_guess:
  assumes lt: "a2 < b1" and rec: "reciprocalWord b1 = Inr rec" and d: "divWW a2 a1 b1 rec = (q0, r0)"
  shows "unat (divBasic_refine b1 b0 a0 q0 r0) = ((unat a2 * B + unat a1) * B + unat a0) div (unat b1 * B + unat b0)"
proof (rule divBasic_refine_ok)
  let ?X = "unat a2 * B + unat a1" and ?D = "unat b1 * B + unat b0"
  let ?q = "(?X * B + unat a0) div ?D"
  show d': "unat q0 * unat b1 + unat r0 = ?X" by (rule divWW_val [OF lt rec d])
  show "b1 \<noteq> 0" using lt by auto
  have "?q * unat b1 * B \<le> ?q * ?D" unfolding mult.assoc by (intro mult_le_mono2) simp
  also have "\<dots> \<le> ?X * B + unat a0" by simp
  also have "\<dots> < (?X + 1) * B" by simp
  finally have "?q * unat b1 < ?X + 1" by (rule mult_less_cancel2 [THEN iffD1, THEN conjunct2])
  moreover have "unat r0 < unat b1" by (rule divWW_val [OF lt rec d])
  ultimately have "?q * unat b1 < (unat q0 + 1) * unat b1" using d' by simp
  then have "?q < unat q0 + 1" by (rule mult_less_cancel2 [THEN iffD1, THEN conjunct2])
  then show "?q \<le> unat q0" by simp
qed

lemma first_guess:
  fixes a1 a0 b1 b0 :: u64
  assumes "B \<le> 2 * unat b1"
  shows "(unat a1 * B + unat a0) div (unat b1 * B + unat b0) < 2"
proof -
  have "Suc (unat a1) * B \<le> B * B" by (intro mult_le_mono1) (simp add: Suc_leI)
  then have "unat a1 * B + unat a0 < B * B" unfolding mult_Suc using unat_lt_B [of a0] by linarith
  also have "\<dots> \<le> 2 * unat b1 * B" using assms by (rule mult_le_mono1)
  finally have "unat a1 * B + unat a0 < 2 * (unat b1 * B + unat b0)" by simp
  then show ?thesis by (metis div_less_iff_less_mult gr0I mult_0_right not_less0)
qed

lemma part_bound:
  assumes "j < length u" and "val (drop (j + 1) u) < V"
  shows "val (drop j u) < B * V"
proof -
  have "val (drop j u) = unat (u ! j) + B * val (drop (j + 1) u)" using assms(1) by (simp flip: Cons_nth_drop_Suc)
  also have "\<dots> < B * (val (drop (j + 1) u) + 1)" by simp
  also have "\<dots> \<le> B * V" using assms(2) by (intro mult_le_mono2) simp
  finally show ?thesis .
qed

lemma guess_ok:
  assumes n: "n = length v" "2 \<le> n" "j + n \<le> length u" and nz: "B \<le> 2 * unat (last v)"
    and lt: "val (drop (j + 1) u) < val v" and rec: "reciprocalWord (last v) = Inr rec"
  shows "\<exists>q. divBasic_guess u v (last v) rec j = Inr q \<and> val (drop j u) div val v \<le> unat q \<and>
    unat q \<le> val (drop j u) div val v + 1 \<and> (j + n = length u \<longrightarrow> unat q * val v < B ^ n)"
proof -
  define b1 b0 a1 a0 where "b1 = last v" and "b0 = v ! (n - 2)" and "a1 = u ! (j + n - 1)" and "a0 = u ! (j + n - 2)"
  define a2 where "a2 = (if j + n < length u then u ! (j + n) else 0)"
  let ?U = "val (drop j u)" and ?V = "val v" and ?c = "B ^ (n - 2)"
  let ?D = "unat b1 * B + unat b0" and ?T = "(unat a2 * B + unat a1) * B + unat a0"
  have "j < length u" using n by linarith
  then have UV: "?U < B * ?V" using lt by (rule part_bound)
  have Vn: "?V < B ^ n" using val_lt [of v] n(1) by simp
  then have "B * ?V \<le> B ^ (n + 1)" by simp
  then have Un: "?U < B ^ (n + 1)" using UV by linarith
  have T: "?T * ?c \<le> ?U" "?U < (?T + 1) * ?c" using part_top [OF n(2,3) Un] by (simp_all add: a2_def a1_def a0_def)
  have D: "?D * ?c \<le> ?V" "?V < (?D + 1) * ?c" using top_two_val [of v n] n by (simp_all add: b1_def b0_def)
  have b1: "B \<le> 2 * unat b1" "0 < unat b1" using nz B_pos(1) unfolding b1_def by linarith+
  have pos: "0 < ?D" "0 < ?c" using mult_pos_pos [OF b1(2) B_pos(1)] by simp_all
  have "?U < B * ((?D + 1) * ?c)" using UV D(2) by (meson less_le_trans less_imp_le mult_le_mono2)
  then have "?T * ?c < B * (?D + 1) * ?c" using T(1) unfolding mult.assoc by linarith
  then have "?T < B * (?D + 1)" by (rule mult_less_cancel2 [THEN iffD1, THEN conjunct2])
  then have a2: "unat a2 \<le> unat b1" by (rule top_word_le) simp
  have "B * ?c \<le> ?D * ?c" using b1(2) by (intro mult_le_mono1 trans_le_add1) simp
  then have Bc: "B * ?c \<le> ?V" using D(1) by linarith
  have first: "unat a2 = 0" if "j + n = length u" using that by (simp add: a2_def)
  have g: "(if j + n < length u then vget u (j + n) else Inr 0) = Inr a2"
    "vget_sub u (j + n) 1 = Inr a1" "vget_sub u (j + n) 2 = Inr a0"
    using n(2,3) by (simp_all add: a2_def a1_def a0_def vget_sub_def)
  have g4: "vget_sub v n 2 = Inr b0" using n(1,2) by (simp add: b0_def vget_sub_def)
  show ?thesis
  proof (cases "a2 = b1")
    case True
    have "n = Suc (Suc (n - 2))" using n(2) by linarith
    then have Bn: "B * (B * ?c) = B ^ n" by (metis power_Suc)
    have "unat b1 * (B * (B * ?c)) \<le> ?T * ?c" using True by (simp add: algebra_simps)
    then have m1: "unat b1 * (B * (B * ?c)) \<le> ?U" using T(1) by linarith
    have "?D + 1 \<le> (unat b1 + 1) * B" using unat_lt_B [of b0] unfolding distrib_right mult_1 by linarith
    then have "(?D + 1) * ?c \<le> (unat b1 + 1) * B * ?c" by (rule mult_le_mono1)
    then have m2: "?V < (unat b1 + 1) * (B * ?c)" using D(2) unfolding mult.assoc by linarith
    have "v \<noteq> []" using n by auto
    then have m3: "B * (B * ?c) \<le> 2 * ?V" unfolding Bn using normalized_half [OF nz] n(1) by simp
    have "2 \<le> B" by (simp add: B_def)
    note max_guess_bounds [OF m1 UV m2 m3 this, folded unat_M]
    moreover have "j + n \<noteq> length u" using True first b1(2) by auto
    moreover have "divBasic_guess u v (last v) rec j = Inr M"
      unfolding divBasic_guess_def Let_def n(1) [symmetric] g(1) go_bind_Inr using True by (simp add: b1_def)
    ultimately show ?thesis by blast
  next
    case False
    then have lt: "a2 < b1" using a2 by (simp add: word_less_nat_alt word_unat_eq_iff)
    obtain q0 r0 where d: "divWW a2 a1 b1 rec = (q0, r0)" by fastforce
    let ?q = "divBasic_refine b1 b0 a0 q0 r0"
    have q: "unat ?q = ?T div ?D" using refined_guess [OF lt _ d] rec by (simp add: b1_def)
    have "?T div ?D \<le> B" using q unat_lt_B [of ?q] by linarith
    note G = guess_bounds [OF pos(2,1) T D Bc this]
    have "unat ?q * ?V < B ^ n" if "j + n = length u"
    proof -
      have "unat ?q < 2" using first_guess [OF b1(1), of a1 a0 b0] first [OF that] unfolding q by simp
      then have "unat ?q * ?V \<le> 1 * ?V" by (intro mult_le_mono1) simp
      then show ?thesis using Vn by linarith
    qed
    moreover have "divBasic_guess u v (last v) rec j = Inr ?q"
      unfolding divBasic_guess_def Let_def n(1) [symmetric] g(1) go_bind_Inr using False g(2,3) g4 d by (simp add: b1_def)
    ultimately show ?thesis using G q by simp
  qed
qed

section \<open>A digit\<close>

lemma digit_unique:
  fixes a b d x y :: nat
  assumes "a + b * x = d + b * y" and "a < b" and "d < b"
  shows "a = d" "x = y"
proof -
  have "(a + b * x) mod b = (d + b * y) mod b" using assms(1) by simp
  then show "a = d" using assms(2,3) by simp
  then show "x = y" using assms by simp
qed

text \<open>The addition after a borrow: the carry out of the top cancels the borrow.\<close>

lemma add_back:
  assumes r: "length r = k" "n = length v" "n \<le> k" "k \<le> n + 1" and e: "val r + val v = R + B ^ k" "R < val v"
    and a: "addVV (take n r) (r @ t) v = (r2, c)"
  shows "length r2 = n" "val r2 = R" "n < k \<Longrightarrow> (r ! n) + c = 0"
proof -
  have A: "val r2 + B ^ n * unat c = val (take n r) + val v" "length r2 = n" "unat c \<le> 1"
    using addVV_val [OF a] r by simp_all
  show "length r2 = n" by (rule A)
  have V: "val v < B ^ n" "val r2 < B ^ n" using val_lt [of v] val_lt [of r2] r A by simp_all
  then have R: "R < B ^ n" using e(2) by simp
  have "val r2 = R \<and> (n < k \<longrightarrow> r ! n + c = 0)"
  proof (cases "n < k")
    case True
    then have "length r = Suc n" using r by simp
    then have l: "r = take n r @ [r ! n]" using take_Suc_conv_app_nth [of n r] by simp
    have "val r = val (take n r) + B ^ n * unat (r ! n)" using arg_cong [OF l, of val] True r by (simp add: val_append)
    moreover have "B ^ k = B ^ n * B" using True r by (simp add: le_Suc_eq)
    ultimately have "val r2 + B ^ n * (unat (r ! n) + unat c) = R + B ^ n * B" using A(1) e(1) by (simp add: algebra_simps)
    from digit_unique [OF this V(2) R] have "val r2 = R" "unat (r ! n) + unat c = B" by simp_all
    moreover from this have "unat (r ! n + c) = 0" by (subst unat_plus_if') (simp add: B_def)
    ultimately show ?thesis by (simp add: unat_eq_zero)
  next
    case False
    then have "k = n" using r by simp
    then have "val r2 + B ^ n * unat c = R + B ^ n * 1" using A(1) e(1) r(1) by simp
    from digit_unique(1) [OF this V(2) R] show ?thesis using False by simp
  qed
  then show "val r2 = R" "n < k \<Longrightarrow> r ! n + c = 0" by simp_all
qed

text \<open>The section that is subtracted from covers all that is left of the dividend.\<close>

lemma section_ok:
  assumes n: "j + n \<le> length u" and qv: "length qv = n + 1"
    and top: "j + n = length u \<longrightarrow> val qv < B ^ n" and lt: "val (drop j u) < B ^ (n + 1)"
  defines "k \<equiv> (if j + length qv > length u \<and> qv ! n = 0 then length qv - 1 else length qv)"
  shows "n \<le> k" "k \<le> n + 1" "n < k \<longleftrightarrow> j + n \<noteq> length u" "j + k \<le> length u" "val (take k qv) = val qv"
    "val (take k (drop j u)) = val (drop j u)" "val (drop (j + k) u) = 0"
proof -
  have k: "k = n \<and> val (take n qv) = val qv" if "j + n = length u"
  proof -
    have "qv = take n qv @ [qv ! n]" using qv take_Suc_conv_app_nth [of n qv] by simp
    from arg_cong [OF this, of val] have v: "val qv = val (take n qv) + B ^ n * unat (qv ! n)" using qv by (simp add: val_append)
    then have "unat (qv ! n) = 0" using top that by (cases "unat (qv ! n)") auto
    then show ?thesis using v that qv by (simp add: k_def unat_eq_zero)
  qed
  have k': "k = n + 1" if "j + n \<noteq> length u" using that n qv by (simp add: k_def)
  show "n \<le> k" "k \<le> n + 1" "n < k \<longleftrightarrow> j + n \<noteq> length u" "val (take k qv) = val qv"
    using k k' qv by (cases "j + n = length u"; simp)+
  show jk: "j + k \<le> length u" using k k' n by (cases "j + n = length u") simp_all
  have s: "val (drop j u) = val (take k (drop j u)) + B ^ k * val (drop (j + k) u)"
    using val_split [of k "drop j u"] jk by (simp add: add.commute)
  have "val (drop (j + k) u) = 0"
  proof (cases "j + n = length u")
    case False
    have "B ^ k * val (drop (j + k) u) \<le> val (drop j u)" using s by linarith
    also have "\<dots> < B ^ k * 1" using k' [OF False] lt by simp
    finally show ?thesis unfolding mult_less_cancel1 by simp
  qed (use k in simp)
  then show "val (drop (j + k) u) = 0" "val (take k (drop j u)) = val (drop j u)" using s by simp_all
qed

lemma subtract_ok:
  assumes n: "n = length v" "j + n \<le> length u" and qv: "length qv = n + 1" "val qv = unat q * val v" and V: "0 < val v"
    and q: "val (drop j u) div val v \<le> unat q" "unat q \<le> val (drop j u) div val v + 1"
    and top: "j + n = length u \<longrightarrow> val qv < B ^ n" and lt: "val (drop j u) < B ^ (n + 1)"
  shows "\<exists>u' q'. divBasic_subtract u v qv q j = Inr (u', q') \<and> unat q' = val (drop j u) div val v \<and>
    length u' = length u \<and> take j u' = take j u \<and> val (drop j u') = val (drop j u) mod val v"
proof -
  let ?U = "val (drop j u)" and ?V = "val v"
  define k where "k = (if j + length qv > length u \<and> qv ! n = 0 then length qv - 1 else length qv)"
  note K = section_ok [OF n(2) qv(1) top lt, folded k_def]
  obtain a s t where u: "u = a @ s @ t" "length a = j" "length s = k" "val s = ?U" "val t = 0"
  proof (rule that)
    show "u = take j u @ take k (drop j u) @ drop (j + k) u" by (metis append_take_drop_id drop_drop add.commute)
  qed (use K n in \<open>simp_all\<close>)
  obtain r c where r: "subVV s (s @ t) qv = (r, c)" by fastforce
  have R: "?U + B ^ k * unat c = val r + unat q * ?V" "unat c \<le> 1" "length r = k"
    using subVV_val [OF r] u K qv by simp_all
  have p: "on_part u j (j + k) (\<lambda>w. Inr (subVV w (s @ t) qv)) = Inr (a @ r @ t, c)"
    unfolding u(1) by (rule on_part_parts) (simp_all add: u(2,3) r R)
  have g: "vget qv n = Inr (qv ! n)" "vfrom u j = Inr (s @ t)" "vfrom (a @ w @ t) j = Inr (w @ t)" for w
    using qv(1) u(1,2) by (simp_all add: vfrom_def)
  have m: "?U = ?U div ?V * ?V + ?U mod ?V" by simp
  have upd: "length (a @ w @ t) = length u" "take j (a @ w @ t) = take j u" "val (drop j (a @ w @ t)) = val w" if "length w = k" for w
    using that u(2,3,5) unfolding u(1) by (simp_all add: val_append)
  show ?thesis
  proof (cases "c = 0")
    case True
    then have e: "?U = val r + unat q * ?V" using R(1) by simp
    then have "unat q * ?V \<le> ?U" by simp
    then have "unat q \<le> ?U div ?V" using V by (simp add: less_eq_div_iff_mult_less_eq)
    then have qq: "unat q = ?U div ?V" using q(1) by simp
    then have "val r = ?U mod ?V" using e m unfolding qq by linarith
    moreover have "divBasic_subtract u v qv q j = Inr (a @ r @ t, q)"
      unfolding divBasic_subtract_def Let_def g(1) n(1) [symmetric] go_bind_Inr k_def [symmetric] g(2) p using True by simp
    ultimately show ?thesis using upd [OF R(3)] qq by auto
  next
    case False
    then have c: "unat c = 1" using R(2) unat_pos [OF False] by simp
    have "?U < unat q * ?V" using R(1) c val_lt [of r] R(3) by simp
    then have "?U div ?V < unat q" using V by (simp add: div_less_iff_less_mult)
    then have qq: "unat q = ?U div ?V + 1" using q(2) by simp
    then have q0: "unat (q - 1) = ?U div ?V" by (metis Suc_eq_plus1 diff_Suc_1 unat_0 unat_minus_one nat.distinct(1))
    have e: "val r + ?V = ?U mod ?V + B ^ k" using R(1) m unfolding c qq distrib_right mult_1 mult_1_right by linarith
    obtain r2 d where r2: "addVV (take n r) (r @ t) v = (r2, d)" by fastforce
    note A = add_back [OF R(3) n(1) K(1,2) e mod_less_divisor [OF V] r2]
    have p2: "on_part (a @ r @ t) j (j + n) (\<lambda>w. Inr (addVV w (r @ t) v)) = Inr (a @ r2 @ drop n r @ t, d)"
    proof -
      have e: "a @ take n r @ drop n r @ t = a @ r @ t" by simp
      show ?thesis using on_part_parts [of j a "j + n" "take n r" "\<lambda>w. Inr (addVV w (r @ t) v)" r2 d "drop n r @ t"] u(2) A(1) R(3) K(1) r2
        unfolding e by simp
    qed
    let ?z = "replicate (k - n) 0"
    have f: "(if n < k then go_bind (vget (a @ r2 @ drop n r @ t) (j + n)) (\<lambda>w. vset (a @ r2 @ drop n r @ t) (j + n) (w + d)) else Inr (a @ r2 @ drop n r @ t)) =
        Inr (a @ r2 @ ?z @ t)"
    proof (cases "n < k")
      case True
      then have "k = Suc n" using K(2) by simp
      moreover from this have "drop n r = [r ! n]" using R(3) Cons_nth_drop_Suc [of n r] by simp
      ultimately show ?thesis using A(3) u(2) A(1) by (simp add: nth_append list_update_append)
    next
      case False
      then show ?thesis using K(1) R(3) by simp
    qed
    have "divBasic_subtract u v qv q j = Inr (a @ r2 @ ?z @ t, q - 1)"
      unfolding divBasic_subtract_def Let_def g(1) n(1) [symmetric] go_bind_Inr k_def [symmetric] g(2) p prod.case if_P [OF False] g(3) p2 f ..
    moreover have "length (r2 @ ?z) = k" "val (r2 @ ?z) = ?U mod ?V" using A(1,2) K(1) by (simp_all add: val_append)
    ultimately show ?thesis using upd [of "r2 @ ?z"] q0 by auto
  qed
qed

text \<open>One digit of the quotient; at the top, where \<open>q\<close> may have no room for it, it is zero.\<close>

lemma digit_ok:
  assumes n: "n = length v" "2 \<le> n" "j + n \<le> length u" and nz: "B \<le> 2 * unat (last v)" and rec: "reciprocalWord (last v) = Inr rec"
    and lt: "val (drop (j + 1) u) < val v" and qv: "length qv = n + 1"
    and room: "j < length q \<or> j = length q \<and> j + n = length u \<and> val (drop j u) < val v"
  shows "\<exists>q' u' qv'. divBasic_digit v (last v) rec j (q, u, qv) = Inr (q', u', qv') \<and> length qv' = n + 1 \<and>
    length u' = length u \<and> take j u' = take j u \<and> val (drop j u') = val (drop j u) mod val v \<and>
    (if j < length q then \<exists>d. q' = q[j := d] \<and> unat d = val (drop j u) div val v else q' = q)"
proof -
  obtain g where g: "divBasic_guess u v (last v) rec j = Inr g" "val (drop j u) div val v \<le> unat g"
    "unat g \<le> val (drop j u) div val v + 1" "j + n = length u \<longrightarrow> unat g * val v < B ^ n"
    using guess_ok [OF n nz lt rec] by blast
  obtain r c where r: "mulAddVWW (take n qv) v g 0 = (r, c)" by fastforce
  have R: "val r + B ^ n * unat c = unat g * val v" "length r = n" using mulAddVWW_val [OF r] n qv by (simp_all add: mult.commute)
  let ?qv = "r @ [c]"
  have qv1: "on_part qv 0 n (\<lambda>s. Inr (mulAddVWW s v g 0)) = Inr (r @ drop n qv, c)" using r R(2) qv by (simp add: on_part_def patch_def)
  have qv2: "vset (r @ drop n qv) n c = Inr ?qv"
  proof -
    have "drop n qv = [qv ! n]" using qv Cons_nth_drop_Suc [of n qv] by simp
    then show ?thesis using R(2) by (simp add: vset_def list_update_append)
  qed
  have vq: "length ?qv = n + 1" "val ?qv = unat g * val v" using R by (simp_all add: val_append)
  have V: "0 < val v" using lt by simp
  have "j < length u" using n by linarith
  then have "val (drop j u) < B * val v" using lt by (rule part_bound)
  also have "\<dots> \<le> B ^ (n + 1)" using val_lt [of v] n(1) by simp
  finally have U: "val (drop j u) < B ^ (n + 1)" .
  obtain u' d where s: "divBasic_subtract u v ?qv g j = Inr (u', d)" "unat d = val (drop j u) div val v" "length u' = length u"
    "take j u' = take j u" "val (drop j u') = val (drop j u) mod val v"
    using subtract_ok [OF n(1,3) vq V g(2,3) _ U] g(4) vq(2) by auto
  have run: "divBasic_digit v (last v) rec j (q, u, qv) = (if j + n = length u' \<and> j = length q \<and> d = 0 then Inr (q, u', ?qv)
      else go_bind (vset q j d) (\<lambda>q. Inr (q, u', ?qv)))"
    unfolding divBasic_digit_def Let_def n(1) [symmetric] g(1) go_bind_Inr prod.case qv1 qv2 s(1) ..
  show ?thesis
  proof (cases "j < length q")
    case True
    then show ?thesis using run s vq(1) by auto
  next
    case False
    then have "j = length q" "j + n = length u" "d = 0" using room s(2) by (auto simp: unat_eq_zero)
    then show ?thesis using run s vq(1) by auto
  qed
qed

text \<open>What is left to divide, and the digits found: the loop keeps their sum.\<close>

lemma divBasic_loop_ok:
  assumes n: "n = length v" "2 \<le> n" and nz: "B \<le> 2 * unat (last v)" and rec: "reciprocalWord (last v) = Inr rec"
    and j: "j + n \<le> length u + 1" and lt: "val (drop j u) < val v" and qv: "length qv = n + 1"
    and room: "j \<le> length q \<or> j = length q + 1 \<and> j + n = length u + 1 \<and> val (drop (j - 1) u) < val v"
  shows "\<exists>q' u' qv'. divBasic_loop v (last v) rec j (q, u, qv) = Inr (q', u', qv') \<and> length u' = length u \<and> length q' = length q \<and>
    val u' = val u mod val v \<and> drop j q' = drop j q \<and> val (take j q') = val u div val v"
  using j lt qv room
proof (induction j arbitrary: q u qv)
  case (Suc j)
  let ?U = "val (drop j u)" and ?V = "val v"
  have r: "j < length q \<or> j = length q \<and> j + n = length u \<and> ?U < ?V" using Suc.prems(4) by auto
  obtain q1 u1 qv1 where d: "divBasic_digit v (last v) rec j (q, u, qv) = Inr (q1, u1, qv1)" "length qv1 = n + 1" "length u1 = length u"
    "take j u1 = take j u" "val (drop j u1) = ?U mod ?V"
    "if j < length q then \<exists>d. q1 = q[j := d] \<and> unat d = ?U div ?V else q1 = q"
    using digit_ok [OF n _ nz rec _ Suc.prems(3) r] Suc.prems(1,2) by auto
  have l1: "length q1 = length q" using d(6) by (auto split: if_splits)
  have V: "0 < ?V" using Suc.prems(2) by simp
  have p: "j + n \<le> length u1 + 1" "val (drop j u1) < ?V"
    "j \<le> length q1 \<or> j = length q1 + 1 \<and> j + n = length u1 + 1 \<and> val (drop (j - 1) u1) < ?V"
    using Suc.prems(1) d(3,5) V r l1 by auto
  obtain q' u' qv' where i: "divBasic_loop v (last v) rec j (q1, u1, qv1) = Inr (q', u', qv')" "length u' = length u1" "length q' = length q1"
    "val u' = val u1 mod ?V" "drop j q' = drop j q1" "val (take j q') = val u1 div ?V"
    using Suc.IH [OF p(1,2) d(2) p(3)] by blast
  have ju: "j \<le> length u" using Suc.prems(1) n(2) by linarith
  have e: "?U mod ?V + ?V * (?U div ?V) = ?U" by simp
  have "val u = val (take j u) + B ^ j * ?U" using ju by (rule val_split)
  also have "B ^ j * ?U = B ^ j * (?U mod ?V) + ?V * (B ^ j * (?U div ?V))"
    using distrib_left [of "B ^ j" "?U mod ?V" "?V * (?U div ?V)"] unfolding e by (simp only: mult.left_commute)
  also have "val (take j u) + (B ^ j * (?U mod ?V) + ?V * (B ^ j * (?U div ?V))) = val u1 + ?V * (B ^ j * (?U div ?V))"
    using val_split [of j u1] ju d(3-5) by simp
  finally have u: "val u = val u1 + ?V * (B ^ j * (?U div ?V))" .
  have um: "val u mod ?V = val u1 mod ?V" "val u div ?V = val u1 div ?V + B ^ j * (?U div ?V)" unfolding u using V by simp_all
  have q: "drop (Suc j) q' = drop (Suc j) q \<and> val (take (Suc j) q') = val (take j q') + B ^ j * (?U div ?V)"
  proof (cases "j < length q")
    case True
    then obtain e where e: "q1 = q[j := e]" "unat e = ?U div ?V" using d(6) by auto
    have "drop j q' = e # drop (Suc j) q" using i(5) e(1) True by (simp add: drop_update_swap flip: Cons_nth_drop_Suc)
    then have "drop (Suc j) q' = drop (Suc j) q" "q' ! j = e"
      using True i(3) l1 by (metis drop_Suc tl_drop list.sel(3), metis Cons_nth_drop_Suc list.inject)
    then show ?thesis using True i(3) l1 e(2) by (simp add: take_Suc_conv_app_nth val_append)
  next
    case False
    then have "j = length q" "?U div ?V = 0" "q1 = q" using r d(6) by auto
    then show ?thesis using i(3) l1 by simp
  qed
  show ?case using d(1,3) i l1 um q by simp
qed simp

lemma divBasic_ok:
  assumes n: "n = length v" "2 \<le> n" and nz: "B \<le> 2 * unat (last v)"
    and room: "length u \<le> n + length q" "val u div val v < B ^ length q"
  shows "\<exists>q' u' p'. divBasic p q u v = Inr (q', u', p') \<and> length u' = length u \<and> length q' = length q \<and>
    val u' = val u mod val v \<and> drop (length u + 1 - n) q' = drop (length u + 1 - n) q \<and>
    val (take (length u + 1 - n) q') = val u div val v"
proof -
  obtain t p' where t: "getNat p (n + 1) = Inr (t, p')" "wf t" "count t = n + 1" using getNat_ok by blast
  have v: "v \<noteq> []" using n by auto
  have nz': "last v \<noteq> 0" using nz by auto
  obtain rec where rec: "reciprocalWord (last v) = Inr rec" using reciprocal_val [OF nz'] by blast
  have top: "vget_sub v n 1 = Inr (last v)" using v n by (simp add: vget_sub_def last_conv_nth)
  have V: "B ^ (n - 1) \<le> val v" using val_ge [of v] v nz' n(1) by (simp add: normal_def)
  then have Vpos: "0 < val v" by (metis B_pos(1) gr0I le_zero_eq power_not_zero)
  let ?j = "length u + 1 - n"
  have run: "divBasic p q u v = go_bind (divBasic_loop v (last v) rec ?j (q, u, words t)) (\<lambda>(q, u, _). Inr (q, u, p'))"
    unfolding divBasic_def Let_def n(1) [symmetric] t(1) go_bind_Inr prod.case top rec ..
  show ?thesis
  proof (cases "n \<le> length u + 1")
    case False
    then have "B ^ length u \<le> B ^ (n - 1)" by (intro power_increasing) (simp_all add: Suc_leI)
    then have "val u < B ^ (n - 1)" using val_lt [of u] by linarith
    then have "val u < val v" using V by linarith
    then show ?thesis using run False by simp
  next
    case True
    have "length (drop ?j u) = n - 1" using True n(2) by simp
    then have "val (drop ?j u) < B ^ (n - 1)" using val_lt [of "drop ?j u"] by simp
    then have lt: "val (drop ?j u) < val v" using V by linarith
    have "?j \<le> length q \<or> ?j = length q + 1 \<and> ?j + n = length u + 1 \<and> val (drop (?j - 1) u) < val v"
    proof (cases "?j \<le> length q")
      case False
      then have j: "?j = length q + 1" using room(1) by linarith
      have "val u < B ^ length q * val v" using room(2) Vpos by (simp add: div_less_iff_less_mult)
      moreover have "B ^ length q * val (drop (length q) u) \<le> val u" using val_split [of "length q" u] j by simp
      ultimately have "B ^ length q * val (drop (length q) u) < B ^ length q * val v" by linarith
      then show ?thesis using j by simp
    qed simp
    from divBasic_loop_ok [OF n nz rec _ lt _ this, of "words t"] show ?thesis using run t True by auto
  qed
qed

end
