(* ===== verification/Big_Div_Rec.thy ===== *)
theory Big_Div_Rec
  imports Big_Div_Spec
begin

text \<open>
  The recursive division of \<^verbatim>\<open>natdiv.go\<close> is exact: the guess of a wide digit, made by a recursive call with the upper
  part of the divisor, is right or one too large, so that one correction is enough.
\<close>

section \<open>The guess of a wide digit\<close>

lemma wide_guess:
  fixes U0 U1 V0 V1 b n s :: nat
  defines "U \<equiv> U0 + B ^ s * U1" and "V \<equiv> V0 + B ^ s * V1"
  assumes s: "s + 1 = b" "2 * b \<le> n" and lt: "U0 < B ^ s" "V0 < B ^ s" and V1: "B ^ (n - s) \<le> 2 * V1" and U: "U < B ^ (n + b)"
  shows "U1 div V1 * V0 < V" "U div V \<le> U1 div V1" "U1 div V1 \<le> U div V + 1"
proof -
  let ?q = "U1 div V1"
  have V1pos: "0 < V1" using V1 B_pos(1) by (cases V1) auto
  have Vpos: "0 < V" unfolding V_def using V1pos by simp
  have "B ^ s * U1 \<le> U" by (simp add: U_def)
  then have "B ^ s * U1 < B ^ s * B ^ (n - s + b)" using U s by (simp flip: power_add)
  then have "U1 < B ^ b * B ^ (n - s)" by (simp add: power_add mult.commute)
  also have "\<dots> \<le> B ^ b * (2 * V1)" using V1 by (rule mult_le_mono2)
  finally have q: "?q < 2 * B ^ b" using V1pos by (simp add: div_less_iff_less_mult ac_simps)
  have "?q * V0 \<le> 2 * B ^ b * B ^ s" using q lt(2) by (intro mult_le_mono) simp_all
  moreover have "4 * (B ^ b * B ^ s) \<le> B ^ (2 * b)"
  proof -
    have "4 * (B ^ b * B ^ s) \<le> B * (B ^ b * B ^ s)" by (intro mult_le_mono1) (simp add: B_def)
    also have "\<dots> = B ^ (b + (s + 1))" by (simp add: power_add)
    finally show ?thesis unfolding s(1) by (simp add: mult_2)
  qed
  moreover have "B ^ (2 * b) \<le> B ^ n" using s(2) by (intro power_increasing) (simp_all add: Suc_leI)
  moreover have "B ^ n = B ^ s * B ^ (n - s)" using s by (simp flip: power_add)
  moreover have "B ^ s * B ^ (n - s) \<le> B ^ s * (2 * V1)" using V1 by (rule mult_le_mono2)
  moreover have "B ^ s * (2 * V1) = 2 * (B ^ s * V1)" by (rule mult.left_commute)
  ultimately have le: "?q * V0 \<le> B ^ s * V1" by linarith
  have "0 < B ^ s * V1" using V1pos by simp
  show lt: "?q * V0 < V"
  proof (cases "V0 = 0")
    case False
    then show ?thesis using le unfolding V_def by linarith
  qed (use Vpos in simp)
  have "U div V * V \<le> U" by simp
  then have "U div V * (B ^ s * V1) \<le> U" unfolding V_def distrib_left by linarith
  then have "B ^ s * (U div V * V1) < B ^ s * (U1 + 1)" using \<open>U0 < B ^ s\<close> unfolding U_def by (simp add: ac_simps)
  then have "U div V * V1 < U1 + 1" unfolding mult_less_cancel1 by simp
  then have "U div V * V1 \<le> U1" by simp
  then show "U div V \<le> ?q" using V1pos by (simp add: less_eq_div_iff_mult_less_eq)
  have "?q * V = B ^ s * (?q * V1) + ?q * V0" unfolding V_def by (simp add: algebra_simps)
  also have "\<dots> \<le> B ^ s * U1 + ?q * V0" by (intro add_mono mult_le_mono2) simp_all
  also have "\<dots> \<le> U + V" using lt unfolding U_def by simp
  finally have "?q \<le> (U + V) div V" using less_eq_div_iff_mult_less_eq [OF Vpos] by blast
  also have "\<dots> = U div V + 1" using Vpos by (metis div_add_self2 not_gr_zero)
  finally show "?q \<le> U div V + 1" .
qed

text \<open>When the guess is too large, what the recursive call left has room for the upper part of the divisor.\<close>

lemma wide_room:
  fixes U0 U1 V0 V1 s n l :: nat
  assumes s: "s \<le> n" "n \<le> l" and lt: "V0 < B ^ s" "V1 < B ^ (n - s)" and V1: "B ^ (n - s) \<le> 2 * V1" "0 < V1"
    and U: "U0 + B ^ s * U1 < B ^ l" and big: "U0 + B ^ s * (U1 mod V1) < U1 div V1 * V0"
  shows "U1 mod V1 + V1 < B ^ (l - s)"
proof (cases "l = n")
  case True
  have "B ^ s * U1 < B ^ s * B ^ (n - s)" using U s True by (simp flip: power_add)
  then have "U1 < 2 * V1" using V1(1) by simp
  then have "U1 div V1 < 2" using V1(2) by (simp add: div_less_iff_less_mult)
  then have "U1 div V1 * V0 \<le> 1 * V0" by (intro mult_le_mono1) simp
  then have "B ^ s * (U1 mod V1) < B ^ s * 1" using big lt(1) by linarith
  then have "U1 mod V1 = 0" unfolding mult_less_cancel1 by simp
  then show ?thesis using lt(2) True by simp
next
  case False
  then have l: "n - s + 1 \<le> l - s" using s by simp
  have "U1 mod V1 + V1 < 2 * V1" using V1(2) by simp
  also have "\<dots> \<le> B * B ^ (n - s)" using lt(2) by (intro mult_le_mono) (simp_all add: B_def)
  also have "\<dots> = B ^ (n - s + 1)" by simp
  also have "\<dots> \<le> B ^ (l - s)" using l by (intro power_increasing) (simp_all add: Suc_leI)
  finally show ?thesis .
qed

section \<open>The correction\<close>

lemma sub_one:
  assumes "wf z" and "val (words z) = v + 1"
  shows "\<exists>z'. on_words z (\<lambda>w. Inr (fst (subVW w w 1))) = Inr z' \<and> wf z' \<and> count z' = count z \<and> val (words z') = v"
proof -
  obtain r k where r: "subVW (words z) (words z) 1 = (r, k)" by fastforce
  have R: "v + 1 + B ^ count z * unat k = val r + 1" "length r = count z"
    using subVW_val [OF r] assms by simp_all
  have "val r < B ^ count z" using val_lt [of r] R(2) by simp
  then have "unat k = 0" using R(1) by (cases "unat k") auto
  then have "val r = v" using R(1) by simp
  then show ?thesis using on_words_ok [OF assms(1), of "\<lambda>w. Inr (fst (subVW w w 1))" r] r R(2) by auto
qed

text \<open>The lower part of the divisor taken from the product, whose slice may be shorter than that part.\<close>

lemma product_lowered:
  assumes z: "nat_at z P s" "0 < P" and v: "length v0 = s" "val v0 \<le> P" and sub: "subVV (take s (array z)) (take s (array z)) v0 = (w, c)"
  defines "z' \<equiv> sl_put z 0 w"
  shows "\<exists>z''. (if count z' > s then on_words z' (\<lambda>w. on_from w s (\<lambda>t. Inr (fst (subVW t t c)))) else Inr z') = Inr z'' \<and>
    wf z'' \<and> count z'' = count z \<and> val (words z'') = P - val v0"
proof -
  let ?A = "array z" and ?k = "count z"
  have A: "?k \<le> length ?A" "s \<le> length ?A" "val (take ?k ?A) = P" "val (take (max s ?k) ?A) = P"
    using z by (simp_all add: nat_at_def nat_is_def wf_def words_def)
  have w: "val (take s ?A) + B ^ s * unat c = val w + val v0" "length w = s" using subVV_val [OF sub] v(1) A(2) by simp_all
  have z': "array z' = w @ drop s ?A" "count z' = ?k" "wf z'" using w(2) A(1,2) by (simp_all add: z'_def sl_put_def patch_def wf_def)
  show ?thesis
  proof (cases "s < ?k")
    case True
    let ?t = "take (?k - s) (drop s ?A)"
    obtain t k where t: "subVW ?t ?t c = (t, k)" by fastforce
    have lt: "length ?t = ?k - s" using A(1) by simp
    have T: "val ?t + B ^ (?k - s) * unat k = val t + unat c" "length t = ?k - s" using subVW_val [OF t] lt by simp_all
    have wz: "words z' = w @ ?t" using z' w(2) True by (simp add: words_def)
    have "on_from (words z') s (\<lambda>t. Inr (fst (subVW t t c))) = Inr (w @ t)"
      unfolding wz by (rule on_from_parts) (simp_all only: w(2) t fst_conv T(2) lt)
    then obtain z'' where z'': "on_words z' (\<lambda>w. on_from w s (\<lambda>t. Inr (fst (subVW t t c)))) = Inr z''" "wf z''" "count z'' = ?k"
      "words z'' = w @ t"
      using on_words_ok [OF z'(3), of "\<lambda>w. on_from w s (\<lambda>t. Inr (fst (subVW t t c)))" "w @ t"] z'(2) w(2) T(2) True by auto
    have "take ?k ?A = take s ?A @ ?t" using True by (metis add_diff_inverse_nat less_imp_not_less take_add)
    then have "P = val (take s ?A) + B ^ s * val ?t" using A(2,3) by (metis length_take min.absorb2 val_append)
    moreover have "B ^ s * (val ?t + B ^ (?k - s) * unat k) = B ^ s * (val t + unat c)" using T(1) by simp
    moreover have "B ^ ?k = B ^ s * B ^ (?k - s)" using True by (simp flip: power_add)
    ultimately have e: "val (w @ t) + val v0 = P + B ^ ?k * unat k" using w by (simp add: val_append algebra_simps)
    have "val (w @ t) < B ^ ?k" using val_lt [of "w @ t"] w(2) T(2) True by simp
    then have "unat k = 0" using e v(2) by (cases "unat k") auto
    then have "val (w @ t) = P - val v0" using e by simp
    then show ?thesis using z'' z'(2) True by simp
  next
    case False
    then have P: "val (take s ?A) = P" using A(4) by (simp add: max_def)
    have "val w < B ^ s" using val_lt [of w] w(2) by simp
    then have "unat c = 0" using w(1) P v(2) by (cases "unat c") auto
    then have e: "val w = P - val v0" using w(1) P by simp
    have "val (drop ?k w) = 0"
    proof (rule ccontr)
      assume "val (drop ?k w) \<noteq> 0"
      then have "B ^ ?k * 1 \<le> B ^ ?k * val (drop ?k w)" by (intro mult_le_mono2) simp
      also have "\<dots> \<le> val w" using val_split [of ?k w] False w(2) by simp
      also have "\<dots> \<le> P" using e by simp
      finally show False using val_lt [of "take ?k ?A"] A(1,3) by simp
    qed
    then have "val (take ?k w) = P - val v0" using val_split [of ?k w] False w(2) e by simp
    moreover have "words z' = take ?k w" using z' w(2) False by (simp add: words_def)
    ultimately show ?thesis using z' False by simp
  qed
qed

text \<open>One correction: the guess and its product go down by one divisor, the upper part is added to what is left.\<close>

lemma back_ok:
  assumes s: "s \<le> length v" and qhat: "wf qhat" "val (words qhat) = q + 1"
    and qv: "nat_at qhatv ((q + 1) * val (take s v)) s" "0 < (q + 1) * val (take s v)"
    and top: "normal (drop s v)" and uu: "s \<le> length uu" "val (drop s uu) + val (drop s v) < B ^ (length uu - s)"
  shows "\<exists>qhat' qhatv' uu'. divRecursive_back s v (qhat, qhatv, uu) = Inr (qhat', qhatv', uu') \<and>
    wf qhat' \<and> count qhat' = count qhat \<and> val (words qhat') = q \<and>
    wf qhatv' \<and> count qhatv' = count qhatv \<and> val (words qhatv') = q * val (take s v) \<and>
    length uu' = length uu \<and> val uu' = val uu + B ^ s * val (drop s v)"
proof -
  obtain qhat' where 1: "on_words qhat (\<lambda>w. Inr (fst (subVW w w 1))) = Inr qhat'" "wf qhat'" "count qhat' = count qhat" "val (words qhat') = q"
    using sub_one [OF qhat] by blast
  obtain w c where w: "subVV (take s (array qhatv)) (take s (array qhatv)) (take s v) = (w, c)" by fastforce
  have "s \<le> length (array qhatv)" using qv unfolding nat_at_def by blast
  then have sl: "vslice (array qhatv) 0 s = Inr (take s (array qhatv))" "vslice v 0 s = Inr (take s v)" "vfrom v s = Inr (drop s v)"
    using s by (simp_all add: vslice_def vfrom_def)
  obtain qhatv' where 2: "(if count (sl_put qhatv 0 w) > s then on_words (sl_put qhatv 0 w) (\<lambda>w. on_from w s (\<lambda>t. Inr (fst (subVW t t c)))) else Inr (sl_put qhatv 0 w)) = Inr qhatv'"
    "wf qhatv'" "count qhatv' = count qhatv" "val (words qhatv') = q * val (take s v)"
    using product_lowered [OF qv _ _ w] s by auto
  obtain r where r: "addAt (drop s uu) (drop s v) 0 = Inr r" "length r = length uu - s" "val r = val (drop s uu) + val (drop s v)"
    using addAt_ok [OF top, of "drop s uu" 0] uu by auto
  have 3: "on_from uu s (\<lambda>t. addAt t (drop s v) 0) = Inr (take s uu @ r)"
    using on_from_parts [of s "take s uu" "\<lambda>t. addAt t (drop s v) 0" "drop s uu" r] uu(1) r(1,2) by simp
  have "val (take s uu @ r) = val uu + B ^ s * val (drop s v)" using val_split [OF uu(1)] uu(1) r(3) by (simp add: val_append algebra_simps)
  moreover have "length (take s uu @ r) = length uu" using uu(1) r(2) by simp
  moreover have "divRecursive_back s v (qhat, qhatv, uu) = Inr (qhat', qhatv', take s uu @ r)"
    unfolding divRecursive_back_def prod.case 1(1) go_bind_Inr sl w Let_def 2(1) 3 ..
  ultimately show ?thesis using 1 2 by blast
qed

lemma nat_at_mono:
  assumes "nat_at z v k" and "j \<le> k"
  shows "nat_at z v j"
proof -
  have "val (words z) \<le> val (take (max j (count z)) (array z))" unfolding words_def by (intro val_take_mono) simp
  moreover have "val (take (max j (count z)) (array z)) \<le> val (take (max k (count z)) (array z))"
    using assms(2) by (intro val_take_mono) simp
  ultimately show ?thesis using assms by (auto simp: nat_at_def nat_is_def)
qed

lemma normal_length_le: "normal x \<Longrightarrow> val x < B ^ n \<Longrightarrow> length x \<le> n"
proof (rule ccontr)
  assume a: "normal x" "val x < B ^ n" "\<not> length x \<le> n"
  then have "B ^ n \<le> B ^ (length x - 1)" by (intro power_increasing) (simp_all add: Suc_leI)
  also have "\<dots> \<le> val x" using a by (intro val_ge) auto
  finally show False using a(2) by simp
qed

text \<open>The loop that corrects the guess, with \<open>break\<close> or without it.\<close>

lemma fix_ok:
  fixes v uu :: "u64 list" and q1 s :: nat
  defines "V1 \<equiv> val (drop s v)" and "U \<equiv> q1 * (B ^ s * val (drop s v)) + val uu"
  assumes s: "s < length v" and top: "normal (drop s v)" and n: "length v \<le> length uu"
    and qhat: "wf qhat" "val (words qhat) = q1" and qv: "nat_at qhatv (q1 * val (take s v)) s" "q1 * val (take s v) < val v"
    and q1: "U div val v \<le> q1" "q1 \<le> U div val v + 1"
    and room: "val uu < q1 * val (take s v) \<Longrightarrow> val (drop s uu) + V1 < B ^ (length uu - s)"
  shows "\<exists>qhat' qhatv' uu'. divRecursive_fix 2 s v (qhat, qhatv, uu) = Inr (qhat', qhatv', uu') \<and>
    divRecursive_fix_last 2 s v (qhat, qhatv, uu) = Inr (qhat', qhatv', uu') \<and>
    wf qhat' \<and> count qhat' = count qhat \<and> val (words qhat') = U div val v \<and>
    wf qhatv' \<and> count qhatv' \<le> length v \<and> length uu' = length uu \<and> \<not> nat_cmp (words qhatv') (norm uu') > 0 \<and>
    val uu' = val (words qhatv') + U mod val v"
proof -
  let ?P = "q1 * val (take s v)" and ?V = "val v" and ?Q = "U div val v"
  have V: "?V = val (take s v) + B ^ s * V1" "0 < ?V" using val_split [of s v] s gr_implies_not0 [OF qv(2)] unfolding V1_def by auto
  have UV: "U + ?P = q1 * ?V + val uu" unfolding U_def V(1) by (simp add: V1_def algebra_simps)
  have m: "U = ?Q * ?V + U mod ?V" by simp
  have P: "normal (words qhatv)" "val (words qhatv) = ?P" "wf qhatv" using qv(1) by (simp_all add: nat_at_def nat_is_def)
  have "?P < B ^ length v" using qv(2) val_lt [of v] by linarith
  then have c: "count qhatv \<le> length v" using normal_length_le [OF P(1)] P(2,3) by simp
  have cmp: "nat_cmp (words qhatv) (norm uu) > 0 \<longleftrightarrow> val uu < ?P" using nat_cmp_ok [OF P(1), of "norm uu"] P(2) by auto
  show ?thesis
  proof (cases "val uu < ?P")
    case False
    then have "q1 * ?V \<le> U" using UV by linarith
    then have "q1 \<le> ?Q" using V(2) by (simp add: less_eq_div_iff_mult_less_eq)
    then have Q: "q1 = ?Q" using q1(1) by simp
    have "val uu = ?P + U mod ?V" using UV m unfolding Q [symmetric] by linarith
    then show ?thesis using cmp False Q P c qhat by (simp add: numeral_2_eq_2 not_less)
  next
    case True
    then have "U < q1 * ?V" using UV by linarith
    then have "?Q < q1" using V(2) by (simp add: div_less_iff_less_mult)
    then have Q: "q1 = ?Q + 1" using q1(2) by simp
    have Ppos: "0 < ?P" using True by (rule le_less_trans [OF le0])
    obtain qhat' qhatv' uu' where b: "divRecursive_back s v (qhat, qhatv, uu) = Inr (qhat', qhatv', uu')"
      "wf qhat'" "count qhat' = count qhat" "val (words qhat') = ?Q"
      "wf qhatv'" "count qhatv' = count qhatv" "val (words qhatv') = ?Q * val (take s v)"
      "length uu' = length uu" "val uu' = val uu + B ^ s * V1"
      using back_ok [OF less_imp_le [OF s] qhat(1) _ _ _ top, of ?Q qhatv uu] qhat(2) qv(1) Ppos Q room [OF True] s n
      unfolding V1_def by auto
    have "U = (?Q + 1) * (B ^ s * V1) + val uu" using U_def Q unfolding V1_def by metis
    then have R: "val uu' = ?Q * val (take s v) + U mod ?V" using m b(9) unfolding V(1) by (simp add: algebra_simps)
    have "B ^ (length v - 1 - s) \<le> V1" using val_ge [OF top] s by (simp add: V1_def)
    then have "B ^ s * B ^ (length v - 1 - s) \<le> B ^ s * V1" by (rule mult_le_mono2)
    then have big: "B ^ (length v - 1) \<le> val uu'" using s b(9) by (simp flip: power_add)
    have "length v \<le> length (norm uu')"
    proof (rule ccontr)
      assume "\<not> length v \<le> length (norm uu')"
      then have "B ^ length (norm uu') \<le> B ^ (length v - 1)" by (intro power_increasing) (simp_all add: Suc_leI)
      then show False using val_lt [of "norm uu'"] big unfolding val_norm by linarith
    qed
    then have len: "length (words qhatv') \<le> length (norm uu')" using b(5,6) c by simp
    have "\<not> nat_cmp (words qhatv') (norm uu') > 0"
      using nat_cmp_short [OF normal_norm len] R b(7) by simp
    then show ?thesis using cmp True b R c by (simp add: numeral_2_eq_2 not_less)
  qed
qed

text \<open>The product is taken from what is left.\<close>

lemma sub_product:
  assumes qv: "wf qv" "count qv \<le> length uu" and e: "val uu = val (words qv) + R"
  shows "\<exists>u1 c u2. on_part uu 0 (count qv) (\<lambda>t. Inr (subVV t t (words qv))) = Inr (u1, c) \<and>
    (if c > 0 then on_from u1 (count qv) (\<lambda>t. Inr (fst (subVW t t c))) else Inr u1) = Inr u2 \<and>
    (if c > 0 then go_bind (vfrom u1 (count qv)) (\<lambda>t. go_bind (on_part u1 (count qv) (length u1) (\<lambda>s. Inr (subVW s t c)))
       (\<lambda>(u, c). if c > 0 then Inl (PanicMsg ''impossible'') else Inr (qhat, u, p))) else Inr (qhat, u1, p)) = Inr (qhat, u2, p) \<and>
    length u2 = length uu \<and> val u2 = R"
proof -
  let ?k = "count qv"
  obtain a b where u: "uu = a @ b" "length a = ?k" "length b = length uu - ?k" using split_at [OF qv(2)] by blast
  obtain r c where r: "subVV a a (words qv) = (r, c)" by fastforce
  have R: "val a + B ^ ?k * unat c = val r + val (words qv)" "length r = ?k" using subVV_val [OF r] u(2) qv(1) by simp_all
  have p: "on_part uu 0 ?k (\<lambda>t. Inr (subVV t t (words qv))) = Inr (r @ b, c)"
    unfolding u(1) using on_part_parts [of 0 "[]" ?k a "\<lambda>t. Inr (subVV t t (words qv))" r c b] u(2) r R(2) by simp
  have w: "c > 0 \<longleftrightarrow> unat c \<noteq> 0" by (simp add: word_gt_0 unat_eq_zero)
  obtain d l where d: "subVW b b c = (d, l)" by fastforce
  have D: "val b + B ^ length b * unat l = val d + unat c" "length d = length b" using subVW_val [OF d] by simp_all
  have V: "val uu = val a + B ^ ?k * val b" unfolding u(1) u(2) [symmetric] by (rule val_append)
  have "B ^ ?k * (val b + B ^ length b * unat l) = B ^ ?k * (val d + unat c)" using D(1) by simp
  then have E: "R + B ^ ?k * (B ^ length b * unat l) = val r + B ^ ?k * val d" using V e R(1) by (simp add: algebra_simps)
  have "val r + B ^ ?k * val d < B ^ ?k * B ^ length b"
    using val_lt [of "r @ d"] R(2) D(2) by (simp add: val_append power_add)
  then have "B ^ ?k * (B ^ length b * unat l) < B ^ ?k * (B ^ length b * 1)" using E unfolding mult_1_right by linarith
  then have l: "unat l = 0" unfolding mult_less_cancel1 by simp
  then have l0: "l = 0" by (simp add: unat_eq_zero)
  show ?thesis
  proof (cases "c > 0")
    case True
    have f: "on_from (r @ b) ?k (\<lambda>t. Inr (fst (subVW t t c))) = Inr (r @ d)" by (rule on_from_parts) (simp_all add: R d D)
    have g: "vfrom (r @ b) ?k = Inr b" using R(2) by (simp add: vfrom_def)
    have h: "on_part (r @ b) ?k (length (r @ b)) (\<lambda>s. Inr (subVW s b c)) = Inr (r @ d, l)"
    proof -
      have "on_part (r @ b @ []) ?k (length (r @ b)) (\<lambda>s. Inr (subVW s b c)) = Inr (r @ d @ [], l)"
        by (rule on_part_parts) (simp_all only: R(2) d D(2) length_append)
      then show ?thesis by (simp only: append_Nil2)
    qed
    have "val (r @ d) = R" using E l R(2) by (simp add: val_append)
    moreover have "length (r @ d) = length uu" unfolding u(1) using R(2) D(2) u(2) by simp
    moreover have "(if c > 0 then on_from (r @ b) ?k (\<lambda>t. Inr (fst (subVW t t c))) else Inr (r @ b)) = Inr (r @ d)"
      unfolding if_P [OF True] by (rule f)
    moreover have "(if c > 0 then go_bind (vfrom (r @ b) ?k) (\<lambda>t. go_bind (on_part (r @ b) ?k (length (r @ b)) (\<lambda>s. Inr (subVW s t c)))
       (\<lambda>(u, c). if c > 0 then Inl (PanicMsg ''impossible'') else Inr (qhat, u, p))) else Inr (qhat, r @ b, p)) = Inr (qhat, r @ d, p)"
      unfolding if_P [OF True] g go_bind_Inr h prod.case l0 by simp
    ultimately show ?thesis using p by blast
  next
    case False
    then have "val (r @ b) = R" using V e R w by (simp add: val_append)
    moreover have "length (r @ b) = length uu" unfolding u(1) using R(2) u(2) by simp
    ultimately show ?thesis
      by - (rule exI [of _ "r @ b"], rule exI [of _ c], rule exI [of _ "r @ b"], simp add: p False)
  qed
qed

lemma digits_ok:
  fixes v uu :: "u64 list" and q1 s :: nat
  defines "U \<equiv> q1 * (B ^ s * val (drop s v)) + val uu"
  assumes s: "0 < s" "s < length v" and top: "normal (drop s v)" and n: "n = length v" "n \<le> length uu"
    and qhat: "nat_is qhat q1" and q1: "q1 * val (take s v) < val v" "U div val v \<le> q1" "q1 \<le> U div val v + 1"
    and room: "val uu < q1 * val (take s v) \<Longrightarrow> val (drop s uu) + val (drop s v) < B ^ (length uu - s)"
  shows "\<exists>qhat' uu' p'. divRecursive_digit p tmp n s v qhat uu = Inr (qhat', uu', p') \<and>
    divRecursive_last p tmp n s v qhat uu = Inr (qhat', uu', p') \<and>
    wf qhat' \<and> count qhat' = count qhat \<and> val (words qhat') = U div val v \<and> length uu' = length uu \<and> val uu' = U mod val v"
proof -
  have qh: "wf qhat" "val (words qhat) = q1" using qhat by (simp_all add: nat_is_def)
  have v0: "vslice v 0 s = Inr (take s v)" "length (take s v) = s" using s by (simp_all add: vslice_def)
  obtain qhatv p' where m: "divRecursive_product p tmp n s v qhat = Inr (qhatv, p')" "nat_at qhatv (q1 * val (take s v)) s"
  proof -
    let ?z = "sl_put (nat_make tmp (3 * n)) 0 (clear (words (nat_make tmp (3 * n))))"
    obtain qhatv p' where "nat_mul False p ?z (words qhat) (take s v) = Inr (qhatv, p')"
      "nat_at qhatv (q1 * val (take s v)) (max (length (words qhat)) (length (take s v)))"
      using nat_mul_at [of False p ?z "words qhat" "take s v"] unfolding qh(2) by blast
    then show thesis using that nat_at_mono [of qhatv _ _ s] v0 unfolding divRecursive_product_def Let_def by simp
  qed
  note F = fix_ok [OF s(2) top n(2) [unfolded n(1)] qh m(2) q1(1) q1(2,3) [unfolded U_def] room, folded U_def]
  obtain qhat' qhatv' uu' where f: "divRecursive_fix 2 s v (qhat, qhatv, uu) = Inr (qhat', qhatv', uu')"
    "divRecursive_fix_last 2 s v (qhat, qhatv, uu) = Inr (qhat', qhatv', uu')"
    "wf qhat'" "count qhat' = count qhat" "val (words qhat') = U div val v" "wf qhatv'" "count qhatv' \<le> length v"
    "length uu' = length uu" "\<not> nat_cmp (words qhatv') (norm uu') > 0" "val uu' = val (words qhatv') + U mod val v"
    using F by blast
  have "count qhatv' \<le> length uu'" using f(7,8) n by simp
  from sub_product [OF f(6) this f(10), of qhat' p'] obtain u1 c u2 where
    u: "on_part uu' 0 (count qhatv') (\<lambda>t. Inr (subVV t t (words qhatv'))) = Inr (u1, c)"
    "(if c > 0 then on_from u1 (count qhatv') (\<lambda>t. Inr (fst (subVW t t c))) else Inr u1) = Inr u2"
    "(if c > 0 then go_bind (vfrom u1 (count qhatv')) (\<lambda>t. go_bind (on_part u1 (count qhatv') (length u1) (\<lambda>s. Inr (subVW s t c)))
       (\<lambda>(u, c). if c > 0 then Inl (PanicMsg ''impossible'') else Inr (qhat', u, p'))) else Inr (qhat', u1, p')) = Inr (qhat', u2, p')"
    "length u2 = length uu'" "val u2 = U mod val v" by blast
  have "divRecursive_digit p tmp n s v qhat uu = Inr (qhat', u2, p')"
    unfolding divRecursive_digit_def m(1) go_bind_Inr prod.case f(1) if_not_P [OF f(9)] u(1,2) ..
  moreover have "divRecursive_last p tmp n s v qhat uu = Inr (qhat', u2, p')"
    unfolding divRecursive_last_def m(1) go_bind_Inr prod.case f(2) if_not_P [OF f(9)] u(1,3) ..
  ultimately show ?thesis using f(3-5,8) u(4,5) by auto
qed

section \<open>The recursion\<close>

fun rec_levels :: "nat \<Rightarrow> nat" where
  "rec_levels n = (if n < 100 then 0 else 1 + rec_levels (n - (n div 2 - 1)))"

declare rec_levels.simps [simp del]

text \<open>The number of temporaries that \<open>divRecursive\<close> provides is enough.\<close>

lemma bitlen_mono: "m \<le> n \<Longrightarrow> bitlen m \<le> bitlen n"
  by (metis bitlen_0 bitlen_bounds bitlen_le_iff le_less_trans le0 order_refl)

lemma rec_levels_step: "\<not> n < 100 \<Longrightarrow> rec_levels n = 1 + rec_levels (n - (n div 2 - 1))"
  by (subst rec_levels.simps) (simp only: if_False)

lemma rec_levels_0: "n < 100 \<Longrightarrow> rec_levels n = 0"
  by (subst rec_levels.simps) (simp only: if_True)

lemma rec_levels_le: "rec_levels n \<le> 2 * bitlen n"
proof (induction n rule: less_induct)
  case (less n)
  define f where "f n = n - (n div 2 - 1)" for n :: nat
  note step = rec_levels_step [folded f_def]
  have b: "bitlen n = Suc (bitlen (n div 2))" if "100 \<le> n" for n using that by (subst bitlen.simps) simp
  consider "n < 100" | "\<not> n < 100" "f n < 100" | "\<not> n < 100" "\<not> f n < 100" by blast
  then show ?case
  proof cases
    case 1
    then show ?thesis by (simp only: rec_levels_0 le0)
  next
    case 2
    then have "rec_levels n = 1" using step [OF 2(1)] rec_levels_0 [OF 2(2)] by simp
    then show ?thesis using b [of n] 2(1) by simp
  next
    case 3
    have le: "f (f n) \<le> n div 2" "f (f n) < n" using 3 unfolding f_def by linarith+
    have "rec_levels n = 2 + rec_levels (f (f n))" using step [OF 3(1)] step [OF 3(2)] by simp
    also have "\<dots> \<le> 2 + 2 * bitlen (f (f n))" using less.IH [OF le(2)] by simp
    also have "\<dots> \<le> 2 + 2 * bitlen (n div 2)" using bitlen_mono [OF le(1)] by simp
    finally show ?thesis using b [of n] 3(1) by simp
  qed
qed

text \<open>The quotient has room in \<open>z\<close>.\<close>

definition quotient_room :: "nat \<Rightarrow> u64 list \<Rightarrow> u64 list \<Rightarrow> bool" where
  "quotient_room k u v \<longleftrightarrow>
    length (norm u) < length v + k \<or> length (norm u) = length v + k \<and> last (norm u) < last v"

lemma val_top:
  assumes "x \<noteq> []"
  shows "unat (last x) * B ^ (length x - 1) \<le> val x" "val x < (unat (last x) + 1) * B ^ (length x - 1)"
proof -
  have "val x = val (butlast x) + B ^ (length x - 1) * unat (last x)"
    using val_snoc [of "butlast x" "last x"] assms by simp
  then show "unat (last x) * B ^ (length x - 1) \<le> val x" "val x < (unat (last x) + 1) * B ^ (length x - 1)"
    using val_lt [of "butlast x"] by (simp_all add: algebra_simps)
qed

lemma quotient_room_lt:
  assumes v: "v \<noteq> []" "B \<le> 2 * unat (last v)" and room: "quotient_room k u v"
  shows "val u < val v * B ^ k"
proof -
  have nz: "last v \<noteq> 0" using v(2) by auto
  consider "length (norm u) < length v + k" "k = 0" | "length (norm u) < length v + k" "0 < k" |
    "length (norm u) = length v + k" "last (norm u) < last v" using room unfolding quotient_room_def by (cases "k = 0") auto
  then show ?thesis
  proof cases
    case 1
    then show ?thesis using val_less_length [of v "norm u"] nz by (simp add: normal_def)
  next
    case 2
    have "val u < B ^ length (norm u)" using val_lt [of "norm u"] by simp
    also have "\<dots> \<le> B ^ (length v + (k - 1))" using 2 by (intro power_increasing) (simp_all add: Suc_leI)
    also have "\<dots> \<le> 2 * val v * B ^ (k - 1)" unfolding power_add using normalized_half [OF v(2,1)] by (rule mult_le_mono1)
    also have "\<dots> \<le> val v * (B * B ^ (k - 1))" by (simp add: B_def)
    finally show ?thesis using 2 by (cases k) simp_all
  next
    case 3
    then have ne: "norm u \<noteq> []" using v(1) by (cases "norm u") auto
    have "val u < (unat (last (norm u)) + 1) * B ^ (length v + k - 1)" using val_top(2) [OF ne] 3 by simp
    also have "\<dots> \<le> unat (last v) * B ^ (length v + k - 1)" using 3(2) by (intro mult_le_mono1) (simp add: word_less_nat_alt)
    also have "\<dots> = unat (last v) * B ^ (length v - 1) * B ^ k" using v(1) by (cases v) (simp_all add: power_add)
    also have "\<dots> \<le> val v * B ^ k" using val_top(1) [OF v(1)] by (rule mult_le_mono1)
    finally show ?thesis .
  qed
qed

definition step_ok :: "u64 list \<Rightarrow> bool" where
  "step_ok v \<longleftrightarrow> (\<forall>p z u depth tmp temps. val z = 0 \<and> depth + rec_levels (length v) \<le> length temps \<and> quotient_room (length z) u v \<longrightarrow>
    (\<exists>z' u' temps' p'. divRecursiveStep p z u v depth tmp temps = Inr (z', u', temps', p') \<and>
      length z' = length z \<and> length u' = length u \<and> length temps' = length temps \<and>
      val z' = val u div val v \<and> val u' = val u mod val v))"

text \<open>A wide digit: the recursive call and what follows it.\<close>

lemma section_step:
  fixes n b s :: nat
  assumes n: "n = length v" "100 \<le> n" "b = n div 2" "s = b - 1" and nz: "B \<le> 2 * unat (last v)"
    and uu: "n \<le> length uu" "val uu < B ^ (n + b)" and u1: "val u1 = val (drop s uu)" "s + length u1 \<le> length uu"
    and qhat0: "wf qhat0" "b + 1 \<le> count qhat0" "val (words qhat0) = 0"
    and IH: "step_ok (drop s v)" and temps: "depth + rec_levels n \<le> length temps"
  shows "\<exists>w u1' temps' p1 qhat uu' p2.
    divRecursiveStep p (words qhat0) u1 (drop s v) (depth + 1) tmp temps = Inr (w, u1', temps', p1) \<and>
    divRecursive_digit p1 tmp n s v (nat_norm (sl_put qhat0 0 w)) (patch uu s u1') = Inr (qhat, uu', p2) \<and>
    divRecursive_last p1 tmp n s v (nat_norm (sl_put qhat0 0 w)) (patch uu s u1') = Inr (qhat, uu', p2) \<and>
    length temps' = length temps \<and> wf qhat \<and> (\<forall>k. val (drop s uu) < val (drop s v) * B ^ k \<longrightarrow> count qhat \<le> k) \<and>
    val (words qhat) = val uu div val v \<and> length uu' = length uu \<and> val uu' = val uu mod val v"
proof -
  let ?v1 = "drop s v" and ?U0 = "val (take s uu)" and ?U1 = "val (drop s uu)"
  have s: "0 < s" "s < n" "s + 1 = b" "2 * b \<le> n" "s \<le> length uu" using n uu(1) by linarith+
  have l1: "length ?v1 = n - s" using n(1) by simp
  have ne: "?v1 \<noteq> []" "last ?v1 = last v" using s n(1) by auto
  have nz1: "B \<le> 2 * unat (last ?v1)" using nz ne(2) by simp
  have top: "normal ?v1" using nz ne by (auto simp: normal_def)
  have V1: "B ^ (n - s) \<le> 2 * val ?v1" using normalized_half [OF nz1 ne(1)] l1 by simp
  then have V1pos: "0 < val ?v1" using B_pos(1) by (cases "val ?v1") auto
  have U: "val uu = ?U0 + B ^ s * ?U1" using s(5) by (rule val_split)
  have V: "val v = val (take s v) + B ^ s * val ?v1" using s(2) n(1) by (intro val_split) simp
  have lt: "?U0 < B ^ s" "val (take s v) < B ^ s" using val_lt [of "take s uu"] val_lt [of "take s v"] s n(1) by simp_all
  note G = wide_guess [OF s(3,4) lt V1 uu(2) [unfolded U], folded V U]
  let ?q = "?U1 div val ?v1" and ?r = "?U1 mod val ?v1"
  have "n + b = s + (n + 1)" using s(3) by linarith
  then have "B ^ (n + b) = B ^ s * B ^ (n + 1)" by (simp only: power_add)
  then have "B ^ s * ?U1 < B ^ s * B ^ (n + 1)" using U uu(2) by linarith
  then have "?U1 < B ^ (n + 1)" unfolding mult_less_cancel1 by simp
  then have lu: "length (norm u1) \<le> n + 1" using normal_length_le [of "norm u1"] u1(1) by simp
  have room: "quotient_room (length (words qhat0)) u1 ?v1"
    unfolding quotient_room_def l1 length_words [OF qhat0(1)] using lu s(2,3) qhat0(2) by linarith
  have lev: "rec_levels n = 1 + rec_levels (n - s)" using n by (subst rec_levels.simps) simp
  have "depth + 1 + rec_levels (length ?v1) \<le> length temps" using temps lev l1 by simp
  then obtain w u1' temps' p1 where r: "divRecursiveStep p (words qhat0) u1 ?v1 (depth + 1) tmp temps = Inr (w, u1', temps', p1)"
    "length w = count qhat0" "length u1' = length u1" "length temps' = length temps" "val w = ?q" "val u1' = ?r"
    using IH qhat0(1,3) room u1(1) unfolding step_ok_def by (metis length_words)
  let ?qhat = "nat_norm (sl_put qhat0 0 w)" and ?uu = "patch uu s u1'"
  have qhat: "nat_is ?qhat ?q" using norm_ok [of "sl_put qhat0 0 w"] put_words [OF qhat0(1) r(2)] r(5) by simp
  have ru: "take s ?uu = take s uu" "val (drop s ?uu) = ?r" "length ?uu = length uu"
  proof -
    show "take s ?uu = take s uu" "length ?uu = length uu" using s(5) r(3) u1(2) by (simp_all add: patch_def)
    have "?U1 = val (take (length u1) (drop s uu)) + B ^ length u1 * val (drop (s + length u1) uu)"
      using val_split [of "length u1" "drop s uu"] u1(2) by (simp add: add.commute)
    moreover have "?U1 < B ^ length u1" using val_lt [of u1] u1(1) by simp
    ultimately have "B ^ length u1 * val (drop (s + length u1) uu) < B ^ length u1 * 1" by linarith
    then have "val (drop (s + length u1) uu) = 0" unfolding mult_less_cancel1 by simp
    then show "val (drop s ?uu) = ?r" using s(5) r(3,6) by (simp add: patch_def val_append)
  qed
  have vu: "val ?uu = ?U0 + B ^ s * ?r" using val_split [of s ?uu] s(5) ru by simp
  have orig: "?q * (B ^ s * val ?v1) + val ?uu = val uu"
  proof -
    have "?q * val ?v1 + ?r = ?U1" by simp
    then have "B ^ s * (?q * val ?v1) + B ^ s * ?r = B ^ s * ?U1" by (metis distrib_left)
    then show ?thesis using U mult.left_commute [of ?q "B ^ s" "val ?v1"] unfolding vu by linarith
  qed
  have room2: "val (drop s ?uu) + val ?v1 < B ^ (length ?uu - s)" if "val ?uu < ?q * val (take s v)"
  proof -
    have "val ?v1 < B ^ (n - s)" using val_lt [of ?v1] l1 by simp
    moreover have "?U0 + B ^ s * ?U1 < B ^ length uu" using val_lt [of uu] U by simp
    ultimately show ?thesis using wide_room [OF less_imp_le [OF s(2)] uu(1) lt(2) _ V1 V1pos] that unfolding ru(2,3) vu by blast
  qed
  note D = digits_ok [where uu = ?uu, OF s(1) _ top n(1) _ qhat G(1), unfolded orig ru(3), OF _ uu(1) G(2,3) room2 [unfolded ru(3)]]
  obtain qhat' uu' p2 where d: "divRecursive_digit p1 tmp n s v ?qhat ?uu = Inr (qhat', uu', p2)"
    "divRecursive_last p1 tmp n s v ?qhat ?uu = Inr (qhat', uu', p2)"
    "wf qhat'" "count qhat' = count ?qhat" "val (words qhat') = val uu div val v" "length uu' = length uu" "val uu' = val uu mod val v"
    using D s(2) n(1) by blast
  have "count qhat' \<le> k" if "?U1 < val ?v1 * B ^ k" for k
  proof -
    have "?q < B ^ k" using that V1pos by (simp add: div_less_iff_less_mult mult.commute)
    then show ?thesis using normal_length_le [of "words ?qhat" k] qhat d(4) by (simp add: nat_is_def)
  qed
  then show ?thesis using r(1,4) d by blast
qed

lemma go_fold_down:
  assumes "0 < b" and "P j s" and "\<And>j s. b < j \<Longrightarrow> P j s \<Longrightarrow> \<exists>s'. f j s = Inr s' \<and> P (j - b) s'"
  shows "\<exists>s' i. go_fold f (down_steps b j) s = Inr s' \<and> i \<le> b \<and> P i s'"
  using assms
proof (induction b j arbitrary: s rule: down_steps.induct)
  case (1 b j)
  show ?case
  proof (cases "b < j")
    case True
    obtain s' where s': "f j s = Inr s'" "P (j - b) s'" using "1.prems"(3) [OF True "1.prems"(2)] by blast
    then obtain s'' i where "go_fold f (down_steps b (j - b)) s' = Inr s''" "i \<le> b" "P i s''"
      using "1.IH" [OF _ "1.prems"(1) s'(2) "1.prems"(3)] True "1.prems"(1) by blast
    then show ?thesis using s'(1) True "1.prems"(1) by (subst down_steps.simps) auto
  next
    case False
    then show ?thesis using "1.prems" by (subst down_steps.simps) (auto intro!: exI [of _ j])
  qed
qed

text \<open>The state before the wide digit at \<open>j\<close>: what is divided and what was found so far make up \<open>U\<close>.\<close>

definition wide_inv ::
  "u64 list \<Rightarrow> nat \<Rightarrow> nat \<Rightarrow> nat \<Rightarrow> nat \<Rightarrow> nat \<Rightarrow> u64 list \<times> u64 list \<times> nat_slice option list \<times> pool \<Rightarrow> bool" where
  "wide_inv v U k m l j = (\<lambda>(z, u, temps, p).
    let n = length v; b = n div 2; s = b - 1 in
    length z = k \<and> length u = n + m \<and> length temps = l \<and> j \<le> m \<and> m \<le> k \<and>
    val z * val v + val u = U \<and> val (drop j u) < B ^ n \<and>
    (j = k \<longrightarrow> val (drop (j - 1) u) < val (drop s v) * B ^ b))"

lemma wide_step:
  fixes b s n :: nat
  assumes n: "n = length v" "100 \<le> n" "b = n div 2" "s = b - 1" and nz: "B \<le> 2 * unat (last v)"
    and qhat0: "wf qhat0" "b + 1 \<le> count qhat0" "val (words qhat0) = 0"
    and IH: "step_ok (drop s v)" and temps: "depth + rec_levels n \<le> l" and U: "U < val v * B ^ k"
    and j: "b < j" and inv: "wide_inv v U k m l j st"
  shows "\<exists>st'. (\<lambda>(z, u, temps, p).
      go_bind (vfrom u (j - b)) (\<lambda>uu. go_bind (vslice uu s (b + n)) (\<lambda>u1.
      go_bind (divRecursiveStep p (words qhat0) u1 (drop s v) (depth + 1) tmp temps) (\<lambda>(w, u1, temps, p).
      let qhat = nat_norm (sl_put qhat0 0 w) in
      go_bind (divRecursive_digit p tmp n s v qhat (patch uu s u1)) (\<lambda>(qhat, uu, p).
      go_bind (addAt z (words qhat) (j - b)) (\<lambda>z. Inr (z, patch u (j - b) uu, temps, p))))))) st = Inr st' \<and>
    wide_inv v U k m l (j - b) st'"
proof -
  obtain z u temps p where st: "st = (z, u, temps, p)" by (cases st)
  have I: "length z = k" "length u = n + m" "length temps = l" "j \<le> m" "m \<le> k" "val z * val v + val u = U" "val (drop j u) < B ^ n"
    "j = k \<Longrightarrow> val (drop (j - 1) u) < val (drop s v) * B ^ b"
    using inv unfolding st wide_inv_def n(1,3,4) by (auto simp: Let_def)
  let ?i = "j - b"
  let ?uu = "drop ?i u"
  have nb: "b + b \<le> n" "s + 1 = b" "0 < b" "?i + b = j" using n j by linarith+
  have luu: "length ?uu = n + m - ?i" "n + b \<le> length ?uu" "n \<le> length ?uu" "?i \<le> length u" using I(2,4) nb by auto
  have "val ?uu = val (take b ?uu) + B ^ b * val (drop j u)" using val_split [of b ?uu] luu nb by (simp add: add.commute)
  moreover have "val (take b ?uu) < B ^ b" using val_lt [of "take b ?uu"] luu(2) by simp
  moreover have "B ^ b * (val (drop j u) + 1) \<le> B ^ b * B ^ n" using I(7) by (intro mult_le_mono2) simp
  ultimately have Uu: "val ?uu < B ^ (n + b)" by (simp add: power_add distrib_left mult.commute)
  let ?u1 = "take (b + n - s) (drop s ?uu)"
  have u1: "val ?u1 = val (drop s ?uu)" "s + length ?u1 \<le> length ?uu"
  proof -
    have e: "val ?uu = val (take (b + n) ?uu) + B ^ (b + n) * val (drop (b + n) ?uu)" using luu(2) by (intro val_split) simp
    then have "B ^ (b + n) * val (drop (b + n) ?uu) < B ^ (b + n) * 1" using Uu by (simp only: mult_1_right add.commute [of b n])
    then have "val (drop (b + n) ?uu) = 0" unfolding mult_less_cancel1 by simp
    moreover have "val (drop s ?uu) = val ?u1 + B ^ (b + n - s) * val (drop (b + n) ?uu)"
      using val_split [of "b + n - s" "drop s ?uu"] luu(2) nb by (simp add: add.commute)
    ultimately show "val ?u1 = val (drop s ?uu)" by simp
    show "s + length ?u1 \<le> length ?uu" using luu(2) nb by simp
  qed
  have sl: "vfrom u ?i = Inr ?uu" "vslice ?uu s (b + n) = Inr ?u1" using luu nb by (simp_all add: vfrom_def vslice_def)
  obtain w u1' temps' p1 qhat uu' p2 where S:
    "divRecursiveStep p (words qhat0) ?u1 (drop s v) (depth + 1) tmp temps = Inr (w, u1', temps', p1)"
    "divRecursive_digit p1 tmp n s v (nat_norm (sl_put qhat0 0 w)) (patch ?uu s u1') = Inr (qhat, uu', p2)"
    "length temps' = l" "wf qhat" "\<forall>k. val (drop s ?uu) < val (drop s v) * B ^ k \<longrightarrow> count qhat \<le> k"
    "val (words qhat) = val ?uu div val v" "length uu' = length ?uu" "val uu' = val ?uu mod val v"
    using section_step [OF n nz luu(3) Uu u1 qhat0 IH temps [folded I(3)], of p tmp] I(3) by blast
  let ?q = "val ?uu div val v"
  have v: "v \<noteq> []" "normal v" using n nz by (auto simp: normal_def)
  have Vpos: "0 < val v" using U by (cases "val v") auto
  have small: "val (drop s ?uu) < val (drop s v) * B ^ (b + 1)"
  proof -
    have "s < length v" using n nb by linarith
    then have d: "drop s v \<noteq> []" "B \<le> 2 * unat (last (drop s v))" using nz by simp_all
    have "B ^ s * val (drop s ?uu) \<le> val ?uu" using val_split [of s ?uu] luu(2) nb by simp
    also have "\<dots> < B ^ s * (B ^ b * B ^ (n - s))"
    proof -
      have "s + (b + (n - s)) = n + b" using nb by linarith
      then show ?thesis using Uu by (simp only: power_add [symmetric])
    qed
    finally have "val (drop s ?uu) < B ^ b * B ^ (n - s)" unfolding mult_less_cancel1 by simp
    also have "\<dots> \<le> B ^ b * (2 * val (drop s v))" using normalized_half [OF d(2,1)] n(1) by (intro mult_le_mono2) simp
    also have "\<dots> \<le> B ^ b * (B * val (drop s v))" by (intro mult_le_mono2 mult_le_mono1) (simp add: B_def)
    finally show ?thesis by (simp add: ac_simps)
  qed
  have fits: "?i + length (words qhat) \<le> length z"
  proof (cases "j = k")
    case True
    have "s + ?i = j - 1" using nb j by linarith
    then have "drop s ?uu = drop (j - 1) u" by (simp only: drop_drop)
    then have "count qhat \<le> b" using S(5) I(8) [OF True] by simp
    then show ?thesis using S(4) I(1) True nb by simp
  next
    case False
    moreover have "count qhat \<le> b + 1" using S(5) small by blast
    ultimately show ?thesis unfolding length_words [OF S(4)] I(1) using I(4,5) nb by linarith
  qed
  have mono: "B ^ ?i * (?q * val v) \<le> B ^ ?i * val ?uu" by (intro mult_le_mono2) simp
  have u: "val u = val (take ?i u) + B ^ ?i * val ?uu" using luu(4) by (rule val_split)
  have "(val z + B ^ ?i * ?q) * val v \<le> U" using mono u I(6) unfolding distrib_right mult.assoc by linarith
  also have "U < B ^ k * val v" using U by (simp only: mult.commute [of "val v"])
  finally have "val z + B ^ ?i * ?q < B ^ k" by (rule mult_less_cancel2 [THEN iffD1, THEN conjunct2])
  then have "val z + B ^ ?i * val (words qhat) < B ^ length z" using S(6) I(1) by simp
  from addAt_fits [OF fits this] obtain z' where z': "addAt z (words qhat) ?i = Inr z'" "length z' = k" "val z' = val z + B ^ ?i * ?q"
    using I(1) S(6) by auto
  let ?u = "patch u ?i uu'"
  have pu: "?u = take ?i u @ uu'" using luu(1,4) S(7) I(2) by (simp add: patch_def)
  have "val z' * val v + val ?u = U"
  proof -
    have "B ^ ?i * (?q * val v + val uu') = B ^ ?i * val ?uu" unfolding S(8) by simp
    then show ?thesis using u I(6) luu(4) unfolding pu z'(3) by (simp add: val_append algebra_simps)
  qed
  moreover have "val (drop ?i ?u) < B ^ n"
    using S(8) Vpos val_lt [of v] mod_less_divisor [OF Vpos, of "val ?uu"] luu(4) n(1) unfolding pu by simp
  moreover have "length ?u = n + m" using pu luu(1,4) S(7) I(2) by simp
  moreover have "?i \<le> m" "?i \<noteq> k" using I(4,5) nb j by linarith+
  ultimately have "wide_inv v U k m l ?i (z', ?u, temps', p2)"
    using z'(2) S(3) I(5) unfolding wide_inv_def n(1,3,4) by (auto simp: Let_def)
  then show ?thesis unfolding st using sl S(1,2) z'(1) by (simp add: Let_def)
qed

lemma patch_norm:
  assumes "length r = length (norm u)"
  shows "length (patch u 0 r) = length u" "val (patch u 0 r) = val r"
proof -
  let ?k = "length (norm u)"
  have "norm u = take ?k u" by (metis norm_def length_take take_take min.idem append_take_drop_id append_eq_conv_conj)
  then have "val u = val (norm u) + B ^ ?k * val (drop ?k u)" using val_split [OF length_norm_le, of u] by simp
  then have "val (drop ?k u) = 0" by simp
  then show "length (patch u 0 r) = length u" "val (patch u 0 r) = val r"
    using assms length_norm_le [of u] by (simp_all add: patch_def val_append)
qed

text \<open>The first wide digit does not need more room than the quotient has.\<close>

lemma start_inv:
  assumes n: "n = length v" "100 \<le> n" and nz: "B \<le> 2 * unat (last v)" and room: "quotient_room k u v"
    and m: "length (norm u) = n + m"
  shows "m = k \<Longrightarrow> val (drop (m - 1) (norm u)) < val (drop (n div 2 - 1) v) * B ^ (n div 2)"
proof -
  assume k: "m = k"
  let ?s = "n div 2 - 1" and ?b = "n div 2" and ?d = "drop (m - 1) (norm u)"
  have lt: "last (norm u) < last v" using room k m n(1) by (auto simp: quotient_room_def)
  have "m - 1 < length (norm u)" "?s < length v" using m n by linarith+
  then have d: "?d \<noteq> []" "last ?d = last (norm u)" "drop ?s v \<noteq> []" "last (drop ?s v) = last v" by simp_all
  have l: "length ?d - 1 \<le> n" "length (drop ?s v) - 1 + ?b = n" using m n by auto
  have "val ?d < (unat (last (norm u)) + 1) * B ^ (length ?d - 1)" using val_top(2) [OF d(1)] d(2) by simp
  also have "\<dots> \<le> unat (last v) * B ^ n"
    using lt l(1) by (intro mult_le_mono power_increasing) (simp_all add: word_less_nat_alt Suc_leI)
  also have "\<dots> = unat (last v) * B ^ (length (drop ?s v) - 1) * B ^ ?b" unfolding mult.assoc power_add [symmetric] l(2) ..
  also have "\<dots> \<le> val (drop ?s v) * B ^ ?b" using val_top(1) [OF d(3)] d(4) by (intro mult_le_mono1) simp
  finally show ?thesis .
qed

text \<open>All digits, given that the recursive calls are right.\<close>

lemma step_long:
  assumes n: "n = length v" "100 \<le> n" and nz: "B \<le> 2 * unat (last v)" and IH: "step_ok (drop (n div 2 - 1) v)"
    and z: "val z = 0" and temps: "depth + rec_levels n \<le> length temps" and room: "quotient_room (length z) u0 v"
  shows "\<exists>z' u' temps' p'. divRecursiveStep p z u0 v depth tmp temps = Inr (z', u', temps', p') \<and>
    length z' = length z \<and> length u' = length u0 \<and> length temps' = length temps \<and> val z' = val u0 div val v \<and> val u' = val u0 mod val v"
proof -
  let ?u = "norm u0" and ?V = "val v"
  define b s where "b = n div 2" and "s = b - 1"
  have v: "v \<noteq> []" "normal v" "norm v = v" using n nz by (auto simp: normal_def intro!: norm_normal)
  have U: "val u0 < ?V * B ^ length z" using quotient_room_lt [OF v(1) nz room] .
  have Vpos: "0 < ?V" using U by (cases ?V) auto
  have thr: "\<not> n < divRecursiveThreshold" using n by (simp add: divRecursiveThreshold_def)
  show ?thesis
  proof (cases "length ?u < n")
    case True
    then have "val u0 < ?V" using val_less_length [OF v(2), of ?u] n(1) by simp
    moreover have "divRecursiveStep p z u0 v depth tmp temps = (if length ?u = 0 then Inr (clear z, u0, temps, p) else Inr (z, u0, temps, p))"
      by (subst (1) divRecursiveStep.simps) (simp only: Let_def v(3) n(1) [symmetric] thr True if_False if_True)
    ultimately show ?thesis using z by (auto simp: clear_def)
  next
    case False
    define m where "m = length ?u - n"
    have m: "length ?u = n + m" "length ?u \<noteq> 0" using False n unfolding m_def by linarith+
    have lev: "rec_levels n = 1 + rec_levels (n - (n div 2 - 1))" using n by (subst rec_levels.simps) simp
    then have d: "depth < length temps" using temps by simp
    obtain t p1 where t: "(case temps ! depth of None \<Rightarrow> getNat p n | Some t \<Rightarrow> Inr (nat_make t (b + 1), p)) = Inr (t, p1)"
      "wf t" "b + 1 \<le> count t"
    proof (cases "temps ! depth")
      case None
      then show ?thesis using getNat_ok [of p n] that n by (auto simp: b_def)
    next
      case (Some t)
      then show ?thesis using that [of "nat_make t (b + 1)" p] by simp
    qed
    let ?temps = "temps[depth := Some t]" and ?qhat0 = "sl_put t 0 (clear (words t))"
    have q0: "wf ?qhat0" "b + 1 \<le> count ?qhat0" "val (words ?qhat0) = 0"
      using put_words [OF t(2), of "clear (words t)"] t(2,3) by (simp_all add: clear_def)
    let ?f = "\<lambda>j (z, u, temps, p).
      go_bind (vfrom u (j - b)) (\<lambda>uu. go_bind (vslice uu s (b + n)) (\<lambda>u1.
      go_bind (divRecursiveStep p (words ?qhat0) u1 (drop s v) (depth + 1) tmp temps) (\<lambda>(w, u1, temps, p).
      let qhat = nat_norm (sl_put ?qhat0 0 w) in
      go_bind (divRecursive_digit p tmp n s v qhat (patch uu s u1)) (\<lambda>(qhat, uu, p).
      go_bind (addAt z (words qhat) (j - b)) (\<lambda>z. Inr (z, patch u (j - b) uu, temps, p))))))"
    have run: "divRecursiveStep p z u0 v depth tmp temps =
      go_bind (go_fold ?f (down_steps b m) (z, ?u, ?temps, p1)) (\<lambda>(z, u, temps, p).
         go_bind (vfrom u s) (\<lambda>u1.
         go_bind (divRecursiveStep p (words ?qhat0) (norm u1) (drop s v) (depth + 1) tmp temps) (\<lambda>(w, u1, temps, p).
         let qhat = nat_norm (sl_put ?qhat0 0 w) in
         go_bind (divRecursive_last p tmp n s v qhat (patch u s u1)) (\<lambda>(qhat, u, p).
         go_bind (addAt z (norm (words qhat)) 0) (\<lambda>z. Inr (z, patch u0 0 u, temps, p))))))"
    proof -
      have g: "vget temps depth = Inr (temps ! depth)" "vfrom v s = Inr (drop s v)"
        using d n by (simp_all add: vfrom_def b_def s_def)
      show ?thesis
        by (subst (1) divRecursiveStep.simps)
          (simp only: Let_def v(3) n(1) [symmetric] m(2) False thr if_False g go_bind_Inr b_def [symmetric] s_def [symmetric] m_def [symmetric] t(1) prod.case)
    qed
    have temps': "depth + rec_levels n \<le> length ?temps" using temps by simp
    have mk: "m \<le> length z" using room m(1) n(1) unfolding quotient_room_def by linarith
    have "wide_inv v (val u0) (length z) m (length temps) m (z, ?u, ?temps, p1)"
      using start_inv [OF n nz room m(1)] z m(1) mk n(1) val_lt [of "drop m ?u"] unfolding wide_inv_def by (simp add: Let_def)
    moreover have "0 < b" using n by (simp add: b_def)
    ultimately obtain st j where st: "go_fold ?f (down_steps b m) (z, ?u, ?temps, p1) = Inr st" "j \<le> b"
      "wide_inv v (val u0) (length z) m (length temps) j st"
      using go_fold_down [of b "wide_inv v (val u0) (length z) m (length temps)" m "(z, ?u, ?temps, p1)" ?f]
        wide_step [OF n b_def s_def nz q0 IH [folded b_def, folded s_def] temps [unfolded length_list_update] U]
      by blast
    obtain z1 u1 temps1 p2 where e: "st = (z1, u1, temps1, p2)" by (cases st)
    have I: "length z1 = length z" "length u1 = length ?u" "length temps1 = length temps" "val z1 * ?V + val u1 = val u0" "val (drop j u1) < B ^ n" "j \<le> m"
      using st(3) m(1) n(1) unfolding e wide_inv_def by (auto simp: Let_def)
    have "val u1 = val (take j u1) + B ^ j * val (drop j u1)" using I(2,6) m(1) by (intro val_split) simp
    moreover have "val (take j u1) < B ^ j" using val_lt [of "take j u1"] I(2,6) m(1) by simp
    moreover have "B ^ j * (val (drop j u1) + 1) \<le> B ^ j * B ^ n" using I(5) by (intro mult_le_mono2) simp
    moreover have "B ^ j * B ^ n \<le> B ^ (n + b)" using st(2) unfolding power_add [symmetric] by (intro power_increasing) (simp_all add: Suc_leI)
    ultimately have Uu: "val u1 < B ^ (n + b)" by (simp add: distrib_left)
    have su: "s \<le> length u1" "n \<le> length u1" using I(2) m(1) n by (simp_all add: s_def b_def)
    have pr: "val (norm (drop s u1)) = val (drop s u1)" "s + length (norm (drop s u1)) \<le> length u1"
      using length_norm_le [of "drop s u1"] su by simp_all
    obtain w u1' temps2 p3 qhat u2 p4 where S:
      "divRecursiveStep p2 (words ?qhat0) (norm (drop s u1)) (drop s v) (depth + 1) tmp temps1 = Inr (w, u1', temps2, p3)"
      "divRecursive_last p3 tmp n s v (nat_norm (sl_put ?qhat0 0 w)) (patch u1 s u1') = Inr (qhat, u2, p4)"
      "length temps2 = length temps1" "val (words qhat) = val u1 div ?V" "length u2 = length u1" "val u2 = val u1 mod ?V"
      using section_step [OF n b_def s_def nz su(2) Uu pr q0 IH [folded b_def, folded s_def] temps [folded I(3)], of p2 tmp] by blast
    have "(val z1 + val u1 div ?V) * ?V \<le> val u0" using I(4) unfolding distrib_right by (metis add_le_cancel_left div_times_less_eq_dividend)
    also have "\<dots> < B ^ length z * ?V" using U by (simp only: mult.commute [of ?V])
    finally have "val z1 + val u1 div ?V < B ^ length z" by (rule mult_less_cancel2 [THEN iffD1, THEN conjunct2])
    then have "val z1 + B ^ 0 * val (norm (words qhat)) < B ^ length z1" using S(4) I(1) by simp
    from addAt_ok [OF normal_norm this] obtain z2 where z2: "addAt z1 (norm (words qhat)) 0 = Inr z2" "length z2 = length z"
      "val z2 = val z1 + val u1 div ?V" using S(4) I(1) by auto
    have "divRecursiveStep p z u0 v depth tmp temps = Inr (z2, patch u0 0 u2, temps2, p4)"
      unfolding run st(1) e unfolding go_bind_Inr prod.case vfrom_ok [OF su(1)] S(1) Let_def S(2) z2(1) ..
    moreover have "val u0 div ?V = val z2" "val u0 mod ?V = val u2"
      unfolding I(4) [symmetric] S(6) z2(3) using Vpos by simp_all
    ultimately show ?thesis using z2(2) S(3,5) I(2,3) patch_norm [of u2 u0] by simp
  qed
qed

lemma step_total:
  assumes "2 \<le> length v" and "B \<le> 2 * unat (last v)"
  shows "step_ok v"
  using assms
proof (induction "length v" arbitrary: v rule: less_induct)
  case less
  let ?n = "length v"
  have v: "v \<noteq> []" "norm v = v" using less.prems by (auto simp: normal_def intro!: norm_normal)
  show ?case
    unfolding step_ok_def
  proof (intro allI impI, elim conjE)
    fix p :: pool and z u depth tmp and temps :: "nat_slice option list"
    assume z: "val z = 0" and temps: "depth + rec_levels ?n \<le> length temps" and room: "quotient_room (length z) u v"
    show "\<exists>z' u' temps' p'. divRecursiveStep p z u v depth tmp temps = Inr (z', u', temps', p') \<and>
        length z' = length z \<and> length u' = length u \<and> length temps' = length temps \<and> val z' = val u div val v \<and> val u' = val u mod val v"
    proof (cases "100 \<le> ?n")
      case True
      let ?v = "drop (?n div 2 - 1) v"
      have "length ?v < ?n" "2 \<le> length ?v" using True by auto
      moreover have "B \<le> 2 * unat (last ?v)" using less.prems(2) True by simp
      ultimately have "step_ok ?v" by (rule less.hyps)
      from step_long [OF refl True less.prems(2) this z temps room] show ?thesis .
    next
      case False
      have thr: "?n < divRecursiveThreshold" using False by (simp add: divRecursiveThreshold_def)
      show ?thesis
      proof (cases "length (norm u) = 0")
        case True
        then have "val u = 0" using val_norm [of u] by simp
        moreover have "divRecursiveStep p z u v depth tmp temps = Inr (clear z, u, temps, p)"
          by (subst divRecursiveStep.simps) (simp only: Let_def True if_True simp_thms)
        ultimately show ?thesis by (simp add: clear_def)
      next
        case False
        have q: "length (norm u) \<le> ?n + length z" using room by (auto simp: quotient_room_def)
        have "val u < val v * B ^ length z" by (rule quotient_room_lt [OF v(1) less.prems(2) room])
        then have "val (norm u) div val v < B ^ length z" by (simp add: less_mult_imp_div_less mult.commute)
        from divBasic_ok [OF refl less.prems q this, of p] obtain z' u' p' where d:
          "divBasic p z (norm u) v = Inr (z', u', p')" "length u' = length (norm u)" "length z' = length z" "val u' = val u mod val v"
          "drop (length (norm u) + 1 - ?n) z' = drop (length (norm u) + 1 - ?n) z" "val (take (length (norm u) + 1 - ?n) z') = val u div val v"
          by auto
        let ?k = "length (norm u) + 1 - ?n"
        have "val (drop ?k z) = 0" using val_append [of "take ?k z" "drop ?k z"] z by simp
        then have "val z' = val u div val v" using val_append [of "take ?k z'" "drop ?k z'"] d(5,6) by simp
        moreover have "divRecursiveStep p z u v depth tmp temps = Inr (z', patch u 0 u', temps, p')"
          by (subst divRecursiveStep.simps) (simp only: Let_def v False thr if_True if_False d(1) go_bind_Inr prod.case)
        ultimately show ?thesis using d(2-4) patch_norm [of u' u] by simp
      qed
    qed
  qed
qed

end
