(* ===== verification/Big_Div_Correct.thy ===== *)
theory Big_Div_Correct
  imports Big_Div_Rec
begin

text \<open>
  Division of two numbers, \<open>div\<close> of \<^verbatim>\<open>natdiv.go\<close>: the operands are scaled so that the top bit of the divisor is set, and
  the remainder is scaled back.
\<close>

section \<open>The temporaries of the recursion\<close>

lemma divRecursive_ok:
  assumes v: "2 \<le> length v" "B \<le> 2 * unat (last v)" "length v < B" and room: "quotient_room (length z) u v"
  shows "\<exists>z' u' p'. divRecursive p z u v = Inr (z', u', p') \<and> length z' = length z \<and> length u' = length u \<and>
    val z' = val u div val v \<and> val u' = val u mod val v"
proof -
  have "unat (of_nat (length v) :: u64) = length v" using v(3) by (simp add: unat_of_nat B_def)
  then have "nat (Len (of_nat (length v))) = bitlen (length v)" by (simp add: Len_def UintSize_def Len64_eq)
  then have d: "0 + rec_levels (length v) \<le> length (replicate (2 * nat (Len (of_nat (length v)))) (None :: nat_slice option))"
    using rec_levels_le [of "length v"] by simp
  obtain tmp p1 where t: "getNat p (3 * length v) = Inr (tmp, p1)" using getNat_ok by blast
  have z: "val (clear z) = 0" "length (clear z) = length z" by (simp_all add: clear_def)
  obtain z' u' temps' p' where "divRecursiveStep p1 (clear z) u v 0 tmp (replicate (2 * nat (Len (of_nat (length v)))) None) = Inr (z', u', temps', p')"
    "length z' = length (clear z)" "length u' = length u" "val z' = val u div val v" "val u' = val u mod val v"
    using step_total [OF v(1,2)] z(1) d room [folded z(2)] unfolding step_ok_def by blast
  then show ?thesis using t z(2) by (simp add: divRecursive_def Let_def)
qed

section \<open>Scaling\<close>

lemma scaled_divisor:
  assumes v: "v \<noteq> []" "last v \<noteq> 0" and z: "length z = length v"
  defines "s \<equiv> nlz (last v)"
  shows "s < 64" "\<exists>w. shlVU z v s = Inr (w, 0) \<and> length w = length v \<and> val w = val v * 2 ^ s \<and> B \<le> 2 * unat (last w)"
proof -
  let ?n = "length v" and ?y = "unat (last v)"
  note N = normalized_top [OF v(2), folded s_def]
  show "s < 64" by (rule N)
  have ne: "z \<noteq> []" using v(1) z by auto
  obtain w c where w: "shlVU z v s = Inr (w, c)" "length w = ?n" "val w + B ^ ?n * unat c = val v * 2 ^ s"
    using shlVU_val [OF N(1) _ ne, of v] z by auto
  have b: "B = 2 ^ (64 - s) * 2 ^ s" using N(1) by (simp add: B_def flip: power_add)
  have y: "?y * 2 ^ s < B" using N(2) by (metis unat_lt_B)
  then have "?y < 2 ^ (64 - s)" unfolding b by simp
  then have "(?y + 1) * 2 ^ s \<le> B" unfolding b by (intro mult_le_mono1) simp
  then have "(?y + 1) * 2 ^ s * B ^ (?n - 1) \<le> B * B ^ (?n - 1)" by (rule mult_le_mono1)
  moreover have "B * B ^ (?n - 1) = B ^ ?n" using v(1) by (cases v) simp_all
  moreover have "val v * 2 ^ s < (?y + 1) * B ^ (?n - 1) * 2 ^ s" by (rule mult_less_mono1 [OF val_top(2) [OF v(1)]]) simp
  moreover have "(?y + 1) * B ^ (?n - 1) * 2 ^ s = (?y + 1) * 2 ^ s * B ^ (?n - 1)" by (simp only: ac_simps)
  ultimately have "val v * 2 ^ s < B ^ ?n" by linarith
  then have c: "unat c = 0" using w(3) by (cases "unat c") auto
  have wn: "w \<noteq> []" using w(2) v(1) by auto
  have "?y * 2 ^ s * B ^ (?n - 1) \<le> val w"
    using mult_le_mono1 [OF val_top(1) [OF v(1)], of "2 ^ s"] w(3) c by (simp add: ac_simps)
  also have "\<dots> < (unat (last w) + 1) * B ^ (?n - 1)" using val_top(2) [OF wn] w(2) by simp
  finally have "?y * 2 ^ s < unat (last w) + 1" by (rule mult_less_cancel2 [THEN iffD1, THEN conjunct2])
  then have "B \<le> 2 * unat (last w)" using N(2,3) by simp
  then show "\<exists>w. shlVU z v s = Inr (w, 0) \<and> length w = ?n \<and> val w = val v * 2 ^ s \<and> B \<le> 2 * unat (last w)"
    using w c by (auto simp: unat_eq_zero)
qed

lemma quotient_bound:
  assumes v: "normal v" "v \<noteq> []" and len: "length v \<le> length u"
  shows "val u div val v < B ^ (length u - length v + 1)" "0 < val v"
proof -
  have V: "B ^ (length v - 1) \<le> val v" using v by (rule val_ge)
  then show Vpos: "0 < val v" by (metis B_pos(1) gr0I le_zero_eq power_not_zero)
  have "val u < B ^ length u" by (rule val_lt)
  also have "\<dots> = B ^ (length u - length v + 1) * B ^ (length v - 1)" 
  proof -
    have "length u = (length u - length v + 1) + (length v - 1)" using len v(2) by (cases v) auto
    then show ?thesis by (metis power_add)
  qed
  also have "\<dots> \<le> B ^ (length u - length v + 1) * val v" using V by (rule mult_le_mono2)
  finally show "val u div val v < B ^ (length u - length v + 1)" using Vpos by (simp add: div_less_iff_less_mult)
qed

text \<open>The quotient of the scaled operands has room.\<close>

lemma scaled_room:
  assumes v: "B \<le> 2 * unat (last v)" "v \<noteq> []" and u: "length u = length v + k" "val u < B ^ (length v + k - 1) * 2 ^ s" and s: "s < 64"
  shows "quotient_room k u v"
proof (cases "length (norm u) = length u")
  case True
  let ?w = "norm u"
  have "?w \<noteq> []" using True u(1) v(2) by auto
  then have "unat (last ?w) * B ^ (length v + k - 1) \<le> val u" using val_top(1) [of ?w] True u(1) by simp
  also have "\<dots> < 2 ^ s * B ^ (length v + k - 1)" using u(2) by (simp only: mult.commute)
  finally have "unat (last ?w) < 2 ^ s" by (rule mult_less_cancel2 [THEN iffD1, THEN conjunct2])
  moreover have "(2 :: nat) * 2 ^ s \<le> B" using power_increasing [of "Suc s" 64 "2 :: nat"] s by (simp add: B_def)
  ultimately have "unat (last ?w) < unat (last v)" using v(1) by linarith
  then show ?thesis using True u(1) by (simp add: quotient_room_def word_less_nat_alt)
next
  case False
  then show ?thesis using length_norm_le [of u] u(1) by (simp add: quotient_room_def)
qed

section \<open>Long division\<close>

lemma divLarge_ok:
  assumes v: "normal vIn" "2 \<le> length vIn" "length vIn < B" and u: "length vIn \<le> length uIn"
  shows "\<exists>q r p'. divLarge al p z z2 uIn vIn = Inr (q, r, p') \<and> nat_is q (val uIn div val vIn) \<and> nat_is r (val uIn mod val vIn)"
proof -
  let ?n = "length vIn"
  define m s where "m = length uIn - ?n" and "s = nlz (last vIn)"
  have ne: "vIn \<noteq> []" "last vIn \<noteq> 0" using v by (auto simp: normal_def)
  obtain t p1 where t: "getNat p ?n = Inr (t, p1)" "wf t" "count t = ?n" using getNat_ok by blast
  have "length (words t) = ?n" using t by simp
  note S = scaled_divisor [OF ne this, folded s_def]
  obtain w where w: "shlVU (words t) vIn s = Inr (w, 0)" "length w = ?n" "val w = val vIn * 2 ^ s" "B \<le> 2 * unat (last w)"
    using S(2) by blast
  have wn: "w \<noteq> []" "2 \<le> length w" using w(2) v(2) by auto
  let ?u = "nat_make z2 (length uIn + 1)"
  have l0: "take (length uIn) (words ?u) \<noteq> []" "length uIn = length (take (length uIn) (words ?u))"
  proof -
    show l: "length uIn = length (take (length uIn) (words ?u))" by simp
    have "0 < length uIn" using u v(2) by linarith
    then show "take (length uIn) (words ?u) \<noteq> []" using l by (metis length_greater_0_conv)
  qed
  obtain x c where x: "shlVU (take (length uIn) (words ?u)) uIn s = Inr (x, c)" "length x = length uIn"
    "val x + B ^ length uIn * unat c = val uIn * 2 ^ s"
    using shlVU_val [OF S(1) l0(2,1)] by auto
  obtain u1 where u1: "on_vec ?u 0 (length uIn) (\<lambda>s'. shlVU s' uIn s) = Inr (u1, c)" "wf u1" "count u1 = length uIn + 1"
    "words u1 = patch (words ?u) 0 x"
    using on_vec_ok [of ?u 0 "length uIn" "\<lambda>s'. shlVU s' uIn s" x c] x by auto
  obtain u2 where u2: "sl_set u1 (length uIn) c = Inr u2" "wf u2" "count u2 = length uIn + 1" "words u2 = (words u1)[length uIn := c]"
    using set_ok [OF u1(2), of "length uIn" c] u1(3) by auto
  have wu: "words u2 = x @ [c]"
  proof -
    have "length (words ?u) = length uIn + 1" by simp
    then show ?thesis using u2(4) u1(4) x(2) by (simp add: patch_def upd_conv_take_nth_drop)
  qed
  have vu: "val (words u2) = val uIn * 2 ^ s" "length (words u2) = length uIn + 1" using wu x by (simp_all add: val_append)
  let ?q = "nat_make (if al then nat_nil else z) (m + 1)"
  have len: "length (words u2) = length w + length (words ?q)" using vu(2) w(2) u by (simp add: m_def)
  have quo: "val (words u2) div val w = val uIn div val vIn" "val (words u2) mod val w = val uIn mod val vIn * 2 ^ s"
    unfolding vu(1) w(3) by simp_all
  have Q: "val uIn div val vIn < B ^ (m + 1)" "0 < val vIn" using quotient_bound [OF v(1) ne(1) u] by (simp_all add: m_def)
  obtain qw uw p2 where d: "(if ?n < divRecursiveThreshold then divBasic p1 (words ?q) (words u2) w else divRecursive p1 (words ?q) (words u2) w) = Inr (qw, uw, p2)"
    "length qw = m + 1" "length uw = length uIn + 1" "val qw = val uIn div val vIn" "val uw = val uIn mod val vIn * 2 ^ s"
  proof (cases "?n < divRecursiveThreshold")
    case True
    obtain q' u' p' where "divBasic p1 (words ?q) (words u2) w = Inr (q', u', p')" "length u' = length (words u2)"
      "length q' = length (words ?q)" "val u' = val (words u2) mod val w"
      "val (take (length (words u2) + 1 - length w) q') = val (words u2) div val w"
      using divBasic_ok [OF refl wn(2) w(4), of "words u2" "words ?q" p1] len quo Q(1) by auto
    then show ?thesis using that [of q' u' p'] True len vu(2) quo by simp
  next
    case False
    have "length uIn = length w + length (words ?q) - 1" using len vu(2) by simp
    then have "val (words u2) < B ^ (length w + length (words ?q) - 1) * 2 ^ s" using val_lt [of uIn] unfolding vu(1) by simp
    from scaled_room [OF w(4) wn(1) len this S(1)]
    obtain z' u' p' where "divRecursive p1 (words ?q) (words u2) w = Inr (z', u', p')" "length z' = length (words ?q)"
      "length u' = length (words u2)" "val z' = val (words u2) div val w" "val u' = val (words u2) mod val w"
      using divRecursive_ok [OF wn(2) w(4) _, of "words ?q" "words u2" p1] v(3) w(2) by auto
    then show ?thesis using that [of z' u' p'] False vu(2) quo by simp
  qed
  let ?q' = "nat_norm (sl_put ?q 0 qw)" and ?u2 = "sl_put u2 0 uw"
  have q': "nat_is ?q' (val uIn div val vIn)" using norm_ok [of "sl_put ?q 0 qw"] put_words [of ?q qw] d(2,4) by simp
  have pu: "wf ?u2" "count ?u2 = length uIn + 1" "words ?u2 = uw" using put_words [OF u2(2), of uw] u2(3) d(3) by simp_all
  have "uw \<noteq> []" using d(3) by auto
  then obtain y c' where y: "shrVU uw uw s = Inr (y, c')" "length y = length uw" "val y = val uIn mod val vIn"
    using shrVU_val [OF S(1) refl, of uw] d(5) by auto
  let ?r = "nat_norm (sl_put ?u2 0 y)"
  have r: "nat_is ?r (val uIn mod val vIn)" using norm_ok [of "sl_put ?u2 0 y"] put_words [OF pu(1), of y] pu(2) y(2,3) d(3) by simp
  have top: "vget_sub vIn ?n 1 = Inr (last vIn)" using v(2) ne(1) by (simp add: vget_sub_def last_conv_nth)
  have "divLarge al p z z2 uIn vIn = Inr (?q', ?r, p2)"
    unfolding divLarge_def Let_def top go_bind_Inr t(1) prod.case s_def [symmetric] w(1) u1(1) u2(1) m_def [symmetric] d(1) pu(3) y(1) ..
  then show ?thesis using q' r by blast
qed

lemma nat_div_ok:
  assumes "normal u" and "normal v" and "length v < B"
  shows "if v = [] then nat_div al p z z2 u v = Inl (PanicMsg ''division by zero'')
    else \<exists>q r p'. nat_div al p z z2 u v = Inr (q, r, p') \<and> nat_is q (val u div val v) \<and> nat_is r (val u mod val v)"
proof -
  consider "v = []" | "v \<noteq> []" "val u < val v" | "v \<noteq> []" "\<not> val u < val v" "length v = 1" | "2 \<le> length v" "\<not> val u < val v"
    by (cases v; cases "tl v") auto
  then show ?thesis
  proof cases
    case 1
    then show ?thesis by (simp add: nat_div_def)
  next
    case 2
    then have "nat_cmp u v < 0" using nat_cmp_ok [OF assms(1,2)] by simp
    then show ?thesis using 2 upto_0 [of z] set_nat_ok [OF assms(1), of z2] by (auto simp: nat_div_def)
  next
    case 3
    then obtain d where d: "v = [d]" by (metis One_nat_def length_0_conv length_Suc_conv)
    then have "d \<noteq> 0" using assms(2) by (simp add: normal_def)
    then obtain q r where q: "nat_divW z u d = Inr (q, r)" "nat_is q (val u div unat d)" "unat r = val u mod unat d"
      using nat_divW_ok [OF assms(1)] by blast
    have "\<not> nat_cmp u v < 0" using nat_cmp_ok [OF assms(1,2)] 3 by simp
    then show ?thesis using d q setWord_ok [of z2 r] by (auto simp: nat_div_def)
  next
    case 4
    have "\<not> nat_cmp u v < 0" using nat_cmp_ok [OF assms(1,2)] 4 by simp
    moreover have "length v \<le> length u" using val_less_length [OF assms(2), of u] 4(2) by linarith
    ultimately show ?thesis using divLarge_ok [OF assms(2) 4(1) assms(3), of u al p z z2] 4(1) by (auto simp: nat_div_def)
  qed
qed

end
