(* ===== verification/Big_Correct.thy ===== *)
theory Big_Correct
  imports Big_Mul Big_Div_Correct
begin

text \<open>
  What the natural numbers of \<^verbatim>\<open>math/big\<close> compute, for slices \<open>z\<close> with any array and any earlier contents: \<open>val\<close> is the
  number that a list of words stands for, \<open>nat_is z v\<close> says that \<open>z\<close> is a well-formed slice, holds \<open>v\<close> and has no
  leading zero words.
\<close>

lemma nat_is_words: "nat_is z (val xs) \<Longrightarrow> normal xs \<Longrightarrow> words z = xs"
  using normal_unique by (auto simp: nat_is_def)

lemma nat_rem_ok:
  assumes "normal u" and "normal v" and "length v < B"
  shows "if v = [] then nat_rem al alq p z u v = Inl (PanicMsg ''division by zero'')
    else \<exists>r p'. nat_rem al alq p z u v = Inr (r, p') \<and> nat_is r (val u mod val v)"
proof -
  obtain t p' where t: "getNat p 0 = Inr (t, p')" using getNat_ok by blast
  show ?thesis using nat_div_ok [OF assms, of alq p' t "if al then nat_nil else z"] t by (auto simp: nat_rem_def)
qed

text \<open>C37. Sums and differences of natural numbers are exact, whatever slice they are written to, the difference panics
  with underflow exactly when it would be negative, subtracting a summand from a sum gives back the very words of
  the other, and \<open>cmp\<close> compares the values.\<close>

theorem nat_sum_difference:
  assumes "normal x" and "normal y"
  shows "(\<exists>z'. nat_add z x y = Inr z' \<and> nat_is z' (val x + val y) \<and> (\<exists>w'. nat_sub w (words z') y = Inr w' \<and> words w' = x)) \<and>
    (if val y \<le> val x then \<exists>z'. nat_sub z x y = Inr z' \<and> nat_is z' (val x - val y)
     else nat_sub z x y = Inl (PanicMsg ''underflow'')) \<and>
    nat_cmp x y = (if val x < val y then -1 else if val y < val x then 1 else 0)"
proof (intro conjI)
  obtain z' where z': "nat_add z x y = Inr z'" "nat_is z' (val x + val y)" using nat_add_ok [OF assms] by blast
  then have "normal (words z')" "val (words z') = val x + val y" by (simp_all add: nat_is_def)
  with nat_sub_ok [OF this(1) assms(2), of w] obtain w' where "nat_sub w (words z') y = Inr w'" "nat_is w' (val x)" by auto
  then show "\<exists>z'. nat_add z x y = Inr z' \<and> nat_is z' (val x + val y) \<and> (\<exists>w'. nat_sub w (words z') y = Inr w' \<and> words w' = x)"
    using z' nat_is_words [OF _ assms(1)] by blast
qed (rule nat_sub_ok nat_cmp_ok assms)+

lemma nat_sum_difference_witness:
  "\<exists>z'. nat_add nat_nil [0xFFFFFFFFFFFFFFFF, 3] [1] = Inr z' \<and> words z' = [0, 4]"
proof -
  have n: "normal [0xFFFFFFFFFFFFFFFF, 3 :: u64]" "normal [1 :: u64]" by (simp_all add: normal_def)
  from nat_sum_difference [OF this, of nat_nil nat_nil] obtain z' where
    z': "nat_add nat_nil [0xFFFFFFFFFFFFFFFF, 3] [1] = Inr z'" "nat_is z' (val [0xFFFFFFFFFFFFFFFF, 3] + val [1])" by blast
  have "val [0xFFFFFFFFFFFFFFFF, 3] + val [1] = val [0, 4 :: u64]" by (simp add: B_def)
  then have "nat_is z' (val [0, 4])" using z'(2) by (simp only:)
  moreover have "normal [0, 4 :: u64]" by (simp add: normal_def)
  ultimately show ?thesis using z'(1) nat_is_words by blast
qed

text \<open>C38. The product of two natural numbers is exact, whether it takes one word, the schoolbook method or Karatsuba's
  recursion with the left-over parts added in, whatever the target slice and the temporaries of the pool hold and
  whether or not the target shares its array with an operand.\<close>

theorem nat_product: "\<exists>z' p'. nat_mul al p z x y = Inr (z', p') \<and> nat_is z' (val x * val y)"
  by (rule nat_mul_ok)

text \<open>C39. Division of natural numbers panics exactly for a zero divisor, and otherwise gives the exact quotient and
  remainder, whether it takes one word, Knuth's algorithm or the recursive division; the recursion of the latter
  ends and its temporaries suffice.\<close>

theorem nat_division:
  assumes "normal u" and "normal v" and "length v < 2 ^ 64"
  shows "if v = [] then nat_div al p z z2 u v = Inl (PanicMsg ''division by zero'')
    else \<exists>q r p'. nat_div al p z z2 u v = Inr (q, r, p') \<and> nat_is q (val u div val v) \<and> nat_is r (val u mod val v)"
  by (rule nat_div_ok) (simp_all only: assms B_def)

lemma nat_division_witness:
  "\<exists>q r p'. nat_div False [] nat_nil nat_nil [5, 0, 7] [2, 1] = Inr (q, r, p') \<and> nat_is r (val [5, 0, 7] mod val [2, 1])"
proof -
  have "normal [5, 0, 7 :: u64]" "normal [2, 1 :: u64]" "length [2, 1 :: u64] < 2 ^ 64" by (simp_all add: normal_def)
  from nat_division [OF this, of False "[]" nat_nil nat_nil] show ?thesis by auto
qed

end
