(* ===== verification/Big_Bits.thy ===== *)
theory Big_Bits
  imports Big_Nat
begin

text \<open>
  Package \<^verbatim>\<open>math/big\<close>: lengths in bits, shifts, single bits, the bitwise operations and the conversion from and to
  bytes of \<^verbatim>\<open>nat.go\<close>.  A shift count or a bit index is a \<open>uint\<close>.
\<close>

section \<open>Bits\<close>

definition nat_bitLen :: "u64 list \<Rightarrow> int" where
  "nat_bitLen x =
    (let i = int (length x) - 1 in
     if i \<ge> 0
     then
       let top = x ! nat i;
           top = top OR drop_bit 1 top; top = top OR drop_bit 2 top; top = top OR drop_bit 4 top;
           top = top OR drop_bit 8 top; top = top OR drop_bit 16 top; top = top OR drop_bit 16 (drop_bit 16 top)
       in i * int W + Len top
     else 0)"

text \<open>\<open>for x[i] == 0 { i++ }\<close>: an index out of range when every word is zero.\<close>

function skip_zeros :: "u64 list \<Rightarrow> nat \<Rightarrow> nat go" where
  "skip_zeros x i = go_bind (vget x i) (\<lambda>w. if w = 0 then skip_zeros x (i + 1) else Inr i)"
  by pat_completeness auto
termination by (relation "measure (\<lambda>(x, i). length x - i)") (auto simp: vget_def split: if_splits)

declare skip_zeros.simps [simp del]

definition nat_trailingZeroBits :: "u64 list \<Rightarrow> int go" where
  "nat_trailingZeroBits x =
    (if length x = 0 then Inr 0
     else go_bind (skip_zeros x 0) (\<lambda>i. go_bind (vget x i) (\<lambda>w. Inr (int i * int W + TrailingZeros w))))"

definition nat_bit :: "u64 list \<Rightarrow> nat \<Rightarrow> u64" where
  "nat_bit x i = (let j = i div W in if j \<ge> length x then 0 else drop_bit (i mod W) (x ! j) AND 1)"

definition nat_sticky :: "u64 list \<Rightarrow> nat \<Rightarrow> u64" where
  "nat_sticky x i =
    (let j = i div W in
     if j \<ge> length x then (if length x = 0 then 0 else 1)
     else if list_ex (\<lambda>w. w \<noteq> 0) (take j x) then 1
     else if push_bit (W - i mod W) (x ! j) \<noteq> 0 then 1 else 0)"

definition nat_setBit :: "nat_slice \<Rightarrow> u64 list \<Rightarrow> nat \<Rightarrow> u64 \<Rightarrow> nat_slice go" where
  "nat_setBit z x i b =
    (let j = i div W; m = push_bit (i mod W) 1; n = length x in
     if b = 0
     then
       let z = nat_make z n; z = sl_put z 0 (vcopy (words z) x)
       in if j \<ge> n then Inr z
          else go_bind (vget (words z) j) (\<lambda>w. go_bind (sl_set z j (w AND NOT m)) (\<lambda>z. Inr (nat_norm z)))
     else if b = 1
     then
       go_bind (if j \<ge> n then on_words (nat_make z (j + 1)) (\<lambda>w. on_from w n (\<lambda>s. Inr (clear s))) else Inr (nat_make z n)) (\<lambda>z.
       let z = sl_put z 0 (vcopy (words z) x)
       in go_bind (vget (words z) j) (\<lambda>w. sl_set z j (w OR m)))
     else Inl (PanicMsg ''set bit is not 0 or 1''))"

section \<open>Shifts\<close>

text \<open>\<open>sm\<close>: whether \<open>same(z, x)\<close>; \<open>al\<close>: whether \<open>alias(z, x)\<close>.\<close>

definition nat_shl :: "bool \<Rightarrow> bool \<Rightarrow> nat_slice \<Rightarrow> u64 list \<Rightarrow> nat \<Rightarrow> nat_slice go" where
  "nat_shl sm al z x s =
    (if s = 0 \<and> sm then Inr z
     else if s = 0 \<and> \<not> al then Inr (nat_set z x)
     else
       let m = length x in
       if m = 0 then sl_upto z 0
       else
         let n = m + s div W; z = nat_make z (n + 1)
         in go_bind (on_vec z (n - m) n (\<lambda>w. shlVU w x (s mod W))) (\<lambda>(z, c). go_bind (sl_set z n c) (\<lambda>z.
            go_bind (on_vec z 0 (n - m) (\<lambda>w. Inr (clear w, ()))) (\<lambda>(z, _). Inr (nat_norm z)))))"

definition nat_shr :: "bool \<Rightarrow> bool \<Rightarrow> nat_slice \<Rightarrow> u64 list \<Rightarrow> nat \<Rightarrow> nat_slice go" where
  "nat_shr sm al z x s =
    (if s = 0 \<and> sm then Inr z
     else if s = 0 \<and> \<not> al then Inr (nat_set z x)
     else
       let m = length x; n = int m - int (s div W) in
       if n \<le> 0 then sl_upto z 0
       else
         let n = nat n; z = nat_make z n
         in go_bind (vfrom x (m - n)) (\<lambda>xs. go_bind (on_vec z 0 n (\<lambda>w. shrVU w xs (s mod W))) (\<lambda>(z, _). Inr (nat_norm z))))"

section \<open>Bitwise operations\<close>

text \<open>The loop over the words of both operands; words of \<open>z\<close> beyond it stay.\<close>

fun words_loop :: "(u64 \<Rightarrow> u64 \<Rightarrow> u64) \<Rightarrow> u64 list \<Rightarrow> u64 list \<Rightarrow> u64 list \<Rightarrow> u64 list" where
  "words_loop f (z # zs) (x # xs) (y # ys) = f x y # words_loop f zs xs ys"
| "words_loop f zs _ _ = zs"

definition nat_and :: "nat_slice \<Rightarrow> u64 list \<Rightarrow> u64 list \<Rightarrow> nat_slice go" where
  "nat_and z x y =
    (let m = length x; n = length y; m = (if m > n then n else m); z = nat_make z m
     in go_bind (on_words z (\<lambda>w. Inr (words_loop (AND) w x y))) (\<lambda>z. Inr (nat_norm z)))"

definition nat_andNot :: "nat_slice \<Rightarrow> u64 list \<Rightarrow> u64 list \<Rightarrow> nat_slice go" where
  "nat_andNot z x y =
    (let m = length x; n = length y; n = (if n > m then m else n); z = nat_make z m
     in go_bind (on_words z (\<lambda>w. Inr (words_loop (\<lambda>a b. a AND NOT b) w x y))) (\<lambda>z.
        go_bind (vslice x n m) (\<lambda>xn. go_bind (on_vec z n m (\<lambda>s. Inr (vcopy s xn, ()))) (\<lambda>(z, _). Inr (nat_norm z)))))"

definition nat_or :: "nat_slice \<Rightarrow> u64 list \<Rightarrow> u64 list \<Rightarrow> nat_slice go" where
  "nat_or z x y =
    (let m = length x; n = length y; (n, m, s) = (if m < n then (m, n, y) else (n, m, x)); z = nat_make z m
     in go_bind (on_words z (\<lambda>w. Inr (words_loop (OR) w x y))) (\<lambda>z.
        go_bind (vslice s n m) (\<lambda>sn. go_bind (on_vec z n m (\<lambda>t. Inr (vcopy t sn, ()))) (\<lambda>(z, _). Inr (nat_norm z)))))"

definition nat_xor :: "nat_slice \<Rightarrow> u64 list \<Rightarrow> u64 list \<Rightarrow> nat_slice go" where
  "nat_xor z x y =
    (let m = length x; n = length y; (n, m, s) = (if m < n then (m, n, y) else (n, m, x)); z = nat_make z m
     in go_bind (on_words z (\<lambda>w. Inr (words_loop (XOR) w x y))) (\<lambda>z.
        go_bind (vslice s n m) (\<lambda>sn. go_bind (on_vec z n m (\<lambda>t. Inr (vcopy t sn, ()))) (\<lambda>(z, _). Inr (nat_norm z)))))"

section \<open>Bytes\<close>

text \<open>
  \<open>bytes\<close>: the \<open>j\<close> bytes of a word, from the lowest, are written downwards from \<open>buf[i - 1]\<close>; \<open>i\<close> goes below zero
  while the bytes are zero.
\<close>

primrec bytes_word :: "nat \<Rightarrow> u64 \<Rightarrow> u8 list \<times> int \<Rightarrow> (u8 list \<times> int) go" where
  "bytes_word 0 d s = Inr s"
| "bytes_word (Suc j) d s =
    (case s of (buf, i) \<Rightarrow>
      let i = i - 1 in
      go_bind (if i \<ge> 0 then go_bind (vset buf (nat i) (ucast d)) (\<lambda>buf. Inr (buf, i))
               else if (ucast d :: u8) \<noteq> 0 then Inl (PanicMsg ''math/big: buffer too small to fit value'')
               else Inr (buf, i)) (bytes_word j (drop_bit 8 d)))"

function bytes_skip :: "u8 list \<Rightarrow> nat \<Rightarrow> nat" where
  "bytes_skip buf i = (if i < length buf \<and> buf ! i = 0 then bytes_skip buf (i + 1) else i)"
  by pat_completeness auto
termination by (relation "measure (\<lambda>(buf, i). length buf - i)") auto

declare bytes_skip.simps [simp del]

definition nat_bytes :: "u64 list \<Rightarrow> u8 list \<Rightarrow> (u8 list \<times> nat) go" where
  "nat_bytes z buf =
    go_bind (go_fold (\<lambda>d. bytes_word (W div 8) d) z (buf, int (length buf))) (\<lambda>(buf, i).
      let i = (if i < 0 then 0 else i) in Inr (buf, bytes_skip buf (nat i)))"

text \<open>\<open>binary.BigEndian.Uint64\<close> of eight bytes.\<close>

definition bigEndianWord :: "u8 list \<Rightarrow> u64 go" where
  "bigEndianWord b =
    go_bind (vget b 7) (\<lambda>b7. Inr (ucast b7 OR push_bit 8 (ucast (b ! 6)) OR push_bit 16 (ucast (b ! 5)) OR push_bit 24 (ucast (b ! 4)) OR
      push_bit 32 (ucast (b ! 3)) OR push_bit 40 (ucast (b ! 2)) OR push_bit 48 (ucast (b ! 1)) OR push_bit 56 (ucast (b ! 0))))"

function setBytes_words :: "u8 list \<Rightarrow> nat \<Rightarrow> nat \<Rightarrow> nat_slice \<Rightarrow> (nat_slice \<times> nat) go" where
  "setBytes_words buf i k z =
    (if i \<ge> W div 8
     then go_bind (vslice buf (i - W div 8) i) (\<lambda>s. go_bind (bigEndianWord s) (\<lambda>w. go_bind (sl_set z k w) (\<lambda>z.
       setBytes_words buf (i - W div 8) (k + 1) z)))
     else Inr (z, i))"
  by pat_completeness auto
termination by (relation "measure (\<lambda>(buf, i, k, z). i)") (auto simp: W_def UintSize_def)

declare setBytes_words.simps [simp del]

primrec setBytes_rest :: "u8 list \<Rightarrow> nat \<Rightarrow> nat \<Rightarrow> u64 \<Rightarrow> u64 go" where
  "setBytes_rest buf 0 s d = Inr d"
| "setBytes_rest buf (Suc i) s d = go_bind (vget buf i) (\<lambda>b. setBytes_rest buf i (s + 8) (d OR push_bit s (ucast b)))"

definition nat_setBytes :: "nat_slice \<Rightarrow> u8 list \<Rightarrow> nat_slice go" where
  "nat_setBytes z buf =
    (let z = nat_make z ((length buf + W div 8 - 1) div (W div 8))
     in go_bind (setBytes_words buf (length buf) 0 z) (\<lambda>(z, i).
        go_bind (if i > 0 then go_bind (setBytes_rest buf i 0 0) (\<lambda>d. sl_set z (count z - 1) d) else Inr z) (\<lambda>z.
        Inr (nat_norm z))))"

end
