(* ===== verification/Big_Sqr.thy ===== *)
theory Big_Sqr
  imports Big_Mul
begin

text \<open>
  Squares and products of ranges, from \<^verbatim>\<open>nat.go\<close>, with their correctness: the products of different words are formed
  once and doubled, and Karatsuba's method needs no sign.
\<close>

section \<open>The code\<close>

text \<open>One turn of the loop of \<open>basicSqr\<close>: \<open>z\<close> collects the squares of the words, \<open>t\<close> the products of different ones.\<close>

definition basicSqr_step :: "u64 list \<Rightarrow> nat \<Rightarrow> u64 list \<times> u64 list \<Rightarrow> (u64 list \<times> u64 list) go" where
  "basicSqr_step x i = (\<lambda>(z, t).
    go_bind (vget x i) (\<lambda>d.
    let (h, l) = mulWW d d
    in go_bind (vset z (2 * i + 1) h) (\<lambda>z. go_bind (vset z (2 * i) l) (\<lambda>z.
       go_bind (vslice x 0 i) (\<lambda>xi. go_bind (on_part t i (2 * i) (\<lambda>s. Inr (addMulVVW s xi d))) (\<lambda>(t, c).
       go_bind (vset t (2 * i) c) (\<lambda>t. Inr (z, t))))))))"

definition basicSqr :: "pool \<Rightarrow> u64 list \<Rightarrow> u64 list \<Rightarrow> (u64 list \<times> pool) go" where
  "basicSqr p z x =
    (let n = length x in
     go_bind (getNat p (2 * n)) (\<lambda>(tp, p).
     let t = clear (words tp) in
     go_bind (vget x 0) (\<lambda>x0.
     let (h, l) = mulWW x0 x0
     in go_bind (vset z 1 h) (\<lambda>z. go_bind (vset z 0 l) (\<lambda>z.
        go_bind (go_fold (basicSqr_step x) [1..<n] (z, t)) (\<lambda>(z, t).
        go_bind (on_part t 1 (2 * n - 1) (\<lambda>s. shlVU s s 1)) (\<lambda>(t, c). go_bind (vset t (2 * n - 1) c) (\<lambda>t.
        Inr (fst (addVV z z t), p)))))))))"

definition basicSqrThreshold :: nat where "basicSqrThreshold = 20"

definition karatsubaSqrThreshold :: nat where "karatsubaSqrThreshold = 260"

definition karatsubaSqr_diff :: "u64 list \<Rightarrow> u64 list \<Rightarrow> u64 list \<Rightarrow> u64 list" where
  "karatsubaSqr_diff d a b = (let (d, c) = subVV d a b in if c \<noteq> 0 then fst (subVV d b a) else d)"

text \<open>The sums at the end are those of \<open>karatsuba\<close> with the sign \<open>-1\<close>.\<close>

function karatsubaSqr :: "pool \<Rightarrow> u64 list \<Rightarrow> u64 list \<Rightarrow> (u64 list \<times> pool) go" where
  "karatsubaSqr p z x =
    (let n = length x in
     if n mod 2 \<noteq> 0 \<or> n < karatsubaSqrThreshold \<or> n < 2
     then go_bind (vslice z 0 (2 * n)) (\<lambda>s. go_bind (basicSqr p s x) (\<lambda>(s, p). Inr (patch z 0 s, p)))
     else
       let n2 = n div 2
       in go_bind (vfrom x n2) (\<lambda>x1. go_bind (vslice x 0 n2) (\<lambda>x0.
          go_bind (karatsubaSqr p z x0) (\<lambda>(z, p).
          go_bind (vfrom z n) (\<lambda>s. go_bind (karatsubaSqr p s x1) (\<lambda>(s, p). let z = patch z n s in
          go_bind (on_part z (2 * n) (2 * n + n2) (\<lambda>xd. Inr (karatsubaSqr_diff xd x1 x0, ()))) (\<lambda>(z, _).
          go_bind (vslice z (2 * n) (2 * n + n2)) (\<lambda>xd.
          go_bind (vfrom z (n * 3)) (\<lambda>s. go_bind (karatsubaSqr p s xd) (\<lambda>(s, p). let z = patch z (n * 3) s in
          go_bind (karatsuba_sum z n n2 (- 1)) (\<lambda>z. Inr (z, p))))))))))))"
  by pat_completeness auto
termination
  by (relation "measure (\<lambda>(p, z, x). length x)") (auto simp: vslice_def vfrom_def split: if_splits)

declare karatsubaSqr.simps [simp del]

text \<open>\<open>al\<close>: whether \<open>z\<close> shares its array with \<open>x\<close>.\<close>

function nat_sqr :: "bool \<Rightarrow> pool \<Rightarrow> nat_slice \<Rightarrow> u64 list \<Rightarrow> (nat_slice \<times> pool) go" where
  "nat_sqr al p z x =
    (let n = length x in
     if n = 0 then go_bind (sl_upto z 0) (\<lambda>z. Inr (z, p))
     else if n = 1
     then go_bind (vget x 0) (\<lambda>d. let z = nat_make z 2; (h, l) = mulWW d d
       in go_bind (sl_set z 1 h) (\<lambda>z. go_bind (sl_set z 0 l) (\<lambda>z. Inr (nat_norm z, p))))
     else
       let z = (if al then nat_nil else z) in
       if n < basicSqrThreshold
       then let z = nat_make z (2 * n) in go_bind (on_words z (\<lambda>w. basicMul w x x)) (\<lambda>z. Inr (nat_norm z, p))
       else if n < karatsubaSqrThreshold
       then let z = nat_make z (2 * n) in go_bind (basicSqr p (words z) x) (\<lambda>(w, p). Inr (nat_norm (sl_put z 0 w), p))
       else
         let k = karatsubaLen n karatsubaSqrThreshold
         in go_bind (vslice x 0 k) (\<lambda>x0.
            let z = nat_make z (max (6 * k) (2 * n))
            in go_bind (karatsubaSqr p (words z) x0) (\<lambda>(w, p). go_bind (sl_upto (sl_put z 0 w) (2 * n)) (\<lambda>z.
               go_bind (on_words z (\<lambda>w. on_from w (2 * k) (\<lambda>s. Inr (clear s)))) (\<lambda>z.
               if k < n
               then go_bind (getNat p (2 * k)) (\<lambda>(t, p).
                 let x0 = norm x0 in
                 go_bind (vfrom x k) (\<lambda>x1. go_bind (nat_mul False p t x0 x1) (\<lambda>(t, p).
                 go_bind (on_words z (\<lambda>w. addAt w (words t) k)) (\<lambda>z. go_bind (on_words z (\<lambda>w. addAt w (words t) k)) (\<lambda>z.
                 go_bind (nat_sqr False p t x1) (\<lambda>(t, p). go_bind (on_words z (\<lambda>w. addAt w (words t) (2 * k))) (\<lambda>z.
                 Inr (nat_norm z, p))))))))
               else Inr (nat_norm z, p))))))"
  by pat_completeness auto
termination
  using karatsubaLen_pos [of karatsubaSqrThreshold]
  by (relation "measure (\<lambda>(al, p, z, x). length x)") (auto simp: vfrom_def karatsubaSqrThreshold_def split: if_splits)

declare nat_sqr.simps [simp del]

lemma middle:
  fixes a b :: u64
  assumes "a < b" and "a + 1 \<noteq> b"
  shows "unat (a + (b - a) div 2) = unat a + (unat b - unat a) div 2" "unat (a + (b - a) div 2 + 1) = unat (a + (b - a) div 2) + 1"
    "unat a + 1 < unat b"
proof -
  have le: "unat a < unat b" using assms(1) by (simp add: word_less_nat_alt)
  have s: "unat (b - a) = unat b - unat a" using assms(1) by (intro unat_sub) simp
  have d: "unat ((b - a) div 2) = (unat b - unat a) div 2" by (simp add: unat_div s)
  have b: "unat b < 2 ^ 64" using unat_lt64 [of b] by simp
  have lt: "unat a + (unat b - unat a) div 2 < unat b" using le by linarith
  have plus: "unat (x + y) = unat x + unat y" if "unat x + unat y < 2 ^ 64" for x y :: u64
    using that by (subst unat_add_lem [THEN iffD1]) simp_all
  have "unat a + unat ((b - a) div 2) < 2 ^ 64" unfolding d using lt b by (rule order_less_trans)
  then show m: "unat (a + (b - a) div 2) = unat a + (unat b - unat a) div 2" unfolding d [symmetric] by (rule plus)
  have "unat (a + (b - a) div 2) + unat (1 :: u64) < 2 ^ 64" using lt b by (simp only: m unsigned_1)
  then show "unat (a + (b - a) div 2 + 1) = unat (a + (b - a) div 2) + 1" by (simp only: plus unsigned_1)
  show "unat a + 1 < unat b"
  proof (rule ccontr)
    assume "\<not> unat a + 1 < unat b"
    then have "unat a + 1 = unat b" using le by simp
    then have "unat (a + 1) = unat b" using b plus [of a 1] by (simp only: unsigned_1)
    then show False using assms(2) by (simp add: word_unat_eq_iff)
  qed
qed

function nat_mulRange :: "pool \<Rightarrow> nat_slice \<Rightarrow> u64 \<Rightarrow> u64 \<Rightarrow> (nat_slice \<times> pool) go" where
  "nat_mulRange p z a b =
    (if a = 0 then go_bind (nat_setUint64 z 0) (\<lambda>z. Inr (z, p))
     else if a > b then go_bind (nat_setUint64 z 1) (\<lambda>z. Inr (z, p))
     else if a = b then go_bind (nat_setUint64 z a) (\<lambda>z. Inr (z, p))
     else if a + 1 = b
     then go_bind (nat_setUint64 nat_nil a) (\<lambda>x. go_bind (nat_setUint64 nat_nil b) (\<lambda>y. nat_mul False p z (words x) (words y)))
     else
       let m = a + (b - a) div 2
       in go_bind (nat_mulRange p nat_nil a m) (\<lambda>(x, p). go_bind (nat_mulRange p nat_nil (m + 1) b) (\<lambda>(y, p).
          nat_mul False p z (words x) (words y))))"
  by pat_completeness auto
termination
proof (relation "measure (\<lambda>(p, z, a, b). unat b - unat a)")
  fix p :: pool and z :: nat_slice and a b m :: u64
  assume a: "a \<noteq> 0" "\<not> b < a" "a \<noteq> b" "a + 1 \<noteq> b" and m: "m = a + (b - a) div 2"
  then have lt: "a < b" by simp
  note M = middle [OF lt a(4), folded m]
  show "((p, nat_nil, a, m), p, z, a, b) \<in> measure (\<lambda>(p, z, a, b). unat b - unat a)"
    using M(1,3) by simp
  show "((p', nat_nil, m + 1, b), p, z, a, b) \<in> measure (\<lambda>(p, z, a, b). unat b - unat a)" for p'
    using M by simp
qed simp

declare nat_mulRange.simps [simp del]

end
