(* ===== verification/Big_Bits_Spec.thy ===== *)
theory Big_Bits_Spec
  imports Big_Bits Big_Nat_Spec Bits_Spec
begin

text \<open>
  The bit operations of \<^verbatim>\<open>math/big\<close> on the numbers that the words stand for: bit \<open>i\<close> of the number is bit \<open>i mod 64\<close>
  of word \<open>i div 64\<close>.
\<close>

section \<open>The bits of a number\<close>

lemma B_pow: "B ^ k = 2 ^ (64 * k)"
  by (simp add: B_def power_mult)

lemma low_high_mod: "a < B \<Longrightarrow> (a + B * b) mod B = a"
  by simp

lemma low_high_div: "a < B \<Longrightarrow> (a + B * b) div B = b"
  by simp

lemma bit_low_high: "a < B \<Longrightarrow> bit (a + B * b) i \<longleftrightarrow> (if i < 64 then bit a i else bit b (i - 64))"
proof -
  assume a: "a < B"
  have lo: "take_bit 64 (a + B * b) = a" using low_high_mod [OF a] by (simp only: take_bit_eq_mod flip: B_def)
  have hi: "drop_bit 64 (a + B * b) = b" using low_high_div [OF a] by (simp only: drop_bit_eq_div flip: B_def)
  show ?thesis
  proof (cases "i < 64")
    case True
    then have "bit (a + B * b) i \<longleftrightarrow> bit (take_bit 64 (a + B * b)) i" by (simp only: bit_take_bit_iff simp_thms)
    then show ?thesis using True unfolding lo by simp
  next
    case False
    then have "bit (a + B * b) i \<longleftrightarrow> bit (drop_bit 64 (a + B * b)) (i - 64)" by (simp only: bit_drop_bit_eq comp_def) simp
    then show ?thesis using False unfolding hi by simp
  qed
qed

lemma bit_val: "bit (val x) i \<longleftrightarrow> i div 64 < length x \<and> bit (x ! (i div 64)) (i mod 64)"
proof (induction x arbitrary: i)
  case (Cons w x)
  show ?case
  proof (cases "i < 64")
    case True
    then show ?thesis using bit_low_high [OF unat_lt_B, of w "val x" i] by (simp add: bit_unat)
  next
    case False
    then obtain j where j: "i = j + 64" by (metis add.commute le_Suc_ex linorder_not_less)
    have "(j + 64) div 64 = Suc (j div 64)" by simp
    then show ?thesis using bit_low_high [OF unat_lt_B, of w "val x" i] Cons [of j] by (simp add: j)
  qed
qed simp

lemma bit_word_range: "bit w i \<Longrightarrow> i < 64" for w :: u64
  using bit_imp_le_length [of w i] by simp

lemma val_words_eq:
  assumes "\<And>i. bit v i \<longleftrightarrow> i div 64 < length x \<and> bit (x ! (i div 64)) (i mod 64)"
  shows "val x = v"
  by (rule bit_eqI) (simp only: bit_val assms)

section \<open>Bitwise operations\<close>

lemma length_words_loop [simp]: "length (words_loop f z x y) = length z"
  by (induction f z x y rule: words_loop.induct) auto

lemma nth_words_loop:
  "i < length z \<Longrightarrow> words_loop f z x y ! i = (if i < length x \<and> i < length y then f (x ! i) (y ! i) else z ! i)"
  by (induction f z x y arbitrary: i rule: words_loop.induct) (auto simp: nth_Cons split: nat.splits)

lemma nat_and_ok: "\<exists>z'. nat_and z x y = Inr z' \<and> nat_is z' (val x AND val y)"
proof -
  let ?m = "if length x > length y then length y else length x"
  let ?z = "nat_make z ?m" and ?f = "\<lambda>w. Inr (words_loop (AND) w x y)"
  obtain z1 where z1: "on_words ?z ?f = Inr z1" "wf z1" "count z1 = ?m" "words z1 = words_loop (AND) (words ?z) x y"
    using on_words_ok [of ?z ?f "words_loop (AND) (words ?z) x y"] by auto
  have "val (words z1) = val x AND val y"
    unfolding z1(4) by (rule val_words_eq) (auto simp: nth_words_loop bit_val bit_and_iff)
  then show ?thesis using z1 norm_ok [OF z1(2)] by (simp add: nat_and_def Let_def)
qed

text \<open>The loop over the common words, then the rest of the longer operand.\<close>

lemma loop_rest:
  assumes n: "n = min (length x) (length y)" "n \<le> length s"
  shows "\<exists>z1 z2. on_words (nat_make z (length s)) (\<lambda>w. Inr (words_loop f w x y)) = Inr z1 \<and>
    on_vec z1 n (length s) (\<lambda>t. Inr (vcopy t (drop n s), ())) = Inr (z2, ()) \<and> wf z2 \<and>
    length (words z2) = length s \<and> (\<forall>i < length s. words z2 ! i = (if i < n then f (x ! i) (y ! i) else s ! i))"
proof -
  let ?z = "nat_make z (length s)" and ?f = "\<lambda>w. Inr (words_loop f w x y)"
  obtain z1 where z1: "on_words ?z ?f = Inr z1" "wf z1" "count z1 = length s" "words z1 = words_loop f (words ?z) x y"
    using on_words_ok [of ?z ?f "words_loop f (words ?z) x y"] by auto
  let ?g = "\<lambda>t. Inr (vcopy t (drop n s), ())"
  have c: "vcopy (take (length s - n) (drop n (words z1))) (drop n s) = drop n s" using z1 n by (simp add: vcopy_def)
  obtain z2 where z2: "on_vec z1 n (length s) ?g = Inr (z2, ())" "wf z2" "count z2 = length s" "words z2 = patch (words z1) n (drop n s)"
    using on_vec_ok [of z1 n "length s" ?g "drop n s" "()"] z1 n c by auto
  have "\<forall>i < length s. words z2 ! i = (if i < n then f (x ! i) (y ! i) else s ! i)"
    using z1 n unfolding z2(4) by (auto simp: patch_def nth_append nth_words_loop)
  moreover have "length (words z2) = length s" using z2(2,3) by simp
  ultimately show ?thesis using z1(1) z2(1,2) by blast
qed

lemma nat_andNot_ok: "\<exists>z' v. nat_andNot z x y = Inr z' \<and> nat_is z' v \<and> (\<forall>i. bit v i \<longleftrightarrow> bit (val x) i \<and> \<not> bit (val y) i)"
proof -
  let ?n = "if length y > length x then length x else length y"
  have n: "?n = min (length x) (length y)" "?n \<le> length x" by auto
  from loop_rest [OF this, of z "\<lambda>a b. a AND NOT b"] obtain z1 z2 where
    z: "on_words (nat_make z (length x)) (\<lambda>w. Inr (words_loop (\<lambda>a b. a AND NOT b) w x y)) = Inr z1"
    "on_vec z1 ?n (length x) (\<lambda>t. Inr (vcopy t (drop ?n x), ())) = Inr (z2, ())" "wf z2"
    "length (words z2) = length x" "\<forall>i < length x. words z2 ! i = (if i < ?n then x ! i AND NOT (y ! i) else x ! i)" by blast
  have "bit (val (words z2)) i \<longleftrightarrow> bit (val x) i \<and> \<not> bit (val y) i" for i
    using z(4,5) bit_word_range by (auto simp: bit_val bit_and_iff bit_not_iff split: if_split_asm)
  moreover have "nat_andNot z x y = Inr (nat_norm z2)" using z(1,2) by (simp add: nat_andNot_def Let_def)
  ultimately show ?thesis using norm_ok [OF z(3)] by blast
qed

lemma nat_or_ok: "\<exists>z'. nat_or z x y = Inr z' \<and> nat_is z' (val x OR val y)"
proof -
  define s where "s = (if length x < length y then y else x)"
  define n where "n = (if length x < length y then length x else length y)"
  have n: "n = min (length x) (length y)" "n \<le> length s" by (auto simp: n_def s_def)
  have e: "(if length x < length y then (length x, length y, y) else (length y, length x, x)) = (n, length s, s)"
    by (simp add: n_def s_def)
  from loop_rest [OF n, of z "(OR)"] obtain z1 z2 where
    z: "on_words (nat_make z (length s)) (\<lambda>w. Inr (words_loop (OR) w x y)) = Inr z1"
    "on_vec z1 n (length s) (\<lambda>t. Inr (vcopy t (drop n s), ())) = Inr (z2, ())" "wf z2"
    "length (words z2) = length s" "\<forall>i < length s. words z2 ! i = (if i < n then x ! i OR y ! i else s ! i)" by blast
  have "val (words z2) = val x OR val y"
    by (rule val_words_eq) (use z(4,5) in \<open>auto simp: bit_val bit_or_iff n_def s_def split: if_split_asm\<close>)
  moreover have "nat_or z x y = Inr (nat_norm z2)" using z(1,2) n(2) by (simp add: nat_or_def Let_def e)
  ultimately show ?thesis using norm_ok [OF z(3)] by simp
qed

lemma nat_xor_ok: "\<exists>z'. nat_xor z x y = Inr z' \<and> nat_is z' (val x XOR val y)"
proof -
  define s where "s = (if length x < length y then y else x)"
  define n where "n = (if length x < length y then length x else length y)"
  have n: "n = min (length x) (length y)" "n \<le> length s" by (auto simp: n_def s_def)
  have e: "(if length x < length y then (length x, length y, y) else (length y, length x, x)) = (n, length s, s)"
    by (simp add: n_def s_def)
  from loop_rest [OF n, of z "(XOR)"] obtain z1 z2 where
    z: "on_words (nat_make z (length s)) (\<lambda>w. Inr (words_loop (XOR) w x y)) = Inr z1"
    "on_vec z1 n (length s) (\<lambda>t. Inr (vcopy t (drop n s), ())) = Inr (z2, ())" "wf z2"
    "length (words z2) = length s" "\<forall>i < length s. words z2 ! i = (if i < n then x ! i XOR y ! i else s ! i)" by blast
  have "val (words z2) = val x XOR val y"
    by (rule val_words_eq) (use z(4,5) in \<open>auto simp: bit_val bit_xor_iff n_def s_def split: if_split_asm\<close>)
  moreover have "nat_xor z x y = Inr (nat_norm z2)" using z(1,2) n(2) by (simp add: nat_xor_def Let_def e)
  ultimately show ?thesis using norm_ok [OF z(3)] by simp
qed

section \<open>Shifts\<close>

lemma shift_split: "2 ^ s = B ^ (s div 64) * 2 ^ (s mod 64)"
  by (simp add: B_pow flip: power_add)

lemma set_nat_words: "nat_is (nat_set z x) (val x)" if "normal x"
  using that by (rule set_nat_ok)

lemma nat_shl_ok:
  assumes "normal x" and "wf z" and "sm \<longrightarrow> words z = x"
  shows "\<exists>z'. nat_shl sm al z x s = Inr z' \<and> nat_is z' (val x * 2 ^ s)"
proof -
  consider "s = 0" "sm" | "s = 0" "\<not> sm" "\<not> al" | "s \<noteq> 0 \<or> \<not> sm \<and> al" "x = []" | "s \<noteq> 0 \<or> \<not> sm \<and> al" "x \<noteq> []" by blast
  then show ?thesis
  proof cases
    case 1
    then show ?thesis using assms by (simp add: nat_shl_def nat_is_def)
  next
    case 2
    then show ?thesis using set_nat_ok [OF assms(1), of z] by (simp add: nat_shl_def)
  next
    case 3
    then show ?thesis using upto_0 [of z] by (auto simp: nat_shl_def)
  next
    case 4
    let ?k = "s div 64" and ?m = "length x"
    let ?n = "?m + ?k"
    let ?z = "nat_make z (?n + 1)"
    let ?w = "take ?m (drop ?k (words ?z))"
    have lw: "length ?w = ?m" by simp
    then have "?w \<noteq> []" using 4(2) by auto
    with shlVU_val [of "s mod 64" x ?w] lw obtain r c where
      r: "shlVU ?w x (s mod 64) = Inr (r, c)" "length r = ?m" "val r + B ^ ?m * unat c = val x * 2 ^ (s mod 64)" by auto
    obtain z1 where z1: "on_vec ?z ?k ?n (\<lambda>w. shlVU w x (s mod 64)) = Inr (z1, c)" "wf z1" "count z1 = ?n + 1"
      "words z1 = patch (words ?z) ?k r"
      using on_vec_ok [of ?z ?k ?n "\<lambda>w. shlVU w x (s mod 64)" r c] r by auto
    obtain z2 where z2: "sl_set z1 ?n c = Inr z2" "wf z2" "count z2 = ?n + 1" "words z2 = (words z1)[?n := c]"
      using set_ok [OF z1(2), of ?n c] z1(3) by auto
    have w2: "words z2 = take ?k (words ?z) @ r @ [c]"
      unfolding z2(4) z1(4) using r(2) by (simp add: patch_def list_update_append upd_conv_take_nth_drop)
    let ?g = "\<lambda>w. Inr (clear w, ())"
    have "length (words z2) = ?n + 1" using z2(2,3) by simp
    then have "?g (take (?k - 0) (drop 0 (words z2))) = Inr (replicate ?k 0, ())" by (simp add: clear_def)
    then obtain z3 where z3: "on_vec z2 0 ?k ?g = Inr (z3, ())" "wf z3" "words z3 = patch (words z2) 0 (replicate ?k 0)"
      using on_vec_ok [OF z2(2), of 0 ?k ?g "replicate ?k 0" "()"] z2(3) by auto
    have "words z3 = replicate ?k 0 @ r @ [c]" unfolding z3(3) w2 by (simp add: patch_def)
    then have "val (words z3) = B ^ ?k * (val r + B ^ ?m * unat c)" using r(2) by (simp add: val_append)
    then have v: "val (words z3) = val x * 2 ^ s" unfolding r(3) shift_split [of s] by (simp only: mult.left_commute mult.commute)
    have "?n - ?m = ?k" by simp
    then have "nat_shl sm al z x s = Inr (nat_norm z3)" using 4 z1(1) z2(1) z3(1) by (auto simp: nat_shl_def Let_def)
    then show ?thesis using norm_ok [OF z3(2)] v by simp
  qed
qed

lemma nat_shr_ok:
  assumes "normal x" and "wf z" and "sm \<longrightarrow> words z = x"
  shows "\<exists>z'. nat_shr sm al z x s = Inr z' \<and> nat_is z' (val x div 2 ^ s)"
proof -
  consider "s = 0" "sm" | "s = 0" "\<not> sm" "\<not> al" | "s \<noteq> 0 \<or> \<not> sm \<and> al" "length x \<le> s div 64"
    | "s \<noteq> 0 \<or> \<not> sm \<and> al" "s div 64 < length x" by linarith
  then show ?thesis
  proof cases
    case 1
    then show ?thesis using assms by (simp add: nat_shr_def nat_is_def)
  next
    case 2
    then show ?thesis using set_nat_ok [OF assms(1), of z] by (simp add: nat_shr_def)
  next
    case 3
    have "val x < B ^ length x" by (rule val_lt)
    also have "\<dots> \<le> 2 ^ s" unfolding B_pow using 3(2) by (intro power_increasing) linarith+
    finally have "val x div 2 ^ s = 0" by simp
    then show ?thesis using 3 upto_0 [of z] by (auto simp: nat_shr_def Let_def)
  next
    case 4
    let ?k = "s div 64" and ?m = "length x"
    let ?n = "?m - ?k"
    let ?z = "nat_make z ?n"
    have lw: "length (take ?n (words ?z)) = ?n" "0 < ?n" using 4(2) by simp_all
    then have "take ?n (words ?z) \<noteq> []" unfolding length_greater_0_conv [symmetric] by linarith
    with shrVU_val [of "s mod 64" "drop ?k x" "take ?n (words ?z)"] lw obtain r c where
      r: "shrVU (take ?n (words ?z)) (drop ?k x) (s mod 64) = Inr (r, c)" "length r = ?n" "val r = val (drop ?k x) div 2 ^ (s mod 64)" by auto
    obtain z1 where z1: "on_vec ?z 0 ?n (\<lambda>w. shrVU w (drop ?k x) (s mod 64)) = Inr (z1, c)" "wf z1" "words z1 = patch (words ?z) 0 r"
      using on_vec_ok [of ?z 0 ?n "\<lambda>w. shrVU w (drop ?k x) (s mod 64)" r c] r by auto
    have w: "words z1 = r" unfolding z1(3) using r(2) by (simp add: patch_def)
    have "val (drop ?k x) = val x div B ^ ?k"
    proof -
      have "length (take ?k x) = ?k" using 4(2) by simp
      then have "val (take ?k x) < B ^ ?k" using val_lt [of "take ?k x"] by simp
      then show ?thesis using val_split [of ?k x] 4(2) by simp
    qed
    then have "val (words z1) = val x div 2 ^ s" unfolding w r(3) shift_split [of s] by (simp only: div_mult2_eq)
    moreover have "nat_shr sm al z x s = Inr (nat_norm z1)"
    proof -
      have e: "nat (int ?m - int ?k) = ?n" "?m - ?n = ?k" using 4(2) by linarith+
      show ?thesis using 4 z1(1) by (auto simp: nat_shr_def Let_def e)
    qed
    ultimately show ?thesis using norm_ok [OF z1(2)] by simp
  qed
qed

section \<open>Lengths and single bits\<close>

lemma less_bits: "x < 2 ^ n \<longleftrightarrow> (\<forall>i. bit x i \<longrightarrow> i < n)" for x :: nat
proof
  assume "x < 2 ^ n"
  then have "take_bit n x = x" by (simp add: take_bit_nat_eq_self_iff)
  then show "\<forall>i. bit x i \<longrightarrow> i < n" by (metis bit_take_bit_iff)
next
  assume "\<forall>i. bit x i \<longrightarrow> i < n"
  then have "take_bit n x = x" by (intro bit_eqI) (auto simp: bit_take_bit_iff)
  then show "x < 2 ^ n" by (simp add: take_bit_nat_eq_self_iff)
qed

text \<open>Setting bits below a one bit does not change the length.\<close>

lemma smear_bitlen: "bitlen (unat (w OR drop_bit k w)) = bitlen (unat w)" for w :: u64
proof -
  have "unat (w OR drop_bit k w) < 2 ^ n \<longleftrightarrow> unat w < 2 ^ n" for n
    unfolding less_bits by (auto simp: bit_unat bit_or_iff bit_drop_bit_eq)
  then have "bitlen (unat (w OR drop_bit k w)) \<le> n \<longleftrightarrow> bitlen (unat w) \<le> n" for n by (simp only: bitlen_le_iff)
  then show ?thesis by (metis order_antisym order_refl)
qed

lemma val_last: "x \<noteq> [] \<Longrightarrow> val x = val (butlast x) + B ^ (length x - 1) * unat (last x)"
  using val_snoc [of "butlast x" "last x"] by simp

lemma nat_bitLen_eq: "normal x \<Longrightarrow> nat_bitLen x = int (bitlen (val x))"
proof (cases "x = []")
  case False
  assume n: "normal x"
  let ?k = "64 * (length x - 1)"
  have "2 ^ ?k \<le> val x" using val_ge [OF n False] by (simp only: B_pow)
  then have "bitlen (val x) = ?k + bitlen (val x div 2 ^ ?k)" by (rule bitlen_shift)
  also have "val x div 2 ^ ?k = unat (last x)"
    using val_lt [of "butlast x"] unfolding B_pow [symmetric] val_last [OF False] by simp
  finally have "bitlen (val x) = ?k + bitlen (unat (last x))" .
  moreover have "x ! (length x - 1) = last x" using False by (simp add: last_conv_nth)
  moreover have "nat (int (length x) - 1) = length x - 1" "0 \<le> int (length x) - 1" using False by (cases x; simp)+
  moreover have "int (length x - Suc 0) = int (length x) - 1" using False by (cases x) simp_all
  ultimately show ?thesis
    by (simp add: nat_bitLen_def Let_def Len_def UintSize_def Len64_eq smear_bitlen)
qed (simp add: nat_bitLen_def)

lemma skip_zeros_ok:
  assumes "i \<le> j" and "j < length x" and "x ! j \<noteq> 0" and "\<And>l. i \<le> l \<Longrightarrow> l < j \<Longrightarrow> x ! l = 0"
  shows "skip_zeros x i = Inr j"
  using assms
proof (induction x i rule: skip_zeros.induct)
  case (1 x i)
  show ?case
  proof (cases "i = j")
    case False
    then have z: "x ! i = 0" "vget x i = Inr (x ! i)" using "1.prems" by simp_all
    then have "skip_zeros x (i + 1) = Inr j" using "1.prems" False by (intro "1.IH") auto
    then show ?thesis using z by (subst skip_zeros.simps) simp
  qed (use "1.prems" in \<open>subst skip_zeros.simps, simp\<close>)
qed

lemma ntz_unique: "odd m \<Longrightarrow> ntz (2 ^ k * m) = k" for m :: nat
proof -
  assume m: "odd m"
  then have nz: "2 ^ k * m \<noteq> 0" by (intro notI) simp
  have "k \<le> ntz (2 ^ k * m)" using lowbit_dvd [OF nz, of k] by simp
  moreover have "\<not> 2 ^ Suc k dvd 2 ^ k * m" using m by (simp add: power_Suc2)
  then have "\<not> Suc k \<le> ntz (2 ^ k * m)" using lowbit_dvd [OF nz, of "Suc k"] by simp
  ultimately show ?thesis by simp
qed

lemma ntz_shift: "n \<noteq> 0 \<Longrightarrow> ntz (2 ^ k * n) = k + ntz n" for n :: nat
proof -
  assume "n \<noteq> 0"
  then obtain m where m: "n = 2 ^ ntz n * m" "odd m" using ntz_odd by blast
  then have "2 ^ k * n = 2 ^ (k + ntz n) * m" by (metis mult.assoc power_add)
  then show ?thesis using ntz_unique [OF m(2)] by simp
qed

lemma ntz_low: "w = 2 ^ k * m \<Longrightarrow> odd m \<Longrightarrow> b = 2 ^ k * (2 * c) \<Longrightarrow> ntz (w + b * r) = k" for m :: nat
  using ntz_unique [of "m + 2 * (c * r)" k] by (simp add: distrib_left mult.assoc)

lemma nat_trailingZeroBits_eq: "normal x \<Longrightarrow> nat_trailingZeroBits x = Inr (int (ntz (val x)))"
proof (cases "x = []")
  case False
  assume n: "normal x"
  let ?P = "\<lambda>j. j < length x \<and> x ! j \<noteq> 0"
  define j where "j = (LEAST j. ?P j)"
  have "?P (length x - 1)" using n False by (simp add: normal_def last_conv_nth)
  then have j: "j < length x" "x ! j \<noteq> 0" using LeastI [of ?P] unfolding j_def by blast+
  have z: "x ! l = 0" if "l < j" for l using not_less_Least [of l ?P] that j(1) unfolding j_def [symmetric] by auto
  then have "take j x = replicate j 0" using j(1) by (intro nth_equalityI) simp_all
  then have "val x = B ^ j * val (drop j x)" using val_split [of j x] j(1) by simp
  moreover have "drop j x = x ! j # drop (Suc j) x" using j(1) by (simp add: Cons_nth_drop_Suc)
  ultimately have v: "val x = 2 ^ (64 * j) * (unat (x ! j) + B * val (drop (Suc j) x))" by (simp only: B_pow val.simps)
  let ?w = "unat (x ! j)" and ?r = "val (drop (Suc j) x)"
  have w0: "?w \<noteq> 0" using j(2) by (simp add: unat_eq_zero)
  obtain m where m: "?w = 2 ^ ntz ?w * m" "odd m" using ntz_odd [OF w0] by blast
  have lt: "ntz ?w < 64" using ntz_lt [OF w0, of 64] unat_lt64 [of "x ! j"] by simp
  then have "B = 2 ^ ntz ?w * (2 * 2 ^ (63 - ntz ?w))" by (simp add: B_def flip: power_add power_Suc)
  then have "ntz (?w + B * ?r) = ntz ?w" by (rule ntz_low [OF m])
  then have "ntz (val x) = 64 * j + ntz ?w" unfolding v using w0 by (subst ntz_shift) simp_all
  moreover have "skip_zeros x 0 = Inr j" using j z by (intro skip_zeros_ok) auto
  ultimately show ?thesis
    using False j(1) j(2) by (simp add: nat_trailingZeroBits_def TrailingZeros_def UintSize_def TrailingZeros64_eq)
qed (simp add: nat_trailingZeroBits_def ntz.simps [of 0])

lemma word_bit_1: "drop_bit i w AND 1 = of_bool (bit w i)" for w :: u64
  by (simp add: bit_iff_odd_drop_bit and_one_eq mod_2_eq_odd)

lemma nat_bit_eq: "nat_bit x i = of_bool (bit (val x) i)"
  by (simp add: nat_bit_def Let_def bit_val word_bit_1)

lemma bit_single: "bit (2 ^ m :: u64) i \<longleftrightarrow> i = m \<and> i < 64"
  by (auto simp: bit_exp_iff)

lemma same_bit: "i div 64 = j div 64 \<Longrightarrow> i mod 64 = j mod 64 \<Longrightarrow> i = j" for i j :: nat
  by (metis div_mult_mod_eq)

lemma put_copy:
  assumes "length x \<le> n"
  shows "wf (sl_put (nat_make z n) 0 (vcopy (words (nat_make z n)) x))"
    and "count (sl_put (nat_make z n) 0 (vcopy (words (nat_make z n)) x)) = n"
    and "words (sl_put (nat_make z n) 0 (vcopy (words (nat_make z n)) x)) = x @ drop (length x) (words (nat_make z n))"
  using assms put_words [of "nat_make z n" "vcopy (words (nat_make z n)) x"] by (simp_all add: vcopy_def)

lemma nat_setBit_0:
  assumes "normal x"
  shows "\<exists>z'. nat_setBit z x i 0 = Inr z' \<and> nat_is z' (unset_bit i (val x))"
proof -
  let ?n = "length x" and ?j = "i div 64"
  let ?z = "sl_put (nat_make z ?n) 0 (vcopy (words (nat_make z ?n)) x)"
  note z = put_copy [of x ?n z, simplified]
  show ?thesis
  proof (cases "?j \<ge> ?n")
    case True
    then have "val x = unset_bit i (val x)" by (intro bit_eqI) (auto simp: bit_unset_bit_iff bit_val)
    then show ?thesis using True z assms by (simp add: nat_setBit_def Let_def nat_is_def)
  next
    case False
    let ?w = "x ! ?j AND NOT (push_bit (i mod 64) 1)"
    obtain z' where z': "sl_set ?z ?j ?w = Inr z'" "wf z'" "words z' = x[?j := ?w]" using set_ok [OF z(1), of ?j ?w] z False by auto
    have "val (words z') = unset_bit i (val x)"
      unfolding z'(3) using False
      by (intro val_words_eq) (auto simp: bit_unset_bit_iff bit_val nth_list_update bit_and_iff bit_not_iff bit_single dest: same_bit)
    then show ?thesis using False z z'(1) norm_ok [OF z'(2)] by (simp add: nat_setBit_def Let_def)
  qed
qed

lemma nat_setBit_1:
  assumes "normal x"
  shows "\<exists>z'. nat_setBit z x i 1 = Inr z' \<and> nat_is z' (set_bit i (val x))"
proof -
  let ?n = "length x" and ?j = "i div 64"
  define n where "n = max ?n (?j + 1)"
  have jn: "?j < n" "?n \<le> n" by (simp_all add: n_def less_max_iff_disj)
  define c where "c = (if ?j \<ge> ?n then on_words (nat_make z (?j + 1)) (\<lambda>w. on_from w ?n (\<lambda>s. Inr (clear s))) else Inr (nat_make z ?n))"
  obtain z1 where z1: "c = Inr z1" "wf z1" "count z1 = n" "drop ?n (words z1) = replicate (n - ?n) 0"
  proof (cases "?j \<ge> ?n")
    case True
    let ?z = "nat_make z (?j + 1)"
    let ?f = "\<lambda>w. on_from w ?n (\<lambda>s. Inr (clear s))"
    let ?w = "take ?n (words ?z) @ replicate (?j + 1 - ?n) 0"
    have "?f (words ?z) = Inr ?w" using True by (simp add: on_from_def clear_def patch_def)
    moreover have "length ?w = ?j + 1" using True by simp
    ultimately obtain z1 where "on_words ?z ?f = Inr z1" "wf z1" "count z1 = ?j + 1" "words z1 = ?w"
      using on_words_ok [of ?z ?f ?w] by auto
    then show ?thesis using that [of z1] True by (simp add: c_def n_def)
  next
    case False
    then show ?thesis using that [of "nat_make z ?n"] by (simp add: c_def n_def)
  qed
  let ?y = "x @ replicate (n - ?n) 0"
  let ?z = "sl_put z1 0 (vcopy (words z1) x)"
  have y: "vcopy (words z1) x = ?y" using z1 by (simp add: vcopy_def n_def)
  have z: "wf ?z" "count ?z = n" "words ?z = ?y" using put_words [OF z1(2), of ?y] z1(3) y by (simp_all add: n_def)
  let ?w = "?y ! ?j OR 2 ^ (i mod 64)"
  obtain z' where z': "sl_set ?z ?j ?w = Inr z'" "wf z'" "words z' = ?y[?j := ?w]" using set_ok [OF z(1), of ?j ?w] z jn by auto
  have "?j < length x + (n - length x)" using jn by simp
  then have "val (words z') = set_bit i (val x)"
    unfolding z'(3)
    by (intro val_words_eq) (auto simp: bit_set_bit_iff bit_val nth_list_update nth_append bit_or_iff bit_single dest: same_bit)
  moreover have "normal (words z')"
  proof -
    have w0: "?w \<noteq> 0"
    proof
      assume "?w = 0"
      then have "\<not> bit ?w (i mod 64)" by (simp only: bit_0_eq bot_apply) simp
      then show False by (simp add: bit_or_iff bit_single)
    qed
    have l: "length ?y = n" using jn by simp
    then have ne: "?y[?j := ?w] \<noteq> []" using jn by auto
    have "last (?y[?j := ?w]) = ?y[?j := ?w] ! (n - 1)" using last_conv_nth [OF ne] l by simp
    also have "\<dots> \<noteq> 0"
    proof (cases "?j = n - 1")
      case True
      then show ?thesis using w0 l jn by simp
    next
      case False
      then have n: "n = ?n" "?j < ?n - 1" by (auto simp: n_def)
      then have "x \<noteq> []" by auto
      then have "x ! (?n - 1) \<noteq> 0" using assms by (simp add: normal_def last_conv_nth)
      then show ?thesis using n by (simp add: nth_append)
    qed
    finally show ?thesis unfolding z'(3) normal_def by blast
  qed
  moreover have "nat_setBit z x i 1 = Inr z'"
    using z1(1) z z'(1) unfolding c_def by (simp add: nat_setBit_def Let_def n_def)
  ultimately show ?thesis using z'(2) by (auto simp: nat_is_def)
qed

lemma nat_setBit_ok:
  assumes "normal x"
  shows "if b = 0 then \<exists>z'. nat_setBit z x i b = Inr z' \<and> nat_is z' (unset_bit i (val x))
    else if b = 1 then \<exists>z'. nat_setBit z x i b = Inr z' \<and> nat_is z' (set_bit i (val x))
    else nat_setBit z x i b = Inl (PanicMsg ''set bit is not 0 or 1'')"
  using nat_setBit_0 [OF assms] nat_setBit_1 [OF assms] by (simp add: nat_setBit_def)

end
