(* ===== verification/Big_Sqrt.thy ===== *)
theory Big_Sqrt
  imports Big_Div_Correct Big_Bits_Spec
begin

text \<open>The integer square root of \<^verbatim>\<open>nat.go\<close>, by Newton's iteration from above, with its correctness.\<close>

section \<open>The code\<close>

lemma nat_cmp_less: "nat_cmp x y < 0 \<Longrightarrow> length x < length y \<or> length x = length y \<and> val x < val y"
proof -
  assume less: "nat_cmp x y < 0"
  show ?thesis
  proof (cases "length x = length y \<and> x \<noteq> []")
    case True
    let ?i = "cmp_loop x y (length x - 1)"
    have n: "length x - 1 < length x" "length x - 1 < length y" "Suc (length x - 1) = length x"
      using True by (simp_all flip: length_greater_0_conv)
    note L = cmp_loop_top [OF n(1,2)]
    have i: "?i < length x" using L(1) n(1) by linarith
    have d: "drop (Suc ?i) x = drop (Suc ?i) y" using L(2) True n(3) by simp
    have "x ! ?i < y ! ?i" using less True by (auto simp: nat_cmp_def Let_def split: if_splits)
    then show ?thesis using True val_less_digit [of x y ?i] d i by simp
  qed (use less in \<open>auto simp: nat_cmp_def Let_def split: if_splits\<close>)
qed

text \<open>
  The loop with its counter \<open>n\<close>: \<open>z1\<close> is the last approximation, \<open>z2\<close> the storage of the next one; \<open>z\<close> is what the
  caller gave.
\<close>

function sqrt_loop :: "pool \<Rightarrow> nat_slice \<Rightarrow> u64 list \<Rightarrow> nat \<Rightarrow> nat_slice \<Rightarrow> nat_slice \<Rightarrow> (nat_slice \<times> pool) go" where
  "sqrt_loop p z x n z1 z2 =
    go_bind (nat_div False p z2 nat_nil x (words z1)) (\<lambda>(z2, _, p).
    go_bind (nat_add z2 (words z2) (words z1)) (\<lambda>z2.
    go_bind (nat_shr (count z2 > 0) (array z2 \<noteq> []) z2 (words z2) 1) (\<lambda>z2.
    if nat_cmp (words z2) (words z1) \<ge> 0
    then if n mod 2 = 0 then Inr (z1, p) else Inr (nat_set z (words z1), p)
    else sqrt_loop p z x (n + 1) z2 z1)))"
  by pat_completeness auto
termination
  by (relation "measures [\<lambda>(p, z, x, n, z1, z2). length (words z1), \<lambda>(p, z, x, n, z1, z2). val (words z1)]")
    (use nat_cmp_less in auto)

declare sqrt_loop.simps [simp del]

definition nat_sqrt :: "bool \<Rightarrow> pool \<Rightarrow> nat_slice \<Rightarrow> u64 list \<Rightarrow> (nat_slice \<times> pool) go" where
  "nat_sqrt al p z x =
    (if nat_cmp x [1] \<le> 0 then Inr (nat_set z x, p)
     else
       let z = (if al then nat_nil else z)
       in go_bind (nat_setUint64 z 1) (\<lambda>z1.
          go_bind (nat_shl (count z1 > 0) (array z1 \<noteq> []) z1 (words z1) (nat (nat_bitLen x + 1) div 2)) (\<lambda>z1.
          sqrt_loop p z x 0 z1 nat_nil)))"

section \<open>Its value\<close>

definition isqrt :: "nat \<Rightarrow> nat" where
  "isqrt x = Max {r. r ^ 2 \<le> x}"

lemma isqrt_unique: "r ^ 2 \<le> x \<Longrightarrow> (\<And>s. s ^ 2 \<le> x \<Longrightarrow> s \<le> r) \<Longrightarrow> isqrt x = r"
  unfolding isqrt_def
proof (intro Max_eqI)
  assume "\<And>s. s ^ 2 \<le> x \<Longrightarrow> s \<le> r"
  then show "finite {r. r ^ 2 \<le> x}" using finite_subset [of "{r. r ^ 2 \<le> x}" "{..r}"] by blast
qed simp_all

lemma newton_above:
  fixes x z s :: nat
  assumes "0 < z" and "s ^ 2 \<le> x"
  shows "s \<le> (x div z + z) div 2"
proof (cases "2 * s \<le> z")
  case False
  have "(2 * s - z) * z \<le> s ^ 2"
  proof -
    have "int ((2 * s - z) * z) = (2 * int s - int z) * int z" using False by simp
    also have "\<dots> \<le> int s ^ 2"
    proof -
      have "0 \<le> (int s - int z) ^ 2" by simp
      then show ?thesis by (simp add: power2_eq_square algebra_simps)
    qed
    also have "\<dots> = int (s ^ 2)" by (simp only: of_nat_power)
    finally show ?thesis by (simp only: of_nat_le_iff)
  qed
  then have "(2 * s - z) * z \<le> x" using assms(2) by linarith
  then have "2 * s - z \<le> x div z" using assms(1) by (simp add: less_eq_div_iff_mult_less_eq)
  then show ?thesis by linarith
qed linarith

lemma newton_stops:
  fixes x z :: nat
  assumes "0 < z" and "z \<le> (x div z + z) div 2"
  shows "z ^ 2 \<le> x"
proof -
  have "z \<le> x div z" using assms(2) by linarith
  then show ?thesis using assms(1) by (simp add: less_eq_div_iff_mult_less_eq power2_eq_square)
qed

lemma normal_words: "nat_is z v \<Longrightarrow> normal (words z)" "nat_is z v \<Longrightarrow> val (words z) = v" "nat_is z v \<Longrightarrow> wf z"
  by (simp_all add: nat_is_def)

lemma sqrt_loop_ok:
  assumes "normal x" and "nat_is z1 v" and "0 < v" and "v < B ^ (B - 1)" and "\<And>s. s ^ 2 \<le> val x \<Longrightarrow> s \<le> v" and "1 \<le> val x"
  shows "\<exists>z' p'. sqrt_loop p z x n z1 z2 = Inr (z', p') \<and> nat_is z' (isqrt (val x))"
  using assms
proof (induction p z x n z1 z2 arbitrary: v rule: sqrt_loop.induct)
  case (1 p z x n z1 z2)
  note z1 = normal_words [OF "1.prems"(2)]
  have ne: "words z1 \<noteq> []" using "1.prems"(3) z1(2) by auto
  have len: "length (words z1) < B"
  proof (rule ccontr)
    assume "\<not> length (words z1) < B"
    then have "B ^ (B - 1) \<le> B ^ (length (words z1) - 1)" by (intro power_increasing) (use B_pos(1) in linarith)+
    then show False using val_ge [OF z1(1) ne] z1(2) "1.prems"(4) by linarith
  qed
  obtain q r p1 where q: "nat_div False p z2 nat_nil x (words z1) = Inr (q, r, p1)" "nat_is q (val x div v)"
    using nat_div_ok [OF "1.prems"(1) z1(1) len, of False p z2 nat_nil] ne z1(2) by auto
  obtain a where a: "nat_add q (words q) (words z1) = Inr a" "nat_is a (val x div v + v)"
    using nat_add_ok [of "words q" "words z1" q] normal_words [OF q(2)] z1 by auto
  note A = normal_words [OF a(2)]
  obtain w where w: "nat_shr (count a > 0) (array a \<noteq> []) a (words a) 1 = Inr w" "nat_is w ((val x div v + v) div 2)"
    using nat_shr_ok [OF A(1) A(3), of "count a > 0" "array a \<noteq> []" 1] A(2) by auto
  note W = normal_words [OF w(2)]
  have cmp: "nat_cmp (words w) (words z1) \<ge> 0 \<longleftrightarrow> v \<le> (val x div v + v) div 2"
    unfolding nat_cmp_ok [OF W(1) z1(1)] W(2) z1(2) by simp
  show ?case
  proof (cases "v \<le> (val x div v + v) div 2")
    case True
    have v: "isqrt (val x) = v" using newton_stops [OF "1.prems"(3) True] "1.prems"(5) by (rule isqrt_unique)
    have "sqrt_loop p z x n z1 z2 = (if n mod 2 = 0 then Inr (z1, p1) else Inr (nat_set z (words z1), p1))"
      by (subst sqrt_loop.simps) (simp only: q(1) a(1) w(1) cmp go_bind_Inr prod.case True if_True)
    then show ?thesis using "1.prems"(2) set_nat_ok [OF z1(1), of z] z1(2) unfolding v by auto
  next
    case False
    let ?v = "(val x div v + v) div 2"
    have above: "s \<le> ?v" if "s ^ 2 \<le> val x" for s using newton_above [OF "1.prems"(3) that] .
    have "1 \<le> ?v" using above [of 1] "1.prems"(6) by simp
    then have pos: "0 < ?v" by (rule order_less_le_trans [OF zero_less_one])
    have lt: "?v < B ^ (B - 1)" using False "1.prems"(4) by linarith
    have nc: "\<not> nat_cmp (words w) (words z1) \<ge> 0" unfolding cmp by (rule False)
    have "\<exists>z' p'. sqrt_loop p1 z x (n + 1) w z1 = Inr (z', p') \<and> nat_is z' (isqrt (val x))"
      by (rule "1.IH" [OF q(1) refl refl a(1) w(1) nc "1.prems"(1) w(2) pos lt above "1.prems"(6)])
    then show ?thesis by (subst sqrt_loop.simps) (simp only: q(1) a(1) w(1) cmp go_bind_Inr prod.case False if_False)
  qed
qed

lemma nat_sqrt_ok:
  assumes "normal x" and "length x < B - 1"
  shows "\<exists>z' p'. nat_sqrt al p z x = Inr (z', p') \<and> nat_is z' (isqrt (val x))"
proof -
  have one: "normal [1 :: u64]" "val [1] = 1" by (simp_all add: normal_def)
  show ?thesis
  proof (cases "val x \<le> 1")
    case True
    then consider "val x = 0" | "val x = 1" by linarith
    then have "isqrt (val x) = val x"
    proof cases
      case 1
      then show ?thesis by (intro isqrt_unique) simp_all
    next
      case 2
      have "s \<le> 1" if "s ^ 2 \<le> 1" for s :: nat using that power2_nat_le_imp_le by auto
      then show ?thesis using 2 by (intro isqrt_unique) simp_all
    qed
    moreover have "nat_cmp x [1] \<le> 0" using True nat_cmp_ok [OF assms(1) one(1)] one(2) by simp
    ultimately show ?thesis using set_nat_ok [OF assms(1), of z] by (simp add: nat_sqrt_def)
  next
    case False
    let ?z = "if al then nat_nil else z" and ?k = "(bitlen (val x) + 1) div 2"
    obtain u where u: "nat_setUint64 ?z 1 = Inr u" "nat_is u 1" using setWord_ok [of ?z 1] by (auto simp: nat_setUint64_def)
    note U = normal_words [OF u(2)]
    obtain w where w: "nat_shl (count u > 0) (array u \<noteq> []) u (words u) ?k = Inr w" "nat_is w (2 ^ ?k)"
      using nat_shl_ok [OF U(1) U(3), of "count u > 0" "array u \<noteq> []" ?k] U(2) by auto
    have b: "val x < 2 ^ bitlen (val x)" using bitlen_le_iff [of "val x" "bitlen (val x)"] by simp
    have above: "s \<le> 2 ^ ?k" if "s ^ 2 \<le> val x" for s
    proof (rule ccontr)
      assume "\<not> s \<le> 2 ^ ?k"
      then have "(2 ^ ?k) ^ 2 \<le> s ^ 2" by (intro power_mono) simp_all
      moreover have "(2 :: nat) ^ bitlen (val x) \<le> (2 ^ ?k) ^ 2"
        unfolding power_mult [symmetric] by (intro power_increasing) linarith+
      ultimately show False using that b by linarith
    qed
    have room: "2 ^ ?k < B ^ (B - 1)"
    proof -
      have "val x < 2 ^ (64 * length x)" using val_lt [of x] by (simp only: B_pow)
      then have "bitlen (val x) \<le> 64 * length x" by (simp only: bitlen_le_iff)
      then have "?k < 64 * (B - 1)" using assms(2) by linarith
      then show ?thesis unfolding B_pow by (intro power_strict_increasing) simp_all
    qed
    have k: "nat (nat_bitLen x + 1) div 2 = ?k" using nat_bitLen_eq [OF assms(1)] by (simp add: nat_add_distrib)
    have "\<exists>z' p'. sqrt_loop p ?z x 0 w nat_nil = Inr (z', p') \<and> nat_is z' (isqrt (val x))"
      using False by (intro sqrt_loop_ok [OF assms(1) w(2) _ room above]) simp_all
    moreover have "\<not> nat_cmp x [1] \<le> 0" using False nat_cmp_ok [OF assms(1) one(1)] one(2) by simp
    ultimately show ?thesis using u(1) w(1) by (simp add: nat_sqrt_def Let_def k)
  qed
qed

end
