(* ===== verification/Big_Int.thy ===== *)
theory Big_Int
  imports Big_Bits Big_Sqr Big_Sqrt
begin

text \<open>
  Package \<^verbatim>\<open>math/big\<close>: the signed numbers of \<^verbatim>\<open>int.go\<close>.  The methods take pointers, which may be equal: an \<open>Int\<close> is at
  an address of a store, and a method is a function from the store to the store after the call.  Addresses from
  \<open>fresh\<close> on are free; the local variables and \<open>new(Int)\<close> take them from there.  Every \<open>Int\<close> has an array of its own
  (the documentation forbids shallow copies), so that \<open>alias\<close> of two magnitudes is the equality of their addresses.
  The store also holds the pool of temporaries.
\<close>

section \<open>The store\<close>

record big_int =
  neg :: bool
  mag :: nat_slice

record int_store =
  ints :: "nat \<Rightarrow> big_int"
  fresh :: nat
  nats :: pool

definition is_neg :: "int_store \<Rightarrow> nat \<Rightarrow> bool" where
  "is_neg h x = neg (ints h x)"

definition mag_of :: "int_store \<Rightarrow> nat \<Rightarrow> nat_slice" where
  "mag_of h x = mag (ints h x)"

definition abs_of :: "int_store \<Rightarrow> nat \<Rightarrow> u64 list" where
  "abs_of h x = words (mag_of h x)"

definition put_int :: "int_store \<Rightarrow> nat \<Rightarrow> bool \<Rightarrow> nat_slice \<Rightarrow> int_store" where
  "put_int h z b m = h\<lparr>ints := (ints h)(z := \<lparr>neg = b, mag = m\<rparr>)\<rparr>"

definition put_signed :: "int_store \<Rightarrow> nat \<Rightarrow> bool \<Rightarrow> nat_slice \<Rightarrow> int_store" where
  "put_signed h z b m = put_int h z (count m > 0 \<and> b) m"

definition new_int :: "int_store \<Rightarrow> nat \<times> int_store" where
  "new_int h = (fresh h, put_int (h\<lparr>fresh := fresh h + 1\<rparr>) (fresh h) False nat_nil)"

text \<open>The package variable \<open>intOne\<close> has an address that no caller has; \<open>natOne\<close> is read only.\<close>

definition intOne :: nat where "intOne = 0"

definition natOne :: "u64 list" where "natOne = [1]"

definition initial_store :: int_store where
  "initial_store = \<lparr>ints = (\<lambda>_. \<lparr>neg = False, mag = \<lparr>array = natOne, count = 1\<rparr>\<rparr>), fresh = 1, nats = []\<rparr>"

section \<open>Setting\<close>

definition Int_Sign :: "int_store \<Rightarrow> nat \<Rightarrow> int" where
  "Int_Sign h x = (if length (abs_of h x) = 0 then 0 else if is_neg h x then -1 else 1)"

definition Int_SetInt64 :: "nat \<Rightarrow> u64 \<Rightarrow> int_store \<Rightarrow> int_store go" where
  "Int_SetInt64 z x h =
    (let (n, x) = (if sint x < 0 then (True, - x) else (False, x))
     in go_bind (nat_setUint64 (mag_of h z) x) (\<lambda>m. Inr (put_int h z n m)))"

definition Int_SetUint64 :: "nat \<Rightarrow> u64 \<Rightarrow> int_store \<Rightarrow> int_store go" where
  "Int_SetUint64 z x h = go_bind (nat_setUint64 (mag_of h z) x) (\<lambda>m. Inr (put_int h z False m))"

definition NewInt :: "u64 \<Rightarrow> int_store \<Rightarrow> nat \<times> int_store" where
  "NewInt x h =
    (let u = (if sint x < 0 then - x else x);
         a = (if x = 0 then nat_nil else \<lparr>array = [u], count = 1\<rparr>);
         (z, h) = new_int h
     in (z, put_int h z (sint x < 0) a))"

definition Int_Set :: "nat \<Rightarrow> nat \<Rightarrow> int_store \<Rightarrow> int_store" where
  "Int_Set z x h = (if z \<noteq> x then put_int h z (is_neg h x) (nat_set (mag_of h z) (abs_of h x)) else h)"

definition Int_Bits :: "int_store \<Rightarrow> nat \<Rightarrow> nat_slice" where
  "Int_Bits h x = mag_of h x"

definition Int_SetBits :: "nat \<Rightarrow> nat_slice \<Rightarrow> int_store \<Rightarrow> int_store" where
  "Int_SetBits z a h = put_int h z False (nat_norm a)"

definition Int_Abs :: "nat \<Rightarrow> nat \<Rightarrow> int_store \<Rightarrow> int_store" where
  "Int_Abs z x h = (let h = Int_Set z x h in put_int h z False (mag_of h z))"

definition Int_Neg :: "nat \<Rightarrow> nat \<Rightarrow> int_store \<Rightarrow> int_store" where
  "Int_Neg z x h = (let h = Int_Set z x h in put_signed h z (\<not> is_neg h z) (mag_of h z))"

section \<open>Comparison\<close>

definition Int_Cmp :: "int_store \<Rightarrow> nat \<Rightarrow> nat \<Rightarrow> int" where
  "Int_Cmp h x y =
    (if x = y then 0
     else if is_neg h x = is_neg h y
     then let r = nat_cmp (abs_of h x) (abs_of h y) in if is_neg h x then - r else r
     else if is_neg h x then -1 else 1)"

definition Int_CmpAbs :: "int_store \<Rightarrow> nat \<Rightarrow> nat \<Rightarrow> int" where
  "Int_CmpAbs h x y = nat_cmp (abs_of h x) (abs_of h y)"

section \<open>Sum, difference, product\<close>

definition Int_Add :: "nat \<Rightarrow> nat \<Rightarrow> nat \<Rightarrow> int_store \<Rightarrow> int_store go" where
  "Int_Add z x y h =
    (let n = is_neg h x; xa = abs_of h x; ya = abs_of h y; za = mag_of h z in
     if is_neg h x = is_neg h y then go_bind (nat_add za xa ya) (\<lambda>m. Inr (put_signed h z n m))
     else if nat_cmp xa ya \<ge> 0 then go_bind (nat_sub za xa ya) (\<lambda>m. Inr (put_signed h z n m))
     else let n = (\<not> n) in go_bind (nat_sub za ya xa) (\<lambda>m. Inr (put_signed h z n m)))"

definition Int_Sub :: "nat \<Rightarrow> nat \<Rightarrow> nat \<Rightarrow> int_store \<Rightarrow> int_store go" where
  "Int_Sub z x y h =
    (let n = is_neg h x; xa = abs_of h x; ya = abs_of h y; za = mag_of h z in
     if is_neg h x \<noteq> is_neg h y then go_bind (nat_add za xa ya) (\<lambda>m. Inr (put_signed h z n m))
     else if nat_cmp xa ya \<ge> 0 then go_bind (nat_sub za xa ya) (\<lambda>m. Inr (put_signed h z n m))
     else let n = (\<not> n) in go_bind (nat_sub za ya xa) (\<lambda>m. Inr (put_signed h z n m)))"

definition Int_Mul :: "nat \<Rightarrow> nat \<Rightarrow> nat \<Rightarrow> int_store \<Rightarrow> int_store go" where
  "Int_Mul z x y h =
    (if x = y
     then go_bind (nat_sqr (z = x) (nats h) (mag_of h z) (abs_of h x)) (\<lambda>(m, p). Inr (put_int (h\<lparr>nats := p\<rparr>) z False m))
     else go_bind (nat_mul (z = x \<or> z = y) (nats h) (mag_of h z) (abs_of h x) (abs_of h y)) (\<lambda>(m, p).
       Inr (put_signed (h\<lparr>nats := p\<rparr>) z (is_neg h x \<noteq> is_neg h y) m)))"

definition Int_MulRange :: "nat \<Rightarrow> u64 \<Rightarrow> u64 \<Rightarrow> int_store \<Rightarrow> int_store go" where
  "Int_MulRange z a b h =
    (if sint a > sint b then Int_SetInt64 z 1 h
     else if sint a \<le> 0 \<and> sint b \<ge> 0 then Int_SetInt64 z 0 h
     else
       let (n, a, b) = (if sint a < 0 then ((b - a) AND 1 = 0, - b, - a) else (False, a, b))
       in go_bind (nat_mulRange (nats h) (mag_of h z) a b) (\<lambda>(m, p). Inr (put_int (h\<lparr>nats := p\<rparr>) z n m)))"

section \<open>Division\<close>

definition Int_Quo :: "nat \<Rightarrow> nat \<Rightarrow> nat \<Rightarrow> int_store \<Rightarrow> int_store go" where
  "Int_Quo z x y h =
    go_bind (nat_div False (nats h) (mag_of h z) nat_nil (abs_of h x) (abs_of h y)) (\<lambda>(q, _, p).
    Inr (put_signed (h\<lparr>nats := p\<rparr>) z (is_neg h x \<noteq> is_neg h y) q))"

definition Int_Rem :: "nat \<Rightarrow> nat \<Rightarrow> nat \<Rightarrow> int_store \<Rightarrow> int_store go" where
  "Int_Rem z x y h =
    go_bind (nat_div False (nats h) nat_nil (mag_of h z) (abs_of h x) (abs_of h y)) (\<lambda>(_, r, p).
    Inr (put_signed (h\<lparr>nats := p\<rparr>) z (is_neg h x) r))"

definition Int_QuoRem :: "nat \<Rightarrow> nat \<Rightarrow> nat \<Rightarrow> nat \<Rightarrow> int_store \<Rightarrow> int_store go" where
  "Int_QuoRem z x y r h =
    go_bind (nat_div (z = r) (nats h) (mag_of h z) (mag_of h r) (abs_of h x) (abs_of h y)) (\<lambda>(q, m, p).
    Inr (put_signed (put_signed (h\<lparr>nats := p\<rparr>) z (is_neg h x \<noteq> is_neg h y) q) r (is_neg h x) m))"

definition Int_Div :: "nat \<Rightarrow> nat \<Rightarrow> nat \<Rightarrow> int_store \<Rightarrow> int_store go" where
  "Int_Div z x y h =
    (let y_neg = is_neg h y; (r, h) = new_int h
     in go_bind (Int_QuoRem z x y r h) (\<lambda>h.
        if is_neg h r then (if y_neg then Int_Add z z intOne h else Int_Sub z z intOne h) else Inr h))"

text \<open>The copy of \<open>y\<close> that \<open>Mod\<close> and \<open>DivMod\<close> make when \<open>z\<close> is \<open>y\<close>.\<close>

definition saved :: "nat \<Rightarrow> nat \<Rightarrow> int_store \<Rightarrow> nat \<times> int_store" where
  "saved z y h = (if z = y then let (c, h) = new_int h in (c, Int_Set c y h) else (y, h))"

definition Int_Mod :: "nat \<Rightarrow> nat \<Rightarrow> nat \<Rightarrow> int_store \<Rightarrow> int_store go" where
  "Int_Mod z x y h =
    (let (y0, h) = saved z y h; (q, h) = new_int h
     in go_bind (Int_QuoRem q x y z h) (\<lambda>h.
        if is_neg h z then (if is_neg h y0 then Int_Sub z z y0 h else Int_Add z z y0 h) else Inr h))"

definition Int_DivMod :: "nat \<Rightarrow> nat \<Rightarrow> nat \<Rightarrow> nat \<Rightarrow> int_store \<Rightarrow> int_store go" where
  "Int_DivMod z x y m h =
    (let (y0, h) = saved z y h
     in go_bind (Int_QuoRem z x y m h) (\<lambda>h.
        if is_neg h m
        then if is_neg h y0 then go_bind (Int_Add z z intOne h) (Int_Sub m m y0)
          else go_bind (Int_Sub z z intOne h) (Int_Add m m y0)
        else Inr h))"

section \<open>Conversion\<close>

definition low64 :: "u64 list \<Rightarrow> u64" where
  "low64 x = (if length x = 0 then 0 else x ! 0)"

definition low32 :: "u64 list \<Rightarrow> u32" where
  "low32 x = (if length x = 0 then 0 else ucast (x ! 0))"

definition Int_Int64 :: "int_store \<Rightarrow> nat \<Rightarrow> u64" where
  "Int_Int64 h x = (let v = low64 (abs_of h x) in if is_neg h x then - v else v)"

definition Int_Uint64 :: "int_store \<Rightarrow> nat \<Rightarrow> u64" where
  "Int_Uint64 h x = low64 (abs_of h x)"

definition Int_IsInt64 :: "int_store \<Rightarrow> nat \<Rightarrow> bool" where
  "Int_IsInt64 h x =
    (if length (abs_of h x) \<le> 64 div W
     then let w = low64 (abs_of h x) in sint w \<ge> 0 \<or> is_neg h x \<and> w = - w
     else False)"

definition Int_IsUint64 :: "int_store \<Rightarrow> nat \<Rightarrow> bool" where
  "Int_IsUint64 h x \<longleftrightarrow> \<not> is_neg h x \<and> length (abs_of h x) \<le> 64 div W"

definition Int_SetBytes :: "nat \<Rightarrow> u8 list \<Rightarrow> int_store \<Rightarrow> int_store go" where
  "Int_SetBytes z buf h = go_bind (nat_setBytes (mag_of h z) buf) (\<lambda>m. Inr (put_int h z False m))"

definition Int_Bytes :: "int_store \<Rightarrow> nat \<Rightarrow> u8 list go" where
  "Int_Bytes h x =
    go_bind (nat_bytes (abs_of h x) (replicate (length (abs_of h x) * (W div 8)) 0)) (\<lambda>(buf, i). Inr (drop i buf))"

definition Int_FillBytes :: "int_store \<Rightarrow> nat \<Rightarrow> u8 list \<Rightarrow> u8 list go" where
  "Int_FillBytes h x buf = go_bind (nat_bytes (abs_of h x) (map (\<lambda>_. 0) buf)) (\<lambda>(buf, _). Inr buf)"

section \<open>Bits\<close>

definition Int_BitLen :: "int_store \<Rightarrow> nat \<Rightarrow> int" where
  "Int_BitLen h x = nat_bitLen (abs_of h x)"

definition Int_TrailingZeroBits :: "int_store \<Rightarrow> nat \<Rightarrow> int go" where
  "Int_TrailingZeroBits h x = nat_trailingZeroBits (abs_of h x)"

definition Int_Lsh :: "nat \<Rightarrow> nat \<Rightarrow> nat \<Rightarrow> int_store \<Rightarrow> int_store go" where
  "Int_Lsh z x n h =
    go_bind (nat_shl (z = x \<and> abs_of h x \<noteq> []) (z = x \<and> array (mag_of h x) \<noteq> []) (mag_of h z) (abs_of h x) n) (\<lambda>m.
    Inr (put_int h z (is_neg h x) m))"

definition Int_Rsh :: "nat \<Rightarrow> nat \<Rightarrow> nat \<Rightarrow> int_store \<Rightarrow> int_store go" where
  "Int_Rsh z x n h =
    (if is_neg h x
     then go_bind (nat_sub (mag_of h z) (abs_of h x) natOne) (\<lambda>t.
       go_bind (nat_shr (count t > 0) (array t \<noteq> []) t (words t) n) (\<lambda>t.
       go_bind (nat_add t (words t) natOne) (\<lambda>m. Inr (put_int h z True m))))
     else go_bind (nat_shr (z = x \<and> abs_of h x \<noteq> []) (z = x \<and> array (mag_of h x) \<noteq> []) (mag_of h z) (abs_of h x) n) (\<lambda>m.
       Inr (put_int h z False m)))"

definition Int_Bit :: "int_store \<Rightarrow> nat \<Rightarrow> int \<Rightarrow> u64 go" where
  "Int_Bit h x i =
    (if i = 0 then Inr (if length (abs_of h x) > 0 then abs_of h x ! 0 AND 1 else 0)
     else if i < 0 then Inl (PanicMsg ''negative bit index'')
     else if is_neg h x
     then go_bind (nat_sub nat_nil (abs_of h x) natOne) (\<lambda>t. Inr (nat_bit (words t) (nat i) XOR 1))
     else Inr (nat_bit (abs_of h x) (nat i)))"

definition Int_SetBit :: "nat \<Rightarrow> nat \<Rightarrow> int \<Rightarrow> u64 \<Rightarrow> int_store \<Rightarrow> int_store go" where
  "Int_SetBit z x i b h =
    (if i < 0 then Inl (PanicMsg ''negative bit index'')
     else if is_neg h x
     then go_bind (nat_sub (mag_of h z) (abs_of h x) natOne) (\<lambda>t.
       go_bind (nat_setBit t (words t) (nat i) (b XOR 1)) (\<lambda>t.
       go_bind (nat_add t (words t) natOne) (\<lambda>m. Inr (put_int h z (count m > 0) m))))
     else go_bind (nat_setBit (mag_of h z) (abs_of h x) (nat i) b) (\<lambda>m. Inr (put_int h z False m)))"

section \<open>Bitwise operations\<close>

text \<open>What the slice \<open>z\<close> is after a call that left its result \<open>t\<close> in the array of \<open>z\<close> if that had room for it.\<close>

definition after_call :: "nat_slice \<Rightarrow> nat_slice \<Rightarrow> nat_slice" where
  "after_call z t = (if length (array t) = length (array z) then z\<lparr>array := array t\<rparr> else z)"

text \<open>\<open>z.abs.add(t, natOne)\<close> for the result \<open>t\<close> of a call on \<open>z.abs\<close>.\<close>

definition succ_in :: "int_store \<Rightarrow> nat \<Rightarrow> nat_slice go \<Rightarrow> int_store go" where
  "succ_in h z r =
    go_bind r (\<lambda>t. go_bind (nat_add (after_call (mag_of h z) t) (words t) natOne) (\<lambda>m. Inr (put_int h z True m)))"

definition pred_of :: "int_store \<Rightarrow> nat \<Rightarrow> u64 list go" where
  "pred_of h x = go_bind (nat_sub nat_nil (abs_of h x) natOne) (\<lambda>t. Inr (words t))"

definition plain_in :: "int_store \<Rightarrow> nat \<Rightarrow> nat_slice go \<Rightarrow> int_store go" where
  "plain_in h z r = go_bind r (\<lambda>m. Inr (put_int h z False m))"

definition Int_And :: "nat \<Rightarrow> nat \<Rightarrow> nat \<Rightarrow> int_store \<Rightarrow> int_store go" where
  "Int_And z x y h =
    (if is_neg h x = is_neg h y
     then if is_neg h x
       then go_bind (pred_of h x) (\<lambda>x1. go_bind (pred_of h y) (\<lambda>y1. succ_in h z (nat_or (mag_of h z) x1 y1)))
       else plain_in h z (nat_and (mag_of h z) (abs_of h x) (abs_of h y))
     else
       let (x, y) = (if is_neg h x then (y, x) else (x, y))
       in go_bind (pred_of h y) (\<lambda>y1. plain_in h z (nat_andNot (mag_of h z) (abs_of h x) y1)))"

definition Int_AndNot :: "nat \<Rightarrow> nat \<Rightarrow> nat \<Rightarrow> int_store \<Rightarrow> int_store go" where
  "Int_AndNot z x y h =
    (if is_neg h x = is_neg h y
     then if is_neg h x
       then go_bind (pred_of h x) (\<lambda>x1. go_bind (pred_of h y) (\<lambda>y1. plain_in h z (nat_andNot (mag_of h z) y1 x1)))
       else plain_in h z (nat_andNot (mag_of h z) (abs_of h x) (abs_of h y))
     else if is_neg h x
     then go_bind (pred_of h x) (\<lambda>x1. succ_in h z (nat_or (mag_of h z) x1 (abs_of h y)))
     else go_bind (pred_of h y) (\<lambda>y1. plain_in h z (nat_and (mag_of h z) (abs_of h x) y1)))"

definition Int_Or :: "nat \<Rightarrow> nat \<Rightarrow> nat \<Rightarrow> int_store \<Rightarrow> int_store go" where
  "Int_Or z x y h =
    (if is_neg h x = is_neg h y
     then if is_neg h x
       then go_bind (pred_of h x) (\<lambda>x1. go_bind (pred_of h y) (\<lambda>y1. succ_in h z (nat_and (mag_of h z) x1 y1)))
       else plain_in h z (nat_or (mag_of h z) (abs_of h x) (abs_of h y))
     else
       let (x, y) = (if is_neg h x then (y, x) else (x, y))
       in go_bind (pred_of h y) (\<lambda>y1. succ_in h z (nat_andNot (mag_of h z) y1 (abs_of h x))))"

definition Int_Xor :: "nat \<Rightarrow> nat \<Rightarrow> nat \<Rightarrow> int_store \<Rightarrow> int_store go" where
  "Int_Xor z x y h =
    (if is_neg h x = is_neg h y
     then if is_neg h x
       then go_bind (pred_of h x) (\<lambda>x1. go_bind (pred_of h y) (\<lambda>y1. plain_in h z (nat_xor (mag_of h z) x1 y1)))
       else plain_in h z (nat_xor (mag_of h z) (abs_of h x) (abs_of h y))
     else
       let (x, y) = (if is_neg h x then (y, x) else (x, y))
       in go_bind (pred_of h y) (\<lambda>y1. succ_in h z (nat_xor (mag_of h z) (abs_of h x) y1)))"

definition Int_Not :: "nat \<Rightarrow> nat \<Rightarrow> int_store \<Rightarrow> int_store go" where
  "Int_Not z x h =
    (if is_neg h x then plain_in h z (nat_sub (mag_of h z) (abs_of h x) natOne)
     else go_bind (nat_add (mag_of h z) (abs_of h x) natOne) (\<lambda>m. Inr (put_int h z True m)))"

definition Int_Sqrt :: "nat \<Rightarrow> nat \<Rightarrow> int_store \<Rightarrow> int_store go" where
  "Int_Sqrt z x h =
    (if is_neg h x then Inl (PanicMsg ''square root of negative number'')
     else go_bind (nat_sqrt (z = x) (nats h) (mag_of h z) (abs_of h x)) (\<lambda>(m, p). Inr (put_int (h\<lparr>nats := p\<rparr>) z False m)))"

end
