(* ===== verification/Big_Sqr_Spec.thy ===== *)
theory Big_Sqr_Spec
  imports Big_Sqr
begin

text \<open>Squares and products of ranges are exact.\<close>

section \<open>The basic square\<close>

lemma go_fold_upt:
  assumes "i \<le> n" and "P i s" and "\<And>j s. i \<le> j \<Longrightarrow> j < n \<Longrightarrow> P j s \<Longrightarrow> \<exists>s'. f j s = Inr s' \<and> P (Suc j) s'"
  shows "\<exists>s'. go_fold f [i..<n] s = Inr s' \<and> P n s'"
  using assms
proof (induction "n - i" arbitrary: i s)
  case (Suc d)
  then have "i < n" by simp
  obtain s1 where s1: "f i s = Inr s1" "P (Suc i) s1" using Suc.prems(3) [OF order_refl \<open>i < n\<close> Suc.prems(2)] by blast
  have "d = n - Suc i" "Suc i \<le> n" using Suc.hyps(2) by simp_all
  then obtain s' where "go_fold f [Suc i..<n] s1 = Inr s'" "P n s'"
    using Suc.hyps(1) [of "Suc i" s1] s1(2) Suc.prems(3) Suc_leD by blast
  then show ?case using s1(1) \<open>i < n\<close> by (simp add: upt_conv_Cons)
qed simp

lemma mulWW_pair: "mulWW x y = (h, l) \<Longrightarrow> unat l + B * unat h = unat x * unat y"
  using Mul_val [of x y h l] by (simp add: mulWW_def mult.commute split: prod.splits)

text \<open>Two words written at \<open>2 * i\<close>.\<close>

lemma val_two:
  assumes "2 * i + 1 < length z"
  shows "val (take (2 * i + 2) (z[2 * i + 1 := h, 2 * i := l])) = val (take (2 * i) z) + B ^ (2 * i) * (unat l + B * unat h)"
proof -
  have "take (2 * i + 2) (z[2 * i + 1 := h, 2 * i := l]) = take (2 * i) z @ [l, h]"
    using assms by (intro nth_equalityI) (auto simp: nth_append nth_list_update nth_Cons split: nat.splits)
  then show ?thesis using assms by (simp add: val_append)
qed

definition sqr_inv :: "u64 list \<Rightarrow> nat \<Rightarrow> u64 list \<times> u64 list \<Rightarrow> bool" where
  "sqr_inv x i = (\<lambda>(z, t). length z = 2 * length x \<and> length t = 2 * length x \<and> t ! 0 = 0 \<and>
    (\<forall>j < 2 * length x. 2 * i \<le> j + 1 \<longrightarrow> t ! j = 0) \<and>
    val (take (2 * i) z) + 2 * val t = val (take i x) ^ 2)"

lemma sqr_step_ok:
  assumes i: "1 \<le> i" "i < length x" and inv: "sqr_inv x i (z, t)"
  shows "\<exists>s'. basicSqr_step x i (z, t) = Inr s' \<and> sqr_inv x (Suc i) s'"
proof -
  let ?n = "length x" and ?d = "x ! i" and ?xi = "take i x"
  have l: "length z = 2 * ?n" "length t = 2 * ?n" and t0: "t ! 0 = 0" and tz: "\<And>j. j < 2 * ?n \<Longrightarrow> 2 * i \<le> j + 1 \<Longrightarrow> t ! j = 0"
    and v: "val (take (2 * i) z) + 2 * val t = val ?xi ^ 2" using inv by (auto simp: sqr_inv_def)
  obtain h w where m: "mulWW ?d ?d = (h, w)" by fastforce
  note M = mulWW_pair [OF m]
  let ?z = "z[2 * i + 1 := h, 2 * i := w]"
  define a b e where "a = take i t" and "b = take i (drop i t)" and "e = drop (2 * i) t"
  have t: "t = a @ b @ e" unfolding a_def b_def e_def by (metis append_take_drop_id drop_drop mult_2)
  have len: "length a = i" "length b = i" "length e = 2 * ?n - 2 * i" using i l by (simp_all add: a_def b_def e_def)
  have e: "e = replicate (2 * ?n - 2 * i) 0"
    using len(3) tz l(2) by (intro nth_equalityI) (simp_all add: e_def)
  obtain r c where r: "addMulVVW b ?xi ?d = (r, c)" by fastforce
  have R: "val r + B ^ i * unat c = val b + val ?xi * unat ?d" "length r = i" using addMulVVW_val [OF r] len i by simp_all
  have on: "on_part t i (2 * i) (\<lambda>s. Inr (addMulVVW s ?xi ?d)) = Inr (a @ r @ e, c)"
    unfolding t by (rule on_part_parts) (use len R r in simp_all)
  let ?e = "replicate (2 * ?n - 2 * i - 1) (0 :: u64)"
  have k: "2 * ?n - 2 * i = Suc (2 * ?n - 2 * i - 1)" using i by simp
  have "e = 0 # ?e" unfolding e by (subst k) (simp only: replicate_Suc)
  then have set: "(a @ r @ e)[2 * i := c] = a @ r @ c # ?e" using len R by (simp add: list_update_append)
  have "basicSqr_step x i (z, t) = Inr (?z, a @ r @ c # ?e)"
    unfolding basicSqr_step_def prod.case
    using i l m on set len R by (simp add: Let_def)
  moreover have "sqr_inv x (Suc i) (?z, a @ r @ c # ?e)"
  proof -
    have "val (a @ r @ c # ?e) = val t + B ^ i * (val ?xi * unat ?d)"
    proof -
      have "B ^ i * (val r + B ^ i * unat c) = B ^ i * (val b + val ?xi * unat ?d)" using R(1) by simp
      then show ?thesis unfolding t e using len R(2) by (simp add: val_append algebra_simps)
    qed
    moreover have "val (take (2 * i + 2) ?z) = val (take (2 * i) z) + B ^ (2 * i) * (unat ?d * unat ?d)"
      using val_two [of i z h w] i l M by simp
    moreover have "val (take (Suc i) x) = val ?xi + B ^ i * unat ?d"
      using i(2) by (simp add: take_Suc_conv_app_nth val_append)
    ultimately have "val (take (2 * i + 2) ?z) + 2 * val (a @ r @ c # ?e) = val (take (Suc i) x) ^ 2"
      using v by (simp add: power2_eq_square power_mult algebra_simps)
    moreover have "(a @ r @ c # ?e) ! 0 = 0" using t0 i(1) len(1) t by (cases a) auto
    moreover have "(a @ r @ c # ?e) ! j = 0" if "j < 2 * ?n" "2 * Suc i \<le> j + 1" for j
    proof -
      have "a @ r @ c # ?e = (a @ r @ [c]) @ ?e" "\<not> j < length (a @ r @ [c])" using that len R(2) by simp_all
      then show ?thesis using that by (simp only: nth_append if_False) (use that len R(2) in simp)
    qed
    moreover have "length (a @ r @ c # ?e) = 2 * ?n" using len R(2) i by simp
    ultimately show ?thesis using l by (simp add: sqr_inv_def)
  qed
  ultimately show ?thesis by blast
qed

lemma list_ends: "length t = m + 2 \<Longrightarrow> t = [t ! 0] @ take m (drop 1 t) @ [t ! (m + 1)]"
  by (cases t; cases "tl t" rule: rev_cases) auto

lemma basicSqr_ok:
  assumes "2 \<le> length x" and "length z = 2 * length x"
  shows "\<exists>r p'. basicSqr p z x = Inr (r, p') \<and> length r = length z \<and> val r = val x ^ 2"
proof -
  let ?n = "length x"
  obtain tp p1 where tp: "getNat p (2 * ?n) = Inr (tp, p1)" "wf tp" "count tp = 2 * ?n" using getNat_ok by blast
  have ct: "clear (words tp) = replicate (2 * ?n) 0" using tp by (simp add: clear_def)
  obtain h l where m: "mulWW (x ! 0) (x ! 0) = (h, l)" by fastforce
  let ?z = "z[1 := h, 0 := l]" and ?t = "replicate (2 * ?n) (0 :: u64)"
  have x1: "take 1 x = [x ! 0]" using assms(1) by (cases x) simp_all
  have "val (take 2 ?z) = unat (x ! 0) * unat (x ! 0)" using val_two [of 0 z h l] mulWW_pair [OF m] assms by (simp add: numeral_2_eq_2)
  moreover have "?t ! 0 = 0" by (rule nth_replicate) (use assms in linarith)
  ultimately have "sqr_inv x 1 (?z, ?t)" using assms x1 by (simp add: sqr_inv_def power2_eq_square)
  then obtain z1 t1 where f: "go_fold (basicSqr_step x) [1..<?n] (?z, ?t) = Inr (z1, t1)" "sqr_inv x ?n (z1, t1)"
    using go_fold_upt [of 1 ?n "sqr_inv x" "(?z, ?t)" "basicSqr_step x"] sqr_step_ok assms(1) by fastforce
  then have L: "length z1 = 2 * ?n" "length t1 = 2 * ?n" "t1 ! 0 = 0" "t1 ! (2 * ?n - 1) = 0" "val z1 + 2 * val t1 = val x ^ 2"
    using assms(1) by (auto simp: sqr_inv_def)
  define a where "a = take (2 * ?n - 2) (drop 1 t1)"
  have "length t1 = (2 * ?n - 2) + 2" "2 * ?n - 1 = (2 * ?n - 2) + 1" using L(2) assms(1) by simp_all
  then have t1: "t1 = [0] @ a @ [0]" using list_ends [of t1 "2 * ?n - 2"] L(3,4) unfolding a_def by simp
  have la: "length a = 2 * ?n - 2" "a \<noteq> []" using L(2) assms(1) unfolding a_def by auto
  obtain r c where r: "shlVU a a 1 = Inr (r, c)" "length r = length a" "val r + B ^ length a * unat c = val a * 2 ^ 1"
    using shlVU_val [of 1 a a] la(2) by auto
  have on: "on_part t1 1 (2 * ?n - 1) (\<lambda>s. shlVU s s 1) = Inr ([0] @ r @ [0], c)"
    unfolding t1 by (rule on_part_parts) (use la r assms(1) in simp_all)
  let ?u = "[0] @ r @ [c]"
  have set: "([0] @ r @ [0])[2 * ?n - 1 := c] = ?u"
  proof -
    have "2 * ?n - 1 = length ([0 :: u64] @ r)" using la(1) r(2) assms(1) by simp
    then show ?thesis using list_update_length [of "[0] @ r" 0 "[]" c] by simp
  qed
  have vu: "val ?u = 2 * val t1" unfolding t1 using r(3) la r(2) by (simp add: val_append algebra_simps)
  have lu: "length ?u = 2 * ?n" using la r(2) assms(1) by simp
  obtain q k where q: "addVV z1 z1 ?u = (q, k)" by fastforce
  have Q: "val q + B ^ (2 * ?n) * unat k = val x ^ 2" "length q = 2 * ?n" using addVV_val [OF q] L lu vu by simp_all
  have "val x ^ 2 < (B ^ ?n) ^ 2" using val_lt [of x] by (intro power_strict_mono) simp_all
  then have "unat k = 0" using Q(1) by (cases "unat k") (simp_all add: power_mult [symmetric] mult.commute)
  then have "val q = val x ^ 2" using Q(1) by simp
  moreover have "basicSqr p z x = Inr (q, p1)"
  proof -
    have "x \<noteq> []" using assms(1) by auto
    then have g: "vget x 0 = Inr (x ! 0)" "vset z 1 h = Inr (z[1 := h])" "vset (z[1 := h]) 0 l = Inr ?z"
      "vset ([0] @ r @ [0]) (2 * ?n - 1) c = Inr ?u"
      using assms set la(1) r(2) by (simp_all add: vget_def vset_def)
    show ?thesis unfolding basicSqr_def Let_def tp(1) go_bind_Inr prod.case ct
      unfolding g(1) go_bind_Inr m prod.case g(2,3) f(1) on g(4) q fst_conv ..
  qed
  ultimately show ?thesis using Q(2) assms by simp
qed

section \<open>Karatsuba's square\<close>

lemma karatsubaSqr_diff_ok:
  assumes "length a = length d" and "length b = length d"
  shows "\<exists>r. karatsubaSqr_diff d a b = r \<and> length r = length d \<and> int (val r) ^ 2 = (int (val a) - int (val b)) ^ 2"
proof -
  obtain r c where r: "subVV d a b = (r, c)" by fastforce
  obtain q k where q: "subVV r b a = (q, k)" by fastforce
  obtain r' s' where k: "karatsuba_diff d a b 1 = (r', s')" "length r' = length d" "s' = 1 \<or> s' = - 1"
    "s' * int (val r') = 1 * (int (val a) - int (val b))"
    using karatsuba_diff_ok [OF assms, of 1] by metis
  have "karatsubaSqr_diff d a b = r'" using k(1) r q by (auto simp: karatsubaSqr_diff_def karatsuba_diff_def split: if_splits)
  moreover have "int (val r') ^ 2 = (int (val a) - int (val b)) ^ 2" using k(3,4) by (metis mult_1 mult_minus1 power2_minus)
  ultimately show ?thesis using k(2) by blast
qed

lemma karatsubaSqr_step:
  assumes big: "n = 2 * n2" "karatsubaSqrThreshold \<le> n" "2 \<le> n"
    and x: "length x0 = n2" "length x1 = n2"
    and 1: "karatsubaSqr p z x0 = Inr (S0 @ r1, p1)" "length S0 = n"
    and 2: "karatsubaSqr p1 r1 x1 = Inr (S1 @ xd @ yd @ r4, p2)" "length r1 = length (S1 @ xd @ yd @ r4)" "length S1 = n"
    and d: "length xd = n2" "length yd = n2" "length xd' = n2" "karatsubaSqr_diff xd x1 x0 = xd'"
    and 3: "karatsubaSqr p2 r4 xd' = Inr (r5, p3)" "length r5 = length r4"
  shows "karatsubaSqr p z (x0 @ x1) = go_bind (karatsuba_sum (S0 @ S1 @ (xd' @ yd) @ r5) n n2 (- 1)) (\<lambda>z. Inr (z, p3))"
proof -
  have v: "vfrom (x0 @ x1) n2 = Inr x1" "vslice (x0 @ x1) 0 n2 = Inr x0" using x by (simp_all add: vfrom_def vslice_def)
  have a: "vfrom (S0 @ r1) n = Inr r1" "patch (S0 @ r1) n (S1 @ xd @ yd @ r4) = S0 @ S1 @ xd @ yd @ r4"
    using 1(2) 2(2) by (simp_all add: vfrom_def patch_def)
  have b: "on_part (S0 @ S1 @ xd @ yd @ r4) (2 * n) (2 * n + n2) (\<lambda>xd. Inr (karatsubaSqr_diff xd x1 x0, ())) = Inr ((S0 @ S1) @ xd' @ yd @ r4, ())"
    using on_part_parts [of "2 * n" "S0 @ S1" "2 * n + n2" xd "\<lambda>xd. Inr (karatsubaSqr_diff xd x1 x0, ())" xd' "()" "yd @ r4"] 1 2 d by simp
  have c: "vslice (S0 @ S1 @ xd' @ yd @ r4) (2 * n) (2 * n + n2) = Inr xd'" using 1 2 d by (simp add: vslice_def)
  have e: "vfrom (S0 @ S1 @ xd' @ yd @ r4) (n * 3) = Inr r4" "patch (S0 @ S1 @ xd' @ yd @ r4) (n * 3) r5 = (S0 @ S1 @ xd' @ yd) @ r5"
    using 1 2 d 3(2) big(1) by (simp_all add: vfrom_def patch_def)
  have n: "length (x0 @ x1) = n" "n div 2 = n2" "\<not> (n mod 2 \<noteq> 0 \<or> n < karatsubaSqrThreshold \<or> n < 2)" using x big by auto
  show ?thesis
    by (subst karatsubaSqr.simps) (simp only: n Let_def if_False v go_bind_Inr 1(1) 2(1) a b append_assoc prod.case c e 3(1))
qed

lemma karatsubaSqr_ok:
  assumes "2 \<le> length x" and "6 * length x \<le> length z"
  shows "\<exists>r p'. karatsubaSqr p z x = Inr (r, p') \<and> length r = length z \<and> val (take (2 * length x) r) = val x ^ 2"
  using assms
proof (induction "length x" arbitrary: p z x rule: less_induct)
  case less
  show ?case
  proof (cases "length x mod 2 \<noteq> 0 \<or> length x < karatsubaSqrThreshold \<or> length x < 2")
    case True
    let ?s = "take (2 * length x) z"
    have "length ?s = 2 * length x" using less.prems by simp
    then obtain r p' where r: "basicSqr p ?s x = Inr (r, p')" "length r = 2 * length x" "val r = val x ^ 2"
      using basicSqr_ok [OF less.prems(1), of ?s p] by auto
    have "karatsubaSqr p z x = Inr (patch z 0 r, p')" using True less.prems r(1) by (subst karatsubaSqr.simps) simp
    then show ?thesis using r(2,3) less.prems by (simp add: patch_def)
  next
    case False
    then obtain n2 where n2: "length x = 2 * n2" by (metis mod_0_imp_dvd dvdE)
    define n where "n = 2 * n2"
    have big: "karatsubaSqrThreshold \<le> n" "2 \<le> n" "n2 < n" "2 \<le> n2" using False n2 unfolding n_def karatsubaSqrThreshold_def by auto
    obtain t where t: "length z = 6 * n + t" using less.prems(2) n2 le_Suc_ex unfolding n_def by metis
    obtain x0 x1 where x: "x = x0 @ x1" "length x0 = n2" "length x1 = n2" using split_as [of x n2 n2] n2 by auto
    have rec: "\<exists>a b c p'. karatsubaSqr p w u = Inr (a @ b @ c, p') \<and> length a = n \<and> length b = l \<and> length c = m \<and> val a = val u ^ 2"
      if "length u = n2" "length w = n + l + m" "2 * n \<le> l + m" for w u l m p
    proof -
      have q: "length u < length x" "2 \<le> length u" "6 * length u \<le> length w" "2 * length u = n"
        using that n2 big(3,4) unfolding n_def by linarith+
      obtain r p' where r: "karatsubaSqr p w u = Inr (r, p')" "length r = length w" "val (take n r) = val u ^ 2"
        using less.hyps [OF q(1-3)] unfolding q(4) by blast
      then show ?thesis using that
        by (intro exI [of _ "take n r"] exI [of _ "take l (drop n r)"] exI [of _ "drop l (drop n r)"] exI [of _ p']) (simp del: drop_drop)
    qed
    obtain S0 r1 p1 where 1: "karatsubaSqr p z x0 = Inr (S0 @ r1, p1)" "length S0 = n" "length r1 = 5 * n + t" "val S0 = val x0 ^ 2"
      using rec [of x0 z 0 "5 * n + t" p] x t by auto
    obtain S1 d r4 p2 where 2: "karatsubaSqr p1 r1 x1 = Inr (S1 @ d @ r4, p2)" "length S1 = n" "length d = n2 + n2" "length r4 = 3 * n + t" "val S1 = val x1 ^ 2"
      using rec [of x1 r1 "n2 + n2" "3 * n + t" p1] x 1(3) unfolding n_def by auto
    obtain xd yd where d: "d = xd @ yd" "length xd = n2" "length yd = n2" using split_as [OF 2(3)] by blast
    obtain xd' where xs: "karatsubaSqr_diff xd x1 x0 = xd'" "length xd' = n2" "int (val xd') ^ 2 = (int (val x1) - int (val x0)) ^ 2"
      using karatsubaSqr_diff_ok [of x1 xd x0] x(2,3) d(2) by auto
    obtain P Q T p3 where 3: "karatsubaSqr p2 r4 xd' = Inr (P @ Q @ T, p3)" "length P = n" "length Q = 2 * n" "length T = t" "val P = val xd' ^ 2"
      using rec [OF xs(2), of r4 "2 * n" t p2] 2(4) by auto
    have "val x ^ 2 < (B ^ length x) ^ 2" using val_lt [of x] by (intro power_strict_mono) simp_all
    then have lt: "val x ^ 2 < B ^ (2 * n)" using n2 unfolding n_def by (simp add: mult.commute flip: power_mult)
    have V: "int (val S0) + int B ^ n2 * (int (val S0) + int (val S1) + (- 1) * int (val P)) + int B ^ n * int (val S1) = int (val x ^ 2)"
    proof -
      have b: "int B ^ n = int B ^ n2 * int B ^ n2" unfolding n_def by (simp flip: power_add add: mult_2)
      have xx: "int (val x ^ 2) = (int (val x0) + int B ^ n2 * int (val x1)) ^ 2"
        unfolding x(1) using x(2) by (simp add: val_append)
      show ?thesis unfolding xx b unfolding 1(4) 2(5) 3(5) of_nat_power xs(3) by (simp add: power2_eq_square algebra_simps)
    qed
    have ld: "length (xd' @ yd) = n" using xs(2) d(3) n_def by simp
    obtain F T' where F: "karatsuba_sum (S0 @ S1 @ (xd' @ yd) @ P @ Q @ T) n n2 (- 1) = Inr (F @ (xd' @ yd) @ P @ T')"
      "length F = 2 * n" "length T' = 2 * n + length T" "val F = val x ^ 2"
      using karatsuba_sum_ok [OF 1(2) 2(2) ld 3(2,3) n_def _ V lt, of T] by blast
    have "karatsubaSqr p z x = Inr (F @ (xd' @ yd) @ P @ T', p3)"
      unfolding x(1)
      by (subst karatsubaSqr_step [OF n_def big(1,2) x(2,3) 1(1,2) 2(1) [unfolded d(1) append_assoc] _ 2(2) d(2,3) xs(2) xs(1) 3(1)])
        (simp_all add: 1 2 3 d(2,3) n_def [symmetric] F(1) [simplified])
    then show ?thesis using F ld 3 t n2 unfolding n_def by simp
  qed
qed

section \<open>The square\<close>

lemma karatsubaLen_ge: "3 \<le> t \<Longrightarrow> 2 \<le> n \<Longrightarrow> 2 \<le> karatsubaLen n t"
proof -
  have "3 \<le> t \<Longrightarrow> 2 \<le> n \<Longrightarrow> 2 \<le> karatsubaLen_loop n t i" for i
  proof (induction n t i rule: karatsubaLen_loop.induct)
    case (1 n t i)
    show ?case
    proof (cases "n > t")
      case True
      then have "2 \<le> n div 2" using "1.prems" by linarith
      then show ?thesis using 1 True by (subst karatsubaLen_loop.simps) simp
    next
      case False
      have "n * 1 \<le> n * 2 ^ i" by (intro mult_le_mono2) simp
      then have "2 \<le> n * 2 ^ i" using "1.prems" by linarith
      then show ?thesis using False by (subst karatsubaLen_loop.simps) (simp add: push_bit_eq_mult)
    qed
  qed
  then show "3 \<le> t \<Longrightarrow> 2 \<le> n \<Longrightarrow> 2 \<le> karatsubaLen n t" by (simp add: karatsubaLen_def)
qed

lemma add_words:
  assumes "nat_is t v" and "wf z" and "val (words z) + B ^ i * v < B ^ count z"
  shows "\<exists>z'. on_words z (\<lambda>w. addAt w (words t) i) = Inr z' \<and> wf z' \<and> count z' = count z \<and> val (words z') = val (words z) + B ^ i * v"
proof -
  have t: "normal (words t)" "val (words t) = v" using assms(1) by (simp_all add: nat_is_def)
  obtain r where r: "addAt (words z) (words t) i = Inr r" "length r = count z" "val r = val (words z) + B ^ i * v"
    using addAt_ok [OF t(1), of "words z" i] t(2) assms(2,3) by auto
  then show ?thesis using on_words_ok [OF assms(2), of "\<lambda>w. addAt w (words t) i" r] by auto
qed

lemma two_words: "length xs = 2 \<Longrightarrow> \<exists>a b. xs = [a, b]"
  by (cases xs; cases "tl xs") auto

lemma sqr_small:
  assumes "length x < karatsubaSqrThreshold"
  shows "\<exists>z' p'. nat_sqr al p z x = Inr (z', p') \<and> nat_is z' (val x ^ 2)"
proof -
  let ?n = "length x"
  consider "x = []" | "?n = 1" | "2 \<le> ?n" "?n < basicSqrThreshold" | "2 \<le> ?n" "\<not> ?n < basicSqrThreshold"
    by (cases x; cases "tl x") auto
  then show ?thesis
  proof cases
    case 1
    then show ?thesis using upto_0 [of z] by (auto simp: nat_sqr.simps power2_eq_square)
  next
    case 2
    then obtain d where d: "x = [d]" by (metis One_nat_def length_0_conv length_Suc_conv)
    obtain h l where m: "mulWW d d = (h, l)" by fastforce
    obtain z1 where z1: "sl_set (nat_make z 2) 1 h = Inr z1" "wf z1" "count z1 = 2" "words z1 = (words (nat_make z 2))[1 := h]"
      using set_ok [of "nat_make z 2" 1 h] by auto
    obtain z2 where z2: "sl_set z1 0 l = Inr z2" "wf z2" "words z2 = (words z1)[0 := l]" using set_ok [OF z1(2), of 0 l] z1(3) by auto
    obtain a b where "words (nat_make z 2) = [a, b]" using two_words [of "words (nat_make z 2)"] by auto
    then have "words z2 = [l, h]" using z1(4) z2(3) by simp
    then have "val (words z2) = val x ^ 2" using mulWW_pair [OF m] d by (simp add: power2_eq_square)
    then show ?thesis using norm_ok [OF z2(2)] z1(1) z2(1) d m by (subst nat_sqr.simps) (simp add: Let_def)
  next
    case 3
    let ?z = "nat_make (if al then nat_nil else z) (2 * ?n)"
    obtain r where r: "basicMul (words ?z) x x = Inr r" "length r = 2 * ?n" "val r = val x * val x"
      using basicMul_ok [of x x "words ?z"] by (auto simp: mult_2)
    obtain z' where z': "on_words ?z (\<lambda>w. basicMul w x x) = Inr z'" "wf z'" "words z' = r"
      using on_words_ok [of ?z "\<lambda>w. basicMul w x x" r] r by auto
    then show ?thesis using 3 r(3) norm_ok [OF z'(2)] by (subst nat_sqr.simps) (auto simp: Let_def power2_eq_square)
  next
    case 4
    let ?z = "nat_make (if al then nat_nil else z) (2 * ?n)"
    obtain r p' where r: "basicSqr p (words ?z) x = Inr (r, p')" "length r = 2 * ?n" "val r = val x ^ 2"
      using basicSqr_ok [OF 4(1), of "words ?z" p] by auto
    then show ?thesis using 4 assms put_words [of ?z r] norm_ok [of "sl_put ?z 0 r"]
      by (subst nat_sqr.simps) (auto simp: Let_def)
  qed
qed

lemma sqr_long:
  assumes n: "karatsubaSqrThreshold \<le> length x"
    and IH: "\<And>y al p z. length y < length x \<Longrightarrow> \<exists>z' p'. nat_sqr al p z y = Inr (z', p') \<and> nat_is z' (val y ^ 2)"
  shows "\<exists>z' p'. nat_sqr al p z x = Inr (z', p') \<and> nat_is z' (val x ^ 2)"
proof -
  let ?n = "length x"
  define k where "k = karatsubaLen ?n karatsubaSqrThreshold"
  have k: "2 \<le> k" "k \<le> ?n" using karatsubaLen_ge [of karatsubaSqrThreshold ?n] karatsubaLen_le n
    by (simp_all add: k_def karatsubaSqrThreshold_def)
  let ?x0 = "take k x" and ?x1 = "drop k x"
  let ?z = "nat_make (if al then nat_nil else z) (max (6 * k) (2 * ?n))"
  obtain r p1 where r: "karatsubaSqr p (words ?z) ?x0 = Inr (r, p1)" "length r = max (6 * k) (2 * ?n)" "val (take (2 * k) r) = val ?x0 ^ 2"
    using karatsubaSqr_ok [of ?x0 "words ?z" p] k by auto
  have pz: "wf (sl_put ?z 0 r)" "count (sl_put ?z 0 r) = max (6 * k) (2 * ?n)" "words (sl_put ?z 0 r) = r"
    using put_words [of ?z r] r(2) by simp_all
  obtain z2 where z2: "sl_upto (sl_put ?z 0 r) (2 * ?n) = Inr z2" "wf z2" "count z2 = 2 * ?n" "words z2 = take (2 * ?n) r"
    using upto_ok [OF pz(1), of "2 * ?n"] pz(2,3) by auto
  let ?f = "\<lambda>w. on_from w (2 * k) (\<lambda>s. Inr (clear s))"
  let ?r = "take (2 * k) r @ replicate (2 * ?n - 2 * k) 0"
  have "?f (words z2) = Inr ?r" using k r(2) z2(3,4) by (simp add: on_from_def patch_def clear_def min_def)
  then obtain z3 where z3: "on_words z2 ?f = Inr z3" "wf z3" "count z3 = 2 * ?n" "val (words z3) = val ?x0 ^ 2"
    using on_words_ok [OF z2(2), of ?f ?r] r k z2(3) by (auto simp: val_append)
  have c: "?n \<noteq> 0" "?n \<noteq> 1" "\<not> ?n < basicSqrThreshold" "\<not> ?n < karatsubaSqrThreshold"
    using n by (auto simp: karatsubaSqrThreshold_def basicSqrThreshold_def)
  have run: "nat_sqr al p z x = (if k < ?n
       then go_bind (getNat p1 (2 * k)) (\<lambda>(t, p).
         go_bind (nat_mul False p t (norm ?x0) ?x1) (\<lambda>(t, p).
         go_bind (on_words z3 (\<lambda>w. addAt w (words t) k)) (\<lambda>z. go_bind (on_words z (\<lambda>w. addAt w (words t) k)) (\<lambda>z.
         go_bind (nat_sqr False p t ?x1) (\<lambda>(t, p). go_bind (on_words z (\<lambda>w. addAt w (words t) (2 * k))) (\<lambda>z.
         Inr (nat_norm z, p)))))))
       else Inr (nat_norm z3, p1))"
    using k(2) by (subst nat_sqr.simps) (simp only: Let_def c if_False k_def [symmetric] vslice_ok le0 minus_nat.diff_0 drop_0 go_bind_Inr prod.case r(1) z2(1) z3(1) vfrom_ok)
  show ?thesis
  proof (cases "k < ?n")
    case False
    then show ?thesis using run norm_ok [OF z3(2)] z3(4) k(2) by simp
  next
    case True
    let ?a = "val ?x0" and ?b = "val ?x1"
    have x: "val x = ?a + B ^ k * ?b" using k(2) by (rule val_split)
    have "val x ^ 2 < (B ^ ?n) ^ 2" using val_lt [of x] by (intro power_strict_mono) simp_all
    then have total: "val x ^ 2 < B ^ (2 * ?n)" by (simp add: mult.commute flip: power_mult)
    have sum: "val x ^ 2 = ?a ^ 2 + B ^ k * (?a * ?b) + B ^ k * (?a * ?b) + B ^ (2 * k) * ?b ^ 2"
    proof -
      have "B ^ (2 * k) = B ^ k * B ^ k" by (simp add: mult_2 power_add)
      then show ?thesis unfolding x by (simp add: power2_eq_square algebra_simps)
    qed
    obtain t0 p0 where t0: "getNat p1 (2 * k) = Inr (t0, p0)" using getNat_ok by blast
    obtain t1 p2 where t1: "nat_mul False p0 t0 (norm ?x0) ?x1 = Inr (t1, p2)" "nat_is t1 (?a * ?b)"
      using nat_mul_ok [of False p0 t0 "norm ?x0" ?x1] by auto
    have "val (words z3) + B ^ k * (?a * ?b) < B ^ count z3" using total unfolding sum z3(3,4) by linarith
    from add_words [OF t1(2) z3(2) this] obtain z4 where
      z4: "on_words z3 (\<lambda>w. addAt w (words t1) k) = Inr z4" "wf z4" "count z4 = 2 * ?n" "val (words z4) = ?a ^ 2 + B ^ k * (?a * ?b)"
      unfolding z3(3,4) by blast
    have "val (words z4) + B ^ k * (?a * ?b) < B ^ count z4" using total unfolding sum z4(3,4) by linarith
    from add_words [OF t1(2) z4(2) this] obtain z5 where
      z5: "on_words z4 (\<lambda>w. addAt w (words t1) k) = Inr z5" "wf z5" "count z5 = 2 * ?n"
      "val (words z5) = ?a ^ 2 + B ^ k * (?a * ?b) + B ^ k * (?a * ?b)"
      unfolding z4(3,4) by blast
    have "length ?x1 < ?n" using k True by simp
    then obtain t2 p3 where t2: "nat_sqr False p2 t1 ?x1 = Inr (t2, p3)" "nat_is t2 (?b ^ 2)" using IH by blast
    have "val (words z5) + B ^ (2 * k) * ?b ^ 2 < B ^ count z5" using total unfolding sum z5(3,4) .
    from add_words [OF t2(2) z5(2) this] obtain z6 where
      z6: "on_words z5 (\<lambda>w. addAt w (words t2) (2 * k)) = Inr z6" "wf z6" "val (words z6) = val x ^ 2"
      unfolding z5(3,4) sum by blast
    have "nat_sqr al p z x = Inr (nat_norm z6, p3)" unfolding run using True t0 t1(1) z4(1) z5(1) t2(1) z6(1) by simp
    then show ?thesis using norm_ok [OF z6(2)] z6(3) by simp
  qed
qed

lemma nat_sqr_ok: "\<exists>z' p'. nat_sqr al p z x = Inr (z', p') \<and> nat_is z' (val x ^ 2)"
proof (induction "length x" arbitrary: al p z x rule: less_induct)
  case less
  show ?case
  proof (cases "length x < karatsubaSqrThreshold")
    case True
    then show ?thesis by (rule sqr_small)
  next
    case False
    then have "karatsubaSqrThreshold \<le> length x" by simp
    then show ?thesis using less.hyps by (rule sqr_long)
  qed
qed

section \<open>The product of a range\<close>

lemma nat_mulRange_ok: "\<exists>z' p'. nat_mulRange p z a b = Inr (z', p') \<and> nat_is z' (\<Prod>{unat a..unat b})"
proof (induction p z a b rule: nat_mulRange.induct)
  case (1 p z a b)
  consider "a = 0" | "a \<noteq> 0" "b < a" | "a \<noteq> 0" "a = b" | "a \<noteq> 0" "a < b" "a + 1 = b" | "a \<noteq> 0" "a < b" "a + 1 \<noteq> b" by fastforce
  then show ?case
  proof cases
    case 1
    obtain z' where "nat_setUint64 z 0 = Inr z'" "nat_is z' 0" using setWord_ok [of z 0] by (auto simp: nat_setUint64_def)
    moreover have "\<Prod>{unat a..unat b} = 0" using 1 by (intro prod_zero) auto
    ultimately show ?thesis using 1 by (subst nat_mulRange.simps) (simp only: simp_thms if_True go_bind_Inr, blast)
  next
    case 2
    obtain z' where "nat_setUint64 z 1 = Inr z'" "nat_is z' 1" using setWord_ok [of z 1] by (auto simp: nat_setUint64_def)
    moreover have "{unat a..unat b} = {}" using 2 by (simp add: word_less_nat_alt)
    ultimately show ?thesis using 2 by (subst nat_mulRange.simps) simp
  next
    case 3
    obtain z' where "nat_setUint64 z a = Inr z'" "nat_is z' (unat a)" using setWord_ok [of z a] by (auto simp: nat_setUint64_def)
    then show ?thesis using 3 by (subst nat_mulRange.simps) simp
  next
    case 4
    obtain u where u: "nat_setUint64 nat_nil a = Inr u" "nat_is u (unat a)" using setWord_ok [of nat_nil a] by (auto simp: nat_setUint64_def)
    obtain v where v: "nat_setUint64 nat_nil b = Inr v" "nat_is v (unat b)" using setWord_ok [of nat_nil b] by (auto simp: nat_setUint64_def)
    obtain z' p' where z': "nat_mul False p z (words u) (words v) = Inr (z', p')" "nat_is z' (unat a * unat b)"
      using nat_mul_ok [of False p z "words u" "words v"] u(2) v(2) by (auto simp: nat_is_def)
    have "unat b = Suc (unat a)"
    proof -
      have "unat a < unat b" using 4(2) by (simp add: word_less_nat_alt)
      moreover have "unat b < 2 ^ 64" using unat_lt64 [of b] by simp
      ultimately have "unat a + unat (1 :: u64) < 2 ^ 64" by (simp only: unsigned_1)
      then have "unat (a + 1) = unat a + unat (1 :: u64)" by (subst unat_add_lem [THEN iffD1]) simp_all
      then show ?thesis using 4(3) by simp
    qed
    then have "\<Prod>{unat a..unat b} = unat a * unat b" by simp
    moreover have "\<not> a > b" "a \<noteq> b" using 4(2) by auto
    ultimately show ?thesis using 4(1,3) u(1) v(1) z' by (subst nat_mulRange.simps) simp
  next
    case 5
    define m where "m = a + (b - a) div 2"
    note M = middle [OF 5(2,3), folded m_def]
    have c: "\<not> a > b" "a \<noteq> b" using 5(2) by auto
    obtain u p1 where u: "nat_mulRange p nat_nil a m = Inr (u, p1)" "nat_is u (\<Prod>{unat a..unat m})"
      using "1.IH"(1) [OF 5(1) c 5(3) m_def] by blast
    obtain v p2 where v: "nat_mulRange p1 nat_nil (m + 1) b = Inr (v, p2)" "nat_is v (\<Prod>{unat (m + 1)..unat b})"
      using "1.IH"(2) [OF 5(1) c 5(3) m_def u(1) refl] by blast
    obtain z' p' where z': "nat_mul False p2 z (words u) (words v) = Inr (z', p')"
      "nat_is z' (\<Prod>{unat a..unat m} * \<Prod>{unat (m + 1)..unat b})"
      using nat_mul_ok [of False p2 z "words u" "words v"] u(2) v(2) by (auto simp: nat_is_def)
    have "unat m \<le> unat b" "unat a \<le> unat m + 1" using M(1,3) by linarith+
    then obtain d where d: "unat b = unat m + d" using le_Suc_ex by blast
    have "\<Prod>{unat a..unat m + d} = \<Prod>{unat a..unat m} * \<Prod>{unat m + 1..unat m + d}"
      using \<open>unat a \<le> unat m + 1\<close> by (rule prod.ub_add_nat)
    then show ?thesis using 5 c u(1) v(1) z' unfolding d M(2) by (subst nat_mulRange.simps) (simp add: Let_def flip: m_def)
  qed
qed

end
