(* ===== verification/Big_Int_Spec.thy ===== *)
theory Big_Int_Spec
  imports Big_Int Big_Sqr_Spec "HOL-Library.Signed_Division"
begin

text \<open>
  The methods of \<open>Int\<close> as operations on integers.  In a well-formed store every allocated \<open>Int\<close> has a normalized
  magnitude and zero has no sign; \<open>int_at h x\<close> is the integer at the address \<open>x\<close>.  A method is described by the
  values of the addresses after it, as a function of those before: \<open>reach h h' v\<close>.
\<close>

section \<open>Well-formed stores\<close>

definition int_ok :: "big_int \<Rightarrow> bool" where
  "int_ok i \<longleftrightarrow> wf (mag i) \<and> normal (words (mag i)) \<and> (neg i \<longrightarrow> words (mag i) \<noteq> [])"

definition int_val :: "big_int \<Rightarrow> int" where
  "int_val i = (if neg i then - int (val (words (mag i))) else int (val (words (mag i))))"

definition int_at :: "int_store \<Rightarrow> nat \<Rightarrow> int" where
  "int_at h x = int_val (ints h x)"

definition good :: "int_store \<Rightarrow> bool" where
  "good h \<longleftrightarrow> 0 < fresh h \<and> (\<forall>p < fresh h. int_ok (ints h p)) \<and> int_at h intOne = 1"

definition reach :: "int_store \<Rightarrow> int_store \<Rightarrow> (nat \<Rightarrow> int) \<Rightarrow> bool" where
  "reach h h' v \<longleftrightarrow> good h' \<and> fresh h \<le> fresh h' \<and> (\<forall>p < fresh h. int_at h' p = v p)"

lemma val_0: "normal w \<Longrightarrow> val w = 0 \<longleftrightarrow> w = []"
proof
  assume n: "normal w" and v: "val w = 0"
  show "w = []"
  proof (rule ccontr)
    assume "w \<noteq> []"
    then have "B ^ (length w - 1) \<le> 0" using val_ge [OF n] v by simp
    then show False by simp
  qed
qed simp

text \<open>What a method reads.\<close>

lemma read:
  assumes "good h" and "x < fresh h"
  shows "wf (mag_of h x)" "normal (abs_of h x)" "int (val (abs_of h x)) = \<bar>int_at h x\<bar>" "is_neg h x \<longleftrightarrow> int_at h x < 0"
    "abs_of h x = [] \<longleftrightarrow> int_at h x = 0" "words (mag_of h x) = abs_of h x"
proof -
  have ok: "int_ok (ints h x)" using assms by (simp add: good_def)
  then show n: "wf (mag_of h x)" "normal (abs_of h x)" "words (mag_of h x) = abs_of h x"
    by (simp_all add: int_ok_def mag_of_def abs_of_def)
  show "int (val (abs_of h x)) = \<bar>int_at h x\<bar>" by (simp add: int_at_def int_val_def abs_of_def mag_of_def)
  have z: "val (abs_of h x) = 0 \<longleftrightarrow> abs_of h x = []" by (rule val_0 [OF n(2)])
  then show "abs_of h x = [] \<longleftrightarrow> int_at h x = 0"
    by (auto simp: int_at_def int_val_def abs_of_def mag_of_def)
  have "0 < val (abs_of h x)" if "is_neg h x" using that ok z by (auto simp: int_ok_def is_neg_def abs_of_def mag_of_def)
  then show "is_neg h x \<longleftrightarrow> int_at h x < 0"
    by (auto simp: int_at_def int_val_def is_neg_def abs_of_def mag_of_def)
qed

lemma nat_is_count: "nat_is m v \<Longrightarrow> count m > 0 \<longleftrightarrow> v > 0"
proof -
  assume m: "nat_is m v"
  then have "length (words m) = count m" by (simp add: nat_is_def)
  then show ?thesis using m val_0 [of "words m"] by (cases "words m") (auto simp: nat_is_def)
qed

text \<open>What a method writes.\<close>

lemma put_reach:
  assumes "good h" and "z < fresh h" and "z \<noteq> intOne" and "nat_is m v" and "b \<Longrightarrow> 0 < v"
  shows "reach h (put_int (h\<lparr>nats := p\<rparr>) z b m) ((int_at h)(z := if b then - int v else int v))"
proof -
  have i: "int_ok \<lparr>neg = b, mag = m\<rparr>" "int_val \<lparr>neg = b, mag = m\<rparr> = (if b then - int v else int v)"
    using assms(4,5) by (auto simp: int_ok_def int_val_def nat_is_def)
  then show ?thesis using assms(1-3) by (auto simp: reach_def good_def put_int_def int_at_def)
qed

lemma put_signed_reach:
  assumes "good h" and "z < fresh h" and "z \<noteq> intOne" and "nat_is m v"
  shows "reach h (put_signed (h\<lparr>nats := p\<rparr>) z b m) ((int_at h)(z := if b then - int v else int v))"
  using put_reach [OF assms, of "count m > 0 \<and> b" p] nat_is_count [OF assms(4)]
  by (cases "v = 0") (auto simp: put_signed_def)

lemma put_reach':
  assumes "good h" and "z < fresh h" and "z \<noteq> intOne" and "nat_is m v" and "b \<Longrightarrow> 0 < v"
  shows "reach h (put_int h z b m) ((int_at h)(z := if b then - int v else int v))"
  using put_reach [where p = "nats h", OF assms] by simp

lemma put_signed_reach':
  assumes "good h" and "z < fresh h" and "z \<noteq> intOne" and "nat_is m v"
  shows "reach h (put_signed h z b m) ((int_at h)(z := if b then - int v else int v))"
  using put_signed_reach [where p = "nats h", OF assms] by simp

lemma reach_refl: "good h \<Longrightarrow> reach h h (int_at h)"
  by (simp add: reach_def)

lemma reachD: "reach h h' v \<Longrightarrow> good h'" "reach h h' v \<Longrightarrow> p < fresh h \<Longrightarrow> int_at h' p = v p"
  "reach h h' v \<Longrightarrow> p < fresh h \<Longrightarrow> p < fresh h'" "reach h h' v \<Longrightarrow> fresh h \<le> fresh h'"
  by (auto simp: reach_def)

lemma reach_trans:
  assumes "reach h h1 u" and "reach h1 h2 w" and "\<And>p. p < fresh h \<Longrightarrow> w p = v p"
  shows "reach h h2 v"
  using assms by (auto simp: reach_def)

lemma reach_cong: "reach h h' u \<Longrightarrow> (\<And>p. p < fresh h \<Longrightarrow> u p = v p) \<Longrightarrow> reach h h' v"
  by (auto simp: reach_def)

lemma new_reach:
  assumes "good h" and "new_int h = (r, h')"
  shows "reach h h' (int_at h)" "int_at h' r = 0" "r < fresh h'" "\<not> r < fresh h" "r \<noteq> intOne" "fresh h' = Suc (fresh h)"
proof -
  have n: "int_ok \<lparr>neg = False, mag = nat_nil\<rparr>" "int_val \<lparr>neg = False, mag = nat_nil\<rparr> = 0"
    by (simp_all add: int_ok_def int_val_def nat_nil_def words_def wf_def normal_def)
  have h: "r = fresh h" "ints h' = (ints h)(fresh h := \<lparr>neg = False, mag = nat_nil\<rparr>)" "fresh h' = Suc (fresh h)" "0 < fresh h"
    using assms by (auto simp: new_int_def put_int_def good_def)
  show "reach h h' (int_at h)" "int_at h' r = 0" "r < fresh h'" "\<not> r < fresh h" "r \<noteq> intOne" "fresh h' = Suc (fresh h)"
    using assms(1) n by (auto simp: h reach_def good_def int_at_def intOne_def less_Suc_eq)
qed

lemma initial_good: "good initial_store"
  by (simp add: good_def initial_store_def int_ok_def int_at_def int_val_def words_def wf_def normal_def natOne_def)

lemma natOne_ok: "normal natOne" "val natOne = 1"
  by (simp_all add: natOne_def normal_def)

text \<open>A call that returns, with what it leaves at the address \<open>z\<close>.\<close>

definition writable :: "int_store \<Rightarrow> nat \<Rightarrow> bool" where
  "writable h z \<longleftrightarrow> good h \<and> z < fresh h \<and> z \<noteq> intOne"

definition gives :: "int_store \<Rightarrow> int_store go \<Rightarrow> (nat \<Rightarrow> int) \<Rightarrow> bool" where
  "gives h r v \<longleftrightarrow> (\<exists>h'. r = Inr h' \<and> reach h h' v)"

lemma gives_put:
  assumes "writable h z" and "nat_is m n" and "b \<Longrightarrow> 0 < n" and "(if b then - int n else int n) = i"
  shows "gives h (Inr (put_int (h\<lparr>nats := p\<rparr>) z b m)) ((int_at h)(z := i))" "gives h (Inr (put_int h z b m)) ((int_at h)(z := i))"
proof -
  have h: "good h" "z < fresh h" "z \<noteq> intOne" using assms(1) by (simp_all add: writable_def)
  show "gives h (Inr (put_int (h\<lparr>nats := p\<rparr>) z b m)) ((int_at h)(z := i))" "gives h (Inr (put_int h z b m)) ((int_at h)(z := i))"
    using put_reach [where b = b and p = p, OF h assms(2,3)] put_reach' [where b = b, OF h assms(2,3)] unfolding assms(4) by (simp_all add: gives_def)
qed

lemma gives_signed:
  assumes "writable h z" and "nat_is m n" and "(if b then - int n else int n) = i"
  shows "gives h (Inr (put_signed (h\<lparr>nats := p\<rparr>) z b m)) ((int_at h)(z := i))" "gives h (Inr (put_signed h z b m)) ((int_at h)(z := i))"
proof -
  have h: "good h" "z < fresh h" "z \<noteq> intOne" using assms(1) by (simp_all add: writable_def)
  show "gives h (Inr (put_signed (h\<lparr>nats := p\<rparr>) z b m)) ((int_at h)(z := i))" "gives h (Inr (put_signed h z b m)) ((int_at h)(z := i))"
    using put_signed_reach [where b = b and p = p, OF h assms(2)] put_signed_reach' [where b = b, OF h assms(2)] unfolding assms(3) by (simp_all add: gives_def)
qed

lemma writable_fresh: "writable h z \<Longrightarrow> reach h h' v \<Longrightarrow> writable h' z"
  by (auto simp: writable_def reach_def)

lemma gives_bind:
  assumes "gives h r u" and "\<And>h'. reach h h' u \<Longrightarrow> gives h' (f h') (w h')" and "\<And>h' p. reach h h' u \<Longrightarrow> p < fresh h \<Longrightarrow> w h' p = v p"
  shows "gives h (go_bind r f) v"
proof -
  obtain h1 where h1: "r = Inr h1" "reach h h1 u" using assms(1) by (auto simp: gives_def)
  obtain h2 where h2: "f h1 = Inr h2" "reach h1 h2 (w h1)" using assms(2) [OF h1(2)] by (auto simp: gives_def)
  have "reach h h2 v" by (rule reach_trans [OF h1(2) h2(2)]) (rule assms(3) [OF h1(2)])
  then show ?thesis using h1(1) h2(1) by (simp add: gives_def)
qed

lemma gives_after:
  assumes "reach h h1 u" and "gives h1 r ((int_at h1)(z := i))"
  shows "gives h r (u(z := i))"
proof -
  obtain h2 where h2: "r = Inr h2" "reach h1 h2 ((int_at h1)(z := i))" using assms(2) by (auto simp: gives_def)
  have "reach h h2 (u(z := i))" by (rule reach_trans [OF assms(1) h2(2)]) (simp add: reachD(2) [OF assms(1)])
  then show ?thesis using h2(1) by (simp add: gives_def)
qed

lemma writable_good: "writable h z \<Longrightarrow> good h"
  by (simp add: writable_def)

section \<open>Setting and comparing\<close>

lemma sgn_Sign: "good h \<Longrightarrow> x < fresh h \<Longrightarrow> Int_Sign h x = sgn (int_at h x)"
  using read [of h x] by (auto simp: Int_Sign_def sgn_if)

lemma setUint_ok: "\<exists>m. nat_setUint64 z x = Inr m \<and> nat_is m (unat x)"
  using setWord_ok by (simp add: nat_setUint64_def)

lemma sint_cases: "(if sint x < 0 then - int (unat (- x)) else int (unat x)) = sint x" for x :: u64
  using int_unat_i64 [of x] unat_neg_i64 [of x] by simp

lemma Int_SetUint64_ok: "writable h z \<Longrightarrow> gives h (Int_SetUint64 z x h) ((int_at h)(z := int (unat x)))"
proof -
  assume z: "writable h z"
  obtain m where m: "nat_setUint64 (mag_of h z) x = Inr m" "nat_is m (unat x)" using setUint_ok by blast
  show ?thesis unfolding Int_SetUint64_def m(1) go_bind_Inr by (rule gives_put(2) [OF z m(2)]) simp_all
qed

lemma Int_SetInt64_ok: "writable h z \<Longrightarrow> gives h (Int_SetInt64 z x h) ((int_at h)(z := sint x))"
proof -
  assume z: "writable h z"
  let ?b = "sint x < 0"
  let ?x = "if ?b then - x else x"
  obtain m where m: "nat_setUint64 (mag_of h z) ?x = Inr m" "nat_is m (unat ?x)" using setUint_ok by blast
  have v: "(if ?b then - int (unat ?x) else int (unat ?x)) = sint x" using sint_cases [of x] by (cases ?b) (simp_all only: if_True if_False)
  then have p: "?b \<Longrightarrow> 0 < unat ?x" by (metis neg_less_0_iff_less of_nat_0_less_iff)
  have "Int_SetInt64 z x h = Inr (put_int h z ?b m)" using m(1) by (auto simp: Int_SetInt64_def Let_def)
  then show ?thesis using gives_put(2) [OF z m(2) p v] by simp
qed

lemma NewInt_ok:
  assumes "good h" and "NewInt i h = (z, h')"
  shows "reach h h' (int_at h)" "int_at h' z = sint i" "z = fresh h" "fresh h' = Suc (fresh h)"
proof -
  obtain c h1 where n: "new_int h = (c, h1)" by fastforce
  note N = new_reach [OF assms(1) n]
  let ?u = "if sint i < 0 then - i else i"
  let ?m = "if i = 0 then nat_nil else \<lparr>array = [?u], count = 1\<rparr>"
  have e: "z = c" "h' = put_int h1 c (sint i < 0) ?m" using assms(2) n by (auto simp: NewInt_def Let_def)
  have d: "writable h1 c" using N reachD(1) [OF N(1)] by (simp add: writable_def)
  have v: "(if sint i < 0 then - int (unat ?u) else int (unat ?u)) = sint i" using sint_cases [of i] by (cases "sint i < 0") (simp_all only: if_True if_False)
  then have p: "sint i < 0 \<Longrightarrow> 0 < unat ?u" by (metis neg_less_0_iff_less of_nat_0_less_iff)
  have "nat_is ?m (unat ?u)" by (auto simp: nat_is_def wf_def words_def normal_def nat_nil_def)
  from gives_put(2) [OF d this p v] have r: "reach h1 h' ((int_at h1)(c := sint i))" unfolding e by (simp add: gives_def)
  show "z = fresh h" "fresh h' = Suc (fresh h)" using n e N(6) by (simp_all add: new_int_def put_int_def)
  show "int_at h' z = sint i" using reachD(2) [OF r N(3)] e by simp
  show "reach h h' (int_at h)" by (rule reach_trans [OF N(1) r]) (use N(4) reachD(2) [OF N(1)] in auto)
qed

lemma Int_Set_ok:
  assumes "good h" and "z < fresh h" and "z \<noteq> intOne" and "x < fresh h"
  shows "reach h (Int_Set z x h) ((int_at h)(z := int_at h x))"
proof (cases "z = x")
  case True
  then show ?thesis using reach_refl [OF assms(1)] by (simp add: Int_Set_def)
next
  case False
  note R = read [OF assms(1,4)]
  have n: "nat_is (nat_set (mag_of h z) (abs_of h x)) (val (abs_of h x))" using set_nat_ok [OF R(2)] .
  have v: "(if is_neg h x then - int (val (abs_of h x)) else int (val (abs_of h x))) = int_at h x"
    using R(3,4) by auto
  have "is_neg h x \<Longrightarrow> 0 < val (abs_of h x)" using R(3,4) by auto
  from put_reach' [where b = "is_neg h x", OF assms(1-3) n this, unfolded v] show ?thesis using False by (simp add: Int_Set_def)
qed

lemma mag_at: "good h \<Longrightarrow> x < fresh h \<Longrightarrow> nat_is (mag_of h x) (nat \<bar>int_at h x\<bar>)"
  using read [of h x] by (auto simp: nat_is_def)

lemma Int_Abs_ok:
  assumes "good h" and "z < fresh h" and "z \<noteq> intOne" and "x < fresh h"
  shows "reach h (Int_Abs z x h) ((int_at h)(z := \<bar>int_at h x\<bar>))"
proof -
  let ?h = "Int_Set z x h"
  note S = Int_Set_ok [OF assms]
  have z: "z < fresh ?h" using reachD(3) [OF S assms(2)] .
  have v: "int_at ?h z = int_at h x" using reachD(2) [OF S assms(2)] by simp
  from put_reach' [where b = False, OF reachD(1) [OF S] z assms(3) mag_at [OF reachD(1) [OF S] z]]
  have "reach ?h (put_int ?h z False (mag_of ?h z)) ((int_at ?h)(z := \<bar>int_at h x\<bar>))" by (simp add: v)
  from reach_trans [OF S this] show ?thesis using reachD(2) [OF S] by (simp add: Int_Abs_def Let_def)
qed

lemma Int_Neg_ok:
  assumes "good h" and "z < fresh h" and "z \<noteq> intOne" and "x < fresh h"
  shows "reach h (Int_Neg z x h) ((int_at h)(z := - int_at h x))"
proof -
  let ?h = "Int_Set z x h"
  note S = Int_Set_ok [OF assms]
  have z: "z < fresh ?h" using reachD(3) [OF S assms(2)] .
  have v: "int_at ?h z = int_at h x" using reachD(2) [OF S assms(2)] by simp
  have n: "is_neg ?h z \<longleftrightarrow> int_at h x < 0" using read(4) [OF reachD(1) [OF S] z] v by simp
  have s: "(if \<not> is_neg ?h z then - int (nat \<bar>int_at ?h z\<bar>) else int (nat \<bar>int_at ?h z\<bar>)) = - int_at h x"
    unfolding n v by simp
  from put_signed_reach' [where b = "\<not> is_neg ?h z", OF reachD(1) [OF S] z assms(3) mag_at [OF reachD(1) [OF S] z], unfolded s]
  have "reach ?h (put_signed ?h z (\<not> is_neg ?h z) (mag_of ?h z)) ((int_at ?h)(z := - int_at h x))" .
  from reach_trans [OF S this] show ?thesis using reachD(2) [OF S] by (simp add: Int_Neg_def Let_def)
qed

lemma cmp_abs:
  assumes "good h" and "x < fresh h" and "y < fresh h"
  shows "nat_cmp (abs_of h x) (abs_of h y) = sgn (\<bar>int_at h x\<bar> - \<bar>int_at h y\<bar>)"
  using nat_cmp_ok [OF read(2) [OF assms(1,2)] read(2) [OF assms(1,3)]] read(3) [OF assms(1,2)] read(3) [OF assms(1,3)]
  by (auto simp: sgn_if)

lemma Int_Cmp_ok:
  assumes "good h" and "x < fresh h" and "y < fresh h"
  shows "Int_Cmp h x y = sgn (int_at h x - int_at h y)"
  using cmp_abs [OF assms] read(4) [OF assms(1,2)] read(4) [OF assms(1,3)]
  by (auto simp: Int_Cmp_def Let_def sgn_if)

lemma Int_CmpAbs_ok:
  assumes "good h" and "x < fresh h" and "y < fresh h"
  shows "Int_CmpAbs h x y = sgn (\<bar>int_at h x\<bar> - \<bar>int_at h y\<bar>)"
  using cmp_abs [OF assms] by (simp add: Int_CmpAbs_def)

section \<open>Sum, difference, product\<close>

text \<open>A sum or a difference of magnitudes, with its sign.\<close>

lemma sum_gives:
  assumes "writable h z" and "normal a" and "normal b" and "(if s then - int (val a + val b) else int (val a + val b)) = i"
  shows "gives h (go_bind (nat_add m a b) (\<lambda>m. Inr (put_signed h z s m))) ((int_at h)(z := i))"
proof -
  obtain r where r: "nat_add m a b = Inr r" "nat_is r (val a + val b)" using nat_add_ok [OF assms(2,3)] by blast
  show ?thesis unfolding r(1) go_bind_Inr by (rule gives_signed(2) [OF assms(1) r(2) assms(4)])
qed

lemma difference_gives:
  assumes "writable h z" and "normal a" and "normal b" and "val b \<le> val a" and "(if s then - int (val a - val b) else int (val a - val b)) = i"
  shows "gives h (go_bind (nat_sub m a b) (\<lambda>m. Inr (put_signed h z s m))) ((int_at h)(z := i))"
proof -
  obtain r where r: "nat_sub m a b = Inr r" "nat_is r (val a - val b)" using nat_sub_ok [OF assms(2,3)] assms(4) by auto
  show ?thesis unfolding r(1) go_bind_Inr by (rule gives_signed(2) [OF assms(1) r(2) assms(5)])
qed

lemma cmp_nonneg: "normal x \<Longrightarrow> normal y \<Longrightarrow> nat_cmp x y \<ge> 0 \<longleftrightarrow> val y \<le> val x"
  using nat_cmp_ok [of x y] by auto

lemma Int_Add_ok:
  assumes "writable h z" and "x < fresh h" and "y < fresh h"
  shows "gives h (Int_Add z x y h) ((int_at h)(z := int_at h x + int_at h y))"
proof -
  note X = read [OF writable_good [OF assms(1)] assms(2)] and Y = read [OF writable_good [OF assms(1)] assms(3)]
  note le = cmp_nonneg [OF X(2) Y(2)]
  consider "is_neg h x = is_neg h y" | "is_neg h x \<noteq> is_neg h y" "val (abs_of h y) \<le> val (abs_of h x)"
    | "is_neg h x \<noteq> is_neg h y" "\<not> val (abs_of h y) \<le> val (abs_of h x)" by blast
  then show ?thesis
  proof cases
    case 1
    show ?thesis unfolding Int_Add_def Let_def if_P [OF 1] by (rule sum_gives [OF assms(1) X(2) Y(2)]) (use 1 X(3,4) Y(3,4) in auto)
  next
    case 2
    show ?thesis unfolding Int_Add_def Let_def le if_not_P [OF 2(1)] if_P [OF 2(2)]
      by (rule difference_gives [OF assms(1) X(2) Y(2) 2(2)]) (use 2 X(3,4) Y(3,4) in \<open>auto simp: of_nat_diff\<close>)
  next
    case 3
    have "val (abs_of h x) \<le> val (abs_of h y)" using 3(2) by simp
    then show ?thesis unfolding Int_Add_def Let_def le if_not_P [OF 3(1)] if_not_P [OF 3(2)]
      by (rule difference_gives [OF assms(1) Y(2) X(2)]) (use 3 X(3,4) Y(3,4) in \<open>auto simp: of_nat_diff\<close>)
  qed
qed

lemma Int_Sub_ok:
  assumes "writable h z" and "x < fresh h" and "y < fresh h"
  shows "gives h (Int_Sub z x y h) ((int_at h)(z := int_at h x - int_at h y))"
proof -
  note X = read [OF writable_good [OF assms(1)] assms(2)] and Y = read [OF writable_good [OF assms(1)] assms(3)]
  note le = cmp_nonneg [OF X(2) Y(2)]
  consider "is_neg h x \<noteq> is_neg h y" | "\<not> is_neg h x \<noteq> is_neg h y" "val (abs_of h y) \<le> val (abs_of h x)"
    | "\<not> is_neg h x \<noteq> is_neg h y" "\<not> val (abs_of h y) \<le> val (abs_of h x)" by blast
  then show ?thesis
  proof cases
    case 1
    show ?thesis unfolding Int_Sub_def Let_def if_P [OF 1] by (rule sum_gives [OF assms(1) X(2) Y(2)]) (use 1 X(3,4) Y(3,4) in auto)
  next
    case 2
    show ?thesis unfolding Int_Sub_def Let_def le if_not_P [OF 2(1)] if_P [OF 2(2)]
      by (rule difference_gives [OF assms(1) X(2) Y(2) 2(2)]) (use 2 X(3,4) Y(3,4) in \<open>auto simp: of_nat_diff\<close>)
  next
    case 3
    have "val (abs_of h x) \<le> val (abs_of h y)" using 3(2) by simp
    then show ?thesis unfolding Int_Sub_def Let_def le if_not_P [OF 3(1)] if_not_P [OF 3(2)]
      by (rule difference_gives [OF assms(1) Y(2) X(2)]) (use 3 X(3,4) Y(3,4) in \<open>auto simp: of_nat_diff\<close>)
  qed
qed

lemma Int_Mul_ok:
  assumes "writable h z" and "x < fresh h" and "y < fresh h"
  shows "gives h (Int_Mul z x y h) ((int_at h)(z := int_at h x * int_at h y))"
proof -
  note X = read [OF writable_good [OF assms(1)] assms(2)] and Y = read [OF writable_good [OF assms(1)] assms(3)]
  show ?thesis
  proof (cases "x = y")
    case True
    obtain m p where m: "nat_sqr (z = x) (nats h) (mag_of h z) (abs_of h x) = Inr (m, p)" "nat_is m (val (abs_of h x) ^ 2)"
      using nat_sqr_ok by blast
    have "int (val (abs_of h x) ^ 2) = int_at h x * int_at h y" using X(3) True by (simp add: power2_eq_square)
    then show ?thesis unfolding Int_Mul_def if_P [OF True] m(1) go_bind_Inr prod.case
      by (intro gives_put(1) [OF assms(1) m(2)]) simp_all
  next
    case False
    obtain m p where m: "nat_mul (z = x \<or> z = y) (nats h) (mag_of h z) (abs_of h x) (abs_of h y) = Inr (m, p)"
        "nat_is m (val (abs_of h x) * val (abs_of h y))"
      using nat_mul_ok by blast
    have "(if is_neg h x \<noteq> is_neg h y then - int (val (abs_of h x) * val (abs_of h y)) else int (val (abs_of h x) * val (abs_of h y))) =
        int_at h x * int_at h y"
      using X(3,4) Y(3,4) by (auto simp: abs_if)
    then show ?thesis unfolding Int_Mul_def if_not_P [OF False] m(1) go_bind_Inr prod.case by (rule gives_signed(1) [OF assms(1) m(2)])
  qed
qed

text \<open>The product of a range of 64-bit integers.\<close>

lemma prod_negate: "\<Prod>{- a..- b} = (if even (a - b) then - (\<Prod>{b..a}) else \<Prod>{b..a})" if "b \<le> a" for a b :: int
proof -
  have "\<Prod>{- a..- b} = (\<Prod>i\<in>{b..a}. - i)"
    by (rule prod.reindex_bij_witness [where i = uminus and j = uminus]) auto
  also have "\<dots> = (- 1) ^ card {b..a} * \<Prod>{b..a}" by (simp add: prod_uminus)
  also have "card {b..a} = nat (a - b) + 1" using that by simp
  finally show ?thesis using that by (simp add: even_nat_iff minus_one_power_iff)
qed

lemma prod_int: "int (\<Prod>{m..n}) = \<Prod>{int m..int n}"
  unfolding int_prod by (rule prod.reindex_bij_witness [where i = nat and j = int]) auto

lemma word_even_diff: "(b - a) AND 1 = 0 \<longleftrightarrow> even (sint b - sint a)" for a b :: u64
proof -
  have e: "b - a = word_of_int (sint b - sint a)" by (simp add: wi_hom_sub [symmetric])
  have "bit (b - a) 0 \<longleftrightarrow> bit (sint b - sint a) 0" by (subst e, simp only: bit_word_of_int_iff) simp
  then show ?thesis by (simp add: and_one_eq bit_0 mod_2_eq_odd)
qed

lemma int_unat_pos: "0 \<le> sint i \<Longrightarrow> int (unat i) = sint i" for i :: u64
  using int_unat_i64 [of i] by simp

lemma Int_MulRange_ok:
  assumes "writable h z"
  shows "gives h (Int_MulRange z a b h) ((int_at h)(z := \<Prod>{sint a..sint b}))"
proof -
  consider "sint a > sint b" | "\<not> sint a > sint b" "sint a \<le> 0 \<and> sint b \<ge> 0"
    | "\<not> sint a > sint b" "\<not> (sint a \<le> 0 \<and> sint b \<ge> 0)" "sint a < 0"
    | "\<not> sint a > sint b" "\<not> (sint a \<le> 0 \<and> sint b \<ge> 0)" "\<not> sint a < 0" by blast
  then show ?thesis
  proof cases
    case 1
    then show ?thesis using Int_SetInt64_ok [OF assms, of 1] by (simp add: Int_MulRange_def)
  next
    case 2
    then have "\<Prod>{sint a..sint b} = 0" by (auto simp: prod_zero_iff)
    then show ?thesis unfolding Int_MulRange_def if_not_P [OF 2(1)] if_P [OF 2(2)] using Int_SetInt64_ok [OF assms, of 0] by (simp only: sint_0)
  next
    case 3
    obtain m p where m: "nat_mulRange (nats h) (mag_of h z) (- b) (- a) = Inr (m, p)" "nat_is m (\<Prod>{unat (- b)..unat (- a)})"
      using nat_mulRange_ok by blast
    have u: "int (unat (- b)) = - sint b" "int (unat (- a)) = - sint a" using unat_neg_i64 [of a] unat_neg_i64 [of b] 3 by auto
    have v: "int (\<Prod>{unat (- b)..unat (- a)}) = \<Prod>{- sint b..- sint a}" unfolding prod_int u ..
    have pos: "0 < \<Prod>{- sint b..- sint a}" using 3 by (intro prod_pos) auto
    then have n: "0 < \<Prod>{unat (- b)..unat (- a)}" unfolding v [symmetric] by (simp only: of_nat_0_less_iff)
    have s: "(if (b - a) AND 1 = 0 then - int (\<Prod>{unat (- b)..unat (- a)}) else int (\<Prod>{unat (- b)..unat (- a)})) = \<Prod>{sint a..sint b}"
      unfolding v word_even_diff using prod_negate [of "sint a" "sint b"] 3(1) by auto
    show ?thesis unfolding Int_MulRange_def if_not_P [OF 3(1)] if_not_P [OF 3(2)] if_P [OF 3(3)] Let_def prod.case m(1) go_bind_Inr
      by (rule gives_put(1) [OF assms m(2) n s])
  next
    case 4
    obtain m p where m: "nat_mulRange (nats h) (mag_of h z) a b = Inr (m, p)" "nat_is m (\<Prod>{unat a..unat b})"
      using nat_mulRange_ok by blast
    have u: "int (unat a) = sint a" "int (unat b) = sint b" by (rule int_unat_pos, use 4 in linarith)+
    have v: "(if False then - int (\<Prod>{unat a..unat b}) else int (\<Prod>{unat a..unat b})) = \<Prod>{sint a..sint b}"
      unfolding if_False prod_int u ..
    show ?thesis unfolding Int_MulRange_def if_not_P [OF 4(1)] if_not_P [OF 4(2)] if_not_P [OF 4(3)] Let_def prod.case m(1) go_bind_Inr
      by (rule gives_put(1) [OF assms m(2) _ v]) simp
  qed
qed

section \<open>Division\<close>

lemma short: "normal w \<Longrightarrow> val w < B ^ (B - 1) \<Longrightarrow> length w < B"
proof (rule ccontr)
  assume n: "normal w" and v: "val w < B ^ (B - 1)" and l: "\<not> length w < B"
  then have "w \<noteq> []" using B_pos(1) by auto
  then have "B ^ (length w - 1) \<le> val w" using val_ge [OF n] by blast
  moreover have "B ^ (B - 1) \<le> B ^ (length w - 1)" using l B_pos(1) by (intro power_increasing) linarith+
  ultimately show False using v by linarith
qed

text \<open>The divisors that the division of natural numbers accepts: any number a memory can hold.\<close>

definition divisor_ok :: "int \<Rightarrow> bool" where
  "divisor_ok b \<longleftrightarrow> \<bar>b\<bar> < int (B ^ (B - 1))"

lemma abs_div:
  assumes "good h" and "x < fresh h" and "y < fresh h" and "divisor_ok (int_at h y)"
  shows "if int_at h y = 0 then nat_div al p z z2 (abs_of h x) (abs_of h y) = Inl (PanicMsg ''division by zero'')
    else \<exists>q r p'. nat_div al p z z2 (abs_of h x) (abs_of h y) = Inr (q, r, p') \<and>
      nat_is q (nat (\<bar>int_at h x\<bar> div \<bar>int_at h y\<bar>)) \<and> nat_is r (nat (\<bar>int_at h x\<bar> mod \<bar>int_at h y\<bar>))"
proof -
  note X = read [OF assms(1,2)] and Y = read [OF assms(1,3)]
  have "val (abs_of h y) < B ^ (B - 1)" using assms(4) Y(3) unfolding divisor_ok_def by linarith
  then have l: "length (abs_of h y) < B" by (rule short [OF Y(2)])
  have "nat (\<bar>int_at h x\<bar> div \<bar>int_at h y\<bar>) = val (abs_of h x) div val (abs_of h y)"
    "nat (\<bar>int_at h x\<bar> mod \<bar>int_at h y\<bar>) = val (abs_of h x) mod val (abs_of h y)"
    unfolding X(3) [symmetric] Y(3) [symmetric] by (simp_all only: nat_int flip: of_nat_div of_nat_mod)
  then show ?thesis using nat_div_ok [OF X(2) Y(2) l, of al p z z2] unfolding Y(5) by (simp only:)
qed

lemma sdiv_signs: "(if (a < 0) \<noteq> (b < 0) then - (\<bar>a\<bar> div \<bar>b\<bar>) else \<bar>a\<bar> div \<bar>b\<bar>) = a sdiv b" if "b \<noteq> 0" for a b :: int
  using that by (auto simp: signed_divide_int_def sgn_if)

lemma smod_signs: "(if a < 0 then - (\<bar>a\<bar> mod \<bar>b\<bar>) else \<bar>a\<bar> mod \<bar>b\<bar>) = a smod b" for a b :: int
  by (auto simp: signed_modulo_int_def sgn_if)

lemma nat_abs_div: "int (nat (\<bar>a\<bar> div \<bar>b\<bar>)) = \<bar>a\<bar> div \<bar>b\<bar>" "b \<noteq> 0 \<Longrightarrow> int (nat (\<bar>a\<bar> mod \<bar>b\<bar>)) = \<bar>a\<bar> mod \<bar>b\<bar>" for a b :: int
  by (simp_all add: pos_imp_zdiv_nonneg_iff div_int_pos_iff)

lemma Int_Quo_ok:
  assumes "writable h z" and "x < fresh h" and "y < fresh h" and "divisor_ok (int_at h y)"
  shows "if int_at h y = 0 then Int_Quo z x y h = Inl (PanicMsg ''division by zero'')
    else gives h (Int_Quo z x y h) ((int_at h)(z := int_at h x sdiv int_at h y))"
proof -
  note X = read [OF writable_good [OF assms(1)] assms(2)] and Y = read [OF writable_good [OF assms(1)] assms(3)]
  note D = abs_div [OF writable_good [OF assms(1)] assms(2-4), of False "nats h" "mag_of h z" nat_nil]
  show ?thesis
  proof (cases "int_at h y = 0")
    case False
    then obtain q r p where q: "nat_div False (nats h) (mag_of h z) nat_nil (abs_of h x) (abs_of h y) = Inr (q, r, p)"
        "nat_is q (nat (\<bar>int_at h x\<bar> div \<bar>int_at h y\<bar>))" using D by auto
    show ?thesis unfolding if_not_P [OF False] Int_Quo_def q(1) go_bind_Inr prod.case
      by (rule gives_signed(1) [OF assms(1) q(2)]) (simp only: nat_abs_div X(4) Y(4) sdiv_signs [OF False])
  qed (use D in \<open>simp add: Int_Quo_def\<close>)
qed

lemma Int_Rem_ok:
  assumes "writable h z" and "x < fresh h" and "y < fresh h" and "divisor_ok (int_at h y)"
  shows "if int_at h y = 0 then Int_Rem z x y h = Inl (PanicMsg ''division by zero'')
    else gives h (Int_Rem z x y h) ((int_at h)(z := int_at h x smod int_at h y))"
proof -
  note X = read [OF writable_good [OF assms(1)] assms(2)] and Y = read [OF writable_good [OF assms(1)] assms(3)]
  note D = abs_div [OF writable_good [OF assms(1)] assms(2-4), of False "nats h" nat_nil "mag_of h z"]
  show ?thesis
  proof (cases "int_at h y = 0")
    case False
    then obtain q r p where q: "nat_div False (nats h) nat_nil (mag_of h z) (abs_of h x) (abs_of h y) = Inr (q, r, p)"
        "nat_is r (nat (\<bar>int_at h x\<bar> mod \<bar>int_at h y\<bar>))" using D by auto
    show ?thesis unfolding if_not_P [OF False] Int_Rem_def q(1) go_bind_Inr prod.case
      by (rule gives_signed(1) [OF assms(1) q(2)]) (simp only: nat_abs_div(2) [OF False] X(4) smod_signs)
  qed (use D in \<open>simp add: Int_Rem_def\<close>)
qed

text \<open>When both targets are the same, it has the remainder in the end.\<close>

lemma Int_QuoRem_ok:
  assumes "writable h z" and "writable h r" and "x < fresh h" and "y < fresh h" and "divisor_ok (int_at h y)"
  shows "if int_at h y = 0 then Int_QuoRem z x y r h = Inl (PanicMsg ''division by zero'')
    else gives h (Int_QuoRem z x y r h) ((int_at h)(z := int_at h x sdiv int_at h y, r := int_at h x smod int_at h y))"
proof -
  note X = read [OF writable_good [OF assms(1)] assms(3)] and Y = read [OF writable_good [OF assms(1)] assms(4)]
  note D = abs_div [OF writable_good [OF assms(1)] assms(3-5), of "z = r" "nats h" "mag_of h z" "mag_of h r"]
  show ?thesis
  proof (cases "int_at h y = 0")
    case False
    then obtain q m p where q: "nat_div (z = r) (nats h) (mag_of h z) (mag_of h r) (abs_of h x) (abs_of h y) = Inr (q, m, p)"
        "nat_is q (nat (\<bar>int_at h x\<bar> div \<bar>int_at h y\<bar>))" "nat_is m (nat (\<bar>int_at h x\<bar> mod \<bar>int_at h y\<bar>))"
      using D by auto
    let ?h = "put_signed (h\<lparr>nats := p\<rparr>) z (is_neg h x \<noteq> is_neg h y) q"
    have g: "gives h (Inr ?h) ((int_at h)(z := int_at h x sdiv int_at h y))"
      by (rule gives_signed(1) [OF assms(1) q(2)]) (simp only: nat_abs_div X(4) Y(4) sdiv_signs [OF False])
    then have r: "reach h ?h ((int_at h)(z := int_at h x sdiv int_at h y))" by (simp add: gives_def)
    have s: "gives ?h (Inr (put_signed ?h r (is_neg h x) m)) ((int_at ?h)(r := int_at h x smod int_at h y))"
      by (rule gives_signed(2) [OF writable_fresh [OF assms(2) r] q(3)]) (simp only: nat_abs_div(2) [OF False] X(4) smod_signs)
    show ?thesis unfolding if_not_P [OF False] Int_QuoRem_def q(1) go_bind_Inr prod.case by (rule gives_after [OF r s])
  qed (use D in \<open>simp add: Int_QuoRem_def\<close>)
qed

text \<open>Euclidean division: the remainder is never negative.\<close>

definition e_div :: "int \<Rightarrow> int \<Rightarrow> int" where
  "e_div a b = sgn b * (a div \<bar>b\<bar>)"

definition e_mod :: "int \<Rightarrow> int \<Rightarrow> int" where
  "e_mod a b = a mod \<bar>b\<bar>"

lemma euclid: "e_div a b * b + e_mod a b = a" "b \<noteq> 0 \<Longrightarrow> 0 \<le> e_mod a b \<and> e_mod a b < \<bar>b\<bar>"
  by (simp_all add: e_div_def e_mod_def mult.assoc [symmetric] mult.commute [of _ b] abs_sgn [symmetric] sgn_mult_self_eq)

lemma euclid_cases:
  assumes "b \<noteq> 0"
  shows "a smod b < 0 \<Longrightarrow> e_div a b = a sdiv b - sgn b" "a smod b < 0 \<Longrightarrow> e_mod a b = a smod b + \<bar>b\<bar>"
    "\<not> a smod b < 0 \<Longrightarrow> e_div a b = a sdiv b" "\<not> a smod b < 0 \<Longrightarrow> e_mod a b = a smod b"
proof -
  let ?b = "\<bar>b\<bar>"
  have b: "0 < ?b" using assms by simp
  have m: "0 \<le> - a mod ?b" "0 \<le> a mod ?b" using b by simp_all
  have n: "a mod ?b = (if - a mod ?b = 0 then 0 else ?b - - a mod ?b)" "a div ?b = (if - a mod ?b = 0 then - (- a div ?b) else - (- a div ?b) - 1)"
    using zmod_zminus1_eq_if [of "- a" ?b] zdiv_zminus1_eq_if [of ?b "- a"] b by simp_all
  consider "a < 0" "- a mod ?b = 0" | "a < 0" "0 < - a mod ?b" | "0 \<le> a" using m(1) by linarith
  then have "(if a smod b < 0 then e_div a b = a sdiv b - sgn b \<and> e_mod a b = a smod b + ?b else e_div a b = a sdiv b \<and> e_mod a b = a smod b)"
  proof cases
    case 3
    then have "sgn a = 1 \<or> a = 0" by (auto simp: sgn_if)
    then show ?thesis using 3 m(2) by (auto simp: e_div_def e_mod_def signed_divide_int_def signed_modulo_int_def)
  qed (simp_all add: e_div_def e_mod_def signed_divide_int_def signed_modulo_int_def n algebra_simps)
  then show "a smod b < 0 \<Longrightarrow> e_div a b = a sdiv b - sgn b" "a smod b < 0 \<Longrightarrow> e_mod a b = a smod b + \<bar>b\<bar>"
    "\<not> a smod b < 0 \<Longrightarrow> e_div a b = a sdiv b" "\<not> a smod b < 0 \<Longrightarrow> e_mod a b = a smod b" by simp_all
qed

lemma gives_from:
  assumes "reach h h1 u" and "gives h1 r w" and "\<And>p. p < fresh h \<Longrightarrow> w p = v p"
  shows "gives h r v"
  using assms(2) reach_trans [OF assms(1) _ assms(3)] by (auto simp: gives_def)

lemma one_read: "good h \<Longrightarrow> intOne < fresh h \<and> int_at h intOne = 1"
  by (simp add: good_def intOne_def)

lemma givesE: "gives h r v \<Longrightarrow> (\<And>h'. r = Inr h' \<Longrightarrow> reach h h' v \<Longrightarrow> P) \<Longrightarrow> P"
  by (auto simp: gives_def)

text \<open>Adding \<open>intOne\<close> to an \<open>Int\<close>, or subtracting it, after a call.\<close>

lemma plus_one: "writable h z \<Longrightarrow> gives h (Int_Add z z intOne h) ((int_at h)(z := int_at h z + 1))"
  "writable h z \<Longrightarrow> gives h (Int_Sub z z intOne h) ((int_at h)(z := int_at h z - 1))"
  using Int_Add_ok [of h z z intOne] Int_Sub_ok [of h z z intOne] one_read [of h] by (simp_all add: writable_def)

lemma Int_Div_ok:
  assumes "writable h z" and "x < fresh h" and "y < fresh h" and "divisor_ok (int_at h y)"
  shows "if int_at h y = 0 then Int_Div z x y h = Inl (PanicMsg ''division by zero'')
    else gives h (Int_Div z x y h) ((int_at h)(z := e_div (int_at h x) (int_at h y)))"
proof -
  let ?a = "int_at h x" and ?b = "int_at h y"
  obtain r h1 where n: "new_int h = (r, h1)" by fastforce
  note N = new_reach [OF writable_good [OF assms(1)] n]
  have d: "writable h1 z" "writable h1 r" "z \<noteq> r" "x < fresh h1" "y < fresh h1" "int_at h1 x = ?a" "int_at h1 y = ?b"
    using assms N writable_fresh [OF assms(1) N(1)] reachD(2) [OF N(1)] by (auto simp: writable_def)
  note Q = Int_QuoRem_ok [OF d(1,2,4,5), unfolded d(6,7), OF assms(4)]
  show ?thesis
  proof (cases "?b = 0")
    case False
    note E = euclid_cases [OF False, of ?a]
    from Q False obtain h2 where h2: "Int_QuoRem z x y r h1 = Inr h2" "reach h1 h2 ((int_at h1)(z := ?a sdiv ?b, r := ?a smod ?b))"
      by (auto simp: gives_def)
    have v: "int_at h2 r = ?a smod ?b" "int_at h2 z = ?a sdiv ?b" "r < fresh h2" and z: "writable h2 z" and g: "good h2"
      using reachD [OF h2(2)] d N(3) writable_fresh [OF d(1) h2(2)] by (auto simp: writable_def)
    have y: "is_neg h y \<longleftrightarrow> ?b < 0" by (rule read(4) [OF writable_good [OF assms(1)] assms(3)])
    have "gives h1 (if is_neg h2 r then (if is_neg h y then Int_Add z z intOne h2 else Int_Sub z z intOne h2) else Inr h2)
        ((int_at h1)(z := ?a sdiv ?b, r := ?a smod ?b, z := e_div ?a ?b))"
    proof (cases "?a smod ?b < 0")
      case True
      have s: "sgn ?b = (if ?b < 0 then -1 else 1)" using False by simp
      show ?thesis unfolding read(4) [OF g v(3)] v(1) if_P [OF True] y E(1) [OF True] s
        by (rule gives_after [OF h2(2)]) (use plus_one [OF z] v(2) in auto)
    next
      case neg: False
      show ?thesis unfolding read(4) [OF g v(3)] v(1) if_not_P [OF neg] E(3) [OF neg]
        using h2(2) d(3) by (simp add: gives_def fun_upd_twist)
    qed
    from gives_from [OF N(1) this] have "gives h (Int_Div z x y h) ((int_at h)(z := e_div ?a ?b))"
      using N(4) reachD(2) [OF N(1)] by (auto simp: Int_Div_def Let_def n h2(1))
    then show ?thesis using False by simp
  qed (use Q in \<open>simp add: Int_Div_def Let_def n\<close>)
qed

lemma saved_ok:
  assumes "good h" and "z < fresh h" and "y < fresh h" and "saved z y h = (y0, h1)"
  shows "reach h h1 (int_at h)" "y0 < fresh h1" "int_at h1 y0 = int_at h y" "y0 \<noteq> z" "y0 < fresh h \<Longrightarrow> y0 = y"
proof -
  have "reach h h1 (int_at h) \<and> y0 < fresh h1 \<and> int_at h1 y0 = int_at h y \<and> y0 \<noteq> z \<and> (y0 < fresh h \<longrightarrow> y0 = y)"
  proof (cases "z = y")
    case True
    obtain c h2 where n: "new_int h = (c, h2)" by fastforce
    note N = new_reach [OF assms(1) n]
    have e: "y0 = c" "h1 = Int_Set c y h2" using assms(4) True n by (auto simp: saved_def)
    have y: "y < fresh h2" "int_at h2 y = int_at h y" using reachD [OF N(1)] assms(3) by auto
    have S: "reach h2 h1 ((int_at h2)(c := int_at h y))"
      using Int_Set_ok [OF reachD(1) [OF N(1)] N(3,5) y(1)] unfolding e y(2) .
    have "reach h h1 (int_at h)" by (rule reach_trans [OF N(1) S]) (use N(4) reachD(2) [OF N(1)] in auto)
    then show ?thesis using reachD [OF S] N(3,4) assms(2) e(1) by auto
  qed (use assms reach_refl in \<open>auto simp: saved_def\<close>)
  then show "reach h h1 (int_at h)" "y0 < fresh h1" "int_at h1 y0 = int_at h y" "y0 \<noteq> z" "y0 < fresh h \<Longrightarrow> y0 = y" by auto
qed

lemma Int_Mod_ok:
  assumes "writable h z" and "x < fresh h" and "y < fresh h" and "divisor_ok (int_at h y)"
  shows "if int_at h y = 0 then Int_Mod z x y h = Inl (PanicMsg ''division by zero'')
    else gives h (Int_Mod z x y h) ((int_at h)(z := e_mod (int_at h x) (int_at h y)))"
proof -
  let ?a = "int_at h x" and ?b = "int_at h y"
  have zf: "z < fresh h" using assms(1) by (simp add: writable_def)
  obtain y0 h1 where s: "saved z y h = (y0, h1)" by fastforce
  note S = saved_ok [OF writable_good [OF assms(1)] zf assms(3) s]
  obtain q h2 where n: "new_int h1 = (q, h2)" by fastforce
  note N = new_reach [OF reachD(1) [OF S(1)] n]
  have S2: "reach h h2 (int_at h)" by (rule reach_trans [OF S(1) N(1)]) (simp add: reachD(2) [OF S(1)])
  have d: "writable h2 q" "writable h2 z" "q \<noteq> z" "x < fresh h2" "y < fresh h2" "int_at h2 x = ?a" "int_at h2 y = ?b"
    "int_at h2 y0 = ?b" "y0 < fresh h2" "y0 \<noteq> q" "\<not> q < fresh h"
    using assms N writable_fresh [OF assms(1) S2] reachD [OF S2] reachD [OF S(1)] reachD [OF N(1)] S by (auto simp: writable_def)
  note Q = Int_QuoRem_ok [OF d(1,2,4,5), unfolded d(6,7), OF assms(4)]
  show ?thesis
  proof (cases "?b = 0")
    case False
    note E = euclid_cases [OF False, of ?a]
    let ?v = "(int_at h2)(q := ?a sdiv ?b, z := ?a smod ?b)"
    from Q False obtain h3 where h3: "Int_QuoRem q x y z h2 = Inr h3" "reach h2 h3 ?v" by (auto simp: gives_def)
    have v: "int_at h3 z = ?a smod ?b" "int_at h3 y0 = ?b" "z < fresh h3" "y0 < fresh h3" and z: "writable h3 z" and g: "good h3"
      using reachD [OF h3(2)] d S(4) writable_fresh [OF d(2) h3(2)] by (auto simp: writable_def)
    have "gives h2 (if is_neg h3 z then (if is_neg h3 y0 then Int_Sub z z y0 h3 else Int_Add z z y0 h3) else Inr h3)
        (?v(z := e_mod ?a ?b))"
    proof (cases "?a smod ?b < 0")
      case True
      show ?thesis unfolding read(4) [OF g v(3)] read(4) [OF g v(4)] v(1,2) if_P [OF True] E(2) [OF True]
        by (rule gives_after [OF h3(2)]) (use Int_Add_ok [OF z v(3,4)] Int_Sub_ok [OF z v(3,4)] v(1,2) in \<open>auto simp: abs_if\<close>)
    next
      case neg: False
      show ?thesis unfolding read(4) [OF g v(3)] v(1) if_not_P [OF neg] E(4) [OF neg] using h3(2) by (simp add: gives_def)
    qed
    from gives_from [OF S2 this] have "gives h (Int_Mod z x y h) ((int_at h)(z := e_mod ?a ?b))"
      using d(11) reachD(2) [OF S2] by (auto simp: Int_Mod_def Let_def s n h3(1))
    then show ?thesis using False by simp
  qed (use Q in \<open>simp add: Int_Mod_def Let_def s n\<close>)
qed

lemma Int_DivMod_ok:
  assumes "writable h z" and "writable h m" and "z \<noteq> m" and "m \<noteq> y" and "x < fresh h" and "y < fresh h" and "divisor_ok (int_at h y)"
  shows "if int_at h y = 0 then Int_DivMod z x y m h = Inl (PanicMsg ''division by zero'')
    else gives h (Int_DivMod z x y m h)
      ((int_at h)(z := e_div (int_at h x) (int_at h y), m := e_mod (int_at h x) (int_at h y)))"
proof -
  let ?a = "int_at h x" and ?b = "int_at h y"
  have zf: "z < fresh h" "m < fresh h" using assms(1,2) by (simp_all add: writable_def)
  obtain y0 h2 where s: "saved z y h = (y0, h2)" by fastforce
  note S = saved_ok [OF writable_good [OF assms(1)] zf(1) assms(6) s]
  have d: "writable h2 z" "writable h2 m" "x < fresh h2" "y < fresh h2" "int_at h2 x = ?a" "int_at h2 y = ?b" "y0 \<noteq> m"
    using assms writable_fresh [OF assms(1) S(1)] writable_fresh [OF assms(2) S(1)] reachD [OF S(1)] S(5) zf by (auto simp: writable_def)
  note Q = Int_QuoRem_ok [OF d(1-4), unfolded d(5,6), OF assms(7)]
  show ?thesis
  proof (cases "?b = 0")
    case False
    note E = euclid_cases [OF False, of ?a]
    let ?v = "(int_at h2)(z := ?a sdiv ?b, m := ?a smod ?b)"
    from Q False obtain h3 where h3: "Int_QuoRem z x y m h2 = Inr h3" "reach h2 h3 ?v" by (auto simp: gives_def)
    have v: "int_at h3 m = ?a smod ?b" "int_at h3 y0 = ?b" "int_at h3 z = ?a sdiv ?b" "m < fresh h3" "y0 < fresh h3"
      and z: "writable h3 z" "writable h3 m" and g: "good h3"
      using reachD [OF h3(2)] d S(2-4) assms(3) writable_fresh [OF d(1) h3(2)] writable_fresh [OF d(2) h3(2)] by (auto simp: writable_def)
    have "gives h2 (if is_neg h3 m then if is_neg h3 y0 then go_bind (Int_Add z z intOne h3) (Int_Sub m m y0)
          else go_bind (Int_Sub z z intOne h3) (Int_Add m m y0) else Inr h3) (?v(z := e_div ?a ?b, m := e_mod ?a ?b))"
    proof (cases "?a smod ?b < 0")
      case True
      let ?r = "if ?b < 0 then Int_Add z z intOne h3 else Int_Sub z z intOne h3"
      have sg: "sgn ?b = (if ?b < 0 then -1 else 1)" using False by simp
      have "gives h2 ?r (?v(z := e_div ?a ?b))"
        by (rule gives_after [OF h3(2)]) (use plus_one [OF z(1)] v(3) E(1) [OF True] sg in auto)
      then obtain h4 where h4: "?r = Inr h4" "reach h2 h4 (?v(z := e_div ?a ?b))" by (rule givesE)
      have w: "int_at h4 m = ?a smod ?b" "int_at h4 y0 = ?b" "m < fresh h4" "y0 < fresh h4" and m: "writable h4 m"
        using reachD [OF h4(2)] zf d S(2-4) assms(3) writable_fresh [OF d(2) h4(2)] by (auto simp: writable_def)
      have "gives h2 (if ?b < 0 then Int_Sub m m y0 h4 else Int_Add m m y0 h4) (?v(z := e_div ?a ?b, m := e_mod ?a ?b))"
        by (rule gives_after [OF h4(2)])
          (use Int_Add_ok [OF m w(3,4)] Int_Sub_ok [OF m w(3,4)] w(1,2) E(2) [OF True] in \<open>auto simp: abs_if\<close>)
      then show ?thesis unfolding read(4) [OF g v(4)] read(4) [OF g v(5)] v(1,2) if_P [OF True]
        using h4(1) by (auto split: if_splits)
    next
      case neg: False
      show ?thesis unfolding read(4) [OF g v(4)] v(1) if_not_P [OF neg] E(3,4) [OF neg] using h3(2) assms(3)
        by (simp add: gives_def fun_upd_twist)
    qed
    from gives_from [OF S(1) this] have "gives h (Int_DivMod z x y m h) ((int_at h)(z := e_div ?a ?b, m := e_mod ?a ?b))"
      using reachD(2) [OF S(1)] by (auto simp: Int_DivMod_def Let_def s h3(1))
    then show ?thesis using False by simp
  qed (use Q in \<open>simp add: Int_DivMod_def Let_def s\<close>)
qed

text \<open>
  \<open>DivMod\<close> keeps a copy of the divisor only if it is the target of the quotient.  When it is the target of the remainder and
  the remainder of the truncated division is negative, the correction reads the remainder in place of the divisor: the
  quotient becomes one more than the truncated one, and the remainder zero.
\<close>

lemma Int_DivMod_shared:
  assumes "writable h z" and "writable h y" and "z \<noteq> y" and "x < fresh h" and "divisor_ok (int_at h y)"
    and "int_at h y \<noteq> 0" and "int_at h x smod int_at h y < 0"
  shows "gives h (Int_DivMod z x y y h) ((int_at h)(z := int_at h x sdiv int_at h y + 1, y := 0))"
proof -
  let ?a = "int_at h x" and ?b = "int_at h y"
  have yf: "y < fresh h" using assms(2) by (simp add: writable_def)
  have s: "saved z y h = (y, h)" using assms(3) by (simp add: saved_def)
  obtain h1 where h1: "Int_QuoRem z x y y h = Inr h1" "reach h h1 ((int_at h)(z := ?a sdiv ?b, y := ?a smod ?b))"
    using Int_QuoRem_ok [OF assms(1,2,4) yf assms(5)] assms(6) by (auto simp: gives_def)
  have v: "int_at h1 y = ?a smod ?b" "int_at h1 z = ?a sdiv ?b" "y < fresh h1" "good h1" and z: "writable h1 z"
    using reachD [OF h1(2)] assms(1,3) yf writable_fresh [OF assms(1) h1(2)] by (auto simp: writable_def)
  have n: "is_neg h1 y" using read(4) [OF v(4,3)] assms(7) v(1) by simp
  obtain h2 where h2: "Int_Add z z intOne h1 = Inr h2" "reach h h2 ((int_at h)(z := ?a sdiv ?b, y := ?a smod ?b, z := ?a sdiv ?b + 1))"
    using gives_after [OF h1(2) plus_one(1) [OF z, unfolded v(2)]] by (rule givesE)
  note y = writable_fresh [OF assms(2) h2(2)] reachD(3) [OF h2(2) yf]
  have "gives h2 (Int_Sub y y y h2) ((int_at h2)(y := 0))" using Int_Sub_ok [OF y(1) y(2) y(2)] by simp
  from gives_after [OF h2(2) this] show ?thesis using s h1(1) h2(1) n assms(3) by (simp add: Int_DivMod_def fun_upd_twist)
qed

text \<open>When both targets are the same, it has the remainder of the truncated division, corrected by one and by the divisor.\<close>

lemma Int_DivMod_one_target:
  assumes "writable h z" and "x < fresh h" and "y < fresh h" and "divisor_ok (int_at h y)"
    and "int_at h y \<noteq> 0" and "int_at h x smod int_at h y < 0"
  shows "gives h (Int_DivMod z x y z h) ((int_at h)(z := e_mod (int_at h x) (int_at h y) - sgn (int_at h y)))"
proof -
  let ?a = "int_at h x" and ?b = "int_at h y"
  have zf: "z < fresh h" using assms(1) by (simp add: writable_def)
  obtain y0 h1 where s: "saved z y h = (y0, h1)" by fastforce
  note S = saved_ok [OF writable_good [OF assms(1)] zf assms(3) s]
  have d: "writable h1 z" "x < fresh h1" "y < fresh h1" "int_at h1 x = ?a" "int_at h1 y = ?b"
    using assms writable_fresh [OF assms(1) S(1)] reachD [OF S(1)] by auto
  obtain h2 where h2: "Int_QuoRem z x y z h1 = Inr h2" "reach h1 h2 ((int_at h1)(z := ?a smod ?b))"
    using Int_QuoRem_ok [OF d(1,1,2,3), unfolded d(4,5), OF assms(4)] assms(5) by (auto simp: gives_def)
  have v: "int_at h2 z = ?a smod ?b" "int_at h2 y0 = ?b" "y0 < fresh h2" "good h2" and z: "writable h2 z"
    using reachD [OF h2(2)] S(2-4) d(1) writable_fresh [OF d(1) h2(2)] by (auto simp: writable_def)
  have zf2: "z < fresh h2" using z by (simp add: writable_def)
  have n: "is_neg h2 z" "is_neg h2 y0 \<longleftrightarrow> ?b < 0" using read(4) [OF v(4) zf2] read(4) [OF v(4,3)] assms(6) v(1,2) by simp_all
  let ?r = "if ?b < 0 then Int_Add z z intOne h2 else Int_Sub z z intOne h2"
  have sg: "sgn ?b = (if ?b < 0 then -1 else 1)" using assms(5) by simp
  have "gives h1 ?r ((int_at h1)(z := ?a smod ?b, z := ?a smod ?b - sgn ?b))"
    by (rule gives_after [OF h2(2)]) (use plus_one [OF z] v(1) sg in auto)
  then obtain h3 where h3: "?r = Inr h3" "reach h1 h3 ((int_at h1)(z := ?a smod ?b - sgn ?b))" unfolding fun_upd_upd by (rule givesE)
  have w: "int_at h3 z = ?a smod ?b - sgn ?b" "int_at h3 y0 = ?b" "z < fresh h3" "y0 < fresh h3" and m: "writable h3 z"
    using reachD [OF h3(2)] S(2-4) d(1) writable_fresh [OF d(1) h3(2)] by (auto simp: writable_def)
  have e: "e_mod ?a ?b - sgn ?b = (if ?b < 0 then ?a smod ?b - sgn ?b - ?b else ?a smod ?b - sgn ?b + ?b)"
    using euclid_cases(2) [OF assms(5,6)] by simp
  have "gives h3 (if ?b < 0 then Int_Sub z z y0 h3 else Int_Add z z y0 h3) ((int_at h3)(z := e_mod ?a ?b - sgn ?b))"
    unfolding e using Int_Add_ok [OF m w(3,4)] Int_Sub_ok [OF m w(3,4)] unfolding w(1,2) by (cases "?b < 0") simp_all
  from gives_after [OF h3(2) this] have "gives h1 (if ?b < 0 then Int_Sub z z y0 h3 else Int_Add z z y0 h3) ((int_at h1)(z := e_mod ?a ?b - sgn ?b))"
    by simp
  from gives_from [OF S(1) this] have "gives h (if ?b < 0 then Int_Sub z z y0 h3 else Int_Add z z y0 h3) ((int_at h)(z := e_mod ?a ?b - sgn ?b))"
    using reachD(2) [OF S(1)] by auto
  then show ?thesis using h3(1) n by (cases "?b < 0") (simp_all add: Int_DivMod_def s h2(1))
qed

text \<open>Nothing is corrected when the remainder of the truncated division is not negative.\<close>

lemma Int_DivMod_exact:
  assumes "writable h z" and "writable h m" and "x < fresh h" and "y < fresh h" and "divisor_ok (int_at h y)"
    and "int_at h y \<noteq> 0" and "\<not> int_at h x smod int_at h y < 0"
  shows "gives h (Int_DivMod z x y m h) ((int_at h)(z := int_at h x sdiv int_at h y, m := int_at h x smod int_at h y))"
proof -
  let ?a = "int_at h x" and ?b = "int_at h y"
  have zf: "z < fresh h" "m < fresh h" using assms(1,2) by (simp_all add: writable_def)
  obtain y0 h1 where s: "saved z y h = (y0, h1)" by fastforce
  note S = saved_ok [OF writable_good [OF assms(1)] zf(1) assms(4) s]
  have d: "writable h1 z" "writable h1 m" "x < fresh h1" "y < fresh h1" "int_at h1 x = ?a" "int_at h1 y = ?b"
    using assms writable_fresh [OF assms(1) S(1)] writable_fresh [OF assms(2) S(1)] reachD [OF S(1)] by auto
  obtain h2 where h2: "Int_QuoRem z x y m h1 = Inr h2" "reach h1 h2 ((int_at h1)(z := ?a sdiv ?b, m := ?a smod ?b))"
    using Int_QuoRem_ok [OF d(1-4), unfolded d(5,6), OF assms(5)] assms(6) by (auto simp: gives_def)
  have v: "int_at h2 m = ?a smod ?b" "m < fresh h2" "good h2" using reachD [OF h2(2)] d(2) by (auto simp: writable_def)
  have "\<not> is_neg h2 m" using read(4) [OF v(3,2)] v(1) assms(7) by simp
  moreover from h2(2) have "gives h1 (Inr h2) ((int_at h1)(z := ?a sdiv ?b, m := ?a smod ?b))" by (simp add: gives_def)
  from gives_from [OF S(1) this] have "gives h (Inr h2) ((int_at h)(z := ?a sdiv ?b, m := ?a smod ?b))" using reachD(2) [OF S(1)] by auto
  ultimately show ?thesis by (simp add: Int_DivMod_def s h2(1))
qed

text \<open>What \<open>DivMod\<close> leaves, for all ways to share its arguments: Euclid's quotient and remainder unless its results overwrite each other or the divisor.\<close>

definition div_mod_result :: "nat \<Rightarrow> nat \<Rightarrow> nat \<Rightarrow> nat \<Rightarrow> (nat \<Rightarrow> int) \<Rightarrow> (nat \<Rightarrow> int)" where
  "div_mod_result z x y m v =
    (let a = v x; b = v y in
     if a smod b < 0 \<and> z = m then v(z := e_mod a b - sgn b)
     else if a smod b < 0 \<and> m = y then v(z := a sdiv b + 1, m := 0)
     else v(z := e_div a b, m := e_mod a b))"

lemma Int_DivMod_all:
  assumes "writable h z" and "writable h m" and "x < fresh h" and "y < fresh h" and "divisor_ok (int_at h y)"
  shows "if int_at h y = 0 then Int_DivMod z x y m h = Inl (PanicMsg ''division by zero'')
    else gives h (Int_DivMod z x y m h) (div_mod_result z x y m (int_at h))"
proof (cases "int_at h y = 0")
  case True
  have zf: "z < fresh h" using assms(1) by (simp add: writable_def)
  obtain y0 h1 where s: "saved z y h = (y0, h1)" by fastforce
  note S = saved_ok [OF writable_good [OF assms(1)] zf assms(4) s]
  have d: "writable h1 z" "writable h1 m" "x < fresh h1" "y < fresh h1" "int_at h1 y = int_at h y"
    using assms writable_fresh [OF assms(1) S(1)] writable_fresh [OF assms(2) S(1)] reachD [OF S(1)] by auto
  show ?thesis using Int_QuoRem_ok [OF d(1-4), unfolded d(5), OF assms(5)] True by (simp add: Int_DivMod_def s)
next
  case False
  note E = euclid_cases [OF False, of "int_at h x"]
  consider "\<not> int_at h x smod int_at h y < 0" | "int_at h x smod int_at h y < 0" "z = m" | "int_at h x smod int_at h y < 0" "z \<noteq> m" "m = y"
    | "int_at h x smod int_at h y < 0" "z \<noteq> m" "m \<noteq> y" by blast
  then show ?thesis
  proof cases
    case 1
    then show ?thesis using Int_DivMod_exact [OF assms False] E(3,4) False by (simp add: div_mod_result_def Let_def)
  next
    case 2
    then show ?thesis using Int_DivMod_one_target [OF assms(1,3-5) False] False by (simp add: div_mod_result_def Let_def)
  next
    case 3
    then show ?thesis using Int_DivMod_shared [of h z y x] assms False by (simp add: div_mod_result_def Let_def)
  next
    case 4
    then show ?thesis using Int_DivMod_ok [OF assms(1,2) 4(2,3) assms(3-5)] False by (simp add: div_mod_result_def Let_def)
  qed
qed

end
