(* ===== verification/Big_Bytes_Spec.thy ===== *)
theory Big_Bytes_Spec
  imports Big_Bits_Spec
begin

text \<open>
  The conversion between natural numbers and big-endian bytes: \<open>lval\<close> is the number that a little-endian list of bytes
  stands for, \<open>to_bytes\<close> the shortest big-endian list for a number.
\<close>

primrec lval :: "u8 list \<Rightarrow> nat" where
  "lval [] = 0"
| "lval (b # bs) = unat b + 256 * lval bs"

fun to_bytes :: "nat \<Rightarrow> u8 list" where
  "to_bytes v = (if v = 0 then [] else to_bytes (v div 256) @ [of_nat v])"

declare to_bytes.simps [simp del]

lemma to_bytes_0 [simp]: "to_bytes 0 = []"
  by (simp add: to_bytes.simps)

lemma lval_append: "lval (xs @ ys) = lval xs + 256 ^ length xs * lval ys"
  by (induction xs) (simp_all add: algebra_simps)

lemma unat_byte: "unat (b :: u8) < 256"
  by (rule unat_lt8)

lemma lval_0: "lval xs = 0 \<longleftrightarrow> (\<forall>b \<in> set xs. b = 0)"
  by (induction xs) (auto simp: unat_eq_zero)

lemma lval_lt: "lval xs < 256 ^ length xs"
proof (induction xs)
  case (Cons x xs)
  then have "256 * (lval xs + 1) \<le> 256 * 256 ^ length xs" by (intro mult_le_mono2) simp
  moreover have "256 ^ length (x # xs) = 256 * (256 :: nat) ^ length xs" by simp
  moreover have "lval (x # xs) = unat x + 256 * lval xs" "256 * (lval xs + 1) = 256 * lval xs + 256" by simp_all
  ultimately show ?case using unat_byte [of x] by linarith
qed simp

lemma strip_bytes: "dropWhile (\<lambda>b. b = 0) (rev bs) = to_bytes (lval bs)"
proof (induction bs)
  case (Cons b bs)
  have d: "lval (b # bs) div 256 = lval bs" using unat_byte [of b] by simp
  have "unat (of_nat (lval (b # bs)) :: u8) = lval (b # bs) mod 256" by (simp only: unat_of_nat) simp
  also have "\<dots> = unat b" by simp
  finally have m: "of_nat (lval (b # bs)) = b" by (simp only: word_unat_eq_iff)
  show ?case
  proof (cases "lval bs = 0")
    case True
    then have "dropWhile (\<lambda>b. b = 0) (rev bs @ [b]) = dropWhile (\<lambda>b. b = 0) [b]" by (simp add: lval_0 dropWhile_append)
    then show ?thesis using True d m by (cases "b = 0") (simp_all add: to_bytes.simps [of "unat b"] unat_eq_zero)
  next
    case False
    then have "\<exists>b \<in> set (rev bs). b \<noteq> 0" by (simp add: lval_0)
    then have "dropWhile (\<lambda>b. b = 0) (rev bs @ [b]) = dropWhile (\<lambda>b. b = 0) (rev bs) @ [b]" by (simp add: dropWhile_append)
    moreover have "lval (b # bs) \<noteq> 0" using False by simp
    ultimately show ?thesis using Cons d m by (subst to_bytes.simps) simp
  qed
qed simp

lemma lval_to_bytes: "lval (rev (to_bytes v)) = v"
proof (induction v rule: to_bytes.induct)
  case (1 v)
  have "unat (of_nat v :: u8) = v mod 256" by (simp add: unat_of_nat)
  then show ?case using 1 by (subst to_bytes.simps) simp
qed

lemma dropWhile_replicate: "\<exists>k. xs = replicate k 0 @ dropWhile (\<lambda>b. b = 0) xs" for xs :: "u8 list"
proof (induction xs)
  case (Cons x xs)
  then obtain k where "xs = replicate k 0 @ dropWhile (\<lambda>b. b = 0) xs" by blast
  then show ?case by (cases "x = 0") (auto intro: exI [of _ "Suc k"] exI [of _ 0])
qed simp

text \<open>All bytes of a buffer that holds \<open>v\<close>.\<close>

lemma padded_bytes: "rev bs = replicate (length bs - length (to_bytes (lval bs))) 0 @ to_bytes (lval bs)"
proof -
  obtain k where k: "rev bs = replicate k 0 @ to_bytes (lval bs)" using dropWhile_replicate [of "rev bs"] by (auto simp: strip_bytes)
  then have "length bs = k + length (to_bytes (lval bs))" by (metis length_append length_replicate length_rev)
  then show ?thesis using k by simp
qed

section \<open>Writing\<close>

primrec le_bytes :: "nat \<Rightarrow> u64 \<Rightarrow> u8 list" where
  "le_bytes 0 d = []"
| "le_bytes (Suc j) d = ucast d # le_bytes j (drop_bit 8 d)"

lemma length_le_bytes [simp]: "length (le_bytes j d) = j"
  by (induction j arbitrary: d) auto

lemma lval_le_bytes: "lval (le_bytes j d) = unat d mod 256 ^ j"
proof (induction j arbitrary: d)
  case (Suc j)
  have "unat (ucast d :: u8) = unat d mod 256" by (simp add: unat_ucast_mod)
  moreover have "unat (drop_bit 8 d) = unat d div 256" by (simp add: unat_shr)
  ultimately show ?case using Suc [of "drop_bit 8 d"] by (simp add: mod_mult2_eq)
qed simp

text \<open>The state of \<open>bytes\<close> when the bytes \<open>bl\<close>, lowest first, have been written to \<open>buf\<close>, those beyond it being zero.\<close>

definition bytes_put :: "u8 list \<Rightarrow> u8 list \<Rightarrow> u8 list \<times> int" where
  "bytes_put buf bl =
    (take (length buf - length bl) buf @ rev (take (length buf) bl), int (length buf) - int (length bl))"

definition fits :: "u8 list \<Rightarrow> u8 list \<Rightarrow> bool" where
  "fits buf bl \<longleftrightarrow> list_all (\<lambda>b. b = 0) (drop (length buf) bl)"

lemma fits_append: "fits buf (bl @ bl') \<longleftrightarrow> fits buf bl \<and> list_all (\<lambda>b. b = 0) (drop (length buf - length bl) bl')"
  by (simp add: fits_def)

lemma bytes_put_snoc:
  assumes "length bl < length buf"
  shows "(fst (bytes_put buf bl))[length buf - length bl - 1 := b] = fst (bytes_put buf (bl @ [b]))"
proof -
  have l: "length (take (length buf - length bl) buf) = length buf - length bl" by simp
  have "(take (length buf - length bl) buf)[length buf - length bl - 1 := b] = take (length buf - length bl - 1) buf @ [b]"
    using assms by (simp add: list_update_append1 upd_conv_take_nth_drop)
  then show ?thesis using assms by (simp add: bytes_put_def list_update_append1)
qed

lemma bytes_word_eq:
  assumes "fits buf bl"
  shows "bytes_word j d (bytes_put buf bl) =
    (if fits buf (bl @ le_bytes j d) then Inr (bytes_put buf (bl @ le_bytes j d))
     else Inl (PanicMsg ''math/big: buffer too small to fit value''))"
  using assms
proof (induction j arbitrary: d bl)
  case (Suc j)
  let ?b = "ucast d :: u8" and ?n = "length buf" and ?t = "length bl"
  have w: "bytes_put buf bl = (fst (bytes_put buf bl), int ?n - int ?t)" by (simp add: bytes_put_def)
  show ?case
  proof (cases "?t < ?n")
    case True
    have lf: "length (fst (bytes_put buf bl)) = ?n" using True by (simp add: bytes_put_def)
    have i: "nat (int ?n - int ?t - 1) = ?n - Suc ?t" "?n - Suc ?t < ?n" "1 + int ?t \<le> int ?n" using True by linarith+
    have s: "bytes_put buf (bl @ [?b]) = (fst (bytes_put buf (bl @ [?b])), int ?n - int ?t - 1)" by (simp add: bytes_put_def)
    have "bytes_word (Suc j) d (bytes_put buf bl) = bytes_word j (drop_bit 8 d) (bytes_put buf (bl @ [?b]))"
      using True lf i bytes_put_snoc [OF True, of ?b] by (subst w) (subst s, simp add: Let_def)
    moreover have "fits buf (bl @ [?b])" using True Suc.prems by (simp add: fits_append)
    ultimately show ?thesis using Suc.IH [of "bl @ [?b]" "drop_bit 8 d"] by simp
  next
    case False
    have neg: "int ?n - int ?t - 1 < 0" using False by linarith
    show ?thesis
    proof (cases "?b = 0")
      case True
      have "bytes_put buf (bl @ [?b]) = (fst (bytes_put buf bl), int ?n - int ?t - 1)" using False by (simp add: bytes_put_def)
      then have "bytes_word (Suc j) d (bytes_put buf bl) = bytes_word j (drop_bit 8 d) (bytes_put buf (bl @ [?b]))"
        using True neg by (subst w) simp
      moreover have "fits buf (bl @ [?b])" using True Suc.prems by (simp add: fits_append drop_Cons')
      ultimately show ?thesis using Suc.IH [of "bl @ [?b]" "drop_bit 8 d"] by simp
    next
      case b: False
      then have "bytes_word (Suc j) d (bytes_put buf bl) = Inl (PanicMsg ''math/big: buffer too small to fit value'')"
        using neg by (subst w) (simp add: go_bind_def)
      moreover have "\<not> fits buf (bl @ le_bytes (Suc j) d)" using b False by (simp add: fits_append)
      ultimately show ?thesis by simp
    qed
  qed
qed simp

definition all_bytes :: "u64 list \<Rightarrow> u8 list" where
  "all_bytes z = concat (map (le_bytes 8) z)"

lemma lval_all_bytes: "lval (all_bytes z) = val z"
proof (induction z)
  case (Cons w z)
  have "(256::nat) ^ 8 = B" by (simp add: B_def)
  then show ?case using Cons by (simp add: all_bytes_def lval_append lval_le_bytes)
qed (simp add: all_bytes_def)

lemma length_all_bytes: "length (all_bytes z) = 8 * length z"
  by (induction z) (simp_all add: all_bytes_def)

lemma bytes_fold_eq:
  assumes "fits buf bl"
  shows "go_fold (\<lambda>d. bytes_word 8 d) z (bytes_put buf bl) =
    (if fits buf (bl @ all_bytes z) then Inr (bytes_put buf (bl @ all_bytes z))
     else Inl (PanicMsg ''math/big: buffer too small to fit value''))"
  using assms
proof (induction z arbitrary: bl)
  case (Cons w z)
  have "\<not> fits buf (bl @ all_bytes (w # z))" if "\<not> fits buf (bl @ le_bytes 8 w)"
    using that fits_append [of buf "bl @ le_bytes 8 w" "all_bytes z"] by (simp add: all_bytes_def)
  then show ?case using Cons.IH [of "bl @ le_bytes 8 w"] bytes_word_eq [OF Cons.prems, of 8 w]
    by (auto simp: go_bind_def all_bytes_def)
qed (simp add: all_bytes_def)

lemma fits_iff: "fits buf bl \<longleftrightarrow> lval bl < 256 ^ length buf"
proof (cases "length buf \<le> length bl")
  case True
  then have "lval bl = lval (take (length buf) bl) + 256 ^ length buf * lval (drop (length buf) bl)"
    using lval_append [of "take (length buf) bl" "drop (length buf) bl"] by simp
  moreover have "lval (take (length buf) bl) < 256 ^ length buf" using lval_lt [of "take (length buf) bl"] True by simp
  moreover have "fits buf bl \<longleftrightarrow> lval (drop (length buf) bl) = 0" by (simp add: fits_def lval_0 list_all_iff)
  ultimately show ?thesis by (cases "lval (drop (length buf) bl)") auto
next
  case False
  then have "lval bl < 256 ^ length buf" using lval_lt [of bl] power_increasing [of "length bl" "length buf" "256 :: nat"] by linarith
  then show ?thesis using False by (simp add: fits_def)
qed

lemma bytes_skip_eq: "i \<le> length buf \<Longrightarrow> drop (bytes_skip buf i) buf = dropWhile (\<lambda>b. b = 0) (drop i buf)"
proof (induction buf i rule: bytes_skip.induct)
  case (1 buf i)
  show ?case
  proof (cases "i < length buf")
    case True
    then have "drop i buf = buf ! i # drop (Suc i) buf" by (simp add: Cons_nth_drop_Suc)
    then show ?thesis using 1 True by (subst bytes_skip.simps) simp
  qed (use 1 in \<open>subst bytes_skip.simps, simp\<close>)
qed

lemma nat_clip: "nat (if int a - int b < 0 then 0 else int a - int b) = a - b"
proof (cases "a < b")
  case False
  then obtain c where "a = b + c" using le_Suc_ex linorder_not_less by blast
  then show ?thesis by simp
qed simp

lemma nat_bytes_eq:
  "if val z < 256 ^ length buf
   then \<exists>k. nat_bytes z buf = Inr (take (length buf - 8 * length z) buf @ rev (take (length buf) (all_bytes z)), k) \<and>
      drop k (take (length buf - 8 * length z) buf @ rev (take (length buf) (all_bytes z))) = to_bytes (val z)
   else nat_bytes z buf = Inl (PanicMsg ''math/big: buffer too small to fit value'')"
proof -
  let ?n = "length buf"
  have w: "bytes_put buf [] = (buf, int ?n)" by (simp add: bytes_put_def)
  have f: "go_fold (\<lambda>d. bytes_word 8 d) z (buf, int ?n) =
    (if val z < 256 ^ ?n then Inr (bytes_put buf (all_bytes z))
     else Inl (PanicMsg ''math/big: buffer too small to fit value''))"
    using bytes_fold_eq [of buf "[]" z] by (simp add: w) (simp add: fits_iff lval_all_bytes)
  show ?thesis
  proof (cases "val z < 256 ^ ?n")
    case True
    let ?b = "take (?n - 8 * length z) buf @ rev (take ?n (all_bytes z))"
    let ?i = "?n - 8 * length z"
    have lb: "length ?b = ?n" by (simp add: length_all_bytes)
    have i: "nat (int ?n - 8 * int (length z)) = ?i" if "\<not> int ?n < 8 * int (length z)"
      using that nat_clip [of ?n "8 * length z"] by simp
    have "drop (bytes_skip ?b ?i) ?b = dropWhile (\<lambda>b. b = 0) (drop ?i ?b)" by (rule bytes_skip_eq) (simp add: length_all_bytes)
    also have "drop ?i ?b = rev (take ?n (all_bytes z))" by simp
    also have "dropWhile (\<lambda>b. b = 0) \<dots> = to_bytes (lval (take ?n (all_bytes z)))" by (rule strip_bytes)
    also have "lval (take ?n (all_bytes z)) = val z"
    proof -
      have "lval (drop ?n (all_bytes z)) = 0" using True unfolding lval_all_bytes [symmetric] fits_iff [symmetric]
        by (simp add: fits_def lval_0 list_all_iff)
      then show ?thesis using lval_append [of "take ?n (all_bytes z)" "drop ?n (all_bytes z)"] by (simp add: lval_all_bytes)
    qed
    finally have "drop (bytes_skip ?b ?i) ?b = to_bytes (val z)" .
    moreover have "nat_bytes z buf = Inr (?b, bytes_skip ?b ?i)"
      using True f i by (simp add: nat_bytes_def Let_def bytes_put_def length_all_bytes)
    ultimately show ?thesis using True by simp
  qed (use f in \<open>simp add: nat_bytes_def go_bind_def\<close>)
qed

section \<open>Reading\<close>

lemma or_byte:
  fixes x :: u64 and c :: u8
  assumes "unat x < 2 ^ k" and "k \<le> 56"
  shows "unat (x OR push_bit k (ucast c)) = unat x + 2 ^ k * unat c" "unat x + 2 ^ k * unat c < 2 ^ (k + 8)"
proof -
  have c: "unat (ucast c :: u64) = unat c" unfolding unat_ucast_mod
    by (intro mod_less order_less_trans [OF unat_lt8]) simp
  have "Suc (unat c) \<le> 256" by (rule Suc_leI) (rule unat_lt8)
  then have "2 ^ k * (unat c + 1) \<le> 2 ^ k * 2 ^ 8" by (intro mult_le_mono2) simp
  then have le: "2 ^ k * unat c + 2 ^ k \<le> 2 ^ (k + 8)" by (simp only: power_add distrib_left mult_1_right)
  moreover have "(2 :: nat) ^ (k + 8) \<le> 2 ^ 64" using assms(2) by (intro power_increasing) simp_all
  moreover have "0 < (2 :: nat) ^ k" by simp
  ultimately have "2 ^ k * unat c < 2 ^ 64" by linarith
  then have "unat (push_bit k (ucast c :: u64)) = 2 ^ k * unat c" by (simp add: unat_shl c mult.commute)
  moreover have "x AND push_bit k (ucast c) = 0"
  proof (rule bit_eqI)
    fix i
    have "i < k" if "bit x i" using that assms(1) less_bits [of "unat x" k] by (simp add: bit_unat)
    then show "bit (x AND push_bit k (ucast c)) i = bit 0 i" by (auto simp: bit_and_iff bit_push_bit_iff)
  qed
  ultimately show "unat (x OR push_bit k (ucast c)) = unat x + 2 ^ k * unat c" by (simp only: unat_or_disjoint)
  show "unat x + 2 ^ k * unat c < 2 ^ (k + 8)" using assms(1) le by linarith
qed

lemma or_acc_gen:
  fixes x :: u64 and c :: u8
  assumes "unat x = v" and "v < 2 ^ k" and "k \<le> 56"
  shows "unat (x OR push_bit k (ucast c)) = v + 2 ^ k * unat c" "v + 2 ^ k * unat c < 2 ^ (k + 8)"
  using or_byte [of x k c] assms by simp_all

lemmas or_acc = or_acc_gen [where k = 8, simplified] and or_acc2 = or_acc_gen [where k = 16, simplified]
  and or_acc3 = or_acc_gen [where k = 24, simplified] and or_acc4 = or_acc_gen [where k = 32, simplified]
  and or_acc5 = or_acc_gen [where k = 40, simplified] and or_acc6 = or_acc_gen [where k = 48, simplified]
  and or_acc7 = or_acc_gen [where k = 56, simplified]

lemma bigEndianWord_ok:
  assumes "length b = 8"
  shows "\<exists>w. bigEndianWord b = Inr w \<and> unat w = lval (rev b)"
proof -
  obtain b0 b1 b2 b3 b4 b5 b6 b7 where b: "b = [b0, b1, b2, b3, b4, b5, b6, b7]"
    using assms by (auto simp: length_Suc_conv numeral_eq_Suc)
  have 0: "unat (ucast b7 :: u64) = unat b7" unfolding unat_ucast_mod
    by (intro mod_less order_less_trans [OF unat_lt8]) simp
  note 1 = or_acc [OF 0 unat_lt8 [of b7], of b6]
  note 2 = or_acc2 [OF 1, of b5]
  note 3 = or_acc3 [OF 2, of b4]
  note 4 = or_acc4 [OF 3, of b3]
  note 5 = or_acc5 [OF 4, of b2]
  note 6 = or_acc6 [OF 5, of b1]
  note 7 = or_acc7 [OF 6, of b0]
  let ?w = "ucast b7 OR push_bit 8 (ucast b6) OR push_bit 16 (ucast b5) OR push_bit 24 (ucast b4) OR
    push_bit 32 (ucast b3) OR push_bit 40 (ucast b2) OR push_bit 48 (ucast b1) OR push_bit 56 (ucast b0) :: u64"
  have "bigEndianWord b = Inr ?w" by (simp add: b bigEndianWord_def)
  moreover have "unat ?w = lval (rev b)" using 7(1) unfolding or.assoc by (simp only:) (simp add: b)
  ultimately show ?thesis by blast
qed

lemma setBytes_rest_ok:
  assumes "i * 8 + s \<le> 64" and "unat d < 2 ^ s" and "i \<le> length buf"
  shows "\<exists>w. setBytes_rest buf i s d = Inr w \<and> unat w = unat d + 2 ^ s * lval (rev (take i buf))"
  using assms
proof (induction i arbitrary: s d)
  case (Suc i)
  let ?d = "d OR push_bit s (ucast (buf ! i))"
  have s: "s \<le> 56" using Suc.prems by simp
  note d = or_byte [OF Suc.prems(2) s, of "buf ! i"]
  obtain w where w: "setBytes_rest buf i (s + 8) ?d = Inr w" "unat w = unat ?d + 2 ^ (s + 8) * lval (rev (take i buf))"
    using Suc.IH [of "s + 8" ?d] Suc.prems d by auto
  have "take (Suc i) buf = take i buf @ [buf ! i]" using Suc.prems(3) by (simp add: take_Suc_conv_app_nth)
  then have "lval (rev (take (Suc i) buf)) = unat (buf ! i) + 256 * lval (rev (take i buf))" by simp
  then have "unat w = unat d + 2 ^ s * lval (rev (take (Suc i) buf))"
    unfolding w(2) d(1) by (simp add: power_add algebra_simps)
  then show ?case using w(1) Suc.prems(3) by simp
qed simp

lemma setBytes_words_ok:
  assumes "wf z" and "k + i div 8 \<le> count z" and "i \<le> length buf"
  shows "\<exists>z'. setBytes_words buf i k z = Inr (z', i mod 8) \<and> wf z' \<and> count z' = count z \<and>
    val (take (k + i div 8) (words z')) = val (take k (words z)) + B ^ k * lval (rev (drop (i mod 8) (take i buf)))"
  using assms
proof (induction buf i k z rule: setBytes_words.induct)
  case (1 buf i k z)
  show ?case
  proof (cases "i \<ge> 8")
    case True
    let ?b = "take 8 (drop (i - 8) buf)"
    have W8: "W div 8 = 8" by simp
    have lb: "length ?b = 8" using True "1.prems"(3) by simp
    then obtain w where w: "bigEndianWord ?b = Inr w" "unat w = lval (rev ?b)" using bigEndianWord_ok by blast
    have i: "i div 8 = Suc ((i - 8) div 8)" "i mod 8 = (i - 8) mod 8" using True by (simp_all add: le_div_geq le_mod_geq)
    have k: "k < count z" using "1.prems"(2) i by simp
    then obtain z1 where z1: "sl_set z k w = Inr z1" "wf z1" "count z1 = count z" "words z1 = (words z)[k := w]"
      using set_ok [OF "1.prems"(1)] by blast
    have s: "vslice buf (i - W div 8) i = Inr ?b" using True "1.prems"(3) by simp
    obtain z' where z': "setBytes_words buf (i - 8) (k + 1) z1 = Inr (z', (i - 8) mod 8)" "wf z'" "count z' = count z1"
      "val (take (k + 1 + (i - 8) div 8) (words z')) = val (take (k + 1) (words z1)) + B ^ (k + 1) * lval (rev (drop ((i - 8) mod 8) (take (i - 8) buf)))"
    proof -
      have "k + 1 + (i - 8) div 8 \<le> count z1" "i - 8 \<le> length buf" using "1.prems" z1(3) i(1) by simp_all
      from "1.IH" [unfolded W8, OF True s [unfolded W8] w(1) z1(1,2) this] that show thesis by blast
    qed
    have "take (k + 1) (words z1) = take k (words z) @ [w]" using k "1.prems"(1) z1(4) by (simp add: take_Suc_conv_app_nth)
    then have v: "val (take (k + 1) (words z1)) = val (take k (words z)) + B ^ k * unat w"
      using k "1.prems"(1) by (simp add: val_append)
    have "take i buf = take (i - 8) buf @ ?b" using True "1.prems"(3) by (metis le_add_diff_inverse2 take_add)
    moreover have "(i - 8) mod 8 \<le> length (take (i - 8) buf)" using "1.prems"(3) by (simp add: min_def mod_less_eq_dividend)
    ultimately have "rev (drop (i mod 8) (take i buf)) = rev ?b @ rev (drop ((i - 8) mod 8) (take (i - 8) buf))" using i(2) by simp
    moreover have "(256 :: nat) ^ 8 = B" by (simp add: B_def)
    ultimately have "lval (rev (drop (i mod 8) (take i buf))) = unat w + B * lval (rev (drop ((i - 8) mod 8) (take (i - 8) buf)))"
      using lb w(2) by (simp add: lval_append)
    note L = this
    have "k + i div 8 = k + 1 + (i - 8) div 8" using i(1) by simp
    then have "val (take (k + i div 8) (words z')) =
      val (take (k + 1) (words z1)) + B ^ (k + 1) * lval (rev (drop ((i - 8) mod 8) (take (i - 8) buf)))"
      using z'(4) by (simp only:)
    then have "val (take (k + i div 8) (words z')) = val (take k (words z)) + B ^ k * lval (rev (drop (i mod 8) (take i buf)))"
      unfolding L v by (simp only: power_add power_one_right distrib_left mult.assoc add.assoc)
    moreover have "setBytes_words buf i k z = Inr (z', i mod 8)"
      by (subst setBytes_words.simps) (simp only: W8 True if_True s [unfolded W8] w(1) z1(1) z'(1) go_bind_Inr i(2) [symmetric])
    moreover have "count z' = count z" using z'(3) z1(3) by (simp only:)
    ultimately show ?thesis by (intro exI [of _ z'] conjI z'(2))
  next
    case False
    then show ?thesis using 1 by (subst setBytes_words.simps) simp
  qed
qed

lemma one_more: "0 < i \<Longrightarrow> i < 8 \<Longrightarrow> (7 + i) div 8 = (1 :: nat)"
  by (rule div_nat_eqI) simp_all

lemma nat_setBytes_ok: "\<exists>z'. nat_setBytes z buf = Inr z' \<and> nat_is z' (lval (rev buf))"
proof -
  let ?n = "length buf"
  let ?z = "nat_make z ((7 + ?n) div 8)"
  have c: "?n div 8 \<le> (7 + ?n) div 8" by (intro div_le_mono) simp
  then obtain z1 where z1: "setBytes_words buf ?n 0 ?z = Inr (z1, ?n mod 8)" "wf z1" "count z1 = (7 + ?n) div 8"
    "val (take (?n div 8) (words z1)) = lval (rev (drop (?n mod 8) buf))"
    using setBytes_words_ok [of ?z 0 ?n buf] by auto
  show ?thesis
  proof (cases "?n mod 8 = 0")
    case True
    then have "7 + ?n = 7 + 8 * (?n div 8)" using mult_div_mod_eq [of 8 ?n] by linarith
    then have "(7 + ?n) div 8 = 7 div 8 + ?n div 8" by (simp only: div_mult_self2)
    then have "(7 + ?n) div 8 = ?n div 8" by simp
    then have "val (words z1) = lval (rev buf)" using z1 True by simp
    then show ?thesis using z1 True norm_ok [OF z1(2)] by (simp add: nat_setBytes_def Let_def)
  next
    case False
    let ?i = "?n mod 8" and ?k = "?n div 8"
    have "7 + ?n = (7 + ?i) + 8 * ?k" by simp
    then have "(7 + ?n) div 8 = (7 + ?i) div 8 + ?k" by (simp only: div_mult_self2)
    moreover have "(7 + ?i) div 8 = 1" by (rule one_more) (use False in simp_all)
    ultimately have k: "(7 + ?n) div 8 = ?k + 1" by simp
    have "?i < 8" "?i \<le> ?n" by (simp_all add: mod_less_eq_dividend)
    then have "?i * 8 + 0 \<le> 64" "?i \<le> ?n" by simp_all
    then obtain d where d: "setBytes_rest buf ?i 0 0 = Inr d" "unat d = lval (rev (take ?i buf))"
      using setBytes_rest_ok [of ?i 0 0 buf] by auto
    have "?k < count z1" unfolding z1(3) k by simp
    from set_ok [OF z1(2) this, of d] obtain z2 where z2: "sl_set z1 ?k d = Inr z2" "wf z2" "words z2 = (words z1)[?k := d]" by blast
    have "words z2 = take ?k (words z1) @ [d]" using z2(3) z1(2,3) k by (simp add: upd_conv_take_nth_drop)
    then have v: "val (words z2) = lval (rev (drop ?i buf)) + B ^ ?k * lval (rev (take ?i buf))"
      using z1(2,3,4) k d(2) by (simp add: val_append)
    have "length (rev (drop ?i buf)) = 8 * ?k" by (simp add: minus_mod_eq_mult_div)
    moreover have "B ^ ?k = 256 ^ (8 * ?k)" by (simp add: B_def power_mult)
    moreover have "rev buf = rev (drop ?i buf) @ rev (take ?i buf)" by (simp flip: rev_append)
    ultimately have "val (words z2) = lval (rev buf)" unfolding v by (metis lval_append)
    moreover have "nat_setBytes z buf = Inr (nat_norm z2)"
      using False z1(1,3) d(1) z2(1) k by (simp add: nat_setBytes_def Let_def)
    ultimately show ?thesis using norm_ok [OF z2(2)] by simp
  qed
qed

end
