(* ===== verification/Big_Int_Bits_Spec.thy ===== *)
theory Big_Int_Bits_Spec
  imports Big_Int_Spec Big_Bytes_Spec Big_Sqrt
begin

unbundle bit_operations_syntax

text \<open>
  The bitwise methods of \<open>Int\<close>: each works on the magnitudes, with the sign set aside, and computes what the operation
  on two's complement numbers of unbounded length does, for either sign of each operand.  Then the conversions to and
  from machine integers and bytes, and the square root.
\<close>

section \<open>Magnitudes\<close>

lemma pred_ok:
  assumes "good h" and "x < fresh h" and "int_at h x < 0"
  shows "\<exists>m. nat_sub z (abs_of h x) natOne = Inr m \<and> nat_is m (nat (NOT (int_at h x)))"
proof -
  note X = read [OF assms(1,2)]
  have "1 \<le> val (abs_of h x)" "nat (NOT (int_at h x)) = val (abs_of h x) - 1" using X(3) assms(3) unfolding not_int_def by linarith+
  then show ?thesis using nat_sub_ok [OF X(2) natOne_ok(1), of z] natOne_ok(2) by simp
qed

lemma pred_of_ok:
  assumes "good h" and "x < fresh h" and "int_at h x < 0"
  shows "\<exists>w. pred_of h x = Inr w \<and> int (val w) = NOT (int_at h x)"
proof -
  obtain m where m: "nat_sub nat_nil (abs_of h x) natOne = Inr m" "nat_is m (nat (NOT (int_at h x)))" using pred_ok [OF assms] by blast
  have "0 \<le> NOT (int_at h x)" using assms(3) by simp
  then show ?thesis using m by (auto simp: pred_of_def nat_is_def)
qed

lemma abs_pos: "good h \<Longrightarrow> x < fresh h \<Longrightarrow> \<not> int_at h x < 0 \<Longrightarrow> int (val (abs_of h x)) = int_at h x"
  using read(3) [of h x] by simp

text \<open>The four combinations of signs, with what stands for each operand: the magnitude of a number that is not
  negative, the complement of a negative one.\<close>

lemma sign_cases [consumes 3, case_names both left right neither]:
  assumes "good h" and "x < fresh h" and "y < fresh h"
  obtains (both) a b where "is_neg h x" "is_neg h y" "pred_of h x = Inr a" "pred_of h y = Inr b"
      "int (val a) = NOT (int_at h x)" "int (val b) = NOT (int_at h y)"
    | (left) a where "is_neg h x" "\<not> is_neg h y" "pred_of h x = Inr a"
      "int (val a) = NOT (int_at h x)" "int (val (abs_of h y)) = int_at h y"
    | (right) b where "\<not> is_neg h x" "is_neg h y" "pred_of h y = Inr b"
      "int (val (abs_of h x)) = int_at h x" "int (val b) = NOT (int_at h y)"
    | (neither) "\<not> is_neg h x" "\<not> is_neg h y" "int (val (abs_of h x)) = int_at h x" "int (val (abs_of h y)) = int_at h y"
proof -
  note s = read(4) [OF assms(1,2)] read(4) [OF assms(1,3)]
  note P = pred_of_ok [OF assms(1,2)] pred_of_ok [OF assms(1,3)]
  note A = read(3) [OF assms(1,2)] read(3) [OF assms(1,3)]
  show thesis
    using P A that s by (cases "int_at h x < 0"; cases "int_at h y < 0") auto
qed

text \<open>The operations on magnitudes as operations on integers.\<close>

definition holds :: "nat_slice go \<Rightarrow> int \<Rightarrow> bool" where
  "holds r i \<longleftrightarrow> (\<exists>m n. r = Inr m \<and> nat_is m n \<and> int n = i)"

lemma holds_ops:
  "holds (nat_and z x y) (int (val x) AND int (val y))"
  "holds (nat_or z x y) (int (val x) OR int (val y))"
  "holds (nat_xor z x y) (int (val x) XOR int (val y))"
  "holds (nat_andNot z x y) (int (val x) AND NOT (int (val y)))"
proof -
  show "holds (nat_and z x y) (int (val x) AND int (val y))"
    using nat_and_ok [of z x y] unfolding holds_def of_nat_and_eq [symmetric] by blast
  show "holds (nat_or z x y) (int (val x) OR int (val y))"
    using nat_or_ok [of z x y] unfolding holds_def of_nat_or_eq [symmetric] by blast
  show "holds (nat_xor z x y) (int (val x) XOR int (val y))"
    using nat_xor_ok [of z x y] unfolding holds_def of_nat_xor_eq [symmetric] by blast
  obtain m v where m: "nat_andNot z x y = Inr m" "nat_is m v" and b: "\<And>i. bit v i \<longleftrightarrow> bit (val x) i \<and> \<not> bit (val y) i"
    using nat_andNot_ok by blast
  have "int v = int (val x) AND NOT (int (val y))" by (rule bit_eqI) (simp add: bit_simps b)
  then show "holds (nat_andNot z x y) (int (val x) AND NOT (int (val y)))" using m by (auto simp: holds_def)
qed

lemma plain_gives:
  assumes "writable h z" and "holds r j" and "j = i"
  shows "gives h (plain_in h z r) ((int_at h)(z := i))"
proof -
  obtain m n where m: "r = Inr m" "nat_is m n" "int n = i" using assms(2,3) by (auto simp: holds_def)
  show ?thesis unfolding plain_in_def m(1) go_bind_Inr by (rule gives_put(2) [OF assms(1) m(2)]) (simp_all add: m(3))
qed

lemma succ_put:
  assumes "writable h z" and "nat_is t n" and "NOT (int n) = i"
  shows "gives h (go_bind (nat_add m (words t) natOne) (\<lambda>m. Inr (put_int h z True m))) ((int_at h)(z := i))"
proof -
  have t: "normal (words t)" "val (words t) = n" using assms(2) by (simp_all add: nat_is_def)
  obtain r where r: "nat_add m (words t) natOne = Inr r" "nat_is r (n + 1)"
    using nat_add_ok [OF t(1) natOne_ok(1), of m] unfolding t(2) natOne_ok(2) by blast
  show ?thesis unfolding r(1) go_bind_Inr
    by (rule gives_put(2) [OF assms(1) r(2)]) (simp_all add: assms(3) [symmetric] not_int_def)
qed

lemma succ_gives:
  assumes "writable h z" and "holds r j" and "NOT j = i"
  shows "gives h (succ_in h z r) ((int_at h)(z := i))"
proof -
  obtain m n where m: "r = Inr m" "nat_is m n" "NOT (int n) = i" using assms(2,3) by (auto simp: holds_def)
  show ?thesis unfolding succ_in_def m(1) go_bind_Inr by (rule succ_put [OF assms(1) m(2,3)])
qed

section \<open>And, or, exclusive or, complement\<close>

lemma Int_And_ok:
  assumes "writable h z" and "x < fresh h" and "y < fresh h"
  shows "gives h (Int_And z x y h) ((int_at h)(z := int_at h x AND int_at h y))"
  using writable_good [OF assms(1)] assms(2,3)
  by (cases rule: sign_cases; simp add: Int_And_def) ((rule plain_gives succ_gives, rule assms(1), rule holds_ops, force simp: bit_eq_iff bit_simps)+)

lemma Int_Or_ok:
  assumes "writable h z" and "x < fresh h" and "y < fresh h"
  shows "gives h (Int_Or z x y h) ((int_at h)(z := int_at h x OR int_at h y))"
  using writable_good [OF assms(1)] assms(2,3)
  by (cases rule: sign_cases; simp add: Int_Or_def) ((rule plain_gives succ_gives, rule assms(1), rule holds_ops, force simp: bit_eq_iff bit_simps)+)

lemma Int_Xor_ok:
  assumes "writable h z" and "x < fresh h" and "y < fresh h"
  shows "gives h (Int_Xor z x y h) ((int_at h)(z := int_at h x XOR int_at h y))"
  using writable_good [OF assms(1)] assms(2,3)
  by (cases rule: sign_cases; simp add: Int_Xor_def) ((rule plain_gives succ_gives, rule assms(1), rule holds_ops, force simp: bit_eq_iff bit_simps)+)

lemma Int_AndNot_ok:
  assumes "writable h z" and "x < fresh h" and "y < fresh h"
  shows "gives h (Int_AndNot z x y h) ((int_at h)(z := int_at h x AND NOT (int_at h y)))"
  using writable_good [OF assms(1)] assms(2,3)
  by (cases rule: sign_cases; simp add: Int_AndNot_def) ((rule plain_gives succ_gives, rule assms(1), rule holds_ops, force simp: bit_eq_iff bit_simps)+)

lemma Int_Not_ok:
  assumes "writable h z" and "x < fresh h"
  shows "gives h (Int_Not z x h) ((int_at h)(z := NOT (int_at h x)))"
proof -
  note g = writable_good [OF assms(1)]
  note X = read [OF g assms(2)]
  show ?thesis
  proof (cases "int_at h x < 0")
    case True
    have "holds (nat_sub (mag_of h z) (abs_of h x) natOne) (NOT (int_at h x))"
      using pred_ok [OF g assms(2) True, of "mag_of h z"] True by (fastforce simp: holds_def)
    then show ?thesis unfolding Int_Not_def X(4) if_P [OF True] by (rule plain_gives [OF assms(1)]) simp
  next
    case False
    have n: "nat_is (mag_of h x) (val (abs_of h x))" "words (mag_of h x) = abs_of h x" using X by (simp_all add: nat_is_def)
    have "NOT (int (val (abs_of h x))) = NOT (int_at h x)" using X(3) False by simp
    from succ_put [OF assms(1) n(1) this, unfolded n(2)] show ?thesis unfolding Int_Not_def X(4) if_not_P [OF False] .
  qed
qed

section \<open>Shifts and single bits\<close>

lemma Int_Lsh_ok:
  assumes "writable h z" and "x < fresh h"
  shows "gives h (Int_Lsh z x n h) ((int_at h)(z := push_bit n (int_at h x)))"
proof -
  note X = read [OF writable_good [OF assms(1)] assms(2)]
  have z: "wf (mag_of h z)"
    using read [OF writable_good [OF assms(1)], of z] assms(1) by (simp_all add: writable_def)
  have a: "z = x \<and> abs_of h x \<noteq> [] \<longrightarrow> words (mag_of h z) = abs_of h x" by (auto simp: abs_of_def)
  obtain m where m: "nat_shl (z = x \<and> abs_of h x \<noteq> []) (z = x \<and> array (mag_of h x) \<noteq> []) (mag_of h z) (abs_of h x) n = Inr m"
      "nat_is m (val (abs_of h x) * 2 ^ n)"
    using nat_shl_ok [OF X(2) z a] by blast
  have "is_neg h x \<Longrightarrow> 0 < val (abs_of h x)" using X(3,4) by linarith
  moreover have "(if is_neg h x then - int (val (abs_of h x) * 2 ^ n) else int (val (abs_of h x) * 2 ^ n)) = push_bit n (int_at h x)"
    using X(3,4) by (auto simp: push_bit_eq_mult)
  ultimately show ?thesis unfolding Int_Lsh_def m(1) go_bind_Inr by (intro gives_put(2) [OF assms(1) m(2)]) simp_all
qed

lemma Int_Rsh_ok:
  assumes "writable h z" and "x < fresh h"
  shows "gives h (Int_Rsh z x n h) ((int_at h)(z := drop_bit n (int_at h x)))"
proof -
  note g = writable_good [OF assms(1)]
  note X = read [OF g assms(2)]
  show ?thesis
  proof (cases "int_at h x < 0")
    case True
    obtain t where t: "nat_sub (mag_of h z) (abs_of h x) natOne = Inr t" "nat_is t (nat (NOT (int_at h x)))"
      using pred_ok [OF g assms(2) True] by blast
    have w: "normal (words t)" "wf t" "val (words t) = nat (NOT (int_at h x))" using t(2) by (simp_all add: nat_is_def)
    obtain s where s: "nat_shr (count t > 0) (array t \<noteq> []) t (words t) n = Inr s" "nat_is s (val (words t) div 2 ^ n)"
      using nat_shr_ok [OF w(1,2), of "count t > 0"] by blast
    have "0 \<le> NOT (int_at h x)" using True by simp
    then have "int (val (words t) div 2 ^ n) = drop_bit n (NOT (int_at h x))" by (simp add: w(3) drop_bit_eq_div of_nat_div)
    then have "NOT (int (val (words t) div 2 ^ n)) = drop_bit n (int_at h x)" by (simp add: bit_eq_iff bit_simps)
    then show ?thesis unfolding Int_Rsh_def X(4) if_P [OF True] t(1) go_bind_Inr s(1) by (rule succ_put [OF assms(1) s(2)])
  next
    case False
    have z: "wf (mag_of h z)" using read [OF g, of z] assms(1) by (simp_all add: writable_def)
    have a: "z = x \<and> abs_of h x \<noteq> [] \<longrightarrow> words (mag_of h z) = abs_of h x" by (auto simp: abs_of_def)
    obtain m where m: "nat_shr (z = x \<and> abs_of h x \<noteq> []) (z = x \<and> array (mag_of h x) \<noteq> []) (mag_of h z) (abs_of h x) n = Inr m"
        "nat_is m (val (abs_of h x) div 2 ^ n)"
      using nat_shr_ok [OF X(2) z a] by blast
    have "int (val (abs_of h x) div 2 ^ n) = drop_bit n (int_at h x)" using X(3) False by (simp add: drop_bit_eq_div of_nat_div)
    then show ?thesis unfolding Int_Rsh_def X(4) if_not_P [OF False] m(1) go_bind_Inr
      by (intro gives_put(2) [OF assms(1) m(2)]) simp_all
  qed
qed

lemma Int_Bit_ok:
  assumes "good h" and "x < fresh h"
  shows "Int_Bit h x i = (if i < 0 then Inl (PanicMsg ''negative bit index'') else Inr (of_bool (bit (int_at h x) (nat i))))"
proof -
  note X = read [OF assms]
  consider "i = 0" | "i < 0" | "0 < i" "int_at h x < 0" | "0 < i" "\<not> int_at h x < 0" by linarith
  then show ?thesis
  proof cases
    case 1
    have "bit (val (abs_of h x)) 0 \<longleftrightarrow> bit \<bar>int_at h x\<bar> 0" unfolding X(3) [symmetric] bit_of_nat_iff_bit ..
    then have e: "bit (val (abs_of h x)) 0 \<longleftrightarrow> bit (int_at h x) 0" by (simp add: bit_0)
    have "(if length (abs_of h x) > 0 then abs_of h x ! 0 AND 1 else 0) = nat_bit (abs_of h x) 0" by (simp add: nat_bit_def)
    also have "\<dots> = of_bool (bit (int_at h x) 0)" unfolding nat_bit_eq e ..
    finally show ?thesis using 1 by (simp add: Int_Bit_def)
  next
    case 3
    obtain t where t: "nat_sub nat_nil (abs_of h x) natOne = Inr t" "nat_is t (nat (NOT (int_at h x)))"
      using pred_ok [OF assms 3(2)] by blast
    then have "int (val (words t)) = NOT (int_at h x)" using 3(2) by (simp add: nat_is_def)
    then have "bit (val (words t)) (nat i) \<longleftrightarrow> \<not> bit (int_at h x) (nat i)"
      by (metis bit_not_int_iff bit_of_nat_iff_bit)
    then show ?thesis using 3 t(1) by (simp add: Int_Bit_def X(4) nat_bit_eq)
  next
    case 4
    have "bit (val (abs_of h x)) (nat i) \<longleftrightarrow> bit (int_at h x) (nat i)"
      using abs_pos [OF assms 4(2)] by (metis bit_of_nat_iff_bit)
    then show ?thesis using 4 by (simp add: Int_Bit_def X(4) nat_bit_eq)
  qed (simp add: Int_Bit_def)
qed

text \<open>Clearing or setting a bit; the complement of a negative number has its bit set or cleared.\<close>

lemma setBit_neg:
  assumes "writable h z" and "x < fresh h" and "int_at h x < 0" and "\<not> i < 0"
  shows "b = 0 \<Longrightarrow> gives h (Int_SetBit z x i b h) ((int_at h)(z := unset_bit (nat i) (int_at h x)))"
    "b = 1 \<Longrightarrow> gives h (Int_SetBit z x i b h) ((int_at h)(z := set_bit (nat i) (int_at h x)))"
    "b \<noteq> 0 \<Longrightarrow> b \<noteq> 1 \<Longrightarrow> Int_SetBit z x i b h = Inl (PanicMsg ''set bit is not 0 or 1'')"
proof -
  note g = writable_good [OF assms(1)]
  let ?n = "nat i" and ?f = "\<lambda>t. go_bind (nat_add t (words t) natOne) (\<lambda>m. Inr (put_int h z (count m > 0) m))"
  obtain t where t: "nat_sub (mag_of h z) (abs_of h x) natOne = Inr t" "nat_is t (nat (NOT (int_at h x)))"
    using pred_ok [OF g assms(2,3)] by blast
  have w: "normal (words t)" "int (val (words t)) = NOT (int_at h x)" using t(2) assms(3) by (simp_all add: nat_is_def)
  have S: "Int_SetBit z x i b h = go_bind (nat_setBit t (words t) ?n (b XOR 1)) ?f"
    unfolding Int_SetBit_def if_not_P [OF assms(4)] read(4) [OF g assms(2)] if_P [OF assms(3)] t(1) go_bind_Inr ..
  have P: "gives h (go_bind (Inr s) ?f) ((int_at h)(z := j))" if s: "nat_is s k" "NOT (int k) = j" for s k j
  proof -
    have n: "normal (words s)" "val (words s) = k" using s(1) by (simp_all add: nat_is_def)
    obtain r where r: "nat_add s (words s) natOne = Inr r" "nat_is r (k + 1)"
      using nat_add_ok [OF n(1) natOne_ok(1), of s] unfolding n(2) natOne_ok(2) by blast
    have c: "(count r > 0) = True" using nat_is_count [OF r(2)] by simp
    show ?thesis using succ_put [OF assms(1) s, of s] r(1) c by simp
  qed
  have b: "b XOR 1 = 0 \<longleftrightarrow> b = 1" "b XOR 1 = 1 \<longleftrightarrow> b = 0" by (auto simp: bit_eq_iff bit_simps)
  note B = nat_setBit_ok [where z = t and i = "?n" and b = "b XOR 1", OF w(1), unfolded b]
  have c: "NOT (int (set_bit ?n (val (words t)))) = unset_bit ?n (int_at h x)"
    "NOT (int (unset_bit ?n (val (words t)))) = set_bit ?n (int_at h x)"
    by (auto simp: of_nat_set_bit_eq of_nat_unset_bit_eq w(2) bit_eq_iff bit_simps)
  show "gives h (Int_SetBit z x i b h) ((int_at h)(z := unset_bit ?n (int_at h x)))" if "b = 0"
    using B that P [OF _ c(1)] unfolding S by auto
  show "gives h (Int_SetBit z x i b h) ((int_at h)(z := set_bit ?n (int_at h x)))" if "b = 1"
    using B that P [OF _ c(2)] unfolding S by auto
  show "Int_SetBit z x i b h = Inl (PanicMsg ''set bit is not 0 or 1'')" if "b \<noteq> 0" "b \<noteq> 1"
    using B that unfolding S by simp
qed

lemma setBit_pos:
  assumes "writable h z" and "x < fresh h" and "\<not> int_at h x < 0" and "\<not> i < 0"
  shows "b = 0 \<Longrightarrow> gives h (Int_SetBit z x i b h) ((int_at h)(z := unset_bit (nat i) (int_at h x)))"
    "b = 1 \<Longrightarrow> gives h (Int_SetBit z x i b h) ((int_at h)(z := set_bit (nat i) (int_at h x)))"
    "b \<noteq> 0 \<Longrightarrow> b \<noteq> 1 \<Longrightarrow> Int_SetBit z x i b h = Inl (PanicMsg ''set bit is not 0 or 1'')"
proof -
  note g = writable_good [OF assms(1)]
  let ?n = "nat i" and ?f = "\<lambda>m. Inr (put_int h z False m)"
  have S: "Int_SetBit z x i b h = go_bind (nat_setBit (mag_of h z) (abs_of h x) ?n b) ?f"
    unfolding Int_SetBit_def if_not_P [OF assms(4)] read(4) [OF g assms(2)] if_not_P [OF assms(3)] ..
  have P: "gives h (go_bind (Inr s) ?f) ((int_at h)(z := j))" if s: "nat_is s k" "int k = j" for s k j
    unfolding go_bind_Inr by (rule gives_put(2) [OF assms(1) s(1)]) (simp_all add: s(2))
  note B = nat_setBit_ok [where z = "mag_of h z" and i = "?n" and b = b, OF read(2) [OF g assms(2)]]
  have c: "int (unset_bit ?n (val (abs_of h x))) = unset_bit ?n (int_at h x)" "int (set_bit ?n (val (abs_of h x))) = set_bit ?n (int_at h x)"
    by (simp_all only: of_nat_unset_bit_eq of_nat_set_bit_eq abs_pos [OF g assms(2,3)])
  show "gives h (Int_SetBit z x i b h) ((int_at h)(z := unset_bit ?n (int_at h x)))" if "b = 0"
    using B that P [OF _ c(1)] unfolding S by auto
  show "gives h (Int_SetBit z x i b h) ((int_at h)(z := set_bit ?n (int_at h x)))" if "b = 1"
    using B that P [OF _ c(2)] unfolding S by auto
  show "Int_SetBit z x i b h = Inl (PanicMsg ''set bit is not 0 or 1'')" if "b \<noteq> 0" "b \<noteq> 1"
    using B that unfolding S by simp
qed

lemma Int_SetBit_ok:
  assumes "writable h z" and "x < fresh h"
  shows "if i < 0 then Int_SetBit z x i b h = Inl (PanicMsg ''negative bit index'')
    else if b = 0 then gives h (Int_SetBit z x i b h) ((int_at h)(z := unset_bit (nat i) (int_at h x)))
    else if b = 1 then gives h (Int_SetBit z x i b h) ((int_at h)(z := set_bit (nat i) (int_at h x)))
    else Int_SetBit z x i b h = Inl (PanicMsg ''set bit is not 0 or 1'')"
proof (cases "i < 0")
  case False
  then show ?thesis using setBit_neg [OF assms _ False, of b] setBit_pos [OF assms _ False, of b] by auto
qed (simp add: Int_SetBit_def)

section \<open>Square root\<close>

text \<open>The numbers whose square root and division the code computes: all that a memory can hold.\<close>

definition fits_memory :: "int \<Rightarrow> bool" where
  "fits_memory a \<longleftrightarrow> \<bar>a\<bar> < int (B ^ (B - 2))"

lemma fits_divisor: "fits_memory a \<Longrightarrow> divisor_ok a"
proof -
  assume a: "fits_memory a"
  have "int (B ^ (B - 2)) \<le> int (B ^ (B - 1))" unfolding of_nat_le_iff using B_pos(1) by (intro power_increasing) linarith+
  then show ?thesis using a unfolding fits_memory_def divisor_ok_def by linarith
qed

lemma Int_Sqrt_ok:
  assumes "writable h z" and "x < fresh h" and "fits_memory (int_at h x)"
  shows "if int_at h x < 0 then Int_Sqrt z x h = Inl (PanicMsg ''square root of negative number'')
    else gives h (Int_Sqrt z x h) ((int_at h)(z := int (isqrt (nat (int_at h x)))))"
proof -
  note X = read [OF writable_good [OF assms(1)] assms(2)]
  show ?thesis
  proof (cases "int_at h x < 0")
    case False
    have v: "val (abs_of h x) = nat (int_at h x)" using X(3) False by linarith
    have "val (abs_of h x) < B ^ (B - 2)" using assms(3) X(3) unfolding fits_memory_def by linarith
    have l: "length (abs_of h x) < B - 1"
    proof (rule ccontr)
      assume l: "\<not> length (abs_of h x) < B - 1"
      then have "abs_of h x \<noteq> []" using B_pos(1) by auto
      then have "B ^ (length (abs_of h x) - 1) \<le> val (abs_of h x)" using val_ge [OF X(2)] by blast
      moreover have "B ^ (B - 2) \<le> B ^ (length (abs_of h x) - 1)" using l B_pos(1) by (intro power_increasing) linarith+
      ultimately show False using \<open>val (abs_of h x) < B ^ (B - 2)\<close> by linarith
    qed
    obtain m p where m: "nat_sqrt (z = x) (nats h) (mag_of h z) (abs_of h x) = Inr (m, p)" "nat_is m (isqrt (val (abs_of h x)))"
      using nat_sqrt_ok [OF X(2) l] by blast
    show ?thesis unfolding if_not_P [OF False] Int_Sqrt_def X(4) m(1) go_bind_Inr prod.case
      by (rule gives_put(1) [OF assms(1) m(2)]) (simp_all add: v)
  qed (simp add: Int_Sqrt_def X(4))
qed

section \<open>Machine integers and bytes\<close>

lemma low64_ok: "unat (low64 w) = val w mod B"
proof (cases w)
  case (Cons a w)
  have "unat a mod B = unat a" by (rule mod_less) (rule unat_lt_B)
  then show ?thesis using Cons by (simp add: low64_def mod_mult_self2)
qed (simp add: low64_def)

lemma low64_of_int: "low64 w = word_of_int (int (val w))"
proof -
  have "low64 w = word_of_nat (unat (low64 w))" by simp
  also have "\<dots> = word_of_nat (val w mod B)" unfolding low64_ok ..
  also have "\<dots> = word_of_nat (val w)" by (simp add: B_def word_of_nat_eq_iff take_bit_eq_mod)
  finally show ?thesis by simp
qed

lemma Int_Int64_ok: "good h \<Longrightarrow> x < fresh h \<Longrightarrow> Int_Int64 h x = word_of_int (int_at h x)"
  by (cases "int_at h x < 0") (simp_all add: Int_Int64_def Let_def low64_of_int read(3,4))

lemma Int_Uint64_ok: "good h \<Longrightarrow> x < fresh h \<Longrightarrow> Int_Uint64 h x = word_of_int \<bar>int_at h x\<bar>"
  by (simp add: Int_Uint64_def low64_of_int read(3))

lemma one_word: "normal w \<Longrightarrow> length w \<le> 1 \<longleftrightarrow> val w < B"
proof
  assume n: "normal w" and v: "val w < B"
  show "length w \<le> 1"
  proof (rule ccontr)
    assume l: "\<not> length w \<le> 1"
    then have "w \<noteq> []" by auto
    then have "B ^ (length w - 1) \<le> val w" by (rule val_ge [OF n])
    moreover have "B ^ 1 \<le> B ^ (length w - 1)" using l B_pos(1) by (intro power_increasing) linarith+
    ultimately show False using v by simp
  qed
next
  assume "length w \<le> 1"
  then have "w = [] \<or> length w = 1" by (cases w) auto
  then show "val w < B" using val_lt [of w] B_pos(1) by (auto simp del: unat_lt64)
qed

lemma Int_IsUint64_ok: "good h \<Longrightarrow> x < fresh h \<Longrightarrow> Int_IsUint64 h x \<longleftrightarrow> 0 \<le> int_at h x \<and> int_at h x < 2 ^ 64"
proof -
  assume g: "good h" "x < fresh h"
  note X = read [OF g]
  have "length (abs_of h x) \<le> 64 div W \<longleftrightarrow> val (abs_of h x) < B" using one_word [OF X(2)] by (simp add: W_def UintSize_def)
  also have "\<dots> \<longleftrightarrow> \<bar>int_at h x\<bar> < 2 ^ 64" unfolding X(3) [symmetric] B_def by simp
  finally show ?thesis unfolding Int_IsUint64_def X(4) by auto
qed

lemma sint_bounds: "- (2 ^ 63) \<le> sint w" "sint w < 2 ^ 63" for w :: u64
  using sint_ge [of w] sint_lt [of w] by simp_all

lemma word_half: "sint w < 0 \<Longrightarrow> w = - w \<longleftrightarrow> int (unat w) = 2 ^ 63" for w :: u64
proof -
  assume n: "sint w < 0"
  have "int (unat (- w)) = - sint w" "int (unat w) = sint w + 2 ^ 64" using unat_neg_i64 [OF n] int_unat_i64 [of w] n by auto
  then have "int (unat w) = int (unat (- w)) \<longleftrightarrow> sint w + 2 ^ 64 = - sint w" by (simp only:)
  also have "\<dots> \<longleftrightarrow> int (unat w) = 2 ^ 63" unfolding \<open>int (unat w) = sint w + 2 ^ 64\<close> by auto
  finally show ?thesis by (simp only: of_nat_eq_iff word_unat_eq_iff)
qed

lemma Int_IsInt64_ok:
  assumes "good h" and "x < fresh h"
  shows "Int_IsInt64 h x \<longleftrightarrow> - (2 ^ 63) \<le> int_at h x \<and> int_at h x < 2 ^ 63"
proof -
  note X = read [OF assms]
  let ?w = "low64 (abs_of h x)"
  have l: "length (abs_of h x) \<le> 64 div W \<longleftrightarrow> val (abs_of h x) < B" using one_word [OF X(2)] by (simp add: W_def UintSize_def)
  show ?thesis
  proof (cases "val (abs_of h x) < B")
    case True
    then have u: "int (unat ?w) = \<bar>int_at h x\<bar>" unfolding low64_ok using X(3) by simp
    have s: "sint ?w \<ge> 0 \<longleftrightarrow> \<bar>int_at h x\<bar> < 2 ^ 63"
      using int_unat_i64 [of ?w] sint_bounds [of ?w] unfolding u by (cases "sint ?w < 0") auto
    have "is_neg h x \<and> ?w = - ?w \<longleftrightarrow> int_at h x < 0 \<and> \<bar>int_at h x\<bar> = 2 ^ 63" if "\<not> sint ?w \<ge> 0"
      using word_half [of ?w] that unfolding X(4) u by simp
    then show ?thesis using s True unfolding Int_IsInt64_def l Let_def by auto
  next
    case False
    then have "\<bar>int_at h x\<bar> \<ge> 2 ^ 64" unfolding X(3) [symmetric] B_def by simp
    then show ?thesis using False unfolding Int_IsInt64_def l by auto
  qed
qed

lemma Int_BitLen_ok: "good h \<Longrightarrow> x < fresh h \<Longrightarrow> Int_BitLen h x = int (bitlen (nat \<bar>int_at h x\<bar>))"
  by (simp add: Int_BitLen_def nat_bitLen_eq [OF read(2)] flip: read(3))

lemma Int_TrailingZeroBits_ok: "good h \<Longrightarrow> x < fresh h \<Longrightarrow> Int_TrailingZeroBits h x = Inr (int (ntz (nat \<bar>int_at h x\<bar>)))"
  by (simp add: Int_TrailingZeroBits_def nat_trailingZeroBits_eq [OF read(2)] flip: read(3))

lemma Int_SetBytes_ok: "writable h z \<Longrightarrow> gives h (Int_SetBytes z buf h) ((int_at h)(z := int (lval (rev buf))))"
proof -
  assume z: "writable h z"
  obtain m where m: "nat_setBytes (mag_of h z) buf = Inr m" "nat_is m (lval (rev buf))" using nat_setBytes_ok by blast
  show ?thesis unfolding Int_SetBytes_def m(1) go_bind_Inr by (rule gives_put(2) [OF z m(2)]) simp_all
qed

lemma Int_Bytes_ok: "good h \<Longrightarrow> x < fresh h \<Longrightarrow> Int_Bytes h x = Inr (to_bytes (nat \<bar>int_at h x\<bar>))"
proof -
  assume g: "good h" "x < fresh h"
  let ?w = "abs_of h x"
  let ?buf = "replicate (length ?w * (W div 8)) 0"
  have v: "val ?w = nat \<bar>int_at h x\<bar>" using read(3) [OF g] by simp
  have "(256 :: nat) ^ length ?buf = B ^ length ?w" by (simp add: W_def UintSize_def B_def mult.commute [of "length ?w"] power_mult)
  then have "val ?w < 256 ^ length ?buf" by (rule ssubst) (rule val_lt)
  then show ?thesis using nat_bytes_eq [of ?w ?buf] unfolding v by (auto simp: Int_Bytes_def)
qed

text \<open>\<open>FillBytes\<close> writes the absolute value into the buffer, with leading zeros, and panics if it does not fit.\<close>

lemma Int_FillBytes_ok:
  assumes "good h" and "x < fresh h"
  shows "Int_FillBytes h x buf =
    (let bs = to_bytes (nat \<bar>int_at h x\<bar>) in
     if length bs \<le> length buf then Inr (replicate (length buf - length bs) 0 @ bs)
     else Inl (PanicMsg ''math/big: buffer too small to fit value''))"
proof -
  let ?w = "abs_of h x" and ?n = "length buf" and ?z = "map (\<lambda>_. 0) buf :: u8 list"
  let ?b = "take (?n - 8 * length ?w) ?z @ rev (take ?n (all_bytes ?w))"
  have v: "val ?w = nat \<bar>int_at h x\<bar>" using read(3) [OF assms] by simp
  show ?thesis
  proof (cases "val ?w < 256 ^ ?n")
    case True
    obtain k where k: "nat_bytes ?w ?z = Inr (?b, k)" "drop k ?b = to_bytes (val ?w)" using nat_bytes_eq [of ?w ?z] True by auto
    have z: "take (?n - 8 * length ?w) ?z = replicate (?n - 8 * length ?w) 0" by (simp add: map_replicate_const)
    have "lval (drop ?n (all_bytes ?w)) = 0"
      using True unfolding lval_all_bytes [symmetric] fits_iff [of buf, symmetric] by (simp add: fits_def lval_0 list_all_iff)
    then have "lval (take ?n (all_bytes ?w)) = val ?w"
      using lval_append [of "take ?n (all_bytes ?w)" "drop ?n (all_bytes ?w)"] by (simp add: lval_all_bytes)
    moreover have "lval (replicate m 0) = 0" for m by (simp add: lval_0)
    ultimately have "lval (rev ?b) = val ?w" unfolding z by (simp add: lval_append)
    then have b: "?b = replicate (?n - length (to_bytes (val ?w))) 0 @ to_bytes (val ?w)"
      using padded_bytes [of "rev ?b"] by (simp add: length_all_bytes)
    have "length (to_bytes (val ?w)) \<le> length ?b" unfolding k(2) [symmetric] by simp
    then have "length (to_bytes (val ?w)) \<le> ?n" by (simp add: length_all_bytes)
    then show ?thesis using k(1) b unfolding Int_FillBytes_def v Let_def by simp
  next
    case False
    then have "?n < length (to_bytes (val ?w))"
      using lval_lt [of "rev (to_bytes (val ?w))"] power_increasing [of "length (to_bytes (val ?w))" ?n "256 :: nat"]
      unfolding lval_to_bytes length_rev by linarith
    then show ?thesis using nat_bytes_eq [of ?w ?z] False unfolding Int_FillBytes_def v Let_def by simp
  qed
qed

end
