(* ===== verification/Big_Int_Run.thy ===== *)
theory Big_Int_Run
  imports Big_Int_Bits_Spec
begin

unbundle bit_operations_syntax

text \<open>
  Programs over the signed numbers: lists of calls on a store, which print what the reading methods return and end at
  the first panic.  The abstract machine runs the same calls on a function from addresses to integers.
\<close>

section \<open>Calls that print and may panic\<close>

fun run_calls :: "('c \<Rightarrow> 's \<Rightarrow> ('u \<times> 's) go) \<Rightarrow> 'c list \<Rightarrow> 's \<Rightarrow> 'u list \<times> 's go" where
  "run_calls f [] s = ([], Inr s)"
| "run_calls f (c # cs) s =
    (case f c s of Inl e \<Rightarrow> ([], Inl e) | Inr (u, s) \<Rightarrow> (let (us, r) = run_calls f cs s in (u # us, r)))"

fun all_calls :: "('c \<Rightarrow> 's \<Rightarrow> ('u \<times> 's) go) \<Rightarrow> ('c \<Rightarrow> 's \<Rightarrow> bool) \<Rightarrow> 'c list \<Rightarrow> 's \<Rightarrow> bool" where
  "all_calls f P [] s \<longleftrightarrow> True"
| "all_calls f P (c # cs) s \<longleftrightarrow> P c s \<and> (case f c s of Inl e \<Rightarrow> True | Inr (u, s) \<Rightarrow> all_calls f P cs s)"

definition matches :: "('s \<Rightarrow> 'a \<Rightarrow> bool) \<Rightarrow> ('u \<times> 's) go \<Rightarrow> ('u \<times> 'a) go \<Rightarrow> bool" where
  "matches R c a \<longleftrightarrow> (case a of Inl e \<Rightarrow> c = Inl e | Inr (u, a') \<Rightarrow> \<exists>s'. c = Inr (u, s') \<and> R s' a')"

text \<open>An implementation whose every call matches the abstract one, where its precondition holds.\<close>

locale call_refinement =
  fixes cst :: "'c \<Rightarrow> 's \<Rightarrow> ('u \<times> 's) go" and abst :: "'c \<Rightarrow> 'a \<Rightarrow> ('u \<times> 'a) go"
    and R :: "'s \<Rightarrow> 'a \<Rightarrow> bool" and pre :: "'c \<Rightarrow> 'a \<Rightarrow> bool"
  assumes call: "R s a \<Longrightarrow> pre c a \<Longrightarrow> matches R (cst c s) (abst c a)"
begin

lemma run_refines:
  assumes "R s a" and "all_calls abst pre cs a"
  shows "fst (run_calls cst cs s) = fst (run_calls abst cs a) \<and>
    (case snd (run_calls abst cs a) of Inl e \<Rightarrow> snd (run_calls cst cs s) = Inl e
     | Inr a' \<Rightarrow> \<exists>s'. snd (run_calls cst cs s) = Inr s' \<and> R s' a')"
  using assms
proof (induction cs arbitrary: s a)
  case (Cons c cs)
  then have m: "matches R (cst c s) (abst c a)" by (intro call) auto
  show ?case
  proof (cases "abst c a")
    case (Inl e)
    then show ?thesis using m by (simp add: matches_def)
  next
    case (Inr ua)
    then obtain u a1 s1 where n: "abst c a = Inr (u, a1)" "cst c s = Inr (u, s1)" "R s1 a1"
      using m by (cases ua) (auto simp: matches_def)
    then show ?thesis using Cons.IH [OF n(3)] Cons.prems(2) by (cases "snd (run_calls abst cs a1)") (auto simp: split_def Let_def)
  qed
qed simp

end

section \<open>The calls on signed numbers\<close>

datatype source = From_Int64 u64 | From_Uint64 u64 | From_Range u64 u64 | From_Bytes "u8 list" | From_Bits nat_slice

datatype unop = Copy | Abs | Neg | Not | Sqrt | Lsh nat | Rsh nat | Set_Bit int u64

datatype binop = Add | Sub | Mul | Quo | Rem | Div | Mod | And | Or | Xor | And_Not

datatype reader = Sign | Cmp nat | Cmp_Abs nat | Bit_Len | Trailing_Zeros | The_Bit int | To_Int64 | To_Uint64 | Is_Int64
  | Is_Uint64 | To_Bytes | Fill_Bytes "u8 list"

datatype int_call =
    Put source nat
  | Unary unop nat nat
  | Binary binop nat nat nat
  | Quo_Rem nat nat nat nat
  | Div_Mod nat nat nat nat
  | Print reader nat

datatype printed = Nothing | Number int | Word u64 | Truth bool | Bytes "u8 list"

primrec put_call :: "source \<Rightarrow> nat \<Rightarrow> int_store \<Rightarrow> int_store go" where
  "put_call (From_Int64 i) z = Int_SetInt64 z i"
| "put_call (From_Uint64 i) z = Int_SetUint64 z i"
| "put_call (From_Range a b) z = Int_MulRange z a b"
| "put_call (From_Bytes buf) z = Int_SetBytes z buf"
| "put_call (From_Bits m) z = (\<lambda>h. Inr (Int_SetBits z m h))"

primrec unary_call :: "unop \<Rightarrow> nat \<Rightarrow> nat \<Rightarrow> int_store \<Rightarrow> int_store go" where
  "unary_call Copy z x = (\<lambda>h. Inr (Int_Set z x h))"
| "unary_call Abs z x = (\<lambda>h. Inr (Int_Abs z x h))"
| "unary_call Neg z x = (\<lambda>h. Inr (Int_Neg z x h))"
| "unary_call Not z x = Int_Not z x"
| "unary_call Sqrt z x = Int_Sqrt z x"
| "unary_call (Lsh n) z x = Int_Lsh z x n"
| "unary_call (Rsh n) z x = Int_Rsh z x n"
| "unary_call (Set_Bit i b) z x = Int_SetBit z x i b"

primrec binary_call :: "binop \<Rightarrow> nat \<Rightarrow> nat \<Rightarrow> nat \<Rightarrow> int_store \<Rightarrow> int_store go" where
  "binary_call Add = Int_Add"
| "binary_call Sub = Int_Sub"
| "binary_call Mul = Int_Mul"
| "binary_call Quo = Int_Quo"
| "binary_call Rem = Int_Rem"
| "binary_call Div = Int_Div"
| "binary_call Mod = Int_Mod"
| "binary_call And = Int_And"
| "binary_call Or = Int_Or"
| "binary_call Xor = Int_Xor"
| "binary_call And_Not = Int_AndNot"

primrec read_call :: "reader \<Rightarrow> int_store \<Rightarrow> nat \<Rightarrow> printed go" where
  "read_call Sign h x = Inr (Number (Int_Sign h x))"
| "read_call (Cmp y) h x = Inr (Number (Int_Cmp h x y))"
| "read_call (Cmp_Abs y) h x = Inr (Number (Int_CmpAbs h x y))"
| "read_call Bit_Len h x = Inr (Number (Int_BitLen h x))"
| "read_call Trailing_Zeros h x = go_bind (Int_TrailingZeroBits h x) (\<lambda>n. Inr (Number n))"
| "read_call (The_Bit i) h x = go_bind (Int_Bit h x i) (\<lambda>b. Inr (Word b))"
| "read_call To_Int64 h x = Inr (Word (Int_Int64 h x))"
| "read_call To_Uint64 h x = Inr (Word (Int_Uint64 h x))"
| "read_call Is_Int64 h x = Inr (Truth (Int_IsInt64 h x))"
| "read_call Is_Uint64 h x = Inr (Truth (Int_IsUint64 h x))"
| "read_call To_Bytes h x = go_bind (Int_Bytes h x) (\<lambda>b. Inr (Bytes b))"
| "read_call (Fill_Bytes buf) h x = go_bind (Int_FillBytes h x buf) (\<lambda>b. Inr (Bytes b))"

definition silent :: "'s go \<Rightarrow> (printed \<times> 's) go" where
  "silent r = go_bind r (\<lambda>s. Inr (Nothing, s))"

primrec exec_call :: "int_call \<Rightarrow> int_store \<Rightarrow> (printed \<times> int_store) go" where
  "exec_call (Put s z) h = silent (put_call s z h)"
| "exec_call (Unary f z x) h = silent (unary_call f z x h)"
| "exec_call (Binary f z x y) h = silent (binary_call f z x y h)"
| "exec_call (Quo_Rem z x y r) h = silent (Int_QuoRem z x y r h)"
| "exec_call (Div_Mod z x y m) h = silent (Int_DivMod z x y m h)"
| "exec_call (Print f x) h = go_bind (read_call f h x) (\<lambda>u. Inr (u, h))"

section \<open>The same calls on integers\<close>

definition by_zero :: "int \<Rightarrow> 'a \<Rightarrow> 'a go" where
  "by_zero b r = (if b = 0 then Inl (PanicMsg ''division by zero'') else Inr r)"

primrec put_spec :: "source \<Rightarrow> int" where
  "put_spec (From_Int64 i) = sint i"
| "put_spec (From_Uint64 i) = int (unat i)"
| "put_spec (From_Range a b) = \<Prod>{sint a..sint b}"
| "put_spec (From_Bytes buf) = int (lval (rev buf))"
| "put_spec (From_Bits m) = int (val (words m))"

primrec unary_spec :: "unop \<Rightarrow> int \<Rightarrow> int go" where
  "unary_spec Copy a = Inr a"
| "unary_spec Abs a = Inr \<bar>a\<bar>"
| "unary_spec Neg a = Inr (- a)"
| "unary_spec Not a = Inr (NOT a)"
| "unary_spec Sqrt a = (if a < 0 then Inl (PanicMsg ''square root of negative number'') else Inr (int (isqrt (nat a))))"
| "unary_spec (Lsh n) a = Inr (push_bit n a)"
| "unary_spec (Rsh n) a = Inr (drop_bit n a)"
| "unary_spec (Set_Bit i b) a =
    (if i < 0 then Inl (PanicMsg ''negative bit index'')
     else if b = 0 then Inr (unset_bit (nat i) a)
     else if b = 1 then Inr (set_bit (nat i) a)
     else Inl (PanicMsg ''set bit is not 0 or 1''))"

primrec binary_spec :: "binop \<Rightarrow> int \<Rightarrow> int \<Rightarrow> int go" where
  "binary_spec Add a b = Inr (a + b)"
| "binary_spec Sub a b = Inr (a - b)"
| "binary_spec Mul a b = Inr (a * b)"
| "binary_spec Quo a b = by_zero b (a sdiv b)"
| "binary_spec Rem a b = by_zero b (a smod b)"
| "binary_spec Div a b = by_zero b (e_div a b)"
| "binary_spec Mod a b = by_zero b (e_mod a b)"
| "binary_spec And a b = Inr (a AND b)"
| "binary_spec Or a b = Inr (a OR b)"
| "binary_spec Xor a b = Inr (a XOR b)"
| "binary_spec And_Not a b = Inr (a AND NOT b)"

primrec read_spec :: "reader \<Rightarrow> (nat \<Rightarrow> int) \<Rightarrow> int \<Rightarrow> printed go" where
  "read_spec Sign v a = Inr (Number (sgn a))"
| "read_spec (Cmp y) v a = Inr (Number (sgn (a - v y)))"
| "read_spec (Cmp_Abs y) v a = Inr (Number (sgn (\<bar>a\<bar> - \<bar>v y\<bar>)))"
| "read_spec Bit_Len v a = Inr (Number (int (bitlen (nat \<bar>a\<bar>))))"
| "read_spec Trailing_Zeros v a = Inr (Number (int (ntz (nat \<bar>a\<bar>))))"
| "read_spec (The_Bit i) v a =
    (if i < 0 then Inl (PanicMsg ''negative bit index'') else Inr (Word (of_bool (bit a (nat i)))))"
| "read_spec To_Int64 v a = Inr (Word (word_of_int a))"
| "read_spec To_Uint64 v a = Inr (Word (word_of_int \<bar>a\<bar>))"
| "read_spec Is_Int64 v a = Inr (Truth (- (2 ^ 63) \<le> a \<and> a < 2 ^ 63))"
| "read_spec Is_Uint64 v a = Inr (Truth (0 \<le> a \<and> a < 2 ^ 64))"
| "read_spec To_Bytes v a = Inr (Bytes (to_bytes (nat \<bar>a\<bar>)))"
| "read_spec (Fill_Bytes buf) v a =
    (let bs = to_bytes (nat \<bar>a\<bar>) in
     if length bs \<le> length buf then Inr (Bytes (replicate (length buf - length bs) 0 @ bs))
     else Inl (PanicMsg ''math/big: buffer too small to fit value''))"

primrec spec_call :: "int_call \<Rightarrow> (nat \<Rightarrow> int) \<Rightarrow> (printed \<times> (nat \<Rightarrow> int)) go" where
  "spec_call (Put s z) v = Inr (Nothing, v(z := put_spec s))"
| "spec_call (Unary f z x) v = go_bind (unary_spec f (v x)) (\<lambda>i. Inr (Nothing, v(z := i)))"
| "spec_call (Binary f z x y) v = go_bind (binary_spec f (v x) (v y)) (\<lambda>i. Inr (Nothing, v(z := i)))"
| "spec_call (Quo_Rem z x y r) v = by_zero (v y) (Nothing, v(z := v x sdiv v y, r := v x smod v y))"
| "spec_call (Div_Mod z x y m) v = by_zero (v y) (Nothing, div_mod_result z x y m v)"
| "spec_call (Print f x) v = go_bind (read_spec f v (v x)) (\<lambda>u. Inr (u, v))"

text \<open>
  What the calls need: addresses that are allocated, targets that are not the package variable \<open>intOne\<close>, and divisors and
  radicands that fit in a memory.  Arguments and targets may be shared in any way.
\<close>

primrec reader_ok :: "nat \<Rightarrow> reader \<Rightarrow> bool" where
  "reader_ok n Sign = True"
| "reader_ok n (Cmp y) = (y < n)"
| "reader_ok n (Cmp_Abs y) = (y < n)"
| "reader_ok n Bit_Len = True"
| "reader_ok n Trailing_Zeros = True"
| "reader_ok n (The_Bit i) = True"
| "reader_ok n To_Int64 = True"
| "reader_ok n To_Uint64 = True"
| "reader_ok n Is_Int64 = True"
| "reader_ok n Is_Uint64 = True"
| "reader_ok n To_Bytes = True"
| "reader_ok n (Fill_Bytes buf) = True"

definition target :: "nat \<Rightarrow> nat \<Rightarrow> bool" where
  "target n z \<longleftrightarrow> 0 < z \<and> z < n"

definition source_ok :: "source \<Rightarrow> bool" where
  "source_ok s \<longleftrightarrow> (\<forall>m. s = From_Bits m \<longrightarrow> wf m)"

primrec call_ok :: "nat \<Rightarrow> int_call \<Rightarrow> (nat \<Rightarrow> int) \<Rightarrow> bool" where
  "call_ok n (Put s z) v \<longleftrightarrow> target n z \<and> source_ok s"
| "call_ok n (Unary f z x) v \<longleftrightarrow> target n z \<and> x < n \<and> fits_memory (v x)"
| "call_ok n (Binary f z x y) v \<longleftrightarrow> target n z \<and> x < n \<and> y < n \<and> fits_memory (v y)"
| "call_ok n (Quo_Rem z x y r) v \<longleftrightarrow> target n z \<and> target n r \<and> x < n \<and> y < n \<and> fits_memory (v y)"
| "call_ok n (Div_Mod z x y m) v \<longleftrightarrow> target n z \<and> target n m \<and> x < n \<and> y < n \<and> fits_memory (v y)"
| "call_ok n (Print f x) v \<longleftrightarrow> x < n \<and> reader_ok n f"

section \<open>Every call does what it does on integers\<close>

definition agrees :: "nat \<Rightarrow> int_store \<Rightarrow> (nat \<Rightarrow> int) \<Rightarrow> bool" where
  "agrees n h v \<longleftrightarrow> good h \<and> n \<le> fresh h \<and> (\<forall>p < n. int_at h p = v p)"

lemma agreesD: "agrees n h v \<Longrightarrow> target n z \<Longrightarrow> writable h z" "agrees n h v \<Longrightarrow> x < n \<Longrightarrow> x < fresh h"
  "agrees n h v \<Longrightarrow> x < n \<Longrightarrow> int_at h x = v x" "agrees n h v \<Longrightarrow> good h"
  by (auto simp: agrees_def writable_def target_def intOne_def)

text \<open>A call that gives a value to its targets, and a call that panics or gives a value.\<close>

lemma match_gives:
  assumes "agrees n h v" and "gives h r u" and "\<And>p. p < n \<Longrightarrow> u p = w p"
  shows "matches (agrees n) (silent r) (Inr (Nothing, w))"
  using assms by (auto simp: matches_def silent_def gives_def agrees_def reach_def)

lemma match_put:
  assumes "agrees n h v" and "gives h r ((int_at h)(z := i))"
  shows "matches (agrees n) (silent r) (Inr (Nothing, v(z := i)))"
  by (rule match_gives [OF assms]) (simp add: agreesD(3) [OF assms(1)])

lemma match_bind:
  assumes "agrees n h v" and "case r' of Inl e \<Rightarrow> r = Inl e | Inr i \<Rightarrow> gives h r ((int_at h)(z := i))"
  shows "matches (agrees n) (silent r) (go_bind r' (\<lambda>i. Inr (Nothing, v(z := i))))"
  using assms(2) match_put [OF assms(1)] by (cases r') (simp_all add: matches_def silent_def)

lemma put_source_ok:
  assumes "writable h z" and "source_ok s"
  shows "gives h (put_call s z h) ((int_at h)(z := put_spec s))"
proof (cases s)
  case (From_Bits m)
  then have "wf m" using assms(2) by (simp add: source_ok_def)
  then show ?thesis using gives_put(2) [OF assms(1) norm_ok, of m False "int (val (words m))"] From_Bits by (simp add: Int_SetBits_def)
qed (use assms(1) Int_SetInt64_ok Int_SetUint64_ok Int_MulRange_ok Int_SetBytes_ok in simp_all)

lemma total_gives: "reach h h' u \<Longrightarrow> gives h (Inr h') u"
  by (simp add: gives_def)

lemma unary_ok:
  assumes "writable h z" and "x < fresh h" and "fits_memory (int_at h x)"
  shows "case unary_spec f (int_at h x) of Inl e \<Rightarrow> unary_call f z x h = Inl e
    | Inr i \<Rightarrow> gives h (unary_call f z x h) ((int_at h)(z := i))"
proof -
  have d: "good h" "z < fresh h" "z \<noteq> intOne" using assms(1) by (simp_all add: writable_def)
  show ?thesis
    by (cases f)
      (use total_gives [OF Int_Set_ok [OF d assms(2)]] total_gives [OF Int_Abs_ok [OF d assms(2)]] total_gives [OF Int_Neg_ok [OF d assms(2)]]
         Int_Not_ok [OF assms(1,2)] Int_Sqrt_ok [OF assms] Int_Lsh_ok [OF assms(1,2)] Int_Rsh_ok [OF assms(1,2)] Int_SetBit_ok [OF assms(1,2)]
       in \<open>auto split: if_splits\<close>)
qed

lemma binary_ok:
  assumes "writable h z" and "x < fresh h" and "y < fresh h" and "fits_memory (int_at h y)"
  shows "case binary_spec f (int_at h x) (int_at h y) of Inl e \<Rightarrow> binary_call f z x y h = Inl e
    | Inr i \<Rightarrow> gives h (binary_call f z x y h) ((int_at h)(z := i))"
proof -
  note D = assms(1-3) fits_divisor [OF assms(4)]
  show ?thesis
    by (cases f)
      (use Int_Add_ok [OF assms(1-3)] Int_Sub_ok [OF assms(1-3)] Int_Mul_ok [OF assms(1-3)] Int_And_ok [OF assms(1-3)]
         Int_Or_ok [OF assms(1-3)] Int_Xor_ok [OF assms(1-3)] Int_AndNot_ok [OF assms(1-3)]
         Int_Quo_ok [OF D] Int_Rem_ok [OF D] Int_Div_ok [OF D] Int_Mod_ok [OF D]
       in \<open>auto simp: by_zero_def\<close>)
qed

lemma read_ok:
  assumes "good h" and "x < fresh h" and "reader_ok n f" and "n \<le> fresh h"
  shows "read_call f h x = read_spec f (int_at h) (int_at h x)"
  by (cases f)
    (use assms Int_Cmp_ok [OF assms(1,2)] Int_CmpAbs_ok [OF assms(1,2)] in
      \<open>simp_all add: sgn_Sign Int_BitLen_ok Int_TrailingZeroBits_ok Int_Bit_ok Int_Int64_ok Int_Uint64_ok Int_IsInt64_ok Int_IsUint64_ok
        Int_Bytes_ok Int_FillBytes_ok Let_def\<close>)

lemma read_agrees: "agrees n h v \<Longrightarrow> reader_ok n f \<Longrightarrow> read_spec f (int_at h) a = read_spec f v a"
  by (cases f) (simp_all add: agreesD(3))

lemma call_matches:
  assumes "agrees n h v" and "call_ok n c v"
  shows "matches (agrees n) (exec_call c h) (spec_call c v)"
proof (cases c)
  case (Put s z)
  then show ?thesis using match_put [OF assms(1) put_source_ok] assms(2) agreesD(1) [OF assms(1)] by simp
next
  case (Unary f z x)
  then have a: "target n z" "x < n" "fits_memory (v x)" using assms(2) by simp_all
  note d = agreesD(1) [OF assms(1) a(1)] agreesD(2,3) [OF assms(1) a(2)]
  show ?thesis unfolding Unary exec_call.simps spec_call.simps
    by (rule match_bind [OF assms(1)]) (use unary_ok [OF d(1,2), unfolded d(3), OF a(3)] in \<open>simp split: sum.splits\<close>)
next
  case (Binary f z x y)
  then have a: "target n z" "x < n" "y < n" "fits_memory (v y)" using assms(2) by simp_all
  note d = agreesD(1) [OF assms(1) a(1)] agreesD(2) [OF assms(1) a(2)] agreesD(2) [OF assms(1) a(3)]
    agreesD(3) [OF assms(1) a(2)] agreesD(3) [OF assms(1) a(3)]
  show ?thesis unfolding Binary exec_call.simps spec_call.simps
    by (rule match_bind [OF assms(1)]) (use binary_ok [OF d(1-3), unfolded d(4,5), OF a(4)] in \<open>simp split: sum.splits\<close>)
next
  case (Quo_Rem z x y r)
  then have a: "target n z" "target n r" "x < n" "y < n" "fits_memory (v y)" using assms(2) by simp_all
  note d = agreesD(1) [OF assms(1) a(1)] agreesD(1) [OF assms(1) a(2)]
  note e = agreesD(2) [OF assms(1) a(3)] agreesD(2) [OF assms(1) a(4)]
  note w = agreesD(3) [OF assms(1) a(3)] agreesD(3) [OF assms(1) a(4)]
  note Q = Int_QuoRem_ok [OF d e, unfolded w, OF fits_divisor [OF a(5)]]
  show ?thesis
  proof (cases "v y = 0")
    case False
    then have "gives h (Int_QuoRem z x y r h) ((int_at h)(z := v x sdiv v y, r := v x smod v y))" using Q by simp
    from match_gives [OF assms(1) this, of "v(z := v x sdiv v y, r := v x smod v y)"] show ?thesis
      using False agreesD(3) [OF assms(1)] by (simp add: Quo_Rem by_zero_def)
  qed (use Q in \<open>simp add: Quo_Rem by_zero_def matches_def silent_def\<close>)
next
  case (Div_Mod z x y m)
  then have a: "target n z" "target n m" "x < n" "y < n" "fits_memory (v y)" using assms(2) by simp_all
  note d = agreesD(1) [OF assms(1) a(1)] agreesD(1) [OF assms(1) a(2)]
  note e = agreesD(2) [OF assms(1) a(3)] agreesD(2) [OF assms(1) a(4)]
  note w = agreesD(3) [OF assms(1) a(3)] agreesD(3) [OF assms(1) a(4)]
  note Q = Int_DivMod_all [OF d e, unfolded w, OF fits_divisor [OF a(5)]]
  show ?thesis
  proof (cases "v y = 0")
    case False
    then have "gives h (Int_DivMod z x y m h) (div_mod_result z x y m (int_at h))" using Q by simp
    from match_gives [OF assms(1) this, of "div_mod_result z x y m v"] show ?thesis
      using False agreesD(3) [OF assms(1)] w by (simp add: Div_Mod by_zero_def div_mod_result_def Let_def)
  qed (use Q in \<open>simp add: Div_Mod by_zero_def matches_def silent_def\<close>)
next
  case (Print f x)
  then have a: "x < n" "reader_ok n f" using assms(2) by simp_all
  have n: "n \<le> fresh h" using assms(1) by (simp add: agrees_def)
  have "read_call f h x = read_spec f v (v x)"
    using read_ok [OF agreesD(4) [OF assms(1)] agreesD(2) [OF assms(1) a(1)] a(2) n] read_agrees [OF assms(1) a(2)] agreesD(3) [OF assms(1) a(1)]
    by simp
  then show ?thesis using assms(1) by (cases "read_spec f v (v x)") (simp_all add: Print matches_def)
qed

interpretation ints: call_refinement exec_call spec_call "agrees n" "call_ok n" for n
  by unfold_locales (rule call_matches)

text \<open>C40. A program over signed numbers prints what the same program over mathematical integers prints, panics exactly
  when that one does and with the same message, and leaves every number that the caller can see with the value the
  integers have: sums, products, both divisions, shifts and bitwise operations in two's complement, bits, roots,
  ranges, bytes and machine integers, in any order, for every well-formed store and for divisors and radicands that fit
  in a memory.  Arguments and targets may be shared in any way: every call leaves what the call on copies leaves, except
  \<open>DivMod\<close> with a negative truncated remainder whose target for the remainder is the divisor or the target of the
  quotient.  What the code leaves then, against the documented freedom to share, is in \<open>div_mod_result\<close>: one more than
  the truncated quotient and zero (-1 and 0 for -7 by 3), respectively a wrong number in the one target.\<close>

theorem int_programs:
  assumes "good h" and "all_calls spec_call (call_ok (fresh h)) cs (int_at h)"
  shows "fst (run_calls exec_call cs h) = fst (run_calls spec_call cs (int_at h)) \<and>
    (case snd (run_calls spec_call cs (int_at h)) of Inl e \<Rightarrow> snd (run_calls exec_call cs h) = Inl e
     | Inr v \<Rightarrow> \<exists>h'. snd (run_calls exec_call cs h) = Inr h' \<and> good h' \<and> (\<forall>p < fresh h. int_at h' p = v p))"
proof -
  have "agrees (fresh h) h (int_at h)" using assms(1) by (simp add: agrees_def)
  note R = ints.run_refines [OF this assms(2)]
  then show ?thesis unfolding agrees_def by (auto split: sum.split_asm sum.split)
qed

lemma small_fits: "\<bar>a\<bar> < 8 \<Longrightarrow> fits_memory a"
proof -
  assume a: "\<bar>a\<bar> < 8"
  have "8 \<le> B" "1 \<le> B - 2" by (simp_all add: B_def)
  then have "B ^ 1 \<le> B ^ (B - 2)" by (intro power_increasing) linarith+
  then have "int 8 \<le> int (B ^ (B - 2))" unfolding of_nat_le_iff using \<open>8 \<le> B\<close> by simp
  then show ?thesis using a unfolding fits_memory_def by simp
qed

lemma int_programs_witness:
  "\<exists>h. good h \<and> fst (run_calls exec_call [Binary Mod 2 1 2, Print To_Int64 2, Binary Sub 1 2 1, Print (The_Bit 3) 1] h) =
    [Nothing, Word 2, Nothing, Word 1]"
proof -
  let ?cs = "[Binary Mod 2 1 2, Print To_Int64 2, Binary Sub 1 2 1, Print (The_Bit 3) 1]"
  obtain x h1 where x: "NewInt (- 7) initial_store = (x, h1)" by fastforce
  obtain y h where y: "NewInt 3 h1 = (y, h)" by fastforce
  note X = NewInt_ok [OF initial_good x] and Y = NewInt_ok [OF reachD(1) [OF NewInt_ok(1) [OF initial_good x]] y]
  have e: "x = 1" "y = 2" "fresh h = 3" using X(3,4) Y(3,4) by (simp_all add: initial_store_def)
  have "x < fresh h1" using X(3,4) by simp
  then have v: "int_at h 1 = - 7" "int_at h 2 = 3" using X(2,4) Y(2) reachD(2) [OF Y(1), of x] e by simp_all
  have g: "good h" by (rule reachD(1) [OF Y(1)])
  have f: "fits_memory 3" "fits_memory (- 7)" by (simp_all add: small_fits)
  have "all_calls spec_call (call_ok (fresh h)) ?cs (int_at h)" using f by (simp add: e v [unfolded One_nat_def] target_def by_zero_def e_mod_def)
  from int_programs [OF g this] have "fst (run_calls exec_call ?cs h) = fst (run_calls spec_call ?cs (int_at h))" by (rule conjunct1)
  also have "\<dots> = [Nothing, Word 2, Nothing, Word 1]" by (simp add: v [unfolded One_nat_def] by_zero_def e_mod_def)
  finally show ?thesis using g by blast
qed

end
