(* ===== verification/Big_Gcd.thy ===== *)
theory Big_Gcd
  imports Big_Int
begin

text \<open>
  Package \<^verbatim>\<open>math/big\<close>: the greatest common divisor of \<^verbatim>\<open>int.go\<close>, with the coefficients of Bezout, by Lehmer's algorithm, and
  the inverse of a residue.  Pointers that may be nil are options.  A0 loop over the store may be endless on a store that
  is not well-formed: it is \<open>None\<close> then.
\<close>

section \<open>Lehmer's simulation of Euclid's steps\<close>

text \<open>\<open>A.abs[n-1]<<h | A.abs[n-2]>>(_W-h)\<close>.\<close>

definition top_bits :: "u64 list \<Rightarrow> nat \<Rightarrow> nat \<Rightarrow> u64 go" where
  "top_bits x n h =
    go_bind (vget_sub x n 1) (\<lambda>a. go_bind (vget_sub x n 2) (\<lambda>b. Inr (push_bit h a OR drop_bit (W - h) b)))"

text \<open>The two last remainders, with the cosequences \<open>(u0, u1, u2)\<close> and \<open>(v0, v1, v2)\<close>, and the parity of the step.\<close>

type_synonym cosequences = "u64 \<times> u64 \<times> u64 \<times> u64 \<times> bool"

function simulate_loop ::
  "u64 \<Rightarrow> u64 \<Rightarrow> u64 \<times> u64 \<times> u64 \<Rightarrow> u64 \<times> u64 \<times> u64 \<Rightarrow> bool \<Rightarrow> cosequences go" where
  "simulate_loop a1 a2 (u0, u1, u2) (v0, v1, v2) ev =
    (if a2 \<ge> v2 \<and> a1 - a2 \<ge> v1 + v2
     then if a2 = 0 then Inl DivideError
       else
         let q = a1 div a2; r = a1 mod a2
         in simulate_loop a2 r (u1, u2, u1 + q * u2) (v1, v2, v1 + q * v2) (\<not> ev)
     else Inr (u0, u1, v0, v1, ev))"
  by pat_completeness auto
termination
  by (relation "measure (\<lambda>(a1, a2, u, v, ev). unat a2)") (auto simp: word_mod_less_divisor unat_mono word_gt_0)

declare simulate_loop.simps [simp del]

definition lehmerSimulate :: "u64 list \<Rightarrow> u64 list \<Rightarrow> cosequences go" where
  "lehmerSimulate A0 B0 =
    (let m = length B0; n = length A0 in
     go_bind (vget_sub A0 n 1) (\<lambda>top.
     let h = nlz top in
     go_bind (top_bits A0 n h) (\<lambda>a1.
     go_bind (if n = m then top_bits B0 n h
              else if n = m + 1 then go_bind (vget_sub B0 n 2) (\<lambda>b. Inr (drop_bit (W - h) b))
              else Inr 0) (\<lambda>a2.
     simulate_loop a1 a2 (0, 1, 0) (0, 0, 1) False))))"

section \<open>Updates\<close>

text \<open>\<open>t.abs = t.abs.setWord(w)\<close> and \<open>t.neg = b\<close>; the word may be zero.\<close>

definition set_small :: "nat \<Rightarrow> bool \<Rightarrow> u64 \<Rightarrow> int_store \<Rightarrow> int_store go" where
  "set_small t b w h = go_bind (nat_setWord (mag_of h t) w) (\<lambda>m. Inr (put_int h t b m))"

definition lehmerUpdate ::
  "nat \<Rightarrow> nat \<Rightarrow> nat \<Rightarrow> nat \<Rightarrow> nat \<Rightarrow> nat \<Rightarrow> cosequences \<Rightarrow> int_store \<Rightarrow> int_store go" where
  "lehmerUpdate A0 B0 q r s t c h =
    (case c of (u0, u1, v0, v1, ev) \<Rightarrow>
     go_bind (set_small t (\<not> ev) u0 h) (\<lambda>h. go_bind (set_small s ev v0 h) (\<lambda>h.
     go_bind (Int_Mul t A0 t h) (\<lambda>h. go_bind (Int_Mul s B0 s h) (\<lambda>h.
     go_bind (set_small r ev u1 h) (\<lambda>h. go_bind (set_small q (\<not> ev) v1 h) (\<lambda>h.
     go_bind (Int_Mul r A0 r h) (\<lambda>h. go_bind (Int_Mul q B0 q h) (\<lambda>h.
     go_bind (Int_Add A0 t s h) (\<lambda>h. Int_Add B0 r q h))))))))))"

text \<open>\<open>*A, *B, *r = *B, *r, *A\<close>\<close>

definition rotate3 :: "nat \<Rightarrow> nat \<Rightarrow> nat \<Rightarrow> int_store \<Rightarrow> int_store" where
  "rotate3 A0 B0 r h = h\<lparr>ints := (ints h)(A0 := ints h B0, B0 := ints h r, r := ints h A0)\<rparr>"

text \<open>The pointers of the cosequence are nil unless it is asked for.\<close>

definition euclidUpdate ::
  "nat \<Rightarrow> nat \<Rightarrow> nat option \<Rightarrow> nat option \<Rightarrow> nat \<Rightarrow> nat \<Rightarrow> nat \<Rightarrow> nat \<Rightarrow> bool \<Rightarrow> int_store \<Rightarrow> int_store go" where
  "euclidUpdate A0 B0 Ua Ub q r s t extended h =
    go_bind (Int_QuoRem q A0 B0 r h) (\<lambda>h.
      let h = rotate3 A0 B0 r h in
      if extended
      then go_bind (nil_checked Ub) (\<lambda>Ub. go_bind (nil_checked Ua) (\<lambda>Ua.
        let h = Int_Set t Ub h in
        go_bind (Int_Mul s Ub q h) (\<lambda>h. go_bind (Int_Sub Ub Ua s h) (\<lambda>h. Inr (Int_Set Ua t h)))))
      else Inr h)"

section \<open>The greatest common divisor\<close>

partial_function (option) lehmer_loop ::
  "nat \<Rightarrow> nat \<Rightarrow> nat option \<Rightarrow> nat option \<Rightarrow> nat \<Rightarrow> nat \<Rightarrow> nat \<Rightarrow> nat \<Rightarrow> bool \<Rightarrow> int_store \<Rightarrow> int_store go option" where
  "lehmer_loop A0 B0 Ua Ub q r s t extended h =
    (if length (abs_of h B0) > 1
     then case go_bind (lehmerSimulate (abs_of h A0) (abs_of h B0)) (\<lambda>c.
         case c of (u0, u1, v0, v1, ev) \<Rightarrow>
           if v0 \<noteq> 0
           then go_bind (lehmerUpdate A0 B0 q r s t c h) (\<lambda>h.
             if extended
             then go_bind (nil_checked Ua) (\<lambda>Ua. go_bind (nil_checked Ub) (\<lambda>Ub. lehmerUpdate Ua Ub q r s t c h))
             else Inr h)
           else euclidUpdate A0 B0 Ua Ub q r s t extended h)
       of Inl e \<Rightarrow> Some (Inl e) | Inr h \<Rightarrow> lehmer_loop A0 B0 Ua Ub q r s t extended h
     else Some (Inr h))"

text \<open>The end of the algorithm, on single words: with the cosequences and without them.\<close>

function word_loop ::
  "u64 \<Rightarrow> u64 \<Rightarrow> u64 \<times> u64 \<Rightarrow> u64 \<times> u64 \<Rightarrow> bool \<Rightarrow> u64 \<times> u64 \<times> u64 \<times> bool" where
  "word_loop aWord bWord (ua, ub) (va, vb) ev =
    (if bWord \<noteq> 0
     then let q = aWord div bWord; r = aWord mod bWord
       in word_loop bWord r (ub, ua + q * ub) (vb, va + q * vb) (\<not> ev)
     else (aWord, ua, va, ev))"
  by pat_completeness auto
termination
  by (relation "measure (\<lambda>(a, b, u, v, ev). unat b)") (auto simp: word_mod_less_divisor unat_mono word_gt_0)

declare word_loop.simps [simp del]

function word_gcd :: "u64 \<Rightarrow> u64 \<Rightarrow> u64" where
  "word_gcd aWord bWord = (if bWord \<noteq> 0 then word_gcd bWord (aWord mod bWord) else aWord)"
  by pat_completeness auto
termination by (relation "measure (\<lambda>(a, b). unat b)") (auto simp: word_mod_less_divisor unat_mono word_gt_0)

declare word_gcd.simps [simp del]

text \<open>The statements after the loop that end with one word in \<open>A0\<close> and zero in \<open>B0\<close>.\<close>

definition lehmer_words ::
  "nat \<Rightarrow> nat \<Rightarrow> nat option \<Rightarrow> nat option \<Rightarrow> nat \<Rightarrow> nat \<Rightarrow> bool \<Rightarrow> int_store \<Rightarrow> int_store go" where
  "lehmer_words A0 B0 Ua Ub s t extended h =
    go_bind (vget (abs_of h A0) 0) (\<lambda>aWord. go_bind (vget (abs_of h B0) 0) (\<lambda>bWord.
    go_bind (if extended
      then case word_loop aWord bWord (1, 0) (0, 1) True of (aWord, ua, va, ev) \<Rightarrow>
        go_bind (set_small t (\<not> ev) ua h) (\<lambda>h. go_bind (set_small s ev va h) (\<lambda>h.
        go_bind (nil_checked Ua) (\<lambda>Ua. go_bind (nil_checked Ub) (\<lambda>Ub.
        go_bind (Int_Mul t Ua t h) (\<lambda>h. go_bind (Int_Mul s Ub s h) (\<lambda>h.
        go_bind (Int_Add Ua t s h) (\<lambda>h. Inr (aWord, h))))))))
      else Inr (word_gcd aWord bWord, h)) (\<lambda>(aWord, h).
    go_bind (sl_set (mag_of h A0) 0 aWord) (\<lambda>m. Inr (put_int h A0 (is_neg h A0) m)))))"

definition lehmer_end ::
  "nat \<Rightarrow> nat \<Rightarrow> nat option \<Rightarrow> nat option \<Rightarrow> nat \<Rightarrow> nat \<Rightarrow> nat \<Rightarrow> nat \<Rightarrow> bool \<Rightarrow> int_store \<Rightarrow> int_store go" where
  "lehmer_end A0 B0 Ua Ub q r s t extended h =
    (if length (abs_of h B0) > 0
     then go_bind (if length (abs_of h A0) > 1 then euclidUpdate A0 B0 Ua Ub q r s t extended h else Inr h) (\<lambda>h.
       if length (abs_of h B0) > 0 then lehmer_words A0 B0 Ua Ub s t extended h else Inr h)
     else Inr h)"

text \<open>\<open>z.neg = !z.neg\<close> where \<open>b\<close>, and \<open>*x = *Ua\<close>.\<close>

definition flip_sign :: "bool \<Rightarrow> nat \<Rightarrow> int_store \<Rightarrow> int_store" where
  "flip_sign b z h = (if b then put_int h z (\<not> is_neg h z) (mag_of h z) else h)"

definition assign :: "nat \<Rightarrow> nat \<Rightarrow> int_store \<Rightarrow> int_store" where
  "assign z x h = h\<lparr>ints := (ints h)(z := ints h x)\<rparr>"

definition lehmer_results ::
  "nat \<Rightarrow> nat option \<Rightarrow> nat option \<Rightarrow> nat \<Rightarrow> nat \<Rightarrow> nat \<Rightarrow> nat \<Rightarrow> nat option \<Rightarrow> bool \<Rightarrow> int_store \<Rightarrow> int_store go" where
  "lehmer_results z x y a b A0 B0 Ua negA h =
    go_bind (case y of None \<Rightarrow> Inr h | Some y \<Rightarrow>
      let (B0, h) = (if y = b then (B0, Int_Set B0 b h) else (b, h)) in
      go_bind (nil_checked Ua) (\<lambda>Ua. go_bind (Int_Mul y a Ua h) (\<lambda>h.
        let h = flip_sign negA y h in
        go_bind (Int_Sub y A0 y h) (\<lambda>h. Int_Div y y B0 h)))) (\<lambda>h.
    go_bind (case x of None \<Rightarrow> Inr h | Some x \<Rightarrow>
      go_bind (nil_checked Ua) (\<lambda>Ua. Inr (flip_sign negA x (assign x Ua h)))) (\<lambda>h.
    Inr (assign z A0 h)))"

definition lehmerGCD :: "nat \<Rightarrow> nat option \<Rightarrow> nat option \<Rightarrow> nat \<Rightarrow> nat \<Rightarrow> int_store \<Rightarrow> int_store go option" where
  "lehmerGCD z x y a b h =
    (let (A0, h) = new_int h; h = Int_Abs A0 a h; (B0, h) = new_int h; h = Int_Abs B0 b h;
         extended = (x \<noteq> None \<or> y \<noteq> None)
     in case (if extended
         then let (Ua, h) = new_int h in go_bind (Int_SetInt64 Ua 1 h) (\<lambda>h. let (Ub, h) = new_int h in Inr (Some Ua, Some Ub, h))
         else Inr (None, None, h)) of
       Inl e \<Rightarrow> Some (Inl e)
     | Inr (Ua, Ub, h) \<Rightarrow>
       (let (q, h) = new_int h; (r, h) = new_int h; (s, h) = new_int h; (t, h) = new_int h;
            (A0, B0, Ua, Ub) = (if nat_cmp (abs_of h A0) (abs_of h B0) < 0 then (B0, A0, Ub, Ua) else (A0, B0, Ua, Ub))
        in case lehmer_loop A0 B0 Ua Ub q r s t extended h of
          None \<Rightarrow> None
        | Some res \<Rightarrow> Some (go_bind res (\<lambda>h. go_bind (lehmer_end A0 B0 Ua Ub q r s t extended h) (\<lambda>h.
            lehmer_results z x y a b A0 B0 Ua (is_neg h a) h)))))"

definition set_coefficient :: "nat option \<Rightarrow> bool \<Rightarrow> bool \<Rightarrow> int_store \<Rightarrow> int_store go" where
  "set_coefficient x zero n h =
    (case x of None \<Rightarrow> Inr h
     | Some x \<Rightarrow>
       if zero then Int_SetUint64 x 0 h
       else go_bind (Int_SetUint64 x 1 h) (\<lambda>h. Inr (put_int h x n (mag_of h x))))"

definition Int_GCD :: "nat \<Rightarrow> nat option \<Rightarrow> nat option \<Rightarrow> nat \<Rightarrow> nat \<Rightarrow> int_store \<Rightarrow> int_store go option" where
  "Int_GCD z x y a b h =
    (if length (abs_of h a) = 0 \<or> length (abs_of h b) = 0
     then
       let lenA = length (abs_of h a); lenB = length (abs_of h b); negA = is_neg h a; negB = is_neg h b;
           h = (if lenA = 0 then Int_Set z b h else Int_Set z a h); h = put_int h z False (mag_of h z)
       in Some (go_bind (set_coefficient x (lenA = 0) negA h) (set_coefficient y (lenB = 0) negB))
     else lehmerGCD z x y a b h)"

section \<open>Inverses\<close>

text \<open>\<open>None\<close> inside the result: the nil pointer that is returned when there is no inverse.\<close>

definition Int_ModInverse :: "nat \<Rightarrow> nat \<Rightarrow> nat \<Rightarrow> int_store \<Rightarrow> (nat option \<times> int_store) go option" where
  "Int_ModInverse z g n h =
    (let (n, h) = (if is_neg h n then let (n2, h) = new_int h in (n2, Int_Neg n2 n h) else (n, h))
     in case (if is_neg h g then let (g2, h) = new_int h in go_bind (Int_Mod g2 g n h) (\<lambda>h. Inr (g2, h)) else Inr (g, h)) of
       Inl e \<Rightarrow> Some (Inl e)
     | Inr (g, h) \<Rightarrow>
       (let (d, h) = new_int h; (x, h) = new_int h
        in case Int_GCD d (Some x) None g n h of
          None \<Rightarrow> None
        | Some res \<Rightarrow> Some (go_bind res (\<lambda>h.
            if Int_Cmp h d intOne \<noteq> 0 then Inr (None, h)
            else if is_neg h x then go_bind (Int_Add z x n h) (\<lambda>h. Inr (Some z, h))
            else Inr (Some z, Int_Set z x h)))))"

end
