(* ===== verification/Big_Gcd_Steps.thy ===== *)
theory Big_Gcd_Steps
  imports Big_Gcd Big_Int_Bits_Spec
begin

text \<open>
  The arithmetic of Lehmer's algorithm: the simulation on the leading words gives rows that turn two numbers into a
  smaller pair with the same divisors (Collins' condition), without a wrap-around of a word, and both kinds of step keep the
  invariant of the coefficients.
\<close>

section \<open>The simulation\<close>

lemma collins_check:
  fixes K a b a' b' u1 u2 v1 v2 e :: int
  assumes e: "e = 1 \<or> e = -1" and A: "A = a * K + a'" "0 \<le> a'" "a' < K" and B: "C = b * K + b'" "0 \<le> b'" "b' < K"
    and u: "0 \<le> u2" "0 \<le> u1" "u2 \<le> v2" "u1 + u2 \<le> v1 + v2" "1 \<le> v2" "0 \<le> v1"
    and c: "v2 \<le> - e * (u2 * a - v2 * b)" "v1 + v2 \<le> e * (u1 * a - v1 * b) - - e * (u2 * a - v2 * b)"
  shows "0 < - e * (u2 * A - v2 * C)" "- e * (u2 * A - v2 * C) < e * (u1 * A - v1 * C)"
proof -
  have K: "0 < K" using A(2,3) by linarith
  have low: "- (w * K) < p * a' - w * b'" "p * a' - w * b' < w * K" if "0 \<le> p" "p \<le> w" "0 < w" for p w :: int
  proof -
    have "0 \<le> p * a'" "0 \<le> w * b'" using that A(2) B(2) by simp_all
    moreover have "w * b' < w * K" using B(3) that by simp
    moreover have "p * a' \<le> w * a'" using that A(2) by (intro mult_right_mono)
    moreover have "w * a' < w * K" using A(3) that by simp
    ultimately show "- (w * K) < p * a' - w * b'" "p * a' - w * b' < w * K" by linarith+
  qed
  note L = low [of u2 v2] low [of "u1 + u2" "v1 + v2"]
  have m: "v2 * K \<le> (- e * (u2 * a - v2 * b)) * K" using c(1) K by (intro mult_right_mono) simp_all
  have n: "(v1 + v2) * K \<le> (e * (u1 * a - v1 * b) - - e * (u2 * a - v2 * b)) * K" using c(2) K by (intro mult_right_mono) simp_all
  have x: "- e * (u2 * A - v2 * C) = (- e * (u2 * a - v2 * b)) * K - e * (u2 * a' - v2 * b')"
    unfolding A(1) B(1) by (simp add: algebra_simps)
  have y: "e * (u1 * A - v1 * C) - - e * (u2 * A - v2 * C) =
      (e * (u1 * a - v1 * b) - - e * (u2 * a - v2 * b)) * K + e * ((u1 + u2) * a' - (v1 + v2) * b')"
    unfolding A(1) B(1) by (simp add: algebra_simps)
  have z: "- (v2 * K) < - e * (u2 * a' - v2 * b')" using e L(1,2) u by auto
  have t: "- ((v1 + v2) * K) < e * ((u1 + u2) * a' - (v1 + v2) * b')" using e L(3,4) u by auto
  show "0 < - e * (u2 * A - v2 * C)" using x z m by linarith
  show "- e * (u2 * A - v2 * C) < e * (u1 * A - v1 * C)" using y t n by linarith
qed

text \<open>Words as integers.\<close>

lemma uint_B: "uint x < int B" "uint x = int (unat x)" for x :: u64
  using uint_bounded [of x] by (simp_all add: B_def)

lemma uint_muladd: "uint x + uint q * uint y < int B \<Longrightarrow> uint (x + q * y) = uint x + uint q * uint y" for x q y :: u64
  by (simp add: uint_word_ariths B_def mod_simps)

lemma uint_add: "uint x + uint y < int B \<Longrightarrow> uint (x + y) = uint x + uint y" for x y :: u64
  using uint_muladd [of x 1 y] by simp

lemma uint_le_sub: "uint y \<le> uint x \<Longrightarrow> uint (x - y) = uint x - uint y" for x y :: u64
  by (simp add: uint_sub_if_size)

definition sg :: "bool \<Rightarrow> int" where "sg ev = (if ev then 1 else -1)"

lemma sg_simps [simp]: "sg True = 1" "sg False = -1" "sg (\<not> ev) = - sg ev" "sg ev * sg ev = 1"
  by (simp_all add: sg_def)

lemma sg_cases: "sg ev = 1 \<or> sg ev = -1"
  by (simp add: sg_def)

text \<open>
  Two rows of the cosequences may be applied to \<open>A\<close> and \<open>C\<close>: what they give are consecutive remainders of Euclid's
  algorithm, or at least a decreasing pair with the same divisors.
\<close>

definition rows_ok :: "int \<Rightarrow> int \<Rightarrow> cosequences \<Rightarrow> bool" where
  "rows_ok A C c \<longleftrightarrow> (case c of (u0, u1, v0, v1, ev) \<Rightarrow>
     uint u0 * uint v1 - uint u1 * uint v0 = sg ev \<and> 1 \<le> uint v1 \<and>
     0 < - sg ev * (uint u1 * A - uint v1 * C) \<and> - sg ev * (uint u1 * A - uint v1 * C) < sg ev * (uint u0 * A - uint v0 * C))"

text \<open>The remainders \<open>a1\<close> and \<open>a2\<close> of \<open>a\<close> and \<open>b\<close> with their cosequences.\<close>

definition remainders :: "int \<Rightarrow> int \<Rightarrow> int \<Rightarrow> int \<Rightarrow> int \<Rightarrow> int \<Rightarrow> int \<Rightarrow> int \<Rightarrow> int \<Rightarrow> bool" where
  "remainders e a b a1 a2 u1 u2 v1 v2 \<longleftrightarrow>
    a1 = e * (u1 * a - v1 * b) \<and> a2 = - e * (u2 * a - v2 * b) \<and> u1 * v2 - u2 * v1 = e \<and>
    0 \<le> u1 \<and> 0 \<le> u2 \<and> 0 \<le> v1 \<and> u2 \<le> v2 \<and> u1 + u2 \<le> v1 + v2 \<and> 1 \<le> v2 \<and> 0 \<le> a2 \<and> a2 \<le> a1"

lemma remainders_sum:
  assumes "e = 1 \<or> e = -1" and "remainders e a b a1 a2 u1 u2 v1 v2"
  shows "a = a1 * v2 + a2 * v1"
proof -
  have r: "a1 = e * (u1 * a - v1 * b)" "a2 = - e * (u2 * a - v2 * b)" using assms(2) by (simp_all add: remainders_def)
  have "a1 * v2 + a2 * v1 = e * (u1 * v2 - u2 * v1) * a" unfolding r by (simp add: algebra_simps)
  also have "\<dots> = a" using assms unfolding remainders_def by auto
  finally show ?thesis ..
qed

lemma remainders_step:
  assumes e: "e = 1 \<or> e = -1" and r: "remainders e a b a1 a2 u1 u2 v1 v2" and a2: "0 < a2"
  shows "remainders (- e) a b a2 (a1 mod a2) u2 (u1 + a1 div a2 * u2) v2 (v1 + a1 div a2 * v2)"
    "v1 + a1 div a2 * v2 \<le> a" "u1 + a1 div a2 * u2 \<le> v1 + a1 div a2 * v2"
proof -
  let ?q = "a1 div a2"
  have R: "a1 = e * (u1 * a - v1 * b)" "a2 = - e * (u2 * a - v2 * b)" "u1 * v2 - u2 * v1 = e" "0 \<le> u1" "0 \<le> u2" "0 \<le> v1"
    "u2 \<le> v2" "u1 + u2 \<le> v1 + v2" "1 \<le> v2" "a2 \<le> a1" using r by (simp_all add: remainders_def)
  have q: "1 \<le> ?q" using R(10) a2 by (simp add: pos_imp_zdiv_pos_iff zero_less_iff_neq_zero [symmetric] int_one_le_iff_zero_less)
  have m: "a1 mod a2 = a1 - ?q * a2" by (simp add: minus_div_mult_eq_mod [symmetric])
  have mo: "a1 mod a2 = e * ((u1 + ?q * u2) * a - (v1 + ?q * v2) * b)"
    proof -
    have "e * ((u1 + ?q * u2) * a - (v1 + ?q * v2) * b) = e * (u1 * a - v1 * b) - ?q * (- e * (u2 * a - v2 * b))"
      by (simp add: algebra_simps)
    then show ?thesis unfolding m R(1,2) [symmetric] ..
  qed
  have uv: "u1 + ?q * u2 \<le> v1 + ?q * v2"
  proof -
    have "(?q - 1) * u2 \<le> (?q - 1) * v2" using q R(7) by (intro mult_left_mono) simp_all
    then show ?thesis using R(8) by (simp add: algebra_simps)
  qed
  have v: "1 \<le> v1 + ?q * v2"
  proof -
    have "1 * 1 \<le> ?q * v2" using q R(9) by (intro mult_mono) simp_all
    then show ?thesis using R(6) by simp
  qed
  have b: "a1 mod a2 < a2" "0 \<le> a1 mod a2" using a2 by simp_all
  have n: "0 \<le> u1 + ?q * u2" using R(4,5) q by simp
  show rs: "remainders (- e) a b a2 (a1 mod a2) u2 (u1 + ?q * u2) v2 (v1 + ?q * v2)"
    unfolding remainders_def
  proof (intro conjI)
    show "a2 = - e * (u2 * a - v2 * b)" by (rule R(2))
    show "a1 mod a2 = - (- e) * ((u1 + ?q * u2) * a - (v1 + ?q * v2) * b)" using mo by simp
    show "u2 * (v1 + ?q * v2) - (u1 + ?q * u2) * v2 = - e" using R(3) by (simp add: algebra_simps)
  qed (use R uv v b n in auto)
  show "u1 + ?q * u2 \<le> v1 + ?q * v2" by (rule uv)
  define w where "w = v1 + ?q * v2"
  have "a = a2 * w + a1 mod a2 * v2" unfolding w_def by (rule remainders_sum [OF _ rs]) (use e in auto)
  moreover have "1 * w \<le> a2 * w" using a2 v unfolding w_def by (intro mult_right_mono) simp_all
  moreover have "0 \<le> a1 mod a2 * v2" using b R(9) by simp
  ultimately have "w \<le> a" by linarith
  then show "v1 + ?q * v2 \<le> a" by (simp only: w_def)
qed

lemma word_le_uint: "a \<le> b \<longleftrightarrow> uint a \<le> uint b" for a b :: u64
  by (rule word_le_def)

lemma word_nonzero_uint: "a \<noteq> 0 \<longleftrightarrow> 0 < uint a" for a :: u64
  using word_gt_0 [of a] word_less_def [of 0 a] by simp

lemma simulate_loop_ok:
  assumes A: "A = a * K + a'" "0 \<le> a'" "a' < K" and C: "C = b * K + b'" "0 \<le> b'" "b' < K" and a: "a < int B"
    and r: "remainders (- sg ev) a b (uint a1) (uint a2) (uint u1) (uint u2) (uint v1) (uint v2)"
    and ok: "v0 = 0 \<or> rows_ok A C (u0, u1, v0, v1, ev)"
  shows "\<exists>c. simulate_loop a1 a2 (u0, u1, u2) (v0, v1, v2) ev = Inr c \<and> (fst (snd (snd c)) = 0 \<or> rows_ok A C c)"
  using r ok
proof (induction a1 a2 "(u0, u1, u2)" "(v0, v1, v2)" ev arbitrary: u0 u1 u2 v0 v1 v2 rule: simulate_loop.induct)
  case (1 a1 a2 u0 u1 u2 v0 v1 v2 ev)
  have e: "- sg ev = 1 \<or> - sg ev = -1" using sg_cases [of ev] by auto
  note r = "1.prems"(1)
  have R: "1 \<le> uint v2" "uint a2 \<le> uint a1" "uint u2 \<le> uint v2" "uint u1 + uint u2 \<le> uint v1 + uint v2"
    "uint a1 = - sg ev * (uint u1 * a - uint v1 * b)" "uint a2 = - (- sg ev) * (uint u2 * a - uint v2 * b)"
    "uint u1 * uint v2 - uint u2 * uint v1 = - sg ev"
    using r by (simp_all add: remainders_def)
  show ?case
  proof (cases "a2 \<ge> v2 \<and> a1 - a2 \<ge> v1 + v2")
    case True
    have le: "uint v2 \<le> uint a2" using True by (simp add: word_le_uint)
    then have pos: "0 < uint a2" using R(1) by linarith
    note S = remainders_step [OF e r pos]
    have sum: "a = uint a1 * uint v2 + uint a2 * uint v1" by (rule remainders_sum [OF e r])
    have "1 * uint v2 \<le> uint a1 * uint v2" "1 * uint v1 \<le> uint a2 * uint v1" using pos R(2) by (intro mult_right_mono; simp)+
    then have "uint v1 + uint v2 \<le> a" using sum by linarith
    then have vv: "uint (v1 + v2) = uint v1 + uint v2" using a by (intro uint_add) linarith
    have "uint v1 + uint v2 \<le> uint a1 - uint a2" using True unfolding word_le_uint vv uint_le_sub [OF R(2)] by blast
    with le have c: "uint v2 \<le> - (- sg ev) * (uint u2 * a - uint v2 * b)"
      "uint v1 + uint v2 \<le> - sg ev * (uint u1 * a - uint v1 * b) - (- (- sg ev)) * (uint u2 * a - uint v2 * b)"
      unfolding R(5,6) by simp_all
    note check = collins_check [OF e A C _ _ R(3,4,1) _ c]
    have n: "uint (v1 + a1 div a2 * v2) = uint v1 + uint a1 div uint a2 * uint v2"
      "uint (u1 + a1 div a2 * u2) = uint u1 + uint a1 div uint a2 * uint u2" "uint (a1 mod a2) = uint a1 mod uint a2"
      using uint_muladd [of v1 "a1 div a2" v2] uint_muladd [of u1 "a1 div a2" u2] S(2,3) a by (simp_all add: uint_div uint_mod)
    have rows: "rows_ok A C (u1, u2, v1, v2, \<not> ev)"
      using check R(1,7) by (simp add: rows_ok_def)
    have rs: "remainders (- sg (\<not> ev)) a b (uint a2) (uint (a1 mod a2)) (uint u2) (uint (u1 + a1 div a2 * u2)) (uint v2) (uint (v1 + a1 div a2 * v2))"
      unfolding n using S(1) by simp
    have nz: "a2 \<noteq> 0" using pos by (simp add: word_nonzero_uint)
    from "1.hyps" [OF True nz refl refl rs disjI2 [OF rows]] show ?thesis
      by (subst simulate_loop.simps) (simp only: True nz if_True if_False Let_def simp_thms)
  next
    case False
    then show ?thesis using "1.prems"(2) by (subst simulate_loop.simps) (simp only: False if_False sum.inject ex_simps simp_thms fst_conv snd_conv)
  qed
qed

lemma val_leading: "2 \<le> length x \<Longrightarrow> val x div B ^ (length x - 2) = unat (last x) * B + unat (x ! (length x - 2))"
  using top_two_val [of x "length x"] by (intro div_nat_eqI) (simp_all add: mult.commute)

lemma top_bits_ok:
  assumes "2 \<le> length x" and "unat (last x) * 2 ^ h < B" and "h < 64"
  shows "\<exists>w. top_bits x (length x) h = Inr w \<and> unat w = val x div (B ^ (length x - 2) * 2 ^ (64 - h))"
proof -
  let ?a = "last x" and ?b = "x ! (length x - 2)"
  have ne: "x \<noteq> []" using assms(1) by auto
  have l: "x ! (length x - 1) = ?a" using ne by (simp add: last_conv_nth)
  have "top_bits x (length x) h = Inr (push_bit h ?a OR drop_bit (64 - h) ?b)"
    using assms(1) l ne by (simp add: top_bits_def vget_sub_def vget_def)
  moreover have "unat (push_bit h ?a OR drop_bit (64 - h) ?b) = unat ?a * 2 ^ h + unat ?b div 2 ^ (64 - h)"
    using assms(2,3) by (intro shift_or) (simp_all add: B_def)
  moreover have "val x div (B ^ (length x - 2) * 2 ^ (64 - h)) = unat ?a * 2 ^ h + unat ?b div 2 ^ (64 - h)"
  proof -
    have "unat ?a * B = unat ?a * 2 ^ h * 2 ^ (64 - h)" using assms(3) by (simp add: B_def mult.assoc flip: power_add)
    then show ?thesis unfolding div_mult2_eq val_leading [OF assms(1)] by (simp only: div_mult_self3 power_not_zero zero_neq_numeral not_False_eq_True)
  qed
  ultimately show ?thesis by simp
qed

lemma lehmerSimulate_ok:
  assumes x: "normal x" and y: "normal y" and y2: "2 \<le> length y" and le: "val y \<le> val x"
  shows "\<exists>c. lehmerSimulate x y = Inr c \<and> (fst (snd (snd c)) = 0 \<or> rows_ok (int (val x)) (int (val y)) c)"
proof -
  let ?n = "length x" and ?m = "length y" and ?h = "nlz (last x)"
  let ?K = "B ^ (?n - 2) * 2 ^ (64 - ?h)"
  have mn: "?m \<le> ?n" using val_less_length [OF y, of x] le by linarith
  then have n2: "2 \<le> ?n" using y2 by linarith
  then have ne: "x \<noteq> []" "y \<noteq> []" using y2 by auto
  have top: "vget_sub x ?n 1 = Inr (last x)" using ne n2 by (simp add: vget_sub_def vget_def last_conv_nth)
  have "last x \<noteq> 0" using x ne by (simp add: normal_def)
  note h = normalized_top [OF this]
  have fx: "unat (last x) * 2 ^ ?h < B" unfolding h(2) [symmetric] by (rule unat_lt_B)
  obtain a1 where a1: "top_bits x ?n ?h = Inr a1" "unat a1 = val x div ?K" using top_bits_ok [OF n2 fx h(1)] by blast
  obtain a2 where a2: "(if ?n = ?m then top_bits y ?n ?h else if ?n = ?m + 1 then go_bind (vget_sub y ?n 2) (\<lambda>b. Inr (drop_bit (W - ?h) b)) else Inr 0) = Inr a2"
    "unat a2 = val y div ?K"
  proof (cases "?n = ?m")
    case True
    have "unat (last y) \<le> unat (last x)"
    proof -
      have "val y div B ^ (?n - 1) \<le> val x div B ^ (?n - 1)" using le by (rule div_le_mono)
      moreover have "val z div B ^ (length z - 1) = unat (last z)" if "z \<noteq> []" for z
        unfolding val_last [OF that] using val_lt [of "butlast z"] by (simp add: mult.commute)
      ultimately show ?thesis using ne True by metis
    qed
    then have "unat (last y) * 2 ^ ?h < B" using fx by (meson le_less_trans mult_le_mono1)
    then show ?thesis using top_bits_ok [OF y2 _ h(1)] True that by auto
  next
    case False
    have "val y < B ^ ?m" by (rule val_lt)
    show ?thesis
    proof (cases "?n = ?m + 1")
      case True
      then have nm: "?n - 2 = ?m - 1" by simp
      have "vget_sub y ?n 2 = Inr (last y)" using True ne y2 by (simp add: vget_sub_def vget_def last_conv_nth)
      moreover have "val y div B ^ (?m - 1) = unat (last y)"
        unfolding val_last [OF ne(2)] using val_lt [of "butlast y"] by (simp add: mult.commute)
      then have "val y div ?K = unat (drop_bit (W - ?h) (last y))" by (simp add: nm div_mult2_eq unat_shr)
      ultimately show ?thesis using that False True by simp
    next
      case nm: False
      have "B ^ ?m \<le> B ^ (?n - 2)" by (rule power_increasing) (use nm False mn B_pos(1) in linarith)+
      then have "val y < B ^ (?n - 2)" using \<open>val y < B ^ ?m\<close> by linarith
      then have "val y div ?K = 0" by (simp add: div_mult2_eq)
      then show ?thesis using that nm False by simp
    qed
  qed
  have a: "int (val x) = uint a1 * int ?K + int (val x mod ?K)" "int (val y) = uint a2 * int ?K + int (val y mod ?K)"
    unfolding uint_B(2) a1(2) a2(2) by (simp_all only: of_nat_mult [symmetric] of_nat_add [symmetric] div_mult_mod_eq)
  have K: "0 < ?K" by simp
  then have m: "0 \<le> int (val x mod ?K)" "int (val x mod ?K) < int ?K" "0 \<le> int (val y mod ?K)" "int (val y mod ?K) < int ?K"
    by (simp_all only: of_nat_0_le_iff of_nat_less_iff mod_less_divisor)
  have "uint a2 \<le> uint a1" unfolding uint_B(2) a1(2) a2(2) of_nat_le_iff using le by (rule div_le_mono)
  then have r: "remainders (- sg False) (uint a1) (uint a2) (uint a1) (uint a2) (uint 1) (uint 0) (uint 0) (uint 1)"
    for d :: u64 by (simp add: remainders_def)
  have "simulate_loop a1 a2 (0, 1, 0) (0, 0, 1) False = lehmerSimulate x y"
    unfolding lehmerSimulate_def Let_def top go_bind_Inr a1(1) a2(1) ..
  with simulate_loop_ok [OF a(1) m(1,2) a(2) m(3,4) uint_B(1) r, of 0 0] show ?thesis by simp
qed

definition row_of :: "bool \<Rightarrow> u64 \<Rightarrow> u64 \<Rightarrow> int \<Rightarrow> int \<Rightarrow> int" where
  "row_of ev u v a b = sg ev * (uint u * a - uint v * b)"

section \<open>Steps of Euclid's algorithm\<close>

text \<open>
  The coefficients \<open>U\<close> and \<open>V\<close> of \<open>a\<close> in the remainders \<open>A\<close> and \<open>C\<close> of \<open>a\<close> and \<open>b\<close>.
\<close>

definition coefficients :: "int \<Rightarrow> int \<Rightarrow> int \<Rightarrow> int \<Rightarrow> int \<Rightarrow> int \<Rightarrow> bool" where
  "coefficients a b A C U V \<longleftrightarrow> b dvd A - U * a \<and> b dvd C - V * a \<and> A * \<bar>V\<bar> + C * \<bar>U\<bar> = b \<and> U * V \<le> 0 \<and>
    (C < A \<or> U \<noteq> 0) \<and> (C = 0 \<longrightarrow> \<bar>U\<bar> < \<bar>V\<bar>)"

definition gcd_inv :: "bool \<Rightarrow> int \<Rightarrow> int \<Rightarrow> int \<Rightarrow> int \<Rightarrow> int \<Rightarrow> int \<Rightarrow> bool" where
  "gcd_inv ext a b A C U V \<longleftrightarrow> 0 \<le> C \<and> C \<le> A \<and> 0 < A \<and> gcd A C = gcd a b \<and> divisor_ok A \<and> (ext \<longrightarrow> coefficients a b A C U V)"

lemma abs_row_of:
  fixes U V p q s :: int
  assumes "s = 1 \<or> s = -1" and "0 \<le> p" and "0 \<le> q" and "U * V \<le> 0"
  shows "\<bar>s * (p * U - q * V)\<bar> = p * \<bar>U\<bar> + q * \<bar>V\<bar>"
proof -
  consider "0 \<le> U" "V \<le> 0" | "U \<le> 0" "0 \<le> V" using assms(4) by (auto simp: mult_le_0_iff)
  then have "\<bar>p * U - q * V\<bar> = p * \<bar>U\<bar> + q * \<bar>V\<bar>"
  proof cases
    case 1
    then have "0 \<le> p * U" "q * V \<le> 0" using assms(2,3) by (simp_all add: mult_nonneg_nonpos)
    then show ?thesis using 1 by simp
  next
    case 2
    then have "p * U \<le> 0" "0 \<le> q * V" using assms(2,3) by (simp_all add: mult_nonneg_nonpos)
    then show ?thesis using 2 by simp
  qed
  then show ?thesis using assms(1) by (auto simp: abs_mult)
qed

text \<open>Rows of determinant \<open>\<plusminus>1\<close>.\<close>

lemma rows_sums:
  fixes A C :: int
  assumes "u0 * v1 - u1 * v0 = s" and "s = 1 \<or> s = -1"
  shows "A = v1 * (s * (u0 * A - v0 * C)) + v0 * (- s * (u1 * A - v1 * C))"
    "C = u1 * (s * (u0 * A - v0 * C)) + u0 * (- s * (u1 * A - v1 * C))"
proof -
  have "v1 * (s * (u0 * A - v0 * C)) + v0 * (- s * (u1 * A - v1 * C)) = s * (u0 * v1 - u1 * v0) * A"
    "u1 * (s * (u0 * A - v0 * C)) + u0 * (- s * (u1 * A - v1 * C)) = s * (u0 * v1 - u1 * v0) * C" by (simp_all add: algebra_simps)
  then show "A = v1 * (s * (u0 * A - v0 * C)) + v0 * (- s * (u1 * A - v1 * C))"
    "C = u1 * (s * (u0 * A - v0 * C)) + u0 * (- s * (u1 * A - v1 * C))" using assms by auto
qed

lemma rows_gcd:
  fixes A C :: int
  assumes "u0 * v1 - u1 * v0 = s" and "s = 1 \<or> s = -1"
  shows "gcd (s * (u0 * A - v0 * C)) (- s * (u1 * A - v1 * C)) = gcd A C" (is "gcd ?x ?y = _")
proof (rule zdvd_antisym_nonneg)
  have "gcd ?x ?y dvd v1 * ?x + v0 * ?y" "gcd ?x ?y dvd u1 * ?x + u0 * ?y" by (intro dvd_add dvd_mult gcd_dvd1 gcd_dvd2)+
  then show "gcd ?x ?y dvd gcd A C" unfolding rows_sums [OF assms, symmetric] by (rule gcd_greatest)
  show "gcd A C dvd gcd ?x ?y" by (intro gcd_greatest dvd_mult dvd_diff gcd_dvd1 gcd_dvd2)
qed simp_all

lemma coefficients_rows:
  assumes r: "u0 * v1 - u1 * v0 = s" "s = 1 \<or> s = -1" "0 \<le> u0" "0 \<le> u1" "0 \<le> v0" "0 \<le> v1" and c: "coefficients a b A C U V"
    and l: "- s * (u1 * A - v1 * C) < s * (u0 * A - v0 * C) \<or> s * (u0 * U - v0 * V) \<noteq> 0"
    and z: "- s * (u1 * A - v1 * C) = 0 \<longrightarrow> \<bar>s * (u0 * U - v0 * V)\<bar> < \<bar>- s * (u1 * U - v1 * V)\<bar>"
  shows "coefficients a b (s * (u0 * A - v0 * C)) (- s * (u1 * A - v1 * C)) (s * (u0 * U - v0 * V)) (- s * (u1 * U - v1 * V))"
proof -
  have C: "b dvd A - U * a" "b dvd C - V * a" "A * \<bar>V\<bar> + C * \<bar>U\<bar> = b" "U * V \<le> 0" using c by (simp_all add: coefficients_def)
  have n: "- s = 1 \<or> - s = -1" using r(2) by auto
  have "b dvd s * (u0 * (A - U * a) - v0 * (C - V * a))" "b dvd - s * (u1 * (A - U * a) - v1 * (C - V * a))"
    by (rule dvd_mult [OF dvd_diff [OF dvd_mult [OF C(1)] dvd_mult [OF C(2)]]])+
  then have "b dvd s * (u0 * A - v0 * C) - s * (u0 * U - v0 * V) * a" "b dvd - s * (u1 * A - v1 * C) - - s * (u1 * U - v1 * V) * a"
    by (simp_all add: algebra_simps)
  moreover have "s * (u0 * A - v0 * C) * \<bar>- s * (u1 * U - v1 * V)\<bar> + - s * (u1 * A - v1 * C) * \<bar>s * (u0 * U - v0 * V)\<bar> = b"
  proof -
    have "s * (u0 * A - v0 * C) * (u1 * \<bar>U\<bar> + v1 * \<bar>V\<bar>) + - s * (u1 * A - v1 * C) * (u0 * \<bar>U\<bar> + v0 * \<bar>V\<bar>) =
        s * (u0 * v1 - u1 * v0) * (A * \<bar>V\<bar> + C * \<bar>U\<bar>)" by (simp add: algebra_simps)
    also have "\<dots> = b" unfolding r(1) C(3) using r(2) by auto
    finally show ?thesis unfolding abs_row_of [OF r(2,3,5) C(4)] abs_row_of [OF n r(4,6) C(4)] .
  qed
  moreover have "s * (u0 * U - v0 * V) * (- s * (u1 * U - v1 * V)) \<le> 0"
  proof -
    have "s * (u0 * U - v0 * V) * (- s * (u1 * U - v1 * V)) = - (s * s) * ((u0 * U - v0 * V) * (u1 * U - v1 * V))" by (simp add: algebra_simps)
    also have "\<dots> = - ((u0 * U - v0 * V) * (u1 * U - v1 * V))" using r(2) by auto
    also have "\<dots> \<le> 0"
    proof -
      have "(u0 * U - v0 * V) * (u1 * U - v1 * V) = (u0 * u1) * (U * U) + (v0 * v1) * (V * V) - (u0 * v1 + v0 * u1) * (U * V)"
        by (simp add: algebra_simps)
      moreover have "(u0 * v1 + v0 * u1) * (U * V) \<le> 0" by (rule mult_nonneg_nonpos) (use r C(4) in simp_all)
      moreover have "0 \<le> (u0 * u1) * (U * U)" "0 \<le> (v0 * v1) * (V * V)" using r by simp_all
      ultimately show ?thesis by linarith
    qed
    finally show ?thesis .
  qed
  ultimately show ?thesis using l z unfolding coefficients_def by blast
qed

lemma inv_rows:
  assumes r: "rows_ok A C (u0, u1, v0, v1, ev)" and v0: "v0 \<noteq> 0" and i: "gcd_inv ext a b A C U V" and C: "0 < C"
  shows "gcd_inv ext a b (row_of ev u0 v0 A C) (- row_of ev u1 v1 A C) (row_of ev u0 v0 U V) (- row_of ev u1 v1 U V)"
    "row_of ev u0 v0 A C - row_of ev u1 v1 A C \<le> A"
proof -
  have R: "uint u0 * uint v1 - uint u1 * uint v0 = sg ev" "1 \<le> uint v1" "0 < - sg ev * (uint u1 * A - uint v1 * C)"
    "- sg ev * (uint u1 * A - uint v1 * C) < sg ev * (uint u0 * A - uint v0 * C)" using r by (simp_all add: rows_ok_def)
  have I: "gcd A C = gcd a b" "divisor_ok A" "ext \<Longrightarrow> coefficients a b A C U V" using i by (simp_all add: gcd_inv_def)
  let ?x = "row_of ev u0 v0 A C" and ?y = "- row_of ev u1 v1 A C"
  have e: "sg ev * (uint u0 * A - uint v0 * C) = ?x" "- sg ev * (uint u1 * A - uint v1 * C) = ?y" by (simp_all add: row_of_def)
  have "A = uint v1 * ?x + uint v0 * ?y" using rows_sums(1) [OF R(1) sg_cases, of A C] unfolding e .
  moreover have "1 * ?x \<le> uint v1 * ?x" "1 * ?y \<le> uint v0 * ?y" 
    using R v0 unfolding e word_nonzero_uint by (intro mult_right_mono; simp)+
  ultimately have le: "?x + ?y \<le> A" by linarith
  then show "row_of ev u0 v0 A C - row_of ev u1 v1 A C \<le> A" by simp
  have "divisor_ok ?x" using I(2) R(3,4) le unfolding e divisor_ok_def by linarith
  moreover have "gcd ?x ?y = gcd a b" using rows_gcd [OF R(1) sg_cases, of A C] unfolding e I(1) .
  moreover have "coefficients a b ?x ?y (row_of ev u0 v0 U V) (- row_of ev u1 v1 U V)" if ext
  proof -
    have "coefficients a b (sg ev * (uint u0 * A - uint v0 * C)) (- sg ev * (uint u1 * A - uint v1 * C))
        (sg ev * (uint u0 * U - uint v0 * V)) (- sg ev * (uint u1 * U - uint v1 * V))"
      by (rule coefficients_rows [OF R(1) sg_cases _ _ _ _ I(3) [OF that]]) (use R(3,4) in auto)
    then show ?thesis by (simp add: row_of_def)
  qed
  ultimately show "gcd_inv ext a b ?x ?y (row_of ev u0 v0 U V) (- row_of ev u1 v1 U V)"
    using R(3,4) unfolding e gcd_inv_def by auto
qed

lemma inv_euclid:
  assumes i: "gcd_inv ext a b A C U V" and C: "0 < C" and b: "0 < b"
  shows "gcd_inv ext a b C (A mod C) V (U - A div C * V)"
proof -
  have I: "gcd A C = gcd a b" "divisor_ok A" "C \<le> A" "ext \<Longrightarrow> coefficients a b A C U V" using i by (simp_all add: gcd_inv_def)
  have q: "1 \<le> A div C" using I(3) C by (simp add: pos_imp_zdiv_pos_iff int_one_le_iff_zero_less)
  have m: "A mod C = A - A div C * C" "0 \<le> A mod C" "A mod C < C" using C by (simp_all only: minus_div_mult_eq_mod pos_mod_sign pos_mod_bound)
  have "coefficients a b C (A mod C) V (U - A div C * V)" if ext
  proof -
    note c = I(4) [OF that]
    have r: "0 * (A div C) - 1 * 1 = (-1 :: int)" by simp
    have K: "A * \<bar>V\<bar> + C * \<bar>U\<bar> = b" "U * V \<le> 0" "C < A \<or> U \<noteq> 0" using c by (simp_all add: coefficients_def)
    have a: "\<bar>U - A div C * V\<bar> = \<bar>U\<bar> + A div C * \<bar>V\<bar>" using abs_row_of [of 1 1 "A div C" U V] q K(2) by simp
    have "\<bar>V\<bar> < \<bar>U - A div C * V\<bar>" if z: "A mod C = 0"
    proof (cases "U = 0")
      case True
      have "C < A" using K(3) True by simp
      then have "1 * C < A div C * C" using m(1) z by linarith
      then have "2 \<le> A div C" using C by simp
      then have "2 * \<bar>V\<bar> \<le> A div C * \<bar>V\<bar>" by (intro mult_right_mono) simp_all
      moreover have "V \<noteq> 0" using K(1) True b by auto
      ultimately show ?thesis unfolding a by linarith
    next
      case False
      have "1 * \<bar>V\<bar> \<le> A div C * \<bar>V\<bar>" using q by (intro mult_right_mono) simp_all
      then show ?thesis using False unfolding a by linarith
    qed
    then show ?thesis using coefficients_rows [OF r _ _ _ _ _ c] q m by simp
  qed
  moreover have "divisor_ok C" using I(2,3) C by (auto simp: divisor_ok_def)
  moreover have "gcd C (A mod C) = gcd a b" using I(1) by (metis gcd_red_int)
  ultimately show ?thesis using C m by (auto simp: gcd_inv_def)
qed

end
