(* ===== verification/Big_Gcd_Store.thy ===== *)
theory Big_Gcd_Store
  imports Big_Gcd_Steps
begin

text \<open>
  Calls on stores that may hold a zero with a sign, as the updates of Lehmer's algorithm leave in its temporaries, and the
  updates on the store.
\<close>

section \<open>Stores with a negative zero\<close>

text \<open>A well-formed store, except that the numbers in \<open>X\<close> may be zeros with a sign; what a call leaves of it.\<close>

definition good_but :: "nat set \<Rightarrow> int_store \<Rightarrow> bool" where
  "good_but X h \<longleftrightarrow> 0 < fresh h \<and> (\<forall>p < fresh h. wf (mag_of h p) \<and> normal (abs_of h p) \<and> (p \<notin> X \<longrightarrow> int_ok (ints h p))) \<and>
    int_at h intOne = 1"

definition keeps :: "nat set \<Rightarrow> int_store \<Rightarrow> int_store go \<Rightarrow> (nat \<Rightarrow> int) \<Rightarrow> bool" where
  "keeps X h r v \<longleftrightarrow> (\<exists>h'. r = Inr h' \<and> good_but X h' \<and> fresh h' = fresh h \<and> (\<forall>p < fresh h. int_at h' p = v p))"

lemma good_but_empty: "good_but {} h \<longleftrightarrow> good h"
  by (auto simp: good_but_def good_def int_ok_def mag_of_def abs_of_def)

lemma good_but_mono: "good_but X h \<Longrightarrow> X \<subseteq> Y \<Longrightarrow> good_but Y h"
  by (auto simp: good_but_def)

lemma read_but:
  assumes "good_but X h" and "x < fresh h"
  shows "normal (abs_of h x)" "int (val (abs_of h x)) = \<bar>int_at h x\<bar>" "is_neg h x \<Longrightarrow> int_at h x \<le> 0"
    "\<not> is_neg h x \<Longrightarrow> 0 \<le> int_at h x"
  using assms by (auto simp: good_but_def int_at_def int_val_def abs_of_def mag_of_def is_neg_def)

lemma put_good_but:
  assumes "good_but X h" and "z \<noteq> intOne" and "wf m" and "normal (words m)" and "z \<in> Y \<or> (b \<longrightarrow> words m \<noteq> [])" and "X - {z} \<subseteq> Y"
  shows "good_but Y (put_int (h\<lparr>nats := p\<rparr>) z b m)"
  unfolding good_but_def
proof (intro conjI allI impI)
  let ?h = "put_int (h\<lparr>nats := p\<rparr>) z b m"
  have i: "ints ?h = (ints h)(z := \<lparr>neg = b, mag = m\<rparr>)" "fresh ?h = fresh h" by (simp_all add: put_int_def)
  show "0 < fresh ?h" "int_at ?h intOne = 1" using assms(1,2) i by (simp_all add: good_but_def int_at_def)
  fix q assume q: "q < fresh ?h"
  then have o: "q \<noteq> z \<Longrightarrow> wf (mag_of h q) \<and> normal (abs_of h q) \<and> (q \<notin> X \<longrightarrow> int_ok (ints h q))"
    using assms(1) i(2) by (simp add: good_but_def)
  show "wf (mag_of ?h q)" "normal (abs_of ?h q)" using o assms(3,4) i(1) by (cases "q = z"; simp add: mag_of_def abs_of_def)+
  assume "q \<notin> Y"
  then show "int_ok (ints ?h q)" using o assms(3-6) i(1) by (cases "q = z") (auto simp: int_ok_def)
qed

lemma keeps_put:
  assumes "good_but X h" and "z < fresh h" and "z \<noteq> intOne" and "nat_is m n" and "(if b then - int n else int n) = i"
  shows "keeps (insert z X) h (Inr (put_int (h\<lparr>nats := p\<rparr>) z b m)) ((int_at h)(z := i))"
    "(b \<Longrightarrow> 0 < n) \<Longrightarrow> keeps (X - {z}) h (Inr (put_int (h\<lparr>nats := p\<rparr>) z b m)) ((int_at h)(z := i))"
proof -
  let ?h = "put_int (h\<lparr>nats := p\<rparr>) z b m"
  have i: "wf m" "normal (words m)" "val (words m) = n" using assms(4) by (simp_all add: nat_is_def)
  then have "int_val \<lparr>neg = b, mag = m\<rparr> = i" using assms(5) by (cases b) (simp_all add: int_val_def)
  then have v: "fresh ?h = fresh h" "\<forall>q < fresh h. int_at ?h q = ((int_at h)(z := i)) q" by (simp_all add: put_int_def int_at_def)
  note g = put_good_but [OF assms(1,3) i(1,2)]
  show "keeps (insert z X) h (Inr ?h) ((int_at h)(z := i))" unfolding keeps_def using g [of "insert z X" b p] v by blast
  assume "b \<Longrightarrow> 0 < n"
  then have "b \<longrightarrow> words m \<noteq> []" using i(3) by auto
  then show "keeps (X - {z}) h (Inr ?h) ((int_at h)(z := i))" unfolding keeps_def using g [of "X - {z}" b p] v by blast
qed

lemma keeps_signed:
  assumes "good_but X h" and "z < fresh h" and "z \<noteq> intOne" and "nat_is m n" and "(if b then - int n else int n) = i"
  shows "keeps (X - {z}) h (Inr (put_signed (h\<lparr>nats := p\<rparr>) z b m)) ((int_at h)(z := i))"
    "keeps (X - {z}) h (Inr (put_signed h z b m)) ((int_at h)(z := i))"
proof -
  note c = nat_is_count [OF assms(4)]
  have v: "(if count m > 0 \<and> b then - int n else int n) = i" unfolding assms(5) [symmetric] c by auto
  have p: "count m > 0 \<and> b \<Longrightarrow> 0 < n" unfolding c by (rule conjunct1)
  show "keeps (X - {z}) h (Inr (put_signed (h\<lparr>nats := p\<rparr>) z b m)) ((int_at h)(z := i))"
    "keeps (X - {z}) h (Inr (put_signed h z b m)) ((int_at h)(z := i))"
    using keeps_put(2) [OF assms(1-4) v p, of p] keeps_put(2) [OF assms(1-4) v p, of "nats h"] by (simp_all add: put_signed_def)
qed

lemma set_small_keeps:
  assumes "good_but X h" and "t < fresh h" and "t \<noteq> intOne"
  shows "keeps (insert t X) h (set_small t b w h) ((int_at h)(t := (if b then - uint w else uint w)))"
proof -
  obtain m where m: "nat_setWord (mag_of h t) w = Inr m" "nat_is m (unat w)" using setWord_ok by blast
  have "(if b then - int (unat w) else int (unat w)) = (if b then - uint w else uint w)" by simp
  from keeps_put(1) [OF assms m(2) this, of "nats h"] show ?thesis by (simp add: set_small_def m(1))
qed

lemma Int_Mul_keeps:
  assumes "good_but X h" and "z < fresh h" and "z \<noteq> intOne" and "x < fresh h" and "y < fresh h" and "x \<noteq> y"
  shows "keeps (X - {z}) h (Int_Mul z x y h) ((int_at h)(z := int_at h x * int_at h y))"
proof -
  note X = read_but [OF assms(1,4)] and Y = read_but [OF assms(1,5)]
  obtain m p where m: "nat_mul (z = x \<or> z = y) (nats h) (mag_of h z) (abs_of h x) (abs_of h y) = Inr (m, p)"
    "nat_is m (val (abs_of h x) * val (abs_of h y))"
    using nat_mul_ok by blast
  have "(if is_neg h x \<noteq> is_neg h y then - int (val (abs_of h x) * val (abs_of h y)) else int (val (abs_of h x) * val (abs_of h y))) =
      int_at h x * int_at h y"
    using X(2-4) Y(2-4) by (cases "is_neg h x"; cases "is_neg h y") simp_all
  from keeps_signed(1) [OF assms(1-3) m(2) this] show ?thesis by (simp add: Int_Mul_def assms(6) m(1))
qed

lemma Int_Sub_keeps:
  assumes "good_but X h" and "z < fresh h" and "z \<noteq> intOne" and "x < fresh h" and "y < fresh h"
  shows "keeps (X - {z}) h (Int_Sub z x y h) ((int_at h)(z := int_at h x - int_at h y))"
proof -
  note X = read_but [OF assms(1,4)] and Y = read_but [OF assms(1,5)]
  let ?a = "abs_of h x" and ?b = "abs_of h y"
  note le = cmp_nonneg [OF X(1) Y(1)]
  consider "is_neg h x \<noteq> is_neg h y" | "\<not> is_neg h x \<noteq> is_neg h y" "val ?b \<le> val ?a" | "\<not> is_neg h x \<noteq> is_neg h y" "\<not> val ?b \<le> val ?a"
    by blast
  then show ?thesis
  proof cases
    case 1
    obtain r where r: "nat_add (mag_of h z) ?a ?b = Inr r" "nat_is r (val ?a + val ?b)" using nat_add_ok [OF X(1) Y(1)] by blast
    have "(if is_neg h x then - int (val ?a + val ?b) else int (val ?a + val ?b)) = int_at h x - int_at h y"
      using 1 X(2-4) Y(2-4) by (cases "is_neg h x") simp_all
    from keeps_signed(2) [OF assms(1-3) r(2) this] show ?thesis by (simp add: Int_Sub_def Let_def 1 r(1))
  next
    case 2
    obtain r where r: "nat_sub (mag_of h z) ?a ?b = Inr r" "nat_is r (val ?a - val ?b)" using nat_sub_ok [OF X(1) Y(1)] 2(2) by auto
    have "(if is_neg h x then - int (val ?a - val ?b) else int (val ?a - val ?b)) = int_at h x - int_at h y"
      using 2 X(2-4) Y(2-4) by (cases "is_neg h x") (simp_all add: of_nat_diff)
    from keeps_signed(2) [OF assms(1-3) r(2) this] show ?thesis using 2 by (simp add: Int_Sub_def Let_def le r(1))
  next
    case 3
    then have "val ?a \<le> val ?b" by simp
    then obtain r where r: "nat_sub (mag_of h z) ?b ?a = Inr r" "nat_is r (val ?b - val ?a)" using nat_sub_ok [OF Y(1) X(1)] by auto
    have "(if \<not> is_neg h x then - int (val ?b - val ?a) else int (val ?b - val ?a)) = int_at h x - int_at h y"
      using 3 X(2-4) Y(2-4) by (cases "is_neg h x") (simp_all add: of_nat_diff)
    from keeps_signed(2) [OF assms(1-3) r(2) this] show ?thesis using 3 by (simp add: Int_Sub_def Let_def le r(1))
  qed
qed

text \<open>The first \<open>n\<close> addresses of a store hold the integers \<open>v\<close>; those in \<open>X\<close> may hold zeros with a sign.\<close>

definition stores :: "nat set \<Rightarrow> nat \<Rightarrow> int_store \<Rightarrow> (nat \<Rightarrow> int) \<Rightarrow> bool" where
  "stores X n h v \<longleftrightarrow> good_but X h \<and> n \<le> fresh h \<and> (\<forall>p < n. int_at h p = v p)"

definition leads :: "nat set \<Rightarrow> nat \<Rightarrow> int_store go \<Rightarrow> (nat \<Rightarrow> int) \<Rightarrow> bool" where
  "leads X n r v \<longleftrightarrow> (\<exists>h. r = Inr h \<and> stores X n h v)"

definition writable_below :: "nat \<Rightarrow> nat \<Rightarrow> bool" where
  "writable_below n z \<longleftrightarrow> z < n \<and> z \<noteq> intOne"

lemma leads_bind: "leads X n r u \<Longrightarrow> (\<And>h. stores X n h u \<Longrightarrow> leads Y n (f h) v) \<Longrightarrow> leads Y n (go_bind r f) v"
  by (auto simp: leads_def)

lemma leads_Inr: "leads X n (Inr h) v \<longleftrightarrow> stores X n h v"
  by (simp add: leads_def)

lemma leadsE: "leads X n r v \<Longrightarrow> (\<And>h. r = Inr h \<Longrightarrow> stores X n h v \<Longrightarrow> P) \<Longrightarrow> P"
  by (auto simp: leads_def)

lemma leads_cong: "leads X n r u \<Longrightarrow> (\<And>p. p < n \<Longrightarrow> u p = v p) \<Longrightarrow> leads X n r v"
  by (auto simp: leads_def stores_def)

lemma stores_good: "stores {} n h v \<Longrightarrow> good h"
  by (simp add: stores_def good_but_empty)

lemma stores_at: "stores X n h v \<Longrightarrow> p < n \<Longrightarrow> int_at h p = v p" "stores X n h v \<Longrightarrow> p < n \<Longrightarrow> p < fresh h"
  "stores {} n h v \<Longrightarrow> writable_below n z \<Longrightarrow> writable h z"
  by (auto simp: stores_def writable_below_def writable_def good_but_empty)

lemma leads_keeps:
  assumes "stores X n h v" and "keeps Y h r ((int_at h)(z := i))"
  shows "leads Y n r (v(z := i))"
  using assms by (auto simp: stores_def keeps_def leads_def)

lemma leads_gives:
  assumes "stores {} n h v" and "gives h r u" and "\<And>p. p < n \<Longrightarrow> u p = w p"
  shows "leads {} n r w"
  using assms by (auto simp: stores_def gives_def leads_def reach_def good_but_empty)

lemma leads_gives1:
  assumes "stores {} n h v" and "gives h r ((int_at h)(z := i))"
  shows "leads {} n r (v(z := i))"
  by (rule leads_gives [OF assms]) (use assms(1) in \<open>auto simp: stores_def\<close>)

lemma set_small_leads:
  assumes "stores X n h v" and "writable_below n t"
  shows "leads (insert t X) n (set_small t b w h) (v(t := (if b then - uint w else uint w)))"
  using assms by (intro leads_keeps [OF assms(1) set_small_keeps]) (auto simp: stores_def writable_below_def)

lemma Int_Mul_leads:
  assumes "stores X n h v" and "writable_below n z" and "x < n" and "y < n" and "x \<noteq> y"
  shows "leads (X - {z}) n (Int_Mul z x y h) (v(z := v x * v y))"
proof -
  have "keeps (X - {z}) h (Int_Mul z x y h) ((int_at h)(z := v x * v y))"
    using Int_Mul_keeps [of X h z x y] assms by (simp add: stores_def writable_below_def)
  then show ?thesis by (rule leads_keeps [OF assms(1)])
qed

lemma Int_Sub_leads:
  assumes "stores X n h v" and "writable_below n z" and "x < n" and "y < n"
  shows "leads (X - {z}) n (Int_Sub z x y h) (v(z := v x - v y))"
proof -
  have "keeps (X - {z}) h (Int_Sub z x y h) ((int_at h)(z := v x - v y))"
    using Int_Sub_keeps [of X h z x y] assms by (simp add: stores_def writable_below_def)
  then show ?thesis by (rule leads_keeps [OF assms(1)])
qed

lemma Int_Add_leads:
  assumes "stores {} n h v" and "writable_below n z" and "x < n" and "y < n"
  shows "leads {} n (Int_Add z x y h) (v(z := v x + v y))"
  using Int_Add_ok [of h z x y] assms stores_at [OF assms(1)] by (intro leads_gives1 [OF assms(1)]) simp

lemma Int_Set_stores:
  assumes "stores {} n h v" and "writable_below n z" and "x < n"
  shows "stores {} n (Int_Set z x h) (v(z := v x))"
proof -
  have "gives h (Inr (Int_Set z x h)) ((int_at h)(z := v x))"
    using Int_Set_ok [of h z x] assms stores_at [OF assms(1)] by (simp add: gives_def writable_below_def stores_good)
  from leads_gives1 [OF assms(1) this] show ?thesis by (simp add: leads_Inr)
qed

lemma signed_term: "(if b then - uint u else uint u) = - sg b * uint u"
  by (simp add: sg_def)

text \<open>Two words with signs, each times a number.\<close>

lemma two_products:
  assumes h: "stores {} n h v" and w: "writable_below n t" "writable_below n s" "A < n" "C < n"
    and d: "t \<noteq> s" "A \<noteq> t" "A \<noteq> s" "C \<noteq> s" "C \<noteq> t"
    and f: "\<And>h. stores {} n h (v(t := - sg b * uint u * v A, s := - sg b' * uint u' * v C)) \<Longrightarrow> leads Y n (f h) w'"
  shows "leads Y n (go_bind (set_small t b u h) (\<lambda>h. go_bind (set_small s b' u' h) (\<lambda>h.
    go_bind (Int_Mul t A t h) (\<lambda>h. go_bind (Int_Mul s C s h) f)))) w'"
proof (rule leads_bind [OF set_small_leads [OF h w(1)]])
  have lt: "t < n" "s < n" using w by (simp_all add: writable_below_def)
  let ?x = "- sg b * uint u" and ?y = "- sg b' * uint u'"
  fix h1 assume "stores {t} n h1 (v(t := (if b then - uint u else uint u)))"
  then have h1: "stores {t} n h1 (v(t := ?x))" unfolding signed_term .
  show "leads Y n (go_bind (set_small s b' u' h1) (\<lambda>h. go_bind (Int_Mul t A t h) (\<lambda>h. go_bind (Int_Mul s C s h) f))) w'"
  proof (rule leads_bind [OF set_small_leads [OF h1 w(2)]])
    fix h2 assume "stores {s, t} n h2 (v(t := ?x, s := (if b' then - uint u' else uint u')))"
    then have h2: "stores {s, t} n h2 (v(t := ?x, s := ?y))" unfolding signed_term .
    show "leads Y n (go_bind (Int_Mul t A t h2) (\<lambda>h. go_bind (Int_Mul s C s h) f)) w'"
    proof (rule leads_bind [OF Int_Mul_leads [OF h2 w(1,3) lt(1) d(2)]])
      fix h3 assume h3: "stores ({s, t} - {t}) n h3 ((v(t := ?x, s := ?y))(t := (v(t := ?x, s := ?y)) A * (v(t := ?x, s := ?y)) t))"
      show "leads Y n (go_bind (Int_Mul s C s h3) f) w'"
      proof (rule leads_bind [OF Int_Mul_leads [OF h3 w(2,4) lt(2) d(4)]])
        fix h4 assume "stores ({s, t} - {t} - {s}) n h4 ((v(t := ?x, s := ?y, t := (v(t := ?x, s := ?y)) A * (v(t := ?x, s := ?y)) t))
          (s := (v(t := ?x, s := ?y, t := (v(t := ?x, s := ?y)) A * (v(t := ?x, s := ?y)) t)) C * (v(t := ?x, s := ?y, t := (v(t := ?x, s := ?y)) A * (v(t := ?x, s := ?y)) t)) s))"
        moreover have "{s, t} - {t} - {s} = {}" by blast
        ultimately have "stores {} n h4 (v(t := ?x * v A, s := ?y * v C))"
          using d by (simp add: fun_upd_twist mult.commute)
        then show "leads Y n (f h4) w'" by (rule f)
      qed
    qed
  qed
qed

lemma lehmerUpdate_leads:
  assumes h: "stores {} n h v" and w: "\<forall>z \<in> {A, C, q, r, s, t}. writable_below n z" and d: "distinct [A, C, q, r, s, t]"
  shows "leads {} n (lehmerUpdate A C q r s t (u0, u1, v0, v1, ev) h)
    (v(t := sg ev * uint u0 * v A, s := - sg ev * uint v0 * v C, r := - sg ev * uint u1 * v A, q := sg ev * uint v1 * v C,
       A := row_of ev u0 v0 (v A) (v C), C := - row_of ev u1 v1 (v A) (v C)))"
  unfolding lehmerUpdate_def prod.case
proof (rule two_products [OF h])
  have wr: "writable_below n A" "writable_below n C" "writable_below n q" "writable_below n r" "writable_below n s" "writable_below n t"
    using w by simp_all
  then have lt: "A < n" "C < n" "q < n" "r < n" "s < n" "t < n" by (simp_all add: writable_below_def)
  show "writable_below n t" "writable_below n s" "A < n" "C < n" using wr lt by blast+
  show "t \<noteq> s" "A \<noteq> t" "A \<noteq> s" "C \<noteq> s" "C \<noteq> t" using d by auto
  fix h1 assume h1: "stores {} n h1 (v(t := - sg (\<not> ev) * uint u0 * v A, s := - sg ev * uint v0 * v C))"
  let ?v1 = "v(t := - sg (\<not> ev) * uint u0 * v A, s := - sg ev * uint v0 * v C)"
  have e: "?v1 A = v A" "?v1 C = v C" using d by auto
  show "leads {} n (go_bind (set_small r ev u1 h1) (\<lambda>h. go_bind (set_small q (\<not> ev) v1 h) (\<lambda>h.
     go_bind (Int_Mul r A r h) (\<lambda>h. go_bind (Int_Mul q C q h) (\<lambda>h. go_bind (Int_Add A t s h) (\<lambda>h. Int_Add C r q h))))))
    (v(t := sg ev * uint u0 * v A, s := - sg ev * uint v0 * v C, r := - sg ev * uint u1 * v A, q := sg ev * uint v1 * v C,
       A := row_of ev u0 v0 (v A) (v C), C := - row_of ev u1 v1 (v A) (v C)))"
  proof (rule two_products [OF h1 wr(4,3) lt(1,2)], unfold e)
    show "r \<noteq> q" "A \<noteq> r" "A \<noteq> q" "C \<noteq> q" "C \<noteq> r" using d by auto
    fix h2 assume h2: "stores {} n h2 (?v1(r := - sg ev * uint u1 * v A, q := - sg (\<not> ev) * uint v1 * v C))"
    show "leads {} n (go_bind (Int_Add A t s h2) (\<lambda>h. Int_Add C r q h))
      (v(t := sg ev * uint u0 * v A, s := - sg ev * uint v0 * v C, r := - sg ev * uint u1 * v A, q := sg ev * uint v1 * v C,
         A := row_of ev u0 v0 (v A) (v C), C := - row_of ev u1 v1 (v A) (v C)))"
    proof (rule leads_bind [OF Int_Add_leads [OF h2 wr(1) lt(6,5)]])
      let ?v2 = "?v1(r := - sg ev * uint u1 * v A, q := - sg (\<not> ev) * uint v1 * v C)"
      fix h3 assume h3: "stores {} n h3 (?v2(A := ?v2 t + ?v2 s))"
      have s: "(?v2(A := ?v2 t + ?v2 s)) A = row_of ev u0 v0 (v A) (v C)"
        "(?v2(A := ?v2 t + ?v2 s)) r + (?v2(A := ?v2 t + ?v2 s)) q = - row_of ev u1 v1 (v A) (v C)"
        using d by (auto simp: row_of_def algebra_simps)
      show "leads {} n (Int_Add C r q h3)
        (v(t := sg ev * uint u0 * v A, s := - sg ev * uint v0 * v C, r := - sg ev * uint u1 * v A, q := sg ev * uint v1 * v C,
           A := row_of ev u0 v0 (v A) (v C), C := - row_of ev u1 v1 (v A) (v C)))"
        by (rule leads_cong [OF Int_Add_leads [OF h3 wr(2) lt(4,3)]]) (use s in \<open>simp add: fun_upd_apply\<close>)
    qed
  qed
qed

end
