(* ===== verification/Big_Gcd_Spec.thy ===== *)
theory Big_Gcd_Spec
  imports Big_Gcd_Store
begin

text \<open>
  The statements of Lehmer's algorithm on the store: a step of Euclid's algorithm, the loop, the end on single words and the
  assignment of the results.
\<close>

section \<open>The loop\<close>

text \<open>
  The addresses of the algorithm: \<open>A\<close> and \<open>C\<close> are the last remainders, \<open>U\<close> and \<open>V\<close> their coefficients of \<open>a\<close>; the
  coefficients are at addresses only if they are asked for.
\<close>

definition addresses :: "bool \<Rightarrow> nat \<Rightarrow> nat \<Rightarrow> nat \<Rightarrow> nat option \<Rightarrow> nat option \<Rightarrow> nat \<Rightarrow> nat \<Rightarrow> nat \<Rightarrow> nat \<Rightarrow> bool" where
  "addresses ext n A C Ua Ub q r s t \<longleftrightarrow>
    (\<forall>z \<in> {A, C, q, r, s, t} \<union> set_option Ua \<union> set_option Ub. writable_below n z) \<and>
    distinct [A, C, q, r, s, t] \<and> (ext \<longrightarrow> (\<exists>u v. Ua = Some u \<and> Ub = Some v \<and> u \<noteq> v \<and> {u, v} \<inter> {A, C, q, r, s, t} = {}))"

definition at_opt :: "(nat \<Rightarrow> int) \<Rightarrow> nat option \<Rightarrow> int" where
  "at_opt v x = (case x of None \<Rightarrow> 0 | Some p \<Rightarrow> v p)"

text \<open>What the algorithm may write to.\<close>

definition only :: "nat \<Rightarrow> nat set \<Rightarrow> (nat \<Rightarrow> int) \<Rightarrow> (nat \<Rightarrow> int) \<Rightarrow> bool" where
  "only n X v w \<longleftrightarrow> (\<forall>p < n. p \<notin> X \<longrightarrow> w p = v p)"

lemma only_trans: "only n X u v \<Longrightarrow> only n X v w \<Longrightarrow> only n X u w"
  by (simp add: only_def)

lemma rotate3_stores:
  assumes h: "stores {} n h v" and w: "writable_below n A" "writable_below n C" "writable_below n r" and d: "distinct [A, C, r]"
  shows "stores {} n (rotate3 A C r h) (v(A := v C, C := v r, r := v A))"
proof -
  have g: "good h" "n \<le> fresh h" "\<forall>p < n. int_at h p = v p" using h by (simp_all add: stores_def good_but_empty)
  have lt: "A < n" "C < n" "r < n" "A \<noteq> intOne" "C \<noteq> intOne" "r \<noteq> intOne" using w by (simp_all add: writable_below_def)
  have i: "ints (rotate3 A C r h) = (ints h)(A := ints h C, C := ints h r, r := ints h A)" "fresh (rotate3 A C r h) = fresh h"
    by (simp_all add: rotate3_def)
  have "good (rotate3 A C r h)" using g(1,2) lt i by (simp add: good_def int_at_def)
  moreover have "int_at (rotate3 A C r h) p = (v(A := v C, C := v r, r := v A)) p" if "p < n" for p
    using g(3) lt that d by (simp add: int_at_def i(1))
  ultimately show ?thesis using g(2) i(2) by (simp add: stores_def good_but_empty)
qed

lemma euclidUpdate_leads:
  assumes h: "stores {} n h v" and ad: "addresses ext n A C Ua Ub q r s t" and c: "0 < v C" "0 \<le> v A" "divisor_ok (v C)"
  shows "\<exists>w. leads {} n (euclidUpdate A C Ua Ub q r s t ext h) w \<and> w A = v C \<and> w C = v A mod v C \<and>
    (ext \<longrightarrow> at_opt w Ua = at_opt v Ub \<and> at_opt w Ub = at_opt v Ua - v A div v C * at_opt v Ub) \<and>
    only n ({A, C, q, r, s, t} \<union> set_option Ua \<union> set_option Ub) v w"
proof -
  have wr: "writable_below n A" "writable_below n C" "writable_below n q" "writable_below n r" "writable_below n s" "writable_below n t"
    and d: "distinct [A, C, q, r, s, t]" using ad by (simp_all add: addresses_def)
  then have lt: "A < n" "C < n" "q < n" "r < n" "s < n" "t < n" by (simp_all add: writable_below_def)
  let ?q = "v A div v C" and ?m = "v A mod v C"
  let ?v1 = "v(q := ?q, r := ?m)"
  have sd: "v A sdiv v C = ?q" "v A smod v C = ?m" using c by (simp_all add: signed_divide_int_def signed_modulo_int_def sgn_if)
  have "gives h (Int_QuoRem q A C r h) ((int_at h)(q := ?q, r := ?m))"
    using Int_QuoRem_ok [of h q r A C] stores_at [OF h] wr lt d c sd by simp
  then have "leads {} n (Int_QuoRem q A C r h) ?v1" by (rule leads_gives [OF h]) (simp add: stores_at(1) [OF h])
  then obtain h1 where h1: "Int_QuoRem q A C r h = Inr h1" "stores {} n h1 ?v1" by (rule leadsE)
  let ?h2 = "rotate3 A C r h1" and ?v2 = "?v1(A := v C, C := ?m, r := v A)"
  have h2: "stores {} n ?h2 ?v2" using rotate3_stores [OF h1(2) wr(1,2,4)] d by simp
  show ?thesis
  proof (cases ext)
    case False
    have "leads {} n (euclidUpdate A C Ua Ub q r s t ext h) ?v2" using h2 False by (simp add: euclidUpdate_def Let_def h1(1) leads_Inr)
    then show ?thesis using False d by (intro exI [of _ ?v2]) (auto simp: only_def)
  next
    case True
    then obtain a b where ab: "Ua = Some a" "Ub = Some b" "a \<noteq> b" "{a, b} \<inter> {A, C, q, r, s, t} = {}"
      and wab: "writable_below n a" "writable_below n b"
      using ad by (auto simp: addresses_def)
    then have lab: "a < n" "b < n" by (simp_all add: writable_below_def)
    have ne: "b \<notin> {A, C, q, r, s, t}" "a \<notin> {A, C, q, r, s, t}" "a \<noteq> b" using ab(3,4) by auto
    have x: "?v2 b = v b" "?v2 a = v a" "?v2 q = ?q" using ne d by auto
    have h3: "stores {} n (Int_Set t b ?h2) (?v2(t := v b))" using Int_Set_stores [OF h2 wr(6) lab(2)] unfolding x .
    let ?v3 = "?v2(t := v b)"
    have "leads {} n (Int_Mul s b q (Int_Set t b ?h2)) (?v3(s := v b * ?q))"
      using Int_Mul_leads [OF h3 wr(5) lab(2) lt(3)] ne d by auto
    then obtain h4 where h4: "Int_Mul s b q (Int_Set t b ?h2) = Inr h4" "stores {} n h4 (?v3(s := v b * ?q))" by (rule leadsE)
    let ?v4 = "?v3(s := v b * ?q)"
    have "leads {} n (Int_Sub b a s h4) (?v4(b := v a - v b * ?q))"
      using Int_Sub_leads [OF h4(2) wab(2) lab(1) lt(5)] ne d by auto
    then obtain h5 where h5: "Int_Sub b a s h4 = Inr h5" "stores {} n h5 (?v4(b := v a - v b * ?q))" by (rule leadsE)
    let ?v5 = "?v4(b := v a - v b * ?q)"
    have y: "?v5 t = v b" using ne d by auto
    have h6: "stores {} n (Int_Set a t h5) (?v5(a := v b))" using Int_Set_stores [OF h5(2) wab(1) lt(6)] unfolding y .
    have "leads {} n (euclidUpdate A C Ua Ub q r s t ext h) (?v5(a := v b))"
      using h6 True ab(1,2) by (simp add: euclidUpdate_def Let_def h1(1) h4(1) h5(1) leads_Inr)
    then show ?thesis using True ab d
      by (intro exI [of _ "?v5(a := v b)"]) (auto simp: only_def at_opt_def algebra_simps)
  qed
qed

definition touched :: "nat \<Rightarrow> nat \<Rightarrow> nat option \<Rightarrow> nat option \<Rightarrow> nat \<Rightarrow> nat \<Rightarrow> nat \<Rightarrow> nat \<Rightarrow> nat set" where
  "touched A C Ua Ub q r s t = {A, C, q, r, s, t} \<union> set_option Ua \<union> set_option Ub"

definition inv_at :: "bool \<Rightarrow> int \<Rightarrow> int \<Rightarrow> nat \<Rightarrow> nat \<Rightarrow> nat option \<Rightarrow> nat option \<Rightarrow> (nat \<Rightarrow> int) \<Rightarrow> bool" where
  "inv_at ext a b A C Ua Ub v \<longleftrightarrow> gcd_inv ext a b (v A) (v C) (at_opt v Ua) (at_opt v Ub)"

lemma gcd_inv_not: "gcd_inv False a b A C U V \<Longrightarrow> gcd_inv False a b A C U' V'"
  by (simp add: gcd_inv_def)

lemma updates_leads:
  assumes h: "stores {} n h v" and ad: "addresses ext n A C Ua Ub q r s t"
  shows "\<exists>w. leads {} n (go_bind (lehmerUpdate A C q r s t (u0, u1, v0, v1, ev) h) (\<lambda>h.
      if ext then go_bind (nil_checked Ua) (\<lambda>Ua. go_bind (nil_checked Ub) (\<lambda>Ub. lehmerUpdate Ua Ub q r s t (u0, u1, v0, v1, ev) h))
      else Inr h)) w \<and>
    w A = row_of ev u0 v0 (v A) (v C) \<and> w C = - row_of ev u1 v1 (v A) (v C) \<and>
    (ext \<longrightarrow> at_opt w Ua = row_of ev u0 v0 (at_opt v Ua) (at_opt v Ub) \<and> at_opt w Ub = - row_of ev u1 v1 (at_opt v Ua) (at_opt v Ub)) \<and>
    only n (touched A C Ua Ub q r s t) v w"
proof -
  have wr: "\<forall>z \<in> {A, C, q, r, s, t}. writable_below n z" and d: "distinct [A, C, q, r, s, t]" using ad by (simp_all add: addresses_def)
  let ?f = "\<lambda>a c v. v(t := sg ev * uint u0 * v a, s := - sg ev * uint v0 * v c, r := - sg ev * uint u1 * v a, q := sg ev * uint v1 * v c,
    a := row_of ev u0 v0 (v a) (v c), c := - row_of ev u1 v1 (v a) (v c))"
  obtain h1 where h1: "lehmerUpdate A C q r s t (u0, u1, v0, v1, ev) h = Inr h1" "stores {} n h1 (?f A C v)"
    using lehmerUpdate_leads [OF h wr d] by (rule leadsE)
  show ?thesis
  proof (cases ext)
    case False
    then show ?thesis using h1 d by (intro exI [of _ "?f A C v"]) (auto simp: leads_Inr only_def touched_def)
  next
    case True
    then obtain a b where ab: "Ua = Some a" "Ub = Some b" "a \<noteq> b" "{a, b} \<inter> {A, C, q, r, s, t} = {}"
      and w: "\<forall>z \<in> {a, b, q, r, s, t}. writable_below n z"
      using ad by (auto simp: addresses_def)
    have d': "distinct [a, b, q, r, s, t]" using ab(3,4) d by auto
    have ne: "a \<notin> {A, C, q, r, s, t}" "b \<notin> {A, C, q, r, s, t}" using ab(4) by auto
    have x: "?f A C v a = v a" "?f A C v b = v b" using ne by auto
    have "leads {} n (go_bind (lehmerUpdate A C q r s t (u0, u1, v0, v1, ev) h) (\<lambda>h.
      if ext then go_bind (nil_checked Ua) (\<lambda>Ua. go_bind (nil_checked Ub) (\<lambda>Ub. lehmerUpdate Ua Ub q r s t (u0, u1, v0, v1, ev) h))
      else Inr h)) (?f a b (?f A C v))"
      using lehmerUpdate_leads [OF h1(2) w d', of u0 u1 v0 v1 ev] True ab(1,2) h1(1) by simp
    moreover have "?f a b (?f A C v) A = row_of ev u0 v0 (v A) (v C)" "?f a b (?f A C v) C = - row_of ev u1 v1 (v A) (v C)"
      "?f a b (?f A C v) a = row_of ev u0 v0 (v a) (v b)" "?f a b (?f A C v) b = - row_of ev u1 v1 (v a) (v b)"
      unfolding x using ne d ab(3) by auto
    moreover have "only n (touched A C Ua Ub q r s t) v (?f a b (?f A C v))" using ab(1,2) by (simp add: only_def touched_def)
    ultimately show ?thesis using ab(1,2) by (intro exI [of _ "?f a b (?f A C v)"]) (simp only: at_opt_def option.case simp_thms)
  qed
qed

lemma gcd_words:
  assumes "good h" and "C < fresh h" and "0 \<le> int_at h C"
  shows "length (abs_of h C) > 1 \<longleftrightarrow> int B \<le> int_at h C" "length (abs_of h C) > 0 \<longleftrightarrow> 0 < int_at h C"
proof -
  note R = read [OF assms(1,2)]
  have "length (abs_of h C) \<le> 1 \<longleftrightarrow> val (abs_of h C) < B" by (rule one_word [OF R(2)])
  moreover have "int (val (abs_of h C)) = int_at h C" using R(3) assms(3) by simp
  ultimately show "length (abs_of h C) > 1 \<longleftrightarrow> int B \<le> int_at h C" by linarith
  show "length (abs_of h C) > 0 \<longleftrightarrow> 0 < int_at h C" using R(5) assms(3) by auto
qed

lemma inv_bounds: "inv_at ext a b A C Ua Ub v \<Longrightarrow> 0 \<le> v C \<and> v C \<le> v A \<and> 0 < v A \<and> divisor_ok (v C)"
  by (auto simp: inv_at_def gcd_inv_def divisor_ok_def)

lemma euclid_step:
  assumes h: "stores {} n h v" and ad: "addresses ext n A C Ua Ub q r s t" and i: "inv_at ext a b A C Ua Ub v"
    and c: "0 < v C" and b: "0 < b"
  shows "\<exists>w. leads {} n (euclidUpdate A C Ua Ub q r s t ext h) w \<and> inv_at ext a b A C Ua Ub w \<and> w A + w C < v A + v C \<and>
    w A = v C \<and> w C < v C \<and> only n (touched A C Ua Ub q r s t) v w"
proof -
  have B: "0 \<le> v A" "divisor_ok (v C)" "v C \<le> v A" using inv_bounds [OF i] by simp_all
  obtain w where w: "leads {} n (euclidUpdate A C Ua Ub q r s t ext h) w" "w A = v C" "w C = v A mod v C"
    "ext \<longrightarrow> at_opt w Ua = at_opt v Ub \<and> at_opt w Ub = at_opt v Ua - v A div v C * at_opt v Ub"
    "only n (touched A C Ua Ub q r s t) v w"
    using euclidUpdate_leads [OF h ad c B(1,2)] unfolding touched_def by blast
  have m: "w C < v C" unfolding w(3) using c by simp
  have "gcd_inv ext a b (v C) (v A mod v C) (at_opt v Ub) (at_opt v Ua - v A div v C * at_opt v Ub)"
    using inv_euclid [OF _ c b] i unfolding inv_at_def by blast
  then have "inv_at ext a b A C Ua Ub w" using w(2-4) unfolding inv_at_def by (cases ext) (simp_all add: gcd_inv_def)
  moreover have "w A + w C < v A + v C" using m B(3) unfolding w(2) by linarith
  ultimately show ?thesis using w(1,2,5) m by blast
qed

lemma lehmer_step:
  assumes h: "stores {} n h v" and ad: "addresses ext n A C Ua Ub q r s t" and i: "inv_at ext a b A C Ua Ub v"
    and c: "int B \<le> v C" and b: "0 < b"
  shows "\<exists>w. leads {} n (go_bind (lehmerSimulate (abs_of h A) (abs_of h C)) (\<lambda>c.
         case c of (u0, u1, v0, v1, ev) \<Rightarrow>
           if v0 \<noteq> 0
           then go_bind (lehmerUpdate A C q r s t c h) (\<lambda>h.
             if ext
             then go_bind (nil_checked Ua) (\<lambda>Ua. go_bind (nil_checked Ub) (\<lambda>Ub. lehmerUpdate Ua Ub q r s t c h))
             else Inr h)
           else euclidUpdate A C Ua Ub q r s t ext h)) w \<and>
    inv_at ext a b A C Ua Ub w \<and> w A + w C < v A + v C \<and> only n (touched A C Ua Ub q r s t) v w"
proof -
  have g: "good h" by (rule stores_good [OF h])
  have lt: "A < n" "C < n" using ad by (simp_all add: addresses_def writable_below_def)
  then have fr: "A < fresh h" "C < fresh h" and at: "int_at h A = v A" "int_at h C = v C" using stores_at [OF h] by simp_all
  have I: "0 \<le> v C" "v C \<le> v A" "0 < v A" using inv_bounds [OF i] by simp_all
  note RA = read [OF g fr(1), unfolded at(1)] and RC = read [OF g fr(2), unfolded at(2)]
  have pos: "0 < v C" using c B_pos(1) by linarith
  have vals: "int (val (abs_of h A)) = v A" "int (val (abs_of h C)) = v C" using RA(3) RC(3) I by simp_all
  have l2: "2 \<le> length (abs_of h C)" using gcd_words(1) [OF g fr(2)] c I(1) at(2) by simp
  have "val (abs_of h C) \<le> val (abs_of h A)" using I(2) vals by linarith
  from lehmerSimulate_ok [OF RA(2) RC(2) l2 this] obtain u0 u1 v0 v1 ev
    where s: "lehmerSimulate (abs_of h A) (abs_of h C) = Inr (u0, u1, v0, v1, ev)" "v0 = 0 \<or> rows_ok (v A) (v C) (u0, u1, v0, v1, ev)"
    unfolding vals by auto
  show ?thesis
  proof (cases "v0 = 0")
    case True
    then show ?thesis using euclid_step [OF h ad i pos b] unfolding s(1) go_bind_Inr prod.case by auto
  next
    case False
    then have rows: "rows_ok (v A) (v C) (u0, u1, v0, v1, ev)" using s(2) by simp
    obtain w where w: "leads {} n (go_bind (lehmerUpdate A C q r s t (u0, u1, v0, v1, ev) h) (\<lambda>h.
      if ext then go_bind (nil_checked Ua) (\<lambda>Ua. go_bind (nil_checked Ub) (\<lambda>Ub. lehmerUpdate Ua Ub q r s t (u0, u1, v0, v1, ev) h))
      else Inr h)) w" "w A = row_of ev u0 v0 (v A) (v C)" "w C = - row_of ev u1 v1 (v A) (v C)"
      "ext \<longrightarrow> at_opt w Ua = row_of ev u0 v0 (at_opt v Ua) (at_opt v Ub) \<and> at_opt w Ub = - row_of ev u1 v1 (at_opt v Ua) (at_opt v Ub)"
      "only n (touched A C Ua Ub q r s t) v w"
      using updates_leads [OF h ad] by blast
    note R = inv_rows [OF rows False i [unfolded inv_at_def] pos]
    have "inv_at ext a b A C Ua Ub w" using R(1) w(2-4) unfolding inv_at_def by (cases ext) (simp_all add: gcd_inv_def)
    moreover have "w A + w C < v A + v C" using R(2) pos unfolding w(2,3) by linarith
    ultimately show ?thesis using w(1,5) False unfolding s(1) go_bind_Inr prod.case by auto
  qed
qed

lemma lehmer_loop_ok:
  assumes "stores {} n h v" and ad: "addresses ext n A C Ua Ub q r s t" and "inv_at ext a b A C Ua Ub v" and b: "0 < b"
  shows "\<exists>res w. lehmer_loop A C Ua Ub q r s t ext h = Some res \<and> leads {} n res w \<and> inv_at ext a b A C Ua Ub w \<and> w C < int B \<and>
    only n (touched A C Ua Ub q r s t) v w"
  using assms(1,3)
proof (induction "nat (v A + v C)" arbitrary: h v rule: less_induct)
  case less
  note h = less.prems(1) and i = less.prems(2)
  have g: "good h" by (rule stores_good [OF h])
  have lt: "C < n" using ad by (simp add: addresses_def writable_below_def)
  then have fr: "C < fresh h" and at: "int_at h C = v C" using stores_at [OF h] by simp_all
  have I: "0 \<le> v C" "v C \<le> v A" using inv_bounds [OF i] by simp_all
  note l = gcd_words(1) [OF g fr, unfolded at, OF I(1)]
  show ?case
  proof (cases "int B \<le> v C")
    case True
    let ?step = "go_bind (lehmerSimulate (abs_of h A) (abs_of h C)) (\<lambda>c.
         case c of (u0, u1, v0, v1, ev) \<Rightarrow>
           if v0 \<noteq> 0
           then go_bind (lehmerUpdate A C q r s t c h) (\<lambda>h.
             if ext
             then go_bind (nil_checked Ua) (\<lambda>Ua. go_bind (nil_checked Ub) (\<lambda>Ub. lehmerUpdate Ua Ub q r s t c h))
             else Inr h)
           else euclidUpdate A C Ua Ub q r s t ext h)"
    obtain w where w: "leads {} n ?step w" "inv_at ext a b A C Ua Ub w" "w A + w C < v A + v C" "only n (touched A C Ua Ub q r s t) v w"
      using lehmer_step [OF h ad i True b] by blast
    obtain h1 where h1: "?step = Inr h1" "stores {} n h1 w" using w(1) by (rule leadsE)
    have "0 < v A + v C" using True I B_pos(1) by linarith
    then have "nat (w A + w C) < nat (v A + v C)" using w(3) by (simp only: nat_mono_iff)
    from less.hyps [OF this h1(2) w(2)] obtain res w' where r: "lehmer_loop A C Ua Ub q r s t ext h1 = Some res" "leads {} n res w'"
      "inv_at ext a b A C Ua Ub w'" "w' C < int B" "only n (touched A C Ua Ub q r s t) w w'" by blast
    have "lehmer_loop A C Ua Ub q r s t ext h = Some res"
      unfolding lehmer_loop.simps [of A C Ua Ub q r s t ext h] l if_P [OF True] h1(1) sum.case by (rule r(1))
    then show ?thesis using r only_trans [OF w(4)] by blast
  next
    case False
    have "lehmer_loop A C Ua Ub q r s t ext h = Some (Inr h)"
      unfolding lehmer_loop.simps [of A C Ua Ub q r s t ext h] l if_not_P [OF False] ..
    moreover have "only n (touched A C Ua Ub q r s t) v v" by (simp add: only_def)
    ultimately show ?thesis using h i False by (auto simp: leads_Inr)
  qed
qed

section \<open>The last words\<close>

lemma row_bound: "X = w * y + z \<Longrightarrow> 0 < y \<Longrightarrow> 0 \<le> w \<Longrightarrow> 0 \<le> z \<Longrightarrow> w \<le> X" for w y z X :: int
  using mult_left_mono [of 1 y w] by simp

lemma word_loop_ok:
  assumes "gcd_inv ext g b (uint x) (uint y) (sg ev * (uint ua * U - uint va * V)) (- sg ev * (uint ub * U - uint vb * V))" and b: "0 < b"
    and "uint x = sg ev * (uint ua * A - uint va * C)" and "uint y = - sg ev * (uint ub * A - uint vb * C)"
    and "uint ua * uint vb - uint ub * uint va = sg ev" and A: "A < int B" and C: "C < int B"
  shows "\<exists>x' ua' va' ev' V'. word_loop x y (ua, ub) (va, vb) ev = (x', ua', va', ev') \<and>
    gcd_inv ext g b (uint x') 0 (sg ev' * (uint ua' * U - uint va' * V)) V'"
  using assms(1,3-5)
proof (induction x y "(ua, ub)" "(va, vb)" ev arbitrary: ua ub va vb rule: word_loop.induct)
  case (1 x y ua ub va vb ev)
  show ?case
  proof (cases "y \<noteq> 0")
    case True
    then have y: "0 < uint y" by (simp add: word_nonzero_uint)
    let ?q = "uint x div uint y" and ?s = "sg ev"
    let ?vb = "uint va + ?q * uint vb" and ?ub = "uint ua + ?q * uint ub"
    have m: "uint x mod uint y = uint x - ?q * uint y" by (simp only: minus_div_mult_eq_mod)
    have m0: "0 \<le> uint x mod uint y" using y by simp
    have e: "uint x - ?q * uint y = ?s * (?ub * A - ?vb * C)"
    proof -
      have "?s * (?ub * A - ?vb * C) = ?s * (uint ua * A - uint va * C) - ?q * (- ?s * (uint ub * A - uint vb * C))"
        by (simp add: algebra_simps)
      then show ?thesis unfolding "1.prems"(2,3) [symmetric] by (rule sym)
    qed
    have det: "uint ub * ?vb - ?ub * uint vb = - ?s" using "1.prems"(4) by (simp add: algebra_simps)
    have ns: "- ?s = 1 \<or> - ?s = -1" using sg_cases [of ev] by auto
    have yy: "- ?s * (uint ub * A - uint vb * C) = uint y" and rr: "- (- ?s) * (?ub * A - ?vb * C) = uint x mod uint y"
      using "1.prems"(3) e m by simp_all
    have q0: "0 \<le> ?q" using y by (simp add: pos_imp_zdiv_nonneg_iff)
    have "?vb \<le> A" using rows_sums(1) [OF det ns, of A C, unfolded yy rr] by (rule row_bound) (use y m0 q0 in simp_all)
    moreover have "?ub \<le> C" using rows_sums(2) [OF det ns, of C A, unfolded yy rr] by (rule row_bound) (use y m0 q0 in simp_all)
    ultimately have "?vb < int B" "?ub < int B" using A C by linarith+
    then have n: "uint (va + x div y * vb) = ?vb" "uint (ua + x div y * ub) = ?ub" "uint (x mod y) = uint x mod uint y"
      using uint_muladd [of va "x div y" vb] uint_muladd [of ua "x div y" ub] by (simp_all add: uint_div uint_mod)
    have U: "?s * (uint ua * U - uint va * V) - ?q * (- ?s * (uint ub * U - uint vb * V)) = - sg (\<not> ev) * (?ub * U - ?vb * V)"
      by (simp add: algebra_simps)
    have i: "gcd_inv ext g b (uint y) (uint (x mod y)) (sg (\<not> ev) * (uint ub * U - uint vb * V))
        (- sg (\<not> ev) * (uint (ua + x div y * ub) * U - uint (va + x div y * vb) * V))"
      using inv_euclid [OF "1.prems"(1) y b] unfolding n U by simp
    have p: "uint y = sg (\<not> ev) * (uint ub * A - uint vb * C)"
      "uint (x mod y) = - sg (\<not> ev) * (uint (ua + x div y * ub) * A - uint (va + x div y * vb) * C)"
      "uint ub * uint (va + x div y * vb) - uint (ua + x div y * ub) * uint vb = sg (\<not> ev)"
      unfolding n using yy rr det by simp_all
    show ?thesis using "1.hyps" [OF True refl refl i p] True by (subst word_loop.simps) (simp only: Let_def if_True simp_thms)
  next
    case False
    then show ?thesis using "1.prems"(1) by (subst word_loop.simps) auto
  qed
qed

lemma word_gcd_loop: "fst (word_loop x y u v ev) = word_gcd x y"
proof (induction x y u v ev rule: word_loop.induct)
  case (1 x y ua ub va vb ev)
  then show ?case by (subst word_loop.simps, subst word_gcd.simps) (auto simp: Let_def)
qed

text \<open>What is left at the end of the algorithm.\<close>

definition bezout :: "bool \<Rightarrow> int \<Rightarrow> int \<Rightarrow> int \<Rightarrow> int \<Rightarrow> bool" where
  "bezout ext a b A U \<longleftrightarrow> A = gcd a b \<and> (ext \<longrightarrow> b dvd A - U * a \<and> A * \<bar>U\<bar> < b)"

lemma inv_end: "gcd_inv ext a b A 0 U V \<Longrightarrow> bezout ext a b A U"
  by (auto simp: gcd_inv_def coefficients_def bezout_def)

lemma set_first:
  assumes h: "stores {} n h v" and w: "writable_below n A" and A: "0 < v A" "v A < int B" and x: "x \<noteq> 0"
  shows "leads {} n (go_bind (sl_set (mag_of h A) 0 x) (\<lambda>m. Inr (put_int h A (is_neg h A) m))) (v(A := uint x))"
proof -
  have fr: "A < fresh h" "int_at h A = v A" using stores_at [OF h] w by (simp_all add: writable_below_def)
  note g = stores_good [OF h] and R = read [OF stores_good [OF h] fr(1)]
  have "length (abs_of h A) = 1" using gcd_words [OF g fr(1)] A unfolding fr(2) by linarith
  then have l: "length (words (mag_of h A)) = 1" unfolding R(6) .
  then have c: "count (mag_of h A) = 1" using R(1) by (simp add: wf_def words_def)
  let ?m = "(mag_of h A)\<lparr>array := (array (mag_of h A))[0 := x]\<rparr>"
  have m: "sl_set (mag_of h A) 0 x = Inr ?m" by (simp add: sl_set_def c)
  have "words ?m = [x]" using R(1) c by (cases "array (mag_of h A)") (simp_all add: words_def wf_def)
  then have "nat_is ?m (unat x)" using R(1) x by (simp add: nat_is_def wf_def normal_def)
  moreover have "\<not> is_neg h A" using R(4) A(1) unfolding fr(2) by simp
  ultimately have "gives h (Inr (put_int h A (is_neg h A) ?m)) ((int_at h)(A := uint x))"
    using gives_put(2) [OF stores_at(3) [OF h w], of ?m "unat x" False "uint x"] by simp
  then show ?thesis unfolding m go_bind_Inr by (rule leads_gives1 [OF h])
qed

lemma lehmer_words_ok:
  assumes h: "stores {} n h v" and ad: "addresses ext n A C Ua Ub q r s t" and i: "inv_at ext a b A C Ua Ub v"
    and c: "0 < v C" "v A < int B" and b: "0 < b"
  shows "\<exists>w. leads {} n (lehmer_words A C Ua Ub s t ext h) w \<and> bezout ext a b (w A) (at_opt w Ua) \<and>
    only n (touched A C Ua Ub q r s t) v w"
proof -
  have wr: "writable_below n A" "writable_below n C" "writable_below n s" "writable_below n t" and d: "distinct [A, C, q, r, s, t]"
    using ad by (simp_all add: addresses_def)
  then have lt: "A < n" "C < n" by (simp_all add: writable_below_def)
  have fr: "A < fresh h" "C < fresh h" and at: "int_at h A = v A" "int_at h C = v C" using lt stores_at [OF h] by simp_all
  note g = stores_good [OF h]
  have I: "v C \<le> v A" "0 < v A" using inv_bounds [OF i] by simp_all
  have word: "\<exists>x. abs_of h p = [x] \<and> uint x = v p" if p: "p < fresh h" "int_at h p = v p" "0 < v p" "v p < int B" for p
  proof -
    have l: "length (abs_of h p) = 1" using gcd_words [OF g p(1)] p unfolding p(2) by linarith
    then obtain x where x: "abs_of h p = [x]" by (cases "abs_of h p") auto
    then show ?thesis using read(3) [OF g p(1)] p by auto
  qed
  obtain x where x: "abs_of h A = [x]" "uint x = v A" using word [OF fr(1) at(1) I(2) c(2)] by blast
  obtain y where y: "abs_of h C = [y]" "uint y = v C" using word [OF fr(2) at(2) c(1)] I(1) c(2) by auto
  have gx: "vget (abs_of h A) 0 = Inr x" "vget (abs_of h C) 0 = Inr y" by (simp_all add: vget_def x y)
  have "gcd_inv ext a b (uint x) (uint y) (sg True * (uint (1 :: u64) * at_opt v Ua - uint (0 :: u64) * at_opt v Ub))
      (- sg True * (uint (0 :: u64) * at_opt v Ua - uint (1 :: u64) * at_opt v Ub))"
    using i by (simp add: inv_at_def x(2) y(2))
  from word_loop_ok [OF this b, of "uint x" "uint y"] obtain x' ua va ev V
    where l: "word_loop x y (1, 0) (0, 1) True = (x', ua, va, ev)"
      "gcd_inv ext a b (uint x') 0 (sg ev * (uint ua * at_opt v Ua - uint va * at_opt v Ub)) V"
    using uint_B(1) by auto
  note e = inv_end [OF l(2)]
  have x': "x' \<noteq> 0" using l(2) unfolding word_nonzero_uint gcd_inv_def by blast
  show ?thesis
  proof (cases ext)
    case False
    have "word_gcd x y = x'" using word_gcd_loop [of x y "(1, 0)" "(0, 1)" True] l(1) by simp
    then have "leads {} n (lehmer_words A C Ua Ub s t ext h) (v(A := uint x'))"
      using set_first [OF h wr(1) I(2) c(2) x'] False by (simp add: lehmer_words_def gx)
    moreover have "bezout ext a b (uint x') U" for U using e False by (simp add: bezout_def)
    ultimately show ?thesis by (intro exI [of _ "v(A := uint x')"]) (auto simp: only_def touched_def)
  next
    case True
    then obtain p k where ab: "Ua = Some p" "Ub = Some k" "p \<noteq> k" "{p, k} \<inter> {A, C, q, r, s, t} = {}"
      and w: "writable_below n p" "writable_below n k"
      using ad by (auto simp: addresses_def)
    have ne: "p \<notin> {A, C, q, r, s, t}" "k \<notin> {A, C, q, r, s, t}" using ab(4) by auto
    have lt': "p < n" "k < n" "s < n" "t < n" using w wr by (simp_all add: writable_below_def)
    let ?U = "sg ev * (uint ua * v p - uint va * v k)"
    let ?v = "v(t := - sg (\<not> ev) * uint ua * v p, s := - sg ev * uint va * v k)"
    let ?w = "?v(p := ?U, A := uint x')"
    have "leads {} n (go_bind (set_small t (\<not> ev) ua h) (\<lambda>h. go_bind (set_small s ev va h) (\<lambda>h.
        go_bind (Int_Mul t p t h) (\<lambda>h. go_bind (Int_Mul s k s h) (\<lambda>h.
        go_bind (Int_Add p t s h) (\<lambda>h.
        go_bind (sl_set (mag_of h A) 0 x') (\<lambda>m. Inr (put_int h A (is_neg h A) m)))))))) ?w"
    proof (rule two_products [OF h wr(4,3) lt'(1,2)])
      show "t \<noteq> s" "p \<noteq> t" "p \<noteq> s" "k \<noteq> s" "k \<noteq> t" using d ne by auto
      fix h1 assume h1: "stores {} n h1 ?v"
      have sum: "?v t + ?v s = ?U" using d by (auto simp: algebra_simps)
      have "leads {} n (Int_Add p t s h1) (?v(p := ?U))" using Int_Add_leads [OF h1 w(1) lt'(4,3)] unfolding sum .
      then obtain h2 where h2: "Int_Add p t s h1 = Inr h2" "stores {} n h2 (?v(p := ?U))" by (rule leadsE)
      have A: "(?v(p := ?U)) A = v A" using d ne by auto
      have "leads {} n (go_bind (sl_set (mag_of h2 A) 0 x') (\<lambda>m. Inr (put_int h2 A (is_neg h2 A) m))) ?w"
        by (rule set_first [OF h2(2) wr(1) _ _ x']) (use A I(2) c(2) in simp_all)
      then show "leads {} n (go_bind (Int_Add p t s h1) (\<lambda>h.
        go_bind (sl_set (mag_of h A) 0 x') (\<lambda>m. Inr (put_int h A (is_neg h A) m)))) ?w" by (simp only: h2(1) go_bind_Inr)
    qed
    then have "leads {} n (lehmer_words A C Ua Ub s t ext h) ?w"
      unfolding lehmer_words_def gx go_bind_Inr if_P [OF True] l(1) prod.case ab(1,2) nil_checked_simps go_bind_assoc .
    moreover have "bezout ext a b (?w A) (at_opt ?w Ua)" using e ne unfolding ab(1,2) at_opt_def option.case by auto
    moreover have "only n (touched A C Ua Ub q r s t) v ?w" by (simp add: only_def touched_def ab(1,2))
    ultimately show ?thesis by blast
  qed
qed

lemma lehmer_end_ok:
  assumes h: "stores {} n h v" and ad: "addresses ext n A C Ua Ub q r s t" and i: "inv_at ext a b A C Ua Ub v"
    and c: "v C < int B" and b: "0 < b"
  shows "\<exists>w. leads {} n (lehmer_end A C Ua Ub q r s t ext h) w \<and> bezout ext a b (w A) (at_opt w Ua) \<and>
    only n (touched A C Ua Ub q r s t) v w"
proof -
  have lt: "A < n" "C < n" using ad by (simp_all add: addresses_def writable_below_def)
  have fin: "\<exists>w. leads {} n (if length (abs_of h C) > 0 then lehmer_words A C Ua Ub s t ext h else Inr h) w \<and>
      bezout ext a b (w A) (at_opt w Ua) \<and> only n (touched A C Ua Ub q r s t) v w"
    if h: "stores {} n h v" and i: "inv_at ext a b A C Ua Ub v" and A: "v A < int B" for h v
  proof -
    have "0 \<le> v C" using inv_bounds [OF i] by simp
    then have l: "length (abs_of h C) > 0 \<longleftrightarrow> 0 < v C"
      using gcd_words(2) [OF stores_good [OF h], of C] stores_at(1,2) [OF h lt(2)] by simp
    show ?thesis
    proof (cases "0 < v C")
      case True
      then show ?thesis using lehmer_words_ok [OF h ad i True A b] l by simp
    next
      case False
      then have "v C = 0" using \<open>0 \<le> v C\<close> by simp
      then have "bezout ext a b (v A) (at_opt v Ua)" using i inv_end unfolding inv_at_def by simp
      moreover have "only n (touched A C Ua Ub q r s t) v v" by (simp add: only_def)
      ultimately show ?thesis using False l h by (auto simp: leads_Inr)
    qed
  qed
  have I: "0 \<le> v C" "v C \<le> v A" "0 < v A" using inv_bounds [OF i] by simp_all
  have l: "length (abs_of h C) > 0 \<longleftrightarrow> 0 < v C" "length (abs_of h A) > 1 \<longleftrightarrow> int B \<le> v A"
    using gcd_words(2) [OF stores_good [OF h], of C] gcd_words(1) [OF stores_good [OF h], of A] stores_at(1,2) [OF h lt(2)] stores_at(1,2) [OF h lt(1)] I
    by simp_all
  show ?thesis
  proof (cases "0 < v C")
    case True
    show ?thesis
    proof (cases "int B \<le> v A")
      case A: True
      obtain w where w: "leads {} n (euclidUpdate A C Ua Ub q r s t ext h) w" "inv_at ext a b A C Ua Ub w" "w A = v C"
        "only n (touched A C Ua Ub q r s t) v w"
        using euclid_step [OF h ad i True b] by blast
      obtain h1 where h1: "euclidUpdate A C Ua Ub q r s t ext h = Inr h1" "stores {} n h1 w" using w(1) by (rule leadsE)
      have "w A < int B" using c w(3) by simp
      from fin [OF h1(2) w(2) this] obtain w' where w': "leads {} n (if length (abs_of h1 C) > 0 then lehmer_words A C Ua Ub s t ext h1 else Inr h1) w'"
        "bezout ext a b (w' A) (at_opt w' Ua)" "only n (touched A C Ua Ub q r s t) w w'" by blast
      have "lehmer_end A C Ua Ub q r s t ext h = (if length (abs_of h1 C) > 0 then lehmer_words A C Ua Ub s t ext h1 else Inr h1)"
        unfolding lehmer_end_def l if_P [OF True] if_P [OF A] h1(1) go_bind_Inr ..
      then show ?thesis using w' only_trans [OF w(4) w'(3)] by auto
    next
      case A: False
      then have "v A < int B" by simp
      from fin [OF h i this] show ?thesis unfolding lehmer_end_def l if_P [OF True] if_not_P [OF A] go_bind_Inr .
    qed
  next
    case False
    then have "v C = 0" using I(1) by simp
    then have "bezout ext a b (v A) (at_opt v Ua)" using i inv_end unfolding inv_at_def by simp
    moreover have "only n (touched A C Ua Ub q r s t) v v" by (simp add: only_def)
    ultimately show ?thesis using h unfolding lehmer_end_def l if_not_P [OF False] leads_Inr by blast
  qed
qed

section \<open>The results\<close>

lemma put_stores:
  assumes "stores {} n h v" and "writable_below n z"
  shows "stores {z} n (put_int h z b (mag_of h z)) (v(z := (if b then - \<bar>v z\<bar> else \<bar>v z\<bar>)))"
proof -
  have z: "z < fresh h" "int_at h z = v z" "good h" using assms stores_at [OF assms(1)] stores_good by (simp_all add: writable_below_def)
  have m: "nat_is (mag_of h z) (nat \<bar>v z\<bar>)" using mag_at [OF z(3,1)] z(2) by simp
  have "keeps {z} h (Inr (put_int h z b (mag_of h z))) ((int_at h)(z := (if b then - \<bar>v z\<bar> else \<bar>v z\<bar>)))"
    using keeps_put(1) [of "{}" h z "mag_of h z" "nat \<bar>v z\<bar>" b "if b then - \<bar>v z\<bar> else \<bar>v z\<bar>" "nats h"] m z assms(2)
    by (simp add: good_but_empty writable_below_def)
  from leads_keeps [OF assms(1) this] show ?thesis by (simp add: leads_Inr)
qed

lemma flip_stores:
  assumes "stores {} n h v" and "writable_below n z"
  shows "stores {z} n (flip_sign b z h) (v(z := (if b then - v z else v z)))"
proof -
  have z: "z < fresh h" "int_at h z = v z" "good h" using assms stores_at [OF assms(1)] stores_good by (simp_all add: writable_below_def)
  have "(if \<not> is_neg h z then - \<bar>v z\<bar> else \<bar>v z\<bar>) = - v z" using read(4) [OF z(3,1)] z(2) by auto
  then show ?thesis using put_stores [OF assms, of "\<not> is_neg h z"] assms(1)
    by (auto simp: flip_sign_def stores_def intro: good_but_mono)
qed

lemma assign_stores:
  assumes "stores X n h v" and "writable_below n z" and "x < n" and "x \<notin> X"
  shows "stores X n (assign z x h) (v(z := v x))"
proof -
  have i: "ints (assign z x h) = (ints h)(z := ints h x)" "fresh (assign z x h) = fresh h" by (simp_all add: assign_def)
  have g: "good_but X h" "n \<le> fresh h" "\<forall>p < n. int_at h p = v p" using assms(1) by (simp_all add: stores_def)
  have x: "x < fresh h" using g(2) assms(3) by simp
  have "good_but X (assign z x h)"
    using g(1) x assms(2,4) unfolding good_but_def i by (auto simp: int_at_def mag_of_def abs_of_def writable_below_def i)
  then show ?thesis using g(2,3) assms(2,3) by (simp add: stores_def i int_at_def writable_below_def)
qed

lemma e_div_mult: "c \<noteq> 0 \<Longrightarrow> e_div (k * c) c = k"
proof -
  assume c: "c \<noteq> 0"
  have "e_mod (k * c) c = 0" by (simp add: e_mod_def mod_eq_0_iff_dvd)
  then show ?thesis using euclid(1) [of "k * c" c] c by simp
qed

text \<open>The second coefficient, from the first.\<close>

lemma second_coefficient:
  assumes h: "stores {} n h v" and w: "writable_below n y" "A < n" "C < n" "u < n" "a < n"
    and d: "y \<noteq> A" "y \<noteq> C" "a \<noteq> u" and e: "v A - \<bar>v a\<bar> * v u = k * v C" "v C \<noteq> 0" "divisor_ok (v C)" "ng = (v a < 0)"
  shows "leads {} n (go_bind (Int_Mul y a u h) (\<lambda>h. let h = flip_sign ng y h in go_bind (Int_Sub y A y h) (\<lambda>h. Int_Div y y C h)))
    (v(y := k))"
proof (rule leads_bind [OF Int_Mul_leads [OF h w(1,5,4) d(3)]])
  have y: "y < n" using w(1) by (simp add: writable_below_def)
  fix h1 assume "stores ({} - {y}) n h1 (v(y := v a * v u))"
  then have h1: "stores {} n h1 (v(y := v a * v u))" by simp
  have p: "(if ng then - (v a * v u) else v a * v u) = \<bar>v a\<bar> * v u" unfolding e(4) by (auto simp: abs_if)
  have h2: "stores {y} n (flip_sign ng y h1) (v(y := \<bar>v a\<bar> * v u))" using flip_stores [OF h1 w(1), of ng] by (simp only: fun_upd_same fun_upd_upd p)
  have "leads {} n (Int_Sub y A y (flip_sign ng y h1)) (v(y := v A - \<bar>v a\<bar> * v u))"
    using Int_Sub_leads [OF h2 w(1,2) y] d(1) by simp
  then obtain h3 where h3: "Int_Sub y A y (flip_sign ng y h1) = Inr h3" "stores {} n h3 (v(y := k * v C))" unfolding e(1) by (rule leadsE)
  have at: "int_at h3 y = k * v C" "int_at h3 C = v C" "y < fresh h3" "C < fresh h3"
    using stores_at [OF h3(2)] y w(3) d(2) by simp_all
  have "e_div (k * v C) (v C) = k" by (rule e_div_mult [OF e(2)])
  then have "gives h3 (Int_Div y y C h3) ((int_at h3)(y := k))"
    using Int_Div_ok [OF stores_at(3) [OF h3(2) w(1)] at(3,4)] e(2,3) unfolding at(1,2) by simp
  from leads_gives1 [OF h3(2) this] show "leads {} n (let h = flip_sign ng y h1 in go_bind (Int_Sub y A y h) (\<lambda>h. Int_Div y y C h)) (v(y := k))"
    by (simp add: Let_def h3(1))
qed

lemma results_y:
  assumes h: "stores {} n h v" and w: "writable_below n A" "writable_below n C" "u < n" "a < n" "b < n" "\<forall>p \<in> set_option y. writable_below n p"
    and d: "distinct [A, C, u]" "({a, b} \<union> set_option y) \<inter> {A, C, u} = {}" and U: "y \<noteq> None \<longrightarrow> Ua = Some u"
    and e: "y \<noteq> None \<longrightarrow> v b dvd v A - \<bar>v a\<bar> * v u" "v b \<noteq> 0" "divisor_ok (v b)"
  shows "\<exists>h1 w. (case y of None \<Rightarrow> Inr h | Some y \<Rightarrow>
      let (B, h) = (if y = b then (C, Int_Set C b h) else (b, h)) in
      go_bind (nil_checked Ua) (\<lambda>Ua. go_bind (Int_Mul y a Ua h) (\<lambda>h.
        let h = flip_sign (v a < 0) y h in
        go_bind (Int_Sub y A y h) (\<lambda>h. Int_Div y y B h)))) = Inr h1 \<and> stores {} n h1 w \<and>
    (\<forall>p. p \<notin> {C} \<union> set_option y \<longrightarrow> w p = v p) \<and> (\<forall>p. y = Some p \<longrightarrow> w p * v b = v A - \<bar>v a\<bar> * v u)"
proof (cases y)
  case None
  then show ?thesis using h by auto
next
  case (Some p)
  have lt: "A < n" "C < n" using w by (simp_all add: writable_below_def)
  have p: "writable_below n p" using w(6) Some by simp
  obtain k where k: "v A - \<bar>v a\<bar> * v u = k * v b" using e(1) Some unfolding dvd_def by (auto simp: mult.commute)
  have ne: "p \<notin> {A, C, u}" "a \<notin> {A, C, u}" "b \<notin> {A, C, u}" using d(2) Some by auto
  show ?thesis
  proof (cases "p = b")
    case True
    let ?v = "v(C := v b)"
    have h0: "stores {} n (Int_Set C b h) ?v" by (rule Int_Set_stores [OF h w(2,5)])
    have "leads {} n (go_bind (Int_Mul p a u (Int_Set C b h)) (\<lambda>h. let h = flip_sign (v a < 0) p h in
        go_bind (Int_Sub p A p h) (\<lambda>h. Int_Div p p C h))) (?v(p := k))"
      by (rule second_coefficient [OF h0 p lt w(3,4)]) (use ne d(1) k e in auto)
    then obtain h1 where "go_bind (Int_Mul p a u (Int_Set C b h)) (\<lambda>h. let h = flip_sign (v a < 0) p h in
        go_bind (Int_Sub p A p h) (\<lambda>h. Int_Div p p C h)) = Inr h1" "stores {} n h1 (?v(p := k))" by (rule leadsE)
    then show ?thesis using Some U True k by (intro exI [of _ h1] exI [of _ "?v(p := k)"]) simp
  next
    case False
    have "leads {} n (go_bind (Int_Mul p a u h) (\<lambda>h. let h = flip_sign (v a < 0) p h in
        go_bind (Int_Sub p A p h) (\<lambda>h. Int_Div p p b h))) (v(p := k))"
      by (rule second_coefficient [OF h p lt(1) w(5,3,4)]) (use ne k e False in auto)
    then obtain h1 where "go_bind (Int_Mul p a u h) (\<lambda>h. let h = flip_sign (v a < 0) p h in
        go_bind (Int_Sub p A p h) (\<lambda>h. Int_Div p p b h)) = Inr h1" "stores {} n h1 (v(p := k))" by (rule leadsE)
    then show ?thesis using Some U False k by (intro exI [of _ h1] exI [of _ "v(p := k)"]) simp
  qed
qed

lemma results_x:
  assumes h: "stores {} n h v" and w: "u < n" "\<forall>p \<in> set_option x. writable_below n p" and U: "x \<noteq> None \<longrightarrow> Ua = Some u"
  shows "\<exists>h1 w. (case x of None \<Rightarrow> Inr h | Some x \<Rightarrow> go_bind (nil_checked Ua) (\<lambda>Ua. Inr (flip_sign ng x (assign x Ua h)))) = Inr h1 \<and>
    stores (set_option x) n h1 w \<and> (\<forall>p. p \<notin> set_option x \<longrightarrow> w p = v p) \<and>
    (\<forall>p. x = Some p \<longrightarrow> w p = (if ng then - v u else v u) \<and> (is_neg h1 p \<longleftrightarrow> (if ng then 0 \<le> v u else v u < 0)))"
proof (cases x)
  case None
  then show ?thesis using h by auto
next
  case (Some p)
  then have p: "writable_below n p" using w(2) by simp
  have h1: "stores {} n (assign p u h) (v(p := v u))" by (rule assign_stores [OF h p w(1)]) simp
  have h2: "stores {p} n (flip_sign ng p (assign p u h)) (v(p := (if ng then - v u else v u)))"
    using flip_stores [OF h1 p, of ng] by (simp only: fun_upd_same fun_upd_upd)
  have pn: "p < n" using p by (simp add: writable_below_def)
  have "is_neg (assign p u h) p \<longleftrightarrow> v u < 0" using read(4) [OF stores_good [OF h1] stores_at(2) [OF h1 pn]] stores_at(1) [OF h1 pn] by simp
  then have "is_neg (flip_sign ng p (assign p u h)) p \<longleftrightarrow> (if ng then 0 \<le> v u else v u < 0)"
    by (auto simp: flip_sign_def put_int_def is_neg_def)
  then show ?thesis using h2 Some U by (intro exI [of _ "flip_sign ng p (assign p u h)"] exI [of _ "v(p := (if ng then - v u else v u))"]) simp
qed

lemma lehmer_results_ok:
  assumes h: "stores {} n h v" and w: "writable_below n A" "writable_below n C" "u < n" "a < n" "b < n" "writable_below n z"
      "\<forall>p \<in> set_option x \<union> set_option y. writable_below n p"
    and d: "distinct [A, C, u]" "({a, b, z} \<union> set_option x \<union> set_option y) \<inter> {A, C, u} = {}"
      "z \<notin> set_option x \<union> set_option y" "set_option x \<inter> set_option y = {}"
    and U: "x \<noteq> None \<or> y \<noteq> None \<longrightarrow> Ua = Some u \<and> v b dvd v A - \<bar>v a\<bar> * v u" and e: "v b \<noteq> 0" "divisor_ok (v b)"
  shows "\<exists>h' w. lehmer_results z x y a b A C Ua (v a < 0) h = Inr h' \<and> stores (set_option x) n h' w \<and> w z = v A \<and>
    (\<forall>p. p \<notin> {z, C} \<union> set_option x \<union> set_option y \<longrightarrow> w p = v p) \<and>
    (\<forall>p. x = Some p \<longrightarrow> w p = (if v a < 0 then - v u else v u) \<and> (is_neg h' p \<longleftrightarrow> (if v a < 0 then 0 \<le> v u else v u < 0))) \<and>
    (\<forall>p. y = Some p \<longrightarrow> w p * v b = v A - \<bar>v a\<bar> * v u)"
proof -
  let ?ng = "v a < 0"
  obtain h1 w1 where y: "(case y of None \<Rightarrow> Inr h | Some y \<Rightarrow>
      let (B, h) = (if y = b then (C, Int_Set C b h) else (b, h)) in
      go_bind (nil_checked Ua) (\<lambda>Ua. go_bind (Int_Mul y a Ua h) (\<lambda>h.
        let h = flip_sign ?ng y h in
        go_bind (Int_Sub y A y h) (\<lambda>h. Int_Div y y B h)))) = Inr h1" "stores {} n h1 w1"
    "\<forall>p. p \<notin> {C} \<union> set_option y \<longrightarrow> w1 p = v p" "\<forall>p. y = Some p \<longrightarrow> w1 p * v b = v A - \<bar>v a\<bar> * v u"
    using results_y [OF h w(1-5), of y Ua] w(7) d U e by auto
  obtain h2 w2 where x: "(case x of None \<Rightarrow> Inr h1 | Some x \<Rightarrow> go_bind (nil_checked Ua) (\<lambda>Ua. Inr (flip_sign ?ng x (assign x Ua h1)))) = Inr h2"
    "stores (set_option x) n h2 w2" "\<forall>p. p \<notin> set_option x \<longrightarrow> w2 p = w1 p"
    "\<forall>p. x = Some p \<longrightarrow> w2 p = (if ?ng then - w1 u else w1 u) \<and> (is_neg h2 p \<longleftrightarrow> (if ?ng then 0 \<le> w1 u else w1 u < 0))"
    using results_x [OF y(2) w(3), of x Ua ?ng] w(7) U by auto
  have u: "w1 u = v u" "w2 A = v A" using y(3) x(3) d by auto
  have A: "A < n" "A \<notin> set_option x" using w(1) d(2) by (auto simp: writable_below_def)
  have z: "stores (set_option x) n (assign z A h2) (w2(z := v A))" using assign_stores [OF x(2) w(6) A] unfolding u(2) .
  have "lehmer_results z x y a b A C Ua ?ng h = Inr (assign z A h2)" unfolding lehmer_results_def y(1) go_bind_Inr x(1) ..
  moreover have "is_neg (assign z A h2) p = is_neg h2 p" if "p \<noteq> z" for p using that by (simp add: assign_def is_neg_def)
  ultimately show ?thesis using z x(3,4) y(3,4) d(3,4) u(1)
    by (intro exI [of _ "assign z A h2"] exI [of _ "w2(z := v A)"]) auto
qed

end
