(* ===== verification/Big_Gcd_Correct.thy ===== *)
theory Big_Gcd_Correct
  imports Big_Gcd_Spec
begin

text \<open>
  The greatest common divisor and the inverses of \<^verbatim>\<open>int.go\<close>: the allocation of the temporaries, the cases with a zero, and
  what \<open>GCD\<close> and \<open>ModInverse\<close> leave in the store, whatever arguments the targets share.
\<close>

section \<open>The whole algorithm\<close>

text \<open>A new number, with its value.\<close>

definition new_at :: "int_store \<Rightarrow> int_store \<Rightarrow> nat \<Rightarrow> int \<Rightarrow> bool" where
  "new_at h h' p i \<longleftrightarrow> reach h h' (int_at h) \<and> fresh h \<le> p \<and> p < fresh h' \<and> p \<noteq> intOne \<and> int_at h' p = i"

lemma new_temp: "good h \<Longrightarrow> new_int h = (p, h') \<Longrightarrow> new_at h h' p 0"
  using new_reach [of h p h'] by (auto simp: new_at_def)

lemma new_set:
  assumes "good h" and "new_int h = (p, h1)" and "reach h1 h2 ((int_at h1)(p := i))"
  shows "new_at h h2 p i"
proof -
  note N = new_reach [OF assms(1,2)]
  have "reach h h2 (int_at h)" by (rule reach_trans [OF N(1) assms(3)]) (use N(4) reachD(2) [OF N(1)] in auto)
  then show ?thesis using N reachD [OF assms(3)] by (auto simp: new_at_def)
qed

lemma new_abs:
  assumes "good h" and "new_int h = (p, h1)" and "a < fresh h"
  shows "new_at h (Int_Abs p a h1) p \<bar>int_at h a\<bar>"
proof -
  note N = new_reach [OF assms(1,2)]
  have a: "a < fresh h1" "int_at h1 a = int_at h a" using reachD [OF N(1)] assms(3) by auto
  show ?thesis by (rule new_set [OF assms(1,2)]) (use Int_Abs_ok [OF reachD(1) [OF N(1)] N(3,5) a(1)] a(2) in simp)
qed

lemma new_one:
  assumes "good h" and "new_int h = (p, h1)"
  shows "\<exists>h2. Int_SetInt64 p 1 h1 = Inr h2 \<and> new_at h h2 p 1"
proof -
  note N = new_reach [OF assms]
  have "writable h1 p" using N reachD(1) [OF N(1)] by (simp add: writable_def)
  from Int_SetInt64_ok [OF this, of 1] obtain h2 where "Int_SetInt64 p 1 h1 = Inr h2" "reach h1 h2 ((int_at h1)(p := 1))"
    by (auto simp: gives_def)
  then show ?thesis using new_set [OF assms] by blast
qed

lemma new_atD: "new_at h h' p i \<Longrightarrow> good h'" "new_at h h' p i \<Longrightarrow> q < fresh h \<Longrightarrow> int_at h' q = int_at h q"
  "new_at h h' p i \<Longrightarrow> fresh h \<le> fresh h'" "new_at h h' p i \<Longrightarrow> reach h h' (int_at h)"
  "new_at h h' p i \<Longrightarrow> fresh h \<le> p" "new_at h h' p i \<Longrightarrow> p < fresh h'" "new_at h h' p i \<Longrightarrow> int_at h' p = i" "new_at h h' p i \<Longrightarrow> p \<noteq> intOne"
  by (auto simp: new_at_def reach_def)

text \<open>The pointers of the coefficients.\<close>

lemma new_coefficients:
  assumes "good h"
  shows "\<exists>Ua Ub h'. (if ext then let (Ua, h) = new_int h in go_bind (Int_SetInt64 Ua 1 h) (\<lambda>h. let (Ub, h) = new_int h in Inr (Some Ua, Some Ub, h))
      else Inr (None, None, h)) = Inr (Ua, Ub, h') \<and> reach h h' (int_at h) \<and>
    (if ext then \<exists>u k. Ua = Some u \<and> Ub = Some k \<and> fresh h \<le> u \<and> u < k \<and> k < fresh h' \<and> u \<noteq> intOne \<and> k \<noteq> intOne \<and>
       int_at h' u = 1 \<and> int_at h' k = 0
     else Ua = None \<and> Ub = None)"
proof (cases ext)
  case True
  obtain u h1 where u: "new_int h = (u, h1)" by fastforce
  obtain h2 where h2: "Int_SetInt64 u 1 h1 = Inr h2" "new_at h h2 u 1" using new_one [OF assms u] by blast
  obtain k h3 where k: "new_int h2 = (k, h3)" by fastforce
  note D = new_atD [OF h2(2)] and K = new_atD [OF new_temp [OF new_atD(1) [OF h2(2)] k]]
  have "reach h h3 (int_at h)" by (rule reach_trans [OF D(4) K(4)]) (use D(2) in auto)
  moreover have "fresh h \<le> u" "u < k" "k < fresh h3" using D(5,6) K(5,6) by linarith+
  ultimately show ?thesis using True u h2(1) k D(6-8) K(2,7,8) by (auto simp: Let_def)
qed (use assms reach_refl in simp)

lemma gcd_start:
  assumes "0 < a" and "0 < b" and "divisor_ok a" and "divisor_ok b"
  shows "b \<le> a \<Longrightarrow> gcd_inv ext a b a b 1 0" "a < b \<Longrightarrow> gcd_inv ext a b b a 0 1"
  using assms by (auto simp: gcd_inv_def coefficients_def gcd.commute)

text \<open>The result of a call: the divisor, the coefficient \<open>X\<close> of \<open>a\<close> and the one of \<open>b\<close>.\<close>

definition gcd_result :: "int_store \<Rightarrow> nat \<Rightarrow> nat option \<Rightarrow> nat option \<Rightarrow> int \<Rightarrow> int \<Rightarrow> int_store \<Rightarrow> (nat \<Rightarrow> int) \<Rightarrow> int \<Rightarrow> bool" where
  "gcd_result h z x y a b h' w X \<longleftrightarrow> stores (set_option x) (fresh h) h' w \<and> w z = gcd a b \<and>
    (\<forall>p < fresh h. p \<notin> {z} \<union> set_option x \<union> set_option y \<longrightarrow> w p = int_at h p) \<and>
    (\<forall>p. x = Some p \<longrightarrow> w p = X) \<and> (\<forall>p. y = Some p \<longrightarrow> a * X + b * w p = gcd a b)"

lemma lehmer_core:
  assumes h: "stores {} n h v" and ad: "addresses ext n A C Ua Ub q r s t" and i: "inv_at ext \<bar>v a\<bar> \<bar>v b\<bar> A C Ua Ub v"
    and ext: "ext \<longleftrightarrow> x \<noteq> None \<or> y \<noteq> None" and w: "a < n" "b < n" "writable_below n z" "\<forall>p \<in> set_option x \<union> set_option y. writable_below n p"
    and d: "({a, b, z} \<union> set_option x \<union> set_option y) \<inter> touched A C Ua Ub q r s t = {}"
      "z \<notin> set_option x \<union> set_option y" "set_option x \<inter> set_option y = {}"
    and b: "v b \<noteq> 0" "divisor_ok (v b)"
  shows "\<exists>res h' w X. lehmer_loop A C Ua Ub q r s t ext h = Some res \<and>
    go_bind res (\<lambda>h. go_bind (lehmer_end A C Ua Ub q r s t ext h) (\<lambda>h. lehmer_results z x y a b A C Ua (is_neg h a) h)) = Inr h' \<and>
    stores (set_option x) n h' w \<and> w z = gcd (v a) (v b) \<and>
    (\<forall>p < n. p \<notin> {z} \<union> set_option x \<union> set_option y \<union> touched A C Ua Ub q r s t \<longrightarrow> w p = v p) \<and>
    (\<forall>p. x = Some p \<longrightarrow> w p = X \<and> (is_neg h' p \<longleftrightarrow> X < 0 \<or> v a < 0 \<and> X = 0)) \<and> (\<forall>p. y = Some p \<longrightarrow> v a * X + v b * w p = gcd (v a) (v b)) \<and>
    (ext \<longrightarrow> v b dvd gcd (v a) (v b) - v a * X \<and> gcd (v a) (v b) * \<bar>X\<bar> < \<bar>v b\<bar>)"
proof -
  let ?T = "touched A C Ua Ub q r s t"
  have b0: "0 < \<bar>v b\<bar>" using b(1) by simp
  obtain res w1 where l: "lehmer_loop A C Ua Ub q r s t ext h = Some res" "leads {} n res w1" "inv_at ext \<bar>v a\<bar> \<bar>v b\<bar> A C Ua Ub w1"
    "w1 C < int B" "only n ?T v w1"
    using lehmer_loop_ok [OF h ad i b0] by blast
  obtain h1 where h1: "res = Inr h1" "stores {} n h1 w1" using l(2) by (rule leadsE)
  obtain w2 where e: "leads {} n (lehmer_end A C Ua Ub q r s t ext h1) w2" "bezout ext \<bar>v a\<bar> \<bar>v b\<bar> (w2 A) (at_opt w2 Ua)" "only n ?T w1 w2"
    using lehmer_end_ok [OF h1(2) ad l(3,4) b0] by blast
  obtain h2 where h2: "lehmer_end A C Ua Ub q r s t ext h1 = Inr h2" "stores {} n h2 w2" using e(1) by (rule leadsE)
  have o: "only n ?T v w2" by (rule only_trans [OF l(5) e(3)])
  have vab: "w2 a = v a" "w2 b = v b" using o w(1,2) d(1) by (auto simp: only_def)
  let ?g = "gcd (v a) (v b)" and ?U = "at_opt w2 Ua"
  let ?X = "if v a < 0 then - ?U else ?U"
  have g: "w2 A = ?g" and B: "ext \<Longrightarrow> v b dvd ?g - \<bar>v a\<bar> * ?U" "ext \<Longrightarrow> ?g * \<bar>?U\<bar> < \<bar>v b\<bar>"
    using e(2) by (auto simp: bezout_def mult.commute)
  have X: "v a * ?X = \<bar>v a\<bar> * ?U" by (simp add: abs_if)
  have neg: "is_neg h2 a \<longleftrightarrow> w2 a < 0" using read(4) [OF stores_good [OF h2(2)] stores_at(2) [OF h2(2) w(1)]] stores_at(1) [OF h2(2) w(1)] by simp
  obtain u where u: "u < n" "u \<notin> {A, C} \<union> ({a, b, z} \<union> set_option x \<union> set_option y)" "ext \<longrightarrow> Ua = Some u \<and> ?U = w2 u" "u \<in> ?T"
  proof (cases ext)
    case True
    then obtain p k where p: "Ua = Some p" "Ub = Some k" "{p, k} \<inter> {A, C, q, r, s, t} = {}" "writable_below n p"
      using ad by (auto simp: addresses_def)
    then show ?thesis using that [of p] d(1) by (auto simp: at_opt_def writable_below_def touched_def)
  next
    case False
    have "q < n" "q \<noteq> A" "q \<noteq> C" using ad by (auto simp: addresses_def writable_below_def)
    then show ?thesis using that [of q] d(1) False by (auto simp: touched_def)
  qed
  have wAC: "writable_below n A" "writable_below n C" and AC: "distinct [A, C, u]" using ad u(2) by (auto simp: addresses_def)
  have dis: "({a, b, z} \<union> set_option x \<union> set_option y) \<inter> {A, C, u} = {}" using d(1) u(2) by (auto simp: touched_def)
  have U: "x \<noteq> None \<or> y \<noteq> None \<longrightarrow> Ua = Some u \<and> w2 b dvd w2 A - \<bar>w2 a\<bar> * w2 u"
    using ext u(3) B(1) unfolding vab g by metis
  obtain h3 w3 where h3: "lehmer_results z x y a b A C Ua (w2 a < 0) h2 = Inr h3" "stores (set_option x) n h3 w3" "w3 z = w2 A"
    "\<forall>p. p \<notin> {z, C} \<union> set_option x \<union> set_option y \<longrightarrow> w3 p = w2 p"
    "\<forall>p. x = Some p \<longrightarrow> w3 p = (if w2 a < 0 then - w2 u else w2 u) \<and> (is_neg h3 p \<longleftrightarrow> (if w2 a < 0 then 0 \<le> w2 u else w2 u < 0))"
    "\<forall>p. y = Some p \<longrightarrow> w3 p * w2 b = w2 A - \<bar>w2 a\<bar> * w2 u"
    using lehmer_results_ok [OF h2(2) wAC u(1) w AC dis d(2,3) U] b unfolding vab by blast
  have run: "go_bind res (\<lambda>h. go_bind (lehmer_end A C Ua Ub q r s t ext h) (\<lambda>h. lehmer_results z x y a b A C Ua (is_neg h a) h)) = Inr h3"
    unfolding h1(1) go_bind_Inr h2(1) neg by (rule h3(1))
  have keep: "w3 p = v p" if "p < n" "p \<notin> {z} \<union> set_option x \<union> set_option y \<union> ?T" for p
    using that h3(4) o by (auto simp: only_def touched_def)
  have "w3 p = ?X \<and> (is_neg h3 p \<longleftrightarrow> ?X < 0 \<or> v a < 0 \<and> ?X = 0)" if "x = Some p" for p using that h3(5) u(3) ext unfolding vab by auto
  moreover have "v a * ?X + v b * w3 p = ?g" if "y = Some p" for p
  proof -
    have "?U = w2 u" using u(3) ext that by blast
    then show ?thesis using that h3(6) unfolding vab g X by (simp add: mult.commute)
  qed
  moreover have "v b dvd ?g - v a * ?X \<and> ?g * \<bar>?X\<bar> < \<bar>v b\<bar>" if ext using B [OF that] unfolding X by simp
  ultimately show ?thesis using l(1) run h3(2,3) keep unfolding g by blast
qed

lemma lehmerGCD_ok:
  assumes h: "good h" and wr: "writable h z" "\<forall>p \<in> set_option x \<union> set_option y. writable h p" and ab: "a < fresh h" "b < fresh h"
    and d: "z \<notin> set_option x \<union> set_option y" "set_option x \<inter> set_option y = {}"
    and nz: "int_at h a \<noteq> 0" "int_at h b \<noteq> 0" and ok: "divisor_ok (int_at h a)" "divisor_ok (int_at h b)"
  shows "\<exists>h' w X. lehmerGCD z x y a b h = Some (Inr h') \<and> gcd_result h z x y (int_at h a) (int_at h b) h' w X \<and>
    (x \<noteq> None \<or> y \<noteq> None \<longrightarrow> int_at h b dvd gcd (int_at h a) (int_at h b) - int_at h a * X \<and> gcd (int_at h a) (int_at h b) * \<bar>X\<bar> < \<bar>int_at h b\<bar>) \<and>
    (\<forall>p. x = Some p \<longrightarrow> (is_neg h' p \<longleftrightarrow> X < 0 \<or> int_at h a < 0 \<and> X = 0))"
proof -
  let ?a = "int_at h a" and ?b = "int_at h b" and ?ext = "x \<noteq> None \<or> y \<noteq> None"
  obtain A h1 where A: "new_int h = (A, h1)" by fastforce
  define h2 where "h2 = Int_Abs A a h1"
  have N2: "new_at h h2 A \<bar>?a\<bar>" unfolding h2_def by (rule new_abs [OF h A ab(1)])
  note D2 = new_atD [OF N2]
  have b2: "b < fresh h2" "int_at h2 b = ?b" using D2(2,3) ab(2) by simp_all
  obtain C h3 where C: "new_int h2 = (C, h3)" by fastforce
  define h4 where "h4 = Int_Abs C b h3"
  have N4: "new_at h2 h4 C \<bar>?b\<bar>" using new_abs [OF D2(1) C b2(1)] unfolding h4_def b2(2) .
  note D4 = new_atD [OF N4]
  obtain Ua Ub h5 where U: "(if ?ext then let (Ua, h) = new_int h4 in go_bind (Int_SetInt64 Ua 1 h) (\<lambda>h. let (Ub, h) = new_int h in Inr (Some Ua, Some Ub, h))
      else Inr (None, None, h4)) = Inr (Ua, Ub, h5)" "reach h4 h5 (int_at h4)"
    "if ?ext then \<exists>u k. Ua = Some u \<and> Ub = Some k \<and> fresh h4 \<le> u \<and> u < k \<and> k < fresh h5 \<and> u \<noteq> intOne \<and> k \<noteq> intOne \<and>
       int_at h5 u = 1 \<and> int_at h5 k = 0
     else Ua = None \<and> Ub = None" using new_coefficients [OF D4(1), of ?ext] by blast
  note D5 = reachD [OF U(2)]
  obtain q h6 where q: "new_int h5 = (q, h6)" by fastforce
  note D6 = new_atD [OF new_temp [OF D5(1) q]]
  obtain r h7 where r: "new_int h6 = (r, h7)" by fastforce
  note D7 = new_atD [OF new_temp [OF D6(1) r]]
  obtain s h8 where s: "new_int h7 = (s, h8)" by fastforce
  note D8 = new_atD [OF new_temp [OF D7(1) s]]
  obtain t h9 where t: "new_int h8 = (t, h9)" by fastforce
  note D9 = new_atD [OF new_temp [OF D8(1) t]]
  have le: "fresh h \<le> A" "A < C" "C < fresh h5" "fresh h5 \<le> q" "q < r" "r < s" "s < t" "t < fresh h9" "fresh h \<le> fresh h9" "fresh h5 \<le> fresh h9" "C < fresh h4"
    using D2(3,5,6) D4(3,5,6) D5(4) D6(3,5,6) D7(3,5,6) D8(3,5,6) D9(3,5,6) by linarith+
  define n v where "n = fresh h9" and "v = int_at h9"
  have old: "v p = int_at h5 p" if "p < fresh h5" for p
    unfolding v_def using that D6(2,3) D7(2,3) D8(2,3) D9(2) by simp
  have orig: "v p = int_at h p" if "p < fresh h" for p
    using old [of p] that D5(2,4) D4(2,3) D2(2,3) by simp
  have "A < fresh h2" "A < fresh h4" "A < fresh h5" using D2(6) D4(3) D5(4) by linarith+
  then have vA: "v A = \<bar>?a\<bar>" using old [of A] D5(2) D4(2) D2(7) by simp
  have vC: "v C = \<bar>?b\<bar>" using old [of C] D5(2) D4(6,7) le(3) by simp
  have st: "stores {} n h9 v" using D9(1) by (simp add: stores_def good_but_empty n_def v_def)
  have wb: "writable_below n p" if "writable h p" for p using that le(9) by (simp add: writable_def writable_below_def n_def)
  have w: "writable_below n A" "writable_below n C" "writable_below n q" "writable_below n r" "writable_below n s" "writable_below n t"
    using le D2(8) D4(8) D6(8) D7(8) D8(8) D9(8) unfolding writable_below_def n_def by auto
  have U': "?ext \<Longrightarrow> \<exists>u k. Ua = Some u \<and> Ub = Some k \<and> C < u \<and> u < k \<and> k < q \<and> writable_below n u \<and> writable_below n k \<and> v u = 1 \<and> v k = 0"
    "\<not> ?ext \<Longrightarrow> Ua = None \<and> Ub = None"
    using U(3) le old by (auto simp: writable_below_def n_def split: if_splits)
  have ad: "addresses ?ext n A C Ua Ub q r s t" "addresses ?ext n C A Ub Ua q r s t"
    using w le U' by (cases ?ext; auto simp: addresses_def)+
  have pos: "0 < \<bar>?a\<bar>" "0 < \<bar>?b\<bar>" and dk: "divisor_ok \<bar>?a\<bar>" "divisor_ok \<bar>?b\<bar>" using nz ok by (simp_all add: divisor_ok_def)
  have vab: "v a = ?a" "v b = ?b" using orig ab by simp_all
  have n': "a < n" "b < n" "writable_below n z" "\<forall>p \<in> set_option x \<union> set_option y. writable_below n p"
    using ab le(9) wb wr by (auto simp: n_def)
  have T: "p \<ge> fresh h" if "p \<in> touched A C Ua Ub q r s t" for p
    using that le U' unfolding touched_def by (cases ?ext) auto
  have small: "p < fresh h" if "p \<in> {a, b, z} \<union> set_option x \<union> set_option y" for p
    using that ab wr by (auto simp: writable_def)
  have dis: "({a, b, z} \<union> set_option x \<union> set_option y) \<inter> touched A C Ua Ub q r s t = {}"
    using T small by fastforce
  have sym: "touched C A Ub Ua q r s t = touched A C Ua Ub q r s t" by (auto simp: touched_def)
  have cmp: "nat_cmp (abs_of h9 A) (abs_of h9 C) < 0 \<longleftrightarrow> \<bar>?a\<bar> < \<bar>?b\<bar>"
  proof -
    have "A < fresh h9" "C < fresh h9" using le by linarith+
    from cmp_abs [OF D9(1) this] show ?thesis using vA vC by (simp add: v_def sgn_if)
  qed
  have vb: "v b \<noteq> 0" "divisor_ok (v b)" using nz ok unfolding vab by simp_all
  obtain A' C' Ua' Ub' where sw: "(if nat_cmp (abs_of h9 A) (abs_of h9 C) < 0 then (C, A, Ub, Ua) else (A, C, Ua, Ub)) = (A', C', Ua', Ub')"
    "touched A' C' Ua' Ub' q r s t = touched A C Ua Ub q r s t" "addresses ?ext n A' C' Ua' Ub' q r s t"
    "inv_at ?ext \<bar>v a\<bar> \<bar>v b\<bar> A' C' Ua' Ub' v"
  proof (cases "\<bar>?a\<bar> < \<bar>?b\<bar>")
    case True
    have "gcd_inv ?ext \<bar>?a\<bar> \<bar>?b\<bar> \<bar>?b\<bar> \<bar>?a\<bar> (at_opt v Ub) (at_opt v Ua)"
      using gcd_start(2) [OF pos dk True, of ?ext] U' by (cases ?ext) (auto simp: at_opt_def gcd_inv_def)
    then show ?thesis using that [of C A Ub Ua] ad(2) sym True cmp by (simp add: inv_at_def vA vC vab)
  next
    case False
    then have "\<bar>?b\<bar> \<le> \<bar>?a\<bar>" by simp
    then have "gcd_inv ?ext \<bar>?a\<bar> \<bar>?b\<bar> \<bar>?a\<bar> \<bar>?b\<bar> (at_opt v Ua) (at_opt v Ub)"
      using gcd_start(1) [OF pos dk, of ?ext] U' by (cases ?ext) (auto simp: at_opt_def gcd_inv_def)
    then show ?thesis using that [of A C Ua Ub] ad(1) False cmp by (simp add: inv_at_def vA vC vab)
  qed
  obtain res h' w X where R: "lehmer_loop A' C' Ua' Ub' q r s t ?ext h9 = Some res"
    "go_bind res (\<lambda>h. go_bind (lehmer_end A' C' Ua' Ub' q r s t ?ext h) (\<lambda>h. lehmer_results z x y a b A' C' Ua' (is_neg h a) h)) = Inr h'"
    "stores (set_option x) n h' w" "w z = gcd (v a) (v b)"
    "\<forall>p < n. p \<notin> {z} \<union> set_option x \<union> set_option y \<union> touched A' C' Ua' Ub' q r s t \<longrightarrow> w p = v p"
    "\<forall>p. x = Some p \<longrightarrow> w p = X \<and> (is_neg h' p \<longleftrightarrow> X < 0 \<or> v a < 0 \<and> X = 0)" "\<forall>p. y = Some p \<longrightarrow> v a * X + v b * w p = gcd (v a) (v b)"
    "?ext \<longrightarrow> v b dvd gcd (v a) (v b) - v a * X \<and> gcd (v a) (v b) * \<bar>X\<bar> < \<bar>v b\<bar>"
    using lehmer_core [OF st sw(3,4) refl n' dis [folded sw(2)] d vb] by blast
  have "lehmerGCD z x y a b h = Some (Inr h')"
    unfolding lehmerGCD_def Let_def A prod.case h2_def [symmetric] C h4_def [symmetric] U(1) [unfolded Let_def] sum.case q r s t sw(1) R(1) option.case R(2) ..
  moreover have "gcd_result h z x y ?a ?b h' w X"
  proof -
    have "stores (set_option x) (fresh h) h' w" using R(3) le(9) by (auto simp: stores_def n_def)
    moreover have "w p = int_at h p" if "p < fresh h" "p \<notin> {z} \<union> set_option x \<union> set_option y" for p
    proof -
      have "p \<notin> touched A' C' Ua' Ub' q r s t" using T that(1) unfolding sw(2) by fastforce
      then show ?thesis using R(5) that orig [of p] le(9) by (simp add: n_def)
    qed
    ultimately show ?thesis using R(4,6,7) unfolding vab gcd_result_def by simp
  qed
  ultimately show ?thesis using R(6,8) unfolding vab by blast
qed

section \<open>Zero arguments\<close>

lemma set_coefficient_leads:
  assumes h: "stores {} n h v" and w: "\<forall>p \<in> set_option x. writable_below n p"
  shows "leads {} n (set_coefficient x zero ng h) (\<lambda>p. if x = Some p then (if zero then 0 else if ng then -1 else 1) else v p)"
proof (cases x)
  case None
  then show ?thesis using h by (simp add: set_coefficient_def leads_Inr)
next
  case (Some p)
  then have p: "writable_below n p" using w by simp
  have set: "leads {} n (Int_SetUint64 p i h) (v(p := int (unat i)))" for i
    by (rule leads_gives1 [OF h Int_SetUint64_ok [OF stores_at(3) [OF h p]]])
  have x: "v(p := i) = (\<lambda>q. if x = Some q then i else v q)" for i using Some by auto
  show ?thesis
  proof (cases zero)
    case True
    then show ?thesis using set [of 0] Some by (simp add: set_coefficient_def x)
  next
    case False
    obtain h1 where h1: "Int_SetUint64 p 1 h = Inr h1" "stores {} n h1 (v(p := 1))" using set [of 1] by (auto elim: leadsE)
    have pf: "p < fresh h1" "int_at h1 p = 1" using stores_at [OF h1(2)] p by (simp_all add: writable_below_def)
    have m: "nat_is (mag_of h1 p) 1" using mag_at [OF stores_good [OF h1(2)] pf(1)] pf(2) by simp
    have "gives h1 (Inr (put_int h1 p ng (mag_of h1 p))) ((int_at h1)(p := (if ng then -1 else 1)))"
      by (rule gives_put(2) [OF stores_at(3) [OF h1(2) p] m]) simp_all
    from leads_gives1 [OF h1(2) this] have "leads {} n (set_coefficient x zero ng h) (v(p := (if ng then -1 else 1)))"
      using Some False h1(1) by (simp add: set_coefficient_def)
    then show ?thesis using False by (simp add: x)
  qed
qed

lemma Int_GCD_ok:
  assumes h: "good h" and wr: "writable h z" "\<forall>p \<in> set_option x \<union> set_option y. writable h p" and ab: "a < fresh h" "b < fresh h"
    and d: "z \<notin> set_option x \<union> set_option y" "set_option x \<inter> set_option y = {}"
    and ok: "divisor_ok (int_at h a)" "divisor_ok (int_at h b)"
  shows "\<exists>h' w X. Int_GCD z x y a b h = Some (Inr h') \<and> gcd_result h z x y (int_at h a) (int_at h b) h' w X \<and>
    (x \<noteq> None \<or> y \<noteq> None \<longrightarrow> int_at h b dvd gcd (int_at h a) (int_at h b) - int_at h a * X \<and>
      (int_at h b \<noteq> 0 \<longrightarrow> gcd (int_at h a) (int_at h b) * \<bar>X\<bar> < \<bar>int_at h b\<bar>)) \<and>
    (\<forall>p. x = Some p \<longrightarrow> (is_neg h' p \<longleftrightarrow> X < 0 \<or> int_at h a < 0 \<and> X = 0)) \<and>
    (int_at h a = 0 \<or> int_at h b = 0 \<longrightarrow> X = sgn (int_at h a) \<and> (\<forall>q. y = Some q \<longrightarrow> w q = sgn (int_at h b)))"
proof (cases "int_at h a = 0 \<or> int_at h b = 0")
  case False
  then have nz: "int_at h a \<noteq> 0" "int_at h b \<noteq> 0" by simp_all
  have l: "\<not> (length (abs_of h a) = 0 \<or> length (abs_of h b) = 0)" using read(5) [OF h ab(1)] read(5) [OF h ab(2)] nz by simp
  show ?thesis unfolding Int_GCD_def if_not_P [OF l] using lehmerGCD_ok [OF h wr ab d nz ok] nz by metis
next
  case True
  let ?a = "int_at h a" and ?b = "int_at h b" and ?n = "fresh h"
  have la: "length (abs_of h a) = 0 \<longleftrightarrow> ?a = 0" "length (abs_of h b) = 0 \<longleftrightarrow> ?b = 0" using read(5) [OF h ab(1)] read(5) [OF h ab(2)] by simp_all
  have ng: "is_neg h a \<longleftrightarrow> ?a < 0" "is_neg h b \<longleftrightarrow> ?b < 0" using read(4) [OF h ab(1)] read(4) [OF h ab(2)] by simp_all
  have st: "stores {} ?n h (int_at h)" using h by (simp add: stores_def good_but_empty)
  have w: "writable_below ?n z" "\<forall>p \<in> set_option x. writable_below ?n p" "\<forall>p \<in> set_option y. writable_below ?n p"
    using wr by (auto simp: writable_def writable_below_def)
  have z: "z < ?n" "z \<noteq> intOne" using wr(1) by (simp_all add: writable_def)
  let ?h1 = "if ?a = 0 then Int_Set z b h else Int_Set z a h" and ?g = "gcd ?a ?b"
  have "reach h (Int_Abs z (if ?a = 0 then b else a) h) ((int_at h)(z := \<bar>int_at h (if ?a = 0 then b else a)\<bar>))"
    by (rule Int_Abs_ok [OF h z]) (use ab in auto)
  moreover have "\<bar>int_at h (if ?a = 0 then b else a)\<bar> = ?g" using True by auto
  moreover have "Int_Abs z (if ?a = 0 then b else a) h = put_int ?h1 z False (mag_of ?h1 z)" by (simp add: Int_Abs_def Let_def)
  ultimately have "gives h (Inr (put_int ?h1 z False (mag_of ?h1 z))) ((int_at h)(z := ?g))" by (simp add: gives_def)
  then have "leads {} ?n (Inr (put_int ?h1 z False (mag_of ?h1 z))) ((int_at h)(z := ?g))" by (rule leads_gives1 [OF st])
  then have h2: "stores {} ?n (put_int ?h1 z False (mag_of ?h1 z)) ((int_at h)(z := ?g))" unfolding leads_Inr .
  let ?h2 = "put_int ?h1 z False (mag_of ?h1 z)"
  let ?X = "if ?a = 0 then 0 else if ?a < 0 then -1 else 1 :: int" and ?Y = "if ?b = 0 then 0 else if ?b < 0 then -1 else 1 :: int"
  obtain h3 where h3: "set_coefficient x (?a = 0) (?a < 0) ?h2 = Inr h3"
    "stores {} ?n h3 (\<lambda>p. if x = Some p then ?X else ((int_at h)(z := ?g)) p)"
    using set_coefficient_leads [OF h2 w(2), of "?a = 0" "?a < 0"] by (rule leadsE)
  obtain h4 where h4: "set_coefficient y (?b = 0) (?b < 0) h3 = Inr h4"
    "stores {} ?n h4 (\<lambda>p. if y = Some p then ?Y else if x = Some p then ?X else ((int_at h)(z := ?g)) p)"
    using set_coefficient_leads [OF h3(2) w(3), of "?b = 0" "?b < 0"] by (rule leadsE)
  let ?w = "\<lambda>p. if y = Some p then ?Y else if x = Some p then ?X else ((int_at h)(z := ?g)) p"
  have run: "Int_GCD z x y a b h = Some (Inr h4)"
    unfolding Int_GCD_def Let_def la ng if_P [OF True] h3(1) go_bind_Inr h4(1) ..
  have s: "?a * ?X + ?b * ?Y = ?g" using True by (auto simp: abs_if)
  have xy: "x = Some p \<Longrightarrow> y \<noteq> Some p" for p using d(2) by auto
  have "stores (set_option x) ?n h4 ?w" using h4(2) by (auto simp: stores_def intro: good_but_mono)
  then have res: "gcd_result h z x y ?a ?b h4 ?w ?X"
    using d xy s unfolding gcd_result_def by auto
  have "is_neg h4 p \<longleftrightarrow> ?X < 0 \<or> ?a < 0 \<and> ?X = 0" if "x = Some p" for p
  proof -
    have p: "p < ?n" using w(2) that by (simp add: writable_below_def)
    have "is_neg h4 p \<longleftrightarrow> ?w p < 0" using read(4) [OF stores_good [OF h4(2)] stores_at(2) [OF h4(2) p]] stores_at(1) [OF h4(2) p] by simp
    also have "?w p = ?X" using that xy by simp
    finally show ?thesis by auto
  qed
  moreover have "?b dvd ?g - ?a * ?X" by (rule dvdI [of _ _ ?Y]) (use s in linarith)
  moreover have "?g * \<bar>?X\<bar> < \<bar>?b\<bar>" if "?b \<noteq> 0" using True that by simp
  moreover have "?X = sgn ?a" "\<forall>q. y = Some q \<longrightarrow> ?w q = sgn ?b" by (simp_all add: sgn_if)
  ultimately show ?thesis using run res by blast
qed

section \<open>Inverses\<close>

text \<open>\<open>n2.Neg(n)\<close> and \<open>g2.Mod(g, n)\<close>.\<close>

lemma inverse_modulus:
  assumes h: "good h" and n: "n < fresh h"
  shows "\<exists>n' h'. (if is_neg h n then let (n2, h) = new_int h in (n2, Int_Neg n2 n h) else (n, h)) = (n', h') \<and>
    reach h h' (int_at h) \<and> n' < fresh h' \<and> int_at h' n' = \<bar>int_at h n\<bar>"
proof (cases "is_neg h n")
  case True
  obtain p h1 where p: "new_int h = (p, h1)" by fastforce
  note N = new_reach [OF h p]
  have n1: "n < fresh h1" "int_at h1 n = int_at h n" using reachD [OF N(1)] n by simp_all
  have r: "reach h1 (Int_Neg p n h1) ((int_at h1)(p := - int_at h n))" using Int_Neg_ok [OF reachD(1) [OF N(1)] N(3,5) n1(1)] n1(2) by simp
  have "reach h (Int_Neg p n h1) (int_at h)" by (rule reach_trans [OF N(1) r]) (use N(4) reachD(2) [OF N(1)] in auto)
  moreover have "int_at h n < 0" using read(4) [OF h n] True by simp
  ultimately show ?thesis using True p reachD [OF r] N(3) by auto
next
  case False
  then have "0 \<le> int_at h n" using read(4) [OF h n] by simp
  then show ?thesis using False reach_refl [OF h] n by simp
qed

lemma inverse_residue:
  assumes h: "good h" and g: "g < fresh h" and n: "n < fresh h" "0 < int_at h n" "divisor_ok (int_at h n)"
  shows "\<exists>g' h'. (if is_neg h g then let (g2, h) = new_int h in go_bind (Int_Mod g2 g n h) (\<lambda>h. Inr (g2, h)) else Inr (g, h)) = Inr (g', h') \<and>
    reach h h' (int_at h) \<and> g' < fresh h' \<and> int_at h' g' = (if int_at h g < 0 then int_at h g mod int_at h n else int_at h g)"
proof (cases "is_neg h g")
  case True
  obtain p h1 where p: "new_int h = (p, h1)" by fastforce
  note N = new_reach [OF h p]
  have g1: "g < fresh h1" "int_at h1 g = int_at h g" "n < fresh h1" "int_at h1 n = int_at h n" using reachD [OF N(1)] g n by simp_all
  have "writable h1 p" using N reachD(1) [OF N(1)] by (simp add: writable_def)
  from Int_Mod_ok [OF this g1(1,3)] obtain h2 where h2: "Int_Mod p g n h1 = Inr h2" "reach h1 h2 ((int_at h1)(p := e_mod (int_at h g) (int_at h n)))"
    using n g1 by (auto simp: gives_def)
  have "reach h h2 (int_at h)" by (rule reach_trans [OF N(1) h2(2)]) (use N(4) reachD(2) [OF N(1)] in auto)
  moreover have "int_at h g < 0" using read(4) [OF h g] True by simp
  moreover have "int_at h2 p = int_at h g mod int_at h n" "p < fresh h2" using reachD [OF h2(2)] N(3) n(2) by (simp_all add: e_mod_def)
  ultimately show ?thesis using True p h2(1) by (auto simp: Let_def)
next
  case False
  then have "0 \<le> int_at h g" using read(4) [OF h g] by simp
  then show ?thesis using False reach_refl [OF h] g by simp
qed

lemma good_result:
  assumes "good_but (set_option x) h" and "\<And>p. x = Some p \<Longrightarrow> p < fresh h \<Longrightarrow> is_neg h p \<Longrightarrow> int_at h p \<noteq> 0"
  shows "good h"
proof -
  have "int_ok (ints h p)" if p: "p < fresh h" for p
  proof (cases "x = Some p")
    case True
    have "wf (mag_of h p)" "normal (abs_of h p)" using assms(1) p by (simp_all add: good_but_def)
    then show ?thesis using assms(2) [OF True p] by (auto simp: int_ok_def mag_of_def abs_of_def is_neg_def int_at_def int_val_def)
  next
    case False
    then show ?thesis using assms(1) p by (simp add: good_but_def)
  qed
  then show ?thesis using assms(1) by (simp add: good_def good_but_def)
qed

text \<open>What \<open>ModInverse\<close> returns and leaves, for a modulus other than zero.\<close>

lemma Int_ModInverse_ok:
  assumes z: "writable h z" and g: "g < fresh h" and n: "n < fresh h" "int_at h n \<noteq> 0"
    and ok: "divisor_ok (int_at h g)" "divisor_ok (int_at h n)"
  shows "\<exists>r h'. Int_ModInverse z g n h = Some (Inr (r, h')) \<and>
    (if coprime (int_at h g) (int_at h n)
     then \<exists>i. r = Some z \<and> reach h h' ((int_at h)(z := i)) \<and> 0 \<le> i \<and> i < \<bar>int_at h n\<bar> \<and> int_at h n dvd 1 - int_at h g * i
     else r = None \<and> reach h h' (int_at h))"
proof -
  have h: "good h" using z by (simp add: writable_def)
  let ?n = "\<bar>int_at h n\<bar>" and ?g = "int_at h g"
  obtain n' h1 where n': "(if is_neg h n then let (n2, h) = new_int h in (n2, Int_Neg n2 n h) else (n, h)) = (n', h1)"
    "reach h h1 (int_at h)" "n' < fresh h1" "int_at h1 n' = ?n" using inverse_modulus [OF h n(1)] by blast
  note R1 = reachD [OF n'(2)]
  have g1: "g < fresh h1" "int_at h1 g = ?g" using R1(2,4) g by simp_all
  let ?r = "if ?g < 0 then ?g mod ?n else ?g"
  have pos: "0 < ?n" using n(2) by simp
  have dk: "divisor_ok ?n" using ok(2) by (simp add: divisor_ok_def)
  obtain g' h2 where g': "(if is_neg h1 g then let (g2, h) = new_int h1 in go_bind (Int_Mod g2 g n' h) (\<lambda>h. Inr (g2, h)) else Inr (g, h1)) = Inr (g', h2)"
    "reach h1 h2 (int_at h1)" "g' < fresh h2" "int_at h2 g' = ?r"
    using inverse_residue [OF R1(1) g1(1) n'(3), unfolded n'(4) g1(2), OF pos dk] by blast
  note R2 = reachD [OF g'(2)]
  obtain d h3 where d: "new_int h2 = (d, h3)" by fastforce
  note D = new_atD [OF new_temp [OF R2(1) d]]
  obtain x h4 where x: "new_int h3 = (x, h4)" by fastforce
  note X = new_atD [OF new_temp [OF D(1) x]]
  have le: "fresh h \<le> fresh h1" "fresh h1 \<le> fresh h2" "fresh h2 \<le> d" "d < x" "x < fresh h4" using R1(4) R2(4) D(5,6) X(5,6) by linarith+
  have n3: "n' < fresh h2" "n' < fresh h3" "g' < fresh h3" using R2(3) [OF n'(3)] D(3) g'(3) by linarith+
  have g4: "g' < fresh h4" "int_at h4 g' = ?r" "n' < fresh h4" "int_at h4 n' = ?n"
    using g'(3,4) n'(3,4) n3 R2(2) D(2) X(2,3) by simp_all
  have rn: "0 \<le> ?r" "divisor_ok ?r" using pos ok by (auto simp: divisor_ok_def intro: order_less_trans [OF pos_mod_bound])
  have wr: "writable h4 d" "\<forall>p \<in> set_option (Some x) \<union> set_option None. writable h4 p"
    using X(1,8) D(8) le by (simp_all add: writable_def)
  from Int_GCD_ok [OF X(1) wr g4(1,3)] obtain h5 w k where G: "Int_GCD d (Some x) None g' n' h4 = Some (Inr h5)"
    "gcd_result h4 d (Some x) None ?r ?n h5 w k" "?n dvd gcd ?r ?n - ?r * k" "gcd ?r ?n * \<bar>k\<bar> < ?n"
    "is_neg h5 x \<longleftrightarrow> k < 0 \<or> ?r < 0 \<and> k = 0"
    using le(4) rn(2) dk pos unfolding g4(2,4) by auto
  have w: "stores {x} (fresh h4) h5 w" "w d = gcd ?r ?n" "w x = k" "\<And>p. p < fresh h4 \<Longrightarrow> p \<noteq> d \<Longrightarrow> p \<noteq> x \<Longrightarrow> w p = int_at h4 p"
    using G(2) by (auto simp: gcd_result_def)
  have neg: "is_neg h5 x \<longleftrightarrow> k < 0" using G(5) rn(1) by auto
  have x5: "int_at h5 x = k" using w(1,3) le(5) by (simp add: stores_def)
  have g5: "good h5" by (rule good_result [of "Some x"]) (use w(1) neg x5 in \<open>auto simp: stores_def\<close>)
  have st: "stores {} (fresh h4) h5 w" using w(1) g5 by (simp add: stores_def good_but_empty)
  have keep: "w p = int_at h p" if "p < fresh h" for p
  proof -
    have "p < fresh h1" "p < fresh h2" "p < fresh h3" "p < fresh h4" "p \<noteq> d" "p \<noteq> x" using that le D(3) by linarith+
    then show ?thesis using w(4) R1(2) R2(2) D(2) X(2) that by simp
  qed
  have f5: "fresh h4 \<le> fresh h5" using st by (simp add: stores_def)
  have cmp: "Int_Cmp h5 d intOne \<noteq> 0 \<longleftrightarrow> gcd ?r ?n \<noteq> 1"
  proof -
    have "d < fresh h5" "int_at h5 d = gcd ?r ?n" using st w(2) le by (simp_all add: stores_def)
    then show ?thesis using Int_Cmp_ok [OF g5, of d intOne] one_read [OF g5] by (simp add: sgn_if)
  qed
  have gcd: "gcd ?r ?n = gcd ?g (int_at h n)"
  proof -
    have "gcd (?g mod ?n) ?n = gcd ?g ?n" by (metis gcd.commute gcd_red_int)
    then show ?thesis by simp
  qed
  define i where "i = (if k < 0 then k + ?n else k)"
  have run: "Int_ModInverse z g n h = Some (if gcd ?r ?n \<noteq> 1 then Inr (None, h5)
      else if k < 0 then go_bind (Int_Add z x n' h5) (\<lambda>h. Inr (Some z, h)) else Inr (Some z, Int_Set z x h5))"
    unfolding Int_ModInverse_def Let_def n'(1) [unfolded Let_def] prod.case g'(1) [unfolded Let_def] sum.case d x G(1) option.case go_bind_Inr cmp neg ..
  have base: "reach h h5 (int_at h)" using g5 f5 le keep st by (auto simp: reach_def stores_def)
  show ?thesis
  proof (cases "gcd ?r ?n = 1")
    case False
    then show ?thesis using run base unfolding gcd by (auto simp: coprime_iff_gcd_eq_1)
  next
    case True
    have z5: "writable h5 z" by (rule writable_fresh [OF z base])
    have x5': "x < fresh h5" "n' < fresh h5" "int_at h5 n' = ?n"
      using le f5 g4(3,4) w(4) [of n'] st R2(4) n'(3) by (auto simp: stores_def)
    have ex: "\<exists>h6. (if k < 0 then go_bind (Int_Add z x n' h5) (\<lambda>h. Inr (Some z, h)) else Inr (Some z, Int_Set z x h5)) = Inr (Some z, h6) \<and>
        reach h5 h6 ((int_at h5)(z := i))"
    proof (cases "k < 0")
      case True
      then show ?thesis using Int_Add_ok [OF z5 x5'(1,2)] unfolding x5 x5'(3) by (auto simp: gives_def i_def)
    next
      case False
      then show ?thesis using Int_Set_ok [OF g5 _ _ x5'(1), of z] z5 unfolding x5 by (auto simp: writable_def i_def)
    qed
    then obtain h6 where h6: "(if k < 0 then go_bind (Int_Add z x n' h5) (\<lambda>h. Inr (Some z, h)) else Inr (Some z, Int_Set z x h5)) = Inr (Some z, h6)"
      "reach h5 h6 ((int_at h5)(z := i))" by blast
    have r6: "reach h h6 ((int_at h)(z := i))" by (rule reach_trans [OF base h6(2)]) (use reachD(2) [OF base] in auto)
    have k: "\<bar>k\<bar> < ?n" "?n dvd 1 - ?r * k" using G(3,4) unfolding True by simp_all
    then have i: "0 \<le> i" "i < ?n" by (auto simp: i_def)
    have m: "?n dvd ?g - ?r" "?n dvd i - k" by (simp_all add: i_def mod_eq_dvd_iff [symmetric])
    have "?n dvd (1 - ?r * k) - (?g - ?r) * k - ?g * (i - k)" by (rule dvd_diff [OF dvd_diff [OF k(2) dvd_mult2 [OF m(1)]] dvd_mult [OF m(2)]])
    then have "int_at h n dvd 1 - ?g * i" by (simp add: algebra_simps)
    moreover have "coprime ?g (int_at h n)" using True unfolding gcd by (simp add: coprime_iff_gcd_eq_1)
    ultimately show ?thesis using run True h6(1) r6 i by auto
  qed
qed

text \<open>
  With the modulus zero, which is documented to panic, \<open>ModInverse\<close> panics for a negative number only: otherwise nothing is
  divided by it, and one has the inverse one.
\<close>

lemma Int_ModInverse_zero:
  assumes z: "writable h z" and g: "g < fresh h" and n: "n < fresh h" "int_at h n = 0" and ok: "divisor_ok (int_at h g)"
  shows "if int_at h g < 0 then Int_ModInverse z g n h = Some (Inl (PanicMsg ''division by zero''))
    else \<exists>r h'. Int_ModInverse z g n h = Some (Inr (r, h')) \<and>
      (if int_at h g = 1 then r = Some z \<and> reach h h' ((int_at h)(z := 1)) else r = None \<and> reach h h' (int_at h))"
proof (cases "int_at h g < 0")
  case True
  have h: "good h" using z by (simp add: writable_def)
  have neg: "\<not> is_neg h n" "is_neg h g" using read(4) [OF h n(1)] read(4) [OF h g] n(2) True by simp_all
  obtain p h1 where p: "new_int h = (p, h1)" by fastforce
  note N = new_reach [OF h p]
  have n1: "g < fresh h1" "n < fresh h1" "int_at h1 n = 0" using reachD [OF N(1)] g n by simp_all
  have "writable h1 p" using N reachD(1) [OF N(1)] by (simp add: writable_def)
  from Int_Mod_ok [OF this n1(1,2)] have "Int_Mod p g n h1 = Inl (PanicMsg ''division by zero'')"
    using n1(3) by (simp add: divisor_ok_def)
  then show ?thesis using True neg p by (simp add: Int_ModInverse_def)
next
  case False
  have h: "good h" using z by (simp add: writable_def)
  have neg: "\<not> is_neg h n" "\<not> is_neg h g" using read(4) [OF h n(1)] read(4) [OF h g] n(2) False by simp_all
  obtain d h1 where d: "new_int h = (d, h1)" by fastforce
  note D = new_atD [OF new_temp [OF h d]]
  obtain x h2 where x: "new_int h1 = (x, h2)" by fastforce
  note X = new_atD [OF new_temp [OF D(1) x]]
  have le: "fresh h \<le> d" "d < x" "x < fresh h2" using D(5,6) X(5,6) by linarith+
  have gn: "g < fresh h2" "n < fresh h2" "int_at h2 g = int_at h g" "int_at h2 n = 0" using g n D(2,3) X(2,3) by simp_all
  have wr: "writable h2 d" "\<forall>p \<in> set_option (Some x) \<union> set_option None. writable h2 p"
    using X(1,8) D(8) le by (simp_all add: writable_def)
  have z0: "divisor_ok 0" by (simp add: divisor_ok_def)
  from Int_GCD_ok [OF X(1) wr gn(1,2)] obtain h3 w k where G: "Int_GCD d (Some x) None g n h2 = Some (Inr h3)"
    "gcd_result h2 d (Some x) None (int_at h g) 0 h3 w k" "is_neg h3 x \<longleftrightarrow> k < 0 \<or> int_at h g < 0 \<and> k = 0" "k = sgn (int_at h g)"
    using le(2) ok z0 unfolding gn(3,4) by auto
  have w: "stores {x} (fresh h2) h3 w" "w d = int_at h g" "w x = k" "\<And>p. p < fresh h2 \<Longrightarrow> p \<noteq> d \<Longrightarrow> p \<noteq> x \<Longrightarrow> w p = int_at h2 p"
    using G(2) False by (auto simp: gcd_result_def)
  have nx: "\<not> is_neg h3 x" using G(3,4) False by simp
  have g3: "good h3" by (rule good_result [of "Some x"]) (use w(1) nx in \<open>auto simp: stores_def\<close>)
  have f3: "fresh h2 \<le> fresh h3" using w(1) by (simp add: stores_def)
  have dx: "d < fresh h3" "int_at h3 d = int_at h g" "x < fresh h3" "int_at h3 x = k" using w(1-3) le by (simp_all add: stores_def)
  have "w p = int_at h p" if "p < fresh h" for p
  proof -
    have "p < fresh h1" "p < fresh h2" "p \<noteq> d" "p \<noteq> x" using that le D(3) X(3) by linarith+
    then show ?thesis using w(4) D(2) X(2) that by simp
  qed
  then have base: "reach h h3 (int_at h)" using g3 f3 le w(1) by (auto simp: reach_def stores_def)
  have cmp: "Int_Cmp h3 d intOne \<noteq> 0 \<longleftrightarrow> int_at h g \<noteq> 1" using Int_Cmp_ok [OF g3 dx(1), of intOne] dx(2) one_read [OF g3] by (simp add: sgn_if)
  have run: "Int_ModInverse z g n h = Some (if int_at h g \<noteq> 1 then Inr (None, h3) else Inr (Some z, Int_Set z x h3))"
    using neg d x G(1) nx cmp by (simp add: Int_ModInverse_def)
  show ?thesis
  proof (cases "int_at h g = 1")
    case True
    have z3: "writable h3 z" by (rule writable_fresh [OF z base])
    have "reach h3 (Int_Set z x h3) ((int_at h3)(z := 1))" using Int_Set_ok [OF g3 _ _ dx(3), of z] z3 dx(4) G(4) True by (simp add: writable_def)
    then have "reach h (Int_Set z x h3) ((int_at h)(z := 1))" by (rule reach_trans [OF base]) (use reachD(2) [OF base] in auto)
    then show ?thesis using run True by simp
  qed (use run base False in simp)
qed

section \<open>Properties\<close>

text \<open>A result is well-formed unless the first coefficient is a zero with a sign.\<close>

lemma result_good:
  assumes "gcd_result h z x y a b h' w X" and "\<forall>p. x = Some p \<longrightarrow> writable h p \<and> (is_neg h' p \<longleftrightarrow> X < 0 \<or> s \<and> X = 0)"
  shows "good h' \<longleftrightarrow> \<not> (\<exists>p. x = Some p \<and> s \<and> X = 0)" "p < fresh h \<Longrightarrow> int_at h' p = w p"
proof -
  have g: "stores (set_option x) (fresh h) h' w" "\<And>p. x = Some p \<Longrightarrow> w p = X" using assms(1) by (auto simp: gcd_result_def)
  then have st: "good_but (set_option x) h'" "fresh h \<le> fresh h'" and at: "\<And>p. p < fresh h \<Longrightarrow> int_at h' p = w p"
    by (simp_all add: stores_def)
  have x: "p < fresh h" if "x = Some p" for p using assms(2) that by (simp add: writable_def)
  show "good h' \<longleftrightarrow> \<not> (\<exists>p. x = Some p \<and> s \<and> X = 0)"
  proof
    assume good: "good h'"
    show "\<not> (\<exists>p. x = Some p \<and> s \<and> X = 0)"
    proof
      assume "\<exists>p. x = Some p \<and> s \<and> X = 0"
      then obtain p where p: "x = Some p" "s" "X = 0" by blast
      then have "is_neg h' p" "int_at h' p = 0" "p < fresh h'" using assms(2) g(2) at x [OF p(1)] st(2) by simp_all
      then show False using read(4) [OF good] by simp
    qed
  next
    assume n: "\<not> (\<exists>p. x = Some p \<and> s \<and> X = 0)"
    show "good h'" by (rule good_result [OF st(1)]) (use n assms(2) g(2) at x in auto)
  qed
  show "p < fresh h \<Longrightarrow> int_at h' p = w p" by (rule at)
qed

text \<open>C1. \<open>GCD\<close> always returns.  It leaves the greatest common divisor, never negative, in its first target and changes
  nothing but its targets, which may be the arguments; the first coefficient alone determines the second, both together
  give the divisor, and the first one is below the second argument divided by the divisor.  If an argument is zero, the
  coefficients are the signs of the arguments (zero for zero), as documented.  The store it leaves is
  well-formed unless the first coefficient was asked for, is zero, and the first argument is negative: then it is a zero
  with a sign.
\<close>

theorem Int_GCD_bezout:
  assumes "good h" and "writable h z" and "\<forall>p \<in> set_option x \<union> set_option y. writable h p" and "a < fresh h" and "b < fresh h"
    and "z \<notin> set_option x \<union> set_option y" and "set_option x \<inter> set_option y = {}"
    and "divisor_ok (int_at h a)" and "divisor_ok (int_at h b)"
  shows "\<exists>h'. Int_GCD z x y a b h = Some (Inr h') \<and> int_at h' z = gcd (int_at h a) (int_at h b) \<and>
    (\<forall>p < fresh h. p \<notin> {z} \<union> set_option x \<union> set_option y \<longrightarrow> int_at h' p = int_at h p) \<and>
    (\<forall>p q. x = Some p \<and> y = Some q \<longrightarrow> int_at h a * int_at h' p + int_at h b * int_at h' q = gcd (int_at h a) (int_at h b)) \<and>
    (\<forall>p. x = Some p \<longrightarrow> int_at h b dvd gcd (int_at h a) (int_at h b) - int_at h a * int_at h' p \<and>
      (int_at h b \<noteq> 0 \<longrightarrow> gcd (int_at h a) (int_at h b) * \<bar>int_at h' p\<bar> < \<bar>int_at h b\<bar>)) \<and>
    (\<forall>q. y = Some q \<longrightarrow> int_at h a dvd gcd (int_at h a) (int_at h b) - int_at h b * int_at h' q) \<and>
    (int_at h a = 0 \<or> int_at h b = 0 \<longrightarrow> (\<forall>p. x = Some p \<longrightarrow> int_at h' p = sgn (int_at h a)) \<and>
      (\<forall>q. y = Some q \<longrightarrow> int_at h' q = sgn (int_at h b))) \<and>
    (good h' \<longleftrightarrow> \<not> (\<exists>p. x = Some p \<and> int_at h a < 0 \<and> int_at h' p = 0))"
proof -
  let ?a = "int_at h a" and ?b = "int_at h b"
  obtain h' w X where G: "Int_GCD z x y a b h = Some (Inr h')" "gcd_result h z x y ?a ?b h' w X"
    "x \<noteq> None \<or> y \<noteq> None \<longrightarrow> ?b dvd gcd ?a ?b - ?a * X \<and> (?b \<noteq> 0 \<longrightarrow> gcd ?a ?b * \<bar>X\<bar> < \<bar>?b\<bar>)"
    "\<forall>p. x = Some p \<longrightarrow> (is_neg h' p \<longleftrightarrow> X < 0 \<or> ?a < 0 \<and> X = 0)"
    "?a = 0 \<or> ?b = 0 \<longrightarrow> X = sgn ?a \<and> (\<forall>q. y = Some q \<longrightarrow> w q = sgn ?b)"
    using Int_GCD_ok [OF assms] by blast
  have wx: "\<forall>p. x = Some p \<longrightarrow> writable h p \<and> (is_neg h' p \<longleftrightarrow> X < 0 \<or> ?a < 0 \<and> X = 0)" using G(4) assms(3) by simp
  note R = result_good [OF G(2) wx]
  have lt: "z < fresh h" "\<And>p. x = Some p \<or> y = Some p \<Longrightarrow> p < fresh h" using assms(2,3) by (auto simp: writable_def)
  have W: "w z = gcd ?a ?b" "\<forall>p < fresh h. p \<notin> {z} \<union> set_option x \<union> set_option y \<longrightarrow> w p = int_at h p" "\<forall>p. x = Some p \<longrightarrow> w p = X"
    "\<forall>p. y = Some p \<longrightarrow> ?a * X + ?b * w p = gcd ?a ?b" using G(2) by (simp_all add: gcd_result_def)
  have x: "int_at h' p = X" if "x = Some p" for p using R(2) lt(2) W(3) that by simp
  have y: "?a * X + ?b * int_at h' q = gcd ?a ?b" if "y = Some q" for q using R(2) lt(2) W(4) that by simp
  have "?a dvd gcd ?a ?b - ?b * int_at h' q" if "y = Some q" for q by (rule dvdI [of _ _ X]) (use y [OF that] in linarith)
  moreover have "(\<forall>p. x = Some p \<longrightarrow> int_at h' p = sgn ?a) \<and> (\<forall>q. y = Some q \<longrightarrow> int_at h' q = sgn ?b)" if "?a = 0 \<or> ?b = 0"
    using G(5) that x R(2) lt(2) by auto
  moreover have "good h' \<longleftrightarrow> \<not> (\<exists>p. x = Some p \<and> ?a < 0 \<and> int_at h' p = 0)" unfolding R(1) using x by auto
  ultimately show ?thesis using G(1,3) R(2) lt(1) W(1,2) x y by (intro exI [of _ h']) simp
qed

lemma small_divisor: "\<bar>a\<bar> < 2 ^ 64 \<Longrightarrow> divisor_ok a"
proof -
  assume a: "\<bar>a\<bar> < 2 ^ 64"
  have "2 \<le> B" "int B = 2 ^ 64" by (simp_all add: B_def)
  moreover from this have "B ^ 1 \<le> B ^ (B - 1)" by (intro power_increasing) linarith+
  then have "int B \<le> int (B ^ (B - 1))" unfolding of_nat_le_iff power_one_right .
  ultimately show ?thesis using a unfolding divisor_ok_def by linarith
qed

text \<open>A store with given numbers.\<close>

lemma numbers_store:
  assumes "\<forall>i \<in> set is. - (2 ^ 63) \<le> i \<and> i < 2 ^ 63"
  shows "\<exists>h. good h \<and> fresh h = length is + 1 \<and> (\<forall>k < length is. int_at h (k + 1) = is ! k)"
  using assms
proof (induction "is" rule: rev_induct)
  case Nil
  show ?case using initial_good by (intro exI [of _ initial_store]) (simp add: initial_store_def)
next
  case (snoc i js)
  then obtain h where h: "good h" "fresh h = length js + 1" "\<forall>k < length js. int_at h (k + 1) = js ! k" by auto
  obtain p h' where n: "NewInt (word_of_int i) h = (p, h')" by fastforce
  note N = NewInt_ok [OF h(1) n]
  have "sint (word_of_int i :: u64) = i" using snoc.prems by (simp add: int_word_sint)
  then have p: "int_at h' p = i" "p = length js + 1" "fresh h' = length js + 2" using N(2-4) h(2) by simp_all
  have "int_at h' (k + 1) = (js @ [i]) ! k" if "k < length js + 1" for k
    using that p h(2,3) reachD(2) [OF N(1), of "k + 1"] by (cases "k = length js") (simp_all add: nth_append)
  then show ?case using reachD(1) [OF N(1)] p(3) by (intro exI [of _ h']) simp
qed

lemma Int_GCD_bezout_witness:
  "\<exists>h h'. good h \<and> Int_GCD 1 (Some 2) (Some 3) 4 5 h = Some (Inr h') \<and> int_at h' 1 = 6 \<and> - 12 * int_at h' 2 + 18 * int_at h' 3 = 6"
proof -
  let ?is = "[0, 0, 0, - 12, 18] :: int list"
  have "\<forall>i \<in> set ?is. - (2 ^ 63) \<le> i \<and> i < 2 ^ 63" by simp
  from numbers_store [OF this] obtain h where h: "good h" "fresh h = length ?is + 1" "\<forall>k < length ?is. int_at h (k + 1) = ?is ! k" by blast
  have v: "int_at h 4 = - 12" "int_at h 5 = 18" using h(3) [rule_format, of 3] h(3) [rule_format, of 4] by simp_all
  have ok: "divisor_ok (- 12)" "divisor_ok 18" by (simp_all add: small_divisor)
  have g: "gcd (- 12) 18 = (6 :: int)" by (simp add: gcd_non_0_int)
  show ?thesis using Int_GCD_bezout [of h 1 "Some 2" "Some 3" 4 5, unfolded v g] h(1,2) ok
    by (auto simp: writable_def intOne_def)
qed

text \<open>
  The zero with a sign: when the second argument divides a negative first one, the first coefficient compares below zero
  although its sign is zero.
\<close>

lemma GCD_negative_zero:
  assumes "good h" and "writable h z" and "writable h p" and "a < fresh h" and "b < fresh h" and "k < fresh h"
    and "z \<noteq> p" and "k \<noteq> z" and "k \<noteq> p" and "divisor_ok (int_at h a)" and "divisor_ok (int_at h b)"
    and "int_at h a < 0" and "int_at h b \<noteq> 0" and "int_at h b dvd int_at h a" and "int_at h k = 0"
  shows "\<exists>h'. Int_GCD z (Some p) None a b h = Some (Inr h') \<and> Int_Sign h' p = 0 \<and> Int_Cmp h' p k = -1"
proof -
  let ?a = "int_at h a" and ?b = "int_at h b"
  have g: "gcd ?a ?b = \<bar>?b\<bar>" using assms(14) by (metis gcd_proj2_if_dvd_int)
  obtain h' w X where G: "Int_GCD z (Some p) None a b h = Some (Inr h')" "gcd_result h z (Some p) None ?a ?b h' w X"
    "gcd ?a ?b * \<bar>X\<bar> < \<bar>?b\<bar>" "is_neg h' p \<longleftrightarrow> X < 0 \<or> ?a < 0 \<and> X = 0"
    using Int_GCD_ok [OF assms(1,2) _ assms(4,5), of "Some p" None] assms by auto
  have X: "X = 0"
  proof (rule ccontr)
    assume "X \<noteq> 0"
    then have "\<bar>?b\<bar> * 1 \<le> \<bar>?b\<bar> * \<bar>X\<bar>" by (intro mult_left_mono) simp_all
    then show False using G(3) unfolding g by simp
  qed
  have st: "stores {p} (fresh h) h' w" "w p = 0" "w k = 0" using G(2) assms X by (auto simp: gcd_result_def)
  have lt: "p < fresh h'" "k < fresh h'" and at: "int_at h' p = 0" "int_at h' k = 0" using stores_at(1,2) [OF st(1)] assms(3,6) st(2,3) by (simp_all add: writable_def)
  have gb: "good_but {p} h'" using st(1) by (simp add: stores_def)
  have "val (abs_of h' p) = 0" using read_but(2) [OF gb lt(1)] at(1) by simp
  then have e: "abs_of h' p = []" using val_0 read_but(1) [OF gb lt(1)] by blast
  have "int_ok (ints h' k)" using gb lt(2) assms(9) by (simp add: good_but_def)
  then have "\<not> is_neg h' k" using at(2) by (auto simp: int_ok_def is_neg_def int_at_def int_val_def val_0)
  moreover have "is_neg h' p" using G(4) X assms(12) by simp
  ultimately show ?thesis using G(1) e assms(9) by (auto simp: Int_Sign_def Int_Cmp_def)
qed

text \<open>C27. \<open>ModInverse\<close> always returns or panics.  When the number and the modulus are coprime, it stores in its target,
  and returns, an inverse that is not negative and is below the absolute value of a modulus other than zero; otherwise it
  returns nil and changes nothing.  It panics only for the modulus zero and a negative number: for the modulus zero and
  another number it does not panic, against its documentation, but returns one for one and nil for the rest.  The target
  may be the number or the modulus, and both may be negative.
\<close>

theorem Int_ModInverse_correct:
  assumes "writable h z" and "g < fresh h" and "n < fresh h" and "divisor_ok (int_at h g)" and "divisor_ok (int_at h n)"
  shows "if int_at h n = 0 \<and> int_at h g < 0 then Int_ModInverse z g n h = Some (Inl (PanicMsg ''division by zero''))
    else \<exists>r h'. Int_ModInverse z g n h = Some (Inr (r, h')) \<and> good h' \<and>
      (if coprime (int_at h g) (int_at h n)
       then r = Some z \<and> 0 \<le> int_at h' z \<and> (int_at h n \<noteq> 0 \<longrightarrow> int_at h' z < \<bar>int_at h n\<bar>) \<and>
         int_at h n dvd 1 - int_at h g * int_at h' z \<and> (\<forall>p < fresh h. p \<noteq> z \<longrightarrow> int_at h' p = int_at h p)
       else r = None \<and> (\<forall>p < fresh h. int_at h' p = int_at h p))"
proof (cases "int_at h n = 0")
  case True
  have z: "z < fresh h" using assms(1) by (simp add: writable_def)
  have c: "coprime (int_at h g) 0 \<longleftrightarrow> int_at h g = 1" if "0 \<le> int_at h g" using that by auto
  show ?thesis using Int_ModInverse_zero [OF assms(1-3) True assms(4)] c z True
    by (cases "int_at h g = 1") (auto simp: reach_def split: if_splits)
next
  case False
  have z: "z < fresh h" using assms(1) by (simp add: writable_def)
  obtain r h' where R: "Int_ModInverse z g n h = Some (Inr (r, h'))"
    "if coprime (int_at h g) (int_at h n)
     then \<exists>i. r = Some z \<and> reach h h' ((int_at h)(z := i)) \<and> 0 \<le> i \<and> i < \<bar>int_at h n\<bar> \<and> int_at h n dvd 1 - int_at h g * i
     else r = None \<and> reach h h' (int_at h)"
    using Int_ModInverse_ok [OF assms(1-3) False assms(4,5)] by blast
  then show ?thesis using z False by (auto simp: reach_def)
qed

lemma Int_ModInverse_correct_witness: "\<exists>h h'. good h \<and> Int_ModInverse 1 2 3 h = Some (Inr (Some 1, h')) \<and> int_at h' 1 = 5"
proof -
  let ?is = "[0, 3, - 7] :: int list"
  have "\<forall>i \<in> set ?is. - (2 ^ 63) \<le> i \<and> i < 2 ^ 63" by simp
  from numbers_store [OF this] obtain h where h: "good h" "fresh h = length ?is + 1" "\<forall>k < length ?is. int_at h (k + 1) = ?is ! k" by blast
  have v: "int_at h 2 = 3" "int_at h 3 = - 7" using h(3) [rule_format, of 1] h(3) [rule_format, of 2] by (simp_all add: numeral_2_eq_2 numeral_3_eq_3)
  have ok: "divisor_ok 3" "divisor_ok (- 7)" by (simp_all add: small_divisor)
  have c: "coprime 3 (- 7 :: int)" by (simp add: coprime_iff_gcd_eq_1 gcd_non_0_int)
  have "writable h 1" using h(1,2) by (simp add: writable_def intOne_def)
  from Int_ModInverse_correct [OF this, of 2 3, unfolded v] c ok h(2) obtain h'
    where r: "Int_ModInverse 1 2 3 h = Some (Inr (Some 1, h'))" "0 \<le> int_at h' 1" "int_at h' 1 < 7" "- 7 dvd 1 - 3 * int_at h' 1" by auto
  have "7 dvd 5 * (1 - 3 * int_at h' 1) + 7 * (2 * int_at h' 1)" using r(4) by (intro dvd_add dvd_mult dvd_triv_left) simp
  then have "7 dvd 5 - int_at h' 1" by (simp add: algebra_simps)
  then have "5 - int_at h' 1 = 0" using r(2,3) dvd_imp_le_int [of "5 - int_at h' 1" 7] by fastforce
  then have "int_at h' 1 = 5" by simp
  then show ?thesis using h(1) r(1) by blast
qed

end
