(* ===== verification/Spec2Isabelle.thy ===== *)
theory Spec2Isabelle
  imports Bits_Spec Slices_Stable_Correct Abt_Spec Utf8_Correct Buffer_Correct Strconv_Correct Chan_Correct Big_Correct Big_Int_Run Big_Gcd_Correct
begin

text \<open>
  A verification library for parts of the Go distribution (release 1.22.5, under \<^verbatim>\<open>src/go/src\<close>): pieces of the
  standard library and of the run-time system whose logic is their own, from the bits of a word up to the
  channels of goroutines.  File names below are relative to \<^verbatim>\<open>src/go/src\<close>.

  \<^bold>\<open>Reading the models.\<close>  A definition has the name of the Go function that it translates; a loop is a function
  of its own with the name of the Go function and a suffix, and a clash with an Isabelle name or keyword is
  resolved by a small change (\<open>aInsert\<close>, \<open>chan_empty\<close>, \<open>Size_'\<close>).  Go's \<open>uint8\<close> .. \<open>uint64\<close> are words of that
  width (theory \<open>Prelude\<close>); \<open>int\<close> and \<open>uint\<close> have 64 bits.  An index or a length that the code keeps in range is a
  natural number, one that it may take below zero an integer.  A run-time panic is a value: \<open>'a go\<close> is a panic or
  a result, and in \<open>Pdqsort\<close> and in \<open>Chan\<close> an index out of range is \<open>None\<close>; so a statement that a function
  returns some value also says that it does not panic and that it ends.  Loops are total functions with a measure.
  Where a loop has no measure on its arguments (\<open>dequeue\<close>, the loops of \<open>closechan\<close>, the buffer's \<open>ReadFrom\<close>
  on an arbitrary reader, iterators, the loops of \<open>formatBits\<close>, \<open>RuneCount\<close> and \<open>Valid\<close>), it is \<open>partial_function (option)\<close> with \<open>None\<close> for an endless loop, and its
  lemmas show that it returns.  Slices of which only the elements matter are lists.

  \<^bold>\<open>Parts.\<close>

  \<^item> \<open>Bits\<close> translates \<^verbatim>\<open>math/bits/bits.go\<close> and its tables.  \<open>Bits_Count\<close>, \<open>Bits_Reverse\<close> and \<open>Bits_Arith\<close> show what
    the bit tricks compute (parallel sums, reversal by halves, schoolbook products, Knuth's division with two
    corrections of the trial digit), \<open>Bits_Spec\<close> states it: C2 to C7.

  \<^item> \<open>Order\<close> translates \<^verbatim>\<open>cmp/cmp.go\<close> and holds the contracts of comparison functions (locales for strict weak and
    linear orders, with \<open>cmp.Compare\<close> as an instance).  \<open>Pdqsort\<close> translates \<^verbatim>\<open>slices/zsortanyfunc.go\<close>:
    insertion sort, heap sort, the two partitions, pattern breaking and pivot choice, and the main loop.
    \<open>Pdqsort_Partition\<close>, \<open>Pdqsort_Parts\<close> and \<open>Pdqsort_Correct\<close> prove each routine; \<open>Slices_Sort\<close> adds
    \<^verbatim>\<open>slices/sort.go\<close> and states C8 and C10.  The recursion on the larger half is the code's loop; its measure is
    the length of the range.  \<open>Slices_Stable\<close> translates the stable sort (insertion sort of blocks, merging in place by
    rotations), \<open>Slices_Stable_Correct\<close> shows that it only ever exchanges neighbouring ranges that are in strictly
    wrong order, and states C9.

  \<^item> \<open>Abt\<close> translates \<^verbatim>\<open>cmd/compile/internal/abt/avlint32.go\<close>, applicative AVL trees with a Go \<open>int8\<close> height.  A
    tree is a datatype; sharing, which \<open>Equals\<close> tests by pointer, is a parameter.  \<open>Abt_Avl\<close> proves balance,
    order and the height bound, \<open>Abt_Map\<close> the operations as updates of a finite map, \<open>Abt_Spec\<close> the set operations,
    comparison and bounds: C11 to C16.  C13 gives the data at every key of a union, an intersection and a difference,
    for every \<open>f\<close> and for none, and the exceptions of C14.  Go's comparison of interface values is equality, so that
    data are of comparable types without a NaN.  C14 is a fault of \<open>Union\<close> (and of \<open>Intersection\<close>): the combined value is
    compared with the wrong operand, so that the result can keep the other data.

  \<^item> \<open>Utf8\<close> translates \<^verbatim>\<open>unicode/utf8/utf8.go\<close>.  \<open>Utf8_Spec\<close> relates its tables and bit masks to the encoding as
    arithmetic on bytes, \<open>Utf8_Correct\<close> states C17 to C20.

  \<^item> \<open>Buffer\<close> translates \<^verbatim>\<open>bytes/buffer.go\<close>.  A slice is its backing memory and its length.  How much capacity
    \<open>append\<close> gives is up to the run-time system: the allocator is a parameter \<open>alloc\<close>, with the one hypothesis
    that it gives at least what is asked.  Readers and writers are state machines given as functions.
    \<open>Buffer_Spec\<close> reads a buffer as a queue of bytes and says exactly when a growth panics (\<open>too_large\<close>) and how much
    memory rules that out (\<open>too_large_memory\<close>), \<open>Buffer_Queue\<close> is the contract with its panics (\<open>panic_of\<close>), the
    refinement, and what is unread after each operation (\<open>unreads\<close>),
    \<open>Buffer_Correct\<close> states C21 to C24 over the locales \<open>byte_queue\<close> and \<open>io_reader\<close>, which the buffer's own
    \<open>Write\<close>, \<open>Next\<close> and \<open>Read\<close> interpret.  The contract follows the code where this departs from
    the documentation of \<open>UnreadByte\<close>: after an empty \<open>ReadBytes\<close> (C24) and after \<open>Grow\<close> (\<open>UnreadByte_after_Grow\<close>).

  \<^item> \<open>Strconv\<close> translates \<^verbatim>\<open>strconv/atoi.go\<close> and \<^verbatim>\<open>strconv/itoa.go\<close>.  \<open>Strconv_Format\<close> shows the digits that are
    written on each path (two digits at a time, powers of two, small numbers), \<open>Strconv_Parse\<close> the value that is
    read and the exactness of the two overflow tests, \<open>Strconv_Correct\<close> states C25, C26, C28 and C29.  C25 is an equation
    with a specification on natural numbers (\<open>parse_uint\<close>), base 0 with its prefixes and underscores included.
    \<open>ParseInt_one_bit\<close> is a fault of \<open>ParseInt\<close> for numbers of one bit.

  \<^item> \<open>Chan\<close> translates \<^verbatim>\<open>runtime/chan.go\<close> with the few functions it calls: channels as a ring buffer and two
    doubly linked queues of blocked goroutines in a store.  What happens under the channel's lock is one
    transition (the unlocked fast paths and the writes to a goroutine that has just left a queue included: the
    code argues that they may be placed there); a goroutine that parks ends its transition, and returning after
    the wake-up is another.  \<open>Chan_Queue\<close> is about the linked lists, \<open>Chan_Spec\<close> gives the bounded queue of the
    language and the two transition systems, \<open>Chan_Sim\<close> and \<open>Chan_Refine\<close> show that each operation implements
    its specification, \<open>Chan_Run\<close> lifts it to runs (locales \<open>simulation\<close> and \<open>bisimulation\<close>), \<open>Chan_Fifo\<close> proves
    order of delivery and bounded waiting of the abstract channel, \<open>Chan_Correct\<close> states C30 to C36.

  \<^item> \<open>Big_Vec\<close> translates \<^verbatim>\<open>math/big/arith.go\<close> (with the portable \<^verbatim>\<open>arith_decl_pure.go\<close>), \<open>Big_Nat\<close> the sums,
    differences, comparison and products of \<^verbatim>\<open>math/big/nat.go\<close>, \<open>Big_Div\<close> the division of \<^verbatim>\<open>math/big/natdiv.go\<close>.
    A number that is written is a slice (the words up to its capacity, and its length), one that is only read is a
    list of words; the temporaries come from a pool whose contents are an argument; whether slices share an array,
    which the code asks of \<open>alias\<close>, is an argument too.  Calls in place are calls on copies, since every loop reads
    at an index before it writes there.  \<open>Big_Vec_Spec\<close> and \<open>Big_DivWW\<close> read the vectors as numbers in base
    \<open>2 ^ 64\<close>, \<open>Big_Nat_Spec\<close>, \<open>Big_Karatsuba\<close>, \<open>Big_Mul\<close>, \<open>Big_Div_Spec\<close>, \<open>Big_Div_Rec\<close> and \<open>Big_Div_Correct\<close> prove the
    algorithms, \<open>Big_Correct\<close> states C37 to C39.  Division assumes that the divisor has less than \<open>2 ^ 64\<close> words
    (a Go length is an \<open>int\<close>); the recursions end by the lengths of the operands.

  \<^item> \<open>Big_Bits\<close>, \<open>Big_Sqr\<close> and \<open>Big_Sqrt\<close> translate the rest of the arithmetic of \<^verbatim>\<open>math/big/nat.go\<close>: lengths in bits, shifts,
    single bits, bitwise operations and bytes; squares (by products of different words, or Karatsuba's method) and
    products of ranges; the square root.  \<open>Big_Bits_Spec\<close>, \<open>Big_Bytes_Spec\<close> and \<open>Big_Sqr_Spec\<close> say what they compute;
    \<open>Big_Sqrt\<close> shows that Newton's iteration from above ends, by the value of the approximation, at the root.

  \<^item> \<open>Big_Int\<close> translates the signed numbers of \<^verbatim>\<open>math/big/int.go\<close>.  Its methods take pointers, any of which may be
    equal: an \<open>Int\<close> is at an address of a store, a method is a function from store to store, a local variable takes a
    free address, and the array of a magnitude belongs to one \<open>Int\<close> alone (the package forbids shallow copies), so
    that \<open>alias\<close> is equality of addresses.  \<open>Big_Int_Spec\<close> (arithmetic, both divisions) and \<open>Big_Int_Bits_Spec\<close> (two's
    complement, shifts, conversions, square root) give each method's effect on the integers at all addresses
    (\<open>gives\<close>); \<open>Big_Int_Run\<close> runs programs of calls on the store and on integers side by side and states C40 by the
    locale \<open>call_refinement\<close>.  Its hypotheses (\<open>call_ok\<close>) are that addresses are allocated and that divisors
    and radicands have at most \<open>2 ^ 64 - 2\<close> words.  Addresses may be shared in every way.  The result of \<open>DivMod\<close> on
    shared addresses is \<open>div_mod_result\<close>: with the divisor as the target of the remainder the method corrects by the
    wrong number (\<open>Int_DivMod_shared\<close>), though the package documents that arguments may be shared.

  \<^item> \<open>Big_Gcd\<close> translates \<open>GCD\<close> and \<open>ModInverse\<close> of \<^verbatim>\<open>math/big/int.go\<close>: Lehmer's algorithm, which simulates steps of Euclid's
    algorithm on the leading words and applies them at once.  Its loop over the store is an option, \<open>None\<close> when it does
    not end.  \<open>Big_Gcd_Steps\<close> shows that the simulation does not wrap a word around and gives rows that may be applied
    (Collins' condition), and that every step keeps the invariant of the coefficients; \<open>Big_Gcd_Store\<close> follows the
    temporaries, which for a moment hold zeros with a sign (\<open>stores\<close>); \<open>Big_Gcd_Spec\<close> proves the loop, which ends because the
    sum of the remainders decreases, and the assignment of the results; \<open>Big_Gcd_Correct\<close> states C1 and C27.  Two faults came
    out: the first coefficient of \<open>GCD\<close> can be a zero with a sign, which compares below zero (\<open>GCD_negative_zero\<close>), and
    \<open>ModInverse\<close> with the modulus zero panics only for a negative number (\<open>Int_ModInverse_zero\<close>, C27), though it is documented to
    panic for all.

  \<^bold>\<open>How the parts meet.\<close>  All use \<open>Prelude\<close>: words, panics, checked slice access.  The buffer reads and writes
  runes with the model of \<^verbatim>\<open>unicode/utf8\<close>; formatting takes its shift from \<open>TrailingZeros\<close> of \<^verbatim>\<open>math/bits\<close>, and
  pattern breaking in the sort its masks from \<open>Len\<close>; the words of \<^verbatim>\<open>math/big\<close> are added, multiplied, divided and
  counted by \<^verbatim>\<open>math/bits\<close>.  Their lemmas are used there and not proved again.

  \<^bold>\<open>Not modelled.\<close>  In the files above: the \<open>String\<close> method of \<open>abt\<close>, the copies of the sort that are generated for
  ordered types (they differ from the one here by \<open>cmp.Less\<close> alone), channel operations by
  \<open>select\<close> (though \<open>dequeue\<close> meets waiting selects, C31), and what channels do for the race detector, the
  profilers and the stack copier; of \<^verbatim>\<open>math/big\<close>, exponentiation and what is built on it (Jacobi symbols, roots modulo a prime), binomials, conversion to text and floating point, and random
  numbers.  Elsewhere: the compiler, the linker and the \<^verbatim>\<open>go\<close> command, the scheduler, the
  garbage collector and the allocator, which work on raw memory; networking, files and system calls, which are
  input and output; cryptography; floating-point conversion, which needs a model of IEEE 754; the Helm charts and
  the documentation beside the Go tree, which hold no program.
\<close>

end
